(* ===== verification/Prelude.thy ===== *)
theory Prelude
  imports Main "HOL-Library.AList"
begin

section \<open>Shared vocabulary of the component theories\<close>

text \<open>
  What several components share: the ordered maps that model the JavaScript \<open>Map\<close> objects of
  the code, the contracts of a state machine (an invariant kept by every operation, a counter
  that only grows and makes old tokens stale), and the generic list lemmas their proofs use.
\<close>

named_theorems step_simps \<open>equations of the operations of the state machines\<close>
named_theorems inv_intros \<open>preservation lemmas of the invariants\<close>

subsection \<open>Ordered maps\<close>

text \<open>
  A JavaScript \<open>Map\<close> iterates in insertion order; setting a present key keeps its position.
  The model is an association list with distinct keys.
\<close>

type_synonym ('k, 'v) jsmap = "('k \<times> 'v) list"

definition mget :: "('k, 'v) jsmap \<Rightarrow> 'k \<Rightarrow> 'v option" where
  "mget m k = map_of m k"

definition mput :: "'k \<Rightarrow> 'v \<Rightarrow> ('k, 'v) jsmap \<Rightarrow> ('k, 'v) jsmap" where
  "mput k v m = AList.update k v m"

definition mdel :: "'k \<Rightarrow> ('k, 'v) jsmap \<Rightarrow> ('k, 'v) jsmap" where
  "mdel k m = filter (\<lambda>e. fst e \<noteq> k) m"

definition mhas :: "('k, 'v) jsmap \<Rightarrow> 'k \<Rightarrow> bool" where
  "mhas m k = (k \<in> set (map fst m))"

definition mkeys :: "('k, 'v) jsmap \<Rightarrow> 'k list" where
  "mkeys m = map fst m"

definition mvals :: "('k, 'v) jsmap \<Rightarrow> 'v list" where
  "mvals m = map snd m"

definition mwf :: "('k, 'v) jsmap \<Rightarrow> bool" where
  "mwf m = distinct (map fst m)"

locale ordered_map =
  fixes get :: "'m \<Rightarrow> 'k \<Rightarrow> 'v option"
    and put :: "'k \<Rightarrow> 'v \<Rightarrow> 'm \<Rightarrow> 'm"
    and del :: "'k \<Rightarrow> 'm \<Rightarrow> 'm"
    and has :: "'m \<Rightarrow> 'k \<Rightarrow> bool"
    and keys :: "'m \<Rightarrow> 'k list"
    and wf :: "'m \<Rightarrow> bool"
  assumes get_put: "get (put k v m) j = (if j = k then Some v else get m j)"
    and get_del: "get (del k m) j = (if j = k then None else get m j)"
    and has_get: "has m k = (get m k \<noteq> None)"
    and keys_put: "keys (put k v m) = (if has m k then keys m else keys m @ [k])"
    and keys_del: "keys (del k m) = filter (\<lambda>j. j \<noteq> k) (keys m)"
    and wf_keys: "wf m = distinct (keys m)"
    and has_keys: "has m k = (k \<in> set (keys m))"
begin

lemma wf_put: "wf m \<Longrightarrow> wf (put k v m)"
  by (simp add: wf_keys keys_put has_keys)

lemma wf_del: "wf m \<Longrightarrow> wf (del k m)"
  by (simp add: wf_keys keys_del)

lemma has_put: "has (put k v m) j = (j = k \<or> has m j)"
  by (simp add: has_get get_put)

lemma has_del: "has (del k m) j = (j \<noteq> k \<and> has m j)"
  by (simp add: has_get get_del)

lemma size_put: "length (keys (put k v m)) = (if has m k then length (keys m) else Suc (length (keys m)))"
  by (simp add: keys_put)

end

lemma map_fst_update: "map fst (AList.update k v m) = (if k \<in> set (map fst m) then map fst m else map fst m @ [k])"
  by (induction m) auto

lemma map_of_filter_key: "map_of (filter (\<lambda>e. fst e \<noteq> k) m) j = (if j = k then None else map_of m j)"
  by (induction m) auto

lemma map_fst_filter_key: "map fst (filter (\<lambda>e. fst e \<noteq> k) m) = filter (\<lambda>j. j \<noteq> k) (map fst m)"
  by (induction m) auto

interpretation om: ordered_map mget mput mdel mhas mkeys mwf
proof (standard, goal_cases)
  case (1 k v m j) show ?case by (simp add: mget_def mput_def update_conv)
next
  case (2 k m j) show ?case by (simp add: mget_def mdel_def map_of_filter_key)
next
  case (3 m k) show ?case by (simp add: mget_def mhas_def map_of_eq_None_iff)
next
  case (4 k v m) show ?case by (simp add: mkeys_def mput_def mhas_def map_fst_update)
next
  case (5 k m) show ?case by (simp add: mkeys_def mdel_def map_fst_filter_key)
next
  case (6 m) show ?case by (simp add: mwf_def mkeys_def)
next
  case (7 m k) show ?case by (simp add: mhas_def mkeys_def)
qed

lemmas om_simps = om.get_put om.get_del om.has_put om.has_del om.keys_put om.keys_del

lemma mget_Nil [simp]: "mget [] k = None" by (simp add: mget_def)
lemma mhas_Nil [simp]: "\<not> mhas [] k" by (simp add: mhas_def)
lemma mwf_Nil [simp]: "mwf []" by (simp add: mwf_def)

lemma mget_mem: "mget m k = Some v \<Longrightarrow> (k, v) \<in> set m"
  by (simp add: mget_def map_of_SomeD)

lemma mget_iff_mem: "mwf m \<Longrightarrow> mget m k = Some v \<longleftrightarrow> (k, v) \<in> set m"
  by (simp add: mget_def mwf_def)

lemma mem_mput: "mwf m \<Longrightarrow> (j, w) \<in> set (mput k v m) \<longleftrightarrow> (if j = k then w = v else (j, w) \<in> set m)"
  by (metis mget_iff_mem om.get_put om.wf_put option.inject)

lemma mem_mdel: "(j, w) \<in> set (mdel k m) \<longleftrightarrow> j \<noteq> k \<and> (j, w) \<in> set m"
  by (auto simp: mdel_def)

subsection \<open>State machines\<close>

text \<open>
  A component is a step function over its operations. The first contract is an invariant that
  every operation keeps; the second adds a counter that never decreases and that some
  operations advance, which is how the code recognises stale callbacks.
\<close>

locale invariant_machine =
  fixes step :: "'s \<Rightarrow> 'e \<Rightarrow> 's"
    and inv :: "'s \<Rightarrow> bool"
  assumes inv_step: "inv s \<Longrightarrow> inv (step s e)"
begin

lemma inv_run: "inv s \<Longrightarrow> inv (foldl step s es)"
  by (induction es arbitrary: s) (auto intro: inv_step)

end

locale generation_machine =
  fixes step :: "'s \<Rightarrow> 'e \<Rightarrow> 's"
    and gen :: "'s \<Rightarrow> nat"
    and bumps :: "'s \<Rightarrow> 'e \<Rightarrow> bool"
  assumes gen_mono: "gen s \<le> gen (step s e)"
    and gen_bump: "bumps s e \<Longrightarrow> gen s < gen (step s e)"
begin

lemma gen_run_mono: "gen s \<le> gen (foldl step s es)"
proof (induction es arbitrary: s)
  case (Cons e es)
  have "gen s \<le> gen (step s e)" by (rule gen_mono)
  also have "\<dots> \<le> gen (foldl step (step s e) es)" by (rule Cons.IH)
  finally show ?case by simp
qed simp

lemma stale_after_bump:
  assumes "bumps s e"
  shows "gen (foldl step (step s e) es) \<noteq> gen s"
  using gen_bump [OF assms] gen_run_mono [of "step s e" es] by simp

end

subsection \<open>Lists and options\<close>

lemma foldl_snoc_eq: "foldl f s (xs @ [x]) = f (foldl f s xs) x"
  by simp

lemma sum_list_snoc: "sum_list (xs @ [x]) = sum_list xs + (x :: nat)"
  by simp

lemma filter_neq_length_less: "x \<in> set xs \<Longrightarrow> length (filter (\<lambda>y. y \<noteq> x) xs) < length xs"
  by (metis (mono_tags, lifting) length_filter_less)

lemma distinct_snoc: "distinct (xs @ [x]) \<longleftrightarrow> distinct xs \<and> x \<notin> set xs"
  by auto

end
