(* ===== verification/Js.thy ===== *)
theory Js
  imports Prelude Complex_Main
begin

section \<open>The JavaScript values and conversions the code uses\<close>

text \<open>
  The code normalises values of unknown type with \<open>String(\<dots>)\<close>, \<open>Number(\<dots>)\<close>,
  \<open>trim\<close>, \<open>Math.floor\<close> and the test \<open>/^\d+$/\<close> before \<open>BigInt(\<dots>)\<close>. This theory models
  those functions on the primitive values. Numbers are exact: a finite number is a rational,
  without the rounding (and the overflow to infinity) of binary64. Characters are code units below 256.
  The text of a non-integral number, or of one from \<open>10^21\<close> on, is given with the point or the exponent
  JavaScript prints, but not its shortest digits; the code only ever tests whether such a text is
  all digits.
\<close>

subsection \<open>Characters and trimming\<close>

definition js_space :: "char \<Rightarrow> bool" where
  "js_space c = (of_char c \<in> {9, 10, 11, 12, 13, 32, 160 :: nat})"

definition js_trim :: "string \<Rightarrow> string" where
  "js_trim s = rev (dropWhile js_space (rev (dropWhile js_space s)))"

definition is_digit :: "char \<Rightarrow> bool" where
  "is_digit c = (48 \<le> (of_char c :: nat) \<and> (of_char c :: nat) \<le> 57)"

definition all_digits :: "string \<Rightarrow> bool" where
  "all_digits s = (s \<noteq> [] \<and> list_all is_digit s)"

definition digit_val :: "char \<Rightarrow> nat" where
  "digit_val c = of_char c - 48"

definition digit_char :: "nat \<Rightarrow> char" where
  "digit_char n = char_of (48 + n)"

definition parse_nat :: "string \<Rightarrow> nat" where
  "parse_nat s = foldl (\<lambda>a c. 10 * a + digit_val c) 0 s"

fun nat_text :: "nat \<Rightarrow> string" where
  "nat_text n = (if n < 10 then [digit_char n] else nat_text (n div 10) @ [digit_char (n mod 10)])"

declare nat_text.simps [simp del]

lemma of_char_digit: "n < 10 \<Longrightarrow> (of_char (digit_char n) :: nat) = 48 + n"
  by (simp add: digit_char_def)

lemma is_digit_char [simp]: "n < 10 \<Longrightarrow> is_digit (digit_char n)"
  by (simp add: is_digit_def of_char_digit)

lemma digit_val_char [simp]: "n < 10 \<Longrightarrow> digit_val (digit_char n) = n"
  by (simp add: digit_val_def of_char_digit)

lemma parse_nat_snoc [simp]: "parse_nat (s @ [c]) = 10 * parse_nat s + digit_val c"
  by (simp add: parse_nat_def)

lemma parse_nat_text [simp]: "parse_nat (nat_text n) = n"
proof (induction n rule: nat_text.induct)
  case (1 n)
  show ?case
  proof (cases "n < 10")
    case True
    then show ?thesis by (simp add: nat_text.simps [of n] parse_nat_def)
  next
    case False
    with 1 show ?thesis by (simp add: nat_text.simps [of n])
  qed
qed

lemma all_digits_text [simp]: "all_digits (nat_text n)"
proof (induction n rule: nat_text.induct)
  case (1 n)
  show ?case
  proof (cases "n < 10")
    case True
    then show ?thesis by (simp add: nat_text.simps [of n] all_digits_def)
  next
    case False
    with 1 show ?thesis by (simp add: nat_text.simps [of n] all_digits_def)
  qed
qed

lemma nat_text_not_Nil [simp]: "nat_text n \<noteq> []"
  using all_digits_text [of n] by (auto simp: all_digits_def)

lemma digit_not_space: "is_digit c \<Longrightarrow> \<not> js_space c"
  by (auto simp: is_digit_def js_space_def)

lemma dropWhile_none: "list_all (\<lambda>c. \<not> P c) xs \<Longrightarrow> dropWhile P xs = xs"
  by (cases xs) auto

lemma js_trim_digits: "all_digits s \<Longrightarrow> js_trim s = s"
proof -
  assume "all_digits s"
  then have a: "list_all (\<lambda>c. \<not> js_space c) s"
    by (auto simp: all_digits_def list_all_iff digit_not_space)
  then have "list_all (\<lambda>c. \<not> js_space c) (rev s)" by (simp add: list_all_iff)
  with a show ?thesis by (simp add: js_trim_def dropWhile_none)
qed

lemma js_trim_text [simp]: "js_trim (nat_text n) = nat_text n"
  by (simp add: js_trim_digits)

lemma js_trim_Nil [simp]: "js_trim [] = []"
  by (simp add: js_trim_def)

lemma dropWhile_idem': "dropWhile P (dropWhile P xs) = dropWhile P xs"
  by (induction xs) auto

lemma dropWhile_rev_dropWhile:
  "dropWhile P (rev (dropWhile P (rev (dropWhile P xs)))) = rev (dropWhile P (rev (dropWhile P xs)))"
proof (induction xs)
  case (Cons x xs)
  show ?case
  proof (cases "P x")
    case True
    with Cons show ?thesis by simp
  next
    case False
    then show ?thesis by (simp add: dropWhile_append)
  qed
qed simp

lemma js_trim_idem [simp]: "js_trim (js_trim s) = js_trim s"
  by (simp add: js_trim_def dropWhile_rev_dropWhile dropWhile_idem')

subsection \<open>Numbers\<close>

datatype jnum = NaN | PosInf | NegInf | Fin rat

text \<open>The unsigned decimal literal of \<open>Number(text)\<close>: digits, an optional fraction, an optional exponent.\<close>

definition exp_part :: "string \<Rightarrow> int option" where
  "exp_part s = (case s of [] \<Rightarrow> Some 0
     | c # r \<Rightarrow> if c = CHR ''e'' \<or> c = CHR ''E'' then
         (case r of [] \<Rightarrow> None
          | d # r' \<Rightarrow> if d = CHR ''-'' then (if all_digits r' then Some (- int (parse_nat r')) else None)
             else if d = CHR ''+'' then (if all_digits r' then Some (int (parse_nat r')) else None)
             else if all_digits r then Some (int (parse_nat r)) else None)
       else None)"

definition scale10 :: "nat \<Rightarrow> int \<Rightarrow> rat" where
  "scale10 m e = (if 0 \<le> e then of_nat m * 10 ^ nat e else of_nat m / 10 ^ nat (- e))"

definition parse_decimal :: "string \<Rightarrow> jnum" where
  "parse_decimal s =
     (let ip = takeWhile is_digit s; r = dropWhile is_digit s;
          fp = (case r of [] \<Rightarrow> [] | c # r' \<Rightarrow> if c = CHR ''.'' then takeWhile is_digit r' else []);
          r2 = (case r of [] \<Rightarrow> [] | c # r' \<Rightarrow> if c = CHR ''.'' then dropWhile is_digit r' else r)
      in if ip = [] \<and> fp = [] then NaN
         else case exp_part r2 of None \<Rightarrow> NaN
              | Some e \<Rightarrow> Fin (scale10 (parse_nat (ip @ fp)) (e - int (length fp))))"

definition hex_val :: "char \<Rightarrow> nat option" where
  "hex_val c = (let n = of_char c :: nat in
     if 48 \<le> n \<and> n \<le> 57 then Some (n - 48)
     else if 97 \<le> n \<and> n \<le> 102 then Some (n - 87)
     else if 65 \<le> n \<and> n \<le> 70 then Some (n - 55) else None)"

fun parse_radix :: "nat \<Rightarrow> nat \<Rightarrow> string \<Rightarrow> nat option" where
  "parse_radix b a [] = Some a"
| "parse_radix b a (c # s) = (case hex_val c of None \<Rightarrow> None
     | Some d \<Rightarrow> if d < b then parse_radix b (b * a + d) s else None)"

definition radix_number :: "nat \<Rightarrow> string \<Rightarrow> jnum" where
  "radix_number b s = (if s = [] then NaN else
     case parse_radix b 0 s of None \<Rightarrow> NaN | Some n \<Rightarrow> Fin (of_nat n))"

definition num_neg :: "jnum \<Rightarrow> jnum" where
  "num_neg x = (case x of NaN \<Rightarrow> NaN | PosInf \<Rightarrow> NegInf | NegInf \<Rightarrow> PosInf | Fin r \<Rightarrow> Fin (- r))"

definition unsigned_number :: "string \<Rightarrow> jnum" where
  "unsigned_number s = (if s = ''Infinity'' then PosInf else parse_decimal s)"

definition js_number_text :: "string \<Rightarrow> jnum" where
  "js_number_text s = (let t = js_trim s in
     case t of [] \<Rightarrow> Fin 0
     | c # r \<Rightarrow>
        if c = CHR ''-'' then num_neg (unsigned_number r)
        else if c = CHR ''+'' then unsigned_number r
        else if c = CHR ''0'' \<and> r \<noteq> [] \<and> hd r \<in> {CHR ''x'', CHR ''X''} then radix_number 16 (tl r)
        else if c = CHR ''0'' \<and> r \<noteq> [] \<and> hd r \<in> {CHR ''o'', CHR ''O''} then radix_number 8 (tl r)
        else if c = CHR ''0'' \<and> r \<noteq> [] \<and> hd r \<in> {CHR ''b'', CHR ''B''} then radix_number 2 (tl r)
        else unsigned_number t)"

subsection \<open>Primitive values\<close>

datatype jsval = Undef | Null | JBool bool | Num jnum | Str string | Big int

definition int_text :: "int \<Rightarrow> string" where
  "int_text i = (if i < 0 then CHR ''-'' # nat_text (nat (- i)) else nat_text (nat i))"

definition num_text :: "jnum \<Rightarrow> string" where
  "num_text x = (case x of NaN \<Rightarrow> ''NaN'' | PosInf \<Rightarrow> ''Infinity'' | NegInf \<Rightarrow> ''-Infinity''
     | Fin r \<Rightarrow> if of_int (floor r) \<noteq> r then int_text (floor r) @ ''.'' @ nat_text (nat (floor (frac r * 1000)))
               else if abs r < 10 ^ 21 then int_text (floor r)
               else int_text (floor r) @ ''e+21'')"

definition js_string :: "jsval \<Rightarrow> string" where
  "js_string v = (case v of Undef \<Rightarrow> ''undefined'' | Null \<Rightarrow> ''null''
     | JBool b \<Rightarrow> (if b then ''true'' else ''false'') | Num x \<Rightarrow> num_text x | Str s \<Rightarrow> s | Big i \<Rightarrow> int_text i)"

text \<open>\<open>v ?? d\<close> and the truth value of a primitive.\<close>

definition js_nullish :: "jsval \<Rightarrow> jsval \<Rightarrow> jsval" where
  "js_nullish v d = (case v of Undef \<Rightarrow> d | Null \<Rightarrow> d | _ \<Rightarrow> v)"

definition js_truthy :: "jsval \<Rightarrow> bool" where
  "js_truthy v = (case v of Undef \<Rightarrow> False | Null \<Rightarrow> False | JBool b \<Rightarrow> b
     | Num x \<Rightarrow> x \<noteq> NaN \<and> x \<noteq> Fin 0 | Str s \<Rightarrow> s \<noteq> [] | Big i \<Rightarrow> i \<noteq> 0)"

definition js_or :: "jsval \<Rightarrow> jsval \<Rightarrow> jsval" where
  "js_or v d = (if js_truthy v then v else d)"

text \<open>\<open>Number(v)\<close>.\<close>

definition js_number :: "jsval \<Rightarrow> jnum" where
  "js_number v = (case v of Undef \<Rightarrow> NaN | Null \<Rightarrow> Fin 0 | JBool b \<Rightarrow> Fin (if b then 1 else 0)
     | Num x \<Rightarrow> x | Str s \<Rightarrow> js_number_text s | Big i \<Rightarrow> Fin (of_int i))"

text \<open>\<open>Math.floor\<close> and \<open>Number(v) || 0\<close>, on the finite numbers and the three others.\<close>

definition num_floor :: "jnum \<Rightarrow> jnum" where
  "num_floor x = (case x of Fin r \<Rightarrow> Fin (of_int (floor r)) | _ \<Rightarrow> x)"

definition num_or_zero :: "jnum \<Rightarrow> jnum" where
  "num_or_zero x = (if x = NaN then Fin 0 else x)"

text \<open>\<open>Math.round\<close> rounds halves up.\<close>

definition num_round :: "jnum \<Rightarrow> jnum" where
  "num_round x = (case x of Fin r \<Rightarrow> Fin (of_int (floor (r + 1 / 2))) | _ \<Rightarrow> x)"

definition max_safe_int :: int where
  "max_safe_int = 2 ^ 53 - 1"

definition safe_integer :: "jnum \<Rightarrow> bool" where
  "safe_integer x = (case x of Fin r \<Rightarrow> of_int (floor r) = r \<and> \<bar>floor r\<bar> \<le> max_safe_int | _ \<Rightarrow> False)"

text \<open>\<open>===\<close> on numbers: \<open>NaN\<close> is not equal to itself. \<open>Number(v || 0)\<close> and \<open>String(v || "")\<close>.\<close>

definition num_eq :: "jnum \<Rightarrow> jnum \<Rightarrow> bool" where
  "num_eq x y = (x = y \<and> x \<noteq> NaN)"

definition number_or0 :: "jsval \<Rightarrow> jnum" where
  "number_or0 v = js_number (js_or v (Num (Fin 0)))"

definition string_or_empty :: "jsval \<Rightarrow> string" where
  "string_or_empty v = js_string (js_or v (Str []))"

lemma string_or_empty_Str [simp]: "string_or_empty (Str s) = s"
  by (simp add: string_or_empty_def js_or_def js_truthy_def js_string_def)

lemma number_or0_Fin [simp]: "number_or0 (Num (Fin r)) = Fin r"
  by (simp add: number_or0_def js_or_def js_truthy_def js_number_def)

definition num_int :: "jnum \<Rightarrow> int" where
  "num_int x = (case x of Fin r \<Rightarrow> floor r | _ \<Rightarrow> 0)"

text \<open>The comparisons: false when a side is \<open>NaN\<close>.\<close>

definition num_less :: "jnum \<Rightarrow> jnum \<Rightarrow> bool" where
  "num_less x y = (case (x, y) of
     (NaN, _) \<Rightarrow> False | (_, NaN) \<Rightarrow> False
   | (Fin a, Fin b) \<Rightarrow> a < b
   | (NegInf, y) \<Rightarrow> y \<noteq> NegInf | (x, PosInf) \<Rightarrow> x \<noteq> PosInf | _ \<Rightarrow> False)"

definition num_leq :: "jnum \<Rightarrow> jnum \<Rightarrow> bool" where
  "num_leq x y = (num_less x y \<or> num_eq x y)"

lemma num_less_Fin [simp]: "num_less (Fin a) (Fin b) = (a < b)"
  by (simp add: num_less_def)

lemma num_leq_Fin [simp]: "num_leq (Fin a) (Fin b) = (a \<le> b)"
  by (auto simp: num_leq_def num_eq_def)

text \<open>
  The cursors of the terminal protocol: \<open>String(value ?? "").trim()\<close>, accepted when it is all
  digits. The modules \<open>terminal_queue_connection\<close>, \<open>terminal_replay_controller\<close>, \<open>output_model\<close>
  and \<open>session_replay_state\<close> each carry this function.
\<close>

definition parse_cursor :: "jsval \<Rightarrow> nat option" where
  "parse_cursor v = (let t = js_trim (js_string (js_nullish v (Str []))) in
     if all_digits t then Some (parse_nat t) else None)"

definition cursor_val :: "nat \<Rightarrow> jsval" where
  "cursor_val n = Big (int n)"

lemma parse_cursor_val [simp]: "parse_cursor (cursor_val n) = Some n"
  by (simp add: parse_cursor_def cursor_val_def js_nullish_def js_string_def int_text_def)

lemma parse_cursor_text [simp]: "parse_cursor (Str (nat_text n)) = Some n"
  by (simp add: parse_cursor_def js_nullish_def js_string_def)

lemma parse_cursor_num [simp]:
  "of_nat n < (10 :: rat) ^ 21 \<Longrightarrow> parse_cursor (Num (Fin (of_nat n))) = Some n"
  by (simp add: parse_cursor_def js_nullish_def js_string_def num_text_def int_text_def)

lemma parse_cursor_nullish [simp]: "parse_cursor Undef = None" "parse_cursor Null = None"
  by (simp_all add: parse_cursor_def js_nullish_def js_string_def all_digits_def)

lemma parse_cursor_negative: "i < 0 \<Longrightarrow> parse_cursor (Big i) = None"
proof -
  assume "i < 0"
  then have t: "int_text i = CHR ''-'' # nat_text (nat (- i))" by (simp add: int_text_def)
  have "\<not> js_space (CHR ''-'')" by (simp add: js_space_def)
  then have d: "list_all (\<lambda>c. \<not> js_space c) (CHR ''-'' # nat_text (nat (- i)))"
    using all_digits_text [of "nat (- i)"]
    by (auto simp: all_digits_def list_all_iff digit_not_space)
  then have "list_all (\<lambda>c. \<not> js_space c) (rev (CHR ''-'' # nat_text (nat (- i))))"
    by (simp add: list_all_iff)
  with d have "js_trim (int_text i) = int_text i"
    unfolding t js_trim_def by (simp only: dropWhile_none rev_rev_ident)
  then show ?thesis
    by (simp add: parse_cursor_def js_nullish_def js_string_def t all_digits_def is_digit_def)
qed

end
