(* ===== verification/Replay_Controller.thy ===== *)
theory Replay_Controller
  imports Js
begin

section \<open>History replay controller\<close>

text \<open>
  The class \<open>TerminalReplayController\<close> of \<open>terminal/history/terminal_replay_controller.js\<close>: the
  phase machine that accepts the history bytes of one pane as a gapless sequence of frames before
  the replay may be committed. A \<open>throw\<close> is \<open>Inl\<close>; every method validates before it writes,
  so the state after a throw is the state before. An omitted field of an options object is \<open>Undef\<close>
  (\<open>None\<close> for the identity).
\<close>

datatype replay_phase = RpIdle | RpReplaying | RpAwaitingCommit | RpCommitted

datatype replay_error =
    InvalidRange | IdentityMismatch | OutsideReplay | Discontinuity
  | CompletionMismatch | LegacyNotPending | CommitNotPending

record replay_identity =
  ri_selector :: string
  ri_pane :: string
  ri_history :: string

text \<open>The identity object as it arrives, with both spellings of its fields.\<close>

record raw_identity =
  raw_selector :: jsval
  raw_paneID :: jsval
  raw_pane_id :: jsval
  raw_historyGeneration :: jsval
  raw_history_generation :: jsval

definition normalize_identity :: "raw_identity \<Rightarrow> replay_identity" where
  "normalize_identity i = \<lparr>
     ri_selector = string_or_empty (raw_selector i),
     ri_pane = string_or_empty (js_or (raw_paneID i) (raw_pane_id i)),
     ri_history = string_or_empty (js_or (raw_historyGeneration i) (raw_history_generation i))\<rparr>"

definition no_identity :: raw_identity where
  "no_identity = \<lparr>raw_selector = Undef, raw_paneID = Undef, raw_pane_id = Undef,
     raw_historyGeneration = Undef, raw_history_generation = Undef\<rparr>"

definition identity_args :: "replay_identity \<Rightarrow> raw_identity" where
  "identity_args i = \<lparr>raw_selector = Str (ri_selector i), raw_paneID = Str (ri_pane i), raw_pane_id = Undef,
     raw_historyGeneration = Str (ri_history i), raw_history_generation = Undef\<rparr>"

record replay =
  rp_phase :: replay_phase
  rp_request :: string
  rp_epoch :: jnum
  rp_identity :: replay_identity
  rp_expected_seq :: "nat option"
  rp_expected_cursor :: "nat option"
  rp_target :: "nat option"
  rp_legacy :: bool

definition rp_reset :: replay where
  "rp_reset = \<lparr>rp_phase = RpIdle, rp_request = [], rp_epoch = Fin 0,
     rp_identity = normalize_identity no_identity, rp_expected_seq = Some 1,
     rp_expected_cursor = Some 0, rp_target = None, rp_legacy = False\<rparr>"

text \<open>The three fields every later call is checked against.\<close>

record replay_ctx =
  rx_request :: jsval
  rx_epoch :: jsval
  rx_identity :: "raw_identity option"

definition undef_default :: "jsval \<Rightarrow> jsval \<Rightarrow> jsval" where
  "undef_default v d = (if v = Undef then d else v)"

definition rp_begin :: "jsval \<Rightarrow> jsval \<Rightarrow> raw_identity \<Rightarrow> jsval \<Rightarrow> jsval \<Rightarrow> replay_error + replay" where
  "rp_begin request epoch identity startCursor targetCursor =
     (let start = parse_cursor (undef_default startCursor (Big 0));
          target = (if targetCursor = Null \<or> targetCursor = Undef then None else parse_cursor targetCursor)
      in case start of None \<Rightarrow> Inl InvalidRange
         | Some st \<Rightarrow>
             if (case target of None \<Rightarrow> False | Some t \<Rightarrow> t < st) then Inl InvalidRange
             else Inr \<lparr>rp_phase = RpReplaying, rp_request = string_or_empty request,
                    rp_epoch = number_or0 epoch, rp_identity = normalize_identity identity,
                    rp_expected_seq = Some 1, rp_expected_cursor = Some st,
                    rp_target = target, rp_legacy = False\<rparr>)"

definition rp_begin_legacy :: "jsval \<Rightarrow> jsval \<Rightarrow> raw_identity \<Rightarrow> replay" where
  "rp_begin_legacy request epoch identity =
     \<lparr>rp_phase = RpReplaying, rp_request = string_or_empty request, rp_epoch = number_or0 epoch,
      rp_identity = normalize_identity identity, rp_expected_seq = None, rp_expected_cursor = None,
      rp_target = None, rp_legacy = True\<rparr>"

definition rp_assert_current :: "replay_ctx \<Rightarrow> replay \<Rightarrow> bool" where
  "rp_assert_current c s =
     (let actual = (case rx_identity c of None \<Rightarrow> normalize_identity (identity_args (rp_identity s))
                    | Some i \<Rightarrow> normalize_identity i)
      in string_or_empty (undef_default (rx_request c) (Str (rp_request s))) = rp_request s
         \<and> num_eq (number_or0 (undef_default (rx_epoch c) (Num (rp_epoch s)))) (rp_epoch s)
         \<and> ri_selector actual = ri_selector (rp_identity s)
         \<and> ri_pane actual = ri_pane (rp_identity s)
         \<and> ri_history actual = ri_history (rp_identity s))"

record replay_frame =
  fr_seq :: jsval
  fr_start :: jsval
  fr_end :: jsval
  fr_len :: jsval

definition rp_accept :: "replay_frame \<Rightarrow> replay_ctx \<Rightarrow> replay \<Rightarrow> replay_error + replay" where
  "rp_accept f c s =
     (if \<not> rp_assert_current c s then Inl IdentityMismatch
      else if rp_phase s \<noteq> RpReplaying then Inl OutsideReplay
      else case (parse_cursor (fr_seq f), parse_cursor (fr_start f), parse_cursor (fr_end f)) of
        (Some sq, Some st, Some en) \<Rightarrow>
          (let size = js_number (fr_len f) in
           if \<not> safe_integer size \<or> num_int size < 0 \<or> int en - int st \<noteq> num_int size
              \<or> Some sq \<noteq> rp_expected_seq s \<or> Some st \<noteq> rp_expected_cursor s
           then Inl Discontinuity
           else Inr (s\<lparr>rp_expected_seq := Some (sq + 1), rp_expected_cursor := Some en\<rparr>))
      | _ \<Rightarrow> Inl Discontinuity)"

definition rp_complete :: "jsval \<Rightarrow> replay_ctx \<Rightarrow> replay \<Rightarrow> replay_error + replay" where
  "rp_complete cursor c s =
     (if \<not> rp_assert_current c s then Inl IdentityMismatch
      else case parse_cursor cursor of None \<Rightarrow> Inl CompletionMismatch
      | Some en \<Rightarrow>
          if rp_phase s \<noteq> RpReplaying \<or> (rp_target s \<noteq> None \<and> Some en \<noteq> rp_target s)
             \<or> Some en \<noteq> rp_expected_cursor s
          then Inl CompletionMismatch
          else Inr (s\<lparr>rp_phase := RpAwaitingCommit\<rparr>))"

definition rp_complete_legacy :: "replay_ctx \<Rightarrow> replay \<Rightarrow> replay_error + replay" where
  "rp_complete_legacy c s =
     (if \<not> rp_assert_current c s then Inl IdentityMismatch
      else if rp_phase s \<noteq> RpReplaying \<or> \<not> rp_legacy s then Inl LegacyNotPending
      else Inr (s\<lparr>rp_phase := RpAwaitingCommit\<rparr>))"

definition rp_commit :: "replay \<Rightarrow> replay_error + replay" where
  "rp_commit s = (if rp_phase s \<noteq> RpAwaitingCommit then Inl CommitNotPending
                  else Inr (s\<lparr>rp_phase := RpCommitted\<rparr>))"

subsection \<open>Runs\<close>

datatype replay_op =
    RoReset
  | RoBegin jsval jsval raw_identity jsval jsval
  | RoBeginLegacy jsval jsval raw_identity
  | RoAccept replay_frame replay_ctx
  | RoComplete jsval replay_ctx
  | RoCompleteLegacy replay_ctx
  | RoCommit

fun rp_exec :: "replay_op \<Rightarrow> replay \<Rightarrow> replay_error + replay" where
  "rp_exec RoReset s = Inr rp_reset"
| "rp_exec (RoBegin r e i st t) s = rp_begin r e i st t"
| "rp_exec (RoBeginLegacy r e i) s = Inr (rp_begin_legacy r e i)"
| "rp_exec (RoAccept f c) s = rp_accept f c s"
| "rp_exec (RoComplete v c) s = rp_complete v c s"
| "rp_exec (RoCompleteLegacy c) s = rp_complete_legacy c s"
| "rp_exec RoCommit s = rp_commit s"

text \<open>The calls with no throw among them, in order.\<close>

fun rp_run :: "replay_op list \<Rightarrow> replay \<Rightarrow> replay_error + replay" where
  "rp_run [] s = Inr s"
| "rp_run (x # xs) s = (case rp_exec x s of Inl e \<Rightarrow> Inl e | Inr s' \<Rightarrow> rp_run xs s')"

text \<open>
  A run with a log of the accepted ranges since the last \<open>begin\<close>. The caller catches a throw and
  goes on, so an operation that throws leaves everything as it was.
\<close>

record replay_trace =
  tr_state :: replay
  tr_start :: nat
  tr_log :: "(nat \<times> nat) list"

definition tr_init :: replay_trace where
  "tr_init = \<lparr>tr_state = rp_reset, tr_start = 0, tr_log = []\<rparr>"

fun tr_step :: "replay_trace \<Rightarrow> replay_op \<Rightarrow> replay_trace" where
  "tr_step t x = (case rp_exec x (tr_state t) of Inl _ \<Rightarrow> t
     | Inr s' \<Rightarrow> (case x of
          RoBegin _ _ _ st _ \<Rightarrow> \<lparr>tr_state = s', tr_start = the (parse_cursor (undef_default st (Big 0))), tr_log = []\<rparr>
        | RoAccept f _ \<Rightarrow> t\<lparr>tr_state := s',
             tr_log := tr_log t @ [(the (parse_cursor (fr_start f)), the (parse_cursor (fr_end f)))]\<rparr>
        | RoReset \<Rightarrow> \<lparr>tr_state = s', tr_start = 0, tr_log = []\<rparr>
        | RoBeginLegacy _ _ _ \<Rightarrow> \<lparr>tr_state = s', tr_start = 0, tr_log = []\<rparr>
        | _ \<Rightarrow> t\<lparr>tr_state := s'\<rparr>))"

text \<open>The ranges tile the bytes from \<open>a\<close> to \<open>b\<close>: no gap, no overlap, no reordering.\<close>

fun tiles :: "nat \<Rightarrow> (nat \<times> nat) list \<Rightarrow> nat \<Rightarrow> bool" where
  "tiles a [] b = (a = b)"
| "tiles a ((x, y) # rs) b = (x = a \<and> a \<le> y \<and> tiles y rs b)"

lemma tiles_snoc: "tiles a rs b \<Longrightarrow> b \<le> c \<Longrightarrow> tiles a (rs @ [(b, c)]) c"
  by (induction rs arbitrary: a) auto

lemma tiles_le: "tiles a rs b \<Longrightarrow> a \<le> b"
  by (induction rs arbitrary: a) (auto intro: le_trans)

definition tr_inv :: "replay_trace \<Rightarrow> bool" where
  "tr_inv t = (let s = tr_state t in
     \<not> rp_legacy s \<longrightarrow>
       (\<exists>e. rp_expected_cursor s = Some e \<and> tiles (tr_start t) (tr_log t) e
          \<and> rp_expected_seq s = Some (Suc (length (tr_log t)))
          \<and> (rp_phase s \<in> {RpAwaitingCommit, RpCommitted} \<longrightarrow> rp_target s \<noteq> None \<longrightarrow> rp_target s = Some e)))"

lemma rp_accept_Inr:
  assumes "rp_accept f c s = Inr s'"
  obtains sq st en where
    "parse_cursor (fr_seq f) = Some sq" "parse_cursor (fr_start f) = Some st" "parse_cursor (fr_end f) = Some en"
    "rp_phase s = RpReplaying" "rp_expected_seq s = Some sq" "rp_expected_cursor s = Some st" "st \<le> en"
    "rp_assert_current c s"
    "s' = s\<lparr>rp_expected_seq := Some (Suc sq), rp_expected_cursor := Some en\<rparr>"
  using assms by (auto simp: rp_accept_def Let_def split: if_splits option.splits)

lemma tr_inv_init: "tr_inv tr_init"
  by (simp add: tr_inv_def tr_init_def rp_reset_def)

lemma tr_inv_step: "tr_inv t \<Longrightarrow> tr_inv (tr_step t x)"
proof (cases x)
  case (RoAccept f c)
  assume inv: "tr_inv t"
  show ?thesis
  proof (cases "rp_accept f c (tr_state t)")
    case (Inr s')
    from this obtain sq st en where p: "parse_cursor (fr_start f) = Some st" "parse_cursor (fr_end f) = Some en"
        "rp_phase (tr_state t) = RpReplaying" "rp_expected_seq (tr_state t) = Some sq"
        "rp_expected_cursor (tr_state t) = Some st" "st \<le> en"
        "s' = (tr_state t)\<lparr>rp_expected_seq := Some (Suc sq), rp_expected_cursor := Some en\<rparr>"
      by (rule rp_accept_Inr)
    with inv Inr RoAccept show ?thesis
      by (auto simp: tr_inv_def Let_def intro: tiles_snoc)
  qed (use inv RoAccept in simp)
next
  case (RoBegin r e i st ta)
  assume inv: "tr_inv t"
  with RoBegin show ?thesis
    by (auto simp: tr_inv_def rp_begin_def Let_def split: option.splits if_splits)
qed (auto simp: tr_inv_def rp_reset_def rp_begin_legacy_def rp_complete_def rp_complete_legacy_def rp_commit_def Let_def
        split: option.splits if_splits)

interpretation replay_machine: invariant_machine tr_step tr_inv
  by standard (rule tr_inv_step)

text \<open>
  C2. Whatever calls reach the controller, in any order and with any arguments: when a replay that
  is not a legacy one is committed, the ranges it accepted since its \<open>begin\<close> tile the bytes from the
  start cursor to the expected cursor without a gap or an overlap, and that cursor is the target
  of the \<open>begin\<close> whenever there was one.
\<close>

theorem committed_replay_is_gapless:
  assumes "t = foldl tr_step tr_init ops"
    and "rp_phase (tr_state t) = RpCommitted" and "\<not> rp_legacy (tr_state t)"
  shows "\<exists>e. rp_expected_cursor (tr_state t) = Some e \<and> tiles (tr_start t) (tr_log t) e
           \<and> (rp_target (tr_state t) \<noteq> None \<longrightarrow> rp_target (tr_state t) = Some e)"
  using replay_machine.inv_run [OF tr_inv_init, of ops] assms by (auto simp: tr_inv_def Let_def)

subsection \<open>Completeness: a gapless replay is accepted\<close>

definition ctx_none :: replay_ctx where
  "ctx_none = \<lparr>rx_request = Undef, rx_epoch = Undef, rx_identity = None\<rparr>"

text \<open>The frames a server cuts from chunks of the given sizes.\<close>

fun frames_from :: "nat \<Rightarrow> nat \<Rightarrow> nat list \<Rightarrow> replay_op list" where
  "frames_from sq st [] = []"
| "frames_from sq st (n # ns) =
     RoAccept \<lparr>fr_seq = cursor_val sq, fr_start = cursor_val st, fr_end = cursor_val (st + n),
        fr_len = Num (Fin (of_nat n))\<rparr> ctx_none # frames_from (Suc sq) (st + n) ns"

lemma assert_none: "rp_epoch s \<noteq> NaN \<Longrightarrow> rp_assert_current ctx_none s"
  by (cases "rp_epoch s")
     (auto simp: rp_assert_current_def ctx_none_def undef_default_def num_eq_def normalize_identity_def
        identity_args_def number_or0_def js_or_def js_truthy_def js_number_def string_or_empty_def js_string_def)

lemma number_or0_not_NaN: "js_number epoch \<noteq> NaN \<Longrightarrow> number_or0 epoch \<noteq> NaN"
  by (auto simp: number_or0_def js_or_def js_number_def)

lemma safe_integer_nat: "int n \<le> max_safe_int \<Longrightarrow> safe_integer (Fin (of_nat n))"
  by (simp add: safe_integer_def)

lemma accept_next_frame:
  assumes "rp_phase s = RpReplaying" "rp_expected_seq s = Some sq" "rp_expected_cursor s = Some st"
    and "rp_epoch s \<noteq> NaN" and "int n \<le> max_safe_int"
  shows "rp_accept \<lparr>fr_seq = cursor_val sq, fr_start = cursor_val st, fr_end = cursor_val (st + n),
        fr_len = Num (Fin (of_nat n))\<rparr> ctx_none s
       = Inr (s\<lparr>rp_expected_seq := Some (Suc sq), rp_expected_cursor := Some (st + n)\<rparr>)"
  using assms by (simp add: rp_accept_def assert_none js_number_def safe_integer_nat num_int_def)

lemma frames_accepted:
  assumes "rp_phase s = RpReplaying" "rp_expected_seq s = Some sq" "rp_expected_cursor s = Some st"
    and "rp_epoch s \<noteq> NaN" and "\<forall>n \<in> set ns. int n \<le> max_safe_int"
  shows "rp_run (frames_from sq st ns) s
    = Inr (s\<lparr>rp_expected_seq := Some (sq + length ns), rp_expected_cursor := Some (st + sum_list ns)\<rparr>)"
  using assms
proof (induction ns arbitrary: sq st s)
  case Nil
  then show ?case by (cases s) simp
next
  case (Cons n ns)
  let ?s' = "s\<lparr>rp_expected_seq := Some (Suc sq), rp_expected_cursor := Some (st + n)\<rparr>"
  from Cons.prems have "rp_run (frames_from sq st (n # ns)) s = rp_run (frames_from (Suc sq) (st + n) ns) ?s'"
    by (simp add: accept_next_frame)
  also have "\<dots> = Inr (?s'\<lparr>rp_expected_seq := Some (Suc sq + length ns), rp_expected_cursor := Some (st + n + sum_list ns)\<rparr>)"
    by (rule Cons.IH) (use Cons.prems in auto)
  finally show ?case by (simp add: add.assoc)
qed

lemma rp_run_append: "rp_run (xs @ ys) s = (case rp_run xs s of Inl e \<Rightarrow> Inl e | Inr s' \<Rightarrow> rp_run ys s')"
  by (induction xs arbitrary: s) (auto split: sum.splits)

text \<open>
  Liveness of the replay: a history that arrives as frames of any sizes cut in order from the
  start cursor, numbered from 1, and whose completion names the cursor after the last byte, runs
  through without a throw and commits, with or without a target cursor.
\<close>

theorem gapless_replay_commits:
  assumes "js_number epoch \<noteq> NaN" and "\<forall>n \<in> set ns. int n \<le> max_safe_int"
    and "target = Null \<or> target = cursor_val (st + sum_list ns)"
  shows "\<exists>s. rp_run ([RoBegin request epoch identity (cursor_val st) target] @ frames_from 1 st ns
            @ [RoComplete (cursor_val (st + sum_list ns)) ctx_none, RoCommit]) s0 = Inr s
          \<and> rp_phase s = RpCommitted \<and> rp_expected_cursor s = Some (st + sum_list ns)"
proof -
  define tv where "tv = (if target = Null then None else Some (st + sum_list ns))"
  define s1 where "s1 = \<lparr>rp_phase = RpReplaying, rp_request = string_or_empty request,
      rp_epoch = number_or0 epoch, rp_identity = normalize_identity identity, rp_expected_seq = Some 1,
      rp_expected_cursor = Some st, rp_target = tv, rp_legacy = False\<rparr>"
  have ep: "rp_epoch s1 \<noteq> NaN" using assms(1) by (simp add: s1_def number_or0_not_NaN)
  have b: "rp_begin request epoch identity (cursor_val st) target = Inr s1"
  proof -
    have ud: "undef_default (cursor_val st) (Big 0) = cursor_val st"
      by (simp add: undef_default_def cursor_val_def)
    have ne: "cursor_val (st + sum_list ns) \<noteq> Null" "cursor_val (st + sum_list ns) \<noteq> Undef"
      by (simp_all add: cursor_val_def)
    show ?thesis using assms(3) ne by (auto simp: rp_begin_def s1_def tv_def ud)
  qed
  have f: "rp_run (frames_from 1 st ns) s1 =
      Inr (s1\<lparr>rp_expected_seq := Some (1 + length ns), rp_expected_cursor := Some (st + sum_list ns)\<rparr>)"
    by (rule frames_accepted) (use ep assms(2) in \<open>simp_all add: s1_def\<close>)
  show ?thesis using b f ep
    by (simp add: rp_run_append rp_complete_def assert_none rp_commit_def s1_def tv_def)
qed

theorem gapless_replay_commits_witness:
  "\<exists>s. rp_run ([RoBegin (Str ''r'') (Num (Fin 3)) no_identity (cursor_val 5) (cursor_val (5 + sum_list [2, 0, 7]))]
          @ frames_from 1 5 [2, 0, 7] @ [RoComplete (cursor_val (5 + sum_list [2, 0, 7])) ctx_none, RoCommit]) rp_reset = Inr s
        \<and> rp_phase s = RpCommitted \<and> rp_expected_cursor s = Some (5 + sum_list [2, 0, 7])"
  by (rule gapless_replay_commits) (simp_all add: js_number_def max_safe_int_def)

text \<open>A concrete committed run.\<close>

definition demo_ops :: "replay_op list" where
  "demo_ops = [RoBegin (Str ''r'') (Num (Fin 1)) no_identity (Big 4) (Big 9)]
     @ frames_from 1 4 [3, 2] @ [RoComplete (Big 9) ctx_none, RoCommit]"

lemma rp_run_trace:
  "rp_run ops s = Inr s' \<Longrightarrow> tr_state t = s \<Longrightarrow> tr_state (foldl tr_step t ops) = s'"
proof (induction ops arbitrary: s t)
  case (Cons x xs)
  then obtain s1 where e: "rp_exec x s = Inr s1" and r: "rp_run xs s1 = Inr s'"
    by (auto split: sum.splits)
  have "tr_state (tr_step t x) = s1"
    using e Cons.prems(2) by (cases x) auto
  from Cons.IH [OF r this] show ?case by simp
qed simp

theorem committed_replay_is_gapless_witness:
  "\<exists>e. rp_expected_cursor (tr_state (foldl tr_step tr_init demo_ops)) = Some e
     \<and> tiles (tr_start (foldl tr_step tr_init demo_ops)) (tr_log (foldl tr_step tr_init demo_ops)) e
     \<and> (rp_target (tr_state (foldl tr_step tr_init demo_ops)) \<noteq> None
        \<longrightarrow> rp_target (tr_state (foldl tr_step tr_init demo_ops)) = Some e)"
proof -
  have p: "rp_phase (tr_state (foldl tr_step tr_init demo_ops)) = RpCommitted"
    and l: "\<not> rp_legacy (tr_state (foldl tr_step tr_init demo_ops))" by code_simp+
  show ?thesis by (rule committed_replay_is_gapless [OF refl p l])
qed

text \<open>
  No frame is applied twice: once a frame has been accepted, the same frame is refused, whatever
  request, epoch and identity it then claims, until another \<open>begin\<close> or \<open>reset\<close>.
\<close>

theorem accepted_frame_not_repeatable:
  assumes "rp_accept f c s = Inr s'"
  shows "\<exists>e. rp_accept f c' s' = Inl e"
proof -
  from assms obtain sq where "parse_cursor (fr_seq f) = Some sq"
      and "rp_expected_seq s' = Some (Suc sq)"
    by (elim rp_accept_Inr) simp
  then show ?thesis by (auto simp: rp_accept_def Let_def split: option.splits)
qed

theorem accepted_frame_not_repeatable_witness:
  "\<exists>e. rp_accept \<lparr>fr_seq = cursor_val 1, fr_start = cursor_val 4, fr_end = cursor_val (4 + 3), fr_len = Num (Fin (of_nat 3))\<rparr> ctx_none
     (\<lparr>rp_phase = RpReplaying, rp_request = [], rp_epoch = Fin 0, rp_identity = normalize_identity no_identity,
       rp_expected_seq = Some (Suc 1), rp_expected_cursor = Some (4 + 3), rp_target = None, rp_legacy = False\<rparr>) = Inl e"
proof -
  let ?s = "\<lparr>rp_phase = RpReplaying, rp_request = [], rp_epoch = Fin 0, rp_identity = normalize_identity no_identity,
       rp_expected_seq = Some 1, rp_expected_cursor = Some 4, rp_target = None, rp_legacy = False\<rparr>"
  have "rp_accept \<lparr>fr_seq = cursor_val 1, fr_start = cursor_val 4, fr_end = cursor_val (4 + 3), fr_len = Num (Fin (of_nat 3))\<rparr> ctx_none ?s
     = Inr (?s\<lparr>rp_expected_seq := Some (Suc 1), rp_expected_cursor := Some (4 + 3)\<rparr>)"
    by (rule accept_next_frame) (simp_all add: max_safe_int_def)
  from accepted_frame_not_repeatable [OF this, of ctx_none] show ?thesis by simp
qed

end
