(* ===== verification/Resize_Controller.thy ===== *)
theory Resize_Controller
  imports Js
begin

section \<open>Resize transaction controller and size synchronisation\<close>

text \<open>
  The class \<open>TerminalResizeController\<close> of \<open>terminal/resize/terminal_resize_controller.js\<close> (one
  resize transaction of a pane: request, acknowledgement, settling, commit), the size comparisons
  of \<open>terminal_size_sync.js\<close> and the resize epochs of \<open>geometry_state.js\<close>. A \<open>throw\<close> is \<open>Inl\<close> and
  leaves the object as it was.
\<close>

definition num_max :: "jnum \<Rightarrow> jnum \<Rightarrow> jnum" where
  "num_max a b = (case (a, b) of
      (NaN, _) \<Rightarrow> NaN | (_, NaN) \<Rightarrow> NaN
    | (PosInf, _) \<Rightarrow> PosInf | (_, PosInf) \<Rightarrow> PosInf
    | (NegInf, y) \<Rightarrow> y | (x, NegInf) \<Rightarrow> x
    | (Fin x, Fin y) \<Rightarrow> Fin (max x y))"

text \<open>\<open>x > 0\<close> on numbers.\<close>

definition num_pos :: "jnum \<Rightarrow> bool" where
  "num_pos x = (case x of PosInf \<Rightarrow> True | Fin r \<Rightarrow> 0 < r | _ \<Rightarrow> False)"

text \<open>\<open>Math.floor(Number(v) || 0)\<close>, and its clamps \<open>Math.max(k, \<dots>)\<close>.\<close>

definition dim_raw :: "jsval \<Rightarrow> jnum" where
  "dim_raw v = num_floor (num_or_zero (js_number v))"

definition terminal_dimension :: "jsval \<Rightarrow> jnum" where
  "terminal_dimension v = num_max (Fin 0) (dim_raw v)"

record raw_dims =
  rd_cols :: jsval
  rd_rows :: jsval
  rd_pixelWidth :: jsval
  rd_pixel_width :: jsval
  rd_pixelHeight :: jsval
  rd_pixel_height :: jsval

record dims =
  dm_cols :: jnum
  dm_rows :: jnum
  dm_width :: jnum
  dm_height :: jnum

definition dimensions_of :: "raw_dims \<Rightarrow> dims" where
  "dimensions_of d = \<lparr>
     dm_cols = num_max (Fin 1) (dim_raw (rd_cols d)),
     dm_rows = num_max (Fin 1) (dim_raw (rd_rows d)),
     dm_width = num_max (Fin 0) (dim_raw (js_nullish (rd_pixelWidth d) (rd_pixel_width d))),
     dm_height = num_max (Fin 0) (dim_raw (js_nullish (rd_pixelHeight d) (rd_pixel_height d)))\<rparr>"

subsection \<open>The transaction\<close>

datatype resize_phase =
    RzIdle | RzAwaitingAck | RzApplied | RzError | RzSettling | RzReady | RzCommitted

datatype resize_error =
    InvalidRequest | ResizeMismatch | StaleAck | StaleError | SettleNotReady | ResizeCommitNotReady

record resize =
  rz_phase :: resize_phase
  rz_conn :: jnum
  rz_request_id :: string
  rz_requested_epoch :: "nat option"
  rz_applied_epoch :: "nat option"
  rz_requested :: "dims option"
  rz_applied :: "dims option"
  rz_token :: nat

definition rz_reset :: resize where
  "rz_reset = \<lparr>rz_phase = RzIdle, rz_conn = Fin 0, rz_request_id = [], rz_requested_epoch = None,
     rz_applied_epoch = None, rz_requested = None, rz_applied = None, rz_token = 0\<rparr>"

definition js_text :: "jsval \<Rightarrow> string" where
  "js_text v = js_trim (js_string (js_nullish v (Str [])))"

definition default_to :: "jsval \<Rightarrow> jsval \<Rightarrow> jsval" where
  "default_to d v = (if v = Undef then d else v)"

definition rz_do_request :: "jsval \<Rightarrow> jsval \<Rightarrow> jsval \<Rightarrow> raw_dims \<Rightarrow> resize \<Rightarrow> resize_error + resize" where
  "rz_do_request requestID connectionEpoch resizeEpoch d s =
     (case parse_cursor resizeEpoch of None \<Rightarrow> Inl InvalidRequest
      | Some ep \<Rightarrow>
          if \<not> num_pos (dim_raw (rd_cols d)) \<or> \<not> num_pos (dim_raw (rd_rows d)) then Inl InvalidRequest
          else Inr (s\<lparr>rz_phase := RzAwaitingAck,
                 rz_request_id := js_text (default_to (Str []) requestID),
                 rz_conn := number_or0 connectionEpoch,
                 rz_requested_epoch := Some ep,
                 rz_requested := Some (dimensions_of d),
                 rz_token := rz_token s + 1\<rparr>))"

definition rz_assert_current :: "jsval \<Rightarrow> jsval \<Rightarrow> resize \<Rightarrow> bool" where
  "rz_assert_current requestID connectionEpoch s =
     (js_text (default_to (Str (rz_request_id s)) requestID) = rz_request_id s
      \<and> num_eq (number_or0 (default_to (Num (rz_conn s)) connectionEpoch)) (rz_conn s))"

definition rz_acknowledge :: "jsval \<Rightarrow> jsval \<Rightarrow> jsval \<Rightarrow> raw_dims \<Rightarrow> resize \<Rightarrow> resize_error + resize" where
  "rz_acknowledge requestID connectionEpoch resizeEpoch d s =
     (if \<not> rz_assert_current requestID connectionEpoch s then Inl ResizeMismatch
      else case parse_cursor resizeEpoch of None \<Rightarrow> Inl StaleAck
      | Some ep \<Rightarrow>
          if (case rz_requested_epoch s of None \<Rightarrow> False | Some r \<Rightarrow> ep < r) then Inl StaleAck
          else Inr (s\<lparr>rz_applied_epoch := Some ep, rz_applied := Some (dimensions_of d), rz_phase := RzApplied\<rparr>))"

definition rz_fail :: "jsval \<Rightarrow> jsval \<Rightarrow> jsval \<Rightarrow> resize \<Rightarrow> resize_error + resize" where
  "rz_fail requestID connectionEpoch resizeEpoch s =
     (if \<not> rz_assert_current requestID connectionEpoch s then Inl ResizeMismatch
      else let ep = (if resizeEpoch = Undef \<or> resizeEpoch = Str [] then rz_requested_epoch s else parse_cursor resizeEpoch)
      in if ep \<noteq> None \<and> rz_requested_epoch s \<noteq> None \<and> ep \<noteq> rz_requested_epoch s then Inl StaleError
         else Inr (s\<lparr>rz_phase := RzError\<rparr>))"

text \<open>\<open>beginSettle\<close> returns the new token.\<close>

definition rz_begin_settle :: "resize \<Rightarrow> resize_error + (nat \<times> resize)" where
  "rz_begin_settle s = (if rz_phase s \<noteq> RzApplied then Inl SettleNotReady
     else Inr (rz_token s + 1, s\<lparr>rz_phase := RzSettling, rz_token := rz_token s + 1\<rparr>))"

text \<open>\<open>finishSettle\<close> returns whether the token was current; it never throws.\<close>

definition rz_finish_settle :: "jsval \<Rightarrow> resize \<Rightarrow> bool \<times> resize" where
  "rz_finish_settle token s =
     (if rz_phase s \<noteq> RzSettling \<or> \<not> num_eq (js_number token) (Fin (of_nat (rz_token s))) then (False, s)
      else (True, s\<lparr>rz_phase := RzReady\<rparr>))"

definition rz_commit :: "resize \<Rightarrow> resize_error + resize" where
  "rz_commit s = (if rz_phase s \<noteq> RzReady \<and> rz_phase s \<noteq> RzApplied then Inl ResizeCommitNotReady
     else Inr (s\<lparr>rz_phase := RzCommitted\<rparr>))"

datatype resize_op =
    ZoReset
  | ZoRequest jsval jsval jsval raw_dims
  | ZoAck jsval jsval jsval raw_dims
  | ZoFail jsval jsval jsval
  | ZoBeginSettle
  | ZoFinishSettle jsval
  | ZoCommit

fun rz_exec :: "resize_op \<Rightarrow> resize \<Rightarrow> resize_error + resize" where
  "rz_exec ZoReset s = Inr rz_reset"
| "rz_exec (ZoRequest r c e d) s = rz_do_request r c e d s"
| "rz_exec (ZoAck r c e d) s = rz_acknowledge r c e d s"
| "rz_exec (ZoFail r c e) s = rz_fail r c e s"
| "rz_exec ZoBeginSettle s = map_sum id snd (rz_begin_settle s)"
| "rz_exec (ZoFinishSettle t) s = Inr (snd (rz_finish_settle t s))"
| "rz_exec ZoCommit s = rz_commit s"

definition rz_step :: "resize \<Rightarrow> resize_op \<Rightarrow> resize" where
  "rz_step s x = (case rz_exec x s of Inl _ \<Rightarrow> s | Inr s' \<Rightarrow> s')"

text \<open>
  What the phases mean: from \<open>applied\<close> on, the server has acknowledged an epoch that is not older
  than the requested one, and the geometry it applied is recorded.
\<close>

definition rz_inv :: "resize \<Rightarrow> bool" where
  "rz_inv s = ((rz_phase s \<in> {RzApplied, RzSettling, RzReady, RzCommitted} \<longrightarrow>
      (\<exists>a. rz_applied_epoch s = Some a \<and> (\<forall>r. rz_requested_epoch s = Some r \<longrightarrow> r \<le> a))
      \<and> rz_applied s \<noteq> None)
    \<and> (rz_phase s = RzAwaitingAck \<longrightarrow> rz_requested_epoch s \<noteq> None \<and> rz_requested s \<noteq> None))"

lemma rz_inv_reset: "rz_inv rz_reset"
  by (simp add: rz_inv_def rz_reset_def)

lemma rz_inv_step: "rz_inv s \<Longrightarrow> rz_inv (rz_step s x)"
  by (cases x)
     (auto simp: rz_step_def rz_inv_def rz_reset_def rz_do_request_def rz_acknowledge_def rz_fail_def
        rz_begin_settle_def rz_finish_settle_def rz_commit_def Let_def
        split: option.splits if_splits sum.splits)

interpretation resize_machine: invariant_machine rz_step rz_inv
  by standard (rule rz_inv_step)

text \<open>
  C29. A resize is committed only after the server acknowledged it: in every reachable state, a
  committed transaction carries an acknowledged epoch at least as new as the requested one
  and the geometry the server applied.
\<close>

theorem resize_commit_after_ack:
  assumes "rz_phase (foldl rz_step rz_reset ops) = RzCommitted"
  shows "\<exists>a. rz_applied_epoch (foldl rz_step rz_reset ops) = Some a
           \<and> (\<forall>r. rz_requested_epoch (foldl rz_step rz_reset ops) = Some r \<longrightarrow> r \<le> a)
           \<and> rz_applied (foldl rz_step rz_reset ops) \<noteq> None"
  using resize_machine.inv_run [OF rz_inv_reset, of ops] assms by (auto simp: rz_inv_def)

definition demo_dims :: raw_dims where
  "demo_dims = \<lparr>rd_cols = Num (Fin 80), rd_rows = Num (Fin 24), rd_pixelWidth = Undef, rd_pixel_width = Undef,
     rd_pixelHeight = Undef, rd_pixel_height = Undef\<rparr>"

definition demo_resize :: "resize_op list" where
  "demo_resize = [ZoRequest (Str ''q'') (Num (Fin 2)) (Str ''7'') demo_dims,
     ZoAck (Str ''q'') (Num (Fin 2)) (Str ''8'') demo_dims, ZoBeginSettle,
     ZoFinishSettle (Num (Fin 2)), ZoCommit]"

theorem resize_commit_after_ack_witness:
  "\<exists>a. rz_applied_epoch (foldl rz_step rz_reset demo_resize) = Some a
     \<and> (\<forall>r. rz_requested_epoch (foldl rz_step rz_reset demo_resize) = Some r \<longrightarrow> r \<le> a)
     \<and> rz_applied (foldl rz_step rz_reset demo_resize) \<noteq> None"
proof -
  have "rz_phase (foldl rz_step rz_reset demo_resize) = RzCommitted" by code_simp
  then show ?thesis by (rule resize_commit_after_ack)
qed

subsection \<open>Settle tokens\<close>

text \<open>
  Every new request and every new settling advances the token, and without \<open>reset\<close> it never goes
  back: the token of a superseded settling is stale for ever.
\<close>

definition rz_bumps :: "resize \<Rightarrow> resize_op \<Rightarrow> bool" where
  "rz_bumps s x = (case x of ZoRequest _ _ _ _ \<Rightarrow> \<not> isl (rz_exec x s) | ZoBeginSettle \<Rightarrow> \<not> isl (rz_exec x s) | _ \<Rightarrow> False)"

definition rz_step' :: "resize \<Rightarrow> resize_op \<Rightarrow> resize" where
  "rz_step' s x = (if x = ZoReset then s else rz_step s x)"

lemma rz_step'_eq: "ZoReset \<notin> set ops \<Longrightarrow> foldl rz_step' s ops = foldl rz_step s ops"
  by (induction ops arbitrary: s) (auto simp: rz_step'_def)

interpretation settle_token: generation_machine rz_step' rz_token rz_bumps
proof
  fix s x
  show "rz_token s \<le> rz_token (rz_step' s x)"
    by (cases x) (auto simp: rz_step'_def rz_step_def rz_do_request_def rz_acknowledge_def rz_fail_def
        rz_begin_settle_def rz_finish_settle_def rz_commit_def Let_def split: option.splits if_splits sum.splits)
  show "rz_bumps s x \<Longrightarrow> rz_token s < rz_token (rz_step' s x)"
    by (cases x) (auto simp: rz_bumps_def rz_step'_def rz_step_def rz_do_request_def
        rz_begin_settle_def split: option.splits if_splits sum.splits)
qed

text \<open>
  A superseded settle token is stale: when a new request is accepted while the settling with token
  \<open>n\<close> is under way, \<open>finishSettle(n)\<close> does nothing, whatever further calls (other than \<open>reset\<close>) come
  in between, a later settling included.
\<close>

theorem superseded_settle_token_stale:
  assumes "rz_do_request r c e d s = Inr s1" and "ZoReset \<notin> set ops"
  shows "rz_finish_settle (Num (Fin (of_nat (rz_token s)))) (foldl rz_step s1 ops) = (False, foldl rz_step s1 ops)"
proof -
  have b: "rz_bumps s (ZoRequest r c e d)" using assms(1) by (simp add: rz_bumps_def)
  have s1: "rz_step' s (ZoRequest r c e d) = s1" using assms(1) by (simp add: rz_step'_def rz_step_def)
  have "rz_token (foldl rz_step s1 ops) \<noteq> rz_token s"
    using settle_token.stale_after_bump [OF b, of ops] by (simp add: s1 rz_step'_eq [OF assms(2)])
  then show ?thesis
    by (simp add: rz_finish_settle_def js_number_def num_eq_def)
qed

theorem superseded_settle_token_stale_witness:
  "\<exists>s1. rz_do_request (Str ''q2'') (Num (Fin 2)) (Str ''9'') demo_dims (foldl rz_step rz_reset (take 3 demo_resize)) = Inr s1
     \<and> rz_finish_settle (Num (Fin (of_nat (rz_token (foldl rz_step rz_reset (take 3 demo_resize))))))
         (foldl rz_step s1 [ZoAck (Str ''q2'') (Num (Fin 2)) (Str ''9'') demo_dims, ZoBeginSettle])
       = (False, foldl rz_step s1 [ZoAck (Str ''q2'') (Num (Fin 2)) (Str ''9'') demo_dims, ZoBeginSettle])"
proof -
  let ?s = "foldl rz_step rz_reset (take 3 demo_resize)"
  have "\<not> isl (rz_do_request (Str ''q2'') (Num (Fin 2)) (Str ''9'') demo_dims ?s)" by code_simp
  then obtain s1 where s1: "rz_do_request (Str ''q2'') (Num (Fin 2)) (Str ''9'') demo_dims ?s = Inr s1"
    by (cases "rz_do_request (Str ''q2'') (Num (Fin 2)) (Str ''9'') demo_dims ?s") auto
  show ?thesis
    using s1 superseded_settle_token_stale [OF s1, of "[ZoAck (Str ''q2'') (Num (Fin 2)) (Str ''9'') demo_dims, ZoBeginSettle]"]
    by auto
qed

subsection \<open>Which sizes are sent\<close>

definition should_send_size ::
  "jsval \<Rightarrow> jsval \<Rightarrow> jsval \<Rightarrow> jsval \<Rightarrow> jsval \<Rightarrow> jsval \<Rightarrow> jsval \<Rightarrow> jsval \<Rightarrow> bool \<Rightarrow> bool" where
  "should_send_size cols rows pw ph lastCols lastRows lastPw lastPh force =
     (let nextCols = terminal_dimension cols; nextRows = terminal_dimension rows;
          nextPw = terminal_dimension pw; nextPh = terminal_dimension ph;
          pixelChanged = (num_pos nextPw \<and> num_pos nextPh
             \<and> (terminal_dimension lastPw \<noteq> nextPw \<or> terminal_dimension lastPh \<noteq> nextPh))
      in if \<not> num_pos nextCols \<or> \<not> num_pos nextRows then False
         else force \<or> terminal_dimension lastCols \<noteq> nextCols \<or> terminal_dimension lastRows \<noteq> nextRows
           \<or> pixelChanged)"

definition size_differs_from_server ::
  "jsval \<Rightarrow> jsval \<Rightarrow> jsval \<Rightarrow> jsval \<Rightarrow> jsval \<Rightarrow> jsval \<Rightarrow> jsval \<Rightarrow> jsval \<Rightarrow> bool" where
  "size_differs_from_server cols rows pw ph sCols sRows sPw sPh =
     (let nextCols = terminal_dimension cols; nextRows = terminal_dimension rows;
          nextPw = terminal_dimension pw; nextPh = terminal_dimension ph;
          remCols = terminal_dimension sCols; remRows = terminal_dimension sRows;
          remPw = terminal_dimension sPw; remPh = terminal_dimension sPh;
          pixelDiffers = (num_pos nextPw \<and> num_pos nextPh \<and> num_pos remPw \<and> num_pos remPh
             \<and> (nextPw \<noteq> remPw \<or> nextPh \<noteq> remPh))
      in num_pos nextCols \<and> num_pos nextRows \<and> num_pos remCols \<and> num_pos remRows
         \<and> (nextCols \<noteq> remCols \<or> nextRows \<noteq> remRows \<or> pixelDiffers))"

lemma terminal_dimension_not_NaN: "terminal_dimension v \<noteq> NaN"
  by (cases "js_number v")
     (auto simp: terminal_dimension_def dim_raw_def num_max_def num_floor_def num_or_zero_def)

text \<open>
  Sizes are not re-sent: a size reported as the last one sent is never sent again without force; a
  size without two positive dimensions is never sent at all; and when the server reports a positive
  size that differs in cells or in known pixels, the size differs from what was last sent too,
  so the correction is sent.
\<close>

theorem size_sync_settles:
  "\<not> should_send_size c r pw ph c r pw ph False
   \<and> (should_send_size c r pw ph lc lr lpw lph f \<longrightarrow> num_pos (terminal_dimension c) \<and> num_pos (terminal_dimension r))
   \<and> (size_differs_from_server c r pw ph lc lr lpw lph \<longrightarrow> should_send_size c r pw ph lc lr lpw lph False)
   \<and> \<not> size_differs_from_server c r pw ph c r pw ph"
  by (auto simp: should_send_size_def size_differs_from_server_def Let_def)

theorem size_sync_settles_witness:
  "size_differs_from_server (Num (Fin 80)) (Num (Fin 24)) (Num (Fin 0)) (Num (Fin 0)) (Num (Fin 81)) (Num (Fin 24)) Undef Undef
   \<and> should_send_size (Num (Fin 80)) (Num (Fin 24)) (Num (Fin 0)) (Num (Fin 0)) (Num (Fin 81)) (Num (Fin 24)) Undef Undef False"
proof -
  have d: "size_differs_from_server (Num (Fin 80)) (Num (Fin 24)) (Num (Fin 0)) (Num (Fin 0)) (Num (Fin 81)) (Num (Fin 24)) Undef Undef"
    by code_simp
  with size_sync_settles [of "Num (Fin 80)" "Num (Fin 24)" "Num (Fin 0)" "Num (Fin 0)" "Num (Fin 81)" "Num (Fin 24)" Undef Undef]
  show ?thesis by blast
qed

subsection \<open>Resize epochs\<close>

definition normalize_epoch :: "jsval \<Rightarrow> string" where
  "normalize_epoch v = (let t = js_text v in if all_digits t \<and> t \<noteq> ''0'' then t else [])"

text \<open>
  \<open>nextTerminalResizeEpoch\<close>: microseconds from the clock (\<open>now\<close> in whole milliseconds, \<open>rnd\<close> the
  random part below 1000), or one more than the previous epoch when the clock is behind it.
\<close>

definition next_epoch :: "jsval \<Rightarrow> jsval \<Rightarrow> nat \<Rightarrow> nat \<Rightarrow> string" where
  "next_epoch requested applied now rnd =
     (let previous = (if normalize_epoch requested \<noteq> [] then normalize_epoch requested
                      else if normalize_epoch applied \<noteq> [] then normalize_epoch applied else ''0'');
          p = parse_nat previous; clock = now * 1000 + rnd
      in nat_text (if clock > p then clock else p + 1))"

lemma normalize_epoch_text: "0 < n \<Longrightarrow> normalize_epoch (Str (nat_text n)) = nat_text n"
proof -
  assume "0 < n"
  have "nat_text n \<noteq> ''0''"
  proof
    assume "nat_text n = ''0''"
    then have "parse_nat (nat_text n) = parse_nat ''0''" by simp
    moreover have "parse_nat ''0'' = 0" by code_simp
    ultimately show False using \<open>0 < n\<close> by simp
  qed
  then show ?thesis by (simp add: normalize_epoch_def js_text_def js_nullish_def js_string_def)
qed

text \<open>The epochs of one pane: each request stores the epoch it used.\<close>

fun epochs :: "jsval \<Rightarrow> jsval \<Rightarrow> (nat \<times> nat) list \<Rightarrow> nat list" where
  "epochs requested applied [] = []"
| "epochs requested applied ((now, rnd) # cs) =
     (let e = next_epoch requested applied now rnd in parse_nat e # epochs (Str e) applied cs)"

lemma next_epoch_after: "0 < n \<Longrightarrow> n < parse_nat (next_epoch (Str (nat_text n)) a now rnd)"
  by (simp add: next_epoch_def Let_def normalize_epoch_text)

lemma next_epoch_text: "\<exists>m > 0. next_epoch r a now rnd = nat_text m"
proof -
  define p where "p = parse_nat (if normalize_epoch r \<noteq> [] then normalize_epoch r
                      else if normalize_epoch a \<noteq> [] then normalize_epoch a else ''0'')"
  define m where "m = (if p < now * 1000 + rnd then now * 1000 + rnd else p + 1)"
  have "next_epoch r a now rnd = nat_text m"
    unfolding next_epoch_def Let_def m_def p_def ..
  moreover have "0 < m" unfolding m_def by auto
  ultimately show ?thesis by blast
qed

lemma epochs_above: "0 < n \<Longrightarrow> sorted_wrt (<) (n # epochs (Str (nat_text n)) a cs)"
proof (induction cs arbitrary: n)
  case (Cons c cs)
  obtain now rnd where c: "c = (now, rnd)" by (cases c)
  obtain m where m: "0 < m" "next_epoch (Str (nat_text n)) a now rnd = nat_text m"
    using next_epoch_text by blast
  have "n < m" using next_epoch_after [OF Cons.prems, of a now rnd] m(2) by simp
  moreover have "sorted_wrt (<) (m # epochs (Str (nat_text m)) a cs)" by (rule Cons.IH [OF m(1)])
  ultimately show ?case using m by (auto simp: c Let_def)
qed simp

text \<open>
  The resize epochs a pane uses are strictly increasing whatever the clock and the random part do,
  a clock that stands still or goes back included.
\<close>

theorem resize_epochs_increase: "sorted_wrt (<) (epochs requested applied clocks)"
proof (cases clocks)
  case (Cons c cs)
  obtain now rnd where c: "c = (now, rnd)" by (cases c)
  obtain m where m: "0 < m" "next_epoch requested applied now rnd = nat_text m"
    using next_epoch_text by blast
  show ?thesis using epochs_above [OF m(1), of applied cs] m by (simp add: Cons c Let_def)
qed simp

text \<open>\<open>terminalResizeTargetsMatch\<close>: cells must agree, pixels only where both sides know them.\<close>

definition targets_match :: "raw_dims \<Rightarrow> raw_dims \<Rightarrow> bool" where
  "targets_match a b =
     (terminal_dimension (rd_cols a) = terminal_dimension (rd_cols b)
      \<and> terminal_dimension (rd_rows a) = terminal_dimension (rd_rows b)
      \<and> (\<not> js_truthy (rd_pixelWidth a) \<or> \<not> js_truthy (rd_pixelWidth b)
          \<or> num_eq (js_number (rd_pixelWidth a)) (js_number (rd_pixelWidth b)))
      \<and> (\<not> js_truthy (rd_pixelHeight a) \<or> \<not> js_truthy (rd_pixelHeight b)
          \<or> num_eq (js_number (rd_pixelHeight a)) (js_number (rd_pixelHeight b))))"

lemma targets_match_sym: "targets_match a b = targets_match b a"
  by (auto simp: targets_match_def num_eq_def)

end
