(* ===== verification/Resize_Scheduler.thy ===== *)
theory Resize_Scheduler
  imports Js
begin

section \<open>Terminal resize scheduler\<close>

text \<open>
  \<open>createTerminalResizeScheduler\<close> of \<open>terminal/resize/terminal_resize_scheduler.js\<close>: it throttles the
  resize requests of a target to one animation frame, and after a quiet time applies all of them
  once more, settled. The scheduler keeps one independent state per target; the model is the state
  of one target, \<open>None\<close> while the \<open>WeakMap\<close> has none. A frame or a timer handle is a flag: armed or not.
  What the host's \<open>apply\<close> does is an argument: the \<open>schedule\<close> calls it makes on the same target while it
  runs, and whether it throws. Handles are non-zero, and the clock is read once per event.
\<close>

record rs_options =
  rs_visible :: bool
  rs_force :: bool
  rs_hide :: bool
  rs_sync :: bool
  rs_claim :: bool

record raw_options =
  ro_visibleOnly :: jsval
  ro_forceFullRender :: jsval
  ro_hideUntilRender :: jsval
  ro_forceSizeSync :: jsval
  ro_claimSize :: jsval

definition empty_options :: raw_options where
  "empty_options = \<lparr>ro_visibleOnly = Undef, ro_forceFullRender = Undef, ro_hideUntilRender = Undef,
     ro_forceSizeSync = Undef, ro_claimSize = Undef\<rparr>"

definition normalize_options :: "raw_options \<Rightarrow> rs_options" where
  "normalize_options r = \<lparr>
     rs_visible = (ro_visibleOnly r \<noteq> JBool False),
     rs_force = (ro_forceFullRender r = JBool True),
     rs_hide = (ro_hideUntilRender r = JBool True),
     rs_sync = (ro_forceSizeSync r = JBool True),
     rs_claim = (ro_claimSize r = JBool True)\<rparr>"

definition join_options :: "rs_options \<Rightarrow> rs_options \<Rightarrow> rs_options" where
  "join_options a b = \<lparr>
     rs_visible = (rs_visible a \<and> rs_visible b),
     rs_force = (rs_force a \<or> rs_force b),
     rs_hide = (rs_hide a \<or> rs_hide b),
     rs_sync = (rs_sync a \<or> rs_sync b),
     rs_claim = (rs_claim a \<or> rs_claim b)\<rparr>"

text \<open>\<open>mergeResizeOptions(current, next)\<close>; the second argument is normalised first, which changes
  nothing on options that already are.\<close>

definition merge_options :: "rs_options option \<Rightarrow> rs_options \<Rightarrow> rs_options" where
  "merge_options cur nxt = (case cur of None \<Rightarrow> nxt | Some c \<Rightarrow> join_options c nxt)"

record rs_state =
  rs_pending :: "rs_options option"
  rs_settle :: "rs_options option"
  rs_frame :: bool
  rs_timer :: bool
  rs_last :: "int option"
  rs_applying :: bool

definition rs_fresh :: rs_state where
  "rs_fresh = \<lparr>rs_pending = None, rs_settle = None, rs_frame = False, rs_timer = False,
     rs_last = None, rs_applying = False\<rparr>"

record rs_config =
  throttle_ms :: int
  settle_ms :: int

text \<open>\<open>safeThrottleMs\<close> and \<open>safeSettleMs\<close> for integral arguments.\<close>

definition safe_config :: "int \<Rightarrow> int \<Rightarrow> rs_config" where
  "safe_config throttle settle = (let t = max 0 throttle in \<lparr>throttle_ms = t, settle_ms = max t settle\<rparr>)"

definition clear_handles :: "rs_state \<Rightarrow> rs_state" where
  "clear_handles s = s\<lparr>rs_frame := False, rs_timer := False\<rparr>"

text \<open>The part of \<open>schedule\<close> after the merge: arm the frame when the throttle time is over, re-arm the timer.\<close>

definition arm_handles :: "rs_config \<Rightarrow> int \<Rightarrow> rs_state \<Rightarrow> rs_state" where
  "arm_handles cfg now s =
     (let due = (case rs_last s of None \<Rightarrow> True | Some l \<Rightarrow> now - l \<ge> throttle_ms cfg)
      in s\<lparr>rs_frame := (rs_frame s \<or> (\<not> rs_applying s \<and> due)), rs_timer := True\<rparr>)"

definition add_pending :: "rs_options \<Rightarrow> rs_state \<Rightarrow> rs_state" where
  "add_pending o' s = s\<lparr>rs_pending := Some (merge_options (rs_pending s) o')\<rparr>"

text \<open>What a call of the host's \<open>apply\<close> does to this target, and the applications it performs.\<close>

record apply_effect =
  ae_calls :: "rs_options list"
  ae_throws :: bool

datatype rs_output = Applied rs_options bool

text \<open>A \<open>schedule\<close> while \<open>applying\<close>: \<open>immediate\<close> is ignored and no frame is armed.\<close>

definition schedule_applying :: "rs_config \<Rightarrow> int \<Rightarrow> rs_state \<Rightarrow> rs_options \<Rightarrow> rs_state" where
  "schedule_applying cfg now s o' = arm_handles cfg now (add_pending o' s)"

text \<open>The options \<open>run\<close> applies: settled, those already applied in a frame join the pending ones.\<close>

definition run_options :: "bool \<Rightarrow> rs_state \<Rightarrow> rs_options option" where
  "run_options settled s =
     (if settled \<and> rs_settle s \<noteq> None
      then Some (merge_options (rs_settle s)
             (case rs_pending s of None \<Rightarrow> normalize_options empty_options | Some p \<Rightarrow> p))
      else rs_pending s)"

definition run_with :: "rs_config \<Rightarrow> int \<Rightarrow> apply_effect \<Rightarrow> bool \<Rightarrow> rs_options \<Rightarrow> rs_state \<Rightarrow> rs_state" where
  "run_with cfg now eff settled o' s =
     (let s1 = (if settled then clear_handles s else s\<lparr>rs_frame := False\<rparr>);
          s2 = s1\<lparr>rs_pending := None,
                  rs_settle := (if settled then None else Some (merge_options (rs_settle s) o')),
                  rs_applying := True, rs_last := Some now\<rparr>;
          s3 = foldl (schedule_applying cfg now) s2 (ae_calls eff);
          s4 = s3\<lparr>rs_applying := False\<rparr>
      in if \<not> ae_throws eff \<and> rs_pending s4 \<noteq> None
         then arm_handles cfg now (add_pending (normalize_options empty_options) s4) else s4)"

definition rs_run :: "rs_config \<Rightarrow> int \<Rightarrow> apply_effect \<Rightarrow> bool \<Rightarrow> rs_state \<Rightarrow> bool \<times> rs_state \<times> rs_output list" where
  "rs_run cfg now eff settled s =
     (if rs_applying s then (False, s, [])
      else case run_options settled s of None \<Rightarrow> (False, s, [])
         | Some o' \<Rightarrow> (True, run_with cfg now eff settled o' s, [Applied o' settled]))"

definition rs_schedule ::
  "rs_config \<Rightarrow> int \<Rightarrow> apply_effect \<Rightarrow> rs_options \<Rightarrow> bool \<Rightarrow> rs_state \<Rightarrow> rs_state \<times> rs_output list" where
  "rs_schedule cfg now eff o' immediate s =
     (let s1 = add_pending o' s in
      if immediate \<and> \<not> rs_applying s1 then (let (_, s2, out) = rs_run cfg now eff True s1 in (s2, out))
      else (arm_handles cfg now s1, []))"

datatype rs_event =
    EvSchedule raw_options bool
  | EvFrame
  | EvTimer
  | EvFlush
  | EvCancel

text \<open>One event on the target at time \<open>now\<close>. A frame or timer callback only happens while it is armed.\<close>

fun rs_step :: "rs_config \<Rightarrow> rs_state option \<Rightarrow> int \<times> apply_effect \<times> rs_event \<Rightarrow> rs_state option \<times> rs_output list" where
  "rs_step cfg st (now, eff, EvSchedule r imm) =
     (let s = (case st of None \<Rightarrow> rs_fresh | Some s \<Rightarrow> s);
          (s', out) = rs_schedule cfg now eff (normalize_options r) imm s in (Some s', out))"
| "rs_step cfg None (now, eff, _) = (None, [])"
| "rs_step cfg (Some s) (now, eff, EvFrame) =
     (if rs_frame s then (let (_, s', out) = rs_run cfg now eff False (s\<lparr>rs_frame := False\<rparr>) in (Some s', out))
      else (Some s, []))"
| "rs_step cfg (Some s) (now, eff, EvTimer) =
     (if rs_timer s then (let (_, s', out) = rs_run cfg now eff True (s\<lparr>rs_timer := False\<rparr>) in (Some s', out))
      else (Some s, []))"
| "rs_step cfg (Some s) (now, eff, EvFlush) =
     (let (_, s', out) = rs_run cfg now eff True s in (Some s', out))"
| "rs_step cfg (Some s) (now, eff, EvCancel) = (None, [])"

subsection \<open>The options form a join semilattice\<close>

lemma join_assoc: "join_options (join_options a b) c = join_options a (join_options b c)"
  by (simp add: join_options_def conj_assoc disj_assoc)

lemma join_empty [simp]: "join_options a (normalize_options empty_options) = a"
  by (cases a) (simp add: join_options_def normalize_options_def empty_options_def)

text \<open>All the options requested so far, joined.\<close>

definition join_all :: "rs_options list \<Rightarrow> rs_options option" where
  "join_all os = fold (\<lambda>o' acc. Some (merge_options acc o')) os None"

lemma join_all_snoc: "join_all (os @ [o']) = Some (merge_options (join_all os) o')"
  by (simp add: join_all_def)

lemma join_all_Nil [simp]: "join_all [] = None"
  by (simp add: join_all_def)

definition both :: "rs_options option \<Rightarrow> rs_options option \<Rightarrow> rs_options option" where
  "both a b = (case b of None \<Rightarrow> a | Some y \<Rightarrow> Some (merge_options a y))"

lemma both_None [simp]: "both a None = a" "both None b = b"
  by (simp_all add: both_def merge_options_def split: option.split)

lemma both_add: "both a (Some (merge_options b y)) = Some (merge_options (both a b) y)"
  by (cases a; cases b) (simp_all add: both_def merge_options_def join_assoc)

lemma merge_empty [simp]: "merge_options (Some c) (normalize_options empty_options) = c"
  by (simp add: merge_options_def)

subsection \<open>No request is lost\<close>

text \<open>
  The state with the list of options requested since the last settled application: the
  specification of the settled application is that it carries their join.
\<close>

definition requested_by :: "rs_event \<Rightarrow> rs_options list" where
  "requested_by e = (case e of EvSchedule r _ \<Rightarrow> [normalize_options r] | _ \<Rightarrow> [])"

definition log_after :: "rs_options list \<Rightarrow> apply_effect \<Rightarrow> rs_event \<Rightarrow> rs_output list \<Rightarrow> rs_options list" where
  "log_after lg eff e out =
     (if e = EvCancel then []
      else case out of
        Applied _ True # _ \<Rightarrow> ae_calls eff
      | Applied _ False # _ \<Rightarrow> lg @ requested_by e @ ae_calls eff
      | [] \<Rightarrow> lg @ requested_by e)"

definition rs_inv :: "rs_state option \<Rightarrow> rs_options list \<Rightarrow> bool" where
  "rs_inv st lg = (case st of None \<Rightarrow> lg = []
     | Some s \<Rightarrow> join_all lg = both (rs_settle s) (rs_pending s) \<and> \<not> rs_applying s
         \<and> (rs_pending s \<noteq> None \<or> rs_settle s \<noteq> None \<longrightarrow> rs_timer s)
         \<and> (rs_frame s \<longrightarrow> rs_pending s \<noteq> None))"

lemma foldl_applying_fields:
  assumes "rs_applying s"
  shows "rs_applying (foldl (schedule_applying cfg now) s os)
    \<and> rs_pending (foldl (schedule_applying cfg now) s os) = (if os = [] then rs_pending s else both (rs_pending s) (join_all os))
    \<and> rs_settle (foldl (schedule_applying cfg now) s os) = rs_settle s
    \<and> rs_timer (foldl (schedule_applying cfg now) s os) = (rs_timer s \<or> os \<noteq> [])
    \<and> rs_frame (foldl (schedule_applying cfg now) s os) = rs_frame s"
proof (induction os rule: rev_induct)
  case (snoc o' os)
  have "both (rs_pending s) (join_all (os @ [o'])) = Some (merge_options (both (rs_pending s) (join_all os)) o')"
    by (simp add: join_all_snoc both_add)
  with snoc assms show ?case
    by (auto simp: schedule_applying_def arm_handles_def add_pending_def Let_def)
qed (use assms in simp)

lemma join_all_eq_None [simp]: "join_all os = None \<longleftrightarrow> os = []"
  by (cases os rule: rev_cases) (simp_all add: join_all_snoc)

lemma join_all_append: "join_all (xs @ ys) = both (join_all xs) (join_all ys)"
proof (induction ys rule: rev_induct)
  case (snoc y ys)
  have "join_all (xs @ ys @ [y]) = Some (merge_options (join_all (xs @ ys)) y)"
    using join_all_snoc [of "xs @ ys" y] by simp
  with snoc show ?case by (simp add: join_all_snoc both_add)
qed simp

lemma both_assoc: "both (both a b) c = both a (both b c)"
  by (cases a; cases b; cases c) (simp_all add: both_def merge_options_def join_assoc)

lemma join_all_ex_Some [simp]: "(\<exists>y. join_all os = Some y) \<longleftrightarrow> os \<noteq> []"
  by (metis join_all_eq_None not_None_eq)

text \<open>One run: what it applies, and what is left.\<close>

lemma run_options_eq: "run_options settled s = (if settled then both (rs_settle s) (rs_pending s) else rs_pending s)"
  by (auto simp: run_options_def both_def merge_options_def split: option.splits)

lemma merge_join_all: "os \<noteq> [] \<Longrightarrow> Some (merge_options (join_all os) (normalize_options empty_options)) = join_all os"
  by (cases os rule: rev_cases) (simp_all add: join_all_snoc)

lemma run_with_spec:
  assumes "settled \<or> rs_timer s"
  shows "\<not> rs_applying (run_with cfg now eff settled o' s)
       \<and> rs_settle (run_with cfg now eff settled o' s) = (if settled then None else Some (merge_options (rs_settle s) o'))
       \<and> rs_pending (run_with cfg now eff settled o' s) = join_all (ae_calls eff)
       \<and> (rs_timer (run_with cfg now eff settled o' s) \<longleftrightarrow> \<not> settled \<or> ae_calls eff \<noteq> [])
       \<and> (rs_frame (run_with cfg now eff settled o' s) \<longrightarrow> rs_pending (run_with cfg now eff settled o' s) \<noteq> None)"
proof -
  define s2 where "s2 = (if settled then clear_handles s else s\<lparr>rs_frame := False\<rparr>)\<lparr>rs_pending := None,
                        rs_settle := (if settled then None else Some (merge_options (rs_settle s) o')),
                        rs_applying := True, rs_last := Some now\<rparr>"
  define s3 where "s3 = foldl (schedule_applying cfg now) s2 (ae_calls eff)"
  have r: "run_with cfg now eff settled o' s =
      (if \<not> ae_throws eff \<and> rs_pending s3 \<noteq> None
       then arm_handles cfg now (add_pending (normalize_options empty_options) (s3\<lparr>rs_applying := False\<rparr>))
       else s3\<lparr>rs_applying := False\<rparr>)"
    by (simp add: run_with_def Let_def s2_def s3_def)
  have ap: "rs_applying s2" by (simp add: s2_def)
  have s2f: "rs_pending s2 = None" "\<not> rs_frame s2" "rs_timer s2 = (\<not> settled)"
      "rs_settle s2 = (if settled then None else Some (merge_options (rs_settle s) o'))"
    using assms by (auto simp: s2_def clear_handles_def)
  have f: "rs_pending s3 = join_all (ae_calls eff)" "rs_settle s3 = rs_settle s2"
      "rs_timer s3 = (\<not> settled \<or> ae_calls eff \<noteq> [])" "\<not> rs_frame s3"
    using foldl_applying_fields [OF ap, of cfg now "ae_calls eff", folded s3_def] s2f by auto
  show ?thesis
    unfolding r using f s2f by (auto simp: arm_handles_def add_pending_def Let_def merge_join_all)
qed

text \<open>A settled run delivers everything requested so far and starts the list afresh.\<close>

lemma settled_run:
  assumes "\<not> rs_applying s" and "rs_run cfg now eff True s = (ok, s', out)"
    and lg: "join_all lg = both (rs_settle s) (rs_pending s)" and fr: "rs_frame s \<longrightarrow> rs_pending s \<noteq> None"
  shows "rs_inv (Some s') (case out of [] \<Rightarrow> lg | _ \<Rightarrow> ae_calls eff)
    \<and> (lg \<noteq> [] \<longrightarrow> (\<exists>o'. join_all lg = Some o' \<and> out = [Applied o' True]))
    \<and> (lg = [] \<longrightarrow> out = [])"
proof (cases "run_options True s")
  case None
  then have "join_all lg = None" by (simp add: lg run_options_eq)
  then have l: "lg = []" by simp
  have "rs_settle s = None" "rs_pending s = None"
    using None by (auto simp: run_options_eq both_def split: option.splits)
  then show ?thesis using assms None l by (auto simp: rs_run_def rs_inv_def)
next
  case (Some o')
  then have j: "join_all lg = Some o'" by (simp add: lg run_options_eq)
  then have "lg \<noteq> []" by auto
  with j show ?thesis
    using assms Some run_with_spec [of True s cfg now eff o'] by (auto simp: rs_run_def rs_inv_def)
qed

lemma frame_run:
  assumes "rs_inv (Some s) lg" and "rs_frame s" and "rs_run cfg now eff False (s\<lparr>rs_frame := False\<rparr>) = (ok, s', out)"
  shows "rs_inv (Some s') (lg @ ae_calls eff) \<and> (\<exists>o'. out = [Applied o' False])"
proof -
  from assms obtain p where p: "rs_pending s = Some p" and t: "rs_timer s" and na: "\<not> rs_applying s"
    and lg: "join_all lg = both (rs_settle s) (rs_pending s)"
    by (auto simp: rs_inv_def)
  have r: "s' = run_with cfg now eff False p (s\<lparr>rs_frame := False\<rparr>)" "out = [Applied p False]"
    using assms(3) p na by (auto simp: rs_run_def run_options_eq)
  have l: "join_all lg = Some (merge_options (rs_settle s) p)" using lg p by (simp add: both_def)
  show ?thesis
    using run_with_spec [of False "s\<lparr>rs_frame := False\<rparr>" cfg now eff p] r t l
    by (auto simp: rs_inv_def join_all_append)
qed

lemma rs_step_inv:
  assumes "rs_inv st lg" and "rs_step cfg st (now, eff, e) = (st', out)"
  shows "rs_inv st' (log_after lg eff e out)
    \<and> (\<forall>o'. Applied o' True \<in> set out \<longrightarrow> join_all (lg @ requested_by e) = Some o')"
proof (cases e)
  case (EvSchedule r imm)
  let ?o = "normalize_options r"
  define s where "s = add_pending ?o (case st of None \<Rightarrow> rs_fresh | Some s \<Rightarrow> s)"
  have i: "join_all (lg @ [?o]) = both (rs_settle s) (rs_pending s)" "\<not> rs_applying s" "rs_pending s \<noteq> None"
    using assms(1) by (auto simp: rs_inv_def s_def rs_fresh_def add_pending_def join_all_snoc both_add split: option.splits)
  show ?thesis
  proof (cases imm)
    case True
    obtain ok s2 out2 where r2: "rs_run cfg now eff True s = (ok, s2, out2)"
      by (cases "rs_run cfg now eff True s")
    have fin: "st' = Some s2" "out = out2"
      using assms(2) True EvSchedule i r2 by (auto simp: rs_schedule_def Let_def s_def [symmetric])
    from settled_run [OF i(2) r2 i(1)] i(3) fin EvSchedule show ?thesis
      by (auto simp: log_after_def requested_by_def)
  next
    case False
    then have "st' = Some (arm_handles cfg now s)" "out = []"
      using assms(2) EvSchedule by (auto simp: rs_schedule_def Let_def s_def [symmetric])
    then show ?thesis using i EvSchedule
      by (auto simp: rs_inv_def log_after_def requested_by_def arm_handles_def Let_def)
  qed
next
  case EvFrame
  show ?thesis
  proof (cases "\<exists>s. st = Some s \<and> rs_frame s")
    case True
    then obtain s where s: "st = Some s" "rs_frame s" by blast
    obtain ok s2 out2 where r2: "rs_run cfg now eff False (s\<lparr>rs_frame := False\<rparr>) = (ok, s2, out2)"
      by (cases "rs_run cfg now eff False (s\<lparr>rs_frame := False\<rparr>)")
    from frame_run [OF _ s(2) r2, of lg] assms s r2 EvFrame show ?thesis
      by (auto simp: log_after_def requested_by_def)
  next
    case False
    then show ?thesis using assms EvFrame
      by (cases st) (auto simp: log_after_def requested_by_def)
  qed
next
  case EvTimer
  show ?thesis
  proof (cases "\<exists>s. st = Some s \<and> rs_timer s")
    case True
    then obtain s where s: "st = Some s" "rs_timer s" by blast
    obtain ok s2 out2 where r2: "rs_run cfg now eff True (s\<lparr>rs_timer := False\<rparr>) = (ok, s2, out2)"
      by (cases "rs_run cfg now eff True (s\<lparr>rs_timer := False\<rparr>)")
    from settled_run [OF _ r2, of lg] assms s r2 EvTimer show ?thesis
      by (cases "lg = []") (auto simp: log_after_def requested_by_def rs_inv_def)
  next
    case False
    then show ?thesis using assms EvTimer
      by (cases st) (auto simp: log_after_def requested_by_def)
  qed
next
  case EvFlush
  show ?thesis
  proof (cases st)
    case (Some s)
    obtain ok s2 out2 where r2: "rs_run cfg now eff True s = (ok, s2, out2)"
      by (cases "rs_run cfg now eff True s")
    from settled_run [OF _ r2, of lg] assms Some r2 EvFlush show ?thesis
      by (cases "lg = []") (auto simp: log_after_def requested_by_def rs_inv_def)
  qed (use assms EvFlush in \<open>auto simp: log_after_def requested_by_def\<close>)
next
  case EvCancel
  then show ?thesis using assms by (cases st) (auto simp: rs_inv_def log_after_def requested_by_def)
qed

subsection \<open>Runs\<close>

definition rs_traced ::
  "rs_config \<Rightarrow> rs_state option \<times> rs_options list \<Rightarrow> int \<times> apply_effect \<times> rs_event \<Rightarrow> rs_state option \<times> rs_options list" where
  "rs_traced cfg sl x = (case (sl, x) of ((st, lg), (now, eff, e)) \<Rightarrow>
     (let (st', out) = rs_step cfg st (now, eff, e) in (st', log_after lg eff e out)))"

lemma rs_traced_inv: "case_prod rs_inv sl \<Longrightarrow> case_prod rs_inv (rs_traced cfg sl x)"
  using rs_step_inv by (fastforce simp: rs_traced_def split: prod.splits)

interpretation scheduler_trace: invariant_machine "rs_traced cfg" "case_prod rs_inv" for cfg
  by standard (rule rs_traced_inv)

lemma rs_inv_reached: "foldl (rs_traced cfg) (None, []) evs = (st, lg) \<Longrightarrow> rs_inv st lg"
  using scheduler_trace.inv_run [of "(None, [])" cfg evs] by (simp add: rs_inv_def)

text \<open>
  The settled application carries exactly the join of everything requested on the target since the last
  settled application (or cancel): a force, hide, size or claim flag asked for in any of them
  is set, and the application is restricted to visible panes only when all of them allowed it.
\<close>

theorem settled_apply_is_join:
  assumes "foldl (rs_traced cfg) (None, []) evs = (st, lg)"
    and "rs_step cfg st (now, eff, e) = (st', out)" and "Applied o' True \<in> set out"
  shows "join_all (lg @ requested_by e) = Some o'"
  using rs_step_inv [OF rs_inv_reached [OF assms(1)] assms(2)] assms(3) by blast

definition no_effect :: apply_effect where
  "no_effect = \<lparr>ae_calls = [], ae_throws = False\<rparr>"

definition demo_cfg :: rs_config where
  "demo_cfg = safe_config 80 120"

definition demo_events :: "(int \<times> apply_effect \<times> rs_event) list" where
  "demo_events = [(0, no_effect, EvSchedule (empty_options\<lparr>ro_forceFullRender := JBool True\<rparr>) False),
     (16, no_effect, EvFrame), (40, no_effect, EvSchedule (empty_options\<lparr>ro_claimSize := JBool True\<rparr>) False)]"

theorem settled_apply_is_join_witness:
  "\<exists>o'. join_all (snd (foldl (rs_traced demo_cfg) (None, []) demo_events) @ requested_by EvTimer) = Some o'
     \<and> rs_force o' \<and> rs_claim o'"
proof -
  let ?sl = "foldl (rs_traced demo_cfg) (None, []) demo_events"
  obtain st lg where sl: "?sl = (st, lg)" by (cases ?sl)
  obtain st' out where r: "rs_step demo_cfg st (160, no_effect, EvTimer) = (st', out)"
    by (cases "rs_step demo_cfg st (160, no_effect, EvTimer)")
  have "snd (rs_step demo_cfg (fst ?sl) (160, no_effect, EvTimer))
     = [Applied \<lparr>rs_visible = True, rs_force = True, rs_hide = False, rs_sync = False, rs_claim = True\<rparr> True]"
    by code_simp
  then have "Applied \<lparr>rs_visible = True, rs_force = True, rs_hide = False, rs_sync = False, rs_claim = True\<rparr> True \<in> set out"
    using sl r by simp
  from settled_apply_is_join [OF sl r this] sl show ?thesis by simp
qed

text \<open>
  No request is lost: as long as something requested has not had its settled application, the
  settle timer of the target is armed, and when it fires the join of all of it is applied.
\<close>

theorem pending_resize_is_delivered:
  assumes "foldl (rs_traced cfg) (None, []) evs = (st, lg)" and "lg \<noteq> []"
  shows "\<exists>s o'. st = Some s \<and> rs_timer s \<and> join_all lg = Some o'
           \<and> (\<forall>now eff. snd (rs_step cfg st (now, eff, EvTimer)) = [Applied o' True])"
proof -
  have i: "rs_inv st lg" by (rule rs_inv_reached [OF assms(1)])
  then obtain s where s: "st = Some s" using assms(2) by (cases st) (auto simp: rs_inv_def)
  have "both (rs_settle s) (rs_pending s) \<noteq> None"
    using i assms(2) by (simp add: s rs_inv_def flip: join_all_eq_None)
  then have t: "rs_timer s" using i by (auto simp: s rs_inv_def both_def split: option.splits)
  obtain o' where o': "join_all lg = Some o'" using assms(2) by (cases "join_all lg") auto
  have "snd (rs_step cfg st (now, eff, EvTimer)) = [Applied o' True]" for now eff
  proof -
    obtain ok s2 out2 where r2: "rs_run cfg now eff True (s\<lparr>rs_timer := False\<rparr>) = (ok, s2, out2)"
      by (cases "rs_run cfg now eff True (s\<lparr>rs_timer := False\<rparr>)")
    from settled_run [OF _ r2, of lg] i o' assms(2) t r2 show ?thesis
      by (auto simp: s rs_inv_def)
  qed
  with s t o' show ?thesis by blast
qed

theorem pending_resize_is_delivered_witness:
  "\<exists>s o'. fst (foldl (rs_traced demo_cfg) (None, []) demo_events) = Some s \<and> rs_timer s
     \<and> join_all (snd (foldl (rs_traced demo_cfg) (None, []) demo_events)) = Some o'
     \<and> (\<forall>now eff. snd (rs_step demo_cfg (Some s) (now, eff, EvTimer)) = [Applied o' True])"
proof -
  let ?sl = "foldl (rs_traced demo_cfg) (None, []) demo_events"
  obtain st lg where sl: "?sl = (st, lg)" by (cases ?sl)
  have "snd ?sl \<noteq> []" by code_simp
  then have "lg \<noteq> []" using sl by simp
  from pending_resize_is_delivered [OF sl this] sl show ?thesis by auto
qed

end
