(* ===== verification/Unified_Membership.thy ===== *)
theory Unified_Membership
  imports Js
begin

section \<open>Which panes share the unified terminal socket\<close>

text \<open>
  \<open>runtime/static/terminal/transport/terminal_unified_membership.js\<close>: the panes of one target that
  take part in the multiplexed connection, each with its priority. \<open>reconcile\<close> compares the
  wanted panes with the members and reports what was added, what was removed and which
  priorities changed. Pane objects are compared by identity, so the model refers to them by
  an address and reads their fields in the heap at the time of the call.
\<close>

subsection \<open>Panes\<close>

record um_pane =
  up_id :: jsval
  up_tabId :: jsval
  up_tabID :: jsval
  up_name :: jsval
  up_closed :: jsval
  up_exitExpected :: jsval
  up_socket :: bool
  up_fitGeneration :: jsval
  up_initialCols :: jsval
  up_initialRows :: jsval
  up_term :: "(jsval \<times> jsval) option"
  up_lastInteraction :: jsval

type_synonym um_heap = "nat \<Rightarrow> um_pane"

definition normalize_id :: "jsval \<Rightarrow> string" where
  "normalize_id v = js_trim (string_or_empty v)"

definition at_least :: "jsval \<Rightarrow> rat \<Rightarrow> bool" where
  "at_least v n = num_leq (Fin n) (number_or0 v)"

definition pane_is_eligible :: "um_pane \<Rightarrow> string \<Rightarrow> bool" where
  "pane_is_eligible p target =
     (up_closed p \<noteq> JBool True
      \<and> \<not> (js_truthy (up_exitExpected p) \<and> \<not> up_socket p)
      \<and> normalize_id (up_name p) = target
      \<and> (num_less (Fin 0) (number_or0 (up_fitGeneration p))
         \<or> (at_least (up_initialCols p) 2 \<and> at_least (up_initialRows p) 1)
         \<or> (case up_term p of None \<Rightarrow> False | Some (c, r) \<Rightarrow> at_least c 2 \<and> at_least r 1)))"

definition pane_priority :: "um_pane \<Rightarrow> string \<Rightarrow> string \<Rightarrow> nat" where
  "pane_priority p tab pane =
     (if normalize_id (up_id p) = pane then 0
      else if normalize_id (js_or (up_tabId p) (up_tabID p)) = tab then 1
      else if num_less (Fin 0) (number_or0 (up_lastInteraction p)) then 2 else 3)"

subsection \<open>Members\<close>

type_synonym um_members = "(string, nat \<times> nat) jsmap"

record um_state =
  um_target :: string
  um_revision :: nat
  um_members :: um_members

definition um_init :: um_state where
  "um_init = \<lparr>um_target = [], um_revision = 0, um_members = []\<rparr>"

record um_request =
  ur_target :: jsval
  ur_panes :: "nat option list"
  ur_tab :: jsval
  ur_pane :: jsval

record um_result =
  uo_targetChanged :: bool
  uo_membershipChanged :: bool
  uo_added :: "nat list"
  uo_removed :: "nat list"
  uo_priorities :: "(nat \<times> nat) list"

definition um_refs :: "um_members \<Rightarrow> nat list" where
  "um_refs m = map fst (mvals m)"

text \<open>One turn of the loop over the wanted panes: \<open>next\<close>, \<open>added\<close>, \<open>removed\<close>, \<open>priorities\<close>.\<close>

type_synonym um_acc = "um_members \<times> nat list \<times> nat list \<times> (nat \<times> nat) list"

definition um_visit ::
  "um_heap \<Rightarrow> string \<Rightarrow> string \<Rightarrow> string \<Rightarrow> um_members \<Rightarrow> um_acc \<Rightarrow> nat option \<Rightarrow> um_acc" where
  "um_visit h target tab pane previous acc r = (case r of None \<Rightarrow> acc | Some a \<Rightarrow>
     (let (nx, added, removed, prios) = acc; p = h a; k = normalize_id (up_id p) in
      if k = [] \<or> \<not> pane_is_eligible p target \<or> mhas nx k then acc
      else let priority = pane_priority p tab pane; prior = mget previous k;
               samePane = (case prior of None \<Rightarrow> False | Some e \<Rightarrow> fst e = a);
               sameEntry = (prior = Some (a, priority))
           in (mput k (a, priority) nx,
               (if samePane then added else added @ [a]),
               (case prior of None \<Rightarrow> removed | Some e \<Rightarrow> if fst e = a then removed else removed @ [fst e]),
               (if sameEntry then prios else prios @ [(a, priority)]))))"

definition um_reconcile :: "um_heap \<Rightarrow> um_request \<Rightarrow> um_state \<Rightarrow> um_result \<times> um_state" where
  "um_reconcile h q s =
     (let target = normalize_id (ur_target q); tab = normalize_id (ur_tab q); pane = normalize_id (ur_pane q);
          changed = (target \<noteq> um_target s);
          previous = (if changed then [] else um_members s);
          removed0 = (if changed then um_refs (um_members s) else []);
          (nx, added, removed1, prios) =
            foldl (um_visit h target tab pane previous) ([], [], removed0, []) (ur_panes q);
          gone = filter (\<lambda>e. \<not> mhas nx (fst e)) previous;
          removed = (if changed then removed1 else removed1 @ um_refs gone);
          mchanged = (changed \<or> added \<noteq> [] \<or> removed \<noteq> [])
      in (\<lparr>uo_targetChanged = changed, uo_membershipChanged = mchanged, uo_added = added,
           uo_removed = removed, uo_priorities = prios\<rparr>,
          \<lparr>um_target = target,
           um_revision = (if mchanged then Suc (um_revision s) else um_revision s),
           um_members = nx\<rparr>))"

definition um_clear :: "um_state \<Rightarrow> nat list \<times> um_state" where
  "um_clear s = (let removed = um_refs (um_members s) in
     (removed, \<lparr>um_target = [],
        um_revision = (if removed \<noteq> [] \<or> um_target s \<noteq> [] then Suc (um_revision s) else um_revision s),
        um_members = []\<rparr>))"

datatype um_op = UmReconcile um_heap um_request | UmClear

text \<open>What the owner of the socket is told: the panes to close, and the priorities to set.\<close>

fun um_exec :: "um_state \<Rightarrow> um_op \<Rightarrow> (nat list \<times> (nat \<times> nat) list) \<times> um_state" where
  "um_exec s (UmReconcile h q) = (let (r, s') = um_reconcile h q s in ((uo_removed r, uo_priorities r), s'))"
| "um_exec s UmClear = (let (removed, s') = um_clear s in ((removed, []), s'))"

definition um_step :: "um_state \<Rightarrow> um_op \<Rightarrow> um_state" where
  "um_step s e = snd (um_exec s e)"

subsection \<open>The invariant\<close>

text \<open>Distinct identifiers, and no pane twice.\<close>

definition um_wf :: "um_members \<Rightarrow> bool" where
  "um_wf m = (mwf m \<and> distinct (um_refs m))"

lemma um_refs_set: "a \<in> set (um_refs m) \<longleftrightarrow> (\<exists>k p. (k, a, p) \<in> set m)"
  by (force simp: um_refs_def mvals_def image_iff)

lemma um_refs_key: "um_wf m \<Longrightarrow> (k, a, p) \<in> set m \<Longrightarrow> (j, a, q) \<in> set m \<Longrightarrow> j = k \<and> q = p"
proof (induction m)
  case (Cons x m)
  then show ?case by (force simp: um_wf_def mwf_def um_refs_def mvals_def image_iff)
qed simp

definition um_abs :: "um_members \<Rightarrow> nat \<rightharpoonup> nat" where
  "um_abs m = map_of (mvals m)"

lemma um_abs_Some: "um_wf m \<Longrightarrow> um_abs m a = Some p \<longleftrightarrow> (\<exists>k. (k, a, p) \<in> set m)"
  by (force simp: um_abs_def um_wf_def um_refs_def mvals_def image_iff)

text \<open>What holds after any number of turns of the loop.\<close>

definition um_loop_inv ::
  "um_heap \<Rightarrow> string \<Rightarrow> string \<Rightarrow> um_members \<Rightarrow> nat list \<Rightarrow> um_acc \<Rightarrow> bool" where
  "um_loop_inv h tab pane previous removed0 acc = (case acc of (nx, added, removed, prios) \<Rightarrow>
     um_wf nx
     \<and> (\<forall>(k, a, p) \<in> set nx. k = normalize_id (up_id (h a)) \<and> p = pane_priority (h a) tab pane)
     \<and> set added = {a. \<exists>k p. (k, a, p) \<in> set nx \<and> (\<forall>q. mget previous k \<noteq> Some (a, q))}
     \<and> set removed = set removed0 \<union> {b. \<exists>k a p q. (k, a, p) \<in> set nx \<and> mget previous k = Some (b, q) \<and> b \<noteq> a}
     \<and> distinct (map fst prios)
     \<and> set prios = {(a, p). \<exists>k. (k, a, p) \<in> set nx \<and> mget previous k \<noteq> Some (a, p)})"

lemma mput_new: "\<not> mhas m k \<Longrightarrow> mput k v m = m @ [(k, v)]"
  by (induction m) (auto simp: mput_def mhas_def)

lemma um_visit_inv:
  assumes i: "um_loop_inv h tab pane previous removed0 acc"
  shows "um_loop_inv h tab pane previous removed0 (um_visit h target tab pane previous acc r)"
proof (cases r)
  case None
  then show ?thesis using i by (simp add: um_visit_def)
next
  case (Some a)
  obtain nx added removed prios where acc: "acc = (nx, added, removed, prios)" by (cases acc) auto
  define k where "k = normalize_id (up_id (h a))"
  show ?thesis
  proof (cases "k = [] \<or> \<not> pane_is_eligible (h a) target \<or> mhas nx k")
    case True
    then show ?thesis using i by (simp add: um_visit_def Some acc k_def Let_def)
  next
    case False
    then have n: "\<not> mhas nx k" by simp
    define p where "p = pane_priority (h a) tab pane"
    have fresh: "\<forall>b q. (k, b, q) \<notin> set nx" using n by (force simp: mhas_def)
    have fa: "\<forall>j q. (j, a, q) \<notin> set nx" using i fresh by (fastforce simp: um_loop_inv_def acc k_def)
    have w: "um_wf (nx @ [(k, a, p)])"
      using i fa n by (auto simp: um_loop_inv_def acc um_wf_def mwf_def mhas_def um_refs_def mvals_def)
    have dp: "a \<notin> fst ` set prios" using i fa by (auto simp: um_loop_inv_def acc)
    show ?thesis
      using i False fresh fa w dp
      by (cases "mget previous k")
        (auto simp: um_loop_inv_def um_visit_def Some acc Let_def mput_new [OF n] k_def [symmetric] p_def [symmetric], metis+)
  qed
qed

lemma um_loop_inv_foldl:
  "um_loop_inv h tab pane previous removed0 acc \<Longrightarrow>
   um_loop_inv h tab pane previous removed0 (foldl (um_visit h target tab pane previous) acc rs)"
  by (induction rs arbitrary: acc) (simp_all add: um_visit_inv)

lemma um_loop_inv_start: "um_loop_inv h tab pane previous removed0 ([], [], removed0, [])"
  by (simp add: um_loop_inv_def um_wf_def um_refs_def mvals_def)

lemma um_loop_result:
  assumes "foldl (um_visit h target tab pane previous) ([], [], removed0, []) rs = (nx, added, removed, prios)"
  shows "um_loop_inv h tab pane previous removed0 (nx, added, removed, prios)"
  using um_loop_inv_foldl [OF um_loop_inv_start, of h tab pane previous removed0 target rs] assms by simp

lemma um_step_wf:
  assumes "um_wf (um_members s)" shows "um_wf (um_members (um_step s e))"
proof (cases e)
  case (UmReconcile h q)
  then show ?thesis
    by (auto simp: um_step_def um_reconcile_def Let_def um_loop_inv_def split: prod.splits dest!: um_loop_result)
qed (simp add: um_step_def um_clear_def um_wf_def um_refs_def mvals_def)

interpretation um_machine: invariant_machine um_step "\<lambda>s. um_wf (um_members s)"
  by standard (rule um_step_wf)

lemma um_reached_wf: "um_wf (um_members (foldl um_step um_init es))"
  by (rule um_machine.inv_run) (simp add: um_init_def um_wf_def um_refs_def mvals_def)

subsection \<open>The reported changes are exact\<close>

text \<open>A client that closes the removed panes and sets the reported priorities.\<close>

definition um_mirror :: "nat list \<times> (nat \<times> nat) list \<Rightarrow> (nat \<rightharpoonup> nat) \<Rightarrow> (nat \<rightharpoonup> nat)" where
  "um_mirror out m = foldl (\<lambda>m (a, p). m(a \<mapsto> p)) (m |` (- set (fst out))) (snd out)"

lemma foldl_upd_other: "a \<notin> fst ` set ps \<Longrightarrow> foldl (\<lambda>m (a, p). m(a \<mapsto> p)) m ps a = m a"
  by (induction ps arbitrary: m) auto

lemma foldl_upd_mem:
  "distinct (map fst ps) \<Longrightarrow> (a, p) \<in> set ps \<Longrightarrow> foldl (\<lambda>m (a, p). m(a \<mapsto> p)) m ps a = Some p"
  by (induction ps arbitrary: m) (auto simp: foldl_upd_other image_iff)

lemma um_refs_filter: "a \<in> set (um_refs (filter P m)) \<longleftrightarrow> (\<exists>k p. (k, a, p) \<in> set m \<and> P (k, a, p))"
  by (auto simp: um_refs_set)

abbreviation um_gone :: "um_members \<Rightarrow> um_members \<Rightarrow> nat list" where
  "um_gone nx previous \<equiv> um_refs (filter (\<lambda>e. \<not> mhas nx (fst e)) previous)"

lemma um_left_reported:
  assumes i: "um_loop_inv h tab pane previous removed0 (nx, added, removed1, prios)" and wp: "um_wf previous"
    and p: "(k, a, q) \<in> set previous" and na: "\<forall>k p. (k, a, p) \<notin> set nx"
  shows "a \<in> set (removed1 @ um_gone nx previous)"
proof (cases "mhas nx k")
  case True
  then obtain b p' where b: "(k, b, p') \<in> set nx" by (force simp: mhas_def)
  with na have "b \<noteq> a" by blast
  moreover have "mget previous k = Some (a, q)" using wp p by (simp add: um_wf_def mget_iff_mem)
  ultimately show ?thesis using i b unfolding um_loop_inv_def by auto
qed (use p in \<open>auto simp: um_refs_filter\<close>)

lemma um_kept_silent:
  assumes i: "um_loop_inv h tab pane previous [] (nx, added, removed1, prios)" and wp: "um_wf previous"
    and p: "(k, a, p) \<in> set previous" and n: "(k, a, p) \<in> set nx"
  shows "a \<notin> set (removed1 @ um_gone nx previous) \<and> a \<notin> fst ` set prios"
proof -
  have wn: "um_wf nx" using i by (simp add: um_loop_inv_def)
  have pget: "mget previous k = Some v \<longleftrightarrow> (k, v) \<in> set previous" for k v
    using wp by (simp add: um_wf_def mget_iff_mem)
  have "a \<notin> set removed1"
  proof
    assume "a \<in> set removed1"
    then obtain j b p' q' where j: "(j, b, p') \<in> set nx" "(j, a, q') \<in> set previous" "a \<noteq> b"
      using i pget by (auto simp: um_loop_inv_def)
    with um_refs_key [OF wp p] have "j = k" by blast
    with j n wn show False by (metis um_wf_def mget_iff_mem option.inject prod.inject)
  qed
  moreover have "a \<notin> set (um_gone nx previous)"
    using um_refs_key [OF wp p] n by (force simp: um_refs_filter mhas_def)
  moreover have "a \<notin> fst ` set prios"
    using i um_refs_key [OF wn n] p pget by (fastforce simp: um_loop_inv_def)
  ultimately show ?thesis by simp
qed

lemma um_reconcile_mirror:
  assumes w: "um_wf (um_members s)" and r: "um_reconcile h q s = (r, s')"
  shows "um_mirror (uo_removed r, uo_priorities r) (um_abs (um_members s)) = um_abs (um_members s')"
proof
  fix a
  define target tab pane where "target = normalize_id (ur_target q)" and "tab = normalize_id (ur_tab q)"
    and "pane = normalize_id (ur_pane q)"
  define changed where "changed = (target \<noteq> um_target s)"
  define previous where "previous = (if changed then [] else um_members s)"
  define removed0 where "removed0 = (if changed then um_refs (um_members s) else [])"
  obtain nx added removed1 prios where f:
    "foldl (um_visit h target tab pane previous) ([], [], removed0, []) (ur_panes q) = (nx, added, removed1, prios)"
    by (metis prod_cases4)
  note i = um_loop_result [OF f]
  have wp: "um_wf previous" using w by (simp add: previous_def um_wf_def um_refs_def mvals_def)
  have wn: "um_wf nx" using i by (simp add: um_loop_inv_def)
  define removed where "removed = (if changed then removed1 else removed1 @ um_gone nx previous)"
  have e: "uo_removed r = removed" "uo_priorities r = prios" "um_members s' = nx"
    using r f by (auto simp: um_reconcile_def Let_def target_def [symmetric] tab_def [symmetric]
        pane_def [symmetric] changed_def [symmetric] previous_def [symmetric] removed0_def [symmetric] removed_def,
        simp_all add: previous_def)
  let ?m = "um_abs (um_members s) |` (- set removed)"
  have mir: "um_mirror (uo_removed r, uo_priorities r) (um_abs (um_members s)) a
      = foldl (\<lambda>m (a, p). m(a \<mapsto> p)) ?m prios a"
    by (simp add: um_mirror_def e)
  show "um_mirror (uo_removed r, uo_priorities r) (um_abs (um_members s)) a = um_abs (um_members s') a"
  proof (cases "um_abs nx a")
    case None
    then have na: "\<forall>k p. (k, a, p) \<notin> set nx" using um_abs_Some [OF wn] by (metis option.distinct(1))
    then have "a \<notin> fst ` set prios" using i by (auto simp: um_loop_inv_def)
    moreover have "a \<in> set removed" if "(k, a, q') \<in> set (um_members s)" for k q'
      using um_left_reported [OF i wp _ na, of k q'] that i
      by (auto simp: removed_def previous_def removed0_def um_loop_inv_def um_refs_set)
    then have "?m a = None"
      using um_abs_Some [OF w, of a] by (cases "um_abs (um_members s) a") (auto simp: restrict_map_def, blast)
    ultimately show ?thesis unfolding mir by (simp add: foldl_upd_other e None)
  next
    case (Some p)
    then obtain k where k: "(k, a, p) \<in> set nx" using um_abs_Some [OF wn] by blast
    show ?thesis
    proof (cases "(k, a, p) \<in> set previous")
      case False
      then have "(a, p) \<in> set prios" using i k wp by (auto simp: um_loop_inv_def um_wf_def mget_iff_mem)
      then show ?thesis using i unfolding mir by (simp add: e Some foldl_upd_mem um_loop_inv_def)
    next
      case True
      have nc: "\<not> changed" using True by (auto simp: previous_def)
      then have i': "um_loop_inv h tab pane previous [] (nx, added, removed1, prios)" using i by (simp add: removed0_def)
      have "um_abs (um_members s) a = Some p" using um_abs_Some [OF w] True nc by (auto simp: previous_def)
      then show ?thesis using um_kept_silent [OF i' wp True k] nc
        unfolding mir by (simp add: e Some foldl_upd_other restrict_map_def removed_def)
    qed
  qed
qed

lemma um_exec_mirror:
  "um_wf (um_members s) \<Longrightarrow> um_mirror (fst (um_exec s e)) (um_abs (um_members s)) = um_abs (um_members (um_step s e))"
proof (cases e)
  case (UmReconcile h q)
  assume "um_wf (um_members s)"
  from um_reconcile_mirror [OF this, of h q] UmReconcile show ?thesis
    by (auto simp: um_step_def split: prod.splits)
next
  case UmClear
  assume w: "um_wf (um_members s)"
  have "um_abs (um_members s) a = None" if "a \<notin> set (um_refs (um_members s))" for a
    using that um_abs_Some [OF w, of a] by (cases "um_abs (um_members s) a") (auto simp: um_refs_set)
  then show ?thesis using UmClear
    by (auto simp: um_step_def um_clear_def um_mirror_def um_abs_def mvals_def restrict_map_def Let_def)
qed

text \<open>
  C28. The changes reported by the membership are exact: a client that, starting from nothing, closes the
  panes reported as removed and sets the reported priorities always holds exactly the members
  with their current priorities.
\<close>

theorem membership_mirror:
  "foldl (\<lambda>(m, s) e. (um_mirror (fst (um_exec s e)) m, um_step s e)) (Map.empty, um_init) es
   = (um_abs (um_members (foldl um_step um_init es)), foldl um_step um_init es)"
proof (induction es rule: rev_induct)
  case (snoc e es)
  then show ?case by (simp add: um_exec_mirror [OF um_reached_wf])
qed (simp add: um_init_def um_abs_def mvals_def)

subsection \<open>The members are the eligible panes\<close>

text \<open>The panes of a target that can take part, the first of each identifier.\<close>

definition um_wanted :: "um_heap \<Rightarrow> string \<Rightarrow> nat option list \<Rightarrow> nat list" where
  "um_wanted h target rs = filter (\<lambda>a. normalize_id (up_id (h a)) \<noteq> [] \<and> pane_is_eligible (h a) target)
     (concat (map (case_option [] (\<lambda>a. [a])) rs))"

lemma um_visit_keys:
  "fst (um_visit h target tab pane previous acc r) =
    (case r of None \<Rightarrow> fst acc | Some a \<Rightarrow>
      if normalize_id (up_id (h a)) = [] \<or> \<not> pane_is_eligible (h a) target \<or> mhas (fst acc) (normalize_id (up_id (h a)))
      then fst acc else fst acc @ [(normalize_id (up_id (h a)), a, pane_priority (h a) tab pane)])"
  by (cases acc) (simp add: um_visit_def Let_def mput_new split: option.split)

lemma um_members_wanted:
  "mget (fst (foldl (um_visit h target tab pane previous) acc rs)) k =
    (case mget (fst acc) k of Some e \<Rightarrow> Some e
     | None \<Rightarrow> map_option (\<lambda>a. (a, pane_priority (h a) tab pane))
         (find (\<lambda>a. normalize_id (up_id (h a)) = k) (um_wanted h target rs)))"
proof (induction rs arbitrary: acc)
  case Nil
  then show ?case by (simp add: um_wanted_def split: option.split)
next
  case (Cons r rs)
  show ?case
  proof (cases r)
    case None
    have "um_wanted h target (r # rs) = um_wanted h target rs" by (simp add: None um_wanted_def)
    moreover have "um_visit h target tab pane previous acc r = acc" by (simp add: None um_visit_def)
    ultimately show ?thesis by (simp add: Cons split: option.split)
  next
    case (Some a)
    have "mget (xs @ [(j, v)]) k = (case mget xs k of Some e \<Rightarrow> Some e | None \<Rightarrow> if j = k then Some v else None)"
      for xs j and v :: "nat \<times> nat"
      by (simp add: mget_def map_add_def split: option.split)
    then show ?thesis
      by (auto simp: Cons um_visit_keys Some um_wanted_def om.has_get split: option.split)
  qed
qed

text \<open>
  After a reconciliation a pane is a member exactly when it is the first eligible pane of the target with
  its identifier, and its priority is 0 for the active pane, 1 for the active tab, 2 for a
  pane the user has touched and 3 otherwise.
\<close>

theorem membership_is_wanted:
  "mget (um_members (snd (um_reconcile h q s))) k =
     map_option (\<lambda>a. (a, pane_priority (h a) (normalize_id (ur_tab q)) (normalize_id (ur_pane q))))
       (find (\<lambda>a. normalize_id (up_id (h a)) = k) (um_wanted h (normalize_id (ur_target q)) (ur_panes q)))"
proof -
  have m: "um_members (snd (um_reconcile h q s)) =
     fst (foldl (um_visit h (normalize_id (ur_target q)) (normalize_id (ur_tab q)) (normalize_id (ur_pane q))
       (if normalize_id (ur_target q) \<noteq> um_target s then [] else um_members s))
       ([], [], (if normalize_id (ur_target q) \<noteq> um_target s then um_refs (um_members s) else []), []) (ur_panes q))"
    by (simp add: um_reconcile_def Let_def split: prod.splits)
  show ?thesis unfolding m by (subst um_members_wanted) simp
qed

subsection \<open>The revision\<close>

definition um_changes :: "um_state \<Rightarrow> um_op \<Rightarrow> bool" where
  "um_changes s e = (um_target (um_step s e) \<noteq> um_target s
     \<or> set (um_refs (um_members (um_step s e))) \<noteq> set (um_refs (um_members s)))"

lemma um_revision_step: "um_revision s \<le> um_revision (um_step s e)"
  by (cases e) (auto simp: um_step_def um_reconcile_def um_clear_def Let_def split: prod.splits)

lemma um_added_mem:
  assumes "um_loop_inv h tab pane previous removed0 (nx, added, removed, prios)"
  shows "x \<in> set added \<longleftrightarrow> (\<exists>k p. (k, x, p) \<in> set nx \<and> (\<forall>q. mget previous k \<noteq> Some (x, q)))"
proof -
  have "set added = {a. \<exists>k p. (k, a, p) \<in> set nx \<and> (\<forall>q. mget previous k \<noteq> Some (a, q))}"
    using assms by (simp add: um_loop_inv_def)
  then show ?thesis by simp
qed

lemma um_silent_same:
  assumes w: "um_wf (um_members s)" and r: "um_reconcile h q s = (r, s')" and n: "um_revision s' = um_revision s"
  shows "set (um_refs (um_members s')) = set (um_refs (um_members s)) \<and> um_target s' = um_target s"
proof -
  obtain nx added removed1 prios where f:
    "foldl (um_visit h (normalize_id (ur_target q)) (normalize_id (ur_tab q)) (normalize_id (ur_pane q)) (um_members s))
       ([], [], [], []) (ur_panes q) = (nx, added, removed1, prios)"
    by (metis prod_cases4)
  note i = um_loop_result [OF f]
  have e: "um_members s' = nx" "added = []" "um_gone nx (um_members s) = []" "removed1 = []" "um_target s' = um_target s"
    using r n f by (auto simp: um_reconcile_def Let_def split: prod.splits if_splits)
  have "a \<in> set (um_refs (um_members s))" if "(k, a, p) \<in> set nx" for k a p
  proof -
    have "\<not> (\<forall>q. mget (um_members s) k \<noteq> Some (a, q))"
    proof
      assume n: "\<forall>q. mget (um_members s) k \<noteq> Some (a, q)"
      have "a \<in> set added" unfolding um_added_mem [OF i] by (intro exI conjI) (rule that, rule n)
      then show False using e(2) by simp
    qed
    then obtain q where "mget (um_members s) k = Some (a, q)" by blast
    from mget_mem [OF this] show ?thesis by (auto simp: um_refs_set)
  qed
  moreover have "a \<in> set (um_refs nx)" if "(k, a, p) \<in> set (um_members s)" for k a p
    using um_left_reported [OF i w that] e by (auto simp: um_refs_set)
  ultimately show ?thesis using e by (auto simp: um_refs_set)
qed

interpretation um_revision: generation_machine um_step um_revision
  "\<lambda>s e. um_wf (um_members s) \<and> um_changes s e"
proof (standard, goal_cases)
  case (1 s e)
  show ?case by (rule um_revision_step)
next
  case (2 s e)
  have "um_revision (um_step s e) \<noteq> um_revision s"
  proof (cases e)
    case (UmReconcile h q)
    then have "um_step s e = snd (um_reconcile h q s)" by (simp add: um_step_def split: prod.split)
    with um_silent_same [of s h q "fst (um_reconcile h q s)" "um_step s e"] 2 show ?thesis
      by (auto simp: um_changes_def)
  next
    case UmClear
    with 2 show ?thesis by (auto simp: um_changes_def um_step_def um_clear_def Let_def um_refs_def mvals_def split: if_splits)
  qed
  with um_revision_step [of s e] show ?case by simp
qed

text \<open>
  Work tagged with a revision is recognisably stale once the target or the set of member panes has
  changed: no later state has that revision again.
\<close>

theorem membership_revision_stale:
  assumes "um_changes (foldl um_step um_init es) e"
  shows "um_revision (foldl um_step um_init (es @ e # fs)) \<noteq> um_revision (foldl um_step um_init es)"
  using um_revision.stale_after_bump [of "foldl um_step um_init es" e fs] assms um_reached_wf by simp

definition um_demo_pane :: um_pane where
  "um_demo_pane = \<lparr>up_id = Str ''p1'', up_tabId = Str ''t1'', up_tabID = Undef, up_name = Str ''box'',
     up_closed = Undef, up_exitExpected = Undef, up_socket = False, up_fitGeneration = Undef,
     up_initialCols = Num (Fin 80), up_initialRows = Num (Fin 24), up_term = None, up_lastInteraction = Undef\<rparr>"

definition um_demo_request :: "nat option list \<Rightarrow> um_request" where
  "um_demo_request ps = \<lparr>ur_target = Str ''box'', ur_panes = ps, ur_tab = Str ''t1'', ur_pane = Str ''p1''\<rparr>"

theorem membership_revision_stale_witness:
  "um_revision (foldl um_step um_init ([UmReconcile (\<lambda>_. um_demo_pane) (um_demo_request [Some 3])]
      @ UmReconcile (\<lambda>_. um_demo_pane) (um_demo_request []) # []))
   \<noteq> um_revision (foldl um_step um_init [UmReconcile (\<lambda>_. um_demo_pane) (um_demo_request [Some 3])])"
proof (rule membership_revision_stale)
  show "um_changes (foldl um_step um_init [UmReconcile (\<lambda>_. um_demo_pane) (um_demo_request [Some 3])])
      (UmReconcile (\<lambda>_. um_demo_pane) (um_demo_request []))"
    by code_simp
qed

end
