(* ===== verification/Unified_Health.thy ===== *)
theory Unified_Health
  imports Js
begin

section \<open>The health watchdog of the unified terminal socket\<close>

text \<open>
  \<open>runtime/static/terminal/transport/terminal_unified_health.js\<close>: an interval check of the physical
  socket that sends pings, closes the socket when a pong, a state transition or the agent
  preparation takes too long, and reports a missing or closed socket. Times are integral
  milliseconds of \<open>Date.now\<close> and the configured durations integral. The callbacks
  \<open>onDisconnected\<close> and \<open>onUnhealthy\<close>, \<open>close\<close> and \<open>ping\<close> are outputs; no statement after a callback
  reads the state they could change.
\<close>

subsection \<open>State\<close>

definition socket_connecting :: jnum where "socket_connecting = Fin 0"
definition socket_open :: jnum where "socket_open = Fin 1"
definition socket_closing :: jnum where "socket_closing = Fin 2"
definition socket_closed :: jnum where "socket_closed = Fin 3"

record uh_config =
  uc_checkInterval :: int
  uc_pongTimeout :: int
  uc_transitionTimeout :: int
  uc_prepareTimeout :: int

definition uh_configure :: "int \<Rightarrow> int \<Rightarrow> int \<Rightarrow> int \<Rightarrow> uh_config" where
  "uh_configure interval pong transition prepare =
     (let c = max 1000 interval in
      \<lparr>uc_checkInterval = c, uc_pongTimeout = max c pong, uc_transitionTimeout = max c transition,
       uc_prepareTimeout = prepare\<rparr>)"

text \<open>A connection as one check sees it: its snapshot, the answer of \<open>ping\<close>, and whether \<open>close\<close> throws.\<close>

record uh_view =
  uv_readyState :: jsval
  uv_serverReady :: jsval
  uv_lastPong :: jsval
  uv_ping :: bool
  uv_closeThrows :: bool

record uh_state =
  uh_connection :: "nat option"
  uh_observedState :: jnum
  uh_observedAt :: int
  uh_outstanding :: int
  uh_timer :: bool

definition uh_start :: "int \<Rightarrow> uh_state" where
  "uh_start now = \<lparr>uh_connection = None, uh_observedState = socket_closed, uh_observedAt = now,
     uh_outstanding = 0, uh_timer = False\<rparr>"

datatype uh_action = Paused | Retry | Waiting | AwaitingPong | Pinged | Closed

datatype uh_output = OutUnhealthy string | OutClose string | OutDisconnected string | OutPing

subsection \<open>Operations\<close>

definition uh_observe :: "jnum \<Rightarrow> int \<Rightarrow> uh_state \<Rightarrow> uh_state" where
  "uh_observe state tm s =
     (if num_eq state (uh_observedState s) then s
      else s\<lparr>uh_observedState := state, uh_observedAt := tm,
             uh_outstanding := (if num_eq state socket_open then uh_outstanding s else 0)\<rparr>)"

definition close_unhealthy :: "string \<Rightarrow> uh_view \<Rightarrow> uh_output list" where
  "close_unhealthy reason v =
     [OutUnhealthy reason, OutClose reason]
     @ (if uv_closeThrows v then [OutDisconnected (reason @ ''_close_failed'')] else [])"

text \<open>The open branch of \<open>check\<close>, after the state was observed.\<close>

definition uh_check_open ::
  "uh_config \<Rightarrow> string \<Rightarrow> int \<Rightarrow> uh_view \<Rightarrow> uh_state \<Rightarrow> (uh_action \<times> string) \<times> uh_output list \<times> uh_state" where
  "uh_check_open c reason now v s =
     (if uv_serverReady v = JBool False then
        (let s1 = s\<lparr>uh_outstanding := 0\<rparr> in
         if now - uh_observedAt s1 \<ge> uc_prepareTimeout c
         then ((Closed, ''agent_prepare_timeout''), close_unhealthy ''unified_agent_prepare_timeout'' v, s1)
         else ((Waiting, ''agent_preparing''), [], s1))
      else
        (let pong = number_or0 (uv_lastPong v);
             answered = (uh_outstanding s > 0 \<and> (num_leq (Fin (of_int (uh_outstanding s))) pong));
             s1 = (if answered then s\<lparr>uh_outstanding := 0\<rparr> else s)
         in if uh_outstanding s1 > 0 then
              (if now - uh_outstanding s1 \<ge> uc_pongTimeout c
               then ((Closed, ''pong_timeout''), close_unhealthy ''unified_pong_timeout'' v, s1)
               else ((AwaitingPong, reason), [], s1))
            else if \<not> uv_ping v then ((Closed, ''ping_failed''), close_unhealthy ''unified_ping_failed'' v, s1)
            else ((Pinged, reason), [OutPing], s1\<lparr>uh_outstanding := now\<rparr>)))"

definition uh_check ::
  "uh_config \<Rightarrow> bool \<Rightarrow> string \<Rightarrow> int \<Rightarrow> uh_view \<Rightarrow> uh_state \<Rightarrow> (uh_action \<times> string) \<times> uh_output list \<times> uh_state" where
  "uh_check c paused reason now v s =
     (if paused then ((Paused, reason), [], s)
      else case uh_connection s of
        None \<Rightarrow> ((Retry, reason), [OutDisconnected (''unified_'' @ reason @ ''_missing'')], s)
      | Some _ \<Rightarrow>
          (let state = js_number (uv_readyState v); s1 = uh_observe state now s in
           if num_eq state socket_open then uh_check_open c reason now v s1
           else if num_eq state socket_closed then
             ((Retry, reason), [OutDisconnected (''unified_'' @ reason @ ''_closed'')], s1)
           else if (num_eq state socket_connecting \<or> num_eq state socket_closing)
                   \<and> now - uh_observedAt s1 \<ge> uc_transitionTimeout c then
             ((Closed, ''transition_timeout''),
              close_unhealthy (if num_eq state socket_connecting then ''unified_connect_timeout''
                               else ''unified_close_timeout'') v, s1)
           else ((Waiting, reason), [], s1)))"

definition uh_set_connection :: "int \<Rightarrow> (nat \<times> uh_view) option \<Rightarrow> uh_state \<Rightarrow> uh_state" where
  "uh_set_connection now n s =
     s\<lparr>uh_connection := map_option fst n,
       uh_observedState := (case n of None \<Rightarrow> socket_closed
          | Some (_, v) \<Rightarrow> js_number (js_nullish (uv_readyState v) (Num socket_closed))),
       uh_observedAt := now, uh_outstanding := 0\<rparr>"

definition uh_probe ::
  "uh_config \<Rightarrow> bool \<Rightarrow> string \<Rightarrow> int \<Rightarrow> uh_view \<Rightarrow> uh_state \<Rightarrow> (uh_action \<times> string) \<times> uh_output list \<times> uh_state" where
  "uh_probe c paused reason now v s = uh_check c paused reason now v (s\<lparr>uh_outstanding := 0\<rparr>)"

definition uh_start_timer :: "uh_state \<Rightarrow> uh_state" where
  "uh_start_timer s = s\<lparr>uh_timer := True\<rparr>"

definition uh_stop :: "uh_state \<Rightarrow> uh_state" where
  "uh_stop s = s\<lparr>uh_timer := False, uh_connection := None, uh_outstanding := 0\<rparr>"

datatype uh_op =
    HCheck bool string int uh_view
  | HProbe bool string int uh_view
  | HSet int "(nat \<times> uh_view) option"
  | HStart
  | HStop

fun uh_exec :: "uh_config \<Rightarrow> uh_state \<Rightarrow> uh_op \<Rightarrow> ((uh_action \<times> string) option \<times> uh_output list) \<times> uh_state" where
  "uh_exec c s (HCheck paused reason now v) =
     (let (r, out, s') = uh_check c paused reason now v s in ((Some r, out), s'))"
| "uh_exec c s (HProbe paused reason now v) =
     (let (r, out, s') = uh_probe c paused reason now v s in ((Some r, out), s'))"
| "uh_exec c s (HSet now n) = ((None, []), uh_set_connection now n s)"
| "uh_exec c s HStart = ((None, []), uh_start_timer s)"
| "uh_exec c s HStop = ((None, []), uh_stop s)"

definition uh_step :: "uh_config \<Rightarrow> uh_state \<Rightarrow> uh_op \<Rightarrow> uh_state" where
  "uh_step c s e = snd (uh_exec c s e)"

subsection \<open>Invariant\<close>

text \<open>A ping is outstanding only on a connection last seen open.\<close>

definition uh_inv :: "uh_state \<Rightarrow> bool" where
  "uh_inv s = (uh_outstanding s > 0 \<longrightarrow> uh_observedState s = socket_open \<and> uh_connection s \<noteq> None)"

lemma num_eq_open: "num_eq x socket_open \<longleftrightarrow> x = socket_open"
  by (auto simp: num_eq_def socket_open_def)

lemma uh_observe_inv: "uh_inv s \<Longrightarrow> uh_inv (uh_observe st tm s)"
  by (auto simp: uh_inv_def uh_observe_def num_eq_open)

lemma uh_observe_open [simp]: "uh_observedState (uh_observe socket_open tm s) = socket_open"
  by (auto simp: uh_observe_def num_eq_def)

lemma uh_observe_outstanding [simp]:
  "uh_outstanding (uh_observe st tm s) = (if num_eq st (uh_observedState s) \<or> st = socket_open then uh_outstanding s else 0)"
  by (auto simp: uh_observe_def num_eq_open)

lemma uh_observe_connection [simp]: "uh_connection (uh_observe st tm s) = uh_connection s"
  by (simp add: uh_observe_def)

lemma uh_check_inv: "uh_inv s \<Longrightarrow> uh_check c p r now v s = (a, out, s') \<Longrightarrow> uh_inv s'"
  using uh_observe_inv [of s "js_number (uv_readyState v)" now]
  by (auto simp: uh_check_def uh_check_open_def Let_def num_eq_open uh_inv_def split: option.splits if_splits)

lemma uh_step_inv: "uh_inv s \<Longrightarrow> uh_inv (uh_step c s e)"
proof (cases e)
  case (HProbe p r now v)
  have "uh_inv (s\<lparr>uh_outstanding := 0\<rparr>)" by (simp add: uh_inv_def)
  with HProbe show ?thesis by (auto simp: uh_step_def uh_probe_def split: prod.splits intro: uh_check_inv)
next
  case (HCheck p r now v)
  assume "uh_inv s"
  with HCheck show ?thesis by (auto simp: uh_step_def split: prod.splits intro: uh_check_inv)
qed (auto simp: uh_step_def uh_inv_def uh_set_connection_def uh_start_timer_def uh_stop_def)

interpretation uh_machine: invariant_machine "uh_step c" uh_inv for c
  by standard (rule uh_step_inv)

lemma uh_reached_inv: "uh_inv (foldl (uh_step c) (uh_start now) es)"
  by (rule uh_machine.inv_run) (simp add: uh_inv_def uh_start_def)

subsection \<open>A pong timeout is justified\<close>

text \<open>
  The operations that leave a ping sent at time \<open>t\<close> unanswered: paused checks, and checks that see the
  socket open and ready and no pong as late as \<open>t\<close>.
\<close>

definition unanswered_view :: "int \<Rightarrow> uh_view \<Rightarrow> bool" where
  "unanswered_view t v = (js_number (uv_readyState v) = socket_open \<and> uv_serverReady v \<noteq> JBool False
     \<and> \<not> num_leq (Fin (of_int t)) (number_or0 (uv_lastPong v)))"

definition unanswered :: "int \<Rightarrow> uh_op \<Rightarrow> bool" where
  "unanswered t e = (case e of HCheck paused _ _ v \<Rightarrow> paused \<or> unanswered_view t v | HStart \<Rightarrow> True | _ \<Rightarrow> False)"

definition pinged_at :: "uh_config \<Rightarrow> uh_state \<Rightarrow> uh_op \<Rightarrow> int \<Rightarrow> bool" where
  "pinged_at c s e t = (OutPing \<in> set (snd (fst (uh_exec c s e))) \<and> uh_outstanding (uh_step c s e) = t)"

lemma uh_check_open_outstanding:
  assumes "uh_check_open c reason now v s = (r, out, s')" and "uh_outstanding s' > 0"
  shows "OutPing \<in> set out \<or> (uh_outstanding s' = uh_outstanding s \<and> uv_serverReady v \<noteq> JBool False
     \<and> \<not> num_leq (Fin (of_int (uh_outstanding s))) (number_or0 (uv_lastPong v)))"
  using assms by (auto simp: uh_check_open_def Let_def split: if_splits)

lemma uh_check_outstanding:
  assumes i: "uh_inv s" and c: "uh_check c paused reason now v s = (r, out, s')" and o: "uh_outstanding s' > 0"
  shows "OutPing \<in> set out \<or> (uh_outstanding s' = uh_outstanding s \<and> (paused \<or> unanswered_view (uh_outstanding s) v))"
proof (cases "\<not> paused \<and> (\<exists>n. uh_connection s = Some n) \<and> js_number (uv_readyState v) = socket_open")
  case True
  then have "uh_check_open c reason now v (uh_observe socket_open now s) = (r, out, s')"
    using c by (auto simp: uh_check_def Let_def num_eq_open)
  from uh_check_open_outstanding [OF this o] True show ?thesis by (auto simp: unanswered_view_def)
next
  case False
  have "uh_outstanding s > 0 \<longrightarrow> uh_observedState s = socket_open \<and> uh_connection s \<noteq> None"
    using i by (simp add: uh_inv_def)
  with False c o show ?thesis
    by (auto simp: uh_check_def Let_def num_eq_open num_eq_def split: option.splits if_splits)
qed

lemma uh_step_outstanding:
  assumes i: "uh_inv s" and o: "uh_outstanding (uh_step c s e) > 0"
  shows "pinged_at c s e (uh_outstanding (uh_step c s e))
     \<or> (uh_outstanding (uh_step c s e) = uh_outstanding s \<and> unanswered (uh_outstanding s) e)"
proof (cases e)
  case (HCheck paused r now v)
  then show ?thesis
    using uh_check_outstanding [OF i, of c paused r now v] o
    by (auto simp: uh_step_def pinged_at_def unanswered_def split: prod.splits)
next
  case (HProbe paused r now v)
  have "uh_inv (s\<lparr>uh_outstanding := 0\<rparr>)" by (simp add: uh_inv_def)
  from uh_check_outstanding [OF this, of c paused r now v] HProbe o show ?thesis
    by (auto simp: uh_step_def uh_probe_def pinged_at_def split: prod.splits)
qed (use o in \<open>auto simp: uh_step_def uh_set_connection_def uh_start_timer_def uh_stop_def unanswered_def\<close>)

lemma uh_outstanding_history:
  "uh_outstanding (foldl (uh_step c) (uh_start now) es) = t \<Longrightarrow> t > 0 \<Longrightarrow>
   \<exists>es1 e es2. es = es1 @ e # es2 \<and> pinged_at c (foldl (uh_step c) (uh_start now) es1) e t \<and> list_all (unanswered t) es2"
proof (induction es rule: rev_induct)
  case Nil
  then show ?case by (simp add: uh_start_def)
next
  case (snoc e es)
  let ?s = "foldl (uh_step c) (uh_start now) es"
  from uh_step_outstanding [of ?s c e] uh_reached_inv [of c now es] snoc.prems
  consider "pinged_at c ?s e t" | "uh_outstanding ?s = t" "unanswered t e" by auto
  then show ?case
  proof cases
    case 1
    then show ?thesis by (intro exI [of _ es] exI [of _ e] exI [of _ "[]"]) simp
  next
    case 2
    with snoc obtain es1 e' es2 where "es = es1 @ e' # es2" "pinged_at c (foldl (uh_step c) (uh_start now) es1) e' t"
      "list_all (unanswered t) es2" by blast
    with 2 show ?thesis by (intro exI [of _ es1] exI [of _ e'] exI [of _ "es2 @ [e]"]) simp
  qed
qed

text \<open>
  When a check closes the socket for a pong timeout, a ping was sent at least the pong timeout ago, and
  since then no operation saw a pong as late as that ping, or a socket that was not open.
\<close>

theorem pong_timeout_justified:
  assumes "fst (fst (uh_exec c (foldl (uh_step c) (uh_start t0) es) (HCheck p r now v))) = Some (Closed, ''pong_timeout'')"
  shows "\<exists>es1 e es2 t. es = es1 @ e # es2 \<and> pinged_at c (foldl (uh_step c) (uh_start t0) es1) e t
    \<and> list_all (unanswered t) es2 \<and> unanswered_view t v \<and> uc_pongTimeout c \<le> now - t"
proof -
  let ?s = "foldl (uh_step c) (uh_start t0) es"
  have "uh_outstanding ?s > 0 \<and> unanswered_view (uh_outstanding ?s) v \<and> uc_pongTimeout c \<le> now - uh_outstanding ?s"
    using assms uh_reached_inv [of c t0 es]
    by (auto simp: uh_check_def uh_check_open_def Let_def num_eq_open unanswered_view_def
        split: option.splits if_splits prod.splits)
  with uh_outstanding_history [OF refl, of c t0 es] show ?thesis by blast
qed

definition demo_view :: "jsval \<Rightarrow> uh_view" where
  "demo_view pong = \<lparr>uv_readyState = Num (Fin 1), uv_serverReady = JBool True, uv_lastPong = pong,
     uv_ping = True, uv_closeThrows = False\<rparr>"

definition demo_health :: "uh_op list" where
  "demo_health = [HSet 1 (Some (7, demo_view Undef)), HCheck False ''interval'' 5 (demo_view Undef)]"

theorem pong_timeout_justified_witness:
  "\<exists>es1 e es2 t. demo_health = es1 @ e # es2
    \<and> pinged_at (uh_configure 0 0 0 0) (foldl (uh_step (uh_configure 0 0 0 0)) (uh_start 0) es1) e t
    \<and> list_all (unanswered t) es2 \<and> unanswered_view t (demo_view (Num (Fin 4)))
    \<and> uc_pongTimeout (uh_configure 0 0 0 0) \<le> 1005 - t"
proof (rule pong_timeout_justified)
  show "fst (fst (uh_exec (uh_configure 0 0 0 0) (foldl (uh_step (uh_configure 0 0 0 0)) (uh_start 0) demo_health)
     (HCheck False ''interval'' 1005 (demo_view (Num (Fin 4)))))) = Some (Closed, ''pong_timeout'')"
    by code_simp
qed

subsection \<open>A dead peer is detected\<close>

lemma unanswered_keeps:
  assumes "uh_outstanding s = t" "t > 0" "uh_observedState s = socket_open" "unanswered t e"
  shows "uh_outstanding (uh_step c s e) = t \<and> uh_observedState (uh_step c s e) = socket_open
     \<and> uh_connection (uh_step c s e) = uh_connection s"
proof (cases e)
  case (HCheck p r now v)
  then show ?thesis using assms
    by (auto simp: unanswered_def unanswered_view_def uh_step_def uh_check_def uh_check_open_def Let_def
        num_eq_open uh_observe_def split: option.splits)
qed (use assms in \<open>auto simp: unanswered_def uh_step_def uh_start_timer_def\<close>)

lemma unanswered_run_keeps:
  "uh_outstanding s = t \<Longrightarrow> t > 0 \<Longrightarrow> uh_observedState s = socket_open \<Longrightarrow> list_all (unanswered t) es \<Longrightarrow>
   uh_outstanding (foldl (uh_step c) s es) = t \<and> uh_observedState (foldl (uh_step c) s es) = socket_open
     \<and> uh_connection (foldl (uh_step c) s es) = uh_connection s"
proof (induction es arbitrary: s)
  case (Cons e es)
  from unanswered_keeps [of s t e c] Cons show ?case by simp
qed simp

text \<open>
  C31. A peer that stops answering is detected: after a ping at time \<open>t\<close> and any checks that see no pong for
  it, the first running check at least the pong timeout later closes the socket.
\<close>

theorem dead_peer_closed:
  assumes "uh_exec c s (HCheck False r t v) = ((Some (Pinged, r), out), s1)" and "t > 0"
    and "list_all (unanswered t) es" and "unanswered_view t v2" and "uc_pongTimeout c \<le> now - t"
  shows "fst (uh_exec c (foldl (uh_step c) s1 es) (HCheck False r2 now v2))
    = (Some (Closed, ''pong_timeout''), close_unhealthy ''unified_pong_timeout'' v2)"
proof -
  have s1: "uh_outstanding s1 = t" "uh_observedState s1 = socket_open" "uh_connection s1 \<noteq> None"
    using assms(1) by (auto simp: uh_check_def uh_check_open_def Let_def num_eq_open split: option.splits if_splits)
  from unanswered_run_keeps [OF s1(1) assms(2) s1(2) assms(3), of c] s1(3) show ?thesis
    using assms(2,4,5)
    by (auto simp: uh_check_def uh_check_open_def Let_def num_eq_open unanswered_view_def uh_observe_def split: option.splits)
qed

theorem dead_peer_closed_witness:
  "\<exists>s1. fst (uh_exec (uh_configure 0 0 0 0) (foldl (uh_step (uh_configure 0 0 0 0)) s1 [HStart])
       (HCheck False ''interval'' 1005 (demo_view Undef)))
     = (Some (Closed, ''pong_timeout''), close_unhealthy ''unified_pong_timeout'' (demo_view Undef))"
proof -
  let ?c = "uh_configure 0 0 0 0"
  let ?s = "uh_set_connection 1 (Some (7, demo_view Undef)) (uh_start 0)"
  obtain s1 where e: "uh_exec ?c ?s (HCheck False ''interval'' 5 (demo_view Undef)) = ((Some (Pinged, ''interval''), [OutPing]), s1)"
    and "s1 = snd (uh_exec ?c ?s (HCheck False ''interval'' 5 (demo_view Undef)))"
  proof -
    have "fst (uh_exec ?c ?s (HCheck False ''interval'' 5 (demo_view Undef))) = (Some (Pinged, ''interval''), [OutPing])"
      by code_simp
    then show ?thesis using that by (metis prod.collapse)
  qed
  have u: "list_all (unanswered 5) [HStart]" "unanswered_view 5 (demo_view Undef)"
      "uc_pongTimeout ?c \<le> 1005 - 5" by code_simp+
  from dead_peer_closed [OF e _ u] show ?thesis by fastforce
qed

end
