(* ===== verification/Connection_Scheduler.thy ===== *)
theory Connection_Scheduler
  imports Js "HOL-Library.List_Lexorder"
begin

section \<open>The lease scheduler of terminal connections\<close>

text \<open>
  \<open>runtime/static/terminal/transport/terminal_connection_scheduler.js\<close>: sessions register, state a
  demand with a priority, and are granted at most \<open>capacity\<close> leases; failures back off, a higher
  priority preempts. The records are an ordered map from sessions; \<open>connect\<close>, \<open>disconnect\<close> and the
  timers are written to a log. The parameter \<open>throws\<close> says which \<open>connect\<close> calls throw at once; other
  failures arrive as operations of their own, like the callbacks of the host. The time stamps of a demand are
  finite numbers, an operation happens at one time, and sessions are non-empty keys.
\<close>

subsection \<open>Records\<close>

datatype cs_lstate = LConnecting | LOpen | LLeased | LClosing

datatype cs_status = Registered | Queued | ParkedStatus | StConnecting | Releasing | Backoff | StLeased | Disposed

record cs_demand =
  cd_priority :: nat
  cd_user :: int
  cd_visible :: int
  cd_output :: int
  cd_requestedAt :: int
  cd_reason :: string
  cd_generation :: jsval
  cd_hidden :: jsval

record cs_lease =
  cl_id :: nat
  cl_state :: cs_lstate
  cl_reason :: string
  cl_priority :: nat
  cl_requestedAt :: int
  cl_grantedAt :: int
  cl_generation :: jsval
  cl_hidden :: bool
  cl_closing :: string
  cl_openedAt :: "int option"
  cl_readyAt :: "int option"

record cs_record =
  cr_order :: nat
  cr_status :: cs_status
  cr_demand :: "cs_demand option"
  cr_lease :: "cs_lease option"
  cr_timer :: bool
  cr_attempt :: nat
  cr_parked :: bool
  cr_disposed :: bool
  cr_error :: "string option"

datatype cs_output = Connect nat cs_lease | Disconnect nat string cs_lease | RetryIn nat nat

record cs_state =
  cs_capacity :: nat
  cs_records :: "(nat, cs_record) jsmap"
  cs_online :: bool
  cs_generation :: jnum
  cs_nextOrder :: nat
  cs_nextLease :: nat
  cs_again :: bool
  cs_peak :: nat
  cs_violations :: nat
  cs_log :: "cs_output list"

subsection \<open>Normalisation and order\<close>

text \<open>
  A capacity is finite here. \<open>normalizeCapacity\<close> would keep an infinite one, with which the scheduler never holds anything back;
  the model reads it as 1. The page relies on the default of 3 and never sets another.
\<close>

definition normalize_capacity :: "jsval \<Rightarrow> nat" where
  "normalize_capacity v = nat (max 1 (num_int (num_floor (num_or_zero (js_number v)))))"

definition normalize_priority :: "jsval \<Rightarrow> nat" where
  "normalize_priority v = (case num_floor (js_number v) of Fin r \<Rightarrow> nat (max 0 (min 4 (floor r))) | _ \<Rightarrow> 4)"

text \<open>The key of \<open>compareRecords\<close>; a record without a demand has priority 4 and no time stamps.\<close>

definition compare_key :: "cs_record \<Rightarrow> int list" where
  "compare_key r = (case cr_demand r of
     None \<Rightarrow> [4, 0, 0, 0, int (cr_order r)]
   | Some d \<Rightarrow> [int (cd_priority d), - cd_user d, - cd_visible d, - cd_output d, int (cr_order r)])"

definition by_rank :: "(nat \<times> cs_record) list \<Rightarrow> (nat \<times> cs_record) list" where
  "by_rank rs = sort_key (\<lambda>e. compare_key (snd e)) rs"

text \<open>The registration orders are distinct, so the descending sort is the ascending one reversed.\<close>

definition by_rank_desc :: "(nat \<times> cs_record) list \<Rightarrow> (nat \<times> cs_record) list" where
  "by_rank_desc rs = rev (by_rank rs)"

definition active_records :: "cs_state \<Rightarrow> (nat \<times> cs_record) list" where
  "active_records s = filter (\<lambda>e. cr_lease (snd e) \<noteq> None) (cs_records s)"

definition retry_delay :: "nat \<Rightarrow> nat" where
  "retry_delay attempt = min 10000 (500 * 2 ^ min attempt 8)"

definition is_closing :: "cs_record \<Rightarrow> bool" where
  "is_closing r = (case cr_lease r of None \<Rightarrow> False | Some l \<Rightarrow> cl_state l = LClosing)"

definition demand_is_current :: "cs_state \<Rightarrow> cs_record \<Rightarrow> bool" where
  "demand_is_current s r = (case cr_demand r of None \<Rightarrow> False
     | Some d \<Rightarrow> cd_generation d = Undef
         \<or> (case cd_generation d of Num x \<Rightarrow> num_eq x (cs_generation s) | _ \<Rightarrow> False))"

definition can_queue :: "cs_state \<Rightarrow> cs_record \<Rightarrow> bool" where
  "can_queue s r = (\<not> cr_disposed r \<and> cr_lease r = None \<and> \<not> cr_timer r \<and> \<not> cr_parked r \<and> demand_is_current s r)"

definition eligible_queued :: "cs_state \<Rightarrow> (nat \<times> cs_record) list" where
  "eligible_queued s = by_rank (filter (\<lambda>e. can_queue s (snd e)) (cs_records s))"

subsection \<open>Emitting, granting, disconnecting\<close>

text \<open>The counters that \<open>snapshot\<close> keeps; \<open>emit\<close> takes one, and so does a function that returns it.\<close>

definition cs_snapshot :: "cs_state \<Rightarrow> cs_state" where
  "cs_snapshot s = (let n = length (active_records s) in
     s\<lparr>cs_peak := max (cs_peak s) n,
       cs_violations := (if n > cs_capacity s then Suc (cs_violations s) else cs_violations s)\<rparr>)"

definition put_record :: "nat \<Rightarrow> cs_record \<Rightarrow> cs_state \<Rightarrow> cs_state" where
  "put_record k r s = s\<lparr>cs_records := mput k r (cs_records s)\<rparr>"

definition log_out :: "cs_output \<Rightarrow> cs_state \<Rightarrow> cs_state" where
  "log_out x s = s\<lparr>cs_log := cs_log s @ [x]\<rparr>"

definition schedule_backoff :: "nat \<Rightarrow> cs_record \<Rightarrow> cs_state \<Rightarrow> cs_state" where
  "schedule_backoff k r0 s =
     (let r = r0\<lparr>cr_timer := False\<rparr> in
      if cr_demand r = None \<or> cr_disposed r \<or> \<not> cs_online s
      then cs_snapshot (put_record k (r\<lparr>cr_status := (if cr_disposed r then Disposed else ParkedStatus)\<rparr>) s)
      else cs_snapshot (log_out (RetryIn k (retry_delay (cr_attempt r)))
             (put_record k (r\<lparr>cr_attempt := min 20 (cr_attempt r + 1), cr_status := Backoff, cr_timer := True\<rparr>) s)))"

definition request_disconnect :: "nat \<Rightarrow> string \<Rightarrow> cs_state \<Rightarrow> cs_state" where
  "request_disconnect k reason s = (case mget (cs_records s) k of None \<Rightarrow> s | Some r \<Rightarrow>
     (case cr_lease r of None \<Rightarrow> s | Some l \<Rightarrow>
       if cl_state l = LClosing then s
       else let l' = l\<lparr>cl_state := LClosing, cl_closing := reason\<rparr> in
         log_out (Disconnect k reason l')
           (cs_snapshot (put_record k (r\<lparr>cr_lease := Some l', cr_status := Releasing\<rparr>) s))))"

text \<open>A \<open>connect\<close> that throws is a failure of the new lease, and asks for another round of \<open>reconcile\<close>.\<close>

definition new_lease :: "int \<Rightarrow> nat \<Rightarrow> cs_demand \<Rightarrow> cs_lease" where
  "new_lease now lid d = \<lparr>cl_id = lid, cl_state = LConnecting,
     cl_reason = (if cd_reason d = [] then ''demand'' else cd_reason d), cl_priority = cd_priority d,
     cl_requestedAt = (if cd_requestedAt d = 0 then now else cd_requestedAt d), cl_grantedAt = now,
     cl_generation = cd_generation d, cl_hidden = (cd_hidden d = JBool True), cl_closing = [],
     cl_openedAt = None, cl_readyAt = None\<rparr>"

definition grant :: "(nat \<Rightarrow> nat \<Rightarrow> bool) \<Rightarrow> int \<Rightarrow> nat \<Rightarrow> cs_state \<Rightarrow> cs_state" where
  "grant throws now k s = (case mget (cs_records s) k of None \<Rightarrow> s | Some r \<Rightarrow>
     (case cr_demand r of None \<Rightarrow> s | Some d \<Rightarrow>
       if \<not> cs_online s \<or> cr_disposed r \<or> cr_lease r \<noteq> None \<or> \<not> demand_is_current s r then s
       else let l = new_lease now (cs_nextLease s) d;
                r1 = r\<lparr>cr_lease := Some l, cr_parked := False, cr_status := StConnecting\<rparr>;
                s1 = log_out (Connect k l) (cs_snapshot (put_record k r1 (s\<lparr>cs_nextLease := Suc (cs_nextLease s)\<rparr>)))
            in if throws k (cl_id l)
               then cs_snapshot ((schedule_backoff k (r1\<lparr>cr_lease := None, cr_error := Some ''connect''\<rparr>) s1)\<lparr>cs_again := True\<rparr>)
               else s1))"

definition should_preempt :: "cs_record \<Rightarrow> cs_record \<Rightarrow> bool" where
  "should_preempt candidate victim = (case (cr_demand candidate, cr_demand victim) of
     (Some c, Some v) \<Rightarrow> \<not> is_closing victim \<and> cd_priority c \<le> 2 \<and> cd_priority c < cd_priority v
   | _ \<Rightarrow> False)"

subsection \<open>Reconciliation\<close>

definition map_records :: "(cs_record \<Rightarrow> cs_record) \<Rightarrow> cs_state \<Rightarrow> cs_state" where
  "map_records f s = s\<lparr>cs_records := map (\<lambda>e. (fst e, f (snd e))) (cs_records s)\<rparr>"

definition disconnect_all :: "string \<Rightarrow> (nat \<times> cs_record) list \<Rightarrow> cs_state \<Rightarrow> cs_state" where
  "disconnect_all reason es s = foldl (\<lambda>s e. request_disconnect (fst e) reason s) s es"

definition idle_status :: "(cs_record \<Rightarrow> cs_status) \<Rightarrow> cs_record \<Rightarrow> cs_record" where
  "idle_status f r = (if cr_lease r = None \<and> \<not> cr_timer r \<and> cr_demand r \<noteq> None then r\<lparr>cr_status := f r\<rparr> else r)"

definition reconcile_offline :: "cs_state \<Rightarrow> cs_state" where
  "reconcile_offline s = cs_snapshot (cs_snapshot (map_records (idle_status (\<lambda>_. ParkedStatus))
     (disconnect_all ''network_offline'' (active_records s) s)))"

definition drop_excess :: "cs_state \<Rightarrow> cs_state" where
  "drop_excess s =
     (let active = active_records s;
          closing = length (filter (\<lambda>e. is_closing (snd e)) active);
          excess = length active - cs_capacity s - closing
      in disconnect_all ''capacity_reduced''
           (take excess (by_rank_desc (filter (\<lambda>e. \<not> is_closing (snd e)) active))) s)"

definition demand_waits :: "cs_state \<Rightarrow> cs_record \<Rightarrow> bool" where
  "demand_waits s r = (\<not> cr_disposed r \<and> \<not> cr_timer r \<and> demand_is_current s r)"

definition unpark :: "cs_state \<Rightarrow> cs_record \<Rightarrow> cs_record" where
  "unpark s r = (if cr_parked r \<and> demand_waits s r \<and> cr_lease r = None
     then r\<lparr>cr_parked := False, cr_status := Queued\<rparr> else r)"

definition recover_parked :: "cs_state \<Rightarrow> cs_state" where
  "recover_parked s =
     (if active_records s = [] \<and> \<not> (\<exists>e \<in> set (cs_records s). \<not> cr_parked (snd e) \<and> demand_waits s (snd e))
      then map_records (unpark s) s else s)"

fun grant_loop :: "(nat \<Rightarrow> nat \<Rightarrow> bool) \<Rightarrow> int \<Rightarrow> (nat \<times> cs_record) list \<Rightarrow> cs_state \<Rightarrow> cs_state" where
  "grant_loop throws now [] s = s"
| "grant_loop throws now (e # es) s =
     (if length (active_records s) < cs_capacity s then grant_loop throws now es (grant throws now (fst e) s) else s)"

fun preempt_loop ::
  "(nat \<times> cs_record) list \<Rightarrow> (nat \<times> cs_record) list \<Rightarrow> cs_state \<Rightarrow> cs_state" where
  "preempt_loop [] victims s = s"
| "preempt_loop (c # cs) victims s = (case find (\<lambda>v. should_preempt (snd c) (snd v)) victims of
     None \<Rightarrow> preempt_loop cs victims s
   | Some v \<Rightarrow> preempt_loop cs (remove1 v victims) (request_disconnect (fst v) ''scheduler_preempt'' s))"

definition preempt :: "cs_state \<Rightarrow> cs_state" where
  "preempt s = preempt_loop (eligible_queued s)
     (by_rank_desc (filter (\<lambda>e. \<not> is_closing (snd e)) (active_records s))) s"

definition reconcile_round :: "(nat \<Rightarrow> nat \<Rightarrow> bool) \<Rightarrow> int \<Rightarrow> cs_state \<Rightarrow> cs_state" where
  "reconcile_round throws now s =
     (if \<not> cs_online s then reconcile_offline s
      else let s1 = recover_parked (drop_excess s);
               s2 = grant_loop throws now (eligible_queued s1) s1;
               s3 = preempt s2
           in cs_snapshot (cs_snapshot (map_records (idle_status (\<lambda>r. if demand_is_current s3 r \<and> \<not> cr_parked r then Queued
                                                       else ParkedStatus)) s3)))"

text \<open>
  The rounds of \<open>reconcile\<close>: a \<open>connect\<close> that threw asks for one more. Each such round has put
  a waiting record into backoff, so one more round than there are records is enough
  (\<open>cs_reconcile_settles\<close>).
\<close>

fun cs_rounds :: "nat \<Rightarrow> (nat \<Rightarrow> nat \<Rightarrow> bool) \<Rightarrow> int \<Rightarrow> cs_state \<Rightarrow> cs_state" where
  "cs_rounds 0 throws now s = s"
| "cs_rounds (Suc n) throws now s =
     (let s1 = reconcile_round throws now (s\<lparr>cs_again := False\<rparr>) in
      if cs_again s1 then cs_rounds n throws now s1 else s1)"

definition cs_reconcile :: "(nat \<Rightarrow> nat \<Rightarrow> bool) \<Rightarrow> int \<Rightarrow> cs_state \<Rightarrow> cs_state" where
  "cs_reconcile throws now s = cs_rounds (Suc (length (cs_records s))) throws now s"

subsection \<open>The operations\<close>

definition fresh_record :: "nat \<Rightarrow> cs_record" where
  "fresh_record order = \<lparr>cr_order = order, cr_status = Registered, cr_demand = None, cr_lease = None,
     cr_timer = False, cr_attempt = 0, cr_parked = False, cr_disposed = False, cr_error = None\<rparr>"

definition cs_register :: "nat \<Rightarrow> cs_state \<Rightarrow> bool \<times> cs_state" where
  "cs_register k s =
     (if mhas (cs_records s) k then (False, s)
      else (True, cs_snapshot (put_record k (fresh_record (cs_nextOrder s))
                                 (s\<lparr>cs_nextOrder := Suc (cs_nextOrder s)\<rparr>))))"

text \<open>The argument of \<open>request\<close>: the fields it has override those of the earlier demand.\<close>

record cs_patch =
  cp_priority :: jsval
  cp_user :: "int option"
  cp_visible :: "int option"
  cp_output :: "int option"
  cp_requestedAt :: "int option"
  cp_reason :: "string option"
  cp_generation :: "jsval option"
  cp_hidden :: "jsval option"
  cp_immediate :: bool

definition no_demand :: cs_demand where
  "no_demand = \<lparr>cd_priority = 4, cd_user = 0, cd_visible = 0, cd_output = 0, cd_requestedAt = 0,
     cd_reason = [], cd_generation = Undef, cd_hidden = Undef\<rparr>"

definition overriding :: "'a option \<Rightarrow> 'a \<Rightarrow> 'a" where
  "overriding v d = (case v of None \<Rightarrow> d | Some x \<Rightarrow> x)"

definition merge_demand :: "int \<Rightarrow> cs_patch \<Rightarrow> cs_demand option \<Rightarrow> cs_demand" where
  "merge_demand now p old =
     (let d = overriding old no_demand in
      \<lparr>cd_priority = normalize_priority (js_nullish (cp_priority p)
           (case old of None \<Rightarrow> Undef | Some d \<Rightarrow> Num (Fin (of_nat (cd_priority d))))),
       cd_user = overriding (cp_user p) (cd_user d),
       cd_visible = overriding (cp_visible p) (cd_visible d),
       cd_output = overriding (cp_output p) (cd_output d),
       cd_requestedAt = (let t = overriding (cp_requestedAt p) 0 in if t = 0 then now else t),
       cd_reason = overriding (cp_reason p) (cd_reason d),
       cd_generation = overriding (cp_generation p) (cd_generation d),
       cd_hidden = overriding (cp_hidden p) (cd_hidden d)\<rparr>)"

definition cs_request :: "(nat \<Rightarrow> nat \<Rightarrow> bool) \<Rightarrow> int \<Rightarrow> nat \<Rightarrow> cs_patch \<Rightarrow> cs_state \<Rightarrow> bool \<times> cs_state" where
  "cs_request throws now k p s = (case mget (cs_records s) k of None \<Rightarrow> (False, s) | Some r \<Rightarrow>
     if cr_disposed r then (False, s)
     else let d = merge_demand now p (cr_demand r);
              r1 = r\<lparr>cr_timer := (cr_timer r \<and> \<not> cp_immediate p), cr_demand := Some d,
                     cr_parked := (cr_parked r \<and> \<not> cd_priority d \<le> 2)\<rparr>;
              r2 = (if cr_lease r1 = None \<and> \<not> cr_timer r1
                    then r1\<lparr>cr_status := (if demand_is_current s r1 \<and> \<not> cr_parked r1 then Queued else ParkedStatus)\<rparr>
                    else r1)
          in (True, cs_reconcile throws now (put_record k r2 s)))"

definition cs_release :: "(nat \<Rightarrow> nat \<Rightarrow> bool) \<Rightarrow> int \<Rightarrow> nat \<Rightarrow> string \<Rightarrow> cs_state \<Rightarrow> bool \<times> cs_state" where
  "cs_release throws now k reason s = (case mget (cs_records s) k of None \<Rightarrow> (False, s) | Some r \<Rightarrow>
     let r1 = r\<lparr>cr_demand := None, cr_parked := False, cr_timer := False\<rparr>;
         s1 = (if cr_lease r1 \<noteq> None then request_disconnect k reason (put_record k r1 s)
               else put_record k (r1\<lparr>cr_status := ParkedStatus\<rparr>) s)
     in (True, cs_reconcile throws now s1))"

text \<open>The retry timer of a session fires.\<close>

definition cs_retry_fires :: "(nat \<Rightarrow> nat \<Rightarrow> bool) \<Rightarrow> int \<Rightarrow> nat \<Rightarrow> cs_state \<Rightarrow> bool \<times> cs_state" where
  "cs_retry_fires throws now k s = (case mget (cs_records s) k of None \<Rightarrow> (False, s) | Some r \<Rightarrow>
     if \<not> cr_timer r then (False, s)
     else let r1 = r\<lparr>cr_timer := False\<rparr> in
       if cr_disposed r1 \<or> cr_demand r1 = None then (True, put_record k r1 s)
       else (True, cs_reconcile throws now
               (put_record k (r1\<lparr>cr_status := (if cs_online s then Queued else ParkedStatus)\<rparr>) s)))"

text \<open>The notifications of the host name the lease they are about.\<close>

definition leased_as :: "nat \<Rightarrow> nat \<Rightarrow> cs_state \<Rightarrow> (cs_record \<times> cs_lease) option" where
  "leased_as k lid s = (case mget (cs_records s) k of None \<Rightarrow> None | Some r \<Rightarrow>
     (case cr_lease r of None \<Rightarrow> None | Some l \<Rightarrow> if cl_id l = lid then Some (r, l) else None))"

definition cs_notify_connecting :: "nat \<Rightarrow> nat \<Rightarrow> cs_state \<Rightarrow> bool \<times> cs_state" where
  "cs_notify_connecting k lid s = (case leased_as k lid s of None \<Rightarrow> (False, s) | Some (r, l) \<Rightarrow>
     if cl_state l = LClosing then (False, s)
     else (True, cs_snapshot (put_record k
            (r\<lparr>cr_lease := Some (l\<lparr>cl_state := LConnecting\<rparr>), cr_status := StConnecting\<rparr>) s)))"

definition cs_notify_open :: "int \<Rightarrow> nat \<Rightarrow> nat \<Rightarrow> cs_state \<Rightarrow> bool \<times> cs_state" where
  "cs_notify_open now k lid s = (case leased_as k lid s of None \<Rightarrow> (False, s) | Some (r, l) \<Rightarrow>
     if cl_state l = LClosing then (False, s)
     else (True, cs_snapshot (put_record k
            (r\<lparr>cr_lease := Some (l\<lparr>cl_state := LOpen, cl_openedAt := Some now\<rparr>), cr_status := StLeased\<rparr>) s)))"

definition cs_notify_ready :: "int \<Rightarrow> nat \<Rightarrow> nat \<Rightarrow> cs_state \<Rightarrow> bool \<times> cs_state" where
  "cs_notify_ready now k lid s = (case leased_as k lid s of None \<Rightarrow> (False, s) | Some (r, l) \<Rightarrow>
     if cl_state l = LClosing then (False, s)
     else (True, cs_snapshot (put_record k
            (r\<lparr>cr_lease := Some (l\<lparr>cl_state := LLeased, cl_readyAt := Some now\<rparr>), cr_attempt := 0,
               cr_status := StLeased\<rparr>) s)))"

definition cs_notify_failure ::
  "(nat \<Rightarrow> nat \<Rightarrow> bool) \<Rightarrow> int \<Rightarrow> nat \<Rightarrow> nat \<Rightarrow> string \<Rightarrow> bool \<Rightarrow> cs_state \<Rightarrow> bool \<times> cs_state" where
  "cs_notify_failure throws now k lid err awaitClose s = (case leased_as k lid s of None \<Rightarrow> (False, s) | Some (r, l) \<Rightarrow>
     let r1 = r\<lparr>cr_error := Some err\<rparr> in
     if awaitClose then (True, request_disconnect k ''network_failure'' (put_record k r1 s))
     else (True, cs_reconcile throws now
             (let r2 = r1\<lparr>cr_lease := None\<rparr> in schedule_backoff k r2 (put_record k r2 s))))"

definition releasing_reasons :: "string list" where
  "releasing_reasons = [''scheduler_preempt'', ''session_closed'', ''tab_or_target_removed'', ''page_disposed'',
     ''network_offline'', ''demand_released'', ''capacity_reduced'', ''background_tab_parked'', ''tab_priority_changed'']"

definition delete_record :: "nat \<Rightarrow> cs_state \<Rightarrow> cs_state" where
  "delete_record k s = s\<lparr>cs_records := mdel k (cs_records s)\<rparr>"

definition closed_record :: "string \<Rightarrow> cs_state \<Rightarrow> cs_record \<Rightarrow> cs_record" where
  "closed_record reason s r =
     (let preempted = (reason = ''scheduler_preempt'');
          resumed = (preempted \<and> demand_is_current s r
                     \<and> (case cr_demand r of None \<Rightarrow> False | Some d \<Rightarrow> cd_priority d \<le> 2));
          parked = (preempted \<and> \<not> resumed)
      in r\<lparr>cr_parked := parked,
           cr_status := (if cr_demand r \<noteq> None \<and> cs_online s \<and> \<not> parked then Queued else ParkedStatus)\<rparr>)"

definition cs_notify_closed ::
  "(nat \<Rightarrow> nat \<Rightarrow> bool) \<Rightarrow> int \<Rightarrow> nat \<Rightarrow> nat \<Rightarrow> string \<Rightarrow> cs_state \<Rightarrow> bool \<times> cs_state" where
  "cs_notify_closed throws now k lid info s = (case leased_as k lid s of None \<Rightarrow> (False, s) | Some (r, l) \<Rightarrow>
     let reason = (if cl_closing l \<noteq> [] then cl_closing l else info);
         r1 = r\<lparr>cr_lease := None\<rparr>; s1 = put_record k r1 s in
     if cr_disposed r1 then (True, cs_reconcile throws now (cs_snapshot (delete_record k s1)))
     else if reason \<in> set releasing_reasons
     then (True, cs_reconcile throws now (put_record k (closed_record reason s1 r1) s1))
     else (True, cs_reconcile throws now (schedule_backoff k r1 s1)))"

text \<open>\<open>invalidateTransport\<close>: every lease is dropped without another \<open>disconnect\<close>.\<close>

definition invalidate_record :: "string \<Rightarrow> bool \<Rightarrow> cs_state \<Rightarrow> nat \<Rightarrow> cs_state" where
  "invalidate_record reason immediate s k = (case mget (cs_records s) k of None \<Rightarrow> s | Some r \<Rightarrow>
     if cr_lease r = None then s
     else let r1 = r\<lparr>cr_lease := None, cr_error := Some (if reason = [] then ''network_failure'' else reason)\<rparr> in
       if cr_demand r1 \<noteq> None \<and> \<not> cr_disposed r1 \<and> cs_online s
       then (if immediate then put_record k (r1\<lparr>cr_timer := False, cr_status := Queued\<rparr>) s
             else schedule_backoff k r1 (put_record k r1 s))
       else put_record k (r1\<lparr>cr_status := (if cr_disposed r1 then Disposed else ParkedStatus)\<rparr>) s)"

definition cs_invalidate ::
  "(nat \<Rightarrow> nat \<Rightarrow> bool) \<Rightarrow> int \<Rightarrow> string \<Rightarrow> bool \<Rightarrow> cs_state \<Rightarrow> bool \<times> cs_state" where
  "cs_invalidate throws now reason immediate s =
     (let s1 = foldl (invalidate_record reason immediate) s (mkeys (cs_records s)) in
      if active_records s \<noteq> [] then (True, cs_reconcile throws now s1) else (False, s1))"

definition cs_unregister :: "(nat \<Rightarrow> nat \<Rightarrow> bool) \<Rightarrow> int \<Rightarrow> nat \<Rightarrow> string \<Rightarrow> cs_state \<Rightarrow> bool \<times> cs_state" where
  "cs_unregister throws now k reason s = (case mget (cs_records s) k of None \<Rightarrow> (False, s) | Some r \<Rightarrow>
     let s1 = put_record k (r\<lparr>cr_disposed := True, cr_demand := None, cr_timer := False\<rparr>) s;
         s2 = (if cr_lease r \<noteq> None then request_disconnect k reason s1 else cs_snapshot (delete_record k s1))
     in (True, cs_reconcile throws now s2))"

definition cs_confirm_unregistered :: "nat \<Rightarrow> cs_state \<Rightarrow> bool \<times> cs_state" where
  "cs_confirm_unregistered k s = (case mget (cs_records s) k of None \<Rightarrow> (False, s) | Some r \<Rightarrow>
     if \<not> cr_disposed r \<or> cr_lease r \<noteq> None then (False, s)
     else (True, cs_snapshot (delete_record k s)))"

definition cs_set_online :: "(nat \<Rightarrow> nat \<Rightarrow> bool) \<Rightarrow> int \<Rightarrow> bool \<Rightarrow> cs_state \<Rightarrow> bool \<times> cs_state" where
  "cs_set_online throws now v s =
     (if cs_online s = v then (False, cs_snapshot s)
      else let s1 = s\<lparr>cs_online := v\<rparr>;
               s2 = (if v then s1 else map_records (\<lambda>r. r\<lparr>cr_timer := False\<rparr>) s1)
           in (True, cs_reconcile throws now s2))"

definition cs_set_generation :: "(nat \<Rightarrow> nat \<Rightarrow> bool) \<Rightarrow> int \<Rightarrow> jsval \<Rightarrow> cs_state \<Rightarrow> bool \<times> cs_state" where
  "cs_set_generation throws now g s =
     (True, cs_reconcile throws now (s\<lparr>cs_generation := num_or_zero (js_number g)\<rparr>))"

definition cs_set_capacity :: "(nat \<Rightarrow> nat \<Rightarrow> bool) \<Rightarrow> int \<Rightarrow> jsval \<Rightarrow> cs_state \<Rightarrow> bool \<times> cs_state" where
  "cs_set_capacity throws now v s =
     (let c = normalize_capacity v in
      if cs_capacity s = c then (False, cs_snapshot s)
      else (True, cs_reconcile throws now (s\<lparr>cs_capacity := c\<rparr>)))"

definition cs_init :: "jsval \<Rightarrow> cs_state" where
  "cs_init capacity = \<lparr>cs_capacity = normalize_capacity capacity, cs_records = [], cs_online = True,
     cs_generation = Fin 0, cs_nextOrder = 1, cs_nextLease = 1, cs_again = False, cs_peak = 0,
     cs_violations = 0, cs_log = []\<rparr>"

datatype cs_op =
    CsRegister nat
  | CsRequest nat cs_patch
  | CsRelease nat string
  | CsRetryFires nat
  | CsNotifyConnecting nat nat
  | CsNotifyOpen nat nat
  | CsNotifyReady nat nat
  | CsNotifyFailure nat nat string bool
  | CsNotifyClosed nat nat string
  | CsInvalidate string bool
  | CsUnregister nat string
  | CsConfirm nat
  | CsReconcile
  | CsSetOnline bool
  | CsSetGeneration jsval
  | CsSetCapacity jsval

text \<open>An operation with the time it happens at and the leases whose \<open>connect\<close> throws during it.\<close>

fun cs_exec :: "cs_state \<Rightarrow> (nat \<Rightarrow> nat \<Rightarrow> bool) \<times> int \<times> cs_op \<Rightarrow> bool \<times> cs_state" where
  "cs_exec s (th, now, CsRegister k) = cs_register k s"
| "cs_exec s (th, now, CsRequest k p) = cs_request th now k p s"
| "cs_exec s (th, now, CsRelease k r) = cs_release th now k r s"
| "cs_exec s (th, now, CsRetryFires k) = cs_retry_fires th now k s"
| "cs_exec s (th, now, CsNotifyConnecting k l) = cs_notify_connecting k l s"
| "cs_exec s (th, now, CsNotifyOpen k l) = cs_notify_open now k l s"
| "cs_exec s (th, now, CsNotifyReady k l) = cs_notify_ready now k l s"
| "cs_exec s (th, now, CsNotifyFailure k l e a) = cs_notify_failure th now k l e a s"
| "cs_exec s (th, now, CsNotifyClosed k l i) = cs_notify_closed th now k l i s"
| "cs_exec s (th, now, CsInvalidate r i) = cs_invalidate th now r i s"
| "cs_exec s (th, now, CsUnregister k r) = cs_unregister th now k r s"
| "cs_exec s (th, now, CsConfirm k) = cs_confirm_unregistered k s"
| "cs_exec s (th, now, CsReconcile) = (True, cs_reconcile th now s)"
| "cs_exec s (th, now, CsSetOnline v) = cs_set_online th now v s"
| "cs_exec s (th, now, CsSetGeneration g) = cs_set_generation th now g s"
| "cs_exec s (th, now, CsSetCapacity v) = cs_set_capacity th now v s"

definition cs_step :: "cs_state \<Rightarrow> (nat \<Rightarrow> nat \<Rightarrow> bool) \<times> int \<times> cs_op \<Rightarrow> cs_state" where
  "cs_step s e = snd (cs_exec s e)"

subsection \<open>Field lemmas\<close>

lemma put_simps [simp]:
  "cs_records (put_record k r s) = mput k r (cs_records s)"
  "cs_online (put_record k r s) = cs_online s" "cs_capacity (put_record k r s) = cs_capacity s"
  "cs_again (put_record k r s) = cs_again s" "cs_generation (put_record k r s) = cs_generation s"
  "cs_nextLease (put_record k r s) = cs_nextLease s" "cs_nextOrder (put_record k r s) = cs_nextOrder s"
  "cs_log (put_record k r s) = cs_log s" "cs_violations (put_record k r s) = cs_violations s"
  by (simp_all add: put_record_def)

lemma snap_simps [simp]:
  "cs_records (cs_snapshot s) = cs_records s" "cs_online (cs_snapshot s) = cs_online s"
  "cs_capacity (cs_snapshot s) = cs_capacity s" "cs_again (cs_snapshot s) = cs_again s"
  "cs_generation (cs_snapshot s) = cs_generation s" "cs_nextLease (cs_snapshot s) = cs_nextLease s"
  "cs_nextOrder (cs_snapshot s) = cs_nextOrder s" "cs_log (cs_snapshot s) = cs_log s"
  "cs_records (log_out x s) = cs_records s" "cs_online (log_out x s) = cs_online s"
  "cs_capacity (log_out x s) = cs_capacity s" "cs_again (log_out x s) = cs_again s"
  "cs_generation (log_out x s) = cs_generation s" "cs_nextLease (log_out x s) = cs_nextLease s"
  "cs_nextOrder (log_out x s) = cs_nextOrder s" "cs_log (log_out x s) = cs_log s @ [x]"
  "cs_violations (log_out x s) = cs_violations s"
  by (simp_all add: cs_snapshot_def log_out_def Let_def)

lemma map_simps [simp]:
  "cs_online (map_records f s) = cs_online s" "cs_capacity (map_records f s) = cs_capacity s"
  "cs_again (map_records f s) = cs_again s" "cs_generation (map_records f s) = cs_generation s"
  "cs_nextLease (map_records f s) = cs_nextLease s" "cs_nextOrder (map_records f s) = cs_nextOrder s"
  "cs_log (map_records f s) = cs_log s" "cs_violations (map_records f s) = cs_violations s"
  "cs_records (map_records f s) = map (\<lambda>e. (fst e, f (snd e))) (cs_records s)"
  by (simp_all add: map_records_def)

subsection \<open>How leases evolve\<close>

definition lease_id :: "cs_state \<Rightarrow> nat \<Rightarrow> nat option" where
  "lease_id s k = (case mget (cs_records s) k of None \<Rightarrow> None | Some r \<Rightarrow> map_option cl_id (cr_lease r))"

definition leased :: "cs_state \<Rightarrow> nat set" where
  "leased s = {k. lease_id s k \<noteq> None}"

abbreviation cs_wf :: "cs_state \<Rightarrow> bool" where
  "cs_wf s \<equiv> mwf (cs_records s)"

lemma leased_keys: "leased s \<subseteq> set (mkeys (cs_records s))"
  by (force simp: leased_def lease_id_def mkeys_def image_iff dest: mget_mem split: option.splits)

lemma finite_leased [simp]: "finite (leased s)"
  using leased_keys finite_subset by blast

lemma active_keys: "cs_wf s \<Longrightarrow> set (map fst (active_records s)) = leased s"
proof (intro set_eqI iffI)
  fix k
  assume w: "cs_wf s" and "k \<in> leased s"
  then obtain r l where "mget (cs_records s) k = Some r" "cr_lease r = Some l"
    by (auto simp: leased_def lease_id_def split: option.splits)
  with mget_mem [of "cs_records s" k r] show "k \<in> set (map fst (active_records s))"
    by (force simp: active_records_def image_iff)
next
  fix k
  assume w: "cs_wf s" and "k \<in> set (map fst (active_records s))"
  then obtain r where "(k, r) \<in> set (cs_records s)" "cr_lease r \<noteq> None" by (auto simp: active_records_def)
  with mget_iff_mem [OF w, of k r] show "k \<in> leased s" by (simp add: leased_def lease_id_def)
qed

lemma active_length: "cs_wf s \<Longrightarrow> length (active_records s) = card (leased s)"
proof -
  assume w: "cs_wf s"
  have "distinct (map fst (active_records s))"
    using w by (simp add: active_records_def mwf_def distinct_map_filter)
  from distinct_card [OF this] active_keys [OF w] show ?thesis by simp
qed

text \<open>
  The steps inside an operation: a lease is kept, dropped or newly numbered, the number of leases
  does not grow beyond the capacity, and the violation counter moves only above it.
\<close>

definition legal :: "cs_state \<Rightarrow> cs_state \<Rightarrow> bool" where
  "legal s s' = (cs_wf s \<longrightarrow>
     cs_wf s' \<and> cs_capacity s' = cs_capacity s \<and> cs_nextLease s \<le> cs_nextLease s'
     \<and> (\<forall>k. lease_id s' k = None \<or> lease_id s' k = lease_id s k
           \<or> (\<exists>L. lease_id s' k = Some L \<and> cs_nextLease s \<le> L \<and> L < cs_nextLease s'))
     \<and> card (leased s') \<le> max (card (leased s)) (cs_capacity s)
     \<and> (card (leased s) \<le> cs_capacity s \<longrightarrow> cs_violations s' = cs_violations s))"

lemma legal_refl [simp]: "legal s s" by (simp add: legal_def)

lemma legal_trans [trans]:
  assumes "legal s t" "legal t u" shows "legal s u"
proof (cases "cs_wf s")
  case True
  with assms(1) have t: "cs_wf t" "cs_capacity t = cs_capacity s" "cs_nextLease s \<le> cs_nextLease t"
      "card (leased t) \<le> max (card (leased s)) (cs_capacity s)"
      "card (leased s) \<le> cs_capacity s \<longrightarrow> cs_violations t = cs_violations s"
    and tk: "\<And>k. lease_id t k = None \<or> lease_id t k = lease_id s k
           \<or> (\<exists>L. lease_id t k = Some L \<and> cs_nextLease s \<le> L \<and> L < cs_nextLease t)"
    by (simp_all add: legal_def)
  from assms(2) t(1) have u: "cs_wf u" "cs_capacity u = cs_capacity t" "cs_nextLease t \<le> cs_nextLease u"
      "card (leased u) \<le> max (card (leased t)) (cs_capacity t)"
      "card (leased t) \<le> cs_capacity t \<longrightarrow> cs_violations u = cs_violations t"
    and uk: "\<And>k. lease_id u k = None \<or> lease_id u k = lease_id t k
           \<or> (\<exists>L. lease_id u k = Some L \<and> cs_nextLease t \<le> L \<and> L < cs_nextLease u)"
    by (simp_all add: legal_def)
  have "lease_id u k = None \<or> lease_id u k = lease_id s k
           \<or> (\<exists>L. lease_id u k = Some L \<and> cs_nextLease s \<le> L \<and> L < cs_nextLease u)" for k
    using tk [of k] uk [of k] t(3) u(3) by (metis le_trans less_le_trans)
  moreover have "card (leased s) \<le> cs_capacity s \<longrightarrow> cs_violations u = cs_violations s" using t u by auto
  moreover have "card (leased u) \<le> max (card (leased s)) (cs_capacity s)" using t u by auto
  ultimately show ?thesis using t u by (simp add: legal_def)
qed (simp add: legal_def)

text \<open>Dropping leases, or changing nothing about them, is legal.\<close>

lemma legalI:
  assumes "cs_wf s \<Longrightarrow> cs_wf s'" "cs_capacity s' = cs_capacity s" "cs_nextLease s' = cs_nextLease s"
    "cs_violations s' = cs_violations s"
    "\<And>k. cs_wf s \<Longrightarrow> lease_id s' k = None \<or> lease_id s' k = lease_id s k"
  shows "legal s s'"
proof -
  have "k \<in> leased s" if "cs_wf s" "k \<in> leased s'" for k using assms(5) [OF that(1), of k] that(2) by (auto simp: leased_def)
  then have "leased s' \<subseteq> leased s" if "cs_wf s" using that by blast
  then have "card (leased s') \<le> card (leased s)" if "cs_wf s" using that by (simp add: card_mono)
  moreover have "\<forall>k. lease_id s' k = None \<or> lease_id s' k = lease_id s k" if "cs_wf s"
    using assms(5) [OF that] by blast
  ultimately show ?thesis using assms(1-4) by (auto simp: legal_def le_max_iff_disj) (metis option.distinct(1))
qed

lemma lease_id_put: "lease_id (put_record k r s) j = (if j = k then map_option cl_id (cr_lease r) else lease_id s j)"
  by (simp add: lease_id_def om.get_put)

lemma lease_id_snap [simp]: "lease_id (cs_snapshot s) k = lease_id s k" "lease_id (log_out x s) k = lease_id s k"
  by (simp_all add: lease_id_def)

lemma leased_snap [simp]: "leased (cs_snapshot s) = leased s" "leased (log_out x s) = leased s"
  by (simp_all add: leased_def)

lemma legal_put:
  "map_option cl_id (cr_lease r) = None \<or> map_option cl_id (cr_lease r) = lease_id s k \<Longrightarrow> legal s (put_record k r s)"
  by (rule legalI) (auto simp: om.wf_put lease_id_put)

lemma legal_snapshot [simp]: "legal s (cs_snapshot s)"
  by (auto simp: legal_def active_length cs_snapshot_def Let_def leased_def lease_id_def)

lemma legal_log [simp]: "legal s (log_out x s)"
  by (rule legalI) auto

lemma legal_snapI: "legal s t \<Longrightarrow> legal s (cs_snapshot t)" and legal_logI: "legal s t \<Longrightarrow> legal s (log_out x t)"
  by (erule legal_trans, simp)+

lemma legal_again [simp]: "legal s (s\<lparr>cs_again := b\<rparr>)" "legal s (s\<lparr>cs_online := c\<rparr>)"
   "legal s (s\<lparr>cs_generation := g\<rparr>)" "legal s (s\<lparr>cs_nextOrder := n\<rparr>)"
  by (rule legalI; simp add: lease_id_def)+

lemma mget_map_values: "mget (map (\<lambda>e. (fst e, f (snd e))) m) k = map_option f (mget m k)"
  by (induction m) (auto simp: mget_def)

lemma mwf_map_values: "mwf (map (\<lambda>e. (fst e, f (snd e))) m) = mwf m"
  by (simp add: mwf_def comp_def)

lemma legal_map_records: "(\<And>r. cr_lease (f r) = cr_lease r) \<Longrightarrow> legal s (map_records f s)"
  by (rule legalI) (auto simp: mwf_map_values lease_id_def mget_map_values split: option.splits)

lemma legal_delete: "legal s (delete_record k s)"
  by (rule legalI) (auto simp: delete_record_def om.wf_del lease_id_def om.get_del)

lemma legal_backoff: "cr_lease r = None \<Longrightarrow> legal s (schedule_backoff k r s)"
  unfolding schedule_backoff_def Let_def
  by (auto intro!: legal_snapI legal_logI legal_put)

lemma legal_disconnect: "legal s (request_disconnect k reason s)"
proof (cases "\<exists>r l. mget (cs_records s) k = Some r \<and> cr_lease r = Some l \<and> cl_state l \<noteq> LClosing")
  case True
  then obtain r l where r: "mget (cs_records s) k = Some r" "cr_lease r = Some l" "cl_state l \<noteq> LClosing" by blast
  then have "legal s (put_record k (r\<lparr>cr_lease := Some (l\<lparr>cl_state := LClosing, cl_closing := reason\<rparr>), cr_status := Releasing\<rparr>) s)"
    by (intro legal_put) (simp add: lease_id_def)
  then show ?thesis using r by (simp add: request_disconnect_def Let_def legal_logI legal_snapI)
next
  case False
  then have "request_disconnect k reason s = s" by (auto simp: request_disconnect_def split: option.splits)
  then show ?thesis by simp
qed

lemma legal_disconnect_all: "legal s (disconnect_all reason es s)"
proof (induction es arbitrary: s)
  case (Cons e es)
  have "disconnect_all reason (e # es) s = disconnect_all reason es (request_disconnect (fst e) reason s)"
    by (simp add: disconnect_all_def)
  with Cons legal_disconnect show ?case by (metis legal_trans)
qed (simp add: disconnect_all_def)

lemma legal_grant: "length (active_records s) < cs_capacity s \<Longrightarrow> legal s (grant throws now k s)"
proof (cases "\<exists>r d. mget (cs_records s) k = Some r \<and> cr_demand r = Some d \<and> cr_lease r = None
    \<and> cs_online s \<and> \<not> cr_disposed r \<and> demand_is_current s r")
  case True
  assume room: "length (active_records s) < cs_capacity s"
  from True obtain r d where r: "mget (cs_records s) k = Some r" "cr_demand r = Some d" "cr_lease r = None"
      "cs_online s" "\<not> cr_disposed r" "demand_is_current s r" by blast
  define r1 where "r1 = r\<lparr>cr_lease := Some (new_lease now (cs_nextLease s) d), cr_parked := False, cr_status := StConnecting\<rparr>"
  define s0 where "s0 = put_record k r1 (s\<lparr>cs_nextLease := Suc (cs_nextLease s)\<rparr>)"
  define s1 where "s1 = log_out (Connect k (new_lease now (cs_nextLease s) d)) (cs_snapshot s0)"
  have g: "grant throws now k s = (if throws k (cs_nextLease s)
     then cs_snapshot ((schedule_backoff k (r1\<lparr>cr_lease := None, cr_error := Some ''connect''\<rparr>) s1)\<lparr>cs_again := True\<rparr>) else s1)"
    using r by (simp add: grant_def Let_def r1_def s0_def s1_def) (simp add: new_lease_def)
  have id: "lease_id s0 j = (if j = k then Some (cs_nextLease s) else lease_id s j)" for j
    by (simp add: s0_def lease_id_put r1_def new_lease_def) (simp add: lease_id_def)
  then have "leased s0 = insert k (leased s)" by (auto simp: leased_def)
  then have "card (leased s0) \<le> Suc (card (leased s))" by (simp add: card_insert_if)
  then have "legal s s0"
    using room id by (auto simp: legal_def s0_def om.wf_put active_length)
  then have l1: "legal s s1" by (simp add: s1_def legal_logI legal_snapI)
  have "legal s1 (schedule_backoff k (r1\<lparr>cr_lease := None, cr_error := Some ''connect''\<rparr>) s1)"
    by (rule legal_backoff) simp
  from legal_trans [OF legal_trans [OF l1 this] legal_again(1)]
  have "legal s ((schedule_backoff k (r1\<lparr>cr_lease := None, cr_error := Some ''connect''\<rparr>) s1)\<lparr>cs_again := True\<rparr>)" .
  with l1 show ?thesis by (simp add: g legal_snapI)
next
  case False
  then have "grant throws now k s = s" by (auto simp: grant_def split: option.splits)
  then show ?thesis by simp
qed

lemma legal_grant_loop: "legal s (grant_loop throws now es s)"
proof (induction es arbitrary: s)
  case (Cons e es)
  show ?case
  proof (cases "length (active_records s) < cs_capacity s")
    case True
    show ?thesis using legal_trans [OF legal_grant [OF True] Cons] True by simp
  qed simp
qed simp

lemma legal_preempt_loop: "legal s (preempt_loop cs vs s)"
proof (induction cs arbitrary: vs s)
  case (Cons c cs)
  show ?case
  proof (cases "find (\<lambda>v. should_preempt (snd c) (snd v)) vs")
    case None
    with Cons show ?thesis by simp
  next
    case (Some v)
    from legal_trans [OF legal_disconnect Cons] Some show ?thesis by simp
  qed
qed simp

lemma legal_idle: "legal s (map_records (idle_status f) s)"
  by (rule legal_map_records) (simp add: idle_status_def)

lemma legal_drop_excess: "legal s (drop_excess s)"
  by (simp add: drop_excess_def Let_def legal_disconnect_all)

lemma legal_recover: "legal s (recover_parked s)"
  by (simp add: recover_parked_def legal_map_records unpark_def)

lemma legal_round: "legal s (reconcile_round throws now s)"
proof (cases "cs_online s")
  case True
  have "legal s (recover_parked (drop_excess s))" (is "legal s ?s1")
    using legal_drop_excess legal_recover legal_trans by blast
  then have "legal s (grant_loop throws now (eligible_queued ?s1) ?s1)" (is "legal s ?s2")
    using legal_grant_loop legal_trans by blast
  then have "legal s (preempt ?s2)" unfolding preempt_def using legal_preempt_loop legal_trans by blast
  with True show ?thesis
    by (simp add: reconcile_round_def Let_def legal_snapI legal_trans [OF _ legal_idle])
next
  case False
  then show ?thesis
    by (simp add: reconcile_round_def reconcile_offline_def legal_snapI legal_trans [OF legal_disconnect_all legal_idle])
qed

lemma legal_rounds: "legal s (cs_rounds n throws now s)"
proof (induction n arbitrary: s)
  case (Suc n)
  have "legal s (reconcile_round throws now (s\<lparr>cs_again := False\<rparr>))"
    using legal_again(1) legal_round legal_trans by blast
  then show ?case by (simp add: Let_def legal_trans [OF _ Suc])
qed simp

lemma legal_reconcile: "legal s (cs_reconcile throws now s)"
  by (simp add: cs_reconcile_def legal_rounds del: cs_rounds.simps)

lemma legal_reconcileI: "legal s t \<Longrightarrow> legal s (cs_reconcile throws now t)"
  using legal_reconcile legal_trans by blast

lemma legal_putI:
  "legal s t \<Longrightarrow> map_option cl_id (cr_lease r) = None \<or> map_option cl_id (cr_lease r) = lease_id t k \<Longrightarrow>
   legal s (put_record k r t)"
  using legal_put legal_trans by blast

lemma legal_deleteI: "legal s t \<Longrightarrow> legal s (delete_record k t)"
  using legal_delete legal_trans by blast

lemma legal_backoffI: "legal s t \<Longrightarrow> cr_lease r = None \<Longrightarrow> legal s (schedule_backoff k r t)"
  using legal_backoff legal_trans by blast

lemma legal_disconnectI: "legal s t \<Longrightarrow> legal s (request_disconnect k reason t)"
  using legal_disconnect legal_trans by blast

lemmas legal_intros = legal_reconcileI legal_snapI legal_logI legal_putI legal_deleteI legal_backoffI legal_disconnectI

lemma leased_asD: "leased_as k lid s = Some (r, l) \<Longrightarrow>
    mget (cs_records s) k = Some r \<and> cr_lease r = Some l \<and> cl_id l = lid \<and> lease_id s k = Some lid"
  by (auto simp: leased_as_def lease_id_def split: option.splits if_splits)

lemma legal_invalidate: "legal s (invalidate_record reason imm s k)"
  by (auto simp: invalidate_record_def Let_def intro!: legal_intros split: option.split)

lemma legal_invalidate_all: "legal s (foldl (invalidate_record reason imm) s ks)"
proof (induction ks arbitrary: s)
  case (Cons k ks)
  from legal_trans [OF legal_invalidate Cons] show ?case by simp
qed simp

lemma lease_id_mget: "mget (cs_records s) k = Some r \<Longrightarrow> lease_id s k = map_option cl_id (cr_lease r)"
  by (simp add: lease_id_def)

lemma legal_notify:
  "legal s (snd (cs_notify_connecting k l s))" "legal s (snd (cs_notify_open now k l s))"
  "legal s (snd (cs_notify_ready now k l s))" "legal s (snd (cs_notify_failure th now k l err a s))"
  "legal s (snd (cs_notify_closed th now k l info s))"
  by (auto simp: cs_notify_connecting_def cs_notify_open_def cs_notify_ready_def cs_notify_failure_def
      cs_notify_closed_def closed_record_def Let_def lease_id_mget dest!: leased_asD intro!: legal_intros split: option.split)

lemma legal_request: "legal s (snd (cs_request th now k p s))"
  by (auto simp: cs_request_def Let_def lease_id_mget intro!: legal_intros split: option.split)

lemma legal_release: "legal s (snd (cs_release th now k r s))"
  by (auto simp: cs_release_def Let_def lease_id_mget intro!: legal_intros split: option.split)

lemma legal_others:
  "legal s (snd (cs_register k s))" "legal s (snd (cs_retry_fires th now k s))"
  "legal s (snd (cs_unregister th now k reason s))" "legal s (snd (cs_confirm_unregistered k s))"
  "legal s (snd (cs_set_online th now v s))" "legal s (snd (cs_set_generation th now g s))"
  "legal s (snd (cs_invalidate th now reason imm s))"
  by (auto simp: cs_register_def fresh_record_def cs_retry_fires_def cs_unregister_def cs_confirm_unregistered_def
      cs_set_online_def cs_set_generation_def cs_invalidate_def Let_def lease_id_mget
      intro!: legal_intros legal_invalidate_all legal_trans [OF legal_again(2) legal_map_records] legal_trans [OF legal_again(4) legal_put]
      split: option.split)

fun sets_capacity :: "(nat \<Rightarrow> nat \<Rightarrow> bool) \<times> int \<times> cs_op \<Rightarrow> bool" where
  "sets_capacity (th, now, CsSetCapacity v) = True"
| "sets_capacity _ = False"

lemma legal_step: "\<not> sets_capacity e \<Longrightarrow> legal s (cs_step s e)"
proof -
  obtain th now x where e: "e = (th, now, x)" by (cases e) auto
  assume "\<not> sets_capacity e"
  then show ?thesis unfolding e
    by (cases x) (simp_all add: cs_step_def legal_request legal_release legal_others legal_notify legal_reconcile)
qed

lemma legal_set_capacity: "legal (s\<lparr>cs_capacity := normalize_capacity v\<rparr>) (cs_step s (th, now, CsSetCapacity v))"
proof (cases "cs_capacity s = normalize_capacity v")
  case True
  then have e: "s\<lparr>cs_capacity := normalize_capacity v\<rparr> = s" by simp
  show ?thesis unfolding e using True by (simp add: cs_step_def cs_set_capacity_def)
qed (simp add: cs_step_def cs_set_capacity_def legal_reconcile)

subsection \<open>Capacity\<close>

lemma cs_init_wf: "cs_wf (cs_init c)" by (simp add: cs_init_def)

text \<open>Whatever the operation: legal from a state that differs at most in the capacity.\<close>

lemma cs_step_legal:
  obtains t where "cs_records t = cs_records s" "cs_nextLease t = cs_nextLease s" "legal t (cs_step s e)"
proof (cases "sets_capacity e")
  case True
  then obtain th now v where "e = (th, now, CsSetCapacity v)" by (cases e rule: sets_capacity.cases) auto
  with legal_set_capacity [where s = s and v = v and th = th and now = now] show ?thesis by (intro that [of "s\<lparr>cs_capacity := normalize_capacity v\<rparr>"]) simp_all
next
  case False
  with legal_step show ?thesis by (intro that [of s]) simp_all
qed

lemma cs_step_wf: "cs_wf s \<Longrightarrow> cs_wf (cs_step s e)"
  by (rule cs_step_legal [of s e]) (simp add: legal_def)

interpretation cs_wf_machine: invariant_machine cs_step cs_wf
  by standard (rule cs_step_wf)

lemma cs_reached_wf: "cs_wf (foldl cs_step (cs_init c) es)"
  by (rule cs_wf_machine.inv_run) (rule cs_init_wf)

text \<open>
  C3. No operation of the scheduler raises the number of leases above the capacity that holds after it,
  from any reachable state and whichever \<open>connect\<close> calls throw.
\<close>

theorem lease_count_bounded:
  "length (active_records (cs_step (foldl cs_step (cs_init c) es) e))
   \<le> max (length (active_records (foldl cs_step (cs_init c) es)))
         (cs_capacity (cs_step (foldl cs_step (cs_init c) es) e))"
proof -
  let ?s = "foldl cs_step (cs_init c) es"
  obtain t where t: "cs_records t = cs_records ?s" "legal t (cs_step ?s e)" by (rule cs_step_legal)
  have w: "cs_wf ?s" by (rule cs_reached_wf)
  then have w': "cs_wf (cs_step ?s e)" by (rule cs_step_wf)
  have "leased t = leased ?s" using t(1) by (simp add: leased_def lease_id_def)
  with t w show ?thesis by (simp add: legal_def active_length [OF w] active_length [OF w'])
qed

text \<open>
  While the capacity is not changed, the counter of capacity violations stays at zero: the lease
  count is within the capacity at every snapshot, the ones taken inside an operation included.
\<close>

theorem no_capacity_violation:
  assumes "list_all (\<lambda>e. \<not> sets_capacity e) es"
  shows "cs_violations (foldl cs_step (cs_init c) es) = 0
    \<and> length (active_records (foldl cs_step (cs_init c) es)) \<le> normalize_capacity c"
proof -
  have "legal s (foldl cs_step s es)" for s using assms
  proof (induction es arbitrary: s)
    case (Cons e es)
    then have "legal s (cs_step s e)" "legal (cs_step s e) (foldl cs_step (cs_step s e) es)" by (auto intro: legal_step)
    from legal_trans [OF this] show ?case by simp
  qed simp
  from this [of "cs_init c"] show ?thesis
    using cs_reached_wf [of c es] by (simp add: legal_def cs_init_wf active_length)
      (simp add: cs_init_def leased_def lease_id_def)
qed

definition cs_demo_patch :: "nat \<Rightarrow> cs_patch" where
  "cs_demo_patch p = \<lparr>cp_priority = Num (Fin (of_nat p)), cp_user = None, cp_visible = None, cp_output = None,
     cp_requestedAt = None, cp_reason = None, cp_generation = None, cp_hidden = None, cp_immediate = False\<rparr>"

definition cs_demo :: "((nat \<Rightarrow> nat \<Rightarrow> bool) \<times> int \<times> cs_op) list" where
  "cs_demo = map (\<lambda>x. (\<lambda>_ _. False, 5, x))
     [CsRegister 1, CsRegister 2, CsRequest 1 (cs_demo_patch 3), CsRequest 2 (cs_demo_patch 1)]"

theorem no_capacity_violation_witness:
  "cs_violations (foldl cs_step (cs_init (Num (Fin 1))) cs_demo) = 0
    \<and> length (active_records (foldl cs_step (cs_init (Num (Fin 1))) cs_demo)) \<le> normalize_capacity (Num (Fin 1))"
  by (rule no_capacity_violation) code_simp

subsection \<open>Stale leases\<close>

lemma cs_step_lease:
  assumes "cs_wf s"
  shows "cs_nextLease s \<le> cs_nextLease (cs_step s e)
    \<and> (lease_id (cs_step s e) k = None \<or> lease_id (cs_step s e) k = lease_id s k
       \<or> (\<exists>L. lease_id (cs_step s e) k = Some L \<and> cs_nextLease s \<le> L \<and> L < cs_nextLease (cs_step s e)))"
proof -
  obtain t where t: "cs_records t = cs_records s" "cs_nextLease t = cs_nextLease s" "legal t (cs_step s e)"
    by (rule cs_step_legal)
  have "lease_id t k = lease_id s k" using t(1) by (simp add: lease_id_def)
  moreover have "cs_wf t" using t(1) assms by simp
  ultimately show ?thesis using t(2,3) unfolding legal_def by metis
qed

lemma lease_allocated: "lease_id (foldl cs_step (cs_init c) es) k = Some L \<Longrightarrow>
    L < cs_nextLease (foldl cs_step (cs_init c) es)"
proof (induction es arbitrary: k L rule: rev_induct)
  case Nil
  then show ?case by (simp add: cs_init_def lease_id_def)
next
  case (snoc e es)
  from cs_step_lease [OF cs_reached_wf, of c es e k] snoc.prems snoc.IH [of k L] show ?case
    by (auto simp: eq_commute [of "Some L"])
qed

lemma lease_gone:
  assumes "cs_wf s" "L < cs_nextLease s" "lease_id s k \<noteq> Some L"
  shows "lease_id (foldl cs_step s es) k \<noteq> Some L"
proof -
  have "cs_wf (foldl cs_step s es) \<and> L < cs_nextLease (foldl cs_step s es) \<and> lease_id (foldl cs_step s es) k \<noteq> Some L"
  proof (induction es rule: rev_induct)
    case (snoc e es)
    then show ?case
      using cs_step_lease [of "foldl cs_step s es" e k] cs_step_wf [of "foldl cs_step s es" e] by auto
  qed (use assms in simp)
  then show ?thesis by blast
qed

fun notifies :: "nat \<Rightarrow> nat \<Rightarrow> cs_op \<Rightarrow> bool" where
  "notifies k l (CsNotifyConnecting j m) = (j = k \<and> m = l)"
| "notifies k l (CsNotifyOpen j m) = (j = k \<and> m = l)"
| "notifies k l (CsNotifyReady j m) = (j = k \<and> m = l)"
| "notifies k l (CsNotifyFailure j m _ _) = (j = k \<and> m = l)"
| "notifies k l (CsNotifyClosed j m _) = (j = k \<and> m = l)"
| "notifies k l _ = False"

lemma notify_not_leased:
  "notifies k L x \<Longrightarrow> lease_id s k \<noteq> Some L \<Longrightarrow> cs_exec s (th, now, x) = (False, s)"
proof -
  assume n: "notifies k L x" and "lease_id s k \<noteq> Some L"
  then have "leased_as k L s = None" by (auto simp: leased_as_def lease_id_def split: option.splits)
  then show ?thesis using n
    by (cases x) (simp_all add: cs_notify_connecting_def cs_notify_open_def cs_notify_ready_def
        cs_notify_failure_def cs_notify_closed_def)
qed

text \<open>
  Once a session no longer holds a lease, every later notification about that lease is refused and changes
  nothing, whatever happens in between: lease numbers are never reused.
\<close>

theorem stale_lease_refused:
  assumes "lease_id (foldl cs_step (cs_init c) es1) k = Some L"
    and "lease_id (foldl cs_step (cs_init c) (es1 @ es2)) k \<noteq> Some L" and "notifies k L x"
  shows "cs_exec (foldl cs_step (cs_init c) (es1 @ es2 @ es3)) (th, now, x)
    = (False, foldl cs_step (cs_init c) (es1 @ es2 @ es3))"
proof -
  let ?s = "foldl cs_step (cs_init c) (es1 @ es2)"
  have "cs_nextLease s \<le> cs_nextLease (foldl cs_step s es)" if "cs_wf s" for s es
    using that
  proof (induction es arbitrary: s)
    case (Cons e es)
    from le_trans [OF conjunct1 [OF cs_step_lease [OF Cons.prems, of _ 0]] Cons.IH [OF cs_step_wf [OF Cons.prems]]]
    show ?case by simp
  qed simp
  from this [OF cs_reached_wf, of c es1 es2] lease_allocated [OF assms(1)] have "L < cs_nextLease ?s" by simp
  from lease_gone [OF cs_reached_wf this assms(2), of es3]
  have "lease_id (foldl cs_step (cs_init c) (es1 @ es2 @ es3)) k \<noteq> Some L" by simp
  then show ?thesis by (rule notify_not_leased [OF assms(3)])
qed

theorem stale_lease_refused_witness:
  "fst (cs_exec (foldl cs_step (cs_init (Num (Fin 2)))
      (cs_demo @ [(\<lambda>_ _. False, 6, CsNotifyFailure 1 1 ''lost'' False)] @ [(\<lambda>_ _. False, 9, CsRetryFires 1)]))
     (\<lambda>_ _. False, 10, CsNotifyOpen 1 1)) = False"
proof -
  have a: "lease_id (foldl cs_step (cs_init (Num (Fin 2))) cs_demo) 1 = Some 1" by code_simp
  have b: "lease_id (foldl cs_step (cs_init (Num (Fin 2))) (cs_demo @ [(\<lambda>_ _. False, 6, CsNotifyFailure 1 1 ''lost'' False)])) 1 \<noteq> Some 1"
    by code_simp
  have n: "notifies 1 1 (CsNotifyOpen 1 1)" by simp
  from stale_lease_refused [OF a b n, of "[(\<lambda>_ _. False, 9, CsRetryFires 1)]" "\<lambda>_ _. False" 10] show ?thesis by simp
qed

end
