(* ===== verification/Scheduler_Liveness.thy ===== *)
theory Scheduler_Liveness
  imports Connection_Scheduler
begin

section \<open>The rounds of the scheduler end, and leave nothing to grant\<close>

text \<open>
  About \<open>terminal_connection_scheduler.js\<close> as modelled in \<open>Connection_Scheduler\<close>: the repeated rounds of
  \<open>reconcile\<close> stop by themselves, and afterwards no session that could have a lease waits while there is
  room for it.
\<close>

subsection \<open>What a round depends on\<close>

definition role :: "cs_record \<Rightarrow> bool \<times> bool \<times> bool \<times> cs_demand option \<times> bool" where
  "role r = (cr_timer r, cr_parked r, cr_disposed r, cr_demand r, cr_lease r = None)"

definition role_at :: "cs_state \<Rightarrow> nat \<Rightarrow> (bool \<times> bool \<times> bool \<times> cs_demand option \<times> bool) option" where
  "role_at s k = map_option role (mget (cs_records s) k)"

definition current_for :: "jnum \<Rightarrow> cs_demand option \<Rightarrow> bool" where
  "current_for g d = (case d of None \<Rightarrow> False | Some d \<Rightarrow> cd_generation d = Undef
     \<or> (case cd_generation d of Num x \<Rightarrow> num_eq x g | _ \<Rightarrow> False))"

definition eligible :: "cs_state \<Rightarrow> nat \<Rightarrow> bool" where
  "eligible s k = (\<exists>r. mget (cs_records s) k = Some r \<and> can_queue s r)"

definition waiting :: "cs_state \<Rightarrow> nat \<Rightarrow> bool" where
  "waiting s k = (\<exists>r. mget (cs_records s) k = Some r \<and> demand_waits s r)"

definition idle_keys :: "cs_state \<Rightarrow> nat set" where
  "idle_keys s = {k. \<exists>r. mget (cs_records s) k = Some r \<and> \<not> cr_timer r}"

lemma current_for_demand [simp]: "demand_is_current s r = current_for (cs_generation s) (cr_demand r)"
  by (simp add: demand_is_current_def current_for_def)

lemma eligible_role: "eligible s k \<longleftrightarrow> (\<exists>d. role_at s k = Some (False, False, False, d, True) \<and> current_for (cs_generation s) d)"
  by (auto simp: eligible_def role_at_def role_def can_queue_def)

lemma waiting_role: "waiting s k \<longleftrightarrow> (\<exists>p d l. role_at s k = Some (False, p, False, d, l) \<and> current_for (cs_generation s) d)"
  by (auto simp: waiting_def role_at_def role_def demand_waits_def)

lemma idle_role: "k \<in> idle_keys s \<longleftrightarrow> (\<exists>x. role_at s k = Some (False, x))"
  by (auto simp: idle_keys_def role_at_def role_def)

lemma leased_role: "k \<in> leased s \<longleftrightarrow> (\<exists>t p d m. role_at s k = Some (t, p, d, m, False))"
  by (auto simp: leased_def lease_id_def role_at_def role_def split: option.splits)

lemma idle_subset: "idle_keys s \<subseteq> set (mkeys (cs_records s))"
  by (force simp: idle_keys_def mkeys_def image_iff dest: mget_mem)

lemma idle_finite [simp]: "finite (idle_keys s)"
  using idle_subset finite_subset by blast

lemma idle_card: "card (idle_keys s) \<le> length (cs_records s)"
proof -
  have "card (idle_keys s) \<le> card (set (mkeys (cs_records s)))"
    by (rule card_mono [OF finite_set idle_subset])
  also have "\<dots> \<le> length (mkeys (cs_records s))" by (rule card_length)
  finally show ?thesis by (simp add: mkeys_def)
qed

text \<open>Steps that change only labels.\<close>

definition cosmetic :: "cs_state \<Rightarrow> cs_state \<Rightarrow> bool" where
  "cosmetic s s' = (cs_online s' = cs_online s \<and> cs_capacity s' = cs_capacity s
     \<and> cs_generation s' = cs_generation s \<and> cs_again s' = cs_again s \<and> role_at s' = role_at s)"

lemma cosmetic_refl [simp]: "cosmetic s s" by (simp add: cosmetic_def)

lemma cosmetic_trans: "cosmetic s t \<Longrightarrow> cosmetic t u \<Longrightarrow> cosmetic s u"
  by (simp add: cosmetic_def)

lemma cosmetic_same:
  assumes "cosmetic s t"
  shows "eligible t = eligible s" "waiting t = waiting s" "idle_keys t = idle_keys s" "leased t = leased s"
proof -
  show "eligible t = eligible s" "waiting t = waiting s"
    using assms by (auto simp: cosmetic_def eligible_role waiting_role fun_eq_iff)
  show "idle_keys t = idle_keys s" "leased t = leased s"
    using assms unfolding set_eq_iff idle_role leased_role by (simp_all add: cosmetic_def)
qed

lemma role_at_put: "role_at (put_record k r s) j = (if j = k then Some (role r) else role_at s j)"
  by (simp add: role_at_def om.get_put)

lemma cosmetic_snap [simp]: "cosmetic s (cs_snapshot s)" "cosmetic s (log_out x s)"
  by (simp_all add: cosmetic_def role_at_def fun_eq_iff)

lemma cosmetic_snapI: "cosmetic s t \<Longrightarrow> cosmetic s (cs_snapshot t)" "cosmetic s t \<Longrightarrow> cosmetic s (log_out x t)"
  by (erule cosmetic_trans, simp)+

lemma cosmetic_put: "mget (cs_records s) k = Some r \<Longrightarrow> role r' = role r \<Longrightarrow> cosmetic s (put_record k r' s)"
  by (auto simp: cosmetic_def role_at_put fun_eq_iff) (auto simp: role_at_def)

lemma cosmetic_disconnect: "cosmetic s (request_disconnect k reason s)"
  by (auto simp: request_disconnect_def Let_def role_def intro!: cosmetic_snapI cosmetic_put split: option.split)

lemma cosmetic_disconnect_all: "cosmetic s (disconnect_all reason es s)"
proof (induction es arbitrary: s)
  case (Cons e es)
  from cosmetic_trans [OF cosmetic_disconnect Cons, of _ "fst e" reason] show ?case
    by (simp add: disconnect_all_def)
qed (simp add: disconnect_all_def)

lemma cosmetic_preempt_loop: "cosmetic s (preempt_loop cs vs s)"
proof (induction cs arbitrary: vs s)
  case (Cons c cs)
  show ?case
  proof (cases "find (\<lambda>v. should_preempt (snd c) (snd v)) vs")
    case (Some v)
    from cosmetic_trans [OF cosmetic_disconnect Cons] Some show ?thesis by simp
  qed (simp add: Cons)
qed simp

lemma role_idle [simp]: "role (idle_status f r) = role r"
  by (simp add: idle_status_def role_def)

lemma cosmetic_idle: "cosmetic s (map_records (idle_status f) s)"
  by (simp add: cosmetic_def role_at_def fun_eq_iff mget_map_values option.map_comp comp_def)

lemma cosmetic_drop_excess: "cosmetic s (drop_excess s)"
  by (simp add: drop_excess_def Let_def cosmetic_disconnect_all)

subsection \<open>Granting\<close>

text \<open>A grant touches one record: it has a lease afterwards, or, when \<open>connect\<close> threw, a retry timer.\<close>

lemma grant_other: "j \<noteq> k \<Longrightarrow> role_at (grant throws now k s) j = role_at s j"
  by (auto simp: grant_def schedule_backoff_def Let_def role_at_def om.get_put split: option.split)

lemma grant_fields [simp]:
  "cs_online (grant throws now k s) = cs_online s" "cs_capacity (grant throws now k s) = cs_capacity s"
  "cs_generation (grant throws now k s) = cs_generation s"
  by (auto simp: grant_def schedule_backoff_def Let_def split: option.split)

lemma grant_again: "cs_again s \<Longrightarrow> cs_again (grant throws now k s)"
  by (auto simp: grant_def schedule_backoff_def Let_def split: option.split)

lemma grant_eligible:
  assumes "eligible s k" "cs_online s"
  shows "(\<exists>p d m. role_at (grant throws now k s) k = Some (True, p, d, m, True) \<and> cs_again (grant throws now k s))
    \<or> (\<exists>p d m. role_at (grant throws now k s) k = Some (False, p, d, m, False)
         \<and> cs_again (grant throws now k s) = cs_again s)"
proof -
  obtain r d where r: "mget (cs_records s) k = Some r" "cr_demand r = Some d" "cr_lease r = None"
      "\<not> cr_disposed r" "\<not> cr_timer r" "demand_is_current s r"
    using assms(1) by (auto simp: eligible_def can_queue_def current_for_def split: option.splits)
  then show ?thesis using assms(2)
    by (cases "throws k (cs_nextLease s)")
      (auto simp: grant_def new_lease_def schedule_backoff_def Let_def role_at_def role_def om.get_put)
qed

text \<open>What a pass of grants over distinct eligible keys leaves.\<close>

definition passed :: "cs_state \<Rightarrow> nat set \<Rightarrow> cs_state \<Rightarrow> bool" where
  "passed s ks s' = (cs_online s' = cs_online s \<and> cs_capacity s' = cs_capacity s \<and> cs_generation s' = cs_generation s
     \<and> (\<forall>k \<in> ks. eligible s k)
     \<and> (\<forall>k. k \<notin> ks \<longrightarrow> role_at s' k = role_at s k)
     \<and> (\<forall>k \<in> ks. \<exists>t p d m l. role_at s' k = Some (t, p, d, m, l) \<and> (t \<or> \<not> l) \<and> (t \<longrightarrow> cs_again s'))
     \<and> (cs_again s \<longrightarrow> cs_again s')
     \<and> (cs_again s' \<longrightarrow> cs_again s \<or> (\<exists>k \<in> ks. \<exists>x. role_at s' k = Some (True, x))))"

lemma passed_refl: "passed s {} s" by (simp add: passed_def)

lemma grant_passed:
  assumes "eligible s k" "cs_online s"
  shows "passed s {k} (grant throws now k s)"
proof -
  have "\<exists>t p d m l. role_at (grant throws now k s) k = Some (t, p, d, m, l) \<and> (t \<or> \<not> l) \<and> (t \<longrightarrow> cs_again (grant throws now k s))"
    using grant_eligible [OF assms, of throws now]
    by (elim disjE exE conjE) (intro conjI exI, assumption, simp, simp)+
  moreover have "cs_again (grant throws now k s) \<longrightarrow> cs_again s \<or>
     (\<exists>j \<in> {k}. \<exists>x. role_at (grant throws now k s) j = Some (True, x))"
    using grant_eligible [OF assms, of throws now] by auto
  ultimately show ?thesis using assms grant_again [of s throws now k] by (simp add: passed_def grant_other)
qed

lemma passed_role: "passed s ks t \<Longrightarrow> k \<notin> ks \<Longrightarrow> role_at t k = role_at s k"
  unfolding passed_def by blast

lemma passed_eligible: "passed s ks t \<Longrightarrow> eligible t k \<Longrightarrow> k \<notin> ks \<Longrightarrow> eligible s k"
  using passed_role [of s ks t k] by (simp add: eligible_role passed_def)

lemma passed_trans:
  assumes st: "passed s ks t" and tu: "passed t js u" shows "passed s (ks \<union> js) u"
proof -
  have ks: "\<exists>b p d m l. role_at u k = Some (b, p, d, m, l) \<and> (b \<or> \<not> l) \<and> (b \<longrightarrow> cs_again u)"
    if "k \<in> ks \<union> js" for k
  proof (cases "k \<in> js")
    case True
    then show ?thesis using tu by (simp add: passed_def)
  next
    case False
    with that have "k \<in> ks" by simp
    then obtain b p d m l where "role_at t k = Some (b, p, d, m, l)" "b \<or> \<not> l" "b \<longrightarrow> cs_again t"
      using st unfolding passed_def by blast
    moreover have "cs_again t \<longrightarrow> cs_again u" using tu by (simp add: passed_def)
    ultimately show ?thesis using passed_role [OF tu False]
      by (intro exI [of _ b] exI [of _ p] exI [of _ d] exI [of _ m] exI [of _ l]) auto
  qed
  have "eligible s k" if "k \<in> ks \<union> js" for k
    using that st tu passed_eligible [OF st, of k] by (auto simp: passed_def)
  moreover have "\<exists>k \<in> ks \<union> js. \<exists>x. role_at u k = Some (True, x)" if a: "cs_again u" and n: "\<not> cs_again s"
  proof (cases "cs_again t")
    case True
    then obtain k x where k: "k \<in> ks" "role_at t k = Some (True, x)" using st n by (auto simp: passed_def)
    then have "k \<notin> js" using tu by (auto simp: passed_def eligible_role)
    from passed_role [OF tu this] k show ?thesis by (intro bexI [of _ k] exI [of _ x]) auto
  next
    case False
    then show ?thesis using tu a unfolding passed_def by blast
  qed
  moreover have "role_at u k = role_at s k" if "k \<notin> ks \<union> js" for k
    using that passed_role [OF st, of k] passed_role [OF tu, of k] by simp
  ultimately show ?thesis using assms ks unfolding passed_def by auto
qed

lemma grant_loop_pass:
  assumes "distinct (map fst es)" "\<forall>e \<in> set es. eligible s (fst e)" "cs_online s"
  shows "\<exists>ks. ks \<subseteq> set (map fst es) \<and> passed s ks (grant_loop throws now es s)
     \<and> (ks = set (map fst es) \<or> cs_capacity s \<le> length (active_records (grant_loop throws now es s)))
     \<and> (es = [] \<or> ks \<noteq> {} \<or> cs_capacity s \<le> length (active_records s))"
  using assms
proof (induction es arbitrary: s)
  case Nil
  then show ?case using passed_refl by auto
next
  case (Cons e es)
  show ?case
  proof (cases "length (active_records s) < cs_capacity s")
    case True
    let ?t = "grant throws now (fst e) s"
    have g: "passed s {fst e} ?t" using Cons.prems by (intro grant_passed) auto
    have "eligible ?t (fst x)" if "x \<in> set es" for x
    proof -
      have "fst x \<in> set (map fst es)" using that by simp
      moreover have "fst e \<notin> set (map fst es)" using Cons.prems(1) by simp
      ultimately have "fst x \<noteq> fst e" by metis
      moreover have "eligible s (fst x)" using that Cons.prems(2) by simp
      ultimately show ?thesis by (simp add: eligible_role grant_other)
    qed
    with Cons.IH [of ?t] Cons.prems obtain ks where ks: "ks \<subseteq> set (map fst es)"
       "passed ?t ks (grant_loop throws now es ?t)"
       "ks = set (map fst es) \<or> cs_capacity s \<le> length (active_records (grant_loop throws now es ?t))" by auto
    from passed_trans [OF g ks(2)] ks True show ?thesis
      by (intro exI [of _ "{fst e} \<union> ks"]) auto
  next
    case False
    then show ?thesis using passed_refl by (intro exI [of _ "{}"]) auto
  qed
qed

lemma passed_idle: "passed s ks t \<Longrightarrow> idle_keys t \<subseteq> idle_keys s"
proof
  fix k assume p: "passed s ks t" and "k \<in> idle_keys t"
  then obtain x where x: "role_at t k = Some (False, x)" by (auto simp: idle_role)
  have "role_at t k = role_at s k \<or> eligible s k" using p passed_role [OF p, of k] by (auto simp: passed_def)
  then show "k \<in> idle_keys s"
  proof
    assume "role_at t k = role_at s k"
    with x have "role_at s k = Some (False, x)" by simp
    then show ?thesis by (simp only: idle_role) blast
  qed (auto simp: idle_role eligible_role)
qed

lemma passed_idle_less:
  assumes p: "passed s ks t" and "cs_again t" "\<not> cs_again s"
  shows "card (idle_keys t) < card (idle_keys s)"
proof (rule psubset_card_mono)
  from assms obtain k x where "k \<in> ks" "role_at t k = Some (True, x)" by (auto simp: passed_def)
  moreover from this p have "eligible s k" by (simp add: passed_def)
  ultimately have "k \<in> idle_keys s" "k \<notin> idle_keys t" by (auto simp: idle_role eligible_role)
  with passed_idle [OF p] show "idle_keys t \<subset> idle_keys s" by blast
qed simp

subsection \<open>A round, and the rounds\<close>

text \<open>Nothing is left to grant: no eligible session waits while there is room, and none at all when nothing is leased.\<close>

definition conserving :: "cs_state \<Rightarrow> bool" where
  "conserving s = (cs_online s \<longrightarrow>
     ((\<forall>k. \<not> eligible s k) \<or> cs_capacity s \<le> card (leased s))
     \<and> (leased s = {} \<longrightarrow> (\<forall>k. \<not> waiting s k)))"

lemma conserving_cosmetic: "cosmetic s t \<Longrightarrow> conserving t = conserving s"
  by (simp add: conserving_def cosmetic_same) (simp add: cosmetic_def)

lemma active_Nil: "cs_wf s \<Longrightarrow> active_records s = [] \<longleftrightarrow> leased s = {}"
  by (metis active_keys map_is_Nil_conv set_empty)

lemma eligible_queued_keys: "cs_wf s \<Longrightarrow> set (map fst (eligible_queued s)) = {k. eligible s k}"
  by (force simp: eligible_queued_def by_rank_def eligible_def mget_iff_mem image_iff)

lemma eligible_queued_distinct: "cs_wf s \<Longrightarrow> distinct (map fst (eligible_queued s))"
proof -
  assume w: "cs_wf s"
  have "distinct (map fst (filter (\<lambda>e. can_queue s (snd e)) (cs_records s)))"
    using w by (simp add: mwf_def distinct_map_filter)
  then show ?thesis by (simp add: eligible_queued_def by_rank_def distinct_map)
qed

text \<open>Recovery of the parked sessions.\<close>

lemma mget_recover:
  "mget (cs_records (recover_parked s)) k = mget (cs_records s) k
   \<or> mget (cs_records (recover_parked s)) k = map_option (unpark s) (mget (cs_records s) k)"
  by (simp add: recover_parked_def mget_map_values)

lemma unpark_lease [simp]: "cr_lease (unpark s r) = cr_lease r"
  by (simp add: unpark_def)

lemma recover_role:
  "role_at (recover_parked s) k = role_at s k \<or>
   (\<exists>d l. role_at s k = Some (False, True, False, d, l) \<and> role_at (recover_parked s) k = Some (False, False, False, d, l))"
  using mget_recover [of s k]
  by (cases "mget (cs_records s) k") (auto simp: role_at_def role_def unpark_def demand_waits_def)

lemma recover_fields [simp]:
  "cs_online (recover_parked s) = cs_online s" "cs_capacity (recover_parked s) = cs_capacity s"
  "cs_generation (recover_parked s) = cs_generation s" "cs_again (recover_parked s) = cs_again s"
  by (simp_all add: recover_parked_def)

lemma recover_idle: "idle_keys (recover_parked s) = idle_keys s"
  using recover_role [of s] unfolding set_eq_iff idle_role by (metis option.inject prod.inject)

lemma recover_leased: "leased (recover_parked s) = leased s"
proof -
  have "lease_id (recover_parked s) k = lease_id s k" for k
    using mget_recover [of s k] by (cases "mget (cs_records s) k") (auto simp: lease_id_def)
  then show ?thesis by (simp add: leased_def)
qed

lemma recover_wf: "cs_wf s \<Longrightarrow> cs_wf (recover_parked s)"
  by (auto simp: recover_parked_def mwf_map_values)

text \<open>When nothing is leased, recovery leaves an eligible session or nobody waiting.\<close>

lemma recover_eligible:
  assumes w: "cs_wf s" and l: "leased s = {}" and wt: "waiting (recover_parked s) k"
  shows "\<exists>j. eligible (recover_parked s) j"
proof (cases "\<exists>e \<in> set (cs_records s). \<not> cr_parked (snd e) \<and> demand_waits s (snd e)")
  case True
  then obtain j r where r: "mget (cs_records s) j = Some r" "\<not> cr_parked r" "demand_waits s r"
    using w by (auto simp: mget_iff_mem)
  have "cr_lease r = None" using l r(1) by (auto simp: leased_def lease_id_def split: option.splits)
  with r have "eligible s j" by (auto simp: eligible_def can_queue_def demand_waits_def)
  moreover have "recover_parked s = s" using True by (auto simp: recover_parked_def)
  ultimately show ?thesis by auto
next
  case False
  from wt obtain r' where r': "mget (cs_records (recover_parked s)) k = Some r'" "demand_waits (recover_parked s) r'"
    by (auto simp: waiting_def)
  have rec: "recover_parked s = map_records (unpark s) s"
    using False w l by (simp add: recover_parked_def active_Nil)
  obtain r where r: "mget (cs_records s) k = Some r"
      "r' = unpark s r"
    using r'(1) by (auto simp: rec mget_map_values)
  have n: "cr_lease r = None" using l r(1) by (auto simp: leased_def lease_id_def split: option.splits)
  have "demand_waits s r" using r'(2) r(2) by (auto simp: demand_waits_def unpark_def split: if_splits)
  moreover from this False r(1) have "cr_parked r" using mget_mem [of "cs_records s" k r] by force
  ultimately have "can_queue (recover_parked s) r'" using r n by (auto simp: can_queue_def demand_waits_def unpark_def)
  with r'(1) show ?thesis by (auto simp: eligible_def)
qed

lemma passed_leased: "passed s ks t \<Longrightarrow> leased s \<subseteq> leased t"
proof
  fix k assume p: "passed s ks t" and k: "k \<in> leased s"
  then have "\<not> eligible s k" by (auto simp: leased_role eligible_role)
  then have "k \<notin> ks" using p by (auto simp: passed_def)
  from passed_role [OF p this] k show "k \<in> leased t" by (simp add: leased_role)
qed

lemma grant_conserves:
  assumes w: "cs_wf s" "cs_wf t" and cap: "cs_capacity s > 0" and p: "passed s ks t" and na: "\<not> cs_again t"
    and all: "ks = {k. eligible s k} \<or> cs_capacity s \<le> card (leased t)"
    and some: "(\<forall>k. \<not> eligible s k) \<or> ks \<noteq> {} \<or> cs_capacity s \<le> card (leased s)"
    and rec: "leased s = {} \<Longrightarrow> waiting s k \<Longrightarrow> \<exists>j. eligible s j"
  shows "((\<forall>k. \<not> eligible t k) \<or> cs_capacity t \<le> card (leased t)) \<and> (leased t = {} \<longrightarrow> \<not> waiting t k)"
proof (intro conjI impI)
  have "\<not> eligible t j" if "ks = {k. eligible s k}" for j
  proof (cases "j \<in> ks")
    case True
    then show ?thesis using p by (auto simp: passed_def eligible_role)
  next
    case False
    then show ?thesis using passed_eligible [OF p, of j] that by auto
  qed
  moreover have "cs_capacity t = cs_capacity s" using p by (simp add: passed_def)
  ultimately show "(\<forall>k. \<not> eligible t k) \<or> cs_capacity t \<le> card (leased t)" using all by auto
next
  assume e: "leased t = {}"
  then have es: "leased s = {}" using passed_leased [OF p] by blast
  have "ks = {}"
  proof (rule ccontr)
    assume "ks \<noteq> {}"
    then obtain j where "j \<in> ks" by blast
    then obtain b q d m l where "role_at t j = Some (b, q, d, m, l)" "b \<or> \<not> l" "b \<longrightarrow> cs_again t"
      using p unfolding passed_def by blast
    with na have "role_at t j = Some (b, q, d, m, False)" by auto
    then have "j \<in> leased t" unfolding leased_role by blast
    with e show False by simp
  qed
  then have "\<forall>k. \<not> eligible s k" using some es cap by auto
  moreover have "role_at t k = role_at s k" using passed_role [OF p] \<open>ks = {}\<close> by simp
  moreover have "cs_generation t = cs_generation s" using p by (simp add: passed_def)
  ultimately show "\<not> waiting t k" using rec [OF es] by (auto simp: waiting_role)
qed

lemma round_good:
  assumes w: "cs_wf s" and cap: "cs_capacity s > 0" and na: "\<not> cs_again s"
  shows "(cs_again (reconcile_round throws now s) \<longrightarrow> card (idle_keys (reconcile_round throws now s)) < card (idle_keys s))
    \<and> (\<not> cs_again (reconcile_round throws now s) \<longrightarrow> conserving (reconcile_round throws now s))"
proof (cases "cs_online s")
  case False
  then have "reconcile_round throws now s = reconcile_offline s" by (simp add: reconcile_round_def)
  moreover have "cosmetic s (reconcile_offline s)"
    by (simp add: reconcile_offline_def cosmetic_snapI cosmetic_trans [OF cosmetic_disconnect_all cosmetic_idle])
  ultimately show ?thesis using False na by (simp add: cosmetic_def conserving_def)
next
  case True
  define s1 where "s1 = recover_parked (drop_excess s)"
  define s2 where "s2 = grant_loop throws now (eligible_queued s1) s1"
  have c0: "cosmetic s (drop_excess s)" by (rule cosmetic_drop_excess)
  have w0: "cs_wf (drop_excess s)" using legal_drop_excess [of s] w by (simp add: legal_def)
  then have w1: "cs_wf s1" by (simp add: s1_def recover_wf)
  have w2: "cs_wf s2" using legal_grant_loop [of s1 throws now "eligible_queued s1"] w1 by (simp add: legal_def s2_def)
  have f1: "cs_online s1" "\<not> cs_again s1" "cs_capacity s1 = cs_capacity s" "idle_keys s1 = idle_keys s"
    using c0 True na cosmetic_same [OF c0] by (simp_all add: s1_def recover_idle cosmetic_def)
  have "\<forall>e \<in> set (eligible_queued s1). eligible s1 (fst e)"
    using eligible_queued_keys [OF w1] by (auto simp: set_eq_iff)
  from grant_loop_pass [OF eligible_queued_distinct [OF w1] this f1(1), of throws now, folded s2_def,
      unfolded eligible_queued_keys [OF w1] active_length [OF w1] active_length [OF w2]]
  obtain ks where ks: "passed s1 ks s2" "ks = {k. eligible s1 k} \<or> cs_capacity s1 \<le> card (leased s2)"
      "eligible_queued s1 = [] \<or> ks \<noteq> {} \<or> cs_capacity s1 \<le> card (leased s1)"
    by blast
  have none: "(\<forall>k. \<not> eligible s1 k) \<or> ks \<noteq> {} \<or> cs_capacity s1 \<le> card (leased s1)"
    using ks(3) eligible_queued_keys [OF w1] by auto
  have "cosmetic s2 (preempt s2)" by (simp add: preempt_def cosmetic_preempt_loop)
  then have c: "cosmetic s2 (reconcile_round throws now s)" using True
    by (simp add: reconcile_round_def Let_def cosmetic_snapI cosmetic_trans [OF _ cosmetic_idle]
        s1_def [symmetric] s2_def [symmetric])
  show ?thesis
  proof (intro conjI impI)
    assume "cs_again (reconcile_round throws now s)"
    then have "cs_again s2" using c by (simp add: cosmetic_def)
    from passed_idle_less [OF ks(1) this f1(2)] show "card (idle_keys (reconcile_round throws now s)) < card (idle_keys s)"
      by (simp add: cosmetic_same [OF c] f1)
  next
    assume "\<not> cs_again (reconcile_round throws now s)"
    then have na2: "\<not> cs_again s2" using c by (simp add: cosmetic_def)
    have rec: "\<exists>j. eligible s1 j" if "leased s1 = {}" "waiting s1 k" for k
      using recover_eligible [OF w0, of k] that by (simp add: s1_def recover_leased)
    from grant_conserves [OF w1 w2 _ ks(1) na2 ks(2) none rec] cap f1(3) have "conserving s2"
      by (auto simp: conserving_def)
    with conserving_cosmetic [OF c] show "conserving (reconcile_round throws now s)" by simp
  qed
qed

lemma rounds_good:
  "cs_wf s \<Longrightarrow> cs_capacity s > 0 \<Longrightarrow> card (idle_keys s) < n \<Longrightarrow>
   \<not> cs_again (cs_rounds n throws now s) \<and> conserving (cs_rounds n throws now s)"
proof (induction n arbitrary: s)
  case (Suc n)
  let ?s = "s\<lparr>cs_again := False\<rparr>"
  have i: "idle_keys ?s = idle_keys s" by (simp add: idle_keys_def)
  have l: "legal ?s (reconcile_round throws now ?s)" by (rule legal_round)
  have "cs_wf (reconcile_round throws now ?s)" "cs_capacity (reconcile_round throws now ?s) > 0"
    using l Suc.prems by (simp_all add: legal_def)
  then show ?case using round_good [of ?s throws now] Suc i by (auto simp: Let_def)
qed simp

lemma reconcile_good:
  assumes "cs_wf s" "cs_capacity s > 0"
  shows "\<not> cs_again (cs_reconcile throws now s) \<and> conserving (cs_reconcile throws now s)"
  unfolding cs_reconcile_def using rounds_good [OF assms] idle_card [of s] by (simp del: cs_rounds.simps)

subsection \<open>Every operation\<close>

definition settled :: "cs_state \<Rightarrow> bool" where
  "settled s = (cs_wf s \<and> cs_capacity s > 0 \<and> \<not> cs_again s \<and> conserving s)"

lemma settled_cosmetic: "settled s \<Longrightarrow> legal s t \<Longrightarrow> cosmetic s t \<Longrightarrow> settled t"
  using conserving_cosmetic [of s t] by (simp add: settled_def legal_def) (simp add: cosmetic_def)

lemma settled_reconcile: "settled s \<Longrightarrow> legal s t \<Longrightarrow> settled (cs_reconcile throws now t)"
proof -
  assume "settled s" "legal s t"
  then have t: "cs_wf t" "cs_capacity t > 0" by (simp_all add: settled_def legal_def)
  with legal_reconcile [of t throws now] reconcile_good [OF t, of throws now] show ?thesis
    by (simp add: settled_def legal_def)
qed

text \<open>A session that has no use for a lease comes or goes.\<close>

lemma settled_put_idle:
  assumes "settled s" and r: "cr_demand r = None \<or> cr_disposed r"
    and l: "cr_lease r = None \<longleftrightarrow> k \<notin> leased s"
  shows "settled (put_record k r s)"
proof -
  have j: "\<not> eligible (put_record k r s) k" "\<not> waiting (put_record k r s) k"
    using r by (auto simp: eligible_role waiting_role role_at_put role_def current_for_def)
  have "eligible (put_record k r s) i = eligible s i" "waiting (put_record k r s) i = waiting s i" if "i \<noteq> k" for i
    using that by (simp_all add: eligible_role waiting_role role_at_put)
  moreover have "leased (put_record k r s) = leased s"
    using r l by (auto simp: leased_def lease_id_put)
  ultimately have "conserving (put_record k r s)" using assms(1) j
    by (simp add: settled_def conserving_def) metis
  then show ?thesis using assms(1) by (simp add: settled_def om.wf_put)
qed

lemma settled_delete:
  assumes "settled s" and l: "k \<notin> leased s"
  shows "settled (delete_record k s)"
proof -
  have m: "role_at (delete_record k s) i = (if i = k then None else role_at s i)" for i
    by (simp add: role_at_def delete_record_def om.get_del)
  have g: "cs_generation (delete_record k s) = cs_generation s" "cs_capacity (delete_record k s) = cs_capacity s"
      "cs_online (delete_record k s) = cs_online s" "cs_again (delete_record k s) = cs_again s"
    by (simp_all add: delete_record_def)
  have "lease_id (delete_record k s) i = (if i = k then None else lease_id s i)" for i
    by (simp add: lease_id_def delete_record_def om.get_del)
  then have "leased (delete_record k s) = leased s" using l by (auto simp: leased_def)
  moreover have "eligible (delete_record k s) i \<Longrightarrow> eligible s i" "waiting (delete_record k s) i \<Longrightarrow> waiting s i" for i
    by (auto simp: eligible_role waiting_role m g split: if_splits)
  ultimately have "conserving (delete_record k s)" using assms(1) g
    by (auto simp: settled_def conserving_def)
  then show ?thesis using assms(1) g by (simp add: settled_def delete_record_def om.wf_del)
qed

lemma settled_snap: "settled s \<Longrightarrow> settled (cs_snapshot s)"
  by (rule settled_cosmetic [of s]) simp_all

lemma settled_order: "settled s \<Longrightarrow> settled (s\<lparr>cs_nextOrder := n\<rparr>)"
  by (rule settled_cosmetic [OF _ legal_again(4)]) (simp_all add: cosmetic_def role_at_def fun_eq_iff)

lemma invalidate_none: "active_records s = [] \<Longrightarrow> foldl (invalidate_record reason imm) s ks = s"
proof (induction ks)
  case (Cons k ks)
  have "cr_lease r = None" if "mget (cs_records s) k = Some r" for r
    using Cons.prems mget_mem [OF that] by (force simp: active_records_def filter_empty_conv)
  then have "invalidate_record reason imm s k = s"
    by (auto simp: invalidate_record_def split: option.split)
  with Cons show ?case by simp
qed simp

lemma lease_None: "mget (cs_records s) k = Some r \<Longrightarrow> cr_lease r = None \<longleftrightarrow> k \<notin> leased s"
  by (simp add: leased_def lease_id_def)

lemma settled_notify:
  assumes "settled s"
  shows "settled (snd (cs_notify_connecting k l s))" "settled (snd (cs_notify_open now k l s))"
    "settled (snd (cs_notify_ready now k l s))"
  using assms
  by (auto simp: cs_notify_connecting_def cs_notify_open_def cs_notify_ready_def role_def
      dest!: leased_asD intro!: settled_snap settled_cosmetic [OF assms legal_put cosmetic_put] split: option.split)

lemma settled_failure: "settled s \<Longrightarrow> settled (snd (cs_notify_failure th now k l err a s))"
proof (cases "leased_as k l s")
  case (Some x)
  assume s: "settled s"
  obtain r m where x: "x = (r, m)" by (cases x)
  note d = leased_asD [OF Some [unfolded x]]
  let ?r = "r\<lparr>cr_error := Some err\<rparr>"
  show ?thesis
  proof (cases a)
    case True
    have "settled (put_record k ?r s)" using d
      by (intro settled_cosmetic [OF s legal_put cosmetic_put]) (auto simp: role_def)
    then have "settled (request_disconnect k ''network_failure'' (put_record k ?r s))"
      by (rule settled_cosmetic [OF _ legal_disconnect cosmetic_disconnect])
    then show ?thesis using True Some x by (simp add: cs_notify_failure_def Let_def)
  next
    case False
    then show ?thesis using Some x s
      by (auto simp: cs_notify_failure_def Let_def intro!: settled_reconcile legal_backoffI legal_putI)
  qed
qed (simp add: cs_notify_failure_def)

lemma settled_closed: "settled s \<Longrightarrow> settled (snd (cs_notify_closed th now k l info s))"
  by (auto simp: cs_notify_closed_def closed_record_def Let_def intro!: settled_reconcile legal_intros split: option.split)

lemma settled_request: "settled s \<Longrightarrow> settled (snd (cs_request th now k p s))"
  by (auto simp: cs_request_def Let_def lease_id_mget intro!: settled_reconcile legal_intros split: option.split)

lemma settled_release: "settled s \<Longrightarrow> settled (snd (cs_release th now k r s))"
  by (auto simp: cs_release_def Let_def lease_id_mget intro!: settled_reconcile legal_intros split: option.split)

lemma settled_unregister: "settled s \<Longrightarrow> settled (snd (cs_unregister th now k r s))"
  by (auto simp: cs_unregister_def Let_def lease_id_mget intro!: settled_reconcile legal_intros split: option.split)

lemma settled_invalidate: "settled s \<Longrightarrow> settled (snd (cs_invalidate th now r i s))"
  by (auto simp: cs_invalidate_def Let_def invalidate_none intro!: settled_reconcile legal_invalidate_all)

lemma settled_register: "settled s \<Longrightarrow> settled (snd (cs_register k s))"
proof -
  assume s: "settled s"
  have "k \<notin> leased s" if "\<not> mhas (cs_records s) k"
    using that by (auto simp: leased_def lease_id_def om.has_get)
  then have "settled (put_record k (fresh_record n) (s\<lparr>cs_nextOrder := m\<rparr>))" if "\<not> mhas (cs_records s) k" for n m
    using that s by (intro settled_put_idle settled_order) (auto simp: fresh_record_def leased_def lease_id_def)
  then show ?thesis using s by (auto simp: cs_register_def intro: settled_snap)
qed

lemma settled_confirm: "settled s \<Longrightarrow> settled (snd (cs_confirm_unregistered k s))"
  by (auto simp: cs_confirm_unregistered_def lease_None intro!: settled_snap settled_delete split: option.split)

lemma settled_retry: "settled s \<Longrightarrow> settled (snd (cs_retry_fires th now k s))"
proof (cases "mget (cs_records s) k")
  case (Some r)
  assume s: "settled s"
  show ?thesis
  proof (cases "cr_timer r \<and> \<not> cr_disposed r \<and> cr_demand r \<noteq> None")
    case True
    then show ?thesis using Some s
      by (auto simp: cs_retry_fires_def Let_def lease_id_mget intro!: settled_reconcile legal_intros)
  next
    case False
    have "settled (put_record k (r\<lparr>cr_timer := False\<rparr>) s)" if "cr_disposed r \<or> cr_demand r = None"
      using that s Some by (intro settled_put_idle) (auto simp: lease_None)
    with False show ?thesis using Some s by (auto simp: cs_retry_fires_def Let_def)
  qed
qed (simp add: cs_retry_fires_def)

lemma settled_modes:
  assumes "settled s"
  shows "settled (snd (cs_set_online th now v s))" "settled (snd (cs_set_generation th now g s))"
    "settled (snd (cs_set_capacity th now c s))"
proof -
  show "settled (snd (cs_set_online th now v s))"
    by (auto simp: cs_set_online_def Let_def assms
        intro!: settled_snap settled_reconcile [OF assms] legal_trans [OF legal_again(2) legal_map_records])
  show "settled (snd (cs_set_generation th now g s))"
    by (auto simp: cs_set_generation_def intro!: settled_reconcile [OF assms])
  let ?t = "s\<lparr>cs_capacity := normalize_capacity c\<rparr>"
  have t: "cs_wf ?t" "cs_capacity ?t > 0" using assms by (simp_all add: settled_def normalize_capacity_def)
  with legal_reconcile [of ?t th now] reconcile_good [OF t, of th now]
  have "settled (cs_reconcile th now ?t)" by (simp add: settled_def legal_def)
  then show "settled (snd (cs_set_capacity th now c s))"
    using assms by (simp add: cs_set_capacity_def Let_def settled_snap)
qed

lemma settled_step: "settled s \<Longrightarrow> settled (cs_step s e)"
proof -
  assume s: "settled s"
  obtain th now x where e: "e = (th, now, x)" by (cases e) auto
  show ?thesis unfolding e cs_step_def
    by (cases x) (simp_all add: s settled_request settled_release settled_unregister settled_invalidate settled_register
        settled_confirm settled_retry settled_modes settled_notify settled_failure settled_closed settled_reconcile [OF s])
qed

interpretation settled_machine: invariant_machine cs_step settled
  by standard (rule settled_step)

lemma settled_reached: "settled (foldl cs_step (cs_init c) es)"
proof (rule settled_machine.inv_run)
  show "settled (cs_init c)"
    by (simp add: settled_def conserving_def cs_init_def normalize_capacity_def eligible_def waiting_def)
qed

text \<open>
  The repeated rounds of a reconciliation end: from every reachable state, and whichever \<open>connect\<close>
  calls throw, one round more than there are records reaches a round that asks for no other,
  so the rounds of the model never run out.
\<close>

theorem reconcile_rounds_end:
  "\<not> cs_again (cs_rounds (Suc (length (cs_records (foldl cs_step (cs_init c) es)))) throws now
                 (foldl cs_step (cs_init c) es))"
  using settled_reached [of c es] reconcile_good [of "foldl cs_step (cs_init c) es" throws now]
  by (simp add: settled_def cs_reconcile_def)

text \<open>
  C4. Nothing is left to grant: in every reachable online state, a session whose current demand is not backing off, parked
  or disposed has a lease, or all leases are taken; and if no lease is held at all, no session with a current
  demand is waiting for anything but its retry timer, the ones parked by a preemption included.
\<close>

theorem scheduler_conserves_work:
  assumes "cs_online (foldl cs_step (cs_init c) es)"
    and "mget (cs_records (foldl cs_step (cs_init c) es)) k = Some r"
    and "\<not> cr_disposed r" and "\<not> cr_timer r" and "demand_is_current (foldl cs_step (cs_init c) es) r"
  shows "(cr_lease r \<noteq> None \<or> cr_parked r
      \<or> cs_capacity (foldl cs_step (cs_init c) es) \<le> length (active_records (foldl cs_step (cs_init c) es)))
    \<and> active_records (foldl cs_step (cs_init c) es) \<noteq> []"
proof -
  let ?s = "foldl cs_step (cs_init c) es"
  have w: "cs_wf ?s" by (rule cs_reached_wf)
  have "conserving ?s" using settled_reached [of c es] by (simp add: settled_def)
  moreover have "waiting ?s k" using assms by (auto simp: waiting_def demand_waits_def)
  moreover have "eligible ?s k" if "cr_lease r = None" "\<not> cr_parked r"
    using assms that by (auto simp: eligible_def can_queue_def)
  ultimately show ?thesis using assms(1) active_Nil [OF w]
    by (auto simp: conserving_def active_length [OF w])
qed

theorem scheduler_conserves_work_witness:
  "(\<exists>r. mget (cs_records (foldl cs_step (cs_init (Num (Fin 2))) cs_demo)) 1 = Some r
     \<and> (cr_lease r \<noteq> None \<or> cr_parked r
      \<or> cs_capacity (foldl cs_step (cs_init (Num (Fin 2))) cs_demo)
        \<le> length (active_records (foldl cs_step (cs_init (Num (Fin 2))) cs_demo))))
    \<and> active_records (foldl cs_step (cs_init (Num (Fin 2))) cs_demo) \<noteq> []"
proof -
  let ?s = "foldl cs_step (cs_init (Num (Fin 2))) cs_demo"
  have o: "cs_online ?s" by code_simp
  have "mget (cs_records ?s) 1 \<noteq> None" by code_simp
  then obtain r where r: "mget (cs_records ?s) 1 = Some r" by auto
  have "\<not> cr_disposed (the (mget (cs_records ?s) 1)) \<and> \<not> cr_timer (the (mget (cs_records ?s) 1))
     \<and> demand_is_current ?s (the (mget (cs_records ?s) 1))" unfolding demand_is_current_def by code_simp
  then have "\<not> cr_disposed r" "\<not> cr_timer r" "demand_is_current ?s r" using r by simp_all
  from scheduler_conserves_work [OF o r this] r show ?thesis by blast
qed

text \<open>
  A round does not count the slots that are already closing for an earlier preemption: one high-priority
  candidate waiting for its slot preempts another lease at each further reconciliation.
\<close>

definition preempt_demo :: "((nat \<Rightarrow> nat \<Rightarrow> bool) \<times> int \<times> cs_op) list" where
  "preempt_demo = map (\<lambda>x. (\<lambda>_ _. False, 5, x))
     [CsRegister 1, CsRegister 2, CsRegister 3, CsRequest 1 (cs_demo_patch 3), CsRequest 2 (cs_demo_patch 3),
      CsRequest 3 (cs_demo_patch 0)]"

definition closing_count :: "cs_state \<Rightarrow> nat" where
  "closing_count s = length (filter (\<lambda>e. is_closing (snd e)) (cs_records s))"

theorem one_candidate_preempts_twice:
  "closing_count (foldl cs_step (cs_init (Num (Fin 2))) preempt_demo) = 1
    \<and> closing_count (foldl cs_step (cs_init (Num (Fin 2))) (preempt_demo @ [(\<lambda>_ _. False, 6, CsReconcile)])) = 2"
  by code_simp

end
