(* ===== verification/Json.thy ===== *)
theory Json
  imports Js
begin

section \<open>JSON values\<close>

text \<open>
  The messages and stored documents of the code: parsed JSON, read by optional chaining and
  converted by \<open>String\<close>, \<open>Number\<close>, \<open>||\<close> and \<open>??\<close>.
\<close>

subsection \<open>Values and fields\<close>

datatype json = JPrim jsval | JArr "json list" | JObj "(string \<times> json) list"

text \<open>\<open>String(v)\<close> joins the elements of an array by commas, undefined and null ones as the empty text.\<close>

definition join_comma :: "string list \<Rightarrow> string" where
  "join_comma ss = (case ss of [] \<Rightarrow> [] | s # r \<Rightarrow> s @ concat (map (\<lambda>t. CHR '','' # t) r))"

fun json_string :: "json \<Rightarrow> string" where
  "json_string (JPrim v) = js_string v"
| "json_string (JObj fs) = ''[object Object]''"
| "json_string (JArr xs) = join_comma (map (\<lambda>x. if x = JPrim Undef \<or> x = JPrim Null then [] else json_string x) xs)"

definition json_truthy :: "json \<Rightarrow> bool" where
  "json_truthy j = (case j of JPrim v \<Rightarrow> js_truthy v | _ \<Rightarrow> True)"

definition json_or :: "json \<Rightarrow> json \<Rightarrow> json" where
  "json_or a b = (if json_truthy a then a else b)"

text \<open>The primitive a conversion works on.\<close>

definition json_prim :: "json \<Rightarrow> jsval" where
  "json_prim j = (case j of JPrim v \<Rightarrow> v | _ \<Rightarrow> Str (json_string j))"

text \<open>\<open>o.key\<close>: the last duplicate of a key counts; a primitive has no such field.\<close>

definition json_get :: "json \<Rightarrow> string \<Rightarrow> json" where
  "json_get j k = (case j of JObj fs \<Rightarrow> (case map_of (rev fs) k of None \<Rightarrow> JPrim Undef | Some v \<Rightarrow> v)
     | _ \<Rightarrow> JPrim Undef)"

definition json_has :: "json \<Rightarrow> string \<Rightarrow> bool" where
  "json_has j k = (case j of JObj fs \<Rightarrow> k \<in> set (map fst fs) | _ \<Rightarrow> False)"

definition is_object :: "json \<Rightarrow> bool" where
  "is_object j = (case j of JPrim _ \<Rightarrow> False | _ \<Rightarrow> True)"

definition json_cursor :: "json \<Rightarrow> nat option" where
  "json_cursor j = parse_cursor (json_prim j)"

subsection \<open>Conversions\<close>

text \<open>\<open>===\<close> on JSON values: two objects of different messages are never the same object.\<close>

definition json_same :: "json \<Rightarrow> json \<Rightarrow> bool" where
  "json_same a b = (case (a, b) of (JPrim x, JPrim y) \<Rightarrow> x = y \<and> x \<noteq> Num NaN | _ \<Rightarrow> False)"

definition json_nullish :: "json \<Rightarrow> json \<Rightarrow> json" where
  "json_nullish a b = (if a = JPrim Undef \<or> a = JPrim Null then b else a)"

definition json_text :: "json \<Rightarrow> string" where
  "json_text j = json_string (json_or j (JPrim (Str [])))"

definition json_number :: "json \<Rightarrow> jnum" where
  "json_number j = js_number (json_prim j)"

definition json_true :: "json \<Rightarrow> bool" where
  "json_true j = (j = JPrim (JBool True))"

text \<open>An object that is no array, and a whole number.\<close>

definition plain_object :: "json \<Rightarrow> bool" where
  "plain_object j = (case j of JObj _ \<Rightarrow> True | _ \<Rightarrow> False)"

definition whole :: "jnum \<Rightarrow> bool" where
  "whole x = (case x of Fin r \<Rightarrow> of_int (floor r) = r | _ \<Rightarrow> False)"

text \<open>\<open>String(v || "").trim()\<close>.\<close>

definition json_trimmed :: "json \<Rightarrow> string" where
  "json_trimmed j = js_trim (json_string (json_or j (JPrim (Str []))))"

lemma json_trimmed_text: "json_trimmed j = js_trim (json_text j)"
  by (simp add: json_trimmed_def json_text_def)

lemma json_text_Str [simp]: "json_text (JPrim (Str s)) = s"
  by (simp add: json_text_def json_or_def json_truthy_def js_truthy_def js_string_def)

end
