(* ===== verification/Queue_Frame.thy ===== *)
theory Queue_Frame
  imports Json "HOL-Library.Word"
begin

unbundle bit_operations_syntax

section \<open>JSON values, checksums and binary envelopes\<close>

text \<open>
  The parsing half of \<open>runtime/static/terminal/transport/terminal_queue_connection.js\<close> (\<open>crc32Table\<close>, \<open>crc32\<close>,
  \<open>payloadChecksumMatches\<close>, \<open>decodeTerminalQueueBinaryFrame\<close>) and of \<open>terminal_fast_integrity.js\<close>. Bytes
  are 8-bit words and the checksum is computed on 32-bit words. The parameter \<open>parse\<close> is
  \<open>JSON.parse\<close> of the decoded header text, \<open>None\<close> where it throws.
\<close>

subsection \<open>CRC-32\<close>

definition crc_bit :: "32 word \<Rightarrow> 32 word" where
  "crc_bit v = drop_bit 1 v XOR (if v AND 1 \<noteq> 0 then 0xedb88320 else 0)"

text \<open>The bitwise routine of \<open>terminal_fast_integrity.js\<close>.\<close>

definition crc_byte :: "32 word \<Rightarrow> 8 word \<Rightarrow> 32 word" where
  "crc_byte v b = (crc_bit ^^ 8) (v XOR ucast b)"

definition crc32_bitwise :: "8 word list \<Rightarrow> 32 word" where
  "crc32_bitwise data = foldl crc_byte 0xffffffff data XOR 0xffffffff"

text \<open>The table and the table-driven routine of \<open>terminal_queue_connection.js\<close>.\<close>

definition crc32_table :: "32 word list" where
  "crc32_table = map (\<lambda>n. (crc_bit ^^ 8) (of_nat n)) [0..<256]"

definition crc_lookup :: "32 word \<Rightarrow> 8 word \<Rightarrow> 32 word" where
  "crc_lookup v b = drop_bit 8 v XOR crc32_table ! unat ((v XOR ucast b) AND 0xff)"

definition crc32 :: "8 word list \<Rightarrow> 32 word" where
  "crc32 data = foldl crc_lookup 0xffffffff data XOR 0xffffffff"

lemma crc_bit_xor: "crc_bit (a XOR b) = crc_bit a XOR crc_bit b"
proof -
  have "(a XOR b) AND 1 = (a AND 1) XOR (b AND 1)"
    by (rule bit_word_eqI) (auto simp: bit_simps)
  moreover have "x AND 1 = (if bit x 0 then 1 else 0)" for x :: "32 word"
    by (rule bit_word_eqI) (auto simp: bit_simps intro!: gr0I)
  ultimately show ?thesis
    unfolding crc_bit_def by (auto simp: drop_bit_xor xor.assoc xor.left_commute xor.commute)
qed

lemma crc_bits_xor: "(crc_bit ^^ n) (a XOR b) = (crc_bit ^^ n) a XOR (crc_bit ^^ n) b"
  by (induction n) (simp_all add: crc_bit_xor)

lemma crc_bits_high: "take_bit n x = 0 \<Longrightarrow> (crc_bit ^^ n) x = drop_bit n (x :: 32 word)"
proof (induction n arbitrary: x)
  case (Suc n)
  have b: "\<not> bit x i" if "i < Suc n" for i
    using Suc.prems that by (metis bit_take_bit_iff bit_0_eq bot_apply bot_bool_def)
  have "x AND 1 = 0" using b [of 0] by (simp add: and_one_eq even_iff_mod_2_eq_zero bit_0)
  then have c: "crc_bit x = drop_bit 1 x" by (simp add: crc_bit_def)
  have "take_bit n (drop_bit 1 x) = 0"
    by (rule bit_word_eqI) (use b in \<open>auto simp: bit_simps\<close>)
  from Suc.IH [OF this] show ?case by (simp add: funpow_Suc_right c del: funpow.simps)
qed simp

lemma crc_byte_lookup: "crc_byte v b = crc_lookup v b"
proof -
  let ?x = "v XOR ucast b"
  have s: "?x = (?x AND 0xff) XOR (?x AND NOT 0xff)"
    by (rule bit_word_eqI) (auto simp: bit_simps)
  have m: "(0xff :: 32 word) = mask 8" by (simp add: mask_eq_exp_minus_1)
  have "take_bit 8 (?x AND NOT 0xff) = 0"
    unfolding m by (rule bit_word_eqI) (auto simp: bit_simps)
  then have "(crc_bit ^^ 8) (?x AND NOT 0xff) = drop_bit 8 (?x AND NOT 0xff)" by (rule crc_bits_high)
  also have "\<dots> = drop_bit 8 v"
    unfolding m by (rule bit_word_eqI) (auto simp: bit_simps dest: bit_imp_le_length)
  finally have h: "(crc_bit ^^ 8) (?x AND NOT 0xff) = drop_bit 8 v" .
  have l: "unat (?x AND 0xff) < 256"
  proof -
    have "?x AND 0xff = take_bit 8 ?x" unfolding m by (simp add: take_bit_eq_mask)
    then have "unat (?x AND 0xff) = take_bit 8 (unat ?x)" by (simp only: unsigned_take_bit_eq)
    then show ?thesis by (simp add: take_bit_eq_mod)
  qed
  have "crc_byte v b = (crc_bit ^^ 8) (?x AND 0xff) XOR drop_bit 8 v"
    unfolding crc_byte_def by (subst s) (simp only: crc_bits_xor h)
  also have "(crc_bit ^^ 8) (?x AND 0xff) = crc32_table ! unat (?x AND 0xff)"
    using l by (simp add: crc32_table_def del: funpow.simps)
  finally show ?thesis by (simp add: crc_lookup_def xor.commute)
qed

text \<open>
  C32. The table-driven CRC-32 of the queue connection computes the same checksum as the bitwise
  CRC-32 of the Fast envelope, on all data.
\<close>

theorem crc32_table_correct: "crc32 data = crc32_bitwise data"
proof -
  have "crc_lookup = crc_byte" using crc_byte_lookup by (intro ext) simp
  then show ?thesis by (simp add: crc32_def crc32_bitwise_def)
qed

subsection \<open>Checksums as text\<close>

definition hex_digit :: "nat \<Rightarrow> char" where
  "hex_digit d = (if d < 10 then char_of (48 + d) else char_of (87 + d))"

fun hex_text :: "nat \<Rightarrow> string" where
  "hex_text n = (if n < 16 then [hex_digit n] else hex_text (n div 16) @ [hex_digit (n mod 16)])"

declare hex_text.simps [simp del]

definition pad_start :: "nat \<Rightarrow> char \<Rightarrow> string \<Rightarrow> string" where
  "pad_start n c s = replicate (n - length s) c @ s"

definition lower_char :: "char \<Rightarrow> char" where
  "lower_char c = (let n = of_char c :: nat in
     if (65 \<le> n \<and> n \<le> 90) \<or> (192 \<le> n \<and> n \<le> 222 \<and> n \<noteq> 215) then char_of (n + 32) else c)"

definition strip_0x :: "string \<Rightarrow> string" where
  "strip_0x s = (if take 2 s = ''0x'' then drop 2 s else s)"

definition lower_hex :: "char \<Rightarrow> bool" where
  "lower_hex c = (let n = of_char c :: nat in (48 \<le> n \<and> n \<le> 57) \<or> (97 \<le> n \<and> n \<le> 102))"

definition checksum_text :: "32 word \<Rightarrow> string" where
  "checksum_text v = pad_start 8 (CHR ''0'') (hex_text (unat v))"

definition payload_checksum_matches :: "8 word list \<Rightarrow> json \<Rightarrow> bool" where
  "payload_checksum_matches data expected =
     (if expected \<in> {JPrim Undef, JPrim Null, JPrim (Str [])} then True
      else let text = strip_0x (map lower_char (js_trim (json_string expected))) in
        if \<not> (1 \<le> length text \<and> length text \<le> 8 \<and> list_all lower_hex text) then False
        else checksum_text (crc32 data) = pad_start 8 (CHR ''0'') text)"

subsection \<open>Hexadecimal text\<close>

lemma hex_digit_lower: "d < 16 \<Longrightarrow> lower_char (hex_digit d) = hex_digit d \<and> hex_digit d \<noteq> CHR ''x''"
proof -
  assume d: "d < 16"
  have c: "(of_char (hex_digit d) :: nat) = (if d < 10 then 48 + d else 87 + d)"
    using d by (simp add: hex_digit_def)
  have "(of_char (CHR ''x'') :: nat) = 120" by simp
  with c d have "hex_digit d \<noteq> CHR ''x''" by (auto split: if_splits)
  with c d show ?thesis by (auto simp: lower_char_def Let_def)
qed

lemma hex_text_lower: "map lower_char (hex_text n) = hex_text n \<and> CHR ''x'' \<notin> set (hex_text n) \<and> hex_text n \<noteq> []"
proof (induction n rule: hex_text.induct)
  case (1 n)
  show ?case
  proof (cases "n < 16")
    case True
    then show ?thesis using hex_digit_lower [of n] by (auto simp: hex_text.simps [of n])
  next
    case False
    then show ?thesis using 1 hex_digit_lower [of "n mod 16"] by (auto simp: hex_text.simps [of n])
  qed
qed

lemma hex_text_length: "n < 16 ^ k \<Longrightarrow> 0 < k \<Longrightarrow> length (hex_text n) \<le> k"
proof (induction n arbitrary: k rule: hex_text.induct)
  case (1 n)
  show ?case
  proof (cases "n < 16")
    case True
    then show ?thesis using 1 by (simp add: hex_text.simps [of n])
  next
    case False
    then obtain j where k: "k = Suc j" "0 < j" using 1 by (cases k; cases "k - 1") auto
    have "n div 16 < 16 ^ j" using 1 k by (simp add: less_mult_imp_div_less mult.commute)
    with 1 False k have "length (hex_text (n div 16)) \<le> j" by blast
    then show ?thesis using False k by (simp add: hex_text.simps [of n])
  qed
qed

lemma checksum_text_length: "length (checksum_text v) = 8"
proof -
  have "unat v < 16 ^ 8" using unsigned_less [of v] by simp
  then have "length (hex_text (unat v)) \<le> 8" by (rule hex_text_length) simp
  then show ?thesis by (simp add: checksum_text_def pad_start_def)
qed

lemma checksum_text_lower: "map lower_char (checksum_text v) = checksum_text v"
  by (simp add: checksum_text_def pad_start_def hex_text_lower) (simp add: lower_char_def)

lemma checksum_text_strip: "strip_0x (checksum_text v) = checksum_text v"
proof -
  have "CHR ''x'' \<notin> set (checksum_text v)"
    using hex_text_lower [of "unat v"] by (auto simp: checksum_text_def pad_start_def)
  then have "take 2 (checksum_text v) \<noteq> ''0x''" by (metis in_set_takeD list.set_intros)
  then show ?thesis by (simp add: strip_0x_def)
qed

lemma hex_digit_hex: "d < 16 \<Longrightarrow> lower_hex (hex_digit d)"
  by (auto simp: lower_hex_def hex_digit_def)

lemma hex_text_hex: "list_all lower_hex (hex_text n)"
proof (induction n rule: hex_text.induct)
  case (1 n)
  then show ?case using hex_digit_hex by (cases "n < 16") (auto simp: hex_text.simps [of n])
qed

lemma checksum_text_hex: "list_all lower_hex (checksum_text v)"
proof -
  have "lower_hex (CHR ''0'')" by (simp add: lower_hex_def)
  then have "list_all lower_hex (replicate k (CHR ''0''))" for k by (induction k) simp_all
  then show ?thesis by (simp add: checksum_text_def pad_start_def hex_text_hex)
qed

lemma checksum_text_trim: "js_trim (checksum_text v) = checksum_text v"
proof -
  have "\<not> js_space c" if "lower_hex c" for c using that by (auto simp: lower_hex_def js_space_def Let_def)
  then have a: "list_all (\<lambda>c. \<not> js_space c) (checksum_text v)" using checksum_text_hex by (auto simp: list_all_iff)
  then have "list_all (\<lambda>c. \<not> js_space c) (rev (checksum_text v))" by (simp add: list_all_iff)
  with a show ?thesis unfolding js_trim_def by (simp only: dropWhile_none rev_rev_ident)
qed

text \<open>The checksum a server computes for the bytes is accepted.\<close>

lemma own_checksum_matches: "payload_checksum_matches data (JPrim (Str (checksum_text (crc32 data))))"
proof -
  have l: "length (checksum_text (crc32 data)) = 8" by (rule checksum_text_length)
  then have "checksum_text (crc32 data) \<noteq> []" by auto
  with l show ?thesis
    by (simp add: payload_checksum_matches_def Let_def js_string_def checksum_text_trim checksum_text_lower
        checksum_text_strip checksum_text_hex) (simp add: pad_start_def l)
qed

subsection \<open>Envelopes\<close>

definition be32 :: "8 word list \<Rightarrow> nat" where
  "be32 bs = foldl (\<lambda>a b. 256 * a + unat b) 0 (take 4 bs)"

definition to_be32 :: "nat \<Rightarrow> 8 word list" where
  "to_be32 n = [of_nat (n div 2 ^ 24), of_nat (n div 2 ^ 16), of_nat (n div 2 ^ 8), of_nat n]"

definition queue_magic :: "8 word list" where
  "queue_magic = [0x4c, 0x43, 0x51, 0x31]"

datatype frame_error = Truncated | BadMagic | BadHeaderLength | BadHeader

text \<open>Magic, big-endian header length, JSON header, payload.\<close>

definition decode_queue_frame :: "(8 word list \<Rightarrow> json option) \<Rightarrow> 8 word list \<Rightarrow> frame_error + (json \<times> 8 word list)" where
  "decode_queue_frame parse data =
     (if length data < 8 then Inl Truncated
      else if take 4 data \<noteq> queue_magic then Inl BadMagic
      else let n = be32 (drop 4 data) in
        if n = 0 \<or> 8 + n > length data then Inl BadHeaderLength
        else case parse (take n (drop 8 data)) of None \<Rightarrow> Inl BadHeader
             | Some header \<Rightarrow> Inr (header, drop (8 + n) data))"

lemma be32_bytes: "be32 (a # b # c # d # r) = ((256 * unat a + unat b) * 256 + unat c) * 256 + unat d"
  by (simp add: be32_def)

lemma byte_of_nat: "(of_nat n :: 8 word) = b \<longleftrightarrow> n mod 256 = unat b"
proof
  assume "(of_nat n :: 8 word) = b"
  then show "n mod 256 = unat b" by (auto simp: unat_of_nat)
next
  assume "n mod 256 = unat b"
  then have "unat (of_nat n :: 8 word) = unat b" by (simp add: unat_of_nat)
  then show "(of_nat n :: 8 word) = b" by (simp add: word_unat_eq_iff)
qed

lemma div_steps:
  "n div 2 ^ 8 = n div 256" "n div 2 ^ 16 = n div 256 div 256" "n div 2 ^ 24 = n div 256 div 256 div 256" for n :: nat
  by (simp_all flip: div_mult2_eq)

lemma be32_to: "n < 2 ^ 32 \<Longrightarrow> be32 (to_be32 n @ r) = n"
proof -
  assume n: "n < 2 ^ 32"
  define m where "m = n div 256"
  have t: "n div 256 div 256 div 256 < 256" using n by (simp add: less_mult_imp_div_less)
  have e: "256 * (m div 256 div 256) + m div 256 mod 256 = m div 256" "m div 256 * 256 + m mod 256 = m"
    "m * 256 + n mod 256 = n" by (simp_all only: m_def mult_div_mod_eq div_mult_mod_eq)
  have "be32 (to_be32 n @ r) = ((256 * (m div 256 div 256) + m div 256 mod 256) * 256 + m mod 256) * 256 + n mod 256"
    using t unfolding to_be32_def div_steps by (simp add: be32_bytes unat_of_nat m_def)
  then show ?thesis by (simp only: e)
qed

lemma step256: "r < 256 \<Longrightarrow> (256 * q + r) div 256 = q" "r < 256 \<Longrightarrow> (256 * q + r) mod 256 = r" for q r :: nat
  by simp_all

lemma to_be32_be32: "length bs = 4 \<Longrightarrow> to_be32 (be32 bs) = bs"
proof -
  assume "length bs = 4"
  then obtain a b c d where bs: "bs = [a, b, c, d]"
    by (auto simp: numeral_eq_Suc length_Suc_conv)
  let ?n = "be32 bs"
  have lt: "unat x < 256" for x :: "8 word" using unsigned_less [of x] by simp
  have n: "?n = 256 * (256 * (256 * unat a + unat b) + unat c) + unat d"
    by (simp add: bs be32_bytes)
  have 1: "?n div 256 = 256 * (256 * unat a + unat b) + unat c" "?n mod 256 = unat d"
    unfolding n by (rule step256 [OF lt])+
  have 2: "?n div 256 div 256 = 256 * unat a + unat b" "?n div 256 mod 256 = unat c"
    unfolding 1(1) by (rule step256 [OF lt])+
  have 3: "?n div 256 div 256 div 256 = unat a" "?n div 256 div 256 mod 256 = unat b"
    unfolding 2(1) by (rule step256 [OF lt])+
  have 4: "(of_nat (?n div 256 div 256 div 256) :: 8 word) = a" "(of_nat (?n div 256 div 256) :: 8 word) = b"
    "(of_nat (?n div 256) :: 8 word) = c" "(of_nat ?n :: 8 word) = d"
    using 1(2) 2(2) 3 lt [of a] unfolding byte_of_nat by simp_all
  show ?thesis
    unfolding to_be32_def div_steps 4 by (rule bs [symmetric])
qed

lemma be32_less: "be32 bs < 2 ^ 32"
proof -
  have lt: "unat x < 256" for x :: "8 word" using unsigned_less [of x] by simp
  have "foldl (\<lambda>a b. 256 * a + unat b) a xs < 256 ^ length xs * (a + 1)" for a and xs :: "8 word list"
  proof (induction xs arbitrary: a)
    case (Cons x xs)
    have "256 * a + unat x + 1 \<le> 256 * (a + 1)" using lt [of x] by simp
    then have "256 ^ length xs * (256 * a + unat x + 1) \<le> 256 ^ length xs * (256 * (a + 1))" by (rule mult_le_mono2)
    also have "\<dots> = 256 ^ length (x # xs) * (a + 1)" by (simp only: list.size power_Suc add_Suc_right add_0_right mult_ac)
    finally show ?case using Cons [of "256 * a + unat x"] by (simp only: foldl_Cons)
  qed simp
  from this [of 0 "take 4 bs"] have "be32 bs < 256 ^ min 4 (length bs)" by (simp add: be32_def min.commute)
  also have "\<dots> \<le> 256 ^ 4" by (rule power_increasing) simp_all
  finally show ?thesis by simp
qed

text \<open>
  The binary decoder accepts exactly the well-formed envelopes: magic, the length of a non-empty header
  as four big-endian bytes, a header that parses, and the payload, which it returns unchanged.
\<close>

theorem queue_frame_accepts:
  "decode_queue_frame parse data = Inr (header, payload) \<longleftrightarrow>
   (\<exists>hb. data = queue_magic @ to_be32 (length hb) @ hb @ payload \<and> hb \<noteq> [] \<and> length hb < 2 ^ 32 \<and> parse hb = Some header)"
  (is "?L \<longleftrightarrow> (\<exists>hb. ?R hb)")
proof
  assume l: ?L
  define n where "n = be32 (drop 4 data)"
  have len: "8 \<le> length data" and mg: "take 4 data = queue_magic" and n: "n \<noteq> 0" "8 + n \<le> length data"
    and p: "parse (take n (drop 8 data)) = Some header" "payload = drop (8 + n) data"
    using l by (auto simp: decode_queue_frame_def Let_def n_def split: if_splits option.splits)
  let ?hb = "take n (drop 8 data)"
  have hl: "length ?hb = n" using n by simp
  have "be32 (take 4 (drop 4 data)) = n" by (simp add: n_def be32_def)
  moreover have "length (take 4 (drop 4 data)) = 4" using len by simp
  ultimately have "to_be32 n = take 4 (drop 4 data)" using to_be32_be32 by metis
  moreover have "data = take 4 data @ take 4 (drop 4 data) @ take n (drop 8 data) @ drop (8 + n) data"
    by (metis append_take_drop_id drop_drop add.commute numeral_Bit0)
  ultimately have "data = queue_magic @ to_be32 (length ?hb) @ ?hb @ payload"
    unfolding hl by (simp only: mg p(2))
  moreover have "n < 2 ^ 32" unfolding n_def by (rule be32_less)
  ultimately have "?R ?hb" using hl n(1) p(1) by (intro conjI) auto
  then show "\<exists>hb. ?R hb" by blast
next
  assume "\<exists>hb. ?R hb"
  then obtain hb where d: "data = queue_magic @ to_be32 (length hb) @ hb @ payload" and hb: "hb \<noteq> []"
    "length hb < 2 ^ 32" "parse hb = Some header" by blast
  have q: "length queue_magic = 4" "length (to_be32 k) = 4" for k by (simp_all add: queue_magic_def to_be32_def)
  have "be32 (drop 4 data) = length hb" using be32_to [OF hb(2), of "hb @ payload"] by (simp add: d q)
  moreover have "drop 8 data = hb @ payload" "take 4 data = queue_magic" by (simp_all add: d q)
  moreover have "drop (8 + length hb) data = payload" by (simp add: d q)
  moreover have "length data = 8 + length hb + length payload" by (simp add: d q)
  ultimately show ?L using hb by (simp add: decode_queue_frame_def)
qed

end
