(* ===== verification/Fast_Integrity.thy ===== *)
theory Fast_Integrity
  imports Queue_Frame
begin

section \<open>The Fast binary envelope\<close>

text \<open>
  \<open>runtime/static/terminal/transport/terminal_fast_integrity.js\<close>: \<open>encodeFastBinaryFrame\<close> and
  \<open>decodeFastBinaryFrame\<close>. The platform's \<open>JSON.stringify\<close> followed by \<open>TextEncoder\<close>, and \<open>TextDecoder\<close>
  followed by \<open>JSON.parse\<close>, are the parameters \<open>stringify\<close> and \<open>parse\<close>; cursors are the values of the \<open>BigInt\<close>s.
\<close>

definition fast_magic :: "8 word list" where
  "fast_magic = [0x4c, 0x43, 0x46, 0x31]"

record fast_frame =
  ff_selector :: jsval
  ff_pane :: jsval
  ff_history :: jsval
  ff_sequence :: jsval
  ff_start :: nat
  ff_payload :: "8 word list"

definition jstr :: "string \<Rightarrow> json" where
  "jstr s = JPrim (Str s)"

definition jnat :: "nat \<Rightarrow> json" where
  "jnat n = JPrim (Num (Fin (of_nat n)))"

definition fast_header :: "fast_frame \<Rightarrow> json" where
  "fast_header f = JObj [
     (''protocol_version'', jnat 1),
     (''selector'', jstr (string_or_empty (ff_selector f))),
     (''pane_id'', jstr (string_or_empty (ff_pane f))),
     (''history_generation'', jstr (string_or_empty (ff_history f))),
     (''sequence'', jstr (js_string (ff_sequence f))),
     (''start_cursor'', jstr (nat_text (ff_start f))),
     (''end_cursor'', jstr (nat_text (ff_start f + length (ff_payload f)))),
     (''length'', jnat (length (ff_payload f))),
     (''checksum'', jstr (checksum_text (crc32_bitwise (ff_payload f))))]"

definition encode_fast :: "(json \<Rightarrow> 8 word list) \<Rightarrow> fast_frame \<Rightarrow> 8 word list" where
  "encode_fast stringify f =
     (let hb = stringify (fast_header f) in fast_magic @ to_be32 (length hb) @ hb @ ff_payload f)"

record fast_identity =
  fi_selector :: jsval
  fi_pane :: jsval
  fi_history :: jsval
  fi_sequence :: "nat option"
  fi_start :: "nat option"

datatype fast_error = FastMagic | FastLength | FastJson | FastRange | FastSequence | FastCursor | FastChecksum

record fast_result =
  fr_header :: json
  fr_payload :: "8 word list"
  fr_start :: nat
  fr_end :: nat
  fr_sequence :: nat

definition identity_differs :: "jsval \<Rightarrow> json \<Rightarrow> bool" where
  "identity_differs expected actual = (js_truthy expected \<and> actual \<noteq> JPrim expected)"

text \<open>
  The checks of the header against the payload and the expected identity. Reading a field of a \<open>null\<close> header throws
  a \<open>TypeError\<close>, here the same branch as a bad range.
\<close>

definition check_fast_header :: "json \<Rightarrow> 8 word list \<Rightarrow> fast_identity \<Rightarrow> fast_error + fast_result" where
  "check_fast_header header payload ident =
     (case (json_cursor (json_get header ''start_cursor''), json_cursor (json_get header ''end_cursor''),
            json_cursor (json_get header ''sequence'')) of
        (Some start, Some stop, Some seq) \<Rightarrow>
          if json_get header ''protocol_version'' \<noteq> jnat 1
             \<or> identity_differs (fi_selector ident) (json_get header ''selector'')
             \<or> identity_differs (fi_pane ident) (json_get header ''pane_id'')
             \<or> identity_differs (fi_history ident) (json_get header ''history_generation'')
             \<or> int stop - int start \<noteq> int (length payload)
             \<or> js_number (json_prim (json_get header ''length'')) \<noteq> Fin (of_nat (length payload))
          then Inl FastRange
          else if fi_sequence ident \<noteq> None \<and> Some seq \<noteq> fi_sequence ident then Inl FastSequence
          else if fi_start ident \<noteq> None \<and> Some start \<noteq> fi_start ident then Inl FastCursor
          else if checksum_text (crc32_bitwise payload)
                  \<noteq> pad_start 8 (CHR ''0'') (strip_0x (map lower_char
                       (json_string (json_or (json_get header ''checksum'') (JPrim (Str []))))))
          then Inl FastChecksum
          else Inr \<lparr>fr_header = header, fr_payload = payload, fr_start = start, fr_end = stop, fr_sequence = seq\<rparr>
      | _ \<Rightarrow> Inl FastRange)"

definition decode_fast ::
  "(8 word list \<Rightarrow> json option) \<Rightarrow> 8 word list \<Rightarrow> fast_identity \<Rightarrow> fast_error + fast_result" where
  "decode_fast parse data ident =
     (if length data < 8 \<or> take 4 data \<noteq> fast_magic then Inl FastMagic
      else let n = be32 (drop 4 data) in
        if n = 0 \<or> n + 8 > length data then Inl FastLength
        else case parse (take n (drop 8 data)) of None \<Rightarrow> Inl FastJson
        | Some header \<Rightarrow> check_fast_header header (drop (8 + n) data) ident)"

subsection \<open>Round trip\<close>

lemma json_cursor_jstr [simp]: "json_cursor (jstr (nat_text n)) = Some n"
  by (simp add: json_cursor_def jstr_def json_prim_def)

lemma fast_header_get [simp]:
  "json_get (fast_header f) ''start_cursor'' = jstr (nat_text (ff_start f))"
  "json_get (fast_header f) ''end_cursor'' = jstr (nat_text (ff_start f + length (ff_payload f)))"
  "json_get (fast_header f) ''sequence'' = jstr (js_string (ff_sequence f))"
  "json_get (fast_header f) ''protocol_version'' = jnat 1"
  "json_get (fast_header f) ''selector'' = jstr (string_or_empty (ff_selector f))"
  "json_get (fast_header f) ''pane_id'' = jstr (string_or_empty (ff_pane f))"
  "json_get (fast_header f) ''history_generation'' = jstr (string_or_empty (ff_history f))"
  "json_get (fast_header f) ''length'' = jnat (length (ff_payload f))"
  "json_get (fast_header f) ''checksum'' = jstr (checksum_text (crc32_bitwise (ff_payload f)))"
  by (simp_all add: fast_header_def json_get_def)

lemma checksum_accepted: "pad_start 8 (CHR ''0'') (strip_0x (map lower_char
     (json_string (json_or (jstr (checksum_text v)) (JPrim (Str [])))))) = checksum_text v"
proof -
  have "checksum_text v \<noteq> []" using checksum_text_length [of v] by auto
  then have "json_or (jstr (checksum_text v)) (JPrim (Str [])) = jstr (checksum_text v)"
    by (simp add: json_or_def json_truthy_def jstr_def js_truthy_def)
  then show ?thesis
    by (simp add: jstr_def js_string_def checksum_text_lower checksum_text_strip)
      (simp add: pad_start_def checksum_text_length)
qed

text \<open>What the receiver asks for: text that is absent or empty, or the text the frame was made with.\<close>

definition asks_for :: "jsval \<Rightarrow> jsval \<Rightarrow> bool" where
  "asks_for expected v = (js_truthy expected \<longrightarrow> expected = Str (string_or_empty v))"

lemma decode_encoded:
  assumes "parse (stringify (fast_header f)) = Some h"
    and "stringify (fast_header f) \<noteq> []" and "length (stringify (fast_header f)) < 2 ^ 32"
  shows "decode_fast parse (encode_fast stringify f) ident = check_fast_header h (ff_payload f) ident"
proof -
  let ?hb = "stringify (fast_header f)" and ?d = "encode_fast stringify f"
  have d: "?d = fast_magic @ to_be32 (length ?hb) @ ?hb @ ff_payload f" by (simp add: encode_fast_def Let_def)
  have q: "length fast_magic = 4" "length (to_be32 k) = 4" for k by (simp_all add: fast_magic_def to_be32_def)
  have parts: "be32 (drop 4 ?d) = length ?hb" "drop 8 ?d = ?hb @ ff_payload f" "take 4 ?d = fast_magic"
      "drop (8 + length ?hb) ?d = ff_payload f" "length ?d = 8 + length ?hb + length (ff_payload f)"
    using be32_to [OF assms(3), of "?hb @ ff_payload f"] by (simp_all add: d q)
  show ?thesis unfolding decode_fast_def Let_def parts using assms(1,2) by simp
qed

text \<open>
  C33. Round trip of the Fast envelope: when the JSON text of the header is read back as it was written, decoding an encoded
  frame under a matching identity gives back the payload, the cursors and the sequence, for
  every payload, and with them the checksum test passes.
\<close>

theorem fast_roundtrip:
  assumes "parse (stringify (fast_header f)) = Some (fast_header f)"
    and "stringify (fast_header f) \<noteq> []" and "length (stringify (fast_header f)) < 2 ^ 32"
    and "ff_sequence f = Str (nat_text seq)"
    and "asks_for (fi_selector ident) (ff_selector f)" and "asks_for (fi_pane ident) (ff_pane f)"
    and "asks_for (fi_history ident) (ff_history f)"
    and "fi_sequence ident \<in> {None, Some seq}" and "fi_start ident \<in> {None, Some (ff_start f)}"
  shows "decode_fast parse (encode_fast stringify f) ident =
    Inr \<lparr>fr_header = fast_header f, fr_payload = ff_payload f, fr_start = ff_start f,
         fr_end = ff_start f + length (ff_payload f), fr_sequence = seq\<rparr>"
proof -
  have ids: "\<not> identity_differs (fi_selector ident) (jstr (string_or_empty (ff_selector f)))"
      "\<not> identity_differs (fi_pane ident) (jstr (string_or_empty (ff_pane f)))"
      "\<not> identity_differs (fi_history ident) (jstr (string_or_empty (ff_history f)))"
    using assms(5-7) by (auto simp: identity_differs_def asks_for_def jstr_def)
  have seq: "json_cursor (jstr (js_string (ff_sequence f))) = Some seq"
    by (simp add: assms(4) js_string_def del: nat_text.simps)
  have len: "js_number (json_prim (jnat (length (ff_payload f)))) = Fin (of_nat (length (ff_payload f)))"
    by (simp add: jnat_def json_prim_def js_number_def)
  show ?thesis
    unfolding decode_encoded [where parse = parse and stringify = stringify and f = f, OF assms(1-3)] check_fast_header_def using assms(8,9)
    by (auto simp: seq ids len checksum_accepted)
qed

definition demo_frame :: fast_frame where
  "demo_frame = \<lparr>ff_selector = Str ''box'', ff_pane = Str ''p1'', ff_history = Undef, ff_sequence = Str (nat_text 3),
     ff_start = 5, ff_payload = [104, 105]\<rparr>"

theorem fast_roundtrip_witness:
  "decode_fast (\<lambda>bs. if bs = [123, 125] then Some (fast_header demo_frame) else None)
     (encode_fast (\<lambda>_. [123, 125]) demo_frame)
     \<lparr>fi_selector = Str ''box'', fi_pane = Str ''p1'', fi_history = Undef, fi_sequence = Some 3, fi_start = Some 5\<rparr>
   = Inr \<lparr>fr_header = fast_header demo_frame, fr_payload = [104, 105], fr_start = 5, fr_end = 7, fr_sequence = 3\<rparr>"
  using fast_roundtrip [where stringify = "\<lambda>_. [123, 125]" and f = demo_frame and seq = 3
      and parse = "\<lambda>bs. if bs = [123, 125] then Some (fast_header demo_frame) else None"
      and ident = "\<lparr>fi_selector = Str ''box'', fi_pane = Str ''p1'', fi_history = Undef, fi_sequence = Some 3, fi_start = Some 5\<rparr>"]
  by (simp add: demo_frame_def asks_for_def js_truthy_def)

text \<open>
  Whatever the bytes, an accepted Fast frame covers exactly its payload, and its payload has the
  checksum the header names; with an expected sequence and start cursor it continues there.
\<close>

theorem fast_accepted_sound:
  assumes "decode_fast parse data ident = Inr r"
  shows "fr_end r = fr_start r + length (fr_payload r)
    \<and> checksum_text (crc32_bitwise (fr_payload r)) = pad_start 8 (CHR ''0'') (strip_0x (map lower_char
         (json_string (json_or (json_get (fr_header r) ''checksum'') (JPrim (Str []))))))
    \<and> (\<forall>q. fi_sequence ident = Some q \<longrightarrow> fr_sequence r = q)
    \<and> (\<forall>q. fi_start ident = Some q \<longrightarrow> fr_start r = q)
    \<and> (\<exists>p. data = p @ fr_payload r)"
proof -
  have "fr_end r = fr_start r + length (fr_payload r)
    \<and> checksum_text (crc32_bitwise (fr_payload r)) = pad_start 8 (CHR ''0'') (strip_0x (map lower_char
         (json_string (json_or (json_get (fr_header r) ''checksum'') (JPrim (Str []))))))
    \<and> (\<forall>q. fi_sequence ident = Some q \<longrightarrow> fr_sequence r = q)
    \<and> (\<forall>q. fi_start ident = Some q \<longrightarrow> fr_start r = q)"
    using assms by (auto simp: decode_fast_def check_fast_header_def Let_def split: if_splits option.splits)
  moreover have "\<exists>n. fr_payload r = drop n data"
    using assms by (auto simp: decode_fast_def check_fast_header_def Let_def split: if_splits option.splits)
  moreover have "\<exists>p. data = p @ drop n data" for n by (metis append_take_drop_id)
  ultimately show ?thesis by metis
qed

theorem fast_accepted_sound_witness:
  "\<exists>r. decode_fast (\<lambda>_. Some (fast_header demo_frame)) (encode_fast (\<lambda>_. [123, 125]) demo_frame)
     \<lparr>fi_selector = Undef, fi_pane = Undef, fi_history = Undef, fi_sequence = Some 3, fi_start = Some 5\<rparr> = Inr r
   \<and> fr_end r = fr_start r + length (fr_payload r) \<and> fr_sequence r = 3 \<and> fr_start r = 5"
proof -
  let ?i = "\<lparr>fi_selector = Undef, fi_pane = Undef, fi_history = Undef, fi_sequence = Some 3, fi_start = Some 5\<rparr>"
  let ?r = "decode_fast (\<lambda>_. Some (fast_header demo_frame)) (encode_fast (\<lambda>_. [123, 125]) demo_frame) ?i"
  have seq: "json_cursor (jstr (js_string (ff_sequence demo_frame))) = Some 3"
    by (simp add: demo_frame_def js_string_def del: nat_text.simps)
  have "?r = check_fast_header (fast_header demo_frame) (ff_payload demo_frame) ?i"
    by (rule decode_encoded) simp_all
  also have "\<dots> = Inr \<lparr>fr_header = fast_header demo_frame, fr_payload = ff_payload demo_frame, fr_start = ff_start demo_frame,
         fr_end = ff_start demo_frame + length (ff_payload demo_frame), fr_sequence = 3\<rparr>"
    unfolding check_fast_header_def
    by (simp add: seq checksum_accepted identity_differs_def js_truthy_def jnat_def json_prim_def js_number_def)
      (simp add: demo_frame_def)
  finally show ?thesis using fast_accepted_sound by (intro exI conjI) (assumption, fastforce+)
qed

end
