(* ===== verification/Queue_Connection.thy ===== *)
theory Queue_Connection
  imports Queue_Frame
begin

section \<open>The unified queue connection\<close>

text \<open>
  \<open>runtime/static/terminal/transport/terminal_queue_connection.js\<close>: many logical terminal streams over one
  physical web socket. The state is the map of logical streams and the fields of the closure; what the code
  sends, dispatches to listeners and reports to callbacks is appended to a log. The browser owns the
  \<open>readyState\<close> of the physical socket, so every operation is given its current value \<open>rs\<close>, and the microtasks
  the code queues are operations of their own. A listener that calls back into the connection does so as a
  later operation. \<open>parse\<close> is \<open>JSON.parse\<close> of the header of a binary frame; a text frame arrives parsed,
  \<open>None\<close> where \<open>JSON.parse\<close> throws.
\<close>

subsection \<open>Identities\<close>

record q_identity =
  qi_pane :: string
  qi_stream :: string
  qi_generation :: int

text \<open>\<open>normalizeIdentity\<close>, \<open>None\<close> where it throws.\<close>

definition normalize_queue_identity :: "json \<Rightarrow> q_identity option" where
  "normalize_queue_identity d =
     (let pane = json_trimmed (json_or (json_get d ''pane_id'') (json_get d ''paneID''));
          stream = json_trimmed (json_or (json_get d ''stream_id'') (json_get d ''streamID''));
          gen = num_floor (json_number (json_or (json_get d ''channel_generation'')
                  (json_or (json_get d ''channelGeneration'') (JPrim (Num (Fin 0))))))
      in if d = JPrim Null \<or> pane = [] \<or> stream = [] \<or> \<not> safe_integer gen \<or> num_int gen \<le> 0 then None
         else Some \<lparr>qi_pane = pane, qi_stream = stream, qi_generation = num_int gen\<rparr>)"

definition stream_key :: "q_identity \<Rightarrow> string" where
  "stream_key i = qi_pane i @ [CHR 0x00] @ qi_stream i @ [CHR 0x00] @ int_text (qi_generation i)"

definition queue_priority :: "json \<Rightarrow> nat" where
  "queue_priority j = (case num_floor (num_or_zero (json_number j)) of
     Fin r \<Rightarrow> nat (max 0 (min 3 (floor r))) | PosInf \<Rightarrow> 3 | _ \<Rightarrow> 0)"

definition parse_sequence :: "json \<Rightarrow> nat option" where
  "parse_sequence j = (case json_cursor j of None \<Rightarrow> None
     | Some n \<Rightarrow> if int n \<le> max_safe_int then Some n else None)"

subsection \<open>State\<close>

datatype q_ready = QConnecting | QOpen | QClosing | QClosed

record q_entry =
  qe_handle :: nat
  qe_identity :: q_identity
  qe_subscription :: "(string, json) jsmap"
  qe_ready :: q_ready
  qe_cursor :: "nat option"
  qe_sequence :: "nat option"
  qe_mode :: "bool option"
  qe_sent :: "nat option"

text \<open>The events dispatched to the listeners of a logical socket.\<close>

datatype q_event =
    EvOpened
  | EvClosed jnum string bool
  | EvError string
  | EvControl json
  | EvData "8 word list" q_identity nat nat "nat option" string
  | EvServerLog json
  | EvPreparing jnum
  | EvProblem string

datatype q_output =
    SendSubscriptions "(string, json) jsmap list"
  | SendPriority q_identity nat
  | SendControl q_identity json
  | SendPing
  | Dispatch nat q_event
  | ProtocolError string "q_identity option"
  | PhysicalError string
  | PhysicalClose jnum string bool
  | PhysicalEvent string
  | CreateSocket nat
  | CloseSocket jnum string
  | Resolved
  | StateChange
  | Uncaught

record q_state =
  qc_streams :: "(string, q_entry) jsmap"
  qc_socket :: "nat option"
  qc_createdAt :: int
  qc_latency :: int
  qc_ready :: q_ready
  qc_serverReady :: bool
  qc_disposed :: bool
  qc_pending :: bool
  qc_revision :: nat
  qc_errorDispatched :: bool
  qc_lastPong :: int
  qc_agentVersion :: string
  qc_preferredVersion :: string
  qc_updateAvailable :: bool
  qc_updateRequired :: bool
  qc_resolved :: bool
  qc_keepAlive :: bool
  qc_nextID :: nat
  qc_nextHandle :: nat
  qc_log :: "q_output list"

definition queue_start :: "bool \<Rightarrow> nat \<Rightarrow> q_state" where
  "queue_start keepAlive nextID = \<lparr>qc_streams = [], qc_socket = None, qc_createdAt = 0, qc_latency = 0,
     qc_ready = QClosed, qc_serverReady = False, qc_disposed = False, qc_pending = False, qc_revision = 0,
     qc_errorDispatched = False, qc_lastPong = 0, qc_agentVersion = [], qc_preferredVersion = [],
     qc_updateAvailable = False, qc_updateRequired = False, qc_resolved = False, qc_keepAlive = keepAlive,
     qc_nextID = nextID, qc_nextHandle = 0, qc_log = []\<rparr>"

definition q_emit :: "q_output list \<Rightarrow> q_state \<Rightarrow> q_state" where
  "q_emit os s = s\<lparr>qc_log := qc_log s @ os\<rparr>"

definition put_entry :: "string \<Rightarrow> q_entry \<Rightarrow> q_state \<Rightarrow> q_state" where
  "put_entry k e s = s\<lparr>qc_streams := mput k e (qc_streams s)\<rparr>"

subsection \<open>Sending\<close>

definition resolve_final_close :: "q_state \<Rightarrow> q_state" where
  "resolve_final_close s = (if qc_resolved s then s else q_emit [Resolved] (s\<lparr>qc_resolved := True\<rparr>))"

definition send_physical :: "q_ready \<Rightarrow> q_output \<Rightarrow> q_state \<Rightarrow> bool \<times> q_state" where
  "send_physical rs x s = (if qc_socket s = None \<or> rs \<noteq> QOpen then (False, s) else (True, q_emit [x] s))"

definition sub_priority :: "(string, json) jsmap \<Rightarrow> nat" where
  "sub_priority sub = queue_priority (case mget sub ''priority'' of None \<Rightarrow> JPrim Undef | Some j \<Rightarrow> j)"

text \<open>The priorities after a full subscription: the first one rides on it, a changed one is sent.\<close>

definition sync_priority :: "q_ready \<Rightarrow> q_state \<Rightarrow> string \<Rightarrow> q_state" where
  "sync_priority rs s k = (case mget (qc_streams s) k of None \<Rightarrow> s | Some e \<Rightarrow>
     let p = sub_priority (qe_subscription e) in
     if qe_sent e = None then put_entry k (e\<lparr>qe_sent := Some p\<rparr>) s
     else if qe_sent e \<noteq> Some p then
       (let (ok, s1) = send_physical rs (SendPriority (qe_identity e) p) s
        in if ok then put_entry k (e\<lparr>qe_sent := Some p\<rparr>) s1 else s1)
     else s)"

definition send_subscriptions :: "q_ready \<Rightarrow> q_state \<Rightarrow> bool \<times> q_state" where
  "send_subscriptions rs s0 =
     (let s = s0\<lparr>qc_pending := False\<rparr>;
          (ok, s1) = send_physical rs (SendSubscriptions (map qe_subscription (mvals (qc_streams s)))) s
      in if \<not> ok then (False, s1\<lparr>qc_pending := True\<rparr>)
         else let s2 = q_emit [PhysicalEvent ''logical_subscriptions_sent''] (s1\<lparr>qc_revision := Suc (qc_revision s1)\<rparr>)
              in (True, foldl (sync_priority rs) s2 (mkeys (qc_streams s2))))"

definition schedule_update :: "q_state \<Rightarrow> q_state" where
  "schedule_update s = s\<lparr>qc_pending := True\<rparr>"

definition flush_subscriptions :: "q_ready \<Rightarrow> q_state \<Rightarrow> q_state" where
  "flush_subscriptions rs s = (if \<not> qc_disposed s \<and> qc_pending s then snd (send_subscriptions rs s) else s)"

subsection \<open>Dispatching\<close>

definition close_event :: "jnum \<Rightarrow> string \<Rightarrow> bool \<Rightarrow> q_entry \<Rightarrow> q_output list" where
  "close_event code reason clean e =
     (if qe_ready e = QClosed then [] else [Dispatch (qe_handle e) (EvClosed code reason clean)])"

definition fail_protocol :: "q_entry \<Rightarrow> string \<Rightarrow> q_state \<Rightarrow> q_state" where
  "fail_protocol e msg s = q_emit ([ProtocolError msg (Some (qe_identity e))]
     @ (if qe_ready e = QClosed then [] else [Dispatch (qe_handle e) (EvProblem msg)])) s"

definition dispatch_physical_error :: "string \<Rightarrow> q_state \<Rightarrow> q_state" where
  "dispatch_physical_error msg s =
     (if qc_errorDispatched s then s
      else case qc_streams s of [] \<Rightarrow> s
      | (k, e) # _ \<Rightarrow> if qe_ready e = QClosed then s
          else q_emit [PhysicalError msg, Dispatch (qe_handle e) (EvError msg)] (s\<lparr>qc_errorDispatched := True\<rparr>))"

definition close_all_logical :: "jnum \<Rightarrow> string \<Rightarrow> bool \<Rightarrow> q_state \<Rightarrow> q_state" where
  "close_all_logical code reason clean s =
     q_emit (concat (map (close_event code reason clean) (mvals (qc_streams s))) @ [StateChange]) (s\<lparr>qc_streams := []\<rparr>)"

subsection \<open>Routing\<close>

definition replay_start :: "json \<Rightarrow> bool" where
  "replay_start p = (json_get p ''type'' = JPrim (Str ''history-replay-start''))"

definition replay_complete :: "json \<Rightarrow> bool" where
  "replay_complete p = (json_get p ''type'' = JPrim (Str ''history-replay-complete''))"

definition route_pane_control :: "json \<Rightarrow> q_state \<Rightarrow> q_state" where
  "route_pane_control message s = (case normalize_queue_identity message of None \<Rightarrow> q_emit [Uncaught] s
   | Some i \<Rightarrow> (case mget (qc_streams s) (stream_key i) of None \<Rightarrow> s | Some e \<Rightarrow>
       if qe_ready e \<noteq> QOpen then s
       else let p = json_get message ''payload'' in
         if \<not> is_object p then fail_protocol e ''terminal queue pane control payload is invalid'' s
         else if replay_start p then
           (case json_cursor (json_get p ''delta_from_cursor'') of
              None \<Rightarrow> fail_protocol e ''terminal queue replay start cursor is invalid'' s
            | Some c \<Rightarrow> q_emit [Dispatch (qe_handle e) (EvControl p)]
                          (put_entry (stream_key i) (e\<lparr>qe_cursor := Some c\<rparr>) s))
         else if replay_complete p
                 \<and> (json_cursor (json_get p ''history_cursor'') = None \<or> qe_cursor e = None
                    \<or> json_cursor (json_get p ''history_cursor'') \<noteq> qe_cursor e)
         then fail_protocol e ''terminal queue replay completion cursor is not continuous'' s
         else q_emit [Dispatch (qe_handle e) (EvControl p)] s))"

definition sequence_valid :: "q_entry \<Rightarrow> bool \<Rightarrow> nat option \<Rightarrow> bool" where
  "sequence_valid e provided sequence = (case qe_mode e of
     None \<Rightarrow> \<not> provided \<or> sequence \<noteq> None
   | Some _ \<Rightarrow> sequence = Some (Suc (case qe_sequence e of None \<Rightarrow> 0 | Some q \<Rightarrow> q)))"

definition frame_continues :: "q_entry \<Rightarrow> json \<Rightarrow> 8 word list \<Rightarrow> (nat \<times> nat) option" where
  "frame_continues e header payload =
     (case (json_cursor (json_get header ''start_cursor''), json_cursor (json_get header ''end_cursor'')) of
        (Some start, Some stop) \<Rightarrow>
          if stop < start \<or> int (length payload) \<noteq> int stop - int start
             \<or> qe_cursor e = None \<or> qe_cursor e \<noteq> Some start
             \<or> \<not> sequence_valid e (json_has header ''sequence'') (parse_sequence (json_get header ''sequence''))
             \<or> \<not> payload_checksum_matches payload (json_get header ''checksum'')
          then None else Some (start, stop)
      | _ \<Rightarrow> None)"

definition accept_frame :: "q_entry \<Rightarrow> json \<Rightarrow> nat \<Rightarrow> q_entry" where
  "accept_frame e header stop =
     (let sequence = parse_sequence (json_get header ''sequence'') in
      e\<lparr>qe_mode := (if qe_mode e = None then Some (json_has header ''sequence'') else qe_mode e),
        qe_sequence := (if sequence \<noteq> None then sequence else qe_sequence e),
        qe_cursor := Some stop\<rparr>)"

definition history_generation :: "(string, json) jsmap \<Rightarrow> string" where
  "history_generation sub = json_trimmed (case mget sub ''history_generation'' of None \<Rightarrow> JPrim Undef | Some j \<Rightarrow> j)"

definition route_binary :: "(8 word list \<Rightarrow> json option) \<Rightarrow> 8 word list \<Rightarrow> q_state \<Rightarrow> q_state" where
  "route_binary parse data s = (case decode_queue_frame parse data of
     Inl _ \<Rightarrow> q_emit [ProtocolError ''terminal queue binary frame'' None] s
   | Inr (header, payload) \<Rightarrow> (case normalize_queue_identity header of
       None \<Rightarrow> q_emit [ProtocolError ''invalid terminal queue logical stream identity'' None] s
     | Some i \<Rightarrow> (case mget (qc_streams s) (stream_key i) of None \<Rightarrow> s | Some e \<Rightarrow>
         if qe_ready e \<noteq> QOpen then s
         else let fh = json_trimmed (json_get header ''history_generation'');
                  eh = history_generation (qe_subscription e) in
           if fh \<noteq> [] \<and> eh \<noteq> [] \<and> fh \<noteq> eh
           then fail_protocol e ''terminal queue binary history generation does not match'' s
           else (case frame_continues e header payload of
               None \<Rightarrow> fail_protocol e ''terminal queue binary frame identity or cursor validation failed'' s
             | Some (start, stop) \<Rightarrow>
                 q_emit [Dispatch (qe_handle e)
                           (EvData payload i start stop (parse_sequence (json_get header ''sequence'')) fh)]
                   (put_entry (stream_key i) (accept_frame e header stop) s)))))"

subsection \<open>The physical socket\<close>

definition ensure_physical :: "q_ready \<Rightarrow> int \<Rightarrow> q_state \<Rightarrow> q_state" where
  "ensure_physical rs now s =
     (if qc_disposed s \<or> (qc_socket s \<noteq> None \<and> rs \<in> {QOpen, QConnecting}) then s
      else let n = Suc (qc_nextID s) in
        q_emit [PhysicalEvent ''physical_websocket_create_start'', CreateSocket n, StateChange]
          (s\<lparr>qc_ready := QConnecting, qc_serverReady := False, qc_nextID := n, qc_createdAt := now, qc_latency := 0,
             qc_agentVersion := [], qc_preferredVersion := [], qc_updateAvailable := False,
             qc_updateRequired := False, qc_socket := Some n\<rparr>))"

definition open_entry :: "q_state \<Rightarrow> string \<Rightarrow> q_state" where
  "open_entry s k = (case mget (qc_streams s) k of None \<Rightarrow> s | Some e \<Rightarrow>
     if qe_ready e = QConnecting
     then q_emit [Dispatch (qe_handle e) EvOpened] (put_entry k (e\<lparr>qe_ready := QOpen\<rparr>) s) else s)"

definition on_open :: "q_ready \<Rightarrow> int \<Rightarrow> nat \<Rightarrow> q_state \<Rightarrow> q_state" where
  "on_open rs now n s =
     (if qc_socket s \<noteq> Some n \<or> qc_disposed s then s
      else let s1 = q_emit [PhysicalEvent ''physical_websocket_open'']
                 (s\<lparr>qc_ready := QOpen, qc_errorDispatched := False, qc_latency := max 0 (now - qc_createdAt s)\<rparr>);
               s2 = (if qc_streams s1 \<noteq> [] then snd (send_subscriptions rs s1) else s1\<lparr>qc_pending := False\<rparr>)
           in q_emit [StateChange] (foldl open_entry s2 (mkeys (qc_streams s2))))"

definition to_all :: "q_event \<Rightarrow> q_state \<Rightarrow> q_state" where
  "to_all ev s = q_emit (map (\<lambda>e. Dispatch (qe_handle e) ev) (mvals (qc_streams s))) s"

definition has_type :: "json \<Rightarrow> string \<Rightarrow> bool" where
  "has_type m t = (json_get m ''type'' = JPrim (Str t))"

definition error_detail :: "json \<Rightarrow> string" where
  "error_detail m = json_string (json_or (json_get (json_get m ''payload'') ''message'')
     (json_or (json_get m ''message'') (JPrim (Str ''terminal queue connection failed''))))"

definition on_text :: "int \<Rightarrow> json option \<Rightarrow> q_state \<Rightarrow> q_state" where
  "on_text now jm s = (case jm of None \<Rightarrow> q_emit [ProtocolError ''terminal queue control frame is invalid'' None] s
   | Some m \<Rightarrow>
       if m = JPrim Null then q_emit [Uncaught] s
       else if has_type m ''pane-control'' then route_pane_control m s
       else if has_type m ''server-log'' then to_all (EvServerLog m) s
       else if has_type m ''queue-pong'' then s\<lparr>qc_lastPong := now\<rparr>
       else if has_type m ''queue-state'' \<and> json_get m ''state'' = JPrim (Str ''agent-preparing'')
       then to_all (EvPreparing (json_number (json_or (json_get m ''server_unix_ms'') (JPrim (Num (Fin 0))))))
              (q_emit [PhysicalEvent ''physical_server_agent_prepare_start''] s)
       else if has_type m ''queue-ready''
       then q_emit [StateChange, PhysicalEvent ''physical_server_ready'']
              (s\<lparr>qc_agentVersion := json_trimmed (json_get m ''agent_protocol_version''),
                 qc_preferredVersion := json_trimmed (json_get m ''preferred_agent_protocol_version''),
                 qc_updateAvailable := (json_get m ''agent_protocol_update_available'' = JPrim (JBool True)),
                 qc_updateRequired := (json_get m ''agent_protocol_update_required'' = JPrim (JBool True)),
                 qc_serverReady := True\<rparr>)
       else if has_type m ''queue-error''
       then dispatch_physical_error (error_detail m)
              (if \<not> json_truthy (json_get m ''payload'')
                  \<or> json_get (json_get m ''payload'') ''retryable'' \<noteq> JPrim (JBool True)
               then q_emit [ProtocolError (error_detail m) None] s else s)
       else s)"

datatype q_frame = TextFrame "json option" | BinaryFrame "8 word list"

definition on_message ::
  "(8 word list \<Rightarrow> json option) \<Rightarrow> int \<Rightarrow> nat \<Rightarrow> q_frame \<Rightarrow> q_state \<Rightarrow> q_state" where
  "on_message parse now n f s =
     (if qc_socket s \<noteq> Some n \<or> qc_disposed s then s
      else case f of TextFrame jm \<Rightarrow> on_text now jm s | BinaryFrame data \<Rightarrow> route_binary parse data s)"

definition on_error :: "nat \<Rightarrow> q_state \<Rightarrow> q_state" where
  "on_error n s = (if qc_socket s \<noteq> Some n \<or> qc_disposed s then s
     else dispatch_physical_error ''terminal queue websocket error'' s)"

definition on_close :: "nat \<Rightarrow> jsval \<Rightarrow> jsval \<Rightarrow> jsval \<Rightarrow> q_state \<Rightarrow> q_state" where
  "on_close n code reason wasClean s =
     (if qc_socket s \<noteq> Some n then s
      else let c = js_number (js_or code (Num (Fin 1006)));
               r = js_string (js_or reason (Str ''terminal queue connection closed''));
               cl = (wasClean = JBool True);
               s1 = s\<lparr>qc_socket := None, qc_ready := QClosed, qc_serverReady := False, qc_disposed := True\<rparr>
           in resolve_final_close (q_emit [StateChange]
                (close_all_logical c r cl (q_emit [PhysicalClose c r cl] s1))))"

subsection \<open>The methods\<close>

datatype q_result = QThrow string | QReturn bool | QHandle nat

definition subscription_of :: "(string, json) jsmap \<Rightarrow> q_identity \<Rightarrow> (string, json) jsmap" where
  "subscription_of d i = mput ''channel_generation'' (JPrim (Num (Fin (of_int (qi_generation i)))))
     (mput ''stream_id'' (JPrim (Str (qi_stream i))) (mput ''pane_id'' (JPrim (Str (qi_pane i))) d))"

definition new_entry :: "nat \<Rightarrow> (string, json) jsmap \<Rightarrow> q_identity \<Rightarrow> q_ready \<Rightarrow> q_entry" where
  "new_entry h d i physical = \<lparr>qe_handle = h, qe_identity = i, qe_subscription = subscription_of d i,
     qe_ready = (if physical = QOpen then QOpen else QConnecting), qe_cursor = None, qe_sequence = None,
     qe_mode = None, qe_sent = None\<rparr>"

definition queue_open :: "q_ready \<Rightarrow> int \<Rightarrow> (string, json) jsmap \<Rightarrow> q_state \<Rightarrow> q_result \<times> q_state" where
  "queue_open rs now d s =
     (if qc_disposed s then (QThrow ''terminal queue connection is closed'', s)
      else case normalize_queue_identity (JObj d) of
        None \<Rightarrow> (QThrow ''invalid terminal queue logical stream identity'', s)
      | Some i \<Rightarrow>
          if mhas (qc_streams s) (stream_key i) then (QThrow ''terminal queue logical stream already exists'', s)
          else if list_ex (\<lambda>e. qi_pane (qe_identity e) = qi_pane i) (mvals (qc_streams s))
          then (QThrow ''terminal queue pane already has a logical stream'', s)
          else let e = new_entry (qc_nextHandle s) d i (qc_ready s);
                   s1 = ensure_physical rs now (put_entry (stream_key i) e (s\<lparr>qc_nextHandle := Suc (qc_nextHandle s)\<rparr>));
                   s2 = (if qe_ready e = QOpen then schedule_update s1 else s1)
               in (QHandle (qe_handle e), q_emit [StateChange] s2))"

text \<open>The microtask that tells a stream opened on an open socket.\<close>

definition find_handle :: "nat \<Rightarrow> q_state \<Rightarrow> (string \<times> q_entry) option" where
  "find_handle h s = find (\<lambda>(k, e). qe_handle e = h) (qc_streams s)"

definition flush_open :: "nat \<Rightarrow> q_state \<Rightarrow> q_state" where
  "flush_open h s = (case find_handle h s of None \<Rightarrow> s | Some (k, e) \<Rightarrow>
     if qe_ready e = QOpen then q_emit [Dispatch h EvOpened] s else s)"

text \<open>The logical socket; a removed stream is closed. The control argument is parsed, \<open>None\<close> where that fails.\<close>

definition logical_send :: "q_ready \<Rightarrow> nat \<Rightarrow> json option \<Rightarrow> q_state \<Rightarrow> q_result \<times> q_state" where
  "logical_send rs h control s = (case find_handle h s of
     None \<Rightarrow> (QThrow ''terminal queue logical socket is not open'', s)
   | Some (k, e) \<Rightarrow>
       if qe_ready e \<noteq> QOpen then (QThrow ''terminal queue logical socket is not open'', s)
       else (case control of None \<Rightarrow> (QThrow ''terminal queue logical socket requires JSON control messages'', s)
         | Some c \<Rightarrow>
           if \<not> is_object c then (QThrow ''terminal queue logical socket control payload is invalid'', s)
           else (let (ok, s1) = send_physical rs (SendControl (qe_identity e) c) s in
             (if ok then QReturn True else QThrow ''terminal queue physical socket is not open'', s1))))"

definition delete_stream :: "string \<Rightarrow> q_state \<Rightarrow> q_state" where
  "delete_stream k s = s\<lparr>qc_streams := mdel k (qc_streams s)\<rparr>"

text \<open>Closing the last stream closes the socket, or settles the close when it is closed already.\<close>

definition shut_physical :: "q_ready \<Rightarrow> jnum \<Rightarrow> string \<Rightarrow> q_ready \<Rightarrow> q_state \<Rightarrow> q_state" where
  "shut_physical rs code reason ready s =
     (if qc_socket s \<noteq> None \<and> rs \<in> {QConnecting, QOpen} then q_emit [CloseSocket code reason] (s\<lparr>qc_ready := ready\<rparr>)
      else if qc_socket s = None \<or> rs = QClosed
      then resolve_final_close (s\<lparr>qc_socket := None, qc_ready := QClosed\<rparr>) else s)"

definition logical_close :: "q_ready \<Rightarrow> nat \<Rightarrow> jnum \<Rightarrow> string \<Rightarrow> q_state \<Rightarrow> q_state" where
  "logical_close rs h code reason s = (case find_handle h s of None \<Rightarrow> s | Some (k, e) \<Rightarrow>
     if qe_ready e \<in> {QClosed, QClosing} then s
     else let s1 = q_emit [Dispatch h (EvClosed code reason True)] (delete_stream k s);
              s2 = (if qc_streams s1 = [] \<and> \<not> qc_keepAlive s1
                    then shut_physical rs (Fin 1000) ''terminal queue has no subscriptions'' QClosing
                           (s1\<lparr>qc_disposed := True\<rparr>)
                    else s1);
              s3 = (if \<not> qc_disposed s2 then schedule_update s2 else s2)
          in q_emit [StateChange] s3)"

definition set_priority_of :: "q_ready \<Rightarrow> (string \<times> q_entry) option \<Rightarrow> json \<Rightarrow> q_state \<Rightarrow> q_result \<times> q_state" where
  "set_priority_of rs found priority s = (case found of None \<Rightarrow> (QReturn False, s) | Some (k, e) \<Rightarrow>
     let p = queue_priority priority;
         e1 = e\<lparr>qe_subscription := mput ''priority'' (JPrim (Num (Fin (of_nat p)))) (qe_subscription e)\<rparr>;
         s1 = put_entry k e1 s
     in if qe_sent e1 = Some p then (QReturn True, s1)
        else if qe_sent e1 = None \<or> qc_pending s1 then (QReturn True, schedule_update s1)
        else (let (ok, s2) = send_physical rs (SendPriority (qe_identity e1) p) s1 in
          (QReturn ok, if ok then put_entry k (e1\<lparr>qe_sent := Some p\<rparr>) s2 else s2)))"

text \<open>\<open>setPriority\<close> names a pane, or a stream by its identity.\<close>

definition set_priority_pane :: "q_ready \<Rightarrow> string \<Rightarrow> json \<Rightarrow> q_state \<Rightarrow> q_result \<times> q_state" where
  "set_priority_pane rs pane priority s =
     set_priority_of rs (find (\<lambda>(k, e). qi_pane (qe_identity e) = pane) (qc_streams s)) priority s"

definition set_priority_stream :: "q_ready \<Rightarrow> q_identity \<Rightarrow> json \<Rightarrow> q_state \<Rightarrow> q_result \<times> q_state" where
  "set_priority_stream rs i priority s =
     set_priority_of rs (map_option (Pair (stream_key i)) (mget (qc_streams s) (stream_key i))) priority s"

definition queue_ping :: "q_ready \<Rightarrow> q_state \<Rightarrow> q_result \<times> q_state" where
  "queue_ping rs s = (let (ok, s1) = send_physical rs SendPing s in (QReturn ok, s1))"

definition queue_close :: "q_ready \<Rightarrow> jnum \<Rightarrow> string \<Rightarrow> q_state \<Rightarrow> q_state" where
  "queue_close rs code reason s =
     (if qc_disposed s then s
      else let ready = (if qc_socket s \<noteq> None \<and> rs \<noteq> QClosed then QClosing else QClosed)
           in shut_physical rs code reason ready (close_all_logical code reason True
                (s\<lparr>qc_disposed := True, qc_serverReady := False, qc_ready := ready\<rparr>)))"

definition queue_connect :: "q_ready \<Rightarrow> int \<Rightarrow> q_state \<Rightarrow> q_result \<times> q_state" where
  "queue_connect rs now s =
     (if qc_disposed s then (QThrow ''terminal queue connection is closed'', s)
      else (QReturn True, q_emit [StateChange] (ensure_physical rs now s)))"

definition has_pane :: "json \<Rightarrow> q_state \<Rightarrow> bool" where
  "has_pane pane s = list_ex (\<lambda>e. qi_pane (qe_identity e) = json_trimmed pane) (mvals (qc_streams s))"

datatype q_op =
    QoOpen "(string, json) jsmap"
  | QoConnect
  | QoSend nat "json option"
  | QoLogicalClose nat jnum string
  | QoPriorityPane string json
  | QoPriorityStream q_identity json
  | QoPing
  | QoClose jnum string
  | QoFlush
  | QoFlushOpen nat
  | QoSocketOpen nat
  | QoSocketMessage nat q_frame
  | QoSocketError nat
  | QoSocketClose nat jsval jsval jsval

fun q_exec :: "(8 word list \<Rightarrow> json option) \<Rightarrow> q_state \<Rightarrow> q_ready \<times> int \<times> q_op \<Rightarrow> q_result \<times> q_state" where
  "q_exec parse s (rs, now, QoOpen d) = queue_open rs now d s"
| "q_exec parse s (rs, now, QoConnect) = queue_connect rs now s"
| "q_exec parse s (rs, now, QoSend h c) = logical_send rs h c s"
| "q_exec parse s (rs, now, QoLogicalClose h c r) = (QReturn True, logical_close rs h c r s)"
| "q_exec parse s (rs, now, QoPriorityPane p j) = set_priority_pane rs p j s"
| "q_exec parse s (rs, now, QoPriorityStream i j) = set_priority_stream rs i j s"
| "q_exec parse s (rs, now, QoPing) = queue_ping rs s"
| "q_exec parse s (rs, now, QoClose c r) = (QReturn True, queue_close rs c r s)"
| "q_exec parse s (rs, now, QoFlush) = (QReturn True, flush_subscriptions rs s)"
| "q_exec parse s (rs, now, QoFlushOpen h) = (QReturn True, flush_open h s)"
| "q_exec parse s (rs, now, QoSocketOpen n) = (QReturn True, on_open rs now n s)"
| "q_exec parse s (rs, now, QoSocketMessage n f) = (QReturn True, on_message parse now n f s)"
| "q_exec parse s (rs, now, QoSocketError n) = (QReturn True, on_error n s)"
| "q_exec parse s (rs, now, QoSocketClose n c r w) = (QReturn True, on_close n c r w s)"

definition q_step :: "(8 word list \<Rightarrow> json option) \<Rightarrow> q_state \<Rightarrow> q_ready \<times> int \<times> q_op \<Rightarrow> q_state" where
  "q_step parse s e = snd (q_exec parse s e)"

end
