(* ===== verification/Queue_Streams.thy ===== *)
theory Queue_Streams
  imports Queue_Connection
begin

section \<open>What the readers of the logical streams see\<close>

text \<open>
  Properties of \<open>terminal_queue_connection.js\<close> as modelled in \<open>Queue_Connection\<close>: the bytes dispatched to a
  logical stream are gapless and its sequence numbers consecutive, a frame touches no sibling
  stream, every pane has at most one stream, and a disposed connection delivers nothing and
  resolves once.
\<close>

subsection \<open>The reader of one stream\<close>

text \<open>
  The cursor and the last sequence number a reader derives from the dispatched events alone, and whether every
  event continued the ones before it.
\<close>

type_synonym reader_state = "nat option \<times> nat option \<times> bool"

definition reader_step :: "nat \<Rightarrow> reader_state \<Rightarrow> q_output \<Rightarrow> reader_state" where
  "reader_step h st x = (case st of (cur, sq, ok) \<Rightarrow> (case x of
     Dispatch h' ev \<Rightarrow>
       if h' \<noteq> h then st
       else (case ev of
           EvControl p \<Rightarrow>
             if replay_start p then (json_cursor (json_get p ''delta_from_cursor''), sq, ok)
             else if replay_complete p
             then (cur, sq, ok \<and> cur \<noteq> None \<and> json_cursor (json_get p ''history_cursor'') = cur)
             else st
         | EvData payload i start stop sequence hist \<Rightarrow>
             (Some stop, (if sequence \<noteq> None then sequence else sq),
              ok \<and> cur = Some start \<and> stop = start + length payload
              \<and> (case sq of None \<Rightarrow> True | Some q \<Rightarrow> sequence = Some (Suc q)))
         | _ \<Rightarrow> st)
   | _ \<Rightarrow> st))"

definition reader :: "nat \<Rightarrow> q_output list \<Rightarrow> reader_state" where
  "reader h lg = foldl (reader_step h) (None, None, True) lg"

definition reader_ok :: "reader_state \<Rightarrow> bool" where
  "reader_ok st = snd (snd st)"

lemma reader_append: "reader h (lg @ os) = foldl (reader_step h) (reader h lg) os"
  by (simp add: reader_def)

definition neutral :: "q_output \<Rightarrow> bool" where
  "neutral x = (case x of Dispatch h ev \<Rightarrow> (case ev of EvControl _ \<Rightarrow> False | EvData _ _ _ _ _ _ \<Rightarrow> False | _ \<Rightarrow> True) | _ \<Rightarrow> True)"

lemma reader_step_neutral: "neutral x \<Longrightarrow> reader_step h st x = st"
  by (cases st) (auto simp: neutral_def reader_step_def split: q_output.splits q_event.splits)

lemma reader_neutral: "list_all neutral os \<Longrightarrow> foldl (reader_step h) st os = st"
  by (induction os) (simp_all add: reader_step_neutral)

subsection \<open>Steps the readers do not notice\<close>

definition same_stream :: "q_entry \<Rightarrow> q_entry \<Rightarrow> bool" where
  "same_stream e e' = (qe_handle e' = qe_handle e \<and> qe_identity e' = qe_identity e \<and> qe_cursor e' = qe_cursor e
     \<and> qe_sequence e' = qe_sequence e \<and> qe_mode e' = qe_mode e
     \<and> (qe_ready e' = qe_ready e \<or> qe_ready e' \<in> {QConnecting, QOpen}))"

definition quiet :: "q_state \<Rightarrow> q_state \<Rightarrow> bool" where
  "quiet s s' = (mwf (qc_streams s) \<longrightarrow>
     mwf (qc_streams s') \<and> qc_nextHandle s' = qc_nextHandle s
     \<and> (\<exists>os. qc_log s' = qc_log s @ os \<and> list_all neutral os)
     \<and> (\<forall>k e'. mget (qc_streams s') k = Some e' \<longrightarrow> (\<exists>e. mget (qc_streams s) k = Some e \<and> same_stream e e')))"

lemma same_stream_refl [simp]: "same_stream e e"
  by (simp add: same_stream_def)

lemma quiet_frame:
  assumes "qc_streams s' = qc_streams s" "qc_nextHandle s' = qc_nextHandle s" "qc_log s' = qc_log s"
  shows "quiet s s'"
  using assms by (simp add: quiet_def)

lemma quiet_refl [simp]: "quiet s s"
  by (rule quiet_frame) simp_all

lemma quiet_trans:
  assumes "quiet s t" "quiet t u" shows "quiet s u"
proof (cases "mwf (qc_streams s)")
  case True
  from assms(1) True have t: "mwf (qc_streams t)" "qc_nextHandle t = qc_nextHandle s"
      "\<exists>os. qc_log t = qc_log s @ os \<and> list_all neutral os"
      "\<And>k e'. mget (qc_streams t) k = Some e' \<Longrightarrow> \<exists>e. mget (qc_streams s) k = Some e \<and> same_stream e e'"
    by (auto simp: quiet_def)
  from assms(2) t(1) have u: "mwf (qc_streams u)" "qc_nextHandle u = qc_nextHandle t"
      "\<exists>os. qc_log u = qc_log t @ os \<and> list_all neutral os"
      "\<And>k e'. mget (qc_streams u) k = Some e' \<Longrightarrow> \<exists>e. mget (qc_streams t) k = Some e \<and> same_stream e e'"
    by (auto simp: quiet_def)
  have "\<exists>os. qc_log u = qc_log s @ os \<and> list_all neutral os" using t(3) u(3) by auto
  moreover have "\<exists>e. mget (qc_streams s) k = Some e \<and> same_stream e e'" if "mget (qc_streams u) k = Some e'" for k e'
  proof -
    from u(4) [OF that] obtain e1 where "mget (qc_streams t) k = Some e1" "same_stream e1 e'" by blast
    with t(4) [of k e1] show ?thesis by (auto simp: same_stream_def)
  qed
  ultimately show ?thesis using t u by (simp add: quiet_def)
qed (simp add: quiet_def)

lemma quiet_emitI: "quiet s t \<Longrightarrow> list_all neutral os \<Longrightarrow> quiet s (q_emit os t)"
  by (erule quiet_trans) (auto simp: quiet_def q_emit_def intro: same_stream_refl)

lemma quiet_putI:
  "quiet s t \<Longrightarrow> mget (qc_streams t) k = Some e \<Longrightarrow> same_stream e e' \<Longrightarrow> quiet s (put_entry k e' t)"
  by (erule quiet_trans) (auto simp: quiet_def put_entry_def om.wf_put om.get_put)

lemma quiet_fieldsI:
  assumes "quiet s t" "qc_streams t' = qc_streams t" "qc_nextHandle t' = qc_nextHandle t" "qc_log t' = qc_log t"
  shows "quiet s t'"
  using quiet_trans [OF assms(1) quiet_frame [OF assms(2-4)]] .

lemma quiet_dropI:
  assumes "quiet s t" "qc_nextHandle t' = qc_nextHandle t" "qc_log t' = qc_log t"
    "mwf (qc_streams t) \<Longrightarrow> mwf (qc_streams t')" "\<And>k e. mget (qc_streams t') k = Some e \<Longrightarrow> mget (qc_streams t) k = Some e"
  shows "quiet s t'"
proof (rule quiet_trans [OF assms(1)])
  show "quiet t t'" using assms(2-5) by (auto simp: quiet_def)
qed

lemma q_emit_simps [simp]:
  "qc_streams (q_emit os s) = qc_streams s" "qc_nextHandle (q_emit os s) = qc_nextHandle s"
  "qc_socket (q_emit os s) = qc_socket s" "qc_disposed (q_emit os s) = qc_disposed s"
  "qc_ready (q_emit os s) = qc_ready s" "qc_log (q_emit os s) = qc_log s @ os" "qc_pending (q_emit os s) = qc_pending s"
  "qc_resolved (q_emit os s) = qc_resolved s" "qc_keepAlive (q_emit os s) = qc_keepAlive s"
  by (simp_all add: q_emit_def)

lemma put_entry_simps [simp]:
  "qc_streams (put_entry k e s) = mput k e (qc_streams s)" "qc_nextHandle (put_entry k e s) = qc_nextHandle s"
  "qc_socket (put_entry k e s) = qc_socket s" "qc_disposed (put_entry k e s) = qc_disposed s"
  "qc_ready (put_entry k e s) = qc_ready s" "qc_log (put_entry k e s) = qc_log s"
  "qc_resolved (put_entry k e s) = qc_resolved s" "qc_keepAlive (put_entry k e s) = qc_keepAlive s"
  by (simp_all add: put_entry_def)

lemma quiet_send: "neutral x \<Longrightarrow> quiet s (snd (send_physical rs x s))"
  by (auto simp: send_physical_def intro: quiet_emitI)

lemma send_streams [simp]: "qc_streams (snd (send_physical rs x s)) = qc_streams s"
  by (simp add: send_physical_def)

lemma quiet_sync: "quiet s (sync_priority rs s k)"
proof (cases "mget (qc_streams s) k")
  case (Some e)
  have n: "neutral (SendPriority i p)" for i p by (simp add: neutral_def)
  have m: "mget (qc_streams (snd (send_physical rs x s))) k = Some e" for x by (simp add: Some)
  have p: "quiet s (put_entry k (e\<lparr>qe_sent := Some q\<rparr>) (snd (send_physical rs (SendPriority i p) s)))" for q i p
    by (rule quiet_putI [OF quiet_send [OF n] m]) (simp add: same_stream_def)
  have "quiet s (put_entry k (e\<lparr>qe_sent := Some q\<rparr>) s)" for q
    by (rule quiet_putI [OF quiet_refl Some]) (simp add: same_stream_def)
  with p quiet_send [OF n] Some show ?thesis
    by (auto simp: sync_priority_def Let_def split: prod.splits) (metis snd_conv)+
qed (simp add: sync_priority_def)

lemma quiet_foldl: "(\<And>s k. quiet s (f s k)) \<Longrightarrow> quiet s (foldl f s ks)"
proof (induction ks arbitrary: s)
  case (Cons k ks)
  then show ?case using quiet_trans by fastforce
qed simp

lemma quiet_subscriptions: "quiet s (snd (send_subscriptions rs s))"
proof -
  let ?s = "s\<lparr>qc_pending := False\<rparr>" and ?x = "SendSubscriptions (map qe_subscription (mvals (qc_streams s)))"
  have n: "neutral ?x" by (simp add: neutral_def)
  obtain ok s1 where r: "send_physical rs ?x ?s = (ok, s1)" by (cases "send_physical rs ?x ?s")
  have q0: "quiet s ?s" by (rule quiet_frame) simp_all
  have q1: "quiet s s1" using quiet_trans [OF q0 quiet_send [OF n, of ?s rs]] r by simp
  have q2: "quiet s (s1\<lparr>qc_pending := True\<rparr>)" by (rule quiet_fieldsI [OF q1]) simp_all
  have q3: "quiet s (s1\<lparr>qc_revision := Suc (qc_revision s1)\<rparr>)" by (rule quiet_fieldsI [OF q1]) simp_all
  have q4: "quiet s (q_emit [PhysicalEvent t] (s1\<lparr>qc_revision := Suc (qc_revision s1)\<rparr>))" for t
    by (rule quiet_emitI [OF q3]) (simp add: neutral_def)
  have q5: "quiet s (foldl (sync_priority rs) (q_emit [PhysicalEvent t] (s1\<lparr>qc_revision := Suc (qc_revision s1)\<rparr>)) ks)" for t ks
    by (rule quiet_trans [OF q4 quiet_foldl [OF quiet_sync]])
  show ?thesis using r q2 q5 by (simp add: send_subscriptions_def Let_def)
qed

lemma neutral_events [simp]:
  "neutral (Dispatch h EvOpened)" "neutral (Dispatch h (EvClosed c r b))" "neutral (Dispatch h (EvError m))"
  "neutral (Dispatch h (EvServerLog j))" "neutral (Dispatch h (EvPreparing x))" "neutral (Dispatch h (EvProblem m))"
  "neutral (ProtocolError m oi)" "neutral (PhysicalError m)" "neutral (PhysicalClose c r b)" "neutral (PhysicalEvent m)"
  "neutral (CreateSocket n)" "neutral (CloseSocket c r)" "neutral Resolved" "neutral StateChange" "neutral Uncaught"
  "neutral SendPing" "neutral (SendControl i j)" "neutral (SendPriority i q)" "neutral (SendSubscriptions subs)"
  by (simp_all add: neutral_def)

lemma quiet_resolve: "quiet s (resolve_final_close s)"
  by (auto simp: resolve_final_close_def intro!: quiet_emitI quiet_frame)

lemma quiet_resolveI: "quiet s t \<Longrightarrow> quiet s (resolve_final_close t)"
  using quiet_resolve quiet_trans by blast

lemma quiet_open_entry: "quiet s (open_entry s k)"
  by (auto simp: open_entry_def same_stream_def intro!: quiet_emitI quiet_putI split: option.split)

lemma quiet_fail: "quiet s (fail_protocol e m s)"
  by (simp add: fail_protocol_def quiet_emitI)

lemma quiet_physical_error: "quiet s (dispatch_physical_error m s)"
  by (auto simp: dispatch_physical_error_def intro!: quiet_emitI quiet_frame split: list.split prod.split)

lemma quiet_physical_errorI: "quiet s t \<Longrightarrow> quiet s (dispatch_physical_error m t)"
  using quiet_physical_error quiet_trans by blast

lemma quiet_close_all: "quiet s (close_all_logical c r b s)"
proof -
  have "list_all neutral (concat (map (close_event c r b) es) @ [StateChange])" for es
    by (induction es) (auto simp: close_event_def)
  then show ?thesis
    unfolding close_all_logical_def by (intro quiet_emitI quiet_dropI [OF quiet_refl]) auto
qed

lemma quiet_close_allI: "quiet s t \<Longrightarrow> quiet s (close_all_logical c r b t)"
  using quiet_close_all quiet_trans by blast

lemma quiet_to_all: "neutral (Dispatch 0 ev) \<Longrightarrow> quiet s (to_all ev s)"
proof -
  assume "neutral (Dispatch 0 ev)"
  then have "neutral (Dispatch h ev)" for h by (simp add: neutral_def)
  then show ?thesis by (auto simp: to_all_def list_all_iff intro!: quiet_emitI)
qed

lemma quiet_ensure: "quiet s (ensure_physical rs now s)"
  unfolding ensure_physical_def Let_def by (auto intro!: quiet_emitI quiet_frame)

lemma quiet_ensureI: "quiet s t \<Longrightarrow> quiet s (ensure_physical rs now t)"
  using quiet_ensure quiet_trans by blast

lemma quiet_subscriptionsI: "quiet s t \<Longrightarrow> quiet s (snd (send_subscriptions rs t))"
  using quiet_subscriptions quiet_trans by blast

lemma quiet_flush: "quiet s (flush_subscriptions rs s)"
  by (simp add: flush_subscriptions_def quiet_subscriptions)

lemma quiet_on_open: "quiet s (on_open rs now n s)"
proof (cases "qc_socket s \<noteq> Some n \<or> qc_disposed s")
  case False
  define s1 where "s1 = q_emit [PhysicalEvent ''physical_websocket_open'']
    (s\<lparr>qc_ready := QOpen, qc_errorDispatched := False, qc_latency := max 0 (now - qc_createdAt s)\<rparr>)"
  define s2 where "s2 = (if qc_streams s1 \<noteq> [] then snd (send_subscriptions rs s1) else s1\<lparr>qc_pending := False\<rparr>)"
  have q1: "quiet s s1" unfolding s1_def by (auto intro!: quiet_emitI quiet_frame)
  have "quiet s s2" unfolding s2_def
    using quiet_subscriptionsI [OF q1] quiet_fieldsI [OF q1, of "s1\<lparr>qc_pending := False\<rparr>"] by simp
  then have "quiet s (foldl open_entry s2 (mkeys (qc_streams s2)))"
    by (rule quiet_trans [OF _ quiet_foldl [OF quiet_open_entry]])
  then have "quiet s (q_emit [StateChange] (foldl open_entry s2 (mkeys (qc_streams s2))))"
    by (rule quiet_emitI) simp
  then show ?thesis using False by (simp add: on_open_def Let_def s1_def [symmetric] s2_def [symmetric])
qed (simp add: on_open_def)

lemma quiet_shutI: "quiet s t \<Longrightarrow> quiet s (shut_physical rs c r d t)"
  unfolding shut_physical_def
  by (auto intro!: quiet_resolveI quiet_emitI elim!: quiet_fieldsI)

lemma quiet_on_error: "quiet s (on_error n s)"
  by (simp add: on_error_def quiet_physical_error)

lemma quiet_on_close: "quiet s (on_close n c r w s)"
  unfolding on_close_def Let_def
  by (auto intro!: quiet_resolveI quiet_emitI quiet_close_allI quiet_frame)

lemma quiet_queue_close: "quiet s (queue_close rs c r s)"
  unfolding queue_close_def Let_def by (auto intro!: quiet_shutI quiet_close_allI quiet_frame)

lemma quiet_connect: "quiet s (snd (queue_connect rs now s))"
  by (auto simp: queue_connect_def intro!: quiet_emitI quiet_ensure)

lemma quiet_ping: "quiet s (snd (queue_ping rs s))"
  by (simp add: queue_ping_def quiet_send split: prod.split) (metis quiet_send neutral_events snd_conv)

lemma quiet_flush_open: "quiet s (flush_open h s)"
  by (auto simp: flush_open_def intro!: quiet_emitI split: option.split)

lemma quiet_logical_send: "quiet s (snd (logical_send rs h c s))"
  by (auto simp: logical_send_def send_physical_def intro!: quiet_emitI split: option.split)

lemma quiet_logical_close: "quiet s (logical_close rs h c r s)"
proof (cases "find_handle h s")
  case (Some x)
  obtain k e where x: "x = (k, e)" by (cases x)
  define s1 where "s1 = q_emit [Dispatch h (EvClosed c r True)] (delete_stream k s)"
  define s2 where "s2 = (if qc_streams s1 = [] \<and> \<not> qc_keepAlive s1
    then shut_physical rs (Fin 1000) ''terminal queue has no subscriptions'' QClosing (s1\<lparr>qc_disposed := True\<rparr>) else s1)"
  define s3 where "s3 = (if \<not> qc_disposed s2 then schedule_update s2 else s2)"
  have q1: "quiet s s1" unfolding s1_def
    by (intro quiet_emitI quiet_dropI [OF quiet_refl])
      (auto simp: delete_stream_def om.wf_del om.get_del split: if_splits)
  have "quiet s s2" unfolding s2_def
    using quiet_shutI [OF quiet_fieldsI [OF q1, of "s1\<lparr>qc_disposed := True\<rparr>"]] q1 by simp
  then have "quiet s s3" unfolding s3_def
    using quiet_fieldsI [of s s2 "schedule_update s2"] by (simp add: schedule_update_def)
  then have "quiet s (q_emit [StateChange] s3)" by (rule quiet_emitI) simp
  moreover have "logical_close rs h c r s = (if qe_ready e \<in> {QClosed, QClosing} then s else q_emit [StateChange] s3)"
    unfolding logical_close_def Some x option.case prod.case Let_def s1_def s2_def s3_def by (rule refl)
  ultimately show ?thesis by simp
qed (simp add: logical_close_def)

lemma find_stream: "mwf m \<Longrightarrow> find P m = Some (k, e) \<Longrightarrow> mget m k = Some e \<and> P (k, e)"
  by (auto simp: find_Some_iff mget_iff_mem)

lemma quiet_set_priority:
  assumes "\<And>k e. found = Some (k, e) \<Longrightarrow> mget (qc_streams s) k = Some e"
  shows "quiet s (snd (set_priority_of rs found j s))"
proof (cases found)
  case (Some x)
  obtain k e where x: "x = (k, e)" by (cases x)
  have m: "mget (qc_streams s) k = Some e" using assms Some x by blast
  define e1 where "e1 = e\<lparr>qe_subscription := mput ''priority'' (JPrim (Num (Fin (of_nat (queue_priority j))))) (qe_subscription e)\<rparr>"
  define s1 where "s1 = put_entry k e1 s"
  have q1: "quiet s s1" unfolding s1_def by (rule quiet_putI [OF quiet_refl m]) (simp add: same_stream_def e1_def)
  have q2: "quiet s (schedule_update s1)"
    by (rule quiet_fieldsI [OF q1]) (simp_all add: schedule_update_def)
  have q3: "quiet s (snd (send_physical rs (SendPriority i p) s1))" for i p
    by (rule quiet_trans [OF q1 quiet_send]) simp
  have "quiet s (put_entry k (e1\<lparr>qe_sent := Some p\<rparr>) (snd (send_physical rs (SendPriority i p) s1)))" for i p
    by (rule quiet_putI [OF q3, where e = e1]) (simp_all add: s1_def om.get_put same_stream_def)
  with q1 q2 q3 show ?thesis
    unfolding set_priority_of_def Some x option.case prod.case Let_def e1_def [symmetric] s1_def [symmetric]
    by (auto split: prod.splits) (metis snd_conv)+
qed (simp add: set_priority_of_def)

subsection \<open>The invariant of the connection\<close>

definition entry_inv :: "q_state \<Rightarrow> string \<Rightarrow> q_entry \<Rightarrow> bool" where
  "entry_inv s k e = (k = stream_key (qe_identity e) \<and> qe_handle e < qc_nextHandle s
     \<and> qe_ready e \<in> {QConnecting, QOpen} \<and> (qe_sequence e \<noteq> None \<longrightarrow> qe_mode e \<noteq> None)
     \<and> reader (qe_handle e) (qc_log s) = (qe_cursor e, qe_sequence e, True))"

definition q_inv :: "q_state \<Rightarrow> bool" where
  "q_inv s = (mwf (qc_streams s)
     \<and> (\<forall>k e. mget (qc_streams s) k = Some e \<longrightarrow> entry_inv s k e)
     \<and> (\<forall>k e k' e'. mget (qc_streams s) k = Some e \<and> mget (qc_streams s) k' = Some e'
          \<and> (qe_handle e = qe_handle e' \<or> qi_pane (qe_identity e) = qi_pane (qe_identity e')) \<longrightarrow> k = k')
     \<and> (\<forall>h. reader_ok (reader h (qc_log s)))
     \<and> (\<forall>h \<ge> qc_nextHandle s. reader h (qc_log s) = (None, None, True)))"

lemma q_invD:
  assumes "q_inv s"
  shows "mwf (qc_streams s)" "mget (qc_streams s) k = Some e \<Longrightarrow> entry_inv s k e"
    "mget (qc_streams s) k = Some e \<Longrightarrow> mget (qc_streams s) k' = Some e' \<Longrightarrow> qe_handle e = qe_handle e' \<Longrightarrow> k = k'"
    "mget (qc_streams s) k = Some e \<Longrightarrow> mget (qc_streams s) k' = Some e' \<Longrightarrow>
       qi_pane (qe_identity e) = qi_pane (qe_identity e') \<Longrightarrow> k = k'"
    "reader_ok (reader h (qc_log s))" "qc_nextHandle s \<le> h \<Longrightarrow> reader h (qc_log s) = (None, None, True)"
  using assms unfolding q_inv_def by blast+

lemma q_inv_start: "q_inv (queue_start keep n)"
  by (simp add: q_inv_def queue_start_def reader_def reader_ok_def)

lemma q_inv_quiet:
  assumes i: "q_inv s" and q: "quiet s s'"
  shows "q_inv s'"
proof -
  have w: "mwf (qc_streams s)" by (rule q_invD(1) [OF i])
  from q w obtain os where os: "qc_log s' = qc_log s @ os" "list_all neutral os" and w': "mwf (qc_streams s')"
      and n: "qc_nextHandle s' = qc_nextHandle s" by (auto simp: quiet_def)
  have old: "\<exists>e. mget (qc_streams s) k = Some e \<and> same_stream e e'" if "mget (qc_streams s') k = Some e'" for k e'
    using q w that by (auto simp: quiet_def)
  have r: "reader h (qc_log s') = reader h (qc_log s)" for h
    by (simp add: os(1) reader_append reader_neutral [OF os(2)])
  have "entry_inv s' k e'" if m: "mget (qc_streams s') k = Some e'" for k e'
  proof -
    obtain e where e: "mget (qc_streams s) k = Some e" "same_stream e e'" using old [OF m] by blast
    from q_invD(2) [OF i e(1)] e(2) show ?thesis by (auto simp: entry_inv_def r n same_stream_def)
  qed
  moreover have "k = k'"
    if m: "mget (qc_streams s') k = Some e" "mget (qc_streams s') k' = Some e'"
      and h: "qe_handle e = qe_handle e' \<or> qi_pane (qe_identity e) = qi_pane (qe_identity e')" for k e k' e'
  proof -
    obtain f f' where f: "mget (qc_streams s) k = Some f" "same_stream f e" "mget (qc_streams s) k' = Some f'" "same_stream f' e'"
      using old [OF m(1)] old [OF m(2)] by blast
    then have "qe_handle f = qe_handle f' \<or> qi_pane (qe_identity f) = qi_pane (qe_identity f')"
      using h by (auto simp: same_stream_def)
    with f q_invD(3,4) [OF i f(1) f(3)] show ?thesis by blast
  qed
  ultimately show ?thesis using w' q_invD(5,6) [OF i] unfolding q_inv_def r n by blast
qed

lemma q_inv_event:
  assumes i: "q_inv s" and m: "mget (qc_streams s) k = Some e"
    and e': "qe_handle e' = qe_handle e" "qe_identity e' = qe_identity e" "qe_ready e' = qe_ready e"
      "qe_sequence e' \<noteq> None \<longrightarrow> qe_mode e' \<noteq> None"
    and st: "reader_step (qe_handle e) (qe_cursor e, qe_sequence e, True) (Dispatch (qe_handle e) ev)
      = (qe_cursor e', qe_sequence e', True)"
  shows "q_inv (q_emit [Dispatch (qe_handle e) ev] (put_entry k e' s))"
proof -
  let ?s = "q_emit [Dispatch (qe_handle e) ev] (put_entry k e' s)"
  have ei: "entry_inv s k e" by (rule q_invD(2) [OF i m])
  have r: "reader h (qc_log ?s) = (if h = qe_handle e then (qe_cursor e', qe_sequence e', True) else reader h (qc_log s))" for h
    using ei st by (auto simp: reader_append entry_inv_def) (auto simp: reader_step_def split: prod.splits)
  have "entry_inv ?s j f" if "mget (qc_streams ?s) j = Some f" for j f
  proof (cases "j = k")
    case True
    with that have "f = e'" by (simp add: om.get_put)
    with True ei e' r [of "qe_handle e"] show ?thesis by (auto simp: entry_inv_def)
  next
    case False
    with that have mj: "mget (qc_streams s) j = Some f" by (simp add: om.get_put)
    have "qe_handle f \<noteq> qe_handle e" using q_invD(3) [OF i mj m] False by blast
    with q_invD(2) [OF i mj] r [of "qe_handle f"] show ?thesis by (auto simp: entry_inv_def)
  qed
  moreover have "j = j'"
    if "mget (qc_streams ?s) j = Some f" "mget (qc_streams ?s) j' = Some f'"
      and "qe_handle f = qe_handle f' \<or> qi_pane (qe_identity f) = qi_pane (qe_identity f')" for j f j' f'
  proof -
    have p: "\<exists>g. mget (qc_streams s) j = Some g \<and> qe_handle g = qe_handle f \<and> qe_identity g = qe_identity f"
      if "mget (qc_streams ?s) j = Some f" for j f using that m e' by (auto simp: om.get_put split: if_splits)
    show ?thesis using p [OF that(1)] p [OF that(2)] that(3) q_invD(3,4) [OF i] by metis
  qed
  moreover have "reader h (qc_log ?s) = (None, None, True)" if "qc_nextHandle ?s \<le> h" for h
    using that ei q_invD(6) [OF i, of h] r [of h] by (auto simp: entry_inv_def)
  moreover have "reader_ok (reader h (qc_log ?s))" for h
    using r [of h] q_invD(5) [OF i, of h] by (simp add: reader_ok_def)
  moreover have "mwf (qc_streams ?s)" by (simp add: om.wf_put q_invD(1) [OF i])
  ultimately show ?thesis unfolding q_inv_def by blast
qed

lemma new_entry_fields [simp]:
  "qe_handle (new_entry h d j rd) = h" "qe_identity (new_entry h d j rd) = j" "qe_cursor (new_entry h d j rd) = None"
  "qe_sequence (new_entry h d j rd) = None" "qe_ready (new_entry h d j rd) \<in> {QConnecting, QOpen}"
  by (simp_all add: new_entry_def)

lemma q_inv_new:
  assumes i: "q_inv s" and f: "\<not> mhas (qc_streams s) (stream_key j)"
    and p: "\<not> list_ex (\<lambda>e. qi_pane (qe_identity e) = qi_pane j) (mvals (qc_streams s))"
  shows "q_inv (put_entry (stream_key j) (new_entry (qc_nextHandle s) d j rd) (s\<lparr>qc_nextHandle := Suc (qc_nextHandle s)\<rparr>))"
    (is "q_inv ?s")
proof -
  let ?e = "new_entry (qc_nextHandle s) d j rd"
  have pane: "qi_pane (qe_identity e) \<noteq> qi_pane j" if "mget (qc_streams s) k = Some e" for k e
  proof -
    have "e \<in> set (mvals (qc_streams s))" using mget_mem [OF that] by (auto simp: mvals_def intro: rev_image_eqI)
    then show ?thesis using p by (auto simp: list_ex_iff)
  qed
  have old: "(k = stream_key j \<and> e = ?e) \<or> (k \<noteq> stream_key j \<and> mget (qc_streams s) k = Some e)"
    if "mget (qc_streams ?s) k = Some e" for k e
    using that by (simp add: om.get_put split: if_splits)
  have "entry_inv ?s k e" if "mget (qc_streams ?s) k = Some e" for k e
    using old [OF that]
  proof (elim disjE conjE)
    assume "k = stream_key j" "e = ?e"
    then show ?thesis using q_invD(6) [OF i, of "qc_nextHandle s"] new_entry_fields(5) by (simp add: entry_inv_def)
  next
    assume "mget (qc_streams s) k = Some e"
    from q_invD(2) [OF i this] show ?thesis by (auto simp: entry_inv_def)
  qed
  moreover have "k = k'"
    if "mget (qc_streams ?s) k = Some e" "mget (qc_streams ?s) k' = Some e'"
      and "qe_handle e = qe_handle e' \<or> qi_pane (qe_identity e) = qi_pane (qe_identity e')" for k e k' e'
  proof -
    have h: "qe_handle g < qc_nextHandle s" if "mget (qc_streams s) q = Some g" for q g
      using q_invD(2) [OF i that] by (simp add: entry_inv_def)
    from old [OF that(1)] show ?thesis
    proof (elim disjE conjE)
      assume k: "k = stream_key j" "e = ?e"
      from old [OF that(2)] show ?thesis
      proof (elim disjE conjE)
        assume "mget (qc_streams s) k' = Some e'"
        with h [OF this] pane [OF this] k that(3) show ?thesis by auto
      qed (use k in simp)
    next
      assume m: "mget (qc_streams s) k = Some e"
      from old [OF that(2)] show ?thesis
      proof (elim disjE conjE)
        assume "e' = ?e"
        with h [OF m] pane [OF m] that(3) show ?thesis by auto
      next
        assume m': "mget (qc_streams s) k' = Some e'"
        from that(3) q_invD(3,4) [OF i m m'] show ?thesis by blast
      qed
    qed
  qed
  moreover have "mwf (qc_streams ?s)" by (simp add: om.wf_put q_invD(1) [OF i])
  moreover have "\<forall>h. reader_ok (reader h (qc_log ?s))" using q_invD(5) [OF i] by simp
  moreover have "\<forall>h \<ge> qc_nextHandle ?s. reader h (qc_log ?s) = (None, None, True)" using q_invD(6) [OF i] by simp
  ultimately show ?thesis unfolding q_inv_def by blast
qed

lemma q_inv_emit_quiet: "q_inv s \<Longrightarrow> list_all neutral os \<Longrightarrow> q_inv (q_emit os s)"
  using q_inv_quiet quiet_emitI quiet_refl by blast

lemma q_inv_fail: "q_inv s \<Longrightarrow> q_inv (fail_protocol e m s)"
  using q_inv_quiet quiet_fail by blast

lemma put_same [simp]: "mwf (qc_streams s) \<Longrightarrow> mget (qc_streams s) k = Some e \<Longrightarrow> put_entry k e s = s"
proof -
  assume w: "mwf (qc_streams s)" and m: "mget (qc_streams s) k = Some e"
  have "mput k e xs = xs" if "mget xs k = Some e" for xs :: "(string, q_entry) jsmap"
    using that by (induction xs) (auto simp: mget_def mput_def)
  with m show ?thesis by (simp add: put_entry_def)
qed

lemma q_inv_control: "q_inv s \<Longrightarrow> q_inv (route_pane_control m s)"
proof -
  assume i: "q_inv s"
  show ?thesis
  proof (cases "\<exists>j e. normalize_queue_identity m = Some j \<and> mget (qc_streams s) (stream_key j) = Some e \<and> qe_ready e = QOpen
      \<and> is_object (json_get m ''payload'')")
    case True
    then obtain j e where c: "normalize_queue_identity m = Some j" "mget (qc_streams s) (stream_key j) = Some e" "qe_ready e = QOpen"
      "is_object (json_get m ''payload'')" by blast
    let ?p = "json_get m ''payload''"
    have ei: "entry_inv s (stream_key j) e" by (rule q_invD(2) [OF i c(2)])
    have a: "q_inv (q_emit [Dispatch (qe_handle e) (EvControl ?p)] (put_entry (stream_key j) (e\<lparr>qe_cursor := Some x\<rparr>) s))"
      if "replay_start ?p" "json_cursor (json_get ?p ''delta_from_cursor'') = Some x" for x
      using that ei by (intro q_inv_event [OF i c(2)]) (auto simp: reader_step_def entry_inv_def)
    have b: "q_inv (q_emit [Dispatch (qe_handle e) (EvControl ?p)] s)"
      if "\<not> replay_start ?p" "\<not> (replay_complete ?p \<and> (json_cursor (json_get ?p ''history_cursor'') = None \<or> qe_cursor e = None
          \<or> json_cursor (json_get ?p ''history_cursor'') \<noteq> qe_cursor e))"
    proof -
      have "q_inv (q_emit [Dispatch (qe_handle e) (EvControl ?p)] (put_entry (stream_key j) e s))"
        using that ei by (intro q_inv_event [OF i c(2)]) (auto simp: reader_step_def entry_inv_def)
      then show ?thesis using c(2) q_invD(1) [OF i] by simp
    qed
    show ?thesis
      unfolding route_pane_control_def c(1) option.case c(2) Let_def
      using c(3,4) a b i by (auto simp: q_inv_fail simp del: put_same split: option.split)
  next
    case False
    then show ?thesis using i
      by (auto simp: route_pane_control_def Let_def q_inv_fail q_inv_emit_quiet split: option.split)
  qed
qed

lemma frame_continues_reader:
  assumes "frame_continues e header payload = Some (start, stop)" and "qe_sequence e \<noteq> None \<longrightarrow> qe_mode e \<noteq> None"
  shows "qe_cursor e = Some start \<and> stop = start + length payload
    \<and> (case qe_sequence e of None \<Rightarrow> True | Some q \<Rightarrow> parse_sequence (json_get header ''sequence'') = Some (Suc q))"
  using assms by (auto simp: frame_continues_def sequence_valid_def split: option.splits if_splits)

lemma q_inv_binary: "q_inv s \<Longrightarrow> q_inv (route_binary parse data s)"
proof -
  assume i: "q_inv s"
  show ?thesis
  proof (cases "\<exists>header payload j e start stop. decode_queue_frame parse data = Inr (header, payload)
      \<and> normalize_queue_identity header = Some j \<and> mget (qc_streams s) (stream_key j) = Some e \<and> qe_ready e = QOpen
      \<and> frame_continues e header payload = Some (start, stop)")
    case True
    then obtain header payload j e start stop where c: "decode_queue_frame parse data = Inr (header, payload)"
      "normalize_queue_identity header = Some j" "mget (qc_streams s) (stream_key j) = Some e" "qe_ready e = QOpen"
      "frame_continues e header payload = Some (start, stop)" by blast
    have ei: "entry_inv s (stream_key j) e" by (rule q_invD(2) [OF i c(3)])
    have "q_inv (q_emit [Dispatch (qe_handle e) (EvData payload j start stop (parse_sequence (json_get header ''sequence'')) fh)]
            (put_entry (stream_key j) (accept_frame e header stop) s))" for fh
      using ei frame_continues_reader [OF c(5)]
      by (intro q_inv_event [OF i c(3)]) (auto simp: accept_frame_def Let_def reader_step_def entry_inv_def)
    then show ?thesis unfolding route_binary_def c sum.case prod.case option.case Let_def
      using c(4) i by (simp add: q_inv_fail)
  next
    case False
    then show ?thesis using i
      by (auto simp: route_binary_def Let_def q_inv_fail q_inv_emit_quiet split: option.split sum.split)
  qed
qed

lemma quiet_to_allI: "quiet s t \<Longrightarrow> neutral (Dispatch 0 ev) \<Longrightarrow> quiet s (to_all ev t)"
  using quiet_to_all quiet_trans by blast

lemma quiet_on_text:
  "\<not> (\<exists>m. jm = Some m \<and> has_type m ''pane-control'' \<and> m \<noteq> JPrim Null) \<Longrightarrow> quiet s (on_text now jm s)"
  by (cases jm) (simp_all add: on_text_def quiet_emitI quiet_to_allI quiet_physical_errorI quiet_frame)

lemma q_inv_on_text: "q_inv s \<Longrightarrow> q_inv (on_text now jm s)"
proof (cases "\<exists>m. jm = Some m \<and> has_type m ''pane-control'' \<and> m \<noteq> JPrim Null")
  case True
  assume "q_inv s"
  with True show ?thesis by (auto simp: on_text_def q_inv_control)
next
  case False
  assume "q_inv s"
  then show ?thesis using quiet_on_text [OF False] q_inv_quiet by blast
qed

lemma q_inv_step: "q_inv s \<Longrightarrow> q_inv (q_step parse s e)"
proof -
  assume i: "q_inv s"
  obtain rs now x where e: "e = (rs, now, x)" by (cases e) auto
  show ?thesis
  proof (cases x)
    case (QoOpen d)
    have "q_inv (ensure_physical rs now (put_entry (stream_key j) (new_entry (qc_nextHandle s) d j (qc_ready s))
         (s\<lparr>qc_nextHandle := Suc (qc_nextHandle s)\<rparr>)))" (is "q_inv ?t")
      if "\<not> mhas (qc_streams s) (stream_key j)" "\<not> list_ex (\<lambda>e. qi_pane (qe_identity e) = qi_pane j) (mvals (qc_streams s))" for j
      using q_inv_quiet [OF q_inv_new [OF i that] quiet_ensure] .
    moreover have "q_inv (schedule_update t)" if "q_inv t" for t
      by (rule q_inv_quiet [OF that], rule quiet_frame) (simp_all add: schedule_update_def)
    ultimately show ?thesis using i e QoOpen
      by (auto simp: q_step_def queue_open_def Let_def intro!: q_inv_emit_quiet split: option.split)
  next
    case (QoSocketMessage n f)
    have t: "q_inv (on_text now jm s)" for jm using q_inv_on_text [OF i] .
    with i e QoSocketMessage show ?thesis
      by (auto simp: q_step_def on_message_def q_inv_binary split: q_frame.split)
  next
    case (QoPriorityPane p j)
    have "quiet s (snd (set_priority_pane rs p j s))" unfolding set_priority_pane_def
      by (rule quiet_set_priority) (drule find_stream [OF q_invD(1) [OF i]], simp)
    then show ?thesis using q_inv_quiet [OF i] e QoPriorityPane by (simp add: q_step_def)
  next
    case (QoPriorityStream k j)
    have "quiet s (snd (set_priority_stream rs k j s))" unfolding set_priority_stream_def
      by (rule quiet_set_priority) auto
    then show ?thesis using q_inv_quiet [OF i] e QoPriorityStream by (simp add: q_step_def)
  qed (use e q_inv_quiet [OF i] in \<open>simp_all add: q_step_def quiet_connect quiet_logical_send quiet_logical_close
      quiet_ping quiet_queue_close quiet_flush quiet_flush_open quiet_on_open quiet_on_error quiet_on_close\<close>)
qed

interpretation queue_machine: invariant_machine "q_step parse" q_inv for parse
  by standard (rule q_inv_step)

lemma q_reached: "q_inv (foldl (q_step parse) (queue_start keep n) es)"
  by (rule queue_machine.inv_run) (rule q_inv_start)

subsection \<open>Gapless streams, one per pane\<close>

text \<open>
  C1. Whatever the server and the browser do, what is dispatched to a logical stream is gapless: every data
  event starts at the cursor its predecessor (or the replay start) left, covers exactly its
  bytes, carries the next sequence number once one was seen, and a replay completion names the
  cursor reached.
\<close>

theorem streams_are_gapless:
  "reader_ok (reader h (qc_log (foldl (q_step parse) (queue_start keep n) es)))"
  by (rule q_invD(5) [OF q_reached])

text \<open>
  The connection never holds two logical streams of one pane, and every stream is filed under the key of
  its own identity.
\<close>

theorem one_stream_per_pane:
  "distinct (map (\<lambda>x. qi_pane (qe_identity (snd x))) (qc_streams (foldl (q_step parse) (queue_start keep n) es)))
   \<and> list_all (\<lambda>x. fst x = stream_key (qe_identity (snd x))) (qc_streams (foldl (q_step parse) (queue_start keep n) es))"
proof -
  let ?s = "foldl (q_step parse) (queue_start keep n) es"
  have i: "q_inv ?s" by (rule q_reached)
  have w: "mwf (qc_streams ?s)" by (rule q_invD(1) [OF i])
  have m: "mget (qc_streams ?s) (fst x) = Some (snd x)" if "x \<in> set (qc_streams ?s)" for x
    using that w by (simp add: mget_iff_mem)
  have "x = y" if "x \<in> set (qc_streams ?s)" "y \<in> set (qc_streams ?s)"
    "qi_pane (qe_identity (snd x)) = qi_pane (qe_identity (snd y))" for x y
    using q_invD(4) [OF i m [OF that(1)] m [OF that(2)] that(3)] m [OF that(1)] m [OF that(2)] by (simp add: prod_eq_iff)
  then have "inj_on (\<lambda>x. qi_pane (qe_identity (snd x))) (set (qc_streams ?s))" by (rule inj_onI)
  moreover have "distinct (qc_streams ?s)" using w by (simp add: mwf_def distinct_map)
  ultimately show ?thesis
    using q_invD(2) [OF i m] by (auto simp: distinct_map list_all_iff entry_inv_def)
qed

subsection \<open>Valid frames are delivered\<close>

text \<open>
  A frame that continues an open stream is delivered and moves it on: if the header names the stream, its
  cursor and the end of the payload, the next sequence number, no other history generation and the
  checksum of the payload, then the listeners get the payload and the stream expects the next byte.
\<close>

theorem next_frame_delivered:
  assumes "decode_queue_frame parse data = Inr (header, payload)"
    and "normalize_queue_identity header = Some i" and "mget (qc_streams s) (stream_key i) = Some e" and "qe_ready e = QOpen"
    and "json_trimmed (json_get header ''history_generation'') \<in> {[], history_generation (qe_subscription e)}"
    and "qe_cursor e = Some start" and "json_cursor (json_get header ''start_cursor'') = Some start"
    and "json_cursor (json_get header ''end_cursor'') = Some (start + length payload)"
    and "qe_mode e \<noteq> None" and "qe_sequence e = Some q" and "parse_sequence (json_get header ''sequence'') = Some (Suc q)"
    and "json_get header ''checksum'' = JPrim (Str (checksum_text (crc32 payload)))"
  shows "Dispatch (qe_handle e) (EvData payload i start (start + length payload) (Some (Suc q))
             (json_trimmed (json_get header ''history_generation''))) \<in> set (qc_log (route_binary parse data s))
    \<and> (\<exists>e'. mget (qc_streams (route_binary parse data s)) (stream_key i) = Some e'
          \<and> qe_cursor e' = Some (start + length payload) \<and> qe_sequence e' = Some (Suc q))"
proof -
  have "sequence_valid e provided (Some (Suc q))" for provided
    using assms(9,10) by (auto simp: sequence_valid_def)
  then have "frame_continues e header payload = Some (start, start + length payload)"
    using assms(6-12) own_checksum_matches by (simp add: frame_continues_def)
  then show ?thesis using assms(4,5,11)
    by (auto simp: route_binary_def assms(1-3) Let_def accept_frame_def om.get_put)
qed

definition frame_demo_header :: json where
  "frame_demo_header = JObj [(''pane_id'', JPrim (Str ''p1'')), (''stream_id'', JPrim (Str ''s1'')),
     (''channel_generation'', JPrim (Num (Fin 1))), (''start_cursor'', JPrim (Str ''5'')), (''end_cursor'', JPrim (Str ''5'')),
     (''sequence'', JPrim (Num (Fin 3))), (''checksum'', JPrim (Str (checksum_text (crc32 []))))]"

definition frame_demo_entry :: q_entry where
  "frame_demo_entry = (new_entry 0 [] \<lparr>qi_pane = ''p1'', qi_stream = ''s1'', qi_generation = 1\<rparr> QOpen)
     \<lparr>qe_cursor := Some 5, qe_sequence := Some 2, qe_mode := Some True\<rparr>"

definition frame_demo_state :: q_state where
  "frame_demo_state = put_entry (stream_key (qe_identity frame_demo_entry)) frame_demo_entry (queue_start False 0)"

theorem next_frame_delivered_witness:
  "\<exists>e'. mget (qc_streams (route_binary (\<lambda>_. Some frame_demo_header) (queue_magic @ to_be32 1 @ [0]) frame_demo_state))
        (stream_key (qe_identity frame_demo_entry)) = Some e' \<and> qe_cursor e' = Some 5 \<and> qe_sequence e' = Some 3"
proof -
  let ?h = frame_demo_header and ?e = frame_demo_entry and ?s = frame_demo_state
  let ?d = "queue_magic @ to_be32 1 @ [0 :: 8 word]"
  have d: "decode_queue_frame (\<lambda>_. Some ?h) ?d = Inr (?h, [])"
    by (simp add: decode_queue_frame_def queue_magic_def to_be32_def be32_def)
  have i: "normalize_queue_identity ?h = Some (qe_identity ?e)" by code_simp
  have m: "mget (qc_streams ?s) (stream_key (qe_identity ?e)) = Some ?e"
    by (simp add: frame_demo_state_def om.get_put)
  have r: "qe_ready ?e = QOpen" by (simp add: frame_demo_entry_def new_entry_def)
  have g: "json_trimmed (json_get ?h ''history_generation'') \<in> {[], history_generation (qe_subscription ?e)}" by code_simp
  have c: "qe_cursor ?e = Some 5" "qe_mode ?e \<noteq> None" "qe_sequence ?e = Some 2" by (simp_all add: frame_demo_entry_def)
  have st: "json_cursor (json_get ?h ''start_cursor'') = Some 5" "json_cursor (json_get ?h ''end_cursor'') = Some (5 + length ([] :: 8 word list))"
    by code_simp+
  have q: "parse_sequence (json_get ?h ''sequence'') = Some (Suc 2)" by code_simp
  have k: "json_get ?h ''checksum'' = JPrim (Str (checksum_text (crc32 [])))"
    by (simp add: frame_demo_header_def json_get_def)
  from next_frame_delivered [OF d i m r g c(1) st c(2,3) q k] show ?thesis by simp
qed

text \<open>
  After a first frame without a sequence number, the next frame must carry the number 1: a stream whose
  frames have no sequence numbers at all is refused from its second frame on.
\<close>

theorem unsequenced_stream_stops:
  assumes "qe_mode e = Some False" and "\<not> json_has header ''sequence''"
  shows "frame_continues e header payload = None"
proof -
  have "map_of (rev fs) k = None" if "k \<notin> fst ` set fs" for fs :: "(string \<times> json) list" and k
    using that by (simp add: map_of_eq_None_iff)
  then have "json_get header ''sequence'' = JPrim Undef"
    using assms(2) by (auto simp: json_get_def json_has_def split: json.splits option.splits)
  then have "parse_sequence (json_get header ''sequence'') = None"
    by (simp add: parse_sequence_def json_cursor_def json_prim_def)
  then show ?thesis using assms(1) by (auto simp: frame_continues_def sequence_valid_def split: option.splits)
qed

subsection \<open>Isolation\<close>

definition new_outputs :: "q_state \<Rightarrow> q_state \<Rightarrow> q_output list" where
  "new_outputs s s' = drop (length (qc_log s)) (qc_log s')"

text \<open>A step of the router: one stream at most, nothing physical, nothing on a protocol error.\<close>

definition isolated :: "q_state \<Rightarrow> q_state \<Rightarrow> bool" where
  "isolated s s' = (qc_socket s' = qc_socket s \<and> qc_ready s' = qc_ready s \<and> qc_disposed s' = qc_disposed s
     \<and> (\<exists>k. \<forall>j. j \<noteq> k \<longrightarrow> mget (qc_streams s') j = mget (qc_streams s) j)
     \<and> (\<exists>os. qc_log s' = qc_log s @ os \<and> (\<forall>c r. CloseSocket c r \<notin> set os)
          \<and> ((\<exists>m i. ProtocolError m i \<in> set os) \<longrightarrow> qc_streams s' = qc_streams s)))"

lemma isolated_emit: "(\<forall>c r. CloseSocket c r \<notin> set os) \<Longrightarrow> isolated s (q_emit os s)"
  by (auto simp: isolated_def)

lemma isolated_refl [simp]: "isolated s s"
  by (simp add: isolated_def)

lemma isolated_fail: "isolated s (fail_protocol e m s)"
  by (simp add: fail_protocol_def isolated_emit)

lemma isolated_put: "isolated s (q_emit [Dispatch h ev] (put_entry k e s))"
  unfolding isolated_def by (auto simp: om.get_put)

lemma isolated_control: "isolated s (route_pane_control m s)"
  by (simp add: route_pane_control_def Let_def isolated_emit isolated_fail isolated_put split: option.split)

lemma isolated_binary: "isolated s (route_binary parse data s)"
  by (simp add: route_binary_def Let_def isolated_emit isolated_fail isolated_put split: option.split sum.split)

lemma isolated_error: "isolated s (dispatch_physical_error m s)"
  by (simp add: dispatch_physical_error_def isolated_def split: list.split prod.split)

lemma isolated_text: "isolated s (on_text now jm s)"
proof -
  have e: "isolated s (dispatch_physical_error m (q_emit [ProtocolError m' None] s))" for m m'
    by (auto simp: dispatch_physical_error_def isolated_def split: list.split)
  have t: "isolated s (to_all ev s)" "isolated s (to_all ev (q_emit [PhysicalEvent x] s))" for ev x
    by (auto simp: to_all_def isolated_def)
  have f: "isolated s (s\<lparr>qc_lastPong := now\<rparr>)" by (simp add: isolated_def)
  have r: "isolated s (q_emit [StateChange, PhysicalEvent x] (s\<lparr>qc_agentVersion := a, qc_preferredVersion := b,
      qc_updateAvailable := c, qc_updateRequired := d, qc_serverReady := True\<rparr>))" for x a b c d
    by (auto simp: isolated_def)
  show ?thesis
    by (cases jm) (simp_all add: on_text_def isolated_emit isolated_control isolated_error e t f r)
qed

text \<open>
  C30. A frame of the server, valid or not, changes at most one logical stream, never the physical socket, and
  when it is reported as a protocol error it changes no stream at all.
\<close>

theorem frame_isolation:
  "isolated s (on_message parse now n f s)"
  by (simp add: on_message_def isolated_text isolated_binary split: q_frame.split)

subsection \<open>Disposal\<close>

text \<open>Steps that neither dispose nor resolve.\<close>

definition alive_step :: "q_state \<Rightarrow> q_state \<Rightarrow> bool" where
  "alive_step s s' = (qc_disposed s' = qc_disposed s \<and> qc_resolved s' = qc_resolved s
     \<and> (\<exists>os. qc_log s' = qc_log s @ os \<and> Resolved \<notin> set os))"

lemma alive_refl [simp]: "alive_step s s" by (simp add: alive_step_def)

lemma alive_trans: "alive_step s t \<Longrightarrow> alive_step t u \<Longrightarrow> alive_step s u"
  by (auto simp: alive_step_def)

lemma alive_emitI: "alive_step s t \<Longrightarrow> Resolved \<notin> set os \<Longrightarrow> alive_step s (q_emit os t)"
  by (auto simp: alive_step_def)

lemma alive_putI: "alive_step s t \<Longrightarrow> alive_step s (put_entry k e t)"
  by (simp add: alive_step_def)

lemma alive_frame:
  "qc_disposed s' = qc_disposed s \<Longrightarrow> qc_resolved s' = qc_resolved s \<Longrightarrow> qc_log s' = qc_log s \<Longrightarrow> alive_step s s'"
  by (simp add: alive_step_def)

lemma alive_fieldsI:
  assumes "alive_step s t" "qc_disposed t' = qc_disposed t" "qc_resolved t' = qc_resolved t" "qc_log t' = qc_log t"
  shows "alive_step s t'"
  using alive_trans [OF assms(1) alive_frame [OF assms(2-4)]] .

lemma alive_send: "x \<noteq> Resolved \<Longrightarrow> alive_step s (snd (send_physical rs x s))"
  by (simp add: send_physical_def alive_emitI)

lemma alive_foldl: "(\<And>s k. alive_step s (f s k)) \<Longrightarrow> alive_step s (foldl f s ks)"
proof (induction ks arbitrary: s)
  case (Cons k ks)
  from alive_trans [OF Cons.prems Cons.IH [OF Cons.prems]] show ?case by simp
qed simp

lemma alive_sync: "alive_step s (sync_priority rs s k)"
  by (auto simp: sync_priority_def Let_def send_physical_def alive_emitI alive_putI split: option.split)

lemma alive_subscriptions: "alive_step s (snd (send_subscriptions rs s))"
proof -
  have a: "alive_step s (s\<lparr>qc_pending := b\<rparr>)" for b by (rule alive_frame) simp_all
  have r: "alive_step s (s\<lparr>qc_pending := b, qc_log := qc_log s @ [SendSubscriptions x], qc_revision := n\<rparr>)" for b x n
    by (simp add: alive_step_def)
  show ?thesis
    by (simp add: send_subscriptions_def Let_def send_physical_def a q_emit_def [of "[SendSubscriptions x]" for x])
      (intro impI alive_trans [OF alive_emitI [OF r] alive_foldl [OF alive_sync]], simp)
qed

lemma alive_open_entry: "alive_step s (open_entry s k)"
  by (simp add: open_entry_def alive_emitI alive_putI split: option.split)

lemma alive_on_open: "alive_step s (on_open rs now n s)"
proof (cases "qc_socket s \<noteq> Some n \<or> qc_disposed s")
  case False
  define s1 where "s1 = q_emit [PhysicalEvent ''physical_websocket_open'']
    (s\<lparr>qc_ready := QOpen, qc_errorDispatched := False, qc_latency := max 0 (now - qc_createdAt s)\<rparr>)"
  define s2 where "s2 = (if qc_streams s1 \<noteq> [] then snd (send_subscriptions rs s1) else s1\<lparr>qc_pending := False\<rparr>)"
  have q1: "alive_step s s1" unfolding s1_def by (auto intro!: alive_emitI alive_frame)
  have "alive_step s s2" unfolding s2_def
    using alive_trans [OF q1 alive_subscriptions] alive_fieldsI [OF q1, of "s1\<lparr>qc_pending := False\<rparr>"] by simp
  then have "alive_step s (foldl open_entry s2 (mkeys (qc_streams s2)))"
    by (rule alive_trans [OF _ alive_foldl [OF alive_open_entry]])
  then have "alive_step s (q_emit [StateChange] (foldl open_entry s2 (mkeys (qc_streams s2))))"
    by (rule alive_emitI) simp
  then show ?thesis using False by (simp add: on_open_def Let_def s1_def [symmetric] s2_def [symmetric])
qed (simp add: on_open_def)

lemma alive_error: "alive_step s (dispatch_physical_error m s)"
  by (auto simp: dispatch_physical_error_def alive_step_def split: list.split)

lemma alive_errorI: "alive_step s t \<Longrightarrow> alive_step s (dispatch_physical_error m t)"
  using alive_trans [OF _ alive_error] .

lemma alive_fail: "alive_step s (fail_protocol e m s)"
  by (simp add: fail_protocol_def alive_emitI)

lemma alive_to_allI: "alive_step s t \<Longrightarrow> alive_step s (to_all ev t)"
  by (auto simp: to_all_def intro: alive_emitI)

lemma alive_ensure: "alive_step s (ensure_physical rs now s)"
  by (simp add: ensure_physical_def Let_def alive_step_def)

lemma alive_message: "alive_step s (on_message parse now n f s)"
proof -
  have c: "alive_step s (route_pane_control m s)" for m
    by (simp add: route_pane_control_def Let_def alive_emitI alive_putI alive_fail split: option.split)
  have "alive_step s (route_binary parse data s)" for data
    by (simp add: route_binary_def Let_def alive_emitI alive_putI alive_fail split: option.split sum.split)
  moreover have "alive_step s (on_text now jm s)" for jm
    by (cases jm) (simp_all add: on_text_def c alive_emitI alive_to_allI alive_errorI alive_frame)
  ultimately show ?thesis by (simp add: on_message_def split: q_frame.split)
qed

lemma alive_close_all: "alive_step s (close_all_logical c r b s)"
proof -
  have "Resolved \<notin> set (concat (map (close_event c r b) es) @ [StateChange])" for es
    by (induction es) (auto simp: close_event_def)
  then show ?thesis unfolding close_all_logical_def by (intro alive_emitI alive_frame) auto
qed

lemma alive_open: "alive_step s (snd (queue_open rs now d s))"
proof -
  have e: "alive_step s (ensure_physical rs now (put_entry k e (s\<lparr>qc_nextHandle := n\<rparr>)))" for k e n
    by (rule alive_trans [OF _ alive_ensure]) (simp add: alive_step_def)
  have "alive_step s (schedule_update (ensure_physical rs now (put_entry k e (s\<lparr>qc_nextHandle := n\<rparr>))))" for k e n
    by (rule alive_fieldsI [OF e]) (simp_all add: schedule_update_def)
  with e show ?thesis by (auto simp: queue_open_def Let_def intro!: alive_emitI split: option.split)
qed

lemma alive_others:
  "alive_step s (snd (queue_connect rs now s))" "alive_step s (snd (queue_ping rs s))"
  "alive_step s (flush_subscriptions rs s)" "alive_step s (flush_open h s)" "alive_step s (snd (logical_send rs h c s))"
  "alive_step s (on_error n s)" "alive_step s (snd (set_priority_of rs found j s))"
  by (auto simp: queue_connect_def queue_ping_def flush_subscriptions_def flush_open_def logical_send_def on_error_def
      set_priority_of_def schedule_update_def send_physical_def Let_def alive_subscriptions alive_error
      intro!: alive_emitI alive_putI alive_ensure split: option.split)
    (auto simp: alive_step_def)

definition disposal_inv :: "q_state \<Rightarrow> bool" where
  "disposal_inv s = ((qc_disposed s \<longrightarrow> qc_streams s = [])
     \<and> count_list (qc_log s) Resolved = (if qc_resolved s then 1 else 0))"

definition resolved_once :: "q_state \<Rightarrow> bool" where
  "resolved_once s = (count_list (qc_log s) Resolved = (if qc_resolved s then 1 else 0))"

lemma resolved_alive: "resolved_once s \<Longrightarrow> alive_step s t \<Longrightarrow> resolved_once t"
  by (auto simp: resolved_once_def alive_step_def count_list_0_iff)

lemma resolved_final: "resolved_once s \<Longrightarrow> resolved_once (resolve_final_close s)"
  by (simp add: resolved_once_def resolve_final_close_def)

lemma resolved_frame:
  "resolved_once s \<Longrightarrow> qc_resolved t = qc_resolved s \<Longrightarrow> qc_log t = qc_log s \<Longrightarrow> resolved_once t"
  by (simp add: resolved_once_def)

lemma resolved_emit: "resolved_once s \<Longrightarrow> Resolved \<notin> set os \<Longrightarrow> resolved_once (q_emit os s)"
  by (simp add: resolved_once_def count_list_0_iff)

lemma resolved_shut: "resolved_once s \<Longrightarrow> resolved_once (shut_physical rs c r d s)"
  unfolding shut_physical_def
  by (auto intro!: resolved_final resolved_emit elim: resolved_frame)

lemma streams_resolve [simp]: "qc_streams (resolve_final_close s) = qc_streams s" "qc_disposed (resolve_final_close s) = qc_disposed s"
  by (simp_all add: resolve_final_close_def)

lemma streams_shut [simp]: "qc_streams (shut_physical rs c r d s) = qc_streams s" "qc_disposed (shut_physical rs c r d s) = qc_disposed s"
  by (simp_all add: shut_physical_def)

lemma streams_close_all [simp]: "qc_streams (close_all_logical c r b s) = []" "qc_disposed (close_all_logical c r b s) = qc_disposed s"
  by (simp_all add: close_all_logical_def)

lemma disposal_alive: "disposal_inv s \<Longrightarrow> \<not> qc_disposed s \<Longrightarrow> alive_step s t \<Longrightarrow> disposal_inv t"
  using resolved_alive [of s t] by (simp add: disposal_inv_def resolved_once_def alive_step_def)

lemma disposal_on_close: "disposal_inv s \<Longrightarrow> disposal_inv (on_close n c r w s)"
proof -
  assume i: "disposal_inv s"
  have "resolved_once (on_close n c r w s)"
    using i unfolding on_close_def Let_def
    by (auto simp: disposal_inv_def resolved_once_def [symmetric]
        intro!: resolved_final resolved_emit resolved_alive [OF _ alive_close_all] elim: resolved_frame)
  moreover have "qc_streams (on_close n c r w s) = [] \<or> on_close n c r w s = s" by (simp add: on_close_def Let_def)
  ultimately show ?thesis using i by (auto simp: disposal_inv_def resolved_once_def)
qed

lemma disposal_queue_close: "disposal_inv s \<Longrightarrow> disposal_inv (queue_close rs c r s)"
proof -
  assume i: "disposal_inv s"
  have "resolved_once (queue_close rs c r s)"
    using i unfolding queue_close_def Let_def
    by (auto simp: disposal_inv_def resolved_once_def [symmetric]
        intro!: resolved_shut resolved_alive [OF _ alive_close_all] elim: resolved_frame)
  moreover have "qc_streams (queue_close rs c r s) = [] \<or> queue_close rs c r s = s" by (simp add: queue_close_def Let_def)
  ultimately show ?thesis using i by (auto simp: disposal_inv_def resolved_once_def)
qed

lemma disposal_logical_close: "disposal_inv s \<Longrightarrow> disposal_inv (logical_close rs h c r s)"
proof (cases "find_handle h s")
  case (Some x)
  assume i: "disposal_inv s"
  obtain k e where x: "x = (k, e)" by (cases x)
  have nd: "\<not> qc_disposed s" using Some i by (auto simp: disposal_inv_def find_handle_def)
  define s1 where "s1 = q_emit [Dispatch h (EvClosed c r True)] (delete_stream k s)"
  define s2 where "s2 = (if qc_streams s1 = [] \<and> \<not> qc_keepAlive s1
    then shut_physical rs (Fin 1000) ''terminal queue has no subscriptions'' QClosing (s1\<lparr>qc_disposed := True\<rparr>) else s1)"
  define s3 where "s3 = (if \<not> qc_disposed s2 then schedule_update s2 else s2)"
  have r1: "resolved_once s1" using i by (simp add: s1_def disposal_inv_def resolved_once_def delete_stream_def)
  have "resolved_once (s1\<lparr>qc_disposed := True\<rparr>)" using r1 by (rule resolved_frame) simp_all
  then have "resolved_once s2" using r1 by (simp add: s2_def resolved_shut)
  then have r3: "resolved_once s3" by (simp add: s3_def schedule_update_def resolved_once_def)
  have "qc_disposed s3 \<longrightarrow> qc_streams s3 = []"
    using nd by (simp add: s3_def s2_def s1_def delete_stream_def schedule_update_def)
  with r3 have "disposal_inv (q_emit [StateChange] s3)" by (simp add: disposal_inv_def resolved_once_def)
  moreover have "logical_close rs h c r s = (if qe_ready e \<in> {QClosed, QClosing} then s else q_emit [StateChange] s3)"
    unfolding logical_close_def Some x option.case prod.case Let_def s1_def s2_def s3_def by (rule refl)
  ultimately show ?thesis using i by simp
qed (simp add: logical_close_def)

text \<open>A disposed connection without streams only pings, or settles its close.\<close>

definition after_disposal :: "q_output \<Rightarrow> bool" where
  "after_disposal x = (case x of SendPing \<Rightarrow> True | PhysicalClose _ _ _ \<Rightarrow> True | Resolved \<Rightarrow> True | StateChange \<Rightarrow> True | _ \<Rightarrow> False)"

lemma disposed_step:
  assumes d: "qc_disposed s" "qc_streams s = []"
  shows "q_step parse s (rs, now, x) = (case x of QoPing \<Rightarrow> snd (queue_ping rs s)
      | QoSocketClose n c r w \<Rightarrow> on_close n c r w s | _ \<Rightarrow> s)"
  using d
  by (cases x) (simp_all add: q_step_def queue_open_def queue_connect_def logical_send_def logical_close_def find_handle_def
      set_priority_pane_def set_priority_stream_def set_priority_of_def queue_close_def flush_subscriptions_def flush_open_def
      on_open_def on_message_def on_error_def)

lemma disposed_step_outputs:
  assumes d: "qc_disposed s" "qc_streams s = []"
  shows "qc_disposed (q_step parse s e) \<and> qc_streams (q_step parse s e) = []
    \<and> (\<exists>os. qc_log (q_step parse s e) = qc_log s @ os \<and> list_all after_disposal os)"
proof -
  obtain rs now x where e: "e = (rs, now, x)" by (cases e) auto
  show ?thesis unfolding e disposed_step [OF d] using d
    by (auto simp: queue_ping_def send_physical_def on_close_def resolve_final_close_def close_all_logical_def mvals_def
        after_disposal_def Let_def split: q_op.split)
qed

lemma disposal_step: "disposal_inv s \<Longrightarrow> disposal_inv (q_step parse s e)"
proof -
  assume i: "disposal_inv s"
  obtain rs now x where e: "e = (rs, now, x)" by (cases e) auto
  show ?thesis
  proof (cases "qc_disposed s")
    case True
    then have st: "qc_streams s = []" using i by (simp add: disposal_inv_def)
    have "disposal_inv (snd (queue_ping rs s))"
      using i st by (auto simp: queue_ping_def send_physical_def disposal_inv_def)
    then show ?thesis unfolding e disposed_step [OF True st]
      using i disposal_on_close [OF i] by (simp split: q_op.split)
  next
    case False
    note a = disposal_alive [OF i False]
    show ?thesis unfolding e
      by (cases x) (simp_all add: q_step_def a alive_open alive_others set_priority_pane_def set_priority_stream_def
          alive_on_open alive_message disposal_on_close [OF i] disposal_queue_close [OF i] disposal_logical_close [OF i])
  qed
qed

interpretation disposal_machine: invariant_machine "q_step parse" disposal_inv for parse
  by standard (rule disposal_step)

lemma disposal_reached: "disposal_inv (foldl (q_step parse) (queue_start keep n) es)"
  by (rule disposal_machine.inv_run) (simp add: disposal_inv_def queue_start_def)

text \<open>
  The promise of the final close is resolved at most once, and a disposed connection stays disposed: it holds no stream and
  from then on dispatches nothing, opens no socket and sends no subscription, priority or control.
\<close>

theorem disposal_is_final:
  assumes "qc_disposed (foldl (q_step parse) (queue_start keep n) es)"
  shows "qc_disposed (foldl (q_step parse) (queue_start keep n) (es @ fs))
    \<and> qc_streams (foldl (q_step parse) (queue_start keep n) (es @ fs)) = []
    \<and> (\<exists>os. qc_log (foldl (q_step parse) (queue_start keep n) (es @ fs))
           = qc_log (foldl (q_step parse) (queue_start keep n) es) @ os \<and> list_all after_disposal os)
    \<and> count_list (qc_log (foldl (q_step parse) (queue_start keep n) (es @ fs))) Resolved \<le> 1"
proof -
  have "qc_disposed (foldl (q_step parse) s fs) \<and> qc_streams (foldl (q_step parse) s fs) = []
      \<and> (\<exists>os. qc_log (foldl (q_step parse) s fs) = qc_log s @ os \<and> list_all after_disposal os)"
    if "qc_disposed s" "qc_streams s = []" for s
    using that
  proof (induction fs arbitrary: s)
    case (Cons f fs)
    from disposed_step_outputs [OF Cons.prems, of parse f] Cons.IH [of "q_step parse s f"] show ?case by auto
  qed simp
  from this [OF assms] disposal_reached [of parse keep n es] disposal_reached [of parse keep n "es @ fs"] assms show ?thesis
    by (auto simp: disposal_inv_def)
qed

definition queue_demo :: "(q_ready \<times> int \<times> q_op) list" where
  "queue_demo = [(QConnecting, 5, QoOpen [(''pane_id'', JPrim (Str ''p1'')), (''stream_id'', JPrim (Str ''s1'')),
       (''channel_generation'', JPrim (Num (Fin 1)))]), (QOpen, 7, QoSocketOpen 1), (QOpen, 9, QoClose (Fin 1000) ''bye'')]"

theorem disposal_is_final_witness:
  "qc_disposed (foldl (q_step (\<lambda>_. None)) (queue_start False 0) (queue_demo @ [(QClosed, 11, QoSocketClose 1 Undef Undef Undef)]))
    \<and> count_list (qc_log (foldl (q_step (\<lambda>_. None)) (queue_start False 0) (queue_demo @ [(QClosed, 11, QoSocketClose 1 Undef Undef Undef)]))) Resolved \<le> 1"
proof -
  have "qc_disposed (foldl (q_step (\<lambda>_. None)) (queue_start False 0) queue_demo)" by code_simp
  from disposal_is_final [OF this, of "[(QClosed, 11, QoSocketClose 1 Undef Undef Undef)]"] show ?thesis by blast
qed

end
