(* ===== verification/Layout_Tree.thy ===== *)
theory Layout_Tree
  imports Js
begin

section \<open>The split layout of a tab\<close>

text \<open>
  Model of \<open>src/runtime/static/workspace/layout_controller.js\<close>: the tree of splits and leaves a tab
  shows (\<open>splitLayout\<close>, \<open>removePaneFromLayout\<close>, \<open>collectPaneIds\<close>) and the choice of the pane next to
  the active one in a direction. The code updates the nodes in place and returns whether it did;
  here a node is a value and the updated tree is returned with the same answer. Coordinates are exact.
\<close>

subsection \<open>The tree\<close>

text \<open>A node is a leaf or a split; \<open>size\<close> is a percentage, absent or zero when the code finds it falsy.\<close>

datatype layout = Leaf (pane_of: string) "rat option" | Split string "layout list" "rat option"

definition sized :: "rat option \<Rightarrow> bool" where
  "sized sz = (case sz of None \<Rightarrow> False | Some r \<Rightarrow> r \<noteq> 0)"

definition keep_size :: "rat option \<Rightarrow> rat option" where
  "keep_size sz = (if sized sz then sz else None)"

fun split_layout :: "layout \<Rightarrow> string \<Rightarrow> string \<Rightarrow> string \<Rightarrow> bool \<times> layout"
and split_some :: "layout list \<Rightarrow> string \<Rightarrow> string \<Rightarrow> string \<Rightarrow> bool \<times> layout list" where
  "split_layout (Leaf p sz) t d n =
     (if p = t then (True, Split d [Leaf t (Some 50), Leaf n (Some 50)] (keep_size sz)) else (False, Leaf p sz))"
| "split_layout (Split d' cs sz) t d n = (case split_some cs t d n of (b, cs') \<Rightarrow> (b, Split d' cs' sz))"
| "split_some [] t d n = (False, [])"
| "split_some (c # cs) t d n = (case split_layout c t d n of (b, c') \<Rightarrow>
     if b then (True, c' # cs) else (case split_some cs t d n of (b', cs') \<Rightarrow> (b', c' # cs')))"

fun size_of :: "layout \<Rightarrow> rat option" where
  "size_of (Leaf p sz) = sz"
| "size_of (Split d cs sz) = sz"

fun set_size :: "rat \<Rightarrow> layout \<Rightarrow> layout" where
  "set_size r (Leaf p sz) = Leaf p (Some r)"
| "set_size r (Split d cs sz) = Split d cs (Some r)"

definition give_share :: "rat \<Rightarrow> layout \<Rightarrow> layout" where
  "give_share r c = (if sized (size_of c) then c else set_size r c)"

definition rebuild_split :: "string \<Rightarrow> layout list \<Rightarrow> rat option \<Rightarrow> layout option" where
  "rebuild_split d cs sz = (case cs of [] \<Rightarrow> None | [c] \<Rightarrow> Some c
     | _ \<Rightarrow> Some (Split d (map (give_share (100 / of_nat (length cs))) cs) sz))"

fun remove_pane :: "layout \<Rightarrow> string \<Rightarrow> layout option"
and remove_panes :: "layout list \<Rightarrow> string \<Rightarrow> layout list" where
  "remove_pane (Leaf p sz) x = (if p = x then None else Some (Leaf p sz))"
| "remove_pane (Split d cs sz) x = rebuild_split d (remove_panes cs x) sz"
| "remove_panes [] x = []"
| "remove_panes (c # cs) x = (case remove_pane c x of None \<Rightarrow> remove_panes cs x
     | Some c' \<Rightarrow> c' # remove_panes cs x)"

fun collect_panes :: "layout \<Rightarrow> string list \<Rightarrow> string list"
and collect_all :: "layout list \<Rightarrow> string list \<Rightarrow> string list" where
  "collect_panes (Leaf p sz) acc = acc @ [p]"
| "collect_panes (Split d cs sz) acc = collect_all cs acc"
| "collect_all [] acc = acc"
| "collect_all (c # cs) acc = collect_all cs (collect_panes c acc)"

definition panes_of :: "layout option \<Rightarrow> string list" where
  "panes_of l = (case l of None \<Rightarrow> [] | Some t \<Rightarrow> collect_panes t [])"

subsection \<open>What the tree operations do to the list of panes\<close>

fun insert_after :: "string \<Rightarrow> string \<Rightarrow> string list \<Rightarrow> string list" where
  "insert_after t n [] = []"
| "insert_after t n (x # xs) = (if x = t then t # n # xs else x # insert_after t n xs)"

text \<open>Every split has at least two children, as the code leaves it after a removal.\<close>

fun proper :: "layout \<Rightarrow> bool" where
  "proper (Leaf p sz) = True"
| "proper (Split d cs sz) = (2 \<le> length cs \<and> list_all proper cs)"

text \<open>The panes of a tree from left to right.\<close>

fun leaves :: "layout \<Rightarrow> string list" where
  "leaves (Leaf p sz) = [p]"
| "leaves (Split d cs sz) = concat (map leaves cs)"

lemma collect_leaves [simp]:
  "collect_panes l acc = acc @ leaves l"
  "collect_all ls acc = acc @ concat (map leaves ls)"
  by (induction l acc and ls acc rule: collect_panes_collect_all.induct) auto

lemma insert_after_absent: "t \<notin> set xs \<Longrightarrow> insert_after t n xs = xs"
  by (induction xs) auto

lemma insert_after_append:
  "insert_after t n (xs @ ys) = (if t \<in> set xs then insert_after t n xs @ ys else xs @ insert_after t n ys)"
  by (induction xs) auto

lemma split_leaves:
  "fst (split_layout l t d n) = (t \<in> set (leaves l))
     \<and> leaves (snd (split_layout l t d n)) = insert_after t n (leaves l)"
  "fst (split_some ls t d n) = (t \<in> set (concat (map leaves ls)))
     \<and> concat (map leaves (snd (split_some ls t d n))) = insert_after t n (concat (map leaves ls))"
  by (induction l t d n and ls t d n rule: split_layout_split_some.induct)
    (auto simp: insert_after_append insert_after_absent split: prod.splits if_splits)

lemma split_proper:
  "proper l \<Longrightarrow> proper (snd (split_layout l t d n))"
  "list_all proper ls \<Longrightarrow> list_all proper (snd (split_some ls t d n))
     \<and> length (snd (split_some ls t d n)) = length ls"
  by (induction l t d n and ls t d n rule: split_layout_split_some.induct)
    (auto split: prod.splits if_splits)

lemma leaves_set_size [simp]: "leaves (set_size r c) = leaves c"
  by (cases c) auto

lemma leaves_give_share [simp]: "leaves (give_share r c) = leaves c"
  by (simp add: give_share_def)

lemma proper_give_share [simp]: "proper (give_share r c) = proper c"
  by (cases c) (auto simp: give_share_def)

lemma rebuild_cases:
  "rebuild_split d [] sz = None"
  "rebuild_split d [c] sz = Some c"
  "rebuild_split d (c # c' # cs) sz
     = Some (Split d (map (give_share (100 / of_nat (length (c # c' # cs)))) (c # c' # cs)) sz)"
  by (simp_all add: rebuild_split_def del: of_nat_Suc)

lemma panes_rebuild: "panes_of (rebuild_split d cs sz) = concat (map leaves cs)"
  by (cases cs rule: remdups_adj.cases)
    (auto simp: rebuild_cases panes_of_def comp_def simp del: of_nat_Suc)

lemma panes_of_simps [simp]: "panes_of None = []" "panes_of (Some l) = leaves l"
  by (simp_all add: panes_of_def)

lemma leaves_case:
  "concat (map leaves (case r of None \<Rightarrow> ls | Some c \<Rightarrow> c # ls)) = panes_of r @ concat (map leaves ls)"
  by (cases r) auto

lemma remove_leaves:
  "panes_of (remove_pane l x) = filter (\<lambda>p. p \<noteq> x) (leaves l)"
  "concat (map leaves (remove_panes ls x)) = filter (\<lambda>p. p \<noteq> x) (concat (map leaves ls))"
  by (induction l x and ls x rule: remove_pane_remove_panes.induct)
    (simp_all add: panes_rebuild leaves_case filter_concat, metis option.exhaust)

lemma proper_rebuild: "list_all proper cs \<Longrightarrow> (case rebuild_split d cs sz of None \<Rightarrow> True | Some c \<Rightarrow> proper c)"
  by (cases cs rule: remdups_adj.cases)
    (auto simp: rebuild_cases list_all_iff simp del: of_nat_Suc)

lemma remove_proper:
  "(case remove_pane l x of None \<Rightarrow> True | Some c \<Rightarrow> proper c)"
  "list_all proper (remove_panes ls x)"
  by (induction l x and ls x rule: remove_pane_remove_panes.induct)
    (auto simp: proper_rebuild split: option.splits)

text \<open>
  Splitting succeeds exactly when the target pane is in the tree, puts the new pane right after
  it in reading order and changes the order of nothing else.
\<close>

theorem split_inserts_pane:
  "fst (split_layout l t d n) = (t \<in> set (panes_of (Some l)))
     \<and> panes_of (Some (snd (split_layout l t d n))) = insert_after t n (panes_of (Some l))"
  by (simp add: panes_of_def split_leaves)

text \<open>
  Removing a pane deletes exactly its leaves, keeps the order of the others, and leaves a tree
  in which every split still has two children or more (or no tree when no pane is left).
\<close>

theorem remove_deletes_pane:
  "panes_of (remove_pane l x) = filter (\<lambda>p. p \<noteq> x) (panes_of (Some l))
     \<and> (case remove_pane l x of None \<Rightarrow> filter (\<lambda>p. p \<noteq> x) (panes_of (Some l)) = [] | Some t \<Rightarrow> proper t)"
proof -
  have "remove_pane l x = None \<Longrightarrow> filter (\<lambda>p. p \<noteq> x) (leaves l) = []"
    using remove_leaves(1) [of l x] by simp
  then show ?thesis
    using remove_proper(1) [of l x] by (auto simp: remove_leaves split: option.splits)
qed

text \<open>
  Closing the pane a split just made does not give the target its size back: the surviving child
  keeps the half it got from the split, and the size of the split it replaces is lost. (The
  server's own version of this function, \<open>removePaneFromLayoutNode\<close> in \<open>core/layout.go\<close>, copies it.)
\<close>

lemma collapse_loses_outer_size:
  assumes "t \<noteq> n" "sz \<noteq> Some 50"
  shows "remove_pane (snd (split_layout (Leaf t sz) t d n)) n = Some (Leaf t (Some 50))
     \<and> remove_pane (snd (split_layout (Leaf t sz) t d n)) n \<noteq> Some (Leaf t sz)"
  using assms by (simp add: rebuild_cases)

subsection \<open>The pane in a direction\<close>

text \<open>
  The panes of the tab, in the order of its map, with the rectangle the browser gives for each
  (\<open>getBoundingClientRect\<close>, an argument of the model; absent when the pane has no element).
\<close>

record dom_rect =
  d_left :: rat
  d_top :: rat
  d_right :: rat
  d_bottom :: rat
  d_width :: rat
  d_height :: rat

record pane_rect =
  pr_id :: string
  pr_left :: rat
  pr_top :: rat
  pr_right :: rat
  pr_bottom :: rat

record pane_metric =
  m_rank :: nat
  m_primary :: rat
  m_distance :: rat
  m_secondary :: rat
  m_index :: nat

definition overlap_length :: "rat \<Rightarrow> rat \<Rightarrow> rat \<Rightarrow> rat \<Rightarrow> rat" where
  "overlap_length start_a end_a start_b end_b = max 0 (min end_a end_b - max start_a start_b)"

definition pane_rect_of :: "(string \<Rightarrow> dom_rect option) \<Rightarrow> string \<Rightarrow> pane_rect option" where
  "pane_rect_of rect_of p = (case rect_of p of None \<Rightarrow> None
     | Some r \<Rightarrow> if d_width r \<le> 0 \<or> d_height r \<le> 0 then None
         else Some \<lparr>pr_id = p, pr_left = d_left r, pr_top = d_top r, pr_right = d_right r, pr_bottom = d_bottom r\<rparr>)"

definition pane_rect_snapshot :: "(string \<Rightarrow> dom_rect option) \<Rightarrow> string list \<Rightarrow> pane_rect list" where
  "pane_rect_snapshot rect_of panes = List.map_filter (pane_rect_of rect_of) panes"

definition compare_metric :: "pane_metric option \<Rightarrow> pane_metric option \<Rightarrow> rat" where
  "compare_metric left right = (case left of None \<Rightarrow> 1 | Some l \<Rightarrow>
     (case right of None \<Rightarrow> -1 | Some r \<Rightarrow>
       if m_rank l \<noteq> m_rank r then of_nat (m_rank l) - of_nat (m_rank r)
       else if m_primary l \<noteq> m_primary r then m_primary r - m_primary l
       else if m_distance l \<noteq> m_distance r then m_distance l - m_distance r
       else if m_secondary l \<noteq> m_secondary r then m_secondary l - m_secondary r
       else of_nat (m_index l) - of_nat (m_index r)))"

definition horizontal_metric :: "pane_rect \<Rightarrow> pane_rect \<Rightarrow> bool \<Rightarrow> nat \<Rightarrow> pane_metric option" where
  "horizontal_metric cur cand left i =
     (let overlap = overlap_length (pr_top cur) (pr_bottom cur) (pr_top cand) (pr_bottom cand);
          distance = (if left then pr_left cur - pr_right cand else pr_left cand - pr_right cur);
          same_edge = (\<bar>pr_top cand - pr_top cur\<bar> \<le> 6);
          contains = (pr_top cand \<le> pr_top cur + 6 \<and> pr_bottom cur - 6 \<le> pr_bottom cand)
      in if overlap \<le> 0 then None else if distance < -6 then None
         else Some \<lparr>m_rank = (if same_edge then 0 else if contains then 1 else 2), m_primary = overlap,
                    m_distance = max 0 distance, m_secondary = \<bar>pr_top cand - pr_top cur\<bar>, m_index = i\<rparr>)"

definition vertical_metric :: "pane_rect \<Rightarrow> pane_rect \<Rightarrow> bool \<Rightarrow> nat \<Rightarrow> pane_metric option" where
  "vertical_metric cur cand up i =
     (let overlap = overlap_length (pr_left cur) (pr_right cur) (pr_left cand) (pr_right cand);
          distance = (if up then pr_top cur - pr_bottom cand else pr_top cand - pr_bottom cur);
          same_edge = (\<bar>pr_left cand - pr_left cur\<bar> \<le> 6);
          contains = (pr_left cand \<le> pr_left cur + 6 \<and> pr_right cur - 6 \<le> pr_right cand)
      in if overlap \<le> 0 then None else if distance < -6 then None
         else Some \<lparr>m_rank = (if same_edge then 0 else if contains then 1 else 2), m_primary = overlap,
                    m_distance = max 0 distance, m_secondary = \<bar>pr_left cand - pr_left cur\<bar>, m_index = i\<rparr>)"

definition direction_metric :: "string \<Rightarrow> pane_rect \<Rightarrow> pane_rect \<Rightarrow> nat \<Rightarrow> pane_metric option" where
  "direction_metric direction cur cand i =
     (if direction = ''left'' then horizontal_metric cur cand True i
      else if direction = ''right'' then horizontal_metric cur cand False i
      else if direction = ''up'' then vertical_metric cur cand True i
      else if direction = ''down'' then vertical_metric cur cand False i
      else None)"

type_synonym best = "(pane_metric \<times> pane_rect) option"

definition consider_pane :: "string \<Rightarrow> string \<Rightarrow> pane_rect \<Rightarrow> best \<Rightarrow> nat \<times> pane_rect \<Rightarrow> best" where
  "consider_pane direction active cur b e = (case e of (i, cand) \<Rightarrow>
     if pr_id cand = active then b
     else (case direction_metric direction cur cand i of None \<Rightarrow> b
       | Some m \<Rightarrow> if compare_metric (Some m) (map_option fst b) < 0 then Some (m, cand) else b))"

text \<open>
  \<open>selectPaneInDirection\<close>: the pane the controller makes active, or none; \<open>present\<close> says that the
  tab exists and has the active pane.
\<close>

definition best_pane :: "string \<Rightarrow> string \<Rightarrow> pane_rect list \<Rightarrow> best" where
  "best_pane direction active rects = (case List.find (\<lambda>r. pr_id r = active) rects of None \<Rightarrow> None
     | Some cur \<Rightarrow> foldl (consider_pane direction active cur) None (enumerate 0 rects))"

definition select_in_direction ::
    "bool \<Rightarrow> (string \<Rightarrow> dom_rect option) \<Rightarrow> string list \<Rightarrow> string \<Rightarrow> string \<Rightarrow> string option" where
  "select_in_direction disposed rect_of panes active direction =
     (if disposed \<or> active \<notin> set panes then None
      else case best_pane direction active (pane_rect_snapshot rect_of panes) of None \<Rightarrow> None
        | Some (m, r) \<Rightarrow> if pr_id r = [] then None else Some (pr_id r))"

subsection \<open>The comparison of metrics is a linear order\<close>

definition metric_before :: "pane_metric \<Rightarrow> pane_metric \<Rightarrow> bool" where
  "metric_before l r = (compare_metric (Some l) (Some r) < 0)"

lemma metric_before_iff:
  "metric_before l r = (m_rank l < m_rank r \<or> m_rank l = m_rank r \<and> (m_primary r < m_primary l
     \<or> m_primary l = m_primary r \<and> (m_distance l < m_distance r \<or> m_distance l = m_distance r
     \<and> (m_secondary l < m_secondary r \<or> m_secondary l = m_secondary r \<and> m_index l < m_index r))))"
  by (auto simp: metric_before_def compare_metric_def)

lemma metric_before_trans: "\<lbrakk>metric_before a b; metric_before b c\<rbrakk> \<Longrightarrow> metric_before a c"
  unfolding metric_before_iff by linarith

lemma metric_not_before_trans: "\<lbrakk>\<not> metric_before b a; metric_before c a\<rbrakk> \<Longrightarrow> \<not> metric_before b c"
  using metric_before_trans by blast

lemma metric_before_irrefl [simp]: "\<not> metric_before a a"
  by (simp add: metric_before_iff)

lemma compare_with_best: "(compare_metric (Some m) (map_option fst b) < 0)
    = (case b of None \<Rightarrow> True | Some (m', r) \<Rightarrow> metric_before m m')"
  by (auto simp: metric_before_def compare_metric_def split: option.split)

text \<open>What the loop keeps: the best candidate so far is one of those seen, and none seen is before it.\<close>

definition best_of :: "string \<Rightarrow> string \<Rightarrow> pane_rect \<Rightarrow> (nat \<times> pane_rect) list \<Rightarrow> best \<Rightarrow> bool" where
  "best_of direction active cur seen b = (case b of
     None \<Rightarrow> \<forall>(i, c) \<in> set seen. pr_id c \<noteq> active \<longrightarrow> direction_metric direction cur c i = None
   | Some (m, r) \<Rightarrow> (\<exists>i. (i, r) \<in> set seen \<and> pr_id r \<noteq> active \<and> direction_metric direction cur r i = Some m)
       \<and> (\<forall>(i, c) \<in> set seen. pr_id c \<noteq> active \<longrightarrow>
            (case direction_metric direction cur c i of None \<Rightarrow> True | Some m' \<Rightarrow> \<not> metric_before m' m)))"

lemma best_of_step:
  assumes "best_of direction active cur seen b"
  shows "best_of direction active cur (seen @ [e]) (consider_pane direction active cur b e)"
proof (cases e)
  case (Pair i c)
  show ?thesis
  proof (cases "pr_id c = active \<or> direction_metric direction cur c i = None")
    case True
    then have "consider_pane direction active cur b e = b" by (auto simp: consider_pane_def Pair)
    with assms True show ?thesis by (auto simp: best_of_def Pair split: option.splits)
  next
    case False
    then obtain m where m: "direction_metric direction cur c i = Some m" "pr_id c \<noteq> active" by auto
    show ?thesis
    proof (cases "case b of None \<Rightarrow> True | Some (m', r) \<Rightarrow> metric_before m m'")
      case True
      then have "consider_pane direction active cur b e = Some (m, c)"
        using m by (simp add: consider_pane_def Pair compare_with_best)
      with assms True m show ?thesis
        by (fastforce simp: best_of_def Pair dest: metric_not_before_trans split: option.splits)
    next
      case F: False
      then have "consider_pane direction active cur b e = b"
        using m by (simp add: consider_pane_def Pair compare_with_best)
      with assms F m show ?thesis by (auto simp: best_of_def Pair split: option.splits)
    qed
  qed
qed

lemma best_of_fold: "best_of direction active cur es (foldl (consider_pane direction active cur) None es)"
  by (induction es rule: rev_induct) (auto simp: best_of_step, simp add: best_of_def)

lemma best_pane_cases:
  assumes "best_pane direction active rects = Some (m, r)"
  obtains cur i where "List.find (\<lambda>r. pr_id r = active) rects = Some cur" "i < length rects" "rects ! i = r"
    "pr_id r \<noteq> active" "direction_metric direction cur r i = Some m"
    "\<And>j. \<lbrakk>j < length rects; pr_id (rects ! j) \<noteq> active\<rbrakk> \<Longrightarrow>
        (case direction_metric direction cur (rects ! j) j of None \<Rightarrow> True | Some m' \<Rightarrow> \<not> metric_before m' m)"
proof -
  from assms obtain cur where cur: "List.find (\<lambda>r. pr_id r = active) rects = Some cur"
    and f: "foldl (consider_pane direction active cur) None (enumerate 0 rects) = Some (m, r)"
    by (auto simp: best_pane_def split: option.splits)
  have "best_of direction active cur (enumerate 0 rects) (Some (m, r))"
    using best_of_fold [of direction active cur "enumerate 0 rects"] by (simp add: f)
  then obtain i where i: "(i, r) \<in> set (enumerate 0 rects)" "pr_id r \<noteq> active"
      "direction_metric direction cur r i = Some m"
    and best: "\<forall>(i, c) \<in> set (enumerate 0 rects). pr_id c \<noteq> active \<longrightarrow>
        (case direction_metric direction cur c i of None \<Rightarrow> True | Some m' \<Rightarrow> \<not> metric_before m' m)"
    by (auto simp: best_of_def)
  have "(j, rects ! j) \<in> set (enumerate 0 rects)" if "j < length rects" for j
    using that by (simp add: in_set_enumerate_eq)
  with best i cur show ?thesis by (intro that) (auto simp: in_set_enumerate_eq)
qed

text \<open>
  The pane that becomes active in a direction is another pane of the tab that lies on that side
  (it has a metric), and no other pane on that side compares before it.
\<close>

theorem direction_pick_is_best:
  assumes "select_in_direction disposed rect_of panes active direction = Some p"
  shows "\<exists>cur i m. List.find (\<lambda>r. pr_id r = active) (pane_rect_snapshot rect_of panes) = Some cur
     \<and> i < length (pane_rect_snapshot rect_of panes)
     \<and> pr_id (pane_rect_snapshot rect_of panes ! i) = p \<and> p \<noteq> active
     \<and> direction_metric direction cur (pane_rect_snapshot rect_of panes ! i) i = Some m
     \<and> (\<forall>j < length (pane_rect_snapshot rect_of panes). pr_id (pane_rect_snapshot rect_of panes ! j) \<noteq> active \<longrightarrow>
         (case direction_metric direction cur (pane_rect_snapshot rect_of panes ! j) j of None \<Rightarrow> True
          | Some m' \<Rightarrow> 0 \<le> compare_metric (Some m') (Some m)))"
proof -
  from assms obtain m r where b: "best_pane direction active (pane_rect_snapshot rect_of panes) = Some (m, r)"
    and p: "p = pr_id r"
    by (auto simp: select_in_direction_def split: if_splits option.splits)
  show ?thesis
  proof (rule best_pane_cases [OF b], goal_cases)
    case (1 cur i)
    have "\<forall>j < length (pane_rect_snapshot rect_of panes). pr_id (pane_rect_snapshot rect_of panes ! j) \<noteq> active \<longrightarrow>
        (case direction_metric direction cur (pane_rect_snapshot rect_of panes ! j) j of None \<Rightarrow> True
         | Some m' \<Rightarrow> 0 \<le> compare_metric (Some m') (Some m))"
      using 1(6) [unfolded metric_before_def not_less] by blast
    with 1 show ?case
      by (intro exI [of _ cur] exI [of _ i] exI [of _ m] conjI) (simp_all add: p)
  qed
qed

definition sample_rects :: "string \<Rightarrow> dom_rect option" where
  "sample_rects p = (if p = ''a'' then Some \<lparr>d_left = 0, d_top = 0, d_right = 10, d_bottom = 20, d_width = 10, d_height = 20\<rparr>
     else if p = ''b'' then Some \<lparr>d_left = 10, d_top = 0, d_right = 20, d_bottom = 8, d_width = 10, d_height = 8\<rparr>
     else if p = ''c'' then Some \<lparr>d_left = 10, d_top = 8, d_right = 20, d_bottom = 20, d_width = 10, d_height = 12\<rparr>
     else None)"

lemma direction_pick_is_best_witness:
  "select_in_direction False sample_rects [''a'', ''b'', ''c''] ''a'' ''right'' = Some ''b''
   \<and> (\<exists>i < length (pane_rect_snapshot sample_rects [''a'', ''b'', ''c'']).
        pr_id (pane_rect_snapshot sample_rects [''a'', ''b'', ''c''] ! i) = ''b'')"
proof -
  have s: "select_in_direction False sample_rects [''a'', ''b'', ''c''] ''a'' ''right'' = Some ''b''"
    by code_simp
  show ?thesis using direction_pick_is_best [OF s] s by blast
qed

end
