(* ===== verification/Tab_Activation.thy ===== *)
theory Tab_Activation
  imports Js
begin

section \<open>The steps of a tab activation\<close>

text \<open>
  Model of \<open>src/runtime/static/workspace/tab_activation_scheduler.js\<close>: an activation is a list of steps
  run one per animation frame and timer turn; a later activation, a cancellation or the disposal
  makes the rest of the list stale. A step is named by a number; the scheduler calls it makes while
  it runs are part of the event that runs it, as is whether it throws. The browser's frame and
  timer queues are the two slots of the state: a cancelled handle never fires.
\<close>

subsection \<open>State and operations\<close>

record activation_job =
  aj_gen :: nat
  aj_tab :: string
  aj_steps :: "nat list"
  aj_index :: nat

record ran_step =
  rn_gen :: nat
  rn_tab :: string
  rn_index :: nat
  rn_step :: nat

record activation =
  ac_gen :: nat
  ac_tab :: string
  ac_frame :: "activation_job option"
  ac_timer :: "activation_job option"
  ac_disposed :: bool
  ac_ran :: "ran_step list"

definition ac_start :: activation where
  "ac_start = \<lparr>ac_gen = 0, ac_tab = [], ac_frame = None, ac_timer = None, ac_disposed = False, ac_ran = []\<rparr>"

definition ac_clear_pending :: "activation \<Rightarrow> activation" where
  "ac_clear_pending s = s\<lparr>ac_frame := None, ac_timer := None\<rparr>"

definition ac_is_current :: "activation \<Rightarrow> nat \<Rightarrow> string \<Rightarrow> bool" where
  "ac_is_current s g t = (\<not> ac_disposed s \<and> ac_gen s = g \<and> ac_tab s = t)"

definition ac_schedule_step :: "activation_job \<Rightarrow> activation \<Rightarrow> activation" where
  "ac_schedule_step job s = s\<lparr>ac_frame := Some job\<rparr>"

definition ac_schedule :: "jsval \<Rightarrow> nat list \<Rightarrow> activation \<Rightarrow> activation" where
  "ac_schedule tab steps s = (if ac_disposed s then s else
     let s1 = (ac_clear_pending s)\<lparr>ac_gen := ac_gen s + 1, ac_tab := js_trim (string_or_empty tab)\<rparr>
     in if ac_tab s1 \<noteq> [] \<and> steps \<noteq> []
        then ac_schedule_step \<lparr>aj_gen = ac_gen s1, aj_tab = ac_tab s1, aj_steps = steps, aj_index = 0\<rparr> s1
        else s1)"

definition ac_cancel :: "activation \<Rightarrow> activation" where
  "ac_cancel s = (ac_clear_pending s)\<lparr>ac_gen := ac_gen s + 1, ac_tab := []\<rparr>"

definition ac_dispose :: "activation \<Rightarrow> activation" where
  "ac_dispose s = (ac_cancel s)\<lparr>ac_disposed := True\<rparr>"

text \<open>What a caller, or a running step, can ask.\<close>

datatype ac_call = Activate jsval "nat list" | CancelActivation | DisposeActivation

fun ac_apply :: "activation \<Rightarrow> ac_call \<Rightarrow> activation" where
  "ac_apply s (Activate tab steps) = ac_schedule tab steps s"
| "ac_apply s CancelActivation = ac_cancel s"
| "ac_apply s DisposeActivation = ac_dispose s"

definition ac_frame_fires :: "activation \<Rightarrow> activation" where
  "ac_frame_fires s = (case ac_frame s of None \<Rightarrow> s
     | Some job \<Rightarrow> s\<lparr>ac_frame := None, ac_timer := Some job\<rparr>)"

definition ac_log_step :: "activation_job \<Rightarrow> activation \<Rightarrow> activation" where
  "ac_log_step job s = s\<lparr>ac_ran := ac_ran s @
     [\<lparr>rn_gen = aj_gen job, rn_tab = aj_tab job, rn_index = aj_index job, rn_step = aj_steps job ! aj_index job\<rparr>]\<rparr>"

definition ac_after_step :: "activation_job \<Rightarrow> activation \<Rightarrow> activation" where
  "ac_after_step job s =
     (if ac_is_current s (aj_gen job) (aj_tab job) \<and> aj_index job + 1 < length (aj_steps job)
      then ac_schedule_step (job\<lparr>aj_index := aj_index job + 1\<rparr>) s else s)"

definition ac_timer_fires :: "ac_call list \<Rightarrow> bool \<Rightarrow> activation \<Rightarrow> activation" where
  "ac_timer_fires calls throws s = (case ac_timer s of None \<Rightarrow> s
     | Some job \<Rightarrow>
        let s1 = s\<lparr>ac_timer := None\<rparr> in
        if \<not> ac_is_current s1 (aj_gen job) (aj_tab job) then s1
        else let s2 = foldl ac_apply (ac_log_step job s1) calls
             in if throws then s2 else ac_after_step job s2)"

datatype ac_event = AcCall ac_call | FrameFires | TimerFires "ac_call list" bool

fun ac_step :: "activation \<Rightarrow> ac_event \<Rightarrow> activation" where
  "ac_step s (AcCall c) = ac_apply s c"
| "ac_step s FrameFires = ac_frame_fires s"
| "ac_step s (TimerFires calls throws) = ac_timer_fires calls throws s"

subsection \<open>The invariant\<close>

definition ran_of :: "nat \<Rightarrow> ran_step list \<Rightarrow> nat list" where
  "ran_of g xs = map rn_index (filter (\<lambda>r. rn_gen r = g) xs)"

definition ordered_log :: "ran_step list \<Rightarrow> bool" where
  "ordered_log xs = (sorted (map rn_gen xs) \<and> (\<forall>g. ran_of g xs = [0..<length (ran_of g xs)]))"

text \<open>A pending job belongs to the current activation and waits for the next step of it.\<close>

definition job_ok :: "activation \<Rightarrow> activation_job \<Rightarrow> bool" where
  "job_ok s j = (aj_gen j = ac_gen s \<and> aj_tab j = ac_tab s \<and> aj_index j < length (aj_steps j)
     \<and> aj_index j = length (ran_of (ac_gen s) (ac_ran s)))"

definition ac_inv :: "activation \<Rightarrow> bool" where
  "ac_inv s = (ordered_log (ac_ran s) \<and> (\<forall>r \<in> set (ac_ran s). rn_gen r \<le> ac_gen s)
     \<and> (\<forall>j. ac_frame s = Some j \<longrightarrow> job_ok s j \<and> ac_timer s = None)
     \<and> (\<forall>j. ac_timer s = Some j \<longrightarrow> job_ok s j))"

lemma ran_of_Nil_above: "(\<forall>r \<in> set xs. rn_gen r \<le> g) \<Longrightarrow> ran_of (Suc g) xs = []"
  by (auto simp: ran_of_def filter_empty_conv)

lemma ac_inv_start: "ac_inv ac_start"
  by (simp add: ac_inv_def ac_start_def ordered_log_def ran_of_def)

lemma ac_inv_cancel: "ac_inv s \<Longrightarrow> ac_inv (ac_cancel s)"
  by (auto simp: ac_inv_def ac_cancel_def ac_clear_pending_def le_SucI)

lemma job_ok_slots [simp]:
  "job_ok (s\<lparr>ac_frame := x\<rparr>) j = job_ok s j"
  "job_ok (s\<lparr>ac_timer := x\<rparr>) j = job_ok s j"
  "job_ok (s\<lparr>ac_disposed := d\<rparr>) j = job_ok s j"
  by (simp_all add: job_ok_def)

lemma ac_inv_dispose: "ac_inv s \<Longrightarrow> ac_inv (ac_dispose s)"
  using ac_inv_cancel [of s] by (simp add: ac_dispose_def ac_inv_def)

lemma ac_inv_fresh:
  assumes "ac_inv s"
  shows "ac_inv ((ac_clear_pending s)\<lparr>ac_gen := ac_gen s + 1, ac_tab := t\<rparr>)"
  using assms by (auto simp: ac_inv_def ac_clear_pending_def le_SucI)

lemma ac_inv_schedule: "ac_inv s \<Longrightarrow> ac_inv (ac_schedule tab steps s)"
proof -
  assume inv: "ac_inv s"
  let ?t = "js_trim (string_or_empty tab)"
  let ?s1 = "(ac_clear_pending s)\<lparr>ac_gen := ac_gen s + 1, ac_tab := ?t\<rparr>"
  let ?j = "\<lparr>aj_gen = ac_gen ?s1, aj_tab = ac_tab ?s1, aj_steps = steps, aj_index = 0\<rparr>"
  have f: "ac_inv ?s1" by (rule ac_inv_fresh [OF inv])
  have "ran_of (Suc (ac_gen s)) (ac_ran s) = []"
    using inv by (intro ran_of_Nil_above) (simp add: ac_inv_def)
  then have j: "job_ok ?s1 ?j" if "steps \<noteq> []"
    using that by (simp add: job_ok_def ac_clear_pending_def)
  have "ac_inv (ac_schedule_step ?j ?s1)" if "steps \<noteq> []"
    using f j [OF that] unfolding ac_schedule_step_def ac_inv_def job_ok_slots
    by (simp add: ac_clear_pending_def)
  then show ?thesis using f inv by (simp add: ac_schedule_def Let_def)
qed

lemma ac_inv_apply: "ac_inv s \<Longrightarrow> ac_inv (ac_apply s c)"
  by (cases c) (simp_all add: ac_inv_cancel ac_inv_dispose ac_inv_schedule)

interpretation ac_calls: invariant_machine ac_apply ac_inv
  by standard (rule ac_inv_apply)

lemma ac_inv_frame: "ac_inv s \<Longrightarrow> ac_inv (ac_frame_fires s)"
  by (simp add: ac_inv_def ac_frame_fires_def split: option.split)

text \<open>Logging the current job keeps the order; afterwards the next step of the same job is due.\<close>

lemma ran_of_snoc: "ran_of g (xs @ [r]) = ran_of g xs @ (if rn_gen r = g then [rn_index r] else [])"
  by (simp add: ran_of_def)

lemma ordered_log_snoc:
  assumes "ordered_log xs" "\<forall>r \<in> set xs. rn_gen r \<le> rn_gen e" "rn_index e = length (ran_of (rn_gen e) xs)"
  shows "ordered_log (xs @ [e])"
proof -
  have "ran_of g (xs @ [e]) = [0..<length (ran_of g (xs @ [e]))]" for g
  proof (cases "rn_gen e = g")
    case True
    have "ran_of g xs = [0..<length (ran_of g xs)]" using assms(1) by (simp add: ordered_log_def)
    then have "ran_of g xs @ [length (ran_of g xs)] = [0..<Suc (length (ran_of g xs))]" by simp
    then show ?thesis using True assms(3) by (simp add: ran_of_snoc)
  next
    case False
    have "ran_of g xs = [0..<length (ran_of g xs)]" using assms(1) by (simp add: ordered_log_def)
    then show ?thesis using False by (simp add: ran_of_snoc)
  qed
  then show ?thesis using assms by (simp add: ordered_log_def sorted_append)
qed

lemma ac_inv_log:
  assumes "ac_inv s" "job_ok s j" "ac_frame s = None" "ac_timer s = None"
  shows "ac_inv (ac_log_step j s)"
  using assms by (simp add: ac_inv_def ac_log_step_def job_ok_def ordered_log_snoc)

text \<open>While a step runs, its calls either keep the activation or move to a later one.\<close>

definition later :: "activation \<Rightarrow> activation \<Rightarrow> bool" where
  "later s t = (ac_ran t = ac_ran s \<and> (ac_gen s < ac_gen t \<or> t = s))"

lemma later_apply: "later s (ac_apply s c)"
  by (cases c) (auto simp: later_def ac_schedule_def ac_schedule_step_def ac_cancel_def ac_dispose_def
      ac_clear_pending_def Let_def)

lemma later_run: "later s (foldl ac_apply s cs)"
proof (induction cs arbitrary: s)
  case (Cons c cs)
  show ?case using Cons [of "ac_apply s c"] later_apply [of s c] by (auto simp: later_def)
qed (simp add: later_def)

lemma ac_inv_timer: "ac_inv s \<Longrightarrow> ac_inv (ac_timer_fires calls throws s)"
proof (cases "ac_timer s")
  case (Some j)
  assume inv: "ac_inv s"
  let ?s1 = "s\<lparr>ac_timer := None\<rparr>"
  let ?s2 = "ac_log_step j ?s1"
  let ?s3 = "foldl ac_apply ?s2 calls"
  have j: "job_ok ?s1 j" and fr: "ac_frame ?s1 = None" and i1: "ac_inv ?s1"
    using inv Some by (auto simp: ac_inv_def)
  have i2: "ac_inv ?s2" using i1 j fr by (simp add: ac_inv_log)
  have i3: "ac_inv ?s3" by (rule ac_calls.inv_run [OF i2])
  have "ac_inv (ac_after_step j ?s3)"
  proof (cases "ac_is_current ?s3 (aj_gen j) (aj_tab j) \<and> aj_index j + 1 < length (aj_steps j)")
    case True
    have "ac_gen ?s2 = aj_gen j" using j by (simp add: ac_log_step_def job_ok_def)
    then have e: "?s3 = ?s2" using later_run [of ?s2 calls] True by (auto simp: later_def ac_is_current_def)
    have "job_ok ?s2 (j\<lparr>aj_index := aj_index j + 1\<rparr>)"
      using j True by (simp add: job_ok_def ac_log_step_def ran_of_snoc)
    moreover have "ac_timer ?s2 = None" by (simp add: ac_log_step_def)
    ultimately have "ac_inv (ac_schedule_step (j\<lparr>aj_index := aj_index j + 1\<rparr>) ?s2)"
      using i2 by (simp add: ac_inv_def ac_schedule_step_def)
    then show ?thesis using True e by (simp add: ac_after_step_def)
  next
    case False
    then have "ac_after_step j ?s3 = ?s3" unfolding ac_after_step_def by (rule if_not_P)
    then show ?thesis using i3 by simp
  qed
  then show ?thesis using i1 i3 by (simp add: ac_timer_fires_def Some Let_def)
qed (simp add: ac_timer_fires_def)

lemma ac_inv_step: "ac_inv s \<Longrightarrow> ac_inv (ac_step s e)"
  by (cases e) (simp_all add: ac_inv_apply ac_inv_frame ac_inv_timer)

interpretation ac: invariant_machine ac_step ac_inv
  by standard (rule ac_inv_step)

text \<open>
  Whatever is activated, cancelled or disposed, also from inside a running step: the steps run
  in the order of the activations, and those of one activation are its first steps, each once and
  in order.
\<close>

theorem activation_steps_in_order:
  "sorted (map rn_gen (ac_ran (foldl ac_step ac_start es)))
   \<and> (\<exists>k. ran_of g (ac_ran (foldl ac_step ac_start es)) = [0..<k])"
  using ac.inv_run [OF ac_inv_start, of es] by (auto simp: ac_inv_def ordered_log_def)

subsection \<open>Activations that are superseded, and those that finish\<close>

lemma ac_gen_mono: "ac_gen s \<le> ac_gen (ac_step s e)"
proof (cases e)
  case (AcCall c)
  then show ?thesis using later_apply [of s c] by (auto simp: later_def)
next
  case (TimerFires calls throws)
  show ?thesis
  proof (cases "ac_timer s")
    case (Some j)
    let ?s2 = "ac_log_step j (s\<lparr>ac_timer := None\<rparr>)"
    have "ac_gen s \<le> ac_gen (foldl ac_apply ?s2 calls)"
      using later_run [of ?s2 calls] by (auto simp: later_def ac_log_step_def)
    then show ?thesis
      by (simp add: TimerFires ac_timer_fires_def Some Let_def ac_after_step_def ac_schedule_step_def)
  qed (simp add: TimerFires ac_timer_fires_def)
qed (simp add: ac_frame_fires_def split: option.split)

definition ac_supersedes :: "activation \<Rightarrow> ac_event \<Rightarrow> bool" where
  "ac_supersedes s e = (case e of AcCall (Activate tab steps) \<Rightarrow> \<not> ac_disposed s
     | AcCall _ \<Rightarrow> True | _ \<Rightarrow> False)"

lemma ac_gen_bump: "ac_supersedes s e \<Longrightarrow> ac_gen s < ac_gen (ac_step s e)"
  by (cases e) (auto simp: ac_supersedes_def ac_schedule_def ac_schedule_step_def ac_cancel_def ac_dispose_def
      ac_clear_pending_def Let_def split: ac_call.splits)

interpretation acg: generation_machine ac_step ac_gen ac_supersedes
  by standard (rule ac_gen_mono, rule ac_gen_bump)

lemma superseded_not_current:
  "ac_supersedes s e \<Longrightarrow> \<not> ac_is_current (foldl ac_step (ac_step s e) es) (ac_gen s) t"
  using acg.stale_after_bump [of s e es] by (simp add: ac_is_current_def)

text \<open>An uninterrupted activation: one frame and one timer turn for each of its steps.\<close>

definition ac_turn :: "ac_event list" where
  "ac_turn = [FrameFires, TimerFires [] False]"

lemma ac_turn_step:
  assumes "ac_frame s = Some j" "ac_timer s = None" "ac_is_current s (aj_gen j) (aj_tab j)"
    "aj_index j < length (aj_steps j)"
  shows "foldl ac_step s ac_turn = s\<lparr>ac_frame := (if aj_index j + 1 < length (aj_steps j)
       then Some (j\<lparr>aj_index := aj_index j + 1\<rparr>) else None),
     ac_ran := ac_ran s @ [\<lparr>rn_gen = aj_gen j, rn_tab = aj_tab j, rn_index = aj_index j, rn_step = aj_steps j ! aj_index j\<rparr>]\<rparr>"
  using assms
  by (simp add: ac_turn_def ac_frame_fires_def ac_timer_fires_def ac_log_step_def ac_after_step_def
      ac_is_current_def ac_schedule_step_def Let_def)

lemma ac_turns:
  assumes "ac_frame s = Some j" "ac_timer s = None" "ac_is_current s (aj_gen j) (aj_tab j)"
    "aj_index j < length (aj_steps j)"
  shows "map rn_step (ac_ran (foldl ac_step s (concat (replicate (length (aj_steps j) - aj_index j) ac_turn))))
     = map rn_step (ac_ran s) @ drop (aj_index j) (aj_steps j)"
  using assms
proof (induction "length (aj_steps j) - aj_index j" arbitrary: s j)
  case (Suc n)
  let ?s' = "foldl ac_step s ac_turn"
  let ?j' = "j\<lparr>aj_index := aj_index j + 1\<rparr>"
  have t: "?s' = s\<lparr>ac_frame := (if aj_index j + 1 < length (aj_steps j) then Some ?j' else None),
     ac_ran := ac_ran s @ [\<lparr>rn_gen = aj_gen j, rn_tab = aj_tab j, rn_index = aj_index j, rn_step = aj_steps j ! aj_index j\<rparr>]\<rparr>"
    by (rule ac_turn_step) (use Suc.prems in simp_all)
  have d: "drop (aj_index j) (aj_steps j) = aj_steps j ! aj_index j # drop (Suc (aj_index j)) (aj_steps j)"
    using Suc.prems by (simp add: Cons_nth_drop_Suc)
  have n: "length (aj_steps j) - aj_index j = Suc n" using Suc.hyps by simp
  show ?case
  proof (cases "aj_index j + 1 < length (aj_steps j)")
    case True
    have "map rn_step (ac_ran (foldl ac_step ?s' (concat (replicate (length (aj_steps ?j') - aj_index ?j') ac_turn))))
        = map rn_step (ac_ran ?s') @ drop (aj_index ?j') (aj_steps ?j')"
      by (rule Suc.hyps(1)) (use n Suc.prems True in \<open>simp_all add: t ac_is_current_def\<close>)
    moreover have "length (aj_steps ?j') - aj_index ?j' = n" using n by simp
    ultimately show ?thesis using True by (simp add: n d t)
  next
    case False
    then have "n = 0" using n by simp
    with False show ?thesis by (simp add: n d t)
  qed
qed simp

text \<open>
  An activation that nothing interrupts runs all its steps, in order, in one frame and timer
  turn each.
\<close>

theorem activation_runs_every_step:
  assumes "js_trim (string_or_empty tab) \<noteq> []" "\<not> ac_disposed s" "steps \<noteq> []"
  shows "map rn_step (ac_ran (foldl ac_step (ac_step s (AcCall (Activate tab steps)))
       (concat (replicate (length steps) ac_turn))))
     = map rn_step (ac_ran s) @ steps"
proof -
  let ?s = "ac_schedule tab steps s"
  let ?j = "\<lparr>aj_gen = Suc (ac_gen s), aj_tab = js_trim (string_or_empty tab), aj_steps = steps, aj_index = 0\<rparr>"
  have "map rn_step (ac_ran (foldl ac_step ?s (concat (replicate (length (aj_steps ?j) - aj_index ?j) ac_turn))))
     = map rn_step (ac_ran ?s) @ drop (aj_index ?j) (aj_steps ?j)"
    by (rule ac_turns)
      (use assms in \<open>simp_all add: ac_schedule_def ac_schedule_step_def ac_clear_pending_def ac_is_current_def Let_def\<close>)
  then show ?thesis
    using assms by (simp add: ac_schedule_def ac_schedule_step_def ac_clear_pending_def Let_def)
qed

lemma activation_runs_every_step_witness:
  "map rn_step (ac_ran (foldl ac_step (ac_step ac_start (AcCall (Activate (Str ''t1'') [7, 8])))
       (concat (replicate 2 ac_turn)))) = [7, 8]"
proof -
  have "js_trim (string_or_empty (Str ''t1'')) \<noteq> []" by code_simp
  then show ?thesis
    using activation_runs_every_step [of "Str ''t1''" ac_start "[7, 8]"]
    by (simp add: ac_start_def numeral_2_eq_2)
qed

end
