(* ===== verification/Workspace_Tabs.thy ===== *)
theory Workspace_Tabs
  imports Js
begin

section \<open>The tabs of a workspace: identities, order and recent history\<close>

text \<open>
  Model of \<open>workspace/tab_registry.js\<close> and \<open>workspace/tab_navigation_controller.js\<close> under
  \<open>src/runtime/static\<close>: the registry that hands out tab identities, the order of the tabs on the
  screen, and the history of the two last tabs that the swap command uses. The tab bar is an
  argument (the identities of its buttons in document order), and so is the state of the
  browser's storage. A stored text is kept as the value it parses to.
\<close>

subsection \<open>The registry\<close>

record ws_tab =
  tb_id :: string
  tb_label :: string

record 't tab_registry =
  tr_tabs :: "(string, 't) jsmap"
  tr_active :: "string option"
  tr_next :: rat
  tr_disposed :: bool

definition registry_start :: "'t tab_registry" where
  "registry_start = \<lparr>tr_tabs = [], tr_active = None, tr_next = 1, tr_disposed = False\<rparr>"

definition strip_tab :: "string \<Rightarrow> string" where
  "strip_tab s = (if take 4 s = ''tab-'' then drop 4 s else s)"

definition allocate_tab_id :: "jsval \<Rightarrow> 't tab_registry \<Rightarrow> 't tab_registry \<times> string" where
  "allocate_tab_id v s =
     (let requested = js_trim (string_or_empty v);
          normalized = (if requested \<noteq> [] then requested else ''tab-'' @ num_text (Fin (tr_next s)))
      in case js_number_text (strip_tab normalized) of
           Fin n \<Rightarrow> if tr_next s \<le> n then (s\<lparr>tr_next := n + 1\<rparr>, normalized)
                   else if requested = [] then (s\<lparr>tr_next := tr_next s + 1\<rparr>, normalized) else (s, normalized)
         | _ \<Rightarrow> if requested = [] then (s\<lparr>tr_next := tr_next s + 1\<rparr>, normalized) else (s, normalized))"

definition set_active_tab_id :: "jsval \<Rightarrow> 't tab_registry \<Rightarrow> 't tab_registry" where
  "set_active_tab_id v s = s\<lparr>tr_active := (case v of Undef \<Rightarrow> None | Null \<Rightarrow> None
     | _ \<Rightarrow> if js_trim (js_string v) = [] then None else Some (js_trim (js_string v)))\<rparr>"

definition registry_clear :: "'t tab_registry \<Rightarrow> 't tab_registry" where
  "registry_clear s = s\<lparr>tr_tabs := [], tr_active := None\<rparr>"

definition registry_dispose :: "'t tab_registry \<Rightarrow> 't tab_registry \<times> bool" where
  "registry_dispose s = (if tr_disposed s then (s, False)
     else (registry_clear (s\<lparr>tr_disposed := True\<rparr>), True))"

definition registry_set :: "string \<Rightarrow> 't \<Rightarrow> 't tab_registry \<Rightarrow> 't tab_registry" where
  "registry_set i t s = s\<lparr>tr_tabs := mput i t (tr_tabs s)\<rparr>"

definition registry_delete :: "string \<Rightarrow> 't tab_registry \<Rightarrow> 't tab_registry \<times> bool" where
  "registry_delete i s = (s\<lparr>tr_tabs := mdel i (tr_tabs s)\<rparr>, mhas (tr_tabs s) i)"

fun allocate_all :: "jsval list \<Rightarrow> 't tab_registry \<Rightarrow> 't tab_registry \<times> string list" where
  "allocate_all [] s = (s, [])"
| "allocate_all (v # vs) s = (case allocate_tab_id v s of (s', i) \<Rightarrow>
     case allocate_all vs s' of (s'', is) \<Rightarrow> (s'', i # is))"

subsection \<open>Allocated identities\<close>

lemma strip_tab_prefix [simp]: "strip_tab (''tab-'' @ s) = s"
  by (simp add: strip_tab_def)

text \<open>Every identity handed out whose number is finite lies below the next number.\<close>

definition below_next :: "'t tab_registry \<Rightarrow> string \<Rightarrow> bool" where
  "below_next s i = (case js_number_text (strip_tab i) of Fin n \<Rightarrow> n < tr_next s | _ \<Rightarrow> True)"

lemma below_next_mono: "\<lbrakk>below_next s i; tr_next s \<le> tr_next s'\<rbrakk> \<Longrightarrow> below_next s' i"
  by (auto simp: below_next_def split: jnum.splits)

lemma allocate_next_mono: "tr_next s \<le> tr_next (fst (allocate_tab_id v s))"
  by (auto simp: allocate_tab_id_def Let_def split: jnum.split)

lemma allocate_below: "below_next (fst (allocate_tab_id v s)) (snd (allocate_tab_id v s))"
  by (auto simp: allocate_tab_id_def below_next_def Let_def split: jnum.splits)

lemma allocate_all_below:
  "list_all (below_next s) old \<Longrightarrow> list_all (below_next (fst (allocate_all vs s))) (old @ snd (allocate_all vs s))"
proof (induction vs arbitrary: s old)
  case (Cons v vs)
  obtain s' i where a: "allocate_tab_id v s = (s', i)" by (cases "allocate_tab_id v s")
  have "list_all (below_next s') old"
    using Cons.prems allocate_next_mono [of s v] by (auto simp: a list_all_iff intro: below_next_mono)
  moreover have "below_next s' i" using allocate_below [of v s] by (simp add: a)
  ultimately have "list_all (below_next s') (old @ [i])" by simp
  from Cons.IH [OF this] show ?case by (cases "allocate_all vs s'") (simp add: a)
qed simp

lemma digits_number:
  assumes "all_digits t"
  shows "unsigned_number t = Fin (of_nat (parse_nat t))"
proof -
  have "list_all is_digit t" and ne: "t \<noteq> []" using assms by (simp_all add: all_digits_def)
  then have tk: "takeWhile is_digit t = t" "dropWhile is_digit t = []"
    by (simp_all add: list_all_iff takeWhile_eq_all_conv dropWhile_eq_Nil_conv)
  have "t \<noteq> ''Infinity''" using assms by (auto simp: all_digits_def is_digit_def)
  then show ?thesis
    using ne by (simp add: unsigned_number_def parse_decimal_def Let_def tk exp_part_def scale10_def)
qed

lemma number_of_digits:
  assumes "all_digits t"
  shows "js_number_text t = Fin (of_nat (parse_nat t))"
proof -
  obtain c r where t: "t = c # r" using assms by (cases t) (auto simp: all_digits_def)
  have d: "is_digit c" "list_all is_digit r" using assms by (auto simp: t all_digits_def)
  have c: "c \<noteq> CHR ''-''" "c \<noteq> CHR ''+''" using d by (auto simp: is_digit_def)
  have r: "r = [] \<or> hd r \<notin> {CHR ''x'', CHR ''X'', CHR ''o'', CHR ''O'', CHR ''b'', CHR ''B''}"
    using d by (cases r) (auto simp: is_digit_def)
  have "js_number_text t = unsigned_number t"
    using c r unfolding js_number_text_def js_trim_digits [OF assms] Let_def by (auto simp: t)
  then show ?thesis by (simp add: digits_number [OF assms])
qed

lemma number_of_nat_text [simp]: "js_number_text (nat_text n) = Fin (of_nat n)"
  by (simp add: number_of_digits)

lemma num_text_nat: "n < 10 ^ 21 \<Longrightarrow> num_text (Fin (of_nat n)) = nat_text n"
proof -
  assume "n < 10 ^ 21"
  then have "(of_nat n :: rat) < of_nat (10 ^ 21)" by (simp only: of_nat_less_iff)
  then show ?thesis by (simp add: num_text_def int_text_def)
qed

text \<open>
  A tab created without a requested identity gets one that no earlier tab of the registry got,
  whatever identities were requested before (as long as the counter is an integer that JavaScript
  represents exactly).
\<close>

theorem allocated_tab_ids_fresh:
  assumes "tr_next (fst (allocate_all vs (registry_start :: 't tab_registry))) = of_nat n" "int n \<le> max_safe_int"
  shows "snd (allocate_tab_id Undef (fst (allocate_all vs (registry_start :: 't tab_registry))))
     \<notin> set (snd (allocate_all vs (registry_start :: 't tab_registry)))"
proof -
  let ?s = "fst (allocate_all vs (registry_start :: 't tab_registry))"
  have "n < 10 ^ 21" using assms(2) by (simp add: max_safe_int_def)
  then have new: "snd (allocate_tab_id Undef ?s) = ''tab-'' @ nat_text n"
    using num_text_nat [of n] assms(1)
    by (simp add: allocate_tab_id_def string_or_empty_def js_or_def js_truthy_def js_string_def Let_def
        split: jnum.split)
  have "\<not> below_next ?s (''tab-'' @ nat_text n)"
    using assms(1) by (simp add: below_next_def del: append_Cons)
  moreover have "list_all (below_next ?s) (snd (allocate_all vs (registry_start :: 't tab_registry)))"
    using allocate_all_below [of "registry_start :: 't tab_registry" "[]" vs] by simp
  ultimately show ?thesis by (auto simp: new list_all_iff simp del: append_Cons)
qed

lemma allocated_tab_ids_fresh_witness:
  "snd (allocate_tab_id Undef (fst (allocate_all [Undef, Str ''tab-7'', Str ''logs''] (registry_start :: ws_tab tab_registry))))
     \<notin> {''tab-1'', ''tab-7'', ''logs''}"
proof -
  have n: "tr_next (fst (allocate_all [Undef, Str ''tab-7'', Str ''logs''] (registry_start :: ws_tab tab_registry))) = of_nat 8"
    by code_simp
  have o: "set (snd (allocate_all [Undef, Str ''tab-7'', Str ''logs''] (registry_start :: ws_tab tab_registry))) = {''tab-1'', ''tab-7'', ''logs''}"
    by code_simp
  have b: "int 8 \<le> max_safe_int" by (simp add: max_safe_int_def)
  show ?thesis using allocated_tab_ids_fresh [OF n b] unfolding o .
qed

subsection \<open>Navigation\<close>

text \<open>The browser's storage: it works, is missing, or throws; a stored text is the value it parses to.\<close>

datatype storage_mode = Working | Missing | Throwing

datatype stored = Unparsable | NotArray | Ids "jsval list"

record navigation =
  nv_recent :: "string list"
  nv_disposed :: bool
  nv_mode :: storage_mode
  nv_store :: "(string, stored) jsmap"

type_synonym 't tabs = "(string, 't) jsmap"

definition nav_start :: "storage_mode \<Rightarrow> navigation" where
  "nav_start m = \<lparr>nv_recent = [], nv_disposed = False, nv_mode = m, nv_store = []\<rparr>"

definition recent_key :: "string \<Rightarrow> string \<Rightarrow> string" where
  "recent_key prefix name = prefix @ ''.recentTabs.'' @ (if name = [] then ''default'' else name)"

definition ordered_tabs :: "bool \<Rightarrow> string list \<Rightarrow> 'a ws_tab_scheme tabs \<Rightarrow> 'a ws_tab_scheme list" where
  "ordered_tabs disposed buttons tabs = (if disposed then [] else
     let shown = List.map_filter (mget tabs) buttons
     in shown @ filter (\<lambda>t. tb_id t \<notin> tb_id ` set shown) (mvals tabs))"

fun recent_loop :: "'t tabs \<Rightarrow> string list \<Rightarrow> jsval list \<Rightarrow> string list" where
  "recent_loop tabs next [] = next"
| "recent_loop tabs next (v # vs) =
     (let i = js_trim (string_or_empty v);
          next' = (if i \<noteq> [] \<and> mhas tabs i \<and> i \<notin> set next then next @ [i] else next)
      in if 2 \<le> length next' then next' else recent_loop tabs next' vs)"

text \<open>\<open>None\<close> is a value that is no array.\<close>

definition normalize_recent :: "'t tabs \<Rightarrow> jsval list option \<Rightarrow> string list" where
  "normalize_recent tabs ids = recent_loop tabs [] (case ids of None \<Rightarrow> [] | Some vs \<Rightarrow> vs)"

definition persist_recent :: "string \<Rightarrow> string \<Rightarrow> navigation \<Rightarrow> navigation \<times> bool" where
  "persist_recent prefix name s =
     (let target = js_trim name; key = recent_key prefix target in
      if nv_disposed s \<or> target = [] then (s, False)
      else case nv_mode s of
        Throwing \<Rightarrow> (s, False)
      | Missing \<Rightarrow> (s, True)
      | Working \<Rightarrow> (if nv_recent s \<noteq> [] then (s\<lparr>nv_store := mput key (Ids (map Str (nv_recent s))) (nv_store s)\<rparr>, True)
                    else (s\<lparr>nv_store := mdel key (nv_store s)\<rparr>, True)))"

definition load_recent :: "string \<Rightarrow> 't tabs \<Rightarrow> string \<Rightarrow> navigation \<Rightarrow> string list" where
  "load_recent prefix tabs name s =
     (let target = js_trim name in
      if nv_disposed s \<or> target = [] then []
      else case nv_mode s of
        Throwing \<Rightarrow> []
      | Missing \<Rightarrow> normalize_recent tabs (Some [])
      | Working \<Rightarrow> (case mget (nv_store s) (recent_key prefix target) of
            None \<Rightarrow> normalize_recent tabs (Some [])
          | Some Unparsable \<Rightarrow> []
          | Some NotArray \<Rightarrow> normalize_recent tabs None
          | Some (Ids vs) \<Rightarrow> normalize_recent tabs (Some vs)))"

definition apply_recent :: "string \<Rightarrow> 't tabs \<Rightarrow> bool \<Rightarrow> string \<Rightarrow> jsval list option \<Rightarrow> navigation \<Rightarrow> navigation" where
  "apply_recent prefix tabs persist name ids s =
     (if nv_disposed s then s else
      let s1 = s\<lparr>nv_recent := normalize_recent tabs ids\<rparr>
      in if persist then fst (persist_recent prefix name s1) else s1)"

definition prune_recent :: "string \<Rightarrow> 't tabs \<Rightarrow> string \<Rightarrow> navigation \<Rightarrow> navigation" where
  "prune_recent prefix tabs name s = apply_recent prefix tabs True name (Some (map Str (nv_recent s))) s"

fun remember_loop :: "'t tabs \<Rightarrow> string \<Rightarrow> string list \<Rightarrow> string list \<Rightarrow> string list" where
  "remember_loop tabs cur next [] = next"
| "remember_loop tabs cur next (i # is) =
     (let next' = (if i \<noteq> [] \<and> i \<noteq> cur \<and> mhas tabs i \<and> i \<notin> set next then next @ [i] else next)
      in if 2 \<le> length next' then next' else remember_loop tabs cur next' is)"

definition remember_recent ::
    "string \<Rightarrow> 't tabs \<Rightarrow> string \<Rightarrow> jsval \<Rightarrow> jsval \<Rightarrow> navigation \<Rightarrow> navigation" where
  "remember_recent prefix tabs name tab previous s =
     (if nv_disposed s then s else
      let i = js_trim (string_or_empty tab); p = js_trim (string_or_empty previous);
          first = (if i \<noteq> [] \<and> mhas tabs i then [i] else [])
      in apply_recent prefix tabs True name (Some (map Str (remember_loop tabs i first (p # nv_recent s)))) s)"

text \<open>The tab that the swap command activates, if any.\<close>

definition swap_recent :: "string \<Rightarrow> 't tabs \<Rightarrow> string \<Rightarrow> string option \<Rightarrow> navigation \<Rightarrow> navigation \<times> string option" where
  "swap_recent prefix tabs name active s =
     (if nv_disposed s then (s, None) else
      let s1 = prune_recent prefix tabs name s
      in (s1, List.find (\<lambda>i. Some i \<noteq> active) (nv_recent s1)))"

text \<open>JavaScript's remainder takes the sign of the dividend; reading a negative index throws here.\<close>

definition js_rem :: "int \<Rightarrow> int \<Rightarrow> int" where
  "js_rem a b = (if 0 \<le> a then a mod b else - ((- a) mod b))"

datatype nav_error = TypeError

definition find_index :: "('a \<Rightarrow> bool) \<Rightarrow> 'a list \<Rightarrow> int" where
  "find_index P xs = (if \<exists>x \<in> set xs. P x then int (length (takeWhile (\<lambda>x. \<not> P x) xs)) else -1)"

definition activate_by_offset :: "'a ws_tab_scheme list \<Rightarrow> string option \<Rightarrow> int \<Rightarrow> nav_error + string option" where
  "activate_by_offset ordered active off =
     (if ordered = [] then Inr None else
      let current = find_index (\<lambda>t. Some (tb_id t) = active) ordered;
          safe = (if 0 \<le> current then current else 0);
          i = js_rem (safe + off + int (length ordered)) (int (length ordered))
      in if i < 0 then Inl TypeError else Inr (Some (tb_id (ordered ! nat i))))"

definition activate_by_index :: "'a ws_tab_scheme list \<Rightarrow> int \<Rightarrow> string option" where
  "activate_by_index ordered index =
     (let i = max 0 (min index (int (length ordered) - 1))
      in if i < int (length ordered) then Some (tb_id (ordered ! nat i)) else None)"

definition scroll_left_after :: "rat \<Rightarrow> rat \<Rightarrow> rat \<Rightarrow> rat \<Rightarrow> rat \<Rightarrow> rat" where
  "scroll_left_after c_left c_right b_left b_right scroll =
     (if b_left < c_left then scroll - (c_left - b_left)
      else if c_right < b_right then scroll + (b_right - c_right) else scroll)"

definition nav_clear :: "navigation \<Rightarrow> navigation" where
  "nav_clear s = s\<lparr>nv_recent := []\<rparr>"

definition nav_dispose :: "navigation \<Rightarrow> navigation \<times> bool" where
  "nav_dispose s = (if nv_disposed s then (s, False) else (nav_clear (s\<lparr>nv_disposed := True\<rparr>), True))"

datatype 't nav_event = Remember "'t tabs" string jsval jsval | ApplyRecent "'t tabs" bool string "jsval list option"
  | Prune "'t tabs" string | Swap "'t tabs" string "string option" | NavClear | NavDispose

fun nav_step :: "string \<Rightarrow> navigation \<Rightarrow> 't nav_event \<Rightarrow> navigation" where
  "nav_step prefix s (Remember tabs name tab previous) = remember_recent prefix tabs name tab previous s"
| "nav_step prefix s (ApplyRecent tabs persist name ids) = apply_recent prefix tabs persist name ids s"
| "nav_step prefix s (Prune tabs name) = prune_recent prefix tabs name s"
| "nav_step prefix s (Swap tabs name active) = fst (swap_recent prefix tabs name active s)"
| "nav_step prefix s NavClear = nav_clear s"
| "nav_step prefix s NavDispose = fst (nav_dispose s)"

subsection \<open>The recent history\<close>

definition recent_ok :: "string list \<Rightarrow> bool" where
  "recent_ok xs = (length xs \<le> 2 \<and> distinct xs \<and> list_all (\<lambda>i. i \<noteq> [] \<and> js_trim i = i) xs)"

lemma recent_loop_ok:
  assumes "recent_ok next" "length next < 2" "list_all (mhas tabs) next"
  shows "recent_ok (recent_loop tabs next vs) \<and> list_all (mhas tabs) (recent_loop tabs next vs)"
  using assms
proof (induction vs arbitrary: "next")
  case (Cons v vs)
  let ?i = "js_trim (string_or_empty v)"
  let ?n = "if ?i \<noteq> [] \<and> mhas tabs ?i \<and> ?i \<notin> set next then next @ [?i] else next"
  have "recent_ok ?n" "list_all (mhas tabs) ?n"
    using Cons.prems by (auto simp: recent_ok_def)
  then show ?case using Cons.IH [of ?n] by (simp add: Let_def not_le)
qed simp

lemma normalize_recent_ok: "recent_ok (normalize_recent tabs ids) \<and> list_all (mhas tabs) (normalize_recent tabs ids)"
  unfolding normalize_recent_def by (rule recent_loop_ok) (simp_all add: recent_ok_def)

lemma persist_keeps [simp]: "nv_recent (fst (persist_recent prefix name s)) = nv_recent s"
  "nv_disposed (fst (persist_recent prefix name s)) = nv_disposed s"
  by (auto simp: persist_recent_def Let_def split: storage_mode.splits)

lemma apply_recent_recent [simp]:
  "nv_recent (apply_recent prefix tabs persist name ids s)
     = (if nv_disposed s then nv_recent s else normalize_recent tabs ids)"
  "nv_disposed (apply_recent prefix tabs persist name ids s) = nv_disposed s"
  by (simp_all add: apply_recent_def Let_def)

lemma nav_ok_step: "recent_ok (nv_recent s) \<Longrightarrow> recent_ok (nv_recent (nav_step prefix s e))"
  by (cases e) (auto simp: remember_recent_def prune_recent_def swap_recent_def nav_clear_def nav_dispose_def
      normalize_recent_ok Let_def, simp_all add: recent_ok_def)

interpretation nv: invariant_machine "nav_step prefix" "\<lambda>s. recent_ok (nv_recent s)"
  by standard (rule nav_ok_step)

text \<open>
  The recent history never holds more than two tabs, no tab twice, and no empty or untrimmed
  identity, whatever is remembered, applied from outside, pruned or swapped.
\<close>

theorem recent_tabs_bounded:
  "length (nv_recent (foldl (nav_step prefix) (nav_start m) es)) \<le> 2
   \<and> distinct (nv_recent (foldl (nav_step prefix) (nav_start m) es))
   \<and> list_all (\<lambda>i. i \<noteq> [] \<and> js_trim i = i) (nv_recent (foldl (nav_step prefix) (nav_start m) es))"
  using nv.inv_run [of "nav_start m" prefix es] by (simp add: recent_ok_def nav_start_def)

lemma normalize_own:
  assumes "recent_ok xs" "list_all (mhas tabs) xs"
  shows "normalize_recent tabs (Some (map Str xs)) = xs"
proof -
  consider "xs = []" | a where "xs = [a]" | a b where "xs = [a, b]"
    using assms(1) by (cases xs; cases "tl xs") (auto simp: recent_ok_def)
  then show ?thesis
    using assms by cases (auto simp: normalize_recent_def recent_ok_def Let_def)
qed

lemma remember_two:
  assumes "\<not> nv_disposed s" "recent_ok [b, a]" "mhas tabs a" "mhas tabs b"
  shows "nv_recent (remember_recent prefix tabs name (Str b) (Str a) s) = [b, a]"
proof -
  have t: "js_trim b = b" "js_trim a = a" "a \<noteq> []" "b \<noteq> []" "a \<noteq> b"
    using assms(2) by (auto simp: recent_ok_def)
  have "normalize_recent tabs (Some (map Str [b, a])) = [b, a]"
    by (rule normalize_own) (use assms in simp_all)
  then show ?thesis using assms t by (simp add: remember_recent_def Let_def)
qed

lemma swap_two:
  assumes "\<not> nv_disposed s" "nv_recent s = [b, a]" "recent_ok [b, a]" "mhas tabs a" "mhas tabs b"
  shows "swap_recent prefix tabs name (Some b) s = (prune_recent prefix tabs name s, Some a)"
proof -
  have "normalize_recent tabs (Some (map Str [b, a])) = [b, a]"
    by (rule normalize_own) (use assms in simp_all)
  then show ?thesis
    using assms by (auto simp: swap_recent_def prune_recent_def Let_def recent_ok_def)
qed

text \<open>
  The swap command goes back and forth between two tabs: after tab b is activated from tab a it
  activates a, and when that is remembered in turn it activates b.
\<close>

theorem recent_swap_alternates:
  assumes "\<not> nv_disposed s" "recent_ok [b, a]" "mhas tabs a" "mhas tabs b"
  shows "snd (swap_recent prefix tabs name (Some b) (remember_recent prefix tabs name (Str b) (Str a) s)) = Some a
     \<and> snd (swap_recent prefix tabs name (Some a) (remember_recent prefix tabs name (Str a) (Str b)
          (fst (swap_recent prefix tabs name (Some b) (remember_recent prefix tabs name (Str b) (Str a) s))))) = Some b"
proof -
  let ?s1 = "remember_recent prefix tabs name (Str b) (Str a) s"
  have r: "recent_ok [a, b]" using assms(2) by (auto simp: recent_ok_def)
  have d1: "\<not> nv_disposed ?s1" using assms(1) by (simp add: remember_recent_def Let_def)
  have sw1: "swap_recent prefix tabs name (Some b) ?s1 = (prune_recent prefix tabs name ?s1, Some a)"
    by (rule swap_two [OF d1 remember_two [OF assms] assms(2-4)])
  let ?s2 = "prune_recent prefix tabs name ?s1"
  have d2: "\<not> nv_disposed ?s2" using d1 by (simp add: prune_recent_def)
  let ?s3 = "remember_recent prefix tabs name (Str a) (Str b) ?s2"
  have d3: "\<not> nv_disposed ?s3" using d2 by (simp add: remember_recent_def Let_def)
  have "swap_recent prefix tabs name (Some a) ?s3 = (prune_recent prefix tabs name ?s3, Some b)"
    by (rule swap_two [OF d3 remember_two [OF d2 r assms(4,3)] r assms(4,3)])
  with sw1 show ?thesis by simp
qed

definition two_tabs :: "ws_tab tabs" where
  "two_tabs = [(''t1'', \<lparr>tb_id = ''t1'', tb_label = ''One''\<rparr>), (''t2'', \<lparr>tb_id = ''t2'', tb_label = ''Two''\<rparr>)]"

lemma recent_swap_alternates_witness:
  "snd (swap_recent ''webshell'' two_tabs ''box'' (Some ''t2'')
     (remember_recent ''webshell'' two_tabs ''box'' (Str ''t2'') (Str ''t1'') (nav_start Working))) = Some ''t1''"
proof -
  have "\<not> nv_disposed (nav_start Working)" "recent_ok [''t2'', ''t1'']" "mhas two_tabs ''t1''" "mhas two_tabs ''t2''"
    by code_simp+
  from recent_swap_alternates [OF this] show ?thesis by blast
qed

text \<open>What is persisted is loaded again while the tabs still exist.\<close>

lemma persist_load:
  assumes "\<not> nv_disposed s" "nv_mode s = Working" "js_trim name \<noteq> []"
    "recent_ok (nv_recent s)" "list_all (mhas tabs) (nv_recent s)"
  shows "load_recent prefix tabs name (fst (persist_recent prefix name s)) = nv_recent s"
  using assms normalize_own [OF assms(4,5)]
  by (auto simp: persist_recent_def load_recent_def Let_def om.get_put om.get_del normalize_recent_def)

subsection \<open>The order of the tabs\<close>

lemma ordered_tabs_members:
  assumes "\<And>i t. mget tabs i = Some t \<Longrightarrow> tb_id t = i" "mwf tabs"
  shows "set (ordered_tabs False buttons tabs) = set (mvals tabs)"
proof -
  have "set (List.map_filter (mget tabs) buttons) \<subseteq> set (mvals tabs)"
    by (force simp: List.map_filter_def mvals_def dest: mget_mem)
  moreover have "t \<in> set (List.map_filter (mget tabs) buttons)"
    if "t \<in> set (mvals tabs)" "tb_id t \<in> tb_id ` set (List.map_filter (mget tabs) buttons)" for t
  proof -
    from that(1) obtain i where "(i, t) \<in> set tabs" by (auto simp: mvals_def)
    then have i: "mget tabs i = Some t" using assms(2) by (simp add: mget_iff_mem)
    from that(2) obtain j u where "j \<in> set buttons" "mget tabs j = Some u" "tb_id u = tb_id t"
      by (force simp: List.map_filter_def)
    then show ?thesis using i assms(1) by (force simp: List.map_filter_def)
  qed
  ultimately show ?thesis unfolding ordered_tabs_def Let_def by auto
qed

lemma find_index_found:
  assumes "distinct (map tb_id ordered)" "k < length ordered"
  shows "find_index (\<lambda>t. Some (tb_id t) = Some (tb_id (ordered ! k))) ordered = int k"
proof -
  have e: "takeWhile (\<lambda>t. tb_id t \<noteq> tb_id (ordered ! k)) ordered = take k ordered"
    by (rule takeWhile_eq_take_P_nth)
      (use assms in \<open>auto simp: distinct_conv_nth\<close>)
  have "ordered ! k \<in> set ordered" using assms(2) by simp
  then show ?thesis using assms(2) e by (auto simp: find_index_def)
qed

text \<open>
  Moving by an offset cycles through the tabs in order: from the k-th of n tabs an offset of at
  least -n activates the tab with index (k + offset) mod n, and does not fail.
\<close>

theorem offset_navigation_cycles:
  assumes "distinct (map tb_id ordered)" "k < length ordered" "- int (length ordered) \<le> off"
  shows "activate_by_offset ordered (Some (tb_id (ordered ! k))) off
     = Inr (Some (tb_id (ordered ! nat ((int k + off) mod int (length ordered)))))"
proof -
  let ?n = "int (length ordered)"
  have "0 \<le> int k + off + ?n" using assms(3) by simp
  then have r: "js_rem (int k + off + ?n) ?n = (int k + off) mod ?n"
    by (simp add: js_rem_def)
  have ne: "ordered \<noteq> []" and "0 < ?n" using assms(2) by auto
  then have nn: "\<not> (int k + off) mod ?n < 0" by (simp add: not_less)
  then show ?thesis
    using ne r find_index_found [OF assms(1,2)] by (simp add: activate_by_offset_def Let_def)
qed

lemma offset_navigation_cycles_witness:
  "activate_by_offset (mvals two_tabs) (Some ''t1'') (-1) = Inr (Some ''t2'')"
proof -
  have "distinct (map tb_id (mvals two_tabs))" "0 < length (mvals two_tabs)" "- int (length (mvals two_tabs)) \<le> -1"
    by code_simp+
  from offset_navigation_cycles [OF this] show ?thesis by (simp add: two_tabs_def mvals_def)
qed

text \<open>A larger step back reads outside the list.\<close>

lemma offset_navigation_throws:
  "activate_by_offset (mvals two_tabs) (Some ''t1'') (-3) = Inl TypeError"
  by code_simp

end
