(* ===== verification/Checkpoint.thy ===== *)
theory Checkpoint
  imports Json
begin

section \<open>Terminal checkpoints\<close>

text \<open>
  Model of \<open>terminal/transport/checkpoint_transport.js\<close>, the receiver that collects the parts of a
  memory checkpoint, and of \<open>terminal/history/terminal_checkpoint.js\<close>, which validates and normalises
  a semantic checkpoint (both under \<open>src/runtime/static\<close>). Messages and checkpoints are JSON
  values; every message of an exception of the code is a constructor of an error type.
\<close>

subsection \<open>The receiver of checkpoint parts\<close>

record part_state =
  pt_history :: json
  pt_cursor :: json
  pt_chunks :: "string list"

record memory_checkpoint =
  mc_fields :: json
  mc_chunks :: "string list"

datatype part_error = PartMismatch | PartGap | BoundaryMismatch

definition part_data :: "json \<Rightarrow> string" where
  "part_data m = (case json_get m ''data'' of JPrim (Str s) \<Rightarrow> s | _ \<Rightarrow> [])"

definition part_index :: "json \<Rightarrow> int" where
  "part_index m = (case json_get m ''index'' of JPrim (Num x) \<Rightarrow> num_int x | _ \<Rightarrow> -1)"

definition part_valid :: "string \<Rightarrow> string \<Rightarrow> json \<Rightarrow> bool" where
  "part_valid name pane m =
     (json_get m ''selector'' = JPrim (Str name) \<and> json_get m ''pane_id'' = JPrim (Str pane)
      \<and> (case json_get m ''data'' of JPrim (Str s) \<Rightarrow> length s \<le> 87384 | _ \<Rightarrow> False)
      \<and> (case json_get m ''index'' of JPrim (Num x) \<Rightarrow> safe_integer x \<and> 0 \<le> num_int x \<and> num_int x < 256 | _ \<Rightarrow> False))"

definition part_state_for :: "json \<Rightarrow> part_state option \<Rightarrow> part_state" where
  "part_state_for m s = (case s of Some t \<Rightarrow> t
     | None \<Rightarrow> \<lparr>pt_history = json_get m ''history_generation'', pt_cursor = json_get m ''cursor'', pt_chunks = []\<rparr>)"

definition accept_part ::
    "string \<Rightarrow> string \<Rightarrow> json \<Rightarrow> part_state option \<Rightarrow> part_state option \<times> part_error option" where
  "accept_part name pane m s =
     (if \<not> part_valid name pane m then (s, Some PartMismatch) else
      let t = part_state_for m s in
      if part_index m \<noteq> int (length (pt_chunks t)) \<or> \<not> json_same (json_get m ''history_generation'') (pt_history t)
         \<or> \<not> json_same (json_get m ''cursor'') (pt_cursor t)
      then (Some t, Some PartGap)
      else (Some (t\<lparr>pt_chunks := pt_chunks t @ [part_data m]\<rparr>), None))"

definition memory_protocol :: string where
  "memory_protocol = ''ghostty-memory-v1''"

definition take_checkpoint ::
    "json \<Rightarrow> part_state option \<Rightarrow> part_state option \<times> (part_error + memory_checkpoint option)" where
  "take_checkpoint m s =
     (let c = json_get m ''memory_checkpoint'' in
      if \<not> json_truthy c then (None, Inr None) else
      case s of None \<Rightarrow> (s, Inl BoundaryMismatch)
      | Some t \<Rightarrow>
        if \<not> json_same (json_get c ''protocol'') (JPrim (Str memory_protocol))
           \<or> \<not> json_same (pt_history t) (json_get m ''history_generation'')
           \<or> \<not> json_same (pt_cursor t) (json_get c ''cursor'')
           \<or> \<not> json_same (json_get c ''cursor'') (json_get m ''delta_from_cursor'')
           \<or> \<not> json_same (json_get c ''parts'') (JPrim (Num (Fin (of_nat (length (pt_chunks t))))))
           \<or> \<not> json_same (json_get c ''cols'') (json_get m ''cols'')
           \<or> \<not> json_same (json_get c ''rows'') (json_get m ''rows'')
        then (s, Inl BoundaryMismatch)
        else (None, Inr (Some \<lparr>mc_fields = c, mc_chunks = pt_chunks t\<rparr>)))"

text \<open>The parts a receiver takes out of a sequence of messages.\<close>

fun receive_parts :: "string \<Rightarrow> string \<Rightarrow> json list \<Rightarrow> part_state option \<Rightarrow> part_state option \<times> json list" where
  "receive_parts name pane [] s = (s, [])"
| "receive_parts name pane (m # ms) s = (case accept_part name pane m s of (s', e) \<Rightarrow>
     case receive_parts name pane ms s' of (s'', acc) \<Rightarrow> (s'', if e = None then m # acc else acc))"

definition parts_agree :: "part_state option \<Rightarrow> json list \<Rightarrow> bool" where
  "parts_agree s acc = (case s of None \<Rightarrow> acc = [] | Some t \<Rightarrow>
     pt_chunks t = map part_data acc \<and> length acc \<le> 256
     \<and> (\<forall>i < length acc. part_index (acc ! i) = int i \<and> length (part_data (acc ! i)) \<le> 87384
          \<and> json_same (json_get (acc ! i) ''history_generation'') (pt_history t)
          \<and> json_same (json_get (acc ! i) ''cursor'') (pt_cursor t)))"

lemma part_valid_bounds:
  assumes "part_valid name pane m"
  shows "length (part_data m) \<le> 87384" "part_index m < 256"
  using assms by (auto simp: part_valid_def part_data_def part_index_def split: json.splits jsval.splits)

lemma accept_agrees:
  assumes "parts_agree s acc" "accept_part name pane m s = (s', e)"
  shows "parts_agree s' (if e = None then acc @ [m] else acc)"
proof (cases "part_valid name pane m")
  case v: True
  let ?t = "part_state_for m s"
  have a: "pt_chunks ?t = map part_data acc" "length acc \<le> 256"
     "\<forall>i < length acc. part_index (acc ! i) = int i \<and> length (part_data (acc ! i)) \<le> 87384
          \<and> json_same (json_get (acc ! i) ''history_generation'') (pt_history ?t)
          \<and> json_same (json_get (acc ! i) ''cursor'') (pt_cursor ?t)"
    using assms(1) by (auto simp: parts_agree_def part_state_for_def split: option.splits)
  show ?thesis
  proof (cases "part_index m \<noteq> int (length (pt_chunks ?t)) \<or> \<not> json_same (json_get m ''history_generation'') (pt_history ?t)
         \<or> \<not> json_same (json_get m ''cursor'') (pt_cursor ?t)")
    case True
    then have "s' = Some ?t" "e = Some PartGap" using assms(2) v by (auto simp: accept_part_def Let_def)
    then show ?thesis using a by (simp add: parts_agree_def)
  next
    case False
    then have s': "s' = Some (?t\<lparr>pt_chunks := pt_chunks ?t @ [part_data m]\<rparr>)" and e: "e = None"
      using assms(2) v by (auto simp: accept_part_def Let_def)
    have "length acc < 256" using False part_valid_bounds(2) [OF v] by (simp add: a(1))
    then show ?thesis
      using a False part_valid_bounds(1) [OF v] by (auto simp: s' e parts_agree_def nth_append less_Suc_eq)
  qed
next
  case False
  then show ?thesis using assms by (auto simp: accept_part_def)
qed

lemma receive_agrees:
  "parts_agree s acc \<Longrightarrow> parts_agree (fst (receive_parts name pane ms s)) (acc @ snd (receive_parts name pane ms s))"
proof (induction ms arbitrary: s acc)
  case (Cons m ms)
  obtain s' e where a: "accept_part name pane m s = (s', e)" by (cases "accept_part name pane m s")
  from Cons.IH [OF accept_agrees [OF Cons.prems a]] show ?case
    by (cases "receive_parts name pane ms s'"; cases e) (simp_all add: a)
qed simp

text \<open>
  A checkpoint that is handed over consists of exactly the parts the receiver accepted: parts
  0, 1, ... of one history generation and one cursor, in order and none missing, as many as the
  boundary message announces, each within its size limit.
\<close>

theorem taken_checkpoint_is_complete:
  assumes "take_checkpoint m (fst (receive_parts name pane ms None)) = (s', Inr (Some c))"
    and "acc = snd (receive_parts name pane ms None)"
  shows "mc_chunks c = map part_data acc \<and> length acc \<le> 256
     \<and> json_get (mc_fields c) ''parts'' = JPrim (Num (Fin (of_nat (length acc))))
     \<and> (\<forall>i < length acc. part_index (acc ! i) = int i \<and> length (part_data (acc ! i)) \<le> 87384
          \<and> json_get (acc ! i) ''history_generation'' = json_get m ''history_generation''
          \<and> json_get (acc ! i) ''cursor'' = json_get m ''delta_from_cursor'')
     \<and> s' = None"
proof -
  have same: "json_same a b \<Longrightarrow> a = b" for a b
    by (auto simp: json_same_def split: json.splits)
  have g: "parts_agree (fst (receive_parts name pane ms None)) acc"
    using receive_agrees [of None "[]" name pane ms] assms(2) by (simp add: parts_agree_def)
  from assms(1) obtain t where t: "fst (receive_parts name pane ms None) = Some t"
    and c: "c = \<lparr>mc_fields = json_get m ''memory_checkpoint'', mc_chunks = pt_chunks t\<rparr>" "s' = None"
    and b: "pt_history t = json_get m ''history_generation''" "pt_cursor t = json_get m ''delta_from_cursor''"
      "json_get (json_get m ''memory_checkpoint'') ''parts'' = JPrim (Num (Fin (of_nat (length (pt_chunks t)))))"
    by (auto simp: take_checkpoint_def Let_def split: if_splits option.splits dest!: same)
  from g [unfolded t] have h: "pt_chunks t = map part_data acc" "length acc \<le> 256"
     "\<forall>i < length acc. part_index (acc ! i) = int i \<and> length (part_data (acc ! i)) \<le> 87384
          \<and> json_same (json_get (acc ! i) ''history_generation'') (pt_history t)
          \<and> json_same (json_get (acc ! i) ''cursor'') (pt_cursor t)"
    by (simp_all add: parts_agree_def)
  then show ?thesis using same b c by (auto simp: h(1))
qed

definition sample_part :: "nat \<Rightarrow> string \<Rightarrow> json" where
  "sample_part i d = JObj [(''selector'', JPrim (Str ''box'')), (''pane_id'', JPrim (Str ''p1'')),
     (''data'', JPrim (Str d)), (''index'', JPrim (Num (Fin (of_nat i)))),
     (''history_generation'', JPrim (Str ''g1'')), (''cursor'', JPrim (Str ''40''))]"

definition sample_boundary :: json where
  "sample_boundary = JObj [(''history_generation'', JPrim (Str ''g1'')), (''delta_from_cursor'', JPrim (Str ''40'')),
     (''cols'', JPrim (Num (Fin 80))), (''rows'', JPrim (Num (Fin 24))),
     (''memory_checkpoint'', JObj [(''protocol'', JPrim (Str ''ghostty-memory-v1'')), (''cursor'', JPrim (Str ''40'')),
        (''parts'', JPrim (Num (Fin 2))), (''cols'', JPrim (Num (Fin 80))), (''rows'', JPrim (Num (Fin 24)))])]"

lemma taken_checkpoint_is_complete_witness:
  "\<exists>c. take_checkpoint sample_boundary (fst (receive_parts ''box'' ''p1'' [sample_part 0 ''ab'', sample_part 1 ''cd''] None))
       = (None, Inr (Some c))
   \<and> mc_chunks c = map part_data (snd (receive_parts ''box'' ''p1'' [sample_part 0 ''ab'', sample_part 1 ''cd''] None))"
proof -
  let ?c = "\<lparr>mc_fields = json_get sample_boundary ''memory_checkpoint'', mc_chunks = [''ab'', ''cd'']\<rparr>"
  have t: "take_checkpoint sample_boundary (fst (receive_parts ''box'' ''p1'' [sample_part 0 ''ab'', sample_part 1 ''cd''] None))
     = (None, Inr (Some ?c))"
    by (simp add: take_checkpoint_def accept_part_def part_valid_def part_state_for_def part_data_def part_index_def
        sample_part_def sample_boundary_def json_get_def json_same_def json_truthy_def memory_protocol_def
        safe_integer_def max_safe_int_def num_int_def Let_def)
  show ?thesis using taken_checkpoint_is_complete [OF t refl] t by blast
qed

subsection \<open>Semantic checkpoints\<close>

datatype checkpoint_error = NotAnObject | UnsupportedProtocol | IncompleteIdentity | IdentityMismatch | MissingId
  | NotUnsigned string | NotPositive string | NotNonnegative string | TailNotContinuous | TailTooLong
  | StateMissing | ModesMissing | ModeMissing string | ScreenMissing | LinesInvalid | CursorOutside
  | GeometryMismatch | AdapterIncomplete | CursorMismatch

record checkpoint_identity =
  ci_selector :: string
  ci_pane :: string
  ci_generation :: string

record checkpoint_state =
  ck_modes :: "(string \<times> bool) list"
  ck_cursor_row :: nat
  ck_cursor_col :: nat
  ck_visible :: bool
  ck_rows :: nat
  ck_cols :: nat
  ck_lines :: "(string \<times> bool) list"
  ck_alternate :: bool

record checkpoint =
  ck_id :: string
  ck_identity :: checkpoint_identity
  ck_cursor :: nat
  ck_geometry :: "nat \<times> nat"
  ck_state :: checkpoint_state
  ck_tail :: "nat \<times> nat \<times> nat"

definition checkpoint_protocol :: string where
  "checkpoint_protocol = ''checkpoint-window-v1''"

definition max_tail_bytes :: nat where
  "max_tail_bytes = 32 * 1024 * 1024"

definition max_screen_rows :: nat where
  "max_screen_rows = 4096"

definition required_modes :: "string list" where
  "required_modes = [''alternate_screen'', ''origin'', ''wraparound'', ''insert'', ''application_cursor'', ''bracketed_paste'']"

text \<open>Sequencing of steps that may throw.\<close>

definition andthen :: "'e + 'a \<Rightarrow> ('a \<Rightarrow> 'e + 'b) \<Rightarrow> 'e + 'b" where
  "andthen r f = (case r of Inl e \<Rightarrow> Inl e | Inr x \<Rightarrow> f x)"

definition require :: "bool \<Rightarrow> 'e \<Rightarrow> 'e + unit" where
  "require b e = (if b then Inr () else Inl e)"

lemma andthen_Inr [simp]: "andthen r f = Inr y \<longleftrightarrow> (\<exists>x. r = Inr x \<and> f x = Inr y)"
  by (cases r) (auto simp: andthen_def)

lemma require_Inr [simp]: "require b e = Inr u \<longleftrightarrow> b"
  by (simp add: require_def)

definition normalize_unsigned :: "json \<Rightarrow> string \<Rightarrow> checkpoint_error + nat" where
  "normalize_unsigned j field = (case json_cursor j of None \<Rightarrow> Inl (NotUnsigned field) | Some n \<Rightarrow> Inr n)"

definition normalize_positive :: "json \<Rightarrow> string \<Rightarrow> checkpoint_error + nat" where
  "normalize_positive j field = (let x = json_number j in
     if \<not> whole x \<or> num_int x \<le> 0 then Inl (NotPositive field) else Inr (nat (num_int x)))"

definition normalize_nonnegative :: "json \<Rightarrow> string \<Rightarrow> checkpoint_error + nat" where
  "normalize_nonnegative j field = (let x = json_number j in
     if \<not> whole x \<or> num_int x < 0 then Inl (NotNonnegative field) else Inr (nat (num_int x)))"

definition normalize_checkpoint_identity :: "json \<Rightarrow> checkpoint_error + checkpoint_identity" where
  "normalize_checkpoint_identity j =
     (let selector = js_trim (json_text (json_get j ''selector''));
          pane = js_trim (json_text (json_or (json_get j ''paneID'') (json_get j ''pane_id'')));
          gen = js_trim (json_text (json_or (json_get j ''historyGeneration'') (json_get j ''history_generation'')))
      in if selector = [] \<or> pane = [] \<or> gen = [] then Inl IncompleteIdentity
         else Inr \<lparr>ci_selector = selector, ci_pane = pane, ci_generation = gen\<rparr>)"

fun read_modes :: "json \<Rightarrow> string list \<Rightarrow> checkpoint_error + (string \<times> bool) list" where
  "read_modes j [] = Inr []"
| "read_modes j (m # ms) = (case json_get j m of
     JPrim (JBool b) \<Rightarrow> andthen (read_modes j ms) (\<lambda>r. Inr ((m, b) # r))
   | _ \<Rightarrow> Inl (ModeMissing m))"

definition read_line :: "json \<Rightarrow> string \<times> bool" where
  "read_line l = (json_text (json_get l ''text''), json_true (json_get l ''wrapped''))"

definition array_items :: "json \<Rightarrow> json list option" where
  "array_items j = (case j of JArr xs \<Rightarrow> Some xs | _ \<Rightarrow> None)"

definition normalize_terminal_state :: "json \<Rightarrow> checkpoint_error + checkpoint_state" where
  "normalize_terminal_state j =
     andthen (require (plain_object j) StateMissing) (\<lambda>_.
     let modes = json_get j ''modes''; screen = json_get j ''screen''; cursor = json_get j ''cursor'' in
     andthen (require (plain_object modes) ModesMissing) (\<lambda>_.
     andthen (read_modes modes required_modes) (\<lambda>ms.
     andthen (require (plain_object screen) ScreenMissing) (\<lambda>_.
     andthen (normalize_positive (json_get screen ''rows'') ''screen rows'') (\<lambda>rows.
     andthen (normalize_positive (json_get screen ''cols'') ''screen cols'') (\<lambda>cols.
     case array_items (json_get screen ''lines'') of None \<Rightarrow> Inl LinesInvalid | Some ls \<Rightarrow>
     andthen (require (rows \<le> max_screen_rows \<and> length ls = rows) LinesInvalid) (\<lambda>_.
     let r = json_number (json_get cursor ''row''); c = json_number (json_get cursor ''col'') in
     andthen (require (whole r \<and> 0 \<le> num_int r \<and> num_int r < int rows
                     \<and> whole c \<and> 0 \<le> num_int c \<and> num_int c < int cols) CursorOutside) (\<lambda>_.
     Inr \<lparr>ck_modes = ms, ck_cursor_row = nat (num_int r), ck_cursor_col = nat (num_int c),
          ck_visible = (json_get cursor ''visible'' \<noteq> JPrim (JBool False)),
          ck_rows = rows, ck_cols = cols, ck_lines = map read_line ls,
          ck_alternate = json_true (json_get screen ''alternate'')\<rparr>))))))))"

definition either_key :: "json \<Rightarrow> string \<Rightarrow> string \<Rightarrow> json" where
  "either_key j a b = json_nullish (json_get j a) (json_get j b)"

definition normalize_checkpoint :: "json \<Rightarrow> json \<Rightarrow> checkpoint_error + checkpoint" where
  "normalize_checkpoint input expected =
     andthen (require (plain_object input) NotAnObject) (\<lambda>_.
     andthen (require (json_text (json_get input ''protocol'') = checkpoint_protocol) UnsupportedProtocol) (\<lambda>_.
     andthen (normalize_checkpoint_identity (json_get input ''identity'')) (\<lambda>identity.
     andthen (if json_truthy expected
              then andthen (normalize_checkpoint_identity expected) (\<lambda>e. require (identity = e) IdentityMismatch)
              else Inr ()) (\<lambda>_.
     let cid = js_trim (json_text (json_or (json_get input ''checkpointID'') (json_get input ''checkpoint_id'')));
         tail = json_get input ''tail''; geometry = json_get input ''geometry'' in
     andthen (require (cid \<noteq> []) MissingId) (\<lambda>_.
     andthen (normalize_unsigned (either_key input ''checkpointCursor'' ''checkpoint_cursor'') ''cursor'') (\<lambda>cursor.
     andthen (normalize_unsigned (either_key tail ''startCursor'' ''start_cursor'') ''tail start'') (\<lambda>start.
     andthen (normalize_unsigned (either_key tail ''endCursor'' ''end_cursor'') ''tail end'') (\<lambda>stop.
     andthen (normalize_nonnegative
         (json_nullish (either_key tail ''byteLength'' ''byte_length'') (JPrim (Num (Fin 0)))) ''tail bytes'') (\<lambda>bytes.
     andthen (require (start = cursor \<and> start \<le> stop \<and> stop - start = bytes) TailNotContinuous) (\<lambda>_.
     andthen (require (bytes \<le> max_tail_bytes) TailTooLong) (\<lambda>_.
     andthen (normalize_positive (json_get geometry ''cols'') ''geometry cols'') (\<lambda>cols.
     andthen (normalize_positive (json_get geometry ''rows'') ''geometry rows'') (\<lambda>rows.
     andthen (normalize_terminal_state (json_get input ''state'')) (\<lambda>state.
     andthen (require (ck_cols state = cols \<and> ck_rows state = rows) GeometryMismatch) (\<lambda>_.
     Inr \<lparr>ck_id = cid, ck_identity = identity, ck_cursor = cursor, ck_geometry = (cols, rows), ck_state = state,
          ck_tail = (start, stop, bytes)\<rparr>)))))))))))))))"

definition checkpoint_is_usable :: "json \<Rightarrow> json \<Rightarrow> bool" where
  "checkpoint_is_usable input expected = (case normalize_checkpoint input expected of Inl _ \<Rightarrow> False | Inr _ \<Rightarrow> True)"

text \<open>
  The terminal's adapter: absent, or the state it exports. Exporting checks the cursor that was
  asked for; importing hands the normalised state to the adapter.
\<close>

definition export_checkpoint :: "json option \<Rightarrow> json \<Rightarrow> checkpoint_error + checkpoint" where
  "export_checkpoint adapter requested = (case adapter of None \<Rightarrow> Inl AdapterIncomplete
     | Some exported \<Rightarrow> andthen (normalize_checkpoint exported (json_get requested ''identity'')) (\<lambda>c.
         if json_get requested ''checkpointCursor'' \<noteq> JPrim Undef
            \<and> nat_text (ck_cursor c) \<noteq> json_string (json_get requested ''checkpointCursor'')
         then Inl CursorMismatch else Inr c))"

definition import_checkpoint :: "bool \<Rightarrow> json \<Rightarrow> json \<Rightarrow> checkpoint_error + checkpoint \<times> checkpoint_state" where
  "import_checkpoint ready input expected = (if \<not> ready then Inl AdapterIncomplete
     else andthen (normalize_checkpoint input expected) (\<lambda>c. Inr (c, ck_state c)))"

definition find_capability :: "json list \<Rightarrow> json option" where
  "find_capability xs = List.find (\<lambda>c. json_same (json_get c ''protocol'') (JPrim (Str checkpoint_protocol))) xs"

definition negotiate_checkpoint :: "json list \<Rightarrow> json list \<Rightarrow> int option" where
  "negotiate_checkpoint local remote = (case (find_capability local, find_capability remote) of
     (Some l, Some r) \<Rightarrow>
       (let a = json_number (json_or (json_get l ''maxTailBytes'') (JPrim (Num (Fin 0))));
            b = json_number (json_or (json_get r ''maxTailBytes'') (JPrim (Num (Fin 0))));
            m = min (min (num_int a) (num_int b)) (int max_tail_bytes)
        in if \<not> safe_integer a \<or> \<not> safe_integer b then None else if 0 < m then Some m else None)
   | _ \<Rightarrow> None)"

definition checkpoint_capabilities :: "bool \<Rightarrow> bool \<Rightarrow> json list" where
  "checkpoint_capabilities exports imports = (if exports \<and> imports then
     [JObj [(''protocol'', JPrim (Str checkpoint_protocol)),
            (''requires'', JArr [JPrim (Str ''semantic_state_export''), JPrim (Str ''semantic_state_import'')]),
            (''maxTailBytes'', JPrim (Num (Fin (of_nat max_tail_bytes))))]] else [])"

subsection \<open>What a normalised checkpoint guarantees\<close>

definition identity_ok :: "checkpoint_identity \<Rightarrow> bool" where
  "identity_ok i = list_all (\<lambda>t. t \<noteq> [] \<and> js_trim t = t) [ci_selector i, ci_pane i, ci_generation i]"

definition state_ok :: "checkpoint_state \<Rightarrow> bool" where
  "state_ok s = (map fst (ck_modes s) = required_modes \<and> 0 < ck_cols s \<and> 0 < ck_rows s
     \<and> ck_rows s \<le> max_screen_rows \<and> length (ck_lines s) = ck_rows s
     \<and> ck_cursor_row s < ck_rows s \<and> ck_cursor_col s < ck_cols s)"

definition checkpoint_ok :: "checkpoint \<Rightarrow> bool" where
  "checkpoint_ok c = (ck_id c \<noteq> [] \<and> js_trim (ck_id c) = ck_id c \<and> identity_ok (ck_identity c) \<and> state_ok (ck_state c)
     \<and> ck_geometry c = (ck_cols (ck_state c), ck_rows (ck_state c))
     \<and> (case ck_tail c of (start, stop, bytes) \<Rightarrow>
          start = ck_cursor c \<and> stop = start + bytes \<and> bytes \<le> max_tail_bytes))"

lemma read_modes_keys: "read_modes j ms = Inr r \<Longrightarrow> map fst r = ms"
  by (induction ms arbitrary: r) (auto split: json.splits jsval.splits)

lemma normalize_identity_ok: "normalize_checkpoint_identity j = Inr i \<Longrightarrow> identity_ok i"
  by (auto simp: normalize_checkpoint_identity_def identity_ok_def Let_def split: if_splits)

lemma normalize_positive_ok: "normalize_positive j f = Inr n \<Longrightarrow> 0 < n"
  by (auto simp: normalize_positive_def Let_def split: if_splits)

lemma normalize_state_ok: "normalize_terminal_state j = Inr s \<Longrightarrow> state_ok s"
  by (auto simp: normalize_terminal_state_def state_ok_def Let_def dest: normalize_positive_ok
      split: option.splits) (erule read_modes_keys | simp add: nat_less_iff)+

lemma normalize_checkpoint_ok:
  assumes "normalize_checkpoint input expected = Inr c"
  shows "checkpoint_ok c"
  using assms
  by (auto simp: normalize_checkpoint_def checkpoint_ok_def Let_def
      dest: normalize_identity_ok normalize_state_ok)

lemma normalize_checkpoint_expected:
  assumes "normalize_checkpoint input expected = Inr c" "json_truthy expected"
  shows "normalize_checkpoint_identity expected = Inr (ck_identity c)"
  using assms by (auto simp: normalize_checkpoint_def Let_def)

subsection \<open>Normalising again\<close>

definition num_json :: "nat \<Rightarrow> json" where
  "num_json n = JPrim (Num (Fin (of_nat n)))"

definition line_json :: "string \<times> bool \<Rightarrow> json" where
  "line_json l = JObj [(''text'', JPrim (Str (fst l))), (''wrapped'', JPrim (JBool (snd l)))]"

definition state_json :: "checkpoint_state \<Rightarrow> json" where
  "state_json s = JObj [(''modes'', JObj (map (\<lambda>(m, b). (m, JPrim (JBool b))) (ck_modes s))),
     (''cursor'', JObj [(''row'', num_json (ck_cursor_row s)), (''col'', num_json (ck_cursor_col s)),
                        (''visible'', JPrim (JBool (ck_visible s)))]),
     (''screen'', JObj [(''rows'', num_json (ck_rows s)), (''cols'', num_json (ck_cols s)),
                        (''lines'', JArr (map line_json (ck_lines s))), (''alternate'', JPrim (JBool (ck_alternate s)))])]"

definition identity_json :: "checkpoint_identity \<Rightarrow> json" where
  "identity_json i = JObj [(''selector'', JPrim (Str (ci_selector i))), (''paneID'', JPrim (Str (ci_pane i))),
     (''historyGeneration'', JPrim (Str (ci_generation i)))]"

definition checkpoint_json :: "checkpoint \<Rightarrow> json" where
  "checkpoint_json c = JObj [(''protocol'', JPrim (Str checkpoint_protocol)), (''checkpointID'', JPrim (Str (ck_id c))),
     (''identity'', identity_json (ck_identity c)), (''checkpointCursor'', JPrim (Str (nat_text (ck_cursor c)))),
     (''geometry'', JObj [(''cols'', num_json (fst (ck_geometry c))), (''rows'', num_json (snd (ck_geometry c)))]),
     (''state'', state_json (ck_state c)),
     (''tail'', JObj [(''startCursor'', JPrim (Str (nat_text (fst (ck_tail c))))),
                      (''endCursor'', JPrim (Str (nat_text (fst (snd (ck_tail c)))))),
                      (''byteLength'', num_json (snd (snd (ck_tail c))))])]"

lemma num_json_simps [simp]:
  "json_number (num_json n) = Fin (of_nat n)" "num_json n \<noteq> JPrim Undef" "num_json n \<noteq> JPrim Null"
  by (simp_all add: num_json_def json_number_def json_prim_def js_number_def)

lemma whole_nat [simp]: "whole (Fin (of_nat n))" "num_int (Fin (of_nat n)) = int n"
  by (simp_all add: whole_def num_int_def)

lemma normalize_num_json [simp]:
  "normalize_positive (num_json n) f = (if n = 0 then Inl (NotPositive f) else Inr n)"
  "normalize_nonnegative (num_json n) f = Inr n"
  by (simp_all add: normalize_positive_def normalize_nonnegative_def)

lemma normalize_nat_text [simp]: "normalize_unsigned (JPrim (Str (nat_text n))) f = Inr n"
  by (simp add: normalize_unsigned_def json_cursor_def json_prim_def)

lemma identity_roundtrip: "identity_ok i \<Longrightarrow> normalize_checkpoint_identity (identity_json i) = Inr i"
  by (simp add: normalize_checkpoint_identity_def identity_json_def json_get_def json_or_def json_truthy_def
      js_truthy_def identity_ok_def)

lemma lines_roundtrip [simp]: "read_line \<circ> line_json = id"
  by (auto simp: fun_eq_iff read_line_def line_json_def json_get_def json_true_def)

lemma modes_roundtrip:
  assumes "distinct (map fst ms)" "set ns \<subseteq> set ms"
  shows "read_modes (JObj (map (\<lambda>(m, b). (m, JPrim (JBool b))) ms)) (map fst ns) = Inr ns"
  using assms(2)
proof (induction ns)
  case (Cons n ns)
  let ?j = "JObj (map (\<lambda>(m, b). (m, JPrim (JBool b))) ms)"
  have "distinct (map fst (rev (map (\<lambda>(m, b). (m, JPrim (JBool b))) ms)))"
    using assms(1) by (simp add: rev_map [symmetric] comp_def case_prod_beta)
  moreover have "(fst n, JPrim (JBool (snd n))) \<in> set (rev (map (\<lambda>(m, b). (m, JPrim (JBool b))) ms))"
    using Cons.prems by (cases n) force
  ultimately have "json_get ?j (fst n) = JPrim (JBool (snd n))"
    by (simp add: json_get_def map_of_is_SomeI)
  then show ?case using Cons by (simp add: andthen_def)
qed simp

lemma state_roundtrip:
  assumes "state_ok s"
  shows "normalize_terminal_state (state_json s) = Inr s"
proof -
  have "distinct required_modes" by (simp add: required_modes_def)
  then have "distinct (map fst (ck_modes s))" using assms by (simp add: state_ok_def)
  then have "read_modes (JObj (map (\<lambda>(m, b). (m, JPrim (JBool b))) (ck_modes s))) (map fst (ck_modes s))
      = Inr (ck_modes s)" by (rule modes_roundtrip) simp
  then have m: "read_modes (JObj (map (\<lambda>(m, b). (m, JPrim (JBool b))) (ck_modes s))) required_modes
      = Inr (ck_modes s)" using assms by (simp add: state_ok_def)
  then show ?thesis
    using assms unfolding normalize_terminal_state_def state_json_def Let_def
    by (simp add: json_get_def plain_object_def array_items_def m state_ok_def require_def json_true_def andthen_def)
qed

lemma checkpoint_roundtrip:
  assumes ok: "checkpoint_ok c"
    and ex: "json_truthy expected \<longrightarrow> normalize_checkpoint_identity expected = Inr (ck_identity c)"
  shows "normalize_checkpoint (checkpoint_json c) expected = Inr c"
proof -
  obtain start stop bytes where tail: "ck_tail c = (start, stop, bytes)" by (cases "ck_tail c")
  have ids: "normalize_checkpoint_identity (identity_json (ck_identity c)) = Inr (ck_identity c)"
    "normalize_terminal_state (state_json (ck_state c)) = Inr (ck_state c)"
    using ok by (simp_all add: checkpoint_ok_def identity_roundtrip state_roundtrip)
  show ?thesis
    using ok ex unfolding normalize_checkpoint_def checkpoint_json_def Let_def
    by (auto simp: json_get_def plain_object_def checkpoint_ok_def state_ok_def tail andthen_def require_def
        ids either_key_def json_nullish_def json_or_def json_truthy_def js_truthy_def)
qed

text \<open>
  A checkpoint that passes validation has a continuous, bounded tail that starts at its cursor,
  a cursor inside a screen of the announced geometry, and the expected identity; and validating its
  own normal form again returns it unchanged.
\<close>

theorem checkpoint_validation:
  assumes "normalize_checkpoint input expected = Inr c"
  shows "checkpoint_ok c
     \<and> (json_truthy expected \<longrightarrow> normalize_checkpoint_identity expected = Inr (ck_identity c))
     \<and> normalize_checkpoint (checkpoint_json c) expected = Inr c"
proof -
  have ok: "checkpoint_ok c" by (rule normalize_checkpoint_ok [OF assms])
  have ex: "json_truthy expected \<longrightarrow> normalize_checkpoint_identity expected = Inr (ck_identity c)"
    using normalize_checkpoint_expected [OF assms] by blast
  show ?thesis using ok ex checkpoint_roundtrip [OF ok ex] by blast
qed

definition sample_state :: checkpoint_state where
  "sample_state = \<lparr>ck_modes = map (\<lambda>m. (m, False)) required_modes, ck_cursor_row = 1, ck_cursor_col = 2,
     ck_visible = True, ck_rows = 2, ck_cols = 3, ck_lines = [(''ls'', False), ([], True)], ck_alternate = False\<rparr>"

definition sample_checkpoint :: checkpoint where
  "sample_checkpoint = \<lparr>ck_id = ''c1'', ck_identity = \<lparr>ci_selector = ''box'', ci_pane = ''p1'', ci_generation = ''g1''\<rparr>,
     ck_cursor = 40, ck_geometry = (3, 2), ck_state = sample_state, ck_tail = (40, 45, 5)\<rparr>"

lemma checkpoint_validation_witness:
  "checkpoint_ok sample_checkpoint
   \<and> normalize_checkpoint (checkpoint_json sample_checkpoint) (identity_json (ck_identity sample_checkpoint))
       = Inr sample_checkpoint"
proof -
  have t: "js_trim ''c1'' = ''c1''" "js_trim ''box'' = ''box''" "js_trim ''p1'' = ''p1''" "js_trim ''g1'' = ''g1''"
    by code_simp+
  then have i: "identity_ok (ck_identity sample_checkpoint)" by (simp add: sample_checkpoint_def identity_ok_def)
  have s: "state_ok sample_state"
    by (simp add: state_ok_def sample_state_def comp_def max_screen_rows_def)
  have "checkpoint_ok sample_checkpoint"
    using i s t by (simp add: checkpoint_ok_def sample_checkpoint_def max_tail_bytes_def)
      (simp add: sample_state_def)
  then have n: "normalize_checkpoint (checkpoint_json sample_checkpoint) (identity_json (ck_identity sample_checkpoint))
      = Inr sample_checkpoint"
    by (rule checkpoint_roundtrip) (simp add: i identity_roundtrip)
  show ?thesis using checkpoint_validation [OF n] by blast
qed

text \<open>The protocol is agreed only with a positive bound that neither side exceeds.\<close>

lemma negotiated_bound:
  assumes "negotiate_checkpoint local remote = Some m"
  shows "0 < m \<and> m \<le> int max_tail_bytes \<and> (\<exists>l r. find_capability local = Some l \<and> find_capability remote = Some r
     \<and> m \<le> num_int (json_number (json_or (json_get l ''maxTailBytes'') (JPrim (Num (Fin 0)))))
     \<and> m \<le> num_int (json_number (json_or (json_get r ''maxTailBytes'') (JPrim (Num (Fin 0))))))"
  using assms by (auto simp: negotiate_checkpoint_def Let_def split: option.splits if_splits)

end
