(* ===== verification/Output_Text.thy ===== *)
theory Output_Text
  imports Js "HOL-Library.Word"
begin

unbundle bit_operations_syntax

section \<open>Measuring and cutting terminal output and input\<close>

text \<open>
  Model of \<open>terminal/output/output_model.js\<close> and of the chunking half of \<open>terminal/input/input_model.js\<close>
  (under \<open>src/runtime/static\<close>). A JavaScript text is the list of its UTF-16 code units. The
  specification is \<open>utf8_len\<close>, the number of bytes \<open>TextEncoder\<close> writes for a text: a surrogate
  pair takes four bytes, an unpaired surrogate the three of the replacement character.
\<close>

subsection \<open>UTF-16 and UTF-8\<close>

type_synonym units = "nat list"

definition high_unit :: "nat \<Rightarrow> bool" where
  "high_unit u = (0xd800 \<le> u \<and> u \<le> 0xdbff)"

definition low_unit :: "nat \<Rightarrow> bool" where
  "low_unit u = (0xdc00 \<le> u \<and> u \<le> 0xdfff)"

definition utf8_len_of_code_point :: "nat \<Rightarrow> nat" where
  "utf8_len_of_code_point c = (if c \<le> 0x7f then 1 else if c \<le> 0x7ff then 2 else if c \<le> 0xffff then 3 else 4)"

fun utf8_len :: "units \<Rightarrow> nat" where
  "utf8_len [] = 0"
| "utf8_len [u] = utf8_len_of_code_point u"
| "utf8_len (u # v # r) = (if high_unit u \<and> low_unit v then 4 + utf8_len r
     else utf8_len_of_code_point u + utf8_len (v # r))"

text \<open>A cut between two lists of units that does not split a surrogate pair.\<close>

definition clean_cut :: "units \<Rightarrow> units \<Rightarrow> bool" where
  "clean_cut xs ys = (xs = [] \<or> ys = [] \<or> \<not> (high_unit (last xs) \<and> low_unit (hd ys)))"

lemma not_high_low: "high_unit u \<Longrightarrow> \<not> low_unit u"
  by (simp add: high_unit_def low_unit_def)

lemma utf8_len_append:
  "clean_cut xs ys \<Longrightarrow> utf8_len (xs @ ys) = utf8_len xs + utf8_len ys"
proof (induction xs rule: utf8_len.induct)
  case (2 u)
  then show ?case by (cases ys) (auto simp: clean_cut_def)
next
  case (3 u v r)
  show ?case
  proof (cases "high_unit u \<and> low_unit v")
    case True
    have "clean_cut r ys" using 3(3) by (auto simp: clean_cut_def split: if_splits)
    with 3(1) True show ?thesis by simp
  next
    case False
    have "clean_cut (v # r) ys" using 3(3) by (simp add: clean_cut_def)
    with 3(2) False show ?thesis by auto
  qed
qed simp

subsection \<open>Cutting by a number of units\<close>

text \<open>
  The length of the next slice: at most \<open>sz\<close> units, one less when that would end on a high
  surrogate, and at least one. \<open>terminalOutputByteLength\<close> and \<open>splitTerminalInputChunks\<close> share it;
  the slices start at the current offset, so the rest of the text stands for the offset.
\<close>

definition slice_end :: "nat \<Rightarrow> units \<Rightarrow> nat" where
  "slice_end sz rest =
     (let e = min (length rest) sz;
          e' = (if e < length rest \<and> 0 < e \<and> high_unit (rest ! (e - 1)) then e - 1 else e)
      in if e' = 0 then min (length rest) 1 else e')"

lemma slice_end_bounds:
  "rest \<noteq> [] \<Longrightarrow> 0 < slice_end sz rest" "slice_end sz rest \<le> length rest"
  "0 < sz \<Longrightarrow> slice_end sz rest \<le> sz"
  by (auto simp: slice_end_def Let_def)

function input_chunks :: "nat \<Rightarrow> units \<Rightarrow> units list" where
  "input_chunks sz rest = (if rest = [] then [] else
     take (slice_end sz rest) rest # input_chunks sz (drop (slice_end sz rest) rest))"
  by pat_completeness auto
termination
  by (relation "measure (\<lambda>(sz, rest). length rest)") (auto simp: slice_end_bounds)

function measure_output :: "nat \<Rightarrow> units \<Rightarrow> nat" where
  "measure_output sz rest = (if rest = [] then 0 else
     utf8_len (take (slice_end sz rest) rest) + measure_output sz (drop (slice_end sz rest) rest))"
  by pat_completeness auto
termination
  by (relation "measure (\<lambda>(sz, rest). length rest)") (auto simp: slice_end_bounds)

declare input_chunks.simps [simp del] measure_output.simps [simp del]

datatype output_data = Text units | Bytes "8 word list" | OtherData

definition output_kind :: "output_data \<Rightarrow> string" where
  "output_kind d = (case d of Text _ \<Rightarrow> ''text'' | Bytes _ \<Rightarrow> ''bytes'' | OtherData \<Rightarrow> [])"

definition output_byte_length :: "output_data \<Rightarrow> nat" where
  "output_byte_length d = (case d of Text t \<Rightarrow> measure_output 32768 t | Bytes b \<Rightarrow> length b | OtherData \<Rightarrow> 0)"

text \<open>\<open>Math.max(1, Math.floor(Number(chunkChars) || 1))\<close>; the infinity leaves the text in one piece.\<close>

definition input_chunk_size :: "jsval \<Rightarrow> nat \<Rightarrow> nat" where
  "input_chunk_size v len = (case js_number v of
     Fin r \<Rightarrow> if r = 0 then 1 else nat (max 1 (floor r)) | PosInf \<Rightarrow> max 1 len | _ \<Rightarrow> 1)"

definition split_input :: "jsval \<Rightarrow> units \<Rightarrow> units list" where
  "split_input chunk_chars t = input_chunks (input_chunk_size chunk_chars (length t)) t"

record input_item =
  ii_data :: units
  ii_generated :: bool
  ii_bytes :: nat

fun queue_items :: "bool \<Rightarrow> nat option \<Rightarrow> nat \<Rightarrow> units list \<Rightarrow> input_item list \<times> nat \<times> bool" where
  "queue_items gen limit sum0 [] = ([], sum0, False)"
| "queue_items gen limit sum0 (c # cs) =
     (let n = utf8_len c; sum' = sum0 + n in
      if (case limit of None \<Rightarrow> False | Some m \<Rightarrow> m < sum') then ([], sum', True)
      else (case queue_items gen limit sum' cs of (is, b, ex) \<Rightarrow>
        (if ex then [] else \<lparr>ii_data = c, ii_generated = gen, ii_bytes = n\<rparr> # is, b, ex)))"

definition build_input_items :: "jsval \<Rightarrow> bool \<Rightarrow> nat option \<Rightarrow> units \<Rightarrow> input_item list \<times> nat \<times> bool" where
  "build_input_items chunk_chars gen limit t = queue_items gen limit 0 (split_input chunk_chars t)"

lemma slice_clean:
  assumes "rest \<noteq> []" "2 \<le> sz"
  shows "clean_cut (take (slice_end sz rest) rest) (drop (slice_end sz rest) rest)"
proof -
  let ?e = "min (length rest) sz"
  show ?thesis
  proof (cases "?e < length rest \<and> high_unit (rest ! (?e - 1))")
    case True
    then have e: "slice_end sz rest = sz - 1" using assms by (auto simp: slice_end_def Let_def min_def)
    have "hd (drop (sz - 1) rest) = rest ! (sz - 1)" using True by (intro hd_drop_conv_nth) auto
    moreover have "high_unit (rest ! (sz - 1))" using True by (simp add: min_def split: if_splits)
    ultimately show ?thesis using not_high_low by (auto simp: e clean_cut_def)
  next
    case False
    then have e: "slice_end sz rest = ?e" using assms by (auto simp: slice_end_def Let_def)
    show ?thesis
    proof (cases "?e < length rest")
      case True
      then have "last (take ?e rest) = rest ! (?e - 1)" using assms by (subst last_conv_nth) auto
      then show ?thesis using False True by (simp add: e clean_cut_def)
    next
      case F: False
      then show ?thesis by (simp add: e clean_cut_def)
    qed
  qed
qed

lemma measure_output_exact: "2 \<le> sz \<Longrightarrow> measure_output sz rest = utf8_len rest"
proof (induction sz rest rule: measure_output.induct)
  case (1 sz rest)
  show ?case
  proof (cases "rest = []")
    case False
    let ?k = "slice_end sz rest"
    have "utf8_len (take ?k rest @ drop ?k rest) = utf8_len (take ?k rest) + utf8_len (drop ?k rest)"
      by (rule utf8_len_append [OF slice_clean [OF False 1(2)]])
    then show ?thesis using 1(1) [OF False 1(2)] by (simp add: measure_output.simps [of sz rest] False)
  qed (simp add: measure_output.simps)
qed

lemma input_chunks_concat: "concat (input_chunks sz rest) = rest"
  by (induction sz rest rule: input_chunks.induct) (simp add: input_chunks.simps)

lemma input_chunks_bounds:
  "0 < sz \<Longrightarrow> \<forall>c \<in> set (input_chunks sz rest). c \<noteq> [] \<and> length c \<le> sz"
proof (induction sz rest rule: input_chunks.induct)
  case (1 sz rest)
  then show ?case
    using slice_end_bounds(1) [of rest sz] slice_end_bounds(3) [of sz rest] by (subst input_chunks.simps) (auto simp: min_def)
qed

lemma input_chunks_bytes:
  "2 \<le> sz \<Longrightarrow> sum_list (map utf8_len (input_chunks sz rest)) = utf8_len rest"
proof (induction sz rest rule: input_chunks.induct)
  case (1 sz rest)
  show ?case
  proof (cases "rest = []")
    case False
    let ?k = "slice_end sz rest"
    have "utf8_len (take ?k rest @ drop ?k rest) = utf8_len (take ?k rest) + utf8_len (drop ?k rest)"
      by (rule utf8_len_append [OF slice_clean [OF False 1(2)]])
    then show ?thesis using 1(1) [OF False 1(2)] by (simp add: input_chunks.simps [of sz rest] False)
  qed (simp add: input_chunks.simps)
qed

text \<open>
  Measuring output in slices of 32768 units gives exactly the number of bytes the encoder writes
  for the whole text: no slice boundary falls inside a surrogate pair.
\<close>

theorem measured_length_exact:
  "output_byte_length (Text t) = utf8_len t \<and> output_byte_length (Bytes b) = length b"
  by (simp add: output_byte_length_def measure_output_exact)

subsection \<open>Splitting output\<close>

text \<open>The next character of a text (\<open>codePointAt\<close> and \<open>fromCodePoint\<close>) and what follows it.\<close>

fun next_char :: "units \<Rightarrow> units \<times> units" where
  "next_char [] = ([], [])"
| "next_char [u] = ([u], [])"
| "next_char (u # v # r) = (if high_unit u \<and> low_unit v then ([u, v], r) else ([u], v # r))"

definition code_point :: "units \<Rightarrow> nat" where
  "code_point c = (case c of [u, v] \<Rightarrow> 0x10000 + (u - 0xd800) * 0x400 + (v - 0xdc00) | u # _ \<Rightarrow> u | [] \<Rightarrow> 0)"

lemma next_char_split: "fst (next_char t) @ snd (next_char t) = t"
  by (cases t rule: next_char.cases) auto

lemma next_char_less [simp]: "t \<noteq> [] \<Longrightarrow> length (snd (next_char t)) < length t"
  by (cases t rule: next_char.cases) auto

function split_text_from :: "nat \<Rightarrow> units \<Rightarrow> nat \<Rightarrow> units \<Rightarrow> units list" where
  "split_text_from limit chunk bytes t = (if t = [] then (if chunk = [] then [] else [chunk])
     else let c = fst (next_char t); n = utf8_len_of_code_point (code_point c) in
       if chunk \<noteq> [] \<and> limit < bytes + n then chunk # split_text_from limit c n (snd (next_char t))
       else split_text_from limit (chunk @ c) (bytes + n) (snd (next_char t)))"
  by pat_completeness auto
termination by (relation "measure (\<lambda>(l, c, b, t). length t)") auto

declare split_text_from.simps [simp del]

definition split_output_text :: "nat \<Rightarrow> units \<Rightarrow> units list" where
  "split_output_text limit t = split_text_from limit [] 0 t"

definition one_char :: "units \<Rightarrow> bool" where
  "one_char c = (c \<noteq> [] \<and> next_char c = (c, []))"

lemma next_char_one: "t \<noteq> [] \<Longrightarrow> one_char (fst (next_char t))"
  by (cases t rule: next_char.cases) (auto simp: one_char_def)

lemma next_char_len: "t \<noteq> [] \<Longrightarrow> utf8_len_of_code_point (code_point (fst (next_char t))) = utf8_len (fst (next_char t))"
  by (cases t rule: next_char.cases)
    (auto simp: code_point_def utf8_len_of_code_point_def high_unit_def low_unit_def)

lemma next_char_clean: "clean_cut (fst (next_char t)) (snd (next_char t))"
  by (cases t rule: next_char.cases) (auto simp: clean_cut_def dest: not_high_low)

lemma next_char_hd: "t \<noteq> [] \<Longrightarrow> fst (next_char t) \<noteq> [] \<and> hd (fst (next_char t)) = hd t"
  by (cases t rule: next_char.cases) auto

lemma split_text_from_correct:
  assumes "bytes = utf8_len chunk" "clean_cut chunk t" "chunk = [] \<or> bytes \<le> limit \<or> one_char chunk"
  shows "concat (split_text_from limit chunk bytes t) = chunk @ t
     \<and> sum_list (map utf8_len (split_text_from limit chunk bytes t)) = utf8_len (chunk @ t)
     \<and> (\<forall>c \<in> set (split_text_from limit chunk bytes t). c \<noteq> [] \<and> (utf8_len c \<le> limit \<or> one_char c))"
  using assms
proof (induction limit chunk bytes t rule: split_text_from.induct)
  case (1 limit chunk bytes t)
  show ?case
  proof (cases "t = []")
    case True
    then show ?thesis using 1(3-) by (auto simp: split_text_from.simps)
  next
    case t: False
    let ?c = "fst (next_char t)" and ?r = "snd (next_char t)"
    let ?n = "utf8_len_of_code_point (code_point ?c)"
    have n: "?n = utf8_len ?c" by (rule next_char_len [OF t])
    have c: "?c \<noteq> []" "hd ?c = hd t" "?c @ ?r = t" "one_char ?c"
      using next_char_hd [OF t] next_char_split [of t] next_char_one [OF t] by auto
    have cut: "clean_cut chunk ?c" using 1(4) t c by (auto simp: clean_cut_def)
    show ?thesis
    proof (cases "chunk \<noteq> [] \<and> limit < bytes + ?n")
      case True
      have ih: "concat (split_text_from limit ?c ?n ?r) = ?c @ ?r
         \<and> sum_list (map utf8_len (split_text_from limit ?c ?n ?r)) = utf8_len (?c @ ?r)
         \<and> (\<forall>c \<in> set (split_text_from limit ?c ?n ?r). c \<noteq> [] \<and> (utf8_len c \<le> limit \<or> one_char c))"
        by (rule 1(1) [OF t refl refl True n next_char_clean]) (simp add: c)
      have "utf8_len (chunk @ t) = utf8_len chunk + utf8_len t" by (rule utf8_len_append [OF 1(4)])
      then show ?thesis
        using ih True 1(3,5) t c(3) by (subst (1 2 3) split_text_from.simps) (auto simp: Let_def)
    next
      case False
      have e: "bytes + ?n = utf8_len (chunk @ ?c)" using 1(3) n utf8_len_append [OF cut] by simp
      have cl: "clean_cut (chunk @ ?c) ?r" using next_char_clean [of t] c by (simp add: clean_cut_def)
      have "chunk @ ?c = [] \<or> bytes + ?n \<le> limit \<or> one_char (chunk @ ?c)" using False c by auto
      note ih = 1(2) [OF t refl refl False e cl this]
      have "split_text_from limit chunk bytes t = split_text_from limit (chunk @ ?c) (bytes + ?n) ?r"
        using False t by (subst split_text_from.simps) (simp only: Let_def if_False)
      moreover have "(chunk @ ?c) @ ?r = chunk @ t" using c(3) by simp
      ultimately show ?thesis using ih by presburger
    qed
  qed
qed

text \<open>
  Splitting output text by a byte limit loses nothing and reorders nothing, keeps surrogate pairs
  whole (the byte counts of the pieces add up to that of the text), and makes no piece longer than
  the limit unless it is a single character.
\<close>

theorem split_text_correct:
  "concat (split_output_text limit t) = t
   \<and> sum_list (map utf8_len (split_output_text limit t)) = utf8_len t
   \<and> (\<forall>c \<in> set (split_output_text limit t). c \<noteq> [] \<and> (utf8_len c \<le> limit \<or> one_char c))"
  using split_text_from_correct [of 0 "[]" t limit] by (simp add: split_output_text_def clean_cut_def)

lemma split_text_correct_witness: "utf8_len [97, 8364] \<le> 4 \<or> one_char [97, 8364]"
proof -
  have "split_output_text 4 [97, 8364, 98] = [[97, 8364], [98]]"
    by (simp add: split_output_text_def split_text_from.simps code_point_def utf8_len_of_code_point_def
        high_unit_def low_unit_def)
  then show ?thesis using split_text_correct [of 4 "[97, 8364, 98]"] by simp
qed

subsection \<open>Byte output\<close>

definition continuation :: "8 word \<Rightarrow> bool" where
  "continuation b = (b AND 0xc0 = 0x80)"

fun back_up :: "8 word list \<Rightarrow> nat \<Rightarrow> nat \<Rightarrow> nat" where
  "back_up data start 0 = 0"
| "back_up data start (Suc e) = (if start < Suc e \<and> continuation (data ! Suc e) then back_up data start e else Suc e)"

definition byte_chunk_end :: "8 word list \<Rightarrow> nat \<Rightarrow> nat \<Rightarrow> nat" where
  "byte_chunk_end data start limit =
     (let hard = min (length data) (start + limit) in
      if length data \<le> hard then hard
      else let e = back_up data start hard in if start < e then e else hard)"

lemma back_up_bounds: "back_up data start e \<le> e" "start \<le> e \<Longrightarrow> start \<le> back_up data start e"
  by (induction e) auto

lemma back_up_stop:
  "start < back_up data start e \<Longrightarrow> \<not> continuation (data ! back_up data start e)"
  by (induction e) auto

lemma back_up_run:
  "\<lbrakk>back_up data start e < i; i \<le> e\<rbrakk> \<Longrightarrow> continuation (data ! i)"
  by (induction e) (auto split: if_splits simp: le_Suc_eq)

text \<open>
  A slice of byte output makes progress, respects the limit and ends on a character boundary: in
  UTF-8 data, where at most three continuation bytes follow one another, a limit of at least four
  bytes never separates a character from its continuation bytes.
\<close>

theorem byte_slices_keep_characters:
  assumes "start < length data" "4 \<le> limit"
    and utf8: "\<And>i. i + 3 < length data \<Longrightarrow> \<not> (\<forall>k < 4. continuation (data ! (i + k)))"
  shows "start < byte_chunk_end data start limit
     \<and> byte_chunk_end data start limit \<le> min (length data) (start + limit)
     \<and> (byte_chunk_end data start limit < length data \<longrightarrow>
          \<not> continuation (data ! byte_chunk_end data start limit))"
proof (cases "length data \<le> start + limit")
  case True
  then show ?thesis using assms(1) by (simp add: byte_chunk_end_def Let_def)
next
  case False
  let ?h = "start + limit"
  let ?e = "back_up data start ?h"
  have "start < ?e"
  proof (rule ccontr)
    assume "\<not> start < ?e"
    then have "continuation (data ! i)" if "start < i" "i \<le> ?h" for i
      using back_up_run [of data start ?h i] that by simp
    then have "\<forall>k < 4. continuation (data ! (start + 1 + k))" using assms(2) by auto
    with utf8 [of "start + 1"] False assms(2) show False by auto
  qed
  then show ?thesis
    using False back_up_bounds(1) [of data start ?h] back_up_stop [of start data ?h]
    by (simp add: byte_chunk_end_def Let_def)
qed

definition sample_bytes :: "8 word list" where
  "sample_bytes = [0x61, 0xe4, 0xb8, 0xad, 0xe6, 0x96, 0x87, 0x62]"

lemma byte_slices_keep_characters_witness:
  "0 < byte_chunk_end sample_bytes 0 5 \<and> byte_chunk_end sample_bytes 0 5 = 4"
proof -
  have "0 < length sample_bytes" "(4 :: nat) \<le> 5" by (simp_all add: sample_bytes_def)
  moreover have "\<not> (\<forall>k < 4. continuation (sample_bytes ! (i + k)))" if "i + 3 < length sample_bytes" for i
  proof -
    have i: "i \<le> 4" using that by (simp add: sample_bytes_def)
    have c: "\<not> continuation (sample_bytes ! 1)" "\<not> continuation (sample_bytes ! 4)"
      by (simp_all add: sample_bytes_def continuation_def)
    show ?thesis
    proof
      assume all: "\<forall>k < 4. continuation (sample_bytes ! (i + k))"
      show False
      proof (cases "i \<le> 1")
        case True
        then show False using all c(1) by (elim allE [of _ "1 - i"]) simp
      next
        case False
        then show False using all c(2) i by (elim allE [of _ "4 - i"]) simp
      qed
    qed
  qed
  ultimately have "0 < byte_chunk_end sample_bytes 0 5" using byte_slices_keep_characters by blast
  moreover have "byte_chunk_end sample_bytes 0 5 = 4"
  proof -
    have "back_up sample_bytes 0 (Suc (Suc 3)) = 4"
      by (simp only: back_up.simps) (simp add: sample_bytes_def continuation_def)
    then have "back_up sample_bytes 0 5 = 4" by simp
    moreover have "length sample_bytes = 8" by (simp add: sample_bytes_def)
    ultimately show ?thesis by (simp add: byte_chunk_end_def Let_def)
  qed
  ultimately show ?thesis by blast
qed

text \<open>
  \<open>coalesceTerminalOutputBatch\<close>: \<open>None\<close> where setting the chunks into the buffer of the given length
  throws; the rest of a longer buffer stays zero.
\<close>

definition text_of :: "output_data \<Rightarrow> units" where
  "text_of d = (case d of Text t \<Rightarrow> t | _ \<Rightarrow> [])"

definition bytes_of :: "output_data \<Rightarrow> 8 word list" where
  "bytes_of d = (case d of Bytes b \<Rightarrow> b | _ \<Rightarrow> [])"

definition coalesce_output :: "output_data list \<Rightarrow> string \<Rightarrow> nat \<Rightarrow> output_data option" where
  "coalesce_output chunks kind n =
     (if length chunks = 1 then Some (hd chunks)
      else if kind = ''text'' then Some (Text (concat (map text_of chunks)))
      else let b = concat (map bytes_of chunks) in
        if n < length b then None else Some (Bytes (b @ replicate (n - length b) 0)))"

lemma coalesce_bytes_exact:
  "length chunks \<noteq> 1 \<Longrightarrow> coalesce_output (map Bytes chunks) ''bytes'' (sum_list (map length chunks))
     = Some (Bytes (concat chunks))"
  by (simp add: coalesce_output_def comp_def bytes_of_def length_concat)

lemma coalesce_text_split:
  "length (split_output_text limit t) \<noteq> 1 \<Longrightarrow>
     coalesce_output (map Text (split_output_text limit t)) ''text'' n = Some (Text t)"
  using split_text_from_correct [of 0 "[]" t limit]
  by (simp add: coalesce_output_def comp_def text_of_def split_output_text_def clean_cut_def)

end
