(* ===== verification/Replay_Batch.thy ===== *)
theory Replay_Batch
  imports Json
begin

section \<open>Admission of a replay burst\<close>

text \<open>
  Model of \<open>src/runtime/static/terminal/output/replay_batch.js\<close>: a negotiated full snapshot is admitted as
  one batch, remembered per session with the generation of its output queue and its connection
  epoch, and forgotten when either changes. The session's fields the code reads are an argument.
\<close>

record batch =
  bt_bytes :: nat
  bt_start :: nat
  bt_end :: nat
  bt_waiting :: bool
  bt_aggregate :: bool
  bt_generation :: nat
  bt_epoch :: nat
  bt_startedAt :: rat
  bt_receivedAt :: rat

record batch_session =
  bs_remote :: bool
  bs_generation :: nat
  bs_epoch :: nat
  bs_applied :: nat

datatype batch_event = BatchBegin nat nat | BatchReceived nat rat bool | BatchInterrupted nat | BatchApplied nat bool rat

record batches =
  bb_batch :: "batch option"
  bb_events :: "batch_event list"

definition batch_limit :: "int \<Rightarrow> batch_session \<Rightarrow> int" where
  "batch_limit maxQueued v = (if bs_remote v then max 0 (min 3500000 (maxQueued - 512 * 1024)) else 0)"

definition batch_get :: "batch_session \<Rightarrow> batches \<Rightarrow> batch option \<times> batches" where
  "batch_get v s = (case bb_batch s of None \<Rightarrow> (None, s)
     | Some b \<Rightarrow> if bt_generation b \<noteq> bs_generation v \<or> bt_epoch b \<noteq> bs_epoch v
                then (None, s\<lparr>bb_batch := None\<rparr>) else (Some b, s))"

text \<open>The batch a start message announces, if it may be admitted.\<close>

definition announced_batch :: "int \<Rightarrow> rat \<Rightarrow> batch_session \<Rightarrow> json \<Rightarrow> batch option" where
  "announced_batch maxQueued now v m =
     (let bytes = json_number (json_or (json_get m ''replay_burst_bytes'') (JPrim (Num (Fin 0))));
          start = json_text (json_get m ''delta_from_cursor'');
          stop = json_text (json_get m ''delta_to_cursor'')
      in if \<not> safe_integer bytes \<or> num_int bytes \<le> 0 \<or> batch_limit maxQueued v < num_int bytes
            \<or> json_get m ''sync_mode'' \<noteq> JPrim (Str ''snapshot'') then None
         else if \<not> all_digits start \<or> \<not> all_digits stop
            \<or> int (parse_nat stop) - int (parse_nat start) \<noteq> num_int bytes then None
         else Some \<lparr>bt_bytes = nat (num_int bytes), bt_start = parse_nat start, bt_end = parse_nat stop,
             bt_waiting = True, bt_aggregate = True, bt_generation = bs_generation v, bt_epoch = bs_epoch v,
             bt_startedAt = now, bt_receivedAt = 0\<rparr>)"

definition batch_begin :: "int \<Rightarrow> rat \<Rightarrow> batch_session \<Rightarrow> json \<Rightarrow> batches \<Rightarrow> bool \<times> batches" where
  "batch_begin maxQueued now v m s = (case announced_batch maxQueued now v m of
     None \<Rightarrow> (False, s\<lparr>bb_batch := None\<rparr>)
   | Some b \<Rightarrow> (True, s\<lparr>bb_batch := Some b, bb_events := bb_events s @ [BatchBegin (bt_bytes b) (bt_end b)]\<rparr>))"

definition batch_complete :: "rat \<Rightarrow> batch_session \<Rightarrow> batches \<Rightarrow> bool \<times> batches" where
  "batch_complete now v s0 = (case batch_get v s0 of (None, s) \<Rightarrow> (False, s)
     | (Some b, s) \<Rightarrow> (True, s\<lparr>bb_batch := Some (b\<lparr>bt_waiting := False, bt_receivedAt := now\<rparr>),
         bb_events := bb_events s @ [BatchReceived (bt_bytes b) (now - bt_startedAt b) (bt_aggregate b)]\<rparr>))"

definition batch_interrupt :: "batch_session \<Rightarrow> batches \<Rightarrow> batches" where
  "batch_interrupt v s0 = (case batch_get v s0 of (None, s) \<Rightarrow> s
     | (Some b, s) \<Rightarrow> if \<not> bt_aggregate b then s else
         s\<lparr>bb_batch := Some (b\<lparr>bt_waiting := False, bt_aggregate := False\<rparr>),
           bb_events := bb_events s @ [BatchInterrupted (bt_bytes b)]\<rparr>)"

definition batch_applied :: "rat \<Rightarrow> batch_session \<Rightarrow> batches \<Rightarrow> batches" where
  "batch_applied now v s0 = (case batch_get v s0 of (None, s) \<Rightarrow> s
     | (Some b, s) \<Rightarrow> if bs_applied v < bt_end b then s else
         s\<lparr>bb_batch := None, bb_events := bb_events s @
           [BatchApplied (bt_bytes b) (bt_aggregate b)
              (now - (if bt_receivedAt b \<noteq> 0 then bt_receivedAt b else bt_startedAt b))]\<rparr>)"

definition batch_discard :: "batches \<Rightarrow> batches" where
  "batch_discard s = s\<lparr>bb_batch := None\<rparr>"

datatype batch_op = BtBegin int rat batch_session json | BtComplete rat batch_session | BtInterrupt batch_session
  | BtApplied rat batch_session | BtDiscard

fun batch_step :: "batches \<Rightarrow> batch_op \<Rightarrow> batches" where
  "batch_step s (BtBegin q now v m) = snd (batch_begin q now v m s)"
| "batch_step s (BtComplete now v) = snd (batch_complete now v s)"
| "batch_step s (BtInterrupt v) = batch_interrupt v s"
| "batch_step s (BtApplied now v) = batch_applied now v s"
| "batch_step s BtDiscard = batch_discard s"

subsection \<open>What is remembered and reported\<close>

text \<open>A remembered batch covers exactly its bytes and fits the largest burst; every report of an
  application has its own beginning before it.\<close>

definition is_begin :: "batch_event \<Rightarrow> bool" where
  "is_begin e = (case e of BatchBegin _ _ \<Rightarrow> True | _ \<Rightarrow> False)"

definition is_applied :: "batch_event \<Rightarrow> bool" where
  "is_applied e = (case e of BatchApplied _ _ _ \<Rightarrow> True | _ \<Rightarrow> False)"

definition count_of :: "('a \<Rightarrow> bool) \<Rightarrow> 'a list \<Rightarrow> nat" where
  "count_of P xs = length (filter P xs)"

definition batch_ok :: "batch \<Rightarrow> bool" where
  "batch_ok b = (bt_end b = bt_start b + bt_bytes b \<and> 0 < bt_bytes b \<and> bt_bytes b \<le> 3500000)"

definition batch_inv :: "batches \<Rightarrow> bool" where
  "batch_inv s = (case bb_batch s of
     None \<Rightarrow> count_of is_applied (bb_events s) \<le> count_of is_begin (bb_events s)
   | Some b \<Rightarrow> batch_ok b \<and> count_of is_applied (bb_events s) < count_of is_begin (bb_events s))"

lemma count_snoc [simp]: "count_of P (xs @ [x]) = count_of P xs + (if P x then 1 else 0)"
  by (simp add: count_of_def)

lemma event_kinds [simp]:
  "is_begin (BatchBegin a b)" "\<not> is_begin (BatchReceived a r c)" "\<not> is_begin (BatchInterrupted a)"
  "\<not> is_begin (BatchApplied a c r)" "\<not> is_applied (BatchBegin a b)" "\<not> is_applied (BatchReceived a r c)"
  "\<not> is_applied (BatchInterrupted a)" "is_applied (BatchApplied a c r)"
  by (simp_all add: is_begin_def is_applied_def)

lemma batch_get_inv:
  assumes "batch_inv s0" "batch_get v s0 = (r, s)"
  shows "batch_inv s" "bb_batch s = r"
  using assms by (auto simp: batch_get_def batch_inv_def split: option.splits if_splits)

lemma batch_limit_bound: "batch_limit q v \<le> 3500000"
  by (simp add: batch_limit_def)

lemma announced_batch_ok:
  assumes "announced_batch q now v m = Some b"
  shows "batch_ok b"
proof -
  let ?n = "num_int (json_number (json_or (json_get m ''replay_burst_bytes'') (JPrim (Num (Fin 0)))))"
  from assms have "0 < ?n" "?n \<le> batch_limit q v" "bt_bytes b = nat ?n" "int (bt_end b) - int (bt_start b) = ?n"
    by (auto simp: announced_batch_def Let_def split: if_splits)
  moreover from this have "int (bt_bytes b) = ?n" by simp
  ultimately show ?thesis using batch_limit_bound [of q v] unfolding batch_ok_def by linarith
qed

lemma batch_ok_flags [simp]:
  "batch_ok (b\<lparr>bt_waiting := w\<rparr>) = batch_ok b" "batch_ok (b\<lparr>bt_aggregate := a\<rparr>) = batch_ok b"
  "batch_ok (b\<lparr>bt_receivedAt := t\<rparr>) = batch_ok b"
  by (simp_all add: batch_ok_def)

lemma batch_begin_inv: "batch_inv s \<Longrightarrow> batch_inv (snd (batch_begin q now v m s))"
  by (cases "announced_batch q now v m"; cases "bb_batch s")
    (simp_all add: batch_inv_def batch_begin_def announced_batch_ok)

lemma batch_update_inv:
  assumes "batch_inv s0" "batch_get v s0 = (Some b, s)"
  shows "batch_ok b" "count_of is_applied (bb_events s) < count_of is_begin (bb_events s)"
  using batch_get_inv [OF assms] by (simp_all add: batch_inv_def)

lemma batch_complete_inv: "batch_inv s0 \<Longrightarrow> batch_inv (snd (batch_complete now v s0))"
proof (cases "batch_get v s0")
  case (Pair r s)
  assume "batch_inv s0"
  with Pair show ?thesis
    by (cases r) (simp_all add: batch_complete_def batch_get_inv(1), simp add: batch_inv_def batch_update_inv)
qed

lemma batch_interrupt_inv: "batch_inv s0 \<Longrightarrow> batch_inv (batch_interrupt v s0)"
proof (cases "batch_get v s0")
  case (Pair r s)
  assume "batch_inv s0"
  with Pair show ?thesis
    by (cases r) (simp_all add: batch_interrupt_def batch_get_inv(1), simp add: batch_inv_def batch_update_inv)
qed

lemma batch_applied_inv: "batch_inv s0 \<Longrightarrow> batch_inv (batch_applied now v s0)"
proof (cases "batch_get v s0")
  case (Pair r s)
  assume "batch_inv s0"
  with Pair show ?thesis
    using batch_update_inv [of s0 v] by (cases r)
      (simp_all add: batch_applied_def batch_get_inv(1), simp add: batch_inv_def Suc_le_eq)
qed

lemma batch_inv_step: "batch_inv s \<Longrightarrow> batch_inv (batch_step s e)"
  by (cases e) (simp_all add: batch_begin_inv batch_complete_inv batch_interrupt_inv batch_applied_inv,
      auto simp: batch_discard_def batch_inv_def split: option.splits)

interpretation rb: invariant_machine batch_step batch_inv
  by standard (rule batch_inv_step)

text \<open>A batch is reported applied only when the applied cursor has reached its end.\<close>

lemma applied_at_end:
  assumes "bb_events (batch_applied now v s) \<noteq> bb_events s"
  shows "\<exists>b. bb_batch s = Some b \<and> bt_end b \<le> bs_applied v \<and> bt_generation b = bs_generation v
     \<and> bt_epoch b = bs_epoch v"
  using assms by (auto simp: batch_applied_def batch_get_def split: option.splits if_splits)

end
