(* ===== verification/Work_Scheduler.thy ===== *)
theory Work_Scheduler
  imports Js "HOL-Library.Product_Lexorder" "HOL-Library.Sublist"
begin

section \<open>The page-wide work budget\<close>

text \<open>
  Model of \<open>src/runtime/static/terminal/scheduling/work_scheduler.js\<close>: tasks of many owners share one
  budget of milliseconds per pump. A task is an object, so it carries the number of the object. What a
  callback does while it runs (the calls it makes back into the scheduler, and until when it runs) is an
  argument; a call has the time at which it is made. The values of the clock are exact. A callback that
  throws is reported to \<open>onError\<close>, which is taken not to call the scheduler.
\<close>

subsection \<open>State\<close>

record wk_task =
  wt_owner :: nat
  wt_key :: string
  wt_uid :: nat
  wt_queued :: rat
  wt_seq :: nat
  wt_due :: rat

type_synonym wk_owners = "(nat, (string, wk_task) jsmap) jsmap"

record work =
  wk_owners :: wk_owners
  wk_frame :: bool
  wk_timer :: bool
  wk_spent :: rat
  wk_running :: nat
  wk_runStarted :: rat
  wk_sequence :: nat
  wk_nextUid :: nat
  wk_disposed :: bool
  wk_ran :: "nat list"

definition work_start :: work where
  "work_start = \<lparr>wk_owners = [], wk_frame = False, wk_timer = False, wk_spent = 0, wk_running = 0,
     wk_runStarted = 0, wk_sequence = 0, wk_nextUid = 0, wk_disposed = False, wk_ran = []\<rparr>"

definition clear_wake :: "work \<Rightarrow> work" where
  "clear_wake s = s\<lparr>wk_frame := False, wk_timer := False\<rparr>"

definition remaining_ms :: "rat \<Rightarrow> rat \<Rightarrow> work \<Rightarrow> rat" where
  "remaining_ms budget now s =
     max 0 (budget - wk_spent s - (if wk_running s \<noteq> 0 then now - wk_runStarted s else 0))"

definition arm :: "work \<Rightarrow> work" where
  "arm s = (if wk_disposed s \<or> wk_frame s \<or> wk_timer s then s else s\<lparr>wk_frame := True, wk_timer := True\<rparr>)"

definition get_task :: "nat \<Rightarrow> string \<Rightarrow> wk_owners \<Rightarrow> wk_task option" where
  "get_task owner key os = (case mget os owner of None \<Rightarrow> None | Some es \<Rightarrow> mget es key)"

definition cancel_in :: "nat \<Rightarrow> string \<Rightarrow> wk_owners \<Rightarrow> wk_owners" where
  "cancel_in owner key os = (case mget os owner of None \<Rightarrow> os
     | Some es \<Rightarrow> if mdel key es = [] then mdel owner os else mput owner (mdel key es) os)"

definition wk_cancel :: "nat \<Rightarrow> string \<Rightarrow> work \<Rightarrow> bool \<times> work" where
  "wk_cancel owner key s =
     (get_task owner key (wk_owners s) \<noteq> None, s\<lparr>wk_owners := cancel_in owner key (wk_owners s)\<rparr>)"

definition wk_cancel_owner :: "nat \<Rightarrow> work \<Rightarrow> work" where
  "wk_cancel_owner owner s = s\<lparr>wk_owners := mdel owner (wk_owners s)\<rparr>"

definition put_in :: "wk_task \<Rightarrow> wk_owners \<Rightarrow> wk_owners" where
  "put_in t os = (let es = (case mget os (wt_owner t) of None \<Rightarrow> [] | Some es \<Rightarrow> es)
     in mput (wt_owner t) (mput (wt_key t) t es) os)"

text \<open>\<open>schedule\<close>, for a given owner object and a function.\<close>

definition wk_schedule :: "rat \<Rightarrow> nat \<Rightarrow> string \<Rightarrow> rat \<Rightarrow> work \<Rightarrow> bool \<times> work" where
  "wk_schedule now owner key delay s = (if wk_disposed s then (False, s) else
     let previous = get_task owner key (wk_owners s);
         task = \<lparr>wt_owner = owner, wt_key = key, wt_uid = wk_nextUid s,
                 wt_queued = (case previous of None \<Rightarrow> now | Some p \<Rightarrow> wt_queued p),
                 wt_seq = (case previous of None \<Rightarrow> wk_sequence s | Some p \<Rightarrow> wt_seq p),
                 wt_due = now + max 0 delay\<rparr>
     in (True, arm (s\<lparr>wk_owners := put_in task (wk_owners s), wk_nextUid := Suc (wk_nextUid s),
           wk_sequence := (if previous = None then Suc (wk_sequence s) else wk_sequence s)\<rparr>)))"

definition wk_dispose :: "work \<Rightarrow> work" where
  "wk_dispose s = (clear_wake (s\<lparr>wk_disposed := True\<rparr>))\<lparr>wk_owners := []\<rparr>"

text \<open>\<open>measure\<close>, before and after the callback.\<close>

definition measure_begin :: "rat \<Rightarrow> work \<Rightarrow> work" where
  "measure_begin now s = s\<lparr>wk_running := Suc (wk_running s),
     wk_runStarted := (if wk_running s = 0 then now else wk_runStarted s)\<rparr>"

definition measure_end :: "rat \<Rightarrow> work \<Rightarrow> work" where
  "measure_end now s = s\<lparr>wk_running := wk_running s - 1,
     wk_spent := (if wk_running s = 1 then wk_spent s + max 0 (now - wk_runStarted s) else wk_spent s)\<rparr>"

subsection \<open>Calls and pumps\<close>

datatype wk_call = CSchedule nat string rat | CCancel nat string | CCancelOwner nat | CDispose
  | CRunNow "wk_timed list" rat
and wk_timed = At rat wk_call

fun wk_exec :: "rat \<Rightarrow> rat \<Rightarrow> wk_call \<Rightarrow> work \<Rightarrow> work"
and wk_exec_all :: "rat \<Rightarrow> wk_timed list \<Rightarrow> work \<Rightarrow> work" where
  "wk_exec budget now (CSchedule owner key delay) s = snd (wk_schedule now owner key delay s)"
| "wk_exec budget now (CCancel owner key) s = snd (wk_cancel owner key s)"
| "wk_exec budget now (CCancelOwner owner) s = wk_cancel_owner owner s"
| "wk_exec budget now CDispose s = wk_dispose s"
| "wk_exec budget now (CRunNow calls stop) s =
     (if wk_disposed s \<or> remaining_ms budget now s \<le> 0 then arm s
      else measure_end stop (wk_exec_all budget calls (measure_begin now (arm s))))"
| "wk_exec_all budget [] s = s"
| "wk_exec_all budget (At t c # cs) s = wk_exec_all budget cs (wk_exec budget t c s)"

text \<open>A turn of a task: when it starts and stops, and its calls.\<close>

record wk_turn =
  tn_start :: rat
  tn_calls :: "wk_timed list"
  tn_stop :: rat

definition all_tasks :: "wk_owners \<Rightarrow> wk_task list" where
  "all_tasks os = concat (map mvals (mvals os))"

definition task_score :: "(nat \<Rightarrow> rat) \<Rightarrow> rat \<Rightarrow> wk_task \<Rightarrow> rat" where
  "task_score prio now t = prio (wt_uid t) + of_int (floor ((now - wt_queued t) / 100))"

definition task_rank :: "(nat \<Rightarrow> rat) \<Rightarrow> rat \<Rightarrow> wk_task \<Rightarrow> rat \<times> nat" where
  "task_rank prio now t = (- task_score prio now t, wt_seq t)"

definition ready_tasks :: "(nat \<Rightarrow> rat) \<Rightarrow> rat \<Rightarrow> wk_owners \<Rightarrow> wk_task list" where
  "ready_tasks prio now os = sort_key (task_rank prio now) (filter (\<lambda>t. wt_due t \<le> now) (all_tasks os))"

definition run_task :: "rat \<Rightarrow> wk_turn \<Rightarrow> wk_task \<Rightarrow> work \<Rightarrow> work" where
  "run_task budget turn t s =
     (let s1 = snd (wk_cancel (wt_owner t) (wt_key t) s);
          s2 = s1\<lparr>wk_ran := wk_ran s1 @ [wt_uid t]\<rparr>
      in measure_end (tn_stop turn) (wk_exec_all budget (tn_calls turn) (measure_begin (tn_start turn) s2)))"

fun run_ready :: "rat \<Rightarrow> (nat \<Rightarrow> wk_turn) \<Rightarrow> wk_task list \<Rightarrow> work \<Rightarrow> work" where
  "run_ready budget turns [] s = s"
| "run_ready budget turns (t # ts) s =
     (if wk_disposed s \<or> remaining_ms budget (tn_start (turns (wt_uid t))) s \<le> 0 then s
      else if map_option wt_uid (get_task (wt_owner t) (wt_key t) (wk_owners s)) \<noteq> Some (wt_uid t)
      then run_ready budget turns ts s
      else run_ready budget turns ts (run_task budget (turns (wt_uid t)) t s))"

definition wk_pump :: "rat \<Rightarrow> rat \<Rightarrow> (nat \<Rightarrow> rat) \<Rightarrow> (nat \<Rightarrow> wk_turn) \<Rightarrow> work \<Rightarrow> work" where
  "wk_pump budget now prio turns s =
     (let s1 = clear_wake s in
      if wk_disposed s1 then s1
      else let s2 = run_ready budget turns (ready_tasks prio now (wk_owners s1)) (s1\<lparr>wk_spent := 0\<rparr>)
           in if wk_owners s2 \<noteq> [] then arm s2 else s2)"

datatype wk_event = WkCall rat wk_call | WkPump rat "nat \<Rightarrow> rat" "nat \<Rightarrow> wk_turn"

fun wk_step :: "rat \<Rightarrow> work \<Rightarrow> wk_event \<Rightarrow> work" where
  "wk_step budget s (WkCall now c) = wk_exec budget now c s"
| "wk_step budget s (WkPump now prio turns) = wk_pump budget now prio turns s"

subsection \<open>No work is stranded\<close>

text \<open>Outside a pump, waiting work implies that a frame or a timer is due.\<close>

definition armed :: "work \<Rightarrow> bool" where
  "armed s = (wk_disposed s \<or> wk_owners s = [] \<or> wk_frame s \<or> wk_timer s)"

lemma armed_arm: "armed (arm s)"
  by (simp add: armed_def arm_def)

lemma measure_keeps [simp]:
  "armed (measure_begin t s) = armed s" "armed (measure_end t s) = armed s"
  by (simp_all add: armed_def measure_begin_def measure_end_def)

lemma cancel_in_empty: "cancel_in owner key [] = []"
  by (simp add: cancel_in_def)

lemma mdel_Nil [simp]: "mdel k [] = []"
  by (simp add: mdel_def)

lemma armed_exec:
  "armed s \<Longrightarrow> armed (wk_exec budget now c s)"
  "armed s \<Longrightarrow> armed (wk_exec_all budget cs s)"
proof (induction budget now c s and budget cs s rule: wk_exec_wk_exec_all.induct)
  case (1 budget now owner key delay s)
  then show ?case by (simp add: wk_schedule_def armed_arm Let_def)
next
  case (5 budget now calls stop s)
  then show ?case by (simp add: armed_arm)
qed (auto simp: wk_cancel_def wk_cancel_owner_def wk_dispose_def armed_def cancel_in_empty)

lemma armed_step: "armed s \<Longrightarrow> armed (wk_step budget s e)"
  by (cases e) (auto simp: armed_exec wk_pump_def clear_wake_def armed_arm Let_def, simp_all add: armed_def)

interpretation wka: invariant_machine "wk_step budget" armed
  by standard (rule armed_step)

text \<open>
  C34. No work is stranded: whatever is scheduled, cancelled or run, also from inside a running task,
  as long as a task is waiting a frame or a timer is due to pump it.
\<close>

theorem work_never_stranded:
  "wk_disposed (foldl (wk_step budget) work_start es) \<or> wk_owners (foldl (wk_step budget) work_start es) = []
   \<or> wk_frame (foldl (wk_step budget) work_start es) \<or> wk_timer (foldl (wk_step budget) work_start es)"
  using wka.inv_run [of work_start budget es] by (simp add: armed_def work_start_def)

subsection \<open>What a pump runs\<close>

lemma get_put_in: "get_task o' k (put_in t os)
    = (if o' = wt_owner t \<and> k = wt_key t then Some t else get_task o' k os)"
  by (simp add: get_task_def put_in_def Let_def om.get_put split: option.split)

lemma get_cancel_in: "get_task o' k (cancel_in o'' k' os)
    = (if o' = o'' \<and> k = k' then None else get_task o' k os)"
proof (cases "mget os o''")
  case (Some es)
  have "mget es k = None" if "mdel k' es = []" "k \<noteq> k'" for k
    using that om.get_del [of k' es k] by simp
  then show ?thesis by (auto simp: get_task_def cancel_in_def Some om_simps split: option.split)
qed (auto simp: get_task_def cancel_in_def)

lemma get_cancel_owner: "get_task o' k (mdel o'' os) = (if o' = o'' then None else get_task o' k os)"
  by (simp add: get_task_def om.get_del)

definition wf_owners :: "wk_owners \<Rightarrow> bool" where
  "wf_owners os = (mwf os \<and> (\<forall>o' es. mget os o' = Some es \<longrightarrow> mwf es))"

lemma wf_owners_steps:
  "wf_owners os \<Longrightarrow> wf_owners (put_in t os)"
  "wf_owners os \<Longrightarrow> wf_owners (cancel_in o' k os)"
  "wf_owners os \<Longrightarrow> wf_owners (mdel o' os)"
  by (auto simp: wf_owners_def put_in_def cancel_in_def Let_def om_simps om.wf_put om.wf_del split: option.split if_splits)

lemma all_tasks_get:
  assumes "wf_owners os"
  shows "t \<in> set (all_tasks os) \<longleftrightarrow> (\<exists>o' k. get_task o' k os = Some t)"
proof
  assume "t \<in> set (all_tasks os)"
  then obtain o' es k where m: "(o', es) \<in> set os" "(k, t) \<in> set es" by (auto simp: all_tasks_def mvals_def)
  with assms have o: "mget os o' = Some es" by (simp add: wf_owners_def mget_iff_mem)
  with assms m have "mget es k = Some t" by (simp add: wf_owners_def mget_iff_mem)
  with o show "\<exists>o' k. get_task o' k os = Some t" by (auto simp: get_task_def intro!: exI [of _ o'] exI [of _ k])
next
  assume "\<exists>o' k. get_task o' k os = Some t"
  then show "t \<in> set (all_tasks os)"
    by (force simp: get_task_def all_tasks_def mvals_def dest: mget_mem split: option.splits)
qed

definition tasks_ok :: "wk_owners \<Rightarrow> nat \<Rightarrow> bool" where
  "tasks_ok os n = (wf_owners os
     \<and> (\<forall>o' k t. get_task o' k os = Some t \<longrightarrow> wt_owner t = o' \<and> wt_key t = k \<and> wt_uid t < n)
     \<and> (\<forall>o' k t o'' k' t'. get_task o' k os = Some t \<and> get_task o'' k' os = Some t' \<and> wt_uid t = wt_uid t'
          \<longrightarrow> o' = o'' \<and> k = k'))"

definition tasks_inv :: "work \<Rightarrow> bool" where
  "tasks_inv s = tasks_ok (wk_owners s) (wk_nextUid s)"

lemma tasks_okD:
  assumes "tasks_ok os n"
  shows "wf_owners os"
    and "get_task o' k os = Some t \<Longrightarrow> wt_owner t = o' \<and> wt_key t = k \<and> wt_uid t < n"
    and "\<lbrakk>get_task o' k os = Some t; get_task o'' k' os = Some t'; wt_uid t = wt_uid t'\<rbrakk> \<Longrightarrow> o' = o'' \<and> k = k'"
proof -
  show "wf_owners os" using assms by (simp add: tasks_ok_def)
  show "get_task o' k os = Some t \<Longrightarrow> wt_owner t = o' \<and> wt_key t = k \<and> wt_uid t < n"
    using assms unfolding tasks_ok_def by blast
  show "\<lbrakk>get_task o' k os = Some t; get_task o'' k' os = Some t'; wt_uid t = wt_uid t'\<rbrakk> \<Longrightarrow> o' = o'' \<and> k = k'"
    using assms unfolding tasks_ok_def by blast
qed

lemma tasks_ok_sub:
  assumes "tasks_ok os n" "wf_owners os'" "\<And>o' k t. get_task o' k os' = Some t \<Longrightarrow> get_task o' k os = Some t"
  shows "tasks_ok os' n"
  unfolding tasks_ok_def
  using assms(2) tasks_okD(2) [OF assms(1) assms(3)] tasks_okD(3) [OF assms(1) assms(3) assms(3)] by blast

lemma tasks_ok_put:
  assumes "tasks_ok os n" "wt_uid t = n"
  shows "tasks_ok (put_in t os) (Suc n)"
proof -
  have fresh: "wt_uid u \<noteq> n" if "get_task o' k os = Some u" for o' k u
    using tasks_okD(2) [OF assms(1) that] by simp
  show ?thesis
    unfolding tasks_ok_def get_put_in
    using wf_owners_steps(1) [OF tasks_okD(1) [OF assms(1)]] assms(2) fresh
    by (auto split: if_splits simp: less_Suc_eq dest: tasks_okD(2) [OF assms(1)] tasks_okD(3) [OF assms(1)])
qed

lemma tasks_inv_fields [simp]:
  "tasks_inv (s\<lparr>wk_frame := a\<rparr>) = tasks_inv s" "tasks_inv (s\<lparr>wk_timer := a\<rparr>) = tasks_inv s"
  "tasks_inv (s\<lparr>wk_spent := r\<rparr>) = tasks_inv s" "tasks_inv (s\<lparr>wk_disposed := a\<rparr>) = tasks_inv s"
  "tasks_inv (s\<lparr>wk_ran := xs\<rparr>) = tasks_inv s" "tasks_inv (s\<lparr>wk_sequence := n\<rparr>) = tasks_inv s"
  "tasks_inv (arm s) = tasks_inv s" "tasks_inv (measure_begin t s) = tasks_inv s"
  "tasks_inv (measure_end t s) = tasks_inv s" "tasks_inv (clear_wake s) = tasks_inv s"
  by (simp_all add: tasks_inv_def arm_def measure_begin_def measure_end_def clear_wake_def)

lemma tasks_inv_schedule: "tasks_inv s \<Longrightarrow> tasks_inv (snd (wk_schedule now owner key delay s))"
  using tasks_ok_put [of "wk_owners s" "wk_nextUid s" "\<lparr>wt_owner = owner, wt_key = key, wt_uid = wk_nextUid s,
        wt_queued = (case get_task owner key (wk_owners s) of None \<Rightarrow> now | Some p \<Rightarrow> wt_queued p),
        wt_seq = (case get_task owner key (wk_owners s) of None \<Rightarrow> wk_sequence s | Some p \<Rightarrow> wt_seq p),
        wt_due = now + max 0 delay\<rparr>"]
  by (simp add: wk_schedule_def Let_def) (simp add: tasks_inv_def)

lemma tasks_inv_cancel: "tasks_inv s \<Longrightarrow> tasks_inv (snd (wk_cancel owner key s))"
  unfolding wk_cancel_def tasks_inv_def
  by (simp, rule tasks_ok_sub) (auto simp: get_cancel_in tasks_ok_def wf_owners_steps split: if_splits)

lemma tasks_inv_cancel_owner: "tasks_inv s \<Longrightarrow> tasks_inv (wk_cancel_owner owner s)"
  unfolding wk_cancel_owner_def tasks_inv_def
  by (simp, rule tasks_ok_sub) (auto simp: get_cancel_owner tasks_ok_def wf_owners_steps split: if_splits)

lemma tasks_inv_dispose: "tasks_inv s \<Longrightarrow> tasks_inv (wk_dispose s)"
  unfolding wk_dispose_def tasks_inv_def by (simp add: tasks_ok_def get_task_def wf_owners_def)

lemma tasks_inv_exec:
  "tasks_inv s \<Longrightarrow> tasks_inv (wk_exec budget now c s)"
  "tasks_inv s \<Longrightarrow> tasks_inv (wk_exec_all budget cs s)"
  by (induction budget now c s and budget cs s rule: wk_exec_wk_exec_all.induct)
    (simp_all add: tasks_inv_schedule tasks_inv_cancel tasks_inv_cancel_owner tasks_inv_dispose)

lemma tasks_inv_run: "tasks_inv s \<Longrightarrow> tasks_inv (run_task budget turn t s)"
  by (simp add: run_task_def Let_def tasks_inv_exec tasks_inv_cancel)

lemma tasks_inv_ready: "tasks_inv s \<Longrightarrow> tasks_inv (run_ready budget turns ts s)"
  by (induction budget turns ts s rule: run_ready.induct) (simp_all add: tasks_inv_run)

lemma tasks_inv_step: "tasks_inv s \<Longrightarrow> tasks_inv (wk_step budget s e)"
  by (cases e) (simp_all add: tasks_inv_exec wk_pump_def tasks_inv_ready Let_def)

interpretation wkt: invariant_machine "wk_step budget" tasks_inv
  by standard (rule tasks_inv_step)

lemma subseq_distinct: "subseq xs ys \<Longrightarrow> distinct ys \<Longrightarrow> distinct xs \<and> set xs \<subseteq> set ys"
  by (induction rule: list_emb.induct) auto

text \<open>Tasks are distinct objects.\<close>

lemma pairs_distinct:
  assumes "mwf os" "\<And>o' es. (o', es) \<in> set os \<Longrightarrow> mwf es"
    "\<And>o' es k t. \<lbrakk>(o', es) \<in> set os; (k, t) \<in> set es\<rbrakk> \<Longrightarrow> wt_owner t = o' \<and> wt_key t = k"
  shows "distinct (map (\<lambda>t. (wt_owner t, wt_key t)) (all_tasks os))"
  using assms
proof (induction os)
  case (Cons e os)
  obtain o' es where e: "e = (o', es)" by (cases e)
  have "map wt_key (mvals es) = map fst es"
    unfolding mvals_def by (rule nth_equalityI) (use Cons.prems(3) [of o' es] in \<open>auto simp: e dest!: nth_mem\<close>)
  then have d: "distinct (map wt_key (mvals es))" using Cons.prems(2) [of o' es] by (simp add: e mwf_def)
  have o1: "wt_owner t = o'" if "t \<in> set (mvals es)" for t
    using that Cons.prems(3) [of o' es] by (auto simp: mvals_def e)
  have o2: "wt_owner t \<noteq> o'" if t: "t \<in> set (all_tasks os)" for t
  proof -
    from t obtain o'' es' k where m: "(o'', es') \<in> set os" "(k, t) \<in> set es'"
      by (auto simp: all_tasks_def mvals_def)
    then have "wt_owner t = o''" using Cons.prems(3) [of o'' es' k t] by simp
    moreover have "o'' \<noteq> o'" using Cons.prems(1) m(1) by (force simp: mwf_def e)
    ultimately show ?thesis by simp
  qed
  have "distinct (map (\<lambda>t. (wt_owner t, wt_key t)) (all_tasks os))"
  proof (rule Cons.IH)
    show "mwf os" using Cons.prems(1) by (simp add: mwf_def)
    show "mwf es" if "(o', es) \<in> set os" for o' es using Cons.prems(2) [of o' es] that by simp
    show "wt_owner t = o' \<and> wt_key t = k" if "(o', es) \<in> set os" "(k, t) \<in> set es" for o' es k t
      using Cons.prems(3) [of o' es k t] that by simp
  qed
  moreover have "distinct (map (\<lambda>t. (wt_owner t, wt_key t)) (mvals es))"
    using d by (auto simp: distinct_map inj_on_def)
  moreover have "all_tasks (e # os) = mvals es @ all_tasks os" by (simp add: all_tasks_def mvals_def e)
  ultimately show ?case using o1 o2 by auto
qed (simp add: all_tasks_def mvals_def)

lemma uids_distinct:
  assumes "tasks_ok os n"
  shows "distinct (map wt_uid (all_tasks os))"
proof -
  have w: "wf_owners os" by (rule tasks_okD(1) [OF assms])
  have g: "get_task o' k os = Some t" if "(o', es) \<in> set os" "(k, t) \<in> set es" for o' es k t
  proof -
    have o: "mget os o' = Some es" using that(1) w by (simp add: wf_owners_def mget_iff_mem)
    with w have "mwf es" by (simp add: wf_owners_def)
    with that(2) have "mget es k = Some t" by (simp add: mget_iff_mem)
    with o show ?thesis by (simp add: get_task_def)
  qed
  have "distinct (map (\<lambda>t. (wt_owner t, wt_key t)) (all_tasks os))"
  proof (rule pairs_distinct)
    show "mwf os" using w by (simp add: wf_owners_def)
    show "mwf es" if "(o', es) \<in> set os" for o' es
      using that w by (auto simp: wf_owners_def mget_iff_mem)
    show "wt_owner t = o' \<and> wt_key t = k" if "(o', es) \<in> set os" "(k, t) \<in> set es" for o' es k t
      using tasks_okD(2) [OF assms g [OF that]] by simp
  qed
  then have d: "distinct (all_tasks os)" by (simp add: distinct_map)
  have "inj_on wt_uid (set (all_tasks os))"
  proof (rule inj_onI)
    fix t u assume "t \<in> set (all_tasks os)" "u \<in> set (all_tasks os)" "wt_uid t = wt_uid u"
    then obtain a b a' b' where "get_task a b os = Some t" "get_task a' b' os = Some u"
      by (auto simp: all_tasks_get [OF w])
    with tasks_okD(3) [OF assms this \<open>wt_uid t = wt_uid u\<close>] show "t = u" by simp
  qed
  with d show ?thesis by (simp add: distinct_map)
qed

lemma exec_ran [simp]:
  "wk_ran (wk_exec budget now c s) = wk_ran s"
  "wk_ran (wk_exec_all budget cs s) = wk_ran s"
  by (induction budget now c s and budget cs s rule: wk_exec_wk_exec_all.induct)
    (simp_all add: wk_schedule_def wk_cancel_def wk_cancel_owner_def wk_dispose_def clear_wake_def arm_def
      measure_begin_def measure_end_def Let_def)

lemma run_task_ran [simp]: "wk_ran (run_task budget turn t s) = wk_ran s @ [wt_uid t]"
  by (simp add: run_task_def measure_begin_def measure_end_def wk_cancel_def Let_def)

lemma run_ready_ran:
  "\<exists>ran. wk_ran (run_ready budget turns ts s) = wk_ran s @ ran \<and> subseq ran (map wt_uid ts)"
proof (induction budget turns ts s rule: run_ready.induct)
  case (2 budget turns t ts s)
  consider "wk_disposed s \<or> remaining_ms budget (tn_start (turns (wt_uid t))) s \<le> 0"
    | "\<not> (wk_disposed s \<or> remaining_ms budget (tn_start (turns (wt_uid t))) s \<le> 0)"
      "map_option wt_uid (get_task (wt_owner t) (wt_key t) (wk_owners s)) \<noteq> Some (wt_uid t)"
    | "\<not> (wk_disposed s \<or> remaining_ms budget (tn_start (turns (wt_uid t))) s \<le> 0)"
      "\<not> map_option wt_uid (get_task (wt_owner t) (wt_key t) (wk_owners s)) \<noteq> Some (wt_uid t)"
    by blast
  then show ?case
  proof cases
    case 1
    then show ?thesis by simp
  next
    case 2
    from "2.IH"(1) [OF this] obtain ran where
      "wk_ran (run_ready budget turns ts s) = wk_ran s @ ran" "subseq ran (map wt_uid ts)" by blast
    with 2 show ?thesis by (auto simp del: not_Some_eq intro: subseq_Cons')
  next
    case 3
    from "2.IH"(2) [OF this] obtain ran where
      "wk_ran (run_ready budget turns ts (run_task budget (turns (wt_uid t)) t s)) = wk_ran s @ [wt_uid t] @ ran"
      "subseq ran (map wt_uid ts)" by auto
    with 3 show ?thesis by (intro exI [of _ "wt_uid t # ran"]) simp
  qed
qed simp

lemma ready_head_runs:
  assumes "tasks_inv s" "\<not> wk_disposed s" "wk_running s = 0" "0 < budget" "ready_tasks prio now (wk_owners s) = t # ts"
  shows "\<exists>ran. wk_ran (wk_pump budget now prio turns s) = wk_ran s @ wt_uid t # ran \<and> subseq ran (map wt_uid ts)"
proof -
  let ?s = "(clear_wake s)\<lparr>wk_spent := 0\<rparr>"
  have "t \<in> set (ready_tasks prio now (wk_owners s))" by (simp add: assms(5))
  then have "t \<in> set (all_tasks (wk_owners s))" by (simp add: ready_tasks_def)
  then obtain o' k where "get_task o' k (wk_owners s) = Some t"
    using all_tasks_get [OF tasks_okD(1)] assms(1) unfolding tasks_inv_def by blast
  then have "get_task (wt_owner t) (wt_key t) (wk_owners s) = Some t"
    using tasks_okD(2) [of "wk_owners s" "wk_nextUid s" o' k t] assms(1) by (simp add: tasks_inv_def)
  then have r: "run_ready budget turns (t # ts) ?s = run_ready budget turns ts (run_task budget (turns (wt_uid t)) t ?s)"
    using assms(2,3,4) by (simp add: remaining_ms_def clear_wake_def)
  obtain ran where "wk_ran (run_ready budget turns ts (run_task budget (turns (wt_uid t)) t ?s))
      = wk_ran (run_task budget (turns (wt_uid t)) t ?s) @ ran" "subseq ran (map wt_uid ts)"
    using run_ready_ran by blast
  moreover from this have "wk_ran (run_ready budget turns (t # ts) ?s) = wk_ran s @ wt_uid t # ran"
    unfolding r run_task_ran by (simp add: clear_wake_def)
  moreover have "wk_ran (wk_pump budget now prio turns s) = wk_ran (run_ready budget turns (t # ts) ?s)"
    using assms(2,5) by (simp add: wk_pump_def clear_wake_def arm_def Let_def del: run_ready.simps)
  ultimately show ?thesis by metis
qed

lemma balanced_exec [simp]:
  "wk_running (wk_exec budget now c s) = wk_running s"
  "wk_running (wk_exec_all budget cs s) = wk_running s"
  by (induction budget now c s and budget cs s rule: wk_exec_wk_exec_all.induct)
    (simp_all add: wk_schedule_def wk_cancel_def wk_cancel_owner_def wk_dispose_def clear_wake_def arm_def
      measure_begin_def measure_end_def Let_def)

lemma balanced_ready [simp]: "wk_running (run_ready budget turns ts s) = wk_running s"
  by (induction budget turns ts s rule: run_ready.induct)
    (simp_all add: run_task_def wk_cancel_def measure_begin_def measure_end_def Let_def)

lemma balanced_step: "wk_running s = 0 \<Longrightarrow> wk_running (wk_step budget s e) = 0"
  by (cases e) (simp_all add: wk_pump_def clear_wake_def arm_def Let_def)

interpretation wkb: invariant_machine "wk_step budget" "\<lambda>s. wk_running s = 0"
  by standard (rule balanced_step)

text \<open>
  A pump runs tasks that were due when it began, each at most once, in the order of their
  priorities (raised by a point for every tenth of a second they waited) and then of their
  sequence; the first of them always gets its turn, and work scheduled during the pump waits.
\<close>

theorem pump_runs_ready_in_order:
  assumes "s = foldl (wk_step budget) work_start es" "\<not> wk_disposed s" "0 < budget"
  shows "sorted (map (task_rank prio now) (ready_tasks prio now (wk_owners s)))
     \<and> (\<exists>ran. wk_ran (wk_pump budget now prio turns s) = wk_ran s @ ran \<and> distinct ran
         \<and> subseq ran (map wt_uid (ready_tasks prio now (wk_owners s)))
         \<and> (ready_tasks prio now (wk_owners s) \<noteq> [] \<longrightarrow>
              ran \<noteq> [] \<and> hd ran = wt_uid (hd (ready_tasks prio now (wk_owners s)))))"
proof -
  have inv: "tasks_inv s" using wkt.inv_run [of work_start budget es]
    by (simp add: assms(1) tasks_inv_def work_start_def tasks_ok_def wf_owners_def get_task_def)
  have run: "wk_running s = 0" using wkb.inv_run [of work_start budget es] by (simp add: assms(1) work_start_def)
  let ?ready = "ready_tasks prio now (wk_owners s)"
  have d: "distinct (map wt_uid ?ready)"
    using uids_distinct [of "wk_owners s" "wk_nextUid s"] inv
    by (auto simp: tasks_inv_def distinct_map ready_tasks_def intro: inj_on_subset)
  have "\<exists>ran. wk_ran (wk_pump budget now prio turns s) = wk_ran s @ ran \<and> subseq ran (map wt_uid ?ready)
      \<and> (?ready \<noteq> [] \<longrightarrow> ran \<noteq> [] \<and> hd ran = wt_uid (hd ?ready))"
  proof (cases ?ready)
    case Nil
    then show ?thesis using assms(2) by (simp add: wk_pump_def clear_wake_def arm_def Let_def)
  next
    case (Cons t ts)
    then show ?thesis using ready_head_runs [OF inv assms(2) run assms(3) Cons, of turns] by auto
  qed
  with d subseq_distinct show ?thesis by (auto simp: ready_tasks_def)
qed

definition quick_turn :: "nat \<Rightarrow> wk_turn" where
  "quick_turn u = \<lparr>tn_start = 0, tn_calls = [], tn_stop = 1\<rparr>"

lemma pump_runs_ready_in_order_witness:
  "\<exists>ran. wk_ran (wk_pump 8 5 (\<lambda>u. if u = 1 then 3 else 0) quick_turn
       (foldl (wk_step 8) work_start [WkCall 0 (CSchedule 1 ''a'' 0), WkCall 0 (CSchedule 2 ''b'' 0)])) = ran
     \<and> ran \<noteq> [] \<and> hd ran = 1 \<and> distinct ran"
proof -
  let ?s = "foldl (wk_step 8) work_start [WkCall 0 (CSchedule 1 ''a'' 0), WkCall 0 (CSchedule 2 ''b'' 0)]"
  let ?p = "\<lambda>u. if u = 1 then 3 else 0 :: rat"
  have d: "\<not> wk_disposed ?s" and r: "wk_ran ?s = []" by code_simp+
  have h: "ready_tasks ?p 5 (wk_owners ?s) \<noteq> []" "wt_uid (hd (ready_tasks ?p 5 (wk_owners ?s))) = 1" by code_simp+
  show ?thesis using pump_runs_ready_in_order [OF refl d, of ?p 5 quick_turn] h r by auto
qed

end
