(* ===== verification/Clipboard_Osc52.thy ===== *)
theory Clipboard_Osc52
  imports Js "HOL-Library.Sublist"
begin

section \<open>Clipboard writes in the output\<close>

text \<open>
  Model of \<open>src/runtime/static/terminal/interaction/clipboard_osc52_model.js\<close>: the scanner that finds
  \<open>OSC 52\<close> sequences in the output chunk by chunk, keeps an incomplete one for the next chunk, and
  decodes the base64 payload. Characters are code units below 256, as \<open>chunkText\<close> decodes bytes; a
  decoded text is its list of code points.
\<close>

subsection \<open>Base64 and UTF-8\<close>

definition b64_value :: "char \<Rightarrow> nat option" where
  "b64_value c = (let n = of_char c :: nat in
     if 65 \<le> n \<and> n \<le> 90 then Some (n - 65)
     else if 97 \<le> n \<and> n \<le> 122 then Some (n - 71)
     else if 48 \<le> n \<and> n \<le> 57 then Some (n + 4)
     else if n = 43 then Some 62 else if n = 47 then Some 63 else None)"

fun b64_bytes :: "nat list \<Rightarrow> nat list" where
  "b64_bytes (a # b # c # d # r) = (a * 4 + b div 16) # (b mod 16 * 16 + c div 4) # (c mod 4 * 64 + d) # b64_bytes r"
| "b64_bytes [a, b, c] = [a * 4 + b div 16, b mod 16 * 16 + c div 4]"
| "b64_bytes [a, b] = [a * 4 + b div 16]"
| "b64_bytes _ = []"

text \<open>The test \<open>/^[A-Za-z0-9+/]*={0,2}$/\<close> on the padded text, and \<open>atob\<close> of what passes it.\<close>

definition b64_padded :: "string \<Rightarrow> string" where
  "b64_padded s = s @ replicate ((4 - length s mod 4) mod 4) (CHR ''='')"

definition b64_valid :: "string \<Rightarrow> bool" where
  "b64_valid s = (let r = dropWhile (\<lambda>c. b64_value c \<noteq> None) s in r \<in> {[], ''='', ''==''})"

definition atob :: "string \<Rightarrow> nat list" where
  "atob s = b64_bytes (map (\<lambda>c. the (b64_value c)) (takeWhile (\<lambda>c. b64_value c \<noteq> None) s))"

text \<open>\<open>TextDecoder("utf-8", { fatal: false })\<close>: the state is the number of bytes still needed, the bounds
  of the next one and the code point so far.\<close>

definition utf8_start :: "nat \<Rightarrow> nat list \<times> nat \<times> nat \<times> nat \<times> nat" where
  "utf8_start b =
     (if b < 0x80 then ([b], 0, 0, 0, 0)
      else if 0xc2 \<le> b \<and> b \<le> 0xdf then ([], 1, 0x80, 0xbf, b - 0xc0)
      else if 0xe0 \<le> b \<and> b \<le> 0xef
        then ([], 2, if b = 0xe0 then 0xa0 else 0x80, if b = 0xed then 0x9f else 0xbf, b - 0xe0)
      else if 0xf0 \<le> b \<and> b \<le> 0xf4
        then ([], 3, if b = 0xf0 then 0x90 else 0x80, if b = 0xf4 then 0x8f else 0xbf, b - 0xf0)
      else ([0xfffd], 0, 0, 0, 0))"

fun utf8_go :: "nat \<times> nat \<times> nat \<times> nat \<Rightarrow> nat list \<Rightarrow> nat list" where
  "utf8_go (need, lo, hi, cp) [] = (if need = 0 then [] else [0xfffd])"
| "utf8_go (need, lo, hi, cp) (b # bs) =
     (if need = 0 then (case utf8_start b of (out, st) \<Rightarrow> out @ utf8_go st bs)
      else if b < lo \<or> hi < b then (case utf8_start b of (out, st) \<Rightarrow> 0xfffd # out @ utf8_go st bs)
      else if need = 1 then (cp * 64 + (b - 0x80)) # utf8_go (0, 0, 0, 0) bs
      else utf8_go (need - 1, 0x80, 0xbf, cp * 64 + (b - 0x80)) bs)"

definition utf8_decode :: "nat list \<Rightarrow> nat list" where
  "utf8_decode bs = (let cps = utf8_go (0, 0, 0, 0) bs in
     case cps of c # r \<Rightarrow> if c = 0xfeff then r else cps | [] \<Rightarrow> [])"

definition decode_base64_utf8 :: "string \<Rightarrow> nat \<Rightarrow> nat list" where
  "decode_base64_utf8 payload maxDecoded =
     (let cleaned = filter (\<lambda>c. \<not> js_space c) payload; padded = b64_padded cleaned in
      if cleaned = [] \<or> cleaned = ''?'' then []
      else if \<not> b64_valid padded then []
      else let binary = atob padded in
        if binary = [] \<or> maxDecoded < length binary then [] else utf8_decode binary)"

subsection \<open>The scanner\<close>

definition osc52_start :: string where
  "osc52_start = CHR 0x1B # '']52;''"

text \<open>\<open>indexOf\<close>.\<close>

fun index_of :: "string \<Rightarrow> string \<Rightarrow> nat option" where
  "index_of pat [] = (if pat = [] then Some 0 else None)"
| "index_of pat (c # s) = (if prefix pat (c # s) then Some 0 else map_option Suc (index_of pat s))"

fun retain_from :: "string \<Rightarrow> nat \<Rightarrow> string" where
  "retain_from buffer 0 = []"
| "retain_from buffer (Suc n) = (if prefix (drop (length buffer - Suc n) buffer) osc52_start
     then drop (length buffer - Suc n) buffer else retain_from buffer n)"

definition retain_incomplete_prefix :: "string \<Rightarrow> string" where
  "retain_incomplete_prefix buffer = retain_from buffer (min (length osc52_start) (length buffer))"

definition decode_osc52_body :: "string \<Rightarrow> nat \<Rightarrow> nat list" where
  "decode_osc52_body body maxDecoded = (case index_of '';'' body of None \<Rightarrow> []
     | Some i \<Rightarrow> decode_base64_utf8 (drop (i + 1) body) maxDecoded)"

text \<open>The end of the body in what follows the start: its length and that of the terminator.\<close>

definition osc52_end :: "string \<Rightarrow> (nat \<times> nat) option" where
  "osc52_end rest = (case (index_of [CHR 0x07] rest, index_of [CHR 0x1B, CHR 0x5C] rest) of
     (Some bel, None) \<Rightarrow> Some (bel, 1)
   | (Some bel, Some st) \<Rightarrow> if bel \<le> st then Some (bel, 1) else Some (st, 2)
   | (None, Some st) \<Rightarrow> Some (st, 2)
   | (None, None) \<Rightarrow> None)"

lemma index_of_bound: "index_of pat s = Some i \<Longrightarrow> i + length pat \<le> length s \<and> prefix pat (drop i s)"
proof (induction s arbitrary: i)
  case (Cons c s)
  then show ?case by (auto split: if_splits dest: prefix_length_le)
qed (auto split: if_splits)

lemma osc52_end_bound: "osc52_end rest = Some (e, t) \<Longrightarrow> e + t \<le> length rest \<and> 0 < t"
  by (auto simp: osc52_end_def dest: index_of_bound split: option.splits if_splits)

lemma osc52_start_length [simp]: "length osc52_start = 5"
  by (simp add: osc52_start_def)

function osc52_scan :: "nat \<Rightarrow> nat \<Rightarrow> string \<Rightarrow> string \<times> nat list list" where
  "osc52_scan maxPending maxDecoded buffer =
     (if buffer = [] then ([], [])
      else case index_of osc52_start buffer of None \<Rightarrow> (retain_incomplete_prefix buffer, [])
      | Some start \<Rightarrow>
        let rest = drop (start + 5) buffer in
        (case osc52_end rest of
           None \<Rightarrow> (if maxPending < length (drop start buffer) then [] else drop start buffer, [])
         | Some (e, t) \<Rightarrow>
             (case osc52_scan maxPending maxDecoded (drop (e + t) rest) of (p, ws) \<Rightarrow>
                (p, (let text = decode_osc52_body (take e rest) maxDecoded in if text = [] then ws else text # ws)))))"
  by pat_completeness auto
termination
  by (relation "measure (\<lambda>(a, b, s). length s)") (auto dest: index_of_bound)

declare osc52_scan.simps [simp del]

definition consume_osc52 :: "nat \<Rightarrow> nat \<Rightarrow> string \<Rightarrow> string \<Rightarrow> string \<times> nat list list" where
  "consume_osc52 maxPending maxDecoded pending chunk =
     (let buffer = pending @ chunk;
          buffer' = (if maxPending < length buffer then drop (length buffer - maxPending) buffer else buffer)
      in osc52_scan maxPending maxDecoded buffer')"

subsection \<open>Occurrences\<close>

lemma index_of_None: "index_of pat s = None \<Longrightarrow> \<not> prefix pat (drop j s)"
proof (induction s arbitrary: j)
  case (Cons c s)
  then show ?case by (cases j) (auto split: if_splits)
qed (auto split: if_splits)

lemma index_of_first: "\<lbrakk>index_of pat s = Some i; j < i\<rbrakk> \<Longrightarrow> \<not> prefix pat (drop j s)"
proof (induction s arbitrary: i j)
  case (Cons c s)
  then show ?case by (cases j) (auto split: if_splits)
qed (auto split: if_splits)

lemma prefix_shorten: "\<lbrakk>prefix pat (s @ y); length pat \<le> length s\<rbrakk> \<Longrightarrow> prefix pat s"
  by (metis prefix_append prefix_length_le append_eq_append_conv2 prefix_def prefix_length_prefix)

lemma index_of_append: "index_of pat s = Some i \<Longrightarrow> index_of pat (s @ y) = Some i"
proof (induction s arbitrary: i)
  case (Cons c s)
  show ?case
  proof (cases "prefix pat (c # s)")
    case True
    then have "prefix pat ((c # s) @ y)" by (rule prefix_prefix)
    then show ?thesis using Cons.prems True by simp
  next
    case False
    then obtain k where k: "index_of pat s = Some k" "i = Suc k" using Cons.prems by auto
    have "length pat \<le> length (c # s)" using index_of_bound [OF k(1)] by simp
    then have "\<not> prefix pat ((c # s) @ y)" using False prefix_shorten by blast
    then show ?thesis using k Cons.IH [OF k(1)] by simp
  qed
qed (cases pat; cases y; simp)

lemma index_of_skip:
  "(\<And>j. j < length u \<Longrightarrow> \<not> prefix pat (drop j (u @ w))) \<Longrightarrow>
     index_of pat (u @ w) = map_option ((+) (length u)) (index_of pat w)"
proof (induction u)
  case (Cons c u)
  have "\<not> prefix pat (c # u @ w)" using Cons.prems [of 0] by simp
  moreover have "index_of pat (u @ w) = map_option ((+) (length u)) (index_of pat w)"
    by (rule Cons.IH) (use Cons.prems [of "Suc j" for j] in simp)
  ultimately show ?case by (simp add: option.map_comp comp_def)
qed (cases "index_of pat w"; simp)

lemma retain_from_spec:
  assumes "n \<le> length b"
  shows "\<exists>u. b = u @ retain_from b n \<and> length (retain_from b n) \<le> n \<and> prefix (retain_from b n) osc52_start
     \<and> (\<forall>j < length u. length b - j \<le> n \<longrightarrow> \<not> prefix (drop j b) osc52_start)"
  using assms
proof (induction n)
  case 0
  then show ?case by (intro exI [of _ b]) auto
next
  case (Suc n)
  show ?case
  proof (cases "prefix (drop (length b - Suc n) b) osc52_start")
    case True
    then show ?thesis using Suc.prems by (intro exI [of _ "take (length b - Suc n) b"]) auto
  next
    case False
    obtain u where u: "b = u @ retain_from b n" "length (retain_from b n) \<le> n" "prefix (retain_from b n) osc52_start"
      "\<forall>j < length u. length b - j \<le> n \<longrightarrow> \<not> prefix (drop j b) osc52_start"
      using Suc by auto
    have "\<not> prefix (drop j b) osc52_start" if "j < length u" "length b - j \<le> Suc n" for j
    proof (cases "length b - j \<le> n")
      case True
      then show ?thesis using u(4) that by blast
    next
      case F: False
      then have "j = length b - Suc n" using that Suc.prems by simp
      then show ?thesis using False by simp
    qed
    then show ?thesis using u False by (intro exI [of _ u]) auto
  qed
qed

lemma retain_spec:
  "\<exists>u. b = u @ retain_incomplete_prefix b \<and> (\<forall>j < length u. \<not> prefix (drop j b) osc52_start)"
proof -
  let ?n = "min (length osc52_start) (length b)"
  obtain u where u: "b = u @ retain_from b ?n" "\<forall>j < length u. length b - j \<le> ?n \<longrightarrow> \<not> prefix (drop j b) osc52_start"
    using retain_from_spec [of ?n b] by auto
  have "\<not> prefix (drop j b) osc52_start" if "j < length u" for j
  proof (cases "length b - j \<le> ?n")
    case False
    then have "length osc52_start < length (drop j b)" by simp
    then show ?thesis using prefix_length_le by (metis leD)
  qed (use u that in blast)
  then show ?thesis using u(1) unfolding retain_incomplete_prefix_def by blast
qed

lemma retain_unique:
  assumes "b = u @ r" "\<forall>j < length u. \<not> prefix (drop j b) osc52_start" "r = [] \<or> prefix r osc52_start"
  shows "retain_incomplete_prefix b = r"
proof -
  obtain u' where u': "b = u' @ retain_incomplete_prefix b" "\<forall>j < length u'. \<not> prefix (drop j b) osc52_start"
    using retain_spec by blast
  have "prefix (retain_incomplete_prefix b) osc52_start"
    unfolding retain_incomplete_prefix_def
    using retain_from_spec [of "min (length osc52_start) (length b)" b] by auto
  then have "\<not> length u' < length u" using assms(2) u'(1) by (metis append_eq_conv_conj)
  moreover have "\<not> length u < length u'"
  proof
    assume l: "length u < length u'"
    have "prefix r osc52_start" using assms(3) by auto
    then have "prefix (drop (length u) b) osc52_start" by (simp add: assms(1))
    then show False using u'(2) l by blast
  qed
  ultimately show ?thesis using assms(1) u'(1) by (metis append_eq_append_conv linorder_neqE_nat)
qed

subsection \<open>Scanning in pieces\<close>

text \<open>A part of the buffer from which no sequence can begin is dead: scanning skips it.\<close>

definition dead :: "string \<Rightarrow> string \<Rightarrow> bool" where
  "dead u w = (\<forall>j < length u. \<not> prefix osc52_start (drop j (u @ w)) \<and> \<not> prefix (drop j (u @ w)) osc52_start)"

lemma scan_dead: "dead u w \<Longrightarrow> osc52_scan m d (u @ w) = osc52_scan m d w"
proof -
  assume dd: "dead u w"
  then have ix: "index_of osc52_start (u @ w) = map_option ((+) (length u)) (index_of osc52_start w)"
    by (intro index_of_skip) (simp add: dead_def)
  have rt: "retain_incomplete_prefix (u @ w) = retain_incomplete_prefix w"
  proof -
    obtain v where v: "w = v @ retain_incomplete_prefix w" "\<forall>j < length v. \<not> prefix (drop j w) osc52_start"
      using retain_spec by blast
    have "\<not> prefix (drop j (u @ w)) osc52_start" if "j < length (u @ v)" for j
    proof (cases "j < length u")
      case False
      then have "drop j (u @ w) = drop (j - length u) w" by simp
      then show ?thesis using v(2) that False by simp
    qed (use dd in \<open>simp add: dead_def\<close>)
    moreover have "prefix (retain_incomplete_prefix w) osc52_start"
      unfolding retain_incomplete_prefix_def
      using retain_from_spec [of "min (length osc52_start) (length w)" w] by auto
    ultimately show ?thesis using v(1) by (intro retain_unique [of _ "u @ v"]) (simp_all add: v(1) [symmetric])
  qed
  show ?thesis
  proof (cases "w = []")
    case True
    have "retain_incomplete_prefix u = []"
      by (rule retain_unique [of _ u]) (use dd in \<open>simp_all add: dead_def True\<close>)
    moreover have "index_of osc52_start u = None" using ix by (simp add: True osc52_start_def)
    ultimately show ?thesis by (simp add: osc52_scan.simps [of m d u] osc52_scan.simps [of m d "[]"] True)
  next
    case False
    then show ?thesis
      by (cases "index_of osc52_start w")
        (simp_all add: osc52_scan.simps [of m d "u @ w"] osc52_scan.simps [of m d w] ix rt Let_def split: option.split)
  qed
qed

lemma dead_before_start:
  assumes "index_of osc52_start x = Some i"
  shows "dead (take i x) (drop i x @ y)"
proof -
  have b: "i + 5 \<le> length x" using index_of_bound [OF assms] by simp
  have f: "index_of osc52_start (x @ y) = Some i" by (rule index_of_append [OF assms])
  have e: "take i x @ drop i x @ y = x @ y" by simp
  have "\<not> prefix (drop j (x @ y)) osc52_start" if "j < i" for j
  proof -
    have "length osc52_start < length (drop j (x @ y))" using that b by simp
    then show ?thesis using prefix_length_le by (metis leD)
  qed
  then show ?thesis using index_of_first [OF f] unfolding dead_def e by (auto simp del: drop_append)
qed

lemma dead_before_rest:
  assumes "index_of osc52_start x = None" "x = u @ r" "\<forall>j < length u. \<not> prefix (drop j x) osc52_start"
  shows "dead u (r @ y)"
proof -
  have e: "u @ r @ y = x @ y" by (simp add: assms(2))
  have "\<not> prefix osc52_start (drop j (x @ y)) \<and> \<not> prefix (drop j (x @ y)) osc52_start" if "j < length u" for j
  proof
    have j: "j \<le> length x" using that assms(2) by simp
    have np: "\<not> prefix (drop j x) osc52_start" using assms(3) that by blast
    show "\<not> prefix (drop j (x @ y)) osc52_start"
      using np j by (auto dest: append_prefixD)
    show "\<not> prefix osc52_start (drop j (x @ y))"
    proof
      assume p: "prefix osc52_start (drop j (x @ y))"
      then have p': "prefix osc52_start (drop j x @ y)" using j by simp
      show False
      proof (cases "length osc52_start \<le> length (drop j x)")
        case True
        with p' have "prefix osc52_start (drop j x)" by (rule prefix_shorten)
        then show False using index_of_None [OF assms(1)] by blast
      next
        case False
        with p' np show False by (metis linear prefix_length_prefix prefixI)
      qed
    qed
  qed
  then show ?thesis unfolding dead_def e by blast
qed

lemma index_of_late:
  assumes "index_of pat s = None" "index_of pat (s @ y) = Some i" "pat \<noteq> []"
  shows "length s < i + length pat"
proof (rule ccontr)
  assume n: "\<not> length s < i + length pat"
  have "prefix pat (drop i s @ y)" using index_of_bound [OF assms(2)] n by simp
  then have "prefix pat (drop i s)" using n by (intro prefix_shorten [of pat "drop i s" y]) auto
  then show False using index_of_None [OF assms(1)] by blast
qed

lemma osc52_end_append:
  assumes "osc52_end s = Some (e, t)"
  shows "osc52_end (s @ y) = Some (e, t)"
proof -
  let ?bel = "[CHR 0x07]" and ?st = "[CHR 0x1B, CHR 0x5C]"
  consider b where "index_of ?bel s = Some b" "index_of ?st s = None"
    | b k where "index_of ?bel s = Some b" "index_of ?st s = Some k"
    | k where "index_of ?bel s = None" "index_of ?st s = Some k"
    using assms by (auto simp: osc52_end_def split: option.splits)
  then show ?thesis
  proof cases
    case 1
    have "b < length s" using index_of_bound [OF 1(1)] by simp
    then have "b \<le> k" if "index_of ?st (s @ y) = Some k" for k
      using index_of_late [OF 1(2) that] by simp
    then show ?thesis
      using assms 1 index_of_append [OF 1(1), of y] by (auto simp: osc52_end_def split: option.split)
  next
    case 2
    then show ?thesis
      using assms index_of_append [OF 2(1), of y] index_of_append [OF 2(2), of y] by (simp add: osc52_end_def)
  next
    case 3
    have "k < length s" using index_of_bound [OF 3(2)] by simp
    then have "k < b" if "index_of ?bel (s @ y) = Some b" for b
      using index_of_late [OF 3(1) that] by simp
    then show ?thesis
      using assms 3 index_of_append [OF 3(2), of y] by (force simp: osc52_end_def split: option.split)
  qed
qed

lemma scan_pieces:
  assumes "length (x @ y) \<le> m"
  shows "osc52_scan m d (x @ y) = (fst (osc52_scan m d (fst (osc52_scan m d x) @ y)),
      snd (osc52_scan m d x) @ snd (osc52_scan m d (fst (osc52_scan m d x) @ y)))"
  using assms
proof (induction m d x rule: osc52_scan.induct)
  case (1 m d x)
  show ?case
  proof (cases "x = []")
    case True
    then show ?thesis by (simp add: osc52_scan.simps [of m d "[]"])
  next
    case False
    show ?thesis
    proof (cases "index_of osc52_start x")
      case None
      obtain u where u: "x = u @ retain_incomplete_prefix x" "\<forall>j < length u. \<not> prefix (drop j x) osc52_start"
        using retain_spec by blast
      have "osc52_scan m d (x @ y) = osc52_scan m d (u @ retain_incomplete_prefix x @ y)"
        using u(1) by (metis append_assoc)
      also have "\<dots> = osc52_scan m d (retain_incomplete_prefix x @ y)"
        by (rule scan_dead [OF dead_before_rest [OF None u]])
      finally show ?thesis using None False by (simp add: osc52_scan.simps [of m d x])
    next
      case (Some i)
      let ?rest = "drop (i + 5) x"
      have ib: "i + 5 \<le> length x" using index_of_bound [OF Some] by simp
      show ?thesis
      proof (cases "osc52_end ?rest")
        case None
        have "osc52_scan m d (take i x @ drop i x @ y) = osc52_scan m d (drop i x @ y)"
          by (rule scan_dead [OF dead_before_start [OF Some]])
        then have "osc52_scan m d (x @ y) = osc52_scan m d (drop i x @ y)"
          by (metis append_assoc append_take_drop_id)
        moreover have "osc52_scan m d x = (drop i x, [])"
          using "1.prems" False Some None by (simp add: osc52_scan.simps [of m d x] Let_def)
        ultimately show ?thesis by simp
      next
        case (Some et)
        obtain e t where et: "osc52_end ?rest = Some (e, t)" using Some by (cases et) auto
        have eb: "e + t \<le> length ?rest" using osc52_end_bound [OF et] by simp
        have ix: "index_of osc52_start (x @ y) = Some i" by (rule index_of_append) fact
        have et': "osc52_end (?rest @ y) = Some (e, t)" by (rule osc52_end_append [OF et])
        have ih: "osc52_scan m d (drop (e + t) ?rest @ y)
          = (fst (osc52_scan m d (fst (osc52_scan m d (drop (e + t) ?rest)) @ y)),
             snd (osc52_scan m d (drop (e + t) ?rest)) @ snd (osc52_scan m d (fst (osc52_scan m d (drop (e + t) ?rest)) @ y)))"
          by (rule "1.IH" [OF False \<open>index_of osc52_start x = Some i\<close> refl et refl]) (use "1.prems" in simp)
        show ?thesis
          using False ib eb \<open>index_of osc52_start x = Some i\<close> et et' ix ih
          by (simp add: osc52_scan.simps [of m d x] osc52_scan.simps [of m d "x @ y"] Let_def split: prod.split)
      qed
    qed
  qed
qed

lemma scan_length: "length (fst (osc52_scan m d x)) \<le> length x"
proof (induction m d x rule: osc52_scan.induct)
  case (1 m d x)
  have r: "length (retain_incomplete_prefix x) \<le> length x" using retain_spec [of x] by (metis length_append le_add2)
  show ?case
    using r 1 by (subst osc52_scan.simps) (force simp: Let_def split: option.split prod.split)
qed

text \<open>
  It does not matter how the output is cut into chunks: as long as nothing is dropped for its
  length, scanning one chunk and then the next gives the clipboard writes, in order, and the pending
  text of scanning both at once.
\<close>

theorem osc52_chunks_join:
  assumes "length pending + length a + length b \<le> maxPending"
    and "consume_osc52 maxPending maxDecoded pending a = (p, ws)"
    and "consume_osc52 maxPending maxDecoded p b = (q, vs)"
  shows "consume_osc52 maxPending maxDecoded pending (a @ b) = (q, ws @ vs)"
proof -
  have s1: "osc52_scan maxPending maxDecoded (pending @ a) = (p, ws)"
    using assms(1,2) by (simp add: consume_osc52_def)
  have lp: "length p \<le> length (pending @ a)"
    using scan_length [of maxPending maxDecoded "pending @ a"] by (simp add: s1)
  then have s2: "osc52_scan maxPending maxDecoded (p @ b) = (q, vs)"
    using assms(1,3) by (simp add: consume_osc52_def)
  show ?thesis
    using scan_pieces [of "pending @ a" b maxPending maxDecoded] assms(1) by (simp add: consume_osc52_def s1 s2)
qed

definition demo_osc52 :: "string \<times> string" where
  "demo_osc52 = (''ls'' @ [CHR 0x1B] @ '']52;c;aG'', ''k='' @ [CHR 0x07] @ ''$ '' @ [CHR 0x1B])"

lemma osc52_chunks_join_witness:
  "consume_osc52 100 50 [] (fst demo_osc52 @ snd demo_osc52) = ([CHR 0x1B], [] @ [[104, 105]])"
proof -
  let ?p = "CHR 0x1B # '']52;c;aG''"
  have a: "consume_osc52 100 50 [] (fst demo_osc52) = (?p, [])"
    by (simp add: demo_osc52_def consume_osc52_def osc52_scan.simps osc52_start_def osc52_end_def)
  have d: "decode_osc52_body ''c;aGk='' 50 = [104, 105]"
    by (simp add: decode_osc52_body_def decode_base64_utf8_def b64_padded_def b64_valid_def b64_value_def
        atob_def utf8_decode_def utf8_start_def js_space_def Let_def)
  have b: "consume_osc52 100 50 ?p (snd demo_osc52) = ([CHR 0x1B], [[104, 105]])"
    by (simp add: demo_osc52_def consume_osc52_def osc52_scan.simps osc52_start_def osc52_end_def d
        retain_incomplete_prefix_def Let_def)
  have l: "length ([] :: string) + length (fst demo_osc52) + length (snd demo_osc52) \<le> 100"
    by (simp add: demo_osc52_def)
  show ?thesis by (rule osc52_chunks_join [OF l a b])
qed

text \<open>The base64 decoder inverts the encoding of bytes.\<close>

fun b64_digits :: "nat list \<Rightarrow> nat list" where
  "b64_digits (x # y # z # r) = (x div 4) # (x mod 4 * 16 + y div 16) # (y mod 16 * 4 + z div 64) # (z mod 64) # b64_digits r"
| "b64_digits [x, y] = [x div 4, x mod 4 * 16 + y div 16, y mod 16 * 4]"
| "b64_digits [x] = [x div 4, x mod 4 * 16]"
| "b64_digits [] = []"

lemma b64_group:
  fixes y z :: nat
  assumes "y < 256" "z < 256"
  shows "y div 16 div 16 = 0" "y div 16 mod 16 * 16 + (y mod 16 + z div 64 div 4) = y"
    "z div 64 mod 4 * 64 + z mod 64 = z"
proof -
  have "y div 16 < 16" "z div 64 < 4" using assms by (simp_all add: less_mult_imp_div_less)
  then show "y div 16 div 16 = 0" "y div 16 mod 16 * 16 + (y mod 16 + z div 64 div 4) = y"
    "z div 64 mod 4 * 64 + z mod 64 = z" by simp_all
qed

lemma b64_roundtrip: "list_all (\<lambda>b. b < 256) bs \<Longrightarrow> b64_bytes (b64_digits bs) = bs"
proof (induction bs rule: b64_digits.induct)
  case (1 x y z r)
  then show ?case using b64_group [of y z] by simp
next
  case (2 x y)
  then show ?case using b64_group [of y 0] by simp
next
  case (3 x)
  then show ?case by simp
qed simp

end
