(* ===== verification/Mouse.thy ===== *)
theory Mouse
  imports Js "HOL-Library.Word"
begin

unbundle bit_operations_syntax

section \<open>Mouse reports\<close>

text \<open>
  Model of \<open>src/runtime/static/terminal/mouse/mouse_model.js\<close>: which mouse modes of the terminal are on,
  which button an event means, and the report sent to the program in the SGR or the legacy
  encoding. The terminal is the set of its modes (\<open>getMode\<close> answers true for them) and its own
  tracking flag.
\<close>

subsection \<open>Modes, buttons and modifiers\<close>

record tracking =
  mt_x10 :: bool
  mt_normal :: bool
  mt_drag :: bool
  mt_any :: bool
  mt_sgr :: bool

definition mode_enabled :: "(nat \<Rightarrow> bool option) \<Rightarrow> nat \<Rightarrow> bool" where
  "mode_enabled get_mode m = (get_mode m = Some True)"

definition tracking_state :: "(nat \<Rightarrow> bool option) \<Rightarrow> bool \<Rightarrow> bool \<Rightarrow> bool \<Rightarrow> tracking option" where
  "tracking_state get_mode has_tracking present gone = (if \<not> present \<or> gone then None else
     let x10 = mode_enabled get_mode 9; normal = mode_enabled get_mode 1000;
         drag = mode_enabled get_mode 1002; any = mode_enabled get_mode 1003
     in if \<not> (x10 \<or> normal \<or> drag \<or> any \<or> has_tracking) then None
        else Some \<lparr>mt_x10 = x10, mt_normal = normal, mt_drag = drag, mt_any = any, mt_sgr = mode_enabled get_mode 1006\<rparr>)"

definition button_from_event :: "int option \<Rightarrow> int" where
  "button_from_event b = (case b of Some n \<Rightarrow> if n \<in> {0, 1, 2} then n else -1 | None \<Rightarrow> -1)"

definition button_mask :: "int \<Rightarrow> nat" where
  "button_mask b = (if b = 0 then 1 else if b = 1 then 4 else if b = 2 then 2 else 0)"

definition button_from_buttons :: "nat \<Rightarrow> int \<Rightarrow> int" where
  "button_from_buttons held preferred =
     (if 0 \<le> preferred \<and> held AND button_mask preferred \<noteq> 0 then preferred
      else if held AND 1 \<noteq> 0 then 0 else if held AND 4 \<noteq> 0 then 1 else if held AND 2 \<noteq> 0 then 2 else -1)"

record mouse_event =
  me_shift :: bool
  me_alt :: bool
  me_ctrl :: bool
  me_deltaX :: "rat option"
  me_deltaY :: "rat option"

definition modifier_code :: "mouse_event \<Rightarrow> int" where
  "modifier_code e = (if me_shift e then 4 else 0) OR (if me_alt e then 8 else 0) OR (if me_ctrl e then 16 else 0)"

lemma modifier_code_sum:
  "modifier_code e = (if me_shift e then 4 else 0) + (if me_alt e then 8 else 0) + (if me_ctrl e then 16 else 0)"
  by (simp add: modifier_code_def)

lemma modifier_code_bounds: "0 \<le> modifier_code e \<and> modifier_code e \<le> 28"
  by (simp add: modifier_code_sum)

subsection \<open>Encoding\<close>

definition legacy_limit :: int where
  "legacy_limit = 95"

definition encode_legacy :: "int \<Rightarrow> int \<Rightarrow> int \<Rightarrow> int \<Rightarrow> string" where
  "encode_legacy code x y limit =
     (if code < 0 \<or> limit < code \<or> x < 1 \<or> y < 1 \<or> limit < x \<or> limit < y then []
      else CHR 0x1B # ''[M'' @ [char_of (nat (code + 32)), char_of (nat (x + 32)), char_of (nat (y + 32))])"

text \<open>The button code of an action and the suffix of its SGR report; \<open>None\<close> where nothing is sent.\<close>

definition wheel_delta :: "mouse_event \<Rightarrow> rat option" where
  "wheel_delta e = (if \<bar>case me_deltaX e of None \<Rightarrow> 0 | Some d \<Rightarrow> d\<bar> \<le> \<bar>case me_deltaY e of None \<Rightarrow> 0 | Some d \<Rightarrow> d\<bar>
     then me_deltaY e else me_deltaX e)"

definition action_code :: "tracking \<Rightarrow> mouse_event \<Rightarrow> string \<Rightarrow> int \<Rightarrow> (int \<times> char) option" where
  "action_code t e action button =
     (if action = ''press'' then (if button < 0 then None else Some (button, CHR ''M''))
      else if action = ''release'' then
        (if mt_x10 t \<and> \<not> mt_normal t \<and> \<not> mt_drag t \<and> \<not> mt_any t then None
         else if mt_sgr t then Some (if 0 \<le> button then button else 0, CHR ''m'')
         else Some (3, CHR ''M''))
      else if action = ''move'' then
        (if 0 \<le> button then (if \<not> mt_drag t \<and> \<not> mt_any t then None else Some (32 + button, CHR ''M''))
         else if \<not> mt_any t then None else Some (35, CHR ''M''))
      else if action = ''wheel'' then
        (case wheel_delta e of None \<Rightarrow> None
         | Some d \<Rightarrow> if d = 0 then None else Some (if d < 0 then 64 else 65, CHR ''M''))
      else None)"

definition sgr_report :: "int \<Rightarrow> int \<Rightarrow> int \<Rightarrow> char \<Rightarrow> string" where
  "sgr_report code x y suffix =
     CHR 0x1B # ''[<'' @ int_text code @ '';'' @ int_text x @ '';'' @ int_text y @ [suffix]"

definition encode_mouse :: "tracking option \<Rightarrow> (int \<times> int) option \<Rightarrow> mouse_event \<Rightarrow> string \<Rightarrow> int \<Rightarrow> string" where
  "encode_mouse ts cell e action button = (case (ts, cell) of
     (Some t, Some (col, row)) \<Rightarrow>
       (case action_code t e action button of None \<Rightarrow> []
        | Some (code, suffix) \<Rightarrow>
            let code' = code + modifier_code e in
            if mt_sgr t then sgr_report code' (col + 1) (row + 1) suffix
            else encode_legacy code' (col + 1) (row + 1) legacy_limit)
   | _ \<Rightarrow> [])"

subsection \<open>Reading a report back\<close>

definition read_number :: "string \<Rightarrow> nat \<times> string" where
  "read_number s = (parse_nat (takeWhile is_digit s), dropWhile is_digit s)"

text \<open>The reader of SGR reports a program would use.\<close>

definition read_sgr :: "string \<Rightarrow> (nat \<times> nat \<times> nat \<times> char) option" where
  "read_sgr s = (if take 3 s \<noteq> CHR 0x1B # ''[<'' then None else
     case read_number (drop 3 s) of (code, r1) \<Rightarrow>
     (case r1 of [] \<Rightarrow> None | c # r1' \<Rightarrow> if c \<noteq> CHR '';'' then None else
      case read_number r1' of (x, r2) \<Rightarrow>
      (case r2 of [] \<Rightarrow> None | c # r2' \<Rightarrow> if c \<noteq> CHR '';'' then None else
       case read_number r2' of (y, r3) \<Rightarrow>
       (case r3 of [c] \<Rightarrow> Some (code, x, y, c) | _ \<Rightarrow> None))))"

lemma read_number_text:
  assumes "s = [] \<or> \<not> is_digit (hd s)"
  shows "read_number (nat_text n @ s) = (n, s)"
proof -
  have "list_all is_digit (nat_text n)" using all_digits_text [of n] by (simp add: all_digits_def)
  then have "takeWhile is_digit (nat_text n @ s) = nat_text n" "dropWhile is_digit (nat_text n @ s) = s"
    using assms by (cases s; simp add: list_all_iff takeWhile_append dropWhile_append)+
  then show ?thesis by (simp add: read_number_def)
qed

lemma int_text_nat [simp]: "int_text (int n) = nat_text n"
  by (simp add: int_text_def)

lemma read_sgr_report:
  assumes "suffix \<in> {CHR ''M'', CHR ''m''}"
  shows "read_sgr (sgr_report (int code) (int x) (int y) suffix) = Some (code, x, y, suffix)"
proof -
  have d: "\<not> is_digit (CHR '';'')" "\<not> is_digit suffix" using assms by (auto simp: is_digit_def)
  have 1: "read_number (nat_text code @ CHR '';'' # r) = (code, CHR '';'' # r)" for r
    by (rule read_number_text) (simp add: d)
  have 2: "read_number (nat_text x @ CHR '';'' # r) = (x, CHR '';'' # r)" for r
    by (rule read_number_text) (simp add: d)
  have 3: "read_number (nat_text y @ [suffix]) = (y, [suffix])"
    by (rule read_number_text) (simp add: d)
  show ?thesis by (simp add: read_sgr_def sgr_report_def 1 2 3)
qed

lemma action_code_bounds:
  assumes "action_code t e action button = Some (code, suffix)" "button \<le> 2"
  shows "0 \<le> code" "suffix \<in> {CHR ''M'', CHR ''m''}" "code \<le> 65" "mt_sgr t \<or> suffix = CHR ''M''"
  using assms by (auto simp: action_code_def split: if_splits option.splits)

text \<open>
  A report in the SGR encoding can be read back exactly: the reader gets the button code with
  the modifiers, the one-based cell and the press or release mark.
\<close>

theorem sgr_report_roundtrip:
  assumes "mt_sgr t" "0 \<le> col" "0 \<le> row" "button \<le> 2"
    and "encode_mouse (Some t) (Some (col, row)) e action button \<noteq> []"
  shows "\<exists>code suffix. action_code t e action button = Some (code, suffix)
     \<and> read_sgr (encode_mouse (Some t) (Some (col, row)) e action button)
         = Some (nat (code + modifier_code e), nat (col + 1), nat (row + 1), suffix)"
proof -
  obtain code suffix where c: "action_code t e action button = Some (code, suffix)"
    using assms(5) by (auto simp: encode_mouse_def split: option.splits)
  have b: "0 \<le> code" "suffix \<in> {CHR ''M'', CHR ''m''}" using action_code_bounds [OF c assms(4)] by simp_all
  then have n: "0 \<le> code + modifier_code e" using modifier_code_bounds [of e] by simp
  have "read_sgr (sgr_report (int (nat (code + modifier_code e))) (int (nat (col + 1))) (int (nat (row + 1))) suffix)
      = Some (nat (code + modifier_code e), nat (col + 1), nat (row + 1), suffix)"
    by (rule read_sgr_report) (rule b(2))
  then have "read_sgr (encode_mouse (Some t) (Some (col, row)) e action button)
      = Some (nat (code + modifier_code e), nat (col + 1), nat (row + 1), suffix)"
    using assms(1-3) by (simp add: encode_mouse_def c n)
  with c show ?thesis by blast
qed

lemma sgr_report_roundtrip_witness:
  "read_sgr (encode_mouse (Some \<lparr>mt_x10 = False, mt_normal = True, mt_drag = False, mt_any = False, mt_sgr = True\<rparr>)
     (Some (4, 9)) \<lparr>me_shift = True, me_alt = False, me_ctrl = True, me_deltaX = None, me_deltaY = None\<rparr> ''press'' 2)
     = Some (22, 5, 10, CHR ''M'')"
proof -
  let ?t = "\<lparr>mt_x10 = False, mt_normal = True, mt_drag = False, mt_any = False, mt_sgr = True\<rparr>"
  let ?e = "\<lparr>me_shift = True, me_alt = False, me_ctrl = True, me_deltaX = None, me_deltaY = None\<rparr>"
  have "encode_mouse (Some ?t) (Some (4, 9)) ?e ''press'' 2 \<noteq> []"
    by (simp add: encode_mouse_def action_code_def sgr_report_def)
  from sgr_report_roundtrip [OF _ _ _ _ this] show ?thesis
    by (simp add: action_code_def modifier_code_sum)
qed

text \<open>
  A report in the legacy encoding is six bytes long, each printable or the escape, and is sent
  only for cells the encoding can express.
\<close>

theorem legacy_report_bounds:
  assumes "\<not> mt_sgr t" "r = encode_mouse (Some t) (Some (col, row)) e action button" "r \<noteq> []"
  shows "length r = 6 \<and> take 3 r = CHR 0x1B # ''[M'' \<and> 0 \<le> col \<and> col < 95 \<and> 0 \<le> row \<and> row < 95
     \<and> (of_char (r ! 4) :: nat) = nat (col + 33) \<and> (of_char (r ! 5) :: nat) = nat (row + 33)
     \<and> (\<forall>c \<in> set (drop 3 r). 32 \<le> (of_char c :: nat) \<and> (of_char c :: nat) \<le> 127)"
proof -
  obtain code suffix where c: "action_code t e action button = Some (code, suffix)"
    using assms by (auto simp: encode_mouse_def split: option.splits)
  let ?n = "code + modifier_code e"
  have r: "r = encode_legacy ?n (col + 1) (row + 1) 95"
    using assms(1,2) by (simp add: encode_mouse_def c legacy_limit_def)
  then have b: "0 \<le> ?n" "?n \<le> 95" "1 \<le> col + 1" "col + 1 \<le> 95" "1 \<le> row + 1" "row + 1 \<le> 95"
    using assms(3) by (auto simp: encode_legacy_def split: if_splits)
  then have e: "r = CHR 0x1B # ''[M'' @ [char_of (nat (?n + 32)), char_of (nat (col + 33)), char_of (nat (row + 33))]"
    using r by (simp add: encode_legacy_def add.assoc)
  have oc: "(of_char (char_of (nat k) :: char) :: nat) = nat k" if "k < 256" for k
    using that by (simp add: of_char_of nat_less_iff)
  define u v w where d: "u = (char_of (nat (?n + 32)) :: char)" "v = (char_of (nat (col + 33)) :: char)"
    "w = (char_of (nat (row + 33)) :: char)"
  have e': "r = CHR 0x1B # ''[M'' @ [u, v, w]" using e by (simp add: d)
  have nth: "r ! 4 = v" "r ! 5 = w" "length r = 6" "drop 3 r = [u, v, w]" "take 3 r = CHR 0x1B # ''[M''"
    by (simp_all add: e')
  have val: "(of_char u :: nat) = nat (?n + 32)" "(of_char v :: nat) = nat (col + 33)"
    "(of_char w :: nat) = nat (row + 33)"
    unfolding d by (rule oc, use b in linarith)+
  then show ?thesis using b by (auto simp: nth val)
qed

lemma legacy_report_bounds_witness:
  "length (encode_mouse (Some \<lparr>mt_x10 = False, mt_normal = True, mt_drag = False, mt_any = False, mt_sgr = False\<rparr>)
     (Some (4, 9)) \<lparr>me_shift = False, me_alt = False, me_ctrl = False, me_deltaX = None, me_deltaY = None\<rparr> ''release'' 0) = 6"
proof -
  let ?t = "\<lparr>mt_x10 = False, mt_normal = True, mt_drag = False, mt_any = False, mt_sgr = False\<rparr>"
  let ?e = "\<lparr>me_shift = False, me_alt = False, me_ctrl = False, me_deltaX = None, me_deltaY = None\<rparr>"
  have t: "\<not> mt_sgr ?t" by simp
  have "encode_mouse (Some ?t) (Some (4, 9)) ?e ''release'' 0 \<noteq> []"
    by (simp add: encode_mouse_def action_code_def encode_legacy_def modifier_code_sum legacy_limit_def)
  from legacy_report_bounds [OF t refl this] show ?thesis by blast
qed

end
