(* ===== verification/Selection.thy ===== *)
theory Selection
  imports Js
begin

section \<open>Selections\<close>

text \<open>
  Model of the cell arithmetic of \<open>src/runtime/static/terminal/selection/selection_model.js\<close>: comparing cells
  in reading order, moving by one cell, normalising, extending and testing a selection, and the
  text a selection copies. The terminal's lines are an argument. The grouping of a touched word
  (\<open>terminalTouchStringRange\<close>, which needs Unicode character classes) is not modelled.
\<close>

subsection \<open>Cells\<close>

record sel_cell =
  sc_col :: int
  sc_row :: int

definition compare_cells :: "sel_cell option \<Rightarrow> sel_cell option \<Rightarrow> int" where
  "compare_cells left right = (case (left, right) of (Some l, Some r) \<Rightarrow>
       if sc_row l \<noteq> sc_row r then sc_row l - sc_row r else sc_col l - sc_col r
     | _ \<Rightarrow> 0)"

definition normalize_cells :: "sel_cell option \<Rightarrow> sel_cell option \<Rightarrow> (sel_cell \<times> sel_cell) option" where
  "normalize_cells start stop = (case (start, stop) of (Some a, Some b) \<Rightarrow>
       Some (if compare_cells (Some a) (Some b) \<le> 0 then (a, b) else (b, a))
     | _ \<Rightarrow> None)"

text \<open>\<open>Math.max(1, Math.floor(Number(cols) || 1))\<close>.\<close>

definition cell_width :: "jsval \<Rightarrow> int" where
  "cell_width cols = (case js_number cols of Fin r \<Rightarrow> if r = 0 then 1 else max 1 (floor r) | _ \<Rightarrow> 1)"

definition previous_cell :: "jsval \<Rightarrow> sel_cell option \<Rightarrow> sel_cell option" where
  "previous_cell cols cell = (case cell of None \<Rightarrow> None
     | Some c \<Rightarrow> Some (if 0 < sc_col c then \<lparr>sc_col = sc_col c - 1, sc_row = sc_row c\<rparr>
         else \<lparr>sc_col = cell_width cols - 1, sc_row = max 0 (sc_row c - 1)\<rparr>))"

definition next_cell :: "jsval \<Rightarrow> sel_cell option \<Rightarrow> sel_cell option" where
  "next_cell cols cell = (case cell of None \<Rightarrow> None
     | Some c \<Rightarrow> Some (if sc_col c < cell_width cols - 1 then \<lparr>sc_col = sc_col c + 1, sc_row = sc_row c\<rparr>
         else \<lparr>sc_col = 0, sc_row = sc_row c + 1\<rparr>))"

definition extend_cells :: "sel_cell \<times> sel_cell \<Rightarrow> sel_cell \<Rightarrow> sel_cell \<times> sel_cell" where
  "extend_cells sel c = (if compare_cells (Some c) (Some (fst sel)) < 0 then c else fst sel,
     if 0 < compare_cells (Some c) (Some (snd sel)) then c else snd sel)"

definition contains_cell :: "(sel_cell \<times> sel_cell) option \<Rightarrow> sel_cell option \<Rightarrow> bool" where
  "contains_cell selection cell = (case (selection, cell) of (Some (a, b), Some c) \<Rightarrow>
       if sc_row c < sc_row a \<or> sc_row b < sc_row c then False
       else if sc_row a = sc_row b then sc_col a \<le> sc_col c \<and> sc_col c \<le> sc_col b
       else if sc_row c = sc_row a then sc_col a \<le> sc_col c
       else if sc_row c = sc_row b then sc_col c \<le> sc_col b
       else True
     | _ \<Rightarrow> False)"

subsection \<open>The range of the manager\<close>

record sel_range =
  sr_startCol :: int
  sr_startRow :: int
  sr_endCol :: int
  sr_endRow :: int

definition floor_part :: "jnum \<Rightarrow> int" where
  "floor_part x = max 0 (num_int x)"

definition finite_num :: "jnum \<Rightarrow> bool" where
  "finite_num x = (case x of Fin _ \<Rightarrow> True | _ \<Rightarrow> False)"

definition selection_range :: "(jsval \<times> jsval) option \<Rightarrow> (jsval \<times> jsval) option \<Rightarrow> sel_range option" where
  "selection_range start stop = (case (start, stop) of (Some (c1, r1), Some (c2, r2)) \<Rightarrow>
       if \<not> list_all (finite_num \<circ> js_number) [c1, r1, c2, r2] then None
       else let sc = floor_part (js_number c1); sr = floor_part (js_number r1);
                ec = floor_part (js_number c2); er = floor_part (js_number r2)
            in Some (if er < sr \<or> sr = er \<and> ec < sc
                     then \<lparr>sr_startCol = ec, sr_startRow = er, sr_endCol = sc, sr_endRow = sr\<rparr>
                     else \<lparr>sr_startCol = sc, sr_startRow = sr, sr_endCol = ec, sr_endRow = er\<rparr>)
     | _ \<Rightarrow> None)"

subsection \<open>Copied text\<close>

text \<open>
  The text of a cell and whether it is content; a cell is its width, code point, own text if any
  and whether it is a grapheme, whose text the backend gives (\<open>grapheme\<close>). Characters above 255
  are not characters of the model: a code point is shown by the function \<open>glyph\<close>.
\<close>

record term_cell =
  tc_width :: int
  tc_codepoint :: nat
  tc_text :: "string option"
  tc_grapheme :: bool

text \<open>
  The terminal of a selection: the number of scrollback lines, the lines of the scrollback and of the
  screen, and the text of a grapheme in either.
\<close>

record sel_term =
  st_scrollback :: int
  st_scroll_line :: "int \<Rightarrow> term_cell list option"
  st_screen_line :: "int \<Rightarrow> term_cell list option"
  st_scroll_grapheme :: "int \<Rightarrow> int \<Rightarrow> string"
  st_screen_grapheme :: "int \<Rightarrow> int \<Rightarrow> string"

definition selection_line_at :: "sel_term \<Rightarrow> int \<Rightarrow> term_cell list option" where
  "selection_line_at t row = (if row < 0 then None
     else if row < st_scrollback t then st_scroll_line t row
     else st_screen_line t (row - st_scrollback t))"

definition codepoint_text :: "(nat \<Rightarrow> string) \<Rightarrow> nat \<Rightarrow> string" where
  "codepoint_text glyph v = (if v = 0 \<or> 0x10ffff < v \<or> 0xd800 \<le> v \<and> v \<le> 0xdfff then [] else glyph v)"

definition cell_text ::
    "(nat \<Rightarrow> string) \<Rightarrow> sel_term \<Rightarrow> term_cell option \<Rightarrow> int \<Rightarrow> int \<Rightarrow> string \<times> bool" where
  "cell_text glyph t cell row col = (case cell of None \<Rightarrow> ('' '', False)
     | Some c \<Rightarrow>
        if tc_width c = 0 then ([], False)
        else if tc_codepoint c = 0 then ('' '', False)
        else let text = (case tc_text c of Some own \<Rightarrow> own
               | None \<Rightarrow>
                   if tc_grapheme c
                   then (if row < st_scrollback t then st_scroll_grapheme t row col
                         else st_screen_grapheme t (row - st_scrollback t) col)
                   else codepoint_text glyph (tc_codepoint c))
             in if text = [] then ('' '', False) else (text, js_trim text \<noteq> []))"

text \<open>The text of a row: everything up to the last cell with content.\<close>

fun row_text :: "(string \<times> bool) list \<Rightarrow> string \<Rightarrow> string \<Rightarrow> string" where
  "row_text [] text kept = kept"
| "row_text ((t, content) # cs) text kept =
     row_text cs (text @ t) (if content then text @ t else kept)"

definition line_cell :: "term_cell list \<Rightarrow> int \<Rightarrow> term_cell option" where
  "line_cell line col = (if 0 \<le> col \<and> col < int (length line) then Some (line ! nat col) else None)"

definition selected_row ::
    "(nat \<Rightarrow> string) \<Rightarrow> sel_term \<Rightarrow> sel_range \<Rightarrow> int \<Rightarrow> term_cell list \<Rightarrow> string" where
  "selected_row glyph t r row line =
     (let a = (if row = sr_startRow r then sr_startCol r else 0);
          b = (if row = sr_endRow r then sr_endCol r else max 0 (int (length line) - 1))
      in row_text (map (\<lambda>col. cell_text glyph t (line_cell line col) row col) [a..b]) [] [])"

definition selection_text :: "(nat \<Rightarrow> string) \<Rightarrow> sel_term option \<Rightarrow> sel_range option \<Rightarrow> string" where
  "selection_text glyph backend sel = (case (sel, backend) of (Some r, Some t) \<Rightarrow>
       concat (map (\<lambda>row. case selection_line_at t row of None \<Rightarrow> []
         | Some line \<Rightarrow> selected_row glyph t r row line
             @ (if row < sr_endRow r then [CHR 0x0A] else [])) [sr_startRow r..sr_endRow r])
     | _ \<Rightarrow> [])"

subsection \<open>Reading order\<close>

text \<open>
  A selection contains exactly the cells between its two ends in reading order, and extending it
  to a cell gives a selection that contains both ends and that cell.
\<close>

theorem selection_is_interval:
  "contains_cell (Some (a, b)) (Some c) = (compare_cells (Some a) (Some c) \<le> 0 \<and> compare_cells (Some c) (Some b) \<le> 0)
   \<and> (compare_cells (Some a) (Some b) \<le> 0 \<longrightarrow>
        (\<forall>d. d = c \<or> contains_cell (Some (a, b)) (Some d) \<longrightarrow> contains_cell (Some (extend_cells (a, b) c)) (Some d)))"
  by (auto simp: contains_cell_def compare_cells_def extend_cells_def split: if_splits)

lemma selection_is_interval_witness:
  "contains_cell (Some (extend_cells (\<lparr>sc_col = 3, sc_row = 1\<rparr>, \<lparr>sc_col = 1, sc_row = 2\<rparr>) \<lparr>sc_col = 7, sc_row = 4\<rparr>))
     (Some \<lparr>sc_col = 0, sc_row = 2\<rparr>)"
proof -
  have "compare_cells (Some \<lparr>sc_col = 3, sc_row = 1\<rparr>) (Some \<lparr>sc_col = 1, sc_row = 2\<rparr>) \<le> 0"
    "contains_cell (Some (\<lparr>sc_col = 3, sc_row = 1\<rparr>, \<lparr>sc_col = 1, sc_row = 2\<rparr>)) (Some \<lparr>sc_col = 0, sc_row = 2\<rparr>)"
    by (simp_all add: compare_cells_def contains_cell_def)
  with selection_is_interval [of "\<lparr>sc_col = 3, sc_row = 1\<rparr>" "\<lparr>sc_col = 1, sc_row = 2\<rparr>" "\<lparr>sc_col = 7, sc_row = 4\<rparr>"]
  show ?thesis by blast
qed

text \<open>Moving forward and back are inverse inside the screen.\<close>

lemma next_previous:
  assumes "0 \<le> sc_col c" "sc_col c < cell_width cols" "0 \<le> sc_row c"
  shows "previous_cell cols (next_cell cols (Some c)) = Some c"
  using assms by (cases c) (auto simp: previous_cell_def next_cell_def)

lemma previous_next:
  assumes "0 \<le> sc_col c" "sc_col c < cell_width cols" "0 < sc_row c \<or> 0 < sc_col c"
  shows "next_cell cols (previous_cell cols (Some c)) = Some c"
  using assms by (cases c) (auto simp: previous_cell_def next_cell_def)

lemma next_cell_after:
  "next_cell cols (Some c) = Some d \<Longrightarrow> compare_cells (Some c) (Some d) < 0"
  by (auto simp: compare_cells_def next_cell_def)

text \<open>The range of the manager is ordered, and no kept row text ends in a blank cell.\<close>

lemma floor_part_nonneg [simp]: "0 \<le> floor_part x"
  by (simp add: floor_part_def)

lemma selection_range_ordered:
  assumes "selection_range a b = Some r"
  shows "0 \<le> sr_startCol r \<and> 0 \<le> sr_startRow r
     \<and> (sr_startRow r < sr_endRow r \<or> sr_startRow r = sr_endRow r \<and> sr_startCol r \<le> sr_endCol r)"
  using assms by (auto simp: selection_range_def Let_def split: option.splits if_splits)

lemma row_text_kept:
  "(\<exists>n. row_text cs acc kept = acc @ concat (map fst (take n cs)) \<and> 0 < n \<and> n \<le> length cs \<and> snd (cs ! (n - 1)))
     \<or> row_text cs acc kept = kept"
proof (induction cs arbitrary: acc kept)
  case (Cons e cs)
  obtain t content where e: "e = (t, content)" by (cases e)
  from Cons.IH [of "acc @ t" "if content then acc @ t else kept"] show ?case
  proof (elim disjE exE conjE)
    fix n assume  "row_text cs (acc @ t) (if content then acc @ t else kept) = (acc @ t) @ concat (map fst (take n cs))"
      "0 < n" "n \<le> length cs" "snd (cs ! (n - 1))"
    then show ?thesis by (intro disjI1 exI [of _ "Suc n"]) (simp add: e)
  next
    assume k: "row_text cs (acc @ t) (if content then acc @ t else kept) = (if content then acc @ t else kept)"
    then show ?thesis
    proof (cases content)
      case True
      with k show ?thesis by (intro disjI1 exI [of _ 1]) (simp add: e)
    qed (simp add: e)
  qed
qed simp

end
