(* ===== verification/Workspace_Target.thy ===== *)
theory Workspace_Target
  imports Js
begin

section \<open>The workspace shown and the changes posted to it\<close>

text \<open>
  Model of \<open>workspace/target_lifecycle.js\<close>, \<open>workspace/target_controller.js\<close> and of the bookkeeping of
  \<open>workspace/workspace_api.js\<close>: which instance the page shows, the generation by which answers to
  requests for an earlier one are recognised, and the actions posted to the server whose answers
  are still awaited. Names are strings, an absent one the empty string.
\<close>

subsection \<open>The lifecycle of the target\<close>

record target_life =
  tl_name :: string
  tl_gen :: nat
  tl_disposed :: bool

definition tl_start :: "string \<Rightarrow> target_life" where
  "tl_start n = \<lparr>tl_name = js_trim n, tl_gen = 0, tl_disposed = False\<rparr>"

definition tl_set_name :: "string \<Rightarrow> target_life \<Rightarrow> target_life" where
  "tl_set_name n s = (if tl_disposed s \<or> js_trim n = tl_name s then s
     else s\<lparr>tl_name := js_trim n, tl_gen := Suc (tl_gen s)\<rparr>)"

definition tl_is_current :: "string \<Rightarrow> nat \<Rightarrow> target_life \<Rightarrow> bool" where
  "tl_is_current n g s = (\<not> tl_disposed s \<and> js_trim n = tl_name s \<and> g = tl_gen s)"

definition tl_dispose :: "target_life \<Rightarrow> bool \<times> target_life" where
  "tl_dispose s = (if tl_disposed s then (False, s)
     else (True, s\<lparr>tl_disposed := True, tl_gen := Suc (tl_gen s)\<rparr>))"

subsection \<open>The controller\<close>

text \<open>
  \<open>app\<close> is the answer of \<open>isDisposed()\<close> of the application. What a change of target tells the rest of
  the page is the list of outputs, in order.
\<close>

record target =
  tg_life :: target_life
  tg_disposed :: bool

datatype target_out =
    TInvalidateGeneration
  | TResetSockets
  | TChanged string string nat
  | TClearRetry
  | THideError
  | TUpdateLocation string bool
  | TResetWorkspace
  | TRefresh string nat

definition tg_start :: "string \<Rightarrow> target" where
  "tg_start n = \<lparr>tg_life = tl_start n, tg_disposed = False\<rparr>"

abbreviation tg_name :: "target \<Rightarrow> string" where
  "tg_name s \<equiv> tl_name (tg_life s)"

abbreviation tg_gen :: "target \<Rightarrow> nat" where
  "tg_gen s \<equiv> tl_gen (tg_life s)"

definition set_active_name :: "bool \<Rightarrow> string \<Rightarrow> target \<Rightarrow> nat \<times> target \<times> target_out list" where
  "set_active_name app n s = (if tg_disposed s \<or> app then (tg_gen s, s, [])
     else let s' = s\<lparr>tg_life := tl_set_name n (tg_life s)\<rparr>
          in (tg_gen s', s', if tg_name s' \<noteq> tg_name s
                then [TInvalidateGeneration, TResetSockets, TChanged (tg_name s) (tg_name s') (tg_gen s')]
                else []))"

definition is_current_request :: "bool \<Rightarrow> string \<Rightarrow> nat \<Rightarrow> target \<Rightarrow> bool" where
  "is_current_request app n g s = (\<not> tg_disposed s \<and> \<not> app \<and> tl_is_current n g (tg_life s))"

definition is_current_session :: "bool \<Rightarrow> string \<Rightarrow> target \<Rightarrow> bool" where
  "is_current_session app n s = (js_trim n \<noteq> [] \<and> js_trim n = tg_name s \<and> \<not> tg_disposed s \<and> \<not> app)"

definition switch_to ::
    "bool \<Rightarrow> string \<Rightarrow> bool \<Rightarrow> bool \<Rightarrow> target \<Rightarrow> bool \<times> target \<times> target_out list" where
  "switch_to app n update_url replace_url s =
     (if tg_disposed s \<or> app \<or> js_trim n = [] \<or> js_trim n = tg_name s then (False, s, [])
      else case set_active_name app (js_trim n) s of (g, s', outs) \<Rightarrow>
        (True, s', [TClearRetry, THideError] @ outs
           @ (if update_url then [TUpdateLocation (js_trim n) replace_url] else [])
           @ [TResetWorkspace, TRefresh (js_trim n) g]))"

definition tg_dispose :: "target \<Rightarrow> bool \<times> target" where
  "tg_dispose s = (if tg_disposed s then (False, s)
     else (True, \<lparr>tg_life = snd (tl_dispose (tg_life s)), tg_disposed = True\<rparr>))"

subsection \<open>Posted actions\<close>

text \<open>
  A mutation object is its identity with the instance and generation it was posted for; the pending
  set keeps them in the order they were added.
\<close>

record mutation =
  mu_uid :: nat
  mu_name :: string
  mu_gen :: nat

record api =
  wa_version :: nat
  wa_pending :: "mutation list"
  wa_next :: nat
  wa_disposed :: bool

datatype api_error = NoRunningContainer | ApiDisposed | SelectorMismatch string string | RequestFailed

definition api_start :: api where
  "api_start = \<lparr>wa_version = 0, wa_pending = [], wa_next = 0, wa_disposed = False\<rparr>"

definition ensure_selector :: "string \<Rightarrow> string \<Rightarrow> api_error + unit" where
  "ensure_selector selector expected = (let a = js_trim selector; b = js_trim expected
     in if a \<noteq> [] \<and> b \<noteq> [] \<and> a \<noteq> b then Inl (SelectorMismatch b a) else Inr ())"

definition fetch_guard :: "string \<Rightarrow> api \<Rightarrow> api_error + string" where
  "fetch_guard n s = (if js_trim n = [] then Inl NoRunningContainer
     else if wa_disposed s then Inl ApiDisposed else Inr (js_trim n))"

definition post_begin :: "string \<Rightarrow> nat \<Rightarrow> api \<Rightarrow> (api_error + mutation) \<times> api" where
  "post_begin n g s = (case fetch_guard n s of Inl e \<Rightarrow> (Inl e, s)
     | Inr name \<Rightarrow> let m = \<lparr>mu_uid = wa_next s, mu_name = name, mu_gen = g\<rparr>
         in (Inr m, s\<lparr>wa_version := Suc (wa_version s), wa_pending := wa_pending s @ [m], wa_next := Suc (wa_next s)\<rparr>))"

text \<open>The \<open>finally\<close> of \<open>postAction\<close>; \<open>current\<close> is \<open>isCurrentRequest\<close> of the mutation.\<close>

definition post_end :: "bool \<Rightarrow> mutation \<Rightarrow> api \<Rightarrow> api" where
  "post_end current m s = (let p = filter (\<lambda>x. mu_uid x \<noteq> mu_uid m) (wa_pending s)
     in s\<lparr>wa_pending := p, wa_version := (if \<not> wa_disposed s \<and> current then Suc (wa_version s) else wa_version s)\<rparr>)"

definition post_answer :: "bool \<Rightarrow> string \<Rightarrow> mutation \<Rightarrow> api \<Rightarrow> api_error + bool" where
  "post_answer current selector m s = (if wa_disposed s \<or> \<not> current then Inr False
     else case ensure_selector selector (mu_name m) of Inl e \<Rightarrow> Inl e | Inr _ \<Rightarrow> Inr True)"

definition has_pending :: "string \<Rightarrow> nat \<Rightarrow> api \<Rightarrow> bool" where
  "has_pending n g s = list_ex (\<lambda>m. mu_name m = n \<and> mu_gen m = g) (wa_pending s)"

definition api_dispose :: "api \<Rightarrow> bool \<times> api" where
  "api_dispose s = (if wa_disposed s then (False, s)
     else (True, s\<lparr>wa_disposed := True, wa_pending := [], wa_version := Suc (wa_version s)\<rparr>))"

subsection \<open>A request that has been overtaken stays overtaken\<close>

datatype target_event = TSet bool string | TSwitch bool string bool bool | TDispose

fun tg_step :: "target \<Rightarrow> target_event \<Rightarrow> target" where
  "tg_step s (TSet app n) = fst (snd (set_active_name app n s))"
| "tg_step s (TSwitch app n u r) = fst (snd (switch_to app n u r s))"
| "tg_step s TDispose = snd (tg_dispose s)"

definition tg_leaves :: "target \<Rightarrow> target_event \<Rightarrow> bool" where
  "tg_leaves s e = (tg_name (tg_step s e) \<noteq> tg_name s \<or> e = TDispose \<and> \<not> tl_disposed (tg_life s) \<and> \<not> tg_disposed s)"

lemmas target_defs = set_active_name_def switch_to_def tl_set_name_def tg_dispose_def tl_dispose_def

interpretation tgg: generation_machine tg_step tg_gen tg_leaves
proof
  fix s e
  show "tg_gen s \<le> tg_gen (tg_step s e)" by (cases e) (auto simp: target_defs Let_def)
  show "tg_leaves s e \<Longrightarrow> tg_gen s < tg_gen (tg_step s e)"
    by (cases e) (auto simp: tg_leaves_def target_defs Let_def split: if_splits)
qed

text \<open>
  A request made for the instance shown is not taken for a current one once the page has turned to
  another instance, whatever happens afterwards: not even when the page returns to the instance
  of the request.
\<close>

theorem overtaken_request_stays_stale:
  assumes "is_current_request app n g s" and "tg_name (tg_step s e) \<noteq> tg_name s"
  shows "\<not> is_current_request app' n' g (foldl tg_step (tg_step s e) es)"
proof -
  have "g = tg_gen s" using assms(1) by (simp add: is_current_request_def tl_is_current_def)
  moreover have "tg_gen (foldl tg_step (tg_step s e) es) \<noteq> tg_gen s"
    by (rule tgg.stale_after_bump) (simp add: tg_leaves_def assms(2))
  ultimately show ?thesis by (simp add: is_current_request_def tl_is_current_def)
qed

lemma overtaken_request_stays_stale_witness:
  "\<not> is_current_request False ''a'' 0
      (foldl tg_step (tg_step (tg_start ''a'') (TSwitch False ''b'' True False)) [TSwitch False ''a'' True False])"
  by (rule overtaken_request_stays_stale [of False "''a''"])
    (simp_all add: is_current_request_def tl_is_current_def tg_start_def tl_start_def target_defs js_trim_def
      js_space_def Let_def)

text \<open>A switch shows the new instance, and its refresh is sent with a current generation.\<close>

lemma switch_refresh_current:
  assumes "switch_to app n u r s = (True, s', outs)" "\<not> tl_disposed (tg_life s)"
  shows "TRefresh (js_trim n) (tg_gen s') \<in> set outs \<and> is_current_request app (js_trim n) (tg_gen s') s'
     \<and> Suc (tg_gen s) = tg_gen s'"
  using assms by (auto simp: switch_to_def set_active_name_def tl_set_name_def is_current_request_def
      tl_is_current_def Let_def split: if_splits)

subsection \<open>The version of the posted actions\<close>

datatype api_event = APost string nat | AEnd bool mutation | ADispose

fun api_step :: "api \<Rightarrow> api_event \<Rightarrow> api" where
  "api_step s (APost n g) = snd (post_begin n g s)"
| "api_step s (AEnd c m) = post_end c m s"
| "api_step s ADispose = snd (api_dispose s)"

definition api_changes :: "api \<Rightarrow> api_event \<Rightarrow> bool" where
  "api_changes s e = (case e of APost n g \<Rightarrow> js_trim n \<noteq> [] \<and> \<not> wa_disposed s
     | AEnd c m \<Rightarrow> c \<and> \<not> wa_disposed s | ADispose \<Rightarrow> \<not> wa_disposed s)"

interpretation apg: generation_machine api_step wa_version api_changes
proof
  fix s e
  show "wa_version s \<le> wa_version (api_step s e)"
    by (cases e) (auto simp: post_begin_def fetch_guard_def post_end_def api_dispose_def Let_def)
  show "api_changes s e \<Longrightarrow> wa_version s < wa_version (api_step s e)"
    by (cases e) (auto simp: api_changes_def post_begin_def fetch_guard_def post_end_def api_dispose_def Let_def)
qed

definition pending_ok :: "api \<Rightarrow> bool" where
  "pending_ok s = (distinct (map mu_uid (wa_pending s)) \<and> (\<forall>m \<in> set (wa_pending s). mu_uid m < wa_next s)
     \<and> (wa_disposed s \<longrightarrow> wa_pending s = []))"

interpretation apo: invariant_machine api_step pending_ok
proof
  fix s e assume ok: "pending_ok s"
  show "pending_ok (api_step s e)"
  proof (cases e)
    case (APost n g)
    then show ?thesis using ok
      by (auto simp: pending_ok_def post_begin_def fetch_guard_def Let_def less_Suc_eq)
  next
    case (AEnd c m)
    then show ?thesis using ok by (auto simp: pending_ok_def post_end_def Let_def distinct_map intro: inj_on_subset)
  next
    case ADispose
    then show ?thesis using ok by (auto simp: pending_ok_def api_dispose_def)
  qed
qed

text \<open>An action is pending from its start until its end.\<close>

lemma post_pending:
  assumes "post_begin n g s = (Inr m, s')"
  shows "m \<in> set (wa_pending s')" "has_pending (js_trim n) g s'" "wa_version s' = Suc (wa_version s)"
  using assms by (auto simp: post_begin_def fetch_guard_def has_pending_def Let_def split: if_splits)

lemma post_ended: "m \<notin> set (wa_pending (post_end c m s))"
  by (simp add: post_end_def Let_def)

end
