(* ===== verification/Workspace_Retry.thy ===== *)
theory Workspace_Retry
  imports Js
begin

section \<open>Retrying a workspace refresh\<close>

text \<open>
  Model of \<open>workspace/refresh_lifecycle.js\<close>: one retry timer with exponential backoff and jitter, at
  most one refresh in flight, and the context (instance, generation, focus) to refresh. A context
  object is shared between the controller and the refresh in flight and compared by identity, so it
  carries one. What the code reads from outside when an operation runs is \<open>retry_env\<close>.
\<close>

record retry_ctx =
  rt_uid :: nat
  rt_name :: string
  rt_gen :: nat
  rt_focus :: bool

record retry_env =
  re_inactive :: bool
  re_online :: bool
  re_current :: "string \<Rightarrow> nat \<Rightarrow> bool"
  re_random :: rat

record retry_config =
  rc_base :: rat
  rc_max :: rat
  rc_jitter :: rat
  rc_attempts :: nat

record retry =
  rt_timer :: "int option"
  rt_tries :: nat
  rt_flight :: "retry_ctx option"
  rt_ctx :: "retry_ctx option"
  rt_next :: nat
  rt_disposed :: bool

definition retry_start :: retry where
  "retry_start = \<lparr>rt_timer = None, rt_tries = 0, rt_flight = None, rt_ctx = None, rt_next = 0, rt_disposed = False\<rparr>"

definition retry_inactive :: "retry_env \<Rightarrow> retry \<Rightarrow> bool" where
  "retry_inactive v s = (rt_disposed s \<or> re_inactive v)"

definition retry_clear :: "retry \<Rightarrow> retry" where
  "retry_clear s = s\<lparr>rt_timer := None, rt_tries := 0, rt_ctx := None\<rparr>"

text \<open>\<open>Math.min(maxDelayMs, baseDelayMs * (2 ** Math.min(attempt, 8)))\<close>, the jitter and the rounded delay.\<close>

definition base_delay :: "retry_config \<Rightarrow> bool \<Rightarrow> nat \<Rightarrow> rat" where
  "base_delay c immediate tries = (if immediate then 0 else min (rc_max c) (rc_base c * 2 ^ min tries 8))"

definition jittered :: "retry_config \<Rightarrow> rat \<Rightarrow> rat \<Rightarrow> int" where
  "jittered c rnd base = max 0 \<lfloor>base + base * rc_jitter c * (rnd * 2 - 1) + 1 / 2\<rfloor>"

definition note_ctx :: "bool \<Rightarrow> string \<Rightarrow> nat \<Rightarrow> retry \<Rightarrow> retry" where
  "note_ctx focus n g s = (case rt_ctx s of
       Some x \<Rightarrow> if rt_name x = n \<and> rt_gen x = g then s\<lparr>rt_ctx := Some (x\<lparr>rt_focus := focus \<or> rt_focus x\<rparr>)\<rparr>
         else s\<lparr>rt_ctx := Some \<lparr>rt_uid = rt_next s, rt_name = n, rt_gen = g, rt_focus = focus\<rparr>, rt_next := Suc (rt_next s)\<rparr>
     | None \<Rightarrow> s\<lparr>rt_ctx := Some \<lparr>rt_uid = rt_next s, rt_name = n, rt_gen = g, rt_focus = focus\<rparr>, rt_next := Suc (rt_next s)\<rparr>)"

definition retry_schedule ::
    "retry_config \<Rightarrow> retry_env \<Rightarrow> bool \<Rightarrow> string \<Rightarrow> nat \<Rightarrow> bool \<Rightarrow> retry \<Rightarrow> bool \<times> retry" where
  "retry_schedule c v focus n g immediate s =
     (if retry_inactive v s \<or> \<not> re_current v (js_trim n) g then (False, s)
      else let s1 = note_ctx focus (js_trim n) g s
        in if rt_timer s1 \<noteq> None \<or> rt_flight s1 \<noteq> None \<or> \<not> re_online v then (True, s1)
           else (True, s1\<lparr>rt_timer := Some (jittered c (re_random v) (base_delay c immediate (rt_tries s1)))\<rparr>))"

text \<open>The timer fires: the refresh starts with the context, which the result names.\<close>

definition retry_fires :: "retry_env \<Rightarrow> retry \<Rightarrow> retry_ctx option \<times> retry" where
  "retry_fires v s = (let s1 = s\<lparr>rt_timer := None\<rparr>
     in case rt_ctx s1 of None \<Rightarrow> (None, s1)
       | Some x \<Rightarrow> if retry_inactive v s1 \<or> \<not> re_current v (rt_name x) (rt_gen x) then (None, s1)
           else (Some x, s1\<lparr>rt_flight := Some x\<rparr>))"

definition retry_succeeded :: "retry \<Rightarrow> retry" where
  "retry_succeeded s = (retry_clear s)\<lparr>rt_flight := None\<rparr>"

definition retry_failed :: "retry_config \<Rightarrow> retry_env \<Rightarrow> retry \<Rightarrow> retry" where
  "retry_failed c v s = (case rt_flight s of None \<Rightarrow> s
     | Some x \<Rightarrow> let s1 = s\<lparr>rt_tries := min (rc_attempts c) (Suc (rt_tries s)), rt_flight := None\<rparr>
         in case rt_ctx s1 of
              Some y \<Rightarrow> if \<not> rt_disposed s1 \<and> rt_uid y = rt_uid x
                then snd (retry_schedule c v (rt_focus y) (rt_name y) (rt_gen y) False s1) else s1
            | None \<Rightarrow> s1)"

definition retry_resume :: "retry_config \<Rightarrow> retry_env \<Rightarrow> retry \<Rightarrow> bool \<times> retry" where
  "retry_resume c v s = (case rt_ctx s of None \<Rightarrow> (False, s)
     | Some x \<Rightarrow> if retry_inactive v s then (False, s)
         else retry_schedule c v (rt_focus x) (rt_name x) (rt_gen x) True s)"

definition retry_dispose :: "retry \<Rightarrow> bool \<times> retry" where
  "retry_dispose s = (if rt_disposed s then (False, s) else (True, retry_clear (s\<lparr>rt_disposed := True\<rparr>)))"

subsection \<open>The machine\<close>

datatype retry_event =
    RtSchedule retry_env bool string nat bool
  | RtFires retry_env
  | RtDone
  | RtFailed retry_env
  | RtResume retry_env
  | RtClear
  | RtDispose

text \<open>A refresh can only end when one is in flight, a timer only fire when it is set.\<close>

fun rt_step :: "retry_config \<Rightarrow> retry \<Rightarrow> retry_event \<Rightarrow> retry" where
  "rt_step c s (RtSchedule v focus n g i) = snd (retry_schedule c v focus n g i s)"
| "rt_step c s (RtFires v) = (if rt_timer s = None then s else snd (retry_fires v s))"
| "rt_step c s RtDone = (if rt_flight s = None then s else retry_succeeded s)"
| "rt_step c s (RtFailed v) = retry_failed c v s"
| "rt_step c s (RtResume v) = snd (retry_resume c v s)"
| "rt_step c s RtClear = retry_clear s"
| "rt_step c s RtDispose = snd (retry_dispose s)"

definition delay_ok :: "retry_config \<Rightarrow> int \<Rightarrow> bool" where
  "delay_ok c d = (0 \<le> d \<and> rat_of_int d \<le> rc_max c * (1 + rc_jitter c) + 1 / 2)"

definition env_ok :: "retry_env \<Rightarrow> bool" where
  "env_ok v = (0 \<le> re_random v \<and> re_random v \<le> 1)"

fun event_ok :: "retry_event \<Rightarrow> bool" where
  "event_ok (RtSchedule v focus n g i) = env_ok v"
| "event_ok (RtFires v) = env_ok v"
| "event_ok (RtFailed v) = env_ok v"
| "event_ok (RtResume v) = env_ok v"
| "event_ok e = True"

definition config_ok :: "retry_config \<Rightarrow> bool" where
  "config_ok c = (0 \<le> rc_base c \<and> 0 \<le> rc_max c \<and> 0 \<le> rc_jitter c)"

lemma jittered_bound:
  assumes "config_ok c" "0 \<le> rnd" "rnd \<le> 1" "0 \<le> base" "base \<le> rc_max c"
  shows "delay_ok c (jittered c rnd base)"
proof -
  have j: "base * rc_jitter c * (rnd * 2 - 1) \<le> base * rc_jitter c"
    using assms mult_left_mono [of "rnd * 2 - 1" 1 "base * rc_jitter c"] by (simp add: config_ok_def)
  have "base + base * rc_jitter c \<le> rc_max c * (1 + rc_jitter c)"
    using assms mult_right_mono [of base "rc_max c" "1 + rc_jitter c"] by (simp add: config_ok_def distrib_left)
  with j have le: "base + base * rc_jitter c * (rnd * 2 - 1) + 1 / 2 \<le> rc_max c * (1 + rc_jitter c) + 1 / 2"
    by linarith
  have "0 \<le> rc_max c * (1 + rc_jitter c)" using assms(1) by (simp add: config_ok_def)
  with le show ?thesis
    unfolding delay_ok_def jittered_def
    by (auto simp: max_def intro: order_trans [OF of_int_floor_le])
qed

lemma base_delay_bound:
  assumes "config_ok c"
  shows "0 \<le> base_delay c i t \<and> base_delay c i t \<le> rc_max c"
  using assms by (simp add: base_delay_def config_ok_def)

definition rt_inv :: "retry_config \<Rightarrow> retry \<Rightarrow> bool" where
  "rt_inv c s = ((rt_timer s = None \<or> rt_flight s = None)
     \<and> (rt_timer s \<noteq> None \<longrightarrow> rt_ctx s \<noteq> None)
     \<and> (rt_disposed s \<longrightarrow> rt_timer s = None \<and> rt_ctx s = None)
     \<and> (case rt_timer s of None \<Rightarrow> True | Some d \<Rightarrow> delay_ok c d)
     \<and> rt_tries s \<le> rc_attempts c)"

lemma note_ctx_fields [simp]:
  "rt_timer (note_ctx f n g s) = rt_timer s" "rt_tries (note_ctx f n g s) = rt_tries s"
  "rt_flight (note_ctx f n g s) = rt_flight s" "rt_disposed (note_ctx f n g s) = rt_disposed s"
  by (auto simp: note_ctx_def split: option.splits)

lemma note_ctx_names: "\<exists>x. rt_ctx (note_ctx f n g s) = Some x \<and> rt_name x = n \<and> rt_gen x = g"
  by (cases "rt_ctx s") (simp_all add: note_ctx_def)

lemma note_ctx_Some [simp]: "\<exists>x. rt_ctx (note_ctx f n g s) = Some x"
  using note_ctx_names by blast

lemma schedule_inv:
  assumes "config_ok c" "env_ok v" "rt_inv c s"
  shows "rt_inv c (snd (retry_schedule c v f n g i s))"
proof -
  have d: "delay_ok c (jittered c (re_random v) (base_delay c i t))" for t
    using assms(1,2) base_delay_bound [OF assms(1)] by (intro jittered_bound) (auto simp: env_ok_def)
  show ?thesis using assms(3) d
    unfolding rt_inv_def retry_schedule_def Let_def retry_inactive_def
    by (auto split: option.splits)
qed

lemma rt_inv_step:
  assumes "config_ok c" "event_ok e" "rt_inv c s"
  shows "rt_inv c (rt_step c s e)"
proof (cases e)
  case (RtSchedule v f n g i)
  then show ?thesis using assms schedule_inv by simp
next
  case (RtFires v)
  then show ?thesis using assms
    by (auto simp: rt_inv_def retry_fires_def retry_inactive_def Let_def split: option.splits)
next
  case (RtFailed v)
  have "rt_inv c (s\<lparr>rt_tries := min (rc_attempts c) (Suc (rt_tries s)), rt_flight := None\<rparr>)"
    using assms(3) by (auto simp: rt_inv_def split: option.splits)
  with RtFailed assms show ?thesis
    by (auto simp: retry_failed_def Let_def intro: schedule_inv split: option.splits)
next
  case (RtResume v)
  then show ?thesis using assms by (auto simp: retry_resume_def intro: schedule_inv split: option.splits)
qed (use assms in \<open>auto simp: rt_inv_def retry_succeeded_def retry_clear_def retry_dispose_def split: option.splits\<close>)

definition rt_guarded :: "retry_config \<Rightarrow> retry \<Rightarrow> retry_event \<Rightarrow> retry" where
  "rt_guarded c s e = (if event_ok e then rt_step c s e else s)"

interpretation rtm: invariant_machine "rt_guarded c" "\<lambda>s. config_ok c \<longrightarrow> rt_inv c s" for c
  by standard (simp add: rt_guarded_def rt_inv_step)

lemma rt_reached:
  assumes "config_ok c" "list_all event_ok es" "rt_inv c s"
  shows "rt_inv c (foldl (rt_step c) s es)"
proof -
  have "foldl (rt_step c) s es = foldl (rt_guarded c) s es"
    using assms(2) by (induction es arbitrary: s) (auto simp: rt_guarded_def)
  then show ?thesis using rtm.inv_run [of c s es] assms by simp
qed

text \<open>
  Whatever happens to the retry lifecycle, no timer waits while a refresh is in flight, a timer
  always has a context to refresh, a disposed lifecycle has neither, and the delay of every retry
  stays within the largest delay and its jitter, however often the refresh has failed.
\<close>

theorem retry_bounded:
  assumes "config_ok c" "list_all event_ok es"
  shows "rt_inv c (foldl (rt_step c) retry_start es)"
  by (rule rt_reached [OF assms]) (simp add: rt_inv_def retry_start_def)

definition demo_retry :: retry_config where
  "demo_retry = \<lparr>rc_base = 500, rc_max = 15000, rc_jitter = 1 / 5, rc_attempts = 20\<rparr>"

definition demo_env :: retry_env where
  "demo_env = \<lparr>re_inactive = False, re_online = True, re_current = (\<lambda>n g. True), re_random = 1\<rparr>"

lemma retry_bounded_witness:
  "rt_inv demo_retry (foldl (rt_step demo_retry) retry_start [RtSchedule demo_env True ''a'' 0 False, RtFires demo_env, RtFailed demo_env])"
  by (rule retry_bounded) (simp_all add: config_ok_def demo_retry_def demo_env_def env_ok_def)

subsection \<open>A failing refresh is retried until it succeeds\<close>

definition running :: "string \<Rightarrow> nat \<Rightarrow> retry \<Rightarrow> bool" where
  "running n g s = (case (rt_flight s, rt_ctx s) of (Some x, Some y) \<Rightarrow>
       rt_uid x = rt_uid y \<and> rt_name y = n \<and> rt_gen y = g \<and> rt_timer s = None \<and> \<not> rt_disposed s
     | _ \<Rightarrow> False)"

definition admits :: "retry_env \<Rightarrow> string \<Rightarrow> nat \<Rightarrow> bool" where
  "admits v n g = (\<not> re_inactive v \<and> re_online v \<and> re_current v n g)"

lemma failed_rearmed:
  assumes "running n g s" "admits v n g" "js_trim n = n"
  shows "rt_timer (retry_failed c v s)
       = Some (jittered c (re_random v) (base_delay c False (min (rc_attempts c) (Suc (rt_tries s)))))
     \<and> rt_tries (retry_failed c v s) = min (rc_attempts c) (Suc (rt_tries s))
     \<and> rt_flight (retry_failed c v s) = None \<and> \<not> rt_disposed (retry_failed c v s)
     \<and> (\<exists>y. rt_ctx (retry_failed c v s) = Some y \<and> rt_name y = n \<and> rt_gen y = g)"
  using assms
  by (auto simp: running_def admits_def retry_failed_def retry_schedule_def retry_inactive_def note_ctx_def Let_def
      split: option.splits)

lemma fires_runs:
  assumes "rt_timer s \<noteq> None" "rt_ctx s = Some y" "rt_name y = n" "rt_gen y = g" "\<not> rt_disposed s" "admits v n g"
  shows "running n g (rt_step c s (RtFires v)) \<and> rt_tries (rt_step c s (RtFires v)) = rt_tries s"
  using assms by (auto simp: retry_fires_def running_def admits_def retry_inactive_def Let_def)

fun retry_turns :: "(retry_env \<times> retry_env) list \<Rightarrow> retry_event list" where
  "retry_turns [] = []"
| "retry_turns ((v, w) # vs) = RtFailed v # RtFires w # retry_turns vs"

text \<open>
  As long as the instance stays the current one and the page is online and active, a refresh that
  fails is retried when its timer fires, any number of times: after every failure the lifecycle is
  running the same refresh again, and the delay follows the number of failures up to its bound.
\<close>

theorem failing_refresh_is_retried:
  assumes "running n g s" "js_trim n = n" "list_all (\<lambda>(v, w). admits v n g \<and> admits w n g) vs"
  shows "running n g (foldl (rt_step c) s (retry_turns vs))
     \<and> (vs \<noteq> [] \<longrightarrow> rt_tries (foldl (rt_step c) s (retry_turns vs))
          = min (rc_attempts c) (rt_tries s + length vs))"
  using assms
proof (induction vs arbitrary: s)
  case (Cons e vs)
  obtain v w where e: "e = (v, w)" by (cases e)
  let ?s = "retry_failed c v s"
  have a: "admits v n g" "admits w n g" using Cons.prems(3) by (simp_all add: e)
  from failed_rearmed [OF Cons.prems(1) a(1) Cons.prems(2)]
  obtain y where f: "rt_timer ?s \<noteq> None" "rt_ctx ?s = Some y" "rt_name y = n" "rt_gen y = g" "\<not> rt_disposed ?s"
    and t: "rt_tries ?s = min (rc_attempts c) (Suc (rt_tries s))" by auto
  note r = fires_runs [OF f a(2), of c]
  have "running n g (foldl (rt_step c) (rt_step c ?s (RtFires w)) (retry_turns vs))
     \<and> (vs \<noteq> [] \<longrightarrow> rt_tries (foldl (rt_step c) (rt_step c ?s (RtFires w)) (retry_turns vs))
          = min (rc_attempts c) (rt_tries (rt_step c ?s (RtFires w)) + length vs))"
    using r Cons.prems(2,3) by (intro Cons.IH) (simp_all add: e)
  then show ?case using r t by (cases "vs = []") (auto simp: e)
qed simp

lemma failing_refresh_is_retried_witness:
  "running ''a'' 0 (foldl (rt_step demo_retry)
      (foldl (rt_step demo_retry) retry_start [RtSchedule demo_env True ''a'' 0 False, RtFires demo_env])
      (retry_turns [(demo_env, demo_env), (demo_env, demo_env)]))"
proof -
  have t: "js_trim ''a'' = ''a''" by (simp add: js_trim_def js_space_def)
  have "running ''a'' 0 (foldl (rt_step demo_retry) retry_start [RtSchedule demo_env True ''a'' 0 False, RtFires demo_env])"
    by (simp add: retry_schedule_def retry_inactive_def note_ctx_def retry_start_def demo_env_def t retry_fires_def running_def
        Let_def)
  from failing_refresh_is_retried [OF this t, of "[(demo_env, demo_env), (demo_env, demo_env)]" demo_retry]
  show ?thesis by (simp add: admits_def demo_env_def)
qed

subsection \<open>A retry asked for while another instance is refreshed\<close>

text \<open>
  While a refresh is in flight, a retry that is asked for another instance is accepted (the answer is
  true) and noted, but nothing remains to run it: when the refresh in flight succeeds the noted
  context is dropped, and when it fails no timer is set.
\<close>

lemma other_schedule:
  assumes "running n g s" "admits v m h" "js_trim m = m" "(m, h) \<noteq> (n, g)" "retry_schedule c v f m h i s = (r, s')"
  shows "r \<and> (\<exists>x y. rt_flight s = Some x \<and> rt_flight s' = Some x \<and> rt_ctx s' = Some y \<and> rt_uid y = rt_next s)
     \<and> rt_timer s' = None"
proof -
  obtain x y where x: "rt_flight s = Some x" "rt_ctx s = Some y" "rt_name y = n" "rt_gen y = g" "\<not> rt_disposed s"
      "rt_timer s = None"
    using assms(1) by (auto simp: running_def split: option.splits)
  have "s' = note_ctx f m h s \<and> r"
    using assms(2,3,5) x by (simp add: retry_schedule_def retry_inactive_def admits_def)
  then show ?thesis using x assms(4) by (auto simp: note_ctx_def)
qed

lemma other_retry_is_lost:
  assumes "running n g s" "admits v m h" "js_trim m = m" "(m, h) \<noteq> (n, g)" "retry_schedule c v f m h i s = (r, s')"
    and fresh: "\<And>x. rt_flight s = Some x \<Longrightarrow> rt_uid x < rt_next s"
  shows "r" "rt_ctx s' \<noteq> None"
    "rt_timer (rt_step c s' RtDone) = None" "rt_flight (rt_step c s' RtDone) = None" "rt_ctx (rt_step c s' RtDone) = None"
    "rt_timer (rt_step c s' (RtFailed w)) = None" "rt_flight (rt_step c s' (RtFailed w)) = None"
proof -
  obtain x y where o: "r" "rt_flight s = Some x" "rt_flight s' = Some x" "rt_ctx s' = Some y" "rt_uid y = rt_next s"
      "rt_timer s' = None"
    using other_schedule [OF assms(1-5)] by blast
  have "rt_uid y \<noteq> rt_uid x" using fresh [OF o(2)] o(5) by simp
  with o show "r" "rt_ctx s' \<noteq> None"
    "rt_timer (rt_step c s' RtDone) = None" "rt_flight (rt_step c s' RtDone) = None" "rt_ctx (rt_step c s' RtDone) = None"
    "rt_timer (rt_step c s' (RtFailed w)) = None" "rt_flight (rt_step c s' (RtFailed w)) = None"
    by (simp_all add: retry_failed_def retry_succeeded_def retry_clear_def)
qed

end
