(* ===== verification/Workspace_Sync.thy ===== *)
theory Workspace_Sync
  imports Workspace_Target Workspace_Retry
begin

section \<open>Keeping the page and the server's workspace in step\<close>

text \<open>
  Model of \<open>workspace/refresh_controller.js\<close> on top of the target, the posted actions and the retry
  lifecycle, with the guards of \<open>apply\<close> in \<open>workspace/state_apply_controller.js\<close> that decide whether an
  answer is applied. A request that awaits an answer is a value of the state; its answer is a later
  event. What is applied to the page is the log.
\<close>

record 'p response =
  rp_selector :: string
  rp_tabs_ok :: bool
  rp_body :: 'p

text \<open>
  How a refresh was started: plainly, through \<open>refreshWithRetry\<close> (with or without an instance named in
  the options), or by the retry timer.
\<close>

datatype refresh_kind = Plain | WithRetry bool | FromTimer

record refresh =
  rr_uid :: nat
  rr_kind :: refresh_kind
  rr_focus :: bool
  rr_name :: string
  rr_gen :: nat
  rr_revision :: nat
  rr_version :: nat

record mem_ctx =
  mc_name :: string
  mc_gen :: nat
  mc_key :: string
  mc_obs :: nat

record mem_loop =
  ml_uid :: nat
  ml_obs :: nat
  ml_revision :: nat
  ml_version :: nat

datatype 'p applied = ByPost mutation 'p | ByRefresh refresh 'p | ByMembership nat 'p

record 'p sync =
  sy_app :: bool
  sy_target :: target
  sy_api :: api
  sy_retry :: retry
  sy_revision :: nat
  sy_disposed :: bool
  sy_apply_off :: bool
  sy_posts :: "mutation list"
  sy_refreshes :: "refresh list"
  sy_member :: "nat option"
  sy_ctxs :: "(nat, mem_ctx) jsmap"
  sy_loops :: "mem_loop list"
  sy_next :: nat
  sy_log :: "'p applied list"

definition sync_start :: "string \<Rightarrow> 'p sync" where
  "sync_start n = \<lparr>sy_app = False, sy_target = tg_start n, sy_api = api_start, sy_retry = retry_start,
     sy_revision = 0, sy_disposed = False, sy_apply_off = False, sy_posts = [], sy_refreshes = [], sy_member = None, sy_ctxs = [], sy_loops = [],
     sy_next = 0, sy_log = []\<rparr>"

definition current :: "'p sync \<Rightarrow> string \<Rightarrow> nat \<Rightarrow> bool" where
  "current s n g = is_current_request (sy_app s) n g (sy_target s)"

definition pending_now :: "'p sync \<Rightarrow> bool" where
  "pending_now s = has_pending (tg_name (sy_target s)) (tg_gen (sy_target s)) (sy_api s)"

definition retry_now :: "'p sync \<Rightarrow> bool \<Rightarrow> rat \<Rightarrow> retry_env" where
  "retry_now s online rnd = \<lparr>re_inactive = sy_disposed s, re_online = online, re_current = current s, re_random = rnd\<rparr>"

subsection \<open>Applying a state\<close>

text \<open>
  The guards of the state application: an answer for another instance is refused, and only an
  answer that passes them advances the revision.
\<close>

definition state_target :: "'p response \<Rightarrow> string \<Rightarrow> string" where
  "state_target r expected = (if js_trim (rp_selector r) \<noteq> [] then js_trim (rp_selector r) else js_trim expected)"

definition apply_state ::
    "'p response \<Rightarrow> string \<Rightarrow> nat \<Rightarrow> 'p applied \<Rightarrow> 'p sync \<Rightarrow> (api_error + bool) \<times> 'p sync" where
  "apply_state r n g entry s = (case ensure_selector (rp_selector r) n of Inl e \<Rightarrow> (Inl e, s)
     | Inr _ \<Rightarrow> if sy_apply_off s \<or> state_target r n = [] \<or> \<not> current s (state_target r n) g then (Inr False, s)
         else (Inr True, s\<lparr>sy_revision := Suc (sy_revision s), sy_log := sy_log s @ [entry]\<rparr>))"

subsection \<open>Posting an action\<close>

definition sync_post :: "'p sync \<Rightarrow> (api_error + mutation) \<times> 'p sync" where
  "sync_post s = (case post_begin (tg_name (sy_target s)) (tg_gen (sy_target s)) (sy_api s) of
       (Inl e, a) \<Rightarrow> (Inl e, s\<lparr>sy_api := a\<rparr>)
     | (Inr m, a) \<Rightarrow> (Inr m, s\<lparr>sy_api := a, sy_posts := sy_posts s @ [m]\<rparr>))"

definition apply_posted :: "mutation \<Rightarrow> 'p response option \<Rightarrow> bool \<Rightarrow> 'p sync \<Rightarrow> 'p sync" where
  "apply_posted m answer apply_response s = (case answer of None \<Rightarrow> s
     | Some r \<Rightarrow> (case post_answer (current s (mu_name m) (mu_gen m)) (rp_selector r) m (sy_api s) of
           Inr True \<Rightarrow> if apply_response
             then snd (apply_state r (mu_name m) (mu_gen m) (ByPost m (rp_body r)) s) else s
         | _ \<Rightarrow> s))"

definition sync_posted :: "mutation \<Rightarrow> 'p response option \<Rightarrow> bool \<Rightarrow> 'p sync \<Rightarrow> 'p sync" where
  "sync_posted m answer apply_response s = (if m \<notin> set (sy_posts s) then s
     else let s1 = apply_posted m answer apply_response s
       in s1\<lparr>sy_api := post_end (current s1 (mu_name m) (mu_gen m)) m (sy_api s1),
             sy_posts := filter (\<lambda>x. mu_uid x \<noteq> mu_uid m) (sy_posts s1)\<rparr>)"

subsection \<open>Refreshing\<close>

definition request_refresh ::
    "refresh_kind \<Rightarrow> bool \<Rightarrow> string \<Rightarrow> nat \<Rightarrow> 'p sync \<Rightarrow> refresh option \<times> 'p sync" where
  "request_refresh kind focus n g s = (if sy_disposed s then (None, s)
     else let r = \<lparr>rr_uid = sy_next s, rr_kind = kind, rr_focus = focus, rr_name = js_trim n, rr_gen = g,
                   rr_revision = sy_revision s, rr_version = wa_version (sy_api s)\<rparr>
          in (Some r, s\<lparr>sy_refreshes := sy_refreshes s @ [r], sy_next := Suc (sy_next s)\<rparr>))"

definition refresh_applies :: "refresh \<Rightarrow> 'p sync \<Rightarrow> bool" where
  "refresh_applies r s = (\<not> sy_disposed s \<and> current s (rr_name r) (rr_gen r)
     \<and> rr_revision r = sy_revision s \<and> rr_version r = wa_version (sy_api s) \<and> \<not> pending_now s)"

definition apply_refresh :: "refresh \<Rightarrow> 'p response \<Rightarrow> 'p sync \<Rightarrow> (api_error + bool) \<times> 'p sync" where
  "apply_refresh r a s = (if \<not> refresh_applies r s then (Inr False, s)
     else case ensure_selector (rp_selector a) (rr_name r) of Inl e \<Rightarrow> (Inl e, s)
       | Inr _ \<Rightarrow> (case apply_state a (rr_name r) (rr_gen r) (ByRefresh r (rp_body a)) s of
           (Inl e, s1) \<Rightarrow> (Inl e, s1)
         | (Inr b, s1) \<Rightarrow> (Inr b, s1\<lparr>sy_retry := retry_clear (sy_retry s1)\<rparr>)))"

text \<open>
  The answer of a refresh: applied, or an error, which \<open>refreshWithRetry\<close> turns into a retry unless the
  agent has to be updated first, and a refresh of the retry timer reports to its lifecycle.
\<close>

datatype 'p answer = Answer "'p response" | Failed bool

definition refresh_ended ::
    "retry_config \<Rightarrow> bool \<Rightarrow> rat \<Rightarrow> refresh \<Rightarrow> api_error + bool \<Rightarrow> bool \<Rightarrow> 'p sync \<Rightarrow> 'p sync" where
  "refresh_ended c online rnd r result update_required s = (case (rr_kind r, result) of
       (Plain, _) \<Rightarrow> s
     | (WithRetry _, Inr _) \<Rightarrow> s
     | (WithRetry named, Inl _) \<Rightarrow> if update_required then s
         else s\<lparr>sy_retry := snd (retry_schedule c (retry_now s online rnd) (rr_focus r)
             (if named then rr_name r else tg_name (sy_target s)) (if named then rr_gen r else tg_gen (sy_target s))
             False (sy_retry s))\<rparr>
     | (FromTimer, Inr _) \<Rightarrow> s\<lparr>sy_retry := retry_succeeded (sy_retry s)\<rparr>
     | (FromTimer, Inl _) \<Rightarrow> s\<lparr>sy_retry := retry_failed c (retry_now s online rnd) (sy_retry s)\<rparr>)"

definition refresh_answered ::
    "retry_config \<Rightarrow> bool \<Rightarrow> rat \<Rightarrow> refresh \<Rightarrow> 'p answer \<Rightarrow> 'p sync \<Rightarrow> 'p sync" where
  "refresh_answered c online rnd r answer s = (if r \<notin> set (sy_refreshes s) then s
     else let s0 = s\<lparr>sy_refreshes := filter (\<lambda>x. rr_uid x \<noteq> rr_uid r) (sy_refreshes s)\<rparr>
       in case answer of
            Failed update \<Rightarrow> refresh_ended c online rnd r (Inl RequestFailed) update s0
          | Answer a \<Rightarrow> (case apply_refresh r a s0 of (result, s1) \<Rightarrow>
              refresh_ended c online rnd r result False s1))"

definition retry_timer_fires :: "bool \<Rightarrow> rat \<Rightarrow> 'p sync \<Rightarrow> 'p sync" where
  "retry_timer_fires online rnd s = (if rt_timer (sy_retry s) = None then s
     else case retry_fires (retry_now s online rnd) (sy_retry s) of
       (None, rt) \<Rightarrow> s\<lparr>sy_retry := rt\<rparr>
     | (Some x, rt) \<Rightarrow> snd (request_refresh FromTimer (rt_focus x) (rt_name x) (rt_gen x) (s\<lparr>sy_retry := rt\<rparr>)))"

subsection \<open>Synchronising the membership\<close>

definition mem_iterate :: "nat \<Rightarrow> nat \<Rightarrow> 'p sync \<Rightarrow> 'p sync" where
  "mem_iterate uid obs s = s\<lparr>sy_loops := sy_loops s @ [\<lparr>ml_uid = uid, ml_obs = obs,
     ml_revision = sy_revision s, ml_version = wa_version (sy_api s)\<rparr>]\<rparr>"

definition sync_membership :: "string \<Rightarrow> nat \<Rightarrow> string \<Rightarrow> 'p sync \<Rightarrow> bool \<times> 'p sync" where
  "sync_membership n g key s =
     (if sy_disposed s \<or> sy_revision s = 0 \<or> \<not> current s n g \<or> pending_now s then (False, s)
      else case sy_member s of
          Some u \<Rightarrow> (case mget (sy_ctxs s) u of
              Some x \<Rightarrow> if mc_name x = n \<and> mc_gen x = g
                then (True, if mc_key x = key then s
                   else s\<lparr>sy_ctxs := mput u (x\<lparr>mc_key := key, mc_obs := Suc (mc_obs x)\<rparr>) (sy_ctxs s)\<rparr>)
                else (True, mem_iterate (sy_next s) 0 (s\<lparr>sy_member := Some (sy_next s), sy_next := Suc (sy_next s),
                   sy_ctxs := mput (sy_next s) \<lparr>mc_name = n, mc_gen = g, mc_key = key, mc_obs = 0\<rparr> (sy_ctxs s)\<rparr>))
            | None \<Rightarrow> (False, s))
        | None \<Rightarrow> (True, mem_iterate (sy_next s) 0 (s\<lparr>sy_member := Some (sy_next s), sy_next := Suc (sy_next s),
                   sy_ctxs := mput (sy_next s) \<lparr>mc_name = n, mc_gen = g, mc_key = key, mc_obs = 0\<rparr> (sy_ctxs s)\<rparr>)))"

definition mem_current :: "nat \<Rightarrow> mem_ctx \<Rightarrow> 'p sync \<Rightarrow> bool" where
  "mem_current u x s = (\<not> sy_disposed s \<and> sy_member s = Some u \<and> current s (mc_name x) (mc_gen x))"

definition mem_fresh :: "mem_loop \<Rightarrow> mem_ctx \<Rightarrow> 'p sync \<Rightarrow> bool" where
  "mem_fresh l x s = (mem_current (ml_uid l) x s \<and> ml_revision l = sy_revision s
     \<and> ml_version l = wa_version (sy_api s) \<and> \<not> pending_now s)"

definition mem_finish :: "nat \<Rightarrow> 'p sync \<Rightarrow> 'p sync" where
  "mem_finish u s = (if sy_member s = Some u then s\<lparr>sy_member := None\<rparr> else s)"

definition membership_answered :: "mem_loop \<Rightarrow> 'p response option \<Rightarrow> 'p sync \<Rightarrow> 'p sync" where
  "membership_answered l answer s = (if l \<notin> set (sy_loops s) then s
     else let s0 = s\<lparr>sy_loops := filter (\<lambda>y. ml_uid y \<noteq> ml_uid l) (sy_loops s)\<rparr>
       in case (mget (sy_ctxs s) (ml_uid l), answer) of
            (Some x, Some a) \<Rightarrow>
              if \<not> mem_fresh l x s0 then mem_finish (ml_uid l) s0
              else if ml_obs l \<noteq> mc_obs x then mem_iterate (ml_uid l) (mc_obs x) s0
              else (case ensure_selector (rp_selector a) (mc_name x) of
                  Inl e \<Rightarrow> mem_finish (ml_uid l) s0
                | Inr _ \<Rightarrow> if \<not> rp_tabs_ok a then mem_finish (ml_uid l) s0
                    else mem_finish (ml_uid l)
                      (snd (apply_state a (mc_name x) (mc_gen x) (ByMembership (ml_uid l) (rp_body a)) s0)))
          | _ \<Rightarrow> mem_finish (ml_uid l) s0)"

definition sync_dispose :: "'p sync \<Rightarrow> 'p sync" where
  "sync_dispose s = (if sy_disposed s then s
     else s\<lparr>sy_disposed := True, sy_member := None, sy_retry := snd (retry_dispose (sy_retry s))\<rparr>)"

subsection \<open>The machine\<close>

datatype 'p sync_event =
    SwTarget target_event
  | SwAppDispose
  | SwPost
  | SwPosted mutation "'p response option" bool
  | SwRefresh refresh_kind bool string nat
  | SwAnswered bool rat refresh "'p answer"
  | SwTimer bool rat
  | SwResume bool rat
  | SwSchedule bool string nat bool bool rat
  | SwMember string nat string
  | SwMemberAnswered mem_loop "'p response option"
  | SwDispose
  | SwApplyDispose
  | SwApiDispose

text \<open>
  A change of target clears the retry and refreshes the new instance, as \<open>switchTo\<close> does through the
  callbacks it is given.
\<close>

fun sync_output :: "'p sync \<Rightarrow> target_out \<Rightarrow> 'p sync" where
  "sync_output s TClearRetry = s\<lparr>sy_retry := retry_clear (sy_retry s)\<rparr>"
| "sync_output s (TRefresh n g) = snd (request_refresh (WithRetry True) True n g s)"
| "sync_output s _ = s"

definition target_outputs :: "target \<Rightarrow> target_event \<Rightarrow> target_out list" where
  "target_outputs s e = (case e of TSet app n \<Rightarrow> snd (snd (set_active_name app n s))
     | TSwitch app n u r \<Rightarrow> snd (snd (switch_to app n u r s)) | TDispose \<Rightarrow> [])"

fun sync_step :: "retry_config \<Rightarrow> 'p sync \<Rightarrow> 'p sync_event \<Rightarrow> 'p sync" where
  "sync_step c s (SwTarget e) = foldl sync_output (s\<lparr>sy_target := tg_step (sy_target s) e\<rparr>) (target_outputs (sy_target s) e)"
| "sync_step c s SwAppDispose = s\<lparr>sy_app := True\<rparr>"
| "sync_step c s SwPost = snd (sync_post s)"
| "sync_step c s (SwPosted m a b) = sync_posted m a b s"
| "sync_step c s (SwRefresh k f n g) = snd (request_refresh k f n g s)"
| "sync_step c s (SwAnswered online rnd r a) = refresh_answered c online rnd r a s"
| "sync_step c s (SwTimer online rnd) = retry_timer_fires online rnd s"
| "sync_step c s (SwResume online rnd) = s\<lparr>sy_retry := snd (retry_resume c (retry_now s online rnd) (sy_retry s))\<rparr>"
| "sync_step c s (SwSchedule f n g i online rnd) =
     s\<lparr>sy_retry := snd (retry_schedule c (retry_now s online rnd) f n g i (sy_retry s))\<rparr>"
| "sync_step c s (SwMember n g k) = snd (sync_membership n g k s)"
| "sync_step c s (SwMemberAnswered l a) = membership_answered l a s"
| "sync_step c s SwDispose = sync_dispose s"
| "sync_step c s SwApplyDispose = s\<lparr>sy_apply_off := True\<rparr>"
| "sync_step c s SwApiDispose = s\<lparr>sy_api := snd (api_dispose (sy_api s))\<rparr>"

lemma apply_state_fields:
  assumes "apply_state r n g entry s = (res, s')"
  shows "sy_target s' = sy_target s" "sy_api s' = sy_api s" "sy_app s' = sy_app s" "sy_retry s' = sy_retry s"
    "sy_disposed s' = sy_disposed s" "sy_member s' = sy_member s" "sy_ctxs s' = sy_ctxs s" "sy_loops s' = sy_loops s"
    "sy_refreshes s' = sy_refreshes s" "sy_posts s' = sy_posts s"
    "sy_revision s' = sy_revision s \<and> sy_log s' = sy_log s
      \<or> sy_revision s' = Suc (sy_revision s) \<and> sy_log s' = sy_log s @ [entry]"
  using assms by (auto simp: apply_state_def split: sum.splits if_splits)

text \<open>
  What an event does to the target and to the posted actions are steps of those components; the log
  only grows, with the revision.
\<close>

definition extends :: "'p sync \<Rightarrow> 'p sync \<Rightarrow> bool" where
  "extends s s' = ((\<exists>es. sy_target s' = foldl tg_step (sy_target s) es)
     \<and> (\<exists>es. sy_api s' = foldl api_step (sy_api s) es)
     \<and> (sy_app s \<longrightarrow> sy_app s')
     \<and> (\<exists>es. sy_log s' = sy_log s @ es \<and> sy_revision s' = sy_revision s + length es))"

lemma extendsI:
  assumes "sy_target s' = foldl tg_step (sy_target s) es1" "sy_api s' = foldl api_step (sy_api s) es2"
    "sy_app s \<longrightarrow> sy_app s'" "sy_log s' = sy_log s @ es3" "sy_revision s' = sy_revision s + length es3"
  shows "extends s s'"
  using assms unfolding extends_def by blast

lemma extends_refl [simp]: "extends s s"
  by (rule extendsI [where ?es1.0 = "[]" and ?es2.0 = "[]" and ?es3.0 = "[]"]) simp_all

lemma extends_trans:
  assumes "extends s t" "extends t u"
  shows "extends s u"
proof -
  obtain a b c where "sy_target t = foldl tg_step (sy_target s) a" "sy_api t = foldl api_step (sy_api s) b"
    "sy_app s \<longrightarrow> sy_app t" "sy_log t = sy_log s @ c" "sy_revision t = sy_revision s + length c"
    using assms(1) by (auto simp: extends_def)
  moreover obtain a' b' c' where "sy_target u = foldl tg_step (sy_target t) a'" "sy_api u = foldl api_step (sy_api t) b'"
    "sy_app t \<longrightarrow> sy_app u" "sy_log u = sy_log t @ c'" "sy_revision u = sy_revision t + length c'"
    using assms(2) by (auto simp: extends_def)
  ultimately show ?thesis
    by (intro extendsI [where ?es1.0 = "a @ a'" and ?es2.0 = "b @ b'" and ?es3.0 = "c @ c'"]) simp_all
qed

lemma extends_same:
  assumes "sy_target s' = sy_target s" "sy_api s' = sy_api s" "sy_app s' = sy_app s"
    "sy_log s' = sy_log s" "sy_revision s' = sy_revision s"
  shows "extends s s'"
  by (rule extendsI [where ?es1.0 = "[]" and ?es2.0 = "[]" and ?es3.0 = "[]"]) (simp_all add: assms)

lemma extends_apply_state:
  assumes "apply_state r n g entry s = (res, s')"
  shows "extends s s'"
  using apply_state_fields [OF assms]
  by (elim disjE conjE)
    (rule extendsI [where ?es1.0 = "[]" and ?es2.0 = "[]" and ?es3.0 = "[]"]
      extendsI [where ?es1.0 = "[]" and ?es2.0 = "[]" and ?es3.0 = "[entry]"]; simp)+

lemma request_fields:
  "sy_target (snd (request_refresh k f n g s)) = sy_target s" "sy_api (snd (request_refresh k f n g s)) = sy_api s"
  "sy_app (snd (request_refresh k f n g s)) = sy_app s" "sy_log (snd (request_refresh k f n g s)) = sy_log s"
  "sy_revision (snd (request_refresh k f n g s)) = sy_revision s"
  by (simp_all add: request_refresh_def Let_def)

lemma refresh_ended_fields:
  "sy_target (refresh_ended c b q r res u s) = sy_target s" "sy_api (refresh_ended c b q r res u s) = sy_api s"
  "sy_app (refresh_ended c b q r res u s) = sy_app s" "sy_log (refresh_ended c b q r res u s) = sy_log s"
  "sy_revision (refresh_ended c b q r res u s) = sy_revision s"
  by (simp_all add: refresh_ended_def split: refresh_kind.splits sum.splits)

lemma mem_fields:
  "sy_target (mem_finish u s) = sy_target s" "sy_api (mem_finish u s) = sy_api s" "sy_app (mem_finish u s) = sy_app s"
  "sy_log (mem_finish u s) = sy_log s" "sy_revision (mem_finish u s) = sy_revision s"
  "sy_target (mem_iterate u k s) = sy_target s" "sy_api (mem_iterate u k s) = sy_api s" "sy_app (mem_iterate u k s) = sy_app s"
  "sy_log (mem_iterate u k s) = sy_log s" "sy_revision (mem_iterate u k s) = sy_revision s"
  by (simp_all add: mem_finish_def mem_iterate_def)

lemma extends_output: "extends s (sync_output s out)"
  by (cases out) (auto intro: extends_same simp: request_fields)

lemma extends_outputs: "extends s (foldl sync_output s outs)"
  by (induction outs arbitrary: s) (auto intro: extends_trans extends_output)

lemma extends_target: "extends s (s\<lparr>sy_target := tg_step (sy_target s) e\<rparr>)"
  by (rule extendsI [where ?es1.0 = "[e]" and ?es2.0 = "[]" and ?es3.0 = "[]"]) simp_all

lemma extends_api:
  assumes "sy_target s' = sy_target s" "sy_api s' = api_step (sy_api s) e" "sy_app s' = sy_app s"
    "sy_log s' = sy_log s" "sy_revision s' = sy_revision s"
  shows "extends s s'"
  by (rule extendsI [where ?es1.0 = "[]" and ?es2.0 = "[e]" and ?es3.0 = "[]"]) (simp_all add: assms)

lemma extends_post: "extends s (snd (sync_post s))"
  by (rule extends_api [where e = "APost (tg_name (sy_target s)) (tg_gen (sy_target s))"])
    (simp_all add: sync_post_def split: prod.splits sum.splits)

lemma extends_apply_snd: "extends s (snd (apply_state r n g entry s))"
  by (rule extends_apply_state) (rule prod.collapse [symmetric])

lemma apply_snd_fields:
  "sy_target (snd (apply_state r n g entry s)) = sy_target s" "sy_api (snd (apply_state r n g entry s)) = sy_api s"
  "sy_app (snd (apply_state r n g entry s)) = sy_app s" "sy_posts (snd (apply_state r n g entry s)) = sy_posts s"
  by (rule apply_state_fields(1,2,3,10) [OF prod.collapse [symmetric]])+

lemma posted_fields:
  "sy_target (apply_posted m a b s) = sy_target s" "sy_api (apply_posted m a b s) = sy_api s"
  "sy_app (apply_posted m a b s) = sy_app s" "sy_posts (apply_posted m a b s) = sy_posts s"
  "extends s (apply_posted m a b s)"
  by (auto simp: apply_posted_def apply_snd_fields extends_apply_snd split: option.splits sum.splits bool.splits)

lemma extends_posted: "extends s (sync_posted m a b s)"
proof (cases "m \<in> set (sy_posts s)")
  case True
  let ?s1 = "apply_posted m a b s"
  have "extends ?s1 (sync_posted m a b s)"
    using True by (intro extends_api [where e = "AEnd (current ?s1 (mu_name m) (mu_gen m)) m"])
      (simp_all add: sync_posted_def Let_def)
  with posted_fields(5) show ?thesis by (rule extends_trans)
qed (simp add: sync_posted_def)

lemma extends_apply_refresh:
  assumes "apply_refresh r a s = (res, s')"
  shows "extends s s'"
proof -
  obtain res1 s1 where a: "apply_state a (rr_name r) (rr_gen r) (ByRefresh r (rp_body a)) s = (res1, s1)" by fastforce
  have "s' = s \<or> s' = s1 \<or> s' = s1\<lparr>sy_retry := retry_clear (sy_retry s1)\<rparr>"
    using assms by (auto simp: apply_refresh_def a split: if_splits sum.splits)
  moreover have "extends s1 (s1\<lparr>sy_retry := retry_clear (sy_retry s1)\<rparr>)" by (rule extends_same) simp_all
  ultimately show ?thesis using extends_apply_state [OF a] by (auto intro: extends_trans)
qed

lemma extends_answered: "extends s (refresh_answered c b q r a s)"
proof (cases "r \<in> set (sy_refreshes s)")
  case True
  let ?s0 = "s\<lparr>sy_refreshes := filter (\<lambda>x. rr_uid x \<noteq> rr_uid r) (sy_refreshes s)\<rparr>"
  have 0: "extends s ?s0" by (rule extends_same) simp_all
  have e: "extends t (refresh_ended c b q r res u t)" for res u and t :: "'a sync"
    by (rule extends_same) (simp_all add: refresh_ended_fields)
  show ?thesis
  proof (cases a)
    case (Answer x)
    obtain res s1 where p: "apply_refresh r x ?s0 = (res, s1)" by fastforce
    have "refresh_answered c b q r a s = refresh_ended c b q r res False s1"
      using True by (simp add: refresh_answered_def Answer p)
    with extends_trans [OF extends_trans [OF 0 extends_apply_refresh [OF p]] e] show ?thesis by simp
  next
    case (Failed u)
    with True extends_trans [OF 0 e] show ?thesis by (simp add: refresh_answered_def)
  qed
qed (simp add: refresh_answered_def)

lemma extends_member: "extends s (snd (sync_membership n g k s))"
  by (rule extends_same) (auto simp: sync_membership_def mem_fields split: option.splits)

lemma extends_finish: "extends s t \<Longrightarrow> extends s (mem_finish u t)"
  by (erule extends_trans, rule extends_same) (simp_all add: mem_fields)

lemma extends_iterate: "extends s t \<Longrightarrow> extends s (mem_iterate u k t)"
  by (erule extends_trans, rule extends_same) (simp_all add: mem_fields)

lemma extends_membership: "extends s (membership_answered l a s)"
proof -
  have "extends s (s\<lparr>sy_loops := filter (\<lambda>y. ml_uid y \<noteq> ml_uid l) (sy_loops s)\<rparr>)" by (rule extends_same) simp_all
  moreover from this have "extends s (snd (apply_state r n g entry (s\<lparr>sy_loops := filter (\<lambda>y. ml_uid y \<noteq> ml_uid l) (sy_loops s)\<rparr>)))"
    for r n g entry by (rule extends_trans [OF _ extends_apply_snd])
  ultimately show ?thesis
    by (auto simp: membership_answered_def Let_def intro!: extends_finish extends_iterate split: option.splits sum.splits)
qed

lemma extends_step: "extends s (sync_step c s e)"
proof (cases e)
  case (SwTarget e')
  then show ?thesis using extends_trans [OF extends_target extends_outputs] by simp
next
  case SwAppDispose
  then show ?thesis by (auto intro: extendsI [where ?es1.0 = "[]" and ?es2.0 = "[]" and ?es3.0 = "[]"])
next
  case (SwTimer b q)
  then show ?thesis
    by (auto simp: retry_timer_fires_def request_fields intro: extends_same split: option.splits prod.splits)
next
  case SwApiDispose
  then show ?thesis by (auto intro: extends_api [where e = ADispose])
qed (auto intro: extends_same extends_post extends_posted extends_answered extends_member extends_membership
    simp: request_fields sync_dispose_def)

lemma extends_run: "extends s (foldl (sync_step c) s es)"
  by (induction es arbitrary: s) (auto intro: extends_trans extends_step)

subsection \<open>Answers that overlap a change are not applied\<close>

lemma tg_step_same:
  assumes "tg_gen (tg_step t e) = tg_gen t"
  shows "tg_name (tg_step t e) = tg_name t \<and> tl_disposed (tg_life (tg_step t e)) = tl_disposed (tg_life t)
     \<and> (tg_disposed t \<longrightarrow> tg_disposed (tg_step t e))"
  using assms by (cases e) (auto simp: target_defs Let_def split: if_splits)

lemma tg_run_same:
  assumes "tg_gen (foldl tg_step t es) = tg_gen t"
  shows "tg_name (foldl tg_step t es) = tg_name t \<and> tl_disposed (tg_life (foldl tg_step t es)) = tl_disposed (tg_life t)
     \<and> (tg_disposed t \<longrightarrow> tg_disposed (foldl tg_step t es))"
  using assms
proof (induction es arbitrary: t)
  case (Cons e es)
  have "tg_gen t \<le> tg_gen (tg_step t e)" by (rule tgg.gen_mono)
  moreover have "tg_gen (tg_step t e) \<le> tg_gen (foldl tg_step (tg_step t e) es)" by (rule tgg.gen_run_mono)
  ultimately have e: "tg_gen (tg_step t e) = tg_gen t" "tg_gen (foldl tg_step (tg_step t e) es) = tg_gen (tg_step t e)"
    using Cons.prems by simp_all
  from tg_step_same [OF e(1)] Cons.IH [OF e(2)] show ?case by simp
qed simp

lemma extends_gen: "extends s s' \<Longrightarrow> tg_gen (sy_target s) \<le> tg_gen (sy_target s')"
  by (auto simp: extends_def tgg.gen_run_mono)

lemma extends_version: "extends s s' \<Longrightarrow> wa_version (sy_api s) \<le> wa_version (sy_api s')"
  by (auto simp: extends_def apg.gen_run_mono)

lemma extends_pending_ok: "extends s s' \<Longrightarrow> pending_ok (sy_api s) \<Longrightarrow> pending_ok (sy_api s')"
  by (auto simp: extends_def apo.inv_run)

lemma current_before:
  assumes "extends s s'" "current s' n g" "tg_gen (sy_target s) = g"
  shows "current s n g \<and> tg_name (sy_target s) = tg_name (sy_target s')"
proof -
  obtain es where t: "sy_target s' = foldl tg_step (sy_target s) es" using assms(1) by (auto simp: extends_def)
  have "tg_gen (sy_target s') = tg_gen (sy_target s)"
    using assms(2,3) by (simp add: current_def is_current_request_def tl_is_current_def)
  with tg_run_same [of "sy_target s" es] have "tg_name (sy_target s') = tg_name (sy_target s)"
    "tl_disposed (tg_life (sy_target s')) = tl_disposed (tg_life (sy_target s))"
    "tg_disposed (sy_target s) \<longrightarrow> tg_disposed (sy_target s')" by (simp_all add: t)
  moreover have "sy_app s \<longrightarrow> sy_app s'" using assms(1) by (simp add: extends_def)
  ultimately show ?thesis
    using assms(2,3) by (auto simp: current_def is_current_request_def tl_is_current_def)
qed

lemma sync_step_api:
  "sy_api (sync_step c s e) = (case e of
       SwPost \<Rightarrow> snd (post_begin (tg_name (sy_target s)) (tg_gen (sy_target s)) (sy_api s))
     | SwPosted m a b \<Rightarrow> (if m \<in> set (sy_posts s) then post_end (current s (mu_name m) (mu_gen m)) m (sy_api s) else sy_api s)
     | SwApiDispose \<Rightarrow> snd (api_dispose (sy_api s))
     | _ \<Rightarrow> sy_api s)"
proof (cases e)
  case (SwTarget e')
  have "sy_api (sync_output t out) = sy_api t" for t :: "'a sync" and out by (cases out) (simp_all add: request_fields)
  then have "sy_api (foldl sync_output t outs) = sy_api t" for t :: "'a sync" and outs by (induction outs arbitrary: t) simp_all
  with SwTarget show ?thesis by simp
next
  case (SwPosted m a b)
  have "current (apply_posted m a b s) = current s" by (simp add: current_def posted_fields fun_eq_iff)
  with SwPosted show ?thesis by (simp add: sync_posted_def posted_fields Let_def)
next
  case (SwAnswered b q r a)
  have "sy_api (snd (apply_refresh r x t)) = sy_api t" for r x and t :: "'a sync"
    by (auto simp: apply_refresh_def apply_snd_fields split: sum.splits prod.splits dest: apply_state_fields(2))
  from this [of r] have "apply_refresh r x t = (res, u) \<Longrightarrow> sy_api u = sy_api t" for x res and t u :: "'a sync"
    by (metis snd_conv)
  with SwAnswered show ?thesis
    by (auto simp: refresh_answered_def Let_def refresh_ended_fields split: answer.splits prod.splits)
next
  case (SwTimer b q)
  then show ?thesis by (simp add: retry_timer_fires_def request_fields split: option.splits prod.splits)
next
  case (SwMember n g k)
  then show ?thesis by (simp add: sync_membership_def mem_fields split: option.splits)
next
  case (SwMemberAnswered l a)
  then show ?thesis by (simp add: membership_answered_def mem_fields apply_snd_fields Let_def split: option.splits sum.splits)
qed (simp_all add: sync_post_def request_fields sync_dispose_def split: prod.splits sum.splits)

lemma sync_step_posts:
  "sy_posts (sync_step c s e) = (case e of
       SwPost \<Rightarrow> (case fst (post_begin (tg_name (sy_target s)) (tg_gen (sy_target s)) (sy_api s)) of
           Inl _ \<Rightarrow> sy_posts s | Inr m \<Rightarrow> sy_posts s @ [m])
     | SwPosted m a b \<Rightarrow> (if m \<in> set (sy_posts s) then filter (\<lambda>x. mu_uid x \<noteq> mu_uid m) (sy_posts s) else sy_posts s)
     | _ \<Rightarrow> sy_posts s)"
proof (cases e)
  case (SwTarget e')
  have "sy_posts (sync_output t out) = sy_posts t" for t :: "'a sync" and out
    by (cases out) (simp_all add: request_refresh_def Let_def)
  then have "sy_posts (foldl sync_output t outs) = sy_posts t" for t :: "'a sync" and outs by (induction outs arbitrary: t) simp_all
  with SwTarget show ?thesis by simp
next
  case (SwPosted m a b)
  then show ?thesis by (simp add: sync_posted_def posted_fields Let_def)
next
  case (SwAnswered b q r a)
  have "sy_posts (snd (apply_refresh r x t)) = sy_posts t" for r x and t :: "'a sync"
    by (auto simp: apply_refresh_def apply_snd_fields split: sum.splits prod.splits dest: apply_state_fields(10))
  from this [of r] have "apply_refresh r x t = (res, u) \<Longrightarrow> sy_posts u = sy_posts t" for x res and t u :: "'a sync"
    by (metis snd_conv)
  moreover have "sy_posts (refresh_ended c b q r res w t) = sy_posts t" for res w and t :: "'a sync"
    by (simp add: refresh_ended_def split: refresh_kind.splits sum.splits)
  ultimately show ?thesis using SwAnswered
    by (auto simp: refresh_answered_def Let_def split: answer.splits prod.splits)
next
  case (SwTimer b q)
  then show ?thesis by (simp add: retry_timer_fires_def request_refresh_def Let_def split: option.splits prod.splits)
next
  case (SwMember n g k)
  then show ?thesis by (simp add: sync_membership_def mem_iterate_def split: option.splits)
next
  case (SwMemberAnswered l a)
  then show ?thesis
    by (simp add: membership_answered_def mem_finish_def mem_iterate_def apply_snd_fields Let_def split: option.splits sum.splits)
qed (simp_all add: sync_post_def request_refresh_def sync_dispose_def Let_def split: prod.splits sum.splits)

definition posts_ok :: "'p sync \<Rightarrow> bool" where
  "posts_ok s = (pending_ok (sy_api s) \<and> set (wa_pending (sy_api s)) \<subseteq> set (sy_posts s)
     \<and> distinct (map mu_uid (sy_posts s)) \<and> (\<forall>m \<in> set (sy_posts s). mu_uid m < wa_next (sy_api s)))"

lemma posts_okD: "posts_ok s \<Longrightarrow> m \<in> set (sy_posts s) \<Longrightarrow> x \<in> set (wa_pending (sy_api s)) \<Longrightarrow> mu_uid x = mu_uid m \<Longrightarrow> x = m"
  unfolding posts_ok_def by (metis distinct_map inj_onD subsetD)

lemma posts_ok_step: "posts_ok s \<Longrightarrow> posts_ok (sync_step c s e)"
proof -
  assume ok: "posts_ok s"
  let ?s = "sync_step c s e"
  have "pending_ok (sy_api ?s)" using ok extends_pending_ok [OF extends_step] by (auto simp: posts_ok_def)
  moreover have "set (wa_pending (sy_api ?s)) \<subseteq> set (sy_posts ?s) \<and> distinct (map mu_uid (sy_posts ?s))
     \<and> (\<forall>m \<in> set (sy_posts ?s). mu_uid m < wa_next (sy_api ?s))"
  proof (cases "\<exists>m a b. e = SwPosted m a b")
    case True
    then obtain m a b where e: "e = SwPosted m a b" by blast
    show ?thesis using ok unfolding sync_step_api sync_step_posts e
      by (auto simp: posts_ok_def post_end_def Let_def distinct_map intro: inj_on_subset)
  next
    case False
    then show ?thesis using ok unfolding sync_step_api sync_step_posts
      by (cases e) (auto simp: posts_ok_def post_begin_def api_dispose_def Let_def less_Suc_eq split: sum.splits)
  qed
  ultimately show ?thesis by (simp add: posts_ok_def)
qed

interpretation sy: invariant_machine "sync_step c" posts_ok for c
  by standard (rule posts_ok_step)

lemma posts_ok_start: "posts_ok (sync_start n)"
  by (simp add: posts_ok_def sync_start_def api_start_def pending_ok_def)

lemma pending_leaves:
  assumes "posts_ok s" "current s n g" "has_pending n g (sy_api s)" "\<not> has_pending n g (sy_api (sync_step c s e))"
    "js_trim n = n"
  shows "wa_version (sy_api s) < wa_version (sy_api (sync_step c s e))"
proof -
  have nd: "\<not> wa_disposed (sy_api s)" using assms(1,3) by (auto simp: posts_ok_def pending_ok_def has_pending_def)
  define a where "a = sy_api (sync_step c s e)"
  note a = a_def [unfolded sync_step_api]
  have np: "\<not> has_pending n g a" using assms(4) by (simp add: a_def)
  have "wa_version (sy_api s) < wa_version a"
  proof (cases e)
    case SwPost
    with assms(3) np show ?thesis by (auto simp: a post_begin_def has_pending_def Let_def split: sum.splits)
  next
    case (SwPosted m an b)
    have m: "m \<in> set (sy_posts s)" and a': "a = post_end (current s (mu_name m) (mu_gen m)) m (sy_api s)"
      using assms(3) np SwPosted by (auto simp: a split: if_splits)
    obtain x where x: "x \<in> set (wa_pending (sy_api s))" "mu_name x = n" "mu_gen x = g"
      using assms(3) by (auto simp: has_pending_def list_ex_iff)
    have "mu_uid x = mu_uid m" using np x by (auto simp: a' post_end_def has_pending_def list_ex_iff Let_def)
    from posts_okD [OF assms(1) m x(1) this] x have "current s (mu_name m) (mu_gen m)" using assms(2) by simp
    with nd show ?thesis by (simp add: a' post_end_def Let_def)
  next
    case SwApiDispose
    with nd show ?thesis by (simp add: a api_dispose_def)
  qed (use assms(3) np in \<open>auto simp: a\<close>)
  then show ?thesis by (simp add: a_def)
qed

lemma never_pending:
  assumes "posts_ok s" "js_trim n = n" "s' = foldl (sync_step c) s es" "current s' n g" "tg_gen (sy_target s) = g"
    "wa_version (sy_api s) = wa_version (sy_api s')" "\<not> has_pending n g (sy_api s')"
  shows "\<not> has_pending n g (sy_api s)"
  using assms
proof (induction es arbitrary: s)
  case (Cons e es)
  let ?t = "sync_step c s e"
  have s': "s' = foldl (sync_step c) ?t es" using Cons.prems(3) by simp
  have ext: "extends s ?t" "extends ?t s'" "extends s s'"
    using extends_step extends_run [of ?t c es] extends_run [of s c "e # es"] s' by simp_all
  have cur: "current s n g" using current_before [OF ext(3) Cons.prems(4,5)] by simp
  have g: "tg_gen (sy_target s') = g" using Cons.prems(4) by (simp add: current_def is_current_request_def tl_is_current_def)
  have gt: "tg_gen (sy_target ?t) = g" using extends_gen [OF ext(1)] extends_gen [OF ext(2)] g Cons.prems(5) by simp
  have v: "wa_version (sy_api s) = wa_version (sy_api ?t)" "wa_version (sy_api ?t) = wa_version (sy_api s')"
    using extends_version [OF ext(1)] extends_version [OF ext(2)] Cons.prems(6) by simp_all
  have "\<not> has_pending n g (sy_api ?t)"
    by (rule Cons.IH [OF posts_ok_step [OF Cons.prems(1)] Cons.prems(2) s' Cons.prems(4) gt v(2) Cons.prems(7)])
  then show ?case using pending_leaves [OF Cons.prems(1) cur _ _ Cons.prems(2)] v(1) by fastforce
qed simp

lemma tg_name_trim:
  assumes "current s n g"
  shows "js_trim (tg_name (sy_target s)) = tg_name (sy_target s)" "g = tg_gen (sy_target s)" "tg_name (sy_target s) = js_trim n"
  using assms by (auto simp: current_def is_current_request_def tl_is_current_def dest: sym)

text \<open>What the checks before an answer is applied exclude.\<close>

lemma no_overlap:
  assumes "posts_ok s" "s' = foldl (sync_step c) s es" "current s n g" "current s' m g"
    "sy_revision s = sy_revision s'" "wa_version (sy_api s) = wa_version (sy_api s')" "\<not> pending_now s'"
  shows "sy_log s' = sy_log s \<and> (\<forall>k. \<not> pending_now (foldl (sync_step c) s (take k es)))"
proof
  have "extends s s'" unfolding assms(2) by (rule extends_run)
  then show "sy_log s' = sy_log s" using assms(5) by (auto simp: extends_def)
  show "\<forall>k. \<not> pending_now (foldl (sync_step c) s (take k es))"
  proof
    fix k
    let ?t = "foldl (sync_step c) s (take k es)"
    have s': "s' = foldl (sync_step c) ?t (drop k es)"
      unfolding assms(2) by (metis append_take_drop_id foldl_append)
    have ext: "extends s ?t" "extends ?t s'" using extends_run s' by metis+
    have g: "tg_gen (sy_target ?t) = g"
      using extends_gen [OF ext(1)] extends_gen [OF ext(2)] tg_name_trim(2) [OF assms(3)] tg_name_trim(2) [OF assms(4)] by simp
    have v: "wa_version (sy_api ?t) = wa_version (sy_api s')"
      using extends_version [OF ext(1)] extends_version [OF ext(2)] assms(6) by simp
    let ?n = "tg_name (sy_target s')"
    note tn = tg_name_trim [OF assms(4)]
    have "current s' ?n g" using assms(4) tn by (simp add: current_def is_current_request_def tl_is_current_def)
    moreover have "\<not> has_pending ?n g (sy_api s')" using assms(7) tn(2) by (simp add: pending_now_def)
    ultimately have "\<not> has_pending ?n g (sy_api ?t)"
      using never_pending [OF sy.inv_run [OF assms(1)] tn(1) s' _ g v] by simp
    then show "\<not> pending_now ?t"
      using current_before [OF ext(2) assms(4) g] g by (simp add: pending_now_def)
  qed
qed

text \<open>An answer that is applied has met the guards.\<close>

lemma apply_state_log: "apply_state r n g entry s = (res, s') \<Longrightarrow> sy_log s' = sy_log s \<or> sy_log s' = sy_log s @ [entry]"
  using apply_state_fields(11) by blast

lemma applies_cong:
  "\<lbrakk>sy_disposed t = sy_disposed s; sy_target t = sy_target s; sy_app t = sy_app s; sy_revision t = sy_revision s; sy_api t = sy_api s\<rbrakk>
   \<Longrightarrow> refresh_applies r t = refresh_applies r s"
  by (simp add: refresh_applies_def current_def pending_now_def)

lemma answered_applies:
  assumes "sy_log (refresh_answered c online rnd r answer s) \<noteq> sy_log s"
  obtains body where "refresh_applies r s" "sy_log (refresh_answered c online rnd r answer s) = sy_log s @ [ByRefresh r body]"
proof -
  let ?s0 = "s\<lparr>sy_refreshes := filter (\<lambda>x. rr_uid x \<noteq> rr_uid r) (sy_refreshes s)\<rparr>"
  have r: "r \<in> set (sy_refreshes s)" by (rule ccontr) (use assms in \<open>simp add: refresh_answered_def\<close>)
  obtain a where a: "answer = Answer a"
    using assms r by (cases answer) (simp_all add: refresh_answered_def refresh_ended_fields)
  obtain res s1 where p: "apply_refresh r a ?s0 = (res, s1)" by force
  have log: "sy_log (refresh_answered c online rnd r answer s) = sy_log s1" using r a p by (simp add: refresh_answered_def refresh_ended_fields)
  have ok: "refresh_applies r ?s0" using p assms log by (auto simp: apply_refresh_def split: if_splits)
  obtain res' s2 where q: "apply_state a (rr_name r) (rr_gen r) (ByRefresh r (rp_body a)) ?s0 = (res', s2)" by force
  have "sy_log s1 = sy_log ?s0 \<or> sy_log s1 = sy_log s2" using p ok q by (auto simp: apply_refresh_def split: sum.splits)
  then have "sy_log s1 = sy_log s @ [ByRefresh r (rp_body a)]" using apply_state_log [OF q] assms log by auto
  moreover have "refresh_applies r s" using ok applies_cong [of ?s0 s r] by simp
  ultimately show ?thesis using that log by simp
qed

text \<open>
  C35. A refreshed workspace is applied only if nothing else happened to the workspace while it was
  fetched: when the answer to a refresh of the shown instance adds to what was applied, no other state was applied from the
  request to the answer, and at no moment between was an action of the shown instance posted and not yet answered. So a refresh
  never overwrites a change of the user with a state that was read before it.
\<close>

theorem refresh_never_overlaps_change:
  assumes "s = foldl (sync_step c) (sync_start n0) es0" "current s n g"
    and "request_refresh kind focus n g s = (Some r, s1)"
    and "s2 = foldl (sync_step c) s1 es" "s3 = sync_step c s2 (SwAnswered online rnd r answer)" "sy_log s3 \<noteq> sy_log s2"
  shows "sy_log s2 = sy_log s1 \<and> (\<forall>k. \<not> pending_now (foldl (sync_step c) s1 (take k es))) \<and> (\<exists>body. sy_log s3 = sy_log s1 @ [ByRefresh r body])"
proof -
  have s3: "s3 = refresh_answered c online rnd r answer s2" using assms(5) by simp
  obtain body where a: "refresh_applies r s2" "sy_log s3 = sy_log s2 @ [ByRefresh r body]"
    using assms(6) unfolding s3 by (rule answered_applies)
  have r: "rr_gen r = g" "rr_revision r = sy_revision s1" "rr_version r = wa_version (sy_api s1)" and s1: "s1 = sync_step c s (SwRefresh kind focus n g)"
    using assms(3) by (auto simp: request_refresh_def Let_def split: if_splits)
  have ok: "posts_ok s1" unfolding s1 assms(1) by (intro posts_ok_step sy.inv_run posts_ok_start)
  have cur: "current s1 n g" using assms(2,3) by (auto simp: request_refresh_def current_def Let_def split: if_splits)
  have "sy_log s2 = sy_log s1 \<and> (\<forall>k. \<not> pending_now (foldl (sync_step c) s1 (take k es)))"
    by (rule no_overlap [of s1 s2 c es n g "rr_name r", OF ok assms(4) cur]) (use a(1) r in \<open>simp_all add: refresh_applies_def\<close>)
  then show ?thesis using a(2) by simp
qed

lemma refresh_never_overlaps_change_witness:
  "\<exists>r s1 s3 body. request_refresh Plain True ''a'' 0 (sync_start ''a'' :: nat sync) = (Some r, s1)
     \<and> s3 = foldl (sync_step demo_retry) s1 [SwSchedule True ''a'' 0 False True 0,
         SwAnswered True 0 r (Answer \<lparr>rp_selector = ''a'', rp_tabs_ok = True, rp_body = 7\<rparr>)]
     \<and> sy_log s3 = sy_log s1 @ [ByRefresh r body]"
proof -
  let ?s = "sync_start ''a'' :: nat sync"
  let ?a = "Answer \<lparr>rp_selector = ''a'', rp_tabs_ok = True, rp_body = 7\<rparr> :: nat answer"
  obtain r s1 where q: "request_refresh Plain True ''a'' 0 ?s = (Some r, s1)"
    by (simp add: request_refresh_def sync_start_def Let_def)
  let ?s2 = "sync_step demo_retry s1 (SwSchedule True ''a'' 0 False True 0)"
  let ?s3 = "sync_step demo_retry ?s2 (SwAnswered True 0 r ?a)"
  have t: "js_trim ''a'' = ''a''" by (simp add: js_trim_def js_space_def)
  note defs = request_refresh_def sync_start_def Let_def refresh_applies_def current_def pending_now_def
        is_current_request_def tl_is_current_def tg_start_def tl_start_def has_pending_def api_start_def
  have "current ?s ''a'' 0" "sy_log ?s3 \<noteq> sy_log ?s2"
    using q by (auto simp: defs t refresh_answered_def apply_refresh_def ensure_selector_def apply_state_def state_target_def refresh_ended_def)
  with refresh_never_overlaps_change [of ?s demo_retry "''a''" "[]" "''a''" 0 Plain True r s1 ?s2 "[SwSchedule True ''a'' 0 False True 0]" ?s3 True 0 ?a] q
  show ?thesis by auto
qed

subsection \<open>The membership that is applied\<close>

text \<open>The observations of a context only grow, and as long as their number stays, so does the key.\<close>

definition obs_le :: "mem_ctx option \<Rightarrow> mem_ctx option \<Rightarrow> bool" where
  "obs_le a b = (case a of None \<Rightarrow> True
     | Some x \<Rightarrow> (case b of None \<Rightarrow> False
         | Some y \<Rightarrow> mc_name y = mc_name x \<and> mc_gen y = mc_gen x \<and> (mc_obs x < mc_obs y \<or> y = x)))"

lemma obs_le_refl [simp]: "obs_le a a"
  by (simp add: obs_le_def split: option.splits)

lemma obs_le_trans: "obs_le a b \<Longrightarrow> obs_le b c \<Longrightarrow> obs_le a c"
  by (auto simp: obs_le_def split: option.splits)

abbreviation observed :: "nat \<Rightarrow> 'p sync \<Rightarrow> mem_ctx option" where
  "observed u s \<equiv> mget (sy_ctxs s) u"

definition ctxs_ok :: "'p sync \<Rightarrow> bool" where
  "ctxs_ok s = (\<forall>u. sy_next s \<le> u \<longrightarrow> mget (sy_ctxs s) u = None)"

lemma sync_step_ctxs:
  "(\<nexists>n g k. e = SwMember n g k) \<Longrightarrow> sy_ctxs (sync_step c s e) = sy_ctxs s \<and> sy_next s \<le> sy_next (sync_step c s e)"
proof (cases e)
  case (SwTarget e')
  have "sy_ctxs (sync_output t out) = sy_ctxs t \<and> sy_next t \<le> sy_next (sync_output t out)" for t :: "'a sync" and out
    by (cases out) (simp_all add: request_refresh_def Let_def)
  then have "sy_ctxs (foldl sync_output t outs) = sy_ctxs t \<and> sy_next t \<le> sy_next (foldl sync_output t outs)"
    for t :: "'a sync" and outs
    by (induction outs arbitrary: t) (simp, metis foldl_Cons order_trans)
  from this [of "s\<lparr>sy_target := tg_step (sy_target s) e'\<rparr>"] SwTarget show ?thesis by simp
next
  case (SwPosted m a b)
  have "sy_next (snd (apply_state r n g entry t)) = sy_next t" for r n g entry and t :: "'a sync"
    by (simp add: apply_state_def split: sum.splits)
  moreover have "sy_ctxs (snd (apply_state r n g entry t)) = sy_ctxs t" for r n g entry and t :: "'a sync"
    by (rule apply_state_fields(7) [OF prod.collapse [symmetric]])
  ultimately show ?thesis using SwPosted
    by (simp add: sync_posted_def apply_posted_def Let_def split: option.splits sum.splits bool.splits)
next
  case (SwAnswered b q r a)
  have "sy_ctxs (snd (apply_refresh r x t)) = sy_ctxs t \<and> sy_next (snd (apply_refresh r x t)) = sy_next t" for r x and t :: "'a sync"
    by (auto simp: apply_refresh_def apply_state_def split: sum.splits prod.splits if_splits)
  from this [of r] have "apply_refresh r x t = (res, u) \<Longrightarrow> sy_ctxs u = sy_ctxs t \<and> sy_next u = sy_next t" for x res and t u :: "'a sync"
    by (metis snd_conv)
  moreover have "sy_ctxs (refresh_ended c b q r res w t) = sy_ctxs t \<and> sy_next (refresh_ended c b q r res w t) = sy_next t"
    for res w and t :: "'a sync"
    by (simp add: refresh_ended_def split: refresh_kind.splits sum.splits)
  ultimately show ?thesis using SwAnswered
    by (auto simp: refresh_answered_def Let_def split: answer.splits prod.splits)
next
  case (SwTimer b q)
  then show ?thesis by (simp add: retry_timer_fires_def request_refresh_def Let_def split: option.splits prod.splits)
next
  case (SwMemberAnswered l a)
  then show ?thesis
    by (simp add: membership_answered_def mem_finish_def mem_iterate_def apply_state_def Let_def split: option.splits sum.splits)
qed (simp_all add: sync_post_def request_refresh_def sync_dispose_def Let_def split: prod.splits sum.splits)

lemma member_ctxs:
  "ctxs_ok s \<Longrightarrow> ctxs_ok (snd (sync_membership n g k s)) \<and> obs_le (observed u s) (observed u (snd (sync_membership n g k s)))"
  by (auto simp: ctxs_ok_def sync_membership_def mem_iterate_def om.get_put obs_le_def split: option.splits)

lemma ctxs_step: "ctxs_ok s \<Longrightarrow> ctxs_ok (sync_step c s e) \<and> obs_le (observed u s) (observed u (sync_step c s e))"
proof (cases "\<exists>n g k. e = SwMember n g k")
  case True
  moreover assume ok: "ctxs_ok s"
  ultimately show ?thesis using member_ctxs [OF ok] by auto
next
  case False
  moreover assume "ctxs_ok s"
  ultimately show ?thesis using sync_step_ctxs [of e c s] by (auto simp: ctxs_ok_def)
qed

interpretation syc: invariant_machine "sync_step c" ctxs_ok for c
  by standard (simp add: ctxs_step)

lemma observed_run: "ctxs_ok s \<Longrightarrow> obs_le (observed u s) (observed u (foldl (sync_step c) s es))"
proof (induction es arbitrary: s)
  case (Cons e es)
  note st = ctxs_step [OF Cons.prems, of c e]
  from obs_le_trans [OF conjunct2 [OF st] Cons.IH [OF conjunct1 [OF st]]] show ?case by simp
qed simp

text \<open>A fetch of the membership starts with what it will be compared with.\<close>

lemma new_loop:
  assumes "l \<notin> set (sy_loops s)" "l \<in> set (sy_loops (sync_step c s e))" "observed (ml_uid l) (sync_step c s e) = Some x"
  shows "ml_obs l = mc_obs x \<and> ml_revision l = sy_revision (sync_step c s e)
     \<and> ml_version l = wa_version (sy_api (sync_step c s e)) \<and> current (sync_step c s e) (mc_name x) (mc_gen x)"
proof (cases e)
  case (SwTarget e')
  have "sy_loops (sync_output t out) = sy_loops t" for t :: "'a sync" and out
    by (cases out) (simp_all add: request_refresh_def Let_def)
  then have "sy_loops (foldl sync_output t outs) = sy_loops t" for t :: "'a sync" and outs by (induction outs arbitrary: t) simp_all
  with SwTarget assms(1,2) show ?thesis by simp
next
  case (SwPosted m a b)
  have "sy_loops (snd (apply_state r n g entry t)) = sy_loops t" for r n g entry and t :: "'a sync"
    by (rule apply_state_fields(8) [OF prod.collapse [symmetric]])
  then have "sy_loops (apply_posted m a b s) = sy_loops s"
    by (simp add: apply_posted_def split: option.splits sum.splits bool.splits)
  with SwPosted assms(1,2) show ?thesis by (simp add: sync_posted_def Let_def split: if_splits)
next
  case (SwAnswered b q r a)
  have "sy_loops (snd (apply_refresh r x t)) = sy_loops t" for r x and t :: "'a sync"
    by (auto simp: apply_refresh_def apply_state_def split: sum.splits prod.splits if_splits)
  from this [of r] have "apply_refresh r x t = (res, u) \<Longrightarrow> sy_loops u = sy_loops t" for x res and t u :: "'a sync"
    by (metis snd_conv)
  moreover have "sy_loops (refresh_ended c b q r res w t) = sy_loops t" for res w and t :: "'a sync"
    by (simp add: refresh_ended_def split: refresh_kind.splits sum.splits)
  ultimately have "sy_loops (refresh_answered c b q r a s) = sy_loops s"
    by (auto simp: refresh_answered_def Let_def split: answer.splits prod.splits)
  with SwAnswered assms(1,2) show ?thesis by simp
next
  case (SwTimer b q)
  then show ?thesis using assms(1,2)
    by (auto simp: retry_timer_fires_def request_refresh_def Let_def split: option.splits prod.splits if_splits)
next
  case (SwMember n g k)
  then show ?thesis using assms
    by (auto simp: sync_membership_def mem_iterate_def current_def om.get_put split: option.splits if_splits)
next
  case (SwMemberAnswered l' a)
  have "sy_loops (snd (apply_state r n g entry t)) = sy_loops t" for r n g entry and t :: "'a sync"
    by (rule apply_state_fields(8) [OF prod.collapse [symmetric]])
  then show ?thesis using assms SwMemberAnswered
    by (auto simp: membership_answered_def mem_iterate_def mem_finish_def mem_fresh_def mem_current_def current_def Let_def
        split: option.splits if_splits sum.splits)
qed (use assms(1,2) in \<open>auto simp: sync_post_def request_refresh_def sync_dispose_def Let_def split: prod.splits sum.splits if_splits\<close>)

lemma ctxs_ok_start: "ctxs_ok (sync_start n)"
  by (simp add: ctxs_ok_def sync_start_def)

lemma finish_log: "sy_log (mem_finish u s) = sy_log s" "sy_log (mem_iterate u k s) = sy_log s"
  by (simp_all add: mem_fields)

lemma fresh_cong:
  "\<lbrakk>sy_disposed t = sy_disposed s; sy_member t = sy_member s; sy_target t = sy_target s; sy_app t = sy_app s; sy_revision t = sy_revision s;
    sy_api t = sy_api s\<rbrakk> \<Longrightarrow> mem_fresh l x t = mem_fresh l x s"
  by (simp add: mem_fresh_def mem_current_def current_def pending_now_def)

lemma membership_applies:
  assumes "sy_log (membership_answered l answer s) \<noteq> sy_log s"
  obtains x body where "observed (ml_uid l) s = Some x" "mem_fresh l x s" "ml_obs l = mc_obs x"
    "sy_log (membership_answered l answer s) = sy_log s @ [ByMembership (ml_uid l) body]"
proof -
  let ?s0 = "s\<lparr>sy_loops := filter (\<lambda>y. ml_uid y \<noteq> ml_uid l) (sy_loops s)\<rparr>"
  have l: "l \<in> set (sy_loops s)" by (rule ccontr) (use assms in \<open>simp add: membership_answered_def\<close>)
  have "observed (ml_uid l) s \<noteq> None \<and> answer \<noteq> None"
    by (rule ccontr) (use assms l in \<open>cases "observed (ml_uid l) s"; cases answer; simp add: membership_answered_def finish_log Let_def\<close>)
  then obtain x a where xa: "observed (ml_uid l) s = Some x" "answer = Some a" by blast
  have m: "membership_answered l answer s = (if \<not> mem_fresh l x ?s0 then mem_finish (ml_uid l) ?s0
      else if ml_obs l \<noteq> mc_obs x then mem_iterate (ml_uid l) (mc_obs x) ?s0
      else (case ensure_selector (rp_selector a) (mc_name x) of Inl e \<Rightarrow> mem_finish (ml_uid l) ?s0
        | Inr _ \<Rightarrow> if \<not> rp_tabs_ok a then mem_finish (ml_uid l) ?s0
            else mem_finish (ml_uid l) (snd (apply_state a (mc_name x) (mc_gen x) (ByMembership (ml_uid l) (rp_body a)) ?s0))))"
    using l xa by (simp add: membership_answered_def Let_def)
  then have f: "mem_fresh l x ?s0" "ml_obs l = mc_obs x" using assms by (auto simp: finish_log split: if_splits)
  obtain res s1 where q: "apply_state a (mc_name x) (mc_gen x) (ByMembership (ml_uid l) (rp_body a)) ?s0 = (res, s1)" by force
  have "sy_log (membership_answered l answer s) = sy_log s \<or> sy_log (membership_answered l answer s) = sy_log s1"
    using m f q by (simp add: finish_log split: sum.splits)
  then have "sy_log (membership_answered l answer s) = sy_log s @ [ByMembership (ml_uid l) (rp_body a)]"
    using apply_state_log [OF q] assms by auto
  moreover have "mem_fresh l x s" using f(1) fresh_cong [of ?s0 s l x] by simp
  ultimately show ?thesis using that xa(1) f(2) by blast
qed

text \<open>
  C36. A membership answer is applied only if it was asked for after the last observation of the pane
  list: when the answer to a fetch adds to what was applied, then from the start of the fetch to the answer the observed list
  did not change, no other state was applied and no action of the shown instance was posted and unanswered.
\<close>

theorem applied_membership_is_latest:
  assumes "s = foldl (sync_step c) (sync_start n0) es0"
    and "l \<notin> set (sy_loops s)" "s1 = sync_step c s e" "l \<in> set (sy_loops s1)" "observed (ml_uid l) s1 = Some x"
    and "s2 = foldl (sync_step c) s1 es" "s3 = sync_step c s2 (SwMemberAnswered l answer)" "sy_log s3 \<noteq> sy_log s2"
  shows "observed (ml_uid l) s2 = Some x \<and> sy_log s2 = sy_log s1
     \<and> (\<forall>k. \<not> pending_now (foldl (sync_step c) s1 (take k es))) \<and> (\<exists>body. sy_log s3 = sy_log s1 @ [ByMembership (ml_uid l) body])"
proof -
  have s3: "s3 = membership_answered l answer s2" using assms(7) by simp
  obtain y body where ya: "observed (ml_uid l) s2 = Some y" "mem_fresh l y s2" "ml_obs l = mc_obs y"
    "sy_log s3 = sy_log s2 @ [ByMembership (ml_uid l) body]"
    using assms(8) unfolding s3 by (rule membership_applies)
  have ok: "posts_ok s1" "ctxs_ok s1"
    unfolding assms(1,3) by (intro posts_ok_step sy.inv_run posts_ok_start, intro syc.inv_step syc.inv_run ctxs_ok_start)
  have n: "ml_obs l = mc_obs x" "ml_revision l = sy_revision s1" "ml_version l = wa_version (sy_api s1)"
    "current s1 (mc_name x) (mc_gen x)"
    using new_loop [OF assms(2) assms(4,5) [unfolded assms(3)]] unfolding assms(3) by auto
  have "obs_le (observed (ml_uid l) s1) (observed (ml_uid l) s2)" unfolding assms(6) by (rule observed_run [OF ok(2)])
  then have y: "y = x" using assms(5) ya(1,3) n(1) by (auto simp: obs_le_def)
  have "current s2 (mc_name x) (mc_gen x)" "sy_revision s1 = sy_revision s2"
    "wa_version (sy_api s1) = wa_version (sy_api s2)" "\<not> pending_now s2"
    using ya(2) n y by (simp_all add: mem_fresh_def mem_current_def)
  from no_overlap [OF ok(1) assms(6) n(4) this] y ya show ?thesis by simp
qed

lemma applied_membership_is_latest_witness:
  "\<exists>s1 s3 l body. s1 = sync_step demo_retry (foldl (sync_step demo_retry) (sync_start ''a'' :: nat sync) 
        [SwRefresh Plain True ''a'' 0, SwAnswered True 0 \<lparr>rr_uid = 0, rr_kind = Plain, rr_focus = True, rr_name = ''a'',
            rr_gen = 0, rr_revision = 0, rr_version = 0\<rparr> (Answer \<lparr>rp_selector = ''a'', rp_tabs_ok = True, rp_body = 7\<rparr>)])
        (SwMember ''a'' 0 ''k'')
     \<and> s3 = foldl (sync_step demo_retry) s1 [SwMember ''a'' 0 ''k'', SwMemberAnswered l (Some \<lparr>rp_selector = ''a'', rp_tabs_ok = True, rp_body = 9\<rparr>)]
     \<and> sy_log s3 = sy_log s1 @ [ByMembership 1 body]"
proof -
  let ?r = "\<lparr>rr_uid = 0, rr_kind = Plain, rr_focus = True, rr_name = ''a'', rr_gen = 0, rr_revision = 0, rr_version = 0\<rparr>"
  let ?es = "[SwRefresh Plain True ''a'' 0, SwAnswered True 0 ?r (Answer \<lparr>rp_selector = ''a'', rp_tabs_ok = True, rp_body = 7\<rparr>)]"
  let ?s = "foldl (sync_step demo_retry) (sync_start ''a'' :: nat sync) ?es"
  let ?s1 = "sync_step demo_retry ?s (SwMember ''a'' 0 ''k'')"
  let ?s2 = "sync_step demo_retry ?s1 (SwMember ''a'' 0 ''k'')"
  let ?l = "\<lparr>ml_uid = 1, ml_obs = 0, ml_revision = 1, ml_version = 0\<rparr>"
  let ?a = "\<lparr>rp_selector = ''a'', rp_tabs_ok = True, rp_body = 9\<rparr> :: nat response"
  let ?s3 = "sync_step demo_retry ?s2 (SwMemberAnswered ?l (Some ?a))"
  let ?x = "\<lparr>mc_name = ''a'', mc_gen = 0, mc_key = ''k'', mc_obs = 0\<rparr>"
  have t: "js_trim ''a'' = ''a''" by (simp add: js_trim_def js_space_def)
  note defs = sync_start_def request_refresh_def refresh_answered_def apply_refresh_def refresh_applies_def current_def
    pending_now_def is_current_request_def tl_is_current_def tg_start_def tl_start_def has_pending_def api_start_def
    ensure_selector_def apply_state_def state_target_def refresh_ended_def sync_membership_def mem_iterate_def
    retry_clear_def Let_def
  have s: "sy_loops ?s = []" "sy_log ?s \<noteq> []" "sy_revision ?s = 1" "sy_next ?s = 1" "sy_ctxs ?s = []" "sy_member ?s = None"
    "sy_target ?s = tg_start ''a''" "sy_api ?s = api_start" "\<not> sy_app ?s" "\<not> sy_disposed ?s" "\<not> sy_apply_off ?s"
    by (simp_all add: defs t)
  have s1: "sy_loops ?s1 = [?l]" "observed 1 ?s1 = Some ?x" "sy_log ?s1 \<noteq> []" "sy_revision ?s1 = 1" "sy_member ?s1 = Some 1"
    "sy_target ?s1 = tg_start ''a''" "sy_api ?s1 = api_start" "\<not> sy_app ?s1" "\<not> sy_disposed ?s1" "\<not> sy_apply_off ?s1"
    using s by (simp_all add: defs t om.get_put)
  have s2: "?s2 = ?s1" using s1 by (simp add: defs t)
  have s3: "sy_log ?s3 = sy_log ?s1 @ [ByMembership 1 9]"
    unfolding s2 using s1 by (simp add: membership_answered_def mem_fresh_def mem_current_def finish_log defs t)
  have "\<exists>body. sy_log ?s3 = sy_log ?s1 @ [ByMembership 1 body]"
    using applied_membership_is_latest [of ?s demo_retry "''a''" ?es ?l ?s1 "SwMember ''a'' 0 ''k''" ?x ?s2
        "[SwMember ''a'' 0 ''k'']" ?s3 "Some ?a"] s s1 s2 s3 by simp
  then show ?thesis by (auto intro!: exI [of _ ?s1] exI [of _ ?s3] exI [of _ ?l])
qed

text \<open>An observation made while the list is fetched is answered by another fetch.\<close>

lemma newer_observation_refetches:
  assumes "l \<in> set (sy_loops s)" "mget (sy_ctxs s) (ml_uid l) = Some x" "mem_fresh l x s" "ml_obs l \<noteq> mc_obs x"
  shows "\<exists>l' \<in> set (sy_loops (membership_answered l (Some a) s)). ml_uid l' = ml_uid l \<and> ml_obs l' = mc_obs x"
  using assms
  by (auto simp: membership_answered_def mem_fresh_def mem_current_def current_def pending_now_def mem_iterate_def Let_def)

end
