(* ===== verification/Tab_Order.thy ===== *)
theory Tab_Order
  imports Js
begin

section \<open>The order of the tab buttons\<close>

text \<open>
  Model of the list operations of \<open>workspace/tab_view.js\<close>: the buttons of the tab bar are the list of
  the identities of their tabs in document order. \<open>insertBefore\<close> moves a button that is already in the
  bar; without a reference it appends.
\<close>

definition insert_before :: "'a \<Rightarrow> 'a option \<Rightarrow> 'a list \<Rightarrow> 'a list" where
  "insert_before x ref xs = (let r = removeAll x xs in case ref of None \<Rightarrow> r @ [x]
     | Some y \<Rightarrow> takeWhile (\<lambda>z. z \<noteq> y) r @ [x] @ dropWhile (\<lambda>z. z \<noteq> y) r)"

definition nth_button :: "'a list \<Rightarrow> int \<Rightarrow> 'a option" where
  "nth_button xs i = (if 0 \<le> i \<and> i < int (length xs) then Some (xs ! nat i) else None)"

definition next_sibling :: "'a \<Rightarrow> 'a list \<Rightarrow> 'a option" where
  "next_sibling x xs = (case dropWhile (\<lambda>z. z \<noteq> x) xs of _ # y # _ \<Rightarrow> Some y | _ \<Rightarrow> None)"

text \<open>\<open>moveTabButton(tab, position, orderedTabs)\<close>: whether it moved, and the buttons.\<close>

definition move_target :: "string \<Rightarrow> int \<Rightarrow> int \<Rightarrow> int" where
  "move_target position index count =
     (if position = ''first'' then 0
      else if position = ''left'' then max 0 (index - 1)
      else if position = ''right'' then min (count - 1) (index + 1)
      else if position = ''last'' then count - 1 else index)"

definition order_index :: "'a \<Rightarrow> 'a list \<Rightarrow> int" where
  "order_index x xs = (if x \<in> set xs then int (length (takeWhile (\<lambda>z. z \<noteq> x) xs)) else -1)"

definition move_button :: "'a \<Rightarrow> string \<Rightarrow> 'a list \<Rightarrow> 'a list \<Rightarrow> bool \<times> 'a list" where
  "move_button x position ordered buttons =
     (let index = order_index x ordered;
          target = move_target position index (int (length ordered))
      in if index < 0 \<or> target = index then (False, buttons)
         else let ref = nth_button buttons target; rest = removeAll x buttons
           in (True, if position = ''right'' \<or> position = ''last''
                then insert_before x (case ref of None \<Rightarrow> None | Some y \<Rightarrow> next_sibling y rest) rest
                else insert_before x (case ref of None \<Rightarrow> (case rest of [] \<Rightarrow> None | y # _ \<Rightarrow> Some y) | Some y \<Rightarrow> Some y) rest))"

text \<open>
  \<open>syncTabButtonOrder\<close>: \<open>placed\<close> are the buttons before the reference, \<open>rest\<close> those from it on; a tab
  without a button (\<open>None\<close>) is skipped.
\<close>

fun sync_order :: "'a list \<Rightarrow> 'a list \<Rightarrow> 'a option list \<Rightarrow> 'a list" where
  "sync_order placed rest [] = placed @ rest"
| "sync_order placed rest (None # ts) = sync_order placed rest ts"
| "sync_order placed [] (Some x # ts) = sync_order (removeAll x placed @ [x]) [] ts"
| "sync_order placed (y # rest) (Some x # ts) = (if x = y then sync_order (placed @ [y]) rest ts
     else sync_order (removeAll x placed @ [x]) (removeAll x (y # rest)) ts)"

subsection \<open>What the order becomes\<close>

lemma sync_order_eq:
  assumes "distinct xs" "distinct (placed @ rest)" "set xs \<inter> set placed = {}"
  shows "sync_order placed rest (map Some xs) = placed @ xs @ filter (\<lambda>z. z \<notin> set xs) rest"
  using assms
proof (induction xs arbitrary: placed rest)
  case (Cons x xs)
  have p: "removeAll x placed = placed" using Cons.prems(3) by simp
  show ?case
  proof (cases rest)
    case Nil
    have "sync_order (placed @ [x]) [] (map Some xs) = (placed @ [x]) @ xs @ filter (\<lambda>z. z \<notin> set xs) []"
      using Cons.prems Nil by (intro Cons.IH) auto
    with Nil p show ?thesis by simp
  next
    case (Cons y ys)
    show ?thesis
    proof (cases "x = y")
      case True
      have "sync_order (placed @ [y]) ys (map Some xs) = (placed @ [y]) @ xs @ filter (\<lambda>z. z \<notin> set xs) ys"
        using Cons.prems Cons True by (intro Cons.IH) auto
      moreover have "filter (\<lambda>z. z \<notin> set (y # xs)) ys = filter (\<lambda>z. z \<notin> set xs) ys"
        using Cons.prems(2) Cons by (intro filter_cong) auto
      ultimately show ?thesis using Cons True by simp
    next
      case False
      let ?r = "removeAll x rest"
      have "sync_order (placed @ [x]) ?r (map Some xs) = (placed @ [x]) @ xs @ filter (\<lambda>z. z \<notin> set xs) ?r"
        using Cons.prems by (intro Cons.IH) (auto simp: distinct_removeAll)
      moreover have "filter (\<lambda>z. z \<notin> set xs) ?r = filter (\<lambda>z. z \<notin> set (x # xs)) rest"
        by (induction rest) auto
      ultimately show ?thesis using Cons False p by simp
    qed
  qed
qed simp

text \<open>
  Synchronising the tab bar puts the buttons of the given tabs first, in the given order, and leaves
  the others behind them in the order they had.
\<close>

theorem synced_order:
  assumes "distinct xs" "distinct buttons"
  shows "sync_order [] buttons (map Some xs) = xs @ filter (\<lambda>z. z \<notin> set xs) buttons"
  using sync_order_eq [of xs "[]" buttons] assms by simp

lemma synced_order_witness:
  "sync_order [] [''a'', ''b'', ''c''] (map Some [''c'', ''a'']) = [''c'', ''a'', ''b'']"
  using synced_order [of "[''c'', ''a'']" "[''a'', ''b'', ''c'']"] by simp

text \<open>A button that moves takes its target place, and the others keep their order.\<close>

lemma removeAll_distinct: "distinct (a @ x # b) \<Longrightarrow> removeAll x (a @ x # b) = a @ b"
  by auto

lemma order_index_mid: "x \<notin> set a \<Longrightarrow> order_index x (a @ x # b) = int (length a)"
  by (auto simp: order_index_def takeWhile_append)

lemma move_left:
  assumes "distinct (a @ y # x # b)"
  shows "move_button x ''left'' (a @ y # x # b) (a @ y # x # b) = (True, a @ x # y # b)"
proof -
  have i: "order_index x (a @ y # x # b) = int (length a) + 1"
    using order_index_mid [of x "a @ [y]" b] assms by auto
  have r: "removeAll x (a @ y # x # b) = a @ y # b" using removeAll_distinct [of "a @ [y]" x b] assms by simp
  have t: "takeWhile (\<lambda>z. z \<noteq> y) (a @ y # b) = a" "dropWhile (\<lambda>z. z \<noteq> y) (a @ y # b) = y # b"
    using assms by (auto simp: takeWhile_append dropWhile_append)
  have n: "nth_button (a @ y # x # b) (int (length a)) = Some y" by (simp add: nth_button_def nth_append)
  have x: "removeAll x a = a" "removeAll x b = b" "x \<noteq> y" "y \<noteq> x" using assms by auto
  have p: "takeWhile (\<lambda>z. z \<noteq> y) a = a" "dropWhile (\<lambda>z. z \<noteq> y) a = []" using assms by auto
  show ?thesis using t by (simp add: move_button_def move_target_def i n insert_before_def x Let_def)
qed

lemma insert_after_sibling:
  assumes "distinct (a @ y # b)" "x \<notin> set (a @ y # b)"
  shows "insert_before x (next_sibling y (a @ y # b)) (a @ y # b) = a @ y # x # b"
proof -
  have d: "dropWhile (\<lambda>z. z \<noteq> y) (a @ y # b) = y # b" using assms by (auto simp: dropWhile_append)
  have x: "removeAll x (a @ y # b) = a @ y # b" using assms(2) by (intro removeAll_id)
  show ?thesis
  proof (cases b)
    case Nil
    with d x show ?thesis by (simp add: next_sibling_def insert_before_def)
  next
    case (Cons z c)
    have t: "takeWhile (\<lambda>w. w \<noteq> z) (a @ y # z # c) = a @ [y]" "dropWhile (\<lambda>w. w \<noteq> z) (a @ y # z # c) = z # c"
      using assms Cons by (auto simp: takeWhile_append dropWhile_append)
    have "insert_before x (Some z) (a @ y # z # c) = a @ y # x # z # c"
      using x t unfolding insert_before_def Cons by simp
    with d show ?thesis by (simp add: next_sibling_def Cons)
  qed
qed

lemma move_right:
  assumes "distinct (a @ x # y # b)"
  shows "move_button x ''right'' (a @ x # y # b) (a @ x # y # b) = (True, a @ y # x # b)"
proof -
  let ?xs = "a @ x # y # b"
  have i: "order_index x ?xs = int (length a)" using order_index_mid [of x a "y # b"] assms by auto
  have r: "removeAll x ?xs = a @ y # b" using removeAll_distinct [of a x "y # b"] assms by simp
  have g: "move_target ''right'' (int (length a)) (int (length ?xs)) = int (length a) + 1" by (simp add: move_target_def)
  have "nat (int (length a) + 1) = Suc (length a)" "?xs ! Suc (length a) = y" by (simp_all add: nth_append)
  then have n: "nth_button ?xs (int (length a) + 1) = Some y" unfolding nth_button_def by simp
  have "insert_before x (next_sibling y (a @ y # b)) (a @ y # b) = a @ y # x # b"
    using assms by (intro insert_after_sibling) auto
  then show ?thesis unfolding move_button_def Let_def i g n r by simp
qed

end
