(* ===== verification/Workspace_Apply.thy ===== *)
theory Workspace_Apply
  imports Workspace_Tabs Layout_Tree Tab_Order
begin

section \<open>Applying a workspace state to the page\<close>

text \<open>
  Model of \<open>apply\<close> in \<open>workspace/state_apply_controller.js\<close> with the operations of
  \<open>workspace/tab_controller.js\<close> it calls while it applies (\<open>createTab\<close>, \<open>closeTab\<close>), the activation of
  \<open>workspace/tab_activation_controller.js\<close> as far as it changes the registry and the recent tabs, and the
  identities \<open>terminal/session/session_controller.js\<close> gives to new panes. The controllers are live (not
  disposed) and the guards of \<open>apply\<close>, modelled in Workspace_Sync, have passed. A session object carries
  the identity it was created with; whether a new session gets a socket at once is an argument.
\<close>

record ws_pane =
  wp_uid :: nat
  wp_name :: string
  wp_retained :: bool
  wp_exit_pending :: bool
  wp_exit_expected :: bool
  wp_pending :: bool
  wp_socket :: bool

record live_tab = ws_tab +
  lt_uid :: nat
  lt_custom :: bool
  lt_panes :: "(string, ws_pane) jsmap"
  lt_active :: "string option"
  lt_layout :: "layout option"

record server_pane =
  sp_id :: string
  sp_exited :: bool

record server_tab =
  sv_id :: string
  sv_label :: string
  sv_custom :: bool
  sv_active :: "string option"
  sv_layout :: "layout option"
  sv_panes :: "server_pane list"

record server_state =
  ss_tabs :: "server_tab list"
  ss_recent :: "jsval list option"
  ss_active :: string
  ss_generation :: string

datatype page_effect = PHistory nat | PDispose nat | PCreate nat string | PActivate string | PClear | PButtonsCleared

record page =
  pg_reg :: "live_tab tab_registry"
  pg_buttons :: "string list"
  pg_nav :: navigation
  pg_next :: nat
  pg_panes_next :: rat
  pg_generation :: string
  pg_outs :: "page_effect list"

record apply_env =
  ap_name :: string
  ap_prefix :: string
  ap_restart :: string
  ap_requested :: string
  ap_saved :: string
  ap_connects :: "string \<Rightarrow> bool"
  ap_prefer :: bool
  ap_preserve :: bool

abbreviation pg_tabs :: "page \<Rightarrow> live_tab tabs" where
  "pg_tabs s \<equiv> tr_tabs (pg_reg s)"

definition page_out :: "page_effect list \<Rightarrow> page \<Rightarrow> page" where
  "page_out os s = s\<lparr>pg_outs := pg_outs s @ os\<rparr>"

subsection \<open>Activating and closing tabs\<close>

definition page_activate :: "apply_env \<Rightarrow> string \<Rightarrow> bool \<Rightarrow> page \<Rightarrow> page" where
  "page_activate v i remember s = (if \<not> mhas (pg_tabs s) i then s
     else let previous = (case tr_active (pg_reg s) of None \<Rightarrow> Null | Some p \<Rightarrow> Str p);
              s1 = s\<lparr>pg_reg := set_active_tab_id (Str i) (pg_reg s)\<rparr>;
              s2 = (if remember
                then s1\<lparr>pg_nav := remember_recent (ap_prefix v) (pg_tabs s1) (ap_name v) (Str i) previous (pg_nav s1)\<rparr> else s1)
          in page_out [PActivate i] s2)"

definition page_clear_active :: "page \<Rightarrow> page" where
  "page_clear_active s = page_out [PClear] (s\<lparr>pg_reg := set_active_tab_id Null (pg_reg s)\<rparr>)"

definition neighbour :: "string \<Rightarrow> 'a ws_tab_scheme list \<Rightarrow> string option" where
  "neighbour i ordered = (let k = find_index (\<lambda>t. tb_id t = i) ordered
     in if k < 0 then None
        else if k + 1 < int (length ordered) then Some (tb_id (ordered ! nat (k + 1)))
        else if 0 < k then Some (tb_id (ordered ! nat (k - 1))) else None)"

definition page_close :: "apply_env \<Rightarrow> page \<Rightarrow> string \<Rightarrow> page" where
  "page_close v s i = (case mget (pg_tabs s) i of None \<Rightarrow> s
     | Some t \<Rightarrow>
        let active = (tr_active (pg_reg s) = Some i);
            next = (if active then neighbour i (ordered_tabs False (pg_buttons s) (pg_tabs s)) else None);
            s1 = page_out (map (\<lambda>p. PDispose (wp_uid p)) (mvals (lt_panes t)))
              (s\<lparr>pg_reg := fst (registry_delete i (pg_reg s)), pg_buttons := removeAll i (pg_buttons s)\<rparr>)
        in if \<not> active then s1
           else case next of None \<Rightarrow> page_clear_active s1
             | Some n \<Rightarrow> page_activate v n True (page_clear_active s1))"

definition destroy_histories :: "string \<Rightarrow> live_tab \<Rightarrow> page \<Rightarrow> page" where
  "destroy_histories target t = page_out (map (\<lambda>p. PHistory (wp_uid p)) (filter (\<lambda>p. wp_name p = target) (mvals (lt_panes t))))"

definition page_drop :: "apply_env \<Rightarrow> string \<Rightarrow> page \<Rightarrow> string \<Rightarrow> page" where
  "page_drop v target s i = (case mget (pg_tabs s) i of None \<Rightarrow> s
     | Some t \<Rightarrow> page_close v (destroy_histories target t s) i)"

subsection \<open>Creating tabs and panes\<close>

definition shell_label :: "string \<Rightarrow> 't tab_registry \<Rightarrow> string" where
  "shell_label i r = ''Shell '' @ (case js_number_text (strip_tab i) of
       Fin n \<Rightarrow> if n = 0 then num_text (Fin (tr_next r - 1)) else num_text (Fin n)
     | NaN \<Rightarrow> num_text (Fin (tr_next r - 1)) | x \<Rightarrow> num_text x)"

definition create_tab :: "string \<Rightarrow> string \<Rightarrow> bool \<Rightarrow> page \<Rightarrow> string \<times> live_tab \<times> page" where
  "create_tab requested label custom s = (case allocate_tab_id (Str requested) (pg_reg s) of (r, i) \<Rightarrow>
     let t = \<lparr>tb_id = i, tb_label = (if label \<noteq> [] then label else shell_label i r), lt_uid = pg_next s,
           lt_custom = (custom \<or> label \<noteq> []), lt_panes = [], lt_active = None, lt_layout = None\<rparr>
     in (i, t, s\<lparr>pg_reg := registry_set i t r, pg_next := Suc (pg_next s), pg_buttons := pg_buttons s @ [i]\<rparr>))"

definition strip_pane :: "string \<Rightarrow> string" where
  "strip_pane s = (if take 5 s = ''pane-'' then drop 5 s else s)"

definition allocate_pane_id :: "string \<Rightarrow> rat \<Rightarrow> string \<times> rat" where
  "allocate_pane_id requested next =
     (let i = js_trim (if requested \<noteq> [] then requested else ''pane-'' @ num_text (Fin next));
          next' = (if requested \<noteq> [] then next else next + 1)
      in case js_number_text (strip_pane i) of Fin n \<Rightarrow> (i, if next' \<le> n then n + 1 else next') | _ \<Rightarrow> (i, next'))"

definition create_pane :: "apply_env \<Rightarrow> string \<Rightarrow> string \<Rightarrow> live_tab \<Rightarrow> page \<Rightarrow> live_tab \<times> page" where
  "create_pane v target requested t s = (case allocate_pane_id requested (pg_panes_next s) of (i, next) \<Rightarrow>
     let p = \<lparr>wp_uid = pg_next s, wp_name = target, wp_retained = False, wp_exit_pending = False,
           wp_exit_expected = False, wp_pending = \<not> ap_connects v i, wp_socket = ap_connects v i\<rparr>
     in (t\<lparr>lt_panes := mput i p (lt_panes t)\<rparr>,
         page_out [PCreate (pg_next s) i] (s\<lparr>pg_next := Suc (pg_next s), pg_panes_next := next\<rparr>)))"

definition pane_state :: "server_pane \<Rightarrow> ws_pane \<Rightarrow> ws_pane" where
  "pane_state sp p = (if sp_exited sp \<and> wp_retained p
       then p\<lparr>wp_exit_pending := False, wp_exit_expected := True, wp_pending := False\<rparr>
     else if wp_exit_pending p then p\<lparr>wp_exit_pending := False, wp_exit_expected := False, wp_pending := True\<rparr>
     else if \<not> wp_socket p then p\<lparr>wp_pending := True\<rparr> else p)"

definition apply_pane :: "apply_env \<Rightarrow> string \<Rightarrow> live_tab \<times> page \<Rightarrow> server_pane \<Rightarrow> live_tab \<times> page" where
  "apply_pane v target ts sp = (case ts of (t, s) \<Rightarrow>
     (case (if mhas (lt_panes t) (sp_id sp) then (t, s) else create_pane v target (sp_id sp) t s) of (t1, s1) \<Rightarrow>
        (case mget (lt_panes t1) (sp_id sp) of None \<Rightarrow> (t1, s1)
         | Some p \<Rightarrow> (t1\<lparr>lt_panes := mput (sp_id sp) (pane_state sp p) (lt_panes t1)\<rparr>, s1))))"

subsection \<open>One tab of the state\<close>

definition wanted_ids :: "server_tab \<Rightarrow> string list" where
  "wanted_ids st = remdups (map sp_id (sv_panes st))"

definition membership_changed :: "server_tab \<Rightarrow> live_tab \<Rightarrow> bool" where
  "membership_changed st t = (length (wanted_ids st) \<noteq> length (lt_panes t)
     \<or> list_ex (\<lambda>i. \<not> mhas (lt_panes t) i) (wanted_ids st))"

definition merged_fields :: "bool \<Rightarrow> server_tab \<Rightarrow> live_tab \<Rightarrow> live_tab" where
  "merged_fields passive st t = t\<lparr>tb_label := (if sv_label st \<noteq> [] then sv_label st else tb_label t),
     lt_custom := sv_custom st,
     lt_active := (if \<not> passive \<or> (case lt_active t of None \<Rightarrow> True | Some i \<Rightarrow> i \<notin> set (wanted_ids st))
        then sv_active st else lt_active t),
     lt_layout := (if \<not> passive \<or> membership_changed st t then sv_layout st else lt_layout t)\<rparr>"

definition drop_panes :: "string \<Rightarrow> string list \<Rightarrow> live_tab \<Rightarrow> page \<Rightarrow> live_tab \<times> page" where
  "drop_panes target wanted t s =
     (t\<lparr>lt_panes := filter (\<lambda>e. fst e \<in> set wanted) (lt_panes t)\<rparr>,
      page_out (concat (map (\<lambda>e. (if wp_name (snd e) = target then [PHistory (wp_uid (snd e))] else [])
          @ [PDispose (wp_uid (snd e))]) (filter (\<lambda>e. fst e \<notin> set wanted) (lt_panes t)))) s)"

definition find_or_create :: "server_tab \<Rightarrow> page \<Rightarrow> string \<times> live_tab \<times> page" where
  "find_or_create st s = (case mget (pg_tabs s) (sv_id st) of
       Some t \<Rightarrow> (sv_id st, t, s) | None \<Rightarrow> create_tab (sv_id st) (sv_label st) (sv_custom st) s)"

definition apply_tab ::
    "apply_env \<Rightarrow> string \<Rightarrow> bool \<Rightarrow> page \<times> string list \<Rightarrow> server_tab \<Rightarrow> page \<times> string list" where
  "apply_tab v target passive sc st = (case sc of (s, changed) \<Rightarrow>
     (case find_or_create st s of (i, t, s1) \<Rightarrow>
      (let changed' = (if membership_changed st t then changed @ [tb_id t] else changed);
           s2 = (if passive then s1 else s1\<lparr>pg_buttons := removeAll i (pg_buttons s1) @ [i]\<rparr>)
       in case drop_panes target (wanted_ids st) (merged_fields passive st t) s2 of (t3, s3) \<Rightarrow>
          (case foldl (apply_pane v target) (t3, s3) (sv_panes st) of (t4, s4) \<Rightarrow>
             (s4\<lparr>pg_reg := registry_set i t4 (pg_reg s4)\<rparr>, changed')))))"

subsection \<open>The whole state\<close>

definition first_tab :: "page \<Rightarrow> string option" where
  "first_tab s = (case pg_tabs s of [] \<Rightarrow> None | e # _ \<Rightarrow> Some (fst e))"

definition choose_tab :: "page \<Rightarrow> string list \<Rightarrow> string option" where
  "choose_tab s candidates = (case filter (mhas (pg_tabs s)) candidates of i # _ \<Rightarrow> Some i | [] \<Rightarrow> first_tab s)"

definition finish_passive :: "apply_env \<Rightarrow> server_state \<Rightarrow> string option \<Rightarrow> string list \<Rightarrow> page \<Rightarrow> page" where
  "finish_passive v st previous changed s =
     (let s1 = s\<lparr>pg_buttons := sync_order [] (pg_buttons s)
            (map (\<lambda>t. if mhas (pg_tabs s) (sv_id t) then Some (sv_id t) else None) (ss_tabs st))\<rparr>
      in case choose_tab s1 (List.map_filter (\<lambda>x. x) [previous, tr_active (pg_reg s1)]) of
           None \<Rightarrow> page_clear_active s1
         | Some i \<Rightarrow> if Some i \<noteq> previous \<or> i \<in> set changed then page_activate v i False s1 else s1)"

definition choose_active :: "apply_env \<Rightarrow> server_state \<Rightarrow> page \<Rightarrow> string option" where
  "choose_active v st s = choose_tab s
     (if ap_prefer v then [ap_restart v, ss_active st, js_trim (ap_requested v), ap_saved v]
      else [ap_restart v, js_trim (ap_requested v), ap_saved v, ss_active st])"

definition apply_recents :: "apply_env \<Rightarrow> string \<Rightarrow> server_state \<Rightarrow> page \<Rightarrow> page" where
  "apply_recents v target st s =
     (let ids = (case ss_recent st of Some ids \<Rightarrow> ids
        | None \<Rightarrow> let stored = load_recent (ap_prefix v) (pg_tabs s) target (pg_nav s)
            in map Str (if stored \<noteq> [] then stored else nv_recent (pg_nav s)))
      in s\<lparr>pg_nav := apply_recent (ap_prefix v) (pg_tabs s) True target (Some ids) (pg_nav s)\<rparr>)"

definition finish_active :: "apply_env \<Rightarrow> string \<Rightarrow> server_state \<Rightarrow> page \<Rightarrow> page" where
  "finish_active v target st s =
     (let s1 = apply_recents v target st s
      in case choose_active v st s1 of None \<Rightarrow> page_clear_active s1
       | Some i \<Rightarrow>
          let s2 = page_activate v i (ss_recent st = None) s1; recent = nv_recent (pg_nav s2)
          in if ss_recent st \<noteq> None \<and> (case recent of [] \<Rightarrow> True | r # _ \<Rightarrow> r \<noteq> i)
             then s2\<lparr>pg_nav := apply_recent (ap_prefix v) (pg_tabs s2) True target (Some (Str i # map Str recent)) (pg_nav s2)\<rparr>
             else s2)"

definition close_stale :: "apply_env \<Rightarrow> string \<Rightarrow> server_state \<Rightarrow> page \<Rightarrow> page" where
  "close_stale v target st s = foldl (page_drop v target) s
     (filter (\<lambda>i. i \<notin> set (map sv_id (ss_tabs st))) (mkeys (pg_tabs s)))"

definition take_generation :: "apply_env \<Rightarrow> server_state \<Rightarrow> page \<Rightarrow> bool \<times> page" where
  "take_generation v st s = (let g = js_trim (ss_generation st)
     in if g = pg_generation s then (False, s)
        else (True, foldl (page_close v) (s\<lparr>pg_generation := g\<rparr>) (mkeys (pg_tabs s))))"

definition apply_workspace :: "apply_env \<Rightarrow> string \<Rightarrow> server_state \<Rightarrow> page \<Rightarrow> page" where
  "apply_workspace v target st s =
     (let previous = tr_active (pg_reg s)
      in case take_generation v st s of (generation_changed, s1) \<Rightarrow>
        (let passive = (ap_preserve v \<and> \<not> generation_changed);
             s2 = close_stale v target st s1;
             s3 = (if passive then s2 else page_out [PButtonsCleared] (s2\<lparr>pg_buttons := []\<rparr>))
         in case foldl (apply_tab v target passive) (s3, []) (ss_tabs st) of (s4, changed) \<Rightarrow>
              if passive then finish_passive v st previous changed s4 else finish_active v target st s4))"

subsection \<open>The registry under the operations\<close>

lemma set_active_tabs [simp]: "tr_tabs (set_active_tab_id v r) = tr_tabs r"
  by (simp add: set_active_tab_id_def)

lemma page_out_fields [simp]:
  "pg_reg (page_out os s) = pg_reg s" "pg_buttons (page_out os s) = pg_buttons s" "pg_next (page_out os s) = pg_next s"
  "pg_nav (page_out os s) = pg_nav s"
  by (simp_all add: page_out_def)

lemma activate_fields [simp]:
  "pg_tabs (page_activate v i r s) = pg_tabs s" "pg_buttons (page_activate v i r s) = pg_buttons s"
  "pg_next (page_activate v i r s) = pg_next s"
  "pg_tabs (page_clear_active s) = pg_tabs s" "pg_buttons (page_clear_active s) = pg_buttons s"
  "pg_next (page_clear_active s) = pg_next s"
  by (simp_all add: page_activate_def page_clear_active_def Let_def)

lemma activate_active:
  "tr_active (pg_reg (page_activate v i r s))
     = (if mhas (pg_tabs s) i then (if js_trim i = [] then None else Some (js_trim i)) else tr_active (pg_reg s))"
  "tr_active (pg_reg (page_clear_active s)) = None"
  by (simp_all add: page_activate_def page_clear_active_def set_active_tab_id_def js_string_def Let_def)

lemma mdel_absent: "\<not> mhas m i \<Longrightarrow> mdel i m = m"
  unfolding mdel_def mhas_def by (rule filter_True) force

lemma close_fields:
  "pg_tabs (page_close v s i) = mdel i (pg_tabs s)"
  "pg_buttons (page_close v s i) = (if mhas (pg_tabs s) i then removeAll i (pg_buttons s) else pg_buttons s)"
  "pg_next (page_close v s i) = pg_next s"
  by (simp_all add: page_close_def registry_delete_def om.has_get mdel_absent Let_def split: option.splits)

lemma drop_fields:
  "pg_tabs (page_drop v t s i) = mdel i (pg_tabs s)"
  "pg_buttons (page_drop v t s i) = (if mhas (pg_tabs s) i then removeAll i (pg_buttons s) else pg_buttons s)"
  "pg_next (page_drop v t s i) = pg_next s"
  by (simp_all add: page_drop_def destroy_histories_def close_fields om.has_get mdel_absent split: option.splits)

text \<open>Closing a list of tabs removes exactly them and their buttons.\<close>

lemma mdel_fold: "foldl (\<lambda>m i. mdel i m) m is = filter (\<lambda>e. fst e \<notin> set is) m"
  by (induction "is" arbitrary: m) (auto simp: mdel_def intro: filter_cong)

definition bar_ok :: "page \<Rightarrow> bool" where
  "bar_ok s = (mwf (pg_tabs s) \<and> distinct (pg_buttons s) \<and> set (pg_buttons s) = set (mkeys (pg_tabs s)))"

lemma keys_mdel: "set (mkeys (mdel i m)) = set (mkeys m) - {i}"
  by (auto simp: om.keys_del)

lemma drop_bar: "bar_ok s \<Longrightarrow> bar_ok (page_drop v t s i)"
  by (auto simp: bar_ok_def drop_fields om.wf_del keys_mdel distinct_removeAll om.has_keys)

lemma close_bar: "bar_ok s \<Longrightarrow> bar_ok (page_close v s i)"
  by (auto simp: bar_ok_def close_fields om.wf_del keys_mdel distinct_removeAll om.has_keys)

lemma drop_all:
  "pg_tabs (foldl (page_drop v t) s is) = filter (\<lambda>e. fst e \<notin> set is) (pg_tabs s)"
  "pg_next (foldl (page_drop v t) s is) = pg_next s"
  by (induction "is" arbitrary: s) (auto simp: drop_fields mdel_def intro: filter_cong)

lemma drop_all_bar: "bar_ok s \<Longrightarrow> bar_ok (foldl (page_drop v t) s is)"
  by (induction "is" arbitrary: s) (auto intro: drop_bar)

lemma close_all:
  "pg_tabs (foldl (page_close v) s is) = filter (\<lambda>e. fst e \<notin> set is) (pg_tabs s)"
  "pg_next (foldl (page_close v) s is) = pg_next s"
  by (induction "is" arbitrary: s) (auto simp: close_fields mdel_def intro: filter_cong)

lemma close_all_bar: "bar_ok s \<Longrightarrow> bar_ok (foldl (page_close v) s is)"
  by (induction "is" arbitrary: s) (auto intro: close_bar)

subsection \<open>A tab of the state\<close>

definition named :: "string \<Rightarrow> bool" where
  "named i = (i \<noteq> [] \<and> js_trim i = i)"

definition answer_ok :: "server_state \<Rightarrow> bool" where
  "answer_ok st = (distinct (map sv_id (ss_tabs st)) \<and> list_all (\<lambda>t. named (sv_id t)
     \<and> list_all (\<lambda>p. named (sp_id p)) (sv_panes t)) (ss_tabs st))"

lemma allocate_named:
  assumes "named i"
  shows "snd (allocate_tab_id (Str i) r) = i" "tr_tabs (fst (allocate_tab_id (Str i) r)) = tr_tabs r"
  using assms by (auto simp: allocate_tab_id_def named_def Let_def split: jnum.splits)

lemma allocate_pane_named: "named i \<Longrightarrow> fst (allocate_pane_id i next) = i"
  by (simp add: allocate_pane_id_def named_def Let_def split: jnum.splits)

lemma apply_pane_spec:
  assumes "named (sp_id sp)" "apply_pane v target (t, s) sp = (t', s')"
  shows "pg_reg s' = pg_reg s \<and> pg_buttons s' = pg_buttons s \<and> pg_nav s' = pg_nav s
     \<and> tb_label t' = tb_label t \<and> lt_custom t' = lt_custom t \<and> lt_active t' = lt_active t \<and> lt_layout t' = lt_layout t
     \<and> tb_id t' = tb_id t \<and> lt_uid t' = lt_uid t \<and> (mwf (lt_panes t) \<longrightarrow> mwf (lt_panes t'))
     \<and> (\<forall>j. mhas (lt_panes t') j = (j = sp_id sp \<or> mhas (lt_panes t) j))
     \<and> (\<forall>j p. mget (lt_panes t) j = Some p \<longrightarrow> (\<exists>p'. mget (lt_panes t') j = Some p' \<and> wp_uid p' = wp_uid p))"
proof -
  have u: "wp_uid (pane_state sp p) = wp_uid p" for p by (simp add: pane_state_def)
  show ?thesis
  proof (cases "mhas (lt_panes t) (sp_id sp)")
    case True
    then show ?thesis using assms(2)
      by (auto simp: apply_pane_def om.has_get om.get_put om.wf_put u split: if_splits)
  next
    case False
    obtain next' where a: "allocate_pane_id (sp_id sp) (pg_panes_next s) = (sp_id sp, next')"
      using allocate_pane_named [OF assms(1)] by (metis prod.collapse)
    show ?thesis using assms(2) False
      by (auto simp: apply_pane_def create_pane_def a om.has_get om.get_put om.wf_put u Let_def)
  qed
qed

lemma apply_panes_spec:
  assumes "list_all (\<lambda>p. named (sp_id p)) ps" "foldl (apply_pane v target) (t, s) ps = (t', s')"
  shows "pg_reg s' = pg_reg s \<and> pg_buttons s' = pg_buttons s \<and> pg_nav s' = pg_nav s
     \<and> tb_label t' = tb_label t \<and> lt_custom t' = lt_custom t \<and> lt_active t' = lt_active t \<and> lt_layout t' = lt_layout t
     \<and> tb_id t' = tb_id t \<and> lt_uid t' = lt_uid t \<and> (mwf (lt_panes t) \<longrightarrow> mwf (lt_panes t'))
     \<and> (\<forall>j. mhas (lt_panes t') j = (j \<in> sp_id ` set ps \<or> mhas (lt_panes t) j))
     \<and> (\<forall>j p. mget (lt_panes t) j = Some p \<longrightarrow> (\<exists>p'. mget (lt_panes t') j = Some p' \<and> wp_uid p' = wp_uid p))"
  using assms
proof (induction ps arbitrary: t s)
  case (Cons sp ps)
  obtain t1 s1 where a: "apply_pane v target (t, s) sp = (t1, s1)" by fastforce
  have n: "named (sp_id sp)" "list_all (\<lambda>p. named (sp_id p)) ps" using Cons.prems(1) by simp_all
  have f: "foldl (apply_pane v target) (t1, s1) ps = (t', s')" using Cons.prems(2) by (simp add: a)
  note one = apply_pane_spec [OF n(1) a] and rest = Cons.IH [OF n(2) f]
  have "\<exists>p'. mget (lt_panes t') j = Some p' \<and> wp_uid p' = wp_uid p" if "mget (lt_panes t) j = Some p" for j p
    using one rest that by metis
  with one rest show ?case by auto
qed auto

definition same_but_panes :: "live_tab \<Rightarrow> live_tab \<Rightarrow> bool" where
  "same_but_panes t' t = (tb_id t' = tb_id t \<and> tb_label t' = tb_label t \<and> lt_uid t' = lt_uid t \<and> lt_custom t' = lt_custom t
     \<and> lt_active t' = lt_active t \<and> lt_layout t' = lt_layout t)"

text \<open>The tab an entry of the state starts from: the tab of that identity, or a new and empty one.\<close>

definition starts_from :: "page \<Rightarrow> server_tab \<Rightarrow> live_tab \<Rightarrow> bool" where
  "starts_from s st t0 = (case mget (pg_tabs s) (sv_id st) of Some t \<Rightarrow> t0 = t
     | None \<Rightarrow> lt_panes t0 = [] \<and> lt_layout t0 = None \<and> lt_active t0 = None \<and> tb_id t0 = sv_id st)"

definition becomes :: "bool \<Rightarrow> server_tab \<Rightarrow> live_tab \<Rightarrow> live_tab \<Rightarrow> bool" where
  "becomes passive st t0 t' = (same_but_panes t' (merged_fields passive st t0)
     \<and> (mwf (lt_panes t0) \<longrightarrow> mwf (lt_panes t'))
     \<and> (\<forall>j. mhas (lt_panes t') j = (j \<in> sp_id ` set (sv_panes st)))
     \<and> (\<forall>j p. j \<in> sp_id ` set (sv_panes st) \<longrightarrow> mget (lt_panes t0) j = Some p \<longrightarrow>
          (\<exists>p'. mget (lt_panes t') j = Some p' \<and> wp_uid p' = wp_uid p)))"

lemma mget_filter_keys: "mget (filter (\<lambda>e. fst e \<in> A) m) j = (if j \<in> A then mget m j else None)"
  unfolding mget_def by (induction m) auto

lemma mwf_filter: "mwf m \<Longrightarrow> mwf (filter P m)"
  by (simp add: mwf_def distinct_map_filter)

lemma find_or_create_spec:
  assumes "named (sv_id st)" "find_or_create st s = (i, t, s1)"
  shows "i = sv_id st" "starts_from s st t"
    "\<forall>j. j \<noteq> i \<longrightarrow> mget (pg_tabs s1) j = mget (pg_tabs s) j"
    "mkeys (pg_tabs s1) = (if mhas (pg_tabs s) i then mkeys (pg_tabs s) else mkeys (pg_tabs s) @ [i])"
    "pg_buttons s1 = (if mhas (pg_tabs s) i then pg_buttons s else pg_buttons s @ [i])"
    "tr_active (pg_reg s1) = tr_active (pg_reg s)" "mhas (pg_tabs s1) i"
proof -
  have "i = sv_id st \<and> starts_from s st t \<and> (\<forall>j. j \<noteq> i \<longrightarrow> mget (pg_tabs s1) j = mget (pg_tabs s) j)
    \<and> mkeys (pg_tabs s1) = (if mhas (pg_tabs s) i then mkeys (pg_tabs s) else mkeys (pg_tabs s) @ [i])
    \<and> pg_buttons s1 = (if mhas (pg_tabs s) i then pg_buttons s else pg_buttons s @ [i])
    \<and> tr_active (pg_reg s1) = tr_active (pg_reg s) \<and> mhas (pg_tabs s1) i"
  proof (cases "mget (pg_tabs s) (sv_id st)")
    case None
    obtain r where a: "allocate_tab_id (Str (sv_id st)) (pg_reg s) = (r, sv_id st)" "tr_tabs r = pg_tabs s"
      using allocate_named [OF assms(1)] by (metis prod.collapse)
    have "tr_active r = tr_active (pg_reg s)"
      using a(1) by (auto simp: allocate_tab_id_def Let_def split: jnum.splits if_splits)
    with None assms(2) a show ?thesis
      by (auto simp: find_or_create_def create_tab_def starts_from_def registry_set_def om.get_put om.has_get
          om.keys_put Let_def)
  next
    case (Some t0)
    with assms(2) show ?thesis by (auto simp: find_or_create_def starts_from_def om.has_get)
  qed
  then show "i = sv_id st" "starts_from s st t"
    "\<forall>j. j \<noteq> i \<longrightarrow> mget (pg_tabs s1) j = mget (pg_tabs s) j"
    "mkeys (pg_tabs s1) = (if mhas (pg_tabs s) i then mkeys (pg_tabs s) else mkeys (pg_tabs s) @ [i])"
    "pg_buttons s1 = (if mhas (pg_tabs s) i then pg_buttons s else pg_buttons s @ [i])"
    "tr_active (pg_reg s1) = tr_active (pg_reg s)" "mhas (pg_tabs s1) i" by blast+
qed

lemma apply_tab_spec:
  assumes "named (sv_id st)" "list_all (\<lambda>p. named (sp_id p)) (sv_panes st)" "apply_tab v target passive (s, ch) st = (s', ch')"
  obtains t0 t' where "starts_from s st t0" "mget (pg_tabs s') (sv_id st) = Some t'" "becomes passive st t0 t'"
    "\<forall>j. j \<noteq> sv_id st \<longrightarrow> mget (pg_tabs s') j = mget (pg_tabs s) j"
    "mkeys (pg_tabs s') = (if mhas (pg_tabs s) (sv_id st) then mkeys (pg_tabs s) else mkeys (pg_tabs s) @ [sv_id st])"
    "pg_buttons s' = (let b = (if mhas (pg_tabs s) (sv_id st) then pg_buttons s else pg_buttons s @ [sv_id st])
        in if passive then b else removeAll (sv_id st) b @ [sv_id st])"
    "tr_active (pg_reg s') = tr_active (pg_reg s)" "pg_nav s' = pg_nav s"
proof -
  obtain i t s1 where f: "find_or_create st s = (i, t, s1)" by (metis prod_cases3)
  note fc = find_or_create_spec [OF assms(1) f]
  define s2 where "s2 = (if passive then s1 else s1\<lparr>pg_buttons := removeAll i (pg_buttons s1) @ [i]\<rparr>)"
  obtain t3 s3 where d: "drop_panes target (wanted_ids st) (merged_fields passive st t) s2 = (t3, s3)" by fastforce
  obtain t4 s4 where p: "foldl (apply_pane v target) (t3, s3) (sv_panes st) = (t4, s4)" by fastforce
  note ps = apply_panes_spec [OF assms(2) p]
  have s': "s' = s4\<lparr>pg_reg := registry_set i t4 (pg_reg s4)\<rparr>"
    using assms(3) by (simp add: apply_tab_def f s2_def [symmetric] d p Let_def)
  have d3: "pg_reg s3 = pg_reg s1" "pg_buttons s3 = pg_buttons s2" "pg_nav s3 = pg_nav s1"
    "t3 = (merged_fields passive st t)\<lparr>lt_panes := filter (\<lambda>e. fst e \<in> set (wanted_ids st)) (lt_panes t)\<rparr>"
    using d by (auto simp: drop_panes_def s2_def merged_fields_def)
  have nav: "pg_nav s1 = pg_nav s" using f
    by (auto simp: find_or_create_def create_tab_def Let_def split: option.splits prod.splits)
  have w: "set (wanted_ids st) = sp_id ` set (sv_panes st)" by (simp add: wanted_ids_def)
  have "becomes passive st t t4"
    using ps d3(4) by (auto simp: becomes_def same_but_panes_def w mget_filter_keys om.has_get mwf_filter)
  moreover have "mget (pg_tabs s') (sv_id st) = Some t4" using fc(1) by (simp add: s' registry_set_def om.get_put)
  moreover have "\<forall>j. j \<noteq> sv_id st \<longrightarrow> mget (pg_tabs s') j = mget (pg_tabs s) j"
    using fc(1,3) ps d3(1) by (simp add: s' registry_set_def om.get_put)
  moreover have "mkeys (pg_tabs s') = (if mhas (pg_tabs s) (sv_id st) then mkeys (pg_tabs s) else mkeys (pg_tabs s) @ [sv_id st])"
    using fc(1,4,7) ps d3(1) by (simp add: s' registry_set_def om.keys_put)
  moreover have "pg_buttons s' = (let b = (if mhas (pg_tabs s) (sv_id st) then pg_buttons s else pg_buttons s @ [sv_id st])
        in if passive then b else removeAll (sv_id st) b @ [sv_id st])"
    using fc(1,5) ps d3(2) by (simp add: s' s2_def Let_def)
  moreover have "tr_active (pg_reg s') = tr_active (pg_reg s)" "pg_nav s' = pg_nav s"
    using fc(6) ps d3(1,3) nav by (simp_all add: s' registry_set_def)
  ultimately show thesis using fc(2) that by blast
qed

lemma starts_from_cong: "mget (pg_tabs s1) (sv_id st) = mget (pg_tabs s) (sv_id st) \<Longrightarrow> starts_from s1 st t0 = starts_from s st t0"
  by (simp add: starts_from_def)

lemma apply_tabs_spec:
  assumes "distinct (map sv_id sts)"
    "list_all (\<lambda>st. named (sv_id st) \<and> list_all (\<lambda>p. named (sp_id p)) (sv_panes st)) sts"
    "foldl (apply_tab v target passive) (s, ch) sts = (s', ch')"
  shows "(\<forall>st \<in> set sts. \<exists>t0 t'. starts_from s st t0 \<and> mget (pg_tabs s') (sv_id st) = Some t' \<and> becomes passive st t0 t')
     \<and> (\<forall>j. j \<notin> sv_id ` set sts \<longrightarrow> mget (pg_tabs s') j = mget (pg_tabs s) j)
     \<and> mkeys (pg_tabs s') = mkeys (pg_tabs s) @ filter (\<lambda>i. \<not> mhas (pg_tabs s) i) (map sv_id sts)
     \<and> (passive \<longrightarrow> pg_buttons s' = pg_buttons s @ filter (\<lambda>i. \<not> mhas (pg_tabs s) i) (map sv_id sts))
     \<and> (\<not> passive \<and> set (pg_buttons s) \<inter> sv_id ` set sts = {} \<longrightarrow> pg_buttons s' = pg_buttons s @ map sv_id sts)
     \<and> tr_active (pg_reg s') = tr_active (pg_reg s) \<and> pg_nav s' = pg_nav s"
  using assms
proof (induction sts arbitrary: s ch)
  case (Cons st sts)
  obtain s1 ch1 where a: "apply_tab v target passive (s, ch) st = (s1, ch1)" by fastforce
  have n: "named (sv_id st)" "list_all (\<lambda>p. named (sp_id p)) (sv_panes st)" using Cons.prems(2) by simp_all
  obtain t0 t1 where one: "starts_from s st t0" "mget (pg_tabs s1) (sv_id st) = Some t1" "becomes passive st t0 t1"
    "\<forall>j. j \<noteq> sv_id st \<longrightarrow> mget (pg_tabs s1) j = mget (pg_tabs s) j"
    "mkeys (pg_tabs s1) = (if mhas (pg_tabs s) (sv_id st) then mkeys (pg_tabs s) else mkeys (pg_tabs s) @ [sv_id st])"
    "pg_buttons s1 = (let b = (if mhas (pg_tabs s) (sv_id st) then pg_buttons s else pg_buttons s @ [sv_id st])
        in if passive then b else removeAll (sv_id st) b @ [sv_id st])"
    "tr_active (pg_reg s1) = tr_active (pg_reg s)" "pg_nav s1 = pg_nav s"
    by (rule apply_tab_spec [OF n a]) blast
  have d: "distinct (map sv_id sts)" "sv_id st \<notin> sv_id ` set sts" using Cons.prems(1) by auto
  have f: "foldl (apply_tab v target passive) (s1, ch1) sts = (s', ch')" using Cons.prems(3) by (simp add: a)
  have l: "list_all (\<lambda>st. named (sv_id st) \<and> list_all (\<lambda>p. named (sp_id p)) (sv_panes st)) sts" using Cons.prems(2) by simp
  note rest = Cons.IH [OF d(1) l f]
  have h: "mhas (pg_tabs s1) i = mhas (pg_tabs s) i" if "i \<in> sv_id ` set sts" for i
  proof -
    have "i \<noteq> sv_id st" using d(2) that by metis
    with one(4) show ?thesis by (simp add: om.has_get)
  qed
  then have fl: "filter (\<lambda>i. \<not> mhas (pg_tabs s1) i) (map sv_id sts) = filter (\<lambda>i. \<not> mhas (pg_tabs s) i) (map sv_id sts)"
    by (intro filter_cong) auto
  have st: "starts_from s1 x y = starts_from s x y" if "x \<in> set sts" for x y
  proof (rule starts_from_cong)
    have "sv_id x \<noteq> sv_id st" using d(2) that by (metis imageI)
    with one(4) show "mget (pg_tabs s1) (sv_id x) = mget (pg_tabs s) (sv_id x)" by simp
  qed
  show ?case
  proof (intro conjI ballI)
    fix x assume that: "x \<in> set (st # sts)"
    show "\<exists>t0 t'. starts_from s x t0 \<and> mget (pg_tabs s') (sv_id x) = Some t' \<and> becomes passive x t0 t'"
    proof (cases "x = st")
      case True
      have "mget (pg_tabs s') (sv_id st) = Some t1" using rest one(2) d(2) by simp
      with one(1,3) True show ?thesis by blast
    next
      case False
      with that rest st show ?thesis by auto
    qed
  next
    show "\<forall>j. j \<notin> sv_id ` set (st # sts) \<longrightarrow> mget (pg_tabs s') j = mget (pg_tabs s) j" using rest one(4) by auto
  next
    show "mkeys (pg_tabs s') = mkeys (pg_tabs s) @ filter (\<lambda>i. \<not> mhas (pg_tabs s) i) (map sv_id (st # sts))"
      using rest one(5) fl by simp
  next
    show "passive \<longrightarrow> pg_buttons s' = pg_buttons s @ filter (\<lambda>i. \<not> mhas (pg_tabs s) i) (map sv_id (st # sts))"
      using rest one(6) fl by (simp add: Let_def)
  next
    show "\<not> passive \<and> set (pg_buttons s) \<inter> sv_id ` set (st # sts) = {} \<longrightarrow> pg_buttons s' = pg_buttons s @ map sv_id (st # sts)"
    proof
      assume np: "\<not> passive \<and> set (pg_buttons s) \<inter> sv_id ` set (st # sts) = {}"
      have b: "pg_buttons s1 = pg_buttons s @ [sv_id st]" using one(6) np by (simp add: Let_def)
      moreover have "set (pg_buttons s1) \<inter> sv_id ` set sts = {}" using b np d(2) by auto
      ultimately show "pg_buttons s' = pg_buttons s @ map sv_id (st # sts)" using rest np by simp
    qed
  next
    show "tr_active (pg_reg s') = tr_active (pg_reg s)" using rest one(7) by simp
  next
    show "pg_nav s' = pg_nav s" using rest one(8) by simp
  qed
qed simp

subsection \<open>The page after an application\<close>

lemma generation_cases:
  assumes "take_generation v st s = (g, s1)" "bar_ok s"
  shows "bar_ok s1" "g = (js_trim (ss_generation st) \<noteq> pg_generation s)" "\<not> g \<Longrightarrow> s1 = s" "g \<Longrightarrow> pg_tabs s1 = []"
proof -
  let ?s = "s\<lparr>pg_generation := js_trim (ss_generation st)\<rparr>"
  have b: "bar_ok ?s" using assms(2) by (simp add: bar_ok_def)
  have "bar_ok s1 \<and> g = (js_trim (ss_generation st) \<noteq> pg_generation s) \<and> (\<not> g \<longrightarrow> s1 = s) \<and> (g \<longrightarrow> pg_tabs s1 = [])"
  proof (cases "js_trim (ss_generation st) = pg_generation s")
    case True
    with assms show ?thesis by (auto simp: take_generation_def Let_def)
  next
    case False
    then have s1: "g" "s1 = foldl (page_close v) ?s (mkeys (pg_tabs s))"
      using assms(1) by (auto simp: take_generation_def Let_def)
    have "pg_tabs s1 = []" unfolding s1(2) close_all by (auto simp: mkeys_def)
    with s1 close_all_bar [OF b] False show ?thesis by auto
  qed
  then show "bar_ok s1" "g = (js_trim (ss_generation st) \<noteq> pg_generation s)" "\<not> g \<Longrightarrow> s1 = s" "g \<Longrightarrow> pg_tabs s1 = []"
    by blast+
qed

lemma drop_active: "tr_active (pg_reg s) = Some i \<Longrightarrow> i \<noteq> j \<Longrightarrow> tr_active (pg_reg (page_drop v t s j)) = Some i"
  by (auto simp: page_drop_def page_close_def destroy_histories_def registry_delete_def Let_def split: option.splits)

lemma drop_all_active:
  "tr_active (pg_reg s) = Some i \<Longrightarrow> i \<notin> set is \<Longrightarrow> tr_active (pg_reg (foldl (page_drop v t) s is)) = Some i"
  by (induction "is" arbitrary: s) (auto simp: drop_active)

lemma stale_closed:
  "pg_tabs (close_stale v target st s) = filter (\<lambda>e. fst e \<in> set (map sv_id (ss_tabs st))) (pg_tabs s)"
  unfolding close_stale_def drop_all by (rule filter_cong) (auto simp: mkeys_def)

lemma finish_fields [simp]:
  "pg_tabs (finish_passive v st p ch s) = pg_tabs s"
  "pg_buttons (finish_passive v st p ch s) = sync_order [] (pg_buttons s)
      (map (\<lambda>t. if mhas (pg_tabs s) (sv_id t) then Some (sv_id t) else None) (ss_tabs st))"
  "pg_tabs (finish_active v target st s) = pg_tabs s" "pg_buttons (finish_active v target st s) = pg_buttons s"
  by (simp_all add: finish_passive_def finish_active_def apply_recents_def Let_def split: option.splits)

text \<open>What one application does, in terms of the page it starts from.\<close>

lemma applied_page:
  assumes "answer_ok st" "bar_ok s" "s' = apply_workspace v target st s"
  obtains s2 pas where "pas = (ap_preserve v \<and> js_trim (ss_generation st) = pg_generation s)"
    "pg_tabs s2 = (if js_trim (ss_generation st) = pg_generation s
        then filter (\<lambda>e. fst e \<in> set (map sv_id (ss_tabs st))) (pg_tabs s) else [])"
    "\<forall>x \<in> set (ss_tabs st). \<exists>t0 t'. starts_from s2 x t0 \<and> mget (pg_tabs s') (sv_id x) = Some t' \<and> becomes pas x t0 t'"
    "set (mkeys (pg_tabs s')) = sv_id ` set (ss_tabs st)" "mwf (pg_tabs s')"
    "pg_buttons s' = map sv_id (ss_tabs st)"
    "\<exists>s4 ch. s' = (if pas then finish_passive v st (tr_active (pg_reg s)) ch s4 else finish_active v target st s4)
       \<and> pg_tabs s4 = pg_tabs s' \<and> (pas \<longrightarrow> (\<forall>i. tr_active (pg_reg s) = Some i \<and> i \<in> sv_id ` set (ss_tabs st)
            \<longrightarrow> tr_active (pg_reg s4) = Some i))"
proof -
  let ?ids = "map sv_id (ss_tabs st)"
  obtain g s1 where g: "take_generation v st s = (g, s1)" by fastforce
  note gc = generation_cases [OF g assms(2)]
  define pas where "pas = (ap_preserve v \<and> \<not> g)"
  define s2 where "s2 = close_stale v target st s1"
  define s3 where "s3 = (if pas then s2 else page_out [PButtonsCleared] (s2\<lparr>pg_buttons := []\<rparr>))"
  obtain s4 ch where f: "foldl (apply_tab v target pas) (s3, []) (ss_tabs st) = (s4, ch)" by fastforce
  have s': "s' = (if pas then finish_passive v st (tr_active (pg_reg s)) ch s4 else finish_active v target st s4)"
    by (simp only: assms(3) apply_workspace_def g prod.case Let_def pas_def [symmetric] s2_def [symmetric]
        s3_def [symmetric] f)
  have ok: "distinct ?ids" "list_all (\<lambda>st. named (sv_id st) \<and> list_all (\<lambda>p. named (sp_id p)) (sv_panes st)) (ss_tabs st)"
    using assms(1) by (simp_all add: answer_ok_def)
  note sp = apply_tabs_spec [OF ok f]
  have t3: "pg_tabs s3 = pg_tabs s2" by (simp add: s3_def)
  have t2: "pg_tabs s2 = (if js_trim (ss_generation st) = pg_generation s
        then filter (\<lambda>e. fst e \<in> set ?ids) (pg_tabs s) else [])"
    using gc(2,3,4) by (auto simp: s2_def stale_closed)
  have b2: "bar_ok s2" unfolding s2_def close_stale_def by (rule drop_all_bar [OF gc(1)])
  have k2: "set (mkeys (pg_tabs s2)) \<subseteq> set ?ids" by (auto simp: t2 mkeys_def)
  have keys: "mkeys (pg_tabs s4) = mkeys (pg_tabs s2) @ filter (\<lambda>i. \<not> mhas (pg_tabs s2) i) ?ids" using sp t3 by simp
  have set4: "set (mkeys (pg_tabs s4)) = set ?ids" using k2 unfolding keys by (auto simp: om.has_keys)
  have wf4: "mwf (pg_tabs s4)"
    using b2 ok(1) unfolding om.wf_keys keys by (auto simp: bar_ok_def om.wf_keys om.has_keys)
  have t': "pg_tabs s' = pg_tabs s4" by (simp add: s')
  have bt: "pg_buttons s' = ?ids"
  proof (cases pas)
    case True
    have "distinct (pg_buttons s4)" "set (pg_buttons s4) \<subseteq> set ?ids"
      using sp True b2 ok(1) k2 by (auto simp: s3_def bar_ok_def om.has_keys)
    then have "sync_order [] (pg_buttons s4) (map Some ?ids) = ?ids"
      using sync_order_eq [of ?ids "[]" "pg_buttons s4"] ok(1) by (auto simp: filter_empty_conv)
    moreover have "map (\<lambda>t. if mhas (pg_tabs s4) (sv_id t) then Some (sv_id t) else None) (ss_tabs st) = map Some ?ids"
      using set4 by (auto simp: om.has_keys)
    ultimately show ?thesis using True by (simp only: s' if_True finish_fields)
  next
    case False
    then show ?thesis using sp by (simp add: s' s3_def)
  qed
  have "\<forall>x \<in> set (ss_tabs st). \<exists>t0 t'. starts_from s2 x t0 \<and> mget (pg_tabs s') (sv_id x) = Some t' \<and> becomes pas x t0 t'"
    using sp t' starts_from_cong [of s3 _ s2] t3 by auto
  moreover have "tr_active (pg_reg s4) = Some i" if "pas" "tr_active (pg_reg s) = Some i" "i \<in> sv_id ` set (ss_tabs st)" for i
  proof -
    have "s1 = s" using that(1) gc(3) by (simp add: pas_def)
    then have "tr_active (pg_reg s2) = Some i" unfolding s2_def close_stale_def
      using that(2,3) by (intro drop_all_active) auto
    with that(1) show ?thesis using sp by (simp add: s3_def)
  qed
  then have "\<exists>s4 ch. s' = (if pas then finish_passive v st (tr_active (pg_reg s)) ch s4 else finish_active v target st s4)
       \<and> pg_tabs s4 = pg_tabs s' \<and> (pas \<longrightarrow> (\<forall>i. tr_active (pg_reg s) = Some i \<and> i \<in> sv_id ` set (ss_tabs st)
            \<longrightarrow> tr_active (pg_reg s4) = Some i))"
    using s' t' by (intro exI [of _ s4] exI [of _ ch]) simp
  ultimately show thesis using t2 set4 wf4 bt t' gc(2) by (intro that [of pas s2]) (simp_all add: pas_def)
qed

text \<open>
  C37. After a state is applied the page mirrors it: exactly the tabs of the state exist, the tab bar
  shows them in the order of the state, and every tab has exactly the panes of its entry. This
  holds for a full and for a passive application, after a change of generation or not.
\<close>

theorem applied_page_mirrors_state:
  assumes "answer_ok st" "bar_ok s" "s' = apply_workspace v target st s"
  shows "bar_ok s' \<and> set (mkeys (pg_tabs s')) = sv_id ` set (ss_tabs st) \<and> pg_buttons s' = map sv_id (ss_tabs st)
     \<and> (\<forall>x \<in> set (ss_tabs st). \<exists>t. mget (pg_tabs s') (sv_id x) = Some t
          \<and> (\<forall>j. mhas (lt_panes t) j = (j \<in> sp_id ` set (sv_panes x))) \<and> lt_custom t = sv_custom x)"
proof -
  obtain s2 pas where a: "\<forall>x \<in> set (ss_tabs st). \<exists>t0 t'. starts_from s2 x t0 \<and> mget (pg_tabs s') (sv_id x) = Some t' \<and> becomes pas x t0 t'"
    "set (mkeys (pg_tabs s')) = sv_id ` set (ss_tabs st)" "mwf (pg_tabs s')" "pg_buttons s' = map sv_id (ss_tabs st)"
    by (rule applied_page [OF assms]) blast
  have "distinct (pg_buttons s')" using assms(1) by (simp add: a(4) answer_ok_def)
  with a show ?thesis
    by (auto simp: bar_ok_def becomes_def same_but_panes_def merged_fields_def dest!: bspec)
qed

text \<open>
  As long as the generation of the workspace stays, applying a state keeps the terminal session of
  every pane that its tab keeps: the session object is the one that was there, not a new one.
\<close>

theorem kept_panes_keep_their_session:
  assumes "answer_ok st" "bar_ok s" "s' = apply_workspace v target st s" "js_trim (ss_generation st) = pg_generation s"
    and "x \<in> set (ss_tabs st)" "mget (pg_tabs s) (sv_id x) = Some t" "j \<in> sp_id ` set (sv_panes x)" "mget (lt_panes t) j = Some p"
  shows "\<exists>t' p'. mget (pg_tabs s') (sv_id x) = Some t' \<and> lt_uid t' = lt_uid t
     \<and> mget (lt_panes t') j = Some p' \<and> wp_uid p' = wp_uid p"
proof -
  obtain s2 pas where a: "pg_tabs s2 = filter (\<lambda>e. fst e \<in> set (map sv_id (ss_tabs st))) (pg_tabs s)"
    "\<forall>x \<in> set (ss_tabs st). \<exists>t0 t'. starts_from s2 x t0 \<and> mget (pg_tabs s') (sv_id x) = Some t' \<and> becomes pas x t0 t'"
    by (rule applied_page [OF assms(1-3)]) (use assms(4) in auto)
  have "mget (pg_tabs s2) (sv_id x) = Some t" using assms(5,6) by (simp add: a(1) mget_filter_keys)
  then show ?thesis using a(2) assms(5,7,8)
    by (auto simp: starts_from_def becomes_def same_but_panes_def merged_fields_def dest!: bspec)
qed

subsection \<open>Layouts and panes stay consistent\<close>

text \<open>The leaves of a tab's layout are its panes.\<close>

definition tab_consistent :: "live_tab \<Rightarrow> bool" where
  "tab_consistent t = (mwf (lt_panes t) \<and> set (panes_of (lt_layout t)) = set (mkeys (lt_panes t)))"

definition page_consistent :: "page \<Rightarrow> bool" where
  "page_consistent s = (\<forall>i t. mget (pg_tabs s) i = Some t \<longrightarrow> tab_consistent t)"

definition layouts_ok :: "server_state \<Rightarrow> bool" where
  "layouts_ok st = list_all (\<lambda>x. set (panes_of (sv_layout x)) = sp_id ` set (sv_panes x)) (ss_tabs st)"

lemma unchanged_members:
  assumes "\<not> membership_changed x t" "mwf (lt_panes t)"
  shows "set (mkeys (lt_panes t)) = sp_id ` set (sv_panes x)"
proof -
  have sub: "set (wanted_ids x) \<subseteq> set (mkeys (lt_panes t))"
    using assms(1) by (auto simp: membership_changed_def list_ex_iff om.has_keys)
  have "card (set (wanted_ids x)) = length (wanted_ids x)"
    by (rule distinct_card) (simp add: wanted_ids_def)
  moreover have "card (set (mkeys (lt_panes t))) = length (lt_panes t)"
    using distinct_card [of "map fst (lt_panes t)"] assms(2) by (simp add: mkeys_def mwf_def)
  ultimately have "set (wanted_ids x) = set (mkeys (lt_panes t))"
    using sub assms(1) by (intro card_subset_eq) (auto simp: membership_changed_def)
  then show ?thesis by (simp add: wanted_ids_def)
qed

lemma becomes_consistent:
  assumes "becomes passive x t0 t'" "tab_consistent t0" "set (panes_of (sv_layout x)) = sp_id ` set (sv_panes x)"
  shows "tab_consistent t'"
proof -
  have "\<forall>j. mhas (lt_panes t') j = (j \<in> sp_id ` set (sv_panes x))" using assms(1) by (simp add: becomes_def)
  then have k: "set (mkeys (lt_panes t')) = sp_id ` set (sv_panes x)" unfolding om.has_keys by blast
  have b: "lt_layout t' = lt_layout (merged_fields passive x t0)" "mwf (lt_panes t')"
    using assms(1,2) by (simp_all add: becomes_def same_but_panes_def tab_consistent_def)
  show ?thesis
  proof (cases "passive \<and> \<not> membership_changed x t0")
    case True
    then have "lt_layout t' = lt_layout t0" using b(1) by (simp add: merged_fields_def)
    moreover have "set (mkeys (lt_panes t0)) = sp_id ` set (sv_panes x)"
      using True assms(2) unchanged_members by (simp add: tab_consistent_def)
    ultimately show ?thesis using assms(2) b k by (simp add: tab_consistent_def)
  next
    case False
    then have "lt_layout t' = sv_layout x" using b(1) by (auto simp: merged_fields_def)
    with b k assms(3) show ?thesis by (simp add: tab_consistent_def)
  qed
qed

text \<open>
  C38. Applying a state whose layouts show the panes of their tabs keeps that so on the page: after a
  full or a passive application, which keeps the local layout of a tab whose panes are unchanged,
  the leaves of every tab's layout are exactly the panes of the tab.
\<close>

theorem layouts_match_panes:
  assumes "answer_ok st" "bar_ok s" "layouts_ok st" "page_consistent s"
  shows "page_consistent (apply_workspace v target st s)"
proof -
  define s' where s': "s' = apply_workspace v target st s"
  obtain s2 pas where a: "pg_tabs s2 = (if js_trim (ss_generation st) = pg_generation s
        then filter (\<lambda>e. fst e \<in> set (map sv_id (ss_tabs st))) (pg_tabs s) else [])"
    "\<forall>x \<in> set (ss_tabs st). \<exists>t0 t'. starts_from s2 x t0 \<and> mget (pg_tabs s') (sv_id x) = Some t' \<and> becomes pas x t0 t'"
    "set (mkeys (pg_tabs s')) = sv_id ` set (ss_tabs st)"
    by (rule applied_page [OF assms(1,2) s']) blast
  have "tab_consistent t'" if "mget (pg_tabs s') i = Some t'" for i t'
  proof -
    have "i \<in> set (mkeys (pg_tabs s'))" using that by (simp add: om.has_get flip: om.has_keys)
    then obtain x where x: "x \<in> set (ss_tabs st)" "i = sv_id x" using a(3) by auto
    from bspec [OF a(2) x(1)] obtain t0 t1 where t1: "starts_from s2 x t0" "mget (pg_tabs s') (sv_id x) = Some t1" "becomes pas x t0 t1"
      by blast
    then have t0: "starts_from s2 x t0" "becomes pas x t0 t'" using that x(2) by simp_all
    have "tab_consistent t0"
    proof (cases "mget (pg_tabs s2) (sv_id x)")
      case None
      with t0(1) show ?thesis by (simp add: starts_from_def tab_consistent_def mkeys_def)
    next
      case (Some t)
      then have "mget (pg_tabs s) (sv_id x) = Some t" by (simp add: a(1) mget_filter_keys split: if_splits)
      with Some t0(1) assms(4) show ?thesis by (auto simp: starts_from_def page_consistent_def)
    qed
    with t0(2) x(1) assms(3) show ?thesis by (auto simp: layouts_ok_def list_all_iff intro: becomes_consistent)
  qed
  then show ?thesis by (auto simp: page_consistent_def s')
qed

subsection \<open>The active tab\<close>

definition picks :: "page \<Rightarrow> string option \<Rightarrow> bool" where
  "picks s r = (case r of None \<Rightarrow> pg_tabs s = [] | Some i \<Rightarrow> mhas (pg_tabs s) i)"

lemma picks_simps [simp]: "picks s None = (pg_tabs s = [])" "picks s (Some i) = mhas (pg_tabs s) i"
  by (simp_all add: picks_def)

lemma choose_tab_spec: "picks s (choose_tab s cs)"
proof (cases "filter (mhas (pg_tabs s)) cs")
  case Nil
  then show ?thesis by (auto simp: picks_def choose_tab_def first_tab_def mhas_def split: list.splits)
next
  case (Cons i r)
  then have "mhas (pg_tabs s) i" by (metis (no_types, lifting) list.set_intros(1) mem_Collect_eq set_filter)
  with Cons show ?thesis by (simp add: choose_tab_def)
qed

lemma picks_cong: "pg_tabs s' = pg_tabs s \<Longrightarrow> picks s' r \<Longrightarrow> picks s r"
  by (cases r) simp_all

lemma recents_fields [simp]:
  "pg_reg (apply_recents v target st s) = pg_reg s"
  by (simp add: apply_recents_def Let_def)

lemma finish_active_active:
  assumes "\<And>i. mhas (pg_tabs s) i \<Longrightarrow> named i"
  shows "picks s (tr_active (pg_reg (finish_active v target st s)))"
proof -
  let ?s = "apply_recents v target st s"
  have p: "picks s (choose_active v st ?s)"
    unfolding choose_active_def by (rule picks_cong [OF _ choose_tab_spec]) simp
  show ?thesis
  proof (cases "choose_active v st ?s")
    case None
    with p show ?thesis by (simp add: finish_active_def activate_active Let_def)
  next
    case (Some i)
    with p assms [of i] show ?thesis by (auto simp: finish_active_def activate_active named_def Let_def)
  qed
qed

lemma finish_passive_active:
  assumes "\<And>i. mhas (pg_tabs s) i \<Longrightarrow> named i" "\<And>i. previous = Some i \<Longrightarrow> mhas (pg_tabs s) i \<Longrightarrow> tr_active (pg_reg s) = Some i"
  shows "picks s (tr_active (pg_reg (finish_passive v st previous ch s)))"
proof -
  define s1 where "s1 = s\<lparr>pg_buttons := sync_order [] (pg_buttons s)
            (map (\<lambda>t. if mhas (pg_tabs s) (sv_id t) then Some (sv_id t) else None) (ss_tabs st))\<rparr>"
  define r where "r = choose_tab s1 (List.map_filter (\<lambda>x. x) [previous, tr_active (pg_reg s1)])"
  have f: "finish_passive v st previous ch s = (case r of None \<Rightarrow> page_clear_active s1
     | Some i \<Rightarrow> if Some i \<noteq> previous \<or> i \<in> set ch then page_activate v i False s1 else s1)"
    by (simp only: finish_passive_def Let_def s1_def [symmetric] r_def)
  have reg: "pg_reg s1 = pg_reg s" by (simp add: s1_def)
  have p: "picks s r" unfolding r_def by (rule picks_cong [OF _ choose_tab_spec]) (simp add: reg)
  show ?thesis
  proof (cases r)
    case None
    with p show ?thesis by (simp add: f activate_active)
  next
    case (Some i)
    then have i: "mhas (pg_tabs s) i" "js_trim i = i" "i \<noteq> []" using p assms(1) [of i] by (auto simp: named_def)
    show ?thesis
    proof (cases "Some i \<noteq> previous \<or> i \<in> set ch")
      case True
      with i show ?thesis by (simp add: f Some activate_active reg)
    next
      case False
      then have "previous = Some i" "i \<notin> set ch" by auto
      moreover have "tr_active (pg_reg s1) = Some i" using assms(2) [OF \<open>previous = Some i\<close> i(1)] by (simp add: reg)
      moreover have "finish_passive v st previous ch s = s1" unfolding f Some using False by auto
      ultimately show ?thesis using i(1) by simp
    qed
  qed
qed

text \<open>
  After a state is applied one of its tabs is the active one, unless it has no tabs, in which case
  none is: the page never shows a tab that does not exist.
\<close>

theorem active_tab_exists:
  assumes "answer_ok st" "bar_ok s"
  shows "case tr_active (pg_reg (apply_workspace v target st s)) of None \<Rightarrow> ss_tabs st = []
     | Some i \<Rightarrow> i \<in> sv_id ` set (ss_tabs st)"
proof -
  define s' where s': "s' = apply_workspace v target st s"
  obtain s4 ch pas where a: "set (mkeys (pg_tabs s')) = sv_id ` set (ss_tabs st)"
    "s' = (if pas then finish_passive v st (tr_active (pg_reg s)) ch s4 else finish_active v target st s4)"
    "pg_tabs s4 = pg_tabs s'"
    "pas \<Longrightarrow> \<forall>i. tr_active (pg_reg s) = Some i \<and> i \<in> sv_id ` set (ss_tabs st) \<longrightarrow> tr_active (pg_reg s4) = Some i"
    by (rule applied_page [OF assms s']) blast
  have h: "mhas (pg_tabs s4) i = (i \<in> sv_id ` set (ss_tabs st))" for i using a(1,3) by (simp add: om.has_keys)
  then have n: "\<And>i. mhas (pg_tabs s4) i \<Longrightarrow> named i" using assms(1) by (auto simp: answer_ok_def list_all_iff)
  have e: "pg_tabs s4 = [] \<Longrightarrow> ss_tabs st = []" using a(1,3) by (auto simp: mkeys_def)
  have "picks s4 (tr_active (pg_reg s'))"
  proof (cases pas)
    case True
    have "picks s4 (tr_active (pg_reg (finish_passive v st (tr_active (pg_reg s)) ch s4)))"
      by (rule finish_passive_active [OF n]) (use a(4) True h in auto)
    with True show ?thesis using a(2) by simp
  next
    case False
    then show ?thesis using a(2) finish_active_active [OF n] by simp
  qed
  then show ?thesis using h e by (auto simp: s' picks_def split: option.splits)
qed

subsection \<open>An example\<close>

definition demo_pane :: "nat \<Rightarrow> ws_pane" where
  "demo_pane n = \<lparr>wp_uid = n, wp_name = ''box'', wp_retained = False, wp_exit_pending = False, wp_exit_expected = False,
     wp_pending = False, wp_socket = True\<rparr>"

definition demo_tab :: live_tab where
  "demo_tab = \<lparr>tb_id = ''t1'', tb_label = ''One'', lt_uid = 1, lt_custom = False,
     lt_panes = [(''p1'', demo_pane 2), (''p2'', demo_pane 3)], lt_active = Some ''p1'',
     lt_layout = Some (Split ''vertical'' [Leaf ''p1'' (Some 50), Leaf ''p2'' (Some 50)] None)\<rparr>"

definition demo_page :: page where
  "demo_page = \<lparr>pg_reg = \<lparr>tr_tabs = [(''t1'', demo_tab)], tr_active = Some ''t1'', tr_next = 2, tr_disposed = False\<rparr>,
     pg_buttons = [''t1''], pg_nav = nav_start Working, pg_next = 4, pg_panes_next = 3, pg_generation = ''g'', pg_outs = []\<rparr>"

definition demo_state :: server_state where
  "demo_state = \<lparr>ss_tabs = [\<lparr>sv_id = ''t2'', sv_label = ''Two'', sv_custom = True, sv_active = Some ''p3'',
       sv_layout = Some (Leaf ''p3'' None), sv_panes = [\<lparr>sp_id = ''p3'', sp_exited = False\<rparr>]\<rparr>,
     \<lparr>sv_id = ''t1'', sv_label = [], sv_custom = False, sv_active = Some ''p2'',
       sv_layout = Some (Leaf ''p2'' None), sv_panes = [\<lparr>sp_id = ''p2'', sp_exited = False\<rparr>]\<rparr>],
     ss_recent = None, ss_active = ''t1'', ss_generation = ''g''\<rparr>"

definition demo_apply :: apply_env where
  "demo_apply = \<lparr>ap_name = ''box'', ap_prefix = ''webshell'', ap_restart = [], ap_requested = [], ap_saved = [],
     ap_connects = (\<lambda>i. True), ap_prefer = True, ap_preserve = True\<rparr>"

lemma demo_ok: "answer_ok demo_state" "bar_ok demo_page" "layouts_ok demo_state" "page_consistent demo_page"
proof -
  show "answer_ok demo_state" by (simp add: answer_ok_def demo_state_def named_def js_trim_def js_space_def)
  show "bar_ok demo_page" by (simp add: bar_ok_def demo_page_def mwf_def mkeys_def)
  show "layouts_ok demo_state" by (simp add: layouts_ok_def demo_state_def)
  show "page_consistent demo_page"
    by (auto simp: page_consistent_def demo_page_def mget_def tab_consistent_def demo_tab_def mwf_def mkeys_def split: if_splits)
qed

lemma applied_page_mirrors_state_witness:
  "pg_buttons (apply_workspace demo_apply ''box'' demo_state demo_page) = [''t2'', ''t1'']"
  using applied_page_mirrors_state [OF demo_ok(1,2) refl, of demo_apply "''box''"] by (simp add: demo_state_def)

lemma kept_panes_keep_their_session_witness:
  "\<exists>t' p'. mget (pg_tabs (apply_workspace demo_apply ''box'' demo_state demo_page)) ''t1'' = Some t' \<and> lt_uid t' = 1
     \<and> mget (lt_panes t') ''p2'' = Some p' \<and> wp_uid p' = 3"
proof -
  let ?x = "\<lparr>sv_id = ''t1'', sv_label = [], sv_custom = False, sv_active = Some ''p2'',
       sv_layout = Some (Leaf ''p2'' None), sv_panes = [\<lparr>sp_id = ''p2'', sp_exited = False\<rparr>]\<rparr>"
  have "js_trim (ss_generation demo_state) = pg_generation demo_page" "?x \<in> set (ss_tabs demo_state)"
    "mget (pg_tabs demo_page) (sv_id ?x) = Some demo_tab" "''p2'' \<in> sp_id ` set (sv_panes ?x)"
    "mget (lt_panes demo_tab) ''p2'' = Some (demo_pane 3)"
    by (simp_all add: demo_state_def demo_page_def demo_tab_def js_trim_def js_space_def mget_def)
  from kept_panes_keep_their_session [OF demo_ok(1,2) refl this, of demo_apply "''box''"]
  show ?thesis by (simp add: demo_tab_def demo_pane_def)
qed

lemma layouts_match_panes_witness: "page_consistent (apply_workspace demo_apply ''box'' demo_state demo_page)"
  by (rule layouts_match_panes [OF demo_ok])

lemma active_tab_exists_witness:
  "case tr_active (pg_reg (apply_workspace demo_apply ''box'' demo_state demo_page)) of None \<Rightarrow> False
     | Some i \<Rightarrow> i \<in> {''t1'', ''t2''}"
  using active_tab_exists [OF demo_ok(1,2), of demo_apply "''box''"]
  by (auto simp: demo_state_def split: option.splits)

end
