(* ===== verification/Connection_Watch.thy ===== *)
theory Connection_Watch
  imports Js
begin

section \<open>The timers of a session's connection\<close>

text \<open>
  Model of \<open>terminal/transport/session_connection_lifecycle.js\<close>: the health monitor, the connect
  timer, the resume probe and the attach watch of a session, and the socket each of them was set for.
  The operations act on one session, so the state is that of one session with the flag of the
  lifecycle; a socket is its identity. The time and the state of the socket are arguments of each
  operation. Pings and closes are outputs: what closing does to the session is another component.
\<close>

datatype close_reason = ProbeFailed | ProbeTimedOut | HealthTimeout | PingFailed | ConnectTimedOut | AttachTimedOut

datatype link_out = LkPing nat | LkClose nat close_reason | LkFlush

record watch =
  wa_uid :: nat
  wa_socket :: nat
  wa_started :: int
  wa_epoch :: nat
  wa_received :: nat
  wa_applied :: nat
  wa_phase :: string
  wa_progress :: int
  wa_idle :: int
  wa_deadline :: int

record link_config =
  lc_health :: int
  lc_agent :: int
  lc_attach_max :: int

record link =
  lk_disposed :: bool
  lk_tracked :: bool
  lk_closed :: bool
  lk_socket :: "nat option"
  lk_epoch :: nat
  lk_received :: nat
  lk_applied :: nat
  lk_phase :: string
  lk_committed :: bool
  lk_agent :: bool
  lk_health_at :: int
  lk_reconnect :: bool
  lk_reconnect_pending :: bool
  lk_health :: "nat option"
  lk_connect :: "nat option"
  lk_probe :: "(nat \<times> int) option"
  lk_attach :: "(nat \<times> nat \<times> int) option"
  lk_armed :: bool
  lk_attach_started :: int
  lk_attach_timeout :: int
  lk_watch :: "watch option"
  lk_next :: nat
  lk_sockets :: nat

text \<open>What the browser reports when an operation runs.\<close>

record link_env =
  le_now :: int
  le_open :: "nat \<Rightarrow> bool"
  le_connecting :: "nat \<Rightarrow> bool"
  le_active :: bool
  le_ping_throws :: bool

subsection \<open>Clearing\<close>

definition clear_reconnect :: "link \<Rightarrow> link" where
  "clear_reconnect s = s\<lparr>lk_reconnect := False, lk_reconnect_pending := False\<rparr>"

definition clear_health :: "link \<Rightarrow> bool \<times> link" where
  "clear_health s = (lk_health s \<noteq> None, s\<lparr>lk_health := None\<rparr>)"

definition clear_connect :: "link \<Rightarrow> bool \<times> link" where
  "clear_connect s = (lk_connect s \<noteq> None, s\<lparr>lk_connect := None\<rparr>)"

definition clear_attach :: "link \<Rightarrow> bool \<times> link" where
  "clear_attach s = (lk_attach s \<noteq> None, s\<lparr>lk_watch := None, lk_attach := None, lk_armed := False\<rparr>)"

definition clear_probe :: "link \<Rightarrow> bool \<times> link" where
  "clear_probe s = (lk_probe s \<noteq> None, s\<lparr>lk_probe := None\<rparr>)"

definition clear_connection :: "link \<Rightarrow> link" where
  "clear_connection s =
     (snd (clear_probe (snd (clear_attach (snd (clear_health (snd (clear_connect s))))))))\<lparr>lk_tracked := False\<rparr>"

subsection \<open>Health and probes\<close>

definition mark_health :: "link_env \<Rightarrow> nat option \<Rightarrow> link \<Rightarrow> bool \<times> link \<times> link_out list" where
  "mark_health v socket s = (if lk_disposed s \<or> lk_socket s \<noteq> socket then (False, s, [])
     else (True, snd (clear_probe (s\<lparr>lk_health_at := le_now v\<rparr>)), [LkFlush]))"

definition probe_open :: "link_env \<Rightarrow> link \<Rightarrow> bool \<times> link \<times> link_out list" where
  "probe_open v s = (case lk_socket s of None \<Rightarrow> (False, s, [])
     | Some k \<Rightarrow> if lk_disposed s \<or> \<not> le_open v k \<or> lk_closed s \<or> \<not> le_active v then (False, s, [])
         else let s1 = snd (clear_probe s)
           in if le_ping_throws v then (False, s1, [LkClose k ProbeFailed])
              else (True, s1\<lparr>lk_tracked := True, lk_probe := Some (k, le_now v)\<rparr>, [LkPing k]))"

definition probe_fires :: "link_env \<Rightarrow> link \<Rightarrow> link \<times> link_out list" where
  "probe_fires v s = (case lk_probe s of None \<Rightarrow> (s, [])
     | Some (k, started) \<Rightarrow> let s1 = s\<lparr>lk_probe := None\<rparr>
         in if lk_disposed s1 \<or> lk_socket s1 \<noteq> Some k \<or> \<not> le_open v k then (s1, [])
            else (s1, if lk_health_at s1 < started then [LkClose k ProbeTimedOut] else []))"

definition start_health :: "link_env \<Rightarrow> nat \<Rightarrow> link \<Rightarrow> bool \<times> link \<times> link_out list" where
  "start_health v k s = (if lk_disposed s then (False, s, [])
     else case mark_health v (Some k) (snd (clear_health s)) of (_, s1, outs) \<Rightarrow>
       (True, s1\<lparr>lk_tracked := True, lk_health := Some k\<rparr>, outs))"

definition health_fires :: "link_config \<Rightarrow> link_env \<Rightarrow> link \<Rightarrow> link \<times> link_out list" where
  "health_fires c v s = (case lk_health s of None \<Rightarrow> (s, [])
     | Some k \<Rightarrow> if lk_disposed s \<or> lk_socket s \<noteq> Some k then (snd (clear_health s), [])
         else if \<not> le_open v k then (s, [])
         else if 0 < lk_health_at s \<and> (if lk_agent s then lc_agent c else lc_health c) < le_now v - lk_health_at s
           then (s, [LkClose k HealthTimeout])
         else (s, if le_ping_throws v then [LkClose k PingFailed] else [LkPing k]))"

subsection \<open>Connecting\<close>

definition start_connect :: "nat \<Rightarrow> link \<Rightarrow> bool \<times> link" where
  "start_connect k s = (if lk_disposed s then (False, s)
     else (True, (snd (clear_connect s))\<lparr>lk_tracked := True, lk_connect := Some k\<rparr>))"

definition connect_fires :: "link_env \<Rightarrow> link \<Rightarrow> link \<times> link_out list" where
  "connect_fires v s = (case lk_connect s of None \<Rightarrow> (s, [])
     | Some k \<Rightarrow> let s1 = s\<lparr>lk_connect := None\<rparr>
         in if lk_disposed s1 \<or> lk_socket s1 \<noteq> Some k \<or> \<not> le_connecting v k then (s1, [])
            else (s1, [LkClose k ConnectTimedOut]))"

subsection \<open>The attach watch\<close>

definition watch_current :: "watch \<Rightarrow> link \<Rightarrow> bool" where
  "watch_current w s = (\<not> lk_disposed s \<and> \<not> lk_closed s
     \<and> (case lk_watch s of None \<Rightarrow> False | Some x \<Rightarrow> wa_uid x = wa_uid w)
     \<and> lk_socket s = Some (wa_socket w) \<and> lk_epoch s = wa_epoch w)"

definition watch_progress :: "watch \<Rightarrow> link \<Rightarrow> bool" where
  "watch_progress w s = (lk_phase s \<noteq> wa_phase w \<and> lk_phase s \<in> {''replaying'', ''awaiting_commit''}
     \<or> wa_received w < lk_received s \<or> wa_applied w < lk_applied s)"

definition watch_seen :: "int \<Rightarrow> link \<Rightarrow> watch \<Rightarrow> watch" where
  "watch_seen checked_at s w =
     (if watch_progress w s then w\<lparr>wa_progress := checked_at, wa_received := lk_received s, wa_applied := lk_applied s\<rparr> else w)
       \<lparr>wa_phase := lk_phase s\<rparr>"

definition watch_expired :: "int \<Rightarrow> watch \<Rightarrow> bool" where
  "watch_expired checked_at w = (wa_deadline w \<le> checked_at \<or> wa_idle w \<le> checked_at - wa_progress w)"

definition inspect_attach :: "watch \<Rightarrow> int \<Rightarrow> link \<Rightarrow> bool \<times> link" where
  "inspect_attach w checked_at s = (if \<not> watch_current w s \<or> lk_committed s then (False, s)
     else let w' = watch_seen checked_at s w in (watch_expired checked_at w', s\<lparr>lk_watch := Some w'\<rparr>))"

definition check_attach :: "link_env \<Rightarrow> nat \<Rightarrow> link \<Rightarrow> bool \<times> link" where
  "check_attach v socket s = (case lk_watch s of None \<Rightarrow> (False, s)
     | Some w \<Rightarrow> if socket \<noteq> wa_socket w then (False, s) else inspect_attach w (le_now v) s)"

definition due_at :: "watch \<Rightarrow> int" where
  "due_at w = min (wa_deadline w) (wa_progress w + wa_idle w)"

definition start_attach :: "link_config \<Rightarrow> link_env \<Rightarrow> nat \<Rightarrow> int \<Rightarrow> link \<Rightarrow> bool \<times> link" where
  "start_attach c v socket timeout s = (if lk_disposed s then (False, s)
     else let kept = (case lk_watch s of None \<Rightarrow> None | Some w \<Rightarrow> if watch_current w s then Some w else None);
              s1 = snd (clear_attach s);
              started = (case kept of Some w \<Rightarrow> wa_started w | None \<Rightarrow> le_now v);
              w = \<lparr>wa_uid = lk_next s, wa_socket = socket, wa_started = started, wa_epoch = lk_epoch s,
                   wa_received = lk_received s, wa_applied = lk_applied s, wa_phase = lk_phase s,
                   wa_progress = started, wa_idle = timeout,
                   wa_deadline = (case kept of Some p \<Rightarrow> wa_deadline p | None \<Rightarrow> started + max timeout (lc_attach_max c))\<rparr>
          in (True, s1\<lparr>lk_attach_started := started, lk_attach_timeout := timeout, lk_tracked := True,
                lk_watch := Some w, lk_next := Suc (lk_next s), lk_attach := Some (wa_uid w, socket, due_at w), lk_armed := True\<rparr>))"

text \<open>
  The attach timer fires. \<open>lk_attach\<close> is the field that keeps its handle, which a callback that finds
  its watch superseded leaves alone; \<open>lk_armed\<close> says that the timer is still to fire.
\<close>

definition attach_fires :: "link_env \<Rightarrow> link \<Rightarrow> link \<times> link_out list" where
  "attach_fires v s0 = (case (lk_attach s0, lk_watch s0) of
       (Some (u, socket, due), Some w) \<Rightarrow> let s = s0\<lparr>lk_armed := False\<rparr> in
          if wa_uid w \<noteq> u \<or> \<not> watch_current w s then (s, [])
          else let s1 = s\<lparr>lk_attach := None\<rparr>
            in if lk_committed s1 then (s1\<lparr>lk_watch := None\<rparr>, [])
               else (case inspect_attach w (max (le_now v) due) s1 of (expired, s2) \<Rightarrow>
                  if expired then (s2\<lparr>lk_watch := None\<rparr>, [LkClose socket AttachTimedOut])
                  else (case lk_watch s2 of None \<Rightarrow> (s2, [])
                    | Some w' \<Rightarrow> (s2\<lparr>lk_attach := Some (u, socket, due_at w'), lk_armed := True\<rparr>, [])))
     | _ \<Rightarrow> (s0\<lparr>lk_armed := False\<rparr>, []))"

subsection \<open>Disposing\<close>

definition link_dispose_session :: "link \<Rightarrow> link" where
  "link_dispose_session s = clear_connection (clear_reconnect s)"

definition link_dispose :: "link \<Rightarrow> bool \<times> link" where
  "link_dispose s = (if lk_disposed s then (False, s)
     else let s1 = s\<lparr>lk_disposed := True\<rparr>
       in (True, if lk_tracked s1 then link_dispose_session s1 else s1))"

definition link_start :: link where
  "link_start = \<lparr>lk_disposed = False, lk_tracked = False, lk_closed = False, lk_socket = None, lk_epoch = 0, lk_received = 0,
     lk_applied = 0, lk_phase = [], lk_committed = False, lk_agent = False, lk_health_at = 0, lk_reconnect = False,
     lk_reconnect_pending = False, lk_health = None, lk_connect = None, lk_probe = None, lk_attach = None, lk_armed = False,
     lk_attach_started = 0, lk_attach_timeout = 0, lk_watch = None, lk_next = 0, lk_sockets = 0\<rparr>"

subsection \<open>The machine\<close>

text \<open>
  Besides the operations, what the rest of the page does to the session: a new socket is one that was
  never used, the connection epoch only grows, a closed session stays closed.
\<close>

datatype link_event =
    LvNewSocket | LvDropSocket | LvEpoch | LvClosed | LvCommitted bool | LvAgent bool
  | LvCursor nat nat string
  | LvMark link_env "nat option" | LvProbe link_env | LvProbeFires link_env
  | LvHealth link_env nat | LvHealthFires link_env
  | LvConnect nat | LvConnectFires link_env
  | LvAttach link_env nat int | LvAttachFires link_env | LvCheck link_env nat
  | LvClearAttach | LvClearConnection | LvClearReconnect | LvDispose

fun lk_step :: "link_config \<Rightarrow> link \<Rightarrow> link_event \<Rightarrow> link \<times> link_out list" where
  "lk_step c s LvNewSocket = (s\<lparr>lk_socket := Some (lk_sockets s), lk_sockets := Suc (lk_sockets s)\<rparr>, [])"
| "lk_step c s LvDropSocket = (s\<lparr>lk_socket := None\<rparr>, [])"
| "lk_step c s LvEpoch = (s\<lparr>lk_epoch := Suc (lk_epoch s)\<rparr>, [])"
| "lk_step c s LvClosed = (s\<lparr>lk_closed := True\<rparr>, [])"
| "lk_step c s (LvCommitted b) = (s\<lparr>lk_committed := b\<rparr>, [])"
| "lk_step c s (LvAgent b) = (s\<lparr>lk_agent := b\<rparr>, [])"
| "lk_step c s (LvCursor r a p) = (s\<lparr>lk_received := r, lk_applied := a, lk_phase := p\<rparr>, [])"
| "lk_step c s (LvMark v k) = snd (mark_health v k s)"
| "lk_step c s (LvProbe v) = snd (probe_open v s)"
| "lk_step c s (LvProbeFires v) = probe_fires v s"
| "lk_step c s (LvHealth v k) = snd (start_health v k s)"
| "lk_step c s (LvHealthFires v) = health_fires c v s"
| "lk_step c s (LvConnect k) = (snd (start_connect k s), [])"
| "lk_step c s (LvConnectFires v) = connect_fires v s"
| "lk_step c s (LvAttach v k t) = (if k < lk_sockets s then (snd (start_attach c v k t s), []) else (s, []))"
| "lk_step c s (LvAttachFires v) = (if lk_armed s then attach_fires v s else (s, []))"
| "lk_step c s (LvCheck v k) = (snd (check_attach v k s), [])"
| "lk_step c s LvClearAttach = (snd (clear_attach s), [])"
| "lk_step c s LvClearConnection = (clear_connection s, [])"
| "lk_step c s LvClearReconnect = (clear_reconnect s, [])"
| "lk_step c s LvDispose = (snd (link_dispose s), [])"

definition lk_next_state :: "link_config \<Rightarrow> link \<Rightarrow> link_event \<Rightarrow> link" where
  "lk_next_state c s e = fst (lk_step c s e)"

text \<open>A watch that is out of date for good.\<close>

definition outdated :: "watch \<Rightarrow> link \<Rightarrow> bool" where
  "outdated w s = (lk_disposed s \<or> lk_closed s \<or> lk_socket s \<noteq> Some (wa_socket w) \<or> wa_epoch w < lk_epoch s)"

definition watch_inv :: "link \<Rightarrow> bool" where
  "watch_inv s = ((case lk_socket s of None \<Rightarrow> True | Some k \<Rightarrow> k < lk_sockets s)
     \<and> (case lk_watch s of None \<Rightarrow> True
        | Some w \<Rightarrow> wa_socket w < lk_sockets s \<and> wa_epoch w \<le> lk_epoch s \<and> wa_uid w < lk_next s
            \<and> (case lk_attach s of None \<Rightarrow> False
               | Some (u, k, due) \<Rightarrow> u = wa_uid w \<and> k = wa_socket w \<and> due \<le> wa_deadline w)
            \<and> (lk_armed s \<or> outdated w s)))"

lemma watch_invD:
  assumes "watch_inv s" "lk_watch s = Some w"
  shows "wa_socket w < lk_sockets s" "wa_epoch w \<le> lk_epoch s" "wa_uid w < lk_next s"
    "\<exists>due. lk_attach s = Some (wa_uid w, wa_socket w, due) \<and> due \<le> wa_deadline w" "lk_armed s \<or> outdated w s"
  using assms by (auto simp: watch_inv_def split: option.splits)

lemma watch_invI:
  assumes "\<And>k. lk_socket s = Some k \<Longrightarrow> k < lk_sockets s"
    and "\<And>w. lk_watch s = Some w \<Longrightarrow> wa_socket w < lk_sockets s \<and> wa_epoch w \<le> lk_epoch s \<and> wa_uid w < lk_next s
       \<and> (\<exists>due. lk_attach s = Some (wa_uid w, wa_socket w, due) \<and> due \<le> wa_deadline w) \<and> (lk_armed s \<or> outdated w s)"
  shows "watch_inv s"
proof -
  have "case lk_watch s of None \<Rightarrow> True
        | Some w \<Rightarrow> wa_socket w < lk_sockets s \<and> wa_epoch w \<le> lk_epoch s \<and> wa_uid w < lk_next s
            \<and> (case lk_attach s of None \<Rightarrow> False
               | Some (u, k, due) \<Rightarrow> u = wa_uid w \<and> k = wa_socket w \<and> due \<le> wa_deadline w)
            \<and> (lk_armed s \<or> outdated w s)"
    using assms(2) by (cases "lk_watch s") auto
  then show ?thesis using assms(1) by (simp add: watch_inv_def split: option.splits)
qed

lemma watch_current_iff:
  "lk_watch s = Some w \<Longrightarrow> wa_epoch w \<le> lk_epoch s \<Longrightarrow> watch_current w s = (\<not> outdated w s)"
  by (auto simp: watch_current_def outdated_def)

text \<open>Operations that leave the watch, its timer and the session's identity alone.\<close>

definition same_watch :: "link \<Rightarrow> link \<Rightarrow> bool" where
  "same_watch s s' = (lk_watch s' = lk_watch s \<and> lk_attach s' = lk_attach s \<and> lk_armed s' = lk_armed s \<and> lk_socket s' = lk_socket s
     \<and> lk_sockets s' = lk_sockets s \<and> lk_epoch s' = lk_epoch s \<and> lk_next s' = lk_next s \<and> lk_disposed s' = lk_disposed s
     \<and> lk_closed s' = lk_closed s)"

lemma watch_inv_socket: "watch_inv s \<Longrightarrow> lk_socket s = Some k \<Longrightarrow> k < lk_sockets s"
  by (simp add: watch_inv_def)

lemma same_watch_inv:
  assumes "same_watch s s'" "watch_inv s"
  shows "watch_inv s'"
proof -
  have e: "lk_watch s' = lk_watch s" "lk_attach s' = lk_attach s" "lk_armed s' = lk_armed s" "lk_socket s' = lk_socket s"
    "lk_sockets s' = lk_sockets s" "lk_epoch s' = lk_epoch s" "lk_next s' = lk_next s" "outdated w s' = outdated w s" for w
    using assms(1) by (simp_all add: same_watch_def outdated_def)
  show ?thesis
  proof (rule watch_invI)
    fix k assume "lk_socket s' = Some k"
    then show "k < lk_sockets s'" using watch_inv_socket [OF assms(2)] by (simp add: e)
  next
    fix w assume "lk_watch s' = Some w"
    then have "lk_watch s = Some w" by (simp add: e)
    from watch_invD [OF assms(2) this] show "wa_socket w < lk_sockets s' \<and> wa_epoch w \<le> lk_epoch s' \<and> wa_uid w < lk_next s'
       \<and> (\<exists>due. lk_attach s' = Some (wa_uid w, wa_socket w, due) \<and> due \<le> wa_deadline w) \<and> (lk_armed s' \<or> outdated w s')"
      by (simp add: e)
  qed
qed

lemma same_watch_ops:
  "same_watch s (lk_next_state c s (LvCommitted b))" "same_watch s (lk_next_state c s (LvAgent b))"
  "same_watch s (lk_next_state c s (LvCursor r a p))" "same_watch s (lk_next_state c s (LvMark v k))"
  "same_watch s (lk_next_state c s (LvProbe v))" "same_watch s (lk_next_state c s (LvProbeFires v))"
  "same_watch s (lk_next_state c s (LvHealth v j))" "same_watch s (lk_next_state c s (LvHealthFires v))"
  "same_watch s (lk_next_state c s (LvConnect j))" "same_watch s (lk_next_state c s (LvConnectFires v))"
  "same_watch s (lk_next_state c s LvClearReconnect)"
  by (auto simp: same_watch_def lk_next_state_def mark_health_def probe_open_def probe_fires_def start_health_def
      health_fires_def start_connect_def connect_fires_def clear_probe_def clear_health_def clear_connect_def
      clear_reconnect_def Let_def split: option.splits prod.splits)

lemma seen_fields:
  "wa_uid (watch_seen t s w) = wa_uid w" "wa_socket (watch_seen t s w) = wa_socket w" "wa_epoch (watch_seen t s w) = wa_epoch w"
  "wa_deadline (watch_seen t s w) = wa_deadline w" "wa_idle (watch_seen t s w) = wa_idle w"
  "wa_started (watch_seen t s w) = wa_started w"
  "wa_progress (watch_seen t s w) = wa_progress w \<or> wa_progress (watch_seen t s w) = t"
  by (simp_all add: watch_seen_def)

lemma due_at_deadline [simp]: "due_at w \<le> wa_deadline w"
  by (simp add: due_at_def)

lemma watch_inv_step:
  assumes "watch_inv s"
  shows "watch_inv (lk_next_state c s e)"
proof (cases e)
  case LvNewSocket
  then show ?thesis using assms
    by (intro watch_invI) (auto simp: lk_next_state_def outdated_def dest: watch_inv_socket watch_invD)
next
  case LvDropSocket
  then show ?thesis using assms by (intro watch_invI) (auto simp: lk_next_state_def outdated_def dest: watch_invD)
next
  case LvEpoch
  then show ?thesis using assms
    by (intro watch_invI) (auto simp: lk_next_state_def outdated_def dest: watch_inv_socket watch_invD)
next
  case LvClosed
  then show ?thesis using assms
    by (intro watch_invI) (auto simp: lk_next_state_def outdated_def dest: watch_inv_socket watch_invD)
next
  case (LvAttach v k t)
  then show ?thesis using assms
    by (intro watch_invI)
      (auto simp: lk_next_state_def start_attach_def clear_attach_def Let_def dest: watch_inv_socket watch_invD split: if_splits)
next
  case (LvAttachFires v)
  show ?thesis
  proof (cases "lk_armed s")
    case False
    then show ?thesis using assms LvAttachFires by (simp add: lk_next_state_def)
  next
    case True
    show ?thesis
    proof (cases "lk_watch s")
      case None
      then show ?thesis using assms LvAttachFires True
        by (intro watch_invI) (auto simp: lk_next_state_def attach_fires_def dest: watch_inv_socket split: option.splits)
    next
      case (Some w)
      note d = watch_invD [OF assms Some]
      obtain due where at: "lk_attach s = Some (wa_uid w, wa_socket w, due)" "due \<le> wa_deadline w" using d(4) by blast
      let ?s = "s\<lparr>lk_armed := False\<rparr>"
      have cur: "watch_current w ?s = (\<not> outdated w s)"
        using watch_current_iff [of ?s w] Some d(2) by (simp add: outdated_def)
      show ?thesis
      proof (cases "outdated w s")
        case True
        then have "lk_next_state c s e = ?s" using \<open>lk_armed s\<close> LvAttachFires cur Some at(1)
          by (simp add: lk_next_state_def attach_fires_def Let_def)
        then show ?thesis using assms True Some d at
          by (intro watch_invI) (auto simp: outdated_def dest: watch_inv_socket)
      next
        case False
        let ?t = "max (le_now v) due"
        have cur2: "watch_current w (?s\<lparr>lk_attach := None\<rparr>)" using cur False by (simp add: watch_current_def)
        have n: "lk_next_state c s e = (if lk_committed s then ?s\<lparr>lk_attach := None, lk_watch := None\<rparr>
            else if watch_expired ?t (watch_seen ?t (?s\<lparr>lk_attach := None\<rparr>) w) then ?s\<lparr>lk_attach := None, lk_watch := None\<rparr>
            else ?s\<lparr>lk_watch := Some (watch_seen ?t (?s\<lparr>lk_attach := None\<rparr>) w),
                lk_attach := Some (wa_uid w, wa_socket w, due_at (watch_seen ?t (?s\<lparr>lk_attach := None\<rparr>) w)), lk_armed := True\<rparr>)"
          using \<open>lk_armed s\<close> LvAttachFires cur cur2 False Some at(1)
          by (simp add: lk_next_state_def attach_fires_def inspect_attach_def Let_def)
        show ?thesis unfolding n using assms d
          by (intro watch_invI) (auto simp: seen_fields dest: watch_inv_socket split: if_splits)
      qed
    qed
  qed
next
  case (LvCheck v k)
  show ?thesis
  proof (cases "lk_next_state c s e = s")
    case False
    then obtain w where w: "lk_watch s = Some w" "lk_next_state c s e = s\<lparr>lk_watch := Some (watch_seen (le_now v) s w)\<rparr>"
      using LvCheck by (auto simp: lk_next_state_def check_attach_def inspect_attach_def Let_def split: option.splits if_splits)
    show ?thesis unfolding w(2) using assms watch_invD [OF assms w(1)]
      by (intro watch_invI) (auto simp: seen_fields outdated_def dest: watch_inv_socket)
  qed (simp add: assms)
next
  case LvClearAttach
  then show ?thesis using assms
    by (intro watch_invI) (auto simp: lk_next_state_def clear_attach_def dest: watch_inv_socket)
next
  case LvClearConnection
  then show ?thesis using assms
    by (intro watch_invI) (auto simp: lk_next_state_def clear_connection_def clear_attach_def clear_probe_def clear_health_def
        clear_connect_def dest: watch_inv_socket)
next
  case LvDispose
  then show ?thesis using assms
    by (intro watch_invI) (auto simp: lk_next_state_def link_dispose_def link_dispose_session_def clear_connection_def clear_reconnect_def
        clear_attach_def clear_probe_def clear_health_def clear_connect_def outdated_def Let_def
        dest: watch_inv_socket watch_invD split: if_splits)
qed (use assms same_watch_ops same_watch_inv in \<open>metis\<close>)+

interpretation lkm: invariant_machine "lk_next_state c" watch_inv for c
  by standard (rule watch_inv_step)

subsection \<open>An attach ends\<close>

lemma link_start_inv: "watch_inv link_start"
  by (simp add: watch_inv_def link_start_def)

text \<open>
  Whatever happened before, an attach that is watched and not yet replayed has a timer that still
  fires, no later than the deadline of the watch; and when it fires at or after the deadline,
  the socket is closed. So an attach cannot stay unfinished for ever.
\<close>

theorem attach_ends_by_deadline:
  assumes "s = foldl (lk_next_state c) link_start es" "lk_watch s = Some w" "watch_current w s" "\<not> lk_committed s"
  shows "lk_armed s \<and> (\<exists>due. lk_attach s = Some (wa_uid w, wa_socket w, due) \<and> due \<le> wa_deadline w)
     \<and> (\<forall>v. wa_deadline w \<le> le_now v \<longrightarrow> snd (lk_step c s (LvAttachFires v)) = [LkClose (wa_socket w) AttachTimedOut]
          \<and> lk_watch (fst (lk_step c s (LvAttachFires v))) = None)"
proof -
  have inv: "watch_inv s" unfolding assms(1) by (rule lkm.inv_run [OF link_start_inv])
  note d = watch_invD [OF inv assms(2)]
  have armed: "lk_armed s" using d(5) assms(3) watch_current_iff [OF assms(2) d(2)] by simp
  obtain due where at: "lk_attach s = Some (wa_uid w, wa_socket w, due)" "due \<le> wa_deadline w" using d(4) by blast
  have "snd (lk_step c s (LvAttachFires v)) = [LkClose (wa_socket w) AttachTimedOut] \<and> lk_watch (fst (lk_step c s (LvAttachFires v))) = None"
    if late: "wa_deadline w \<le> le_now v" for v
  proof -
    let ?s = "s\<lparr>lk_armed := False\<rparr>"
    have cur: "watch_current w ?s" "watch_current w (?s\<lparr>lk_attach := None\<rparr>)" using assms(3) by (simp_all add: watch_current_def)
    have "watch_expired (max (le_now v) due) (watch_seen t (?s\<lparr>lk_attach := None\<rparr>) w)" for t
      using late by (auto simp: watch_expired_def seen_fields)
    with armed at(1) assms(2,4) cur show ?thesis by (simp add: attach_fires_def inspect_attach_def Let_def)
  qed
  with armed at show ?thesis by blast
qed

definition demo_link :: link_config where
  "demo_link = \<lparr>lc_health = 25000, lc_agent = 45000, lc_attach_max = 60000\<rparr>"

definition demo_at :: "int \<Rightarrow> link_env" where
  "demo_at t = \<lparr>le_now = t, le_open = (\<lambda>k. True), le_connecting = (\<lambda>k. False), le_active = True, le_ping_throws = False\<rparr>"

lemma attach_ends_by_deadline_witness:
  "snd (lk_step demo_link (foldl (lk_next_state demo_link) link_start [LvNewSocket, LvAttach (demo_at 100) 0 8000])
     (LvAttachFires (demo_at 60100))) = [LkClose 0 AttachTimedOut]"
proof -
  let ?es = "[LvNewSocket, LvAttach (demo_at 100) 0 8000]"
  let ?s = "foldl (lk_next_state demo_link) link_start ?es"
  let ?w = "\<lparr>wa_uid = 0, wa_socket = 0, wa_started = 100, wa_epoch = 0, wa_received = 0, wa_applied = 0, wa_phase = [],
      wa_progress = 100, wa_idle = 8000, wa_deadline = 60100\<rparr>"
  have "lk_watch ?s = Some ?w" "watch_current ?w ?s" "\<not> lk_committed ?s"
    by (simp_all add: lk_next_state_def start_attach_def clear_attach_def link_start_def demo_at_def demo_link_def
        watch_current_def Let_def)
  note e = attach_ends_by_deadline [OF refl this]
  have "wa_deadline ?w \<le> le_now (demo_at 60100)" by (simp add: demo_at_def)
  with e have "snd (lk_step demo_link ?s (LvAttachFires (demo_at 60100))) = [LkClose (wa_socket ?w) AttachTimedOut]" by blast
  then show ?thesis by (simp only: watch.select_convs)
qed

subsection \<open>Restarting an attach does not move its deadline\<close>

lemma deadline_step:
  assumes "lk_watch s = Some w" "watch_current w s" "lk_watch (lk_next_state c s e) = Some w'"
  shows "wa_deadline w' = wa_deadline w \<and> wa_started w' = wa_started w"
proof (cases e)
  case (LvAttach v k t)
  then show ?thesis using assms
    by (auto simp: lk_next_state_def start_attach_def watch_current_def Let_def split: if_splits)
next
  case (LvAttachFires v)
  then show ?thesis using assms
    by (auto simp: lk_next_state_def attach_fires_def inspect_attach_def seen_fields Let_def split: if_splits option.splits)
next
  case (LvCheck v k)
  then show ?thesis using assms
    by (auto simp: lk_next_state_def check_attach_def inspect_attach_def seen_fields Let_def split: if_splits)
next
  case LvDispose
  then show ?thesis using assms(1,3)
    by (auto simp: lk_next_state_def link_dispose_def link_dispose_session_def clear_connection_def clear_reconnect_def
        clear_attach_def clear_probe_def clear_health_def clear_connect_def Let_def split: if_splits)
next
  case LvClearConnection
  then show ?thesis using assms(3)
    by (simp add: lk_next_state_def clear_connection_def clear_attach_def clear_probe_def clear_health_def clear_connect_def)
next
  case LvClearAttach
  then show ?thesis using assms(3) by (simp add: lk_next_state_def clear_attach_def)
qed (use assms(1,3) same_watch_ops [of s c] in \<open>simp_all add: same_watch_def lk_next_state_def\<close>)

definition watching :: "link \<Rightarrow> bool" where
  "watching s = (case lk_watch s of None \<Rightarrow> False | Some w \<Rightarrow> watch_current w s)"

text \<open>
  As long as one attach after the other is watched for the same connection, restarting the watch
  never moves the deadline: it stays the one of the first start, so a server that keeps asking for
  more time cannot keep an unfinished attach open.
\<close>

theorem restart_keeps_deadline:
  assumes "\<forall>k \<le> length es. watching (foldl (lk_next_state c) s (take k es))"
    and "lk_watch s = Some w" "lk_watch (foldl (lk_next_state c) s es) = Some w'"
  shows "wa_deadline w' = wa_deadline w \<and> wa_started w' = wa_started w"
  using assms
proof (induction es arbitrary: s w)
  case (Cons e es)
  let ?t = "lk_next_state c s e"
  have cur: "watch_current w s" using Cons.prems(1) [rule_format, of 0] Cons.prems(2) by (simp add: watching_def)
  have w: "\<forall>k \<le> length es. watching (foldl (lk_next_state c) ?t (take k es))"
  proof (intro allI impI)
    fix k assume "k \<le> length es"
    then show "watching (foldl (lk_next_state c) ?t (take k es))" using Cons.prems(1) [rule_format, of "Suc k"] by simp
  qed
  obtain w1 where w1: "lk_watch ?t = Some w1" using w [rule_format, of 0] by (auto simp: watching_def split: option.splits)
  have "wa_deadline w' = wa_deadline w1 \<and> wa_started w' = wa_started w1"
    by (rule Cons.IH [OF w w1]) (use Cons.prems(3) in simp)
  with deadline_step [OF Cons.prems(2) cur w1] show ?case by simp
qed simp

lemma restart_keeps_deadline_witness:
  "\<exists>w'. lk_watch (foldl (lk_next_state demo_link) (foldl (lk_next_state demo_link) link_start [LvNewSocket, LvAttach (demo_at 100) 0 8000])
      [LvAttach (demo_at 5000) 0 45000]) = Some w' \<and> wa_deadline w' = 60100 \<and> wa_idle w' = 45000"
proof -
  let ?s = "foldl (lk_next_state demo_link) link_start [LvNewSocket, LvAttach (demo_at 100) 0 8000]"
  let ?es = "[LvAttach (demo_at 5000) 0 45000]"
  note defs = lk_next_state_def start_attach_def clear_attach_def link_start_def demo_at_def demo_link_def watch_current_def
    watching_def Let_def
  have t: "\<forall>k \<le> length ?es. watching (foldl (lk_next_state demo_link) ?s (take k ?es))"
    by (auto simp: defs le_Suc_eq)
  obtain w where w: "lk_watch ?s = Some w" "wa_deadline w = 60100" by (simp add: defs)
  obtain w' where w': "lk_watch (foldl (lk_next_state demo_link) ?s ?es) = Some w'" "wa_idle w' = 45000" by (simp add: defs)
  from restart_keeps_deadline [OF t w(1) w'(1)] w w' show ?thesis by simp
qed

text \<open>
  A restarted watch counts its progress from the start of the first one: progress seen before the
  restart is forgotten, and the idle limit of the new watch may be over at once.
\<close>

lemma restart_forgets_progress:
  assumes "lk_watch s = Some w" "watch_current w s" "start_attach c v k t s = (True, s')"
  shows "\<exists>w'. lk_watch s' = Some w' \<and> wa_progress w' = wa_started w \<and> due_at w' = min (wa_deadline w) (wa_started w + t)"
  using assms by (auto simp: start_attach_def due_at_def watch_current_def Let_def split: if_splits)

subsection \<open>Health and probes\<close>

text \<open>A probe that the server does not answer closes the socket; an answer ends the probe.\<close>

lemma unanswered_probe_closes:
  assumes "probe_open v s = (True, s', outs)" "lk_health_at s < le_now v" "lk_socket s = Some k" "le_open w k"
  shows "snd (probe_fires w s') = [LkClose k ProbeTimedOut]"
  using assms by (auto simp: probe_open_def probe_fires_def clear_probe_def Let_def split: if_splits)

lemma answer_ends_probe:
  assumes "mark_health v (lk_socket s) s = (True, s', outs)"
  shows "lk_probe s' = None \<and> lk_health_at s' = le_now v"
  using assms by (auto simp: mark_health_def clear_probe_def split: if_splits)

text \<open>A socket that has been silent for longer than the limit is closed at the next tick of the monitor.\<close>

lemma silent_socket_closes:
  assumes "lk_health s = Some k" "lk_socket s = Some k" "\<not> lk_disposed s" "le_open v k" "0 < lk_health_at s"
    and "(if lk_agent s then lc_agent c else lc_health c) < le_now v - lk_health_at s"
  shows "health_fires c v s = (s, [LkClose k HealthTimeout])"
  using assms by (simp add: health_fires_def)

end
