(* ===== verification/Runtime_Timers.thy ===== *)
theory Runtime_Timers
  imports Js
begin

section \<open>The timers of the transport runtime\<close>

text \<open>
  Model of \<open>terminal/transport/transport_runtime_lifecycle.js\<close>: for every session a priority timer, a
  retry timer with a count of attempts and a measuring frame with another, and for the page one
  pending synchronisation and one deferred one. A session is its identity, a callback the identity it
  was given; the timers the browser holds are a list, and \<open>works\<close> says whether the browser gives out
  timers at all (the code accepts a page without a window). A callback that runs is logged.
\<close>

datatype slot = Priority | Retry | Measure | DeferredSync | Microtask

record rt_timer_entry =
  te_handle :: nat
  te_slot :: slot
  te_session :: nat
  te_callback :: nat

record timers =
  tm_priority :: "(nat, nat) jsmap"
  tm_retry :: "(nat, nat) jsmap"
  tm_attempts :: "(nat, nat) jsmap"
  tm_frames :: "(nat, nat) jsmap"
  tm_measured :: "(nat, nat) jsmap"
  tm_sync :: bool
  tm_sync_timer :: "nat option"
  tm_disposed :: bool
  tm_live :: "rt_timer_entry list"
  tm_next :: nat
  tm_ran :: "(slot \<times> nat \<times> nat) list"

definition timers_start :: timers where
  "timers_start = \<lparr>tm_priority = [], tm_retry = [], tm_attempts = [], tm_frames = [], tm_measured = [], tm_sync = False,
     tm_sync_timer = None, tm_disposed = False, tm_live = [], tm_next = 1, tm_ran = []\<rparr>"

definition arm_timer :: "slot \<Rightarrow> nat \<Rightarrow> nat \<Rightarrow> timers \<Rightarrow> nat \<times> timers" where
  "arm_timer k session cb s = (tm_next s, s\<lparr>tm_next := Suc (tm_next s), tm_live := tm_live s @
     [\<lparr>te_handle = tm_next s, te_slot = k, te_session = session, te_callback = cb\<rparr>]\<rparr>)"

definition cancel_timer :: "nat \<Rightarrow> timers \<Rightarrow> timers" where
  "cancel_timer h s = s\<lparr>tm_live := filter (\<lambda>e. te_handle e \<noteq> h) (tm_live s)\<rparr>"

definition run_callback :: "rt_timer_entry \<Rightarrow> timers \<Rightarrow> timers" where
  "run_callback e s = (if tm_disposed s then s
     else s\<lparr>tm_ran := tm_ran s @ [(te_slot e, te_session e, te_callback e)]\<rparr>)"

subsection \<open>Priority\<close>

definition clear_priority :: "nat \<Rightarrow> timers \<Rightarrow> bool \<times> timers" where
  "clear_priority i s = (case mget (tm_priority s) i of None \<Rightarrow> (False, s)
     | Some h \<Rightarrow> (True, (cancel_timer h s)\<lparr>tm_priority := mdel i (tm_priority s)\<rparr>))"

definition schedule_priority :: "bool \<Rightarrow> nat \<Rightarrow> nat \<Rightarrow> timers \<Rightarrow> bool \<times> timers" where
  "schedule_priority works i cb s = (if tm_disposed s then (False, s)
     else let s1 = snd (clear_priority i s)
       in if \<not> works then (False, s1)
          else (case arm_timer Priority i cb s1 of (h, s2) \<Rightarrow> (True, s2\<lparr>tm_priority := mput i h (tm_priority s2)\<rparr>)))"

subsection \<open>Retries\<close>

definition clear_retry :: "bool \<Rightarrow> nat \<Rightarrow> timers \<Rightarrow> bool \<times> timers" where
  "clear_retry reset i s =
     (let s1 = (case mget (tm_retry s) i of None \<Rightarrow> s
            | Some h \<Rightarrow> (cancel_timer h s)\<lparr>tm_retry := mdel i (tm_retry s)\<rparr>)
      in (mget (tm_retry s) i \<noteq> None, if reset then s1\<lparr>tm_attempts := mdel i (tm_attempts s1)\<rparr> else s1))"

definition schedule_retry :: "bool \<Rightarrow> nat \<Rightarrow> nat \<Rightarrow> timers \<Rightarrow> bool \<times> timers" where
  "schedule_retry works i cb s = (if tm_disposed s \<or> mhas (tm_retry s) i \<or> \<not> works then (False, s)
     else case arm_timer Retry i cb s of (h, s1) \<Rightarrow> (True, s1\<lparr>tm_retry := mput i h (tm_retry s1)\<rparr>))"

definition attempts_of :: "nat \<Rightarrow> timers \<Rightarrow> nat" where
  "attempts_of i s = (case mget (tm_attempts s) i of None \<Rightarrow> 0 | Some n \<Rightarrow> n)"

definition count_retry :: "nat \<Rightarrow> timers \<Rightarrow> nat \<times> timers" where
  "count_retry i s = (let n = min 20 (Suc (attempts_of i s)) in (n, s\<lparr>tm_attempts := mput i n (tm_attempts s)\<rparr>))"

subsection \<open>Measuring\<close>

definition clear_measure :: "nat \<Rightarrow> timers \<Rightarrow> bool \<times> timers" where
  "clear_measure i s = (case mget (tm_frames s) i of None \<Rightarrow> (False, s)
     | Some h \<Rightarrow> (True, (cancel_timer h s)\<lparr>tm_frames := mdel i (tm_frames s)\<rparr>))"

definition measured_of :: "nat \<Rightarrow> timers \<Rightarrow> nat" where
  "measured_of i s = (case mget (tm_measured s) i of None \<Rightarrow> 0 | Some n \<Rightarrow> n)"

definition schedule_measure :: "bool \<Rightarrow> nat \<Rightarrow> nat \<Rightarrow> nat \<Rightarrow> timers \<Rightarrow> bool \<times> timers" where
  "schedule_measure works limit i cb s =
     (if tm_disposed s \<or> mhas (tm_frames s) i \<or> limit \<le> measured_of i s then (False, s)
      else let n = measured_of i s; s1 = s\<lparr>tm_measured := mput i (Suc n) (tm_measured s)\<rparr>
        in if \<not> works then (False, s1\<lparr>tm_measured := (if 0 < n then mput i n (tm_measured s1) else mdel i (tm_measured s1))\<rparr>)
           else (case arm_timer Measure i cb s1 of (h, s2) \<Rightarrow> (True, s2\<lparr>tm_frames := mput i h (tm_frames s2)\<rparr>)))"

definition reset_measured :: "nat \<Rightarrow> timers \<Rightarrow> timers" where
  "reset_measured i s = s\<lparr>tm_measured := mdel i (tm_measured s)\<rparr>"

subsection \<open>Synchronising\<close>

definition schedule_sync :: "nat \<Rightarrow> timers \<Rightarrow> bool \<times> timers" where
  "schedule_sync cb s = (if tm_disposed s \<or> tm_sync s then (False, s)
     else (True, snd (arm_timer Microtask 0 cb (s\<lparr>tm_sync := True\<rparr>))))"

definition schedule_deferred :: "bool \<Rightarrow> nat \<Rightarrow> timers \<Rightarrow> bool \<times> timers" where
  "schedule_deferred works cb s = (if tm_disposed s \<or> tm_sync_timer s \<noteq> None \<or> \<not> works then (False, s)
     else case arm_timer DeferredSync 0 cb s of (h, s1) \<Rightarrow> (True, s1\<lparr>tm_sync_timer := Some h\<rparr>))"

subsection \<open>Firing and disposing\<close>

text \<open>What the closure of a timer does when the browser calls it.\<close>

definition timer_callback :: "rt_timer_entry \<Rightarrow> timers \<Rightarrow> timers" where
  "timer_callback e s = (case te_slot e of
       Priority \<Rightarrow> if mget (tm_priority s) (te_session e) \<noteq> Some (te_handle e) then s
         else run_callback e (s\<lparr>tm_priority := mdel (te_session e) (tm_priority s)\<rparr>)
     | Retry \<Rightarrow> if mget (tm_retry s) (te_session e) \<noteq> Some (te_handle e) then s
         else run_callback e (s\<lparr>tm_retry := mdel (te_session e) (tm_retry s)\<rparr>)
     | Measure \<Rightarrow> if mget (tm_frames s) (te_session e) \<noteq> Some (te_handle e) then s
         else run_callback e (s\<lparr>tm_frames := mdel (te_session e) (tm_frames s)\<rparr>)
     | DeferredSync \<Rightarrow> run_callback e (s\<lparr>tm_sync_timer := None\<rparr>)
     | Microtask \<Rightarrow> run_callback e (s\<lparr>tm_sync := False\<rparr>))"

definition timer_fires :: "nat \<Rightarrow> timers \<Rightarrow> timers" where
  "timer_fires h s = (case List.find (\<lambda>e. te_handle e = h) (tm_live s) of None \<Rightarrow> s
     | Some e \<Rightarrow> timer_callback e (cancel_timer h s))"

definition dispose_session :: "nat \<Rightarrow> timers \<Rightarrow> bool \<times> timers" where
  "dispose_session i s = (case clear_priority i s of (a, s1) \<Rightarrow> (case clear_retry True i s1 of (b, s2) \<Rightarrow>
     (case clear_measure i s2 of (c, s3) \<Rightarrow> (a \<or> b \<or> c, reset_measured i s3))))"

definition timers_dispose :: "nat list \<Rightarrow> timers \<Rightarrow> bool \<times> timers" where
  "timers_dispose sessions s = (if tm_disposed s then (False, s)
     else let s1 = s\<lparr>tm_disposed := True\<rparr>;
              s2 = (case tm_sync_timer s1 of None \<Rightarrow> s1 | Some h \<Rightarrow> cancel_timer h s1)\<lparr>tm_sync_timer := None, tm_sync := False\<rparr>
          in (True, foldl (\<lambda>t i. snd (dispose_session i t)) s2 sessions))"

datatype timer_event =
    TmPriority bool nat nat | TmClearPriority nat | TmRetry bool nat nat | TmClearRetry bool nat | TmCount nat
  | TmMeasure bool nat nat nat | TmClearMeasure nat | TmResetMeasured nat | TmSync nat | TmDeferred bool nat
  | TmFires nat | TmDisposeSession nat | TmDispose "nat list"

fun tm_step :: "timers \<Rightarrow> timer_event \<Rightarrow> timers" where
  "tm_step s (TmPriority w i cb) = snd (schedule_priority w i cb s)"
| "tm_step s (TmClearPriority i) = snd (clear_priority i s)"
| "tm_step s (TmRetry w i cb) = snd (schedule_retry w i cb s)"
| "tm_step s (TmClearRetry r i) = snd (clear_retry r i s)"
| "tm_step s (TmCount i) = snd (count_retry i s)"
| "tm_step s (TmMeasure w l i cb) = snd (schedule_measure w l i cb s)"
| "tm_step s (TmClearMeasure i) = snd (clear_measure i s)"
| "tm_step s (TmResetMeasured i) = reset_measured i s"
| "tm_step s (TmSync cb) = snd (schedule_sync cb s)"
| "tm_step s (TmDeferred w cb) = snd (schedule_deferred w cb s)"
| "tm_step s (TmFires h) = timer_fires h s"
| "tm_step s (TmDisposeSession i) = snd (dispose_session i s)"
| "tm_step s (TmDispose is) = snd (timers_dispose is s)"

subsection \<open>The browser's timers and the ones the runtime remembers\<close>

definition handle_of :: "timers \<Rightarrow> slot \<Rightarrow> nat \<Rightarrow> nat option" where
  "handle_of s k i = (case k of Priority \<Rightarrow> mget (tm_priority s) i | Retry \<Rightarrow> mget (tm_retry s) i
     | Measure \<Rightarrow> mget (tm_frames s) i | DeferredSync \<Rightarrow> if i = 0 then tm_sync_timer s else None | Microtask \<Rightarrow> None)"

definition live_slot :: "slot \<Rightarrow> nat \<Rightarrow> timers \<Rightarrow> nat list" where
  "live_slot k i s = map te_handle (filter (\<lambda>e. te_slot e = k \<and> te_session e = i) (tm_live s))"

definition opt_list :: "'a option \<Rightarrow> 'a list" where
  "opt_list x = (case x of None \<Rightarrow> [] | Some y \<Rightarrow> [y])"

lemma opt_list_simps [simp]: "opt_list None = []" "opt_list (Some y) = [y]"
  by (simp_all add: opt_list_def)

definition slots_ok :: "timers \<Rightarrow> bool" where
  "slots_ok s = (distinct (map te_handle (tm_live s)) \<and> list_all (\<lambda>e. te_handle e < tm_next s) (tm_live s)
     \<and> (\<forall>k i. k \<noteq> Microtask \<longrightarrow> live_slot k i s = opt_list (handle_of s k i)))"

lemma slots_okD: "slots_ok s \<Longrightarrow> k \<noteq> Microtask \<Longrightarrow> live_slot k i s = opt_list (handle_of s k i)"
  by (simp add: slots_ok_def)

lemma live_cancel: "live_slot k i (cancel_timer h s) = filter (\<lambda>x. x \<noteq> h) (live_slot k i s)"
  unfolding live_slot_def cancel_timer_def by (simp add: filter_map o_def conj_commute)

lemma live_arm: "live_slot k' j (snd (arm_timer k i cb s)) = live_slot k' j s @ (if k' = k \<and> j = i then [tm_next s] else [])"
  by (auto simp: live_slot_def arm_timer_def)

lemma live_mem: "h \<in> set (live_slot k i s) \<longleftrightarrow> (\<exists>e \<in> set (tm_live s). te_handle e = h \<and> te_slot e = k \<and> te_session e = i)"
  by (auto simp: live_slot_def)

lemma handle_unique:
  assumes "slots_ok s" "h \<in> set (live_slot k i s)" "h \<in> set (live_slot k' j s)"
  shows "k = k' \<and> i = j"
  using assms by (auto simp: live_mem slots_ok_def distinct_map dest: inj_onD)

lemma slots_cancel:
  assumes "slots_ok s" "h \<in> set (live_slot k i s)" "tm_live t = tm_live (cancel_timer h s)" "tm_next t = tm_next s"
    and "\<And>k' j. k' \<noteq> Microtask \<Longrightarrow> handle_of t k' j = (if k' = k \<and> j = i then None else handle_of s k' j)"
  shows "slots_ok t"
proof -
  have l: "live_slot k' j t = filter (\<lambda>x. x \<noteq> h) (live_slot k' j s)" for k' j
    using live_cancel [of k' j h s] assms(3) by (simp add: live_slot_def)
  have "live_slot k' j t = opt_list (handle_of t k' j)" if k': "k' \<noteq> Microtask" for k' j
  proof (cases "k' = k \<and> j = i")
    case True
    then have "live_slot k' j s = [h]"
      using slots_okD [OF assms(1) k', of j] assms(2) by (cases "handle_of s k' j") auto
    with True l assms(5) [OF k'] show ?thesis by simp
  next
    case False
    then have "h \<notin> set (live_slot k' j s)" using handle_unique [OF assms(1,2)] by blast
    then have "filter (\<lambda>x. x \<noteq> h) (live_slot k' j s) = live_slot k' j s" by (intro filter_True) auto
    with False l assms(5) [OF k'] slots_okD [OF assms(1) k'] show ?thesis by auto
  qed
  then show ?thesis using assms(1,3,4)
    by (auto simp: slots_ok_def cancel_timer_def distinct_map_filter list_all_iff)
qed

lemma slots_arm:
  assumes "slots_ok s" "handle_of s k i = None" "tm_live t = tm_live (snd (arm_timer k i cb s))" "tm_next t = Suc (tm_next s)"
    and "\<And>k' j. k' \<noteq> Microtask \<Longrightarrow> handle_of t k' j = (if k' = k \<and> j = i then Some (tm_next s) else handle_of s k' j)"
  shows "slots_ok t"
proof -
  have l: "live_slot k' j t = live_slot k' j s @ (if k' = k \<and> j = i then [tm_next s] else [])" for k' j
    using live_arm [of k' j k i cb s] assms(3) by (simp add: live_slot_def)
  have "live_slot k' j t = opt_list (handle_of t k' j)" if k': "k' \<noteq> Microtask" for k' j
    using l assms(2) assms(5) [OF k'] slots_okD [OF assms(1) k'] by simp
  then show ?thesis using assms(1,3,4)
    by (auto simp: slots_ok_def arm_timer_def list_all_iff less_Suc_eq)
qed

lemma slots_same:
  assumes "slots_ok s" "tm_live t = tm_live s" "tm_next t = tm_next s" "\<And>k j. handle_of t k j = handle_of s k j"
  shows "slots_ok t"
  using assms by (simp add: slots_ok_def live_slot_def)

lemma handle_live: "slots_ok s \<Longrightarrow> handle_of s k i = Some h \<Longrightarrow> h \<in> set (live_slot k i s)"
  by (cases k) (simp_all add: slots_okD, simp_all add: handle_of_def)

lemmas handle_simps = handle_of_def om.get_put om.get_del cancel_timer_def arm_timer_def

lemma slots_clear_priority: "slots_ok s \<Longrightarrow> slots_ok (snd (clear_priority i s))"
proof (cases "mget (tm_priority s) i")
  case (Some h)
  assume ok: "slots_ok s"
  have "handle_of s Priority i = Some h" using Some by (simp add: handle_of_def)
  from slots_cancel [OF ok handle_live [OF ok this]] show ?thesis
    by (simp add: clear_priority_def Some handle_simps split: slot.splits)
qed (simp add: clear_priority_def)

lemma slots_clear_retry: "slots_ok s \<Longrightarrow> slots_ok (snd (clear_retry r i s))"
proof (cases "mget (tm_retry s) i")
  case None
  then show "slots_ok s \<Longrightarrow> ?thesis" by (auto simp: clear_retry_def handle_of_def intro: slots_same split: slot.splits)
next
  case (Some h)
  assume ok: "slots_ok s"
  have "handle_of s Retry i = Some h" using Some by (simp add: handle_of_def)
  from slots_cancel [OF ok handle_live [OF ok this]] show ?thesis
    by (simp add: clear_retry_def Some handle_simps Let_def split: slot.splits)
qed

lemma slots_clear_measure: "slots_ok s \<Longrightarrow> slots_ok (snd (clear_measure i s))"
proof (cases "mget (tm_frames s) i")
  case (Some h)
  assume ok: "slots_ok s"
  have "handle_of s Measure i = Some h" using Some by (simp add: handle_of_def)
  from slots_cancel [OF ok handle_live [OF ok this]] show ?thesis
    by (simp add: clear_measure_def Some handle_simps split: slot.splits)
qed (simp add: clear_measure_def)

lemma slots_reset: "slots_ok s \<Longrightarrow> slots_ok (reset_measured i s)"
  by (erule slots_same) (simp_all add: reset_measured_def handle_of_def split: slot.splits)

lemma slots_dispose_session: "slots_ok s \<Longrightarrow> slots_ok (snd (dispose_session i s))"
  unfolding dispose_session_def
  using slots_clear_priority [of s i] slots_clear_retry [of _ True i] slots_clear_measure [of _ i] slots_reset
  by (auto split: prod.splits) (metis snd_conv)

lemma slots_fires:
  assumes "slots_ok s"
  shows "slots_ok (timer_fires h s)"
proof (cases "List.find (\<lambda>e. te_handle e = h) (tm_live s)")
  case (Some e)
  then have e: "e \<in> set (tm_live s)" "te_handle e = h" by (auto simp: find_Some_iff)
  have l: "h \<in> set (live_slot (te_slot e) (te_session e) s)" using e by (auto simp: live_mem)
  have m: "te_slot e \<noteq> Microtask \<Longrightarrow> handle_of s (te_slot e) (te_session e) = Some h"
    using l slots_okD [OF assms] by (cases "handle_of s (te_slot e) (te_session e)") auto
  have f: "timer_fires h s = timer_callback e (cancel_timer h s)" by (simp add: timer_fires_def Some)
  show ?thesis
    unfolding f
    by (rule slots_cancel [OF assms l])
      (use m e in \<open>auto simp: timer_callback_def run_callback_def handle_simps split: slot.splits if_splits\<close>)
qed (simp add: timer_fires_def assms)

lemma slots_dispose:
  assumes "slots_ok s"
  shows "slots_ok (snd (timers_dispose is s))"
proof (cases "tm_disposed s")
  case False
  let ?s1 = "s\<lparr>tm_disposed := True\<rparr>"
  define s2 where "s2 = (case tm_sync_timer ?s1 of None \<Rightarrow> ?s1 | Some h \<Rightarrow> cancel_timer h ?s1)\<lparr>tm_sync_timer := None, tm_sync := False\<rparr>"
  have "slots_ok ?s1" by (rule slots_same [OF assms]) (simp_all add: handle_of_def split: slot.splits)
  then have "slots_ok s2"
  proof (cases "tm_sync_timer s")
    case None
    then show ?thesis using assms
      by (intro slots_same [OF assms]) (simp_all add: s2_def handle_of_def split: slot.splits)
  next
    case (Some h)
    have "handle_of s DeferredSync 0 = Some h" using Some by (simp add: handle_of_def)
    from slots_cancel [OF assms handle_live [OF assms this]] show ?thesis
      by (simp add: s2_def Some handle_simps split: slot.splits)
  qed
  then have "slots_ok (foldl (\<lambda>t i. snd (dispose_session i t)) s2 is)"
    by (induction "is" arbitrary: s2) (auto intro: slots_dispose_session)
  with False show ?thesis by (simp add: timers_dispose_def s2_def Let_def)
qed (simp add: timers_dispose_def assms)

lemma slots_schedule_priority: "slots_ok s \<Longrightarrow> slots_ok (snd (schedule_priority w i cb s))"
proof -
  assume "slots_ok s"
  then have ok: "slots_ok (snd (clear_priority i s))" by (rule slots_clear_priority)
  have n: "handle_of (snd (clear_priority i s)) Priority i = None"
    by (simp add: clear_priority_def handle_simps split: option.splits)
  have "slots_ok (snd (case arm_timer Priority i cb (snd (clear_priority i s)) of
     (h, s2) \<Rightarrow> (True, s2\<lparr>tm_priority := mput i h (tm_priority s2)\<rparr>)))"
    by (rule slots_arm [OF ok n, where cb = cb]) (simp_all add: handle_simps split: slot.splits)
  with ok \<open>slots_ok s\<close> show ?thesis by (simp add: schedule_priority_def Let_def)
qed

lemma slots_schedule:
  assumes "slots_ok s"
  shows "slots_ok (snd (schedule_retry w i cb s))" "slots_ok (snd (schedule_measure w l i cb s))"
    "slots_ok (snd (schedule_sync cb s))" "slots_ok (snd (schedule_deferred w cb s))"
proof -
  show "slots_ok (snd (schedule_retry w i cb s))"
  proof (cases "tm_disposed s \<or> mhas (tm_retry s) i \<or> \<not> w")
    case False
    then have n: "handle_of s Retry i = None" by (simp add: handle_of_def om.has_get)
    from False show ?thesis
      by (intro slots_arm [OF assms n, where cb = cb]) (simp_all add: schedule_retry_def handle_simps split: slot.splits)
  qed (use assms in \<open>auto simp: schedule_retry_def\<close>)
  show "slots_ok (snd (schedule_measure w l i cb s))"
  proof (cases "tm_disposed s \<or> mhas (tm_frames s) i \<or> l \<le> measured_of i s \<or> \<not> w")
    case False
    then have n: "handle_of s Measure i = None" by (simp add: handle_of_def om.has_get)
    from False show ?thesis
      by (intro slots_arm [OF assms n, where cb = cb]) (simp_all add: schedule_measure_def handle_simps Let_def split: slot.splits)
  next
    case True
    then show ?thesis
      by (intro slots_same [OF assms]) (auto simp: schedule_measure_def handle_of_def Let_def split: slot.splits)
  qed
  show "slots_ok (snd (schedule_sync cb s))"
  proof (cases "tm_disposed s \<or> tm_sync s")
    case False
    have "handle_of s Microtask 0 = None" by (simp add: handle_of_def)
    from slots_arm [OF assms this, where cb = cb] False show ?thesis
      by (simp add: schedule_sync_def handle_simps split: slot.splits)
  qed (use assms in \<open>auto simp: schedule_sync_def\<close>)
  show "slots_ok (snd (schedule_deferred w cb s))"
  proof (cases "tm_disposed s \<or> tm_sync_timer s \<noteq> None \<or> \<not> w")
    case False
    then have n: "handle_of s DeferredSync 0 = None" by (simp add: handle_of_def)
    from False show ?thesis
      by (intro slots_arm [OF assms n, where cb = cb]) (simp_all add: schedule_deferred_def handle_simps split: slot.splits)
  qed (use assms in \<open>auto simp: schedule_deferred_def\<close>)
qed

lemma slots_step: "slots_ok s \<Longrightarrow> slots_ok (tm_step s e)"
proof (cases e)
  case (TmCount i)
  then show "slots_ok s \<Longrightarrow> ?thesis" by (auto simp: count_retry_def handle_of_def Let_def intro: slots_same split: slot.splits)
qed (auto intro: slots_schedule_priority slots_clear_priority slots_schedule slots_clear_retry slots_clear_measure slots_reset
    slots_fires slots_dispose_session slots_dispose)

interpretation tmm: invariant_machine tm_step slots_ok
  by standard (rule slots_step)

lemma slots_start: "slots_ok timers_start"
  by (simp add: slots_ok_def timers_start_def live_slot_def handle_of_def split: slot.splits)

text \<open>
  The browser holds exactly the timers the runtime remembers, for every session and kind at most
  one; so when a timer fires it is never out of date: its callback runs, and runs once, unless the
  runtime has been disposed, and then nothing runs any more.
\<close>

theorem timers_in_step:
  assumes "s = foldl tm_step timers_start es"
  shows "(\<forall>k i. k \<noteq> Microtask \<longrightarrow> live_slot k i s = opt_list (handle_of s k i))
    \<and> (\<forall>e \<in> set (tm_live s). tm_ran (tm_step s (TmFires (te_handle e)))
          = tm_ran s @ (if tm_disposed s then [] else [(te_slot e, te_session e, te_callback e)])
        \<and> e \<notin> set (tm_live (tm_step s (TmFires (te_handle e)))))"
proof
  have ok: "slots_ok s" unfolding assms by (rule tmm.inv_run [OF slots_start])
  show "\<forall>k i. k \<noteq> Microtask \<longrightarrow> live_slot k i s = opt_list (handle_of s k i)" using ok by (simp add: slots_okD)
  show "\<forall>e \<in> set (tm_live s). tm_ran (tm_step s (TmFires (te_handle e)))
          = tm_ran s @ (if tm_disposed s then [] else [(te_slot e, te_session e, te_callback e)])
        \<and> e \<notin> set (tm_live (tm_step s (TmFires (te_handle e))))"
  proof
    fix e assume e: "e \<in> set (tm_live s)"
    have m: "te_slot e \<noteq> Microtask \<Longrightarrow> handle_of s (te_slot e) (te_session e) = Some (te_handle e)"
    proof -
      assume k: "te_slot e \<noteq> Microtask"
      have "te_handle e \<in> set (live_slot (te_slot e) (te_session e) s)" using e by (auto simp: live_mem)
      then show ?thesis using slots_okD [OF ok k] by (cases "handle_of s (te_slot e) (te_session e)") auto
    qed
    have d: "distinct (map te_handle (tm_live s))" using ok by (simp add: slots_ok_def)
    have f: "List.find (\<lambda>x. te_handle x = te_handle e) (tm_live s) = Some e"
    proof (cases "List.find (\<lambda>x. te_handle x = te_handle e) (tm_live s)")
      case None
      with e show ?thesis by (auto simp: find_None_iff)
    next
      case (Some x)
      then have "x \<in> set (tm_live s)" "te_handle x = te_handle e" by (auto simp: find_Some_iff)
      with d e Some show ?thesis by (metis distinct_map inj_onD)
    qed
    have l: "tm_live (tm_step s (TmFires (te_handle e))) = filter (\<lambda>x. te_handle x \<noteq> te_handle e) (tm_live s)"
      by (simp add: timer_fires_def f timer_callback_def run_callback_def cancel_timer_def split: slot.splits)
    have "tm_ran (tm_step s (TmFires (te_handle e)))
          = tm_ran s @ (if tm_disposed s then [] else [(te_slot e, te_session e, te_callback e)])"
      using m by (cases "te_slot e")
        (simp_all add: timer_fires_def f timer_callback_def run_callback_def handle_of_def cancel_timer_def split: if_splits)
    with l show "tm_ran (tm_step s (TmFires (te_handle e)))
          = tm_ran s @ (if tm_disposed s then [] else [(te_slot e, te_session e, te_callback e)])
        \<and> e \<notin> set (tm_live (tm_step s (TmFires (te_handle e))))" by simp
  qed
qed

lemma timers_in_step_witness:
  "tm_ran (tm_step (foldl tm_step timers_start [TmPriority True 7 1, TmPriority True 7 2, TmRetry True 7 3])
     (TmFires 2)) = [(Priority, 7, 2)]"
proof -
  let ?s = "foldl tm_step timers_start [TmPriority True 7 1, TmPriority True 7 2, TmRetry True 7 3]"
  let ?e = "\<lparr>te_handle = 2, te_slot = Priority, te_session = 7, te_callback = 2\<rparr>"
  have s: "tm_live ?s = [?e, \<lparr>te_handle = 3, te_slot = Retry, te_session = 7, te_callback = 3\<rparr>]" "\<not> tm_disposed ?s" "tm_ran ?s = []"
    by (simp_all add: schedule_priority_def clear_priority_def schedule_retry_def arm_timer_def cancel_timer_def timers_start_def
        mget_def mdel_def mput_def mhas_def Let_def)
  then have e: "?e \<in> set (tm_live ?s)" by simp
  from timers_in_step [OF refl, of "[TmPriority True 7 1, TmPriority True 7 2, TmRetry True 7 3]"] e
  have "tm_ran (tm_step ?s (TmFires (te_handle ?e)))
      = tm_ran ?s @ (if tm_disposed ?s then [] else [(te_slot ?e, te_session ?e, te_callback ?e)])" by blast
  with s show ?thesis by (simp only: rt_timer_entry.select_convs if_False append_Nil)
qed

text \<open>Attempts are counted up to twenty, and measuring stops at its limit.\<close>

lemma retry_count_bounded:
  "list_all (\<lambda>(i, n). n \<le> 20) (tm_attempts s) \<Longrightarrow> fst (count_retry i s) \<le> 20
     \<and> attempts_of i (snd (count_retry i s)) = fst (count_retry i s)"
  by (simp add: count_retry_def attempts_of_def om.get_put Let_def)

lemma measure_limited:
  "limit \<le> measured_of i s \<Longrightarrow> schedule_measure w limit i cb s = (False, s)"
  by (simp add: schedule_measure_def)

end
