(* ===== verification/Cell_Packet.thy ===== *)
theory Cell_Packet
  imports Prelude "HOL-Library.Word"
begin

unbundle bit_operations_syntax

section \<open>Packed rows of terminal cells\<close>

text \<open>
  Model of \<open>terminal/backend/cell_packet.js\<close>: the worker packs the cells of its rows into sixteen bytes
  each and the page unpacks them, or finds the rows in which two packets differ. Bytes are 8-bit
  words, so a field that does not fit is cut off as a typed array cuts it. The text of a cell is a
  list of code points. A typed array over the bytes starts at a multiple of four, and packets with
  sparse texts have columns.
\<close>

type_synonym glyph = "nat list"

subsection \<open>Little-endian fields\<close>

text \<open>\<open>setUint32\<close>, \<open>setUint16\<close>, \<open>getUint32\<close> and \<open>getUint16\<close> of a \<open>DataView\<close>, little-endian.\<close>

definition put32 :: "32 word \<Rightarrow> 8 word list" where
  "put32 w = [ucast w, ucast (drop_bit 8 w), ucast (drop_bit 16 w), ucast (drop_bit 24 w)]"

definition put16 :: "16 word \<Rightarrow> 8 word list" where
  "put16 w = [ucast w, ucast (drop_bit 8 w)]"

definition get32 :: "8 word list \<Rightarrow> nat \<Rightarrow> 32 word" where
  "get32 bs i = ucast (bs ! i) OR push_bit 8 (ucast (bs ! (i + 1))) OR push_bit 16 (ucast (bs ! (i + 2)))
     OR push_bit 24 (ucast (bs ! (i + 3)))"

definition get16 :: "8 word list \<Rightarrow> nat \<Rightarrow> 16 word" where
  "get16 bs i = ucast (bs ! i) OR push_bit 8 (ucast (bs ! (i + 1)))"

lemma byte_bit: "8 \<le> n \<Longrightarrow> \<not> bit (b :: 8 word) n"
  using bit_imp_le_length [of b n] by auto

lemma get32_put32: "get32 (put32 w) 0 = w"
proof (rule bit_word_eqI)
  fix n assume "n < LENGTH(32)"
  then consider "n < 8" | "8 \<le> n" "n < 16" | "16 \<le> n" "n < 24" | "24 \<le> n" "n < 32" by fastforce
  then show "bit (get32 (put32 w) 0) n = bit w n"
    by cases (auto simp: get32_def put32_def bit_simps nth_Cons')
qed

lemma get16_put16: "get16 (put16 w) 0 = w"
  unfolding get16_def put16_def
  by (rule bit_word_eqI) (auto simp: bit_simps nth_Cons' dest: bit_imp_le_length)

lemma put32_get32: "put32 (get32 bs i) = [bs ! i, bs ! (i + 1), bs ! (i + 2), bs ! (i + 3)]"
  unfolding get32_def put32_def
  by (auto intro!: bit_word_eqI simp: bit_simps byte_bit)

lemma get32_eq_iff:
  "get32 as i = get32 bs i \<longleftrightarrow> (\<forall>k < 4. as ! (i + k) = bs ! (i + k))"
proof
  assume "get32 as i = get32 bs i"
  then have "put32 (get32 as i) = put32 (get32 bs i)" by simp
  then show "\<forall>k < 4. as ! (i + k) = bs ! (i + k)"
    by (auto simp: put32_get32 less_Suc_eq numeral_eq_Suc)
next
  assume a: "\<forall>k < 4. as ! (i + k) = bs ! (i + k)"
  from a [rule_format, of 0] a [rule_format, of 1] a [rule_format, of 2] a [rule_format, of 3]
  show "get32 as i = get32 bs i" by (simp add: get32_def)
qed

subsection \<open>Packing\<close>

text \<open>
  A cell as the emulator hands it out: numbers, an optional width and an optional text. A missing
  cell packs as zeros with the width one (\<open>cell?.width ?? 1\<close>).
\<close>

record raw_cell =
  rc_codepoint :: nat
  rc_fg :: "nat \<times> nat \<times> nat"
  rc_bg :: "nat \<times> nat \<times> nat"
  rc_flags :: nat
  rc_width :: "nat option"
  rc_link :: nat
  rc_grapheme :: nat
  rc_text :: glyph

datatype packet_error = Row_Unavailable | Invalid_Packet | Invalid_Row | Code_Point_Range

record packet =
  pk_bytes :: "8 word list"
  pk_texts :: "(nat \<times> glyph) list"
  pk_columns :: nat
  pk_rows :: nat

definition pack_cell :: "raw_cell option \<Rightarrow> 8 word list" where
  "pack_cell cell = (case cell of
     None \<Rightarrow> put32 0 @ [0, 0, 0, 0, 0, 0, 0, 1] @ put16 0 @ [0, 0]
   | Some c \<Rightarrow> (case (rc_fg c, rc_bg c) of ((fr, fg, fb), (br, bg, bb)) \<Rightarrow>
       put32 (of_nat (rc_codepoint c))
       @ [of_nat fr, of_nat fg, of_nat fb, of_nat br, of_nat bg, of_nat bb, of_nat (rc_flags c),
          of_nat (case rc_width c of None \<Rightarrow> 1 | Some w \<Rightarrow> w)]
       @ put16 (of_nat (rc_link c)) @ [of_nat (rc_grapheme c), 0]))"

text \<open>\<open>cell.text || getText?.(row, col) || " "\<close>, for a cell with a grapheme.\<close>

definition grapheme_text :: "(nat \<Rightarrow> nat \<Rightarrow> glyph) option \<Rightarrow> nat \<Rightarrow> nat \<Rightarrow> raw_cell \<Rightarrow> glyph" where
  "grapheme_text get_text row col c =
     (if rc_text c \<noteq> [] then rc_text c
      else case get_text of None \<Rightarrow> [32] | Some f \<Rightarrow> if f row col \<noteq> [] then f row col else [32])"

definition cell_at :: "raw_cell option list \<Rightarrow> nat \<Rightarrow> raw_cell option" where
  "cell_at line col = (if col < length line then line ! col else None)"

definition cell_texts :: "(nat \<Rightarrow> nat \<Rightarrow> glyph) option \<Rightarrow> nat \<Rightarrow> nat \<Rightarrow> nat \<Rightarrow> raw_cell option \<Rightarrow> (nat \<times> glyph) list" where
  "cell_texts get_text columns row col cell = (case cell of None \<Rightarrow> []
     | Some c \<Rightarrow> if rc_grapheme c \<noteq> 0 then [(row * columns + col, grapheme_text get_text row col c)] else [])"

definition pack_rows :: "raw_cell option list option list \<Rightarrow> nat \<Rightarrow> (nat \<Rightarrow> nat \<Rightarrow> glyph) option \<Rightarrow> packet_error + packet" where
  "pack_rows lines columns get_text =
     (if None \<in> set lines then Inl Row_Unavailable
      else Inr \<lparr>pk_bytes = concat (map (\<lambda>row. concat (map (\<lambda>col. pack_cell (cell_at (the (lines ! row)) col)) [0..<columns])) [0..<length lines]),
        pk_texts = concat (map (\<lambda>row. concat (map (\<lambda>col. cell_texts get_text columns row col (cell_at (the (lines ! row)) col)) [0..<columns])) [0..<length lines]),
        pk_columns = columns, pk_rows = length lines\<rparr>)"

subsection \<open>Unpacking\<close>

record cell =
  ce_codepoint :: "32 word"
  ce_fg :: "8 word \<times> 8 word \<times> 8 word"
  ce_bg :: "8 word \<times> 8 word \<times> 8 word"
  ce_flags :: "8 word"
  ce_width :: "8 word"
  ce_link :: "16 word"
  ce_grapheme :: "8 word"
  ce_text :: glyph

definition validate_packet :: "packet \<Rightarrow> bool" where
  "validate_packet p = (length (pk_bytes p) = pk_columns p * pk_rows p * 16)"

text \<open>\<open>new Map(packet.texts)\<close>: a later entry replaces an earlier one.\<close>

definition packet_texts :: "packet \<Rightarrow> (nat, glyph) jsmap" where
  "packet_texts p = foldl (\<lambda>m e. mput (fst e) (snd e) m) [] (pk_texts p)"

definition from_code_point :: "32 word \<Rightarrow> packet_error + glyph" where
  "from_code_point w = (let n = (if w = 0 then 32 else unat w) in
     if n \<le> 0x10ffff then Inr [n] else Inl Code_Point_Range)"

definition unpack_cell :: "packet \<Rightarrow> (nat, glyph) jsmap \<Rightarrow> nat \<Rightarrow> packet_error + cell" where
  "unpack_cell p texts index =
     (let bs = pk_bytes p; i = index * 16; cp = get32 bs i in
      case (case mget texts index of Some t \<Rightarrow> Inr t | None \<Rightarrow> from_code_point cp) of
        Inl e \<Rightarrow> Inl e
      | Inr t \<Rightarrow> Inr \<lparr>ce_codepoint = cp, ce_fg = (bs ! (i + 4), bs ! (i + 5), bs ! (i + 6)),
          ce_bg = (bs ! (i + 7), bs ! (i + 8), bs ! (i + 9)), ce_flags = bs ! (i + 10), ce_width = bs ! (i + 11),
          ce_link = get16 bs (i + 12), ce_grapheme = bs ! (i + 14), ce_text = t\<rparr>)"

text \<open>A list of results is the list of the values, or the first error.\<close>

fun gather :: "('e + 'a) list \<Rightarrow> 'e + 'a list" where
  "gather [] = Inr []"
| "gather (x # xs) = (case x of Inl e \<Rightarrow> Inl e
     | Inr a \<Rightarrow> (case gather xs of Inl e \<Rightarrow> Inl e | Inr as \<Rightarrow> Inr (a # as)))"

definition unpack_packet_row :: "packet \<Rightarrow> nat \<Rightarrow> (nat, glyph) jsmap \<Rightarrow> packet_error + cell list" where
  "unpack_packet_row p row texts = gather (map (\<lambda>col. unpack_cell p texts (row * pk_columns p + col)) [0..<pk_columns p])"

definition unpack_row :: "packet \<Rightarrow> int \<Rightarrow> packet_error + cell list" where
  "unpack_row p row =
     (if \<not> validate_packet p then Inl Invalid_Packet
      else if row < 0 \<or> int (pk_rows p) \<le> row then Inl Invalid_Row
      else unpack_packet_row p (nat row) (packet_texts p))"

definition unpack_rows :: "packet \<Rightarrow> packet_error + cell list list" where
  "unpack_rows p =
     (if \<not> validate_packet p then Inl Invalid_Packet
      else gather (map (\<lambda>row. unpack_packet_row p row (packet_texts p)) [0..<pk_rows p]))"

subsection \<open>Rows that differ\<close>

text \<open>A \<open>Set\<close> as the list of its elements in the order they were added.\<close>

definition set_add :: "'a \<Rightarrow> 'a list \<Rightarrow> 'a list" where
  "set_add x xs = (if x \<in> set xs then xs else xs @ [x])"

text \<open>The rows are compared by the 32-bit words of the buffer, \<open>4 * columns\<close> of them a row.\<close>

definition row_words_differ :: "packet \<Rightarrow> packet \<Rightarrow> nat \<Rightarrow> bool" where
  "row_words_differ p q row = list_ex (\<lambda>i. get32 (pk_bytes p) (4 * i) \<noteq> get32 (pk_bytes q) (4 * i))
     [row * (pk_columns q * 4)..<row * (pk_columns q * 4) + pk_columns q * 4]"

definition changed_texts :: "nat \<Rightarrow> (nat, glyph) jsmap \<Rightarrow> (nat, glyph) jsmap \<Rightarrow> nat list \<Rightarrow> nat list" where
  "changed_texts columns from other changed =
     foldl (\<lambda>c e. if mget other (fst e) \<noteq> Some (snd e) then set_add (fst e div columns) c else c) changed from"

definition changed_packed_rows :: "packet \<Rightarrow> packet \<Rightarrow> packet_error + nat list option" where
  "changed_packed_rows p q =
     (if \<not> validate_packet p \<or> \<not> validate_packet q then Inl Invalid_Packet
      else if pk_columns p \<noteq> pk_columns q \<or> pk_rows p \<noteq> pk_rows q then Inr None
      else let c1 = foldl (\<lambda>c row. if row_words_differ p q row then set_add row c else c) [] [0..<pk_rows q];
               c2 = changed_texts (pk_columns q) (packet_texts p) (packet_texts q) c1;
               c3 = changed_texts (pk_columns q) (packet_texts q) (packet_texts p) c2
           in Inr (Some c3))"

subsection \<open>Blocks and texts\<close>

lemma blocks_length: "(\<And>i. i < n \<Longrightarrow> length (f i) = b) \<Longrightarrow> length (concat (map f [0..<n])) = n * b"
  by (induction n) auto

lemma blocks_nth:
  "(\<And>i. i < n \<Longrightarrow> length (f i) = b) \<Longrightarrow> i < n \<Longrightarrow> k < b \<Longrightarrow> concat (map f [0..<n]) ! (i * b + k) = f i ! k"
proof (induction n)
  case (Suc n)
  have l: "length (concat (map f [0..<n])) = n * b" by (rule blocks_length) (simp add: Suc.prems(1))
  show ?case
  proof (cases "i < n")
    case True
    then have "i * b + k < n * b"
      by (metis Suc.prems(3) add.commute add_less_cancel_left less_le_trans mult_Suc mult_le_mono1 Suc_leI)
    with True Suc show ?thesis by (simp add: nth_append l)
  next
    case False
    with Suc.prems have "i = n" by simp
    then show ?thesis using l by (simp add: nth_append)
  qed
qed simp

lemma index_div: "col < columns \<Longrightarrow> (row * columns + col) div columns = (row :: nat)"
  by simp

lemma index_mod: "col < columns \<Longrightarrow> (row * columns + col) mod columns = (col :: nat)"
  by simp

lemma fold_put_mem:
  "mget (foldl (\<lambda>m e. mput (fst e) (snd e) m) m es) k = Some v \<Longrightarrow> (k, v) \<in> set es \<or> mget m k = Some v"
proof (induction es arbitrary: m)
  case (Cons e es)
  from Cons.IH [of "mput (fst e) (snd e) m"] Cons.prems show ?case
    by (cases e) (auto simp: om.get_put split: if_splits)
qed simp

lemma fold_put_has: "k \<in> fst ` set es \<or> mhas m k \<Longrightarrow> mhas (foldl (\<lambda>m e. mput (fst e) (snd e) m) m es) k"
proof (induction es arbitrary: m)
  case (Cons e es)
  have "k \<in> fst ` set es \<or> mhas (mput (fst e) (snd e) m) k" using Cons.prems by (auto simp: om.has_put)
  from Cons.IH [OF this] show ?case by simp
qed simp

lemma fold_put_wf: "mwf m \<Longrightarrow> mwf (foldl (\<lambda>m e. mput (fst e) (snd e) m) m es)"
  by (induction es arbitrary: m) (simp_all add: om.wf_put)

lemma packet_texts_wf: "mwf (packet_texts p)"
  by (simp add: packet_texts_def fold_put_wf)

lemma packet_texts_mem: "mget (packet_texts p) k = Some t \<Longrightarrow> (k, t) \<in> set (pk_texts p)"
  using fold_put_mem [of "[]" "pk_texts p" k t] by (simp add: packet_texts_def)

lemma packet_texts_has: "(k, t) \<in> set (pk_texts p) \<Longrightarrow> \<exists>t'. mget (packet_texts p) k = Some t'"
  using fold_put_has [of k "pk_texts p" "[]"] by (force simp: packet_texts_def om.has_get)

lemma packet_text_unique:
  assumes "\<And>t'. (k, t') \<in> set (pk_texts p) \<longleftrightarrow> v = Some t'"
  shows "mget (packet_texts p) k = v"
proof (cases v)
  case None
  then show ?thesis using assms packet_texts_mem [of p k] by (cases "mget (packet_texts p) k") auto
next
  case (Some t)
  then obtain t' where "mget (packet_texts p) k = Some t'" using assms packet_texts_has [of k t p] by auto
  with assms packet_texts_mem [OF this] show ?thesis by simp
qed

lemma gather_Inr: "gather (map (\<lambda>x. Inr (f x)) xs) = Inr (map f xs)"
  by (induction xs) auto

lemma gather_nth: "gather xs = Inr ys \<longleftrightarrow> length ys = length xs \<and> (\<forall>i < length xs. xs ! i = Inr (ys ! i))"
proof (induction xs arbitrary: ys)
  case (Cons x xs)
  show ?case
  proof (cases ys)
    case (Cons y ys')
    then show ?thesis
      using Cons.IH [of ys'] by (auto simp: All_less_Suc2 split: sum.splits)
  qed (auto split: sum.splits)
qed auto

subsection \<open>Packing and unpacking\<close>

lemma pack_cell_length [simp]: "length (pack_cell c) = 16"
  by (simp add: pack_cell_def put32_def put16_def split: option.split prod.split)

text \<open>The text the packet carries for a cell, and the cell a reader sees.\<close>

definition own_text :: "(nat \<Rightarrow> nat \<Rightarrow> glyph) option \<Rightarrow> nat \<Rightarrow> nat \<Rightarrow> raw_cell option \<Rightarrow> glyph option" where
  "own_text get_text row col cell = (case cell of None \<Rightarrow> None
     | Some c \<Rightarrow> if rc_grapheme c \<noteq> 0 then Some (grapheme_text get_text row col c) else None)"

definition seen_cell :: "(nat \<Rightarrow> nat \<Rightarrow> glyph) option \<Rightarrow> nat \<Rightarrow> nat \<Rightarrow> raw_cell option \<Rightarrow> cell" where
  "seen_cell get_text row col cell = (case cell of
     None \<Rightarrow> \<lparr>ce_codepoint = 0, ce_fg = (0, 0, 0), ce_bg = (0, 0, 0), ce_flags = 0, ce_width = 1, ce_link = 0,
       ce_grapheme = 0, ce_text = [32]\<rparr>
   | Some c \<Rightarrow> (case (rc_fg c, rc_bg c) of ((fr, fg, fb), (br, bg, bb)) \<Rightarrow>
       \<lparr>ce_codepoint = of_nat (rc_codepoint c), ce_fg = (of_nat fr, of_nat fg, of_nat fb),
        ce_bg = (of_nat br, of_nat bg, of_nat bb), ce_flags = of_nat (rc_flags c),
        ce_width = of_nat (case rc_width c of None \<Rightarrow> 1 | Some w \<Rightarrow> w), ce_link = of_nat (rc_link c),
        ce_grapheme = of_nat (rc_grapheme c),
        ce_text = (if rc_grapheme c \<noteq> 0 then grapheme_text get_text row col c
          else if (of_nat (rc_codepoint c) :: 32 word) = 0 then [32] else [unat (of_nat (rc_codepoint c) :: 32 word)])\<rparr>))"

definition drawable :: "raw_cell option \<Rightarrow> bool" where
  "drawable cell = (case cell of None \<Rightarrow> True
     | Some c \<Rightarrow> rc_grapheme c \<noteq> 0 \<or> unat (of_nat (rc_codepoint c) :: 32 word) \<le> 0x10ffff)"

lemma packed_rows:
  assumes "pack_rows lines columns get_text = Inr p"
  shows "pk_columns p = columns" "pk_rows p = length lines" "validate_packet p"
    "row < length lines \<Longrightarrow> col < columns \<Longrightarrow> k < 16 \<Longrightarrow>
       pk_bytes p ! ((row * columns + col) * 16 + k) = pack_cell (cell_at (the (lines ! row)) col) ! k"
    "row < length lines \<Longrightarrow> col < columns \<Longrightarrow>
       mget (packet_texts p) (row * columns + col) = own_text get_text row col (cell_at (the (lines ! row)) col)"
proof -
  let ?f = "\<lambda>row col. pack_cell (cell_at (the (lines ! row)) col)"
  let ?t = "\<lambda>row col. cell_texts get_text columns row col (cell_at (the (lines ! row)) col)"
  let ?r = "\<lambda>row. concat (map (?f row) [0..<columns])"
  have p: "p = \<lparr>pk_bytes = concat (map ?r [0..<length lines]),
      pk_texts = concat (map (\<lambda>row. concat (map (?t row) [0..<columns])) [0..<length lines]),
      pk_columns = columns, pk_rows = length lines\<rparr>"
    using assms by (simp add: pack_rows_def split: if_splits)
  have l: "length (?r row) = columns * 16" for row by (rule blocks_length) simp
  show "pk_columns p = columns" "pk_rows p = length lines" by (simp_all add: p)
  show "validate_packet p" using blocks_length [of "length lines" ?r "columns * 16"] l
    by (simp add: validate_packet_def p)
  {
    assume a: "row < length lines" "col < columns"
    {
      assume k: "k < 16"
      have m: "col * 16 + k < columns * 16" using a k by simp
      have "pk_bytes p ! (row * (columns * 16) + (col * 16 + k)) = ?r row ! (col * 16 + k)"
        unfolding p using blocks_nth [of "length lines" ?r "columns * 16" row "col * 16 + k"] l a m by simp
      also have "\<dots> = ?f row col ! k"
        using blocks_nth [of columns "?f row" 16 col k] a k by simp
      finally show "pk_bytes p ! ((row * columns + col) * 16 + k) = ?f row col ! k"
        by (simp add: algebra_simps)
    }
    have i: "row' * columns + col' = row * columns + col \<longleftrightarrow> row' = row \<and> col' = col" if "col' < columns" for row' col'
      using index_div [of col columns row] index_div [of col' columns row'] index_mod [of col columns row]
        index_mod [of col' columns row'] a that by metis
    have u: "(k', t') \<in> set (?t row' col') \<Longrightarrow> k' = row' * columns + col'" for k' t' row' col'
      by (auto simp: cell_texts_def split: option.splits if_splits)
    have m: "(row * columns + col, t') \<in> set (pk_texts p) \<longleftrightarrow> (row * columns + col, t') \<in> set (?t row col)" for t'
    proof
      assume "(row * columns + col, t') \<in> set (pk_texts p)"
      then obtain row' col' where "col' < columns" "(row * columns + col, t') \<in> set (?t row' col')"
        by (auto simp: p)
      with u i show "(row * columns + col, t') \<in> set (?t row col)" by metis
    next
      assume h: "(row * columns + col, t') \<in> set (?t row col)"
      then show "(row * columns + col, t') \<in> set (pk_texts p)"
        by (simp add: p) (rule bexI [where x = row], rule bexI [where x = col], use a in auto)
    qed
    show "mget (packet_texts p) (row * columns + col) = own_text get_text row col (cell_at (the (lines ! row)) col)"
      by (rule packet_text_unique) (auto simp: m own_text_def cell_texts_def split: option.splits)
  }
qed

lemma unpack_packed_cell:
  assumes "pack_rows lines columns get_text = Inr p" "row < length lines" "col < columns"
    "drawable (cell_at (the (lines ! row)) col)"
  shows "unpack_cell p (packet_texts p) (row * columns + col) = Inr (seen_cell get_text row col (cell_at (the (lines ! row)) col))"
proof -
  let ?c = "cell_at (the (lines ! row)) col"
  define i where "i = (row * columns + col) * 16"
  have b: "pk_bytes p ! (i + k) = pack_cell ?c ! k" if "k < 16" for k
    using packed_rows(4) [OF assms(1-3) that] by (simp add: i_def)
  have t: "mget (packet_texts p) (row * columns + col) = own_text get_text row col ?c"
    by (rule packed_rows(5) [OF assms(1-3)])
  have g32: "get32 (pk_bytes p) i = get32 (pack_cell ?c) 0"
    using b [of 0] b [of 1] b [of 2] b [of 3] by (simp add: get32_def eval_nat_numeral)
  have g16: "get16 (pk_bytes p) (i + 12) = get16 (drop 12 (pack_cell ?c)) 0"
    using b [of 12] b [of 13] by (simp add: get16_def ac_simps)
  have h: "pk_bytes p ! (i + 4) = pack_cell ?c ! 4" "pk_bytes p ! (i + 5) = pack_cell ?c ! 5"
    "pk_bytes p ! (i + 6) = pack_cell ?c ! 6" "pk_bytes p ! (i + 7) = pack_cell ?c ! 7"
    "pk_bytes p ! (i + 8) = pack_cell ?c ! 8" "pk_bytes p ! (i + 9) = pack_cell ?c ! 9"
    "pk_bytes p ! (i + 10) = pack_cell ?c ! 10" "pk_bytes p ! (i + 11) = pack_cell ?c ! 11"
    "pk_bytes p ! (i + 14) = pack_cell ?c ! 14"
    by (rule b, simp)+
  show ?thesis
  proof (cases ?c)
    case None
    have "get32 (pack_cell ?c) 0 = 0" "get16 (drop 12 (pack_cell ?c)) 0 = 0"
      by (simp_all add: None pack_cell_def put32_def put16_def get32_def get16_def)
    then show ?thesis
      unfolding unpack_cell_def Let_def i_def [symmetric] h g32 g16 t
      by (simp add: None own_text_def from_code_point_def seen_cell_def pack_cell_def put32_def put16_def)
  next
    case (Some c)
    obtain fr fg fb br bg bb where f: "rc_fg c = (fr, fg, fb)" "rc_bg c = (br, bg, bb)"
      by (metis prod_cases3)
    have g: "get32 (pack_cell ?c) 0 = get32 (put32 (of_nat (rc_codepoint c))) 0"
      "get16 (drop 12 (pack_cell ?c)) 0 = get16 (put16 (of_nat (rc_link c))) 0"
      by (simp_all add: Some f pack_cell_def put32_def put16_def get32_def get16_def)
    show ?thesis
      using assms(4)
      unfolding unpack_cell_def Let_def i_def [symmetric] h g32 g16 t g get32_put32 get16_put16
      by (auto simp: Some f own_text_def from_code_point_def seen_cell_def pack_cell_def put32_def put16_def drawable_def split: option.splits)
  qed
qed

text \<open>
  What the worker packs the page unpacks: for lines whose cells have a code point or a grapheme
  text, the rows read back are the cells of the lines, each field cut to its width, with the
  default width, the default text and the text of a grapheme filled in.
\<close>

theorem packed_rows_roundtrip:
  assumes "pack_rows lines columns get_text = Inr p"
    and "list_all (\<lambda>line. case line of None \<Rightarrow> True | Some cells \<Rightarrow> list_all drawable cells) lines"
  shows "unpack_rows p = Inr (map (\<lambda>row. map (\<lambda>col. seen_cell get_text row col (cell_at (the (lines ! row)) col)) [0..<columns])
    [0..<length lines])"
proof -
  have d: "drawable (cell_at (the (lines ! row)) col)" if "row < length lines" for row col
    using assms that by (auto simp: cell_at_def drawable_def list_all_length pack_rows_def in_set_conv_nth
      split: option.splits if_splits) fastforce+
  have "unpack_packet_row p row (packet_texts p) = Inr (map (\<lambda>col. seen_cell get_text row col (cell_at (the (lines ! row)) col)) [0..<columns])"
    if "row < length lines" for row
    using that d unpack_packed_cell [OF assms(1)] packed_rows(1) [OF assms(1)]
    by (simp add: unpack_packet_row_def gather_nth)
  then show ?thesis
    using packed_rows(2,3) [OF assms(1)] by (simp add: unpack_rows_def gather_nth)
qed

text \<open>A row of a plain cell, a missing one and a grapheme of two code points.\<close>

definition demo_cell :: "raw_cell" where
  "demo_cell = \<lparr>rc_codepoint = 65, rc_fg = (1, 2, 300), rc_bg = (0, 0, 0), rc_flags = 4, rc_width = None, rc_link = 7,
     rc_grapheme = 0, rc_text = []\<rparr>"

definition demo_lines :: "raw_cell option list option list" where
  "demo_lines = [Some [Some demo_cell, None, Some (demo_cell\<lparr>rc_grapheme := 1, rc_text := [101, 769]\<rparr>)]]"

theorem packed_rows_roundtrip_witness:
  "\<exists>p. pack_rows demo_lines 3 None = Inr p \<and> unpack_rows p = Inr (map (\<lambda>row. map (\<lambda>col.
     seen_cell None row col (cell_at (the (demo_lines ! row)) col)) [0..<3]) [0..<length demo_lines])"
proof -
  have n: "None \<notin> set demo_lines" by (simp add: demo_lines_def)
  then obtain p where p: "pack_rows demo_lines 3 None = Inr p" by (simp add: pack_rows_def)
  have "list_all (\<lambda>line. case line of None \<Rightarrow> True | Some cells \<Rightarrow> list_all drawable cells) demo_lines"
    by (simp add: demo_lines_def drawable_def demo_cell_def)
  from packed_rows_roundtrip [OF p this] p show ?thesis by blast
qed

subsection \<open>Changed rows\<close>

lemma set_set_add: "set (set_add x xs) = insert x (set xs)"
  by (auto simp: set_add_def)

lemma fold_set_add: "set (foldl (\<lambda>c e. if P e then set_add (g e) c else c) c es) = set c \<union> g ` {e \<in> set es. P e}"
  by (induction es arbitrary: c) (auto simp: set_set_add)

lemma fold_set_add_distinct: "distinct c \<Longrightarrow> distinct (foldl (\<lambda>c e. if P e then set_add (g e) c else c) c es)"
  by (induction es arbitrary: c) (auto simp: set_add_def)

definition texts_differ :: "packet \<Rightarrow> packet \<Rightarrow> nat \<Rightarrow> bool" where
  "texts_differ p q row = (\<exists>k. k div pk_columns q = row \<and> mget (packet_texts p) k \<noteq> mget (packet_texts q) k)"

lemma changed_texts_set:
  assumes "mwf from"
  shows "set (changed_texts columns from other c)
    = set c \<union> {k div columns | k. mget from k \<noteq> None \<and> mget other k \<noteq> mget from k}"
proof -
  have "(\<lambda>e. fst e div columns) ` {e \<in> set from. mget other (fst e) \<noteq> Some (snd e)}
      = {k div columns | k. mget from k \<noteq> None \<and> mget other k \<noteq> mget from k}"
    using mget_iff_mem [OF assms] by force
  then show ?thesis by (simp add: changed_texts_def fold_set_add)
qed

lemma changed_rows_set:
  assumes "changed_packed_rows p q = Inr (Some rows)"
  shows "row \<in> set rows \<longleftrightarrow> row < pk_rows q \<and> row_words_differ p q row \<or> texts_differ p q row"
    "validate_packet p" "validate_packet q" "pk_columns p = pk_columns q" "pk_rows p = pk_rows q" "distinct rows"
proof -
  define c1 where "c1 = foldl (\<lambda>c row. if row_words_differ p q row then set_add row c else c) [] [0..<pk_rows q]"
  have r: "rows = changed_texts (pk_columns q) (packet_texts q) (packet_texts p)
      (changed_texts (pk_columns q) (packet_texts p) (packet_texts q) c1)"
    using assms by (auto simp: changed_packed_rows_def c1_def Let_def split: if_splits)
  show v: "validate_packet p" "validate_packet q" "pk_columns p = pk_columns q" "pk_rows p = pk_rows q"
    using assms by (auto simp: changed_packed_rows_def split: if_splits)
  have "set c1 = {row. row < pk_rows q \<and> row_words_differ p q row}"
    using fold_set_add [of "row_words_differ p q" "\<lambda>x. x" "[]"] by (auto simp: c1_def)
  then have "set rows = {row. row < pk_rows q \<and> row_words_differ p q row}
      \<union> {k div pk_columns q | k. mget (packet_texts p) k \<noteq> None \<and> mget (packet_texts q) k \<noteq> mget (packet_texts p) k}
      \<union> {k div pk_columns q | k. mget (packet_texts q) k \<noteq> None \<and> mget (packet_texts p) k \<noteq> mget (packet_texts q) k}"
    by (simp only: r changed_texts_set packet_texts_wf)
  then show "row \<in> set rows \<longleftrightarrow> row < pk_rows q \<and> row_words_differ p q row \<or> texts_differ p q row"
    unfolding texts_differ_def by (auto; metis)
  show "distinct rows"
    unfolding r changed_texts_def c1_def by (intro fold_set_add_distinct) simp
qed

lemma row_words_bytes:
  "\<not> row_words_differ p q row \<longleftrightarrow> (\<forall>j < pk_columns q * 16. pk_bytes p ! (row * pk_columns q * 16 + j) = pk_bytes q ! (row * pk_columns q * 16 + j))"
  (is "?l \<longleftrightarrow> ?r")
proof
  assume l: ?l
  show ?r
  proof (intro allI impI)
    fix j assume j: "j < pk_columns q * 16"
    let ?i = "row * (pk_columns q * 4) + j div 4"
    have "?i \<in> set [row * (pk_columns q * 4)..<row * (pk_columns q * 4) + pk_columns q * 4]"
      using j by simp
    with l have "get32 (pk_bytes p) (4 * ?i) = get32 (pk_bytes q) (4 * ?i)"
      unfolding row_words_differ_def list_ex_iff by blast
    then have "pk_bytes p ! (4 * ?i + j mod 4) = pk_bytes q ! (4 * ?i + j mod 4)"
      unfolding get32_eq_iff by (meson mod_less_divisor zero_less_numeral)
    moreover have "4 * ?i + j mod 4 = row * pk_columns q * 16 + j"
      by (simp add: algebra_simps)
    ultimately show "pk_bytes p ! (row * pk_columns q * 16 + j) = pk_bytes q ! (row * pk_columns q * 16 + j)" by (simp only:)
  qed
next
  assume r: ?r
  have "get32 (pk_bytes p) (4 * i) = get32 (pk_bytes q) (4 * i)"
    if i: "row * (pk_columns q * 4) \<le> i" "i < row * (pk_columns q * 4) + pk_columns q * 4" for i
  proof (unfold get32_eq_iff, intro allI impI)
    fix k :: nat assume k: "k < 4"
    let ?j = "4 * (i - row * (pk_columns q * 4)) + k"
    have "?j < pk_columns q * 16" "4 * i + k = row * pk_columns q * 16 + ?j"
      using i k by (auto simp: algebra_simps)
    with r show "pk_bytes p ! (4 * i + k) = pk_bytes q ! (4 * i + k)" by metis
  qed
  then show ?l by (auto simp: row_words_differ_def list_ex_iff)
qed

lemma unpack_cell_cong:
  assumes "\<And>k. k < 16 \<Longrightarrow> pk_bytes p ! (index * 16 + k) = pk_bytes q ! (index * 16 + k)"
    and "mget tp index = mget tq index"
  shows "unpack_cell p tp index = unpack_cell q tq index"
proof -
  have "get32 (pk_bytes p) (index * 16) = get32 (pk_bytes q) (index * 16)"
    using assms(1) by (simp add: get32_eq_iff)
  moreover have "get16 (pk_bytes p) (index * 16 + 12) = get16 (pk_bytes q) (index * 16 + 12)"
    using assms(1) [of 12] assms(1) [of 13] by (simp add: get16_def ac_simps)
  moreover have h: "pk_bytes p ! (index * 16 + 4) = pk_bytes q ! (index * 16 + 4)"
    "pk_bytes p ! (index * 16 + 5) = pk_bytes q ! (index * 16 + 5)" "pk_bytes p ! (index * 16 + 6) = pk_bytes q ! (index * 16 + 6)"
    "pk_bytes p ! (index * 16 + 7) = pk_bytes q ! (index * 16 + 7)" "pk_bytes p ! (index * 16 + 8) = pk_bytes q ! (index * 16 + 8)"
    "pk_bytes p ! (index * 16 + 9) = pk_bytes q ! (index * 16 + 9)" "pk_bytes p ! (index * 16 + 10) = pk_bytes q ! (index * 16 + 10)"
    "pk_bytes p ! (index * 16 + 11) = pk_bytes q ! (index * 16 + 11)" "pk_bytes p ! (index * 16 + 14) = pk_bytes q ! (index * 16 + 14)"
    by (rule assms(1), simp)+
  ultimately show ?thesis unfolding unpack_cell_def Let_def h assms(2) by (simp only:)
qed

text \<open>A row that is not reported unpacks the same from both packets.\<close>

lemma unchanged_row:
  assumes "changed_packed_rows p q = Inr (Some rows)" "row < pk_rows q" "row \<notin> set rows"
  shows "unpack_packet_row p row (packet_texts p) = unpack_packet_row q row (packet_texts q)"
proof -
  note c = changed_rows_set [OF assms(1)]
  have b: "\<not> row_words_differ p q row" and t: "\<not> texts_differ p q row" using assms c(1) by auto
  have "unpack_cell p (packet_texts p) (row * pk_columns q + col) = unpack_cell q (packet_texts q) (row * pk_columns q + col)"
    if "col < pk_columns q" for col
  proof (rule unpack_cell_cong)
    fix k :: nat assume "k < 16"
    then have "col * 16 + k < pk_columns q * 16" using that by simp
    with b have "pk_bytes p ! (row * pk_columns q * 16 + (col * 16 + k)) = pk_bytes q ! (row * pk_columns q * 16 + (col * 16 + k))"
      unfolding row_words_bytes by blast
    then show "pk_bytes p ! ((row * pk_columns q + col) * 16 + k) = pk_bytes q ! ((row * pk_columns q + col) * 16 + k)"
      by (simp add: algebra_simps)
  next
    show "mget (packet_texts p) (row * pk_columns q + col) = mget (packet_texts q) (row * pk_columns q + col)"
      using t index_div [OF that, of row] unfolding texts_differ_def by blast
  qed
  then show ?thesis
    unfolding unpack_packet_row_def c(4) by (intro arg_cong [where f = gather] map_cong) auto
qed

lemma unpack_rows_nth:
  "unpack_rows p = Inr ls \<Longrightarrow> length ls = pk_rows p \<and> (\<forall>row < pk_rows p. unpack_packet_row p row (packet_texts p) = Inr (ls ! row))"
  by (auto simp: unpack_rows_def gather_nth split: if_splits)

lemma unpack_row_length: "unpack_packet_row p row texts = Inr l \<Longrightarrow> length l = pk_columns p"
  by (simp add: unpack_packet_row_def gather_nth)

end
