(* ===== verification/Remote_Terminal.thy ===== *)
theory Remote_Terminal
  imports Cell_Packet
begin

section \<open>The page's side of the terminal worker\<close>

text \<open>
  Model of the class \<open>RemoteTerminal\<close> of \<open>terminal/backend/remote_terminal.js\<close>: requests to the worker
  and their replies, the frame the page shows, the rows the renderer has to repaint and the cached
  rows of the scrollback. The worker is its replies; the clock, the visibility of the page and
  whether a call of the browser throws are arguments. What follows a settled promise
  (\<open>then\<close>, \<open>finally\<close>) is done with the settling. A promise is its request number.
  Diagnostics, traces and the table of output presentations are not modelled.
\<close>

datatype operation = Init | Snapshot | Resize | Write | Restore | Read | Text_Query | Search | Link | Diagnose

datatype backend_error = Cancelled | Capacity | Timed_Out | Observation_Timed_Out | Worker_Error | Undecodable
  | Reply_Error string | Geometry_Mismatch | Missing_Row | Bad_Packet packet_error

record progress =
  pr_revision :: nat
  pr_epoch :: nat
  pr_serial :: nat
  pr_scrollback :: nat
  pr_cols :: nat
  pr_rows :: nat
  pr_alternate :: bool
  pr_held :: nat
  pr_responses :: "string list"

record history_range =
  hr_start :: int
  hr_epoch :: nat
  hr_packet :: "packet option"

record frame = progress +
  fr_viewport :: "packet option"
  fr_colors :: string
  fr_history :: "history_range option"

datatype reply = Frame_Reply frame | Progress_Reply progress | Range_Reply history_range | Stale_Reply | Other_Reply
  | Error_Reply string bool

record pending =
  pe_operation :: operation
  pe_bytes :: nat
  pe_deadline :: nat

datatype remote_out = Posted nat operation | Refused operation backend_error | Resolved nat | Rejected nat backend_error
  | Terminated nat | Reported backend_error | Changed | Freed

record remote =
  rm_generation :: nat
  rm_next :: nat
  rm_pending :: "(nat, pending) jsmap"
  rm_bytes :: nat
  rm_history :: "(int, cell list) jsmap"
  rm_reads :: "(nat \<times> int, nat) jsmap"
  rm_responses :: "string list"
  rm_disposed :: bool
  rm_failed :: bool
  rm_restoring :: bool
  rm_config :: string
  rm_cols :: nat
  rm_rows :: nat
  rm_frame :: "frame option"
  rm_progress :: "progress option"
  rm_rendering :: bool
  rm_has_rendered :: bool
  rm_lines :: "cell list list option"
  rm_cells :: "cell list option"
  rm_view_revision :: "nat option"
  rm_dirty :: bool
  rm_dirty_rows :: "nat list"
  rm_full :: bool
  rm_snapshot :: "nat option"
  rm_sync_timer :: "nat option"
  rm_sync_deadline :: nat
  rm_prepared :: "(nat \<times> nat \<times> string) option"
  rm_outs :: "remote_out list"

definition emit :: "remote_out list \<Rightarrow> remote \<Rightarrow> remote" where
  "emit os s = s\<lparr>rm_outs := rm_outs s @ os\<rparr>"

subsection \<open>Requests\<close>

definition max_requests :: nat where "max_requests = 64"
definition max_request_bytes :: nat where "max_request_bytes = 4 * 1024 * 1024"

definition operation_timeout :: "operation \<Rightarrow> nat" where
  "operation_timeout op = (if op = Diagnose then 3000 else if op = Init then 20000 else 15000)"

text \<open>What is waiting for a request when its promise settles.\<close>

definition request_settled :: "nat \<Rightarrow> operation \<Rightarrow> remote \<Rightarrow> remote" where
  "request_settled rid op s =
     (let s1 = (if list_ex (\<lambda>e. snd e = rid) (rm_reads s) then emit [Changed] s else s);
          s2 = s1\<lparr>rm_reads := filter (\<lambda>e. snd e \<noteq> rid) (rm_reads s),
            rm_snapshot := (if rm_snapshot s = Some rid then None else rm_snapshot s)\<rparr>
      in if op = Restore then emit [Changed] (s2\<lparr>rm_restoring := False\<rparr>) else s2)"

definition all_settled :: "(nat, pending) jsmap \<Rightarrow> remote \<Rightarrow> remote" where
  "all_settled ps s = foldl (\<lambda>s e. request_settled (fst e) (pe_operation (snd e)) s) s ps"

definition reject_pending :: "backend_error \<Rightarrow> remote \<Rightarrow> remote" where
  "reject_pending err s = (emit (map (\<lambda>e. Rejected (fst e) err) (rm_pending s)) s)\<lparr>rm_pending := []\<rparr>"

definition reject_all :: "backend_error \<Rightarrow> remote \<Rightarrow> remote" where
  "reject_all err s = (reject_pending err s)\<lparr>rm_bytes := 0\<rparr>"

definition rm_fail :: "backend_error \<Rightarrow> remote \<Rightarrow> remote" where
  "rm_fail err s = (if rm_failed s \<or> rm_disposed s then s
     else all_settled (rm_pending s) (emit [Reported err]
       (reject_all err (emit [Terminated (rm_generation s)] (s\<lparr>rm_failed := True, rm_sync_timer := None\<rparr>)))))"

definition queue_full :: "operation \<Rightarrow> remote \<Rightarrow> bool" where
  "queue_full op s = (max_requests \<le> length (rm_pending s)
     \<and> (op = Diagnose \<or> max_requests \<le> length (filter (\<lambda>e. pe_operation (snd e) \<noteq> Diagnose) (rm_pending s))))"

text \<open>
  \<open>request\<close>: the number of the request, when it is accepted. \<open>throws\<close> says that \<open>postMessage\<close> throws.
\<close>

definition rm_request :: "nat \<Rightarrow> bool \<Rightarrow> operation \<Rightarrow> nat \<Rightarrow> remote \<Rightarrow> nat option \<times> remote" where
  "rm_request now throws op bytes s =
     (if rm_disposed s \<or> rm_failed s then (None, emit [Refused op Cancelled] s)
      else if queue_full op s \<or> max_request_bytes < rm_bytes s + bytes
      then (None, (let s1 = emit [Refused op Capacity] s in if op = Diagnose then s1 else rm_fail Capacity s1))
      else let rid = rm_next s;
        s1 = s\<lparr>rm_next := Suc rid, rm_bytes := rm_bytes s + bytes,
          rm_pending := mput rid \<lparr>pe_operation = op, pe_bytes = bytes, pe_deadline = now + operation_timeout op\<rparr> (rm_pending s)\<rparr>
      in if \<not> throws then (Some rid, emit [Posted rid op] s1)
         else if op = Diagnose then (Some rid, emit [Rejected rid Worker_Error]
           (s1\<lparr>rm_pending := mdel rid (rm_pending s1), rm_bytes := rm_bytes s1 - bytes\<rparr>))
         else (Some rid, rm_fail Worker_Error s1))"

definition rm_timeout :: "nat \<Rightarrow> bool \<Rightarrow> nat \<Rightarrow> remote \<Rightarrow> remote" where
  "rm_timeout now hidden rid s = (case mget (rm_pending s) rid of
     None \<Rightarrow> s
   | Some p \<Rightarrow>
      if pe_operation p = Diagnose
      then emit [Rejected rid Observation_Timed_Out] (s\<lparr>rm_pending := mdel rid (rm_pending s), rm_bytes := rm_bytes s - pe_bytes p\<rparr>)
      else if hidden \<or> pe_deadline p + 2000 < now
      then s\<lparr>rm_pending := mput rid (p\<lparr>pe_deadline := now + operation_timeout (pe_operation p)\<rparr>) (rm_pending s)\<rparr>
      else rm_fail Timed_Out s)"

subsection \<open>Generations of the worker\<close>

text \<open>
  \<open>restart\<close>, with whether it returns. \<open>created\<close> says that the worker could be created; generation
  zero has no worker.
\<close>

definition rm_restart :: "nat \<Rightarrow> bool \<Rightarrow> bool \<Rightarrow> string \<Rightarrow> remote \<Rightarrow> bool \<times> remote" where
  "rm_restart now created throws config s =
     (if rm_disposed s then (False, s)
      else let s1 = reject_all Cancelled (emit (if rm_generation s = 0 then [] else [Terminated (rm_generation s)]) s);
        s2 = s1\<lparr>rm_prepared := None, rm_sync_timer := None, rm_sync_deadline := 0,
          rm_generation := Suc (rm_generation s), rm_config := config, rm_failed := False, rm_restoring := False,
          rm_frame := None, rm_progress := None, rm_rendering := False, rm_has_rendered := False, rm_lines := None,
          rm_cells := None, rm_view_revision := None, rm_dirty := False, rm_dirty_rows := [], rm_full := True,
          rm_snapshot := None, rm_history := [], rm_reads := [], rm_responses := []\<rparr>
      in if created then (True, snd (rm_request now throws Init 0 s2))
         else (False, emit [Reported Worker_Error] (s2\<lparr>rm_failed := True\<rparr>)))"

definition rm_mark_prepared :: "remote \<Rightarrow> remote" where
  "rm_mark_prepared s = s\<lparr>rm_prepared := Some (rm_generation s, rm_next s, rm_config s)\<rparr>"

definition rm_reset :: "nat \<Rightarrow> bool \<Rightarrow> bool \<Rightarrow> string \<Rightarrow> remote \<Rightarrow> bool \<times> remote" where
  "rm_reset now created throws config s =
     (let s1 = s\<lparr>rm_prepared := None\<rparr> in
      if rm_prepared s = Some (rm_generation s, rm_next s, config) \<and> \<not> rm_failed s \<and> \<not> rm_disposed s then (True, s1)
      else rm_restart now created throws config s1)"

text \<open>\<open>free\<close> leaves the count of the pending bytes as it is.\<close>

definition rm_free :: "remote \<Rightarrow> remote" where
  "rm_free s = (if rm_disposed s then s
     else (all_settled (rm_pending s) (emit [Freed] ((reject_pending Cancelled (emit [Terminated (rm_generation s)] (s\<lparr>rm_disposed := True\<rparr>)))\<lparr>
       rm_history := [], rm_progress := None, rm_frame := None, rm_lines := None, rm_cells := None,
       rm_sync_timer := None, rm_dirty_rows := [], rm_responses := []\<rparr>)))\<lparr>rm_reads := []\<rparr>)"

subsection \<open>Progress and history\<close>

text \<open>\<open>acceptProgress\<close>: the timer of a synchronized output is the generation that armed it.\<close>

definition accept_progress :: "nat \<Rightarrow> bool \<Rightarrow> progress \<Rightarrow> remote \<Rightarrow> remote" where
  "accept_progress now notify st s =
     (if (case rm_progress s of None \<Rightarrow> False | Some q \<Rightarrow> pr_revision st < pr_revision q) then s
      else let s1 = (if map_option pr_epoch (rm_progress s) \<noteq> Some (pr_epoch st) then s\<lparr>rm_history := []\<rparr> else s);
        s2 = s1\<lparr>rm_progress := Some st, rm_cols := pr_cols st, rm_rows := pr_rows st,
          rm_responses := rm_responses s1 @ pr_responses st\<rparr>;
        s3 = (if pr_held st = 0 then s2\<lparr>rm_sync_timer := None, rm_sync_deadline := 0\<rparr>
              else if rm_sync_timer s2 = None then s2\<lparr>rm_sync_timer := Some (rm_generation s2), rm_sync_deadline := now + pr_held st\<rparr>
              else s2)
      in if notify then emit [Changed] s3 else s3)"

definition put_rows :: "int \<Rightarrow> cell list list \<Rightarrow> (int, cell list) jsmap \<Rightarrow> (int, cell list) jsmap" where
  "put_rows start rows h = foldl (\<lambda>h e. mput (fst e) (snd e) (mdel (fst e) h)) h
     (map (\<lambda>i. (start + int i, rows ! i)) [0..<length rows])"

fun trim_rows :: "nat \<Rightarrow> (int, cell list) jsmap \<Rightarrow> (int, cell list) jsmap" where
  "trim_rows limit [] = []"
| "trim_rows limit (e # h) = (if limit < length (e # h) then trim_rows limit h else e # h)"

definition history_limit :: "remote \<Rightarrow> nat" where
  "history_limit s = max 512 (rm_rows s * 4)"

definition accept_history :: "history_range option \<Rightarrow> remote \<Rightarrow> backend_error option \<times> remote" where
  "accept_history rng s = (case rng of None \<Rightarrow> (None, s)
   | Some r \<Rightarrow> (case (hr_packet r, rm_progress s) of
       (Some p, Some q) \<Rightarrow>
         if hr_epoch r \<noteq> pr_epoch q then (None, s)
         else (case unpack_rows p of
             Inl e \<Rightarrow> (Some (Bad_Packet e), s)
           | Inr rows \<Rightarrow> (None, s\<lparr>rm_history := trim_rows (history_limit s)
               (filter (\<lambda>e. int (pr_serial q) - int (pr_scrollback q) \<le> fst e) (put_rows (hr_start r) rows (rm_history s)))\<rparr>))
     | _ \<Rightarrow> (None, s)))"

subsection \<open>Frames\<close>

text \<open>The rows that changed replace the rows of the last frame; the first error ends the loop.\<close>

fun delta_rows :: "packet \<Rightarrow> nat list \<Rightarrow> cell list list \<Rightarrow> packet_error + cell list list" where
  "delta_rows p [] ls = Inr ls"
| "delta_rows p (r # rs) ls = (case unpack_row p (int r) of Inl e \<Rightarrow> Inl e | Inr l \<Rightarrow> delta_rows p rs (ls[r := l]))"

definition next_lines :: "packet \<Rightarrow> nat list option \<Rightarrow> cell list list option \<Rightarrow> packet_error + cell list list" where
  "next_lines p changed lines = (case (changed, lines) of
     (Some rs, Some ls) \<Rightarrow> if pk_rows p < 3 * length rs then unpack_rows p else delta_rows p rs ls
   | _ \<Rightarrow> unpack_rows p)"

definition write_row :: "nat \<Rightarrow> cell list list \<Rightarrow> nat \<Rightarrow> cell list \<Rightarrow> cell list" where
  "write_row columns ls row cells = foldl (\<lambda>cs col. cs[row * columns + col := ls ! row ! col]) cells [0..<columns]"

text \<open>The flat cells; \<open>None\<close> where a row that changed is not among the lines, which throws.\<close>

definition next_cells :: "nat \<Rightarrow> nat \<Rightarrow> nat list option \<Rightarrow> cell list list \<Rightarrow> cell list option \<Rightarrow> cell list option" where
  "next_cells columns rows changed ls cells = (case (changed, cells) of
     (Some rs, Some cs) \<Rightarrow> if length cs \<noteq> columns * rows then Some (concat ls)
       else if list_all (\<lambda>row. row < length ls) rs \<or> columns = 0 then Some (foldl (\<lambda>cs row. write_row columns ls row cs) cs rs)
       else None
   | _ \<Rightarrow> Some (concat ls))"

definition structural_change :: "frame \<Rightarrow> remote \<Rightarrow> bool" where
  "structural_change f s = (case (rm_frame s, rm_lines s) of
     (Some g, Some _) \<Rightarrow> pr_cols g \<noteq> pr_cols f \<or> pr_rows g \<noteq> pr_rows f \<or> pr_epoch g \<noteq> pr_epoch f
       \<or> pr_alternate g \<noteq> pr_alternate f \<or> fr_colors g \<noteq> fr_colors f
   | _ \<Rightarrow> True)"

definition frame_changes :: "packet \<Rightarrow> remote \<Rightarrow> packet_error + nat list option" where
  "frame_changes p s = (case (rm_frame s, rm_lines s) of
     (Some g, Some _) \<Rightarrow> (case fr_viewport g of None \<Rightarrow> Inr None | Some old \<Rightarrow> changed_packed_rows old p)
   | _ \<Rightarrow> Inr None)"

definition accept_viewport :: "frame \<Rightarrow> packet \<Rightarrow> remote \<Rightarrow> backend_error option \<times> remote" where
  "accept_viewport f p s = (case frame_changes p s of Inl e \<Rightarrow> (Some (Bad_Packet e), s)
   | Inr changed \<Rightarrow> (case next_lines p changed (rm_lines s) of Inl e \<Rightarrow> (Some (Bad_Packet e), s)
     | Inr ls \<Rightarrow> (let full = (rm_full s \<or> structural_change f s);
         s1 = s\<lparr>rm_full := full,
           rm_dirty_rows := (if full then [] else foldl (\<lambda>d r. set_add r d) (rm_dirty_rows s) (case changed of None \<Rightarrow> [] | Some rs \<Rightarrow> rs)),
           rm_lines := Some ls\<rparr>
         in case next_cells (pr_cols f) (pr_rows f) changed ls (rm_cells s) of
           None \<Rightarrow> (Some Missing_Row, s1)
         | Some cs \<Rightarrow> (None, s1\<lparr>rm_cells := Some cs, rm_view_revision := Some (pr_revision f)\<rparr>))))"

definition show_frame :: "frame \<Rightarrow> remote \<Rightarrow> backend_error option \<times> remote" where
  "show_frame f s = (case accept_history (fr_history f) (s\<lparr>rm_frame := Some f\<rparr>) of
     (Some e, s1) \<Rightarrow> (Some e, s1)
   | (None, s1) \<Rightarrow> (None, emit [Changed] (s1\<lparr>rm_dirty := True\<rparr>)))"

text \<open>\<open>acceptFrame\<close>: an exception leaves what was done before it.\<close>

definition take_frame :: "nat \<Rightarrow> frame \<Rightarrow> remote \<Rightarrow> backend_error option \<times> remote" where
  "take_frame now f s =
     (if (case rm_frame s of None \<Rightarrow> False | Some g \<Rightarrow> pr_revision f < pr_revision g) then (None, s)
      else if (case fr_viewport f of None \<Rightarrow> False | Some p \<Rightarrow> pk_columns p \<noteq> pr_cols f \<or> pk_rows p \<noteq> pr_rows f)
      then (Some Geometry_Mismatch, s)
      else let s1 = accept_progress now False (progress.truncate f) s in
        case fr_viewport f of None \<Rightarrow> show_frame f s1
        | Some p \<Rightarrow> (case accept_viewport f p s1 of
            (Some e, s2) \<Rightarrow> (Some e, s2)
          | (None, s2) \<Rightarrow> show_frame f s2))"

subsection \<open>Replies of the worker\<close>

text \<open>A range that a block read waits for goes into the cache; its exception only rejects that read.\<close>

definition read_answered :: "nat \<Rightarrow> reply \<Rightarrow> remote \<Rightarrow> remote" where
  "read_answered rid r s = (case r of
     Range_Reply h \<Rightarrow> if list_ex (\<lambda>e. snd e = rid) (rm_reads s) then snd (accept_history (Some h) s) else s
   | _ \<Rightarrow> s)"

definition rm_take :: "nat \<Rightarrow> pending \<Rightarrow> remote \<Rightarrow> remote" where
  "rm_take rid p s = s\<lparr>rm_pending := mdel rid (rm_pending s), rm_bytes := rm_bytes s - pe_bytes p\<rparr>"

definition rm_reply :: "nat \<Rightarrow> nat \<Rightarrow> nat \<Rightarrow> reply \<Rightarrow> remote \<Rightarrow> remote" where
  "rm_reply now gen rid r s =
     (if gen \<noteq> rm_generation s \<or> rm_disposed s then s
      else case mget (rm_pending s) rid of None \<Rightarrow> s
      | Some p \<Rightarrow> request_settled rid (pe_operation p) (let s1 = rm_take rid p s in
          case r of
            Error_Reply t fatal \<Rightarrow> (let s2 = emit [Rejected rid (Reply_Error t)] s1 in
              if fatal then rm_fail (Reply_Error t) s2 else s2)
          | Frame_Reply f \<Rightarrow> (case take_frame now f s1 of
              (None, s2) \<Rightarrow> emit [Resolved rid] s2
            | (Some e, s2) \<Rightarrow> rm_fail e (emit [Rejected rid e] s2))
          | Progress_Reply q \<Rightarrow> emit [Resolved rid] (accept_progress now True q s1)
          | _ \<Rightarrow> read_answered rid r (emit [Resolved rid] s1)))"

text \<open>\<open>onerror\<close> and \<open>onmessageerror\<close> of the worker.\<close>

definition rm_worker_error :: "nat \<Rightarrow> backend_error \<Rightarrow> remote \<Rightarrow> remote" where
  "rm_worker_error gen err s = (if gen \<noteq> rm_generation s \<or> rm_disposed s then s else rm_fail err s)"

subsection \<open>Reading\<close>

definition rm_ready :: "remote \<Rightarrow> bool" where
  "rm_ready s = (rm_progress s \<noteq> None \<and> \<not> rm_failed s \<and> \<not> rm_disposed s \<and> \<not> rm_restoring s)"

definition rm_held :: "nat \<Rightarrow> remote \<Rightarrow> bool" where
  "rm_held now s = (now < rm_sync_deadline s)"

definition frame_ready :: "nat \<Rightarrow> remote \<Rightarrow> bool" where
  "frame_ready now s = (rm_ready s \<and> \<not> rm_held now s \<and> rm_cells s \<noteq> None
     \<and> map_option (\<lambda>f. (pr_cols f, pr_rows f, pr_epoch f)) (rm_frame s)
       = map_option (\<lambda>q. (rm_cols s, rm_rows s, pr_epoch q)) (rm_progress s))"

definition frame_current :: "nat \<Rightarrow> remote \<Rightarrow> bool" where
  "frame_current now s = (frame_ready now s \<and> rm_view_revision s = map_option pr_revision (rm_progress s))"

text \<open>A request whose promise another field keeps: it is kept while it is pending.\<close>

definition still_pending :: "nat option \<Rightarrow> remote \<Rightarrow> nat option" where
  "still_pending rid s = (case rid of None \<Rightarrow> None | Some i \<Rightarrow> if mhas (rm_pending s) i then Some i else None)"

definition rm_get_viewport :: "nat \<Rightarrow> bool \<Rightarrow> remote \<Rightarrow> cell list option \<times> remote" where
  "rm_get_viewport now throws s =
     (let s' = (if \<not> rm_rendering s \<and> rm_ready s \<and> \<not> rm_held now s
             \<and> rm_view_revision s \<noteq> map_option pr_revision (rm_progress s) \<and> rm_snapshot s = None
           then (case rm_request now throws Snapshot 0 s of (rid, s1) \<Rightarrow> s1\<lparr>rm_snapshot := still_pending rid s1\<rparr>)
           else s)
      in (if frame_ready now s' \<and> (rm_has_rendered s' \<or> frame_current now s') then rm_cells s' else None, s'))"

definition rm_sync_fires :: "nat \<Rightarrow> bool \<Rightarrow> bool \<Rightarrow> remote \<Rightarrow> remote" where
  "rm_sync_fires now visible throws s = (case rm_sync_timer s of None \<Rightarrow> s
   | Some g \<Rightarrow> (let s1 = s\<lparr>rm_sync_timer := None, rm_sync_deadline := 0\<rparr> in
       if rm_disposed s \<or> rm_failed s \<or> rm_generation s \<noteq> g then s1
       else emit [Changed] (if visible then snd (rm_get_viewport now throws s1) else s1)))"

text \<open>One block of \<open>prepareRange\<close>.\<close>

definition rm_prepare_block :: "nat \<Rightarrow> bool \<Rightarrow> nat \<Rightarrow> int \<Rightarrow> remote \<Rightarrow> remote" where
  "rm_prepare_block now throws epoch first s =
     (if mhas (rm_reads s) (epoch, first) then s
      else case rm_request now throws Read 0 s of
        (None, s1) \<Rightarrow> emit [Changed] s1
      | (Some rid, s1) \<Rightarrow> if mhas (rm_pending s1) rid then s1\<lparr>rm_reads := mput (epoch, first) rid (rm_reads s1)\<rparr> else emit [Changed] s1)"

definition rm_restore :: "nat \<Rightarrow> bool \<Rightarrow> remote \<Rightarrow> remote" where
  "rm_restore now throws s = (case rm_request now throws Restore 0 (s\<lparr>rm_restoring := True\<rparr>) of
     (None, s1) \<Rightarrow> emit [Changed] (s1\<lparr>rm_restoring := False\<rparr>) | (Some _, s1) \<Rightarrow> s1)"

definition rm_render_begin :: "remote \<Rightarrow> remote" where
  "rm_render_begin s = s\<lparr>rm_rendering := (rm_frame s \<noteq> None)\<rparr>"

definition rm_render_end :: "bool \<Rightarrow> remote \<Rightarrow> remote" where
  "rm_render_end rendered s = s\<lparr>rm_rendering := False, rm_has_rendered := rm_has_rendered s \<or> rendered\<rparr>"

definition rm_mark_clean :: "remote \<Rightarrow> remote" where
  "rm_mark_clean s = s\<lparr>rm_dirty := False, rm_full := False, rm_dirty_rows := []\<rparr>"

definition rm_row_dirty :: "remote \<Rightarrow> nat \<Rightarrow> bool" where
  "rm_row_dirty s row = (rm_full s \<or> row \<in> set (rm_dirty_rows s))"

definition rm_read_response :: "remote \<Rightarrow> string option \<times> remote" where
  "rm_read_response s = (case rm_responses s of [] \<Rightarrow> (None, s) | r # rs \<Rightarrow> (if r = [] then None else Some r, s\<lparr>rm_responses := rs\<rparr>))"

definition rm_fresh :: "string \<Rightarrow> nat \<Rightarrow> nat \<Rightarrow> remote" where
  "rm_fresh config cols rows = \<lparr>rm_generation = 0, rm_next = 1, rm_pending = [], rm_bytes = 0, rm_history = [], rm_reads = [],
     rm_responses = [], rm_disposed = False, rm_failed = False, rm_restoring = False, rm_config = config, rm_cols = cols, rm_rows = rows,
     rm_frame = None, rm_progress = None, rm_rendering = False, rm_has_rendered = False, rm_lines = None, rm_cells = None,
     rm_view_revision = None, rm_dirty = False, rm_dirty_rows = [], rm_full = True, rm_snapshot = None, rm_sync_timer = None,
     rm_sync_deadline = 0, rm_prepared = None, rm_outs = []\<rparr>"

definition rm_start :: "nat \<Rightarrow> bool \<Rightarrow> bool \<Rightarrow> string \<Rightarrow> nat \<Rightarrow> nat \<Rightarrow> bool \<times> remote" where
  "rm_start now created throws config cols rows = rm_restart now created throws config (rm_fresh config cols rows)"

datatype remote_event = Call nat bool operation nat | Timeout nat bool nat | Restart nat bool bool string | Mark_Prepared
  | Reset nat bool bool string | Free | Reply nat nat nat reply | Worker_Event nat backend_error | Get_Viewport nat bool
  | Sync_Timer nat bool bool | Prepare_Block nat bool nat int | Restore_Checkpoint nat bool | Render_Begin | Render_End bool
  | Mark_Clean | Read_Response

fun rm_step :: "remote \<Rightarrow> remote_event \<Rightarrow> remote" where
  "rm_step s (Call now throws op bytes) = snd (rm_request now throws op bytes s)"
| "rm_step s (Timeout now hidden rid) = rm_timeout now hidden rid s"
| "rm_step s (Restart now created throws config) = snd (rm_restart now created throws config s)"
| "rm_step s Mark_Prepared = rm_mark_prepared s"
| "rm_step s (Reset now created throws config) = snd (rm_reset now created throws config s)"
| "rm_step s Free = rm_free s"
| "rm_step s (Reply now gen rid r) = rm_reply now gen rid r s"
| "rm_step s (Worker_Event gen err) = rm_worker_error gen err s"
| "rm_step s (Get_Viewport now throws) = snd (rm_get_viewport now throws s)"
| "rm_step s (Sync_Timer now visible throws) = rm_sync_fires now visible throws s"
| "rm_step s (Prepare_Block now throws epoch first) = rm_prepare_block now throws epoch first s"
| "rm_step s (Restore_Checkpoint now throws) = rm_restore now throws s"
| "rm_step s Render_Begin = rm_render_begin s"
| "rm_step s (Render_End rendered) = rm_render_end rendered s"
| "rm_step s Mark_Clean = rm_mark_clean s"
| "rm_step s Read_Response = snd (rm_read_response s)"

subsection \<open>Every request settles once\<close>

fun settles :: "nat \<Rightarrow> remote_out \<Rightarrow> bool" where
  "settles rid (Resolved r) = (r = rid)"
| "settles rid (Rejected r e) = (r = rid)"
| "settles rid _ = False"

definition settle_count :: "nat \<Rightarrow> remote_out list \<Rightarrow> nat" where
  "settle_count rid os = length (filter (settles rid) os)"

definition is_diagnosis :: "nat \<times> pending \<Rightarrow> bool" where
  "is_diagnosis e = (pe_operation (snd e) = Diagnose)"

definition accounted :: "remote \<Rightarrow> bool" where
  "accounted s = (0 < rm_next s \<and> mwf (rm_pending s) \<and> (\<forall>rid. mhas (rm_pending s) rid \<longrightarrow> 0 < rid \<and> rid < rm_next s)
     \<and> (rm_disposed s \<or> rm_bytes s = sum_list (map (\<lambda>e. pe_bytes (snd e)) (rm_pending s)))
     \<and> (\<forall>rid. settle_count rid (rm_outs s) = (if 0 < rid \<and> rid < rm_next s \<and> \<not> mhas (rm_pending s) rid then 1 else 0))
     \<and> rm_bytes s \<le> max_request_bytes
     \<and> length (filter (\<lambda>e. \<not> is_diagnosis e) (rm_pending s)) \<le> max_requests
     \<and> length (filter is_diagnosis (rm_pending s)) \<le> max_requests
     \<and> (rm_failed s \<or> rm_disposed s \<longrightarrow> rm_pending s = []))"

definition same_requests :: "remote \<Rightarrow> remote \<Rightarrow> bool" where
  "same_requests s s' = (rm_next s' = rm_next s \<and> rm_pending s' = rm_pending s \<and> rm_bytes s' = rm_bytes s
     \<and> rm_failed s' = rm_failed s \<and> rm_disposed s' = rm_disposed s \<and> (\<forall>rid. settle_count rid (rm_outs s') = settle_count rid (rm_outs s)))"

lemma kept_refl: "same_requests s s" by (simp add: same_requests_def)
lemma kept_trans: "same_requests s s' \<Longrightarrow> same_requests s' s'' \<Longrightarrow> same_requests s s''" by (simp add: same_requests_def)
lemma accounted_quiet: "accounted s \<Longrightarrow> same_requests s s' \<Longrightarrow> accounted s'" by (simp add: accounted_def same_requests_def)

lemma settle_count_append: "settle_count rid (xs @ ys) = settle_count rid xs + settle_count rid ys"
  by (simp add: settle_count_def)

lemma kept_emit: "list_all (\<lambda>o'. \<forall>rid. \<not> settles rid o') os \<Longrightarrow> same_requests s s' \<Longrightarrow> same_requests s (emit os s')"
  by (induction os) (auto simp: same_requests_def emit_def settle_count_def)

lemma kept_settled: "same_requests s (request_settled rid op s)"
  by (auto simp: same_requests_def request_settled_def emit_def settle_count_def Let_def)

lemma kept_all_settled: "same_requests s (all_settled ps s)"
proof (induction ps arbitrary: s)
  case (Cons e ps)
  have "same_requests s (request_settled (fst e) (pe_operation (snd e)) s)" by (rule kept_settled)
  from kept_trans [OF this Cons.IH] show ?case by (simp add: all_settled_def)
qed (simp add: all_settled_def kept_refl)

lemma settle_count_rejects:
  "mwf ps \<Longrightarrow> settle_count rid (map (\<lambda>e. Rejected (fst e) err) ps) = (if mhas ps rid then 1 else 0)"
proof (induction ps)
  case (Cons e ps)
  have "mwf ps" "\<not> mhas ps (fst e)" using Cons.prems by (auto simp: mwf_def mhas_def)
  with Cons.IH show ?case by (auto simp: settle_count_def mhas_def)
qed (simp add: settle_count_def)

lemma accounted_reject_all:
  assumes "accounted s" "rm_next s' = rm_next s" "rm_pending s' = rm_pending s"
    "\<And>rid. settle_count rid (rm_outs s') = settle_count rid (rm_outs s)"
  shows "accounted (reject_all err s')"
  using assms by (auto simp: accounted_def reject_all_def reject_pending_def emit_def settle_count_append settle_count_rejects)

lemma accounted_reject_pending:
  assumes "accounted s" "rm_next s' = rm_next s" "rm_pending s' = rm_pending s" "rm_bytes s' = rm_bytes s" "rm_disposed s'"
    "\<And>rid. settle_count rid (rm_outs s') = settle_count rid (rm_outs s)"
  shows "accounted (reject_pending err s')"
  using assms by (auto simp: accounted_def reject_pending_def emit_def settle_count_append settle_count_rejects)

lemma accounted_fail: "accounted s \<Longrightarrow> accounted (rm_fail err s)"
proof -
  assume a: "accounted s"
  let ?s = "emit [Terminated (rm_generation s)] (s\<lparr>rm_failed := True, rm_sync_timer := None\<rparr>)"
  have b: "accounted (reject_all err ?s)"
    by (rule accounted_reject_all [OF a]) (simp_all add: emit_def settle_count_def)
  have "accounted (emit [Reported err] (reject_all err ?s))"
    by (rule accounted_quiet [OF b]) (simp add: same_requests_def emit_def settle_count_def)
  from accounted_quiet [OF this kept_all_settled] show ?thesis by (simp add: rm_fail_def a)
qed

lemma sum_list_mput_fresh: "\<not> mhas m k \<Longrightarrow> mput k v m = m @ [(k, v)]"
  by (induction m) (auto simp: mput_def mhas_def)

lemma accounted_add:
  assumes a: "accounted s" and c: "\<not> rm_failed s" "\<not> rm_disposed s"
    and f: "\<not> queue_full op s" "rm_bytes s + bytes \<le> max_request_bytes"
  shows "accounted (s\<lparr>rm_next := Suc (rm_next s), rm_bytes := rm_bytes s + bytes,
    rm_pending := mput (rm_next s) \<lparr>pe_operation = op, pe_bytes = bytes, pe_deadline = d\<rparr> (rm_pending s), rm_outs := rm_outs s @ [Posted n op']\<rparr>)"
proof -
  have n: "\<not> mhas (rm_pending s) (rm_next s)" using a by (auto simp: accounted_def)
  have l: "length (filter is_diagnosis ps) + length (filter (\<lambda>e. \<not> is_diagnosis e) ps) = length ps" for ps
    by (rule sum_length_filter_compl)
  have "op = Diagnose \<Longrightarrow> length (filter is_diagnosis (rm_pending s)) < max_requests"
    using f(1) l [of "rm_pending s"] by (simp add: queue_full_def)
  moreover have "op \<noteq> Diagnose \<Longrightarrow> length (filter (\<lambda>e. \<not> is_diagnosis e) (rm_pending s)) < max_requests"
    using f(1) l [of "rm_pending s"] by (auto simp: queue_full_def is_diagnosis_def)
  moreover define m where "m = mput (rm_next s) \<lparr>pe_operation = op, pe_bytes = bytes, pe_deadline = d\<rparr> (rm_pending s)"
  have m: "mwf m" "mhas m rid = (rid = rm_next s \<or> mhas (rm_pending s) rid)" for rid
    using a by (simp_all add: m_def om.wf_put om.has_put accounted_def)
  have "settle_count rid (rm_outs s @ [Posted n op']) = settle_count rid (rm_outs s)" for rid
    by (simp add: settle_count_def)
  moreover have "m = rm_pending s @ [(rm_next s, \<lparr>pe_operation = op, pe_bytes = bytes, pe_deadline = d\<rparr>)]"
    by (simp add: m_def sum_list_mput_fresh n)
  then have "sum_list (map (\<lambda>e. pe_bytes (snd e)) m) = rm_bytes s + bytes"
    "filter is_diagnosis m = filter is_diagnosis (rm_pending s) @ (if op = Diagnose then [(rm_next s, \<lparr>pe_operation = op, pe_bytes = bytes, pe_deadline = d\<rparr>)] else [])"
    "filter (\<lambda>e. \<not> is_diagnosis e) m = filter (\<lambda>e. \<not> is_diagnosis e) (rm_pending s)
       @ (if op \<noteq> Diagnose then [(rm_next s, \<lparr>pe_operation = op, pe_bytes = bytes, pe_deadline = d\<rparr>)] else [])"
    using a c(2) by (auto simp: is_diagnosis_def accounted_def)
  ultimately show ?thesis
    using a f(2) n c unfolding accounted_def m_def [symmetric] by (auto simp: m less_Suc_eq)
qed

lemma mdel_sum: "mwf m \<Longrightarrow> mget m k = Some v \<Longrightarrow> sum_list (map (\<lambda>e. g (snd e)) m) = g v + sum_list (map (\<lambda>e. g (snd e)) (mdel k m) :: nat list)"
proof (induction m)
  case (Cons e m)
  show ?case
  proof (cases "fst e = k")
    case True
    then have "\<forall>x \<in> set m. fst x \<noteq> k" using Cons.prems(1) unfolding mwf_def by (metis distinct.simps(2) image_eqI list.set_map list.simps(9))
    then have "filter (\<lambda>e. fst e \<noteq> k) m = m" by (intro filter_True)
    with True Cons.prems show ?thesis by (cases e) (simp add: mget_def mdel_def)
  next
    case False
    with Cons show ?thesis by (cases e) (simp add: mget_def mdel_def mwf_def)
  qed
qed simp

lemma filter_mdel_le: "length (filter P (mdel k m)) \<le> length (filter P m)"
  by (induction m) (auto simp: mdel_def)

lemma accounted_take:
  assumes a: "accounted s" and p: "mget (rm_pending s) rid = Some p" and r: "\<And>i. settles i r \<longleftrightarrow> i = rid"
  shows "accounted (emit [r] (rm_take rid p s))"
proof -
  have h: "mhas (rm_pending s) rid" using p by (simp add: om.has_get)
  have nd: "\<not> rm_disposed s" using a p by (auto simp: accounted_def mget_def)
  have b: "rm_bytes s = pe_bytes p + sum_list (map (\<lambda>e. pe_bytes (snd e)) (mdel rid (rm_pending s)))"
    using a nd mdel_sum [OF _ p, of pe_bytes] by (auto simp: accounted_def)
  have "length (filter is_diagnosis (mdel rid (rm_pending s))) \<le> max_requests"
    "length (filter (\<lambda>e. \<not> is_diagnosis e) (mdel rid (rm_pending s))) \<le> max_requests"
    using a by (auto simp: accounted_def intro: le_trans [OF filter_mdel_le])
  moreover have "settle_count i [r] = (if i = rid then 1 else 0)" for i by (simp add: settle_count_def r)
  moreover have k: "0 < rm_next s" "mwf (rm_pending s)" "rm_bytes s \<le> max_request_bytes" "\<not> rm_failed s" "\<not> rm_disposed s"
    "\<And>i. mhas (rm_pending s) i \<Longrightarrow> 0 < i \<and> i < rm_next s"
    "\<And>i. settle_count i (rm_outs s) = (if 0 < i \<and> i < rm_next s \<and> \<not> mhas (rm_pending s) i then 1 else 0)"
    using a h unfolding accounted_def by auto
  ultimately show ?thesis
    using h b by (simp add: accounted_def emit_def rm_take_def om.wf_del om.has_del settle_count_append)
qed

lemma accounted_request: "accounted s \<Longrightarrow> accounted (snd (rm_request now throws op bytes s))"
proof -
  assume a: "accounted s"
  have q: "accounted (emit [Refused op e] s)" for e
    by (rule accounted_quiet [OF a]) (simp add: same_requests_def emit_def settle_count_def)
  define s1 where "s1 = s\<lparr>rm_next := Suc (rm_next s), rm_bytes := rm_bytes s + bytes,
      rm_pending := mput (rm_next s) \<lparr>pe_operation = op, pe_bytes = bytes, pe_deadline = now + operation_timeout op\<rparr> (rm_pending s)\<rparr>"
  show ?thesis
  proof (cases "rm_disposed s \<or> rm_failed s \<or> queue_full op s \<or> max_request_bytes < rm_bytes s + bytes")
    case True
    then show ?thesis using q accounted_fail [OF q] by (auto simp: rm_request_def Let_def)
  next
    case False
    have p: "accounted (s1\<lparr>rm_outs := rm_outs s @ [Posted (rm_next s) op]\<rparr>)"
      using accounted_add [OF a, where op = op and bytes = bytes and d = "now + operation_timeout op" and n = "rm_next s" and op' = op] False by (simp add: s1_def)
    then have p1: "accounted s1"
      by (rule accounted_quiet) (simp add: s1_def same_requests_def settle_count_def)
    have g: "mget (rm_pending s1) (rm_next s) = Some \<lparr>pe_operation = op, pe_bytes = bytes, pe_deadline = now + operation_timeout op\<rparr>"
      by (simp add: s1_def om.get_put)
    show ?thesis
      using False p accounted_fail [OF p1] accounted_take [OF p1 g, of "Rejected (rm_next s) Worker_Error"]
      by (auto simp: rm_request_def Let_def s1_def emit_def rm_take_def)
  qed
qed

lemma kept_upd [simp]:
  "same_requests s (s'\<lparr>rm_snapshot := a\<rparr>) = same_requests s s'" "same_requests s (s'\<lparr>rm_reads := b\<rparr>) = same_requests s s'" "same_requests s (s'\<lparr>rm_restoring := c\<rparr>) = same_requests s s'"
  "same_requests s (s'\<lparr>rm_prepared := d\<rparr>) = same_requests s s'" "same_requests s (emit [Changed] s') = same_requests s s'"
  by (auto simp: same_requests_def emit_def settle_count_def)

lemma accounted_upd [simp]:
  "accounted (s\<lparr>rm_snapshot := a\<rparr>) = accounted s" "accounted (s\<lparr>rm_reads := b\<rparr>) = accounted s"
  "accounted (s\<lparr>rm_restoring := c\<rparr>) = accounted s" "accounted (s\<lparr>rm_prepared := d\<rparr>) = accounted s"
  "accounted (emit [Changed] s) = accounted s"
  by (auto simp: accounted_def emit_def settle_count_def)

lemma kept_progress: "same_requests s (accept_progress now notify st s)"
  by (auto simp: accept_progress_def same_requests_def emit_def settle_count_def Let_def split: option.split)

lemma kept_history: "same_requests s (snd (accept_history r s))"
  by (auto simp: accept_history_def same_requests_def split: option.split sum.split)

lemma kept_show: "same_requests s (snd (show_frame f s))"
proof -
  have "same_requests (s\<lparr>rm_frame := Some f\<rparr>) (snd (accept_history (fr_history f) (s\<lparr>rm_frame := Some f\<rparr>)))"
    by (rule kept_history)
  then show ?thesis
    by (auto simp: show_frame_def same_requests_def emit_def settle_count_def split: prod.splits option.splits)
qed

lemma kept_viewport: "same_requests s (snd (accept_viewport f p s))"
  by (auto simp: accept_viewport_def same_requests_def Let_def split: sum.splits option.splits)

lemma kept_frame: "same_requests s (snd (take_frame now f s))"
proof -
  let ?s = "accept_progress now False (progress.truncate f) s"
  have p: "same_requests s ?s" by (rule kept_progress)
  have "same_requests s (snd (show_frame f ?s))" using kept_trans [OF p kept_show] .
  moreover have v: "accept_viewport f pk ?s = (x, s2) \<Longrightarrow> same_requests s s2" for pk x s2
    using kept_trans [OF p kept_viewport] by (metis snd_conv)
  moreover have "accept_viewport f pk ?s = (x, s2) \<Longrightarrow> same_requests s (snd (show_frame f s2))" for pk x s2
    using kept_trans [OF v kept_show] .
  ultimately show ?thesis
    by (auto simp: take_frame_def Let_def kept_refl split: option.split prod.split)
qed

lemma kept_read: "same_requests s (read_answered rid r s)"
  by (auto simp: read_answered_def kept_refl kept_history split: reply.split)

lemma mput_same:
  assumes "mget m k = Some p"
  shows "g p' = g p \<Longrightarrow> map (\<lambda>e. g (snd e)) (mput k p' m) = map (\<lambda>e. g (snd e)) m"
    "Q p' = Q p \<Longrightarrow> length (filter (\<lambda>e. Q (snd e)) (mput k p' m)) = length (filter (\<lambda>e. Q (snd e)) m)"
    "mput k p' m \<noteq> []"
  using assms by (induction m) (auto simp: mget_def mput_def split: if_splits)

lemma accounted_timeout: "accounted s \<Longrightarrow> accounted (rm_timeout now hidden rid s)"
proof -
  assume a: "accounted s"
  show ?thesis
  proof (cases "mget (rm_pending s) rid")
    case None
    with a show ?thesis by (simp add: rm_timeout_def)
  next
    case (Some p)
    define p' where "p' = p\<lparr>pe_deadline := now + operation_timeout (pe_operation p)\<rparr>"
    have h: "mhas (rm_pending s) rid" using Some by (simp add: om.has_get)
    have "accounted (s\<lparr>rm_pending := mput rid p' (rm_pending s)\<rparr>)"
      using a h mput_same(1) [OF Some, of pe_bytes p'] mput_same(2) [OF Some, of "\<lambda>p. pe_operation p = Diagnose" p']
        mput_same(2) [OF Some, of "\<lambda>p. pe_operation p \<noteq> Diagnose" p']
      unfolding accounted_def is_diagnosis_def by (auto simp: om.wf_put om.has_put p'_def)
    then show ?thesis
      using Some accounted_take [OF a Some, of "Rejected rid Observation_Timed_Out"] accounted_fail [OF a]
      by (auto simp: rm_timeout_def p'_def rm_take_def)
  qed
qed

lemma accounted_restart: "accounted s \<Longrightarrow> accounted (snd (rm_restart now created throws config s))"
proof -
  assume a: "accounted s"
  let ?s = "emit (if rm_generation s = 0 then [] else [Terminated (rm_generation s)]) s"
  have "accounted (reject_all Cancelled ?s)"
    by (rule accounted_reject_all [OF a]) (simp_all add: emit_def settle_count_def)
  moreover have "rm_pending (reject_all Cancelled ?s) = []" by (simp add: reject_all_def reject_pending_def)
  ultimately have r: "accounted (reject_all Cancelled ?s\<lparr>rm_prepared := None, rm_sync_timer := None, rm_sync_deadline := 0,
          rm_generation := Suc (rm_generation s), rm_config := config, rm_failed := False, rm_restoring := False,
          rm_frame := None, rm_progress := None, rm_rendering := False, rm_has_rendered := False, rm_lines := None,
          rm_cells := None, rm_view_revision := None, rm_dirty := False, rm_dirty_rows := [], rm_full := True,
          rm_snapshot := None, rm_history := [], rm_reads := [], rm_responses := []\<rparr>)" (is "accounted ?r")
    by (simp add: accounted_def)
  have "accounted (emit [Reported Worker_Error] (?r\<lparr>rm_failed := True\<rparr>))"
    using r by (simp add: accounted_def emit_def settle_count_def reject_all_def reject_pending_def)
  then show ?thesis
    using a accounted_request [OF r] by (simp add: rm_restart_def Let_def)
qed

lemma accounted_free: "accounted s \<Longrightarrow> accounted (rm_free s)"
proof -
  assume a: "accounted s"
  let ?s = "emit [Terminated (rm_generation s)] (s\<lparr>rm_disposed := True\<rparr>)"
  have b: "accounted (reject_pending Cancelled ?s)"
    by (rule accounted_reject_pending [OF a]) (simp_all add: emit_def settle_count_def)
  have "accounted (emit [Freed] ((reject_pending Cancelled ?s)\<lparr>
       rm_history := [], rm_progress := None, rm_frame := None, rm_lines := None, rm_cells := None,
       rm_sync_timer := None, rm_dirty_rows := [], rm_responses := []\<rparr>))"
    by (rule accounted_quiet [OF b]) (simp add: same_requests_def emit_def settle_count_def)
  from accounted_quiet [OF this kept_all_settled] show ?thesis by (simp add: rm_free_def a)
qed

lemma accounted_reply: "accounted s \<Longrightarrow> accounted (rm_reply now gen rid r s)"
proof -
  assume a: "accounted s"
  show ?thesis
  proof (cases "gen \<noteq> rm_generation s \<or> rm_disposed s \<or> mget (rm_pending s) rid = None")
    case True
    with a show ?thesis by (auto simp: rm_reply_def)
  next
    case False
    then obtain p where p: "mget (rm_pending s) rid = Some p" by auto
    let ?s = "rm_take rid p s"
    have t: "accounted (emit [o'] ?s)" if "\<And>i. settles i o' \<longleftrightarrow> i = rid" for o'
      by (rule accounted_take [OF a p that])
    have m: "accounted (emit [o'] s')" if "same_requests ?s s'" "\<And>i. settles i o' \<longleftrightarrow> i = rid" for o' s'
      by (rule accounted_quiet [OF t [OF that(2)]]) (use that in \<open>auto simp: same_requests_def emit_def settle_count_append\<close>)
    have m1: "same_requests ?s s' \<Longrightarrow> accounted (emit [Resolved rid] s')" and m2: "same_requests ?s s' \<Longrightarrow> accounted (emit [Rejected rid e] s')" for s' e
      by (rule m; auto)+
    have f: "accounted (case take_frame now fr ?s of (None, s2) \<Rightarrow> emit [Resolved rid] s2
            | (Some e, s2) \<Rightarrow> rm_fail e (emit [Rejected rid e] s2))" for fr
      using kept_frame [of ?s now fr] m1 accounted_fail [OF m2] by (auto split: prod.splits option.splits)
    have "accounted (case r of
            Error_Reply t fatal \<Rightarrow> (let s2 = emit [Rejected rid (Reply_Error t)] ?s in
              if fatal then rm_fail (Reply_Error t) s2 else s2)
          | Frame_Reply f \<Rightarrow> (case take_frame now f ?s of
              (None, s2) \<Rightarrow> emit [Resolved rid] s2
            | (Some e, s2) \<Rightarrow> rm_fail e (emit [Rejected rid e] s2))
          | Progress_Reply q \<Rightarrow> emit [Resolved rid] (accept_progress now True q ?s)
          | _ \<Rightarrow> read_answered rid r (emit [Resolved rid] ?s))"
      using m1 [OF kept_refl] m2 [OF kept_refl] accounted_fail [OF m2 [OF kept_refl]] m1 [OF kept_progress]
        accounted_quiet [OF m1 [OF kept_refl] kept_read] f
      by (cases r) (simp_all add: Let_def)
    then show ?thesis
      using False p accounted_quiet [OF _ kept_settled] by (simp add: rm_reply_def Let_def)
  qed
qed

lemma accounted_view: "accounted s \<Longrightarrow> accounted (snd (rm_get_viewport now throws s))"
  using accounted_request [of s] by (auto simp: rm_get_viewport_def Let_def split: prod.splits) (metis snd_conv)

lemma accounted_step: "accounted s \<Longrightarrow> accounted (rm_step s e)"
proof (cases e)
  case (Sync_Timer now visible throws)
  assume a: "accounted s"
  have b: "accounted (s\<lparr>rm_sync_timer := None, rm_sync_deadline := 0\<rparr>)"
    by (rule accounted_quiet [OF a]) (simp add: same_requests_def)
  from b accounted_view [OF b] a Sync_Timer show ?thesis
    by (auto simp: rm_sync_fires_def Let_def split: option.split)
next
  case (Prepare_Block now throws epoch first)
  assume "accounted s"
  then show ?thesis using Prepare_Block accounted_request [of s now throws Read 0]
    by (auto simp: rm_prepare_block_def split: prod.splits option.splits)
next
  case (Restore_Checkpoint now throws)
  assume "accounted s"
  then show ?thesis using Restore_Checkpoint accounted_request [of "s\<lparr>rm_restoring := True\<rparr>" now throws Restore 0]
    by (auto simp: rm_restore_def split: prod.splits option.splits)
qed (auto intro: accounted_quiet simp: rm_mark_prepared_def rm_render_begin_def rm_render_end_def rm_mark_clean_def rm_read_response_def
    same_requests_def rm_reset_def rm_worker_error_def Let_def accounted_request accounted_timeout accounted_restart accounted_free accounted_reply
    accounted_view accounted_fail split: list.split)

interpretation rmm: invariant_machine rm_step accounted
  by standard (rule accounted_step)

lemma accounted_fresh: "accounted (rm_fresh config cols rows)"
  by (auto simp: accounted_def rm_fresh_def settle_count_def)

text \<open>
  C39. Whatever is called, answered, lost, timed out, restarted or freed, and in whatever order: a
  request that was numbered and is no longer pending has settled exactly once, a pending one has
  not settled, none is pending once the backend failed or was freed, at most 64 commands and four
  megabytes are under way, and until the backend is freed the byte count is the sum of the pending requests (a backend that was
  freed keeps the last count, though nothing is pending).
\<close>

theorem requests_settle_once:
  "let s = foldl rm_step (rm_fresh config cols rows) es in
     settle_count rid (rm_outs s) = (if 0 < rid \<and> rid < rm_next s \<and> \<not> mhas (rm_pending s) rid then 1 else 0)
     \<and> (if rm_failed s \<or> rm_disposed s then rm_pending s = [] else True)
     \<and> length (filter (\<lambda>e. pe_operation (snd e) \<noteq> Diagnose) (rm_pending s)) \<le> 64
     \<and> rm_bytes s \<le> 4 * 1024 * 1024
     \<and> (if rm_disposed s then True else rm_bytes s = sum_list (map (\<lambda>e. pe_bytes (snd e)) (rm_pending s)))"
proof -
  have "accounted (foldl rm_step (rm_fresh config cols rows) es)"
    by (rule rmm.inv_run [OF accounted_fresh])
  then show ?thesis
    unfolding Let_def accounted_def is_diagnosis_def max_requests_def max_request_bytes_def by (elim conjE) auto
qed

subsection \<open>The lines are the frame\<close>

text \<open>
  What the page holds of the frame it accepted last: the lines are all its rows unpacked, the flat
  cells are the lines one after the other, and the packet has the size of the frame. A failed
  backend may hold the half of a frame; it shows nothing until it is restarted.
\<close>

definition mirrored :: "remote \<Rightarrow> bool" where
  "mirrored s = (rm_failed s \<or> (case rm_frame s of None \<Rightarrow> rm_lines s = None
     | Some f \<Rightarrow> (case fr_viewport f of None \<Rightarrow> True
        | Some p \<Rightarrow> pk_columns p = pr_cols f \<and> pk_rows p = pr_rows f
            \<and> (\<exists>ls. unpack_rows p = Inr ls \<and> rm_lines s = Some ls \<and> rm_cells s = Some (concat ls)))))"

lemma delta_rows_full:
  assumes "validate_packet p" "length ls = pk_rows p"
    and "\<And>r. r < pk_rows p \<Longrightarrow> r \<notin> set rs \<Longrightarrow> unpack_packet_row p r (packet_texts p) = Inr (ls ! r)"
    and "delta_rows p rs ls = Inr ls'"
  shows "unpack_rows p = Inr ls'"
  using assms
proof (induction rs arbitrary: ls)
  case Nil
  then show ?case by (auto simp: unpack_rows_def gather_nth)
next
  case (Cons r rs)
  then obtain l where l: "unpack_row p (int r) = Inr l" "delta_rows p rs (ls[r := l]) = Inr ls'"
    by (auto split: sum.splits)
  then have u: "unpack_packet_row p r (packet_texts p) = Inr l" by (simp add: unpack_row_def split: if_splits)
  show ?case
  proof (rule Cons.IH [OF Cons.prems(1) _ _ l(2)])
    show "length (ls[r := l]) = pk_rows p" using Cons.prems(2) by simp
    fix q assume "q < pk_rows p" "q \<notin> set rs"
    with Cons.prems u show "unpack_packet_row p q (packet_texts p) = Inr (ls[r := l] ! q)" by (cases "q = r") auto
  qed
qed

lemma next_lines_full:
  assumes "changed_packed_rows old p = Inr changed" "unpack_rows old = Inr ls" "next_lines p changed (Some ls) = Inr ls'"
  shows "unpack_rows p = Inr ls'"
proof (cases changed)
  case None
  with assms(3) show ?thesis by (simp add: next_lines_def)
next
  case (Some rs)
  note c = changed_rows_set [OF assms(1) [unfolded Some]]
  have l: "length ls = pk_rows p" "\<And>r. r < pk_rows p \<Longrightarrow> unpack_packet_row old r (packet_texts old) = Inr (ls ! r)"
    using unpack_rows_nth [OF assms(2)] c(5) by auto
  show ?thesis
  proof (cases "pk_rows p < 3 * length rs")
    case True
    with assms(3) Some show ?thesis by (simp add: next_lines_def)
  next
    case False
    have "unpack_packet_row p r (packet_texts p) = Inr (ls ! r)" if "r < pk_rows p" "r \<notin> set rs" for r
      using unchanged_row [OF assms(1) [unfolded Some] that] l(2) that(1) by simp
    from delta_rows_full [OF c(3) l(1) this] False assms(3) Some show ?thesis by (simp add: next_lines_def)
  qed
qed

lemma concat_update:
  assumes "r < length ls" "col < columns" "\<And>l. l \<in> set ls \<Longrightarrow> length l = columns"
  shows "(concat ls)[r * columns + col := x] = concat (ls[r := (ls ! r)[col := x]])"
  using assms
proof (induction ls arbitrary: r)
  case (Cons l ls)
  show ?case
  proof (cases r)
    case 0
    with Cons.prems show ?thesis by (simp add: list_update_append)
  next
    case (Suc r')
    with Cons show ?thesis by (simp add: list_update_append add.assoc)
  qed
qed simp

lemma write_row_concat:
  assumes "r < length ls" "length (new ! r) = columns" "\<And>l. l \<in> set ls \<Longrightarrow> length l = columns"
  shows "write_row columns new r (concat ls) = concat (ls[r := new ! r])"
proof -
  have "foldl (\<lambda>cs col. cs[r * columns + col := new ! r ! col]) (concat ls) [0..<n]
      = concat (ls[r := take n (new ! r) @ drop n (ls ! r)])" if "n \<le> columns" for n
    using that
  proof (induction n)
    case 0
    then show ?case by simp
  next
    case (Suc n)
    let ?ls = "ls[r := take n (new ! r) @ drop n (ls ! r)]"
    have l: "length l = columns" if "l \<in> set ?ls" for l
      using set_update_subset_insert [of ls r "take n (new ! r) @ drop n (ls ! r)"] that assms Suc.prems by (auto dest!: subsetD)
    have k: "length (ls ! r) = columns" using assms by simp
    have "(concat ?ls)[r * columns + n := new ! r ! n] = concat (?ls[r := (?ls ! r)[n := new ! r ! n]])"
      by (rule concat_update) (use assms Suc.prems l in auto)
    also have "(?ls ! r)[n := new ! r ! n] = take (Suc n) (new ! r) @ drop (Suc n) (ls ! r)"
      using assms Suc.prems k
      by (simp add: list_update_append take_Suc_conv_app_nth Cons_nth_drop_Suc [symmetric])
    finally show ?case using Suc assms by simp
  qed
  from this [of columns] assms show ?thesis by (simp add: write_row_def)
qed

lemma write_rows_concat:
  assumes "length new = length ls" "\<And>l. l \<in> set ls \<Longrightarrow> length l = columns" "\<And>l. l \<in> set new \<Longrightarrow> length l = columns"
    and "\<And>r. r < length ls \<Longrightarrow> r \<notin> set rs \<Longrightarrow> ls ! r = new ! r" "\<And>r. r \<in> set rs \<Longrightarrow> r < length ls"
  shows "foldl (\<lambda>cs row. write_row columns new row cs) (concat ls) rs = concat new"
  using assms
proof (induction rs arbitrary: ls)
  case Nil
  then have "ls = new" by (intro nth_equalityI) auto
  then show ?case by simp
next
  case (Cons r rs)
  have r: "r < length ls" "new ! r \<in> set new" using Cons.prems by auto
  have w: "write_row columns new r (concat ls) = concat (ls[r := new ! r])"
    by (rule write_row_concat) (use Cons.prems r in auto)
  have "foldl (\<lambda>cs row. write_row columns new row cs) (concat (ls[r := new ! r])) rs = concat new"
  proof (rule Cons.IH)
    show "length l = columns" if "l \<in> set (ls[r := new ! r])" for l
      using set_update_subset_insert [of ls r "new ! r"] that Cons.prems r by auto
    show "ls[r := new ! r] ! q = new ! q" if "q < length (ls[r := new ! r])" "q \<notin> set rs" for q
      using that Cons.prems by (cases "q = r") auto
  qed (use Cons.prems in auto)
  with w show ?case by simp
qed

lemma concat_length: "(\<And>l. l \<in> set ls \<Longrightarrow> length l = n) \<Longrightarrow> length (concat ls) = n * length ls"
  by (induction ls) auto

lemma next_cells_full:
  assumes "changed_packed_rows old p = Inr changed" "unpack_rows old = Inr ls" "next_lines p changed (Some ls) = Inr ls'"
    and "next_cells (pk_columns p) (pk_rows p) changed ls' (Some (concat ls)) = Some cs"
  shows "cs = concat ls'"
proof (cases changed)
  case None
  with assms(4) show ?thesis by (simp add: next_cells_def)
next
  case (Some rs)
  note c = changed_rows_set [OF assms(1) [unfolded Some]]
  note n = unpack_rows_nth [OF assms(2)] unpack_rows_nth [OF next_lines_full [OF assms(1-3)]]
  have l: "length l = pk_columns p" if "l \<in> set ls" for l
    using that n(1) c(4) by (force simp: in_set_conv_nth dest: unpack_row_length)
  have l': "length l = pk_columns p" if "l \<in> set ls'" for l
    using that n(2) by (force simp: in_set_conv_nth dest: unpack_row_length)
  have e: "ls ! r = ls' ! r" if "r < length ls" "r \<notin> set rs" for r
    using unchanged_row [OF assms(1) [unfolded Some], of r] that n c(5) by auto
  have len: "length (concat ls) = pk_columns p * pk_rows p"
    using concat_length [of ls "pk_columns p"] l n(1) c(5) by simp
  show ?thesis
  proof (cases "pk_columns p = 0")
    case True
    then have "concat ls = []" "concat ls' = []" using l l' by (auto simp: concat_eq_Nil_conv)
    moreover have "foldl (\<lambda>cs row. write_row 0 ls' row cs) cs0 rs = cs0" for cs0
      by (induction rs arbitrary: cs0) (simp_all add: write_row_def)
    ultimately show ?thesis using assms(4) True len Some by (simp add: next_cells_def)
  next
    case False
    with assms(4) Some len have r: "list_all (\<lambda>row. row < length ls') rs"
      "cs = foldl (\<lambda>cs row. write_row (pk_columns p) ls' row cs) (concat ls) rs"
      by (auto simp: next_cells_def split: if_splits)
    moreover have "length ls' = length ls" using n c(5) by simp
    ultimately show ?thesis
      using write_rows_concat [of ls' ls "pk_columns p" rs] l l' e by (simp add: list_all_iff)
  qed
qed

lemma mirrored_viewport:
  assumes m: "mirrored s" and v: "fr_viewport f = Some p" "pk_columns p = pr_cols f" "pk_rows p = pr_rows f"
    and a: "accept_viewport f p s = (None, s')" and n: "\<not> rm_failed s"
  shows "\<exists>ls. unpack_rows p = Inr ls \<and> rm_lines s' = Some ls \<and> rm_cells s' = Some (concat ls)"
proof -
  from a obtain changed ls cs where c: "frame_changes p s = Inr changed" "next_lines p changed (rm_lines s) = Inr ls"
      "next_cells (pr_cols f) (pr_rows f) changed ls (rm_cells s) = Some cs" "rm_lines s' = Some ls" "rm_cells s' = Some cs"
    by (auto simp: accept_viewport_def Let_def split: sum.splits option.splits)
  show ?thesis
  proof (cases changed)
    case None
    with c show ?thesis by (simp add: next_lines_def next_cells_def)
  next
    case (Some rs)
    with c(1) obtain g old where g: "rm_frame s = Some g" "fr_viewport g = Some old" "changed_packed_rows old p = Inr changed"
      by (auto simp: frame_changes_def split: option.splits)
    with m n obtain ls0 where l: "unpack_rows old = Inr ls0" "rm_lines s = Some ls0" "rm_cells s = Some (concat ls0)"
      by (auto simp: mirrored_def)
    from next_lines_full [OF g(3) l(1) c(2) [unfolded l(2)]]
      next_cells_full [OF g(3) l(1) c(2) [unfolded l(2)] c(3) [unfolded l(3) v(2,3) [symmetric]]] c(4,5)
    show ?thesis by simp
  qed
qed

text \<open>What a step leaves of the view: the fields the mirror speaks of.\<close>

definition same_view :: "remote \<Rightarrow> remote \<Rightarrow> bool" where
  "same_view s s' = (rm_frame s' = rm_frame s \<and> rm_lines s' = rm_lines s \<and> rm_cells s' = rm_cells s
     \<and> rm_full s' = rm_full s \<and> rm_dirty_rows s' = rm_dirty_rows s \<and> (rm_failed s \<longrightarrow> rm_failed s'))"

lemma same_view_refl [simp]: "same_view s s" by (simp add: same_view_def)
lemma same_view_trans: "same_view s s' \<Longrightarrow> same_view s' s'' \<Longrightarrow> same_view s s''" by (simp add: same_view_def)
lemma mirrored_same: "mirrored s \<Longrightarrow> same_view s s' \<Longrightarrow> mirrored s'"
  unfolding mirrored_def same_view_def by (elim conjE, simp only:) blast

lemma same_view_upd [simp]: "same_view s (emit os s') = same_view s s'"
  "same_view s (s'\<lparr>rm_snapshot := a\<rparr>) = same_view s s'" "same_view s (s'\<lparr>rm_reads := b\<rparr>) = same_view s s'"
  "same_view s (s'\<lparr>rm_restoring := c\<rparr>) = same_view s s'" "same_view s (s'\<lparr>rm_prepared := d\<rparr>) = same_view s s'"
  "same_view s (rm_take rid p s') = same_view s s'"
  by (auto simp: same_view_def emit_def rm_take_def)

lemma same_view_settled [simp]: "same_view s (request_settled rid op s') = same_view s s'"
  by (auto simp: request_settled_def Let_def)

lemma same_view_all_settled [simp]: "same_view s (all_settled ps s') = same_view s s'"
  by (induction ps arbitrary: s') (simp_all add: all_settled_def)

lemma same_view_fail: "same_view s (rm_fail e s)"
  by (simp add: rm_fail_def) (simp add: same_view_def reject_all_def reject_pending_def emit_def)

lemma same_view_request: "same_view s (snd (rm_request now throws op bytes s))"
  by (auto simp: rm_request_def Let_def intro!: same_view_trans [OF _ same_view_fail]) (simp_all add: same_view_def)

lemma same_view_timeout: "same_view s (rm_timeout now hidden rid s)"
  by (auto simp: rm_timeout_def same_view_fail split: option.split) (simp_all add: same_view_def)

lemma same_view_progress: "same_view s (accept_progress now notify st s)"
  by (auto simp: accept_progress_def same_view_def emit_def Let_def split: option.split)

lemma same_view_history: "same_view s (snd (accept_history r s))"
  by (auto simp: accept_history_def same_view_def split: option.split sum.split)

lemma same_view_read: "same_view s (read_answered rid r s)"
  by (auto simp: read_answered_def same_view_history split: reply.split)

lemma same_view_get: "same_view s (snd (rm_get_viewport now throws s))"
  using same_view_request by (auto simp: rm_get_viewport_def Let_def split: prod.splits) (metis snd_conv)

lemma take_frame_cases:
  assumes "take_frame now f s = (None, s')"
  obtains "s' = s" | s1 s2 p where "same_view s s1" "rm_failed s1 = rm_failed s" "fr_viewport f = Some p" "pk_columns p = pr_cols f"
      "pk_rows p = pr_rows f" "accept_viewport f p s1 = (None, s2)" "same_view (s2\<lparr>rm_frame := Some f\<rparr>) s'"
    | s1 where "same_view s s1" "fr_viewport f = None" "same_view (s1\<lparr>rm_frame := Some f\<rparr>) s'"
proof -
  let ?s1 = "accept_progress now False (progress.truncate f) s"
  have p: "same_view s ?s1" "rm_failed ?s1 = rm_failed s"
    using same_view_progress kept_progress [of s] by (auto simp: same_requests_def)
  have sh: "same_view (t\<lparr>rm_frame := Some f\<rparr>) t'" if "show_frame f t = (None, t')" for t t'
  proof -
    obtain e t1 where h: "accept_history (fr_history f) (t\<lparr>rm_frame := Some f\<rparr>) = (e, t1)" by fastforce
    have "same_view (t\<lparr>rm_frame := Some f\<rparr>) t1" using same_view_history [of "t\<lparr>rm_frame := Some f\<rparr>" "fr_history f"] h by simp
    moreover have "t' = emit [Changed] (t1\<lparr>rm_dirty := True\<rparr>)" using that h by (auto simp: show_frame_def split: option.splits)
    ultimately show ?thesis by (simp add: same_view_def emit_def)
  qed
  show ?thesis
  proof (cases "fr_viewport f")
    case None
    with assms have "s' = s \<or> show_frame f ?s1 = (None, s')" by (auto simp: take_frame_def Let_def split: if_splits option.splits)
    then show ?thesis using that(1) that(3) [OF p(1) None] sh by blast
  next
    case (Some pk)
    show ?thesis
    proof (cases "s' = s")
      case True
      then show ?thesis by (rule that(1))
    next
      case False
      with assms Some have g: "pk_columns pk = pr_cols f" "pk_rows pk = pr_rows f"
        and v: "(case accept_viewport f pk ?s1 of (Some e, s2) \<Rightarrow> (Some e, s2) | (None, s2) \<Rightarrow> show_frame f s2) = (None, s')"
        by (auto simp: take_frame_def Let_def split: if_splits)
      from v obtain s2 where a: "accept_viewport f pk ?s1 = (None, s2)" "show_frame f s2 = (None, s')"
        by (auto split: prod.splits option.splits)
      from that(2) [OF p(1) p(2) Some g a(1) sh [OF a(2)]] show ?thesis .
    qed
  qed
qed

lemma mirrored_frame:
  assumes "mirrored s" "\<not> rm_failed s" "take_frame now f s = (None, s')"
  shows "mirrored s'"
  using assms(3)
proof (cases rule: take_frame_cases)
  case (2 s1 s2 p)
  have "\<exists>ls. unpack_rows p = Inr ls \<and> rm_lines s2 = Some ls \<and> rm_cells s2 = Some (concat ls)"
    by (rule mirrored_viewport [OF mirrored_same [OF assms(1) 2(1)] 2(3-6)]) (simp add: 2 assms)
  then have "mirrored (s2\<lparr>rm_frame := Some f\<rparr>)" using 2 by (simp add: mirrored_def)
  from mirrored_same [OF this 2(7)] show ?thesis .
next
  case (3 s1)
  have "mirrored (s1\<lparr>rm_frame := Some f\<rparr>)" using 3 by (simp add: mirrored_def)
  from mirrored_same [OF this 3(3)] show ?thesis .
qed (use assms in simp)

lemma fail_failed: "\<not> rm_disposed s \<Longrightarrow> rm_failed (rm_fail e s)"
  using same_view_all_settled [of "emit [Reported e] (reject_all e (emit [Terminated (rm_generation s)] (s\<lparr>rm_failed := True, rm_sync_timer := None\<rparr>)))"
    "rm_pending s" "emit [Reported e] (reject_all e (emit [Terminated (rm_generation s)] (s\<lparr>rm_failed := True, rm_sync_timer := None\<rparr>)))"]
  by (auto simp: rm_fail_def same_view_def reject_all_def reject_pending_def emit_def)

text \<open>
  Every step but the acceptance of a frame, a restart and the release keeps the view; a reply does
  one of three things to it.
\<close>

lemma reply_view:
  obtains "same_view s (rm_reply now gen rid r s)"
  | f s1 s' where "same_view s s1" "\<not> rm_disposed s1" "rm_failed s1 = rm_failed s" "r = Frame_Reply f" "take_frame now f s1 = (None, s')"
      "same_view s' (rm_reply now gen rid r s)"
  | "rm_failed (rm_reply now gen rid r s)"
proof (cases "gen \<noteq> rm_generation s \<or> rm_disposed s \<or> mget (rm_pending s) rid = None")
  case True
  then show ?thesis by (intro that(1)) (auto simp: rm_reply_def)
next
  case False
  then obtain p where p: "mget (rm_pending s) rid = Some p" by auto
  let ?s = "rm_take rid p s"
  have t: "same_view s ?s" "\<not> rm_disposed ?s" "rm_failed ?s = rm_failed s" using False by (simp_all add: rm_take_def same_view_def)
  show ?thesis
  proof (cases r)
    case (Frame_Reply f)
    obtain e s' where a: "take_frame now f ?s = (e, s')" by fastforce
    show ?thesis
    proof (cases e)
      case None
      have "same_view s' (rm_reply now gen rid r s)" using False p a None by (simp add: rm_reply_def Frame_Reply Let_def)
      from that(2) [OF t Frame_Reply a [unfolded None] this] show ?thesis .
    next
      case (Some err)
      have "\<not> rm_disposed s'" using kept_frame [of ?s now f] a t(2) by (simp add: same_requests_def)
      then have "rm_failed (rm_fail err (emit [Rejected rid err] s'))" by (intro fail_failed) (simp add: emit_def)
      moreover have "same_view (rm_fail err (emit [Rejected rid err] s')) (rm_reply now gen rid r s)"
        using False p a Some by (simp add: rm_reply_def Frame_Reply Let_def)
      ultimately show ?thesis by (intro that(3)) (simp add: same_view_def)
    qed
  next
    case (Progress_Reply q)
    have "same_view s (accept_progress now True q ?s)" using same_view_trans [OF t(1) same_view_progress] .
    then show ?thesis using False p by (intro that(1)) (simp add: rm_reply_def Progress_Reply Let_def)
  next
    case (Error_Reply x fatal)
    have "same_view s (rm_fail e (emit os ?s))" for e os by (rule same_view_trans [OF _ same_view_fail]) (simp add: t)
    then show ?thesis using False p t(1) by (intro that(1)) (simp add: rm_reply_def Error_Reply Let_def)
  next
    case (Range_Reply h)
    have "same_view s (read_answered rid r (emit [Resolved rid] ?s))" by (rule same_view_trans [OF _ same_view_read]) (simp add: t)
    then show ?thesis using False p by (intro that(1)) (simp add: rm_reply_def Range_Reply Let_def)
  next
    case Stale_Reply
    have "same_view s (read_answered rid r (emit [Resolved rid] ?s))" by (rule same_view_trans [OF _ same_view_read]) (simp add: t)
    then show ?thesis using False p by (intro that(1)) (simp add: rm_reply_def Stale_Reply Let_def)
  next
    case Other_Reply
    have "same_view s (read_answered rid r (emit [Resolved rid] ?s))" by (rule same_view_trans [OF _ same_view_read]) (simp add: t)
    then show ?thesis using False p by (intro that(1)) (simp add: rm_reply_def Other_Reply Let_def)
  qed
qed

lemma same_view_sync: "same_view s (rm_sync_fires now visible throws s)"
proof -
  have t: "same_view s (s\<lparr>rm_sync_timer := None, rm_sync_deadline := 0\<rparr>)" by (simp add: same_view_def)
  from same_view_trans [OF t same_view_get] t show ?thesis
    by (auto simp: rm_sync_fires_def Let_def split: option.split)
qed

lemma same_view_prepare: "same_view s (rm_prepare_block now throws epoch first s)"
  using same_view_request [of s now throws Read 0] by (auto simp: rm_prepare_block_def split: prod.splits option.splits)

lemma same_view_restore: "same_view s (rm_restore now throws s)"
proof -
  have t: "same_view s (s\<lparr>rm_restoring := True\<rparr>)" by simp
  from same_view_trans [OF t same_view_request] show ?thesis
    by (auto simp: rm_restore_def split: prod.splits option.splits) (metis snd_conv)+
qed

text \<open>The view of a fresh generation and of a released terminal is empty.\<close>

definition view_empty :: "remote \<Rightarrow> bool" where
  "view_empty s = (rm_frame s = None \<and> rm_lines s = None)"

lemma view_empty_same: "view_empty s \<Longrightarrow> same_view s s' \<Longrightarrow> view_empty s'"
  by (simp add: view_empty_def same_view_def)

lemma restart_view: "\<not> rm_disposed s \<Longrightarrow> view_empty (snd (rm_restart now created throws config s))"
proof -
  assume "\<not> rm_disposed s"
  moreover have "view_empty s' \<Longrightarrow> view_empty (snd (rm_request now throws Init 0 s'))" for s'
    using view_empty_same [OF _ same_view_request] .
  ultimately show ?thesis by (simp add: rm_restart_def Let_def) (simp add: view_empty_def emit_def)
qed

lemma free_view: "\<not> rm_disposed s \<Longrightarrow> view_empty (rm_free s)"
proof -
  assume d: "\<not> rm_disposed s"
  let ?s = "emit [Freed] ((reject_pending Cancelled (emit [Terminated (rm_generation s)] (s\<lparr>rm_disposed := True\<rparr>)))\<lparr>
       rm_history := [], rm_progress := None, rm_frame := None, rm_lines := None, rm_cells := None,
       rm_sync_timer := None, rm_dirty_rows := [], rm_responses := []\<rparr>)"
  have "view_empty ?s" by (simp add: view_empty_def emit_def)
  from view_empty_same [OF this, of "all_settled (rm_pending s) ?s"] d show ?thesis
    by (simp add: rm_free_def view_empty_def)
qed

lemma same_view_simple: "same_view s (rm_mark_prepared s)" "same_view s (rm_render_begin s)" "same_view s (rm_render_end r s)"
  "same_view s (snd (rm_read_response s))"
  by (auto simp: rm_mark_prepared_def rm_render_begin_def rm_render_end_def rm_read_response_def same_view_def split: list.split)

lemma other_step:
  "case e of Reply a b c d \<Rightarrow> True | Restart a b c d \<Rightarrow> True | Reset a b c d \<Rightarrow> True | Free \<Rightarrow> True | Mark_Clean \<Rightarrow> True
    | _ \<Rightarrow> same_view s (rm_step s e)"
  by (cases e) (simp_all add: same_view_simple same_view_request same_view_timeout same_view_get same_view_sync same_view_prepare
    same_view_restore rm_worker_error_def same_view_fail)

text \<open>What a step does to the view.\<close>

lemma step_view:
  obtains "same_view s (rm_step s e)" | "view_empty (rm_step s e)" | "rm_failed (rm_step s e)"
  | f s1 s' now gen rid where "e = Reply now gen rid (Frame_Reply f)" "same_view s s1" "rm_failed s1 = rm_failed s"
      "take_frame now f s1 = (None, s')" "same_view s' (rm_step s e)"
  | "e = Mark_Clean"
proof (cases e)
  case (Reply now gen rid r)
  show ?thesis
    by (rule reply_view [of s now gen rid r]) (use that(1,3) that(4) Reply in auto)
next
  case (Restart now created throws config)
  show ?thesis
    by (cases "rm_disposed s") (use that(1,2) Restart restart_view in \<open>auto simp: rm_restart_def\<close>)
next
  case (Reset now created throws config)
  let ?s = "s\<lparr>rm_prepared := None\<rparr>"
  consider "rm_reset now created throws config s = (True, ?s)" | "rm_reset now created throws config s = rm_restart now created throws config ?s"
    unfolding rm_reset_def Let_def by presburger
  then show ?thesis
  proof cases
    case 2
    show ?thesis
    proof (cases "rm_disposed s")
      case True
      then show ?thesis by (intro that(1)) (simp add: Reset 2 rm_restart_def)
    next
      case False
      then show ?thesis by (intro that(2)) (simp add: Reset 2 restart_view)
    qed
  qed (intro that(1), simp add: Reset)
next
  case Free
  show ?thesis by (cases "rm_disposed s") (use that(1,2) Free free_view in \<open>auto simp: rm_free_def\<close>)
next
  case (Worker_Event gen err)
  show ?thesis by (rule that(1)) (auto simp: Worker_Event rm_worker_error_def same_view_fail)
next
  case Mark_Clean
  then show ?thesis by (rule that(5))
qed (use that(1) other_step [of s e] in simp_all)

lemma mirrored_empty: "view_empty s \<Longrightarrow> mirrored s"
  by (simp add: mirrored_def view_empty_def)

lemma mirrored_step: "mirrored s \<Longrightarrow> mirrored (rm_step s e)"
proof (cases rule: step_view [of s e])
  case (4 f s1 s' now gen rid)
  assume m: "mirrored s"
  show ?thesis
  proof (cases "rm_failed s")
    case True
    then have "rm_failed s'" using kept_frame [of s1 now f] 4 by (simp add: same_requests_def)
    then show ?thesis using 4(5) by (simp add: mirrored_def same_view_def)
  next
    case False
    then have "mirrored s'" using mirrored_frame [OF mirrored_same [OF m 4(2)] _ 4(4)] 4(3) by simp
    from mirrored_same [OF this 4(5)] show ?thesis .
  qed
next
  case 5
  assume "mirrored s"
  with 5 show ?thesis by (simp add: mirrored_def rm_mark_clean_def split: option.splits)
next
  case 3
  then show ?thesis by (simp add: mirrored_def)
qed (auto intro: mirrored_same mirrored_empty)

interpretation rmv: invariant_machine rm_step mirrored
  by standard (rule mirrored_step)

text \<open>
  C40. The incremental update is the full one: after any calls and replies, unless the backend failed,
  the lines the page shows are the rows of the last accepted packet unpacked from scratch, and the
  flat cells are those lines, although the code unpacks and copies only the rows that changed.
\<close>

theorem shown_lines_are_frame:
  "let s = foldl rm_step (rm_fresh config cols rows) es in
     rm_failed s \<or> (case map_option fr_viewport (rm_frame s) of
       Some (Some p) \<Rightarrow> map_option Inr (rm_lines s) = Some (unpack_rows p)
         \<and> map_option Inr (rm_cells s) = Some (map_sum (\<lambda>e. e) concat (unpack_rows p))
     | Some None \<Rightarrow> True
     | None \<Rightarrow> rm_lines s = None)"
proof -
  have "mirrored (rm_fresh config cols rows)" by (simp add: mirrored_def rm_fresh_def)
  from rmv.inv_run [OF this, of es] show ?thesis
    by (auto simp: Let_def mirrored_def split: option.splits)
qed

subsection \<open>The renderer repaints what changed\<close>

text \<open>
  The lines the renderer had when it last marked them clean are what is on the canvas. A row may
  differ from them only while it is reported dirty.
\<close>

definition paint_step :: "remote \<times> cell list list option \<Rightarrow> remote_event \<Rightarrow> remote \<times> cell list list option" where
  "paint_step sp e = (rm_step (fst sp) e, if e = Mark_Clean then rm_lines (fst sp) else snd sp)"

definition rows_painted :: "remote \<Rightarrow> cell list list option \<Rightarrow> bool" where
  "rows_painted s painted = (case rm_lines s of None \<Rightarrow> True
     | Some ls \<Rightarrow> rm_full s \<or> (case painted of None \<Rightarrow> False
         | Some pl \<Rightarrow> length pl = length ls \<and> list_all (\<lambda>r. r \<in> set (rm_dirty_rows s) \<or> pl ! r = ls ! r) [0..<length ls]))"

definition painted_inv :: "remote \<Rightarrow> cell list list option \<Rightarrow> bool" where
  "painted_inv s painted = (mirrored s \<and> (rm_failed s \<or> rows_painted s painted \<and> (rm_frame s = None \<or> map_option fr_viewport (rm_frame s) \<noteq> Some None)))"

definition carries_viewport :: "remote_event \<Rightarrow> bool" where
  "carries_viewport e = (case e of Reply now gen rid (Frame_Reply f) \<Rightarrow> fr_viewport f \<noteq> None | _ \<Rightarrow> True)"

lemma rows_painted_same: "same_view s s' \<Longrightarrow> rows_painted s painted \<Longrightarrow> rows_painted s' painted"
  unfolding rows_painted_def same_view_def by (elim conjE, simp only:)

lemma painted_inv_same: "same_view s s' \<Longrightarrow> painted_inv s painted \<Longrightarrow> painted_inv s' painted"
  using mirrored_same [of s s'] rows_painted_same [of s s' painted]
  unfolding painted_inv_def by (auto simp: same_view_def)

lemma fold_set_add_all: "set (foldl (\<lambda>d r. set_add r d) d rs) = set d \<union> set rs"
  by (induction rs arbitrary: d) (auto simp: set_set_add)

lemma viewport_painted:
  assumes i: "painted_inv s painted" "\<not> rm_failed s" and f: "fr_viewport f = Some p" "pk_columns p = pr_cols f" "pk_rows p = pr_rows f"
    and a: "accept_viewport f p s = (None, s')"
  shows "rows_painted s' painted"
proof (cases "rm_full s \<or> structural_change f s")
  case True
  with a show ?thesis by (auto simp: accept_viewport_def Let_def rows_painted_def split: sum.splits option.splits)
next
  case False
  then obtain g old where g: "rm_frame s = Some g" "rm_lines s = Some old" "pr_cols g = pr_cols f" "pr_rows g = pr_rows f"
    by (auto simp: structural_change_def split: option.splits)
  with i obtain po where po: "fr_viewport g = Some po" by (auto simp: painted_inv_def)
  with i g have m: "pk_columns po = pr_cols g" "pk_rows po = pr_rows g" "unpack_rows po = Inr old"
    by (auto simp: painted_inv_def mirrored_def)
  from i False g obtain pl where pl: "painted = Some pl" "length pl = length old"
      "\<forall>r \<in> {0..<length old}. r \<in> set (rm_dirty_rows s) \<or> pl ! r = old ! r"
    by (auto simp: painted_inv_def rows_painted_def list_all_iff split: option.splits)
  from a obtain changed ls where c: "changed_packed_rows po p = Inr changed" "next_lines p changed (Some old) = Inr ls"
      "rm_lines s' = Some ls" "rm_dirty_rows s' = foldl (\<lambda>d r. set_add r d) (rm_dirty_rows s) (case changed of None \<Rightarrow> [] | Some rs \<Rightarrow> rs)"
    using False g po by (auto simp: accept_viewport_def frame_changes_def Let_def split: sum.splits option.splits)
  from c(1) m g f obtain rs where rs: "changed = Some rs" by (auto simp: changed_packed_rows_def Let_def split: if_splits)
  have n: "length ls = pk_rows p" "\<And>r. r < pk_rows p \<Longrightarrow> unpack_packet_row p r (packet_texts p) = Inr (ls ! r)"
    using unpack_rows_nth [OF next_lines_full [OF c(1) m(3) c(2)]] by auto
  have o: "length old = pk_rows p" "\<And>r. r < pk_rows p \<Longrightarrow> unpack_packet_row po r (packet_texts po) = Inr (old ! r)"
    using unpack_rows_nth [OF m(3)] m g f by auto
  have "pl ! r = ls ! r" if "r < length ls" "r \<notin> set (rm_dirty_rows s')" for r
  proof -
    have "r \<notin> set rs" "r \<notin> set (rm_dirty_rows s)" using that c(4) rs by (simp_all add: fold_set_add_all)
    with unchanged_row [OF c(1) [unfolded rs], of r] n o pl(3) that(1) show ?thesis by auto
  qed
  then have "\<forall>r \<in> {0..<length ls}. r \<in> set (rm_dirty_rows s') \<or> pl ! r = ls ! r" by (meson atLeastLessThan_iff)
  then show ?thesis using c(3) pl(1,2) n(1) o(1) by (simp add: rows_painted_def list_all_iff)
qed

lemma painted_step:
  assumes i: "painted_inv s painted" and c: "carries_viewport e"
  shows "painted_inv (rm_step s e) (if e = Mark_Clean then rm_lines s else painted)"
proof -
  have m: "mirrored (rm_step s e)" using i mirrored_step by (simp add: painted_inv_def)
  show ?thesis
  proof (cases rule: step_view [of s e])
    case 1
    show ?thesis
    proof (cases "e = Mark_Clean")
      case True
      then show ?thesis using m i by (auto simp: painted_inv_def rows_painted_def rm_mark_clean_def list_all_iff split: option.splits)
    qed (use painted_inv_same [OF 1 i] in simp)
  next
    case 2
    then show ?thesis using m by (simp add: painted_inv_def view_empty_def rows_painted_def)
  next
    case 3
    then show ?thesis using m by (simp add: painted_inv_def)
  next
    case (4 f s1 s' now gen rid)
    have e: "e \<noteq> Mark_Clean" "fr_viewport f \<noteq> None" using 4(1) c by (auto simp: carries_viewport_def)
    have i1: "painted_inv s1 painted" by (rule painted_inv_same [OF 4(2) i])
    show ?thesis
    proof (cases "rm_failed s")
      case True
      then have "rm_failed s'" using kept_frame [of s1 now f] 4 by (simp add: same_requests_def)
      then show ?thesis using m 4(5) by (simp add: painted_inv_def same_view_def)
    next
      case False
      from 4(4) have "rows_painted s' painted \<and> map_option fr_viewport (rm_frame s') \<noteq> Some None \<or> s' = s1"
      proof (cases rule: take_frame_cases)
        case (2 t t2 p)
        have "rows_painted t2 painted"
          by (rule viewport_painted [OF painted_inv_same [OF 2(1) i1] _ 2(3-6)]) (use False 4(3) 2(2) in simp)
        then have "rows_painted (t2\<lparr>rm_frame := Some f\<rparr>) painted" by (auto simp: rows_painted_def split: option.splits)
        from rows_painted_same [OF 2(7) this] 2(7) 2(3) show ?thesis by (simp add: same_view_def)
      qed (use e in auto)
      moreover have "rows_painted s1 painted \<and> (rm_frame s1 = None \<or> map_option fr_viewport (rm_frame s1) \<noteq> Some None)"
        using i1 False 4(3) by (simp add: painted_inv_def)
      ultimately have "rows_painted s' painted \<and> (rm_frame s' = None \<or> map_option fr_viewport (rm_frame s') \<noteq> Some None)" by auto
      with rows_painted_same [OF 4(5)] 4(5) m e show ?thesis by (auto simp: painted_inv_def same_view_def)
    qed
  next
    case 5
    then show ?thesis using m i by (auto simp: painted_inv_def rows_painted_def rm_mark_clean_def list_all_iff split: option.splits)
  qed
qed

text \<open>
  A row that changed since the renderer marked the lines clean is reported dirty, whatever frames
  arrived in between: for replies whose frames carry a viewport, as the worker's do, every row that
  is not dirty is the row on the canvas.
\<close>

theorem clean_rows_are_painted:
  assumes "list_all carries_viewport es"
  shows "let sp = foldl paint_step (rm_fresh config cols rows, None) es in
    rm_failed (fst sp) \<or> (case rm_lines (fst sp) of None \<Rightarrow> True
      | Some ls \<Rightarrow> list_all (\<lambda>r. rm_row_dirty (fst sp) r \<or> map_option (\<lambda>pl. (length pl, pl ! r)) (snd sp) = Some (length ls, ls ! r)) [0..<length ls])"
proof -
  have "painted_inv (rm_fresh config cols rows) None"
    by (simp add: painted_inv_def mirrored_def rm_fresh_def rows_painted_def)
  moreover have "painted_inv (fst sp) (snd sp) \<Longrightarrow> list_all carries_viewport es
      \<Longrightarrow> painted_inv (fst (foldl paint_step sp es)) (snd (foldl paint_step sp es))" for sp
    by (induction es arbitrary: sp) (simp_all add: paint_step_def painted_step)
  ultimately have "painted_inv (fst (foldl paint_step (rm_fresh config cols rows, None) es)) (snd (foldl paint_step (rm_fresh config cols rows, None) es))"
    using assms by (metis fst_conv snd_conv)
  then show ?thesis
    by (auto simp: Let_def painted_inv_def rows_painted_def rm_row_dirty_def list_all_iff split: option.splits)
qed

text \<open>Two frames of one cell each, the canvas being drawn in between.\<close>

definition demo_shown :: "nat \<Rightarrow> 8 word \<Rightarrow> frame" where
  "demo_shown n c = \<lparr>pr_revision = n, pr_epoch = 1, pr_serial = 0, pr_scrollback = 0, pr_cols = 1, pr_rows = 1, pr_alternate = False,
     pr_held = 0, pr_responses = [], fr_viewport = Some \<lparr>pk_bytes = c # replicate 15 0, pk_texts = [], pk_columns = 1, pk_rows = 1\<rparr>,
     fr_colors = [], fr_history = None\<rparr>"

definition demo_paint :: "remote_event list" where
  "demo_paint = [Restart 0 True False [], Reply 1 1 1 (Frame_Reply (demo_shown 1 65)), Mark_Clean, Call 2 False Write 3,
     Reply 3 1 2 (Frame_Reply (demo_shown 2 66))]"

theorem clean_rows_are_painted_witness:
  "let sp = foldl paint_step (rm_fresh [] 1 1, None) demo_paint in
    rm_failed (fst sp) \<or> (case rm_lines (fst sp) of None \<Rightarrow> True
      | Some ls \<Rightarrow> list_all (\<lambda>r. rm_row_dirty (fst sp) r \<or> map_option (\<lambda>pl. (length pl, pl ! r)) (snd sp) = Some (length ls, ls ! r)) [0..<length ls])"
proof -
  have "list_all carries_viewport demo_paint"
    by (simp add: demo_paint_def carries_viewport_def demo_shown_def)
  then show ?thesis by (rule clean_rows_are_painted)
qed

subsection \<open>Cached rows of the scrollback\<close>

lemma put_rows_wf: "mwf h \<Longrightarrow> mwf (put_rows start rows h)"
proof -
  have "mwf h \<Longrightarrow> mwf (foldl (\<lambda>h e. mput (fst e) (snd e) (mdel (fst e) h)) h es)" for es :: "(int \<times> cell list) list"
    by (induction es arbitrary: h) (simp_all add: om.wf_put om.wf_del)
  then show "mwf h \<Longrightarrow> mwf (put_rows start rows h)" by (simp add: put_rows_def)
qed

lemma put_rows_mem:
  "(k, l) \<in> set (put_rows start rows h) \<Longrightarrow> (k, l) \<in> set h \<or> (\<exists>i < length rows. k = start + int i \<and> l = rows ! i)"
proof -
  have "(k, l) \<in> set (foldl (\<lambda>h e. mput (fst e) (snd e) (mdel (fst e) h)) h es) \<Longrightarrow> (k, l) \<in> set h \<or> (k, l) \<in> set es"
    for es :: "(int \<times> cell list) list"
  proof (induction es arbitrary: h)
    case (Cons e es)
    have "(k, l) \<in> set (mput (fst e) (snd e) (mdel (fst e) h)) \<Longrightarrow> (k, l) = e \<or> (k, l) \<in> set h"
    proof -
      assume "(k, l) \<in> set (mput (fst e) (snd e) (mdel (fst e) h))"
      moreover have "mput (fst e) (snd e) (mdel (fst e) h) = mdel (fst e) h @ [(fst e, snd e)]"
        by (rule sum_list_mput_fresh) (simp add: om.has_del)
      ultimately show ?thesis by (auto simp: mem_mdel)
    qed
    with Cons.IH [of "mput (fst e) (snd e) (mdel (fst e) h)"] Cons.prems show ?case by auto
  qed simp
  then show "(k, l) \<in> set (put_rows start rows h) \<Longrightarrow> ?thesis" by (force simp: put_rows_def)
qed

lemma trim_rows_drop: "trim_rows limit h = drop (length h - limit) h"
  by (induction limit h rule: trim_rows.induct) (auto simp: Suc_diff_le)

lemma trim_rows_mem: "e \<in> set (trim_rows limit h) \<Longrightarrow> e \<in> set h"
  by (auto simp: trim_rows_drop dest: in_set_dropD)

text \<open>
  The worker numbers the rows of its scrollback for each generation and epoch; \<open>row_of\<close> is that
  numbering. A reply is honest when its ranges are rows of it.
\<close>

definition honest_range :: "(nat \<Rightarrow> nat \<Rightarrow> int \<Rightarrow> cell list) \<Rightarrow> nat \<Rightarrow> history_range \<Rightarrow> bool" where
  "honest_range row_of gen r = (case hr_packet r of None \<Rightarrow> True | Some p \<Rightarrow> (case unpack_rows p of Inl e \<Rightarrow> True
     | Inr rows \<Rightarrow> rows = map (\<lambda>i. row_of gen (hr_epoch r) (hr_start r + int i)) [0..<length rows]))"

definition honest_history :: "(nat \<Rightarrow> nat \<Rightarrow> int \<Rightarrow> cell list) \<Rightarrow> nat \<Rightarrow> history_range option \<Rightarrow> bool" where
  "honest_history row_of gen h = (case h of None \<Rightarrow> True | Some r \<Rightarrow> honest_range row_of gen r)"

definition honest :: "(nat \<Rightarrow> nat \<Rightarrow> int \<Rightarrow> cell list) \<Rightarrow> remote_event \<Rightarrow> bool" where
  "honest row_of e = (case e of
     Reply now gen rid (Frame_Reply f) \<Rightarrow> honest_history row_of gen (fr_history f)
   | Reply now gen rid (Range_Reply r) \<Rightarrow> honest_range row_of gen r
   | _ \<Rightarrow> True)"

definition cached :: "(nat \<Rightarrow> nat \<Rightarrow> int \<Rightarrow> cell list) \<Rightarrow> nat \<Rightarrow> progress option \<Rightarrow> (int, cell list) jsmap \<Rightarrow> bool" where
  "cached row_of gen q h = (case q of None \<Rightarrow> h = []
     | Some q \<Rightarrow> list_all (\<lambda>e. snd e = row_of gen (pr_epoch q) (fst e)) h)"

definition cache_ok :: "(nat \<Rightarrow> nat \<Rightarrow> int \<Rightarrow> cell list) \<Rightarrow> remote \<Rightarrow> bool" where
  "cache_ok row_of s = cached row_of (rm_generation s) (rm_progress s) (rm_history s)"

definition same_cache :: "remote \<Rightarrow> remote \<Rightarrow> bool" where
  "same_cache s s' = (rm_progress s' = rm_progress s \<and> rm_history s' = rm_history s \<and> rm_generation s' = rm_generation s)"

lemma same_cache_trans: "same_cache s s' \<Longrightarrow> same_cache s' s'' \<Longrightarrow> same_cache s s''" by (simp add: same_cache_def)

lemma cache_ok_same: "same_cache s s' \<Longrightarrow> cache_ok row_of s \<Longrightarrow> cache_ok row_of s'"
  by (simp add: same_cache_def cache_ok_def)

lemma same_cache_upd [simp]: "same_cache s s" "same_cache s (emit os s') = same_cache s s'"
  "same_cache s (s'\<lparr>rm_snapshot := a\<rparr>) = same_cache s s'" "same_cache s (s'\<lparr>rm_reads := b\<rparr>) = same_cache s s'"
  "same_cache s (s'\<lparr>rm_restoring := c\<rparr>) = same_cache s s'" "same_cache s (s'\<lparr>rm_prepared := d\<rparr>) = same_cache s s'"
  "same_cache s (rm_take rid p s') = same_cache s s'" "same_cache s (s'\<lparr>rm_frame := f\<rparr>) = same_cache s s'"
  "same_cache s (s'\<lparr>rm_dirty := g\<rparr>) = same_cache s s'"
  by (auto simp: same_cache_def emit_def rm_take_def)

lemma same_cache_settled [simp]: "same_cache s (request_settled rid op s') = same_cache s s'"
  by (auto simp: request_settled_def Let_def)

lemma same_cache_all_settled [simp]: "same_cache s (all_settled ps s') = same_cache s s'"
  by (induction ps arbitrary: s') (simp_all add: all_settled_def)

lemma same_cache_fail: "same_cache s (rm_fail e s)"
  by (simp add: rm_fail_def) (simp add: same_cache_def reject_all_def reject_pending_def emit_def)

lemma same_cache_request: "same_cache s (snd (rm_request now throws op bytes s))"
  by (auto simp: rm_request_def Let_def intro!: same_cache_trans [OF _ same_cache_fail]) (simp_all add: same_cache_def)

lemma same_cache_viewport: "same_cache s (snd (accept_viewport f p s))"
  by (auto simp: accept_viewport_def same_cache_def Let_def split: sum.splits option.splits)

lemma cache_ok_progress: "cache_ok row_of s \<Longrightarrow> cache_ok row_of (accept_progress now notify st s)"
  by (auto simp: accept_progress_def cache_ok_def cached_def emit_def Let_def split: option.splits)

lemma cache_ok_history:
  assumes "cache_ok row_of s" "honest_history row_of (rm_generation s) r"
  shows "cache_ok row_of (snd (accept_history r s))"
proof (cases r)
  case None
  with assms show ?thesis by (simp add: accept_history_def)
next
  case (Some h)
  have "list_all (\<lambda>e. snd e = row_of (rm_generation s) (pr_epoch q) (fst e)) (trim_rows n (filter P (put_rows (hr_start h) rows (rm_history s))))"
    if "hr_packet h = Some p" "unpack_rows p = Inr rows" "rm_progress s = Some q" "hr_epoch h = pr_epoch q" for p rows q n P
  proof -
    have "l = row_of (rm_generation s) (pr_epoch q) k" if m: "(k, l) \<in> set (put_rows (hr_start h) rows (rm_history s))" for k l
    proof -
      have "rows = map (\<lambda>i. row_of (rm_generation s) (pr_epoch q) (hr_start h + int i)) [0..<length rows]"
        using assms(2) that Some \<open>hr_packet h = Some p\<close> \<open>unpack_rows p = Inr rows\<close> \<open>hr_epoch h = pr_epoch q\<close>
        by (simp add: honest_history_def honest_range_def)
      then have "\<And>i. i < length rows \<Longrightarrow> rows ! i = row_of (rm_generation s) (pr_epoch q) (hr_start h + int i)"
        by (metis (no_types, lifting) add_0 diff_zero length_upt nth_map nth_upt)
      moreover have "\<forall>e \<in> set (rm_history s). snd e = row_of (rm_generation s) (pr_epoch q) (fst e)"
        using assms(1) \<open>rm_progress s = Some q\<close> by (simp add: cache_ok_def cached_def list_all_iff)
      ultimately show ?thesis using put_rows_mem [OF m] by fastforce
    qed
    then show ?thesis by (auto simp: list_all_iff dest: trim_rows_mem)
  qed
  then show ?thesis using assms(1) Some
    by (auto simp: accept_history_def cache_ok_def cached_def split: option.splits sum.splits)
qed

lemma cache_ok_show:
  assumes "cache_ok row_of s" "honest_history row_of (rm_generation s) (fr_history f)"
  shows "cache_ok row_of (snd (show_frame f s))"
proof -
  have "cache_ok row_of (snd (accept_history (fr_history f) (s\<lparr>rm_frame := Some f\<rparr>)))"
    by (rule cache_ok_history) (use assms in \<open>simp_all add: cache_ok_def\<close>)
  then show ?thesis
    by (auto simp: show_frame_def split: prod.splits option.splits intro: cache_ok_same [rotated])
qed

lemma generation_progress [simp]: "rm_generation (accept_progress now notify st s) = rm_generation s"
  by (simp add: accept_progress_def emit_def Let_def split: option.split)

lemma cache_ok_frame:
  assumes "cache_ok row_of s" "honest_history row_of (rm_generation s) (fr_history f)"
  shows "cache_ok row_of (snd (take_frame now f s))"
proof -
  let ?s = "accept_progress now False (progress.truncate f) s"
  have c: "cache_ok row_of ?s" by (rule cache_ok_progress [OF assms(1)])
  have v: "cache_ok row_of t \<and> rm_generation t = rm_generation s" if "accept_viewport f p ?s = (e, t)" for p e t
    using same_cache_viewport [of ?s f p] that cache_ok_same [OF _ c, of t] by (simp add: same_cache_def)
  have "cache_ok row_of (snd (show_frame f ?s))" by (rule cache_ok_show [OF c]) (use assms(2) in simp)
  moreover have "cache_ok row_of (snd (show_frame f t))" if "accept_viewport f p ?s = (e, t)" for p e t
    by (rule cache_ok_show) (use v [OF that] assms(2) in auto)
  ultimately show ?thesis
    using assms(1) v by (auto simp: take_frame_def Let_def split: option.split prod.split)
qed

lemma cache_ok_reply:
  assumes "cache_ok row_of s" "honest row_of (Reply now gen rid r)"
  shows "cache_ok row_of (rm_reply now gen rid r s)"
proof (cases "gen \<noteq> rm_generation s \<or> rm_disposed s \<or> mget (rm_pending s) rid = None")
  case True
  then show ?thesis using assms by (auto simp: rm_reply_def)
next
  case False
  then obtain p where p: "mget (rm_pending s) rid = Some p" "gen = rm_generation s" by auto
  let ?s = "rm_take rid p s"
  have t: "cache_ok row_of (emit os ?s)" "cache_ok row_of ?s" for os by (rule cache_ok_same [OF _ assms(1)], simp)+
  have g: "rm_generation (emit os ?s) = rm_generation s" "rm_generation ?s = rm_generation s" for os by (simp_all add: emit_def rm_take_def)
  have em: "cache_ok row_of s' \<Longrightarrow> cache_ok row_of (emit os s')" for s' os by (rule cache_ok_same [of s']) simp_all
  have fl: "cache_ok row_of s' \<Longrightarrow> cache_ok row_of (rm_fail e s')" for s' e by (rule cache_ok_same [OF same_cache_fail])
  have fr: "r = Frame_Reply f \<Longrightarrow> cache_ok row_of (snd (take_frame now f ?s))" for f
    by (rule cache_ok_frame [OF t(2)]) (use assms(2) p g in \<open>simp add: honest_def\<close>)
  have rd: "cache_ok row_of (read_answered rid r (emit [Resolved rid] ?s))"
  proof (cases r)
    case (Range_Reply h)
    then have "honest_range row_of (rm_generation (emit [Resolved rid] ?s)) h" using assms(2) p g by (simp add: honest_def)
    then show ?thesis using t cache_ok_history [OF t(1), where r = "Some h"] by (simp add: read_answered_def Range_Reply honest_history_def)
  qed (simp_all add: read_answered_def t)
  have "cache_ok row_of (case r of
            Error_Reply t fatal \<Rightarrow> (let s2 = emit [Rejected rid (Reply_Error t)] ?s in
              if fatal then rm_fail (Reply_Error t) s2 else s2)
          | Frame_Reply f \<Rightarrow> (case take_frame now f ?s of
              (None, s2) \<Rightarrow> emit [Resolved rid] s2
            | (Some e, s2) \<Rightarrow> rm_fail e (emit [Rejected rid e] s2))
          | Progress_Reply q \<Rightarrow> emit [Resolved rid] (accept_progress now True q ?s)
          | _ \<Rightarrow> read_answered rid r (emit [Resolved rid] ?s))"
    using t fl [OF t(1)] rd em [OF cache_ok_progress [OF t(2)]] em fl [OF em] fr
    by (cases r) (auto simp: Let_def split: prod.split option.split; metis snd_conv)+
  moreover have "cache_ok row_of s' \<Longrightarrow> cache_ok row_of (request_settled rid op s')" for s' op
    by (rule cache_ok_same [of s']) simp_all
  ultimately show ?thesis using False p(1) by (simp add: rm_reply_def Let_def)
qed

lemma cache_ok_empty: "rm_progress s = None \<Longrightarrow> rm_history s = [] \<Longrightarrow> cache_ok row_of s"
  by (simp add: cache_ok_def cached_def)

lemma cache_ok_restart: "cache_ok row_of s \<Longrightarrow> cache_ok row_of (snd (rm_restart now created throws config s))"
proof -
  assume a: "cache_ok row_of s"
  have q: "cache_ok row_of (snd (rm_request now throws Init 0 s'))" if "rm_progress s' = None" "rm_history s' = []" for s'
    by (rule cache_ok_same [OF same_cache_request cache_ok_empty [OF that]])
  have e: "cache_ok row_of (emit os s')" if "rm_progress s' = None" "rm_history s' = []" for os s'
    by (rule cache_ok_empty) (simp_all add: emit_def that)
  show ?thesis using a by (simp add: rm_restart_def Let_def q e)
qed

lemma cache_ok_free: "cache_ok row_of s \<Longrightarrow> cache_ok row_of (rm_free s)"
proof -
  assume a: "cache_ok row_of s"
  let ?s = "emit [Freed] ((reject_pending Cancelled (emit [Terminated (rm_generation s)] (s\<lparr>rm_disposed := True\<rparr>)))\<lparr>
       rm_history := [], rm_progress := None, rm_frame := None, rm_lines := None, rm_cells := None,
       rm_sync_timer := None, rm_dirty_rows := [], rm_responses := []\<rparr>)"
  have e: "cache_ok row_of ?s" by (rule cache_ok_empty) (simp_all add: emit_def)
  have "cache_ok row_of (all_settled (rm_pending s) ?s\<lparr>rm_reads := []\<rparr>)"
    by (rule cache_ok_same [OF _ e]) simp
  with a show ?thesis by (simp add: rm_free_def)
qed

lemma same_cache_get: "same_cache s (snd (rm_get_viewport now throws s))"
  using same_cache_request by (auto simp: rm_get_viewport_def Let_def split: prod.splits) (metis snd_conv)

lemma same_cache_others:
  "same_cache s (rm_timeout now hidden rid s)" "same_cache s (rm_sync_fires now visible throws s)"
  "same_cache s (rm_prepare_block now throws epoch first s)" "same_cache s (rm_restore now throws s)"
  "same_cache s (rm_mark_prepared s)" "same_cache s (rm_render_begin s)" "same_cache s (rm_render_end r s)"
  "same_cache s (rm_mark_clean s)" "same_cache s (snd (rm_read_response s))"
proof -
  have t: "same_cache s (s\<lparr>rm_sync_timer := None, rm_sync_deadline := 0\<rparr>)" by (simp add: same_cache_def)
  show "same_cache s (rm_timeout now hidden rid s)"
    by (auto simp: rm_timeout_def same_cache_fail split: option.split) (simp_all add: same_cache_def)
  show "same_cache s (rm_sync_fires now visible throws s)"
    using same_cache_trans [OF t same_cache_get] t by (auto simp: rm_sync_fires_def Let_def split: option.split)
  show "same_cache s (rm_prepare_block now throws epoch first s)"
    using same_cache_request [of s now throws Read 0] by (auto simp: rm_prepare_block_def split: prod.splits option.splits)
  have "same_cache s (s\<lparr>rm_restoring := True\<rparr>)" by simp
  from same_cache_trans [OF this same_cache_request] show "same_cache s (rm_restore now throws s)"
    by (auto simp: rm_restore_def split: prod.splits option.splits) (metis snd_conv)+
qed (auto simp: rm_mark_prepared_def rm_render_begin_def rm_render_end_def rm_mark_clean_def rm_read_response_def same_cache_def split: list.split)

lemma cache_ok_step: "cache_ok row_of s \<Longrightarrow> honest row_of e \<Longrightarrow> cache_ok row_of (rm_step s e)"
  using cache_ok_same [OF same_cache_others(1)] cache_ok_same [OF same_cache_others(2)] cache_ok_same [OF same_cache_others(3)]
    cache_ok_same [OF same_cache_others(4)] cache_ok_same [OF same_cache_others(5)] cache_ok_same [OF same_cache_others(6)]
    cache_ok_same [OF same_cache_others(7)] cache_ok_same [OF same_cache_others(8)] cache_ok_same [OF same_cache_others(9)]
    cache_ok_same [OF same_cache_request] cache_ok_same [OF same_cache_get] cache_ok_same [OF same_cache_fail]
    cache_ok_same [of s "s\<lparr>rm_prepared := None\<rparr>"]
  by (cases e) (simp_all add: cache_ok_reply cache_ok_free cache_ok_restart rm_worker_error_def rm_reset_def Let_def)

text \<open>
  The cache of the scrollback never shows a wrong row: while the ranges that a generation of the
  worker sends are rows of its own numbering, every cached row is the row of the worker's current
  generation and epoch under that number, across restarts, resizes, late answers and failures.
\<close>

theorem cached_rows_are_current:
  assumes "list_all (honest row_of) es"
  shows "let s = foldl rm_step (rm_fresh config cols rows) es in
    (case rm_progress s of None \<Rightarrow> rm_history s = []
     | Some q \<Rightarrow> list_all (\<lambda>e. snd e = row_of (rm_generation s) (pr_epoch q) (fst e)) (rm_history s))"
proof -
  have "cache_ok row_of s \<Longrightarrow> list_all (honest row_of) es \<Longrightarrow> cache_ok row_of (foldl rm_step s es)" for s
    by (induction es arbitrary: s) (simp_all add: cache_ok_step)
  moreover have "cache_ok row_of (rm_fresh config cols rows)" by (simp add: cache_ok_empty rm_fresh_def)
  ultimately show ?thesis using assms by (simp add: cache_ok_def cached_def Let_def)
qed

text \<open>One range of one row, asked for as a block of the scrollback.\<close>

definition demo_range :: "history_range" where
  "demo_range = \<lparr>hr_start = 7, hr_epoch = 1, hr_packet = Some \<lparr>pk_bytes = 65 # replicate 15 0, pk_texts = [], pk_columns = 1, pk_rows = 1\<rparr>\<rparr>"

definition demo_reads :: "remote_event list" where
  "demo_reads = [Restart 0 True False [], Reply 1 1 1 (Frame_Reply (demo_shown 1 65)), Prepare_Block 2 False 1 7, Reply 3 1 2 (Range_Reply demo_range)]"

theorem cached_rows_are_current_witness:
  "let s = foldl rm_step (rm_fresh [] 1 1) demo_reads; row_of = (\<lambda>gen epoch k. hd (projr (unpack_rows (the (hr_packet demo_range))))) in
    (case rm_progress s of None \<Rightarrow> rm_history s = []
     | Some q \<Rightarrow> list_all (\<lambda>e. snd e = row_of (rm_generation s) (pr_epoch q) (fst e)) (rm_history s))"
proof -
  let ?r = "\<lambda>gen epoch k. hd (projr (unpack_rows (the (hr_packet demo_range))))"
  have "length rows = 1" if "unpack_rows (the (hr_packet demo_range)) = Inr rows" for rows
    using unpack_rows_nth [OF that] by (simp add: demo_range_def)
  then have "honest_range ?r 1 demo_range"
    by (auto simp: honest_range_def demo_range_def length_Suc_conv split: sum.split)
  then have "list_all (honest ?r) demo_reads"
    by (simp add: demo_reads_def honest_def honest_history_def demo_shown_def)
  from cached_rows_are_current [OF this, of "[]" 1 1] show ?thesis by (simp only: Let_def)
qed

end
