(* ===== verification/Output_Queue.thy ===== *)
theory Output_Queue
  imports Output_Text Replay_Batch
begin

section \<open>The queue between the network and the terminal parser\<close>

text \<open>
  Model of \<open>terminal/output/output_controller.js\<close> with \<open>terminal/output/output_lifecycle.js\<close>, for one
  session (every table of the code is keyed by the session) and with the page's work scheduler, as
  \<open>global-runtime.js\<close> installs it. The state joins the fields of the session object the code uses and
  the session's entries of the controller's tables; the constants are the controller's defaults.
  An asynchronous drain is cut at its only wait, the call of the parser: \<open>oq_flight\<close> says what the
  drain that runs is waiting for, and the settling of the write is an event of its own. What the
  environment decides at a step (whether the shared budget has time left, the clock, whether sending
  throws) is a record. Calls of other controllers are logged in \<open>oq_outs\<close>. Metrics, traces and debug
  logs are left out, and so are the cursors a caller may pass to \<open>write\<close>, which none does.

  Five fields are history variables, which no definition reads but the properties: the units accepted
  into the queue and the units the parser confirmed since the queue was last discarded, each with the
  history cursor it was given (\<open>oq_taken\<close>, \<open>oq_parsed\<close>), whether a drain dropped the queue since (\<open>oq_gap\<close>),
  the received cursor at that discard (\<open>oq_from\<close>), and whether the cursors were set to zero since the last
  replay was announced (\<open>oq_lost\<close>, which makes a gap too).
\<close>

subsection \<open>State\<close>

type_synonym unit_at = "nat option \<times> (nat + 8 word)"

record oq_entry =
  oe_data :: output_data
  oe_kind :: string
  oe_len :: nat
  oe_replay :: bool
  oe_suppress :: bool
  oe_allow :: bool
  oe_gen :: nat
  oe_epoch :: nat
  oe_channel :: nat
  oe_history :: string
  oe_selector :: string
  oe_pane :: string
  oe_server :: bool
  oe_start :: "nat option"
  oe_end :: "nat option"
  oe_batch :: "nat option"

record turn_ack =
  ta_socket :: "nat option"
  ta_epoch :: nat
  ta_channel :: nat
  ta_cursor :: nat
  ta_sequence :: string

record drain =
  dr_force :: bool
  dr_budget :: nat
  dr_limit :: nat
  dr_batch_limit :: nat
  dr_remainder :: bool
  dr_gen :: nat
  dr_bulk :: "(nat \<times> nat) option"
  dr_bytes :: nat
  dr_consumed :: nat
  dr_batches :: nat
  dr_wrote :: bool
  dr_replayed :: bool

record parser_write =
  pw_entries :: "oq_entry list"
  pw_data :: output_data
  pw_gen :: nat
  pw_allow :: bool
  pw_writer :: bool

datatype flight = Writing drain parser_write | Rejected bool nat | Ending

datatype oq_out = TermWrite bool output_data | LiveOutput output_data | ContentAdvanced | RenderCancelled | MarkApplied nat
  | ViewportReset | ValidationScheduled | RenderRequested | CheckpointScheduled | SuppressionArmed | ResizeNoted
  | FinishReplay | HoldBegun | ProcessingError | AckSent nat string | AckFailed | DiscardNoted

record oq =
  oq_queue :: "oq_entry list"
  oq_size :: nat
  oq_gen :: nat
  oq_overload :: bool
  oq_failed :: bool
  oq_closed :: bool
  oq_disposed :: bool
  oq_gone :: bool
  oq_name :: string
  oq_pane :: string
  oq_active :: string
  oq_remote :: bool
  oq_epoch :: nat
  oq_channel :: nat
  oq_unified :: bool
  oq_history :: string
  oq_tracking :: bool
  oq_received :: nat
  oq_applied :: nat
  oq_committed :: bool
  oq_allow :: bool
  oq_depth :: nat
  oq_reset_next :: bool
  oq_completing :: bool
  oq_block :: bool
  oq_resizing :: bool
  oq_settling :: bool
  oq_socket :: "nat option"
  oq_turn_cursor :: jsval
  oq_turn_sequence :: jsval
  oq_windowed :: bool
  oq_pending :: "turn_ack option"
  oq_bounds :: "turn_ack list"
  oq_batches :: batches
  oq_batch_no :: nat
  oq_flight :: "flight option"
  oq_due :: bool
  oq_parsed_bytes :: nat
  oq_applied_entries :: nat
  oq_outs :: "oq_out list"
  oq_taken :: "unit_at list"
  oq_parsed :: "unit_at list"
  oq_gap :: bool
  oq_from :: nat
  oq_restoring :: "(nat \<times> nat) option"
  oq_lost :: bool

record oq_env =
  en_now :: rat
  en_turn :: bool
  en_budget :: bool
  en_late :: "nat \<Rightarrow> bool"
  en_throws :: bool
  en_render :: bool
  en_hidden :: bool
  en_replay_writer :: bool

record flush_options =
  fo_force :: bool
  fo_bytes :: nat
  fo_entries :: nat
  fo_remainder :: bool

definition flush_defaults :: flush_options where
  "flush_defaults = \<lparr>fo_force = False, fo_bytes = 0, fo_entries = 0, fo_remainder = True\<rparr>"

definition flush_budget :: nat where "flush_budget = 131072"
definition flush_max_entries :: nat where "flush_max_entries = 8"
definition flush_max_batches :: nat where "flush_max_batches = 8"
definition replay_write_batch :: nat where "replay_write_batch = 524288"
definition write_slice :: nat where "write_slice = 65536"
definition max_queued_entries :: nat where "max_queued_entries = 8192"
definition max_queued_bytes :: nat where "max_queued_bytes = 4194304"

text \<open>\<open>installSession\<close> on a session that has not been used.\<close>

definition oq_start :: "string \<Rightarrow> string \<Rightarrow> oq" where
  "oq_start selector pane = \<lparr>oq_queue = [], oq_size = 0, oq_gen = 0, oq_overload = False, oq_failed = False, oq_closed = False,
     oq_disposed = False, oq_gone = False, oq_name = selector, oq_pane = pane, oq_active = selector, oq_remote = False,
     oq_epoch = 0, oq_channel = 0, oq_unified = False, oq_history = [], oq_tracking = False, oq_received = 0, oq_applied = 0,
     oq_committed = False, oq_allow = False, oq_depth = 0, oq_reset_next = False, oq_completing = False, oq_block = False,
     oq_resizing = False, oq_settling = False, oq_socket = None, oq_turn_cursor = Null, oq_turn_sequence = Null,
     oq_windowed = False, oq_pending = None, oq_bounds = [], oq_batches = \<lparr>bb_batch = None, bb_events = []\<rparr>, oq_batch_no = 0,
     oq_flight = None, oq_due = False, oq_parsed_bytes = 0, oq_applied_entries = 0, oq_outs = [], oq_taken = [],
     oq_parsed = [], oq_gap = False, oq_from = 0, oq_restoring = None, oq_lost = False\<rparr>"

definition tell :: "oq_out \<Rightarrow> oq \<Rightarrow> oq" where
  "tell x s = s\<lparr>oq_outs := oq_outs s @ [x]\<rparr>"

definition tell_if :: "bool \<Rightarrow> oq_out \<Rightarrow> oq \<Rightarrow> oq" where
  "tell_if b x s = (if b then tell x s else s)"

subsection \<open>The announced replay burst\<close>

text \<open>\<open>replayBatch.get(session)\<close>: the burst the session is still in, and the table without a stale one.\<close>

definition oq_view :: "oq \<Rightarrow> batch_session" where
  "oq_view s = \<lparr>bs_remote = oq_remote s, bs_generation = oq_gen s, bs_epoch = oq_epoch s, bs_applied = oq_applied s\<rparr>"

definition live_batch :: "oq \<Rightarrow> batch option" where
  "live_batch s = fst (batch_get (oq_view s) (oq_batches s))"

definition touch_batch :: "oq \<Rightarrow> oq" where
  "touch_batch s = s\<lparr>oq_batches := snd (batch_get (oq_view s) (oq_batches s))\<rparr>"

definition batch_waiting :: "oq \<Rightarrow> bool" where
  "batch_waiting s = (case live_batch s of None \<Rightarrow> False | Some b \<Rightarrow> bt_waiting b)"

subsection \<open>Scheduling and overload\<close>

definition lifecycle_clear :: "oq \<Rightarrow> oq" where
  "lifecycle_clear s = s\<lparr>oq_due := False\<rparr>"

definition lifecycle_schedule :: "oq \<Rightarrow> oq" where
  "lifecycle_schedule s = (if oq_gone s \<or> oq_closed s then s else s\<lparr>oq_due := True\<rparr>)"

definition schedule_flush :: "oq \<Rightarrow> oq" where
  "schedule_flush s = (if oq_gone s \<or> oq_disposed s \<or> oq_closed s \<or> oq_failed s then s else lifecycle_schedule s)"

definition handle_overload :: "oq \<Rightarrow> oq" where
  "handle_overload s = (if oq_closed s \<or> oq_overload s then s
     else tell ProcessingError (lifecycle_clear (s\<lparr>oq_overload := True, oq_failed := True\<rparr>)))"

subsection \<open>Accepting output\<close>

lemma byte_chunk_end_gt: "\<lbrakk>offset < length b; 0 < limit\<rbrakk> \<Longrightarrow> offset < byte_chunk_end b offset limit"
  by (auto simp: byte_chunk_end_def Let_def)

text \<open>The pieces of a payload: cut at a character once it is longer than a slice (a limit of zero, which
  would not end, does not occur).\<close>

function byte_pieces :: "8 word list \<Rightarrow> nat \<Rightarrow> nat \<Rightarrow> 8 word list list" where
  "byte_pieces b limit offset = (if length b \<le> offset \<or> limit = 0 then []
     else let e = byte_chunk_end b offset limit in drop offset (take e b) # byte_pieces b limit e)"
  by pat_completeness auto
termination
  by (relation "measure (\<lambda>(b, limit, offset). length b - offset)") (simp_all add: diff_less_mono2 byte_chunk_end_gt)

declare byte_pieces.simps [simp del]

definition output_pieces :: "nat \<Rightarrow> output_data \<Rightarrow> output_data list" where
  "output_pieces limit d = (case d of
       Bytes b \<Rightarrow> if limit < length b then map Bytes (byte_pieces b limit 0) else [d]
     | Text t \<Rightarrow> if limit < output_byte_length d then map Text (split_output_text limit t) else [d]
     | OtherData \<Rightarrow> [d])"

text \<open>The units of a payload, and those of an entry with the cursors the entry covers.\<close>

definition data_units :: "output_data \<Rightarrow> (nat + 8 word) list" where
  "data_units d = (case d of Text t \<Rightarrow> map Inl t | Bytes b \<Rightarrow> map Inr b | OtherData \<Rightarrow> [])"

definition entry_cursors :: "oq_entry \<Rightarrow> nat option list" where
  "entry_cursors e = (case oe_start e of None \<Rightarrow> replicate (length (data_units (oe_data e))) None
     | Some x \<Rightarrow> map Some [x ..< x + oe_len e])"

definition entry_units :: "oq_entry \<Rightarrow> unit_at list" where
  "entry_units e = zip (entry_cursors e) (data_units (oe_data e))"

definition queue_units :: "oq_entry list \<Rightarrow> unit_at list" where
  "queue_units es = concat (map entry_units es)"

text \<open>\<open>enqueueEntry\<close>. The template holds the fields all pieces of one payload share, the burst is the one
  the session is in, and the cursor is where the next piece starts when history is tracked.\<close>

definition in_burst :: "batch option \<Rightarrow> bool \<Rightarrow> nat option \<Rightarrow> nat \<Rightarrow> bool" where
  "in_burst burst server start n = (case (burst, start) of
     (Some b, Some x) \<Rightarrow> server \<and> bt_start b \<le> x \<and> x + n \<le> bt_end b | _ \<Rightarrow> False)"

definition new_oq_entry :: "oq_entry \<Rightarrow> batch option \<Rightarrow> nat option \<Rightarrow> output_data \<Rightarrow> oq \<Rightarrow> oq_entry" where
  "new_oq_entry tpl burst start d s = (let n = output_byte_length d in
     tpl\<lparr>oe_data := d, oe_len := n, oe_gen := oq_gen s, oe_server := oe_server tpl \<and> start \<noteq> None,
       oe_start := start, oe_end := map_option (\<lambda>x. x + n) start,
       oe_batch := (if in_burst burst (oe_server tpl) start n then Some (oq_batch_no s) else None)\<rparr>)"

definition push_entry :: "oq_entry \<Rightarrow> oq \<Rightarrow> oq" where
  "push_entry e s = s\<lparr>oq_queue := oq_queue s @ [e], oq_size := oq_size s + oe_len e, oq_taken := oq_taken s @ entry_units e,
     oq_received := (case oe_end e of None \<Rightarrow> oq_received s | Some y \<Rightarrow> y)\<rparr>"

fun enqueue_pieces :: "oq_entry \<Rightarrow> batch option \<Rightarrow> nat option \<Rightarrow> output_data list \<Rightarrow> oq \<Rightarrow> bool \<times> oq" where
  "enqueue_pieces tpl burst start [] s = (True, s)"
| "enqueue_pieces tpl burst start (d # ds) s = (let n = output_byte_length d in
     if n = 0 then enqueue_pieces tpl burst start ds s
     else if max_queued_bytes < oq_size s + n \<or> max_queued_entries \<le> length (oq_queue s) then (False, handle_overload s)
     else enqueue_pieces tpl burst (map_option (\<lambda>x. x + n) start) ds (push_entry (new_oq_entry tpl burst start d s) s))"

definition write_template :: "bool \<Rightarrow> bool \<Rightarrow> output_data \<Rightarrow> oq \<Rightarrow> oq_entry" where
  "write_template local_output deferred d s = (let replay = \<not> local_output \<and> \<not> oq_committed s in
     \<lparr>oe_data = d, oe_kind = output_kind d, oe_len = 0, oe_replay = replay,
      oe_suppress = (deferred \<or> oq_resizing s) \<and> \<not> replay, oe_allow = replay \<and> oq_allow s,
      oe_gen = oq_gen s, oe_epoch = oq_epoch s, oe_channel = oq_channel s, oe_history = oq_history s,
      oe_selector = oq_name s, oe_pane = oq_pane s, oe_server = \<not> local_output,
      oe_start = None, oe_end = None, oe_batch = None\<rparr>)"

definition write_refused :: "oq \<Rightarrow> bool" where
  "write_refused s = (oq_gone s \<or> oq_closed s \<or> oq_failed s \<or> oq_disposed s \<or> oq_name s \<noteq> oq_active s)"

definition piece_limit :: "bool \<Rightarrow> nat" where
  "piece_limit replay = min write_slice (if replay then replay_write_batch else flush_budget)"

definition write_start :: "output_data \<Rightarrow> oq \<Rightarrow> nat option" where
  "write_start d s = (if output_kind d = ''bytes'' \<and> oq_tracking s then Some (oq_received s) else None)"

definition after_write :: "bool \<times> oq \<Rightarrow> bool \<times> oq" where
  "after_write r = (case r of (ok, s) \<Rightarrow>
     if \<not> ok then (False, s)
     else if max_queued_bytes \<le> oq_size s then (True, handle_overload s)
     else (True, if batch_waiting s then touch_batch s else schedule_flush (touch_batch s)))"

text \<open>\<open>write\<close>; a local write is that of \<open>writeImmediate\<close>.\<close>

definition oq_write :: "bool \<Rightarrow> bool \<Rightarrow> output_data \<Rightarrow> oq \<Rightarrow> bool \<times> oq" where
  "oq_write local_output deferred d s = (
     if write_refused s \<or> output_kind d = [] then (False, s)
     else if max_queued_bytes \<le> oq_size s then (False, handle_overload s)
     else let tpl = write_template local_output deferred d s;
              s1 = touch_batch (tell_if (oq_settling s) ResizeNoted s)
       in after_write (enqueue_pieces tpl (live_batch s) (write_start d s) (output_pieces (piece_limit (oe_replay tpl)) d) s1))"

subsection \<open>Acknowledging a queue turn\<close>

definition ack_current :: "oq \<Rightarrow> turn_ack \<Rightarrow> bool" where
  "ack_current s p = (\<not> oq_closed s \<and> oq_socket s = ta_socket p \<and> oq_unified s \<and> oq_epoch s = ta_epoch p \<and> oq_channel s = ta_channel p)"

definition reached_bounds :: "oq \<Rightarrow> turn_ack list" where
  "reached_bounds s = takeWhile (\<lambda>p. ta_cursor p \<le> oq_applied s) (oq_bounds s)"

definition due_ack :: "oq \<Rightarrow> turn_ack option" where
  "due_ack s = (if oq_windowed s then (if reached_bounds s = [] then None else Some (last (reached_bounds s))) else oq_pending s)"

definition last_option :: "'a list \<Rightarrow> 'a option" where
  "last_option xs = (if xs = [] then None else Some (last xs))"

definition ack_sent :: "turn_ack \<Rightarrow> oq \<Rightarrow> oq" where
  "ack_sent p s = tell (AckSent (ta_cursor p) (ta_sequence p))
     (if oq_windowed s then let rest = drop (length (reached_bounds s)) (oq_bounds s) in s\<lparr>oq_bounds := rest, oq_pending := last_option rest\<rparr>
      else s\<lparr>oq_pending := None\<rparr>)"

text \<open>\<open>trySendPendingQueueTurnAck\<close> with the default \<open>sendQueueTurnAck\<close>, whose checks are those of the
  caller; a socket may throw when it sends.\<close>

definition try_send_ack :: "oq_env \<Rightarrow> oq \<Rightarrow> oq" where
  "try_send_ack en s = (case due_ack s of None \<Rightarrow> s
     | Some p \<Rightarrow> if \<not> ack_current s p \<or> \<not> oq_windowed s \<and> (0 < oq_size s \<or> oq_applied s \<noteq> ta_cursor p) then s
         else if ta_socket p = None then s
         else if en_throws en then tell AckFailed (s\<lparr>oq_pending := None, oq_bounds := []\<rparr>)
         else ack_sent p s)"

subsection \<open>Draining\<close>

text \<open>The end of a drain's loop, its report aside.\<close>

definition drain_end :: "oq_env \<Rightarrow> drain \<Rightarrow> oq \<Rightarrow> oq" where
  "drain_end en d s0 = (if oq_closed s0 \<or> oq_gen s0 \<noteq> dr_gen d then s0\<lparr>oq_flight := Some Ending\<rparr>
     else let s1 = (if dr_wrote d then tell (if oq_committed s0 \<and> en_render en then RenderRequested else ValidationScheduled)
                (tell ViewportReset s0) else s0);
              s2 = try_send_ack en (tell_if (dr_wrote d \<and> dr_replayed d) CheckpointScheduled s1);
              s3 = (if 0 < oq_size s2 \<and> dr_remainder d \<and> \<not> oq_block s2 then lifecycle_schedule s2 else tell FinishReplay s2)
       in s3\<lparr>oq_flight := Some Ending\<rparr>)"

text \<open>The entries of the next write: the first, and then those like it as long as every bound allows one more.\<close>

definition like_first :: "oq_entry \<Rightarrow> oq_entry \<Rightarrow> bool" where
  "like_first b e = (oe_kind b = oe_kind e \<and> oe_batch b = oe_batch e \<and> oe_replay b = oe_replay e \<and> oe_suppress b = oe_suppress e
     \<and> oe_allow b = oe_allow e \<and> oe_server b = oe_server e)"

definition bulk_write :: "drain \<Rightarrow> oq_entry \<Rightarrow> bool" where
  "bulk_write d b = (case dr_bulk d of None \<Rightarrow> False | Some (no, _) \<Rightarrow> oe_batch b = Some no)"

definition slice_limit :: "drain \<Rightarrow> oq_entry \<Rightarrow> nat" where
  "slice_limit d b = (if bulk_write d b then (case dr_bulk d of Some (_, n) \<Rightarrow> n | None \<Rightarrow> 0)
     else min write_slice (if oe_replay b then replay_write_batch else flush_budget))"

definition sum_len :: "oq_entry list \<Rightarrow> nat" where
  "sum_len es = sum_list (map oe_len es)"

definition stop_before :: "oq_env \<Rightarrow> drain \<Rightarrow> oq_entry list \<Rightarrow> oq_entry \<Rightarrow> bool" where
  "stop_before en d taken e = (\<not> like_first (hd taken) e \<or> oe_end (last taken) \<noteq> None \<and> oe_start e \<noteq> oe_end (last taken)
     \<or> slice_limit d (hd taken) < sum_len taken + oe_len e
     \<or> 0 < dr_limit d \<and> dr_limit d \<le> dr_consumed d + length taken
     \<or> dr_budget d < dr_bytes d + sum_len taken + oe_len e
     \<or> \<not> bulk_write d (hd taken) \<and> en_late en (dr_consumed d + length taken))"

fun grab :: "oq_env \<Rightarrow> drain \<Rightarrow> oq_entry list \<Rightarrow> oq_entry list \<Rightarrow> oq_entry list" where
  "grab en d taken [] = taken"
| "grab en d taken (e # es) = (if taken \<noteq> [] \<and> stop_before en d taken e then taken else grab en d (taken @ [e]) es)"

definition drain_full :: "oq_env \<Rightarrow> drain \<Rightarrow> oq_entry \<Rightarrow> bool" where
  "drain_full en d e = (0 < dr_consumed d \<and> (0 < dr_limit d \<and> dr_limit d \<le> dr_consumed d
     \<or> 0 < dr_batch_limit d \<and> dr_batch_limit d \<le> dr_batches d \<or> dr_budget d < dr_bytes d + oe_len e \<or> en_late en (dr_consumed d)))"

definition data_empty :: "output_data \<Rightarrow> bool" where
  "data_empty d = (data_units d = [])"

text \<open>\<open>writeBatch\<close> up to the call of the parser. A coalescing that throws rejects the drain.\<close>

definition begin_write :: "oq_env \<Rightarrow> drain \<Rightarrow> oq_entry list \<Rightarrow> oq \<Rightarrow> oq" where
  "begin_write en d es s = (let b = hd es; d1 = d\<lparr>dr_bytes := dr_bytes d + sum_len es, dr_consumed := dr_consumed d + length es,
        dr_replayed := dr_replayed d \<or> list_ex oe_replay es\<rparr>
     in case coalesce_output (map oe_data es) (oe_kind b) (sum_len es) of
        None \<Rightarrow> s\<lparr>oq_flight := Some (Rejected False (dr_gen d))\<rparr>
      | Some data \<Rightarrow> let d2 = d1\<lparr>dr_batches := Suc (dr_batches d1)\<rparr> in
          if data_empty data then drain_end en d2 s
          else let s1 = (if oe_replay b then (tell SuppressionArmed (s\<lparr>oq_allow := oe_allow b\<rparr>))\<lparr>oq_depth := Suc (oq_depth s)\<rparr> else s);
              replayed = en_replay_writer en \<and> (oe_replay b \<or> oe_suppress b)
            in (tell (TermWrite replayed data) s1)\<lparr>oq_flight := Some (Writing d2
                 \<lparr>pw_entries = es, pw_data = data, pw_gen = oq_gen s, pw_allow = oq_allow s, pw_writer = replayed\<rparr>)\<rparr>)"

text \<open>One round of the drain's loop, up to its wait or its end.\<close>

definition drain_loop :: "oq_env \<Rightarrow> drain \<Rightarrow> oq \<Rightarrow> oq" where
  "drain_loop en d s = (case oq_queue s of [] \<Rightarrow> drain_end en d s
     | e # es \<Rightarrow> if \<not> dr_force d \<and> oq_block s \<or> drain_full en d e then drain_end en d s
         else begin_write en d (grab en d [] (oq_queue s)) s)"

subsection \<open>The parser answers\<close>

datatype parser_result = Parsed | Cancelled | Broke

text \<open>The \<open>finally\<close> of \<open>writeBatch\<close>.\<close>

definition end_replay_depth :: "parser_write \<Rightarrow> oq \<Rightarrow> oq" where
  "end_replay_depth w s = (if oe_replay (hd (pw_entries w)) \<and> oq_gen s = pw_gen w
     then s\<lparr>oq_depth := oq_depth s - 1, oq_allow := pw_allow w\<rparr> else s)"

definition parsed_hooks :: "oq_env \<Rightarrow> parser_write \<Rightarrow> oq \<Rightarrow> oq" where
  "parsed_hooks en w s = (let b = hd (pw_entries w); quiet = oe_replay b \<or> oe_suppress b in
     tell_if (quiet \<and> \<not> pw_writer w \<or> \<not> quiet \<and> en_hidden en) RenderCancelled
       (tell ContentAdvanced (tell_if (\<not> pw_writer w \<and> en_render en) RenderRequested
         (tell_if (\<not> oe_replay b) (LiveOutput (pw_data w)) s))))"

text \<open>The written entries leave the queue; \<open>appliedHistoryCursor\<close> follows the last of them.\<close>

definition take_applied :: "oq_env \<Rightarrow> parser_write \<Rightarrow> oq \<Rightarrow> oq" where
  "take_applied en w s = (let es = pw_entries w;
       s1 = s\<lparr>oq_queue := drop (length es) (oq_queue s), oq_size := oq_size s - sum_len es,
         oq_parsed_bytes := oq_parsed_bytes s + sum_len es, oq_applied_entries := oq_applied_entries s + length es,
         oq_parsed := oq_parsed s @ zip (concat (map entry_cursors es)) (data_units (pw_data w))\<rparr>;
       s2 = (case oe_end (last es) of None \<Rightarrow> s1
         | Some y \<Rightarrow> let s3 = s1\<lparr>oq_applied := y\<rparr> in s3\<lparr>oq_batches := batch_applied (en_now en) (oq_view s3) (oq_batches s3)\<rparr>)
     in tell (MarkApplied (oq_applied s2)) s2)"

definition write_settles :: "oq_env \<Rightarrow> parser_result \<Rightarrow> oq \<Rightarrow> oq" where
  "write_settles en r s = (case oq_flight s of
     Some (Writing d w) \<Rightarrow>
       if r = Parsed then
         (if oq_closed s \<or> oq_gen s \<noteq> pw_gen w then drain_end en d (end_replay_depth w s)
          else drain_loop en (d\<lparr>dr_wrote := True\<rparr>)
                 (try_send_ack en (take_applied en w (end_replay_depth w (parsed_hooks en w s)))))
       else (end_replay_depth w s)\<lparr>oq_flight := Some (Rejected (r = Cancelled) (dr_gen d))\<rparr>
   | _ \<Rightarrow> s)"

text \<open>The \<open>catch\<close> and the \<open>finally\<close> of \<open>flush\<close>.\<close>

definition flush_caught :: "bool \<Rightarrow> nat \<Rightarrow> oq \<Rightarrow> oq" where
  "flush_caught cancelled g s = (if oq_closed s \<or> oq_gen s \<noteq> g \<or> cancelled then s
     else tell ProcessingError (tell HoldBegun (lifecycle_clear (s\<lparr>oq_failed := True\<rparr>))))"

definition flush_finally :: "oq \<Rightarrow> oq" where
  "flush_finally s0 = (let s = s0\<lparr>oq_flight := None\<rparr> in
     if \<not> oq_gone s \<and> \<not> oq_closed s \<and> \<not> oq_disposed s \<and> \<not> oq_failed s \<and> 0 < oq_size s
     then (if batch_waiting s \<or> oq_block s then touch_batch s else schedule_flush (touch_batch s)) else s)"

definition flush_settles :: "oq \<Rightarrow> oq" where
  "flush_settles s = (case oq_flight s of
     Some Ending \<Rightarrow> flush_finally s
   | Some (Rejected cancelled g) \<Rightarrow> flush_finally (flush_caught cancelled g s)
   | _ \<Rightarrow> s)"

subsection \<open>Flushing\<close>

definition entry_current :: "oq \<Rightarrow> oq_entry \<Rightarrow> bool" where
  "entry_current s e = (oe_gen e = oq_gen s \<and> oe_epoch e = oq_epoch s \<and> oe_selector e = oq_name s \<and> oe_pane e = oq_pane s
     \<and> oe_channel e = oq_channel s \<and> oe_history e = oq_history s)"

definition drop_queue :: "oq \<Rightarrow> oq" where
  "drop_queue s = s\<lparr>oq_queue := [], oq_size := 0, oq_completing := False, oq_gap := oq_gap s \<or> oq_queue s \<noteq> []\<rparr>"

definition new_drain :: "flush_options \<Rightarrow> oq \<Rightarrow> drain" where
  "new_drain fo s = (let b = hd (oq_queue s);
       bulk = (case live_batch s of None \<Rightarrow> None
         | Some t \<Rightarrow> if bt_aggregate t \<and> \<not> bt_waiting t \<and> oe_batch b = Some (oq_batch_no s) then Some (oq_batch_no s, bt_bytes t) else None)
     in \<lparr>dr_force = fo_force fo,
         dr_budget = (if 0 < fo_bytes fo then fo_bytes fo else if \<not> oe_replay b then flush_budget
           else case bulk of Some (_, n) \<Rightarrow> n | None \<Rightarrow> replay_write_batch),
         dr_limit = fo_entries fo, dr_batch_limit = (if oe_replay b then 0 else flush_max_batches), dr_remainder = fo_remainder fo,
         dr_gen = oq_gen s, dr_bulk = bulk, dr_bytes = 0, dr_consumed = 0, dr_batches = 0, dr_wrote = False, dr_replayed = False\<rparr>)"

text \<open>\<open>drain\<close> up to its first wait.\<close>

definition drain_start :: "oq_env \<Rightarrow> flush_options \<Rightarrow> oq \<Rightarrow> oq" where
  "drain_start en fo s = (
     if oq_queue s = [] then (try_send_ack en (tell FinishReplay s))\<lparr>oq_flight := Some Ending\<rparr>
     else if list_ex (\<lambda>e. \<not> entry_current s e) (oq_queue s) then
       (tell FinishReplay (tell HoldBegun ((drop_queue s)\<lparr>oq_reset_next := True\<rparr>)))\<lparr>oq_flight := Some Ending\<rparr>
     else if \<not> fo_force fo \<and> (oq_closed s \<or> oq_name s \<noteq> oq_active s) then (drop_queue s)\<lparr>oq_flight := Some Ending\<rparr>
     else if \<not> en_budget en then (if fo_remainder fo then schedule_flush s else s)\<lparr>oq_flight := Some Ending\<rparr>
     else drain_loop en (new_drain fo s) s)"

definition flush_enter :: "flush_options \<Rightarrow> oq \<Rightarrow> oq" where
  "flush_enter fo s = touch_batch (if fo_force fo then s\<lparr>oq_batches := batch_interrupt (oq_view s) (oq_batches s)\<rparr> else s)"

definition oq_flush :: "oq_env \<Rightarrow> flush_options \<Rightarrow> oq \<Rightarrow> oq" where
  "oq_flush en fo s0 = (if oq_gone s0 \<or> oq_closed s0 \<or> oq_failed s0 then s0
     else let s = lifecycle_clear s0 in
       if oq_flight s \<noteq> None then s
       else let s1 = flush_enter fo s in
         if batch_waiting s1 \<or> \<not> fo_force fo \<and> oq_block s1 then s1
         else if \<not> en_turn en then (if fo_remainder fo then schedule_flush s1 else s1)
         else drain_start en fo s1)"

definition write_immediate :: "oq_env \<Rightarrow> output_data \<Rightarrow> oq \<Rightarrow> bool \<times> oq" where
  "write_immediate en d s = (case oq_write True False d s of (ok, s1) \<Rightarrow> if ok then (True, oq_flush en flush_defaults s1) else (False, s1))"

subsection \<open>Discarding and queue turns\<close>

definition oq_discard :: "oq \<Rightarrow> oq" where
  "oq_discard s = tell DiscardNoted ((lifecycle_clear s)\<lparr>oq_failed := False, oq_parsed_bytes := 0, oq_applied_entries := 0,
     oq_batches := batch_discard (oq_batches s), oq_overload := False, oq_depth := 0, oq_gen := Suc (oq_gen s), oq_queue := [],
     oq_size := 0, oq_pending := None, oq_bounds := [], oq_taken := [], oq_parsed := [], oq_gap := oq_lost s, oq_from := oq_received s\<rparr>)"

definition reset_queue_turn :: "string \<Rightarrow> oq \<Rightarrow> oq" where
  "reset_queue_turn flow s = s\<lparr>oq_turn_cursor := Null, oq_turn_sequence := Null, oq_pending := None, oq_bounds := [],
     oq_windowed := (flow = ''window-ack-v1'')\<rparr>"

definition note_turn_frame :: "jsval \<Rightarrow> jsval \<Rightarrow> oq \<Rightarrow> bool \<times> oq" where
  "note_turn_frame end_cursor sequence s = (if end_cursor = Undef \<or> sequence = Undef then (False, s)
     else (True, s\<lparr>oq_turn_cursor := end_cursor, oq_turn_sequence := sequence\<rparr>))"

datatype turn_result = TurnIgnored | TurnInvalid string | TurnAccepted nat string

definition trimmed_or_empty :: "jsval \<Rightarrow> string" where
  "trimmed_or_empty v = js_trim (string_or_empty v)"

definition trimmed_nullish :: "jsval \<Rightarrow> string" where
  "trimmed_nullish v = js_trim (js_string (js_nullish v (Str [])))"

definition turn_flush_options :: "oq \<Rightarrow> flush_options" where
  "turn_flush_options s = (if (case live_batch s of None \<Rightarrow> False | Some b \<Rightarrow> bt_aggregate b) then flush_defaults
     else \<lparr>fo_force = False, fo_bytes = flush_budget, fo_entries = flush_max_entries, fo_remainder = True\<rparr>)"

definition turn_ack_pending :: "oq_env \<Rightarrow> turn_ack \<Rightarrow> oq \<Rightarrow> turn_result \<times> oq" where
  "turn_ack_pending en p s = (
     if oq_windowed s \<and> 512 \<le> length (oq_bounds s) then
       (TurnInvalid ''too many unconsumed output boundaries'', s\<lparr>oq_pending := Some p\<rparr>)
     else let s1 = s\<lparr>oq_pending := Some p, oq_bounds := (if oq_windowed s then oq_bounds s @ [p] else oq_bounds s)\<rparr>
       in (TurnAccepted (ta_cursor p) (ta_sequence p), try_send_ack en (oq_flush en (turn_flush_options s1) (touch_batch s1))))"

definition complete_queue_turn :: "oq_env \<Rightarrow> jsval \<Rightarrow> jsval \<Rightarrow> nat option \<Rightarrow> nat \<Rightarrow> nat \<Rightarrow> oq \<Rightarrow> turn_result \<times> oq" where
  "complete_queue_turn en cursor sequence socket epoch channel s = (
     let ct = trimmed_or_empty cursor; st = trimmed_or_empty sequence in
     if ct = [] \<and> st = [] then (TurnIgnored, s)
     else if \<not> all_digits ct \<or> \<not> all_digits st \<or> ct \<noteq> trimmed_nullish (oq_turn_cursor s) \<or> st \<noteq> trimmed_nullish (oq_turn_sequence s) then
       (TurnInvalid ''queue turn acknowledgement boundary does not match received output'', s)
     else (case parse_cursor (Str ct) of None \<Rightarrow> (TurnInvalid ''queue turn acknowledgement cursor is invalid'', s)
       | Some c \<Rightarrow> turn_ack_pending en
           \<lparr>ta_socket = socket, ta_epoch = epoch, ta_channel = channel, ta_cursor = c, ta_sequence = st\<rparr> s))"

definition begin_replay_batch :: "rat \<Rightarrow> json \<Rightarrow> oq \<Rightarrow> bool \<times> oq" where
  "begin_replay_batch now m s = (case batch_begin (int max_queued_bytes) now (oq_view s) m (oq_batches s) of (ok, b) \<Rightarrow>
     (ok, s\<lparr>oq_batches := b, oq_batch_no := (if ok then Suc (oq_batch_no s) else oq_batch_no s)\<rparr>))"

definition complete_replay_batch :: "rat \<Rightarrow> oq \<Rightarrow> bool \<times> oq" where
  "complete_replay_batch now s = (case batch_complete now (oq_view s) (oq_batches s) of (ok, b) \<Rightarrow> (ok, s\<lparr>oq_batches := b\<rparr>))"

definition clear_overload :: "oq \<Rightarrow> oq" where
  "clear_overload s = s\<lparr>oq_overload := False\<rparr>"

definition dispose_output_session :: "oq \<Rightarrow> bool \<times> oq" where
  "dispose_output_session s = (if oq_disposed s then (False, s)
     else (True, lifecycle_clear ((oq_discard s)\<lparr>oq_disposed := True\<rparr>)))"

definition dispose_output :: "oq \<Rightarrow> bool \<times> oq" where
  "dispose_output s = (if oq_gone s then (False, s)
     else let s1 = s\<lparr>oq_gone := True\<rparr> in (True, if oq_disposed s then s1 else lifecycle_clear ((oq_discard s1)\<lparr>oq_disposed := True\<rparr>)))"

definition get_snapshot :: "oq \<Rightarrow> nat \<times> nat \<times> nat \<times> bool \<times> bool \<times> string \<times> string \<times> nat" where
  "get_snapshot s = (length (oq_queue s), oq_size s, oq_gen s, oq_overload s, oq_pending s \<noteq> None,
     (case oq_pending s of None \<Rightarrow> [] | Some p \<Rightarrow> nat_text (ta_cursor p)), nat_text (oq_applied s), oq_parsed_bytes s)"

subsection \<open>What the other owners of the session do\<close>

text \<open>
  A new logical stream gives the session a larger epoch (\<open>beginSessionConnection\<close>); a history replay
  discards the queue and places both cursors at the start of the announced range, the applied one at zero
  until a checkpoint is restored, and announces the burst of a multiplexed stream (\<open>session_protocol_controller.js\<close>,
  the snapshot of \<open>history-replay-start\<close>);
  the resize owner closes the gate while a fence or a settling drain runs, drains by force below it and
  schedules a flush when it opens the gate with output waiting (\<open>resize_controller.js\<close>, \<open>clearFence\<close> and
  \<open>clearOutputSettle\<close>).
\<close>

definition replay_from :: "nat \<Rightarrow> bool \<Rightarrow> string \<Rightarrow> oq \<Rightarrow> oq" where
  "replay_from n checkpoint history s = (oq_discard s)\<lparr>oq_tracking := True, oq_history := history, oq_received := n,
     oq_applied := (if checkpoint then 0 else n), oq_from := n,
     oq_restoring := (if checkpoint then Some (n, oq_epoch s) else None), oq_gap := False, oq_lost := False\<rparr>"

definition forget_cursors :: "oq \<Rightarrow> oq" where
  "forget_cursors s = s\<lparr>oq_received := 0, oq_applied := 0, oq_gap := True, oq_lost := True\<rparr>"

definition replay_announced :: "nat \<Rightarrow> bool \<Rightarrow> string \<Rightarrow> (rat \<times> json) option \<Rightarrow> oq \<Rightarrow> oq" where
  "replay_announced n checkpoint history msg s = (let s1 = replay_from n checkpoint history s in
     case msg of None \<Rightarrow> s1 | Some (now, m) \<Rightarrow> snd (begin_replay_batch now m s1))"

definition checkpoint_restored :: "oq \<Rightarrow> oq" where
  "checkpoint_restored s = (case oq_restoring s of None \<Rightarrow> s
     | Some (n, epoch) \<Rightarrow> let s1 = s\<lparr>oq_restoring := None\<rparr> in
         if \<not> oq_closed s \<and> oq_epoch s = epoch \<and> oq_applied s < n then s1\<lparr>oq_applied := n\<rparr> else s1)"

definition open_gate :: "oq \<Rightarrow> oq" where
  "open_gate s = (let s1 = s\<lparr>oq_block := False\<rparr> in if 0 < oq_size s1 then schedule_flush s1 else s1)"

definition fence_drain :: "oq_env \<Rightarrow> nat \<Rightarrow> oq \<Rightarrow> oq" where
  "fence_drain en n s = oq_flush en \<lparr>fo_force = True, fo_bytes = flush_budget, fo_entries = n, fo_remainder = False\<rparr> (s\<lparr>oq_block := True\<rparr>)"

definition replay_received :: "oq_env \<Rightarrow> bool \<Rightarrow> oq \<Rightarrow> oq" where
  "replay_received en finished s = (let s1 = snd (complete_replay_batch (en_now en) s) in
     if finished \<and> oq_size s1 = 0 then s1 else oq_flush en flush_defaults s1)"

datatype oq_op = OqWrite bool bool output_data | OqImmediate oq_env output_data | OqFlush oq_env flush_options | OqWake oq_env
  | OqWriteSettles oq_env parser_result | OqFlushSettles | OqSchedule | OqDiscard | OqResetTurn string | OqNoteFrame jsval jsval
  | OqCompleteTurn oq_env jsval jsval "nat option" nat nat | OqTryAck oq_env | OqReceived oq_env bool
  | OqClearOverload | OqDisposeSession | OqDispose | OqStream nat nat bool "nat option" | OqDetach | OqReplayFrom nat bool string "(rat \<times> json) option" | OqRestored
  | OqStopTracking | OqSetCommitted bool bool | OqSetActive string | OqSetResizing bool bool | OqCloseGate | OqOpenGate
  | OqFenceDrain oq_env nat | OqClose | OqSetRemote bool | OqMark bool bool | OqForgetCursors | OqDropSocket | OqRestoreFailed

fun oq_step :: "oq \<Rightarrow> oq_op \<Rightarrow> oq" where
  "oq_step s (OqWrite local_output deferred d) = snd (oq_write local_output deferred d s)"
| "oq_step s (OqImmediate en d) = snd (write_immediate en d s)"
| "oq_step s (OqFlush en fo) = oq_flush en (fo\<lparr>fo_remainder := True\<rparr>) s"
| "oq_step s (OqWake en) = (if oq_due s then oq_flush en flush_defaults (lifecycle_clear s) else s)"
| "oq_step s (OqWriteSettles en r) = write_settles en r s"
| "oq_step s OqFlushSettles = flush_settles s"
| "oq_step s OqSchedule = schedule_flush s"
| "oq_step s OqDiscard = oq_discard s"
| "oq_step s (OqResetTurn flow) = reset_queue_turn flow s"
| "oq_step s (OqNoteFrame c q) = snd (note_turn_frame c q s)"
| "oq_step s (OqCompleteTurn en c q sk ep ch) = snd (complete_queue_turn en c q sk ep ch s)"
| "oq_step s (OqTryAck en) = try_send_ack en s"
| "oq_step s (OqReceived en finished) = replay_received en finished s"
| "oq_step s OqClearOverload = clear_overload s"
| "oq_step s OqDisposeSession = snd (dispose_output_session s)"
| "oq_step s OqDispose = snd (dispose_output s)"
| "oq_step s (OqStream step_up ch unified sk) = s\<lparr>oq_epoch := oq_epoch s + Suc step_up, oq_channel := ch, oq_unified := unified, oq_socket := sk\<rparr>"
| "oq_step s OqDetach = s\<lparr>oq_socket := None, oq_unified := False, oq_channel := 0\<rparr>"
| "oq_step s (OqReplayFrom n checkpoint history msg) = replay_announced n checkpoint history msg s"
| "oq_step s OqRestored = checkpoint_restored s"
| "oq_step s OqStopTracking = s\<lparr>oq_tracking := False, oq_history := []\<rparr>"
| "oq_step s (OqSetCommitted committed allow) = s\<lparr>oq_committed := committed, oq_allow := allow\<rparr>"
| "oq_step s (OqSetActive n) = s\<lparr>oq_active := n\<rparr>"
| "oq_step s (OqSetResizing active settling) = s\<lparr>oq_resizing := active, oq_settling := settling\<rparr>"
| "oq_step s OqCloseGate = s\<lparr>oq_block := True\<rparr>"
| "oq_step s OqOpenGate = open_gate s"
| "oq_step s (OqFenceDrain en n) = fence_drain en n s"
| "oq_step s OqClose = s\<lparr>oq_closed := True\<rparr>"
| "oq_step s (OqSetRemote r) = s\<lparr>oq_remote := r\<rparr>"
| "oq_step s OqDropSocket = s\<lparr>oq_socket := None\<rparr>"
| "oq_step s OqRestoreFailed = s\<lparr>oq_restoring := None\<rparr>"
| "oq_step s OqForgetCursors = forget_cursors s"
| "oq_step s (OqMark reset_next completing) = s\<lparr>oq_reset_next := reset_next, oq_completing := completing\<rparr>"

subsection \<open>What the queue guarantees\<close>

text \<open>An entry is as its payload measures it; the cursors of the tracked entries follow one another.\<close>

definition entry_ok :: "nat \<Rightarrow> oq_entry \<Rightarrow> bool" where
  "entry_ok g e = (oe_kind e = output_kind (oe_data e) \<and> oe_len e = output_byte_length (oe_data e) \<and> 0 < oe_len e \<and> oe_gen e = g
     \<and> (case oe_start e of None \<Rightarrow> oe_end e = None | Some x \<Rightarrow> oe_end e = Some (x + oe_len e) \<and> oe_kind e = ''bytes''))"

fun cursor_chain :: "nat \<Rightarrow> oq_entry list \<Rightarrow> nat \<Rightarrow> bool" where
  "cursor_chain a [] r = (a = r)"
| "cursor_chain a (e # es) r = (case oe_start e of None \<Rightarrow> cursor_chain a es r
     | Some x \<Rightarrow> x = a \<and> cursor_chain (a + oe_len e) es r)"

definition positions :: "unit_at list \<Rightarrow> nat list" where
  "positions us = concat (map (\<lambda>p. case fst p of None \<Rightarrow> [] | Some x \<Rightarrow> [x]) us)"

definition joined :: "oq_entry list \<Rightarrow> bool" where
  "joined es = successively (\<lambda>a b. oe_end a \<noteq> None \<longrightarrow> oe_start b = oe_end a) es"

definition write_fits :: "nat \<Rightarrow> oq_entry list \<Rightarrow> flight option \<Rightarrow> bool" where
  "write_fits g q f = (case f of Some (Writing d w) \<Rightarrow> pw_gen w \<le> g \<and> (pw_gen w = g \<longrightarrow> pw_entries w \<noteq> []
       \<and> take (length (pw_entries w)) q = pw_entries w \<and> joined (pw_entries w)
       \<and> data_units (pw_data w) = concat (map (\<lambda>e. data_units (oe_data e)) (pw_entries w)))
     | _ \<Rightarrow> True)"

definition queue_ok :: "oq \<Rightarrow> bool" where
  "queue_ok s = (list_all (entry_ok (oq_gen s)) (oq_queue s) \<and> oq_size s = sum_len (oq_queue s) \<and> oq_size s \<le> max_queued_bytes
     \<and> length (oq_queue s) \<le> max_queued_entries \<and> (oq_overload s \<longrightarrow> oq_failed s))"

definition reached :: "oq \<Rightarrow> nat" where
  "reached s = max (oq_applied s) (oq_from s)"

definition ends_below :: "nat \<Rightarrow> oq_entry \<Rightarrow> bool" where
  "ends_below r e = (case oe_end e of None \<Rightarrow> True | Some y \<Rightarrow> y \<le> r)"

definition restores_below :: "nat \<Rightarrow> (nat \<times> nat) option \<Rightarrow> bool" where
  "restores_below f x = (case x of None \<Rightarrow> True | Some (n, ep) \<Rightarrow> n \<le> f)"

definition cursors_ok :: "oq \<Rightarrow> bool" where
  "cursors_ok s = (if oq_lost s then oq_gap s else oq_applied s \<le> oq_received s \<and> oq_from s \<le> oq_received s
     \<and> list_all (ends_below (oq_received s)) (oq_queue s) \<and> restores_below (oq_from s) (oq_restoring s))"

definition order_ok :: "oq \<Rightarrow> bool" where
  "order_ok s = (oq_gap s \<or> oq_parsed s @ queue_units (oq_queue s) = oq_taken s
     \<and> positions (oq_parsed s) = [oq_from s ..< reached s] \<and> cursor_chain (reached s) (oq_queue s) (oq_received s))"

definition oq_inv :: "oq \<Rightarrow> bool" where
  "oq_inv s = (queue_ok s \<and> write_fits (oq_gen s) (oq_queue s) (oq_flight s) \<and> cursors_ok s \<and> order_ok s)"

lemmas oq_inv_defs = oq_inv_def queue_ok_def cursors_ok_def order_ok_def reached_def

lemma oq_inv_frame:
  "oq_inv (tell x s) = oq_inv s" "oq_inv (tell_if b x s) = oq_inv s" "oq_inv (touch_batch s) = oq_inv s"
  "oq_inv (lifecycle_clear s) = oq_inv s" "oq_inv (lifecycle_schedule s) = oq_inv s" "oq_inv (schedule_flush s) = oq_inv s"
  "oq_inv (s\<lparr>oq_batches := bs\<rparr>) = oq_inv s" "oq_inv (s\<lparr>oq_pending := p\<rparr>) = oq_inv s" "oq_inv (s\<lparr>oq_bounds := q\<rparr>) = oq_inv s"
  "oq_inv (s\<lparr>oq_depth := n\<rparr>) = oq_inv s" "oq_inv (s\<lparr>oq_allow := c\<rparr>) = oq_inv s" "oq_inv (s\<lparr>oq_block := c\<rparr>) = oq_inv s"
  "oq_inv (s\<lparr>oq_reset_next := c\<rparr>) = oq_inv s" "oq_inv (s\<lparr>oq_batch_no := n\<rparr>) = oq_inv s"
  "oq_inv (s\<lparr>oq_outs := l\<rparr>) = oq_inv s" "oq_inv (s\<lparr>oq_parsed_bytes := n\<rparr>) = oq_inv s" "oq_inv (s\<lparr>oq_applied_entries := n\<rparr>) = oq_inv s"
  "oq_inv (s\<lparr>oq_disposed := c\<rparr>) = oq_inv s" "oq_inv (s\<lparr>oq_gone := c\<rparr>) = oq_inv s"
  by (simp_all add: oq_inv_defs tell_def tell_if_def touch_batch_def lifecycle_clear_def lifecycle_schedule_def schedule_flush_def)

lemma oq_inv_failed: "oq_inv s \<Longrightarrow> oq_inv (s\<lparr>oq_failed := True\<rparr>)"
  by (simp add: oq_inv_defs)

lemma handle_overload_inv: "oq_inv s \<Longrightarrow> oq_inv (handle_overload s)"
proof -
  assume "oq_inv s"
  then have "oq_inv (s\<lparr>oq_overload := True, oq_failed := True\<rparr>)" by (simp add: oq_inv_defs)
  with \<open>oq_inv s\<close> show ?thesis by (simp add: handle_overload_def oq_inv_frame)
qed

lemma flight_none_inv: "oq_inv s \<Longrightarrow> oq_inv (s\<lparr>oq_flight := None\<rparr>)"
  "oq_inv s \<Longrightarrow> oq_inv (s\<lparr>oq_flight := Some Ending\<rparr>)" "oq_inv s \<Longrightarrow> oq_inv (s\<lparr>oq_flight := Some (Rejected c g)\<rparr>)"
  by (simp_all add: oq_inv_defs write_fits_def)

lemma oq_start_inv: "oq_inv (oq_start nm pn)"
  by (simp add: oq_inv_defs write_fits_def restores_below_def oq_start_def sum_len_def queue_units_def positions_def)

subsection \<open>Units, cursors and chains\<close>

lemma positions_append [simp]: "positions (us @ vs) = positions us @ positions vs"
  by (simp add: positions_def)

lemma positions_Nil [simp]: "positions [] = []"
  by (simp add: positions_def)

lemma positions_zip_None: "positions (zip (replicate n None) xs) = []"
  by (auto simp: positions_def dest: set_zip_leftD)

lemma positions_zip_Some: "length ys = length xs \<Longrightarrow> positions (zip (map Some ys) xs) = ys"
  by (induction ys xs rule: list_induct2) (simp_all add: positions_def)

lemma entry_lengths: "entry_ok g e \<Longrightarrow> length (entry_cursors e) = length (data_units (oe_data e))"
  by (auto simp: entry_ok_def entry_cursors_def output_kind_def output_byte_length_def data_units_def
      split: option.splits output_data.splits)

lemma entry_positions: "entry_ok g e \<Longrightarrow> positions (entry_units e)
    = (case oe_start e of None \<Rightarrow> [] | Some x \<Rightarrow> [x ..< x + oe_len e])"
proof -
  assume ok: "entry_ok g e"
  show ?thesis
  proof (cases "oe_start e")
    case None
    then show ?thesis by (simp add: entry_units_def entry_cursors_def positions_zip_None)
  next
    case (Some x)
    have "length [x ..< x + oe_len e] = length (data_units (oe_data e))"
      using entry_lengths [OF ok] Some by (simp add: entry_cursors_def)
    then show ?thesis using Some by (simp add: entry_units_def entry_cursors_def positions_zip_Some)
  qed
qed

lemma queue_units_simps [simp]: "queue_units [] = []" "queue_units (e # es) = entry_units e @ queue_units es"
  "queue_units (es @ fs) = queue_units es @ queue_units fs"
  by (simp_all add: queue_units_def)

lemma queue_units_zip: "list_all (entry_ok g) es \<Longrightarrow>
    zip (concat (map entry_cursors es)) (concat (map (\<lambda>e. data_units (oe_data e)) es)) = queue_units es"
  by (induction es) (auto simp: entry_units_def entry_lengths)

lemma chain_le: "cursor_chain a es r \<Longrightarrow> a \<le> r"
proof (induction es arbitrary: a)
  case (Cons e es)
  show ?case
  proof (cases "oe_start e")
    case None then show ?thesis using Cons by simp
  next
    case (Some x)
    then show ?thesis using Cons.IH [of "a + oe_len e"] Cons.prems by simp
  qed
qed simp

lemma chain_split: "cursor_chain a (es @ fs) r \<Longrightarrow> \<exists>m. cursor_chain a es m \<and> cursor_chain m fs r"
  by (induction es arbitrary: a) (auto split: option.splits)

lemma chain_join: "\<lbrakk>cursor_chain a es m; cursor_chain m fs r\<rbrakk> \<Longrightarrow> cursor_chain a (es @ fs) r"
  by (induction es arbitrary: a) (auto split: option.splits)

lemma chain_positions: "\<lbrakk>cursor_chain a es m; list_all (entry_ok g) es\<rbrakk> \<Longrightarrow> positions (queue_units es) = [a ..< m]"
proof (induction es arbitrary: a)
  case (Cons e es)
  note pos = entry_positions [of g e]
  show ?case
  proof (cases "oe_start e")
    case None then show ?thesis using Cons pos by simp
  next
    case (Some x)
    then have c: "x = a" "cursor_chain (a + oe_len e) es m" using Cons.prems(1) by simp_all
    then have "positions (queue_units es) = [a + oe_len e ..< m]" using Cons by simp
    moreover have "[a ..< m] = [a ..< a + oe_len e] @ [a + oe_len e ..< m]"
      using upt_add_eq_append [of a "a + oe_len e" "m - (a + oe_len e)"] chain_le [OF c(2)] by simp
    ultimately show ?thesis using Cons.prems(2) Some c(1) pos by simp
  qed
qed simp

text \<open>The cursor after a written batch: the end of its last entry, or where it was.\<close>

lemma joined_untracked: "\<lbrakk>joined es; es \<noteq> []; oe_end (last es) = None; list_all (entry_ok g) es\<rbrakk> \<Longrightarrow> list_all (\<lambda>e. oe_start e = None) es"
proof (induction es rule: rev_induct)
  case (snoc e es)
  have e: "oe_start e = None" using snoc.prems by (auto simp: entry_ok_def split: option.splits)
  show ?case
  proof (cases "es = []")
    case False
    have "joined es" "oe_end (last es) \<noteq> None \<longrightarrow> oe_start e = oe_end (last es)"
      using snoc.prems(1) False by (auto simp: joined_def successively_append_iff)
    then have "oe_end (last es) = None" using e by auto
    then show ?thesis using snoc \<open>joined es\<close> False e by simp
  qed (use e in simp)
qed simp

lemma chain_untracked: "\<lbrakk>list_all (\<lambda>e. oe_start e = None) es; cursor_chain a es m\<rbrakk> \<Longrightarrow> m = a"
  by (induction es arbitrary: a) auto

lemma chain_last: "\<lbrakk>cursor_chain a es m; es \<noteq> []; list_all (entry_ok g) es; oe_end (last es) = Some y\<rbrakk> \<Longrightarrow> y = m"
proof (induction es arbitrary: a rule: rev_induct)
  case (snoc e es)
  then obtain k where "cursor_chain k [e] m" using chain_split by blast
  with snoc.prems show ?case by (auto simp: entry_ok_def split: option.splits)
qed simp

lemma chain_batch: "\<lbrakk>cursor_chain a es m; es \<noteq> []; list_all (entry_ok g) es; joined es\<rbrakk> \<Longrightarrow>
    m = (case oe_end (last es) of None \<Rightarrow> a | Some y \<Rightarrow> y)"
  using chain_last [of a es m g] joined_untracked [of es g] chain_untracked [of es a m] by (auto split: option.splits)

lemma sum_len_simps [simp]: "sum_len [] = 0" "sum_len (e # es) = oe_len e + sum_len es" "sum_len (es @ fs) = sum_len es + sum_len fs"
  by (simp_all add: sum_len_def)

subsection \<open>Accepting keeps the invariant\<close>

lemma push_fits: "write_fits g q f \<Longrightarrow> write_fits g (q @ [e]) f"
proof -
  have "take n (q @ [e]) = es" if "take n q = es" "n = length es" for n and es :: "oq_entry list"
    using that by (metis append_Nil2 diff_is_0_eq length_take min.absorb_iff2 min.commute take_append take_eq_Nil)
  then show "write_fits g q f \<Longrightarrow> write_fits g (q @ [e]) f"
    by (auto simp: write_fits_def split: option.splits flight.splits)
qed

lemma push_order:
  assumes "order_ok s" "entry_ok (oq_gen s) e" "oe_start e = None \<or> oe_start e = Some (oq_received s)"
  shows "order_ok (push_entry e s)"
proof (cases "oq_gap s")
  case True then show ?thesis by (simp add: order_ok_def push_entry_def)
next
  case False
  have c: "cursor_chain (reached s) (oq_queue s) (oq_received s)" using assms(1) False by (simp add: order_ok_def)
  have "cursor_chain (oq_received s) [e] (oq_received (push_entry e s))"
    using assms(2,3) by (auto simp: push_entry_def entry_ok_def split: option.splits)
  with c have "cursor_chain (reached s) (oq_queue s @ [e]) (oq_received (push_entry e s))" by (rule chain_join)
  moreover have "oq_queue (push_entry e s) = oq_queue s @ [e]" "reached (push_entry e s) = reached s"
    "oq_taken (push_entry e s) = oq_taken s @ entry_units e" "oq_parsed (push_entry e s) = oq_parsed s"
    "oq_from (push_entry e s) = oq_from s"
    by (simp_all add: push_entry_def reached_def)
  ultimately show ?thesis using assms(1) False by (simp add: order_ok_def)
qed

lemma ends_below_mono: "\<lbrakk>list_all (ends_below r) es; r \<le> r'\<rbrakk> \<Longrightarrow> list_all (ends_below r') es"
  by (auto simp: list_all_iff ends_below_def split: option.splits)

lemma push_cursors:
  assumes "cursors_ok s" "entry_ok (oq_gen s) e" "oe_start e = None \<or> oe_start e = Some (oq_received s)"
  shows "cursors_ok (push_entry e s)"
proof -
  have le: "oq_received s \<le> oq_received (push_entry e s)"
    using assms(2,3) by (auto simp: push_entry_def entry_ok_def split: option.splits)
  moreover have "ends_below (oq_received (push_entry e s)) e"
    by (auto simp: push_entry_def ends_below_def split: option.splits)
  moreover have "oq_applied (push_entry e s) = oq_applied s" "oq_from (push_entry e s) = oq_from s"
    "oq_queue (push_entry e s) = oq_queue s @ [e]" "oq_restoring (push_entry e s) = oq_restoring s"
    "oq_lost (push_entry e s) = oq_lost s" "oq_gap (push_entry e s) = oq_gap s"
    by (simp_all add: push_entry_def)
  ultimately show ?thesis using assms(1) ends_below_mono [OF _ le] by (cases "oq_lost s") (simp_all add: cursors_ok_def)
qed

lemma push_inv:
  assumes "oq_inv s" "entry_ok (oq_gen s) e" "oe_start e = None \<or> oe_start e = Some (oq_received s)"
    "oq_size s + oe_len e \<le> max_queued_bytes" "length (oq_queue s) < max_queued_entries"
  shows "oq_inv (push_entry e s)"
proof -
  have "queue_ok (push_entry e s)" "write_fits (oq_gen (push_entry e s)) (oq_queue (push_entry e s)) (oq_flight (push_entry e s))"
    using assms by (simp_all add: oq_inv_def queue_ok_def push_entry_def push_fits)
  then show ?thesis using assms push_order push_cursors by (simp add: oq_inv_def)
qed

lemma new_entry_ok: "\<lbrakk>oe_kind tpl = output_kind d; 0 < output_byte_length d; start \<noteq> None \<Longrightarrow> output_kind d = ''bytes''\<rbrakk> \<Longrightarrow>
    entry_ok (oq_gen s) (new_oq_entry tpl burst start d s)"
  by (auto simp: entry_ok_def new_oq_entry_def Let_def split: option.splits)

lemma new_oq_entry_fields [simp]: "oe_start (new_oq_entry tpl burst start d s) = start"
  "oe_len (new_oq_entry tpl burst start d s) = output_byte_length d"
  "oe_end (new_oq_entry tpl burst start d s) = map_option (\<lambda>x. x + output_byte_length d) start"
  by (simp_all add: new_oq_entry_def Let_def)

lemma enqueue_inv:
  assumes "oq_inv s" "start = None \<or> start = Some (oq_received s) \<and> oe_kind tpl = ''bytes''"
    "list_all (\<lambda>d. output_kind d = oe_kind tpl) ds"
  shows "oq_inv (snd (enqueue_pieces tpl burst start ds s))"
  using assms
proof (induction tpl burst start ds s rule: enqueue_pieces.induct)
  case (2 tpl burst start d ds s)
  let ?n = "output_byte_length d" and ?e = "new_oq_entry tpl burst start d s"
  show ?case
  proof (cases "?n = 0")
    case True
    then show ?thesis using 2 by simp
  next
    case n: False
    show ?thesis
    proof (cases "max_queued_bytes < oq_size s + ?n \<or> max_queued_entries \<le> length (oq_queue s)")
      case True
      then show ?thesis using n 2(3) by (simp add: handle_overload_inv Let_def)
    next
      case False
      have "entry_ok (oq_gen s) ?e" using n 2(4,5) by (intro new_entry_ok) auto
      then have inv: "oq_inv (push_entry ?e s)" using 2(3,4) False by (intro push_inv) auto
      have st: "map_option (\<lambda>x. x + ?n) start = None
          \<or> map_option (\<lambda>x. x + ?n) start = Some (oq_received (push_entry ?e s)) \<and> oe_kind tpl = ''bytes''"
        using 2(4) by (auto simp: push_entry_def)
      have "oq_inv (snd (enqueue_pieces tpl burst (map_option (\<lambda>x. x + ?n) start) ds (push_entry ?e s)))"
        using 2(5) by (intro 2(2) [OF refl n False inv st]) simp
      then show ?thesis using n False by (simp add: Let_def)
    qed
  qed
qed simp

lemma pieces_kind: "list_all (\<lambda>e. output_kind e = output_kind d) (output_pieces n d)"
  by (auto simp: output_pieces_def output_kind_def list_all_iff split: output_data.splits)

lemma write_inv: "oq_inv s \<Longrightarrow> oq_inv (snd (oq_write lo df d s))"
proof -
  assume inv: "oq_inv s"
  let ?tpl = "write_template lo df d s"
  let ?s1 = "touch_batch (tell_if (oq_settling s) ResizeNoted s)"
  have k: "oe_kind ?tpl = output_kind d" by (simp add: write_template_def Let_def)
  have st: "write_start d s = None \<or> write_start d s = Some (oq_received ?s1) \<and> oe_kind ?tpl = ''bytes''"
    using k by (simp add: write_start_def touch_batch_def tell_if_def tell_def)
  have "oq_inv (snd (enqueue_pieces ?tpl (live_batch s) (write_start d s) (output_pieces (piece_limit (oe_replay ?tpl)) d) ?s1))"
    by (rule enqueue_inv [OF _ st]) (simp_all add: inv oq_inv_frame k pieces_kind)
  then show ?thesis using inv
    by (auto simp: oq_write_def Let_def after_write_def handle_overload_inv oq_inv_frame split: prod.splits)
qed

subsection \<open>A batch is what its entries hold\<close>

lemma grab_prefix: "\<exists>n. grab en d taken es = taken @ take n es"
proof (induction es arbitrary: taken)
  case (Cons e es)
  show ?case
  proof (cases "taken \<noteq> [] \<and> stop_before en d taken e")
    case True
    then have "grab en d taken (e # es) = taken @ take 0 (e # es)" by simp
    then show ?thesis by blast
  next
    case False
    obtain n where "grab en d (taken @ [e]) es = (taken @ [e]) @ take n es" using Cons by blast
    with False have "grab en d taken (e # es) = taken @ take (Suc n) (e # es)" by simp
    then show ?thesis by blast
  qed
qed simp

lemma grab_joined: "joined taken \<Longrightarrow> joined (grab en d taken es)"
proof (induction es arbitrary: taken)
  case (Cons e es)
  have "joined (taken @ [e])" if "\<not> (taken \<noteq> [] \<and> stop_before en d taken e)"
    using that Cons.prems by (auto simp: joined_def successively_append_iff stop_before_def)
  with Cons show ?case by simp
qed simp

lemma grab_kind:
  assumes "list_all (\<lambda>e. oe_kind e = k) taken" "taken = [] \<Longrightarrow> es \<noteq> [] \<Longrightarrow> oe_kind (hd es) = k"
  shows "list_all (\<lambda>e. oe_kind e = k) (grab en d taken es)"
  using assms
proof (induction es arbitrary: taken)
  case (Cons e es)
  have "list_all (\<lambda>e. oe_kind e = k) (taken @ [e])" if go: "\<not> (taken \<noteq> [] \<and> stop_before en d taken e)"
  proof (cases "taken = []")
    case False
    then have "oe_kind (hd taken) = k" using Cons.prems(1) by (cases taken) simp_all
    with False go have "oe_kind e = k" by (simp add: stop_before_def like_first_def)
    then show ?thesis using Cons.prems(1) by simp
  qed (use Cons.prems in simp)
  then have "list_all (\<lambda>e. oe_kind e = k) (grab en d (taken @ [e]) es)" if "\<not> (taken \<noteq> [] \<and> stop_before en d taken e)"
    using that by (intro Cons.IH) simp_all
  then show ?case using Cons.prems(1) by simp
qed simp

lemma grab_batch:
  assumes "es \<noteq> []" "grab en d [] es = b"
  shows "b \<noteq> []" "take (length b) es = b" "joined b" "list_all (\<lambda>e. oe_kind e = oe_kind (hd b)) b"
proof -
  obtain e r where es: "es = e # r" using assms(1) by (cases es) auto
  have g: "b = grab en d [e] r" using assms(2) es by simp
  obtain n where n: "b = [e] @ take n r" using grab_prefix [of en d "[e]" r] g by auto
  show "b \<noteq> []" using n by simp
  show "take (length b) es = b" using n es by (simp add: min_def)
  show "joined b" unfolding g by (rule grab_joined) (simp add: joined_def)
  have "list_all (\<lambda>x. oe_kind x = oe_kind e) b" unfolding g by (rule grab_kind) simp_all
  then show "list_all (\<lambda>e. oe_kind e = oe_kind (hd b)) b" using n by simp
qed

lemma texts_units: "list_all (entry_ok g) es \<Longrightarrow> list_all (\<lambda>e. oe_kind e = ''text'') es \<Longrightarrow>
    map Inl (concat (map text_of (map oe_data es))) = concat (map (\<lambda>e. data_units (oe_data e)) es)"
  by (induction es) (auto simp: entry_ok_def text_of_def data_units_def output_kind_def split: output_data.splits)

lemma bytes_units: "list_all (entry_ok g) es \<Longrightarrow> list_all (\<lambda>e. oe_kind e = ''bytes'') es \<Longrightarrow>
    map Inr (concat (map bytes_of (map oe_data es))) = concat (map (\<lambda>e. data_units (oe_data e)) es)
    \<and> length (concat (map bytes_of (map oe_data es))) = sum_len es"
  by (induction es) (auto simp: entry_ok_def bytes_of_def data_units_def output_kind_def output_byte_length_def split: output_data.splits)

lemma entry_kind: "entry_ok g e \<Longrightarrow> oe_kind e = ''text'' \<or> oe_kind e = ''bytes''"
  by (auto simp: entry_ok_def output_kind_def output_byte_length_def split: output_data.splits)

lemma coalesce_entries:
  assumes "es \<noteq> []" "list_all (entry_ok g) es" "list_all (\<lambda>e. oe_kind e = oe_kind (hd es)) es"
  shows "\<exists>data. coalesce_output (map oe_data es) (oe_kind (hd es)) (sum_len es) = Some data
     \<and> data_units data = concat (map (\<lambda>e. data_units (oe_data e)) es)"
proof (cases "length es = 1")
  case True
  then obtain e where "es = [e]" by (cases es) auto
  then show ?thesis by (simp add: coalesce_output_def)
next
  case False
  have "entry_ok g (hd es)" using assms(1,2) by (cases es) simp_all
  then consider "oe_kind (hd es) = ''text''" | "oe_kind (hd es) = ''bytes''" using entry_kind by blast
  then show ?thesis
  proof cases
    case 1
    then have "list_all (\<lambda>e. oe_kind e = ''text'') es" using assms(3) by simp
    from texts_units [OF assms(2) this] 1 False show ?thesis by (simp add: coalesce_output_def data_units_def)
  next
    case 2
    then have "list_all (\<lambda>e. oe_kind e = ''bytes'') es" using assms(3) by simp
    from bytes_units [OF assms(2) this] 2 False show ?thesis by (simp add: coalesce_output_def data_units_def Let_def)
  qed
qed

lemma entry_units_nonempty: "entry_ok g e \<Longrightarrow> data_units (oe_data e) \<noteq> []"
  by (auto simp: entry_ok_def data_units_def output_byte_length_def measure_output.simps split: output_data.splits)

lemma batch_not_empty: "\<lbrakk>es \<noteq> []; list_all (entry_ok g) es; data_units data = concat (map (\<lambda>e. data_units (oe_data e)) es)\<rbrakk> \<Longrightarrow> \<not> data_empty data"
  using entry_units_nonempty [of g "hd es"] by (cases es) (simp_all add: data_empty_def)

subsection \<open>Draining keeps the invariant\<close>

lemma ack_sent_frame: "oq_inv (ack_sent p s) = oq_inv s"
  by (simp add: ack_sent_def oq_inv_frame Let_def)

lemma try_ack_inv: "oq_inv s \<Longrightarrow> oq_inv (try_send_ack en s)"
  by (simp add: try_send_ack_def oq_inv_frame ack_sent_frame split: option.split)

lemma drain_end_inv: "oq_inv s \<Longrightarrow> oq_inv (drain_end en d s)"
  by (simp add: drain_end_def flight_none_inv Let_def oq_inv_frame try_ack_inv)

lemma begin_fits:
  assumes "pw_entries w \<noteq> []" "take (length (pw_entries w)) (oq_queue s) = pw_entries w" "joined (pw_entries w)"
    "data_units (pw_data w) = concat (map (\<lambda>e. data_units (oe_data e)) (pw_entries w))" "oq_inv s" "pw_gen w = oq_gen s"
  shows "oq_inv (s\<lparr>oq_flight := Some (Writing d w)\<rparr>)"
  using assms by (simp add: oq_inv_defs write_fits_def)

lemma begin_write_inv:
  assumes "oq_inv s" "es \<noteq> []" "take (length es) (oq_queue s) = es" "joined es" "list_all (\<lambda>e. oe_kind e = oe_kind (hd es)) es"
  shows "oq_inv (begin_write en d es s)"
proof -
  have ok: "list_all (entry_ok (oq_gen s)) es"
    using assms(1,3) unfolding oq_inv_def queue_ok_def list_all_iff by (metis in_set_takeD)
  obtain data where data: "coalesce_output (map oe_data es) (oe_kind (hd es)) (sum_len es) = Some data"
    "data_units data = concat (map (\<lambda>e. data_units (oe_data e)) es)"
    using coalesce_entries [OF assms(2) ok assms(5)] by blast
  have ne: "\<not> data_empty data" by (rule batch_not_empty [OF assms(2) ok data(2)])
  have fits: "oq_inv (t\<lparr>oq_flight := Some (Writing d' \<lparr>pw_entries = es, pw_data = data, pw_gen = oq_gen t, pw_allow = c, pw_writer = r\<rparr>)\<rparr>)"
    if "oq_inv t" "oq_queue t = oq_queue s" for t d' c r
    using assms(2-4) data(2) that by (intro begin_fits) simp_all
  let ?t = "\<lambda>r. tell (TermWrite r data) (if oe_replay (hd es)
      then (tell SuppressionArmed (s\<lparr>oq_allow := oe_allow (hd es)\<rparr>))\<lparr>oq_depth := Suc (oq_depth s)\<rparr> else s)"
  have t: "oq_inv (?t r)" "oq_queue (?t r) = oq_queue s" "oq_gen (?t r) = oq_gen s" for r
    using assms(1) by (simp_all add: oq_inv_frame tell_def)
  show ?thesis using ne data(1) fits [OF t(1,2)] unfolding t(3) by (simp add: begin_write_def Let_def)
qed

lemma drain_loop_inv: "oq_inv s \<Longrightarrow> oq_inv (drain_loop en d s)"
proof -
  assume inv: "oq_inv s"
  show ?thesis
  proof (cases "oq_queue s")
    case Nil
    then show ?thesis using inv by (simp add: drain_loop_def drain_end_inv)
  next
    case (Cons e es)
    then have "oq_queue s \<noteq> []" by simp
    from grab_batch [OF this refl, of en d] have "oq_inv (begin_write en d (grab en d [] (oq_queue s)) s)"
      by (intro begin_write_inv inv)
    then show ?thesis using inv Cons by (simp add: drain_loop_def drain_end_inv)
  qed
qed

definition drop_written :: "parser_write \<Rightarrow> oq \<Rightarrow> oq" where
  "drop_written w s = s\<lparr>oq_queue := drop (length (pw_entries w)) (oq_queue s), oq_size := oq_size s - sum_len (pw_entries w),
     oq_parsed := oq_parsed s @ zip (concat (map entry_cursors (pw_entries w))) (data_units (pw_data w)), oq_flight := None,
     oq_applied := (case oe_end (last (pw_entries w)) of None \<Rightarrow> oq_applied s | Some y \<Rightarrow> y)\<rparr>"

lemma drop_written_inv:
  assumes inv: "oq_inv s" and flight: "oq_flight s = Some (Writing d w)" and gen: "pw_gen w = oq_gen s"
  shows "oq_inv (drop_written w s)"
proof -
  let ?es = "pw_entries w" and ?s = "drop_written w s"
  have w: "?es \<noteq> []" "take (length ?es) (oq_queue s) = ?es" "joined ?es"
    "data_units (pw_data w) = concat (map (\<lambda>e. data_units (oe_data e)) ?es)"
    using inv flight gen by (simp_all add: oq_inv_def write_fits_def)
  define r where "r = drop (length ?es) (oq_queue s)"
  have q: "oq_queue s = ?es @ r" using w(2) unfolding r_def by (metis append_take_drop_id)
  have f: "oq_queue ?s = r" "oq_size ?s = oq_size s - sum_len ?es" "oq_gen ?s = oq_gen s" "oq_flight ?s = None" "oq_received ?s = oq_received s"
    "oq_from ?s = oq_from s" "oq_gap ?s = oq_gap s" "oq_taken ?s = oq_taken s" "oq_restoring ?s = oq_restoring s"
    "oq_overload ?s = oq_overload s" "oq_failed ?s = oq_failed s" "oq_lost ?s = oq_lost s"
    "oq_applied ?s = (case oe_end (last ?es) of None \<Rightarrow> oq_applied s | Some y \<Rightarrow> y)"
    by (simp_all add: drop_written_def r_def)
  have qo: "queue_ok s" "cursors_ok s" "order_ok s" using inv by (simp_all add: oq_inv_def)
  have ok: "list_all (entry_ok (oq_gen s)) ?es" "list_all (entry_ok (oq_gen s)) r" using qo(1) q by (simp_all add: queue_ok_def)
  have parsed: "oq_parsed ?s = oq_parsed s @ queue_units ?es"
    using queue_units_zip [OF ok(1)] w(4) by (simp add: drop_written_def)
  have "queue_ok ?s" using qo(1) q by (simp add: queue_ok_def f)
  moreover have "cursors_ok ?s"
  proof (cases "oq_lost s")
    case True
    then show ?thesis using qo(2) by (simp add: cursors_ok_def f)
  next
    case False
    have "ends_below (oq_received s) (last ?es)" using qo(2) w(1) q False by (simp add: cursors_ok_def list_all_iff)
    then show ?thesis using qo(2) q False by (simp add: cursors_ok_def f ends_below_def split: option.splits)
  qed
  moreover have "order_ok ?s"
  proof (cases "oq_gap s")
    case True then show ?thesis by (simp add: order_ok_def f)
  next
    case False
    have o: "oq_parsed s @ queue_units (oq_queue s) = oq_taken s" "positions (oq_parsed s) = [oq_from s ..< reached s]"
      "cursor_chain (reached s) (oq_queue s) (oq_received s)" using qo(3) False by (simp_all add: order_ok_def)
    obtain m where m: "cursor_chain (reached s) ?es m" "cursor_chain m r (oq_received s)" using chain_split o(3) q by metis
    have "m = (case oe_end (last ?es) of None \<Rightarrow> reached s | Some y \<Rightarrow> y)" by (rule chain_batch [OF m(1) w(1) ok(1) w(3)])
    moreover have "oq_from s \<le> reached s" "reached s \<le> m" using chain_le [OF m(1)] by (simp_all add: reached_def)
    ultimately have re: "reached ?s = m" by (auto simp: reached_def f split: option.splits)
    have "positions (queue_units ?es) = [reached s ..< m]" by (rule chain_positions [OF m(1) ok(1)])
    moreover have "[oq_from s ..< m] = [oq_from s ..< reached s] @ [reached s ..< m]"
      using upt_add_eq_append [of "oq_from s" "reached s" "m - reached s"] \<open>oq_from s \<le> reached s\<close> \<open>reached s \<le> m\<close> by simp
    ultimately have "positions (oq_parsed ?s) = [oq_from ?s ..< reached ?s]" using parsed o(2) re by (simp add: f)
    moreover have "oq_parsed ?s @ queue_units (oq_queue ?s) = oq_taken ?s" using parsed o(1) q by (simp add: f)
    ultimately show ?thesis using m(2) re by (simp add: order_ok_def f)
  qed
  ultimately show ?thesis by (simp add: oq_inv_def f write_fits_def)
qed

text \<open>A drain's round overwrites what the drain was waiting for.\<close>

lemma try_ack_flight: "try_send_ack en (s\<lparr>oq_flight := f\<rparr>) = (try_send_ack en s)\<lparr>oq_flight := f\<rparr>"
proof -
  have b: "reached_bounds (s\<lparr>oq_flight := f\<rparr>) = reached_bounds s" by (simp add: reached_bounds_def)
  then have d: "due_ack (s\<lparr>oq_flight := f\<rparr>) = due_ack s" by (simp add: due_ack_def)
  have c: "ack_current (s\<lparr>oq_flight := f\<rparr>) p = ack_current s p" for p by (simp add: ack_current_def)
  have a: "ack_sent p (s\<lparr>oq_flight := f\<rparr>) = (ack_sent p s)\<lparr>oq_flight := f\<rparr>" for p
    by (cases "oq_windowed s") (simp_all add: ack_sent_def b tell_def Let_def)
  have t: "tell AckFailed (s\<lparr>oq_flight := f, oq_pending := None, oq_bounds := []\<rparr>) = (tell AckFailed (s\<lparr>oq_pending := None, oq_bounds := []\<rparr>))\<lparr>oq_flight := f\<rparr>"
    by (simp add: tell_def)
  show ?thesis
  proof (cases "due_ack s")
    case None
    then show ?thesis by (simp add: try_send_ack_def d)
  next
    case (Some p)
    then show ?thesis unfolding try_send_ack_def d by (auto simp: c a t)
  qed
qed

lemma drain_end_flight: "drain_end en d (s\<lparr>oq_flight := f\<rparr>) = drain_end en d s"
proof -
  have t: "tell x (t\<lparr>oq_flight := f\<rparr>) = (tell x t)\<lparr>oq_flight := f\<rparr>" "tell_if b x (t\<lparr>oq_flight := f\<rparr>) = (tell_if b x t)\<lparr>oq_flight := f\<rparr>"
    "lifecycle_schedule (t\<lparr>oq_flight := f\<rparr>) = (lifecycle_schedule t)\<lparr>oq_flight := f\<rparr>" for x b t
    by (simp_all add: tell_def tell_if_def lifecycle_schedule_def)
  show ?thesis by (cases "dr_wrote d") (simp_all add: drain_end_def Let_def t try_ack_flight)
qed

lemma drain_loop_flight: "drain_loop en d (s\<lparr>oq_flight := f\<rparr>) = drain_loop en d s"
proof -
  have "begin_write en d es (s\<lparr>oq_flight := f\<rparr>) = begin_write en d es s" for es
    by (simp add: begin_write_def Let_def drain_end_flight tell_def split: option.split)
  then show ?thesis by (simp add: drain_loop_def drain_end_flight split: list.split)
qed

lemma parsed_hooks_fields: "parsed_hooks en w s = s\<lparr>oq_outs := oq_outs (parsed_hooks en w s)\<rparr>"
  by (simp add: parsed_hooks_def Let_def tell_def tell_if_def)

lemma end_replay_fields: "end_replay_depth w s = s\<lparr>oq_depth := oq_depth (end_replay_depth w s), oq_allow := oq_allow (end_replay_depth w s)\<rparr>"
  by (simp add: end_replay_depth_def)

lemma end_replay_inv: "oq_inv (end_replay_depth w s) = oq_inv s"
  by (subst end_replay_fields) (simp add: oq_inv_frame)

lemma parsed_hooks_inv: "oq_inv (parsed_hooks en w s) = oq_inv s"
  by (subst parsed_hooks_fields) (simp add: oq_inv_frame)

lemma settled_fields: "oq_flight (end_replay_depth w (parsed_hooks en w s)) = oq_flight s"
  "oq_gen (end_replay_depth w (parsed_hooks en w s)) = oq_gen s"
  by (simp_all add: end_replay_depth_def parsed_hooks_def Let_def tell_def tell_if_def)

lemma take_applied_drops: "(take_applied en w s)\<lparr>oq_flight := None\<rparr> = (drop_written w s)
    \<lparr>oq_outs := oq_outs (take_applied en w s), oq_batches := oq_batches (take_applied en w s),
     oq_parsed_bytes := oq_parsed_bytes s + sum_len (pw_entries w), oq_applied_entries := oq_applied_entries s + length (pw_entries w)\<rparr>"
  by (simp add: take_applied_def drop_written_def tell_def Let_def split: option.split)

lemma take_applied_inv:
  assumes "oq_inv s" "oq_flight s = Some (Writing d w)" "pw_gen w = oq_gen s"
  shows "oq_inv ((take_applied en w s)\<lparr>oq_flight := None\<rparr>)"
  using drop_written_inv [OF assms] unfolding take_applied_drops by (simp add: oq_inv_frame)

lemma write_settles_inv: "oq_inv s \<Longrightarrow> oq_inv (write_settles en r s)"
proof -
  assume inv: "oq_inv s"
  show ?thesis
  proof (cases "\<exists>d w. oq_flight s = Some (Writing d w)")
    case False
    then have "write_settles en r s = s" by (auto simp: write_settles_def split: option.splits flight.splits)
    then show ?thesis using inv by simp
  next
    case True
    then obtain d w where f: "oq_flight s = Some (Writing d w)" by blast
    let ?t = "end_replay_depth w (parsed_hooks en w s)"
    show ?thesis
    proof (cases "r = Parsed \<and> \<not> oq_closed s \<and> oq_gen s = pw_gen w")
      case True
      have "oq_inv ((take_applied en w ?t)\<lparr>oq_flight := None\<rparr>)"
        by (rule take_applied_inv [of _ d]) (simp_all add: inv f True settled_fields end_replay_inv parsed_hooks_inv)
      then have "oq_inv (drain_loop en d' (try_send_ack en ((take_applied en w ?t)\<lparr>oq_flight := None\<rparr>)))" for d'
        by (intro drain_loop_inv try_ack_inv)
      then show ?thesis using True f by (simp add: write_settles_def try_ack_flight drain_loop_flight)
    next
      case False
      then show ?thesis using inv f
        by (auto simp: write_settles_def drain_end_inv flight_none_inv end_replay_inv)
    qed
  qed
qed

lemma flush_finally_inv: "oq_inv s \<Longrightarrow> oq_inv (flush_finally s)"
  using flight_none_inv(1) [of s] by (simp add: flush_finally_def Let_def oq_inv_frame)

lemma flush_settles_inv: "oq_inv s \<Longrightarrow> oq_inv (flush_settles s)"
  by (auto simp: flush_settles_def flush_caught_def oq_inv_frame oq_inv_failed intro!: flush_finally_inv split: option.split flight.split)

lemma drop_queue_inv: "oq_inv s \<Longrightarrow> oq_flight s = None \<Longrightarrow> oq_inv (drop_queue s)"
  by (cases "oq_queue s"; cases "oq_lost s") (simp_all add: oq_inv_defs drop_queue_def write_fits_def)

lemma drain_start_inv:
  assumes "oq_inv s" "oq_flight s = None"
  shows "oq_inv (drain_start en fo s)"
  using assms drop_queue_inv [OF assms]
  by (auto simp: drain_start_def oq_inv_frame intro!: flight_none_inv(2) try_ack_inv drain_loop_inv)

lemma oq_flush_inv: "oq_inv s \<Longrightarrow> oq_inv (oq_flush en fo s)"
proof -
  assume inv: "oq_inv s"
  have "oq_inv (drain_start en fo (flush_enter fo t))" if "oq_inv t" "oq_flight t = None" for t
    using that by (intro drain_start_inv) (simp_all add: oq_inv_frame flush_enter_def touch_batch_def)
  moreover have "oq_inv (flush_enter fo t) = oq_inv t" for t by (simp add: flush_enter_def oq_inv_frame)
  ultimately show ?thesis using inv by (simp add: oq_flush_def Let_def oq_inv_frame)
qed

lemma discard_inv: "oq_inv s \<Longrightarrow> oq_inv (oq_discard s)"
proof -
  assume inv: "oq_inv s"
  have g: "oq_gen (oq_discard s) = Suc (oq_gen s)" "oq_queue (oq_discard s) = []" "oq_flight (oq_discard s) = oq_flight s"
    by (simp_all add: oq_discard_def tell_def lifecycle_clear_def)
  show ?thesis using inv
    by (auto simp: oq_inv_def queue_ok_def cursors_ok_def order_ok_def reached_def oq_discard_def tell_def lifecycle_clear_def
        restores_below_def write_fits_def split: option.splits flight.splits)
qed

subsection \<open>Every operation keeps the invariant\<close>

lemma turn_inv: "oq_inv s \<Longrightarrow> oq_inv (snd (complete_queue_turn en c q sk ep ch s))"
  by (simp add: complete_queue_turn_def Let_def turn_ack_pending_def oq_inv_frame oq_flush_inv try_ack_inv split: option.split)

lemma replay_from_inv: "oq_inv s \<Longrightarrow> oq_inv (replay_from n ck h s)"
  using discard_inv [of s]
  by (auto simp: oq_inv_def queue_ok_def cursors_ok_def order_ok_def reached_def replay_from_def oq_discard_def tell_def
      lifecycle_clear_def restores_below_def)

lemma restored_inv: "oq_inv s \<Longrightarrow> oq_inv (checkpoint_restored s)"
proof -
  assume inv: "oq_inv s"
  have "oq_inv (s\<lparr>oq_restoring := None\<rparr>)" using inv by (cases "oq_lost s") (simp_all add: oq_inv_defs restores_below_def)
  moreover have "oq_inv (s\<lparr>oq_restoring := None, oq_applied := n\<rparr>)" if "oq_restoring s = Some (n, ep)" "oq_applied s < n" for n ep
  proof -
    show ?thesis
    proof (cases "oq_lost s")
      case True
      then show ?thesis using inv by (simp add: oq_inv_defs)
    next
      case False
    have n: "n \<le> oq_from s" "oq_from s \<le> oq_received s" using inv that(1) False by (simp_all add: oq_inv_def cursors_ok_def restores_below_def)
    then have "max n (oq_from s) = max (oq_applied s) (oq_from s)" using that(2) by simp
    then show ?thesis using inv n by (simp add: oq_inv_defs restores_below_def)
    qed
  qed
  ultimately show ?thesis using inv by (auto simp: checkpoint_restored_def Let_def split: option.split)
qed

lemma begin_batch_inv: "oq_inv s \<Longrightarrow> oq_inv (snd (begin_replay_batch now m s))"
  by (simp add: begin_replay_batch_def oq_inv_frame split: prod.split)

lemma complete_batch_inv: "oq_inv s \<Longrightarrow> oq_inv (snd (complete_replay_batch now s))"
  by (simp add: complete_replay_batch_def oq_inv_frame split: prod.split)

lemma forget_inv: "oq_inv s \<Longrightarrow> oq_inv (forget_cursors s)"
  by (simp add: oq_inv_defs forget_cursors_def)

lemma announced_inv: "oq_inv s \<Longrightarrow> oq_inv (replay_announced n ck h msg s)"
  by (simp add: replay_announced_def Let_def replay_from_inv begin_batch_inv split: option.split prod.split)

lemma oq_inv_env:
  "oq_inv (s\<lparr>oq_turn_cursor := v, oq_turn_sequence := w\<rparr>) = oq_inv s" "oq_inv (s\<lparr>oq_active := n\<rparr>) = oq_inv s"
  "oq_inv (s\<lparr>oq_turn_cursor := v, oq_turn_sequence := w, oq_pending := p, oq_bounds := q, oq_windowed := c\<rparr>) = oq_inv s"
  "oq_inv (s\<lparr>oq_epoch := k, oq_channel := l, oq_unified := c, oq_socket := sk\<rparr>) = oq_inv s"
  "oq_inv (s\<lparr>oq_socket := sk, oq_unified := c, oq_channel := l\<rparr>) = oq_inv s"
  "oq_inv (s\<lparr>oq_tracking := c, oq_history := h\<rparr>) = oq_inv s" "oq_inv (s\<lparr>oq_committed := c, oq_allow := a\<rparr>) = oq_inv s"
  "oq_inv (s\<lparr>oq_resizing := c, oq_settling := a\<rparr>) = oq_inv s" "oq_inv (s\<lparr>oq_closed := c\<rparr>) = oq_inv s"
  "oq_inv (s\<lparr>oq_remote := c\<rparr>) = oq_inv s" "oq_inv (s\<lparr>oq_committed := c\<rparr>) = oq_inv s"
  "oq_inv (s\<lparr>oq_reset_next := c, oq_completing := a\<rparr>) = oq_inv s" "oq_inv (s\<lparr>oq_socket := None\<rparr>) = oq_inv s"
  by (simp_all add: oq_inv_defs)

lemma clear_overload_inv: "oq_inv s \<Longrightarrow> oq_inv (clear_overload s)"
  by (simp add: oq_inv_defs clear_overload_def)

lemma immediate_inv: "oq_inv s \<Longrightarrow> oq_inv (snd (write_immediate en d s))"
  using write_inv [of s True False d] by (auto simp: write_immediate_def oq_flush_inv split: prod.split)

lemma unrestored_inv: "oq_inv s \<Longrightarrow> oq_inv (s\<lparr>oq_restoring := None\<rparr>)"
  by (cases "oq_lost s") (simp_all add: oq_inv_defs restores_below_def)

lemma oq_inv_step: "oq_inv s \<Longrightarrow> oq_inv (oq_step s e)"
proof (cases e)
  case (OqNoteFrame c q)
  assume "oq_inv s"
  then show ?thesis by (simp add: OqNoteFrame note_turn_frame_def oq_inv_env)
qed (simp_all add: write_inv immediate_inv oq_flush_inv oq_inv_frame oq_inv_env write_settles_inv flush_settles_inv discard_inv turn_inv
    try_ack_inv announced_inv forget_inv unrestored_inv complete_batch_inv clear_overload_inv restored_inv
    reset_queue_turn_def replay_received_def dispose_output_session_def dispose_output_def open_gate_def fence_drain_def Let_def)

interpretation oqm: invariant_machine oq_step oq_inv
  by standard (rule oq_inv_step)

abbreviation oq_run :: "string \<Rightarrow> string \<Rightarrow> oq_op list \<Rightarrow> oq" where
  "oq_run selector pane ops \<equiv> foldl oq_step (oq_start selector pane) ops"

lemma oq_run_inv: "oq_inv (oq_run selector pane ops)"
  by (rule oqm.inv_run [OF oq_start_inv])

text \<open>
  C5. Whatever is written, in whatever slices, with writes arriving while the parser works and drains cut
  short by budgets, resize gates and new streams: unless a drain dropped the queue, what the parser has
  confirmed followed by what is queued is what was accepted, in order; the confirmed bytes of the
  history are those from the cursor the queue was last discarded at to the applied cursor, each once;
  and the queued ones are those from there to the received cursor.
\<close>

theorem output_is_parsed_in_order:
  "case oq_run selector pane ops of s \<Rightarrow> if oq_gap s then True else
     oq_parsed s @ queue_units (oq_queue s) = oq_taken s
     \<and> positions (oq_parsed s) = [oq_from s ..< reached s]
     \<and> positions (queue_units (oq_queue s)) = [reached s ..< oq_received s]"
proof -
  let ?s = "oq_run selector pane ops"
  have inv: "order_ok ?s" "list_all (entry_ok (oq_gen ?s)) (oq_queue ?s)"
    using oq_run_inv [of selector pane ops] by (simp_all add: oq_inv_def queue_ok_def)
  have "positions (queue_units (oq_queue ?s)) = [reached ?s ..< oq_received ?s]" if "\<not> oq_gap ?s"
    using inv that by (intro chain_positions) (simp_all add: order_ok_def)
  then show ?thesis using inv(1) by (auto simp: order_ok_def)
qed

text \<open>The queue never holds more than four mebibytes or 8192 entries, and its size is what its entries add up to.\<close>

theorem output_queue_bounded:
  "case oq_run selector pane ops of s \<Rightarrow> oq_size s \<le> 4 * 1024 * 1024 \<and> length (oq_queue s) \<le> 8192
     \<and> oq_size s = sum_list (map (\<lambda>e. output_byte_length (oe_data e)) (oq_queue s)) \<and> list_all (\<lambda>e. 0 < output_byte_length (oe_data e)) (oq_queue s)"
proof -
  let ?s = "oq_run selector pane ops"
  have q: "queue_ok ?s" using oq_run_inv [of selector pane ops] by (simp add: oq_inv_def)
  then have ok: "list_all (entry_ok (oq_gen ?s)) (oq_queue ?s)" by (simp add: queue_ok_def)
  have "sum_len es = sum_list (map (\<lambda>e. output_byte_length (oe_data e)) es) \<and> list_all (\<lambda>e. 0 < output_byte_length (oe_data e)) es"
    if "list_all (entry_ok g) es" for g es
    using that by (induction es) (auto simp: entry_ok_def)
  from this [OF ok] q show ?thesis by (simp add: queue_ok_def max_queued_bytes_def max_queued_entries_def)
qed

lemma due_ack_reached: "\<lbrakk>due_ack s = Some p; oq_windowed s\<rbrakk> \<Longrightarrow> ta_cursor p \<le> oq_applied s"
proof -
  assume "due_ack s = Some p" "oq_windowed s"
  then have "p \<in> set (reached_bounds s)" by (auto simp: due_ack_def split: if_splits)
  then show ?thesis unfolding reached_bounds_def by (blast dest: set_takeWhileD)
qed

lemma try_ack_cases: "try_send_ack en s = s
   \<or> (\<exists>p. due_ack s = Some p \<and> ack_current s p \<and> (if oq_windowed s then ta_cursor p \<le> oq_applied s else oq_size s = 0 \<and> ta_cursor p = oq_applied s)
      \<and> (try_send_ack en s = tell AckFailed (s\<lparr>oq_pending := None, oq_bounds := []\<rparr>) \<or> try_send_ack en s = ack_sent p s))"
proof (cases "due_ack s")
  case (Some p)
  then show ?thesis using due_ack_reached [OF Some] by (auto simp: try_send_ack_def)
qed (simp add: try_send_ack_def)

lemma ack_sent_outs: "oq_outs (ack_sent p s) = oq_outs s @ [AckSent (ta_cursor p) (ta_sequence p)]"
  by (simp add: ack_sent_def tell_def Let_def)

text \<open>
  What an operation adds to the outputs. An acknowledgement fits the state that follows when its cursor was applied; \<open>tells\<close>:
  the operation leaves alone what that depends on; \<open>silent\<close>: it acknowledges nothing.
\<close>

definition ack_fits :: "oq \<Rightarrow> oq_out \<Rightarrow> bool" where
  "ack_fits t x = (case x of AckSent c q \<Rightarrow> if oq_windowed t then c \<le> oq_applied t else oq_size t = 0 \<and> c = oq_applied t | _ \<Rightarrow> True)"

definition no_ack :: "oq_out \<Rightarrow> bool" where
  "no_ack x = (case x of AckSent c q \<Rightarrow> False | _ \<Rightarrow> True)"

definition says :: "oq \<Rightarrow> oq \<Rightarrow> bool" where
  "says s t = (\<exists>new. oq_outs t = oq_outs s @ new \<and> list_all (ack_fits t) new)"

definition tells :: "oq \<Rightarrow> oq \<Rightarrow> bool" where
  "tells s t = (says s t \<and> oq_applied t = oq_applied s \<and> oq_windowed t = oq_windowed s \<and> (oq_size s = 0 \<longrightarrow> oq_size t = 0))"

definition silent :: "oq \<Rightarrow> oq \<Rightarrow> bool" where
  "silent s t = (\<exists>new. oq_outs t = oq_outs s @ new \<and> list_all no_ack new)"

lemma no_ack_simps [simp]: "no_ack (AckSent c q) = False" "no_ack ContentAdvanced" "no_ack (TermWrite b d)" "no_ack (LiveOutput d)"
  "no_ack RenderCancelled" "no_ack (MarkApplied n)" "no_ack ViewportReset" "no_ack ValidationScheduled" "no_ack RenderRequested"
  "no_ack CheckpointScheduled" "no_ack SuppressionArmed" "no_ack ResizeNoted" "no_ack FinishReplay" "no_ack HoldBegun"
  "no_ack ProcessingError" "no_ack AckFailed" "no_ack DiscardNoted"
  by (simp_all add: no_ack_def)

lemma silent_same: "oq_outs t = oq_outs s \<Longrightarrow> silent s t"
  by (simp add: silent_def)

lemma silent_trans: "\<lbrakk>silent s t; silent t u\<rbrakk> \<Longrightarrow> silent s u"
  by (auto simp: silent_def)

lemma silent_tell: "\<lbrakk>silent s t; no_ack x\<rbrakk> \<Longrightarrow> silent s (tell x t)" "\<lbrakk>silent s t; no_ack x\<rbrakk> \<Longrightarrow> silent s (tell_if b x t)"
  by (auto simp: silent_def tell_def tell_if_def)

lemma silent_says: "silent s t \<Longrightarrow> says s t"
  by (auto simp: silent_def says_def list_all_iff ack_fits_def no_ack_def split: oq_out.splits)

lemma silent_tells: "\<lbrakk>silent s t; oq_applied t = oq_applied s; oq_windowed t = oq_windowed s; oq_size s = 0 \<longrightarrow> oq_size t = 0\<rbrakk> \<Longrightarrow> tells s t"
  by (simp add: tells_def silent_says)

lemma tells_refl: "tells s s"
  by (simp add: silent_tells silent_same)

lemma tells_trans: "\<lbrakk>tells s t; tells t u\<rbrakk> \<Longrightarrow> tells s u"
proof -
  assume a: "tells s t" "tells t u"
  have "ack_fits u x" if "ack_fits t x" for x using that a(2) by (auto simp: ack_fits_def tells_def split: oq_out.splits if_splits)
  then have "list_all (ack_fits u) xs" if "list_all (ack_fits t) xs" for xs using that by (auto simp: list_all_iff)
  then show "tells s u" using a unfolding tells_def says_def by (metis append.assoc list_all_append)
qed

lemma silent_then: "\<lbrakk>silent s t; tells t u\<rbrakk> \<Longrightarrow> says s u"
proof -
  assume a: "silent s t" "tells t u"
  obtain new more where o: "oq_outs t = oq_outs s @ new" "list_all no_ack new" "oq_outs u = oq_outs t @ more" "list_all (ack_fits u) more"
    using a unfolding silent_def tells_def says_def by blast
  have "list_all (ack_fits u) new" using o(2) by (auto simp: list_all_iff ack_fits_def no_ack_def split: oq_out.splits)
  then show "says s u" using o unfolding says_def by (intro exI [of _ "new @ more"]) simp
qed

lemma tells_says: "tells s t \<Longrightarrow> says s t"
  by (simp add: tells_def)

lemma tells_try_ack: "tells s (try_send_ack en s)"
  using try_ack_cases [of en s]
proof (elim disjE exE conjE)
  fix p
  assume p: "if oq_windowed s then ta_cursor p \<le> oq_applied s else oq_size s = 0 \<and> ta_cursor p = oq_applied s"
    and t: "try_send_ack en s = ack_sent p s"
  have f: "oq_applied (ack_sent p s) = oq_applied s" "oq_windowed (ack_sent p s) = oq_windowed s" "oq_size (ack_sent p s) = oq_size s"
    by (simp_all add: ack_sent_def tell_def Let_def)
  have "ack_fits (ack_sent p s) (AckSent (ta_cursor p) (ta_sequence p))" using p by (simp add: ack_fits_def f)
  then show ?thesis unfolding t tells_def says_def ack_sent_outs by (simp add: f)
next
  fix p
  assume t: "try_send_ack en s = tell AckFailed (s\<lparr>oq_pending := None, oq_bounds := []\<rparr>)"
  show ?thesis unfolding t by (rule silent_tells) (simp_all add: silent_def tell_def)
qed (simp add: tells_refl)

lemma silent_small:
  "silent s (lifecycle_clear s)" "silent s (lifecycle_schedule s)" "silent s (schedule_flush s)" "silent s (touch_batch s)" "silent s (handle_overload s)"
  "silent s (flush_enter fo s)" "silent s (drop_queue s)" "silent s (end_replay_depth w s)"
  by (simp_all add: lifecycle_clear_def lifecycle_schedule_def schedule_flush_def touch_batch_def handle_overload_def flush_enter_def drop_queue_def
      end_replay_depth_def silent_same silent_tell)

lemma tells_small:
  "tells s (lifecycle_clear s)" "tells s (lifecycle_schedule s)" "tells s (schedule_flush s)" "tells s (touch_batch s)" "tells s (handle_overload s)"
  "tells s (flush_enter fo s)" "tells s (drop_queue s)" "tells s (s\<lparr>oq_flight := f\<rparr>)" "tells s (s\<lparr>oq_block := b\<rparr>)"
proof -
  have f: "oq_applied (handle_overload s) = oq_applied s" "oq_windowed (handle_overload s) = oq_windowed s" "oq_size (handle_overload s) = oq_size s"
    by (simp_all add: handle_overload_def tell_def lifecycle_clear_def)
  show "tells s (handle_overload s)" by (rule silent_tells) (simp_all add: silent_small f)
qed (rule silent_tells; simp add: silent_def lifecycle_clear_def lifecycle_schedule_def schedule_flush_def touch_batch_def flush_enter_def drop_queue_def)+

lemma tells_tell: "no_ack x \<Longrightarrow> tells s (tell x s)" "no_ack x \<Longrightarrow> tells s (tell_if b x s)"
proof -
  assume x: "no_ack x"
  show 1: "tells s (tell x s)" by (rule silent_tells) (simp_all add: silent_tell silent_same x, simp_all add: tell_def)
  show "tells s (tell_if b x s)" using 1 tells_refl by (simp add: tell_if_def)
qed

lemma tells_drain_end: "tells s (drain_end en d s)"
proof -
  let ?s1 = "if dr_wrote d then tell (if oq_committed s \<and> en_render en then RenderRequested else ValidationScheduled) (tell ViewportReset s) else s"
  let ?s2 = "try_send_ack en (tell_if (dr_wrote d \<and> dr_replayed d) CheckpointScheduled ?s1)"
  let ?s3 = "if 0 < oq_size ?s2 \<and> dr_remainder d \<and> \<not> oq_block ?s2 then lifecycle_schedule ?s2 else tell FinishReplay ?s2"
  have "tells s ?s1" by (simp add: tells_refl tells_trans [OF tells_tell(1) tells_tell(1)])
  then have "tells s ?s2" by (rule tells_trans [OF tells_trans [OF _ tells_tell(2)] tells_try_ack]) simp
  moreover have "tells ?s2 ?s3" by (simp add: tells_small tells_tell)
  ultimately have "tells s ?s3" by (rule tells_trans)
  then have "tells s (?s3\<lparr>oq_flight := f\<rparr>)" for f by (rule tells_trans [OF _ tells_small(8)])
  then show ?thesis unfolding drain_end_def Let_def using tells_small(8) by simp
qed

lemma tells_begin_write: "tells s (begin_write en d es s)"
proof -
  have 1: "tells s ((tell (TermWrite r x) s)\<lparr>oq_flight := f\<rparr>)" for r x f
    by (rule tells_trans [OF tells_tell(1) tells_small(8)]) simp
  have "tells s ((tell SuppressionArmed (s\<lparr>oq_allow := a\<rparr>))\<lparr>oq_depth := k\<rparr>)" for a k
    by (rule silent_tells) (simp_all add: silent_def tell_def)
  then have 2: "tells s ((tell (TermWrite r x) ((tell SuppressionArmed (s\<lparr>oq_allow := a\<rparr>))\<lparr>oq_depth := k\<rparr>))\<lparr>oq_flight := f\<rparr>)" for r x a k f
    by (rule tells_trans [OF tells_trans [OF _ tells_tell(1)] tells_small(8)]) simp
  show ?thesis using 1 2 by (simp add: begin_write_def Let_def tells_small tells_drain_end split: option.split)
qed

lemma tells_drain_loop: "tells s (drain_loop en d s)"
  by (simp add: drain_loop_def tells_drain_end tells_begin_write split: list.split)

lemma tells_drain_start: "tells s (drain_start en fo s)"
proof -
  have 1: "tells s ((try_send_ack en (tell FinishReplay s))\<lparr>oq_flight := f\<rparr>)" for f
    by (rule tells_trans [OF tells_trans [OF tells_tell(1) tells_try_ack] tells_small(8)]) simp
  have "tells s ((drop_queue s)\<lparr>oq_reset_next := True\<rparr>)" by (rule silent_tells) (simp_all add: drop_queue_def silent_same)
  then have 2: "tells s ((tell FinishReplay (tell HoldBegun ((drop_queue s)\<lparr>oq_reset_next := True\<rparr>)))\<lparr>oq_flight := f\<rparr>)" for f
    by (rule tells_trans [OF tells_trans [OF tells_trans [OF _ tells_tell(1)] tells_tell(1)] tells_small(8)]) simp_all
  have 3: "tells s ((drop_queue s)\<lparr>oq_flight := f\<rparr>)" for f by (rule tells_trans [OF tells_small(7) tells_small(8)])
  have 4: "tells s ((if b then schedule_flush s else s)\<lparr>oq_flight := f\<rparr>)" for b f
    by (rule tells_trans [OF _ tells_small(8)]) (simp add: tells_small tells_refl)
  show ?thesis unfolding drain_start_def using 1 2 3 4 tells_drain_loop by presburger
qed

lemma tells_flush: "tells s (oq_flush en fo s)"
proof -
  let ?s = "lifecycle_clear s"
  let ?s1 = "flush_enter fo ?s"
  have c: "tells s ?s" by (rule tells_small(1))
  have 1: "tells s ?s1" by (rule tells_trans [OF c tells_small(6)])
  have 2: "tells s (schedule_flush ?s1)" by (rule tells_trans [OF 1 tells_small(3)])
  have 3: "tells s (drain_start en fo ?s1)" by (rule tells_trans [OF 1 tells_drain_start])
  show ?thesis unfolding oq_flush_def Let_def using c 1 2 3 tells_refl by presburger
qed

lemma silent_enqueue: "silent s (snd (enqueue_pieces tpl burst start ds s))"
proof (induction ds arbitrary: start s)
  case (Cons d ds)
  have "silent s (push_entry e s)" for e by (simp add: push_entry_def silent_same)
  then show ?case using Cons silent_trans by (simp add: Let_def silent_small) blast
qed (simp add: silent_same)

lemma silent_write: "silent s (snd (oq_write local_output deferred d s))"
proof -
  let ?s1 = "touch_batch (tell_if (oq_settling s) ResizeNoted s)"
  have 1: "silent s ?s1" by (rule silent_trans [OF silent_tell(2) [OF silent_same] silent_small(4)]) simp_all
  have "silent u (snd (after_write (ok, u)))" for ok u
    by (simp add: after_write_def silent_small silent_same silent_trans [OF silent_small(4) silent_small(3)])
  then have "silent u (snd (after_write r))" if "snd r = u" for r u using that by (metis prod.collapse)
  then have "silent s (snd (after_write r))" if "silent s (snd r)" for r using that silent_trans by blast
  then have "silent s (snd (after_write (enqueue_pieces tpl burst start ds ?s1)))" for tpl burst start ds
    using silent_trans [OF 1 silent_enqueue] by blast
  then show ?thesis by (simp add: oq_write_def Let_def silent_same silent_small)
qed

lemma says_immediate: "says s (snd (write_immediate en d s))"
proof -
  obtain ok s1 where w: "oq_write True False d s = (ok, s1)" by force
  then have "silent s s1" using silent_write [of s True False d] by simp
  then show ?thesis using silent_then tells_flush silent_says by (simp add: write_immediate_def w)
qed

lemma silent_hooks: "silent s (parsed_hooks en w s)"
  by (simp add: parsed_hooks_def Let_def silent_tell silent_same)

lemma silent_take: "silent s (take_applied en w s)"
  by (simp add: take_applied_def Let_def silent_tell silent_same split: option.split)

lemma says_write_settles: "says s (write_settles en r s)"
proof (cases "oq_flight s")
  case (Some f)
  show ?thesis
  proof (cases f)
    case (Writing d w)
    have 1: "silent s (end_replay_depth w s)" by (rule silent_small)
    have "silent s (take_applied en w (end_replay_depth w (parsed_hooks en w s)))"
      by (rule silent_trans [OF silent_trans [OF silent_hooks silent_small(8)] silent_take])
    then have 2: "says s (drain_loop en d' (try_send_ack en (take_applied en w (end_replay_depth w (parsed_hooks en w s)))))" for d'
      by (rule silent_then [OF _ tells_trans [OF tells_try_ack tells_drain_loop]])
    have 3: "says s (drain_end en d (end_replay_depth w s))" by (rule silent_then [OF 1 tells_drain_end])
    have 4: "says s ((end_replay_depth w s)\<lparr>oq_flight := g\<rparr>)" for g by (rule silent_then [OF 1 tells_small(8)])
    show ?thesis using Some Writing 2 3 4 by (simp add: write_settles_def)
  qed (use Some in \<open>simp_all add: write_settles_def silent_says silent_same\<close>)
qed (simp add: write_settles_def silent_says silent_same)

lemma silent_flush_settles: "silent s (flush_settles s)"
proof -
  have f: "silent s (flush_finally s)" for s
    by (simp add: flush_finally_def Let_def silent_same) (simp add: schedule_flush_def lifecycle_schedule_def touch_batch_def silent_same)
  have "silent s (flush_caught c g s)" for c g
    by (simp add: flush_caught_def silent_same silent_tell lifecycle_clear_def)
  then have "silent s (flush_finally (flush_caught c g s))" for c g using f silent_trans by blast
  then show ?thesis using f by (simp add: flush_settles_def silent_same split: option.split flight.split)
qed

lemma says_turn: "says s (snd (complete_queue_turn en c q sk ep ch s))"
proof -
  have "says s (snd (turn_ack_pending en p s))" for p
  proof -
    let ?s1 = "s\<lparr>oq_pending := Some p, oq_bounds := (if oq_windowed s then oq_bounds s @ [p] else oq_bounds s)\<rparr>"
    have "silent s (touch_batch ?s1)" by (simp add: touch_batch_def silent_same)
    then have "says s (try_send_ack en (oq_flush en fo (touch_batch ?s1)))" for fo
      by (rule silent_then [OF _ tells_trans [OF tells_flush tells_try_ack]])
    then show ?thesis by (simp add: turn_ack_pending_def Let_def silent_says silent_same)
  qed
  then show ?thesis by (simp add: complete_queue_turn_def Let_def silent_says silent_same split: option.split)
qed

lemma silent_discard: "silent s (oq_discard s)"
  by (simp add: oq_discard_def silent_tell silent_same lifecycle_clear_def)

lemma silent_announced: "silent s (replay_announced n ck h msg s)"
proof -
  have 1: "silent s (replay_from n ck h s)" using silent_discard [of s] by (simp add: replay_from_def silent_def)
  have "silent u (snd (begin_replay_batch now m u))" for now m u by (simp add: begin_replay_batch_def silent_same split: prod.split)
  then have "silent s (snd (begin_replay_batch now m (replay_from n ck h s)))" for now m by (rule silent_trans [OF 1])
  then show ?thesis using 1 by (simp add: replay_announced_def Let_def split: option.split)
qed

lemma says_received: "says s (replay_received en finished s)"
proof -
  let ?s1 = "snd (complete_replay_batch (en_now en) s)"
  have "silent s ?s1" by (simp add: complete_replay_batch_def silent_same split: prod.split)
  then show ?thesis using silent_then [OF _ tells_flush] silent_says by (simp add: replay_received_def Let_def)
qed

lemma says_step: "says s (oq_step s e)"
proof -
  have d: "silent s (lifecycle_clear ((oq_discard s)\<lparr>oq_disposed := True\<rparr>))" for s
    using silent_discard [of s] by (simp add: lifecycle_clear_def silent_def)
  have fence: "tells s (fence_drain en n s)" for en n unfolding fence_drain_def by (rule tells_trans [OF tells_small(9) tells_flush])
  have wake: "tells s (oq_flush en fo (lifecycle_clear s))" for en fo by (rule tells_trans [OF tells_small(1) tells_flush])
  show ?thesis
  proof (cases e)
    case (OqNoteFrame c q)
    then show ?thesis by (simp add: note_turn_frame_def silent_says silent_same)
  next
    case OqDispose
    have "silent s (s\<lparr>oq_gone := True\<rparr>)" by (rule silent_same) simp
    then have "silent s (lifecycle_clear ((oq_discard (s\<lparr>oq_gone := True\<rparr>))\<lparr>oq_disposed := True\<rparr>))" by (rule silent_trans [OF _ d])
    then show ?thesis using OqDispose by (simp add: dispose_output_def Let_def silent_says silent_same)
  next
    case OqOpenGate
    have "silent s (schedule_flush (s\<lparr>oq_block := False\<rparr>))" by (rule silent_trans [OF silent_same silent_small(3)]) simp
    then show ?thesis using OqOpenGate by (simp add: open_gate_def Let_def silent_says silent_same)
  next
    case OqRestored
    then show ?thesis by (auto simp: checkpoint_restored_def Let_def intro!: silent_says silent_same split: option.split)
  qed (simp_all add: says_immediate says_write_settles says_turn says_received tells_says tells_flush tells_try_ack fence wake d silent_says silent_write silent_small
      silent_flush_settles silent_discard silent_announced silent_same reset_queue_turn_def clear_overload_def dispose_output_session_def forget_cursors_def)
qed

text \<open>
  C8. A queue turn is acknowledged only for output the parser has confirmed: whichever operation acknowledges one, in any
  state that is reached, the acknowledged cursor is not past the applied one, outside the windowed mode it is the applied
  one and nothing is queued, and every byte of the history from the cursor of the last discard up to it has been parsed, unless
  a drain has dropped part of the queue (\<open>oq_gap\<close>).
\<close>

theorem acknowledged_output_is_parsed:
  "case oq_run selector pane ops of s \<Rightarrow> (case oq_step s op of t \<Rightarrow>
     take (length (oq_outs s)) (oq_outs t) = oq_outs s
     \<and> list_all (\<lambda>x. case x of
          AckSent cursor sequence \<Rightarrow> (if oq_windowed t then cursor \<le> oq_applied t else oq_size t = 0 \<and> cursor = oq_applied t)
            \<and> (if oq_gap t then True else {oq_from t ..< cursor} \<subseteq> set (positions (oq_parsed t)))
        | _ \<Rightarrow> True) (drop (length (oq_outs s)) (oq_outs t)))"
proof -
  let ?s = "oq_run selector pane ops"
  let ?t = "oq_step ?s op"
  have "order_ok ?t" using oq_inv_step [OF oq_run_inv, of selector pane ops op] by (simp add: oq_inv_def)
  then have covered: "{oq_from ?t ..< c} \<subseteq> set (positions (oq_parsed ?t))" if "\<not> oq_gap ?t" "c \<le> oq_applied ?t" for c
    using that by (auto simp: order_ok_def reached_def)
  obtain new where new: "oq_outs ?t = oq_outs ?s @ new" "list_all (ack_fits ?t) new" using says_step [of ?s op] unfolding says_def by blast
  have "case x of AckSent cursor sequence \<Rightarrow> (if oq_windowed ?t then cursor \<le> oq_applied ?t else oq_size ?t = 0 \<and> cursor = oq_applied ?t)
            \<and> (if oq_gap ?t then True else {oq_from ?t ..< cursor} \<subseteq> set (positions (oq_parsed ?t))) | _ \<Rightarrow> True" if "ack_fits ?t x" for x
    using that covered by (auto simp: ack_fits_def split: oq_out.splits if_splits)
  then show ?thesis using new by (auto simp: list_all_iff)
qed

subsection \<open>Queued output keeps moving\<close>

definition moving :: "oq \<Rightarrow> bool" where
  "moving s = (0 < oq_size s \<and> \<not> oq_gone s \<and> \<not> oq_closed s \<and> \<not> oq_disposed s \<and> \<not> oq_failed s \<and> \<not> oq_block s
     \<and> \<not> batch_waiting s \<and> list_all (\<lambda>e. oe_epoch e = oq_epoch s) (oq_queue s) \<longrightarrow> oq_flight s \<noteq> None \<or> oq_due s)"

definition epochs_ok :: "oq \<Rightarrow> bool" where
  "epochs_ok s = list_all (\<lambda>e. oe_epoch e \<le> oq_epoch s) (oq_queue s)"

definition waits :: "nat \<Rightarrow> nat \<Rightarrow> batch option \<Rightarrow> bool" where
  "waits g ep b = (case b of None \<Rightarrow> False | Some t \<Rightarrow> bt_waiting t \<and> bt_generation t = g \<and> bt_epoch t = ep)"

lemma batch_waiting_eq: "batch_waiting s = waits (oq_gen s) (oq_epoch s) (bb_batch (oq_batches s))"
  by (auto simp: batch_waiting_def live_batch_def oq_view_def batch_get_def waits_def split: option.split)

lemma batch_waiting_frame:
  "batch_waiting (tell x s) = batch_waiting s" "batch_waiting (touch_batch s) = batch_waiting s"
  "batch_waiting (lifecycle_clear s) = batch_waiting s" "batch_waiting (schedule_flush s) = batch_waiting s"
  "batch_waiting (tell_if b x s) = batch_waiting s"
  by (auto simp: batch_waiting_def live_batch_def oq_view_def batch_get_def tell_def tell_if_def touch_batch_def lifecycle_clear_def
      schedule_flush_def lifecycle_schedule_def split: option.splits)

lemma schedule_moving: "moving (schedule_flush s)"
  by (simp add: moving_def schedule_flush_def lifecycle_schedule_def)

lemma flight_moving: "oq_flight s \<noteq> None \<Longrightarrow> moving s"
  by (simp add: moving_def)

lemma gated_moving: "batch_waiting s \<or> oq_block s \<Longrightarrow> moving s"
  by (auto simp: moving_def)

lemma drain_end_flying: "oq_flight (drain_end en d s) = Some Ending"
  by (simp add: drain_end_def Let_def)

lemma drain_loop_flying: "oq_flight (drain_loop en d s) \<noteq> None"
  by (simp add: drain_loop_def begin_write_def drain_end_flying Let_def split: list.split option.split)

lemma drain_start_flying: "oq_flight (drain_start en fo s) \<noteq> None"
  using drain_loop_flying [of en "new_drain fo s" s] by (auto simp: drain_start_def)

lemma flush_moving:
  assumes a: "fo_remainder fo \<or> oq_block s"
  shows "moving (oq_flush en fo s)"
proof (cases "oq_gone s \<or> oq_closed s \<or> oq_failed s \<or> oq_flight s \<noteq> None")
  case True
  then show ?thesis by (auto simp: oq_flush_def moving_def Let_def lifecycle_clear_def)
next
  case alive: False
  define t where "t = flush_enter fo (lifecycle_clear s)"
  have b: "oq_block t = oq_block s" by (simp add: t_def flush_enter_def touch_batch_def lifecycle_clear_def)
  have f: "oq_flight (lifecycle_clear s) = None" using alive by (simp add: lifecycle_clear_def)
  have e: "oq_flush en fo s = (if batch_waiting t \<or> \<not> fo_force fo \<and> oq_block t then t
      else if \<not> en_turn en then (if fo_remainder fo then schedule_flush t else t) else drain_start en fo t)"
    using alive f by (simp add: oq_flush_def Let_def t_def)
  show ?thesis unfolding e
    using a b gated_moving [of t] schedule_moving [of t] flight_moving [OF drain_start_flying [of en fo t]] by auto
qed

text \<open>The fields a drain's round can change.\<close>

lemma try_ack_fields: "try_send_ack en s = s\<lparr>oq_pending := oq_pending (try_send_ack en s), oq_bounds := oq_bounds (try_send_ack en s),
    oq_outs := oq_outs (try_send_ack en s)\<rparr>"
  using try_ack_cases [of en s] by (elim disjE exE conjE) (simp_all add: tell_def ack_sent_def Let_def)

definition oq_core :: "oq \<Rightarrow> oq" where
  "oq_core s = s\<lparr>oq_pending := None, oq_bounds := [], oq_outs := [], oq_due := False, oq_flight := None, oq_allow := False, oq_depth := 0\<rparr>"

lemma core_fields:
  assumes "oq_core t = oq_core s"
  shows "oq_queue t = oq_queue s" "oq_size t = oq_size s" "oq_gen t = oq_gen s" "oq_failed t = oq_failed s" "oq_closed t = oq_closed s"
    "oq_disposed t = oq_disposed s" "oq_gone t = oq_gone s" "oq_name t = oq_name s" "oq_active t = oq_active s" "oq_pane t = oq_pane s"
    "oq_epoch t = oq_epoch s" "oq_channel t = oq_channel s" "oq_history t = oq_history s" "oq_block t = oq_block s"
    "oq_batches t = oq_batches s" "oq_remote t = oq_remote s" "oq_applied t = oq_applied s" "oq_batch_no t = oq_batch_no s"
    "oq_gap t = oq_gap s" "oq_taken t = oq_taken s" "oq_parsed t = oq_parsed s" "oq_from t = oq_from s"
    using arg_cong [OF assms, of oq_queue] arg_cong [OF assms, of oq_size] arg_cong [OF assms, of oq_gen]
    arg_cong [OF assms, of oq_failed] arg_cong [OF assms, of oq_closed] arg_cong [OF assms, of oq_disposed]
    arg_cong [OF assms, of oq_gone] arg_cong [OF assms, of oq_name] arg_cong [OF assms, of oq_active] arg_cong [OF assms, of oq_pane]
    arg_cong [OF assms, of oq_epoch] arg_cong [OF assms, of oq_channel] arg_cong [OF assms, of oq_history] arg_cong [OF assms, of oq_block]
    arg_cong [OF assms, of oq_batches] arg_cong [OF assms, of oq_remote] arg_cong [OF assms, of oq_applied] arg_cong [OF assms, of oq_batch_no]
    arg_cong [OF assms, of oq_gap] arg_cong [OF assms, of oq_taken] arg_cong [OF assms, of oq_parsed] arg_cong [OF assms, of oq_from]
  by (simp_all add: oq_core_def)

lemma core_simps [simp]:
  "oq_core (s\<lparr>oq_flight := fl\<rparr>) = oq_core s" "oq_core (s\<lparr>oq_outs := os\<rparr>) = oq_core s" "oq_core (s\<lparr>oq_due := du\<rparr>) = oq_core s"
  "oq_core (s\<lparr>oq_allow := al\<rparr>) = oq_core s" "oq_core (s\<lparr>oq_depth := de\<rparr>) = oq_core s"
  "oq_core (s\<lparr>oq_pending := pn\<rparr>) = oq_core s" "oq_core (s\<lparr>oq_bounds := bd\<rparr>) = oq_core s"
  by (simp_all add: oq_core_def)

lemma core_small [simp]:
  "oq_core (tell x s) = oq_core s" "oq_core (tell_if b x s) = oq_core s" "oq_core (lifecycle_schedule s) = oq_core s"
  "oq_core (schedule_flush s) = oq_core s" "oq_core (lifecycle_clear s) = oq_core s" "oq_core (end_replay_depth w s) = oq_core s"
  by (simp_all add: tell_def tell_if_def lifecycle_schedule_def schedule_flush_def lifecycle_clear_def end_replay_depth_def)

lemma core_hooks [simp]: "oq_core (parsed_hooks en w s) = oq_core s"
  by (subst parsed_hooks_fields) simp

lemma core_try_ack [simp]: "oq_core (try_send_ack en s) = oq_core s"
  by (subst try_ack_fields) simp

lemma core_drain_end [simp]: "oq_core (drain_end en d s) = oq_core s"
  by (simp add: drain_end_def Let_def)

lemma core_drain_loop [simp]: "oq_core (drain_loop en d s) = oq_core s"
proof -
  have "oq_core (begin_write en d es s) = oq_core s" for es
    by (simp add: begin_write_def Let_def split: option.split)
  then show ?thesis by (simp add: drain_loop_def split: list.split)
qed

lemma batch_waiting_core: "oq_core t = oq_core s \<Longrightarrow> batch_waiting t = batch_waiting s"
  using core_fields [of t s] by (simp add: batch_waiting_def live_batch_def oq_view_def)

lemma epochs_shrink: "\<lbrakk>epochs_ok s; set (oq_queue t) \<subseteq> set (oq_queue s); oq_epoch s \<le> oq_epoch t\<rbrakk> \<Longrightarrow> epochs_ok t"
  by (fastforce simp: epochs_ok_def list_all_iff)

lemma epochs_core: "oq_core t = oq_core s \<Longrightarrow> epochs_ok t = epochs_ok s"
  using core_fields [of t s] by (simp add: epochs_ok_def)

lemma epochs_same: "oq_queue t = oq_queue s \<Longrightarrow> oq_epoch t = oq_epoch s \<Longrightarrow> epochs_ok t = epochs_ok s"
  by (simp add: epochs_ok_def)

lemma touch_fields [simp]: "oq_queue (touch_batch s) = oq_queue s" "oq_epoch (touch_batch s) = oq_epoch s" "oq_size (touch_batch s) = oq_size s"
  "oq_flight (touch_batch s) = oq_flight s" "oq_block (touch_batch s) = oq_block s"
  by (simp_all add: touch_batch_def)

lemma enter_fields [simp]: "oq_queue (flush_enter fo s) = oq_queue s" "oq_epoch (flush_enter fo s) = oq_epoch s"
  by (simp_all add: flush_enter_def)

lemma epochs_drain_start: "epochs_ok s \<Longrightarrow> epochs_ok (drain_start en fo s)"
proof -
  assume s: "epochs_ok s"
  have d: "epochs_ok (drop_queue s)" using s by (simp add: epochs_ok_def drop_queue_def)
  have c: "epochs_ok (drop_queue s\<lparr>oq_reset_next := True\<rparr>)" using d by (simp add: epochs_ok_def)
  have e: "epochs_ok t" if "oq_core t = oq_core u" "epochs_ok u" for t u using that epochs_core [of t u] by blast
  have f: "epochs_ok ((tell FinishReplay (tell HoldBegun u))\<lparr>oq_flight := Some Ending\<rparr>)" if "epochs_ok u" for u by (rule e [OF _ that]) simp
  have g: "epochs_ok (u\<lparr>oq_flight := Some Ending\<rparr>)" if "epochs_ok u" for u by (rule e [OF _ that]) simp
  have h: "epochs_ok ((try_send_ack en (tell FinishReplay s))\<lparr>oq_flight := Some Ending\<rparr>)" by (rule e [OF _ s]) simp
  have i: "epochs_ok ((schedule_flush s)\<lparr>oq_flight := Some Ending\<rparr>)" by (rule e [OF _ s]) simp
  have j: "epochs_ok (drain_loop en (new_drain fo s) s)" by (rule e [OF _ s]) simp
  show ?thesis using f [OF c] g [OF d] g [OF s] h i j by (simp add: drain_start_def)
qed

lemma epochs_flush: "epochs_ok s \<Longrightarrow> epochs_ok (oq_flush en fo s)"
proof -
  assume s: "epochs_ok s"
  let ?t = "flush_enter fo (lifecycle_clear s)"
  have c: "epochs_ok (lifecycle_clear s)" using s epochs_core [of "lifecycle_clear s" s] by simp
  then have t: "epochs_ok ?t" by (simp add: epochs_ok_def)
  have u: "epochs_ok (schedule_flush ?t)" using t epochs_core [of "schedule_flush ?t" ?t] by simp
  show ?thesis using s c t u epochs_drain_start [OF t] by (simp add: oq_flush_def Let_def)
qed

lemma take_applied_fields: "oq_queue (take_applied en w s) = drop (length (pw_entries w)) (oq_queue s)" "oq_epoch (take_applied en w s) = oq_epoch s"
  by (simp_all add: take_applied_def tell_def Let_def split: option.split)

lemma epochs_write_settles: "epochs_ok s \<Longrightarrow> epochs_ok (write_settles en r s)"
proof -
  assume s: "epochs_ok s"
  show ?thesis
  proof (cases "\<exists>d w. oq_flight s = Some (Writing d w)")
    case False
    then have "write_settles en r s = s" by (auto simp: write_settles_def split: option.splits flight.splits)
    then show ?thesis using s by simp
  next
    case True
    then obtain d w where f: "oq_flight s = Some (Writing d w)" by blast
    let ?t = "end_replay_depth w (parsed_hooks en w s)"
    have t: "epochs_ok ?t" using s epochs_core [of ?t s] by simp
    have "epochs_ok (take_applied en w ?t)" by (rule epochs_shrink [OF t]) (simp_all add: take_applied_fields set_drop_subset)
    then have a: "epochs_ok (drain_loop en (d\<lparr>dr_wrote := True\<rparr>) (try_send_ack en (take_applied en w ?t)))"
      using epochs_core [of "drain_loop en (d\<lparr>dr_wrote := True\<rparr>) (try_send_ack en (take_applied en w ?t))" "take_applied en w ?t"] by simp
    have b: "epochs_ok (drain_end en d (end_replay_depth w s))" using s epochs_core [of "drain_end en d (end_replay_depth w s)" s] by simp
    have c: "epochs_ok ((end_replay_depth w s)\<lparr>oq_flight := x\<rparr>)" for x
      using s epochs_core [of "(end_replay_depth w s)\<lparr>oq_flight := x\<rparr>" s] by simp
    show ?thesis using a b c f by (simp add: write_settles_def)
  qed
qed

lemma enqueue_epochs: "\<lbrakk>epochs_ok s; oe_epoch tpl = oq_epoch s\<rbrakk> \<Longrightarrow> epochs_ok (snd (enqueue_pieces tpl burst start ds s))
    \<and> oq_closed (snd (enqueue_pieces tpl burst start ds s)) = oq_closed s
    \<and> (\<not> oq_overload s \<and> \<not> oq_closed s \<and> \<not> fst (enqueue_pieces tpl burst start ds s) \<longrightarrow> oq_failed (snd (enqueue_pieces tpl burst start ds s)))
    \<and> (fst (enqueue_pieces tpl burst start ds s) \<longrightarrow> oq_overload (snd (enqueue_pieces tpl burst start ds s)) = oq_overload s)"
proof (induction tpl burst start ds s rule: enqueue_pieces.induct)
  case (2 tpl burst start d ds s)
  let ?n = "output_byte_length d" and ?e = "new_oq_entry tpl burst start d s"
  have h: "epochs_ok (handle_overload s)" "oq_closed (handle_overload s) = oq_closed s"
    "\<not> oq_overload s \<Longrightarrow> \<not> oq_closed s \<Longrightarrow> oq_failed (handle_overload s)"
    using 2(3) by (simp_all add: handle_overload_def epochs_ok_def tell_def lifecycle_clear_def)
  have p: "epochs_ok (push_entry ?e s)" "oe_epoch tpl = oq_epoch (push_entry ?e s)" "oq_closed (push_entry ?e s) = oq_closed s"
    "oq_overload (push_entry ?e s) = oq_overload s"
    using 2(3,4) by (simp_all add: epochs_ok_def push_entry_def new_oq_entry_def Let_def)
  show ?case
  proof (cases "?n = 0")
    case True then show ?thesis using 2 by simp
  next
    case n: False
    show ?thesis
    proof (cases "max_queued_bytes < oq_size s + ?n \<or> max_queued_entries \<le> length (oq_queue s)")
      case True then show ?thesis using n h by (simp add: Let_def)
    next
      case False then show ?thesis using n 2(2) [OF refl n False p(1,2)] p(3,4) by (simp add: Let_def)
    qed
  qed
qed simp

text \<open>Both parts of progress, operation by operation: queued output of the current stream waits for a running
  drain, a scheduled one, or a gate.\<close>

definition live :: "oq \<Rightarrow> bool" where
  "live s = (oq_inv s \<and> moving s \<and> epochs_ok s)"

lemma moving_same:
  assumes "oq_core t = oq_core s" "oq_flight t = oq_flight s" "oq_due t = oq_due s"
  shows "moving t = moving s"
  using core_fields [OF assms(1)] assms(2,3) batch_waiting_core [OF assms(1)] by (simp add: moving_def)

lemma try_ack_moving: "moving (try_send_ack en s) = moving s"
  by (rule moving_same) (simp, (subst try_ack_fields, simp)+)

lemma touch_moving: "moving (touch_batch s) = moving s"
proof -
  have "batch_waiting (touch_batch s) = batch_waiting s" by (simp add: batch_waiting_frame)
  then show ?thesis by (simp add: moving_def touch_batch_def)
qed

lemma empty_moving: "oq_size s = 0 \<or> oq_failed s \<or> oq_closed s \<Longrightarrow> moving s"
  by (auto simp: moving_def)

lemma write_live: "live s \<Longrightarrow> live (snd (oq_write lo df d s))"
proof -
  assume s: "live s"
  have inv: "oq_inv (snd (oq_write lo df d s))" using s by (simp add: live_def write_inv)
  have ov: "oq_overload s \<longrightarrow> oq_failed s" using s by (simp add: live_def oq_inv_def queue_ok_def)
  show ?thesis
  proof (cases "write_refused s \<or> output_kind d = []")
    case True
    then have "oq_write lo df d s = (False, s)" by (simp add: oq_write_def)
    then show ?thesis using s by simp
  next
    case go: False
    then have alive: "\<not> oq_closed s" "\<not> oq_overload s" using ov by (auto simp: write_refused_def)
    show ?thesis
    proof (cases "max_queued_bytes \<le> oq_size s")
      case True
      then have e: "snd (oq_write lo df d s) = handle_overload s" using go by (simp add: oq_write_def)
      have "moving (handle_overload s)" "epochs_ok (handle_overload s)"
        using alive s by (simp_all add: empty_moving handle_overload_def tell_def lifecycle_clear_def live_def epochs_ok_def)
      then show ?thesis using inv e by (simp add: live_def)
    next
      case False
      define tpl where "tpl = write_template lo df d s"
      define t where "t = touch_batch (tell_if (oq_settling s) ResizeNoted s)"
      define r where "r = enqueue_pieces tpl (live_batch s) (write_start d s) (output_pieces (piece_limit (oe_replay tpl)) d) t"
      have w: "oq_write lo df d s = after_write r" using go False by (simp add: oq_write_def Let_def r_def t_def tpl_def)
      have t: "epochs_ok t" "oe_epoch tpl = oq_epoch t" "\<not> oq_closed t" "\<not> oq_overload t"
        using s alive by (simp_all add: t_def tpl_def live_def epochs_ok_def write_template_def Let_def tell_if_def tell_def touch_batch_def)
      obtain ok u where u: "r = (ok, u)" by (cases r)
      have q: "epochs_ok u" "\<not> oq_closed u" "\<not> ok \<longrightarrow> oq_failed u" "ok \<longrightarrow> \<not> oq_overload u"
        using enqueue_epochs [OF t(1,2), of "live_batch s" "write_start d s" "output_pieces (piece_limit (oe_replay tpl)) d"] t(3,4) u
        by (simp_all add: r_def)
      have m: "moving (snd (after_write r))"
      proof (cases ok)
        case False
        then show ?thesis using q(3) u by (simp add: after_write_def empty_moving)
      next
        case True
        have "moving (handle_overload u)" using q True by (simp add: handle_overload_def empty_moving tell_def lifecycle_clear_def)
        moreover have "moving (touch_batch u)" if "batch_waiting u" using that by (simp add: touch_moving gated_moving)
        ultimately show ?thesis using True u schedule_moving [of "touch_batch u"] by (simp add: after_write_def)
      qed
      have "epochs_ok (handle_overload u)" "epochs_ok (touch_batch u)" "epochs_ok (schedule_flush (touch_batch u))"
        using q(1) epochs_core [of "schedule_flush (touch_batch u)" "touch_batch u"]
        by (simp_all add: epochs_ok_def handle_overload_def tell_def lifecycle_clear_def)
      then have "epochs_ok (snd (after_write r))" using q(1) u by (simp add: after_write_def)
      then show ?thesis using inv m w by (simp add: live_def)
    qed
  qed
qed

lemma flush_live: "\<lbrakk>live s; fo_remainder fo \<or> oq_block s\<rbrakk> \<Longrightarrow> live (oq_flush en fo s)"
  by (simp add: live_def oq_flush_inv flush_moving epochs_flush)

lemma immediate_live: "live s \<Longrightarrow> live (snd (write_immediate en d s))"
  using write_live [of s True False d] by (auto simp: write_immediate_def flush_defaults_def intro!: flush_live split: prod.split)

lemma write_settles_live: "live s \<Longrightarrow> live (write_settles en r s)"
proof -
  assume s: "live s"
  have "moving (write_settles en r s)"
  proof (cases "\<exists>d w. oq_flight s = Some (Writing d w)")
    case False
    then have "write_settles en r s = s" by (auto simp: write_settles_def split: option.splits flight.splits)
    then show ?thesis using s by (simp add: live_def)
  next
    case True
    then have "oq_flight (write_settles en r s) \<noteq> None"
      using drain_loop_flying by (auto simp: write_settles_def drain_end_flying)
    then show ?thesis by (rule flight_moving)
  qed
  then show ?thesis using s by (simp add: live_def write_settles_inv epochs_write_settles)
qed

lemma flush_finally_moving: "moving (flush_finally s)"
proof (cases "\<not> oq_gone s \<and> \<not> oq_closed s \<and> \<not> oq_disposed s \<and> \<not> oq_failed s \<and> 0 < oq_size s")
  case True
  let ?t = "s\<lparr>oq_flight := None\<rparr>"
  have "moving (touch_batch ?t)" if "batch_waiting ?t \<or> oq_block s"
    using gated_moving [of ?t] that by (simp add: touch_moving)
  then show ?thesis using True schedule_moving [of "touch_batch ?t"] by (simp add: flush_finally_def Let_def)
qed (auto simp: flush_finally_def moving_def Let_def)

lemma flush_settles_live: "live s \<Longrightarrow> live (flush_settles s)"
proof -
  assume s: "live s"
  have e: "epochs_ok (flush_finally t)" if "epochs_ok t" for t
  proof -
    have "epochs_ok (touch_batch (t\<lparr>oq_flight := None\<rparr>))" "epochs_ok (t\<lparr>oq_flight := None\<rparr>)" using that by (simp_all add: epochs_ok_def)
    then show ?thesis
      using epochs_core [of "schedule_flush (touch_batch (t\<lparr>oq_flight := None\<rparr>))" "touch_batch (t\<lparr>oq_flight := None\<rparr>)"]
      by (simp add: flush_finally_def Let_def)
  qed
  have c: "epochs_ok (flush_caught c g s)" for c g
    using s by (simp add: flush_caught_def live_def epochs_ok_def tell_def lifecycle_clear_def)
  have "moving (flush_settles s) \<and> epochs_ok (flush_settles s)"
    using s e [OF c] e [of s] flush_finally_moving
    by (auto simp: flush_settles_def live_def split: option.split flight.split)
  then show ?thesis using s by (simp add: live_def flush_settles_inv)
qed

lemma try_ack_live: "live s \<Longrightarrow> live (try_send_ack en s)"
  using epochs_core [of "try_send_ack en s" s] by (simp add: live_def try_ack_inv try_ack_moving)

lemma turn_live: "live s \<Longrightarrow> live (snd (complete_queue_turn en c q sk ep ch s))"
proof -
  assume s: "live s"
  have p: "live (touch_batch (s\<lparr>oq_pending := a, oq_bounds := b\<rparr>))" "live (s\<lparr>oq_pending := a\<rparr>)" "live (touch_batch (s\<lparr>oq_pending := a\<rparr>))" for a b
  proof -
    have "live (s\<lparr>oq_pending := a, oq_bounds := b\<rparr>)" "live (s\<lparr>oq_pending := a\<rparr>)"
      using s moving_same [of "s\<lparr>oq_pending := a, oq_bounds := b\<rparr>" s] moving_same [of "s\<lparr>oq_pending := a\<rparr>" s]
      by (simp_all add: live_def oq_inv_frame epochs_ok_def)
    then show "live (touch_batch (s\<lparr>oq_pending := a, oq_bounds := b\<rparr>))" "live (s\<lparr>oq_pending := a\<rparr>)" "live (touch_batch (s\<lparr>oq_pending := a\<rparr>))"
      by (simp_all add: live_def oq_inv_frame touch_moving epochs_ok_def)
  qed
  have r: "fo_remainder (turn_flush_options t)" for t by (simp add: turn_flush_options_def flush_defaults_def)
  have "live (snd (turn_ack_pending en x s))" for x
    using p(2) by (auto simp: turn_ack_pending_def Let_def intro!: try_ack_live flush_live p(1,3) r)
  then show ?thesis using s by (simp add: complete_queue_turn_def Let_def split: option.split)
qed

lemma discard_live: "live s \<Longrightarrow> live (oq_discard s)"
  by (simp add: live_def discard_inv empty_moving epochs_ok_def) (simp add: oq_discard_def tell_def lifecycle_clear_def empty_moving)

lemma retire_live: "live s \<Longrightarrow> live (lifecycle_clear ((oq_discard s)\<lparr>oq_disposed := True\<rparr>))"
proof -
  assume s: "live s"
  let ?t = "lifecycle_clear ((oq_discard s)\<lparr>oq_disposed := True\<rparr>)"
  have "oq_size ?t = 0" "oq_queue ?t = []" by (simp_all add: lifecycle_clear_def oq_discard_def tell_def)
  moreover have "oq_inv ?t" using discard_live [OF s] by (simp add: live_def oq_inv_frame)
  ultimately show ?thesis by (simp add: live_def empty_moving epochs_ok_def)
qed

lemma replay_live: "live s \<Longrightarrow> live (replay_announced n ck h msg s)"
proof -
  assume s: "live s"
  have "oq_size (replay_announced n ck h msg s) = 0" "oq_queue (replay_announced n ck h msg s) = []"
    by (simp_all add: replay_announced_def replay_from_def oq_discard_def tell_def lifecycle_clear_def begin_replay_batch_def Let_def
        split: option.split prod.split)
  then show ?thesis using s by (simp add: live_def announced_inv empty_moving epochs_ok_def)
qed

lemma restored_live: "live s \<Longrightarrow> live (checkpoint_restored s)"
proof -
  assume s: "live s"
  have "moving (s\<lparr>oq_restoring := None\<rparr>) = moving s" "moving (s\<lparr>oq_restoring := None, oq_applied := n\<rparr>) = moving s" for n
    by (simp_all add: moving_def batch_waiting_eq)
  then have "moving (checkpoint_restored s)" using s by (simp add: live_def checkpoint_restored_def Let_def split: option.split prod.split)
  moreover have "epochs_ok (checkpoint_restored s) = epochs_ok s"
    by (rule epochs_same) (simp_all add: checkpoint_restored_def Let_def split: option.split prod.split)
  ultimately show ?thesis using s by (simp add: live_def restored_inv)
qed

lemma received_live: "live s \<Longrightarrow> live (replay_received en f s)"
proof -
  assume s: "live s"
  define t where "t = snd (complete_replay_batch (en_now en) s)"
  have t: "oq_inv t" "epochs_ok t"
    using s by (simp_all add: t_def live_def complete_batch_inv, simp add: epochs_ok_def complete_replay_batch_def split: prod.split)
  have "oq_inv (oq_flush en flush_defaults t)" "epochs_ok (oq_flush en flush_defaults t)" "moving (oq_flush en flush_defaults t)"
    using t by (simp_all add: oq_flush_inv epochs_flush flush_moving flush_defaults_def)
  then show ?thesis using t by (simp add: replay_received_def Let_def t_def [symmetric] live_def empty_moving)
qed

lemma stream_live: "live s \<Longrightarrow> live (s\<lparr>oq_epoch := oq_epoch s + Suc k, oq_channel := c, oq_unified := u, oq_socket := sk\<rparr>)"
proof -
  assume s: "live s"
  let ?t = "s\<lparr>oq_epoch := oq_epoch s + Suc k, oq_channel := c, oq_unified := u, oq_socket := sk\<rparr>"
  have q: "0 < oq_size s \<Longrightarrow> oq_queue s \<noteq> []" using s by (auto simp: live_def oq_inv_def queue_ok_def)
  have "oe_epoch e \<noteq> oq_epoch s + Suc k" if "e \<in> set (oq_queue s)" for e
    using s that by (fastforce simp: live_def epochs_ok_def list_all_iff)
  then have "\<not> list_all (\<lambda>e. oe_epoch e = oq_epoch s + Suc k) (oq_queue s)" if "0 < oq_size s"
    using q [OF that] by (cases "oq_queue s") simp_all
  then have "moving ?t" by (auto simp: moving_def)
  moreover have "epochs_ok ?t" using s by (fastforce simp: live_def epochs_ok_def list_all_iff)
  ultimately show ?thesis using s by (simp only: live_def oq_inv_env simp_thms)
qed

lemma forget_live: "live s \<Longrightarrow> live (forget_cursors s)"
  by (simp add: live_def forget_inv) (simp add: forget_cursors_def moving_def epochs_ok_def batch_waiting_eq)

lemma live_env:
  "moving (s\<lparr>oq_turn_cursor := v, oq_turn_sequence := w\<rparr>) = moving s" "moving (s\<lparr>oq_active := n\<rparr>) = moving s"
  "moving (s\<lparr>oq_turn_cursor := v, oq_turn_sequence := w, oq_pending := p, oq_bounds := q, oq_windowed := c\<rparr>) = moving s"
  "moving (s\<lparr>oq_socket := sk, oq_unified := c, oq_channel := l\<rparr>) = moving s"
  "moving (s\<lparr>oq_tracking := c, oq_history := h\<rparr>) = moving s" "moving (s\<lparr>oq_committed := c, oq_allow := a\<rparr>) = moving s"
  "moving (s\<lparr>oq_resizing := c, oq_settling := a\<rparr>) = moving s" "moving (s\<lparr>oq_remote := c\<rparr>) = moving s"
  "moving (s\<lparr>oq_overload := c\<rparr>) = moving s" "moving (s\<lparr>oq_socket := None\<rparr>) = moving s" "moving (s\<lparr>oq_restoring := re\<rparr>) = moving s"
  "moving (s\<lparr>oq_reset_next := c, oq_completing := a\<rparr>) = moving s"
  by (simp_all add: moving_def batch_waiting_eq)

lemma live_step: "live s \<Longrightarrow> live (oq_step s e)"
proof (cases e)
  case (OqNoteFrame c q)
  assume "live s"
  then show ?thesis by (simp add: OqNoteFrame note_turn_frame_def live_def oq_inv_env live_env epochs_ok_def)
next
  case (OqWake en)
  assume s: "live s"
  have "live (oq_flush en flush_defaults (lifecycle_clear s))" if "oq_due s"
  proof -
    have "epochs_ok (lifecycle_clear s)" using s epochs_core [of "lifecycle_clear s" s] by (simp add: live_def)
    then show ?thesis using s by (simp add: live_def oq_inv_frame oq_flush_inv epochs_flush flush_moving flush_defaults_def)
  qed
  then show ?thesis using OqWake s by simp
next
  case (OqFenceDrain en n)
  assume s: "live s"
  let ?t = "s\<lparr>oq_block := True\<rparr>"
  have "live ?t" using s by (simp add: live_def oq_inv_frame gated_moving epochs_ok_def)
  then show ?thesis using OqFenceDrain by (simp add: fence_drain_def flush_live)
next
  case OqOpenGate
  assume s: "live s"
  let ?t = "s\<lparr>oq_block := False\<rparr>"
  have "epochs_ok (schedule_flush ?t)" "epochs_ok ?t"
    using s epochs_core [of "schedule_flush ?t" ?t] by (simp_all add: live_def epochs_ok_def)
  then show ?thesis using OqOpenGate s schedule_moving [of ?t]
    by (simp add: open_gate_def Let_def live_def oq_inv_frame empty_moving)
next
  case OqSchedule
  assume s: "live s"
  then show ?thesis using OqSchedule epochs_core [of "schedule_flush s" s] by (simp add: live_def oq_inv_frame schedule_moving)
next
  case OqDisposeSession
  assume s: "live s"
  then show ?thesis using OqDisposeSession retire_live by (simp add: dispose_output_session_def)
next
  case OqDispose
  assume s: "live s"
  let ?t = "s\<lparr>oq_gone := True\<rparr>"
  have "live ?t" using s by (simp add: live_def oq_inv_frame epochs_ok_def moving_def)
  then show ?thesis using OqDispose s retire_live [of ?t] by (simp add: dispose_output_def Let_def)
next
  case (OqStream k c u sk)
  assume "live s"
  from stream_live [OF this, where k = k and c = c and u = u and sk = sk] OqStream show ?thesis by (simp only: oq_step.simps)
next
  case OqClearOverload
  assume "live s"
  then show ?thesis using OqClearOverload clear_overload_inv [of s] by (simp add: live_def clear_overload_def live_env epochs_ok_def)
qed (simp_all add: write_live immediate_live flush_live write_settles_live flush_settles_live discard_live turn_live try_ack_live
    replay_live restored_live received_live forget_live reset_queue_turn_def,
  simp_all add: live_def oq_inv_env oq_inv_frame live_env epochs_ok_def gated_moving empty_moving unrestored_inv)

interpretation oql: invariant_machine oq_step live
  by standard (rule live_step)

lemma oq_run_live: "live (oq_run selector pane ops)"
proof (rule oql.inv_run)
  have "oq_size (oq_start selector pane) = 0" "oq_queue (oq_start selector pane) = []" by (simp_all add: oq_start_def)
  then show "live (oq_start selector pane)" by (simp add: live_def oq_start_inv empty_moving epochs_ok_def)
qed

text \<open>
  C9. Output of the current stream is never stranded: as long as the session is alive and its parser has not
  failed, no resize gate is closed and no replay burst is still arriving, a queue that is not empty has a
  drain that runs or one that is scheduled.
\<close>

theorem output_never_stranded:
  "case oq_run selector pane ops of s \<Rightarrow>
     if oq_size s = 0 \<or> oq_gone s \<or> oq_closed s \<or> oq_disposed s \<or> oq_failed s \<or> oq_block s \<or> batch_waiting s then True
     else if list_all (\<lambda>e. oe_epoch e = oq_epoch s) (oq_queue s) then (case oq_flight s of None \<Rightarrow> oq_due s | Some f \<Rightarrow> True)
     else True"
  using oq_run_live [of selector pane ops] by (auto simp: live_def moving_def split: option.split)

subsection \<open>A queue left alone is drained\<close>

text \<open>
  The queue when nothing stands in its way, and the next thing that happens then: a scheduled drain
  starts, the parser confirms the write it was given, a drain that ended settles.
\<close>

definition flight_calm :: "nat \<Rightarrow> bool \<Rightarrow> flight option \<Rightarrow> bool" where
  "flight_calm g due f = (case f of None \<Rightarrow> due | Some (Writing d w) \<Rightarrow> pw_gen w = g | Some Ending \<Rightarrow> True | Some (Rejected c h) \<Rightarrow> False)"

definition unblocked :: "oq \<Rightarrow> bool" where
  "unblocked s = (\<not> oq_gone s \<and> \<not> oq_closed s \<and> \<not> oq_disposed s \<and> \<not> oq_failed s \<and> \<not> oq_block s \<and> \<not> batch_waiting s
     \<and> oq_name s = oq_active s \<and> list_all (entry_current s) (oq_queue s))"

definition calm :: "oq \<Rightarrow> bool" where
  "calm s = (unblocked s \<and> flight_calm (oq_gen s) (oq_due s) (oq_flight s))"

definition pump :: "oq_env \<Rightarrow> oq \<Rightarrow> oq" where
  "pump en s = (case oq_flight s of None \<Rightarrow> oq_step s (OqWake en) | Some (Writing d w) \<Rightarrow> oq_step s (OqWriteSettles en Parsed)
     | Some f \<Rightarrow> oq_step s OqFlushSettles)"

definition flight_rank :: "flight option \<Rightarrow> nat" where
  "flight_rank f = (case f of None \<Rightarrow> 1 | Some (Writing d w) \<Rightarrow> 0 | Some g \<Rightarrow> 2)"

definition drain_rank :: "oq \<Rightarrow> nat" where
  "drain_rank s = 3 * length (oq_queue s) + flight_rank (oq_flight s)"

lemma entry_current_cong: "\<lbrakk>oq_gen t = oq_gen s; oq_epoch t = oq_epoch s; oq_name t = oq_name s; oq_pane t = oq_pane s;
    oq_channel t = oq_channel s; oq_history t = oq_history s\<rbrakk> \<Longrightarrow> entry_current t = entry_current s"
  by (simp add: fun_eq_iff entry_current_def)

lemma unblocked_core: "oq_core t = oq_core s \<Longrightarrow> unblocked t = unblocked s"
  using core_fields [of t s] batch_waiting_core [of t s] entry_current_cong [of t s] by (simp add: unblocked_def)

lemma begin_write_flying:
  assumes "oq_inv s" "es \<noteq> []" "take (length es) (oq_queue s) = es" "list_all (\<lambda>e. oe_kind e = oe_kind (hd es)) es"
  shows "\<exists>d w. oq_flight (begin_write en d0 es s) = Some (Writing d w) \<and> pw_gen w = oq_gen s"
proof -
  have ok: "list_all (entry_ok (oq_gen s)) es"
    using assms(1,3) unfolding oq_inv_def queue_ok_def list_all_iff by (metis in_set_takeD)
  obtain data where "coalesce_output (map oe_data es) (oe_kind (hd es)) (sum_len es) = Some data"
    "data_units data = concat (map (\<lambda>e. data_units (oe_data e)) es)"
    using coalesce_entries [OF assms(2) ok assms(4)] by blast
  then show ?thesis using batch_not_empty [OF assms(2) ok] by (simp add: begin_write_def Let_def)
qed

lemma drain_loop_calm:
  assumes "oq_inv s"
  shows "flight_calm (oq_gen s) due (oq_flight (drain_loop en d s))" "flight_rank (oq_flight (drain_loop en d s)) \<le> 2"
proof -
  have "flight_calm (oq_gen s) due (oq_flight (drain_loop en d s)) \<and> flight_rank (oq_flight (drain_loop en d s)) \<le> 2"
  proof (cases "oq_queue s")
    case Nil
    then show ?thesis by (simp add: drain_loop_def drain_end_flying flight_calm_def flight_rank_def)
  next
    case (Cons e es)
    then have "oq_queue s \<noteq> []" by simp
    note b = grab_batch [OF this refl, of en d]
    obtain d' w where "oq_flight (begin_write en d (grab en d [] (oq_queue s)) s) = Some (Writing d' w)" "pw_gen w = oq_gen s"
      using begin_write_flying [OF assms b(1,2,4)] by blast
    then show ?thesis using Cons by (simp add: drain_loop_def drain_end_flying flight_calm_def flight_rank_def)
  qed
  then show "flight_calm (oq_gen s) due (oq_flight (drain_loop en d s))" "flight_rank (oq_flight (drain_loop en d s)) \<le> 2" by simp_all
qed

lemma drain_loop_starts:
  assumes "oq_inv s" "oq_queue s \<noteq> []" "dr_consumed d = 0" "\<not> oq_block s"
  shows "flight_rank (oq_flight (drain_loop en d s)) = 0"
proof -
  note b = grab_batch [OF assms(2) refl, of en d]
  obtain d' w where "oq_flight (begin_write en d (grab en d [] (oq_queue s)) s) = Some (Writing d' w)"
    using begin_write_flying [OF assms(1) b(1,2,4)] by blast
  then show ?thesis using assms by (cases "oq_queue s") (simp_all add: drain_loop_def drain_full_def flight_rank_def)
qed

lemma unblocked_touch: "unblocked (touch_batch s) = unblocked s"
proof -
  have "entry_current (touch_batch s) = entry_current s" by (rule entry_current_cong) (simp_all add: touch_batch_def)
  then show ?thesis by (simp add: unblocked_def batch_waiting_frame) (simp add: touch_batch_def)
qed

definition pumped :: "oq \<Rightarrow> oq \<Rightarrow> bool" where
  "pumped s t = (calm t \<and> drain_rank t < drain_rank s \<and> oq_taken t = oq_taken s \<and> oq_gap t = oq_gap s)"

lemma pump_wakes:
  assumes s: "oq_inv s" "calm s" "oq_queue s \<noteq> []" "oq_flight s = None" and en: "en_turn en" "en_budget en"
  shows "pumped s (pump en s)"
proof -
  define t where "t = touch_batch (lifecycle_clear (lifecycle_clear s))"
  have u: "unblocked t" using s(2) unblocked_core [of "lifecycle_clear (lifecycle_clear s)" s] by (simp add: t_def unblocked_touch calm_def)
  have inv: "oq_inv t" using s(1) by (simp add: t_def oq_inv_frame)
  have f: "oq_queue t = oq_queue s" "oq_flight t = None" "oq_taken t = oq_taken s" "oq_gap t = oq_gap s"
    using s(4) by (simp_all add: t_def lifecycle_clear_def touch_batch_def)
  have c: "oq_due s" "\<not> oq_gone s" "\<not> oq_closed s" "\<not> oq_failed s" using s by (simp_all add: calm_def flight_calm_def unblocked_def)
  have "pump en s = oq_flush en flush_defaults (lifecycle_clear s)" using s(4) c by (simp add: pump_def)
  also have "\<dots> = drain_start en flush_defaults t"
    using c s(4) u en by (simp add: oq_flush_def lifecycle_clear_def t_def flush_enter_def flush_defaults_def unblocked_def)
  also have "\<dots> = drain_loop en (new_drain flush_defaults t) t"
    using u en f s(3) by (auto simp: drain_start_def unblocked_def list_all_iff list_ex_iff)
  finally have e: "pump en s = drain_loop en (new_drain flush_defaults t) t" .
  let ?t = "drain_loop en (new_drain flush_defaults t) t"
  have core: "oq_core ?t = oq_core t" by simp
  note cf = core_fields [OF core]
  have "flight_calm (oq_gen t) (oq_due ?t) (oq_flight ?t)" by (rule drain_loop_calm(1) [OF inv])
  then have "calm ?t" using u unblocked_core [OF core] by (simp add: calm_def cf)
  moreover have "flight_rank (oq_flight ?t) = 0"
    using u f s(3) by (intro drain_loop_starts inv) (simp_all add: new_drain_def Let_def unblocked_def)
  then have "drain_rank ?t < drain_rank s" using s(4) f by (simp add: drain_rank_def cf flight_rank_def)
  ultimately show ?thesis using f by (simp add: pumped_def e cf)
qed

lemma take_applied_more:
  "oq_gone (take_applied en w s) = oq_gone s" "oq_closed (take_applied en w s) = oq_closed s" "oq_disposed (take_applied en w s) = oq_disposed s"
  "oq_failed (take_applied en w s) = oq_failed s" "oq_block (take_applied en w s) = oq_block s" "oq_name (take_applied en w s) = oq_name s"
  "oq_active (take_applied en w s) = oq_active s" "oq_gen (take_applied en w s) = oq_gen s" "oq_pane (take_applied en w s) = oq_pane s"
  "oq_channel (take_applied en w s) = oq_channel s" "oq_history (take_applied en w s) = oq_history s"
  "oq_taken (take_applied en w s) = oq_taken s" "oq_gap (take_applied en w s) = oq_gap s"
  by (simp_all add: take_applied_def tell_def Let_def split: option.split)

lemma batch_applied_keeps: "bb_batch (batch_applied now v b) = None \<or> bb_batch (batch_applied now v b) = bb_batch b"
  by (auto simp: batch_applied_def batch_get_def split: option.split)

lemma take_applied_batches: "bb_batch (oq_batches (take_applied en w s)) = None
    \<or> bb_batch (oq_batches (take_applied en w s)) = bb_batch (oq_batches s)"
  using batch_applied_keeps by (simp add: take_applied_def tell_def Let_def split: option.split)

lemma take_applied_unblocked: "unblocked s \<Longrightarrow> unblocked (take_applied en w s)"
proof -
  assume s: "unblocked s"
  have "entry_current (take_applied en w s) = entry_current s" by (rule entry_current_cong) (simp_all add: take_applied_fields take_applied_more)
  moreover have "list_all (entry_current s) (drop n (oq_queue s))" for n
    using s unfolding unblocked_def list_all_iff by (meson in_set_dropD)
  moreover have "\<not> batch_waiting (take_applied en w s)"
    using s take_applied_batches [of en w s]
    by (auto simp: unblocked_def batch_waiting_eq take_applied_fields take_applied_more waits_def)
  ultimately show ?thesis using s by (simp add: unblocked_def take_applied_fields take_applied_more)
qed

lemma pump_writes:
  assumes s: "oq_inv s" "calm s" "oq_queue s \<noteq> []" "oq_flight s = Some (Writing d w)"
  shows "pumped s (pump en s)"
proof -
  define t where "t = end_replay_depth w (parsed_hooks en w s)"
  define v where "v = try_send_ack en (take_applied en w t)"
  let ?t = "drain_loop en (d\<lparr>dr_wrote := True\<rparr>) v"
  have g: "pw_gen w = oq_gen s" "\<not> oq_closed s" using s by (simp_all add: calm_def flight_calm_def unblocked_def)
  then have e: "pump en s = ?t" using s(4) by (simp add: pump_def write_settles_def t_def v_def)
  have tc: "oq_core t = oq_core s" by (simp add: t_def)
  have vc: "oq_core v = oq_core (take_applied en w t)" by (simp add: v_def)
  have inv: "oq_inv (take_applied en w t\<lparr>oq_flight := None\<rparr>)"
    by (rule take_applied_inv [of _ d]) (simp_all add: s g t_def settled_fields end_replay_inv parsed_hooks_inv)
  then have vinv: "oq_inv (v\<lparr>oq_flight := None\<rparr>)" using try_ack_inv [OF inv, of en] by (simp add: v_def try_ack_flight)
  have core: "oq_core ?t = oq_core (take_applied en w t)" using vc by simp
  note cf = core_fields [OF core] and tf = core_fields [OF tc]
  have "unblocked ?t" using s(2) unblocked_core [OF core] unblocked_core [OF tc] take_applied_unblocked [of t en w] by (simp add: calm_def)
  moreover have c: "flight_calm (oq_gen v) due (oq_flight ?t)" "flight_rank (oq_flight ?t) \<le> 2" for due
    using drain_loop_calm(1) [OF vinv, where due = due and en = en and d = "d\<lparr>dr_wrote := True\<rparr>"]
      drain_loop_calm(2) [OF vinv, where en = en and d = "d\<lparr>dr_wrote := True\<rparr>"] by (simp_all add: drain_loop_flight)
  ultimately have "calm ?t" using core_fields(3) [OF vc] by (simp add: calm_def cf)
  moreover have "drain_rank ?t < drain_rank s"
  proof -
    have "pw_entries w \<noteq> []" using s(1,4) g by (simp add: oq_inv_def write_fits_def)
    then have "length (oq_queue ?t) < length (oq_queue s)" using s(3) by (simp add: cf take_applied_fields tf)
    then show ?thesis using c(2) s(4) by (simp add: drain_rank_def flight_rank_def)
  qed
  ultimately show ?thesis by (simp add: pumped_def e cf take_applied_more tf)
qed

lemma pump_ends:
  assumes s: "oq_inv s" "calm s" "oq_queue s \<noteq> []" "oq_flight s = Some Ending"
  shows "pumped s (pump en s)"
proof -
  let ?u = "s\<lparr>oq_flight := None\<rparr>"
  have c: "oq_core ?u = oq_core s" by simp
  have u: "unblocked ?u" using s(2) unblocked_core [OF c] by (simp add: calm_def)
  have "oq_size s = sum_len (oq_queue s)" "list_all (entry_ok (oq_gen s)) (oq_queue s)" using s(1) by (simp_all add: oq_inv_def queue_ok_def)
  then have z: "0 < oq_size s" using s(3) by (cases "oq_queue s") (simp_all add: entry_ok_def)
  have e: "pump en s = schedule_flush (touch_batch ?u)"
    using s(4) u z by (simp add: pump_def flush_settles_def flush_finally_def Let_def unblocked_def)
  let ?t = "schedule_flush (touch_batch ?u)"
  have "unblocked ?t" using u unblocked_touch [of ?u] unblocked_core [of ?t "touch_batch ?u"] by simp
  moreover have "oq_due ?t" "oq_flight ?t = None" using u
    by (simp_all add: unblocked_def schedule_flush_def lifecycle_schedule_def touch_batch_def)
  moreover have "oq_queue ?t = oq_queue s" "oq_taken ?t = oq_taken s" "oq_gap ?t = oq_gap s"
    by (simp_all add: schedule_flush_def lifecycle_schedule_def touch_batch_def)
  ultimately show ?thesis using s(4) by (simp add: pumped_def e calm_def flight_calm_def drain_rank_def flight_rank_def)
qed

lemma pump_progress:
  assumes "oq_inv s" "calm s" "oq_queue s \<noteq> []" "en_turn en" "en_budget en"
  shows "pumped s (pump en s)"
proof -
  consider "oq_flight s = None" | d w where "oq_flight s = Some (Writing d w)" | "oq_flight s = Some Ending"
    using assms(2) by (auto simp: calm_def flight_calm_def split: option.splits flight.splits)
  then show ?thesis using assms pump_wakes pump_writes pump_ends by cases auto
qed

lemma pump_inv: "oq_inv s \<Longrightarrow> oq_inv (pump en s)"
  by (simp add: pump_def oq_inv_step del: oq_step.simps split: option.split flight.split)

lemma pump_drains:
  assumes "en_turn en" "en_budget en"
  shows "\<lbrakk>oq_inv s; calm s\<rbrakk> \<Longrightarrow> \<exists>k \<le> drain_rank s. oq_queue ((pump en ^^ k) s) = [] \<and> oq_inv ((pump en ^^ k) s)
     \<and> oq_taken ((pump en ^^ k) s) = oq_taken s \<and> oq_gap ((pump en ^^ k) s) = oq_gap s"
proof (induction "drain_rank s" arbitrary: s rule: less_induct)
  case less
  show ?case
  proof (cases "oq_queue s = []")
    case True
    then show ?thesis using less.prems by (intro exI [of _ 0]) simp
  next
    case False
    let ?t = "pump en s"
    have p: "pumped s ?t" by (rule pump_progress [OF less.prems False assms])
    then have lt: "drain_rank ?t < drain_rank s" "calm ?t" by (simp_all add: pumped_def)
    from less.hyps [OF lt(1) pump_inv [OF less.prems(1)] lt(2)] obtain k where k: "k \<le> drain_rank ?t"
      "oq_queue ((pump en ^^ k) ?t) = []" "oq_inv ((pump en ^^ k) ?t)" "oq_taken ((pump en ^^ k) ?t) = oq_taken ?t"
      "oq_gap ((pump en ^^ k) ?t) = oq_gap ?t" by blast
    then show ?thesis using lt(1) p by (intro exI [of _ "Suc k"]) (simp add: funpow_swap1 pumped_def)
  qed
qed

text \<open>
  C10. A queue that nothing blocks is drained: with the parser confirming its writes and the page's budget
  leaving time, at most three steps for every queued entry and two more empty it, and then the parser
  has confirmed everything that was accepted, in order.
\<close>

theorem queued_output_is_drained:
  "case oq_run selector pane ops of s \<Rightarrow> if en_turn en \<and> en_budget en \<and> calm s \<and> \<not> oq_gap s then
     \<exists>k \<le> 3 * length (oq_queue s) + 2. oq_queue ((pump en ^^ k) s) = [] \<and> oq_parsed ((pump en ^^ k) s) = oq_taken s
     else True"
proof -
  let ?s = "oq_run selector pane ops"
  have "\<exists>k \<le> 3 * length (oq_queue ?s) + 2. oq_queue ((pump en ^^ k) ?s) = [] \<and> oq_parsed ((pump en ^^ k) ?s) = oq_taken ?s"
    if c: "en_turn en" "en_budget en" "calm ?s" "\<not> oq_gap ?s"
  proof -
    obtain k where k: "k \<le> drain_rank ?s" "oq_queue ((pump en ^^ k) ?s) = []" "oq_inv ((pump en ^^ k) ?s)"
      "oq_taken ((pump en ^^ k) ?s) = oq_taken ?s" "oq_gap ((pump en ^^ k) ?s) = oq_gap ?s"
      using pump_drains [OF c(1,2) oq_run_inv [of selector pane ops] c(3)] by blast
    have "drain_rank ?s \<le> 3 * length (oq_queue ?s) + 2"
      by (simp add: drain_rank_def flight_rank_def split: option.split flight.split)
    moreover have "oq_parsed ((pump en ^^ k) ?s) = oq_taken ?s"
      using k(2-5) c(4) by (simp add: oq_inv_def order_ok_def)
    ultimately show ?thesis using k(1,2) by (meson le_trans)
  qed
  then show ?thesis by simp
qed

definition sample_env :: oq_env where
  "sample_env = \<lparr>en_now = 0, en_turn = True, en_budget = True, en_late = (\<lambda>n. False), en_throws = False, en_render = True,
     en_hidden = False, en_replay_writer = True\<rparr>"

definition sample_output :: oq where
  "sample_output = oq_run ''a'' ''b'' [OqReplayFrom 7 False ''g'' None, OqWrite False False (Bytes [104, 105]), OqWrite True False (Text [33])]"

lemmas sample_defs = oq_write_def Let_def write_refused_def write_template_def write_start_def output_kind_def live_batch_def batch_get_def
  oq_view_def touch_batch_def tell_if_def tell_def output_pieces_def piece_limit_def write_slice_def flush_budget_def replay_write_batch_def
  output_byte_length_def measure_output_exact max_queued_bytes_def max_queued_entries_def new_oq_entry_def push_entry_def in_burst_def
  after_write_def batch_waiting_def schedule_flush_def lifecycle_schedule_def lifecycle_clear_def entry_units_def entry_cursors_def
  data_units_def utf8_len_of_code_point_def batch_discard_def

lemma sample_output_value: "calm sample_output \<and> length (oq_queue sample_output) = 2 \<and> \<not> oq_gap sample_output
    \<and> oq_taken sample_output = [(Some 7, Inr 104), (Some 8, Inr 105), (None, Inl 33)]"
  by (simp add: sample_output_def replay_announced_def replay_from_def oq_discard_def oq_start_def sample_defs upt_rec
      calm_def unblocked_def flight_calm_def entry_current_def)

lemma queued_output_is_drained_witness:
  "\<exists>k \<le> 8. oq_queue ((pump sample_env ^^ k) sample_output) = []
     \<and> oq_parsed ((pump sample_env ^^ k) sample_output) = [(Some 7, Inr 104), (Some 8, Inr 105), (None, Inl 33)]"
  using queued_output_is_drained [where selector = "''a''" and pane = "''b''" and en = sample_env
      and ops = "[OqReplayFrom 7 False ''g'' None, OqWrite False False (Bytes [104, 105]), OqWrite True False (Text [33])]"]
    sample_output_value unfolding sample_output_def [symmetric]
  by (simp add: sample_env_def)

subsection \<open>A write takes its payload whole\<close>

lemma byte_pieces_join: "0 < limit \<Longrightarrow> concat (byte_pieces b limit offset) = drop offset b"
proof (induction b limit offset rule: byte_pieces.induct)
  case (1 b limit offset)
  show ?case
  proof (cases "length b \<le> offset")
    case False
    let ?e = "byte_chunk_end b offset limit"
    have e: "offset < ?e" using False 1(2) by (simp add: byte_chunk_end_gt)
    then have "drop (?e - offset) (drop offset b) = drop ?e b" by simp
    then have "drop offset (take ?e b) @ drop ?e b = drop offset b"
      using append_take_drop_id [of "?e - offset" "drop offset b"] by (simp add: drop_take)
    then show ?thesis using 1 False by (subst byte_pieces.simps) (simp add: Let_def)
  qed (simp add: byte_pieces.simps)
qed

lemma text_units: "data_units (Text t) = map Inl t" "data_units (Bytes b) = map Inr b" "data_units OtherData = []"
  by (simp_all add: data_units_def)

lemma pieces_join: "0 < n \<Longrightarrow> concat (map data_units (output_pieces n d)) = data_units d"
proof (cases d)
  case (Text t)
  have "concat (split_output_text n t) = t"
    using split_text_from_correct [of 0 "[]" t n] by (simp add: split_output_text_def clean_cut_def)
  then show ?thesis using Text by (simp add: output_pieces_def text_units comp_def map_concat [symmetric])
next
  case (Bytes b)
  then show "0 < n \<Longrightarrow> ?thesis" using byte_pieces_join [of n b 0] by (simp add: output_pieces_def text_units comp_def map_concat [symmetric])
qed (simp add: output_pieces_def text_units)

lemma utf8_positive: "0 < utf8_len (u # t)"
proof -
  have "0 < utf8_len (u # v # w)" for v w by (simp add: utf8_len_of_code_point_def)
  then show ?thesis by (cases t) (simp_all add: utf8_len_of_code_point_def)
qed

lemma empty_piece: "output_byte_length d = 0 \<Longrightarrow> data_units d = []"
proof (cases d)
  case (Text t)
  then show "output_byte_length d = 0 \<Longrightarrow> data_units d = []"
    using utf8_positive [of "hd t" "tl t"] by (cases t) (simp_all add: output_byte_length_def measure_output_exact text_units)
qed (simp_all add: output_byte_length_def text_units)

lemma entry_units_data: "entry_ok g e \<Longrightarrow> map snd (entry_units e) = data_units (oe_data e)"
  by (simp add: entry_units_def entry_lengths)

text \<open>The units a call accepted: all of the payload, or the first of its pieces when the queue overflows.\<close>

definition takes :: "(nat + 8 word) list \<Rightarrow> oq \<Rightarrow> bool \<times> oq \<Rightarrow> bool" where
  "takes us s r = (case r of (ok, t) \<Rightarrow> \<exists>vs rest. oq_taken t = oq_taken s @ vs \<and> us = map snd vs @ rest \<and> (if ok then rest = [] else True))"

lemma takes_push: "takes us (push_entry e s) r \<Longrightarrow> takes (map snd (entry_units e) @ us) s r"
proof -
  assume t: "takes us (push_entry e s) r"
  obtain ok u where r: "r = (ok, u)" by (cases r)
  with t obtain vs rest where "oq_taken u = oq_taken s @ entry_units e @ vs" "us = map snd vs @ rest" "if ok then rest = [] else True"
    by (auto simp: takes_def push_entry_def)
  then have "oq_taken u = oq_taken s @ (entry_units e @ vs) \<and> map snd (entry_units e) @ us = map snd (entry_units e @ vs) @ rest
      \<and> (if ok then rest = [] else True)" by simp
  then show ?thesis unfolding r takes_def prod.case by blast
qed

lemma enqueue_takes:
  assumes "list_all (\<lambda>d. output_kind d = oe_kind tpl) ds" "start = None \<or> oe_kind tpl = ''bytes''"
  shows "takes (concat (map data_units ds)) s (enqueue_pieces tpl burst start ds s)"
  using assms
proof (induction tpl burst start ds s rule: enqueue_pieces.induct)
  case (2 tpl burst start d ds s)
  let ?n = "output_byte_length d" and ?e = "new_oq_entry tpl burst start d s"
  have over: "takes us s (False, handle_overload s)" for us
    by (auto simp: takes_def handle_overload_def tell_def lifecycle_clear_def intro!: exI [of _ "[]"])
  show ?case
  proof (cases "?n = 0 \<or> max_queued_bytes < oq_size s + ?n \<or> max_queued_entries \<le> length (oq_queue s)")
    case True
    then show ?thesis using 2(1) [OF refl] 2(3,4) over by (auto simp: empty_piece Let_def)
  next
    case False
    have "entry_ok (oq_gen s) ?e" using False 2(3,4) by (intro new_entry_ok) auto
    then have e: "map snd (entry_units ?e) = data_units d" by (simp add: entry_units_data) (simp add: new_oq_entry_def Let_def)
    have "takes (concat (map data_units ds)) (push_entry ?e s)
        (enqueue_pieces tpl burst (map_option (\<lambda>x. x + ?n) start) ds (push_entry ?e s))"
      using False 2(3,4) by (intro 2(2) [OF refl]) auto
    then have "takes (data_units d @ concat (map data_units ds)) s
        (enqueue_pieces tpl burst (map_option (\<lambda>x. x + ?n) start) ds (push_entry ?e s))"
      using takes_push [of _ ?e] by (simp add: e [symmetric])
    then show ?thesis using False by (simp add: Let_def)
  qed
qed (simp add: takes_def)

lemma write_takes: "takes (data_units d) s (oq_write local_output deferred d s)"
proof -
  let ?tpl = "write_template local_output deferred d s"
  let ?s1 = "touch_batch (tell_if (oq_settling s) ResizeNoted s)"
  let ?r = "enqueue_pieces ?tpl (live_batch s) (write_start d s) (output_pieces (piece_limit (oe_replay ?tpl)) d) ?s1"
  have over: "oq_taken (handle_overload u) = oq_taken u" for u by (simp add: handle_overload_def tell_def lifecycle_clear_def)
  have "0 < piece_limit b" for b by (simp add: piece_limit_def write_slice_def replay_write_batch_def flush_budget_def)
  then have u: "concat (map data_units (output_pieces (piece_limit (oe_replay ?tpl)) d)) = data_units d" by (rule pieces_join)
  have k: "oe_kind ?tpl = output_kind d" by (simp add: write_template_def Let_def)
  have "takes (data_units d) ?s1 ?r"
    unfolding u [symmetric] by (rule enqueue_takes) (simp_all add: k pieces_kind write_start_def)
  moreover have "oq_taken ?s1 = oq_taken s" by (simp add: touch_batch_def tell_if_def tell_def)
  ultimately have t: "takes (data_units d) s ?r" by (simp add: takes_def)
  have a: "fst (after_write r) = fst r \<and> oq_taken (snd (after_write r)) = oq_taken (snd r)" for r
    by (cases r) (simp add: after_write_def over touch_batch_def schedule_flush_def lifecycle_schedule_def)
  have "takes (data_units d) s (after_write ?r)"
    using t a [of ?r] unfolding takes_def by (cases "?r"; cases "after_write ?r") simp
  moreover have "takes (data_units d) s (False, u)" if "oq_taken u = oq_taken s" for u
    using that by (auto simp: takes_def intro!: exI [of _ "[]"])
  ultimately show ?thesis by (simp add: oq_write_def Let_def over)
qed

text \<open>
  A write that succeeds takes its payload whole: the units it adds to what the queue accepted are those
  of the payload, in order, whatever slices it is cut into. One that fails because the queue is full has taken
  a first part of it, and one that is refused nothing.
\<close>

theorem accepted_write_is_whole:
  "case oq_write local_output deferred d s of (ok, t) \<Rightarrow>
     \<exists>us rest. oq_taken t = oq_taken s @ us \<and> data_units d = map snd us @ rest
       \<and> (if ok then rest = [] else True) \<and> (if write_refused s then us = [] \<and> \<not> ok else True)"
  using write_takes [of d s local_output deferred]
  by (cases "write_refused s") (auto simp: takes_def oq_write_def split: prod.split)

end
