(* ===== verification/Session_Replay.thy ===== *)
theory Session_Replay
  imports Output_Queue Replay_Controller Checkpoint
begin

section \<open>A session's protocol: from the messages of its stream to the finished replay\<close>

text \<open>
  Model of the message handlers of \<open>terminal/transport/session_protocol_controller.js\<close> for a unified
  (multiplexed) stream without a session protocol of its own, of \<open>terminal/history/session_replay_controller.js\<close>
  and \<open>session_replay_state.js\<close>, and of the parts of \<open>terminal/session/session_recovery_controller.js\<close> and
  \<open>terminal/transport/session_connection_controller.js\<close> they call. It composes three components: the
  output queue (\<open>Output_Queue\<close>, which holds the shared cursors), the replay controller
  (\<open>Replay_Controller\<close>) and the receiver of checkpoint parts (\<open>Checkpoint\<close>).

  A handler closes over the socket, the epoch and the channel generation of its connection; they are an
  argument. \<open>JSON.parse\<close> is an argument as well: a text comes with the value it parses to, if any. Calls
  of other controllers that do not come back are logged. Diagnostics and the resize owner are left out.
  \<open>ss_start\<close> is a history variable: the start cursor of the last snapshot that was accepted.
\<close>

subsection \<open>State\<close>

datatype authorization = NoAuthorization | IdentifiedReplay | LegacyReplay

datatype ss_out = ReplayReady | HistoryRejected string | MismatchRejected | ChannelRejected | SocketClosed string | Recycled string
  | SyncPendingMarked | HoldKept | ResizeMessage string | WorkspaceRefresh | ProcessExit | BinaryDropped | RetryPaused | AttachTimerStarted

record sess =
  ss_oq :: oq
  ss_rp :: replay
  ss_auth :: authorization
  ss_request :: nat
  ss_complete :: bool
  ss_target :: nat
  ss_queue_active :: bool
  ss_queue_legacy :: bool
  ss_legacy :: bool
  ss_ready :: bool
  ss_sync :: string
  ss_server_base :: nat
  ss_local_base :: nat
  ss_persisted :: nat
  ss_failures :: nat
  ss_paused :: bool
  ss_reason :: string
  ss_reconnects :: nat
  ss_retrying :: bool
  ss_stream :: string
  ss_workspace :: string
  ss_tab :: string
  ss_parts :: "part_state option"
  ss_exit :: bool
  ss_retained :: bool
  ss_matches :: bool
  ss_sized :: bool
  ss_resize_pending :: bool
  ss_preparing :: bool
  ss_outs :: "ss_out list"
  ss_start :: nat

record ss_env =
  sv_output :: oq_env
  sv_reset :: bool

record conn =
  cn_socket :: nat
  cn_epoch :: nat
  cn_channel :: nat

record frame_meta =
  fm_pane :: string
  fm_stream :: string
  fm_channel :: nat
  fm_sequence :: jsval
  fm_from :: jsval
  fm_end :: jsval

definition ss_fresh :: "string \<Rightarrow> string \<Rightarrow> string \<Rightarrow> string \<Rightarrow> sess" where
  "ss_fresh selector tab pane workspace = \<lparr>ss_oq = oq_start selector pane, ss_rp = rp_reset, ss_auth = NoAuthorization, ss_request = 0,
     ss_complete = False, ss_target = 0, ss_queue_active = False, ss_queue_legacy = False, ss_legacy = False, ss_ready = False,
     ss_sync = [], ss_server_base = 0, ss_local_base = 0, ss_persisted = 0, ss_failures = 0, ss_paused = False, ss_reason = [],
     ss_reconnects = 0, ss_retrying = False, ss_stream = [], ss_workspace = workspace, ss_tab = tab, ss_parts = None,
     ss_exit = False, ss_retained = False, ss_matches = True, ss_sized = True, ss_resize_pending = False, ss_preparing = False,
     ss_outs = [], ss_start = 0\<rparr>"

definition ss_log :: "ss_out \<Rightarrow> sess \<Rightarrow> sess" where
  "ss_log x s = s\<lparr>ss_outs := ss_outs s @ [x]\<rparr>"

text \<open>Operations of the output queue on the session's queue.\<close>

definition oqs :: "oq_op list \<Rightarrow> sess \<Rightarrow> sess" where
  "oqs ops s = s\<lparr>ss_oq := foldl oq_step (ss_oq s) ops\<rparr>"

text \<open>The output queue asks the replay controller whether its replay is committed; the flag it sees
  follows the controller.\<close>

definition set_replay :: "replay \<Rightarrow> sess \<Rightarrow> sess" where
  "set_replay r s = oqs [OqSetCommitted (rp_phase r = RpCommitted) (oq_allow (ss_oq s))] (s\<lparr>ss_rp := r\<rparr>)"

definition set_allow :: "bool \<Rightarrow> sess \<Rightarrow> sess" where
  "set_allow a s = oqs [OqSetCommitted (oq_committed (ss_oq s)) a] s"

definition reset_replay :: "sess \<Rightarrow> sess" where
  "reset_replay s = (set_replay rp_reset s)\<lparr>ss_queue_active := False, ss_queue_legacy := False, ss_legacy := False\<rparr>"

definition ss_committed :: "sess \<Rightarrow> bool" where
  "ss_committed s = (rp_phase (ss_rp s) = RpCommitted)"

subsection \<open>The end of a replay\<close>

definition replay_is_ready :: "sess \<Rightarrow> bool" where
  "replay_is_ready s = (rp_phase (ss_rp s) = RpAwaitingCommit \<and> oq_size (ss_oq s) = 0 \<and> ss_auth s \<noteq> NoAuthorization
     \<and> \<not> oq_closed (ss_oq s) \<and> oq_restoring (ss_oq s) = None \<and> \<not> ss_resize_pending s \<and> oq_name (ss_oq s) = oq_active (ss_oq s)
     \<and> (oq_tracking (ss_oq s) \<longrightarrow> ss_target s \<le> oq_received (ss_oq s) \<and> ss_target s \<le> oq_applied (ss_oq s)))"

definition finish_replay :: "sess \<Rightarrow> sess" where
  "finish_replay s = (let r = (case rp_commit (ss_rp s) of Inr t \<Rightarrow> t | Inl _ \<Rightarrow> ss_rp s);
       s1 = set_replay r s;
       s2 = (if rp_phase r = RpCommitted then s1\<lparr>ss_legacy := False, ss_queue_active := False, ss_queue_legacy := False\<rparr> else s1)
     in ss_log ReplayReady ((oqs [OqMark (oq_reset_next (ss_oq s)) False, OqClearOverload] (set_allow False s2))\<lparr>ss_failures := 0, ss_paused := False, ss_reason := [],
          ss_complete := True, ss_auth := NoAuthorization, ss_ready := True, ss_preparing := False, ss_reconnects := 0, ss_retrying := False\<rparr>))"

text \<open>\<open>finishIfReady\<close>.\<close>

definition finish_if_ready :: "sess \<Rightarrow> bool \<times> sess" where
  "finish_if_ready s = (if replay_is_ready s then (True, finish_replay s) else (False, s))"

text \<open>An operation of the output queue with the calls it makes back: a drain that ends asks for the end of
  the replay.\<close>

definition asks_finish :: "oq \<Rightarrow> oq \<Rightarrow> bool" where
  "asks_finish old new = (FinishReplay \<in> set (drop (length (oq_outs old)) (oq_outs new)))"

definition out_step :: "oq_op \<Rightarrow> sess \<Rightarrow> sess" where
  "out_step op s = (let t = oqs [op] s in if asks_finish (ss_oq s) (ss_oq t) then snd (finish_if_ready t) else t)"

subsection \<open>Failures\<close>

definition replay_failure_limit :: nat where "replay_failure_limit = 3"

definition note_failure :: "string \<Rightarrow> sess \<Rightarrow> bool \<times> sess" where
  "note_failure reason s = (if oq_closed (ss_oq s) \<or> ss_committed s then (False, s)
     else let n = min replay_failure_limit (Suc (ss_failures s)); s1 = s\<lparr>ss_failures := n, ss_reason := reason\<rparr>
       in if n < replay_failure_limit then (False, s1)
          else (True, ss_log HoldKept (ss_log RetryPaused (s1\<lparr>ss_paused := True, ss_retrying := False\<rparr>))))"

definition resume_retry :: "sess \<Rightarrow> bool \<times> sess" where
  "resume_retry s = (if oq_closed (ss_oq s) \<or> \<not> ss_paused s then (False, s)
     else (True, (oqs [OqMark True (oq_completing (ss_oq s))] s)\<lparr>ss_paused := False, ss_failures := 0, ss_reason := [], ss_retrying := True\<rparr>))"

definition close_for_reconnect :: "conn \<Rightarrow> string \<Rightarrow> sess \<Rightarrow> sess" where
  "close_for_reconnect cn reason s = (if ss_exit s \<or> oq_socket (ss_oq s) \<noteq> Some (cn_socket cn) then s
     else ss_log (if oq_unified (ss_oq s) then Recycled reason else SocketClosed reason) (s\<lparr>ss_retrying := True\<rparr>))"

definition reject_sync :: "conn \<Rightarrow> string \<Rightarrow> sess \<Rightarrow> sess" where
  "reject_sync cn reason s = (let s1 = oqs [OqStopTracking, OqMark True (oq_completing (ss_oq s))] s;
       s2 = ss_log (HistoryRejected reason) (ss_log SyncPendingMarked (reset_replay (s1\<lparr>ss_ready := False\<rparr>)))
     in case note_failure reason s2 of (paused, s3) \<Rightarrow>
          if paused then ss_log (SocketClosed ''replay_retry_paused'') s3 else close_for_reconnect cn reason s3)"

definition reject_mismatch :: "conn \<Rightarrow> sess \<Rightarrow> sess" where
  "reject_mismatch cn s = close_for_reconnect cn ''Terminal replay identity validation failed.'' (ss_log MismatchRejected s)"

definition reject_channel :: "conn \<Rightarrow> sess \<Rightarrow> sess" where
  "reject_channel cn s = (let s1 = reset_replay (s\<lparr>ss_complete := False, ss_auth := NoAuthorization\<rparr>)
     in close_for_reconnect cn ''Terminal multiplexed message identity validation failed.''
          (ss_log HoldKept (ss_log ChannelRejected (oqs [OqMark True False, OqDiscard] s1))))"

subsection \<open>Who a message is for\<close>

definition transport_current :: "conn \<Rightarrow> sess \<Rightarrow> bool" where
  "transport_current cn s = (0 < cn_channel cn \<and> oq_epoch (ss_oq s) = cn_epoch cn \<and> oq_unified (ss_oq s)
     \<and> oq_channel (ss_oq s) = cn_channel cn \<and> ss_matches s)"

definition message_pane :: "json \<Rightarrow> string" where
  "message_pane m = json_trimmed (json_or (json_get m ''pane_id'') (json_get m ''paneId''))"

definition message_selector :: "json \<Rightarrow> string" where
  "message_selector m = json_trimmed (json_get m ''selector'')"

definition replay_has_identity :: "json \<Rightarrow> bool" where
  "replay_has_identity m = (message_selector m \<noteq> [] \<or> message_pane m \<noteq> [])"

definition validate_replay_message :: "json \<Rightarrow> sess \<Rightarrow> bool" where
  "validate_replay_message m s = ((message_selector m = [] \<or> message_selector m = oq_name (ss_oq s))
     \<and> (message_pane m = [] \<or> message_pane m = oq_pane (ss_oq s)))"

definition validate_workspace_message :: "json \<Rightarrow> sess \<Rightarrow> bool" where
  "validate_workspace_message m s = (js_trim (ss_workspace s) \<noteq> []
     \<and> json_trimmed (json_get m ''workspace_generation'') = js_trim (ss_workspace s)
     \<and> json_trimmed (json_get m ''tab_id'') = js_trim (ss_tab s))"

definition channel_identity :: "conn \<Rightarrow> frame_meta option \<Rightarrow> string \<Rightarrow> bool \<Rightarrow> sess \<Rightarrow> bool" where
  "channel_identity cn meta kind binary s = (case meta of
     None \<Rightarrow> \<not> binary \<and> (kind = ''agent-preparing'' \<or> kind = ''server-log'')
   | Some f \<Rightarrow> js_trim (fm_pane f) = oq_pane (ss_oq s) \<and> js_trim (fm_stream f) \<noteq> []
       \<and> js_trim (fm_stream f) = js_trim (ss_stream s) \<and> 0 < fm_channel f \<and> fm_channel f = cn_channel cn)"

subsection \<open>The start of a history replay\<close>

text \<open>\<open>resetTerminalForHistoryReplay\<close> up to the answer of the runtime's reset.\<close>

definition reset_allowed :: "sess \<Rightarrow> bool" where
  "reset_allowed s = (\<not> oq_closed (ss_oq s) \<and> oq_name (ss_oq s) = oq_active (ss_oq s) \<and> ss_sized s)"

definition reset_terminal :: "ss_env \<Rightarrow> oq_op \<Rightarrow> sess \<Rightarrow> bool \<times> sess" where
  "reset_terminal en discard_op s = (if \<not> reset_allowed s then (False, s)
     else (sv_reset en, ss_log SyncPendingMarked (oqs [if sv_reset en then discard_op else OqDiscard, OqMark False False]
       (s\<lparr>ss_complete := False, ss_auth := NoAuthorization, ss_ready := False\<rparr>))))"

definition replay_context :: "conn \<Rightarrow> string \<Rightarrow> sess \<Rightarrow> replay_ctx" where
  "replay_context cn history s = \<lparr>rx_request = Str (nat_text (ss_request s)), rx_epoch = Num (Fin (of_nat (cn_epoch cn))),
     rx_identity = Some (identity_args \<lparr>ri_selector = oq_name (ss_oq s), ri_pane = oq_pane (ss_oq s), ri_history = history\<rparr>)\<rparr>"

definition generated_allowed :: "json \<Rightarrow> bool" where
  "generated_allowed m = (json_true (json_get m ''allow_generated_input'') \<or> json_true (json_get m ''allowGeneratedInput''))"

text \<open>\<open>prepareReplayGeometry\<close> of the resize owner: output waits until the worker has the size of the replay.\<close>

definition at_least_one :: "json \<Rightarrow> bool" where
  "at_least_one j = (num_leq (Fin 1) (num_floor (num_or_zero (json_number j))))"

definition prepare_geometry :: "json \<Rightarrow> sess \<Rightarrow> sess" where
  "prepare_geometry m s = (if oq_closed (ss_oq s) \<or> \<not> oq_remote (ss_oq s) \<or> \<not> at_least_one (json_get m ''cols'')
       \<or> \<not> at_least_one (json_get m ''rows'') then s
     else (oqs [OqCloseGate] s)\<lparr>ss_resize_pending := True\<rparr>)"

definition geometry_done :: "sess \<Rightarrow> sess" where
  "geometry_done s = (if ss_resize_pending s then (oqs [OqOpenGate, OqSchedule] s)\<lparr>ss_resize_pending := False\<rparr> else s)"

definition legacy_start :: "ss_env \<Rightarrow> conn \<Rightarrow> json \<Rightarrow> sess \<Rightarrow> sess" where
  "legacy_start en cn m s = (let c = replay_context cn [] s;
       r = rp_begin_legacy (rx_request c) (rx_epoch c) (case rx_identity c of Some i \<Rightarrow> i | None \<Rightarrow> no_identity);
       s1 = oqs [OqStopTracking, OqForgetCursors] (set_replay r (s\<lparr>ss_queue_active := False, ss_queue_legacy := True, ss_legacy := True, ss_ready := False,
              ss_local_base := 0, ss_persisted := 0, ss_target := 0, ss_server_base := 0\<rparr>))
     in case reset_terminal en (OqReplayFrom 0 False [] None) s1 of (ok, s2) \<Rightarrow>
       let s3 = oqs [OqStopTracking] s2 in
       if \<not> ok then close_for_reconnect cn ''Terminal reset for legacy replay failed.'' s3
       else set_allow (generated_allowed m) ((prepare_geometry m s3)\<lparr>ss_auth := (if replay_has_identity m then IdentifiedReplay else LegacyReplay)\<rparr>))"

record announced =
  an_base :: nat
  an_stop :: nat
  an_from :: nat
  an_to :: nat

text \<open>The range a server announces, when it is one.\<close>

definition announced_range :: "json \<Rightarrow> announced option" where
  "announced_range m = (
     case (json_cursor (json_get m ''server_base_cursor''), json_cursor (json_get m ''server_end_cursor''),
           json_cursor (json_get m ''delta_from_cursor''), json_cursor (json_get m ''delta_to_cursor'')) of
       (Some b, Some e, Some f, Some t) \<Rightarrow>
         if json_trimmed (json_get m ''sync_mode'') \<in> {''snapshot'', ''delta'', ''current''} \<and> b \<le> e \<and> f \<le> t \<and> t = e
         then Some \<lparr>an_base = b, an_stop = e, an_from = f, an_to = t\<rparr> else None
     | _ \<Rightarrow> None)"

definition begin_replay :: "conn \<Rightarrow> string \<Rightarrow> announced \<Rightarrow> sess \<Rightarrow> replay_error + replay" where
  "begin_replay cn history a s = (let c = replay_context cn history s in
     rp_begin (rx_request c) (rx_epoch c) (case rx_identity c of Some i \<Rightarrow> i | None \<Rightarrow> no_identity) (Big (int (an_from a))) (Big (int (an_to a))))"

text \<open>The snapshot: the checkpoint is taken, the terminal is reset, the cursors are placed.\<close>

definition snapshot_start :: "ss_env \<Rightarrow> conn \<Rightarrow> string \<Rightarrow> announced \<Rightarrow> json \<Rightarrow> sess \<Rightarrow> sess" where
  "snapshot_start en cn history a m s = (case take_checkpoint m (ss_parts s) of
       (parts, Inl e) \<Rightarrow> reject_sync cn ''Terminal checkpoint does not match its replay boundary'' (s\<lparr>ss_parts := None\<rparr>)
     | (parts, Inr ck) \<Rightarrow>
         (case reset_terminal en (OqReplayFrom (an_from a) (ck \<noteq> None) history (Some (en_now (sv_output en), m))) (s\<lparr>ss_parts := parts\<rparr>) of (ok, s1) \<Rightarrow>
            if \<not> ok then reject_sync cn ''terminal reset failed'' s1
            else set_allow (generated_allowed m) ((prepare_geometry m s1)\<lparr>ss_local_base := an_base a, ss_persisted := an_from a, ss_auth := IdentifiedReplay,
                   ss_start := an_from a\<rparr>)))"

text \<open>
  \<open>begin\<close> takes every range that was announced (\<open>announced_begins\<close> below), so that the exception, after which the code would
  keep the generation it has just noted, does not come up.
\<close>

definition identified_start :: "ss_env \<Rightarrow> conn \<Rightarrow> string \<Rightarrow> string \<Rightarrow> announced \<Rightarrow> json \<Rightarrow> sess \<Rightarrow> (sess + sess)" where
  "identified_start en cn history sync a m s = (let s1 = s\<lparr>ss_sync := sync, ss_target := an_to a\<rparr> in
     case begin_replay cn history a s1 of
       Inl e \<Rightarrow> Inl s1
     | Inr r \<Rightarrow> let s2 = oqs [OqMark False (oq_completing (ss_oq s1))] (set_replay r (s1\<lparr>ss_legacy := False,
            ss_queue_active := (an_from a = an_to a), ss_queue_legacy := False, ss_server_base := an_base a\<rparr>))
         in Inr (if sync = ''snapshot'' then snapshot_start en cn history a m s2
                 else reject_sync cn ''local and server history ranges do not match'' s2))"

text \<open>\<open>history-replay-start\<close>; an exception (\<open>Inl\<close>) is caught around the whole message.\<close>

definition history_start :: "ss_env \<Rightarrow> conn \<Rightarrow> json \<Rightarrow> sess \<Rightarrow> (sess + sess)" where
  "history_start en cn m s0 = (
     if \<not> validate_replay_message m s0 then Inr (reject_mismatch cn s0)
     else let s = ss_log HoldKept (s0\<lparr>ss_preparing := False\<rparr>);
              history = json_trimmed (json_get m ''history_generation''); sync = json_trimmed (json_get m ''sync_mode'')
       in if history = [] \<or> sync = [] then Inr (legacy_start en cn m s)
          else case announced_range m of
            None \<Rightarrow> Inr (reject_sync cn ''invalid server history range'' s)
          | Some a \<Rightarrow> if \<not> validate_workspace_message m s then Inr (reject_sync cn ''terminal workspace replay identity does not match'' s)
              else identified_start en cn history sync a m s)"

subsection \<open>Its end, and the turns of the queue\<close>

text \<open>\<open>history-replay-complete\<close>.\<close>

definition completion_valid :: "json \<Rightarrow> sess \<Rightarrow> bool" where
  "completion_valid m s = (json_trimmed (json_get m ''history_generation'') = oq_history (ss_oq s)
     \<and> (case json_cursor (json_get m ''history_cursor'') of None \<Rightarrow> False
        | Some c \<Rightarrow> c = ss_target s \<and> c \<le> oq_received (ss_oq s)) \<and> validate_workspace_message m s)"

definition complete_controller :: "conn \<Rightarrow> json \<Rightarrow> sess \<Rightarrow> (sess + sess)" where
  "complete_controller cn m s = (
     if ss_queue_active s \<and> oq_tracking (ss_oq s) then
       (case rp_complete (json_prim (json_get m ''history_cursor'')) (replay_context cn (oq_history (ss_oq s)) s) (ss_rp s) of
          Inl e \<Rightarrow> Inl (reject_sync cn ''Replay completion validation failed'' s)
        | Inr r \<Rightarrow> Inr (set_replay r s))
     else Inr s)"

definition complete_legacy :: "conn \<Rightarrow> sess \<Rightarrow> (sess + sess)" where
  "complete_legacy cn s = (if ss_legacy s then
       (case rp_complete_legacy (replay_context cn [] s) (ss_rp s) of Inl e \<Rightarrow> Inl (reject_mismatch cn s) | Inr r \<Rightarrow> Inr (set_replay r s))
     else Inr s)"

definition replay_arrived :: "ss_env \<Rightarrow> sess \<Rightarrow> sess" where
  "replay_arrived en s = (case finish_if_ready (oqs [OqMark (oq_reset_next (ss_oq s)) True] s) of (done, s1) \<Rightarrow>
     out_step (OqReceived (sv_output en) done) s1)"

definition replay_completes :: "ss_env \<Rightarrow> conn \<Rightarrow> json \<Rightarrow> sess \<Rightarrow> sess" where
  "replay_completes en cn m s = (
     if ss_auth s = NoAuthorization \<or> ss_auth s = IdentifiedReplay \<and> \<not> validate_replay_message m s then reject_mismatch cn s
     else if oq_tracking (ss_oq s) \<and> \<not> completion_valid m s then reject_sync cn ''history replay completion range does not match'' s
     else case complete_legacy cn s of Inl t \<Rightarrow> t
       | Inr s1 \<Rightarrow> (case complete_controller cn m s1 of Inl t \<Rightarrow> t | Inr s2 \<Rightarrow> replay_arrived en s2))"

definition turn_completes :: "ss_env \<Rightarrow> conn \<Rightarrow> json \<Rightarrow> sess \<Rightarrow> sess" where
  "turn_completes en cn m s = (let c = json_prim (json_get m ''applied_cursor''); q = json_prim (json_get m ''applied_sequence'');
       op = OqCompleteTurn (sv_output en) c q (Some (cn_socket cn)) (cn_epoch cn) (oq_channel (ss_oq s));
       s1 = out_step op s
     in case fst (complete_queue_turn (sv_output en) c q (Some (cn_socket cn)) (cn_epoch cn) (oq_channel (ss_oq s)) (ss_oq s)) of
          TurnInvalid reason \<Rightarrow> reject_sync cn reason s1 | _ \<Rightarrow> s1)"

subsection \<open>The other messages\<close>

definition checkpoint_part :: "conn \<Rightarrow> json \<Rightarrow> sess \<Rightarrow> sess" where
  "checkpoint_part cn m s = (case accept_part (oq_name (ss_oq s)) (oq_pane (ss_oq s)) m (ss_parts s) of
     (parts, None) \<Rightarrow> s\<lparr>ss_parts := parts\<rparr>
   | (parts, Some e) \<Rightarrow> reject_sync cn ''Terminal checkpoint parts are not continuous'' (s\<lparr>ss_parts := None\<rparr>))"

definition connection_error :: "conn \<Rightarrow> json \<Rightarrow> sess \<Rightarrow> sess" where
  "connection_error cn m s = (if ss_exit s then s
     else case (if ss_committed s then (False, s) else note_failure (json_string (json_or (json_get m ''message'') (JPrim (Str ''replay_connection_error'')))) s) of
       (paused, s1) \<Rightarrow> if paused then ss_log (SocketClosed ''replay_retry_paused'') s1
         else close_for_reconnect cn (json_string (json_or (json_get m ''message'') (JPrim (Str ''Terminal retryable connection error.'')))) s1)"

text \<open>\<open>/pane not found/i\<close> on the text of a message; \<open>sessionExit.accept\<close>.\<close>

definition text_lower :: "char \<Rightarrow> char" where
  "text_lower c = (if 65 \<le> (of_char c :: nat) \<and> (of_char c :: nat) \<le> 90 then char_of ((of_char c :: nat) + 32) else c)"

definition mentions :: "string \<Rightarrow> string \<Rightarrow> bool" where
  "mentions pat t = list_ex (\<lambda>i. take (length pat) (drop i (map text_lower t)) = pat) [0..<Suc (length t)]"

definition accept_exit :: "ss_env \<Rightarrow> json \<Rightarrow> sess \<Rightarrow> sess" where
  "accept_exit en m s = (if oq_closed (ss_oq s) \<or> ss_exit s then s
     else out_step (OqFlush (sv_output en) flush_defaults) (ss_log ProcessExit
            (s\<lparr>ss_exit := True, ss_retained := json_true (json_get m ''retained''), ss_retrying := False\<rparr>)))"

definition process_exits :: "ss_env \<Rightarrow> conn \<Rightarrow> json \<Rightarrow> sess \<Rightarrow> sess" where
  "process_exits en cn m s = (
     if json_true (json_get m ''retryable'') \<and> \<not> mentions ''pane not found'' (json_text (json_get m ''message'')) then
       close_for_reconnect cn (json_string (json_or (json_get m ''message'') (JPrim (Str ''Terminal process exited with a retryable error.'')))) s
     else let s1 = accept_exit en m s in
       if json_true (json_get m ''retained'') then s1 else ss_log WorkspaceRefresh (s1\<lparr>ss_exit := True\<rparr>))"

definition resize_message :: "conn \<Rightarrow> string \<Rightarrow> json \<Rightarrow> sess \<Rightarrow> sess" where
  "resize_message cn kind m s = (if validate_replay_message m s then ss_log (ResizeMessage kind) s else reject_mismatch cn s)"

text \<open>The switch over the type of a control message; \<open>None\<close> is a type it does not know.\<close>

definition control_message :: "ss_env \<Rightarrow> conn \<Rightarrow> string \<Rightarrow> json \<Rightarrow> sess \<Rightarrow> (sess + sess) option" where
  "control_message en cn kind m s = (
     if kind = ''history-replay-start'' then Some (history_start en cn m s)
     else if kind = ''history-replay-complete'' then Some (Inr (replay_completes en cn m s))
     else if kind = ''queue-turn-complete'' then Some (Inr (turn_completes en cn m s))
     else if kind = ''terminal-checkpoint-part'' then Some (Inr (checkpoint_part cn m s))
     else if kind = ''terminal-checkpoint-error'' then
       Some (Inr (reject_sync cn (json_string (json_or (json_get m ''message'') (JPrim (Str ''Terminal recovery checkpoint unavailable'')))) (s\<lparr>ss_parts := None\<rparr>)))
     else if kind \<in> {''resize-owner-released'', ''resize-applied'', ''resize-error''} then Some (Inr (resize_message cn kind m s))
     else if kind \<in> {''terminal-checkpoint-diagnostic'', ''server-log'', ''logical-attach-start'', ''agent-attach-ready'', ''pong''} then Some (Inr s)
     else if kind = ''agent-preparing'' then Some (Inr (ss_log AttachTimerStarted (s\<lparr>ss_preparing := True\<rparr>)))
     else if kind = ''workspace-refresh-required'' then Some (Inr (ss_log WorkspaceRefresh s))
     else if kind = ''connection-error'' then Some (Inr (connection_error cn m s))
     else if kind = ''process-exit'' then Some (Inr (process_exits en cn m s))
     else None)"

definition message_kind :: "json option \<Rightarrow> string option" where
  "message_kind m = (case m of Some j \<Rightarrow> (case json_get j ''type'' of JPrim (Str t) \<Rightarrow> Some t | _ \<Rightarrow> None) | None \<Rightarrow> None)"

definition message_guard :: "conn \<Rightarrow> sess \<Rightarrow> bool" where
  "message_guard cn s = (oq_socket (ss_oq s) = Some (cn_socket cn) \<and> transport_current cn s \<and> oq_name (ss_oq s) = oq_active (ss_oq s))"

text \<open>A text message. What is no control message, and one whose handling throws, is output.\<close>

definition text_message :: "ss_env \<Rightarrow> conn \<Rightarrow> frame_meta option \<Rightarrow> units \<Rightarrow> json option \<Rightarrow> sess \<Rightarrow> sess" where
  "text_message en cn meta t parsed s = (if \<not> message_guard cn s then s
     else case message_kind parsed of
       None \<Rightarrow> out_step (OqWrite False False (Text t)) s
     | Some kind \<Rightarrow> if \<not> channel_identity cn meta kind False s then reject_channel cn s
         else (case control_message en cn kind (the parsed) s of
             None \<Rightarrow> out_step (OqWrite False False (Text t)) s
           | Some (Inl s1) \<Rightarrow> out_step (OqWrite False False (Text t)) s1
           | Some (Inr s1) \<Rightarrow> s1))"

subsection \<open>Binary output\<close>

text \<open>The frame is checked by the replay controller while a replay runs; \<open>Inl\<close> is its exception.\<close>

definition accept_replay_frame :: "conn \<Rightarrow> frame_meta \<Rightarrow> nat \<Rightarrow> sess \<Rightarrow> replay_error + sess" where
  "accept_replay_frame cn f len s = (
     if rp_phase (ss_rp s) = RpReplaying \<and> oq_tracking (ss_oq s) then
       (if fm_sequence f = Undef \<or> fm_sequence f = Null then Inr ((set_replay rp_reset s)\<lparr>ss_queue_active := False, ss_queue_legacy := True\<rparr>)
        else (case rp_accept \<lparr>fr_seq = fm_sequence f, fr_start = fm_from f, fr_end = fm_end f, fr_len = Num (Fin (of_nat len))\<rparr>
                 (replay_context cn (oq_history (ss_oq s)) s) (ss_rp s) of
                Inl e \<Rightarrow> Inl e | Inr r \<Rightarrow> Inr ((set_replay r s)\<lparr>ss_queue_active := True\<rparr>)))
     else Inr s)"

definition binary_message :: "ss_env \<Rightarrow> conn \<Rightarrow> frame_meta option \<Rightarrow> 8 word list \<Rightarrow> sess \<Rightarrow> sess" where
  "binary_message en cn meta b s = (if \<not> message_guard cn s then s
     else if \<not> channel_identity cn meta [] True s then reject_channel cn s
     else case meta of None \<Rightarrow> s
     | Some f \<Rightarrow> (case accept_replay_frame cn f (length b) s of
         Inl e \<Rightarrow> reject_sync cn ''Queue replay controller validation failed'' s
       | Inr s1 \<Rightarrow> if ss_auth s1 = NoAuthorization \<and> \<not> ss_committed s1 then ss_log BinaryDropped s1
           else out_step (OqWrite False False (Bytes b)) (oqs [OqNoteFrame (fm_end f) (fm_sequence f)] s1)))"

subsection \<open>Connections\<close>

text \<open>
  \<open>connectUnifiedSession\<close> of the transport runtime asks first (\<open>asks_stream\<close>), then \<open>connectSession\<close>, which only it calls
  for such a stream (\<open>may_connect\<close>). \<open>connectSession\<close> also skips a pane whose socket is open or connecting, which cannot
  be here: \<open>asks_stream\<close> demands that there is none. The page is taken to be visible and online.
\<close>

definition asks_stream :: "sess \<Rightarrow> bool" where
  "asks_stream s = (\<not> oq_closed (ss_oq s) \<and> \<not> ss_exit s \<and> \<not> ss_paused s \<and> oq_socket (ss_oq s) = None \<and> ss_sized s)"

definition may_connect :: "sess \<Rightarrow> bool" where
  "may_connect s = (\<not> oq_closed (ss_oq s) \<and> \<not> ss_paused s \<and> ss_matches s \<and> oq_name (ss_oq s) = oq_active (ss_oq s) \<and> ss_sized s)"

definition connect_stream :: "nat \<Rightarrow> nat \<Rightarrow> string \<Rightarrow> sess \<Rightarrow> sess" where
  "connect_stream socket channel stream s = (if \<not> asks_stream s \<or> \<not> may_connect s then s
     else let s1 = reset_replay (oqs [OqStream 0 channel True (Some socket)] (s\<lparr>ss_request := Suc (ss_request s), ss_stream := stream, ss_parts := None\<rparr>))
       in set_allow False (oqs [OqMark (oq_reset_next (ss_oq s1)) False, OqResetTurn ''window-ack-v1'']
            (s1\<lparr>ss_complete := False, ss_auth := NoAuthorization\<rparr>)))"

text \<open>The listener of \<open>close\<close>; whether the pane is shown as reconnecting depends on the reason.\<close>

definition detach_socket :: "bool \<Rightarrow> sess \<Rightarrow> sess" where
  "detach_socket reconnecting s = (let s1 = reset_replay (s\<lparr>ss_complete := False, ss_auth := NoAuthorization, ss_preparing := False, ss_retrying := reconnecting\<rparr>)
     in set_allow False (oqs [OqDropSocket, OqMark (oq_reset_next (ss_oq s1)) False] s1))"

definition stream_closes :: "ss_env \<Rightarrow> conn \<Rightarrow> bool \<Rightarrow> sess \<Rightarrow> sess" where
  "stream_closes en cn reconnecting s0 = (if oq_socket (ss_oq s0) \<noteq> Some (cn_socket cn) then s0
     else let s = s0\<lparr>ss_parts := None\<rparr> in
       if ss_retained s then
         (let s1 = (oqs [OqResetTurn ''turn-ack-v1'', OqDropSocket] s)\<lparr>ss_retrying := False\<rparr>
          in if 0 < oq_size (ss_oq s1) then s1 else (oqs [OqDetach] s1)\<lparr>ss_stream := []\<rparr>)
       else let s1 = (oqs [OqDetach] (detach_socket reconnecting s))\<lparr>ss_stream := []\<rparr>
         in if oq_closed (ss_oq s1) then s1 else out_step (OqFlush (sv_output en) flush_defaults) s1)"

text \<open>\<open>requestSessionHistoryReplay\<close> of the recovery, and \<open>terminalReplay.resumeRetry\<close>.\<close>

definition recover_session :: "sess \<Rightarrow> sess" where
  "recover_session s = (if oq_closed (ss_oq s) \<or> ss_exit s \<or> oq_name (ss_oq s) \<noteq> oq_active (ss_oq s) then s
     else let s1 = oqs [OqMark True False, OqDiscard] (reset_replay s)
       in if oq_unified (ss_oq s1) then ss_log (Recycled ''unified history resync requested'') s1
          else ss_log (Recycled ''history_resync'') (s1\<lparr>ss_complete := False, ss_auth := NoAuthorization, ss_retrying := True,
                 ss_reconnects := max 1 (ss_reconnects s1)\<rparr>))"

definition checkpoint_settles :: "conn \<Rightarrow> bool \<Rightarrow> sess \<Rightarrow> sess" where
  "checkpoint_settles cn ok s = (if oq_restoring (ss_oq s) = None then s
     else if ok then oqs [OqRestored] s
     else let s1 = oqs [OqRestoreFailed] s
       in if oq_closed (ss_oq s) then s1 else reject_sync cn ''checkpoint restore failed'' s1)"

definition destroy_session :: "sess \<Rightarrow> sess" where
  "destroy_session s = (if oq_closed (ss_oq s) then s
     else oqs [OqDisposeSession] ((set_replay rp_reset (oqs [OqClose] s))\<lparr>ss_queue_active := False, ss_queue_legacy := False\<rparr>))"

subsection \<open>Events\<close>

text \<open>What the browser and the parser do to the output queue of a session, and nothing else.\<close>

definition outer_op :: "oq_op \<Rightarrow> bool" where
  "outer_op op = (case op of OqWake _ \<Rightarrow> True | OqWriteSettles _ _ \<Rightarrow> True | OqFlushSettles \<Rightarrow> True | OqSetActive _ \<Rightarrow> True
     | OqSetResizing _ _ \<Rightarrow> True | OqCloseGate \<Rightarrow> True | OqOpenGate \<Rightarrow> True | OqFenceDrain _ _ \<Rightarrow> True | OqSetRemote _ \<Rightarrow> True
     | OqTryAck _ \<Rightarrow> True | OqImmediate _ d \<Rightarrow> (case d of Bytes _ \<Rightarrow> False | _ \<Rightarrow> True) | OqFlush _ _ \<Rightarrow> True | OqSchedule \<Rightarrow> True
     | OqDispose \<Rightarrow> False | _ \<Rightarrow> False)"

datatype ss_event = SsText ss_env conn "frame_meta option" units "json option" | SsBinary ss_env conn "frame_meta option" "8 word list"
  | SsClose ss_env conn bool | SsConnect nat nat string | SsOutput oq_op | SsRecover | SsResume | SsRestored conn bool | SsGeometry
  | SsDestroy | SsSized bool bool

fun ss_step :: "sess \<Rightarrow> ss_event \<Rightarrow> sess" where
  "ss_step s (SsText en cn meta t m) = text_message en cn meta t m s"
| "ss_step s (SsBinary en cn meta b) = binary_message en cn meta b s"
| "ss_step s (SsClose en cn r) = stream_closes en cn r s"
| "ss_step s (SsConnect socket channel stream) = connect_stream socket channel stream s"
| "ss_step s (SsOutput op) = (if outer_op op then out_step op s else s)"
| "ss_step s SsRecover = recover_session s"
| "ss_step s SsResume = snd (resume_retry s)"
| "ss_step s (SsRestored cn ok) = checkpoint_settles cn ok s"
| "ss_step s SsGeometry = geometry_done s"
| "ss_step s SsDestroy = destroy_session s"
| "ss_step s (SsSized sized matches) = s\<lparr>ss_sized := sized, ss_matches := matches\<rparr>"

abbreviation ss_run :: "string \<Rightarrow> string \<Rightarrow> string \<Rightarrow> string \<Rightarrow> ss_event list \<Rightarrow> sess" where
  "ss_run selector tab pane workspace es \<equiv> foldl ss_step (ss_fresh selector tab pane workspace) es"

subsection \<open>The session acts on its queue by the queue's operations\<close>

text \<open>
  What every operation of the output queue keeps, every step of the session keeps: the handlers change the
  queue by its operations only. The invariants of \<open>Output_Queue\<close> are carried over by this.
\<close>

locale queue_property =
  fixes P :: "oq \<Rightarrow> bool"
  assumes step: "P q \<Longrightarrow> P (oq_step q op)"
begin

lemma ops: "P (ss_oq s) \<Longrightarrow> P (ss_oq (oqs ops s))"
proof -
  have "P q \<Longrightarrow> P (foldl oq_step q ops)" for q by (induction ops arbitrary: q) (auto intro: step)
  then show "P (ss_oq s) \<Longrightarrow> P (ss_oq (oqs ops s))" by (simp add: oqs_def)
qed

lemma log: "ss_oq (ss_log x s) = ss_oq s"
  by (simp add: ss_log_def)

lemma replay: "P (ss_oq s) \<Longrightarrow> P (ss_oq (set_replay r s))" "P (ss_oq s) \<Longrightarrow> P (ss_oq (set_allow a s))"
  "P (ss_oq s) \<Longrightarrow> P (ss_oq (reset_replay s))"
  by (auto simp: set_replay_def set_allow_def reset_replay_def intro: ops)

lemma finish: "P (ss_oq s) \<Longrightarrow> P (ss_oq (snd (finish_if_ready s)))"
  by (auto simp: finish_if_ready_def finish_replay_def Let_def log intro!: ops replay)

lemma out: "P (ss_oq s) \<Longrightarrow> P (ss_oq (out_step op s))"
  by (auto simp: out_step_def Let_def intro!: ops finish)

lemma failure: "note_failure reason s = (p, t) \<Longrightarrow> ss_oq t = ss_oq s"
  by (auto simp: note_failure_def Let_def log split: if_splits)

lemma reconnect: "ss_oq (close_for_reconnect cn reason s) = ss_oq s"
  by (simp add: close_for_reconnect_def log)

lemma reject_sync: "P (ss_oq s) \<Longrightarrow> P (ss_oq (reject_sync cn reason s))"
  unfolding reject_sync_def Let_def by (auto simp: log reconnect failure intro!: ops replay split: prod.split)

lemma reject_mismatch: "ss_oq (reject_mismatch cn s) = ss_oq s"
  by (simp add: reject_mismatch_def log reconnect)

lemma reject_channel: "P (ss_oq s) \<Longrightarrow> P (ss_oq (reject_channel cn s))"
  unfolding reject_channel_def Let_def by (auto simp: log reconnect intro!: ops replay)

lemma reset: "reset_terminal en (OqReplayFrom n ck h msg) s = (ok, t) \<Longrightarrow> P (ss_oq s) \<Longrightarrow> P (ss_oq t)"
  by (auto simp: reset_terminal_def log intro!: ops split: if_splits)

lemma geometry: "P (ss_oq s) \<Longrightarrow> P (ss_oq (prepare_geometry m s))" "P (ss_oq s) \<Longrightarrow> P (ss_oq (geometry_done s))"
  by (auto simp: prepare_geometry_def geometry_done_def intro!: ops)

lemma legacy: "P (ss_oq s) \<Longrightarrow> P (ss_oq (legacy_start en cn m s))"
proof -
  assume s: "P (ss_oq s)"
  define u where "u = oqs [OqStopTracking, OqForgetCursors] (set_replay (rp_begin_legacy (rx_request (replay_context cn [] s))
    (rx_epoch (replay_context cn [] s)) (case rx_identity (replay_context cn [] s) of Some i \<Rightarrow> i | None \<Rightarrow> no_identity))
    (s\<lparr>ss_queue_active := False, ss_queue_legacy := True, ss_legacy := True, ss_ready := False,
              ss_local_base := 0, ss_persisted := 0, ss_target := 0, ss_server_base := 0\<rparr>))"
  have "P (ss_oq u)" using s by (auto simp: u_def intro!: ops replay)
  then show ?thesis unfolding legacy_start_def Let_def u_def [symmetric]
    by (auto simp: reconnect split: prod.split dest!: reset intro!: replay geometry ops)
qed

lemma snapshot: "P (ss_oq s) \<Longrightarrow> P (ss_oq (snapshot_start en cn h a m s))"
  unfolding snapshot_start_def by (auto split: prod.split sum.split dest!: reset intro!: reject_sync replay geometry)

lemma identified: "P (ss_oq s) \<Longrightarrow> case identified_start en cn h sync a m s of Inl t \<Rightarrow> P (ss_oq t) | Inr t \<Rightarrow> P (ss_oq t)"
  unfolding identified_start_def Let_def
  by (cases "begin_replay cn h a (s\<lparr>ss_sync := sync, ss_target := an_to a\<rparr>)") (auto intro!: snapshot reject_sync ops replay)

lemma start: "P (ss_oq s) \<Longrightarrow> case history_start en cn m s of Inl t \<Rightarrow> P (ss_oq t) | Inr t \<Rightarrow> P (ss_oq t)"
proof -
  assume s: "P (ss_oq s)"
  define u where "u = ss_log HoldKept (s\<lparr>ss_preparing := False\<rparr>)"
  have u: "P (ss_oq u)" using s by (simp add: u_def log)
  define h sync where "h = json_trimmed (json_get m ''history_generation'')" and "sync = json_trimmed (json_get m ''sync_mode'')"
  have e: "history_start en cn m s = (if \<not> validate_replay_message m s then Inr (reject_mismatch cn s)
       else if h = [] \<or> sync = [] then Inr (legacy_start en cn m u)
       else case announced_range m of None \<Rightarrow> Inr (reject_sync cn ''invalid server history range'' u)
          | Some a \<Rightarrow> if \<not> validate_workspace_message m u then Inr (reject_sync cn ''terminal workspace replay identity does not match'' u)
              else identified_start en cn h sync a m u)"
    by (simp only: history_start_def Let_def u_def h_def sync_def)
  show ?thesis
  proof (cases "announced_range m")
    case None
    then show ?thesis using s legacy [OF u] reject_sync [OF u] by (simp add: e reject_mismatch)
  next
    case (Some a)
    then show ?thesis using s legacy [OF u] reject_sync [OF u] identified [OF u, of en cn h sync a m] by (simp add: e reject_mismatch)
  qed
qed

lemma controller: "P (ss_oq s) \<Longrightarrow> case complete_controller cn m s of Inl t \<Rightarrow> P (ss_oq t) | Inr t \<Rightarrow> P (ss_oq t)"
  "P (ss_oq s) \<Longrightarrow> case complete_legacy cn s of Inl t \<Rightarrow> P (ss_oq t) | Inr t \<Rightarrow> P (ss_oq t)"
  unfolding complete_controller_def complete_legacy_def
  by (auto simp: reject_mismatch intro!: reject_sync replay split: sum.split)

lemma arrived: "P (ss_oq s) \<Longrightarrow> P (ss_oq (replay_arrived en s))"
proof -
  assume "P (ss_oq s)"
  then have "P (ss_oq (snd (finish_if_ready (oqs [OqMark (oq_reset_next (ss_oq s)) True] s))))" by (intro finish ops)
  then show ?thesis by (auto simp: replay_arrived_def intro!: out split: prod.split)
qed

lemma completes: "P (ss_oq s) \<Longrightarrow> P (ss_oq (replay_completes en cn m s))"
proof -
  assume s: "P (ss_oq s)"
  have c: "P (ss_oq (case complete_controller cn m t of Inl u \<Rightarrow> u | Inr u \<Rightarrow> replay_arrived en u))" if "P (ss_oq t)" for t
    using controller(1) [OF that, of cn m] by (cases "complete_controller cn m t") (simp_all add: arrived)
  have "P (ss_oq (case complete_legacy cn s of Inl t \<Rightarrow> t
       | Inr t \<Rightarrow> (case complete_controller cn m t of Inl u \<Rightarrow> u | Inr u \<Rightarrow> replay_arrived en u)))"
    using controller(2) [OF s, of cn] by (cases "complete_legacy cn s") (simp_all add: c)
  then show ?thesis using s reject_sync [OF s] by (simp add: replay_completes_def reject_mismatch)
qed

lemma turn: "P (ss_oq s) \<Longrightarrow> P (ss_oq (turn_completes en cn m s))"
  unfolding turn_completes_def Let_def by (auto intro!: reject_sync out split: turn_result.split)

lemma part: "P (ss_oq s) \<Longrightarrow> P (ss_oq (checkpoint_part cn m s))"
  unfolding checkpoint_part_def by (auto intro!: reject_sync split: prod.split option.split)

lemma connection: "ss_oq (connection_error cn m s) = ss_oq s"
proof -
  have f: "ss_oq t = ss_oq s" if "(if ss_committed s then (False, s) else note_failure r s) = (b, t)" for b r t
    using that failure [of r s b t] by (auto split: if_splits)
  show ?thesis unfolding connection_error_def by (auto simp: log reconnect failure split: prod.split dest!: f)
qed

lemma exits: "P (ss_oq s) \<Longrightarrow> P (ss_oq (process_exits en cn m s))"
proof -
  assume s: "P (ss_oq s)"
  then have "P (ss_oq (accept_exit en m s))" unfolding accept_exit_def by (auto simp: log intro!: out)
  then show ?thesis using s by (simp add: process_exits_def Let_def reconnect log)
qed

lemma control: "P (ss_oq s) \<Longrightarrow> case control_message en cn kind m s of None \<Rightarrow> True
    | Some r \<Rightarrow> (case r of Inl t \<Rightarrow> P (ss_oq t) | Inr t \<Rightarrow> P (ss_oq t))"
proof -
  assume s: "P (ss_oq s)"
  have r: "P (ss_oq (resize_message cn kind m s))" using s by (simp add: resize_message_def reject_mismatch log)
  have c: "P (ss_oq (reject_sync cn w (s\<lparr>ss_parts := None\<rparr>)))" for w using s by (intro reject_sync) simp
  show ?thesis
    using s r c start [OF s, of en cn m] completes [OF s, of en cn m] turn [OF s, of en cn m] part [OF s, of cn m]
      exits [OF s, of en cn m]
    by (simp add: control_message_def log connection)
qed

lemma text_msg: "P (ss_oq s) \<Longrightarrow> P (ss_oq (text_message en cn meta t parsed s))"
proof (cases "message_kind parsed")
  case (Some kind)
  assume s: "P (ss_oq s)"
  show ?thesis
    using s control [OF s, of en cn kind "the parsed"] reject_channel [OF s, of cn] Some
    by (auto simp: text_message_def intro: out split: option.splits sum.splits)
qed (auto simp: text_message_def intro: out)

lemma accepted: "accept_replay_frame cn f n s = Inr t \<Longrightarrow> P (ss_oq s) \<Longrightarrow> P (ss_oq t)"
  by (auto simp: accept_replay_frame_def intro: replay split: if_splits sum.splits)

lemma binary: "P (ss_oq s) \<Longrightarrow> P (ss_oq (binary_message en cn meta b s))"
  unfolding binary_message_def
  by (auto simp: log intro!: reject_channel reject_sync out ops dest: accepted split: option.split sum.split)

lemma connect: "P (ss_oq s) \<Longrightarrow> P (ss_oq (connect_stream socket channel stream s))"
  unfolding connect_stream_def Let_def by (auto intro!: ops replay)

lemma closes: "P (ss_oq s) \<Longrightarrow> P (ss_oq (stream_closes en cn r s))"
  unfolding stream_closes_def detach_socket_def Let_def by (auto intro!: ops replay out)

lemma recovers: "P (ss_oq s) \<Longrightarrow> P (ss_oq (recover_session s))"
  unfolding recover_session_def Let_def by (auto simp: log intro!: ops replay)

lemma settles: "P (ss_oq s) \<Longrightarrow> P (ss_oq (checkpoint_settles cn ok s))"
  unfolding checkpoint_settles_def Let_def by (auto intro!: ops reject_sync)

lemma others: "P (ss_oq s) \<Longrightarrow> P (ss_oq (destroy_session s))" "P (ss_oq s) \<Longrightarrow> P (ss_oq (snd (resume_retry s)))"
  unfolding destroy_session_def resume_retry_def by (auto simp: set_replay_def intro!: ops)

lemma session: "P (ss_oq s) \<Longrightarrow> P (ss_oq (ss_step s e))"
  by (cases e) (auto intro: text_msg binary connect closes recovers settles others out geometry)

lemma sessions: "P (ss_oq s) \<Longrightarrow> P (ss_oq (foldl ss_step s es))"
  by (induction es arbitrary: s) (auto intro: session)

end

interpretation sq: queue_property "\<lambda>q. \<exists>ops. q = oq_run selector pane ops"
proof
  fix q op assume "\<exists>ops. q = oq_run selector pane ops"
  then obtain ops where "q = oq_run selector pane ops" by blast
  then have "oq_step q op = oq_run selector pane (ops @ [op])" by simp
  then show "\<exists>ops. oq_step q op = oq_run selector pane ops" by blast
qed

lemma session_queue: "\<exists>ops. ss_oq (ss_run selector tab pane workspace es) = oq_run selector pane ops"
proof -
  have "\<exists>ops. ss_oq (ss_fresh selector tab pane workspace) = oq_run selector pane ops"
    by (rule exI [where x = "[]"]) (simp add: ss_fresh_def)
  then show ?thesis by (rule sq.sessions)
qed

lemma session_queue_inv: "oq_inv (ss_oq (ss_run selector tab pane workspace es))"
  using session_queue [of selector tab pane workspace es] oq_run_inv by auto

subsection \<open>A replay and the cursors of its queue\<close>

text \<open>What only a discard, a replay and the end of a session change of a queue.\<close>

definition oq_seat :: "oq \<Rightarrow> nat \<times> bool \<times> bool" where
  "oq_seat q = (oq_from q, oq_tracking q, oq_closed q)"

definition steady :: "oq_op \<Rightarrow> bool" where
  "steady op = (case op of OqDiscard \<Rightarrow> False | OqReplayFrom _ _ _ _ \<Rightarrow> False | OqStopTracking \<Rightarrow> False | OqDispose \<Rightarrow> False
     | OqDisposeSession \<Rightarrow> False | OqClose \<Rightarrow> False | _ \<Rightarrow> True)"

lemma seat_core: "oq_core t = oq_core s \<Longrightarrow> oq_seat t = oq_seat s"
proof -
  have "oq_seat (oq_core u) = oq_seat u" for u by (simp add: oq_core_def oq_seat_def)
  then show "oq_core t = oq_core s \<Longrightarrow> oq_seat t = oq_seat s" by metis
qed

lemma seat_parts:
  "oq_seat (tell x s) = oq_seat s" "oq_seat (tell_if b x s) = oq_seat s" "oq_seat (touch_batch s) = oq_seat s"
  "oq_seat (lifecycle_clear s) = oq_seat s" "oq_seat (schedule_flush s) = oq_seat s" "oq_seat (handle_overload s) = oq_seat s"
  by (simp_all add: oq_seat_def tell_def tell_if_def touch_batch_def lifecycle_clear_def lifecycle_schedule_def schedule_flush_def
      handle_overload_def)

lemma seat_enqueue: "oq_seat (snd (enqueue_pieces tpl b x ds s)) = oq_seat s"
proof (induction ds arbitrary: x s)
  case (Cons d ds)
  have "oq_seat (push_entry e s) = oq_seat s" for e by (simp add: push_entry_def oq_seat_def)
  then show ?case using Cons by (auto simp: seat_parts Let_def)
qed simp

lemma seat_write: "oq_seat (snd (oq_write l d x s)) = oq_seat s"
proof -
  have "oq_seat (snd (after_write r)) = oq_seat (snd r)" for r by (cases r) (simp add: after_write_def seat_parts)
  then show ?thesis by (simp add: oq_write_def Let_def seat_parts seat_enqueue)
qed

lemma seat_start: "oq_seat (drain_start en fo s) = oq_seat s"
proof -
  have "oq_seat (u\<lparr>oq_flight := f\<rparr>) = oq_seat u" "oq_seat (u\<lparr>oq_reset_next := c\<rparr>) = oq_seat u" "oq_seat (drop_queue u) = oq_seat u" for u f c
    by (simp_all add: oq_seat_def drop_queue_def)
  then show ?thesis
    by (simp add: drain_start_def seat_parts seat_core [OF core_drain_loop] seat_core [OF core_try_ack])
qed

lemma seat_flush: "oq_seat (oq_flush en fo s) = oq_seat s"
proof -
  have "oq_seat (flush_enter fo u) = oq_seat u" for u by (simp add: flush_enter_def seat_parts) (simp add: oq_seat_def)
  then show ?thesis by (simp add: oq_flush_def Let_def seat_parts seat_start)
qed

lemma seat_ends: "oq_seat (flush_settles s) = oq_seat s" "oq_seat (write_settles en r s) = oq_seat s"
proof -
  have f: "oq_seat (flush_finally u) = oq_seat u" for u
    by (simp add: flush_finally_def Let_def seat_parts) (simp add: oq_seat_def)
  have c: "oq_seat (flush_caught b g u) = oq_seat u" for b g u
    by (simp add: flush_caught_def seat_parts) (simp add: oq_seat_def)
  show "oq_seat (flush_settles s) = oq_seat s"
    by (simp add: flush_settles_def f c split: option.split flight.split)
  have t: "oq_seat (take_applied en w u) = oq_seat u" for w u
    by (simp add: take_applied_def Let_def seat_parts split: option.split) (simp add: oq_seat_def)
  have x: "oq_seat (u\<lparr>oq_flight := fl\<rparr>) = oq_seat u" "oq_seat (end_replay_depth w u) = oq_seat u" "oq_seat (parsed_hooks en w u) = oq_seat u"
    for u fl w by (simp_all add: seat_core [OF core_hooks] end_replay_depth_def) (simp_all add: oq_seat_def)
  show "oq_seat (write_settles en r s) = oq_seat s"
    by (simp add: write_settles_def t x seat_core [OF core_drain_loop] seat_core [OF core_try_ack] seat_core [OF core_drain_end]
        split: option.split flight.split)
qed

lemma seat_turn: "oq_seat (snd (complete_queue_turn en c q sk ep ch s)) = oq_seat s"
proof -
  have x: "oq_seat (u\<lparr>oq_pending := p\<rparr>) = oq_seat u" "oq_seat (u\<lparr>oq_pending := p, oq_bounds := b\<rparr>) = oq_seat u" for u p b
    by (simp_all add: oq_seat_def)
  show ?thesis
    by (simp add: complete_queue_turn_def turn_ack_pending_def Let_def x seat_parts seat_core [OF core_try_ack] seat_flush split: option.split)
qed

lemma seat_others:
  "oq_seat (replay_received en b s) = oq_seat s" "oq_seat (checkpoint_restored s) = oq_seat s" "oq_seat (open_gate s) = oq_seat s"
  "oq_seat (fence_drain en n s) = oq_seat s" "oq_seat (forget_cursors s) = oq_seat s" "oq_seat (reset_queue_turn fl s) = oq_seat s"
  "oq_seat (snd (note_turn_frame v w s)) = oq_seat s" "oq_seat (clear_overload s) = oq_seat s" "oq_seat (try_send_ack en s) = oq_seat s"
proof -
  have x: "oq_seat (snd (complete_replay_batch now u)) = oq_seat u" "oq_seat (u\<lparr>oq_block := c\<rparr>) = oq_seat u" for now u c
    by (simp_all add: complete_replay_batch_def oq_seat_def split: prod.split)
  show "oq_seat (replay_received en b s) = oq_seat s" by (simp add: replay_received_def Let_def x seat_flush)
  show "oq_seat (open_gate s) = oq_seat s" by (simp add: open_gate_def Let_def x seat_parts)
  show "oq_seat (fence_drain en n s) = oq_seat s" by (simp add: fence_drain_def x seat_flush)
qed (simp_all add: seat_core [OF core_try_ack], simp_all add: oq_seat_def checkpoint_restored_def forget_cursors_def
      reset_queue_turn_def note_turn_frame_def clear_overload_def Let_def split: option.split)

lemma seat_step: "steady op \<Longrightarrow> oq_seat (oq_step s op) = oq_seat s"
proof (cases op)
  case (OqImmediate en d)
  then show ?thesis using seat_write [of True False d s] by (auto simp: write_immediate_def seat_flush split: prod.split)
next
  case (OqWake en)
  then show ?thesis by (simp add: seat_flush seat_parts)
qed (simp_all add: steady_def seat_write seat_flush seat_ends seat_turn seat_others seat_parts, simp_all add: oq_seat_def)

lemma seat_steps: "list_all steady ops \<Longrightarrow> oq_seat (foldl oq_step s ops) = oq_seat s"
  by (induction ops arbitrary: s) (simp_all add: seat_step)

text \<open>Unless output was dropped, the applied cursor does not fall back.\<close>

definition queue_progress :: "oq \<Rightarrow> oq \<Rightarrow> bool" where
  "queue_progress q t = (oq_gap t \<or> \<not> oq_gap q \<and> oq_applied q \<le> oq_applied t)"

lemma queue_progress_eq: "\<lbrakk>oq_gap t = oq_gap q; oq_applied t = oq_applied q\<rbrakk> \<Longrightarrow> queue_progress q t"
  by (auto simp: queue_progress_def)

lemma queue_progress_core: "oq_core t = oq_core q \<Longrightarrow> queue_progress q t"
  using core_fields [of t q] by (intro queue_progress_eq) simp_all

lemma queue_progress_trans: "\<lbrakk>queue_progress q t; queue_progress t u\<rbrakk> \<Longrightarrow> queue_progress q u"
  by (auto simp: queue_progress_def)

lemma still_parts [simp]:
  "oq_gap (tell x s) = oq_gap s" "oq_gap (tell_if b x s) = oq_gap s" "oq_gap (touch_batch s) = oq_gap s"
  "oq_gap (lifecycle_clear s) = oq_gap s" "oq_gap (schedule_flush s) = oq_gap s" "oq_gap (handle_overload s) = oq_gap s"
  "oq_applied (tell x s) = oq_applied s" "oq_applied (tell_if b x s) = oq_applied s" "oq_applied (touch_batch s) = oq_applied s"
  "oq_applied (lifecycle_clear s) = oq_applied s" "oq_applied (schedule_flush s) = oq_applied s" "oq_applied (handle_overload s) = oq_applied s"
  by (simp_all add: tell_def tell_if_def touch_batch_def lifecycle_clear_def lifecycle_schedule_def schedule_flush_def handle_overload_def)

lemma still_write: "oq_gap (snd (oq_write l d x s)) = oq_gap s \<and> oq_applied (snd (oq_write l d x s)) = oq_applied s"
proof -
  have e: "oq_gap (snd (enqueue_pieces tpl b y ds u)) = oq_gap u \<and> oq_applied (snd (enqueue_pieces tpl b y ds u)) = oq_applied u" for tpl b y ds u
  proof (induction ds arbitrary: y u)
    case (Cons z ds)
    have "oq_gap (push_entry e u) = oq_gap u \<and> oq_applied (push_entry e u) = oq_applied u" for e by (simp add: push_entry_def)
    then show ?case using Cons by (auto simp: Let_def)
  qed simp
  have "oq_gap (snd (after_write r)) = oq_gap (snd r) \<and> oq_applied (snd (after_write r)) = oq_applied (snd r)" for r
    by (cases r) (simp add: after_write_def)
  then show ?thesis by (simp add: oq_write_def Let_def e)
qed

lemma queue_progress_flush: "queue_progress s (oq_flush en fo s)"
proof -
  have enter: "oq_gap (flush_enter fo u) = oq_gap u \<and> oq_applied (flush_enter fo u) = oq_applied u" for u by (simp add: flush_enter_def)
  have start: "queue_progress u (drain_start en fo u)" for u
    using core_fields(17,19) [OF core_drain_loop] core_fields(17,19) [OF core_try_ack]
    by (auto simp: drain_start_def queue_progress_def drop_queue_def)
  have "queue_progress s (flush_enter fo (lifecycle_clear s))" by (rule queue_progress_eq) (simp_all add: enter)
  then have "queue_progress s (drain_start en fo (flush_enter fo (lifecycle_clear s)))" by (rule queue_progress_trans [OF _ start])
  then show ?thesis by (simp add: oq_flush_def Let_def) (simp add: queue_progress_def enter)
qed

lemma chain_ends: "\<lbrakk>cursor_chain a es r; e \<in> set es; list_all (entry_ok g) es; oe_end e = Some y\<rbrakk> \<Longrightarrow> a \<le> y"
proof (induction es arbitrary: a)
  case (Cons f es)
  show ?case
  proof (cases "e = f")
    case True
    then show ?thesis using Cons.prems by (auto simp: entry_ok_def split: option.splits)
  next
    case False
    then show ?thesis using Cons by (fastforce split: option.splits)
  qed
qed simp

lemma queue_progress_writes:
  assumes s: "oq_inv s" "\<not> oq_gap s \<Longrightarrow> oq_from s \<le> oq_applied s"
  shows "queue_progress s (write_settles en r s)"
proof (cases "\<exists>d w. oq_flight s = Some (Writing d w) \<and> r = Parsed \<and> \<not> oq_closed s \<and> oq_gen s = pw_gen w")
  case False
  have x: "oq_gap (end_replay_depth w u) = oq_gap u \<and> oq_applied (end_replay_depth w u) = oq_applied u" for w u
    using core_fields(17,19) [OF core_small(6) [of w u]] by simp
  have "oq_gap (drain_end en d u) = oq_gap u \<and> oq_applied (drain_end en d u) = oq_applied u" for d u
    using core_fields(17,19) [OF core_drain_end [of en d u]] by simp
  then have "oq_gap (write_settles en r s) = oq_gap s \<and> oq_applied (write_settles en r s) = oq_applied s"
    using False by (auto simp: write_settles_def x split: option.split flight.split)
  then show ?thesis by (simp add: queue_progress_eq)
next
  case True
  then obtain d w where f: "oq_flight s = Some (Writing d w)" "r = Parsed" "\<not> oq_closed s" "oq_gen s = pw_gen w" by blast
  then have fits: "pw_entries w \<noteq> []" "take (length (pw_entries w)) (oq_queue s) = pw_entries w"
    using s(1) by (simp_all add: oq_inv_def write_fits_def)
  then have l: "last (pw_entries w) \<in> set (oq_queue s)" by (metis in_set_takeD last_in_set)
  define t where "t = end_replay_depth w (parsed_hooks en w s)"
  have c: "oq_core t = oq_core s" by (simp add: t_def)
  have "queue_progress t (take_applied en w t)"
  proof (cases "oe_end (last (pw_entries w))")
    case None
    then show ?thesis by (intro queue_progress_eq) (simp_all add: take_applied_def Let_def)
  next
    case (Some y)
    have "oq_applied s \<le> y" if "\<not> oq_gap s"
      using chain_ends [OF _ l _ Some] s that by (auto simp: oq_inv_def order_ok_def queue_ok_def reached_def max_def split: if_splits)
    then show ?thesis using Some core_fields(17,19) [OF c] by (auto simp: queue_progress_def take_applied_def Let_def)
  qed
  then have "queue_progress s (take_applied en w t)" by (rule queue_progress_trans [OF queue_progress_core [OF c]])
  then have "queue_progress s (drain_loop en (d\<lparr>dr_wrote := True\<rparr>) (try_send_ack en (take_applied en w t)))"
    by (rule queue_progress_trans [OF queue_progress_trans [OF _ queue_progress_core] queue_progress_core]) simp_all
  then show ?thesis using f by (simp add: write_settles_def t_def)
qed

lemma queue_progress_step:
  assumes "steady op" "oq_inv s" "\<not> oq_gap s \<Longrightarrow> oq_from s \<le> oq_applied s"
  shows "queue_progress s (oq_step s op)"
proof -
  have imm: "queue_progress s (snd (write_immediate en d s))" for en d
  proof -
    obtain ok u where r: "oq_write True False d s = (ok, u)" by (cases "oq_write True False d s")
    then have "queue_progress s u" using still_write [of True False d s] by (intro queue_progress_eq) simp_all
    then show ?thesis using r queue_progress_trans [OF _ queue_progress_flush] by (simp add: write_immediate_def)
  qed
  have flush: "queue_progress s (oq_flush en fo u)" if "oq_gap u = oq_gap s" "oq_applied u = oq_applied s" for en fo u
    by (rule queue_progress_trans [OF queue_progress_eq queue_progress_flush]) (simp_all add: that)
  have ack: "queue_progress s (try_send_ack en u)" if "queue_progress s u" for en u
    by (rule queue_progress_trans [OF that queue_progress_core]) simp
  have turn: "queue_progress s (snd (complete_queue_turn en c q sk ep ch s))" for en c q sk ep ch
    by (auto simp: complete_queue_turn_def turn_ack_pending_def Let_def intro: queue_progress_eq intro!: ack flush split: option.split)
  have arrived: "queue_progress s (replay_received en b s)" for en b
    by (auto simp: replay_received_def Let_def complete_replay_batch_def intro: queue_progress_eq intro!: flush split: prod.split)
  have ends: "queue_progress s (flush_settles s)"
    by (rule queue_progress_eq) (simp_all add: flush_settles_def flush_finally_def flush_caught_def Let_def split: option.split flight.split)
  have written: "queue_progress s (write_settles en r s)" for en r using assms(2,3) by (rule queue_progress_writes)
  show ?thesis
    using assms(1) by (cases op) (auto simp: steady_def imm turn arrived ends written fence_drain_def still_write open_gate_def
        checkpoint_restored_def reset_queue_turn_def note_turn_frame_def clear_overload_def Let_def
        intro!: flush ack intro: queue_progress_eq split: option.split, auto simp: queue_progress_def forget_cursors_def)
qed

text \<open>A replay that runs on a tracked queue starts where the queue starts, and the target of the controller is the announced one;
  once it is committed, everything up to the target is parsed.\<close>

definition tied :: "sess \<Rightarrow> bool" where
  "tied s = (rp_phase (ss_rp s) \<noteq> RpIdle \<and> oq_tracking (ss_oq s) \<and> \<not> oq_closed (ss_oq s)
     \<longrightarrow> oq_from (ss_oq s) = ss_start s \<and> ss_start s \<le> ss_target s \<and> rp_target (ss_rp s) = Some (ss_target s)
        \<and> (ss_committed s \<and> \<not> oq_gap (ss_oq s) \<longrightarrow> ss_target s \<le> oq_applied (ss_oq s)))"

lemma tied_cong:
  "\<lbrakk>ss_rp t = ss_rp s; oq_seat (ss_oq t) = oq_seat (ss_oq s); ss_start t = ss_start s; ss_target t = ss_target s;
    oq_gap (ss_oq t) = oq_gap (ss_oq s); oq_applied (ss_oq t) = oq_applied (ss_oq s)\<rbrakk> \<Longrightarrow> tied t = tied s"
  by (simp add: tied_def oq_seat_def ss_committed_def)

lemma tied_idle: "rp_phase (ss_rp s) = RpIdle \<Longrightarrow> tied s"
  by (simp add: tied_def)

lemma tied_fields [simp]:
  "tied (s\<lparr>ss_auth := a\<rparr>) = tied s" "tied (s\<lparr>ss_request := n\<rparr>) = tied s" "tied (s\<lparr>ss_complete := b\<rparr>) = tied s"
  "tied (s\<lparr>ss_queue_active := b\<rparr>) = tied s" "tied (s\<lparr>ss_queue_legacy := b\<rparr>) = tied s" "tied (s\<lparr>ss_legacy := b\<rparr>) = tied s"
  "tied (s\<lparr>ss_ready := b\<rparr>) = tied s" "tied (s\<lparr>ss_sync := st\<rparr>) = tied s" "tied (s\<lparr>ss_server_base := n\<rparr>) = tied s"
  "tied (s\<lparr>ss_local_base := n\<rparr>) = tied s" "tied (s\<lparr>ss_persisted := n\<rparr>) = tied s" "tied (s\<lparr>ss_failures := n\<rparr>) = tied s"
  "tied (s\<lparr>ss_paused := b\<rparr>) = tied s" "tied (s\<lparr>ss_reason := st\<rparr>) = tied s" "tied (s\<lparr>ss_reconnects := n\<rparr>) = tied s"
  "tied (s\<lparr>ss_retrying := b\<rparr>) = tied s" "tied (s\<lparr>ss_stream := st\<rparr>) = tied s" "tied (s\<lparr>ss_parts := ps\<rparr>) = tied s"
  "tied (s\<lparr>ss_exit := b\<rparr>) = tied s" "tied (s\<lparr>ss_retained := b\<rparr>) = tied s" "tied (s\<lparr>ss_matches := b\<rparr>) = tied s"
  "tied (s\<lparr>ss_sized := b\<rparr>) = tied s" "tied (s\<lparr>ss_resize_pending := b\<rparr>) = tied s" "tied (s\<lparr>ss_preparing := b\<rparr>) = tied s"
  "tied (s\<lparr>ss_outs := os\<rparr>) = tied s" "tied (ss_log x s) = tied s"
  by (simp_all add: tied_def ss_log_def ss_committed_def)

text \<open>The operations that move nothing of it.\<close>

definition still :: "oq_op \<Rightarrow> bool" where
  "still op = (case op of OqMark _ _ \<Rightarrow> True | OqSetCommitted _ _ \<Rightarrow> True | OqClearOverload \<Rightarrow> True | OqCloseGate \<Rightarrow> True | OqOpenGate \<Rightarrow> True
     | OqSchedule \<Rightarrow> True | OqStream _ _ _ _ \<Rightarrow> True | OqResetTurn _ \<Rightarrow> True | OqDropSocket \<Rightarrow> True | OqDetach \<Rightarrow> True
     | OqRestoreFailed \<Rightarrow> True | OqNoteFrame _ _ \<Rightarrow> True | _ \<Rightarrow> False)"

lemma still_step: "still op \<Longrightarrow> oq_seat (oq_step q op) = oq_seat q \<and> oq_gap (oq_step q op) = oq_gap q \<and> oq_applied (oq_step q op) = oq_applied q"
proof -
  assume s: "still op"
  then have "steady op" by (simp add: still_def steady_def split: oq_op.splits)
  moreover have "oq_gap (oq_step q op) = oq_gap q \<and> oq_applied (oq_step q op) = oq_applied q" using s
    by (cases op) (simp_all add: still_def open_gate_def reset_queue_turn_def note_turn_frame_def clear_overload_def Let_def)
  ultimately show ?thesis by (simp add: seat_step)
qed

lemma tied_steps: "list_all still ops \<Longrightarrow> tied (oqs ops s) = tied s"
proof -
  have "oq_seat (foldl oq_step q ops) = oq_seat q \<and> oq_gap (foldl oq_step q ops) = oq_gap q \<and> oq_applied (foldl oq_step q ops) = oq_applied q"
    if "list_all still ops" for q using that by (induction ops arbitrary: q) (simp_all add: still_step)
  then show "list_all still ops \<Longrightarrow> tied (oqs ops s) = tied s" by (intro tied_cong) (simp_all add: oqs_def)
qed

lemmas tied_simps = tied_steps still_def

lemma replay_fields [simp]:
  "ss_rp (oqs ops s) = ss_rp s" "ss_rp (set_replay r s) = r" "ss_rp (set_allow a s) = ss_rp s" "ss_rp (reset_replay s) = rp_reset"
  "ss_rp (ss_log x s) = ss_rp s" "ss_start (oqs ops s) = ss_start s" "ss_target (oqs ops s) = ss_target s"
  "ss_start (set_replay r s) = ss_start s" "ss_target (set_replay r s) = ss_target s" "ss_target (ss_log x s) = ss_target s"
  by (simp_all add: oqs_def set_replay_def set_allow_def reset_replay_def ss_log_def)

lemma seat_set [simp]: "oq_seat (ss_oq (set_replay r s)) = oq_seat (ss_oq s)"
  using seat_steps [of "[OqSetCommitted c a]" for c a] by (simp add: set_replay_def oqs_def steady_def oq_seat_def)

lemma cursors_set [simp]: "oq_gap (ss_oq (set_replay r s)) = oq_gap (ss_oq s)" "oq_applied (ss_oq (set_replay r s)) = oq_applied (ss_oq s)"
  by (simp_all add: set_replay_def oqs_def)

lemma tied_replay: "tied (reset_replay s)" "tied (set_allow a s) = tied s"
  "\<lbrakk>tied s; rp_phase (ss_rp s) \<noteq> RpIdle; rp_target r = rp_target (ss_rp s);
     rp_phase r = RpCommitted \<Longrightarrow> oq_tracking (ss_oq s) \<longrightarrow> ss_target s \<le> oq_applied (ss_oq s)\<rbrakk> \<Longrightarrow> tied (set_replay r s)"
proof -
  show "tied (set_replay r s)" if "tied s" "rp_phase (ss_rp s) \<noteq> RpIdle" "rp_target r = rp_target (ss_rp s)"
    "rp_phase r = RpCommitted \<Longrightarrow> oq_tracking (ss_oq s) \<longrightarrow> ss_target s \<le> oq_applied (ss_oq s)"
    using that seat_set [of r s] by (auto simp: tied_def oq_seat_def ss_committed_def)
qed (simp_all add: set_allow_def tied_simps, simp add: tied_def rp_reset_def)

lemma tied_finish: "tied s \<Longrightarrow> tied (snd (finish_if_ready s))"
proof -
  have "tied (set_replay (case rp_commit (ss_rp s) of Inr t \<Rightarrow> t | Inl _ \<Rightarrow> ss_rp s) s)" if "tied s" "replay_is_ready s"
    using that by (intro tied_replay) (simp_all add: rp_commit_def replay_is_ready_def)
  then show "tied s \<Longrightarrow> tied (snd (finish_if_ready s))"
    by (simp add: finish_if_ready_def finish_replay_def Let_def tied_simps tied_replay)
qed

lemma tied_op: "\<lbrakk>steady op; tied s; oq_inv (ss_oq s)\<rbrakk> \<Longrightarrow> tied (oqs [op] s)"
proof -
  assume op: "steady op" and s: "tied s" "oq_inv (ss_oq s)"
  have seat: "oq_seat (oq_step (ss_oq s) op) = oq_seat (ss_oq s)" by (rule seat_step [OF op])
  have p: "queue_progress (ss_oq s) (oq_step (ss_oq s) op)"
    if "rp_phase (ss_rp s) \<noteq> RpIdle" "oq_tracking (ss_oq s)" "\<not> oq_closed (ss_oq s)" "ss_committed s"
    using that s by (intro queue_progress_step [OF op]) (auto simp: tied_def)
  show ?thesis using s(1) seat p by (auto simp: tied_def oqs_def oq_seat_def ss_committed_def queue_progress_def)
qed

lemma tied_out: "\<lbrakk>steady op; tied s; oq_inv (ss_oq s)\<rbrakk> \<Longrightarrow> tied (out_step op s)"
  using tied_op [of op s] by (simp add: out_step_def Let_def tied_finish)


interpretation sqi: queue_property oq_inv
  by standard (rule oq_inv_step)

lemma idle_rejects: "rp_phase (ss_rp (reject_sync cn reason s)) = RpIdle"
  by (simp add: reject_sync_def Let_def note_failure_def close_for_reconnect_def rp_reset_def split: prod.split)

lemma tied_failures: "note_failure reason s = (p, t) \<Longrightarrow> tied s \<Longrightarrow> tied t" "tied s \<Longrightarrow> tied (close_for_reconnect cn w s)"
  "tied s \<Longrightarrow> tied (reject_mismatch cn s)" "tied (reject_sync cn w s)" "tied (reject_channel cn s)"
proof -
  show "note_failure reason s = (p, t) \<Longrightarrow> tied s \<Longrightarrow> tied t" by (auto simp: note_failure_def Let_def split: if_splits)
  show c: "tied s \<Longrightarrow> tied (close_for_reconnect cn w s)" for s w by (simp add: close_for_reconnect_def)
  show "tied s \<Longrightarrow> tied (reject_mismatch cn s)" by (simp add: reject_mismatch_def c)
  show "tied (reject_channel cn s)"
    unfolding reject_channel_def Let_def by (intro c) (simp add: tied_idle rp_reset_def)
qed (simp add: tied_idle idle_rejects)

text \<open>The range that a server announces is one the controller takes.\<close>

lemma announced_begins: "an_from a \<le> an_to a \<Longrightarrow> \<exists>r. begin_replay cn h a s = Inr r \<and> rp_target r = Some (an_to a) \<and> rp_phase r = RpReplaying"
  using parse_cursor_val [of "an_from a"] parse_cursor_val [of "an_to a"]
  by (simp add: begin_replay_def rp_begin_def undef_default_def cursor_val_def Let_def)

lemma announced_ordered: "announced_range m = Some a \<Longrightarrow> an_from a \<le> an_to a"
  by (auto simp: announced_range_def split: option.splits if_splits)

lemma tied_reset: "reset_terminal en op s = (True, t) \<Longrightarrow> ss_rp t = ss_rp s \<and> ss_target t = ss_target s
    \<and> ss_oq t = foldl oq_step (ss_oq s) [op, OqMark False False] \<and> \<not> oq_closed (ss_oq s)"
  by (auto simp: reset_terminal_def reset_allowed_def ss_log_def oqs_def split: if_splits)

lemma seat_announced: "oq_seat (replay_announced n ck h msg s) = (n, True, oq_closed s)"
proof -
  have "oq_seat (snd (begin_replay_batch now m u)) = oq_seat u" for now m u
    by (simp add: begin_replay_batch_def oq_seat_def split: prod.split)
  moreover have "oq_seat (replay_from n ck h s) = (n, True, oq_closed s)"
    by (simp add: replay_from_def oq_discard_def oq_seat_def tell_def lifecycle_clear_def)
  ultimately show ?thesis by (simp add: replay_announced_def Let_def split: option.split prod.split)
qed

lemma tied_geometry: "tied (prepare_geometry m s) = tied s" "tied (geometry_done s) = tied s"
  by (simp_all add: prepare_geometry_def geometry_done_def tied_simps)

lemma tied_snapshot:
  assumes r: "rp_target (ss_rp s) = Some (an_to a)" and phase: "rp_phase (ss_rp s) = RpReplaying" and target: "ss_target s = an_to a" and le: "an_from a \<le> an_to a"
  shows "tied (snapshot_start en cn h a m s)"
proof -
  have ok: "tied (set_allow g ((prepare_geometry m t)\<lparr>ss_local_base := x, ss_persisted := y, ss_auth := IdentifiedReplay, ss_start := an_from a\<rparr>))"
    if "reset_terminal en (OqReplayFrom (an_from a) ck h msg) (s\<lparr>ss_parts := ps\<rparr>) = (True, t)" for g t x y ck msg ps
  proof -
    have t: "ss_rp t = ss_rp s" "ss_target t = ss_target s"
      "oq_seat (ss_oq t) = (an_from a, True, oq_closed (ss_oq s))" "\<not> oq_closed (ss_oq s)"
      using tied_reset [OF that] seat_announced [of "an_from a" ck h msg "ss_oq s"] by (simp_all add: oq_seat_def)
    then have "tied (t\<lparr>ss_start := an_from a\<rparr>)" using r target le phase by (simp add: tied_def oq_seat_def ss_committed_def)
    then have "tied ((prepare_geometry m t)\<lparr>ss_start := an_from a\<rparr>)"
      by (simp add: prepare_geometry_def) (simp add: tied_def oqs_def ss_committed_def)
    then show ?thesis by (simp add: tied_replay) (simp add: tied_def ss_committed_def)
  qed
  show ?thesis
    unfolding snapshot_start_def by (auto simp: tied_failures intro!: ok split: prod.split sum.split)
qed

lemma tied_identified: "an_from a \<le> an_to a \<Longrightarrow> \<exists>t. identified_start en cn h sync a m s = Inr t \<and> tied t"
proof -
  assume le: "an_from a \<le> an_to a"
  define u where "u = s\<lparr>ss_sync := sync, ss_target := an_to a\<rparr>"
  obtain r where r: "begin_replay cn h a u = Inr r" "rp_target r = Some (an_to a)" "rp_phase r = RpReplaying" using announced_begins [OF le, of cn h u] by blast
  define v where "v = oqs [OqMark False (oq_completing (ss_oq u))] (set_replay r (u\<lparr>ss_legacy := False,
            ss_queue_active := (an_from a = an_to a), ss_queue_legacy := False, ss_server_base := an_base a\<rparr>))"
  have "tied (snapshot_start en cn h a m v)"
    using r(2,3) le by (intro tied_snapshot) (simp_all add: v_def u_def)
  then show ?thesis
    unfolding identified_start_def Let_def u_def [symmetric]
    by (simp only: r(1) sum.case v_def [symmetric]) (simp add: tied_failures)
qed

lemma tied_legacy: "tied (legacy_start en cn m s)"
proof -
  have f: "oq_tracking (ss_oq (oqs [OqStopTracking] u)) = False" for u by (simp add: oqs_def)
  have "tied (oqs [OqStopTracking] u)" for u by (simp add: tied_def f)
  then show ?thesis
    unfolding legacy_start_def Let_def by (auto simp: tied_failures tied_replay tied_geometry split: prod.split)
qed

lemma tied_start: "tied s \<Longrightarrow> \<exists>t. history_start en cn m s = Inr t \<and> tied t"
proof -
  assume s: "tied s"
  define u where "u = ss_log HoldKept (s\<lparr>ss_preparing := False\<rparr>)"
  define h sync where "h = json_trimmed (json_get m ''history_generation'')" and "sync = json_trimmed (json_get m ''sync_mode'')"
  have e: "history_start en cn m s = (if \<not> validate_replay_message m s then Inr (reject_mismatch cn s)
       else if h = [] \<or> sync = [] then Inr (legacy_start en cn m u)
       else case announced_range m of None \<Rightarrow> Inr (reject_sync cn ''invalid server history range'' u)
          | Some a \<Rightarrow> if \<not> validate_workspace_message m u then Inr (reject_sync cn ''terminal workspace replay identity does not match'' u)
              else identified_start en cn h sync a m u)"
    by (simp only: history_start_def Let_def u_def h_def sync_def)
  show ?thesis
  proof (cases "announced_range m")
    case None
    then show ?thesis using s by (simp add: e tied_legacy tied_failures)
  next
    case (Some a)
    from tied_identified [OF announced_ordered [OF Some], of en cn h sync m u] Some s show ?thesis
      by (auto simp: e tied_legacy tied_failures)
  qed
qed

lemma tied_controller: "tied s \<Longrightarrow> case complete_controller cn m s of Inl t \<Rightarrow> tied t | Inr t \<Rightarrow> tied t"
  "tied s \<Longrightarrow> case complete_legacy cn s of Inl t \<Rightarrow> tied t | Inr t \<Rightarrow> tied t"
  by (auto simp: complete_controller_def complete_legacy_def rp_complete_def rp_complete_legacy_def tied_failures
      intro!: tied_replay split: sum.split option.splits if_splits)

lemma tied_completes: "\<lbrakk>tied s; oq_inv (ss_oq s)\<rbrakk> \<Longrightarrow> tied (replay_completes en cn m s)"
proof -
  assume s: "tied s" and inv: "oq_inv (ss_oq s)"
  have a: "tied (replay_arrived en t)" if "tied t" "oq_inv (ss_oq t)" for t
  proof -
    let ?u = "oqs [OqMark (oq_reset_next (ss_oq t)) True] t"
    have "tied (snd (finish_if_ready ?u))" using that(1) by (intro tied_finish) (simp add: tied_simps)
    moreover have "oq_inv (ss_oq (snd (finish_if_ready ?u)))" by (intro sqi.finish sqi.ops that(2))
    ultimately show ?thesis by (auto simp: replay_arrived_def steady_def intro!: tied_out split: prod.split)
  qed
  have c: "tied (case complete_controller cn m t of Inl u \<Rightarrow> u | Inr u \<Rightarrow> replay_arrived en u)" if "tied t" "oq_inv (ss_oq t)" for t
    using tied_controller(1) [OF that(1), of cn m] sqi.controller(1) [OF that(2), of cn m]
    by (cases "complete_controller cn m t") (simp_all add: a)
  have "tied (case complete_legacy cn s of Inl t \<Rightarrow> t
       | Inr t \<Rightarrow> (case complete_controller cn m t of Inl u \<Rightarrow> u | Inr u \<Rightarrow> replay_arrived en u))"
    using tied_controller(2) [OF s, of cn] sqi.controller(2) [OF inv, of cn] by (cases "complete_legacy cn s") (simp_all add: c)
  then show ?thesis using s by (simp add: replay_completes_def tied_failures)
qed

lemma tied_others: "\<lbrakk>tied s; oq_inv (ss_oq s)\<rbrakk> \<Longrightarrow> tied (turn_completes en cn m s)" "tied s \<Longrightarrow> tied (checkpoint_part cn m s)"
  "tied s \<Longrightarrow> tied (connection_error cn m s)" "\<lbrakk>tied s; oq_inv (ss_oq s)\<rbrakk> \<Longrightarrow> tied (process_exits en cn m s)"
  "tied s \<Longrightarrow> tied (resize_message cn kind m s)"
proof -
  assume s: "tied s"
  have f: "tied t" if "(if ss_committed s then (False, s) else note_failure r s) = (b, t)" for b r t
    using that s tied_failures(1) [of r s b t] by (auto split: if_splits)
  show "tied (turn_completes en cn m s)" if "oq_inv (ss_oq s)" unfolding turn_completes_def Let_def
    using s that by (auto simp: tied_failures steady_def intro!: tied_out split: turn_result.split)
  show "tied (checkpoint_part cn m s)" unfolding checkpoint_part_def using s by (auto simp: tied_failures split: prod.split option.split)
  show "tied (connection_error cn m s)" unfolding connection_error_def using s by (auto intro: f tied_failures split: prod.split)
  have "tied (accept_exit en m s)" if "oq_inv (ss_oq s)" unfolding accept_exit_def using s that
    by (auto simp: steady_def sqi.log intro!: tied_out)
  then show "tied (process_exits en cn m s)" if "oq_inv (ss_oq s)" using s that by (simp add: process_exits_def Let_def tied_failures)
  show "tied (resize_message cn kind m s)" using s by (simp add: resize_message_def tied_failures)
qed

lemma tied_control: "\<lbrakk>tied s; oq_inv (ss_oq s)\<rbrakk> \<Longrightarrow> case control_message en cn kind m s of None \<Rightarrow> True | Some r \<Rightarrow> (\<exists>t. r = Inr t \<and> tied t)"
  using tied_start [of s en cn m] tied_completes [of s en cn m] tied_others [of s]
  by (simp add: control_message_def tied_failures)

lemma tied_text: "\<lbrakk>tied s; oq_inv (ss_oq s)\<rbrakk> \<Longrightarrow> tied (text_message en cn meta t parsed s)"
proof (cases "message_kind parsed")
  case (Some kind)
  assume s: "tied s" "oq_inv (ss_oq s)"
  show ?thesis
    using s tied_control [OF s, of en cn kind "the parsed"] Some
    by (auto simp: text_message_def tied_failures steady_def intro: tied_out split: option.splits sum.splits)
qed (auto simp: text_message_def steady_def intro: tied_out)

lemma tied_binary: "\<lbrakk>tied s; oq_inv (ss_oq s)\<rbrakk> \<Longrightarrow> tied (binary_message en cn meta b s)"
proof -
  assume s: "tied s" and inv: "oq_inv (ss_oq s)"
  have "tied (set_replay r s)" if "rp_accept f c (ss_rp s) = Inr r" for f c r
    using that by (rule rp_accept_Inr) (auto simp: s intro!: tied_replay)
  moreover have "tied (set_replay rp_reset s)" by (simp add: tied_idle rp_reset_def)
  ultimately have a: "tied t" if "accept_replay_frame cn f n s = Inr t" for f n t
    using that s by (auto simp: accept_replay_frame_def split: if_splits sum.splits)
  have "oq_inv (ss_oq (oqs [OqNoteFrame x y] t))" if "accept_replay_frame cn f n s = Inr t" for f n t x y
    by (intro sqi.ops sqi.accepted [OF that] inv)
  with a show ?thesis using s
    unfolding binary_message_def by (auto simp: tied_failures tied_simps steady_def intro!: tied_out split: option.split sum.split)
qed

lemma tied_connections: "tied s \<Longrightarrow> tied (connect_stream socket channel stream s)" "\<lbrakk>tied s; oq_inv (ss_oq s)\<rbrakk> \<Longrightarrow> tied (stream_closes en cn r s)"
  "tied s \<Longrightarrow> tied (recover_session s)" "\<lbrakk>tied s; oq_inv (ss_oq s)\<rbrakk> \<Longrightarrow> tied (checkpoint_settles cn ok s)" "tied (destroy_session s)"
  "tied s \<Longrightarrow> tied (snd (resume_retry s))"
proof -
  show "tied s \<Longrightarrow> tied (connect_stream socket channel stream s)"
    unfolding connect_stream_def Let_def by (simp add: tied_replay tied_simps)
  show "\<lbrakk>tied s; oq_inv (ss_oq s)\<rbrakk> \<Longrightarrow> tied (stream_closes en cn r s)"
    unfolding stream_closes_def detach_socket_def Let_def
    by (auto simp: tied_replay tied_simps steady_def intro!: tied_out sqi.ops sqi.replay)
  show "tied s \<Longrightarrow> tied (recover_session s)"
    unfolding recover_session_def Let_def by (auto intro!: tied_idle simp: rp_reset_def)
  show "\<lbrakk>tied s; oq_inv (ss_oq s)\<rbrakk> \<Longrightarrow> tied (checkpoint_settles cn ok s)"
    unfolding checkpoint_settles_def Let_def using tied_op [of OqRestored s] by (simp add: tied_failures tied_simps steady_def)
  have "oq_closed (oq_step q OqDisposeSession)" if "oq_closed q" for q
    using that by (simp add: dispose_output_session_def oq_discard_def tell_def lifecycle_clear_def)
  then show "tied (destroy_session s)" by (simp add: destroy_session_def tied_def oqs_def set_replay_def)
qed (simp add: resume_retry_def tied_simps)

lemma outer_steady: "outer_op op \<Longrightarrow> steady op"
  by (simp add: outer_op_def steady_def split: oq_op.splits)

lemma tied_step: "\<lbrakk>tied s; oq_inv (ss_oq s)\<rbrakk> \<Longrightarrow> tied (ss_step s e)"
  by (cases e) (auto simp: tied_geometry intro: tied_text tied_binary tied_connections tied_out outer_steady)

interpretation sst: invariant_machine ss_step "\<lambda>s. tied s \<and> oq_inv (ss_oq s)"
  by standard (auto intro: tied_step sqi.session)

lemma session_tied: "tied (ss_run selector tab pane workspace es)"
proof -
  have "tied (ss_fresh selector tab pane workspace)" "oq_inv (ss_oq (ss_fresh selector tab pane workspace))"
    by (simp add: tied_idle ss_fresh_def rp_reset_def) (simp add: ss_fresh_def oq_start_inv)
  then show ?thesis using sst.inv_run [of "ss_fresh selector tab pane workspace" es] by blast
qed

lemma empty_queue: "\<lbrakk>oq_inv q; oq_size q = 0\<rbrakk> \<Longrightarrow> oq_queue q = []"
  by (cases "oq_queue q") (auto simp: oq_inv_def queue_ok_def sum_len_def entry_ok_def)

lemma ready_complete:
  assumes inv: "oq_inv q" and empty: "oq_size q = 0" and gap: "\<not> oq_gap q" and "oq_from q \<le> oq_applied q"
  shows "oq_queue q = []" "oq_parsed q = oq_taken q" "positions (oq_parsed q) = [oq_from q ..< oq_applied q]"
  using assms empty_queue [OF inv empty] by (auto simp: oq_inv_defs max_def)

text \<open>
  C6. A history replay is finished only when it is complete. In any run of messages, closes, reconnections
  and parser answers, as long as the queue was not dropped: while the controller holds a committed
  replay, the terminal has parsed exactly the bytes from the start of the replay to the applied cursor, each once
  and in order, and the target the server announced is among them; and a session that
  is ready to commit has an empty queue and has parsed all it accepted.
\<close>

theorem committed_replay_is_parsed:
  "case ss_run selector tab pane workspace es of s \<Rightarrow>
     if oq_tracking (ss_oq s) \<and> \<not> oq_closed (ss_oq s) \<and> \<not> oq_gap (ss_oq s) then
       (if ss_committed s then
         positions (oq_parsed (ss_oq s)) = [ss_start s ..< oq_applied (ss_oq s)] \<and> ss_start s \<le> ss_target s
         \<and> ss_target s \<le> oq_applied (ss_oq s) \<and> rp_target (ss_rp s) = Some (ss_target s) else True)
       \<and> (if fst (finish_if_ready s) then
         oq_queue (ss_oq s) = [] \<and> oq_parsed (ss_oq s) = oq_taken (ss_oq s)
         \<and> positions (oq_parsed (ss_oq s)) = [ss_start s ..< oq_applied (ss_oq s)] \<and> ss_target s \<le> oq_applied (ss_oq s)
         \<and> ss_committed (snd (finish_if_ready s)) else True)
     else True"
proof -
  let ?s = "ss_run selector tab pane workspace es"
  have "tied ?s" by (rule session_tied)
  then have t: "oq_from (ss_oq ?s) = ss_start ?s" "ss_start ?s \<le> ss_target ?s" "rp_target (ss_rp ?s) = Some (ss_target ?s)"
    "ss_committed ?s \<Longrightarrow> ss_target ?s \<le> oq_applied (ss_oq ?s)"
    if "rp_phase (ss_rp ?s) \<noteq> RpIdle" "\<not> oq_closed (ss_oq ?s)" "\<not> oq_gap (ss_oq ?s)" "oq_tracking (ss_oq ?s)"
    using that by (auto simp: tied_def)
  have r: "ss_target ?s \<le> oq_applied (ss_oq ?s)" "oq_size (ss_oq ?s) = 0" "rp_phase (ss_rp ?s) = RpAwaitingCommit"
    if "replay_is_ready ?s" "oq_tracking (ss_oq ?s)" using that by (auto simp: replay_is_ready_def)
  have c: "ss_committed (finish_replay ?s)" if "rp_phase (ss_rp ?s) = RpAwaitingCommit"
    using that by (simp add: finish_replay_def Let_def rp_commit_def ss_committed_def)
  note inv = session_queue_inv [of selector tab pane workspace es]
  have p: "positions (oq_parsed (ss_oq ?s)) = [ss_start ?s ..< oq_applied (ss_oq ?s)]"
    if "\<not> oq_gap (ss_oq ?s)" "oq_from (ss_oq ?s) = ss_start ?s" "ss_start ?s \<le> oq_applied (ss_oq ?s)"
    using inv that by (auto simp: oq_inv_defs max_def)
  show ?thesis
  proof (cases "oq_tracking (ss_oq ?s) \<and> \<not> oq_closed (ss_oq ?s) \<and> \<not> oq_gap (ss_oq ?s)")
    case True
    then have f: "\<not> oq_closed (ss_oq ?s)" "\<not> oq_gap (ss_oq ?s)" "oq_tracking (ss_oq ?s)" by auto
    have "rp_phase (ss_rp ?s) \<noteq> RpIdle" if "ss_committed ?s" using that by (simp add: ss_committed_def)
    with t [OF _ f] p f have 1: "if ss_committed ?s then
         positions (oq_parsed (ss_oq ?s)) = [ss_start ?s ..< oq_applied (ss_oq ?s)] \<and> ss_start ?s \<le> ss_target ?s
         \<and> ss_target ?s \<le> oq_applied (ss_oq ?s) \<and> rp_target (ss_rp ?s) = Some (ss_target ?s) else True" by auto
    have 2: "oq_queue (ss_oq ?s) = [] \<and> oq_parsed (ss_oq ?s) = oq_taken (ss_oq ?s)
         \<and> positions (oq_parsed (ss_oq ?s)) = [ss_start ?s ..< oq_applied (ss_oq ?s)] \<and> ss_target ?s \<le> oq_applied (ss_oq ?s)
         \<and> ss_committed (finish_replay ?s)" if ready: "replay_is_ready ?s"
    proof -
      note u = r [OF ready f(3)]
      then have "rp_phase (ss_rp ?s) \<noteq> RpIdle" by simp
      note t = t [OF this f]
      have "oq_from (ss_oq ?s) \<le> oq_applied (ss_oq ?s)" using t u by simp
      from ready_complete [OF inv u(2) f(2) this] t u c show ?thesis by simp
    qed
    show ?thesis using f 1 2 by (cases "replay_is_ready ?s") (auto simp: finish_if_ready_def)
  qed auto
qed

subsection \<open>Failed replays\<close>

text \<open>
  What the failures, the end of a replay and the log keep, every handler keeps: only they and the user's retry touch the
  count of failures and the pause.
\<close>

locale session_property =
  fixes P :: "sess \<Rightarrow> bool"
  assumes log: "P s \<Longrightarrow> P (ss_log x s)"
    and frame: "\<lbrakk>P s; ss_failures t = ss_failures s; ss_paused t = ss_paused s; ss_outs t = ss_outs s\<rbrakk> \<Longrightarrow> P t"
    and failure: "\<lbrakk>note_failure reason s = (p, t); P s\<rbrakk> \<Longrightarrow> P t"
    and finish: "P s \<Longrightarrow> P (snd (finish_if_ready s))"
begin

lemma fields [simp]:
  "P s \<Longrightarrow> P (s\<lparr>ss_auth := a\<rparr>)" "P s \<Longrightarrow> P (s\<lparr>ss_request := n\<rparr>)"
  "P s \<Longrightarrow> P (s\<lparr>ss_complete := b\<rparr>)" "P s \<Longrightarrow> P (s\<lparr>ss_queue_active := b\<rparr>)"
  "P s \<Longrightarrow> P (s\<lparr>ss_queue_legacy := b\<rparr>)" "P s \<Longrightarrow> P (s\<lparr>ss_legacy := b\<rparr>)"
  "P s \<Longrightarrow> P (s\<lparr>ss_ready := b\<rparr>)" "P s \<Longrightarrow> P (s\<lparr>ss_sync := st\<rparr>)"
  "P s \<Longrightarrow> P (s\<lparr>ss_server_base := n\<rparr>)" "P s \<Longrightarrow> P (s\<lparr>ss_local_base := n\<rparr>)"
  "P s \<Longrightarrow> P (s\<lparr>ss_persisted := n\<rparr>)" "P s \<Longrightarrow> P (s\<lparr>ss_target := n\<rparr>)"
  "P s \<Longrightarrow> P (s\<lparr>ss_reason := st\<rparr>)" "P s \<Longrightarrow> P (s\<lparr>ss_reconnects := n\<rparr>)"
  "P s \<Longrightarrow> P (s\<lparr>ss_start := n\<rparr>)" "P s \<Longrightarrow> P (s\<lparr>ss_retrying := b\<rparr>)"
  "P s \<Longrightarrow> P (s\<lparr>ss_stream := st\<rparr>)" "P s \<Longrightarrow> P (s\<lparr>ss_parts := ps\<rparr>)"
  "P s \<Longrightarrow> P (s\<lparr>ss_exit := b\<rparr>)" "P s \<Longrightarrow> P (s\<lparr>ss_retained := b\<rparr>)"
  "P s \<Longrightarrow> P (s\<lparr>ss_matches := b\<rparr>)" "P s \<Longrightarrow> P (s\<lparr>ss_sized := b\<rparr>)"
  "P s \<Longrightarrow> P (s\<lparr>ss_resize_pending := b\<rparr>)" "P s \<Longrightarrow> P (s\<lparr>ss_preparing := b\<rparr>)"
  "P s \<Longrightarrow> P (s\<lparr>ss_oq := q\<rparr>)" "P s \<Longrightarrow> P (s\<lparr>ss_rp := r\<rparr>)"
  by (erule frame; simp)+

lemma queue_ops [simp]: "P s \<Longrightarrow> P (oqs ops s)"
  by (erule frame) (simp_all add: oqs_def)

lemma parts [simp]:
  "P s \<Longrightarrow> P (ss_log x s)" "P s \<Longrightarrow> P (set_replay r s)" "P s \<Longrightarrow> P (set_allow a s)" "P s \<Longrightarrow> P (reset_replay s)"
  "P s \<Longrightarrow> P (close_for_reconnect cn w s)" "P s \<Longrightarrow> P (reject_mismatch cn s)" "P s \<Longrightarrow> P (reject_channel cn s)"
  "P s \<Longrightarrow> P (prepare_geometry m s)" "P s \<Longrightarrow> P (geometry_done s)"
  by (simp_all add: log set_replay_def set_allow_def reset_replay_def close_for_reconnect_def reject_mismatch_def
      reject_channel_def prepare_geometry_def geometry_done_def Let_def)

lemma p_out: "P s \<Longrightarrow> P (out_step op s)"
  by (simp add: out_step_def Let_def finish)

lemma p_sync: "P s \<Longrightarrow> P (reject_sync cn reason s)"
  unfolding reject_sync_def Let_def by (auto split: prod.split dest: failure)

lemma p_reset: "reset_terminal en op s = (ok, t) \<Longrightarrow> P s \<Longrightarrow> P t"
  by (auto simp: reset_terminal_def split: if_splits)

lemma p_start: "P s \<Longrightarrow> case history_start en cn m s of Inl t \<Rightarrow> P t | Inr t \<Rightarrow> P t"
proof -
  have l: "P (legacy_start en cn m u)" if "P u" for u
    using that unfolding legacy_start_def Let_def by (auto split: prod.split dest!: p_reset)
  have p: "P (snapshot_start en cn h a m u)" if "P u" for u a h
    using that unfolding snapshot_start_def by (auto split: prod.split sum.split dest!: p_reset intro!: p_sync)
  have i: "case identified_start en cn h sync a m u of Inl t \<Rightarrow> P t | Inr t \<Rightarrow> P t" if "P u" for h sync a u
    using that unfolding identified_start_def Let_def
    by (cases "begin_replay cn h a (u\<lparr>ss_sync := sync, ss_target := an_to a\<rparr>)") (auto intro!: p p_sync)
  show "P s \<Longrightarrow> ?thesis"
    unfolding history_start_def Let_def
    by (cases "announced_range m") (simp_all add: l i p_sync)
qed

lemma p_completes: "P s \<Longrightarrow> P (replay_completes en cn m s)"
proof -
  assume s: "P s"
  have a: "P (replay_arrived en t)" if "P t" for t
  proof -
    have "P (snd (finish_if_ready (oqs [OqMark (oq_reset_next (ss_oq t)) True] t)))" using that by (intro finish) simp
    then show ?thesis by (auto simp: replay_arrived_def intro!: p_out split: prod.split)
  qed
  have k: "case complete_controller cn m t of Inl u \<Rightarrow> P u | Inr u \<Rightarrow> P u" if "P t" for t
    using that by (auto simp: complete_controller_def intro!: p_sync split: sum.split)
  have c: "P (case complete_controller cn m t of Inl u \<Rightarrow> u | Inr u \<Rightarrow> replay_arrived en u)" if "P t" for t
    using k [OF that] by (cases "complete_controller cn m t") (simp_all add: a)
  have l: "case complete_legacy cn s of Inl u \<Rightarrow> P u | Inr u \<Rightarrow> P u"
    using s by (auto simp: complete_legacy_def split: sum.split)
  have "P (case complete_legacy cn s of Inl t \<Rightarrow> t
       | Inr t \<Rightarrow> (case complete_controller cn m t of Inl u \<Rightarrow> u | Inr u \<Rightarrow> replay_arrived en u))"
    using l by (cases "complete_legacy cn s") (simp_all add: c)
  then show ?thesis using s by (simp add: replay_completes_def p_sync)
qed

lemma p_control: "P s \<Longrightarrow> case control_message en cn kind m s of None \<Rightarrow> True
    | Some r \<Rightarrow> (case r of Inl t \<Rightarrow> P t | Inr t \<Rightarrow> P t)"
proof -
  assume s: "P s"
  have f: "P t" if "(if ss_committed s then (False, s) else note_failure r s) = (b, t)" for b r t
    using that s failure [of r s b t] by (auto split: if_splits)
  have c: "P (connection_error cn m s)" unfolding connection_error_def using s by (auto split: prod.split if_splits dest: failure [OF _ s])
  have "P (accept_exit en m s)" unfolding accept_exit_def using s by (auto intro!: p_out)
  then have x: "P (process_exits en cn m s)" using s by (simp add: process_exits_def Let_def)
  have t: "P (turn_completes en cn m s)" "P (checkpoint_part cn m s)"
    using s by (auto simp: turn_completes_def checkpoint_part_def Let_def intro!: p_sync p_out
        split: turn_result.split prod.split option.split)
  show ?thesis using s t x c p_start [OF s, of en cn m] p_completes [OF s, of en cn m]
    by (simp add: control_message_def p_sync resize_message_def)
qed

lemma p_step: "\<lbrakk>P s; e \<noteq> SsResume\<rbrakk> \<Longrightarrow> P (ss_step s e)"
proof -
  assume s: "P s" and e: "e \<noteq> SsResume"
  have t: "P (text_message en cn meta t parsed s)" for en cn meta t parsed
  proof (cases "message_kind parsed")
    case (Some kind)
    then show ?thesis using s p_control [OF s, of en cn kind "the parsed"]
      by (auto simp: text_message_def intro: p_out split: option.splits sum.splits)
  qed (use s in \<open>auto simp: text_message_def intro: p_out\<close>)
  have "P u" if "accept_replay_frame cn f n s = Inr u" for cn f n u
    using that s by (auto simp: accept_replay_frame_def split: if_splits sum.splits)
  then have b: "P (binary_message en cn meta b s)" for en cn meta b
    using s by (auto simp: binary_message_def intro!: p_sync p_out split: option.split sum.split)
  have c: "P (stream_closes en cn r s)" for en cn r
    using s unfolding stream_closes_def detach_socket_def Let_def by (auto intro!: p_out)
  show ?thesis
    using s e by (cases e) (simp_all add: t b c connect_stream_def Let_def recover_session_def checkpoint_settles_def p_sync
        destroy_session_def p_out)
qed

end

definition counted :: "sess \<Rightarrow> bool" where
  "counted s = (ss_failures s \<le> replay_failure_limit \<and> ss_paused s = (ss_failures s = replay_failure_limit))"

interpretation ctd: session_property counted
proof
  show "counted (ss_log x s)" if "counted s" for x s using that by (simp add: counted_def ss_log_def)
  show "counted t" if "counted s" "ss_failures t = ss_failures s" "ss_paused t = ss_paused s" "ss_outs t = ss_outs s" for s t :: sess
    using that by (simp add: counted_def)
  show "counted t" if "note_failure reason s = (p, t)" "counted s" for reason s p t
    using that by (auto simp: note_failure_def Let_def counted_def ss_log_def replay_failure_limit_def split: if_splits)
  show "counted (snd (finish_if_ready s))" if "counted s" for s
    using that by (simp add: finish_if_ready_def finish_replay_def Let_def ss_log_def counted_def replay_failure_limit_def)
qed

lemma counted_step: "counted s \<Longrightarrow> counted (ss_step s e)"
proof (cases "e = SsResume")
  case True
  assume "counted s"
  then show ?thesis using True by (auto simp: resume_retry_def counted_def replay_failure_limit_def oqs_def)
qed (rule ctd.p_step)

text \<open>A session stays paused, or its replay is ready: of the outputs after the first \<open>n\<close>.\<close>

definition held :: "nat \<Rightarrow> sess \<Rightarrow> bool" where
  "held n s = (n \<le> length (ss_outs s) \<and> (ss_paused s \<or> ReplayReady \<in> set (drop n (ss_outs s))))"

lemma held_log: "held n s \<Longrightarrow> held n (ss_log x s)"
  by (auto simp: held_def ss_log_def)

interpretation hld: session_property "held n" for n
proof
  show "held n (ss_log x s)" if "held n s" for x s using that by (rule held_log)
  show "held n t" if "held n s" "ss_failures t = ss_failures s" "ss_paused t = ss_paused s" "ss_outs t = ss_outs s" for s t :: sess
    using that by (simp add: held_def)
  show "held n t" if "note_failure reason s = (p, t)" "held n s" for reason s p t
    using that by (auto simp: note_failure_def Let_def held_def ss_log_def split: if_splits)
  show "held n (snd (finish_if_ready s))" if "held n s" for s
    using that by (simp add: finish_if_ready_def finish_replay_def Let_def ss_log_def held_def oqs_def set_allow_def set_replay_def)
qed

interpretation ssf: invariant_machine ss_step counted
  by standard (rule counted_step)

text \<open>
  C27. A replay that keeps failing is not retried for ever: a session counts at most three failures, it is paused
  exactly when it has counted three, and then no connection is opened for it. The pause ends only by the user's retry, with
  the count at zero, or when a replay that was still under way comes to its end: any other event leaves a paused session
  paused.
\<close>

theorem failed_replay_pauses:
  "case ss_run selector tab pane workspace es of s \<Rightarrow> ss_failures s \<le> 3 \<and> ss_paused s = (ss_failures s = 3)
     \<and> (if ss_paused s then connect_stream socket channel stream s = s else True)
     \<and> (case resume_retry s of (resumed, t) \<Rightarrow> resumed = (ss_paused s \<and> \<not> oq_closed (ss_oq s))
          \<and> (if resumed then ss_failures t = 0 \<and> \<not> ss_paused t else t = s))
     \<and> (if ss_paused s then (case e of SsResume \<Rightarrow> True
          | _ \<Rightarrow> ss_paused (ss_step s e) \<or> ReplayReady \<in> set (drop (length (ss_outs s)) (ss_outs (ss_step s e)))) else True)"
proof -
  let ?s = "ss_run selector tab pane workspace es"
  have "counted ?s"
    by (rule ssf.inv_run) (simp add: counted_def ss_fresh_def replay_failure_limit_def)
  moreover have "held (length (ss_outs ?s)) (ss_step ?s e)" if "ss_paused ?s" "e \<noteq> SsResume"
    by (rule hld.p_step) (simp_all add: held_def that)
  then have "case e of SsResume \<Rightarrow> True | _ \<Rightarrow> ss_paused (ss_step ?s e) \<or> ReplayReady \<in> set (drop (length (ss_outs ?s)) (ss_outs (ss_step ?s e)))"
    if "ss_paused ?s" using that by (cases e) (simp_all add: held_def del: ss_step.simps)
  ultimately show ?thesis by (auto simp: counted_def replay_failure_limit_def connect_stream_def asks_stream_def may_connect_def resume_retry_def)
qed

subsection \<open>Whose output is taken\<close>

lemma taken_ops: "list_all (\<lambda>op. case op of OqSetCommitted _ _ \<Rightarrow> True | OqMark _ _ \<Rightarrow> True | OqClearOverload \<Rightarrow> True | OqNoteFrame _ _ \<Rightarrow> True
     | OqStopTracking \<Rightarrow> True | _ \<Rightarrow> False) ops \<Longrightarrow> oq_taken (foldl oq_step q ops) = oq_taken q"
proof (induction ops arbitrary: q)
  case (Cons op ops)
  have "oq_taken (oq_step q op) = oq_taken q" using Cons(2)
    by (cases op) (simp_all add: clear_overload_def note_turn_frame_def)
  with Cons show ?case by simp
qed simp

lemma taken_parts [simp]:
  "oq_taken (ss_oq (ss_log x s)) = oq_taken (ss_oq s)" "oq_taken (ss_oq (set_replay r s)) = oq_taken (ss_oq s)"
  "oq_taken (ss_oq (set_allow a s)) = oq_taken (ss_oq s)" "oq_taken (ss_oq (reset_replay s)) = oq_taken (ss_oq s)"
  by (simp_all add: ss_log_def set_replay_def set_allow_def reset_replay_def oqs_def)

lemma taken_finish: "oq_taken (ss_oq (snd (finish_if_ready s))) = oq_taken (ss_oq s)"
  by (simp add: finish_if_ready_def finish_replay_def Let_def oqs_def clear_overload_def)

lemma taken_out: "oq_taken (ss_oq (out_step op s)) = oq_taken (oq_step (ss_oq s) op)"
  by (simp add: out_step_def Let_def taken_finish) (simp add: oqs_def)

lemma taken_sync: "oq_taken (ss_oq (reject_sync cn w s)) = oq_taken (ss_oq s)"
proof -
  have c: "oq_taken (ss_oq (close_for_reconnect cn v u)) = oq_taken (ss_oq u)" for v u by (simp add: close_for_reconnect_def)
  have n: "oq_taken (ss_oq t) = oq_taken (ss_oq u)" if "note_failure w u = (p, t)" for u p t
    using that by (auto simp: note_failure_def Let_def split: if_splits)
  show ?thesis unfolding reject_sync_def Let_def by (auto simp: c oqs_def dest!: n split: prod.split)
qed

lemma taken_channel: "oq_taken (ss_oq (reject_channel cn s)) = [] \<and> oq_queue (ss_oq (reject_channel cn s)) = []
    \<and> oq_size (ss_oq (reject_channel cn s)) = 0 \<and> rp_phase (ss_rp (reject_channel cn s)) = RpIdle \<and> ss_auth (reject_channel cn s) = NoAuthorization"
proof -
  have c: "ss_oq (close_for_reconnect cn v u) = ss_oq u" "ss_rp (close_for_reconnect cn v u) = ss_rp u" "ss_auth (close_for_reconnect cn v u) = ss_auth u"
    for v u by (simp_all add: close_for_reconnect_def ss_log_def)
  show ?thesis by (simp add: reject_channel_def Let_def c ss_log_def oqs_def reset_replay_def set_replay_def oq_discard_def tell_def rp_reset_def)
qed

text \<open>
  C26. Binary output of another pane, stream or connection never reaches the terminal. A binary message whose socket, epoch or
  channel is not the session's current one changes nothing. On the current one, a frame that names another pane, stream or
  channel (or none) is not taken in: the queue and what was accepted are emptied and the replay starts over. Only a frame
  with the session's own names adds to the accepted output, and only while a replay is authorised or committed: the
  first part of its bytes. (Plain text is not checked this way: a text that is no control message is written when it comes from the
  current connection.)
\<close>

theorem foreign_output_is_dropped:
  "case binary_message en cn meta b s of t \<Rightarrow>
     (if oq_socket (ss_oq s) = Some (cn_socket cn) \<and> oq_epoch (ss_oq s) = cn_epoch cn \<and> oq_unified (ss_oq s) \<and> 0 < cn_channel cn
         \<and> oq_channel (ss_oq s) = cn_channel cn \<and> ss_matches s \<and> oq_name (ss_oq s) = oq_active (ss_oq s)
      then (if (case meta of None \<Rightarrow> False | Some f \<Rightarrow> js_trim (fm_pane f) = oq_pane (ss_oq s) \<and> js_trim (fm_stream f) = js_trim (ss_stream s)
                 \<and> 0 < length (js_trim (ss_stream s)) \<and> fm_channel f = cn_channel cn)
            then oq_taken (ss_oq t) = oq_taken (ss_oq s) \<or> oq_taken (ss_oq t) = []
              \<or> (ss_auth s \<in> {IdentifiedReplay, LegacyReplay} \<or> ss_committed s)
                 \<and> (\<exists>us rest. oq_taken (ss_oq t) = oq_taken (ss_oq s) @ us \<and> map Inr b = map snd us @ rest)
            else oq_queue (ss_oq t) = [] \<and> oq_taken (ss_oq t) = [] \<and> rp_phase (ss_rp t) = RpIdle \<and> ss_auth t = NoAuthorization)
      else t = s)"
proof -
  have a: "oq_taken (ss_oq u) = oq_taken (ss_oq s) \<and> ss_auth u = ss_auth s \<and> (if ss_committed u then ss_committed s else True)"
    if "accept_replay_frame cn f n s = Inr u" for f n u
    using that by (auto simp: accept_replay_frame_def ss_committed_def set_replay_def oqs_def rp_reset_def split: if_splits sum.splits
        elim!: rp_accept_Inr)
  have w: "\<exists>us rest. oq_taken (ss_oq (out_step (OqWrite False False (Bytes b)) u)) = oq_taken (ss_oq u) @ us \<and> map Inr b = map snd us @ rest"
    for u using write_takes [of "Bytes b" "ss_oq u" False False] by (auto simp: taken_out takes_def text_units)
  have o: "oq_taken (ss_oq (oqs [OqNoteFrame x y] u)) = oq_taken (ss_oq u)" for x y u by (simp add: oqs_def note_turn_frame_def)
  let ?current = "oq_socket (ss_oq s) = Some (cn_socket cn) \<and> oq_epoch (ss_oq s) = cn_epoch cn \<and> oq_unified (ss_oq s) \<and> 0 < cn_channel cn
         \<and> oq_channel (ss_oq s) = cn_channel cn \<and> ss_matches s \<and> oq_name (ss_oq s) = oq_active (ss_oq s)"
  let ?own = "case meta of None \<Rightarrow> False | Some f \<Rightarrow> js_trim (fm_pane f) = oq_pane (ss_oq s) \<and> js_trim (fm_stream f) = js_trim (ss_stream s)
                 \<and> 0 < length (js_trim (ss_stream s)) \<and> fm_channel f = cn_channel cn"
  have guard: "message_guard cn s = ?current" unfolding message_guard_def transport_current_def by auto
  have own: "channel_identity cn meta [] True s = ?own" if ?current using that by (auto simp: channel_identity_def split: option.split)
  show ?thesis
  proof (cases ?current)
    case False
    then show ?thesis unfolding guard [symmetric] by (simp add: binary_message_def)
  next
    case cur: True
    show ?thesis
    proof (cases ?own)
      case False
      then show ?thesis using cur guard own [OF cur] by (simp add: binary_message_def taken_channel)
    next
      case True
      then obtain f where f: "meta = Some f" by (cases meta) auto
      have m: "message_guard cn s" "channel_identity cn meta [] True s" using guard own [OF cur] cur True by simp_all
      have "oq_taken (ss_oq (binary_message en cn meta b s)) = oq_taken (ss_oq s) \<or> oq_taken (ss_oq (binary_message en cn meta b s)) = []
        \<or> (ss_auth s \<in> {IdentifiedReplay, LegacyReplay} \<or> ss_committed s)
           \<and> (\<exists>us rest. oq_taken (ss_oq (binary_message en cn meta b s)) = oq_taken (ss_oq s) @ us \<and> map Inr b = map snd us @ rest)"
      proof (cases "accept_replay_frame cn f (length b) s")
        case (Inl e)
        then show ?thesis using m f by (simp add: binary_message_def taken_sync)
      next
        case (Inr u)
        show ?thesis using m f Inr a [OF Inr] w [of "oqs [OqNoteFrame (fm_end f) (fm_sequence f)] u"]
          by (cases "ss_auth s") (auto simp: binary_message_def o split: if_splits)
      qed
      then show ?thesis using cur True by simp
    qed
  qed
qed

end
