(* ===== verification/Replay_Liveness.thy ===== *)
theory Replay_Liveness
  imports Session_Replay
begin

section \<open>A completed replay becomes ready\<close>

text \<open>
  Liveness of the composition of \<open>Session_Replay\<close> and \<open>Output_Queue\<close>: once the server has completed a replay,
  confirming the output that is still queued ends it. The drain that takes the last entry asks the session to
  finish (\<open>session_replay_controller.js\<close>, \<open>finishIfReady\<close>), and then nothing is in the way.
\<close>

subsection \<open>What draining leaves alone\<close>

definition oq_anchor :: "oq \<Rightarrow> nat \<times> bool \<times> bool \<times> nat \<times> (nat \<times> nat) option" where
  "oq_anchor q = (oq_from q, oq_tracking q, oq_closed q, oq_received q, oq_restoring q)"

lemma anchor_core: "oq_core t = oq_core s \<Longrightarrow> oq_anchor t = oq_anchor s"
proof -
  have "oq_anchor (oq_core u) = oq_anchor u" for u by (simp add: oq_core_def oq_anchor_def)
  then show "oq_core t = oq_core s \<Longrightarrow> oq_anchor t = oq_anchor s" by metis
qed

lemma anchor_parts:
  "oq_anchor (touch_batch s) = oq_anchor s" "oq_anchor (s\<lparr>oq_batches := b\<rparr>) = oq_anchor s" "oq_anchor (s\<lparr>oq_failed := c\<rparr>) = oq_anchor s"
  "oq_anchor (drop_queue s) = oq_anchor s" "oq_anchor (s\<lparr>oq_reset_next := c\<rparr>) = oq_anchor s"
  "oq_anchor (take_applied en w s) = oq_anchor s"
  by (simp_all add: oq_anchor_def touch_batch_def drop_queue_def take_applied_def tell_def Let_def split: option.split)

lemmas anchor_simps = anchor_parts anchor_core [OF core_small(1)] anchor_core [OF core_small(4)] anchor_core [OF core_small(5)]
  anchor_core [OF core_small(6)] anchor_core [OF core_simps(1)] anchor_core [OF core_hooks] anchor_core [OF core_try_ack]
  anchor_core [OF core_drain_end] anchor_core [OF core_drain_loop]

lemma anchor_flush: "oq_anchor (oq_flush en fo s) = oq_anchor s"
proof -
  have "oq_anchor (flush_enter fo u) = oq_anchor u" for u by (simp add: flush_enter_def anchor_simps)
  moreover have "oq_anchor (drain_start en fo u) = oq_anchor u" for u by (simp add: drain_start_def anchor_simps)
  ultimately show ?thesis by (simp add: oq_flush_def Let_def anchor_simps)
qed

lemma anchor_pump: "oq_anchor (pump en s) = oq_anchor s"
proof -
  have "oq_anchor (flush_settles s) = oq_anchor s"
    by (simp add: flush_settles_def flush_finally_def flush_caught_def Let_def anchor_simps split: option.split flight.split)
  moreover have "oq_anchor (write_settles en r s) = oq_anchor s" for r
    by (simp add: write_settles_def anchor_simps split: option.split flight.split)
  ultimately show ?thesis by (simp add: pump_def anchor_flush anchor_simps split: option.split flight.split)
qed

subsection \<open>A drain and its write are of one generation\<close>

definition paired :: "flight option \<Rightarrow> bool" where
  "paired f = (case f of Some (Writing d w) \<Rightarrow> dr_gen d = pw_gen w | _ \<Rightarrow> True)"

lemma paired_None [simp]: "paired None"
  by (simp add: paired_def)

lemma paired_loop: "dr_gen d = oq_gen s \<Longrightarrow> paired (oq_flight (drain_loop en d s))"
  by (simp add: drain_loop_def begin_write_def drain_end_flying paired_def Let_def split: list.split option.split)

lemma paired_start: "paired (oq_flight (drain_start en fo s))"
proof -
  have "paired (oq_flight (drain_loop en (new_drain fo s) s))" by (rule paired_loop) (simp add: new_drain_def Let_def)
  then show ?thesis by (simp add: drain_start_def) (simp add: paired_def)
qed

lemma flight_parts:
  "oq_flight (touch_batch s) = oq_flight s" "oq_flight (lifecycle_clear s) = oq_flight s" "oq_flight (schedule_flush s) = oq_flight s"
  "oq_flight (tell x s) = oq_flight s" "oq_flight (tell_if b x s) = oq_flight s" "oq_flight (handle_overload s) = oq_flight s"
  by (simp_all add: touch_batch_def lifecycle_clear_def schedule_flush_def lifecycle_schedule_def tell_def tell_if_def handle_overload_def)

lemma paired_flush: "paired (oq_flight s) \<Longrightarrow> paired (oq_flight (oq_flush en fo s))"
proof -
  have "oq_flight (flush_enter fo u) = oq_flight u" for u by (simp add: flush_enter_def flight_parts)
  then show "paired (oq_flight s) \<Longrightarrow> paired (oq_flight (oq_flush en fo s))"
    by (simp add: oq_flush_def Let_def flight_parts paired_start)
qed

lemma paired_settles: "paired (oq_flight s) \<Longrightarrow> paired (oq_flight (write_settles en r s))" "paired (oq_flight (flush_settles s)) = (paired (oq_flight s))"
proof -
  assume p: "paired (oq_flight s)"
  show "paired (oq_flight (write_settles en r s))"
  proof (cases "\<exists>d w. oq_flight s = Some (Writing d w)")
    case True
    then obtain d w where f: "oq_flight s = Some (Writing d w)" by blast
    have g: "oq_gen (try_send_ack en (take_applied en w (end_replay_depth w (parsed_hooks en w s)))) = oq_gen s"
      using core_fields(3) [OF core_try_ack] core_fields(3) [OF core_small(6)] core_fields(3) [OF core_hooks]
      by (simp add: take_applied_more)
    show ?thesis using f p paired_loop [of "d\<lparr>dr_wrote := True\<rparr>", OF trans, OF _ g [symmetric]]
      by (auto simp: write_settles_def drain_end_flying paired_def)
  qed (use p in \<open>auto simp: write_settles_def split: option.split flight.split\<close>)
qed (auto simp: flush_settles_def flush_finally_def flush_caught_def flight_parts paired_def Let_def split: option.split flight.split)

lemma flight_write: "oq_flight (snd (oq_write l d x s)) = oq_flight s"
proof -
  have e: "oq_flight (snd (enqueue_pieces tpl b y ds u)) = oq_flight u" for tpl b y ds u
  proof (induction ds arbitrary: y u)
    case (Cons z ds)
    have "oq_flight (push_entry e u) = oq_flight u" for e by (simp add: push_entry_def)
    then show ?case using Cons by (auto simp: flight_parts Let_def)
  qed simp
  have "oq_flight (snd (after_write r)) = oq_flight (snd r)" for r by (cases r) (simp add: after_write_def flight_parts)
  then show ?thesis by (simp add: oq_write_def Let_def flight_parts e)
qed

lemma paired_step: "paired (oq_flight s) \<Longrightarrow> paired (oq_flight (oq_step s op))"
proof -
  assume p: "paired (oq_flight s)"
  have ack: "oq_flight (try_send_ack en u) = oq_flight u" for en u
    using try_ack_cases [of en u] by (auto simp: tell_def ack_sent_def Let_def)
  have imm: "paired (oq_flight (snd (write_immediate en d s)))" for en d
    using p flight_write [of True False d s] by (auto simp: write_immediate_def paired_flush split: prod.split)
  have turn: "paired (oq_flight (snd (complete_queue_turn en c q sk ep ch s)))" for en c q sk ep ch
    using p by (auto simp: complete_queue_turn_def turn_ack_pending_def ack Let_def flight_parts intro!: paired_flush split: option.split)
  have more: "oq_flight (snd (begin_replay_batch now m u)) = oq_flight u" "oq_flight (snd (complete_replay_batch now u)) = oq_flight u"
    "oq_flight (oq_discard u) = oq_flight u" for now m u
    by (simp_all add: begin_replay_batch_def complete_replay_batch_def oq_discard_def flight_parts split: prod.split)
  have arrived: "paired (oq_flight (replay_received en b s))" for en b using p by (simp add: replay_received_def Let_def more paired_flush)
  have announced: "oq_flight (replay_announced n ck h msg s) = oq_flight s" for n ck h msg
    by (simp add: replay_announced_def replay_from_def Let_def more split: option.split prod.split)
  show ?thesis
    using p by (cases op) (simp_all add: flight_write imm turn arrived announced paired_flush paired_settles flight_parts ack more
        note_turn_frame_def clear_overload_def dispose_output_session_def dispose_output_def checkpoint_restored_def open_gate_def
        fence_drain_def forget_cursors_def reset_queue_turn_def Let_def split: option.split)
qed

interpretation sqp: queue_property "\<lambda>q. paired (oq_flight q)"
  by standard (rule paired_step)

lemma session_paired: "paired (oq_flight (ss_oq (ss_run selector tab pane workspace es)))"
  by (rule sqp.sessions) (simp add: ss_fresh_def oq_start_def paired_def)

subsection \<open>The drain that empties the queue asks for the end of the replay\<close>

definition outs_grow :: "oq \<Rightarrow> oq \<Rightarrow> bool" where
  "outs_grow s t = (\<exists>xs. oq_outs t = oq_outs s @ xs)"

lemma grow_refl: "oq_outs t = oq_outs s \<Longrightarrow> outs_grow s t"
  by (simp add: outs_grow_def)

lemma grow_trans: "\<lbrakk>outs_grow s t; outs_grow t u\<rbrakk> \<Longrightarrow> outs_grow s u"
  by (auto simp: outs_grow_def)

lemma grow_tell: "outs_grow s (tell x s)" "outs_grow s (tell_if b x s)"
  by (simp_all add: outs_grow_def tell_def tell_if_def)

lemma grow_parts: "outs_grow s (parsed_hooks en w s)" "outs_grow s (end_replay_depth w s)" "outs_grow s (take_applied en w s)"
  "outs_grow s (try_send_ack en s)"
proof -
  show "outs_grow s (parsed_hooks en w s)" unfolding parsed_hooks_def Let_def by (intro grow_trans [OF _ grow_tell(1)] grow_trans [OF _ grow_tell(2)] grow_tell)
  show "outs_grow s (try_send_ack en s)" using try_ack_cases [of en s]
    by (auto simp: outs_grow_def tell_def ack_sent_def Let_def)
qed (auto simp: outs_grow_def end_replay_depth_def take_applied_def tell_def Let_def split: option.split)

lemma drain_end_asks: "\<lbrakk>\<not> oq_closed v; oq_gen v = dr_gen d; oq_size v = 0; outs_grow s v\<rbrakk> \<Longrightarrow> asks_finish s (drain_end en d v)"
proof -
  assume v: "\<not> oq_closed v" "oq_gen v = dr_gen d" "oq_size v = 0" and grow: "outs_grow s v"
  define u where "u = tell_if (dr_wrote d \<and> dr_replayed d) CheckpointScheduled
    (if dr_wrote d then tell (if oq_committed v \<and> en_render en then RenderRequested else ValidationScheduled) (tell ViewportReset v) else v)"
  have "outs_grow v u" by (simp add: u_def outs_grow_def tell_def tell_if_def)
  then obtain xs where xs: "oq_outs (try_send_ack en u) = oq_outs s @ xs"
    using grow_trans [OF grow_trans [OF grow] grow_parts(4)] by (auto simp: outs_grow_def)
  have "oq_size (try_send_ack en u) = 0"
    using v(3) core_fields(2) [OF core_try_ack [of en u]] by (simp add: u_def tell_def tell_if_def)
  then have "oq_outs (drain_end en d v) = oq_outs s @ xs @ [FinishReplay]"
    using v xs by (simp add: drain_end_def Let_def u_def [symmetric]) (simp add: tell_def)
  then show ?thesis by (simp add: asks_finish_def)
qed

lemma flush_keeps_queue:
  assumes "unblocked s"
  shows "oq_queue (oq_flush en flush_defaults s) = oq_queue s"
proof -
  have u: "unblocked (touch_batch (lifecycle_clear s))"
    using assms unblocked_core [OF core_small(5) [of s]] by (simp add: unblocked_touch)
  have "oq_queue (drain_start en flush_defaults (touch_batch (lifecycle_clear s))) = oq_queue (touch_batch (lifecycle_clear s))"
    using u core_fields(1) [OF core_drain_loop] core_fields(1) [OF core_try_ack]
    by (auto simp: drain_start_def unblocked_def list_all_iff list_ex_iff tell_def schedule_flush_def lifecycle_schedule_def)
  moreover have "oq_queue (touch_batch (lifecycle_clear s)) = oq_queue s" by (simp add: touch_batch_def lifecycle_clear_def)
  moreover have "flush_enter flush_defaults v = touch_batch v" for v by (simp add: flush_enter_def flush_defaults_def)
  ultimately show ?thesis
    by (simp add: oq_flush_def Let_def) (simp add: lifecycle_clear_def schedule_flush_def lifecycle_schedule_def)
qed

lemma pump_queue_kept: "\<lbrakk>calm s; \<not> (\<exists>d w. oq_flight s = Some (Writing d w))\<rbrakk> \<Longrightarrow> oq_queue (pump en s) = oq_queue s"
proof -
  assume s: "calm s" "\<not> (\<exists>d w. oq_flight s = Some (Writing d w))"
  have "unblocked (lifecycle_clear s)" using s(1) unblocked_core [OF core_small(5) [of s]] by (simp add: calm_def)
  note f = flush_keeps_queue [OF this, of en]
  have "oq_queue (flush_settles s) = oq_queue s"
    by (simp add: flush_settles_def flush_finally_def flush_caught_def touch_batch_def tell_def lifecycle_clear_def schedule_flush_def
        lifecycle_schedule_def Let_def split: option.split flight.split)
  with f show ?thesis using s(2)
    by (auto simp: pump_def split: option.split flight.split) (simp_all add: lifecycle_clear_def)
qed

lemma pump_asks:
  assumes s: "oq_inv s" "calm s" "paired (oq_flight s)" "oq_queue s \<noteq> []" and empty: "oq_queue (pump en s) = []"
  shows "asks_finish s (pump en s)"
proof -
  have q: "oq_size (pump en s) = 0" using pump_inv [OF s(1), of en] empty by (simp add: oq_inv_def queue_ok_def sum_len_def)
  show ?thesis
  proof (cases "\<exists>d w. oq_flight s = Some (Writing d w)")
    case True
    then obtain d w where f: "oq_flight s = Some (Writing d w)" by blast
    then have g: "pw_gen w = oq_gen s" "dr_gen d = oq_gen s" "\<not> oq_closed s" using s by (simp_all add: calm_def flight_calm_def unblocked_def paired_def)
    define v where "v = try_send_ack en (take_applied en w (end_replay_depth w (parsed_hooks en w s)))"
    have e: "pump en s = drain_loop en (d\<lparr>dr_wrote := True\<rparr>) v" using f g by (simp add: pump_def write_settles_def v_def)
    note c = core_fields [OF core_drain_loop [of en "d\<lparr>dr_wrote := True\<rparr>" v], folded e]
    have v: "oq_queue v = []" "oq_size v = 0" "oq_gen v = oq_gen s" "\<not> oq_closed v"
      using c empty q g core_fields(3,5) [OF core_try_ack] core_fields(3,5) [OF core_small(6)] core_fields(3,5) [OF core_hooks]
      by (simp_all add: v_def take_applied_more)
    have "outs_grow s v" unfolding v_def by (intro grow_trans [OF _ grow_parts(4)] grow_trans [OF _ grow_parts(3)] grow_trans [OF _ grow_parts(2)] grow_parts(1))
    then show ?thesis using drain_end_asks [of v "d\<lparr>dr_wrote := True\<rparr>"] v g by (simp add: e drain_loop_def)
  next
    case False
    then have "oq_queue (pump en s) = oq_queue s"
      using s pump_queue_kept [of s en] by blast
    then show ?thesis using s(4) empty by simp
  qed
qed

subsection \<open>The session while its queue is drained\<close>

text \<open>The next thing that happens to the queue of a session that is left alone.\<close>

definition pump_op :: "oq_env \<Rightarrow> oq \<Rightarrow> oq_op" where
  "pump_op en q = (case oq_flight q of None \<Rightarrow> OqWake en | Some (Writing d w) \<Rightarrow> OqWriteSettles en Parsed | Some f \<Rightarrow> OqFlushSettles)"

definition ss_pump :: "oq_env \<Rightarrow> sess \<Rightarrow> sess" where
  "ss_pump en s = out_step (pump_op en (ss_oq s)) s"

lemma pump_is_op: "oq_step q (pump_op en q) = pump en q"
  by (simp add: pump_op_def pump_def split: option.split flight.split)

text \<open>A replay the server has completed, of which some output is still queued.\<close>

definition completing :: "sess \<Rightarrow> bool" where
  "completing s = (rp_phase (ss_rp s) = RpAwaitingCommit \<and> ss_auth s \<noteq> NoAuthorization \<and> oq_restoring (ss_oq s) = None
     \<and> \<not> ss_resize_pending s \<and> oq_tracking (ss_oq s) \<and> ss_target s \<le> oq_received (ss_oq s)
     \<and> oq_from (ss_oq s) \<le> oq_applied (ss_oq s) \<and> \<not> oq_gap (ss_oq s) \<and> calm (ss_oq s))"

lemma pump_applied:
  assumes "oq_inv s" "\<not> oq_gap s" "oq_from s \<le> oq_applied s" "\<not> oq_gap (pump en s)"
  shows "oq_from s \<le> oq_applied (pump en s)"
proof -
  have "steady (pump_op en s)" by (simp add: pump_op_def steady_def split: option.split flight.split)
  from queue_progress_step [OF this assms(1,3)] assms(2-4) show ?thesis by (simp add: pump_is_op queue_progress_def)
qed

lemma pump_completing:
  assumes s: "completing s" "oq_inv (ss_oq s)" "paired (oq_flight (ss_oq s))" "oq_queue (ss_oq s) \<noteq> []" and en: "en_turn en" "en_budget en"
  shows "oq_queue (pump en (ss_oq s)) \<noteq> [] \<Longrightarrow> ss_pump en s = s\<lparr>ss_oq := pump en (ss_oq s)\<rparr> \<and> completing (ss_pump en s)"
    "oq_queue (pump en (ss_oq s)) = [] \<Longrightarrow> ss_ready (ss_pump en s) \<and> ss_committed (ss_pump en s)"
proof -
  let ?q = "pump en (ss_oq s)" and ?t = "s\<lparr>ss_oq := pump en (ss_oq s)\<rparr>"
  have c: "calm (ss_oq s)" "\<not> oq_gap (ss_oq s)" "oq_from (ss_oq s) \<le> oq_applied (ss_oq s)" using s(1) by (simp_all add: completing_def)
  have p: "pumped (ss_oq s) ?q" by (rule pump_progress [OF s(2) c(1) s(4) en])
  have inv: "oq_inv ?q" by (rule pump_inv [OF s(2)])
  have a: "oq_anchor ?q = oq_anchor (ss_oq s)" by (rule anchor_pump)
  have le: "oq_from (ss_oq s) \<le> oq_applied ?q" using pump_applied [OF s(2) c(2,3)] p c(2) by (simp add: pumped_def)
  have t: "completing ?t" using s(1) p a le by (simp add: completing_def pumped_def oq_anchor_def)
  have o: "oqs [pump_op en (ss_oq s)] s = ?t" by (simp add: oqs_def pump_is_op)
  show "ss_pump en s = ?t \<and> completing (ss_pump en s)" if "oq_queue ?q \<noteq> []"
  proof -
    have "oq_size ?q \<noteq> 0" using empty_queue [OF inv] that by blast
    then have "snd (finish_if_ready ?t) = ?t" by (simp add: finish_if_ready_def replay_is_ready_def)
    then show ?thesis using t by (simp add: ss_pump_def out_step_def o Let_def)
  qed
  show "ss_ready (ss_pump en s) \<and> ss_committed (ss_pump en s)" if e: "oq_queue ?q = []"
  proof -
    have z: "oq_size ?q = 0" using inv e by (simp add: oq_inv_def queue_ok_def sum_len_def)
    have "oq_applied ?q = oq_received ?q"
      using inv t le a e by (simp add: oq_inv_defs completing_def oq_anchor_def max_def split: if_splits)
    then have "replay_is_ready ?t" using t z a p
      by (simp add: replay_is_ready_def completing_def pumped_def calm_def unblocked_def)
    moreover have "asks_finish (ss_oq s) ?q" by (rule pump_asks [OF s(2) c(1) s(3,4) e])
    ultimately have "ss_pump en s = finish_replay ?t" by (simp add: ss_pump_def out_step_def o Let_def finish_if_ready_def)
    moreover have "rp_phase (ss_rp s) = RpAwaitingCommit" using s(1) by (simp add: completing_def)
    ultimately show ?thesis by (simp add: finish_replay_def rp_commit_def Let_def ss_log_def ss_committed_def)
  qed
qed

lemma completing_ends:
  assumes en: "en_turn en" "en_budget en"
  shows "\<lbrakk>completing s; oq_inv (ss_oq s); paired (oq_flight (ss_oq s)); oq_queue (ss_oq s) \<noteq> []\<rbrakk> \<Longrightarrow>
    \<exists>k \<le> drain_rank (ss_oq s). ss_ready ((ss_pump en ^^ k) s) \<and> ss_committed ((ss_pump en ^^ k) s)"
proof (induction "drain_rank (ss_oq s)" arbitrary: s rule: less_induct)
  case less
  let ?q = "pump en (ss_oq s)"
  have c: "calm (ss_oq s)" using less.prems(1) by (simp add: completing_def)
  have p: "pumped (ss_oq s) ?q" by (rule pump_progress [OF less.prems(2) c less.prems(4) en])
  then have lt: "drain_rank ?q < drain_rank (ss_oq s)" by (simp add: pumped_def)
  note cases = pump_completing [OF less.prems en]
  show ?case
  proof (cases "oq_queue ?q = []")
    case True
    then show ?thesis using cases(2) lt by (intro exI [of _ "Suc 0"]) simp
  next
    case False
    from cases(1) [OF False] have "completing (ss_pump en s)" by blast
    moreover from cases(1) [OF False] have "ss_oq (ss_pump en s) = ?q" by simp
    ultimately have t: "ss_oq (ss_pump en s) = ?q" "completing (ss_pump en s)" by blast+
    have "paired (oq_flight ?q)" using paired_step [OF less.prems(3), of "pump_op en (ss_oq s)"] by (simp only: pump_is_op)
    with less.hyps [of "ss_pump en s"] lt t False pump_inv [OF less.prems(2), of en] obtain k where
      "k \<le> drain_rank ?q" "ss_ready ((ss_pump en ^^ k) (ss_pump en s))" "ss_committed ((ss_pump en ^^ k) (ss_pump en s))"
      by auto
    then show ?thesis using lt by (intro exI [of _ "Suc k"]) (simp add: funpow_swap1)
  qed
qed

text \<open>
  C7. A replay the server has completed becomes ready: as long as some of its output is queued and nothing
  blocks the queue, confirming the writes one after the other commits the replay and makes the session
  ready, after at most three steps for each queued entry and two more.
\<close>

theorem completed_replay_becomes_ready:
  "case ss_run selector tab pane workspace es of s \<Rightarrow>
     if en_turn en \<and> en_budget en \<and> completing s \<and> oq_queue (ss_oq s) \<noteq> [] then
       \<exists>k \<le> 3 * length (oq_queue (ss_oq s)) + 2. ss_ready ((ss_pump en ^^ k) s) \<and> ss_committed ((ss_pump en ^^ k) s)
     else True"
proof -
  let ?s = "ss_run selector tab pane workspace es"
  have "drain_rank (ss_oq ?s) \<le> 3 * length (oq_queue (ss_oq ?s)) + 2"
    by (simp add: drain_rank_def flight_rank_def split: option.split flight.split)
  then show ?thesis
    using completing_ends [of en ?s, OF _ _ _ session_queue_inv session_paired] by (auto intro: le_trans)
qed

subsection \<open>A replay from its connection to its completion\<close>

text \<open>A stream is connected, the server announces two bytes of history, sends them and completes the replay.\<close>

definition start_message :: json where
  "start_message = JObj [(''type'', JPrim (Str ''history-replay-start'')), (''selector'', JPrim (Str ''box'')), (''pane_id'', JPrim (Str ''p1'')),
     (''history_generation'', JPrim (Str ''g1'')), (''sync_mode'', JPrim (Str ''snapshot'')),
     (''server_base_cursor'', JPrim (Str ''0'')), (''server_end_cursor'', JPrim (Str ''9'')),
     (''delta_from_cursor'', JPrim (Str ''7'')), (''delta_to_cursor'', JPrim (Str ''9'')),
     (''workspace_generation'', JPrim (Str ''w1'')), (''tab_id'', JPrim (Str ''t1''))]"

definition complete_message :: json where
  "complete_message = JObj [(''type'', JPrim (Str ''history-replay-complete'')), (''history_generation'', JPrim (Str ''g1'')),
     (''history_cursor'', JPrim (Str ''9'')), (''workspace_generation'', JPrim (Str ''w1'')), (''tab_id'', JPrim (Str ''t1''))]"

definition sample_ss_env :: ss_env where
  "sample_ss_env = \<lparr>sv_output = sample_env\<lparr>en_turn := False\<rparr>, sv_reset = True\<rparr>"

definition sample_conn :: conn where
  "sample_conn = \<lparr>cn_socket = 1, cn_epoch = 1, cn_channel = 4\<rparr>"

definition sample_meta :: frame_meta where
  "sample_meta = \<lparr>fm_pane = ''p1'', fm_stream = ''st'', fm_channel = 4, fm_sequence = Num (Fin 1), fm_from = Str ''7'', fm_end = Str ''9''\<rparr>"

definition session1 :: sess where
  "session1 = (ss_fresh ''box'' ''t1'' ''p1'' ''w1'')\<lparr>ss_oq := (oq_start ''box'' ''p1'')\<lparr>oq_epoch := 1, oq_channel := 4, oq_unified := True,
     oq_socket := Some 1, oq_windowed := True\<rparr>, ss_request := 1, ss_stream := ''st''\<rparr>"

definition session2 :: sess where
  "session2 = session1\<lparr>ss_oq := (ss_oq session1)\<lparr>oq_gen := 1, oq_history := ''g1'', oq_tracking := True, oq_received := 7, oq_applied := 7,
       oq_from := 7, oq_outs := [DiscardNoted]\<rparr>,
     ss_rp := \<lparr>rp_phase = RpReplaying, rp_request = ''1'', rp_epoch = Fin 1,
       rp_identity = \<lparr>ri_selector = ''box'', ri_pane = ''p1'', ri_history = ''g1''\<rparr>, rp_expected_seq = Some 1, rp_expected_cursor = Some 7,
       rp_target = Some 9, rp_legacy = False\<rparr>,
     ss_auth := IdentifiedReplay, ss_target := 9, ss_sync := ''snapshot'', ss_persisted := 7, ss_outs := [HoldKept, SyncPendingMarked], ss_start := 7\<rparr>"

lemmas sample_session_defs = ss_fresh_def oqs_def reset_replay_def set_replay_def set_allow_def Let_def oq_start_def reset_queue_turn_def rp_reset_def
  ss_log_def

lemma sample_step1: "ss_step (ss_fresh ''box'' ''t1'' ''p1'' ''w1'') (SsConnect 1 4 ''st'') = session1"
  by (simp add: session1_def connect_stream_def asks_stream_def may_connect_def sample_session_defs)

lemma sample_trims: "js_trim ''snapshot'' = ''snapshot''" "js_trim ''w1'' = ''w1''" "js_trim ''t1'' = ''t1''" "js_trim ''p1'' = ''p1''" "js_trim ''st'' = ''st''"
  "js_trim ''box'' = ''box''" "js_trim ''g1'' = ''g1''" "js_trim [] = []"
  by code_simp+

lemma start_cursors: "json_cursor (JPrim (Str ''0'')) = Some 0" "json_cursor (JPrim (Str ''7'')) = Some 7" "json_cursor (JPrim (Str ''9'')) = Some 9"
  by code_simp+

lemmas sample_fields_defs = message_pane_def message_selector_def generated_allowed_def take_checkpoint_def announced_range_def json_true_def
  json_truthy_def js_truthy_def start_cursors sample_trims json_get_def json_or_def json_trimmed_def js_string_def

lemma start_fields:
  "json_get start_message ''type'' = JPrim (Str ''history-replay-start'')" 
  "message_pane start_message = ''p1''"   "message_selector start_message = ''box''" 
  "json_trimmed (json_get start_message ''history_generation'') = ''g1''"
  "json_trimmed (json_get start_message ''sync_mode'') = ''snapshot''"
  "json_trimmed (json_get start_message ''workspace_generation'') = ''w1''"
  "json_trimmed (json_get start_message ''tab_id'') = ''t1''"
  "generated_allowed start_message = False"
  "take_checkpoint start_message p = (None, Inr None)"
   "announced_range start_message = Some \<lparr>an_base = 0, an_stop = 9, an_from = 7, an_to = 9\<rparr>"
  by (simp_all add: sample_fields_defs start_message_def)


lemma request_text: "nat_text (Suc 0) = ''1''" by code_simp

lemma sample_begin: "\<lbrakk>oq_pane (ss_oq s) = ''p1''; oq_name (ss_oq s) = ''box''; ss_request s = 1\<rbrakk> \<Longrightarrow>
   begin_replay sample_conn ''g1'' \<lparr>an_base = 0, an_stop = 9, an_from = 7, an_to = 9\<rparr> s =
   Inr \<lparr>rp_phase = RpReplaying, rp_request = ''1'', rp_epoch = Fin 1,
       rp_identity = \<lparr>ri_selector = ''box'', ri_pane = ''p1'', ri_history = ''g1''\<rparr>, rp_expected_seq = Some 1, rp_expected_cursor = Some 7,
       rp_target = Some 9, rp_legacy = False\<rparr>"
  using parse_cursor_val [of 7] parse_cursor_val [of 9]
  by (simp add: begin_replay_def replay_context_def rp_begin_def sample_conn_def undef_default_def cursor_val_def normalize_identity_def identity_args_def
   number_or0_def js_or_def js_truthy_def js_number_def Let_def request_text)

lemma start_kind: "message_kind (Some start_message) = Some ''history-replay-start''"
  by (simp add: message_kind_def start_fields)

lemma sample_identity: "\<lbrakk>oq_pane (ss_oq s) = ''p1''; ss_stream s = ''st''\<rbrakk> \<Longrightarrow> channel_identity sample_conn (Some sample_meta) k b s"
  by (simp add: channel_identity_def sample_meta_def sample_conn_def sample_trims)

lemma start_valid: "\<lbrakk>oq_name (ss_oq s) = ''box''; oq_pane (ss_oq s) = ''p1''; ss_workspace s = ''w1''; ss_tab s = ''t1''\<rbrakk> \<Longrightarrow>
  validate_replay_message start_message s \<and> validate_workspace_message start_message s"
  by (simp add: validate_replay_message_def validate_workspace_message_def start_fields sample_trims)

lemma start_guard: "message_guard sample_conn session1"
  by (simp add: message_guard_def transport_current_def session1_def sample_conn_def ss_fresh_def oq_start_def)

lemma start_no_burst: "begin_replay_batch now start_message q = (False, q\<lparr>oq_batches := (oq_batches q)\<lparr>bb_batch := None\<rparr>\<rparr>)"
proof -
  have "json_number (json_or (json_get start_message ''replay_burst_bytes'') (JPrim (Num (Fin 0)))) = Fin 0"
    by (simp add: start_message_def json_get_def json_or_def json_truthy_def js_truthy_def json_number_def json_prim_def js_number_def)
  then have "announced_batch mx now v start_message = None" for mx v by (simp add: announced_batch_def Let_def num_int_def)
  then show ?thesis by (simp add: begin_replay_batch_def batch_begin_def)
qed

lemma sample_start: "history_start sample_ss_env sample_conn start_message session1 = Inr session2"
proof -
  define a where "a = \<lparr>an_base = 0::nat, an_stop = 9, an_from = 7, an_to = 9\<rparr>"
  define u where "u = ss_log HoldKept (session1\<lparr>ss_preparing := False\<rparr>)"
  have v: "validate_replay_message start_message session1" "validate_workspace_message start_message u"
    using start_valid [of session1] start_valid [of u] by (simp_all add: session1_def u_def ss_fresh_def oq_start_def ss_log_def)
  have "history_start sample_ss_env sample_conn start_message session1 = identified_start sample_ss_env sample_conn ''g1'' ''snapshot'' a start_message u"
    using v by (simp add: history_start_def start_fields a_def u_def Let_def)
  also have "\<dots> = Inr session2"
    by (simp add: identified_start_def a_def sample_begin snapshot_start_def start_fields reset_terminal_def reset_allowed_def u_def session1_def session2_def sample_session_defs sample_ss_env_def
      replay_announced_def replay_from_def oq_discard_def tell_def lifecycle_clear_def start_no_burst prepare_geometry_def batch_discard_def request_text)
  finally show ?thesis .
qed

lemma sample_step2: "ss_step session1 (SsText sample_ss_env sample_conn (Some sample_meta) [] (Some start_message)) = session2"
  using sample_identity [of session1] by (simp add: text_message_def start_guard start_kind control_message_def sample_start) (simp add: session1_def ss_fresh_def oq_start_def)

definition session3 :: sess where
  "session3 = session2\<lparr>ss_oq := (ss_oq session2)\<lparr>oq_queue := [\<lparr>oe_data = Bytes [104, 105], oe_kind = ''bytes'', oe_len = 2,
           oe_replay = True, oe_suppress = False, oe_allow = False,
           oe_gen = 1, oe_epoch = 1, oe_channel = 4, oe_history = ''g1'',
           oe_selector = ''box'', oe_pane = ''p1'', oe_server = True,
           oe_start = Some 7, oe_end = Some 9, oe_batch = None\<rparr>], oq_size := 2, oq_received := 9, oq_turn_cursor := Str ''9'',
       oq_turn_sequence := Num (Fin 1), oq_due := True, oq_taken := [(Some 7, Inr 104), (Some 8, Inr 105)]\<rparr>,
     ss_rp := (ss_rp session2)\<lparr>rp_expected_seq := Some 2, rp_expected_cursor := Some 9\<rparr>, ss_queue_active := True\<rparr>"

lemma sample_cursors: "parse_cursor (Str ''7'') = Some 7" "parse_cursor (Str ''9'') = Some 9" "parse_cursor (Num (Fin 1)) = Some 1"
  by code_simp+

lemma sample_accept: "accept_replay_frame sample_conn sample_meta 2 session2 = Inr (session2\<lparr>ss_rp := (ss_rp session2)\<lparr>rp_expected_seq := Some 2, rp_expected_cursor := Some 9\<rparr>, ss_queue_active := True\<rparr>)"
  by (simp add: accept_replay_frame_def sample_meta_def session2_def session1_def sample_session_defs rp_accept_def rp_assert_current_def replay_context_def
   undef_default_def normalize_identity_def identity_args_def sample_conn_def request_text sample_cursors number_or0_def js_or_def js_truthy_def js_number_def safe_integer_def max_safe_int_def num_int_def num_eq_def)


lemma sample_guards: "message_guard sample_conn session2" "message_guard sample_conn session3"
  by (simp_all add: message_guard_def transport_current_def session2_def session3_def session1_def sample_conn_def ss_fresh_def oq_start_def)

lemma sample_step3: "ss_step session2 (SsBinary sample_ss_env sample_conn (Some sample_meta) [104, 105]) = session3"
proof -
  have i: "channel_identity sample_conn (Some sample_meta) [] True session2"
    by (rule sample_identity) (simp_all add: session2_def session1_def ss_fresh_def oq_start_def)
  show ?thesis
    by (simp add: binary_message_def sample_guards i sample_accept [simplified numeral_2_eq_2]) (simp add: out_step_def asks_finish_def session3_def session2_def session1_def sample_session_defs
       note_turn_frame_def sample_meta_def sample_defs upt_rec)
qed

definition session4 :: sess where
  "session4 = session3\<lparr>ss_oq := (ss_oq session3)\<lparr>oq_completing := True\<rparr>, ss_rp := (ss_rp session3)\<lparr>rp_phase := RpAwaitingCommit\<rparr>\<rparr>"

lemma complete_fields:
  "json_get complete_message ''type'' = JPrim (Str ''history-replay-complete'')" 
  "message_pane complete_message = []"   "message_selector complete_message = []" 
  "json_trimmed (json_get complete_message ''history_generation'') = ''g1''"
  "json_trimmed (json_get complete_message ''workspace_generation'') = ''w1''"
  "json_trimmed (json_get complete_message ''tab_id'') = ''t1''"
  "json_cursor (json_get complete_message ''history_cursor'') = Some 9"
  by (simp_all add: sample_fields_defs complete_message_def)

lemma sample_complete: "rp_complete (json_prim (json_get complete_message ''history_cursor'')) (replay_context sample_conn (oq_history (ss_oq session3)) session3) (ss_rp session3)
  = Inr ((ss_rp session3)\<lparr>rp_phase := RpAwaitingCommit\<rparr>)"
  by (simp add: complete_message_def json_get_def json_prim_def sample_cursors rp_complete_def rp_assert_current_def replay_context_def
   undef_default_def normalize_identity_def identity_args_def sample_conn_def request_text number_or0_def js_or_def js_truthy_def js_number_def num_eq_def
   session3_def session2_def session1_def sample_session_defs)

lemma sample_completes: "replay_completes sample_ss_env sample_conn complete_message session3 = session4"
proof -
  have v: "validate_replay_message complete_message session3" "validate_workspace_message complete_message session3"
    by (simp_all add: validate_replay_message_def validate_workspace_message_def complete_fields sample_trims session3_def session2_def session1_def ss_fresh_def)
  have c: "completion_valid complete_message session3"
    by (simp add: completion_valid_def v complete_fields) (simp add: session3_def session2_def session1_def sample_session_defs)
  have l: "complete_legacy sample_conn session3 = Inr session3"
    by (simp add: complete_legacy_def) (simp add: session3_def session2_def session1_def sample_session_defs)
  have k: "complete_controller sample_conn complete_message session3 = Inr (set_replay ((ss_rp session3)\<lparr>rp_phase := RpAwaitingCommit\<rparr>) session3)"
    by (simp add: complete_controller_def sample_complete) (simp add: session3_def session2_def session1_def sample_session_defs)
  have a: "ss_auth session3 = IdentifiedReplay" by (simp add: session3_def session2_def)
  show ?thesis
    by (simp add: replay_completes_def a v c l k) (simp add: replay_arrived_def finish_if_ready_def replay_is_ready_def out_step_def asks_finish_def
     session4_def session3_def session2_def session1_def sample_session_defs replay_received_def complete_replay_batch_def batch_complete_def batch_get_def
      oq_flush_def flush_enter_def flush_defaults_def sample_ss_env_def sample_env_def sample_defs)
qed

lemma sample_step4: "ss_step session3 (SsText sample_ss_env sample_conn (Some sample_meta) [] (Some complete_message)) = session4"
proof -
  have "message_kind (Some complete_message) = Some ''history-replay-complete''" by (simp add: message_kind_def complete_fields)
  moreover have "channel_identity sample_conn (Some sample_meta) k False session3" for k
    by (rule sample_identity) (simp_all add: session3_def session2_def session1_def ss_fresh_def oq_start_def)
  ultimately show ?thesis by (simp add: text_message_def sample_guards control_message_def sample_completes)
qed

lemma sample_completing: "completing session4" "oq_queue (ss_oq session4) \<noteq> []"
  by (simp_all add: completing_def session4_def session3_def session2_def session1_def ss_fresh_def oq_start_def calm_def unblocked_def flight_calm_def
    batch_waiting_def live_batch_def batch_get_def entry_current_def)

lemma sample_run: "ss_run ''box'' ''t1'' ''p1'' ''w1'' [SsConnect 1 4 ''st'',
     SsText sample_ss_env sample_conn (Some sample_meta) [] (Some start_message), SsBinary sample_ss_env sample_conn (Some sample_meta) [104, 105],
     SsText sample_ss_env sample_conn (Some sample_meta) [] (Some complete_message)] = session4"
  by (simp only: foldl.simps sample_step1 sample_step2 sample_step3 sample_step4)

lemma completed_replay_becomes_ready_witness:
  "\<exists>k \<le> 5. ss_ready ((ss_pump sample_env ^^ k) session4) \<and> ss_committed ((ss_pump sample_env ^^ k) session4)"
proof -
  have "length (oq_queue (ss_oq session4)) = 1" by (simp add: session4_def session3_def)
  then show ?thesis
    using completed_replay_becomes_ready [where selector = "''box''" and tab = "''t1''" and pane = "''p1''" and workspace = "''w1''"
      and en = sample_env and es = "[SsConnect 1 4 ''st'', SsText sample_ss_env sample_conn (Some sample_meta) [] (Some start_message),
        SsBinary sample_ss_env sample_conn (Some sample_meta) [104, 105], SsText sample_ss_env sample_conn (Some sample_meta) [] (Some complete_message)]"]
      sample_completing unfolding sample_run by (simp add: sample_env_def)
qed

end
