(* ===== verification/Terminal_Input.thy ===== *)
theory Terminal_Input
  imports Prelude Output_Text
begin

section \<open>The input of a terminal\<close>

text \<open>
  Model of \<open>terminal/input/input_controller.js\<close>, \<open>input_lifecycle.js\<close> and of the patterns of \<open>input_model.js\<close>
  (under \<open>src/runtime/static\<close>). What the user types passes through three stores: the pending list, while the
  terminal is not ready (a replay, a resize, no socket); the buffer, which joins small writes for a few
  milliseconds; and the queue, for what is longer than a chunk or follows it. A pump, driven by a timer, moves
  input from one to the next and sends at most four chunks at a time. What the emulator itself answers (cursor
  reports and the like) is not user input: it is sent past the stores or suppressed.

  The health of the connection, the socket, the size of the terminal and the clock belong to other owners: they are
  functions of the environment of an operation, which may answer every question of one operation differently. A health
  check is taken to return; theory Transport_Runtime shows where the code can make it raise.
  \<open>in_taken\<close> is not a field of the code: it records the user input accepted since input was last discarded.
\<close>

subsection \<open>Generated responses\<close>

definition digit_unit :: "nat \<Rightarrow> bool" where
  "digit_unit u = (48 \<le> u \<and> u \<le> 57)"

text \<open>\<open>\d{1,4}\<close> and the unit that follows it; that unit is never a digit where the patterns use it.\<close>

definition digits_then :: "units \<Rightarrow> (nat \<times> units) option" where
  "digits_then t = (let ds = takeWhile digit_unit t; r = dropWhile digit_unit t in
     if 1 \<le> length ds \<and> length ds \<le> 4 then (case r of [] \<Rightarrow> None | u # r' \<Rightarrow> Some (u, r')) else None)"

definition report_end :: "units \<Rightarrow> units option" where
  "report_end t = (case digits_then t of Some (u, r) \<Rightarrow> if u = 82 then Some r else None | None \<Rightarrow> None)"

text \<open>\<open>\d{1,4};\d{1,4}R|\d{1,4}R\<close>\<close>

definition report_rest :: "units \<Rightarrow> units option" where
  "report_rest t = (case digits_then t of
       Some (u, r) \<Rightarrow> if u = 59 then report_end r else if u = 82 then Some r else None
     | None \<Rightarrow> None)"

text \<open>\<open>[\d;]{1,16}c\<close>\<close>

definition attribute_rest :: "units \<Rightarrow> units option" where
  "attribute_rest t = (let p = \<lambda>u. digit_unit u \<or> u = 59; n = length (takeWhile p t) in
     if 1 \<le> n \<and> n \<le> 16 then (case dropWhile p t of u # r \<Rightarrow> if u = 99 then Some r else None | [] \<Rightarrow> None) else None)"

text \<open>One match of \<open>generatedTerminalResponsePattern\<close>: what follows it.\<close>

definition generated_rest :: "units \<Rightarrow> units option" where
  "generated_rest t0 = (let t = (case t0 of u # r \<Rightarrow> if u = 27 then r else t0 | [] \<Rightarrow> []) in
     case t of [] \<Rightarrow> None
     | b # r \<Rightarrow> if b \<noteq> 91 then None
         else (case report_rest r of Some q \<Rightarrow> Some q
           | None \<Rightarrow> (case r of
               u # v # q \<Rightarrow> if u = 48 \<and> v = 110 then Some q
                 else if u = 63 \<or> u = 62 then attribute_rest (v # q) else None
             | _ \<Rightarrow> None)))"

text \<open>One match of \<open>generatedTerminalResponseTailPattern\<close>; the alternative \<open>\dR\<close> is a case of \<open>\d{1,4}R\<close>.\<close>

definition tail_rest :: "units \<Rightarrow> units option" where
  "tail_rest t = (case t of [] \<Rightarrow> None
     | u # r \<Rightarrow> if u = 91 then report_rest r else if u = 59 then report_end r else report_rest t)"

lemma digits_then_less: "digits_then t = Some (u, r) \<Longrightarrow> length r < length t"
  using length_dropWhile_le [of digit_unit t] by (auto simp: digits_then_def Let_def split: if_splits list.splits)

lemma report_end_less: "report_end t = Some r \<Longrightarrow> length r < length t"
  by (auto simp: report_end_def dest: digits_then_less split: option.splits if_splits)

lemma report_rest_less: "report_rest t = Some r \<Longrightarrow> length r < length t"
  by (auto simp: report_rest_def dest!: digits_then_less report_end_less split: option.splits if_splits)

lemma attribute_rest_less: "attribute_rest t = Some r \<Longrightarrow> length r < length t"
  using length_dropWhile_le [of "\<lambda>u. digit_unit u \<or> u = 59" t]
  by (auto simp: attribute_rest_def Let_def split: if_splits list.splits)

lemma generated_rest_less: "generated_rest t = Some r \<Longrightarrow> length r < length t"
  by (auto simp: generated_rest_def Let_def dest!: report_rest_less attribute_rest_less split: list.splits if_splits option.splits)

lemma tail_rest_less: "tail_rest t = Some r \<Longrightarrow> length r < length t"
  by (auto simp: tail_rest_def dest!: report_rest_less report_end_less split: list.splits if_splits)

function repeated :: "(units \<Rightarrow> units option) \<Rightarrow> units \<Rightarrow> bool" where
  "repeated next_match t = (t = [] \<or> (case next_match t of None \<Rightarrow> False
     | Some r \<Rightarrow> if length r < length t then repeated next_match r else False))"
  by pat_completeness auto
termination by (relation "measure (\<lambda>(n, t). length t)") auto

declare repeated.simps [simp del]

definition is_generated_response :: "(units \<Rightarrow> bool) \<Rightarrow> units \<Rightarrow> bool" where
  "is_generated_response kitty d = (d \<noteq> [] \<and> (kitty d \<or> repeated generated_rest d))"

definition is_generated_tail :: "units \<Rightarrow> bool" where
  "is_generated_tail d = (d \<noteq> [] \<and> repeated tail_rest d)"

subsection \<open>State and environment\<close>

datatype input_channel = UnifiedChannel | FastChannel | NoChannel

text \<open>What the other owners of a session know and \<open>isReady\<close> asks.\<close>

record gates =
  g_committed :: bool
  g_open :: bool
  g_ack_pending :: bool
  g_fence :: bool
  g_settling :: bool
  g_claim_pending :: bool
  g_remote :: bool
  g_remote_ready :: bool
  g_backend_resize :: bool
  g_channel :: input_channel
  g_generation :: nat
  g_lease :: nat
  g_lease_closing :: bool
  g_current_lease :: "nat option"
  g_size_claimed :: bool
  g_claim_required :: bool

record input_payload =
  ip_data :: units
  ip_generated :: bool
  ip_size :: "(nat \<times> nat \<times> nat \<times> nat \<times> string) option"

datatype in_out = Sent gates input_payload | InputToast | PendingRefused bool | UserMarked | SizeClaimed | ScrolledDown
  | ConnectionRequested | ActivityRefresh nat | UnifiedRecycled | CursorHeld | SizeReasserted

record inp =
  in_gates :: gates
  in_closed :: bool
  in_exit :: bool
  in_disposed :: bool
  in_buffer :: units
  in_buffer_size :: nat
  in_queue :: "input_item list"
  in_queue_size :: nat
  in_pending :: "units list"
  in_pending_size :: nat
  in_pumping :: bool
  in_flush_timer :: bool
  in_pump_timer :: "nat option"
  in_expiry_timer :: "(nat \<times> nat \<times> nat) option"
  in_token :: nat
  in_expiry_lease :: nat
  in_expiry_generation :: nat
  in_paused :: bool
  in_queued_at :: rat
  in_suppressed_until :: rat
  in_depth :: nat
  in_allow :: bool
  in_processing :: bool
  in_asked :: nat
  in_outs :: "in_out list"
  in_taken :: units

text \<open>The options \<open>force\<close> and \<open>allowHidden\<close> of a health check; \<open>connect\<close> is always set.\<close>

record in_env =
  ie_health :: "nat \<Rightarrow> bool \<Rightarrow> bool \<Rightarrow> gates \<Rightarrow> bool \<times> gates"
  ie_send :: "nat \<Rightarrow> units \<Rightarrow> bool \<Rightarrow> bool"
  ie_buffered :: "nat \<Rightarrow> nat"
  ie_claim :: "gates \<Rightarrow> gates"
  ie_connect :: "gates \<Rightarrow> gates"
  ie_reassert :: "gates \<Rightarrow> gates"
  ie_size :: "nat \<times> nat \<times> nat \<times> nat"
  ie_epoch :: string
  ie_unsettled :: bool
  ie_kitty :: "units \<Rightarrow> bool"
  ie_now :: rat

definition chunk_units :: nat where "chunk_units = 16 * 1024"
definition immediate_bytes :: nat where "immediate_bytes = 256"
definition pump_budget :: nat where "pump_budget = 4"
definition backpressure_bytes :: nat where "backpressure_bytes = 512 * 1024"
definition backpressure_delay :: nat where "backpressure_delay = 16"
definition buffer_limit :: nat where "buffer_limit = 64 * 1024"
definition pending_limit :: nat where "pending_limit = 8 * 1024 * 1024"
definition parked_limit :: nat where "parked_limit = 256 * 1024"
definition queue_limit :: nat where "queue_limit = 16 * 1024 * 1024"

definition in_start :: "gates \<Rightarrow> inp" where
  "in_start g = \<lparr>in_gates = g, in_closed = False, in_exit = False, in_disposed = False, in_buffer = [], in_buffer_size = 0,
     in_queue = [], in_queue_size = 0, in_pending = [], in_pending_size = 0, in_pumping = False, in_flush_timer = False,
     in_pump_timer = None, in_expiry_timer = None, in_token = 0, in_expiry_lease = 0, in_expiry_generation = 0, in_paused = False,
     in_queued_at = 0, in_suppressed_until = 0, in_depth = 0, in_allow = False, in_processing = False, in_asked = 0,
     in_outs = [], in_taken = []\<rparr>"

definition in_log :: "in_out \<Rightarrow> inp \<Rightarrow> inp" where
  "in_log x s = s\<lparr>in_outs := in_outs s @ [x]\<rparr>"

subsection \<open>Timers and readiness\<close>

definition in_empty :: "inp \<Rightarrow> bool" where
  "in_empty s = (in_buffer s = [] \<and> in_queue s = [] \<and> in_pending s = [])"

definition clear_flush :: "inp \<Rightarrow> inp" where
  "clear_flush s = s\<lparr>in_flush_timer := False\<rparr>"

definition schedule_input_flush :: "inp \<Rightarrow> inp" where
  "schedule_input_flush s = (if in_disposed s \<or> in_closed s \<or> in_flush_timer s then s else s\<lparr>in_flush_timer := True\<rparr>)"

definition schedule_pump :: "nat \<Rightarrow> inp \<Rightarrow> inp" where
  "schedule_pump delay s = (if in_disposed s \<or> in_closed s \<or> in_exit s \<or> in_empty s then s\<lparr>in_pump_timer := None\<rparr>
     else if in_pumping s \<or> in_pump_timer s \<noteq> None then s else s\<lparr>in_pump_timer := Some delay\<rparr>)"

definition gates_ready :: "gates \<Rightarrow> bool" where
  "gates_ready g = (g_committed g \<and> g_open g \<and> \<not> g_ack_pending g \<and> \<not> g_fence g \<and> \<not> g_settling g \<and> \<not> g_claim_pending g
     \<and> (\<not> g_remote g \<or> g_remote_ready g) \<and> \<not> g_backend_resize g
     \<and> (g_channel g = UnifiedChannel
        \<or> g_channel g = FastChannel \<and> \<not> g_lease_closing g \<and> g_current_lease g = Some (g_lease g)))"

definition input_ready :: "inp \<Rightarrow> bool" where
  "input_ready s = (\<not> in_disposed s \<and> \<not> in_closed s \<and> \<not> in_exit s \<and> gates_ready (in_gates s))"

definition ask_health :: "in_env \<Rightarrow> bool \<Rightarrow> bool \<Rightarrow> inp \<Rightarrow> bool \<times> inp" where
  "ask_health en force hidden s = (case ie_health en (in_asked s) force hidden (in_gates s) of (ok, g) \<Rightarrow>
     (ok, s\<lparr>in_gates := g, in_asked := Suc (in_asked s)\<rparr>))"

definition clear_expiry :: "inp \<Rightarrow> inp" where
  "clear_expiry s = s\<lparr>in_expiry_timer := None, in_token := Suc (in_token s), in_expiry_lease := 0, in_expiry_generation := 0,
     in_paused := False, in_queued_at := 0\<rparr>"

definition sent_units :: "in_out list \<Rightarrow> units" where
  "sent_units os = concat (map (\<lambda>x. case x of Sent g p \<Rightarrow> if ip_generated p then [] else ip_data p | _ \<Rightarrow> []) os)"

definition discard_input :: "inp \<Rightarrow> inp" where
  "discard_input s = clear_expiry (s\<lparr>in_flush_timer := False, in_pump_timer := None, in_buffer := [], in_buffer_size := 0, in_queue := [],
     in_queue_size := 0, in_pumping := False, in_pending := [], in_pending_size := 0, in_taken := sent_units (in_outs s)\<rparr>)"

definition arm_suppression :: "rat \<Rightarrow> rat \<Rightarrow> inp \<Rightarrow> inp" where
  "arm_suppression now duration s = (if in_disposed s then s
     else s\<lparr>in_suppressed_until := max (in_suppressed_until s) (now + duration)\<rparr>)"

definition arm_replay_suppression :: "rat \<Rightarrow> inp \<Rightarrow> inp" where
  "arm_replay_suppression now s = (if in_allow s then s else arm_suppression now 1000 s)"

definition should_suppress :: "in_env \<Rightarrow> units \<Rightarrow> inp \<Rightarrow> bool" where
  "should_suppress en d s = (let response = is_generated_response (ie_kitty en) d \<or> is_generated_tail d in
     if 0 < in_depth s \<and> \<not> in_allow s then response
     else if in_suppressed_until s \<le> ie_now en then False else response)"

subsection \<open>Sending\<close>

definition make_payload :: "in_env \<Rightarrow> units \<Rightarrow> bool \<Rightarrow> input_payload" where
  "make_payload en d gen = \<lparr>ip_data = d, ip_generated = gen,
     ip_size = (case ie_size en of (cols, rows, pw, ph) \<Rightarrow>
       if \<not> gen \<and> 0 < cols \<and> 0 < rows then Some (cols, rows, pw, ph, ie_epoch en) else None)\<rparr>"

definition send_chunk :: "in_env \<Rightarrow> units \<Rightarrow> bool \<Rightarrow> inp \<Rightarrow> bool \<times> inp" where
  "send_chunk en d gen s = (if d = [] \<or> \<not> input_ready s then (False, s)
     else let s1 = s\<lparr>in_asked := Suc (in_asked s)\<rparr> in
       if ie_send en (in_asked s) d gen then (True, in_log (Sent (in_gates s) (make_payload en d gen)) s1) else (False, s1))"

definition flush_buffer :: "in_env \<Rightarrow> inp \<Rightarrow> inp" where
  "flush_buffer en s0 = (if in_disposed s0 then s0
     else let s = clear_flush s0 in
       if in_buffer s = [] \<or> \<not> input_ready s then schedule_pump backpressure_delay s
       else case ask_health en False False s of (ok, s1) \<Rightarrow>
         if \<not> ok then schedule_pump backpressure_delay s1
         else let d = in_buffer s1 in
           case send_chunk en d False (s1\<lparr>in_buffer := [], in_buffer_size := 0\<rparr>) of (sent, s2) \<Rightarrow>
             if sent then s2
             else schedule_pump backpressure_delay (snd (ask_health en True False
               (s2\<lparr>in_buffer := d @ in_buffer s2, in_buffer_size := in_buffer_size s2 + utf8_len d\<rparr>))))"

definition enqueue_input :: "units \<Rightarrow> bool \<Rightarrow> bool \<Rightarrow> inp \<Rightarrow> bool \<times> inp" where
  "enqueue_input d gen front s = (if d = [] \<or> in_disposed s then (False, s)
     else case build_input_items (Num (Fin (of_nat chunk_units))) gen (if gen then None else Some (queue_limit - in_queue_size s)) d of
       (new_items, bytes, exceeded) \<Rightarrow>
         if exceeded then (False, if gen then s else in_log InputToast s)
         else if new_items = [] then (True, s)
         else (True, schedule_pump 0 (s\<lparr>in_queue := (if front then new_items @ in_queue s else in_queue s @ new_items),
                in_queue_size := in_queue_size s + bytes\<rparr>)))"

definition buffer_input :: "in_env \<Rightarrow> units \<Rightarrow> bool \<Rightarrow> inp \<Rightarrow> inp" where
  "buffer_input en d immediate s = (let s1 = s\<lparr>in_buffer := in_buffer s @ d, in_buffer_size := in_buffer_size s + utf8_len d\<rparr> in
     if immediate \<or> utf8_len d \<le> immediate_bytes \<or> 4096 \<le> in_buffer_size s1 then flush_buffer en s1 else schedule_input_flush s1)"

definition send_input :: "in_env \<Rightarrow> units \<Rightarrow> bool \<Rightarrow> bool \<Rightarrow> inp \<Rightarrow> bool \<times> inp" where
  "send_input en d immediate gen s0 = (if in_disposed s0 \<or> d = [] \<or> \<not> input_ready s0 then (False, s0)
     else case ask_health en False False s0 of (ok, s) \<Rightarrow>
       if \<not> ok then (False, s)
       else if \<not> gen \<and> should_suppress en d s then (False, s)
       else if gen then send_chunk en d True s
       else if chunk_units < length d \<or> in_queue s \<noteq> [] then enqueue_input d False False s
       else let s1 = (if buffer_limit < in_buffer_size s + utf8_len d then flush_buffer en s else s) in
         if buffer_limit < utf8_len d then enqueue_input d False False s1
         else (True, buffer_input en d immediate s1))"

subsection \<open>The pending list and the pump\<close>

definition current_expiry_lease :: "gates \<Rightarrow> nat" where
  "current_expiry_lease g = (if g_channel g = UnifiedChannel \<and> 0 < g_generation g then g_generation g
     else case g_current_lease g of Some n \<Rightarrow> if 0 < n then n else g_lease g | None \<Rightarrow> g_lease g)"

definition schedule_expiry :: "in_env \<Rightarrow> inp \<Rightarrow> bool \<times> inp" where
  "schedule_expiry en s = (if in_disposed s \<or> in_expiry_timer s \<noteq> None \<or> in_pending_size s = 0 \<or> in_paused s then (False, s)
     else let g = in_gates s; lease = current_expiry_lease g in
       if lease = 0 \<or> g_lease_closing g \<or> g_channel g = NoChannel then (False, s\<lparr>in_paused := True\<rparr>)
       else let s1 = s\<lparr>in_token := Suc (in_token s), in_expiry_lease := lease, in_expiry_generation := g_generation g, in_queued_at := ie_now en\<rparr> in
         if in_closed s1 then (False, s1)
         else (True, s1\<lparr>in_expiry_timer := Some (in_token s1, lease, g_generation g)\<rparr>))"

fun flush_loop :: "in_env \<Rightarrow> units list \<Rightarrow> inp \<Rightarrow> bool \<times> inp" where
  "flush_loop en [] s = (True, s)"
| "flush_loop en (d # ds) s = (case send_input en d False False s of (ok, s1) \<Rightarrow>
     if \<not> ok then (False, schedule_pump backpressure_delay s1)
     else flush_loop en ds (s1\<lparr>in_pending := ds, in_pending_size := in_pending_size s1 - utf8_len d\<rparr>))"

definition flush_pending :: "in_env \<Rightarrow> inp \<Rightarrow> bool \<times> inp" where
  "flush_pending en s = (if in_disposed s then (False, s)
     else if \<not> input_ready s then (False, schedule_pump backpressure_delay s)
     else case ask_health en False False s of (ok, s1) \<Rightarrow>
       if \<not> ok then (False, schedule_pump backpressure_delay s1)
       else case flush_loop en (in_pending s1) s1 of (drained, s2) \<Rightarrow>
         if \<not> drained then (False, s2)
         else (True, schedule_pump 0 (flush_buffer en (clear_expiry s2))))"

text \<open>The loop of the pump: the delay of its next turn, and the state. Its first argument is what is left of the four chunks.\<close>

fun pump_loop :: "in_env \<Rightarrow> nat \<Rightarrow> inp \<Rightarrow> nat \<times> inp" where
  "pump_loop en 0 s = (0, s)"
| "pump_loop en (Suc left) s = (case in_queue s of [] \<Rightarrow> (backpressure_delay, s)
     | item # rest \<Rightarrow>
       if \<not> input_ready s then (backpressure_delay, s)
       else case ask_health en False False s of (ok, s1) \<Rightarrow>
         if \<not> ok \<or> backpressure_bytes < ie_buffered en (in_asked s1) then (backpressure_delay, s1)
         else case send_chunk en (ii_data item) (ii_generated item)
             (s1\<lparr>in_queue := rest, in_queue_size := in_queue_size s1 - ii_bytes item\<rparr>) of (sent, s2) \<Rightarrow>
           if sent then pump_loop en left s2
           else (backpressure_delay, s2\<lparr>in_queue := item # in_queue s2, in_queue_size := in_queue_size s2 + ii_bytes item\<rparr>))"

definition pump_turn :: "in_env \<Rightarrow> inp \<Rightarrow> nat \<times> inp" where
  "pump_turn en s = (let s1 = (if in_pending s \<noteq> [] then snd (flush_pending en s) else s) in
     if in_buffer s1 = [] then pump_loop en pump_budget s1
     else let s2 = flush_buffer en s1 in
       if in_buffer s2 \<noteq> [] then (backpressure_delay, s2) else pump_loop en pump_budget s2)"

definition pump_input :: "in_env \<Rightarrow> inp \<Rightarrow> inp" where
  "pump_input en s = (if in_closed s \<or> in_exit s \<or> in_pumping s \<or> in_disposed s then s
     else case pump_turn en (s\<lparr>in_pump_timer := None, in_pumping := True\<rparr>) of (delay, s1) \<Rightarrow>
       schedule_pump delay (s1\<lparr>in_pumping := False\<rparr>))"

definition resume_expiry :: "in_env \<Rightarrow> inp \<Rightarrow> bool \<times> inp" where
  "resume_expiry en s = (if in_closed s \<or> in_pending_size s = 0 then (False, s) else schedule_expiry en (s\<lparr>in_paused := False\<rparr>))"

definition pause_expiry :: "inp \<Rightarrow> bool \<times> inp" where
  "pause_expiry s = (if in_pending_size s = 0 then (False, s)
     else (True, s\<lparr>in_expiry_timer := None, in_token := Suc (in_token s), in_expiry_lease := 0, in_expiry_generation := 0,
        in_paused := True, in_queued_at := 0\<rparr>))"

definition pause_lease :: "inp \<Rightarrow> inp" where
  "pause_lease s = s\<lparr>in_expiry_lease := 0, in_expiry_generation := 0, in_paused := True\<rparr>"

text \<open>The lease the expiry was scheduled for is still the one of the session.\<close>

definition expiry_current :: "nat \<Rightarrow> nat \<Rightarrow> inp \<Rightarrow> bool" where
  "expiry_current lease generation s = (let g = in_gates s;
       now_lease = (if g_channel g = UnifiedChannel then g_generation g else current_expiry_lease g);
       expected = (if 0 < in_expiry_lease s then in_expiry_lease s else lease);
       expected_generation = (if 0 < in_expiry_generation s then in_expiry_generation s else generation) in
     now_lease = expected \<and> g_generation g = expected_generation \<and> \<not> g_lease_closing g
     \<and> (g_channel g = UnifiedChannel \<or> g_channel g = FastChannel \<and> g_lease g = expected))"

definition expiry_fires :: "in_env \<Rightarrow> inp \<Rightarrow> inp" where
  "expiry_fires en s0 = (case in_expiry_timer s0 of None \<Rightarrow> s0
     | Some (token, lease, generation) \<Rightarrow> let s = s0\<lparr>in_expiry_timer := None\<rparr> in
         if in_disposed s \<or> in_closed s \<or> in_token s \<noteq> token then s
         else let s1 = s\<lparr>in_queued_at := 0\<rparr> in
           if in_pending_size s1 = 0 then s1
           else if \<not> expiry_current lease generation s1 then pause_lease s1
           else if input_ready s1 then snd (flush_pending en s1)
           else snd (resume_expiry en (pause_lease (snd (ask_health en True True s1)))))"

definition enqueue_pending :: "in_env \<Rightarrow> units \<Rightarrow> bool \<Rightarrow> inp \<Rightarrow> bool \<times> inp" where
  "enqueue_pending en d parked s = (if d = [] \<or> in_disposed s then (False, s)
     else let limit = (if parked then min pending_limit parked_limit else pending_limit) in
       case build_input_items (Num (Fin (of_nat chunk_units))) False (Some (limit - in_pending_size s)) d of (new_items, bytes, exceeded) \<Rightarrow>
         if exceeded \<or> limit < in_pending_size s + bytes then (False, s)
         else (True, schedule_pump backpressure_delay (snd (schedule_expiry en
           (s\<lparr>in_pending := in_pending s @ [d], in_pending_size := in_pending_size s + bytes\<rparr>)))))"

subsection \<open>Input of the user and of the emulator\<close>

definition line_end :: "nat \<Rightarrow> bool" where
  "line_end u = (u = 13 \<or> u = 10)"

definition prepare_user_input :: "in_env \<Rightarrow> inp \<Rightarrow> inp" where
  "prepare_user_input en s = (let s1 = in_log UserMarked s;
       s2 = (if \<not> g_size_claimed (in_gates s1) \<or> g_claim_required (in_gates s1)
             then (in_log SizeClaimed s1)\<lparr>in_gates := ie_claim en (in_gates s1)\<rparr> else s1)
     in (in_log ConnectionRequested (in_log ScrolledDown s2))\<lparr>in_gates := ie_connect en (in_gates s2)\<rparr>)"

text \<open>What is accepted as user input is recorded in \<open>in_taken\<close>.\<close>

definition taking :: "units \<Rightarrow> bool \<times> inp \<Rightarrow> bool \<times> inp" where
  "taking d r = (case r of (ok, s) \<Rightarrow> if ok then (True, s\<lparr>in_taken := in_taken s @ d\<rparr>) else (False, s))"

definition send_directly :: "in_env \<Rightarrow> units \<Rightarrow> bool \<Rightarrow> inp \<Rightarrow> bool \<times> inp" where
  "send_directly en d user s = (if \<not> input_ready s then (False, s)
     else case ask_health en user user s of (ok, s1) \<Rightarrow>
       if \<not> ok then (False, s1)
       else let s2 = (if in_pending s1 \<noteq> [] then snd (flush_pending en s1) else s1) in
         if in_pending s2 \<noteq> [] then (False, s2)
         else taking d (send_input en d (list_ex (\<lambda>u. u \<in> {13, 10, 3, 4}) d) False s2))"

definition send_or_queue :: "in_env \<Rightarrow> units \<Rightarrow> bool \<Rightarrow> bool \<Rightarrow> inp \<Rightarrow> bool \<times> inp" where
  "send_or_queue en d user accept_queued s = (if in_disposed s \<or> in_exit s \<or> should_suppress en d s then (False, s)
     else if \<not> user \<and> d \<noteq> [] \<and> g_channel (in_gates s) = UnifiedChannel \<and> g_open (in_gates s) then
       (True, let s1 = s\<lparr>in_asked := Suc (in_asked s)\<rparr> in
          if ie_send en (in_asked s) d True then in_log (Sent (in_gates s) (make_payload en d True)) s1 else in_log UnifiedRecycled s1)
     else let parked = g_lease_closing (in_gates s); s1 = (if d \<noteq> [] \<and> user then prepare_user_input en s else s) in
       if in_closed s1 then (False, s1)
       else let s2 = (if list_ex line_end d then in_log (ActivityRefresh 450) s1 else s1) in
         case send_directly en d user s2 of (sent, s3) \<Rightarrow>
           if sent then (True, s3)
           else case taking d (enqueue_pending en d parked s3) of (queued, s4) \<Rightarrow>
             (accept_queued \<and> queued, snd (ask_health en False False (if queued then s4 else in_log InputToast (in_log (PendingRefused parked) s4)))))"

definition handle_data :: "in_env \<Rightarrow> units \<Rightarrow> inp \<Rightarrow> bool \<times> inp" where
  "handle_data en d s = (
     if should_suppress en d s then (False, s)
     else if in_processing s \<or> is_generated_response (ie_kitty en) d then send_input en d True True s
     else if is_generated_tail d then (False, s)
     else if 0 < in_depth s then (if in_allow s then send_input en d True True s else (False, s))
     else let s1 = in_log CursorHeld s;
         s2 = (if ie_unsettled en \<or> g_claim_required (in_gates s1) \<or> g_ack_pending (in_gates s1)
               then (in_log SizeReasserted s1)\<lparr>in_gates := ie_reassert en (in_gates s1)\<rparr> else s1)
       in send_or_queue en d True False s2)"

text \<open>
  \<open>processTerminalResponses\<close> hands the answers of the emulator to \<open>handleData\<close>; the loop takes at most 256.
\<close>

definition drain_responses :: "in_env \<Rightarrow> units list \<Rightarrow> inp \<Rightarrow> inp" where
  "drain_responses en answers s = (if in_disposed s then s
     else (foldl (\<lambda>t d. if in_closed t then t else snd (handle_data en d t)) (s\<lparr>in_processing := True\<rparr>) (take 256 answers))\<lparr>in_processing := False\<rparr>)"

definition close_input :: "inp \<Rightarrow> inp" where
  "close_input s = discard_input (s\<lparr>in_closed := True\<rparr>)"

definition dispose_input :: "inp \<Rightarrow> bool \<times> inp" where
  "dispose_input s = (if in_disposed s then (False, s) else (True, (discard_input s)\<lparr>in_disposed := True\<rparr>))"

text \<open>Callbacks of the timers: the lifecycle clears the slot first and drops the callback of a closed session.\<close>

definition flush_fires :: "in_env \<Rightarrow> inp \<Rightarrow> inp" where
  "flush_fires en s0 = (if \<not> in_flush_timer s0 then s0 else let s = clear_flush s0 in
     if in_disposed s \<or> in_closed s then s else flush_buffer en s)"

definition pump_fires :: "in_env \<Rightarrow> inp \<Rightarrow> inp" where
  "pump_fires en s0 = (if in_pump_timer s0 = None then s0 else let s = s0\<lparr>in_pump_timer := None\<rparr> in
     if in_disposed s \<or> in_closed s then s else pump_input en s)"

datatype in_event = InData in_env units | InSend in_env units bool bool | InFlush in_env | InFlushFires in_env | InPumpFires in_env
  | InExpiryFires in_env | InResponses in_env "units list" | InPause | InResume in_env | InDiscard | InArm rat rat | InArmReplay rat
  | InClearSuppression | InOutput nat bool | InGates gates | InExit | InExitOver | InClose | InDispose

fun in_step :: "inp \<Rightarrow> in_event \<Rightarrow> inp" where
  "in_step s (InData en d) = (if in_closed s then s else snd (handle_data en d s))"
| "in_step s (InSend en d user accept_queued) = snd (send_or_queue en d user accept_queued s)"
| "in_step s (InFlush en) = snd (flush_pending en s)"
| "in_step s (InFlushFires en) = flush_fires en s"
| "in_step s (InPumpFires en) = pump_fires en s"
| "in_step s (InExpiryFires en) = expiry_fires en s"
| "in_step s (InResponses en answers) = drain_responses en answers s"
| "in_step s InPause = snd (pause_expiry s)"
| "in_step s (InResume en) = snd (resume_expiry en s)"
| "in_step s InDiscard = discard_input s"
| "in_step s (InArm now duration) = arm_suppression now duration s"
| "in_step s (InArmReplay now) = arm_replay_suppression now s"
| "in_step s InClearSuppression = (if in_disposed s then s else s\<lparr>in_suppressed_until := 0\<rparr>)"
| "in_step s (InOutput depth allow) = s\<lparr>in_depth := depth, in_allow := allow\<rparr>"
| "in_step s (InGates g) = s\<lparr>in_gates := g\<rparr>"
| "in_step s InExit = (if in_closed s \<or> in_exit s then s else discard_input (s\<lparr>in_exit := True\<rparr>))"
| "in_step s InExitOver = s\<lparr>in_exit := False\<rparr>"
| "in_step s InClose = close_input s"
| "in_step s InDispose = snd (dispose_input s)"

abbreviation in_run :: "gates \<Rightarrow> in_event list \<Rightarrow> inp" where
  "in_run g es \<equiv> foldl in_step (in_start g) es"

section \<open>Input is sent in order\<close>

subsection \<open>The line of the input\<close>

text \<open>
  What is sent, buffered, queued and pending, in this order, is one line. An operation carries \<open>d\<close> when it
  appends \<open>d\<close> to the part of the line before the pending list and leaves the rest as it is.
\<close>

definition in_line :: "inp \<Rightarrow> units" where
  "in_line s = sent_units (in_outs s) @ in_buffer s @ concat (map ii_data (in_queue s))"

definition in_frame :: "inp \<Rightarrow> bool \<times> bool \<times> bool \<times> bool \<times> units \<times> nat \<times> bool \<times> rat" where
  "in_frame s = (in_closed s, in_exit s, in_disposed s, in_pumping s, in_taken s, in_depth s, in_allow s, in_suppressed_until s)"

definition item_good :: "input_item \<Rightarrow> bool" where
  "item_good i = (\<not> ii_generated i \<and> ii_data i \<noteq> [] \<and> ii_bytes i = utf8_len (ii_data i))"

definition queue_good :: "inp \<Rightarrow> bool" where
  "queue_good s = (list_all item_good (in_queue s) \<and> in_queue_size s = sum_list (map ii_bytes (in_queue s)) \<and> in_queue_size s \<le> queue_limit)"

definition out_good :: "in_out \<Rightarrow> bool" where
  "out_good x = (case x of Sent g p \<Rightarrow> gates_ready g \<or> ip_generated p \<and> g_channel g = UnifiedChannel \<and> g_open g | _ \<Rightarrow> True)"

definition tail_armed :: "inp \<Rightarrow> bool" where
  "tail_armed s = (in_closed s \<or> in_disposed s \<or> in_queue s = [] \<and> in_pending s = [] \<or> in_pump_timer s \<noteq> None)"

definition in_armed :: "inp \<Rightarrow> bool" where
  "in_armed s = (tail_armed s \<and> (in_closed s \<or> in_disposed s \<or> in_buffer s = [] \<or> in_pump_timer s \<noteq> None \<or> in_flush_timer s))"

definition outs_extend :: "in_out list \<Rightarrow> in_out list \<Rightarrow> bool" where
  "outs_extend os ps = (\<exists>qs. ps = os @ qs)"

lemma outs_extend_simps [simp]: "outs_extend os os" "outs_extend os (os @ qs)"
  by (simp_all add: outs_extend_def)

lemma outs_extend_trans: "\<lbrakk>outs_extend os ps; outs_extend ps qs\<rbrakk> \<Longrightarrow> outs_extend os qs"
  by (auto simp: outs_extend_def)

definition carries :: "units \<Rightarrow> inp \<Rightarrow> inp \<Rightarrow> bool" where
  "carries d s t = (outs_extend (in_outs s) (in_outs t) \<and> in_frame t = in_frame s \<and> in_pending t = in_pending s \<and> in_pending_size t = in_pending_size s
     \<and> in_line t = in_line s @ d \<and> (queue_good s \<longrightarrow> queue_good t) \<and> (list_all out_good (in_outs s) \<longrightarrow> list_all out_good (in_outs t))
     \<and> (\<not> in_pumping s \<and> in_armed s \<and> (in_exit s \<longrightarrow> in_empty s) \<longrightarrow> in_armed t) \<and> (in_exit s \<and> in_empty s \<longrightarrow> in_empty t))"

lemma carries_refl: "carries [] s s"
  by (simp add: carries_def)

lemma carries_trans: "\<lbrakk>carries d s t; carries e t u\<rbrakk> \<Longrightarrow> carries (d @ e) s u"
  using outs_extend_trans [of "in_outs s" "in_outs t" "in_outs u"] by (auto simp: carries_def in_frame_def)

lemma carries_then: "\<lbrakk>carries d s t; carries [] t u\<rbrakk> \<Longrightarrow> carries d s u" "\<lbrakk>carries [] s t; carries d t u\<rbrakk> \<Longrightarrow> carries d s u"
  using carries_trans [of d s t "[]" u] carries_trans [of "[]" s t d u] by simp_all

lemma carriesD:
  assumes "carries d s t"
  shows "in_closed t = in_closed s" "in_exit t = in_exit s" "in_disposed t = in_disposed s" "in_pumping t = in_pumping s"
    "in_taken t = in_taken s" "in_pending t = in_pending s" "in_pending_size t = in_pending_size s" "in_line t = in_line s @ d"
    "in_depth t = in_depth s" "in_allow t = in_allow s" "in_suppressed_until t = in_suppressed_until s"
  using assms by (auto simp: carries_def in_frame_def)

lemma schedule_pump_fields [simp]:
  "in_closed (schedule_pump n s) = in_closed s" "in_exit (schedule_pump n s) = in_exit s" "in_disposed (schedule_pump n s) = in_disposed s"
  "in_pumping (schedule_pump n s) = in_pumping s" "in_taken (schedule_pump n s) = in_taken s" "in_pending (schedule_pump n s) = in_pending s"
  "in_pending_size (schedule_pump n s) = in_pending_size s" "in_buffer (schedule_pump n s) = in_buffer s"
  "in_buffer_size (schedule_pump n s) = in_buffer_size s" "in_queue (schedule_pump n s) = in_queue s"
  "in_queue_size (schedule_pump n s) = in_queue_size s" "in_outs (schedule_pump n s) = in_outs s" "in_gates (schedule_pump n s) = in_gates s"
  "in_flush_timer (schedule_pump n s) = in_flush_timer s" "in_depth (schedule_pump n s) = in_depth s" "in_allow (schedule_pump n s) = in_allow s"
  "in_suppressed_until (schedule_pump n s) = in_suppressed_until s" "in_processing (schedule_pump n s) = in_processing s"
  "in_asked (schedule_pump n s) = in_asked s" "in_expiry_timer (schedule_pump n s) = in_expiry_timer s"
  by (simp_all add: schedule_pump_def)

lemma schedule_pump_armed: "\<lbrakk>\<not> in_pumping s; in_exit s \<longrightarrow> in_empty s\<rbrakk> \<Longrightarrow> in_armed (schedule_pump n s)"
  by (auto simp: schedule_pump_def in_armed_def tail_armed_def in_empty_def)

lemma carries_pump: "carries [] s (schedule_pump n s)"
proof -
  have "in_armed (schedule_pump n s)" if "\<not> in_pumping s" "in_exit s \<longrightarrow> in_empty s" using that by (rule schedule_pump_armed)
  then show ?thesis by (auto simp: carries_def in_frame_def in_line_def queue_good_def in_empty_def)
qed

lemma carries_health: "ask_health en f h s = (ok, t) \<Longrightarrow> carries [] s t"
  by (auto simp: ask_health_def carries_def in_frame_def in_line_def queue_good_def in_empty_def in_armed_def tail_armed_def split: prod.splits)

lemma health_fields:
  "ask_health en f h s = (ok, t) \<Longrightarrow> in_buffer t = in_buffer s \<and> in_queue t = in_queue s \<and> in_queue_size t = in_queue_size s \<and> in_outs t = in_outs s
     \<and> in_buffer_size t = in_buffer_size s \<and> in_pump_timer t = in_pump_timer s \<and> in_flush_timer t = in_flush_timer s \<and> in_processing t = in_processing s"
  by (auto simp: ask_health_def split: prod.splits)

lemma sent_append [simp]: "sent_units (os @ [x]) = sent_units os @ sent_units [x]" "sent_units [] = []"
  by (simp_all add: sent_units_def)

lemma sent_quiet: "(\<And>g p. x \<noteq> Sent g p) \<Longrightarrow> sent_units [x] = []"
  by (simp add: sent_units_def split: in_out.splits)

lemma carries_log: "(\<And>g p. x \<noteq> Sent g p) \<Longrightarrow> carries [] s (in_log x s)"
  by (auto simp: in_log_def carries_def in_frame_def in_line_def queue_good_def in_empty_def in_armed_def tail_armed_def sent_quiet out_good_def
      split: in_out.splits)

lemma send_chunk_cases:
  "send_chunk en d gen s = (ok, t) \<Longrightarrow>
     t = s\<lparr>in_asked := in_asked t, in_outs := in_outs t\<rparr>
     \<and> (if ok then d \<noteq> [] \<and> input_ready s \<and> in_outs t = in_outs s @ [Sent (in_gates s) (make_payload en d gen)] else in_outs t = in_outs s)"
  by (auto simp: send_chunk_def in_log_def Let_def split: if_splits)

lemma sent_payload [simp]: "sent_units [Sent g (make_payload en d gen)] = (if gen then [] else d)"
  by (simp add: sent_units_def make_payload_def)

lemma out_good_sent: "input_ready s \<Longrightarrow> out_good (Sent (in_gates s) p)"
  by (simp add: out_good_def input_ready_def)

lemma carries_generated: "send_chunk en d True s = (ok, t) \<Longrightarrow> carries [] s t"
proof (drule send_chunk_cases, elim conjE)
  assume a: "t = s\<lparr>in_asked := in_asked t, in_outs := in_outs t\<rparr>"
    and b: "if ok then d \<noteq> [] \<and> input_ready s \<and> in_outs t = in_outs s @ [Sent (in_gates s) (make_payload en d True)] else in_outs t = in_outs s"
  have f: "in_frame t = in_frame s" "in_pending t = in_pending s" "in_pending_size t = in_pending_size s" "in_buffer t = in_buffer s"
    "in_queue t = in_queue s" "in_queue_size t = in_queue_size s" "in_pump_timer t = in_pump_timer s" "in_flush_timer t = in_flush_timer s"
    "in_closed t = in_closed s" "in_disposed t = in_disposed s"
    by (subst a; simp add: in_frame_def)+
  show ?thesis using b by (auto simp: carries_def f in_line_def queue_good_def in_empty_def in_armed_def tail_armed_def out_good_sent split: if_splits)
qed

lemma flush_buffer_spec:
  "carries [] s (flush_buffer en s) \<and> (\<not> in_pumping s \<and> tail_armed s \<and> (in_exit s \<longrightarrow> in_empty s) \<longrightarrow> in_armed (flush_buffer en s))
   \<and> in_queue (flush_buffer en s) = in_queue s \<and> in_queue_size (flush_buffer en s) = in_queue_size s"
proof (cases "in_disposed s")
  case True
  then show ?thesis by (simp add: flush_buffer_def carries_refl in_armed_def tail_armed_def)
next
  case nd: False
  let ?c = "clear_flush s"
  have c: "in_frame ?c = in_frame s" "in_line ?c = in_line s" "in_pending ?c = in_pending s" "in_pending_size ?c = in_pending_size s"
    "queue_good ?c = queue_good s" "in_outs ?c = in_outs s" "in_empty ?c = in_empty s" "tail_armed ?c = tail_armed s" "in_queue ?c = in_queue s"
    "in_buffer ?c = in_buffer s" "in_exit ?c = in_exit s" "in_pumping ?c = in_pumping s" "in_closed ?c = in_closed s" "in_disposed ?c = in_disposed s"
    "in_queue_size ?c = in_queue_size s"
    by (simp_all add: clear_flush_def in_frame_def in_line_def queue_good_def in_empty_def tail_armed_def)
  have pumped: ?thesis if "flush_buffer en s = schedule_pump n u" "carries [] ?c u" "in_queue u = in_queue s" "in_queue_size u = in_queue_size s" for n u
  proof -
    note d = carriesD [OF that(2)]
    have e: "in_exit s \<and> in_empty s \<Longrightarrow> in_empty u" using that(2) by (auto simp: carries_def c)
    have a: "in_armed (schedule_pump n u)" if "\<not> in_pumping s" "in_exit s \<longrightarrow> in_empty s"
      by (rule schedule_pump_armed) (use that d e in \<open>auto simp: c\<close>)
    have "in_frame u = in_frame s" "in_line u = in_line s" "queue_good s \<longrightarrow> queue_good u" "list_all out_good (in_outs s) \<longrightarrow> list_all out_good (in_outs u)"
      using that(2) by (auto simp: carries_def c)
    with d a e that show ?thesis
      by (auto simp: carries_def in_frame_def in_line_def c queue_good_def in_empty_def)
  qed
  show ?thesis
  proof (cases "in_buffer ?c = [] \<or> \<not> input_ready ?c")
    case True
    then have "flush_buffer en s = schedule_pump backpressure_delay ?c" using nd by (simp add: flush_buffer_def)
    from pumped [OF this carries_refl c(9) c(15)] show ?thesis .
  next
    case False
    obtain ok s1 where h: "ask_health en False False ?c = (ok, s1)" by force
    note hc = carries_health [OF h] and hf = health_fields [OF h]
    show ?thesis
    proof (cases ok)
      case no: False
      then have "flush_buffer en s = schedule_pump backpressure_delay s1" using nd False h by (simp add: flush_buffer_def)
      from pumped [OF this hc] hf show ?thesis by (simp add: c)
    next
      case True
      let ?d = "in_buffer s1" and ?e = "s1\<lparr>in_buffer := [], in_buffer_size := 0\<rparr>"
      obtain sent s2 where s2: "send_chunk en ?d False ?e = (sent, s2)" by force
      note k = send_chunk_cases [OF s2]
      have f: "in_frame s2 = in_frame s1" "in_pending s2 = in_pending s1" "in_pending_size s2 = in_pending_size s1" "in_buffer s2 = []"
        "in_queue s2 = in_queue s1" "in_queue_size s2 = in_queue_size s1" "in_pump_timer s2 = in_pump_timer s1"
        "in_flush_timer s2 = in_flush_timer s1" "in_closed s2 = in_closed s1" "in_disposed s2 = in_disposed s1" "in_exit s2 = in_exit s1" "in_gates s2 = in_gates s1"
        by (subst conjunct1 [OF k]; simp add: in_frame_def)+
      note d = carriesD [OF hc]
      show ?thesis
      proof (cases sent)
        case True
        then have e: "flush_buffer en s = s2" using nd False h s2 \<open>ok\<close> by (simp add: flush_buffer_def Let_def)
        have "in_outs s2 = in_outs s1 @ [Sent (in_gates s1) (make_payload en ?d False)]" "input_ready s1"
          using k True by (simp_all add: input_ready_def)
        moreover have "\<not> in_exit s" using False by (simp add: input_ready_def c)
        moreover have "in_frame s1 = in_frame s" "queue_good s \<longrightarrow> queue_good s1" using hc by (auto simp: carries_def c)
        moreover have "in_armed s2" if "tail_armed s" using that hf d f by (auto simp: in_armed_def tail_armed_def c clear_flush_def)
        moreover have "tail_armed s" if "in_armed s" using that by (simp add: in_armed_def)
        ultimately show ?thesis using f hf d
          by (auto simp: e carries_def in_line_def c queue_good_def out_good_sent in_empty_def)
      next
        case fail: False
        let ?f = "s2\<lparr>in_buffer := ?d @ in_buffer s2, in_buffer_size := in_buffer_size s2 + utf8_len ?d\<rparr>"
        obtain ok' s3 where h3: "ask_health en True False ?f = (ok', s3)" by force
        have e: "flush_buffer en s = schedule_pump backpressure_delay s3" using nd False h s2 \<open>ok\<close> fail h3 by (simp add: flush_buffer_def Let_def)
        have "in_outs s2 = in_outs s1" using k fail by simp
        with f hf have "carries [] s1 ?f"
          by (auto simp: carries_def in_frame_def in_line_def queue_good_def in_empty_def in_armed_def tail_armed_def)
        from carries_then(1) [OF carries_then(1) [OF hc this] carries_health [OF h3]] have "carries [] ?c s3" .
        from pumped [OF e this] health_fields [OF h3] f hf show ?thesis by (simp add: c)
      qed
    qed
  qed
qed

lemmas flush_buffer_carries = flush_buffer_spec [THEN conjunct1]

subsection \<open>Accepting input\<close>

lemma queue_items_spec:
  "queue_items gen limit n cs = (its, b, ex) \<Longrightarrow> if ex then True else
     map ii_data its = cs \<and> list_all (\<lambda>i. ii_generated i = gen \<and> ii_bytes i = utf8_len (ii_data i)) its
     \<and> b = n + sum_list (map ii_bytes its) \<and> (case limit of None \<Rightarrow> True | Some m \<Rightarrow> cs = [] \<or> b \<le> m)"
proof (induction cs arbitrary: n its b ex)
  case (Cons c cs)
  obtain its' b' ex' where r: "queue_items gen limit (n + utf8_len c) cs = (its', b', ex')" by (cases "queue_items gen limit (n + utf8_len c) cs") auto
  show ?case
  proof (cases "case limit of None \<Rightarrow> False | Some m \<Rightarrow> m < n + utf8_len c")
    case True
    then show ?thesis using Cons.prems by (auto simp: Let_def)
  next
    case False
    then show ?thesis using Cons.prems Cons.IH [OF r] r by (cases cs) (auto simp: Let_def split: option.splits)
  qed
qed (auto split: option.splits)

lemma chunk_size: "input_chunk_size (Num (Fin (of_nat chunk_units))) n = chunk_units"
  by (simp add: input_chunk_size_def chunk_units_def js_number_def)

lemma built_items:
  assumes "build_input_items (Num (Fin (of_nat chunk_units))) False (Some m) d = (its, b, False)"
  shows "concat (map ii_data its) = d" "list_all item_good its" "b = utf8_len d" "sum_list (map ii_bytes its) = b" "b \<le> m" "its = [] \<longleftrightarrow> d = []"
proof -
  let ?cs = "input_chunks chunk_units d"
  have s: "map ii_data its = ?cs" "list_all (\<lambda>i. ii_generated i = False \<and> ii_bytes i = utf8_len (ii_data i)) its"
    "b = sum_list (map ii_bytes its)" "?cs = [] \<or> b \<le> m"
    using queue_items_spec assms by (fastforce simp: build_input_items_def split_input_def chunk_size)+
  show c: "concat (map ii_data its) = d" by (simp add: s(1) input_chunks_concat)
  have "\<forall>c \<in> set ?cs. c \<noteq> []" using input_chunks_bounds [of chunk_units d] by (simp add: chunk_units_def)
  then have "\<forall>i \<in> set its. ii_data i \<noteq> []" by (metis s(1) in_set_conv_nth length_map nth_map nth_mem)
  then show "list_all item_good its" using s(2) by (auto simp: item_good_def list_all_iff)
  then show "its = [] \<longleftrightarrow> d = []" using c by (cases its) (auto simp: item_good_def)
  have "map ii_bytes its = map utf8_len ?cs" using s(2) by (auto simp: s(1) [symmetric] list_all_iff)
  then show "b = utf8_len d" "sum_list (map ii_bytes its) = b"
    using input_chunks_bytes [of chunk_units d] s(3) by (simp_all add: chunk_units_def)
  show "b \<le> m" using s(4)
  proof
    assume "?cs = []"
    then have "its = []" using s(1) by simp
    then show ?thesis using s(3) by simp
  qed
qed

lemma enqueue_carries:
  assumes r: "enqueue_input d False False s = (ok, t)" and x: "\<not> in_exit s"
  shows "carries (if ok then d else []) s t" "ok \<Longrightarrow> d \<noteq> []"
proof -
  show "ok \<Longrightarrow> d \<noteq> []" using r by (auto simp: enqueue_input_def split: if_splits)
  show "carries (if ok then d else []) s t"
  proof (cases "d = [] \<or> in_disposed s")
    case True
    then show ?thesis using r by (auto simp: enqueue_input_def carries_refl)
  next
    case False
    obtain its b ex where i: "build_input_items (Num (Fin (of_nat chunk_units))) False (Some (queue_limit - in_queue_size s)) d = (its, b, ex)"
      by (metis prod_cases3)
    show ?thesis
    proof (cases ex)
      case True
      then show ?thesis using r False i carries_log [of InputToast s] by (auto simp: enqueue_input_def)
    next
      case nx: False
      note bi = built_items [OF i [unfolded nx [THEN iffD2 [OF eq_False]]]]
      let ?u = "s\<lparr>in_queue := in_queue s @ its, in_queue_size := in_queue_size s + b\<rparr>"
      have t: "ok" "t = schedule_pump 0 ?u" using r False i nx bi(6) by (auto simp: enqueue_input_def)
      have "in_armed t" if "\<not> in_pumping s" unfolding t(2) by (rule schedule_pump_armed) (use that x in simp_all)
      then show ?thesis using bi t x
        by (auto simp: carries_def in_frame_def in_line_def queue_good_def)
    qed
  qed
qed

lemma buffer_carries:
  assumes "\<not> in_exit s" and q: "in_queue s = []"
  shows "carries d s (buffer_input en d imm s)"
proof -
  let ?u = "s\<lparr>in_buffer := in_buffer s @ d, in_buffer_size := in_buffer_size s + utf8_len d\<rparr>"
  have u: "in_frame ?u = in_frame s" "tail_armed ?u = tail_armed s" "queue_good ?u = queue_good s"
    by (simp_all add: in_frame_def tail_armed_def queue_good_def)
  have tail: "in_armed s \<Longrightarrow> tail_armed s" by (simp add: in_armed_def)
  show ?thesis
  proof (cases "buffer_input en d imm s = flush_buffer en ?u")
    case True
    have "carries [] ?u (flush_buffer en ?u)" "\<not> in_pumping s \<and> in_armed s \<longrightarrow> in_armed (flush_buffer en ?u)"
      using flush_buffer_spec [of ?u en] assms tail by (auto simp: u)
    then show ?thesis using assms q u unfolding True by (auto simp: carries_def in_line_def)
  next
    case False
    then have b: "buffer_input en d imm s = schedule_input_flush ?u" by (auto simp: buffer_input_def Let_def split: if_splits)
    show ?thesis unfolding b using assms q
      by (auto simp: schedule_input_flush_def carries_def in_line_def in_frame_def queue_good_def in_armed_def tail_armed_def)
  qed
qed

lemma send_input_carries:
  assumes r: "send_input en d imm gen s = (ok, t)"
  shows "carries (if ok \<and> \<not> gen then d else []) s t" "ok \<Longrightarrow> d \<noteq> []"
proof -
  have both: "carries (if ok \<and> \<not> gen then d else []) s t \<and> (ok \<longrightarrow> d \<noteq> [])"
  proof (cases "in_disposed s \<or> d = [] \<or> \<not> input_ready s")
    case True
    then show ?thesis using r by (auto simp: send_input_def carries_refl)
  next
    case False
    obtain h s1 where h: "ask_health en False False s = (h, s1)" by force
    note c = carries_health [OF h]
    have x: "\<not> in_exit s1" using False carriesD(2) [OF c] by (simp add: input_ready_def)
    show ?thesis
    proof (cases "\<not> h \<or> \<not> gen \<and> should_suppress en d s1")
      case True
      then have "\<not> ok \<and> t = s1" using r False h by (cases h) (simp_all add: send_input_def)
      then show ?thesis using c by simp
    next
      case a: False
      show ?thesis
      proof (cases gen)
        case True
        then have "send_chunk en d True s1 = (ok, t)" using r False h a by (simp add: send_input_def)
        then show ?thesis using True False carries_then(2) [OF c carries_generated] by simp
      next
        case g: False
        show ?thesis
        proof (cases "chunk_units < length d \<or> in_queue s1 \<noteq> []")
          case True
          then have "enqueue_input d False False s1 = (ok, t)" using r False h a g by (simp add: send_input_def)
          then show ?thesis using g False carries_then(2) [OF c enqueue_carries(1) [OF _ x]] by simp
        next
          case n: False
          let ?s2 = "if buffer_limit < in_buffer_size s1 + utf8_len d then flush_buffer en s1 else s1"
          have c2: "carries [] s1 ?s2" "in_queue ?s2 = []" using flush_buffer_spec [of s1 en] n by (auto simp: carries_refl)
          have x2: "\<not> in_exit ?s2" using carriesD(2) [OF c2(1)] x by simp
          note c12 = carries_then(2) [OF c c2(1)]
          show ?thesis
          proof (cases "buffer_limit < utf8_len d")
            case True
            then have "enqueue_input d False False ?s2 = (ok, t)" using r False h a g n by (simp add: send_input_def Let_def)
            then show ?thesis using g False carries_then(2) [OF c12 enqueue_carries(1) [OF _ x2]] by simp
          next
            case b: False
            then have "ok \<and> t = buffer_input en d imm ?s2" using r False h a g n by (simp add: send_input_def Let_def)
            then show ?thesis using g False carries_then(2) [OF c12 buffer_carries [OF x2 c2(2)]] by auto
          qed
        qed
      qed
    qed
  qed
  then show "carries (if ok \<and> \<not> gen then d else []) s t" "ok \<Longrightarrow> d \<noteq> []" by auto
qed

subsection \<open>The pending list and the pump\<close>

definition in_whole :: "inp \<Rightarrow> units" where
  "in_whole s = in_line s @ concat (in_pending s)"

definition pending_good :: "inp \<Rightarrow> bool" where
  "pending_good s = (list_all (\<lambda>d. d \<noteq> []) (in_pending s) \<and> in_pending_size s = sum_list (map utf8_len (in_pending s)) \<and> in_pending_size s \<le> pending_limit)"

definition flows :: "inp \<Rightarrow> inp \<Rightarrow> bool" where
  "flows s t = (outs_extend (in_outs s) (in_outs t) \<and> in_frame t = in_frame s \<and> in_whole t = in_whole s \<and> (queue_good s \<longrightarrow> queue_good t) \<and> (pending_good s \<longrightarrow> pending_good t)
     \<and> (list_all out_good (in_outs s) \<longrightarrow> list_all out_good (in_outs t))
     \<and> (\<not> in_pumping s \<and> in_armed s \<and> (in_exit s \<longrightarrow> in_empty s) \<longrightarrow> in_armed t) \<and> (in_exit s \<and> in_empty s \<longrightarrow> in_empty t))"

definition in_inv :: "inp \<Rightarrow> bool" where
  "in_inv s = (queue_good s \<and> pending_good s \<and> list_all out_good (in_outs s) \<and> \<not> in_pumping s \<and> (in_exit s \<longrightarrow> in_empty s) \<and> in_armed s
     \<and> in_whole s = in_taken s)"

lemma flows_refl: "flows s s"
  by (simp add: flows_def)

lemma flows_trans [trans]: "\<lbrakk>flows s t; flows t u\<rbrakk> \<Longrightarrow> flows s u"
  using outs_extend_trans [of "in_outs s" "in_outs t" "in_outs u"] by (auto simp: flows_def in_frame_def)

lemma flows_carries: "carries [] s t \<Longrightarrow> flows s t"
  by (auto simp: carries_def flows_def in_whole_def pending_good_def)

lemma flows_inv: "\<lbrakk>flows s t; in_inv s\<rbrakk> \<Longrightarrow> in_inv t"
  by (auto simp: flows_def in_inv_def in_frame_def)

lemma flows_same:
  "\<lbrakk>in_frame t = in_frame s; in_outs t = in_outs s; in_buffer t = in_buffer s; in_queue t = in_queue s; in_queue_size t = in_queue_size s;
    in_pending t = in_pending s; in_pending_size t = in_pending_size s; in_pump_timer t = in_pump_timer s; in_flush_timer t = in_flush_timer s\<rbrakk>
   \<Longrightarrow> flows s t"
  by (auto simp: flows_def in_whole_def in_line_def queue_good_def pending_good_def in_armed_def tail_armed_def in_empty_def in_frame_def)

lemma flows_pumped: "flows s t \<Longrightarrow> flows s (schedule_pump n t)" "flows s t \<Longrightarrow> flows s (in_log InputToast t)"
  "flows s t \<Longrightarrow> flows s (in_log (PendingRefused b) t)"
  by (erule flows_trans, rule flows_carries, simp add: carries_pump carries_log)+

lemma flows_expiry: "flows s (clear_expiry s)" "flows s (snd (pause_expiry s))" "flows s (pause_lease s)"
  "flows s (snd (schedule_expiry en s))" "flows s (snd (resume_expiry en s))"
  by (rule flows_same; simp add: clear_expiry_def pause_expiry_def pause_lease_def schedule_expiry_def resume_expiry_def in_frame_def Let_def)+

lemma flush_loop_flows:
  "\<lbrakk>flush_loop en ds s = (ok, t); in_pending s = ds\<rbrakk> \<Longrightarrow> flows s t \<and> (ok \<longrightarrow> in_pending t = [])"
proof (induction ds arbitrary: s)
  case Nil
  then show ?case by (auto simp: flows_refl)
next
  case (Cons d ds)
  obtain sent s1 where s1: "send_input en d False False s = (sent, s1)" by force
  note c = send_input_carries [OF s1]
  show ?case
  proof (cases sent)
    case False
    then have "\<not> ok \<and> t = schedule_pump backpressure_delay s1" using Cons.prems s1 by auto
    then show ?thesis using flows_pumped(1) [OF flows_carries] c(1) False by simp
  next
    case True
    let ?u = "s1\<lparr>in_pending := ds, in_pending_size := in_pending_size s1 - utf8_len d\<rparr>"
    have cd: "carries d s s1" using c(1) True by simp
    note f = carriesD [OF cd]
    have "in_frame s1 = in_frame s" using cd by (simp add: carries_def)
    moreover have "in_whole ?u = in_whole s" using f Cons.prems(2) by (simp add: in_whole_def in_line_def)
    moreover have "pending_good ?u" if "pending_good s" using that Cons.prems(2) f by (simp add: pending_good_def)
    moreover have "\<not> in_pumping s \<and> in_armed s \<and> (in_exit s \<longrightarrow> in_empty s) \<longrightarrow> in_armed s1" "queue_good s \<longrightarrow> queue_good s1"
      "list_all out_good (in_outs s) \<longrightarrow> list_all out_good (in_outs s1)" "in_exit s \<and> in_empty s \<longrightarrow> in_empty s1"
      "outs_extend (in_outs s) (in_outs s1)"
      using cd by (simp_all add: carries_def)
    moreover have "in_frame ?u = in_frame s1" "queue_good ?u = queue_good s1" "in_outs ?u = in_outs s1" by (simp_all add: in_frame_def queue_good_def)
    moreover have "in_armed s1 \<Longrightarrow> in_armed ?u" using f Cons.prems(2) by (auto simp: in_armed_def tail_armed_def)
    moreover have "in_empty s1 \<Longrightarrow> in_empty ?u" using f Cons.prems(2) by (simp add: in_empty_def)
    ultimately have "flows s ?u" unfolding flows_def by auto
    then show ?thesis using Cons.IH [of ?u] Cons.prems s1 True flows_trans by auto
  qed
qed

lemma flush_pending_flows: "flows s (snd (flush_pending en s))"
proof (cases "in_disposed s \<or> \<not> input_ready s")
  case True
  then show ?thesis by (auto simp: flush_pending_def flows_refl intro: flows_pumped)
next
  case False
  obtain h s1 where h: "ask_health en False False s = (h, s1)" by force
  note 1 = flows_carries [OF carries_health [OF h]]
  obtain drained s2 where l: "flush_loop en (in_pending s1) s1 = (drained, s2)" by force
  have 2: "flows s s2" using flows_trans [OF 1] flush_loop_flows [OF l refl] by simp
  have "flows s (schedule_pump 0 (flush_buffer en (clear_expiry s2)))"
    by (rule flows_pumped) (rule flows_trans [OF flows_trans [OF 2 flows_expiry(1)] flows_carries [OF flush_buffer_carries]])
  with 1 2 show ?thesis using False h l by (auto simp: flush_pending_def intro: flows_pumped)
qed

lemma pump_loop_flows:
  assumes "in_pumping s" "queue_good s" "in_buffer s = []"
  shows "flows s (snd (pump_loop en left s))"
  using assms
proof (induction left arbitrary: s)
  case 0
  then show ?case by (simp add: flows_refl)
next
  case (Suc left)
  show ?case
  proof (cases "in_queue s = [] \<or> \<not> input_ready s")
    case True
    then show ?thesis by (auto simp: flows_refl split: list.split)
  next
    case False
    then obtain item rest where q: "in_queue s = item # rest" by (cases "in_queue s") auto
    obtain h s1 where h: "ask_health en False False s = (h, s1)" by force
    note f1 = flows_carries [OF carries_health [OF h]] and k1 = carriesD [OF carries_health [OF h]] and hf = health_fields [OF h]
    show ?thesis
    proof (cases "\<not> h \<or> backpressure_bytes < ie_buffered en (in_asked s1)")
      case True
      then have "pump_loop en (Suc left) s = (backpressure_delay, s1)" using False q h by simp
      then show ?thesis using f1 by simp
    next
      case a: False
      let ?u = "s1\<lparr>in_queue := rest, in_queue_size := in_queue_size s1 - ii_bytes item\<rparr>"
      obtain sent s2 where s2: "send_chunk en (ii_data item) (ii_generated item) ?u = (sent, s2)" by force
      note k = send_chunk_cases [OF s2]
      have g: "item_good item" "queue_good ?u" using Suc.prems(2) q hf by (simp_all add: queue_good_def)
      have s2f: "in_frame s2 = in_frame s1" "in_pending s2 = in_pending s1" "in_pending_size s2 = in_pending_size s1" "in_buffer s2 = in_buffer s1"
        "in_queue s2 = rest" "in_queue_size s2 = in_queue_size s1 - ii_bytes item"
        by (subst conjunct1 [OF k]; simp add: in_frame_def)+
      have x: "\<not> in_exit s" "in_frame s1 = in_frame s" using False f1 by (simp_all add: input_ready_def flows_def)
      show ?thesis
      proof (cases sent)
        case True
        have o: "in_outs s2 = in_outs s1 @ [Sent (in_gates s1) (make_payload en (ii_data item) (ii_generated item))]" "input_ready s1"
          using k True by (simp_all add: input_ready_def)
        have qg: "queue_good s2" using g(2) s2f by (simp add: queue_good_def)
        have "in_whole s2 = in_whole s"
          using o(1) s2f hf k1 g(1) q Suc.prems(3) by (simp add: in_whole_def in_line_def item_good_def)
        moreover have "pending_good s2 = pending_good s" using s2f k1 by (simp add: pending_good_def)
        moreover have "list_all out_good (in_outs s) \<longrightarrow> list_all out_good (in_outs s2)" "outs_extend (in_outs s) (in_outs s2)"
          using o hf by (simp_all add: out_good_sent)
        ultimately have "flows s s2" using qg s2f(1) x Suc.prems(1) by (simp add: flows_def)
        moreover have "in_pumping s2" "in_buffer s2 = []" using s2f(1,4) x Suc.prems hf by (simp_all add: in_frame_def)
        note Suc.IH [OF this(1) qg this(2)]
        moreover have "pump_loop en (Suc left) s = pump_loop en left s2" using False q h a s2 True by simp
        ultimately show ?thesis by (simp add: flows_trans)
      next
        case fail: False
        let ?v = "s2\<lparr>in_queue := item # in_queue s2, in_queue_size := in_queue_size s2 + ii_bytes item\<rparr>"
        have "in_queue_size s1 - ii_bytes item + ii_bytes item = in_queue_size s1" using Suc.prems(2) q hf by (simp add: queue_good_def)
        then have "queue_good ?v = queue_good s" using s2f q hf by (simp add: queue_good_def)
        moreover have "in_outs s2 = in_outs s1" using k fail by simp
        moreover have "in_frame ?v = in_frame s2" by (simp add: in_frame_def)
        ultimately have "flows s ?v" using s2f hf k1 x q Suc.prems(1)
          by (simp add: flows_def in_whole_def in_line_def pending_good_def)
        moreover have "pump_loop en (Suc left) s = (backpressure_delay, ?v)" using False q h a s2 fail by simp
        ultimately show ?thesis by simp
      qed
    qed
  qed
qed

lemma pump_turn_flows:
  assumes "in_pumping s" "queue_good s"
  shows "flows s (snd (pump_turn en s))"
proof -
  let ?s1 = "if in_pending s \<noteq> [] then snd (flush_pending en s) else s"
  have 1: "flows s ?s1" by (simp add: flows_refl flush_pending_flows)
  then have p1: "in_pumping ?s1" "queue_good ?s1" using assms by (simp_all only: flows_def in_frame_def prod.inject)
  show ?thesis
  proof (cases "in_buffer ?s1 = []")
    case True
    then show ?thesis using flows_trans [OF 1 pump_loop_flows [OF p1 True]] by (simp add: pump_turn_def Let_def)
  next
    case False
    let ?s2 = "flush_buffer en ?s1"
    have 2: "flows ?s1 ?s2" by (rule flows_carries [OF flush_buffer_carries])
    then have p2: "in_pumping ?s2" "queue_good ?s2" using p1 by (simp_all only: flows_def in_frame_def prod.inject)
    show ?thesis
    proof (cases "in_buffer ?s2 = []")
      case True
      have e: "pump_turn en s = pump_loop en pump_budget ?s2" using False True by (simp only: pump_turn_def Let_def if_False if_True simp_thms)
      show ?thesis unfolding e by (rule flows_trans [OF 1 flows_trans [OF 2 pump_loop_flows [OF p2 True]]])
    next
      case b: False
      have e: "pump_turn en s = (backpressure_delay, ?s2)" using False b by (simp only: pump_turn_def Let_def if_False if_True simp_thms)
      show ?thesis unfolding e using flows_trans [OF 1 2] by simp
    qed
  qed
qed

lemma pump_input_inv: "in_inv s \<Longrightarrow> in_inv (pump_input en s)"
proof -
  assume inv: "in_inv s"
  show ?thesis
  proof (cases "in_closed s \<or> in_exit s \<or> in_pumping s \<or> in_disposed s")
    case True
    then show ?thesis using inv by (auto simp: pump_input_def)
  next
    case False
    let ?s = "s\<lparr>in_pump_timer := None, in_pumping := True\<rparr>"
    obtain n t where t: "pump_turn en ?s = (n, t)" by force
    have s: "queue_good ?s = queue_good s" "pending_good ?s = pending_good s" "in_whole ?s = in_whole s"
      by (simp_all add: queue_good_def pending_good_def in_whole_def in_line_def)
    have f: "flows ?s t" using pump_turn_flows [of ?s en] inv t by (simp add: s in_inv_def)
    let ?t = "t\<lparr>in_pumping := False\<rparr>"
    have k: "in_taken t = in_taken s" "\<not> in_exit t" using f False by (auto simp: flows_def in_frame_def)
    have "in_armed (schedule_pump n ?t)" by (rule schedule_pump_armed) (simp_all add: k)
    then show ?thesis using f inv False t k
      by (simp add: pump_input_def in_inv_def flows_def s in_whole_def in_line_def queue_good_def pending_good_def)
  qed
qed

subsection \<open>The entry points\<close>

lemma send_directly_spec:
  assumes r: "send_directly en d user s = (ok, t)" and inv: "in_inv s"
  shows "in_inv t" "ok \<Longrightarrow> d \<noteq> []" "in_taken t = in_taken s @ (if ok then d else [])"
    "in_closed t = in_closed s" "in_exit t = in_exit s" "in_disposed t = in_disposed s"
proof -
  have "in_inv t \<and> (ok \<longrightarrow> d \<noteq> []) \<and> in_taken t = in_taken s @ (if ok then d else [])
     \<and> in_closed t = in_closed s \<and> in_exit t = in_exit s \<and> in_disposed t = in_disposed s"
  proof (cases "input_ready s")
    case False
    then show ?thesis using r inv by (auto simp: send_directly_def)
  next
    case ready: True
    obtain h s1 where h: "ask_health en user user s = (h, s1)" by force
    note f1 = flows_carries [OF carries_health [OF h]]
    let ?s2 = "if in_pending s1 \<noteq> [] then snd (flush_pending en s1) else s1"
    have f2: "flows s1 ?s2" by (simp add: flows_refl flush_pending_flows)
    have i1: "in_inv s1" and i2: "in_inv ?s2" using flows_inv [OF f1 inv] flows_inv [OF f2] by blast+
    have fr: "in_frame s1 = in_frame s" "in_frame ?s2 = in_frame s" using f1 f2 by (simp_all add: flows_def)
    show ?thesis
    proof (cases "\<not> h \<or> in_pending ?s2 \<noteq> []")
      case True
      then have "\<not> ok \<and> (t = s1 \<or> t = ?s2)" using r ready h by (cases h) (auto simp: send_directly_def Let_def)
      then show ?thesis using i1 i2 fr by (auto simp: in_frame_def)
    next
      case False
      obtain sent u where u: "send_input en d (list_ex (\<lambda>u. u \<in> {13, 10, 3, 4}) d) False ?s2 = (sent, u)" by force
      have t: "(ok, t) = taking d (sent, u)" using r ready h False u by (simp add: send_directly_def Let_def)
      note c = send_input_carries [OF u]
      show ?thesis
      proof (cases sent)
        case True
        then have ok: "ok" "t = u\<lparr>in_taken := in_taken u @ d\<rparr>" "carries d ?s2 u" using t c by (simp_all add: taking_def)
        note k = carriesD [OF ok(3)]
        have "queue_good u" "list_all out_good (in_outs u)" "in_armed u" "in_exit u \<longrightarrow> in_empty u"
          using ok(3) i2 k by (auto simp: carries_def in_inv_def)
        then show ?thesis using ok(1) i2 k fr False c(2) [OF True]
          by (auto simp: ok(2) in_inv_def in_whole_def in_line_def queue_good_def pending_good_def in_armed_def tail_armed_def in_empty_def in_frame_def)
      next
        case no: False
        then have "\<not> ok" "t = u" "carries [] ?s2 u" using t c(1) by (simp_all add: taking_def)
        then show ?thesis using flows_inv [OF flows_carries i2] carriesD [OF \<open>carries [] ?s2 u\<close>] fr by (simp add: in_frame_def)
      qed
    qed
  qed
  then show "in_inv t" "ok \<Longrightarrow> d \<noteq> []" "in_taken t = in_taken s @ (if ok then d else [])"
    "in_closed t = in_closed s" "in_exit t = in_exit s" "in_disposed t = in_disposed s" by auto
qed

lemma enqueue_pending_spec:
  assumes r: "taking d (enqueue_pending en d parked s) = (ok, t)" and inv: "in_inv s" and x: "\<not> in_exit s"
  shows "in_inv t" "in_taken t = in_taken s @ (if ok then d else [])"
proof -
  have "in_inv t \<and> in_taken t = in_taken s @ (if ok then d else [])"
  proof (cases "d = [] \<or> in_disposed s")
    case True
    then show ?thesis using r inv by (auto simp: enqueue_pending_def taking_def)
  next
    case False
    let ?limit = "if parked then min pending_limit parked_limit else pending_limit"
    obtain its b ex where i: "build_input_items (Num (Fin (of_nat chunk_units))) False (Some (?limit - in_pending_size s)) d = (its, b, ex)"
      by (metis prod_cases3)
    show ?thesis
    proof (cases "ex \<or> ?limit < in_pending_size s + b")
      case True
      then have "(ok, t) = (False, s)" using r False i by (auto simp: enqueue_pending_def taking_def Let_def)
      then show ?thesis using inv by simp
    next
      case b: False
      let ?u = "s\<lparr>in_pending := in_pending s @ [d], in_pending_size := in_pending_size s + b\<rparr>"
      let ?v = "snd (schedule_expiry en ?u)"
      let ?w = "schedule_pump backpressure_delay ?v"
      have "ok \<and> t = ?w\<lparr>in_taken := in_taken ?w @ d\<rparr>" using r False i b by (simp add: enqueue_pending_def taking_def Let_def)
      then have ok: "ok" "t = ?w\<lparr>in_taken := in_taken ?w @ d\<rparr>" by auto
      have bd: "b = utf8_len d" using built_items(3) i b by auto
      have v: "flows ?u ?v" by (rule flows_expiry)
      have f: "in_taken ?v = in_taken s" "in_whole ?v = in_whole ?u" "\<not> in_pumping ?v" "\<not> in_exit ?v" using v inv x
        by (auto simp: flows_def in_frame_def in_inv_def)
      have g: "queue_good ?v" "pending_good ?v" "list_all out_good (in_outs ?v)"
        using v inv False b bd by (auto simp: flows_def in_inv_def queue_good_def pending_good_def split: if_splits)
      have "in_armed ?w" by (rule schedule_pump_armed) (simp_all add: f)
      then show ?thesis using f g inv ok(1)
        by (simp add: ok(2) in_inv_def in_whole_def in_line_def queue_good_def pending_good_def in_armed_def tail_armed_def)
    qed
  qed
  then show "in_inv t" "in_taken t = in_taken s @ (if ok then d else [])" by auto
qed

lemma flows_log: "(\<And>g p. x \<noteq> Sent g p) \<Longrightarrow> flows s (in_log x s)"
  by (rule flows_carries [OF carries_log])

lemma flows_gates: "flows s (s\<lparr>in_gates := g\<rparr>)"
  by (rule flows_same) (simp_all add: in_frame_def)

lemma prepare_flows: "flows s (prepare_user_input en s)"
proof -
  let ?s1 = "in_log UserMarked s"
  let ?s2 = "if \<not> g_size_claimed (in_gates ?s1) \<or> g_claim_required (in_gates ?s1)
    then (in_log SizeClaimed ?s1)\<lparr>in_gates := ie_claim en (in_gates ?s1)\<rparr> else ?s1"
  have 1: "flows s ?s1" by (simp add: flows_log)
  have 2: "flows ?s1 ?s2" using flows_trans [OF flows_log flows_gates, of SizeClaimed ?s1] by (simp add: flows_refl)
  have 3: "flows ?s2 (in_log ConnectionRequested (in_log ScrolledDown ?s2))" by (rule flows_trans [OF flows_log flows_log]) simp_all
  show ?thesis unfolding prepare_user_input_def Let_def by (rule flows_trans [OF 1 flows_trans [OF 2 flows_trans [OF 3 flows_gates]]])
qed

lemma taken_kept: "flows s t \<Longrightarrow> in_taken t = in_taken s" "flows s t \<Longrightarrow> in_exit t = in_exit s"
  by (simp_all add: flows_def in_frame_def)

text \<open>What a call adds to the accepted input: all of its data or nothing.\<close>

lemma send_or_queue_spec:
  assumes inv: "in_inv s"
  shows "in_inv (snd (send_or_queue en d user accept s)) \<and> in_taken (snd (send_or_queue en d user accept s)) \<in> {in_taken s, in_taken s @ d}"
proof (cases "in_disposed s \<or> in_exit s \<or> should_suppress en d s")
  case True
  then show ?thesis using inv by (simp add: send_or_queue_def)
next
  case a: False
  show ?thesis
  proof (cases "\<not> user \<and> d \<noteq> [] \<and> g_channel (in_gates s) = UnifiedChannel \<and> g_open (in_gates s)")
    case True
    let ?s1 = "s\<lparr>in_asked := Suc (in_asked s)\<rparr>"
    have 1: "flows s ?s1" by (rule flows_same) (simp_all add: in_frame_def)
    have "ip_generated (make_payload en d True)" by (simp add: make_payload_def)
    then have "flows ?s1 (in_log (Sent (in_gates s) (make_payload en d True)) ?s1)"
      using True by (auto simp: flows_def in_log_def in_frame_def in_whole_def in_line_def queue_good_def pending_good_def in_armed_def tail_armed_def
          in_empty_def out_good_def)
    then have "flows s (snd (send_or_queue en d user accept s))"
      using a True flows_trans [OF 1] flows_log [of UnifiedRecycled ?s1] by (simp add: send_or_queue_def Let_def)
    then show ?thesis using flows_inv inv taken_kept(1) by blast
  next
    case b: False
    let ?s1 = "if d \<noteq> [] \<and> user then prepare_user_input en s else s"
    let ?s2 = "if list_ex line_end d then in_log (ActivityRefresh 450) ?s1 else ?s1"
    have e: "send_or_queue en d user accept s = (if in_closed ?s1 then (False, ?s1) else case send_directly en d user ?s2 of (sent, s3) \<Rightarrow>
         if sent then (True, s3)
         else case taking d (enqueue_pending en d (g_lease_closing (in_gates s)) s3) of (queued, s4) \<Rightarrow>
           (accept \<and> queued, snd (ask_health en False False
             (if queued then s4 else in_log InputToast (in_log (PendingRefused (g_lease_closing (in_gates s))) s4)))))"
      by (simp only: send_or_queue_def Let_def a b if_False)
    have f1: "flows s ?s1" by (simp add: prepare_flows flows_refl)
    have f2: "flows s ?s2" using flows_trans [OF f1 flows_log [of "ActivityRefresh 450" ?s1]] f1 by simp
    have i2: "in_inv ?s2" "in_taken ?s2 = in_taken s" using flows_inv [OF f2 inv] taken_kept(1) [OF f2] by blast+
    have x2: "\<not> in_exit ?s2" using a taken_kept(2) [OF f2] by simp
    show ?thesis
    proof (cases "in_closed ?s1")
      case True
      then have "snd (send_or_queue en d user accept s) = ?s1" by (simp only: e if_True snd_conv)
      then show ?thesis using flows_inv [OF f1 inv] taken_kept(1) [OF f1] by (simp only: insert_iff simp_thms)
    next
      case open1: False
      obtain sent s3 where s3: "send_directly en d user ?s2 = (sent, s3)" by force
      note k = send_directly_spec [OF s3 i2(1)]
      obtain queued s4 where s4: "taking d (enqueue_pending en d (g_lease_closing (in_gates s)) s3) = (queued, s4)" by force
      have x3: "\<not> in_exit s3" using k(5) x2 by simp
      note l = enqueue_pending_spec [OF s4 k(1) x3]
      let ?s5 = "if queued then s4 else in_log InputToast (in_log (PendingRefused (g_lease_closing (in_gates s))) s4)"
      have f5: "flows s4 ?s5" using flows_trans [OF flows_log flows_log, of "PendingRefused _" InputToast s4] by (simp add: flows_refl)
      obtain ok s6 where s6: "ask_health en False False ?s5 = (ok, s6)" by force
      have f6: "flows s4 s6" by (rule flows_trans [OF f5 flows_carries [OF carries_health [OF s6]]])
      have "snd (send_or_queue en d user accept s) = (if sent then s3 else s6)"
        by (simp only: e open1 s3 s4 s6 if_False prod.case snd_conv if_distrib [of snd])
      then show ?thesis using k(1,3) i2(2) l flows_inv [OF f6] taken_kept(1) [OF f6] by (cases sent; cases queued) auto
    qed
  qed
qed

lemma handle_data_spec:
  assumes inv: "in_inv s"
  shows "in_inv (snd (handle_data en d s)) \<and> in_taken (snd (handle_data en d s)) \<in> {in_taken s, in_taken s @ d}"
proof -
  have gen: "in_inv (snd (send_input en d True True s)) \<and> in_taken (snd (send_input en d True True s)) = in_taken s"
  proof -
    obtain ok t where t: "send_input en d True True s = (ok, t)" by force
    then have "carries [] s t" using send_input_carries(1) [OF t] by simp
    then have "flows s t" by (rule flows_carries)
    then show ?thesis using t flows_inv inv taken_kept(1) by auto
  qed
  let ?s1 = "in_log CursorHeld s"
  let ?s2 = "if ie_unsettled en \<or> g_claim_required (in_gates ?s1) \<or> g_ack_pending (in_gates ?s1)
     then (in_log SizeReasserted ?s1)\<lparr>in_gates := ie_reassert en (in_gates ?s1)\<rparr> else ?s1"
  have 1: "flows s ?s1" by (simp add: flows_log)
  have "flows ?s1 ?s2" using flows_trans [OF flows_log flows_gates, of SizeReasserted ?s1] by (simp add: flows_refl)
  from flows_trans [OF 1 this] have f: "flows s ?s2" .
  have "in_inv ?s2" "in_taken ?s2 = in_taken s" using flows_inv [OF f inv] taken_kept(1) [OF f] by blast+
  with send_or_queue_spec [OF this(1), of en d True False] gen inv show ?thesis
    by (simp add: handle_data_def Let_def)
qed

lemma responses_inv:
  assumes "in_inv s"
  shows "in_inv (drain_responses en answers s)"
proof -
  have p: "in_inv (t\<lparr>in_processing := b\<rparr>) = in_inv t" for t b
    by (simp add: in_inv_def queue_good_def pending_good_def in_armed_def tail_armed_def in_empty_def in_whole_def in_line_def)
  have "in_inv (foldl (\<lambda>t d. if in_closed t then t else snd (handle_data en d t)) t ds)" if "in_inv t" for ds t
    using that by (induction ds arbitrary: t) (simp_all add: handle_data_spec)
  then show ?thesis using assms p by (simp add: drain_responses_def)
qed

lemma in_discard_inv:
  assumes "list_all out_good (in_outs s)"
  shows "in_inv (discard_input s)"
  using assms by (simp add: discard_input_def clear_expiry_def in_inv_def queue_good_def pending_good_def in_armed_def tail_armed_def in_empty_def
      in_whole_def in_line_def)

lemma in_inv_start: "in_inv (in_start g)"
  by (simp add: in_start_def in_inv_def queue_good_def pending_good_def in_armed_def tail_armed_def in_empty_def in_whole_def in_line_def)

lemma in_inv_same:
  "\<lbrakk>in_inv s; in_frame t = in_frame s; in_outs t = in_outs s; in_buffer t = in_buffer s; in_queue t = in_queue s; in_queue_size t = in_queue_size s;
    in_pending t = in_pending s; in_pending_size t = in_pending_size s; in_pump_timer t = in_pump_timer s; in_flush_timer t = in_flush_timer s\<rbrakk>
   \<Longrightarrow> in_inv t"
  using flows_inv flows_same by blast

lemma flush_fires_inv: "in_inv s \<Longrightarrow> in_inv (flush_fires en s)"
proof -
  assume inv: "in_inv s"
  let ?c = "clear_flush s"
  have c: "carries [] s (flush_buffer en s)" "\<not> in_pumping s \<and> tail_armed s \<longrightarrow> in_armed (flush_buffer en ?c)" if "\<not> in_exit s"
    using flush_buffer_spec [of s en] flush_buffer_spec [of ?c en] that by (auto simp: clear_flush_def tail_armed_def)
  have e: "flush_buffer en ?c = flush_buffer en s" if "\<not> in_disposed s" using that by (simp add: flush_buffer_def clear_flush_def)
  have "in_inv (flush_buffer en s)" by (rule flows_inv [OF flows_carries [OF flush_buffer_carries] inv])
  moreover have "in_inv ?c" if "in_disposed s \<or> in_closed s"
    using inv that by (auto simp: clear_flush_def in_inv_def queue_good_def pending_good_def in_armed_def tail_armed_def in_empty_def in_whole_def in_line_def)
  ultimately show ?thesis using inv e by (auto simp: flush_fires_def Let_def clear_flush_def)
qed

lemma pump_fires_inv: "in_inv s \<Longrightarrow> in_inv (pump_fires en s)"
proof -
  assume inv: "in_inv s"
  let ?c = "s\<lparr>in_pump_timer := None\<rparr>"
  have "pump_input en ?c = pump_input en s" if "\<not> in_exit s" "\<not> in_closed s" "\<not> in_disposed s" using that inv by (simp add: pump_input_def in_inv_def)
  moreover have "pump_input en ?c = ?c" if "in_exit s" using that by (simp add: pump_input_def)
  moreover have "in_inv ?c" if "in_disposed s \<or> in_closed s \<or> in_exit s"
    using inv that by (auto simp: in_inv_def queue_good_def pending_good_def in_armed_def tail_armed_def in_empty_def in_whole_def in_line_def)
  ultimately show ?thesis using inv pump_input_inv [OF inv] by (cases "in_exit s") (simp_all add: pump_fires_def Let_def)
qed

lemma expiry_fires_flows: "flows s (expiry_fires en s)"
proof (cases "in_expiry_timer s")
  case (Some x)
  obtain token lease generation where x: "x = (token, lease, generation)" by (cases x)
  let ?s = "s\<lparr>in_expiry_timer := None\<rparr>" let ?s1 = "?s\<lparr>in_queued_at := 0\<rparr>"
  have 1: "flows s ?s" "flows s ?s1" by (rule flows_same; simp add: in_frame_def)+
  obtain ok t where t: "ask_health en True True ?s1 = (ok, t)" by force
  have 2: "flows s t" by (rule flows_trans [OF 1(2) flows_carries [OF carries_health [OF t]]])
  have "flows s (snd (resume_expiry en (pause_lease t)))" "flows s (pause_lease ?s1)" "flows s (snd (flush_pending en ?s1))"
    using flows_trans [OF flows_trans [OF 2 flows_expiry(3)] flows_expiry(5)] flows_trans [OF 1(2) flows_expiry(3)] flows_trans [OF 1(2) flush_pending_flows]
    by blast+
  then show ?thesis using Some x t 1 by (simp add: expiry_fires_def Let_def)
qed (simp add: expiry_fires_def flows_refl)

lemma outs_of_inv: "in_inv s \<Longrightarrow> list_all out_good (in_outs s)"
  by (simp add: in_inv_def)

lemma in_inv_step: "in_inv s \<Longrightarrow> in_inv (in_step s e)"
proof (cases e)
  case (InSend en d user accept) assume "in_inv s" then show ?thesis using send_or_queue_spec InSend by simp
next
  case (InFlush en) assume "in_inv s" then show ?thesis using flows_inv [OF flush_pending_flows] InFlush by simp
next
  case (InExpiryFires en) assume "in_inv s" then show ?thesis using flows_inv [OF expiry_fires_flows] InExpiryFires by simp
next
  case InPause assume "in_inv s" then show ?thesis using flows_inv [OF flows_expiry(2)] InPause by simp
next
  case (InResume en) assume "in_inv s" then show ?thesis using flows_inv [OF flows_expiry(5)] InResume by simp
next
  case InDispose
  assume i: "in_inv s"
  then have "in_inv (discard_input s)" by (intro in_discard_inv) (simp add: in_inv_def)
  then have "in_inv ((discard_input s)\<lparr>in_disposed := True\<rparr>)"
    by (simp add: in_inv_def queue_good_def pending_good_def in_armed_def tail_armed_def in_empty_def in_whole_def in_line_def)
  then show ?thesis using i InDispose by (simp add: dispose_input_def)
next
  case (InGates g) assume "in_inv s" then show ?thesis using flows_inv [OF flows_gates] InGates by simp
next
  case InExitOver
  assume "in_inv s"
  then show ?thesis using InExitOver
    by (auto simp: in_inv_def queue_good_def pending_good_def in_armed_def tail_armed_def in_empty_def in_whole_def in_line_def)
next
  case (InOutput n b)
  assume "in_inv s"
  then show ?thesis using InOutput
    by (simp add: in_inv_def queue_good_def pending_good_def in_armed_def tail_armed_def in_empty_def in_whole_def in_line_def)
next
  case (InArm n d)
  assume "in_inv s"
  then show ?thesis using InArm
    by (auto simp: arm_suppression_def in_inv_def queue_good_def pending_good_def in_armed_def tail_armed_def in_empty_def in_whole_def in_line_def)
next
  case (InArmReplay n)
  assume "in_inv s"
  then show ?thesis using InArmReplay
    by (auto simp: arm_replay_suppression_def arm_suppression_def in_inv_def queue_good_def pending_good_def in_armed_def tail_armed_def in_empty_def in_whole_def in_line_def)
next
  case InClearSuppression
  assume "in_inv s"
  then show ?thesis using InClearSuppression
    by (auto simp: in_inv_def queue_good_def pending_good_def in_armed_def tail_armed_def in_empty_def in_whole_def in_line_def)
qed (simp_all add: handle_data_spec flush_fires_inv pump_fires_inv responses_inv close_input_def in_discard_inv outs_of_inv)

interpretation inm: invariant_machine in_step in_inv
  by standard (rule in_inv_step)

lemma in_run_inv: "in_inv (in_run g es)"
  by (rule inm.inv_run [OF in_inv_start])

subsection \<open>What holds after every sequence of events\<close>

text \<open>
  C21. User input is sent in order, whole and once: at any time what was sent as user input, what is buffered,
  queued and pending make up exactly the input accepted since input was last discarded; a call accepts all of
  its data or nothing; and timers and flushes neither add nor lose any.
\<close>

theorem input_is_sent_in_order:
  "case in_run g es of s \<Rightarrow>
     sent_units (in_outs s) @ in_buffer s @ concat (map ii_data (in_queue s)) @ concat (in_pending s) = in_taken s
     \<and> (case e of InSend en d user accept \<Rightarrow> in_taken (in_step s e) \<in> {in_taken s, in_taken s @ d}
         | InData en d \<Rightarrow> in_taken (in_step s e) \<in> {in_taken s, in_taken s @ d}
         | InFlush en \<Rightarrow> in_taken (in_step s e) = in_taken s | InExpiryFires en \<Rightarrow> in_taken (in_step s e) = in_taken s
         | InPumpFires en \<Rightarrow> in_taken (in_step s e) = in_taken s | InFlushFires en \<Rightarrow> in_taken (in_step s e) = in_taken s | _ \<Rightarrow> True)"
proof -
  let ?s = "in_run g es"
  have inv: "in_inv ?s" by (rule in_run_inv)
  have "in_taken (pump_fires en ?s) = in_taken ?s" for en
  proof -
    have "in_taken (pump_input en t) = in_taken t" if "queue_good t" for t
    proof -
      let ?t = "t\<lparr>in_pump_timer := None, in_pumping := True\<rparr>"
      have "queue_good ?t" using that by (simp add: queue_good_def)
      from taken_kept(1) [OF pump_turn_flows [OF _ this]] show ?thesis by (simp add: pump_input_def split_beta)
    qed
    moreover have "queue_good (?s\<lparr>in_pump_timer := None\<rparr>)" using inv by (simp add: in_inv_def queue_good_def)
    ultimately show ?thesis by (simp add: pump_fires_def Let_def)
  qed
  moreover have "in_taken (flush_fires en ?s) = in_taken ?s" for en
    using taken_kept(1) [OF flows_carries [OF flush_buffer_carries [of "clear_flush ?s" en]]] by (simp add: flush_fires_def Let_def clear_flush_def)
  moreover have "in_taken (snd (flush_pending en ?s)) = in_taken ?s" "in_taken (expiry_fires en ?s) = in_taken ?s" for en
    by (rule taken_kept(1) [OF flush_pending_flows], rule taken_kept(1) [OF expiry_fires_flows])
  ultimately show ?thesis using inv send_or_queue_spec [OF inv] handle_data_spec [OF inv]
    by (simp add: in_inv_def in_whole_def in_line_def split: in_event.split)
qed

text \<open>
  C24. User input is sent only when the terminal takes it: every payload that was sent found a committed replay, an
  open socket and no resize under way, on the unified channel or with the current lease of its own; only what the
  emulator generates may leave over an open unified channel before that.
\<close>

theorem input_waits_for_ready:
  "list_all (\<lambda>x. case x of Sent gs p \<Rightarrow>
       if ip_generated p \<and> g_channel gs = UnifiedChannel then g_open gs
       else g_committed gs \<and> g_open gs \<and> \<not> g_ack_pending gs \<and> \<not> g_fence gs \<and> \<not> g_settling gs \<and> \<not> g_claim_pending gs
         \<and> \<not> g_backend_resize gs \<and> (if g_remote gs then g_remote_ready gs else True)
         \<and> (if g_channel gs = UnifiedChannel then True else g_channel gs = FastChannel \<and> g_current_lease gs = Some (g_lease gs) \<and> \<not> g_lease_closing gs)
     | _ \<Rightarrow> True) (in_outs (in_run g es))"
proof -
  have "list_all out_good (in_outs (in_run g es))" using in_run_inv [of g es] by (simp add: in_inv_def)
  then show ?thesis by (rule list.pred_mono_strong) (auto simp: out_good_def gates_ready_def split: in_out.splits)
qed

text \<open>
  C23. Input is never stranded: while the session is open, input that is queued or pending has a pump scheduled, and
  input that is only buffered has the pump or the flush timer.
\<close>

theorem input_never_stranded:
  "case in_run g es of s \<Rightarrow> if in_closed s \<or> in_disposed s \<or> in_empty s then True
     else (case in_pump_timer s of Some delay \<Rightarrow> True | None \<Rightarrow> in_flush_timer s \<and> in_queue s = [] \<and> in_pending s = [])"
  using in_run_inv [of g es] by (auto simp: in_inv_def in_armed_def tail_armed_def in_empty_def split: option.split)

text \<open>The queue and the pending list keep within their limits, and their sizes are the bytes of what they hold.\<close>

theorem input_stores_bounded:
  "case in_run g es of s \<Rightarrow> in_queue_size s \<le> 16 * 1024 * 1024 \<and> in_pending_size s \<le> 8 * 1024 * 1024
     \<and> in_queue_size s = sum_list (map (\<lambda>i. utf8_len (ii_data i)) (in_queue s)) \<and> in_pending_size s = sum_list (map utf8_len (in_pending s))"
proof -
  have q: "queue_good (in_run g es)" "pending_good (in_run g es)" using in_run_inv [of g es] by (simp_all add: in_inv_def)
  then have "sum_list (map ii_bytes (in_queue (in_run g es))) = sum_list (map (\<lambda>i. utf8_len (ii_data i)) (in_queue (in_run g es)))"
    by (intro arg_cong [of _ _ sum_list] map_cong refl) (simp add: queue_good_def item_good_def list_all_iff)
  then show ?thesis using q by (simp add: queue_good_def pending_good_def queue_limit_def pending_limit_def)
qed

subsection \<open>Accepted input is delivered\<close>

text \<open>An environment in which the connection is healthy, takes every payload and has room.\<close>

definition calm_env :: "in_env \<Rightarrow> in_env" where
  "calm_env en = en\<lparr>ie_health := \<lambda>n force hidden g. (True, g), ie_send := \<lambda>n d gen. True, ie_buffered := \<lambda>n. 0\<rparr>"

definition unhindered :: "in_env \<Rightarrow> inp \<Rightarrow> bool" where
  "unhindered en s = (input_ready s \<and> in_suppressed_until s \<le> ie_now en \<and> (0 < in_depth s \<longrightarrow> in_allow s))"

text \<open>The timer that is due fires: the pump, or the flush of the buffer.\<close>

definition input_turn :: "in_env \<Rightarrow> inp \<Rightarrow> inp" where
  "input_turn en s = (if in_pump_timer s \<noteq> None then pump_fires en s else flush_fires en s)"

lemma unhindered_frame: "\<lbrakk>in_frame t = in_frame s; in_gates t = in_gates s\<rbrakk> \<Longrightarrow> unhindered en t = unhindered en s"
  by (simp add: unhindered_def input_ready_def in_frame_def)

lemma calm_health [simp]: "ask_health (calm_env en) f h s = (True, s\<lparr>in_asked := Suc (in_asked s)\<rparr>)"
  by (simp add: ask_health_def calm_env_def)

lemma calm_chunk:
  "\<lbrakk>input_ready s; d \<noteq> []\<rbrakk> \<Longrightarrow> send_chunk (calm_env en) d gen s
     = (True, in_log (Sent (in_gates s) (make_payload (calm_env en) d gen)) (s\<lparr>in_asked := Suc (in_asked s)\<rparr>))"
  by (simp add: send_chunk_def calm_env_def)

lemma calm_suppress: "unhindered en s \<Longrightarrow> \<not> should_suppress (calm_env en) d s"
  by (auto simp: unhindered_def should_suppress_def calm_env_def Let_def)

lemma calm_flush_gates: "in_gates (flush_buffer (calm_env en) s) = in_gates s"
proof (cases "in_disposed s \<or> in_buffer s = [] \<or> \<not> input_ready (clear_flush s)")
  case True
  then show ?thesis by (auto simp: flush_buffer_def clear_flush_def)
next
  case False
  let ?e = "(clear_flush s)\<lparr>in_asked := Suc (in_asked s), in_buffer := [], in_buffer_size := 0\<rparr>"
  have "send_chunk (calm_env en) (in_buffer s) False ?e
     = (True, in_log (Sent (in_gates ?e) (make_payload (calm_env en) (in_buffer s) False)) (?e\<lparr>in_asked := Suc (in_asked ?e)\<rparr>))"
    by (rule calm_chunk) (use False in \<open>auto simp: input_ready_def\<close>)
  with False show ?thesis by (simp add: flush_buffer_def Let_def clear_flush_def in_log_def)
qed

lemma calm_flush_sends:
  assumes "input_ready s" "in_buffer s \<noteq> []"
  shows "sent_units (in_outs (flush_buffer (calm_env en) s)) = sent_units (in_outs s) @ in_buffer s" "in_buffer (flush_buffer (calm_env en) s) = []"
proof -
  let ?e = "(clear_flush s)\<lparr>in_asked := Suc (in_asked s), in_buffer := [], in_buffer_size := 0\<rparr>"
  have r: "\<not> in_disposed s" "input_ready (clear_flush s)" using assms(1) by (simp_all add: input_ready_def clear_flush_def)
  have "send_chunk (calm_env en) (in_buffer s) False ?e
     = (True, in_log (Sent (in_gates ?e) (make_payload (calm_env en) (in_buffer s) False)) (?e\<lparr>in_asked := Suc (in_asked ?e)\<rparr>))"
    by (rule calm_chunk) (use assms in \<open>auto simp: input_ready_def clear_flush_def\<close>)
  with r assms(2) show "sent_units (in_outs (flush_buffer (calm_env en) s)) = sent_units (in_outs s) @ in_buffer s"
    "in_buffer (flush_buffer (calm_env en) s) = []"
    by (simp_all add: flush_buffer_def Let_def clear_flush_def in_log_def)
qed

lemma queue_items_exceeds: "queue_items gen (Some m) n cs = (its, b, True) \<Longrightarrow> m < n + sum_list (map utf8_len cs)"
proof (induction cs arbitrary: n its b)
  case (Cons c cs)
  obtain its' b' ex' where r: "queue_items gen (Some m) (n + utf8_len c) cs = (its', b', ex')"
    by (cases "queue_items gen (Some m) (n + utf8_len c) cs") auto
  show ?case using Cons.prems Cons.IH [of "n + utf8_len c" its' b'] r by (auto simp: Let_def split: if_splits)
qed simp

lemma built_exceeds:
  assumes "build_input_items (Num (Fin (of_nat chunk_units))) False (Some m) d = (its, b, True)"
  shows "m < utf8_len d"
  using queue_items_exceeds [of False m 0 "input_chunks chunk_units d" its b] assms input_chunks_bytes [of chunk_units d]
  by (simp add: build_input_items_def split_input_def chunk_size) (simp add: chunk_units_def)

lemma calm_enqueue:
  assumes r: "enqueue_input d False False s = (ok, t)" and "\<not> in_disposed s" "d \<noteq> []" "utf8_len d \<le> queue_limit" "queue_good s"
  shows "in_gates t = in_gates s" "\<not> ok \<Longrightarrow> in_queue t \<noteq> []"
proof -
  show "in_gates t = in_gates s" using r by (auto simp: enqueue_input_def in_log_def split: prod.splits if_splits)
  assume no: "\<not> ok"
  obtain its b ex where i: "build_input_items (Num (Fin (of_nat chunk_units))) False (Some (queue_limit - in_queue_size s)) d = (its, b, ex)"
    by (metis prod_cases3)
  then have ex: "ex" "in_queue t = in_queue s" using r no assms by (auto simp: enqueue_input_def in_log_def split: if_splits)
  have "queue_limit - in_queue_size s < utf8_len d" using built_exceeds i ex by simp
  then have "0 < in_queue_size s" using assms(4) by simp
  then show "in_queue t \<noteq> []" using assms(5) ex(2) by (auto simp: queue_good_def)
qed

lemma calm_send:
  assumes r: "send_input (calm_env en) d imm False s = (ok, t)" and u: "unhindered en s" and "d \<noteq> []" "utf8_len d \<le> queue_limit" "queue_good s"
  shows "in_gates t = in_gates s" "\<not> ok \<Longrightarrow> in_queue t \<noteq> []"
proof -
  let ?s = "s\<lparr>in_asked := Suc (in_asked s)\<rparr>"
  let ?s1 = "if buffer_limit < in_buffer_size ?s + utf8_len d then flush_buffer (calm_env en) ?s else ?s"
  have ready: "input_ready s" using u by (simp add: unhindered_def)
  have nd: "\<not> in_disposed s" using ready by (simp add: input_ready_def)
  have "unhindered en ?s" using u by (simp add: unhindered_def input_ready_def)
  then have e: "send_input (calm_env en) d imm False s =
      (if chunk_units < length d \<or> in_queue ?s \<noteq> [] then enqueue_input d False False ?s
       else if buffer_limit < utf8_len d then enqueue_input d False False ?s1 else (True, buffer_input (calm_env en) d imm ?s1))"
    using assms(3) ready nd by (simp add: send_input_def calm_suppress Let_def)
  have q: "queue_good ?s" using assms(5) by (simp add: queue_good_def)
  have c: "carries [] ?s ?s1" using flush_buffer_carries by (simp add: carries_refl)
  have s1: "in_gates ?s1 = in_gates s" "queue_good ?s1" "\<not> in_disposed ?s1"
    using c q nd by (simp_all add: calm_flush_gates) (auto simp: carries_def in_frame_def split: if_splits)
  have b: "in_gates (buffer_input (calm_env en) d imm ?s1) = in_gates s"
    using s1(1) by (simp add: buffer_input_def Let_def calm_flush_gates schedule_input_flush_def)
  have nd': "\<not> in_disposed ?s" using nd by simp
  note one = calm_enqueue [OF _ nd' assms(3,4) q, of ok t] and two = calm_enqueue [OF _ s1(3) assms(3,4) s1(2), of ok t]
  show "in_gates t = in_gates s" using r b s1(1) one(1) two(1) unfolding e by (auto split: if_splits)
  show "\<not> ok \<Longrightarrow> in_queue t \<noteq> []" using r one(2) two(2) unfolding e by (auto split: if_splits)
qed

lemma calm_loop:
  "\<lbrakk>flush_loop (calm_env en) ds s = (ok, t); in_pending s = ds; unhindered en s; queue_good s; pending_good s\<rbrakk>
   \<Longrightarrow> in_gates t = in_gates s \<and> (\<not> ok \<longrightarrow> in_queue t \<noteq> [])"
proof (induction ds arbitrary: s)
  case (Cons d ds)
  obtain sent s1 where s1: "send_input (calm_env en) d False False s = (sent, s1)" by force
  note c = send_input_carries [OF s1]
  have d: "d \<noteq> []" "utf8_len d \<le> queue_limit" using Cons.prems by (simp_all add: pending_good_def pending_limit_def queue_limit_def)
  note k = calm_send [OF s1 Cons.prems(3) d Cons.prems(4)]
  show ?case
  proof (cases sent)
    case False
    then show ?thesis using Cons.prems(1) s1 k by auto
  next
    case True
    let ?u = "s1\<lparr>in_pending := ds, in_pending_size := in_pending_size s1 - utf8_len d\<rparr>"
    have cd: "carries d s s1" using c(1) True by simp
    have "unhindered en ?u"
      using Cons.prems(3) unhindered_frame [of ?u s en] cd k(1) by (simp add: carries_def in_frame_def)
    moreover have "queue_good ?u" using cd Cons.prems(4) by (simp add: carries_def queue_good_def)
    moreover have "pending_good ?u" using Cons.prems(2,5) carriesD(6,7) [OF cd] by (simp add: pending_good_def)
    ultimately show ?thesis using Cons.IH [of ?u] Cons.prems(1) s1 True k(1) by simp
  qed
qed auto

lemma calm_pending:
  assumes "unhindered en s" "queue_good s" "pending_good s"
  shows "in_gates (snd (flush_pending (calm_env en) s)) = in_gates s"
    "in_pending (snd (flush_pending (calm_env en) s)) = [] \<or> in_queue (snd (flush_pending (calm_env en) s)) \<noteq> []"
proof -
  let ?s = "s\<lparr>in_asked := Suc (in_asked s)\<rparr>"
  obtain ok t where l: "flush_loop (calm_env en) (in_pending ?s) ?s = (ok, t)" by force
  have r: "input_ready s" "\<not> in_disposed s" using assms(1) by (simp_all add: unhindered_def input_ready_def)
  have u: "unhindered en ?s" "queue_good ?s" "pending_good ?s" using assms by (simp_all add: unhindered_def input_ready_def queue_good_def pending_good_def)
  note k = calm_loop [OF l refl u] and f = flush_loop_flows [OF l refl]
  let ?t = "schedule_pump 0 (flush_buffer (calm_env en) (clear_expiry t))"
  have e: "snd (flush_pending (calm_env en) s) = (if ok then ?t else t)" using r l by (simp add: flush_pending_def)
  have c: "in_gates (clear_expiry t) = in_gates t" "in_pending (clear_expiry t) = in_pending t" by (simp_all add: clear_expiry_def)
  have "in_pending (flush_buffer (calm_env en) (clear_expiry t)) = in_pending t"
    using carriesD(6) [OF flush_buffer_carries] c(2) by metis
  then have "in_gates ?t = in_gates t" "in_pending ?t = in_pending t" using c by (simp_all add: calm_flush_gates)
  then show "in_gates (snd (flush_pending (calm_env en) s)) = in_gates s"
    "in_pending (snd (flush_pending (calm_env en) s)) = [] \<or> in_queue (snd (flush_pending (calm_env en) s)) \<noteq> []"
    using k f unfolding e by auto
qed

lemma sent_units_append: "sent_units (os @ qs) = sent_units os @ sent_units qs"
  by (simp add: sent_units_def)

lemma outs_extend_length: "outs_extend os ps \<Longrightarrow> length (sent_units os) \<le> length (sent_units ps)"
  by (auto simp: outs_extend_def sent_units_append)

lemma calm_pump_gates: "in_gates (snd (pump_loop (calm_env en) n s)) = in_gates s"
proof (induction n arbitrary: s)
  case (Suc n)
  show ?case
  proof (cases "in_queue s")
    case (Cons item rest)
    let ?u = "s\<lparr>in_asked := Suc (in_asked s), in_queue := rest, in_queue_size := in_queue_size s - ii_bytes item\<rparr>"
    obtain sent t where t: "send_chunk (calm_env en) (ii_data item) (ii_generated item) ?u = (sent, t)" by force
    have "in_gates t = in_gates s" by (subst conjunct1 [OF send_chunk_cases [OF t]]) simp
    then show ?thesis using Suc.IH [of t] Cons t by simp
  qed simp
qed simp

lemma calm_loop_sends:
  assumes "in_pumping s" "queue_good s" "in_buffer s = []" "input_ready s" "in_queue s = item # rest"
  shows "length (sent_units (in_outs s)) < length (sent_units (in_outs (snd (pump_loop (calm_env en) pump_budget s))))"
proof -
  let ?u = "s\<lparr>in_asked := Suc (in_asked s), in_queue := rest, in_queue_size := in_queue_size s - ii_bytes item\<rparr>"
  let ?t = "in_log (Sent (in_gates s) (make_payload (calm_env en) (ii_data item) False)) (?u\<lparr>in_asked := Suc (in_asked ?u)\<rparr>)"
  have g: "ii_data item \<noteq> []" "\<not> ii_generated item" using assms(2,5) by (simp_all add: queue_good_def item_good_def)
  have "input_ready ?u" using assms(4) by (simp add: input_ready_def)
  from calm_chunk [OF this g(1), of en False]
  moreover have "ie_buffered (calm_env en) k = 0" for k by (simp add: calm_env_def)
  ultimately have e: "pump_loop (calm_env en) (Suc m) s = pump_loop (calm_env en) m ?t" for m using assms(4,5) g(2) by simp
  have t: "in_pumping ?t" "queue_good ?t" "in_buffer ?t = []" using assms by (simp_all add: in_log_def queue_good_def)
  have "length (sent_units (in_outs ?t)) \<le> length (sent_units (in_outs (snd (pump_loop (calm_env en) 3 ?t))))"
    using pump_loop_flows [OF t, of "calm_env en" 3] by (intro outs_extend_length) (simp add: flows_def)
  moreover have "length (sent_units (in_outs s)) < length (sent_units (in_outs ?t))" using g(1) by (simp add: in_log_def)
  moreover have "pump_budget = Suc 3" by (simp add: pump_budget_def)
  ultimately show ?thesis using e [of 3] by (simp only:)
qed

lemma pump_loop_Nil: "\<lbrakk>in_queue s = []; 0 < n\<rbrakk> \<Longrightarrow> pump_loop en n s = (backpressure_delay, s)"
  by (cases n) simp_all

lemma calm_turn:
  assumes p: "in_pumping s" and q: "queue_good s" "pending_good s" and u: "unhindered en s" and n: "\<not> in_empty s"
  shows "in_gates (snd (pump_turn (calm_env en) s)) = in_gates s"
    "length (sent_units (in_outs s)) < length (sent_units (in_outs (snd (pump_turn (calm_env en) s))))"
proof -
  let ?e = "calm_env en"
  obtain s1 where s1: "s1 = (if in_pending s \<noteq> [] then snd (flush_pending ?e s) else s)" by blast
  let ?s2 = "flush_buffer ?e s1"
  have f1: "flows s s1" by (simp add: s1 flows_refl flush_pending_flows)
  have g1: "in_gates s1 = in_gates s" using calm_pending(1) [OF u q] by (simp add: s1)
  have e1: "in_pending s1 = [] \<or> in_queue s1 \<noteq> []" using calm_pending(2) [OF u q] by (simp add: s1)
  have fr1: "in_frame s1 = in_frame s" "in_whole s1 = in_whole s" "queue_good s1" "outs_extend (in_outs s) (in_outs s1)"
    using f1 q(1) by (simp_all add: flows_def)
  have "unhindered en s1" using unhindered_frame [OF fr1(1) g1, of en] u by (rule iffD2)
  then have r1: "input_ready s1" "in_pumping s1" using p fr1(1) by (simp_all only: unhindered_def in_frame_def prod.inject)
  have f2: "carries [] s1 ?s2" by (rule flush_buffer_carries)
  have g2: "in_gates ?s2 = in_gates s1" by (rule calm_flush_gates)
  have fr2: "in_pumping ?s2" "queue_good ?s2" using f2 r1(2) fr1(3) by (simp_all only: carries_def in_frame_def prod.inject)
  note len1 = outs_extend_length [OF fr1(4)]
  have both: "in_gates (snd (pump_turn ?e s)) = in_gates s
     \<and> length (sent_units (in_outs s)) < length (sent_units (in_outs (snd (pump_turn ?e s))))"
  proof (cases "in_buffer s1 = []")
    case True
    have t: "pump_turn ?e s = pump_loop ?e pump_budget s1" using True by (simp add: pump_turn_def s1 [symmetric])
    show ?thesis
    proof (cases "in_queue s1")
      case Nil
      then have "in_pending s1 = []" using e1 by simp
      then have "in_whole s1 = sent_units (in_outs s1)" using True Nil by (simp add: in_whole_def in_line_def)
      moreover have "length (sent_units (in_outs s)) < length (in_whole s)"
        using n q by (auto simp: in_whole_def in_line_def in_empty_def queue_good_def pending_good_def item_good_def neq_Nil_conv)
      ultimately have "length (sent_units (in_outs s)) < length (sent_units (in_outs s1))" using fr1(2) by metis
      moreover have "pump_loop ?e pump_budget s1 = (backpressure_delay, s1)" using Nil by (rule pump_loop_Nil) (simp add: pump_budget_def)
      ultimately show ?thesis unfolding t using g1 by simp
    next
      case (Cons item rest)
      show ?thesis unfolding t using calm_loop_sends [OF r1(2) fr1(3) True r1(1) Cons, of en] len1 calm_pump_gates [of en pump_budget s1] g1
        by simp
    qed
  next
    case False
    note b = calm_flush_sends [OF r1(1) False, of en]
    have t: "pump_turn ?e s = pump_loop ?e pump_budget ?s2" using False b(2) by (simp add: pump_turn_def s1 [symmetric])
    have "outs_extend (in_outs ?s2) (in_outs (snd (pump_loop ?e pump_budget ?s2)))"
      using pump_loop_flows [OF fr2 b(2), of ?e pump_budget] by (simp only: flows_def)
    then have "length (sent_units (in_outs ?s2)) \<le> length (sent_units (in_outs (snd (pump_loop ?e pump_budget ?s2))))" by (rule outs_extend_length)
    moreover have "length (sent_units (in_outs s1)) < length (sent_units (in_outs ?s2))" using b(1) False by simp
    ultimately show ?thesis unfolding t using len1 calm_pump_gates [of en pump_budget ?s2] g1 g2 by simp
  qed
  then show "in_gates (snd (pump_turn ?e s)) = in_gates s"
    "length (sent_units (in_outs s)) < length (sent_units (in_outs (snd (pump_turn ?e s))))" by simp_all
qed

lemma calm_input_turn:
  assumes inv: "in_inv s" and u: "unhindered en s" and n: "\<not> in_empty s"
  shows "in_inv (input_turn (calm_env en) s)" "unhindered en (input_turn (calm_env en) s)" "in_taken (input_turn (calm_env en) s) = in_taken s"
    "length (sent_units (in_outs s)) < length (sent_units (in_outs (input_turn (calm_env en) s)))"
proof -
  let ?e = "calm_env en" let ?t = "input_turn ?e s"
  have o: "\<not> in_closed s" "\<not> in_disposed s" "\<not> in_exit s" "\<not> in_pumping s" using u inv by (simp_all add: unhindered_def input_ready_def in_inv_def)
  have both: "in_frame ?t = in_frame s \<and> in_gates ?t = in_gates s \<and> length (sent_units (in_outs s)) < length (sent_units (in_outs ?t))"
  proof (cases "in_pump_timer s = None")
    case True
    have b: "in_flush_timer s" "in_buffer s \<noteq> []" using inv o n True by (auto simp: in_inv_def in_armed_def tail_armed_def in_empty_def)
    have e: "?t = flush_buffer ?e s" using True b o by (simp add: input_turn_def flush_fires_def flush_buffer_def clear_flush_def)
    have "input_ready s" using u by (simp add: unhindered_def)
    note k = calm_flush_sends [OF this b(2), of en]
    show ?thesis unfolding e using k(1) b(2) calm_flush_gates flush_buffer_carries [of s ?e] by (simp add: carries_def)
  next
    case False
    let ?s = "s\<lparr>in_pump_timer := None, in_pumping := True\<rparr>"
    have s: "in_pumping ?s" "queue_good ?s" "pending_good ?s" "unhindered en ?s" "\<not> in_empty ?s"
      using inv u n by (simp_all add: in_inv_def queue_good_def pending_good_def unhindered_def input_ready_def in_empty_def)
    obtain d t where t: "pump_turn ?e ?s = (d, t)" by force
    note k = calm_turn [OF s]
    have "in_frame t = in_frame ?s" using pump_turn_flows [OF s(1,2), of ?e] t by (simp add: flows_def)
    moreover have "?t = schedule_pump d (t\<lparr>in_pumping := False\<rparr>)" using False o t by (auto simp: input_turn_def pump_fires_def pump_input_def Let_def)
    ultimately show ?thesis using k t o(4) by (auto simp: in_frame_def)
  qed
  show "in_inv ?t" using inv flush_fires_inv pump_fires_inv by (simp add: input_turn_def)
  show "unhindered en ?t" using unhindered_frame [of ?t s en] both u by simp
  show "in_taken ?t = in_taken s" using both by (simp add: in_frame_def)
  show "length (sent_units (in_outs s)) < length (sent_units (in_outs ?t))" using both by simp
qed

lemma calm_delivers:
  "\<lbrakk>in_inv s; unhindered en s\<rbrakk> \<Longrightarrow> \<exists>k \<le> length (in_taken s) - length (sent_units (in_outs s)).
     in_empty ((input_turn (calm_env en) ^^ k) s) \<and> sent_units (in_outs ((input_turn (calm_env en) ^^ k) s)) = in_taken s"
proof (induction "length (in_taken s) - length (sent_units (in_outs s))" arbitrary: s rule: less_induct)
  case less
  have w: "in_whole s = in_taken s" using less.prems(1) by (simp add: in_inv_def)
  show ?case
  proof (cases "in_empty s")
    case True
    then have "sent_units (in_outs s) = in_taken s" using w by (simp add: in_empty_def in_whole_def in_line_def)
    then show ?thesis using True by (intro exI [of _ 0]) simp
  next
    case False
    let ?t = "input_turn (calm_env en) s"
    note k = calm_input_turn [OF less.prems False]
    have "length (sent_units (in_outs ?t)) \<le> length (in_taken ?t)"
      using k(1) by (metis in_inv_def in_whole_def in_line_def append.assoc length_append le_add1)
    then have lt: "length (in_taken ?t) - length (sent_units (in_outs ?t)) < length (in_taken s) - length (sent_units (in_outs s))"
      using k(3,4) by simp
    obtain j where j: "j \<le> length (in_taken ?t) - length (sent_units (in_outs ?t))" "in_empty ((input_turn (calm_env en) ^^ j) ?t)"
      "sent_units (in_outs ((input_turn (calm_env en) ^^ j) ?t)) = in_taken ?t"
      using less.hyps [OF lt k(1,2)] by blast
    have "(input_turn (calm_env en) ^^ Suc j) s = (input_turn (calm_env en) ^^ j) ?t" by (simp add: funpow_swap1)
    then show ?thesis using j lt k(3) by (intro exI [of _ "Suc j"]) (simp del: funpow.simps)
  qed
qed

text \<open>
  C22. Accepted input is delivered: once nothing hinders it, and while the connection stays healthy and takes what it is
  given, firing the timer that is due empties every store, and then exactly the accepted input has been sent.
\<close>

theorem accepted_input_is_delivered:
  "case in_run g es of s \<Rightarrow> if unhindered en s then
     \<exists>k \<le> length (in_taken s) - length (sent_units (in_outs s)).
       in_empty ((input_turn (calm_env en) ^^ k) s) \<and> sent_units (in_outs ((input_turn (calm_env en) ^^ k) s)) = in_taken s
   else True"
  using calm_delivers [OF in_run_inv] by simp

subsection \<open>What the emulator answers\<close>


text \<open>A run of cursor position reports, as the emulator writes them, is recognised; so is what is left of one after its first byte.\<close>

definition number_text :: "nat \<Rightarrow> units" where
  "number_text n = map (\<lambda>c. of_char c) (nat_text n)"

definition position_report :: "nat \<Rightarrow> nat \<Rightarrow> units" where
  "position_report row col = [27, 91] @ number_text row @ [59] @ number_text col @ [82]"

definition digits_ok :: "units \<Rightarrow> bool" where
  "digits_ok ds = (list_all digit_unit ds \<and> ds \<noteq> [] \<and> length ds \<le> 4)"

lemma nat_text_length: "n < 10 ^ Suc k \<Longrightarrow> length (nat_text n) \<le> Suc k"
proof (induction k arbitrary: n)
  case 0
  then show ?case by (simp add: nat_text.simps [of n])
next
  case (Suc k)
  show ?case
  proof (cases "n < 10")
    case True
    then show ?thesis by (simp add: nat_text.simps [of n])
  next
    case False
    have "n div 10 < 10 ^ Suc k" using Suc.prems by (simp add: less_mult_imp_div_less)
    from Suc.IH [OF this] False show ?thesis by (simp add: nat_text.simps [of n])
  qed
qed

lemma number_digits: "n < 10000 \<Longrightarrow> digits_ok (number_text n)"
  using nat_text_length [of n 3] all_digits_text [of n]
  by (auto simp: digits_ok_def number_text_def all_digits_def list_all_iff is_digit_def digit_unit_def)

lemma digits_then_ok: "\<lbrakk>digits_ok ds; \<not> digit_unit u\<rbrakk> \<Longrightarrow> digits_then (ds @ u # r) = Some (u, r)"
proof -
  assume d: "digits_ok ds" and u: "\<not> digit_unit u"
  have "takeWhile digit_unit (ds @ u # r) = ds" "dropWhile digit_unit (ds @ u # r) = u # r"
    using d u by (simp_all add: digits_ok_def list_all_iff takeWhile_append2 dropWhile_append2)
  then show ?thesis using d by (cases ds) (simp_all add: digits_then_def digits_ok_def)
qed

lemma report_ok: "\<lbrakk>digits_ok ds; digits_ok es\<rbrakk> \<Longrightarrow> report_rest (ds @ 59 # es @ 82 # r) = Some r" "digits_ok es \<Longrightarrow> report_end (es @ 82 # r) = Some r"
  "digits_ok es \<Longrightarrow> report_rest (es @ 82 # r) = Some r"
  by (simp_all add: report_rest_def report_end_def digits_then_ok digit_unit_def)

lemma generated_report: "\<lbrakk>digits_ok ds; digits_ok es\<rbrakk> \<Longrightarrow> generated_rest (27 # 91 # ds @ 59 # es @ 82 # r) = Some r"
  by (simp add: generated_rest_def report_ok)

lemma reports_repeat:
  "list_all (\<lambda>(row, col). row < 10000 \<and> col < 10000) ps \<Longrightarrow> repeated generated_rest (concat (map (\<lambda>(row, col). position_report row col) ps))"
proof (induction ps)
  case (Cons p ps)
  obtain row col where p: "p = (row, col)" by (cases p)
  show ?case using Cons number_digits [of row] number_digits [of col]
    by (subst repeated.simps) (simp add: p position_report_def [of row col] generated_report)
qed (simp add: repeated.simps)

lemma digits_ok_drop: "\<lbrakk>digits_ok ds; j < length ds\<rbrakk> \<Longrightarrow> digits_ok (drop j ds)"
  by (auto simp: digits_ok_def list_all_iff dest: in_set_dropD)

lemma tail_digits: "digits_ok ds \<Longrightarrow> tail_rest (ds @ r) = report_rest (ds @ r)"
  by (cases ds) (auto simp: tail_rest_def digits_ok_def digit_unit_def)

lemma tail_once: "\<lbrakk>t \<noteq> []; tail_rest t = Some []\<rbrakk> \<Longrightarrow> is_generated_tail t"
  by (simp add: is_generated_tail_def repeated.simps [of _ t] repeated.simps [of _ "[]"])

lemma report_tail:
  assumes d: "digits_ok ds" and e: "digits_ok es" and k: "k < Suc (Suc (length ds + length es))"
  shows "is_generated_tail (drop k (91 # ds @ 59 # es @ [82]))"
proof (cases k)
  case 0
  then show ?thesis using report_ok(1) [OF d e, of "[]"] by (intro tail_once) (simp_all add: tail_rest_def)
next
  case (Suc j)
  consider "j < length ds" | "j = length ds" | i where "j = Suc (length ds + i)" "i < length es" using k Suc
    by (metis Suc_less_eq add_Suc_right less_Suc_eq linorder_neqE_nat nat_add_left_cancel_less less_imp_Suc_add)
  then show ?thesis
  proof cases
    case 1
    note f = digits_ok_drop [OF d 1]
    show ?thesis using Suc 1 report_ok(1) [OF f e, of "[]"] tail_digits [OF f] by (intro tail_once) simp_all
  next
    case 2
    then show ?thesis using Suc report_ok(2) [OF e, of "[]"] by (intro tail_once) (simp_all add: tail_rest_def)
  next
    case 3
    note f = digits_ok_drop [OF e 3(2)]
    show ?thesis using Suc 3 report_ok(3) [OF f, of "[]"] tail_digits [OF f] by (intro tail_once) simp_all
  qed
qed

theorem position_reports_recognised:
  "(if list_all (\<lambda>(row, col). row < 10000 \<and> col < 10000) ((row, col) # ps)
    then is_generated_response kitty (concat (map (\<lambda>(row, col). position_report row col) ((row, col) # ps))) else True)
   \<and> (if row < 10000 \<and> col < 10000 \<and> k + 2 < length (position_report row col)
      then is_generated_tail (drop (Suc k) (position_report row col)) else True)"
  using reports_repeat [of "(row, col) # ps"] report_tail [OF number_digits number_digits, of row col k]
  by (auto simp: is_generated_response_def position_report_def [of row col])

text \<open>Two characters typed during a replay are sent once it is committed.\<close>

definition sample_gates :: "bool \<Rightarrow> gates" where
  "sample_gates committed = \<lparr>g_committed = committed, g_open = True, g_ack_pending = False, g_fence = False, g_settling = False,
     g_claim_pending = False, g_remote = False, g_remote_ready = False, g_backend_resize = False, g_channel = UnifiedChannel,
     g_generation = 1, g_lease = 0, g_lease_closing = False, g_current_lease = None, g_size_claimed = True, g_claim_required = False\<rparr>"

definition sample_in_env :: in_env where
  "sample_in_env = \<lparr>ie_health = \<lambda>n force hidden g. (True, g), ie_send = \<lambda>n d gen. True, ie_buffered = \<lambda>n. 0, ie_claim = \<lambda>g. g,
     ie_connect = \<lambda>g. g, ie_reassert = \<lambda>g. g, ie_size = (80, 24, 0, 0), ie_epoch = [], ie_unsettled = False, ie_kitty = \<lambda>d. False, ie_now = 1\<rparr>"

abbreviation sample_input :: inp where
  "sample_input \<equiv> in_run (sample_gates False) [InSend sample_in_env [104, 105] True False, InGates (sample_gates True)]"

lemma sample_chunks: "input_chunks chunk_units [104, 105] = [[104, 105]]"
proof -
  have "slice_end chunk_units [104, 105] = 2" by (simp add: slice_end_def chunk_units_def)
  then show ?thesis by (simp add: input_chunks.simps [of chunk_units "[104, 105]"] input_chunks.simps [of chunk_units "[]"])
qed

lemma sample_queued: "in_taken sample_input = [104, 105]" "in_pending sample_input = [[104, 105]]" "in_outs sample_input \<noteq> []"
    "sent_units (in_outs sample_input) = []" "unhindered sample_in_env sample_input"
  by (simp_all add: sample_in_env_def sample_gates_def in_start_def send_or_queue_def should_suppress_def Let_def prepare_user_input_def in_log_def
      send_directly_def input_ready_def gates_ready_def enqueue_pending_def build_input_items_def split_input_def chunk_size sample_chunks
      pending_limit_def utf8_len_of_code_point_def taking_def schedule_expiry_def current_expiry_lease_def schedule_pump_def in_empty_def
      ask_health_def line_end_def sent_units_def unhindered_def)

theorem accepted_input_is_delivered_witness:
  "\<exists>k \<le> 2. in_empty ((input_turn (calm_env sample_in_env) ^^ k) sample_input)
     \<and> sent_units (in_outs ((input_turn (calm_env sample_in_env) ^^ k) sample_input)) = [104, 105]"
  using accepted_input_is_delivered [where g = "sample_gates False" and en = sample_in_env
      and es = "[InSend sample_in_env [104, 105] True False, InGates (sample_gates True)]"]
    sample_queued by (simp add: numeral_2_eq_2 del: foldl.simps funpow.simps)

end
