(* ===== verification/Transport_Runtime.thy ===== *)
theory Transport_Runtime
  imports Unified_Membership Runtime_Timers Layout_Tree
begin

section \<open>The transport runtime: which panes are connected, and when\<close>

text \<open>
  Model of \<open>terminal/transport/transport_runtime_controller.js\<close> (under \<open>src/runtime/static\<close>) for the multiplexed
  transport. The runtime keeps the membership of the workspace's panes (theory Unified_Membership) and its timers
  (Runtime_Timers); a reconciliation detaches the panes that are no member and starts streams for members, the pane
  with the input first, then the visible ones, then at most two in the background at a time.

  A pane is an address in a heap. Starting a stream is the transport's and the session protocol's business: its
  result comes back as an event. Closing the socket of a pane calls the \<open>close\<close> listener of the session protocol at
  once, which is modelled here as far as it concerns the runtime. \<open>scheduleUnifiedPaneRetry\<close> names
  \<open>appendDebugWarning\<close>, which the module neither imports nor takes as an option: the call raises once the timer is set. So
  an operation returns what the code returns, or the exception.
\<close>

record pane =
  pn_id :: string
  pn_tab :: string
  pn_name :: string
  pn_closed :: bool
  pn_exit :: bool
  pn_retained :: bool
  pn_socket :: "nat option"
  pn_measured :: nat
  pn_initial :: "nat \<times> nat"
  pn_term :: "(nat \<times> nat) option"
  pn_interacted :: rat
  pn_remote :: bool
  pn_remote_ready :: bool
  pn_backend_resize :: bool
  pn_failed :: bool
  pn_unified :: bool
  pn_generation :: nat
  pn_stream :: string
  pn_wants :: bool
  pn_connecting :: bool
  pn_retrying :: bool
  pn_committed :: bool
  pn_paused :: bool
  pn_current :: bool
  pn_reason :: string
  pn_shown :: string
  pn_started :: rat
  pn_order :: nat

record page_tab =
  pt_id :: string
  pt_layout :: "layout option"
  pt_panes :: "(string \<times> nat) list"
  pt_active :: string

datatype rt_out = ConnectStarted nat nat string | AwaitPhysicalClose | RetryRecorded nat nat | ResizeAsked nat | TransportClosed string
  | PrioritySet string nat | StartFailed nat | WorkspaceRefreshed

record runtime =
  tr_panes :: "nat \<Rightarrow> pane"
  tr_tabs :: "page_tab list"
  tr_active_tab :: string
  tr_active_name :: string
  tr_membership :: um_state
  tr_timers :: timers
  tr_generation :: nat
  tr_refresh_pending :: bool
  tr_waiting_since :: rat
  tr_disposed :: bool
  tr_page_gone :: bool
  tr_online :: bool
  tr_applying :: bool
  tr_outs :: "rt_out list"

datatype physical = Absent bool | Preparing | Usable

record rt_env =
  re_now :: rat
  re_rect :: "nat \<Rightarrow> (rat \<times> rat \<times> rat \<times> rat) option"
  re_before :: "string \<Rightarrow> string \<Rightarrow> bool"
  re_ensure :: "string \<Rightarrow> physical"
  re_connection :: bool
  re_matches :: "string \<Rightarrow> bool"
  re_uuid :: "nat \<Rightarrow> string"
  re_shown :: string
  re_timers :: bool
  re_lost :: bool
  re_queued :: "nat \<Rightarrow> bool"

datatype rt_result = Returned bool | Raised

definition upd_pane :: "nat \<Rightarrow> (pane \<Rightarrow> pane) \<Rightarrow> runtime \<Rightarrow> runtime" where
  "upd_pane a f s = s\<lparr>tr_panes := (tr_panes s)(a := f (tr_panes s a))\<rparr>"

definition rt_tell :: "rt_out \<Rightarrow> runtime \<Rightarrow> runtime" where
  "rt_tell x s = s\<lparr>tr_outs := tr_outs s @ [x]\<rparr>"

definition rt_stopped :: "runtime \<Rightarrow> bool" where
  "rt_stopped s = (tr_disposed s \<or> tr_page_gone s)"

subsection \<open>Panes and their order\<close>

definition um_of :: "pane \<Rightarrow> um_pane" where
  "um_of p = \<lparr>up_id = Str (pn_id p), up_tabId = Str (pn_tab p), up_tabID = Undef, up_name = Str (pn_name p), up_closed = JBool (pn_closed p),
     up_exitExpected = JBool (pn_exit p), up_socket = (pn_socket p \<noteq> None), up_fitGeneration = Num (Fin (of_nat (pn_measured p))),
     up_initialCols = Num (Fin (of_nat (fst (pn_initial p)))), up_initialRows = Num (Fin (of_nat (snd (pn_initial p)))),
     up_term = map_option (\<lambda>(c, r). (Num (Fin (of_nat c)), Num (Fin (of_nat r)))) (pn_term p), up_lastInteraction = Num (Fin (pn_interacted p))\<rparr>"

definition has_known_size :: "pane \<Rightarrow> bool" where
  "has_known_size p = ((\<not> pn_remote p \<or> pn_remote_ready p \<and> \<not> pn_backend_resize p)
     \<and> (0 < pn_measured p \<or> 2 \<le> fst (pn_initial p) \<and> 1 \<le> snd (pn_initial p)
        \<or> (case pn_term p of None \<Rightarrow> False | Some (c, r) \<Rightarrow> 2 \<le> c \<and> 1 \<le> r)))"

definition layout_pane_order :: "layout option \<Rightarrow> string list" where
  "layout_pane_order l = filter (\<lambda>i. i \<noteq> []) (map js_trim (case l of None \<Rightarrow> [] | Some t \<Rightarrow> leaves t))"

definition rt_sessions :: "runtime \<Rightarrow> nat list" where
  "rt_sessions s = concat (map (\<lambda>t. map snd (pt_panes t)) (tr_tabs s))"

definition panes_for_workspace :: "runtime \<Rightarrow> nat list" where
  "panes_for_workspace s = filter (\<lambda>a. let p = tr_panes s a in
     \<not> pn_closed p \<and> (\<not> pn_exit p \<or> pn_socket p \<noteq> None) \<and> pn_name p = tr_active_name s) (rt_sessions s)"

text \<open>A stable sort, as \<open>Array.prototype.sort\<close> is, by a comparison that is an argument.\<close>

fun insert_by :: "('a \<Rightarrow> 'a \<Rightarrow> bool) \<Rightarrow> 'a \<Rightarrow> 'a list \<Rightarrow> 'a list" where
  "insert_by before x [] = [x]"
| "insert_by before x (y # ys) = (if before y x then y # insert_by before x ys else x # y # ys)"

definition sort_by :: "('a \<Rightarrow> 'a \<Rightarrow> bool) \<Rightarrow> 'a list \<Rightarrow> 'a list" where
  "sort_by before xs = foldr (insert_by before) xs []"

definition index_in :: "string \<Rightarrow> string list \<Rightarrow> nat option" where
  "index_in x xs = map_of (rev (zip xs [0..<length xs])) x"

definition rect_shown :: "rt_env \<Rightarrow> runtime \<Rightarrow> nat \<Rightarrow> bool" where
  "rect_shown en s a = (0 < pn_measured (tr_panes s a)
     \<and> (case re_rect en a of None \<Rightarrow> False | Some (y, x, width, height) \<Rightarrow> 0 < width \<and> 0 < height))"

definition seen_before :: "rt_env \<Rightarrow> runtime \<Rightarrow> string list \<Rightarrow> nat \<Rightarrow> nat \<Rightarrow> bool" where
  "seen_before en s order a b = (let pa = pn_id (tr_panes s a); pb = pn_id (tr_panes s b) in
     case (re_rect en a, re_rect en b) of
       (Some (ta, la, _, _), Some (tb, lb, _, _)) \<Rightarrow>
         if ta \<noteq> tb then ta < tb else if la \<noteq> lb then la < lb
         else (case (index_in pa order, index_in pb order) of
             (Some i, Some j) \<Rightarrow> if i \<noteq> j then i < j else re_before en pa pb
           | (Some i, None) \<Rightarrow> True | (None, Some j) \<Rightarrow> False
           | (None, None) \<Rightarrow> re_before en pa pb)
     | _ \<Rightarrow> False)"

definition number_panes :: "nat list \<Rightarrow> runtime \<Rightarrow> runtime" where
  "number_panes as s = foldl (\<lambda>t (i, a). upd_pane a (pn_order_update (\<lambda>_. Suc i)) t) s (zip [0..<length as] as)"

definition visual_order :: "rt_env \<Rightarrow> page_tab \<Rightarrow> nat list \<Rightarrow> runtime \<Rightarrow> (nat list \<times> bool) \<times> runtime" where
  "visual_order en tab as s = (if \<not> list_all (rect_shown en s) as then ((as, False), s)
     else let sorted = sort_by (seen_before en s (layout_pane_order (pt_layout tab))) as in ((sorted, sorted \<noteq> []), number_panes sorted s))"

text \<open>The panes of the tabs behind the active one, in the order of their layouts, each once.\<close>

definition take_pane :: "runtime \<Rightarrow> nat list \<Rightarrow> nat \<Rightarrow> nat list" where
  "take_pane s acc a = (let p = tr_panes s a in
     if pn_closed p \<or> pn_name p \<noteq> tr_active_name s \<or> pn_id p \<in> set (map (\<lambda>b. pn_id (tr_panes s b)) acc) then acc else acc @ [a])"

definition take_tab :: "runtime \<Rightarrow> nat list \<Rightarrow> page_tab \<Rightarrow> nat list" where
  "take_tab s acc t = foldl (take_pane s) (foldl (take_pane s) acc
     (concat (map (\<lambda>i. case map_of (pt_panes t) i of None \<Rightarrow> [] | Some a \<Rightarrow> [a]) (layout_pane_order (pt_layout t))))) (map snd (pt_panes t))"

definition active_tab_of :: "runtime \<Rightarrow> page_tab option" where
  "active_tab_of s = List.find (\<lambda>t. pt_id t = tr_active_tab s) (tr_tabs s)"

definition global_order :: "rt_env \<Rightarrow> runtime \<Rightarrow> (nat list \<times> bool) \<times> runtime" where
  "global_order en s = (case active_tab_of s of None \<Rightarrow> (([], False), s)
     | Some tab \<Rightarrow>
         let actives = filter (\<lambda>a. \<not> pn_closed (tr_panes s a) \<and> pn_name (tr_panes s a) = tr_active_name s) (map snd (pt_panes tab)) in
         case visual_order en tab actives s of ((ordered, ready), s1) \<Rightarrow>
           if \<not> ready then ((panes_for_workspace s, False), s1)
           else let all = foldl (take_tab s1) ordered (filter (\<lambda>t. pt_id t \<noteq> tr_active_tab s) (tr_tabs s1))
             in ((all, all \<noteq> []), number_panes all s1))"

subsection \<open>Detaching and retrying\<close>

definition network_reasons :: "string list" where
  "network_reasons = [''network'', ''websocket'', ''transport'', ''physical'', ''connection timed out'', ''connection reset'',
     ''connection aborted'', ''queue transport'', ''eof'']"

definition lower_text :: "string \<Rightarrow> string" where
  "lower_text t = map (\<lambda>c. if 65 \<le> (of_char c :: nat) \<and> (of_char c :: nat) \<le> 90 then char_of ((of_char c :: nat) + 32) else c) t"

definition contains_text :: "string \<Rightarrow> string \<Rightarrow> bool" where
  "contains_text t pat = list_ex (\<lambda>i. take (length pat) (drop i t) = pat) [0..<Suc (length t)]"

definition is_network_failure :: "string \<Rightarrow> bool" where
  "is_network_failure reason = list_ex (contains_text (lower_text reason)) network_reasons"

definition retry_base_delay :: nat where "retry_base_delay = 250"
definition retry_max_delay :: nat where "retry_max_delay = 10 * 1000"

definition retry_delay_of :: "bool \<Rightarrow> nat \<Rightarrow> nat" where
  "retry_delay_of immediate attempt = (if immediate then retry_base_delay else min retry_max_delay (retry_base_delay * 2 ^ min (attempt - 1) 8))"

definition has_retry :: "nat \<Rightarrow> runtime \<Rightarrow> bool" where
  "has_retry a s = mhas (tm_retry (tr_timers s)) a"

definition with_timers :: "(timers \<Rightarrow> 'a \<times> timers) \<Rightarrow> runtime \<Rightarrow> 'a \<times> runtime" where
  "with_timers f s = (case f (tr_timers s) of (r, t) \<Rightarrow> (r, s\<lparr>tr_timers := t\<rparr>))"

definition clear_pane_retry :: "bool \<Rightarrow> nat \<Rightarrow> runtime \<Rightarrow> runtime" where
  "clear_pane_retry reset a s = snd (with_timers (clear_retry reset a) s)"

text \<open>\<open>scheduleUnifiedPaneRetry\<close>: after the timer is set, the next statement names an undeclared function.\<close>

definition schedule_pane_retry :: "rt_env \<Rightarrow> nat \<Rightarrow> string \<Rightarrow> bool \<Rightarrow> runtime \<Rightarrow> rt_result \<times> runtime" where
  "schedule_pane_retry en a reason immediate s = (let p = tr_panes s a in
     if rt_stopped s \<or> pn_closed p \<or> pn_exit p \<or> \<not> pn_current p \<or> pn_paused p then (Returned False, s)
     else if \<not> tr_online s then (Returned False, upd_pane a (pn_shown_update (\<lambda>_. ''offline'')) (clear_pane_retry False a s))
     else if has_retry a s then (Returned True, s)
     else case with_timers (count_retry a) s of (attempt, s1) \<Rightarrow>
       let s2 = upd_pane a (\<lambda>p. p\<lparr>pn_retrying := True, pn_shown := (if is_network_failure reason then ''network-error'' else ''reconnecting'')\<rparr>) s1
       in case with_timers (schedule_retry (re_timers en) a (retry_delay_of immediate attempt)) s2 of (ok, s3) \<Rightarrow>
         if ok then (Raised, s3) else (Returned False, s3))"

definition parked_reasons :: "string list" where
  "parked_reasons = [''scheduler_preempt'', ''capacity_reduced'', ''background_tab_parked'', ''membership_removed'']"

definition closed_reasons :: "string list" where
  "closed_reasons = [''session_closed'', ''tab_or_target_removed'', ''page_disposed'']"

definition drop_channel :: "pane \<Rightarrow> pane" where
  "drop_channel p = p\<lparr>pn_unified := False, pn_generation := 0, pn_stream := []\<rparr>"

definition state_after_close :: "rt_env \<Rightarrow> string \<Rightarrow> pane \<Rightarrow> string" where
  "state_after_close en event_reason p = (if pn_paused p then ''error'' else if pn_reason p \<in> set parked_reasons then ''parked''
     else if pn_reason p \<in> set closed_reasons then ''closed'' else if pn_reason p = ''network_offline'' then ''offline''
     else if re_lost en \<or> is_network_failure (pn_reason p) \<or> is_network_failure event_reason then ''network-error'' else ''reconnecting'')"

text \<open>The \<open>close\<close> listener of the session protocol; what a listener raises is reported and goes no further.\<close>

definition close_listener :: "rt_env \<Rightarrow> nat \<Rightarrow> string \<Rightarrow> runtime \<Rightarrow> runtime" where
  "close_listener en a event_reason s = (let p = tr_panes s a in
     if pn_retained p then
       upd_pane a (\<lambda>p. (if re_queued en a then p else drop_channel p)\<lparr>pn_socket := None, pn_connecting := False, pn_wants := False,
         pn_retrying := False, pn_shown := ''error''\<rparr>) (clear_pane_retry True a s)
     else let shown = state_after_close en event_reason p; reason = pn_reason p;
         s1 = upd_pane a (\<lambda>p. (drop_channel p)\<lparr>pn_socket := None, pn_connecting := False, pn_reason := [],
           pn_retrying := (shown = ''reconnecting''), pn_shown := shown\<rparr>) s
       in if re_lost en \<or> pn_closed p \<or> pn_exit p \<or> reason \<in> set closed_reasons \<or> reason \<in> set parked_reasons then s1
          else snd (schedule_pane_retry en a (if reason \<noteq> [] then reason else if event_reason \<noteq> [] then event_reason else ''unified_stream_closed'') True s1))"

definition detach_unified :: "rt_env \<Rightarrow> nat \<Rightarrow> string \<Rightarrow> runtime \<Rightarrow> bool \<times> runtime" where
  "detach_unified en a reason s = (if \<not> pn_unified (tr_panes s a) then (False, s)
     else let s1 = upd_pane a (pn_reason_update (\<lambda>_. reason)) s in
       (True, if pn_socket (tr_panes s a) \<noteq> None then close_listener en a reason s1 else upd_pane a drop_channel s1))"

subsection \<open>Connecting\<close>

definition connect_unified :: "rt_env \<Rightarrow> nat \<Rightarrow> runtime \<Rightarrow> bool \<times> runtime" where
  "connect_unified en a s = (let p = tr_panes s a in
     if rt_stopped s \<or> pn_closed p \<or> pn_exit p \<or> pn_connecting p \<or> has_retry a s \<or> pn_paused p \<or> pn_socket p \<noteq> None \<or> \<not> has_known_size p
     then (False, s)
     else (case re_ensure en (pn_name p) of
         Absent closing \<Rightarrow> (False, if closing then rt_tell AwaitPhysicalClose s else s)
       | Preparing \<Rightarrow> (False, upd_pane a (pn_wants_update (\<lambda>_. True)) s)
       | Usable \<Rightarrow> let g = Suc (tr_generation s) in
           (True, rt_tell (ConnectStarted a g (re_uuid en g)) (upd_pane a (\<lambda>p. p\<lparr>pn_connecting := True, pn_wants := False, pn_started := re_now en,
              pn_unified := True, pn_generation := g, pn_reason := [], pn_stream := re_uuid en g, pn_shown := re_shown en,
              pn_retrying := (0 < attempts_of a (tr_timers s))\<rparr>) (s\<lparr>tr_generation := g\<rparr>)))))"

text \<open>The promise of \<open>connectSession\<close> settles: the handlers of the attempt with this generation.\<close>

definition attempt_settles :: "rt_env \<Rightarrow> nat \<Rightarrow> nat \<Rightarrow> bool \<Rightarrow> string \<Rightarrow> runtime \<Rightarrow> runtime" where
  "attempt_settles en a generation started error s = (
     let mine = (pn_unified (tr_panes s a) \<and> pn_generation (tr_panes s a) = generation);
         s1 = (if \<not> started \<and> mine
           then snd (schedule_pane_retry en a error False (snd (detach_unified en a ''unified_retry'' (rt_tell (StartFailed a) s)))) else s)
     in if pn_generation (tr_panes s1 a) = generation then upd_pane a (pn_connecting_update (\<lambda>_. False)) s1 else s1)"

subsection \<open>Reconciling\<close>

definition rt_priority :: "um_state \<Rightarrow> pane \<Rightarrow> nat" where
  "rt_priority m p = (case mget (um_members m) (pn_id p) of None \<Rightarrow> 3 | Some (a, k) \<Rightarrow> k)"

definition restoring :: "pane \<Rightarrow> bool" where
  "restoring p = (\<not> pn_committed p \<and> \<not> pn_paused p)"

definition busy :: "pane \<Rightarrow> bool" where
  "busy p = (pn_socket p \<noteq> None \<or> pn_connecting p)"

text \<open>A stream in the background that restores its history and was started less than a minute ago.\<close>

definition background_restore :: "um_state \<Rightarrow> rat \<Rightarrow> pane \<Rightarrow> bool" where
  "background_restore m now p = (1 < rt_priority m p \<and> busy p \<and> restoring p \<and> now - pn_started p < 60000)"

text \<open>One turn of the loop over the candidates: how many background restores run, whether a pane was put off, and the state.\<close>

definition visit_candidate :: "rt_env \<Rightarrow> um_state \<Rightarrow> bool \<Rightarrow> bool \<Rightarrow> nat \<times> bool \<times> runtime \<Rightarrow> nat \<Rightarrow> nat \<times> bool \<times> runtime" where
  "visit_candidate en m input_first waiting acc a = (case acc of (running, deferred, s) \<Rightarrow> let p = tr_panes s a; k = rt_priority m p in
     if busy p \<or> pn_paused p then acc
     else if k = 1 \<and> input_first \<and> waiting then (running, True, s)
     else if 1 < k \<and> (waiting \<or> 2 \<le> running) then (running, True, s)
     else if \<not> has_known_size p then (running, deferred \<or> \<not> pn_failed p, upd_pane a (pn_wants_update (\<lambda>_. True)) s)
     else (case connect_unified en a s of (ok, s1) \<Rightarrow> (if ok \<and> 1 < k then Suc running else running, deferred, s1)))"

definition rt_candidates :: "um_state \<Rightarrow> runtime \<Rightarrow> nat list" where
  "rt_candidates m s = sort_key (\<lambda>a. rt_priority m (tr_panes s a)) (filter (\<lambda>a. mhas (um_members m) (pn_id (tr_panes s a))) (rt_sessions s))"

definition drop_strangers :: "rt_env \<Rightarrow> runtime \<Rightarrow> runtime" where
  "drop_strangers en s = foldl (\<lambda>t a. let p = tr_panes t a in
     if pn_unified p \<and> \<not> mhas (um_members (tr_membership s)) (pn_id p)
     then snd (detach_unified en a (if pn_closed p then ''session_closed'' else ''membership_removed'') t) else t) s (rt_sessions s)"

definition tell_priorities :: "um_state \<Rightarrow> runtime \<Rightarrow> runtime" where
  "tell_priorities m s = foldl (\<lambda>t e. rt_tell (PrioritySet (fst e) (snd (snd e))) t) s (um_members m)"

definition foreground_since :: "rat \<Rightarrow> bool \<Rightarrow> rat \<Rightarrow> rat" where
  "foreground_since now restoring_front since = (if \<not> restoring_front then 0 else if since = 0 then now else since)"

definition input_restoring :: "um_state \<Rightarrow> runtime \<Rightarrow> bool" where
  "input_restoring m s = list_ex (\<lambda>a. rt_priority m (tr_panes s a) = 0 \<and> restoring (tr_panes s a)) (rt_candidates m s)"

definition front_restoring :: "um_state \<Rightarrow> runtime \<Rightarrow> bool" where
  "front_restoring m s = list_ex (\<lambda>a. rt_priority m (tr_panes s a) \<le> 1 \<and> restoring (tr_panes s a)) (rt_candidates m s)"

definition front_waiting :: "rt_env \<Rightarrow> um_state \<Rightarrow> runtime \<Rightarrow> bool" where
  "front_waiting en m s = (front_restoring m s \<and> re_now en - foreground_since (re_now en) (front_restoring m s) (tr_waiting_since s) < 20000)"

definition running_restores :: "rt_env \<Rightarrow> um_state \<Rightarrow> runtime \<Rightarrow> nat" where
  "running_restores en m s = length (filter (\<lambda>a. background_restore m (re_now en) (tr_panes s a)) (rt_candidates m s))"

definition visit_all :: "rt_env \<Rightarrow> um_state \<Rightarrow> runtime \<Rightarrow> nat \<times> bool \<times> runtime" where
  "visit_all en m s = foldl (visit_candidate en m (input_restoring m s) (front_waiting en m s))
     (running_restores en m s, False, s\<lparr>tr_waiting_since := foreground_since (re_now en) (front_restoring m s) (tr_waiting_since s)\<rparr>) (rt_candidates m s)"

definition rt_reconcile :: "rt_env \<Rightarrow> runtime \<Rightarrow> bool \<times> runtime" where
  "rt_reconcile en s = (if rt_stopped s \<or> \<not> tr_online s then (False, s)
     else case visit_all en (tr_membership s) (drop_strangers en s) of (running, deferred, s1) \<Rightarrow>
       (True, tell_priorities (tr_membership s) (if deferred then snd (with_timers (schedule_deferred (re_timers en) 0) s1) else s1)))"

definition schedule_unified_sync :: "runtime \<Rightarrow> bool \<times> runtime" where
  "schedule_unified_sync s = with_timers (schedule_sync 0) s"

definition measurement_pass :: "rt_env \<Rightarrow> page_tab option \<Rightarrow> runtime \<Rightarrow> runtime" where
  "measurement_pass en tab s = (case tab of None \<Rightarrow> s
     | Some t \<Rightarrow> foldl (\<lambda>u a. let p = tr_panes u a in
         if pn_closed p \<or> pn_name p \<noteq> tr_active_name u \<or> 0 < pn_measured p then u
         else snd (with_timers (schedule_measure (re_timers en) 4 a 0) u)) s (map snd (pt_panes t)))"

definition active_pane_id :: "nat option \<Rightarrow> page_tab option \<Rightarrow> runtime \<Rightarrow> string" where
  "active_pane_id interaction tab s = (case interaction of Some a \<Rightarrow> pn_id (tr_panes s a)
     | None \<Rightarrow> (case tab of None \<Rightarrow> [] | Some t \<Rightarrow> (case map_of (pt_panes t) (pt_active t) of None \<Rightarrow> [] | Some a \<Rightarrow> pn_id (tr_panes s a))))"

definition rt_refresh :: "rt_env \<Rightarrow> nat option \<Rightarrow> runtime \<Rightarrow> bool \<times> runtime" where
  "rt_refresh en interaction s = (if rt_stopped s then (False, s)
     else if tr_applying s then (False, s\<lparr>tr_refresh_pending := True\<rparr>)
     else let tab = active_tab_of s in case global_order en s of ((ordered, ready), s1) \<Rightarrow>
       (case um_reconcile (\<lambda>a. um_of (tr_panes s1 a)) \<lparr>ur_target = Str (tr_active_name s1), ur_panes = map Some ordered,
           ur_tab = Str (case tab of None \<Rightarrow> [] | Some t \<Rightarrow> pt_id t), ur_pane = Str (active_pane_id interaction tab s1)\<rparr> (tr_membership s1) of
         (result, m) \<Rightarrow>
         let s2 = s1\<lparr>tr_membership := m, tr_waiting_since := (if uo_targetChanged result then 0 else tr_waiting_since s1)\<rparr>;
           s3 = (if uo_targetChanged result \<and> re_connection en \<and> \<not> re_matches en (tr_active_name s2) then rt_tell (TransportClosed ''context_changed'') s2 else s2);
           s4 = foldl (\<lambda>u a. if pn_unified (tr_panes u a) \<and> pn_socket (tr_panes u a) \<noteq> None
             then snd (detach_unified en a ''membership_removed'' u) else u) s3 (uo_removed result)
         in (True, snd (schedule_unified_sync (measurement_pass en tab s4)))))"

definition flush_refresh :: "rt_env \<Rightarrow> runtime \<Rightarrow> bool \<times> runtime" where
  "flush_refresh en s = (if \<not> tr_refresh_pending s \<or> rt_stopped s then (False, s) else rt_refresh en None (s\<lparr>tr_refresh_pending := False\<rparr>))"

definition request_connection :: "rt_env \<Rightarrow> bool \<Rightarrow> nat \<Rightarrow> runtime \<Rightarrow> bool \<times> runtime" where
  "request_connection en user a s = (let p = tr_panes s a in
     if rt_stopped s \<or> pn_closed p \<or> pn_exit p \<or> \<not> pn_current p \<or> pn_measured p = 0 then (False, s)
     else (True, snd (rt_refresh en (if user \<and> pn_tab p = tr_active_tab s then Some a else None)
       (upd_pane a (\<lambda>p. p\<lparr>pn_interacted := (if user then re_now en else pn_interacted p), pn_wants := (pn_socket p = None)\<rparr>) s))))"

text \<open>
  \<open>connectPendingSession\<close>. \<open>live\<close>: the socket is open or connecting; \<open>hidden\<close>: the page is hidden and the caller does
  not allow that; \<open>fits\<close>: the pane can be measured, and the generation the measurement leaves.
\<close>

definition connect_pending :: "rt_env \<Rightarrow> bool \<Rightarrow> bool \<Rightarrow> nat option \<Rightarrow> nat \<Rightarrow> runtime \<Rightarrow> bool \<times> runtime" where
  "connect_pending en live hidden fits a s = (let p = tr_panes s a in
     if pn_closed p \<or> pn_exit p \<or> \<not> pn_current p then (False, s)
     else if pn_socket p \<noteq> None \<and> live then (True, upd_pane a (pn_wants_update (\<lambda>_. False)) s)
     else if 0 < pn_measured p \<and> has_known_size p then (if hidden then (False, s) else request_connection en False a s)
     else if 0 < pn_measured p then (False, snd (schedule_unified_sync (upd_pane a (pn_wants_update (\<lambda>_. True)) s)))
     else (case fits of None \<Rightarrow> (False, s)
       | Some g \<Rightarrow> if hidden then (False, s)
           else let s1 = upd_pane a (pn_measured_update (\<lambda>_. g)) s in
             if g = 0 then (False, s1) else request_connection en False a s1))"

definition recycle_unified :: "rt_env \<Rightarrow> nat \<Rightarrow> string \<Rightarrow> bool \<Rightarrow> runtime \<Rightarrow> rt_result \<times> runtime" where
  "recycle_unified en a reason immediate s = (let p = tr_panes s a in
     if pn_exit p \<or> \<not> pn_unified p then (Returned False, s)
     else let s1 = upd_pane a (\<lambda>p. p\<lparr>pn_retrying := True, pn_shown := (if is_network_failure reason then ''network-error'' else ''reconnecting'')\<rparr>) s;
         s2 = snd (detach_unified en a ''unified_retry'' s1)
       in case schedule_pane_retry en a reason immediate s2 of (Raised, s3) \<Rightarrow> (Raised, s3) | (Returned _, s3) \<Rightarrow> (Returned True, s3))"

definition finish_exited :: "rt_env \<Rightarrow> nat \<Rightarrow> runtime \<Rightarrow> bool \<times> runtime" where
  "finish_exited en a s = (if \<not> pn_exit (tr_panes s a) then (False, s)
     else let s1 = clear_pane_retry True a s; s2 = snd (detach_unified en a ''terminal_exited'' s1) in (True, snd (rt_refresh en None s2)))"

definition unregister_pane :: "nat \<Rightarrow> runtime \<Rightarrow> runtime" where
  "unregister_pane a s = snd (with_timers (dispose_session a) s)"

definition rt_dispose :: "runtime \<Rightarrow> bool \<times> runtime" where
  "rt_dispose s = (if tr_disposed s then (False, s)
     else let s1 = s\<lparr>tr_disposed := True\<rparr> in
       (True, s1\<lparr>tr_timers := snd (timers_dispose (rt_sessions s1) (tr_timers s1)), tr_membership := snd (um_clear (tr_membership s1))\<rparr>))"

text \<open>A timer fires: the registry runs its callback (it logs it), and the callback is the runtime's.\<close>

definition rt_callback :: "rt_env \<Rightarrow> slot \<times> nat \<times> nat \<Rightarrow> runtime \<Rightarrow> runtime" where
  "rt_callback en c s = (case c of (k, a, x) \<Rightarrow> (case k of
       Retry \<Rightarrow> snd (schedule_unified_sync s)
     | DeferredSync \<Rightarrow> snd (rt_reconcile en s)
     | Microtask \<Rightarrow> snd (rt_reconcile en s)
     | Measure \<Rightarrow> (let p = tr_panes s a in
         if pn_closed p \<or> pn_tab p \<noteq> tr_active_tab s \<or> pn_name p \<noteq> tr_active_name s then s else rt_tell (ResizeAsked a) s)
     | Priority \<Rightarrow> s))"

definition rt_timer_fires :: "rt_env \<Rightarrow> nat \<Rightarrow> runtime \<Rightarrow> runtime" where
  "rt_timer_fires en h s = (let t = timer_fires h (tr_timers s); s1 = s\<lparr>tr_timers := t\<rparr> in
     if length (tm_ran (tr_timers s)) < length (tm_ran t) then rt_callback en (last (tm_ran t)) s1 else s1)"

datatype rt_event = RtRefresh rt_env | RtFlushRefresh rt_env | RtRequest rt_env bool nat | RtPending rt_env bool bool "nat option" nat
  | RtTimer rt_env nat | RtSync | RtSettles rt_env nat nat bool string | RtRecycle rt_env nat string bool | RtRetry rt_env nat string bool
  | RtDetach rt_env nat string | RtClosed rt_env nat string | RtSocket nat nat | RtExited rt_env nat | RtUnregister nat | RtDispose
  | RtPane nat bool bool bool bool bool bool bool nat | RtPage "page_tab list" string string bool bool bool

text \<open>
  \<open>RtSocket\<close>: the attempt that runs installs its socket; \<open>RtPane\<close>: the other owners of a pane change what they keep
  of it (closed, exit, committed, paused, current, worker ready, worker failed, fit generation); \<open>RtPage\<close>: tabs, active tab,
  target, online, applying, page gone.
\<close>

fun runtime_step :: "runtime \<Rightarrow> rt_event \<Rightarrow> runtime" where
  "runtime_step s (RtRefresh en) = snd (rt_refresh en None s)"
| "runtime_step s (RtFlushRefresh en) = snd (flush_refresh en s)"
| "runtime_step s (RtRequest en user a) = snd (request_connection en user a s)"
| "runtime_step s (RtPending en live hidden fits a) = snd (connect_pending en live hidden fits a s)"
| "runtime_step s (RtTimer en h) = rt_timer_fires en h s"
| "runtime_step s RtSync = snd (schedule_unified_sync s)"
| "runtime_step s (RtSettles en a g started error) = (if g = 0 then s else attempt_settles en a g started error s)"
| "runtime_step s (RtRecycle en a reason immediate) = snd (recycle_unified en a reason immediate s)"
| "runtime_step s (RtRetry en a reason immediate) = snd (schedule_pane_retry en a reason immediate s)"
| "runtime_step s (RtDetach en a reason) = snd (detach_unified en a reason s)"
| "runtime_step s (RtClosed en a reason) = (if pn_socket (tr_panes s a) = None then s else close_listener en a reason s)"
| "runtime_step s (RtSocket a k) = (if pn_unified (tr_panes s a) \<and> pn_connecting (tr_panes s a) then upd_pane a (pn_socket_update (\<lambda>_. Some k)) s else s)"
| "runtime_step s (RtExited en a) = snd (finish_exited en a s)"
| "runtime_step s (RtUnregister a) = unregister_pane a s"
| "runtime_step s RtDispose = snd (rt_dispose s)"
| "runtime_step s (RtPane a shut exit committed paused current ready failed measured) = upd_pane a (\<lambda>p. p\<lparr>pn_closed := shut, pn_exit := exit,
     pn_committed := committed, pn_paused := paused, pn_current := current, pn_remote_ready := ready, pn_failed := failed, pn_measured := measured\<rparr>) s"
| "runtime_step s (RtPage tabs active_tab target online applying gone) = s\<lparr>tr_tabs := tabs, tr_active_tab := active_tab, tr_active_name := target,
     tr_online := online, tr_applying := applying, tr_page_gone := gone\<rparr>"

section \<open>What the runtime guarantees\<close>

subsection \<open>Fields an operation leaves alone\<close>

definition same_page :: "runtime \<Rightarrow> runtime \<Rightarrow> bool" where
  "same_page s t = (tr_tabs t = tr_tabs s \<and> tr_active_tab t = tr_active_tab s \<and> tr_active_name t = tr_active_name s
     \<and> tr_membership t = tr_membership s \<and> tr_disposed t = tr_disposed s \<and> tr_page_gone t = tr_page_gone s
     \<and> tr_online t = tr_online s \<and> tr_applying t = tr_applying s \<and> tr_waiting_since t = tr_waiting_since s)"

lemma same_page_refl [simp]: "same_page s s"
  by (simp add: same_page_def)

lemma same_page_trans [trans]: "\<lbrakk>same_page s t; same_page t u\<rbrakk> \<Longrightarrow> same_page s u"
  by (simp add: same_page_def)

lemma upd_pane_simps [simp]:
  "tr_panes (upd_pane a f s) b = (if b = a then f (tr_panes s a) else tr_panes s b)" "tr_timers (upd_pane a f s) = tr_timers s"
  "tr_generation (upd_pane a f s) = tr_generation s" "tr_outs (upd_pane a f s) = tr_outs s" "same_page s (upd_pane a f s)"
  "tr_online (upd_pane a f s) = tr_online s" "rt_stopped (upd_pane a f s) = rt_stopped s" "rt_sessions (upd_pane a f s) = rt_sessions s"
  "tr_membership (upd_pane a f s) = tr_membership s" "tr_active_name (upd_pane a f s) = tr_active_name s"
  "tr_active_tab (upd_pane a f s) = tr_active_tab s" "tr_tabs (upd_pane a f s) = tr_tabs s" "tr_disposed (upd_pane a f s) = tr_disposed s"
  "tr_waiting_since (upd_pane a f s) = tr_waiting_since s"
  by (simp_all add: upd_pane_def same_page_def rt_stopped_def rt_sessions_def)

lemma rt_tell_simps [simp]:
  "tr_panes (rt_tell x s) = tr_panes s" "tr_timers (rt_tell x s) = tr_timers s" "tr_generation (rt_tell x s) = tr_generation s"
  "tr_outs (rt_tell x s) = tr_outs s @ [x]" "same_page s (rt_tell x s)" "tr_online (rt_tell x s) = tr_online s"
  "rt_stopped (rt_tell x s) = rt_stopped s" "rt_sessions (rt_tell x s) = rt_sessions s" "tr_membership (rt_tell x s) = tr_membership s"
  "tr_tabs (rt_tell x s) = tr_tabs s" "tr_disposed (rt_tell x s) = tr_disposed s" "tr_waiting_since (rt_tell x s) = tr_waiting_since s"
  "tr_active_name (rt_tell x s) = tr_active_name s" "tr_active_tab (rt_tell x s) = tr_active_tab s"
  by (simp_all add: rt_tell_def same_page_def rt_stopped_def rt_sessions_def)

lemma with_timers_fields:
  assumes "with_timers f s = (r, t)"
  shows "tr_panes t = tr_panes s" "tr_generation t = tr_generation s" "tr_outs t = tr_outs s" "same_page s t" "tr_timers t = snd (f (tr_timers s))"
    "r = fst (f (tr_timers s))"
  using assms by (auto simp: with_timers_def same_page_def split: prod.splits)

lemma snd_with_timers [simp]:
  "tr_panes (snd (with_timers f s)) = tr_panes s" "tr_generation (snd (with_timers f s)) = tr_generation s"
  "tr_outs (snd (with_timers f s)) = tr_outs s" "same_page s (snd (with_timers f s))" "tr_timers (snd (with_timers f s)) = snd (f (tr_timers s))"
  "tr_online (snd (with_timers f s)) = tr_online s" "rt_stopped (snd (with_timers f s)) = rt_stopped s"
  "rt_sessions (snd (with_timers f s)) = rt_sessions s" "tr_membership (snd (with_timers f s)) = tr_membership s"
  "tr_disposed (snd (with_timers f s)) = tr_disposed s"
  by (simp_all add: with_timers_def same_page_def rt_stopped_def rt_sessions_def split: prod.splits)

lemma clear_pane_simps [simp]:
  "tr_panes (clear_pane_retry x a s) = tr_panes s" "tr_generation (clear_pane_retry x a s) = tr_generation s"
  "tr_outs (clear_pane_retry x a s) = tr_outs s" "same_page s (clear_pane_retry x a s)"
  "same_page s (upd_pane a f (clear_pane_retry x a s))" "rt_sessions (clear_pane_retry x a s) = rt_sessions s"
  "tr_membership (clear_pane_retry x a s) = tr_membership s"
  by (simp_all add: clear_pane_retry_def) (rule same_page_trans [OF snd_with_timers(4) upd_pane_simps(5)])

lemma retry_fields:
  "tr_generation (snd (schedule_pane_retry en a r i s)) = tr_generation s" "same_page s (snd (schedule_pane_retry en a r i s))"
  "tr_outs (snd (schedule_pane_retry en a r i s)) = tr_outs s"
  "\<exists>x y. tr_panes (snd (schedule_pane_retry en a r i s)) = (tr_panes s)(a := (tr_panes s a)\<lparr>pn_retrying := x, pn_shown := y\<rparr>)"
proof -
  have all: "tr_generation t = tr_generation s \<and> same_page s t \<and> tr_outs t = tr_outs s
      \<and> (\<exists>x y. tr_panes t = (tr_panes s)(a := (tr_panes s a)\<lparr>pn_retrying := x, pn_shown := y\<rparr>))"
    if t: "schedule_pane_retry en a r i s = (res, t)" for res t
  proof (cases "rt_stopped s \<or> pn_closed (tr_panes s a) \<or> pn_exit (tr_panes s a) \<or> \<not> pn_current (tr_panes s a) \<or> pn_paused (tr_panes s a)
      \<or> \<not> tr_online s \<or> has_retry a s")
    case True
    have e: "p = p\<lparr>pn_retrying := pn_retrying p, pn_shown := pn_shown p\<rparr>" "p\<lparr>pn_shown := x\<rparr> = p\<lparr>pn_retrying := pn_retrying p, pn_shown := x\<rparr>" for p :: pane and x
      by simp_all
    have k: "t = s \<or> t = upd_pane a (pn_shown_update (\<lambda>_. ''offline'')) (clear_pane_retry False a s)"
      using t True by (auto simp: schedule_pane_retry_def Let_def split: if_splits prod.splits)
    let ?u = "upd_pane a (pn_shown_update (\<lambda>_. ''offline'')) (clear_pane_retry False a s)"
    have "\<exists>x y. tr_panes s = (tr_panes s)(a := (tr_panes s a)\<lparr>pn_retrying := x, pn_shown := y\<rparr>)"
      using e(1) [of "tr_panes s a"] by (metis fun_upd_triv)
    moreover have "tr_panes ?u = (tr_panes s)(a := (tr_panes s a)\<lparr>pn_retrying := pn_retrying (tr_panes s a), pn_shown := ''offline''\<rparr>)"
      by (simp add: fun_eq_iff)
    then have "\<exists>x y. tr_panes ?u = (tr_panes s)(a := (tr_panes s a)\<lparr>pn_retrying := x, pn_shown := y\<rparr>)" by blast
    ultimately show ?thesis using k by (elim disjE) simp_all
  next
    case False
    obtain n s1 where s1: "with_timers (count_retry a) s = (n, s1)" by force
    let ?p = "\<lambda>p. p\<lparr>pn_retrying := True, pn_shown := (if is_network_failure r then ''network-error'' else ''reconnecting'')\<rparr>"
    obtain ok s3 where s3: "with_timers (schedule_retry (re_timers en) a (retry_delay_of i n)) (upd_pane a ?p s1) = (ok, s3)" by force
    have "t = s3" using t False s1 s3 by (auto simp: schedule_pane_retry_def Let_def split: if_splits)
    moreover note w1 = with_timers_fields [OF s1] and w3 = with_timers_fields [OF s3]
    moreover have "same_page s s3" using w1(4) w3(4) same_page_trans upd_pane_simps(5) by blast
    moreover have "tr_panes s3 = (tr_panes s)(a := ?p (tr_panes s a))" using w1(1) w3(1) by (simp add: fun_eq_iff)
    then have "\<exists>x y. tr_panes s3 = (tr_panes s)(a := (tr_panes s a)\<lparr>pn_retrying := x, pn_shown := y\<rparr>)" by blast
    moreover have "tr_generation s3 = tr_generation s" "tr_outs s3 = tr_outs s" using w1(2,3) w3(2,3) by simp_all
    ultimately show ?thesis by simp
  qed
  obtain res t where t: "schedule_pane_retry en a r i s = (res, t)" by force
  show "tr_generation (snd (schedule_pane_retry en a r i s)) = tr_generation s" "same_page s (snd (schedule_pane_retry en a r i s))"
    "tr_outs (snd (schedule_pane_retry en a r i s)) = tr_outs s"
    "\<exists>x y. tr_panes (snd (schedule_pane_retry en a r i s)) = (tr_panes s)(a := (tr_panes s a)\<lparr>pn_retrying := x, pn_shown := y\<rparr>)"
    using all [OF t] t by simp_all
qed

text \<open>What closing or detaching changes of a pane, and that it changes no other.\<close>

definition touches :: "nat \<Rightarrow> runtime \<Rightarrow> runtime \<Rightarrow> bool" where
  "touches a s t = (same_page s t \<and> tr_generation t = tr_generation s \<and> tr_outs t = tr_outs s \<and> (\<forall>b. b \<noteq> a \<longrightarrow> tr_panes t b = tr_panes s b)
     \<and> pn_id (tr_panes t a) = pn_id (tr_panes s a) \<and> pn_retained (tr_panes t a) = pn_retained (tr_panes s a))"

lemma close_listener_fields:
  assumes "t = close_listener en a r s"
  shows "touches a s t" "pn_socket (tr_panes t a) = None" "\<not> pn_connecting (tr_panes t a)"
    "if pn_retained (tr_panes s a) \<and> re_queued en a
     then pn_unified (tr_panes t a) = pn_unified (tr_panes s a) \<and> pn_generation (tr_panes t a) = pn_generation (tr_panes s a)
     else \<not> pn_unified (tr_panes t a) \<and> pn_generation (tr_panes t a) = 0"
proof -
  let ?p = "tr_panes s a"
  have all: "touches a s t \<and> pn_socket (tr_panes t a) = None \<and> \<not> pn_connecting (tr_panes t a)
     \<and> (if pn_retained ?p \<and> re_queued en a then pn_unified (tr_panes t a) = pn_unified ?p \<and> pn_generation (tr_panes t a) = pn_generation ?p
        else \<not> pn_unified (tr_panes t a) \<and> pn_generation (tr_panes t a) = 0)"
  proof (cases "pn_retained ?p")
    case True
    then show ?thesis using assms by (simp add: close_listener_def Let_def touches_def drop_channel_def)
  next
    case False
    let ?f = "\<lambda>p. (drop_channel p)\<lparr>pn_socket := None, pn_connecting := False, pn_reason := [],
           pn_retrying := (state_after_close en r ?p = ''reconnecting''), pn_shown := state_after_close en r ?p\<rparr>"
    let ?s1 = "upd_pane a ?f s"
    have t: "t = ?s1 \<or> (\<exists>x i. t = snd (schedule_pane_retry en a x i ?s1))"
      using assms False by (auto simp: close_listener_def Let_def)
    have 1: "touches a s ?s1 \<and> pn_socket (tr_panes ?s1 a) = None \<and> \<not> pn_connecting (tr_panes ?s1 a) \<and> \<not> pn_unified (tr_panes ?s1 a)
       \<and> pn_generation (tr_panes ?s1 a) = 0 \<and> \<not> pn_retained (tr_panes ?s1 a)"
      using False by (simp add: touches_def drop_channel_def)
    from t show ?thesis
    proof
      assume "t = ?s1"
      then show ?thesis using 1 False by auto
    next
      assume "\<exists>x i. t = snd (schedule_pane_retry en a x i ?s1)"
      then obtain x i where t: "t = snd (schedule_pane_retry en a x i ?s1)" by blast
      obtain y z where p: "tr_panes t = (tr_panes ?s1)(a := (tr_panes ?s1 a)\<lparr>pn_retrying := y, pn_shown := z\<rparr>)"
        using retry_fields(4) [of en a x i ?s1] t by blast
      have "same_page s t" using retry_fields(2) [of ?s1 en a x i] same_page_trans [OF upd_pane_simps(5)] t by blast
      moreover have "tr_generation t = tr_generation s" "tr_outs t = tr_outs s" using retry_fields(1,3) [of en a x i ?s1] t by simp_all
      ultimately show ?thesis using 1 p False by (simp add: touches_def)
    qed
  qed
  then show "touches a s t" "pn_socket (tr_panes t a) = None" "\<not> pn_connecting (tr_panes t a)"
    "if pn_retained (tr_panes s a) \<and> re_queued en a
     then pn_unified (tr_panes t a) = pn_unified (tr_panes s a) \<and> pn_generation (tr_panes t a) = pn_generation (tr_panes s a)
     else \<not> pn_unified (tr_panes t a) \<and> pn_generation (tr_panes t a) = 0" by blast+
qed

lemma detach_fields:
  assumes "t = snd (detach_unified en a r s)"
  shows "touches a s t" "pn_socket (tr_panes t a) = None \<or> \<not> pn_unified (tr_panes s a)"
    "pn_connecting (tr_panes t a) \<longrightarrow> pn_connecting (tr_panes s a)"
    "\<not> pn_unified (tr_panes t a) \<and> (pn_unified (tr_panes s a) \<longrightarrow> pn_generation (tr_panes t a) = 0) \<or> pn_retained (tr_panes s a) \<and> re_queued en a"
    "pn_generation (tr_panes t a) \<in> {0, pn_generation (tr_panes s a)}" "pn_socket (tr_panes s a) = None \<longrightarrow> pn_socket (tr_panes t a) = None"
    "pn_unified (tr_panes t a) \<longrightarrow> pn_unified (tr_panes s a)"
proof -
  let ?s1 = "upd_pane a (pn_reason_update (\<lambda>_. r)) s"
  have tt: "touches a s u" if "touches a ?s1 u" for u
    using that by (auto simp: touches_def intro: same_page_trans [OF upd_pane_simps(5)])
  have all: "touches a s t \<and> (pn_socket (tr_panes t a) = None \<or> \<not> pn_unified (tr_panes s a)) \<and> (pn_connecting (tr_panes t a) \<longrightarrow> pn_connecting (tr_panes s a))
    \<and> (\<not> pn_unified (tr_panes t a) \<and> (pn_unified (tr_panes s a) \<longrightarrow> pn_generation (tr_panes t a) = 0) \<or> pn_retained (tr_panes s a) \<and> re_queued en a)
    \<and> pn_generation (tr_panes t a) \<in> {0, pn_generation (tr_panes s a)} \<and> (pn_socket (tr_panes s a) = None \<longrightarrow> pn_socket (tr_panes t a) = None)
    \<and> (pn_unified (tr_panes t a) \<longrightarrow> pn_unified (tr_panes s a))"
  proof (cases "pn_unified (tr_panes s a)")
    case False
    then show ?thesis using assms by (simp add: detach_unified_def touches_def)
  next
    case u: True
    show ?thesis
    proof (cases "pn_socket (tr_panes s a)")
      case None
      then have "t = upd_pane a drop_channel ?s1" using assms u by (simp add: detach_unified_def)
      moreover have "same_page s (upd_pane a drop_channel ?s1)" by (rule same_page_trans [OF upd_pane_simps(5) upd_pane_simps(5)])
      ultimately show ?thesis using None by (simp add: touches_def drop_channel_def)
    next
      case (Some k)
      then have "t = close_listener en a r ?s1" using assms u by (simp add: detach_unified_def)
      from close_listener_fields [OF this] tt show ?thesis using u by (auto split: if_splits)
    qed
  qed
  then show "touches a s t" "pn_socket (tr_panes t a) = None \<or> \<not> pn_unified (tr_panes s a)"
    "pn_connecting (tr_panes t a) \<longrightarrow> pn_connecting (tr_panes s a)"
    "\<not> pn_unified (tr_panes t a) \<and> (pn_unified (tr_panes s a) \<longrightarrow> pn_generation (tr_panes t a) = 0) \<or> pn_retained (tr_panes s a) \<and> re_queued en a"
    "pn_generation (tr_panes t a) \<in> {0, pn_generation (tr_panes s a)}" "pn_socket (tr_panes s a) = None \<longrightarrow> pn_socket (tr_panes t a) = None"
    "pn_unified (tr_panes t a) \<longrightarrow> pn_unified (tr_panes s a)" by blast+
qed

subsection \<open>One reconciliation\<close>

definition refused :: "rt_env \<Rightarrow> nat \<Rightarrow> runtime \<Rightarrow> bool" where
  "refused en a s = (pn_closed (tr_panes s a) \<or> pn_exit (tr_panes s a) \<or> has_retry a s \<or> re_ensure en (pn_name (tr_panes s a)) \<noteq> Usable)"

definition handled :: "rt_env \<Rightarrow> nat \<Rightarrow> runtime \<Rightarrow> bool" where
  "handled en a s = (busy (tr_panes s a) \<or> pn_paused (tr_panes s a) \<or> pn_failed (tr_panes s a) \<or> refused en a s)"

text \<open>What a turn of the loop does to the state: nothing a reader of other panes could see, and at most one stream is started.\<close>

definition visited :: "rt_env \<Rightarrow> nat \<Rightarrow> runtime \<Rightarrow> runtime \<Rightarrow> bool" where
  "visited en a s t = (same_page s t \<and> tr_timers t = tr_timers s \<and> (\<forall>b. b \<noteq> a \<longrightarrow> tr_panes t b = tr_panes s b)
     \<and> (let p = tr_panes s a; q = tr_panes t a in pn_id q = pn_id p \<and> pn_paused q = pn_paused p \<and> pn_failed q = pn_failed p \<and> pn_closed q = pn_closed p
        \<and> pn_exit q = pn_exit p \<and> pn_name q = pn_name p \<and> pn_retained q = pn_retained p \<and> pn_socket q = pn_socket p))"

definition start_of :: "nat \<Rightarrow> runtime \<Rightarrow> runtime \<Rightarrow> bool" where
  "start_of a s t = (\<exists>i. tr_outs t = tr_outs s @ [ConnectStarted a (Suc (tr_generation s)) i] \<and> tr_generation t = Suc (tr_generation s)
     \<and> pn_connecting (tr_panes t a) \<and> pn_unified (tr_panes t a) \<and> pn_generation (tr_panes t a) = Suc (tr_generation s) \<and> \<not> busy (tr_panes s a))"

definition idle_turn :: "nat \<Rightarrow> runtime \<Rightarrow> runtime \<Rightarrow> bool" where
  "idle_turn a s t = (tr_outs t \<in> {tr_outs s, tr_outs s @ [AwaitPhysicalClose]} \<and> tr_generation t = tr_generation s
     \<and> tr_panes t a \<in> {tr_panes s a, (tr_panes s a)\<lparr>pn_wants := True\<rparr>})"

lemma visited_refl [simp]: "visited en a s s"
  by (simp add: visited_def Let_def)

lemma idle_refl [simp]: "idle_turn a s s"
  by (simp add: idle_turn_def)

lemma visited_upd: "visited en a s (upd_pane a (pn_wants_update x) s)" "visited en a s (rt_tell y s)"
  by (simp_all add: visited_def Let_def)

lemma connect_fields:
  assumes r: "connect_unified en a s = (ok, t)"
  shows "visited en a s t" "if ok then start_of a s t else idle_turn a s t" "\<not> ok \<Longrightarrow> busy (tr_panes s a) \<or> pn_paused (tr_panes s a) \<or> \<not> has_known_size (tr_panes s a) \<or> refused en a s \<or> rt_stopped s"
proof -
  let ?p = "tr_panes s a"
  have all: "visited en a s t \<and> (if ok then start_of a s t else idle_turn a s t)
    \<and> (\<not> ok \<longrightarrow> busy ?p \<or> pn_paused ?p \<or> \<not> has_known_size ?p \<or> refused en a s \<or> rt_stopped s)"
  proof (cases "rt_stopped s \<or> pn_closed ?p \<or> pn_exit ?p \<or> pn_connecting ?p \<or> has_retry a s \<or> pn_paused ?p \<or> pn_socket ?p \<noteq> None \<or> \<not> has_known_size ?p")
    case True
    then have "(ok, t) = (False, s)" using r by (simp add: connect_unified_def)
    then show ?thesis using True by (auto simp: refused_def busy_def)
  next
    case a: False
    show ?thesis
    proof (cases "re_ensure en (pn_name ?p)")
      case (Absent c)
      then have "(ok, t) = (False, if c then rt_tell AwaitPhysicalClose s else s)" using r a by (simp add: connect_unified_def)
      then show ?thesis using Absent by (auto simp: visited_upd refused_def idle_turn_def)
    next
      case Preparing
      then have "(ok, t) = (False, upd_pane a (pn_wants_update (\<lambda>_. True)) s)" using r a by (simp add: connect_unified_def)
      then show ?thesis using Preparing by (auto simp: visited_upd refused_def idle_turn_def)
    next
      case Usable
      let ?g = "Suc (tr_generation s)"
      let ?f = "\<lambda>p. p\<lparr>pn_connecting := True, pn_wants := False, pn_started := re_now en, pn_unified := True, pn_generation := ?g, pn_reason := [],
          pn_stream := re_uuid en ?g, pn_shown := re_shown en, pn_retrying := (0 < attempts_of a (tr_timers s))\<rparr>"
      have "(ok, t) = (True, rt_tell (ConnectStarted a ?g (re_uuid en ?g)) (upd_pane a ?f (s\<lparr>tr_generation := ?g\<rparr>)))"
        using r a Usable by (simp add: connect_unified_def Let_def)
      moreover have "same_page s (rt_tell x (upd_pane a ?f (s\<lparr>tr_generation := ?g\<rparr>)))" for x by (simp add: rt_tell_def upd_pane_def same_page_def)
      ultimately show ?thesis using a by (auto simp: visited_def start_of_def Let_def busy_def)
    qed
  qed
  then show "visited en a s t" "if ok then start_of a s t else idle_turn a s t"
    "\<not> ok \<Longrightarrow> busy (tr_panes s a) \<or> pn_paused (tr_panes s a) \<or> \<not> has_known_size (tr_panes s a) \<or> refused en a s \<or> rt_stopped s" by blast+
qed

lemma visit_fields:
  assumes r: "visit_candidate en m front waiting (n, d, s) a = (n', d', t)" and live: "\<not> rt_stopped s"
  defines "k \<equiv> rt_priority m (tr_panes s a)"
  shows "visited en a s t" "d \<longrightarrow> d'"
    "(idle_turn a s t \<and> n' = n) \<or> (start_of a s t \<and> n' = (if 1 < k then Suc n else n) \<and> (1 < k \<longrightarrow> \<not> waiting \<and> n < 2) \<and> (k = 1 \<longrightarrow> \<not> (front \<and> waiting)))"
    "d' \<or> handled en a t"
proof -
  let ?p = "tr_panes s a"
  have all: "visited en a s t \<and> (d \<longrightarrow> d') \<and> ((idle_turn a s t \<and> n' = n)
      \<or> (start_of a s t \<and> n' = (if 1 < k then Suc n else n) \<and> (1 < k \<longrightarrow> \<not> waiting \<and> n < 2) \<and> (k = 1 \<longrightarrow> \<not> (front \<and> waiting))))
    \<and> (d' \<or> handled en a t)"
  proof (cases "busy ?p \<or> pn_paused ?p")
    case True
    then show ?thesis using r by (auto simp: visit_candidate_def handled_def)
  next
    case a: False
    show ?thesis
    proof (cases "k = 1 \<and> front \<and> waiting \<or> 1 < k \<and> (waiting \<or> 2 \<le> n)")
      case True
      then have "(n', d', t) = (n, True, s)" using r a by (auto simp: visit_candidate_def k_def Let_def)
      then show ?thesis by simp
    next
      case b: False
      show ?thesis
      proof (cases "has_known_size ?p")
        case False
        have "(n', d', t) = (n, d \<or> \<not> pn_failed ?p, upd_pane a (pn_wants_update (\<lambda>_. True)) s)"
          using r a b False unfolding visit_candidate_def k_def Let_def by (auto split: if_splits)
        then show ?thesis by (auto simp: visited_upd idle_turn_def handled_def)
      next
        case c: True
        obtain ok s1 where s1: "connect_unified en a s = (ok, s1)" by force
        have "(n', d', t) = (if ok \<and> 1 < k then Suc n else n, d, s1)"
          using r a b c s1 unfolding visit_candidate_def k_def Let_def by (auto split: if_splits)
        then have t: "n' = (if ok \<and> 1 < k then Suc n else n)" "d' = d" "t = s1" by simp_all
        note f = connect_fields [OF s1]
        have "handled en a t"
        proof (cases ok)
          case True
          then show ?thesis using f(2) by (auto simp: handled_def start_of_def busy_def t)
        next
          case False
          then have "refused en a s" using f(3) a c live by auto
          moreover have "refused en a s1 = refused en a s" using f(1) by (simp add: refused_def visited_def has_retry_def Let_def)
          ultimately show ?thesis by (simp add: handled_def t)
        qed
        then show ?thesis using f t b by (cases ok) auto
      qed
    qed
  qed
  then show "visited en a s t" "d \<longrightarrow> d'"
    "(idle_turn a s t \<and> n' = n) \<or> (start_of a s t \<and> n' = (if 1 < k then Suc n else n) \<and> (1 < k \<longrightarrow> \<not> waiting \<and> n < 2) \<and> (k = 1 \<longrightarrow> \<not> (front \<and> waiting)))"
    "d' \<or> handled en a t" by blast+
qed

text \<open>Streams started by panes of a priority above one.\<close>

definition started_behind :: "um_state \<Rightarrow> runtime \<Rightarrow> rt_out \<Rightarrow> bool" where
  "started_behind m s x = (case x of ConnectStarted a g i \<Rightarrow> 1 < rt_priority m (tr_panes s a) | _ \<Rightarrow> False)"

definition start_allowed :: "um_state \<Rightarrow> runtime \<Rightarrow> bool \<Rightarrow> bool \<Rightarrow> rt_out \<Rightarrow> bool" where
  "start_allowed m s front waiting x = (case x of ConnectStarted a g i \<Rightarrow>
       (waiting \<longrightarrow> rt_priority m (tr_panes s a) \<le> 1) \<and> (waiting \<and> front \<longrightarrow> rt_priority m (tr_panes s a) = 0) | _ \<Rightarrow> True)"

definition same_ids :: "runtime \<Rightarrow> runtime \<Rightarrow> bool" where
  "same_ids s t = (\<forall>a. pn_id (tr_panes t a) = pn_id (tr_panes s a))"

lemma same_ids_cong: "same_ids s t \<Longrightarrow> started_behind m t = started_behind m s" "same_ids s t \<Longrightarrow> start_allowed m t = start_allowed m s"
  by (simp_all add: same_ids_def started_behind_def start_allowed_def rt_priority_def fun_eq_iff split: rt_out.split)

lemma visited_ids: "visited en a s t \<Longrightarrow> same_ids s t"
  by (auto simp: visited_def same_ids_def Let_def)

lemma handled_kept:
  assumes v: "visited en a s t" and turn: "idle_turn a s t \<or> start_of a s t" and h: "handled en b s"
  shows "handled en b t"
proof (cases "b = a")
  case False
  then have "tr_panes t b = tr_panes s b" "tr_timers t = tr_timers s" using v by (simp_all add: visited_def)
  then show ?thesis using h by (simp add: handled_def refused_def has_retry_def)
next
  case True
  from turn show ?thesis
  proof
    assume "idle_turn a s t"
    then have "busy (tr_panes t a) = busy (tr_panes s a)" by (auto simp: idle_turn_def busy_def)
    then show ?thesis using h v True by (simp add: handled_def refused_def has_retry_def visited_def Let_def)
  next
    assume "start_of a s t"
    then show ?thesis using True by (auto simp: start_of_def handled_def busy_def)
  qed
qed

lemma visits:
  assumes "foldl (visit_candidate en m front waiting) (n, d, s) cs = (n', d', t)" "\<not> rt_stopped s"
  shows "same_page s t \<and> tr_timers t = tr_timers s \<and> same_ids s t \<and> (d \<longrightarrow> d')
    \<and> (\<exists>new. tr_outs t = tr_outs s @ new \<and> n' = n + length (filter (started_behind m s) new) \<and> list_all (start_allowed m s front waiting) new)
    \<and> (n' \<le> max 2 n) \<and> (\<forall>b. handled en b s \<longrightarrow> handled en b t) \<and> (d' \<or> (\<forall>a \<in> set cs. handled en a t))
    \<and> (\<forall>b. pn_unified (tr_panes t b) \<longrightarrow> pn_unified (tr_panes s b) \<or> b \<in> set cs) \<and> (\<forall>b. pn_retained (tr_panes t b) = pn_retained (tr_panes s b))"
  using assms
proof (induction cs arbitrary: n d s)
  case Nil
  then show ?case by (auto simp: same_ids_def)
next
  case (Cons a cs)
  obtain n1 d1 s1 where v: "visit_candidate en m front waiting (n, d, s) a = (n1, d1, s1)" by (metis prod_cases3)
  note f = visit_fields [OF v Cons.prems(2)]
  have sp: "same_page s s1" "tr_timers s1 = tr_timers s" using f(1) by (simp_all add: visited_def)
  have live: "\<not> rt_stopped s1" using sp(1) Cons.prems(2) by (simp add: same_page_def rt_stopped_def)
  have "foldl (visit_candidate en m front waiting) (n1, d1, s1) cs = (n', d', t)" using Cons.prems(1) v by simp
  note IH = Cons.IH [OF this live]
  obtain new where new: "tr_outs t = tr_outs s1 @ new" "n' = n1 + length (filter (started_behind m s1) new)" "list_all (start_allowed m s1 front waiting) new"
    using IH by blast
  have ids: "same_ids s s1" by (rule visited_ids [OF f(1)])
  have turn: "idle_turn a s s1 \<or> start_of a s s1" using f(3) by blast
  have outs: "\<exists>out. tr_outs s1 = tr_outs s @ out \<and> n1 = n + length (filter (started_behind m s) out) \<and> list_all (start_allowed m s front waiting) out"
    using f(3)
  proof (elim disjE conjE)
    assume "idle_turn a s s1" "n1 = n"
    then show ?thesis by (auto simp: idle_turn_def started_behind_def start_allowed_def)
  next
    assume "start_of a s s1" and k: "n1 = (if 1 < rt_priority m (tr_panes s a) then Suc n else n)"
      "1 < rt_priority m (tr_panes s a) \<longrightarrow> \<not> waiting \<and> n < 2" "rt_priority m (tr_panes s a) = 1 \<longrightarrow> \<not> (front \<and> waiting)"
    then obtain i where i: "tr_outs s1 = tr_outs s @ [ConnectStarted a (Suc (tr_generation s)) i]" by (auto simp: start_of_def)
    then show ?thesis using k by (intro exI [of _ "[ConnectStarted a (Suc (tr_generation s)) i]"])
        (auto simp: started_behind_def start_allowed_def not_less le_Suc_eq)
  qed
  then obtain out where out: "tr_outs s1 = tr_outs s @ out" "n1 = n + length (filter (started_behind m s) out)" "list_all (start_allowed m s front waiting) out"
    by blast
  have "\<exists>new. tr_outs t = tr_outs s @ new \<and> n' = n + length (filter (started_behind m s) new) \<and> list_all (start_allowed m s front waiting) new"
    using new out same_ids_cong [OF ids, of m] by (intro exI [of _ "out @ new"]) simp
  moreover have "n1 \<le> max 2 n" using f(3) by auto
  then have "n' \<le> max 2 n" using IH by auto
  moreover have "same_page s t" using IH sp(1) same_page_trans by blast
  moreover have "same_ids s t" using IH ids by (simp add: same_ids_def)
  moreover have "\<forall>b. handled en b s \<longrightarrow> handled en b t" using IH handled_kept [OF f(1) turn] by blast
  moreover have "d' \<or> (\<forall>b \<in> set (a # cs). handled en b t)" using IH f(4) by auto
  moreover have "\<forall>b. pn_unified (tr_panes t b) \<longrightarrow> pn_unified (tr_panes s b) \<or> b \<in> set (a # cs)"
  proof (intro allI impI)
    fix b assume "pn_unified (tr_panes t b)"
    then have "pn_unified (tr_panes s1 b) \<or> b \<in> set cs" using IH by blast
    moreover have "b \<noteq> a \<longrightarrow> tr_panes s1 b = tr_panes s b" using f(1) by (simp add: visited_def)
    ultimately show "pn_unified (tr_panes s b) \<or> b \<in> set (a # cs)" by auto
  qed
  moreover have "\<forall>b. pn_retained (tr_panes t b) = pn_retained (tr_panes s b)"
  proof
    fix b
    have "pn_retained (tr_panes s1 b) = pn_retained (tr_panes s b)" using f(1) by (cases "b = a") (auto simp: visited_def Let_def)
    then show "pn_retained (tr_panes t b) = pn_retained (tr_panes s b)" using IH by simp
  qed
  moreover have "tr_timers t = tr_timers s" using IH sp(2) by simp
  moreover have "d \<longrightarrow> d'" using IH f(2) by blast
  ultimately show ?case by blast
qed

lemma touches_ids: "touches a s t \<Longrightarrow> same_ids s t"
  by (auto simp: touches_def same_ids_def)

lemma touches_page: "touches a s t \<Longrightarrow> same_page s t" "touches a s t \<Longrightarrow> tr_outs t = tr_outs s" "touches a s t \<Longrightarrow> tr_generation t = tr_generation s"
  "\<lbrakk>touches a s t; b \<noteq> a\<rbrakk> \<Longrightarrow> tr_panes t b = tr_panes s b" "touches a s t \<Longrightarrow> pn_retained (tr_panes t b) = pn_retained (tr_panes s b)"
  by (auto simp: touches_def)

text \<open>The panes that are left to their stream although they are no member: their output is still being taken in.\<close>

definition kept_for_output :: "rt_env \<Rightarrow> runtime \<Rightarrow> nat \<Rightarrow> bool" where
  "kept_for_output en s a = (pn_retained (tr_panes s a) \<and> re_queued en a)"

definition may_stream :: "rt_env \<Rightarrow> um_state \<Rightarrow> runtime \<Rightarrow> nat \<Rightarrow> bool" where
  "may_stream en m s a = (if pn_unified (tr_panes s a) then mhas (um_members m) (pn_id (tr_panes s a)) \<or> kept_for_output en s a else True)"

definition drop_stranger :: "rt_env \<Rightarrow> um_state \<Rightarrow> runtime \<Rightarrow> nat \<Rightarrow> runtime" where
  "drop_stranger en m t a = (let p = tr_panes t a in if pn_unified p \<and> \<not> mhas (um_members m) (pn_id p)
     then snd (detach_unified en a (if pn_closed p then ''session_closed'' else ''membership_removed'') t) else t)"

lemma drop_strangers_alt: "drop_strangers en s = foldl (drop_stranger en (tr_membership s)) s (rt_sessions s)"
  unfolding drop_strangers_def drop_stranger_def ..

lemma drop_stranger_fields:
  "touches a s (drop_stranger en m s a)" "may_stream en m (drop_stranger en m s a) a"
    "pn_unified (tr_panes (drop_stranger en m s a) b) \<longrightarrow> pn_unified (tr_panes s b)"
proof -
  let ?t = "drop_stranger en m s a"
  have "touches a s ?t \<and> may_stream en m ?t a \<and> (pn_unified (tr_panes ?t b) \<longrightarrow> pn_unified (tr_panes s b))"
  proof (cases "pn_unified (tr_panes s a) \<and> \<not> mhas (um_members m) (pn_id (tr_panes s a))")
    case True
    then have "?t = snd (detach_unified en a (if pn_closed (tr_panes s a) then ''session_closed'' else ''membership_removed'') s)"
      by (simp add: drop_stranger_def Let_def)
    note f = detach_fields [OF this]
    have "kept_for_output en ?t a \<or> \<not> pn_unified (tr_panes ?t a)" using f(4) touches_page(5) [OF f(1)] by (auto simp: kept_for_output_def)
    moreover have "pn_unified (tr_panes ?t b) \<longrightarrow> pn_unified (tr_panes s b)" using f(7) touches_page(4) [OF f(1)] by (cases "b = a") auto
    ultimately show ?thesis using f(1) by (auto simp: may_stream_def)
  next
    case False
    then have "?t = s" by (auto simp: drop_stranger_def Let_def)
    then show ?thesis using False by (auto simp: may_stream_def touches_def)
  qed
  then show "touches a s ?t" "may_stream en m ?t a" "pn_unified (tr_panes ?t b) \<longrightarrow> pn_unified (tr_panes s b)" by blast+
qed

lemma strangers:
  assumes "foldl (drop_stranger en m) s as = t"
  shows "same_page s t \<and> same_ids s t \<and> tr_outs t = tr_outs s \<and> tr_generation t = tr_generation s
    \<and> (\<forall>b. pn_retained (tr_panes t b) = pn_retained (tr_panes s b)) \<and> (\<forall>b. pn_unified (tr_panes t b) \<longrightarrow> pn_unified (tr_panes s b))
    \<and> (\<forall>b \<in> set as. may_stream en m t b)"
  using assms
proof (induction as arbitrary: s)
  case Nil
  then show ?case by (simp add: same_ids_def)
next
  case (Cons a as)
  let ?u = "drop_stranger en m s a"
  have "foldl (drop_stranger en m) ?u as = t" using Cons.prems by simp
  note IH = Cons.IH [OF this]
  note f = drop_stranger_fields [where a = a and s = s and en = en and m = m]
  have "same_page s t" using IH touches_page(1) [OF f(1)] same_page_trans by blast
  moreover have "same_ids s t" using IH touches_ids [OF f(1)] by (simp add: same_ids_def)
  moreover have "tr_outs t = tr_outs s" "tr_generation t = tr_generation s" using IH touches_page(2,3) [OF f(1)] by simp_all
  moreover have ret: "\<forall>b. pn_retained (tr_panes t b) = pn_retained (tr_panes s b)" using IH touches_page(5) [OF f(1)] by simp
  moreover have "\<forall>b. pn_unified (tr_panes t b) \<longrightarrow> pn_unified (tr_panes s b)" using IH drop_stranger_fields(3) by blast
  moreover have "may_stream en m t a"
    using f(2) IH touches_page(5) [OF f(1)] ret by (auto simp: may_stream_def same_ids_def kept_for_output_def split: if_splits)
  then have "\<forall>b \<in> set (a # as). may_stream en m t b" using IH by auto
  ultimately show ?case by blast
qed

lemma tell_priorities_fields:
  "same_page s (tell_priorities m s)" "tr_panes (tell_priorities m s) = tr_panes s" "tr_timers (tell_priorities m s) = tr_timers s"
  "tr_generation (tell_priorities m s) = tr_generation s"
  "tr_outs (tell_priorities m s) = tr_outs s @ map (\<lambda>e. PrioritySet (fst e) (snd (snd e))) (um_members m)"
proof -
  have "same_page s t \<and> tr_panes t = tr_panes s \<and> tr_timers t = tr_timers s \<and> tr_generation t = tr_generation s
    \<and> tr_outs t = tr_outs s @ map (\<lambda>e. PrioritySet (fst e) (snd (snd e))) es"
    if "t = foldl (\<lambda>t e. rt_tell (PrioritySet (fst e) (snd (snd e))) t) s es" for t es
    using that
  proof (induction es arbitrary: s)
    case (Cons e es)
    note IH = Cons.IH [of "rt_tell (PrioritySet (fst e) (snd (snd e))) s"]
    then show ?case using Cons.prems by (auto intro: same_page_trans [OF rt_tell_simps(5)])
  qed simp
  from this [OF refl] show "same_page s (tell_priorities m s)" "tr_panes (tell_priorities m s) = tr_panes s"
    "tr_timers (tell_priorities m s) = tr_timers s" "tr_generation (tell_priorities m s) = tr_generation s"
    "tr_outs (tell_priorities m s) = tr_outs s @ map (\<lambda>e. PrioritySet (fst e) (snd (snd e))) (um_members m)"
    unfolding tell_priorities_def by blast+
qed

text \<open>One reconciliation, taken apart: the streams it starts, the panes it leaves, and who may keep a stream.\<close>

definition starts_of :: "rt_env \<Rightarrow> runtime \<Rightarrow> rt_out list" where
  "starts_of en s = filter (\<lambda>x. case x of ConnectStarted a g i \<Rightarrow> True | _ \<Rightarrow> False) (drop (length (tr_outs s)) (tr_outs (snd (rt_reconcile en s))))"

lemma clear_retry_frame [simp]: "tm_disposed (snd (clear_retry r i t)) = tm_disposed t" "tm_sync_timer (snd (clear_retry r i t)) = tm_sync_timer t"
  by (auto simp: clear_retry_def cancel_timer_def Let_def split: option.split)

lemma count_retry_frame [simp]: "tm_disposed (snd (count_retry i t)) = tm_disposed t" "tm_sync_timer (snd (count_retry i t)) = tm_sync_timer t"
  by (simp_all add: count_retry_def Let_def)

lemma schedule_retry_frame [simp]: "tm_disposed (snd (schedule_retry w i d t)) = tm_disposed t" "tm_sync_timer (snd (schedule_retry w i d t)) = tm_sync_timer t"
  by (auto simp: schedule_retry_def arm_timer_def split: prod.split)

lemma pane_retry_disposed [simp]: "tm_disposed (tr_timers (snd (schedule_pane_retry en a r i s))) = tm_disposed (tr_timers s)"
proof -
  obtain n s1 where s1: "with_timers (count_retry a) s = (n, s1)" by force
  let ?p = "\<lambda>p. p\<lparr>pn_retrying := True, pn_shown := (if is_network_failure r then ''network-error'' else ''reconnecting'')\<rparr>"
  obtain ok s3 where s3: "with_timers (schedule_retry (re_timers en) a (retry_delay_of i n)) (upd_pane a ?p s1) = (ok, s3)" by force
  have "tm_disposed (tr_timers s3) = tm_disposed (tr_timers s)"
    using with_timers_fields(5) [OF s1] with_timers_fields(5) [OF s3] by simp
  then show ?thesis using s1 s3 by (simp add: schedule_pane_retry_def Let_def clear_pane_retry_def)
qed

lemma detach_disposed [simp]: "tm_disposed (tr_timers (snd (detach_unified en a r s))) = tm_disposed (tr_timers s)"
  by (simp add: detach_unified_def close_listener_def Let_def clear_pane_retry_def)

lemma drop_strangers_disposed: "tm_disposed (tr_timers (drop_strangers en s)) = tm_disposed (tr_timers s)"
proof -
  have "tm_disposed (tr_timers (foldl (drop_stranger en m) s as)) = tm_disposed (tr_timers s)" for m as
    by (induction as arbitrary: s) (simp_all add: drop_stranger_def Let_def)
  then show ?thesis by (simp add: drop_strangers_alt)
qed

lemma handled_cong: "\<lbrakk>tr_panes t = tr_panes s; tm_retry (tr_timers t) = tm_retry (tr_timers s)\<rbrakk> \<Longrightarrow> handled en a t = handled en a s"
  by (simp add: handled_def refused_def has_retry_def)

lemma deferred_frame: "tm_retry (snd (schedule_deferred w d t)) = tm_retry t"
  "\<lbrakk>\<not> tm_disposed t; w\<rbrakk> \<Longrightarrow> tm_sync_timer (snd (schedule_deferred w d t)) \<noteq> None"
  by (auto simp: schedule_deferred_def arm_timer_def split: prod.split)

lemma may_stream_cong: "\<lbrakk>same_ids s t; pn_retained (tr_panes t a) = pn_retained (tr_panes s a); pn_unified (tr_panes t a) \<longrightarrow> pn_unified (tr_panes s a);
    may_stream en m s a\<rbrakk> \<Longrightarrow> may_stream en m t a"
  by (auto simp: may_stream_def same_ids_def kept_for_output_def split: if_splits)

lemma reconciled:
  fixes en :: rt_env and s :: runtime
  assumes live: "\<not> rt_stopped s" and on: "tr_online s"
  defines "m \<equiv> tr_membership s" and "d \<equiv> drop_strangers en s" and "t \<equiv> snd (rt_reconcile en s)"
  shows "length (filter (started_behind m s) (starts_of en s)) \<le> 2 - running_restores en m d"
    "list_all (start_allowed m s (input_restoring m d) (front_waiting en m d)) (starts_of en s)"
    "\<not> tm_disposed (tr_timers s) \<and> re_timers en \<and> a \<in> set (rt_candidates m d) \<longrightarrow> tm_sync_timer (tr_timers t) \<noteq> None \<or> handled en a t"
    "b \<in> set (rt_sessions s) \<longrightarrow> may_stream en m t b"
proof -
  let ?w = "foreground_since (re_now en) (front_restoring m d) (tr_waiting_since d)"
  let ?d = "d\<lparr>tr_waiting_since := ?w\<rparr>"
  let ?k = "running_restores en m d" and ?f = "input_restoring m d" and ?q = "front_waiting en m d" and ?cs = "rt_candidates m d"
  have st: "foldl (drop_stranger en m) s (rt_sessions s) = d" by (simp add: d_def m_def drop_strangers_alt)
  note sd = strangers [OF st]
  obtain n' d' u where u: "foldl (visit_candidate en m ?f ?q) (?k, False, ?d) ?cs = (n', d', u)" by (metis prod_cases3)
  have stop: "\<not> rt_stopped ?d" using sd live by (simp add: same_page_def rt_stopped_def)
  note v = visits [OF u stop]
  let ?u = "if d' then snd (with_timers (schedule_deferred (re_timers en) 0) u) else u"
  have t: "t = tell_priorities m ?u"
    using live on u by (simp add: t_def rt_reconcile_def visit_all_def m_def [symmetric] d_def [symmetric])
  have panes: "tr_panes t = tr_panes u" by (simp add: t tell_priorities_fields)
  obtain new where new: "tr_outs u = tr_outs ?d @ new" "n' = ?k + length (filter (started_behind m ?d) new)" "list_all (start_allowed m ?d ?f ?q) new"
    using v by blast
  have outs: "tr_outs t = tr_outs s @ new @ map (\<lambda>e. PrioritySet (fst e) (snd (snd e))) (um_members m)"
    using new(1) sd by (simp add: t tell_priorities_fields)
  have filt: "filter (\<lambda>x. case x of ConnectStarted a g i \<Rightarrow> True | _ \<Rightarrow> False) (map (\<lambda>e. PrioritySet (fst e) (snd (snd e))) es) = []" for es :: "(string \<times> nat \<times> nat) list"
    by (induction es) simp_all
  have starts: "starts_of en s = filter (\<lambda>x. case x of ConnectStarted a g i \<Rightarrow> True | _ \<Rightarrow> False) new"
    using outs by (simp add: starts_of_def t_def [symmetric] filt)
  have ids: "same_ids s ?d" using sd by (simp add: same_ids_def)
  note cong = same_ids_cong [OF ids, of m]
  have "length (filter (started_behind m s) new) \<le> 2 - ?k" using new(2) v cong(1) by auto
  moreover have "length (filter (started_behind m s) (starts_of en s)) \<le> length (filter (started_behind m s) new)"
    unfolding starts filter_filter by (induction new) auto
  ultimately show "length (filter (started_behind m s) (starts_of en s)) \<le> 2 - ?k" by linarith
  show "list_all (start_allowed m s ?f ?q) (starts_of en s)" using new(3) cong(2) by (auto simp: starts list_all_iff)
  show "\<not> tm_disposed (tr_timers s) \<and> re_timers en \<and> a \<in> set ?cs \<longrightarrow> tm_sync_timer (tr_timers t) \<noteq> None \<or> handled en a t"
  proof
    assume a: "\<not> tm_disposed (tr_timers s) \<and> re_timers en \<and> a \<in> set ?cs"
    show "tm_sync_timer (tr_timers t) \<noteq> None \<or> handled en a t"
    proof (cases d')
      case True
      have "\<not> tm_disposed (tr_timers u)" using a v drop_strangers_disposed [of en s] by (simp add: d_def)
      then show ?thesis using True a deferred_frame(2) by (simp add: t tell_priorities_fields)
    next
      case False
      then have "handled en a u" using v a by blast
      then show ?thesis using handled_cong [of t u] panes False by (simp add: t tell_priorities_fields)
    qed
  qed
  show "b \<in> set (rt_sessions s) \<longrightarrow> may_stream en m t b"
  proof
    assume b: "b \<in> set (rt_sessions s)"
    have ids_u: "same_ids d u" using v by (simp add: same_ids_def)
    have ret: "pn_retained (tr_panes u b) = pn_retained (tr_panes d b)" using v by simp
    have "may_stream en m u b"
    proof (cases "b \<in> set ?cs")
      case True
      then show ?thesis using ids_u by (auto simp: may_stream_def rt_candidates_def same_ids_def)
    next
      case False
      then have "pn_unified (tr_panes u b) \<longrightarrow> pn_unified (tr_panes d b)" using v by auto
      then show ?thesis using may_stream_cong [OF ids_u ret] sd b by blast
    qed
    then show "may_stream en m t b" by (auto simp: may_stream_def kept_for_output_def panes split: if_splits)
  qed
qed

subsection \<open>Channels, over whole runs\<close>

text \<open>
  The invariant of the channels: a generation was given out by the counter, a pane without a channel has none, and no
  two panes have the same.
\<close>

definition gens_ok :: "runtime \<Rightarrow> bool" where
  "gens_ok s = ((\<forall>a. pn_generation (tr_panes s a) \<le> tr_generation s \<and> (pn_unified (tr_panes s a) \<or> pn_generation (tr_panes s a) = 0))
     \<and> (\<forall>a b. a = b \<or> pn_generation (tr_panes s a) = 0 \<or> pn_generation (tr_panes s a) \<noteq> pn_generation (tr_panes s b)))"

text \<open>No pane has a socket that had none.\<close>

definition keeps_sockets :: "runtime \<Rightarrow> runtime \<Rightarrow> bool" where
  "keeps_sockets s t = (\<forall>a. pn_socket (tr_panes s a) = None \<longrightarrow> pn_socket (tr_panes t a) = None)"

lemma sockets_trans: "\<lbrakk>keeps_sockets s t; keeps_sockets t u\<rbrakk> \<Longrightarrow> keeps_sockets s u"
  by (simp add: keeps_sockets_def)

lemma sockets_same: "(\<And>a. pn_socket (tr_panes t a) = pn_socket (tr_panes s a)) \<Longrightarrow> keeps_sockets s t"
  by (simp add: keeps_sockets_def)

text \<open>All operations but a start give out nothing: they keep the channel of a pane or take it away, and install no socket.\<close>

definition shrinks :: "runtime \<Rightarrow> runtime \<Rightarrow> bool" where
  "shrinks s t = (tr_generation t = tr_generation s \<and> (\<forall>a. pn_unified (tr_panes t a) = pn_unified (tr_panes s a)
       \<and> pn_generation (tr_panes t a) = pn_generation (tr_panes s a) \<or> \<not> pn_unified (tr_panes t a) \<and> pn_generation (tr_panes t a) = 0)
     \<and> keeps_sockets s t)"

lemma shrinks_sockets: "shrinks s t \<Longrightarrow> keeps_sockets s t"
  by (simp add: shrinks_def)

lemma shrinks_gens: "\<lbrakk>shrinks s t; gens_ok s\<rbrakk> \<Longrightarrow> gens_ok t"
  unfolding shrinks_def gens_ok_def by (metis bot_nat_0.extremum)

lemma shrinks_trans: "\<lbrakk>shrinks s t; shrinks t u\<rbrakk> \<Longrightarrow> shrinks s u"
  unfolding shrinks_def by (metis sockets_trans)

lemma shrinks_same: "\<lbrakk>tr_generation t = tr_generation s; \<And>a. pn_unified (tr_panes t a) = pn_unified (tr_panes s a);
    \<And>a. pn_generation (tr_panes t a) = pn_generation (tr_panes s a); \<And>a. pn_socket (tr_panes t a) = pn_socket (tr_panes s a)\<rbrakk> \<Longrightarrow> shrinks s t"
  by (simp add: shrinks_def sockets_same)

lemma shrinks_foldl: "(\<And>t x. shrinks t (f t x)) \<Longrightarrow> shrinks s (foldl f s xs)"
  by (induction xs arbitrary: s) (auto simp: shrinks_same intro: shrinks_trans)

lemma close_shrinks: "shrinks s (close_listener en a r s)"
  unfolding shrinks_def
proof (intro conjI allI)
  note f = close_listener_fields [OF refl, where en = en and a = a and r = r and s = s]
  show "tr_generation (close_listener en a r s) = tr_generation s" by (rule touches_page(3) [OF f(1)])
  fix b
  show "pn_unified (tr_panes (close_listener en a r s) b) = pn_unified (tr_panes s b) \<and> pn_generation (tr_panes (close_listener en a r s) b) = pn_generation (tr_panes s b)
    \<or> \<not> pn_unified (tr_panes (close_listener en a r s) b) \<and> pn_generation (tr_panes (close_listener en a r s) b) = 0"
  proof (cases "b = a")
    case True
    then show ?thesis using f(4) by (auto split: if_splits)
  next
    case False
    then show ?thesis using touches_page(4) [OF f(1) False] by simp
  qed
next
  note f = close_listener_fields [OF refl, where en = en and a = a and r = r and s = s]
  have "pn_socket (tr_panes (close_listener en a r s) b) = None" if "pn_socket (tr_panes s b) = None" for b
    using f(2) touches_page(4) [OF f(1)] that by (cases "b = a") auto
  then show "keeps_sockets s (close_listener en a r s)" by (simp add: keeps_sockets_def)
qed

lemma detach_shrinks: "shrinks s (snd (detach_unified en a r s))"
proof -
  let ?s1 = "upd_pane a (pn_reason_update (\<lambda>_. r)) s"
  have 1: "shrinks s ?s1" by (simp add: shrinks_same)
  have "shrinks s (close_listener en a r ?s1)" by (rule shrinks_trans [OF 1 close_shrinks])
  moreover have "shrinks s (upd_pane a drop_channel ?s1)" by (simp add: shrinks_def drop_channel_def keeps_sockets_def)
  moreover have "shrinks s s" by (simp add: shrinks_same)
  ultimately show ?thesis by (simp add: detach_unified_def Let_def)
qed

lemma retry_shrinks: "shrinks s (snd (schedule_pane_retry en a r i s))"
proof -
  obtain x y where "tr_panes (snd (schedule_pane_retry en a r i s)) = (tr_panes s)(a := (tr_panes s a)\<lparr>pn_retrying := x, pn_shown := y\<rparr>)"
    using retry_fields(4) by blast
  then show ?thesis by (simp add: shrinks_same retry_fields(1))
qed

lemma timers_shrink: "shrinks s (snd (with_timers f s))" "shrinks s (clear_pane_retry x a s)" "shrinks s (snd (schedule_unified_sync s))" "shrinks s (rt_tell y s)"
  by (simp_all add: shrinks_same schedule_unified_sync_def)

lemma number_panes_fields:
  "tr_generation (number_panes as s) = tr_generation s" "pn_unified (tr_panes (number_panes as s) a) = pn_unified (tr_panes s a)"
  "pn_generation (tr_panes (number_panes as s) a) = pn_generation (tr_panes s a)" "pn_connecting (tr_panes (number_panes as s) a) = pn_connecting (tr_panes s a)"
  "pn_socket (tr_panes (number_panes as s) a) = pn_socket (tr_panes s a)"
proof -
  have "tr_generation t = tr_generation s \<and> pn_unified (tr_panes t a) = pn_unified (tr_panes s a) \<and> pn_generation (tr_panes t a) = pn_generation (tr_panes s a)
      \<and> pn_connecting (tr_panes t a) = pn_connecting (tr_panes s a) \<and> pn_socket (tr_panes t a) = pn_socket (tr_panes s a)"
    if "t = foldl (\<lambda>t (i, a). upd_pane a (pn_order_update (\<lambda>_. Suc i)) t) s xs" for t xs
    using that by (induction xs arbitrary: s) (auto split: prod.splits)
  from this [OF refl] show "tr_generation (number_panes as s) = tr_generation s" "pn_unified (tr_panes (number_panes as s) a) = pn_unified (tr_panes s a)"
    "pn_generation (tr_panes (number_panes as s) a) = pn_generation (tr_panes s a)" "pn_connecting (tr_panes (number_panes as s) a) = pn_connecting (tr_panes s a)"
    "pn_socket (tr_panes (number_panes as s) a) = pn_socket (tr_panes s a)"
    unfolding number_panes_def by blast+
qed

text \<open>Ordering the panes writes their numbers only.\<close>

definition order_only :: "runtime \<Rightarrow> runtime \<Rightarrow> bool" where
  "order_only s t = (tr_generation t = tr_generation s \<and> (\<forall>a. pn_unified (tr_panes t a) = pn_unified (tr_panes s a)
     \<and> pn_generation (tr_panes t a) = pn_generation (tr_panes s a) \<and> pn_connecting (tr_panes t a) = pn_connecting (tr_panes s a)
     \<and> pn_socket (tr_panes t a) = pn_socket (tr_panes s a)))"

lemma order_only_number: "order_only s (number_panes as s)" "order_only s s" "\<lbrakk>order_only s t; order_only t u\<rbrakk> \<Longrightarrow> order_only s u"
  by (simp_all add: order_only_def number_panes_fields)

lemma visual_order_only: "order_only s (snd (visual_order en tab as s))"
  by (simp add: visual_order_def Let_def order_only_number)

lemma global_order_only: "order_only s (snd (global_order en s))"
proof (cases "active_tab_of s")
  case (Some tab)
  let ?as = "filter (\<lambda>a. \<not> pn_closed (tr_panes s a) \<and> pn_name (tr_panes s a) = tr_active_name s) (map snd (pt_panes tab))"
  obtain ordered ready s1 where v: "visual_order en tab ?as s = ((ordered, ready), s1)" by (metis surj_pair)
  have "order_only s s1" using visual_order_only [of s en tab ?as] v by simp
  then have "order_only s (number_panes bs s1)" for bs using order_only_number(1,3) by blast
  then show ?thesis using Some v \<open>order_only s s1\<close> by (simp add: global_order_def Let_def)
qed (simp add: global_order_def order_only_number)

lemma order_shrinks: "order_only s t \<Longrightarrow> shrinks s t"
  by (simp add: order_only_def shrinks_same)

lemma visit_gens:
  assumes "gens_ok s" "visited en a s t" "idle_turn a s t \<or> start_of a s t"
  shows "gens_ok t"
  using assms(3)
proof
  assume i: "idle_turn a s t"
  have "shrinks s t"
  proof (rule shrinks_same)
    show "tr_generation t = tr_generation s" using i by (simp add: idle_turn_def)
    show "pn_unified (tr_panes t b) = pn_unified (tr_panes s b)" "pn_generation (tr_panes t b) = pn_generation (tr_panes s b)" for b
      using i assms(2) by (cases "b = a"; auto simp: idle_turn_def visited_def)+
    show "pn_socket (tr_panes t b) = pn_socket (tr_panes s b)" for b using assms(2) by (cases "b = a") (simp_all add: visited_def Let_def)
  qed
  then show ?thesis using assms(1) by (rule shrinks_gens)
next
  assume st: "start_of a s t"
  have rest: "tr_panes t b = tr_panes s b" if "b \<noteq> a" for b using assms(2) that by (simp add: visited_def)
  have g: "tr_generation t = Suc (tr_generation s)" "pn_unified (tr_panes t a)" "pn_generation (tr_panes t a) = Suc (tr_generation s)"
    using st by (auto simp: start_of_def)
  have le: "pn_generation (tr_panes s b) \<le> tr_generation s" for b using assms(1) by (simp add: gens_ok_def)
  have 1: "pn_generation (tr_panes t b) \<le> tr_generation t \<and> (pn_unified (tr_panes t b) \<or> pn_generation (tr_panes t b) = 0)" for b
  proof (cases "b = a")
    case False
    then have "tr_panes t b = tr_panes s b" by (rule rest)
    moreover have "pn_unified (tr_panes s b) \<or> pn_generation (tr_panes s b) = 0" using assms(1) by (simp add: gens_ok_def)
    ultimately show ?thesis using le [of b] g(1) by simp
  qed (simp add: g)
  have 2: "b = c \<or> pn_generation (tr_panes t b) = 0 \<or> pn_generation (tr_panes t b) \<noteq> pn_generation (tr_panes t c)" for b c
  proof (cases "b = a \<or> c = a")
    case True
    then show ?thesis using rest [of b] rest [of c] le [of b] le [of c] g(3) by (cases "b = c") auto
  next
    case False
    then show ?thesis using rest [of b] rest [of c] assms(1) by (simp add: gens_ok_def)
  qed
  show ?thesis unfolding gens_ok_def using 1 2 by blast
qed

lemma visits_gens: "\<lbrakk>foldl (visit_candidate en m f w) (n, d, s) cs = (n', d', t); \<not> rt_stopped s; gens_ok s\<rbrakk> \<Longrightarrow> gens_ok t"
proof (induction cs arbitrary: n d s)
  case (Cons a cs)
  obtain n1 d1 s1 where v: "visit_candidate en m f w (n, d, s) a = (n1, d1, s1)" by (metis prod_cases3)
  note vf = visit_fields [OF v Cons.prems(2)]
  have "gens_ok s1" using visit_gens [OF Cons.prems(3) vf(1)] vf(3) by blast
  moreover have "\<not> rt_stopped s1" using vf(1) Cons.prems(2) by (simp add: visited_def same_page_def rt_stopped_def)
  ultimately show ?case using Cons.IH Cons.prems(1) v by simp
qed simp

lemma gens_cong: "\<lbrakk>tr_panes t = tr_panes s; tr_generation t = tr_generation s\<rbrakk> \<Longrightarrow> gens_ok t = gens_ok s"
  by (simp add: gens_ok_def)

lemma gens_fields: "\<lbrakk>tr_generation t = tr_generation s; \<And>a. pn_unified (tr_panes t a) = pn_unified (tr_panes s a);
    \<And>a. pn_generation (tr_panes t a) = pn_generation (tr_panes s a)\<rbrakk> \<Longrightarrow> gens_ok t = gens_ok s"
  by (simp add: gens_ok_def)

lemma drop_strangers_shrinks: "shrinks s (drop_strangers en s)"
proof -
  have "shrinks t (drop_stranger en m t a)" for m t a by (simp add: drop_stranger_def Let_def detach_shrinks shrinks_same)
  then show ?thesis unfolding drop_strangers_alt by (rule shrinks_foldl)
qed

lemma visits_sockets: "\<lbrakk>foldl (visit_candidate en m f w) (n, d, s) cs = (n', d', t); \<not> rt_stopped s\<rbrakk> \<Longrightarrow> keeps_sockets s t"
proof (induction cs arbitrary: n d s)
  case (Cons a cs)
  obtain n1 d1 s1 where v: "visit_candidate en m f w (n, d, s) a = (n1, d1, s1)" by (metis prod_cases3)
  have vis: "visited en a s s1" by (rule visit_fields(1) [OF v Cons.prems(2)])
  have "pn_socket (tr_panes s1 b) = pn_socket (tr_panes s b)" for b using vis by (cases "b = a") (simp_all add: visited_def Let_def)
  then have "keeps_sockets s s1" by (rule sockets_same)
  moreover have "\<not> rt_stopped s1" using vis Cons.prems(2) by (simp add: visited_def same_page_def rt_stopped_def)
  then have "keeps_sockets s1 t" using Cons.IH Cons.prems(1) v by simp
  ultimately show ?case by (rule sockets_trans)
qed (simp add: sockets_same)

lemma reconcile_gens:
  assumes "gens_ok s"
  shows "gens_ok (snd (rt_reconcile en s))"
proof (cases "rt_stopped s \<or> \<not> tr_online s")
  case True
  then show ?thesis using assms by (simp add: rt_reconcile_def)
next
  case False
  let ?m = "tr_membership s"
  let ?d = "drop_strangers en s"
  obtain n d u where u: "visit_all en ?m ?d = (n, d, u)" by (metis prod_cases3)
  have "same_page s ?d" using strangers [OF drop_strangers_alt [symmetric, of en s]] by blast
  then have stop: "\<not> rt_stopped (?d\<lparr>tr_waiting_since := w\<rparr>)" for w using False by (simp add: same_page_def rt_stopped_def)
  have "gens_ok ?d" using shrinks_gens [OF drop_strangers_shrinks assms] .
  then have w: "gens_ok (?d\<lparr>tr_waiting_since := w\<rparr>)" for w by (simp add: gens_ok_def)
  have "gens_ok u" by (rule visits_gens [OF u [unfolded visit_all_def] stop w])
  then have "gens_ok (tell_priorities ?m (if d then snd (with_timers f u) else u))" for f
    by (simp add: gens_ok_def tell_priorities_fields)
  then show ?thesis using False u by (auto simp: rt_reconcile_def)
qed

lemma reconcile_sockets: "keeps_sockets s (snd (rt_reconcile en s))"
proof (cases "rt_stopped s \<or> \<not> tr_online s")
  case True
  then show ?thesis by (simp add: rt_reconcile_def sockets_same)
next
  case False
  let ?m = "tr_membership s"
  let ?d = "drop_strangers en s"
  obtain n d u where u: "visit_all en ?m ?d = (n, d, u)" by (metis prod_cases3)
  have "same_page s ?d" using strangers [OF drop_strangers_alt [symmetric, of en s]] by blast
  then have stop: "\<not> rt_stopped (?d\<lparr>tr_waiting_since := w\<rparr>)" for w using False by (simp add: same_page_def rt_stopped_def)
  have "keeps_sockets (?d\<lparr>tr_waiting_since := w\<rparr>) v = keeps_sockets ?d v" for w v by (simp add: keeps_sockets_def)
  then have "keeps_sockets ?d u" using visits_sockets [OF u [unfolded visit_all_def] stop] by simp
  then have "keeps_sockets s u" by (rule sockets_trans [OF shrinks_sockets [OF drop_strangers_shrinks]])
  then have "keeps_sockets s (tell_priorities ?m (if d then snd (with_timers f u) else u))" for f
    by (simp add: keeps_sockets_def tell_priorities_fields)
  then show ?thesis using False u by (auto simp: rt_reconcile_def)
qed

lemma measurement_shrinks: "shrinks s (measurement_pass en tab s)"
proof (cases tab)
  case None
  then show ?thesis by (simp add: measurement_pass_def shrinks_same)
next
  case (Some t)
  have "shrinks u (let p = tr_panes u a in if pn_closed p \<or> pn_name p \<noteq> tr_active_name u \<or> 0 < pn_measured p then u
         else snd (with_timers (schedule_measure (re_timers en) 4 a 0) u))" for u a
    by (simp add: Let_def timers_shrink shrinks_same)
  then show ?thesis unfolding Some measurement_pass_def option.case by (rule shrinks_foldl)
qed

text \<open>The state after the steps of a refresh that follow the ordering of the panes.\<close>

definition drop_removed :: "rt_env \<Rightarrow> runtime \<Rightarrow> nat \<Rightarrow> runtime" where
  "drop_removed en u a = (if pn_unified (tr_panes u a) \<and> pn_socket (tr_panes u a) \<noteq> None then snd (detach_unified en a ''membership_removed'' u) else u)"

lemma refresh_shape:
  assumes "\<not> rt_stopped s" "\<not> tr_applying s"
  obtains s1 s3 as where "order_only s s1" "tr_panes s3 = tr_panes s1" "tr_generation s3 = tr_generation s1"
    "snd (rt_refresh en i s) = snd (schedule_unified_sync (measurement_pass en (active_tab_of s) (foldl (drop_removed en) s3 as)))"
proof -
  obtain ordered ready s1 where g: "global_order en s = ((ordered, ready), s1)" by (metis surj_pair)
  obtain res m where r: "um_reconcile (\<lambda>a. um_of (tr_panes s1 a)) \<lparr>ur_target = Str (tr_active_name s1), ur_panes = map Some ordered,
           ur_tab = Str (case active_tab_of s of None \<Rightarrow> [] | Some t \<Rightarrow> pt_id t), ur_pane = Str (active_pane_id i (active_tab_of s) s1)\<rparr> (tr_membership s1) = (res, m)"
    by force
  let ?s2 = "s1\<lparr>tr_membership := m, tr_waiting_since := (if uo_targetChanged res then 0 else tr_waiting_since s1)\<rparr>"
  let ?s3 = "if uo_targetChanged res \<and> re_connection en \<and> \<not> re_matches en (tr_active_name ?s2) then rt_tell (TransportClosed ''context_changed'') ?s2 else ?s2"
  show ?thesis
  proof (rule that)
    show "order_only s s1" using global_order_only [of s en] g by simp
    show "tr_panes ?s3 = tr_panes s1" by (simp split: if_split)
    show "tr_generation ?s3 = tr_generation s1" by (simp split: if_split)
    have "rt_refresh en i s = (True, snd (schedule_unified_sync (measurement_pass en (active_tab_of s) (foldl (drop_removed en) ?s3 (uo_removed res)))))"
      unfolding rt_refresh_def Let_def g r prod.case if_not_P [OF assms(1)] if_not_P [OF assms(2)] drop_removed_def [abs_def] ..
    then show "snd (rt_refresh en i s) = snd (schedule_unified_sync (measurement_pass en (active_tab_of s) (foldl (drop_removed en) ?s3 (uo_removed res))))"
      by (simp only: snd_conv)
  qed
qed

lemma refresh_shrinks: "shrinks s (snd (rt_refresh en i s))"
proof (cases "rt_stopped s \<or> tr_applying s")
  case True
  then show ?thesis by (auto simp: rt_refresh_def shrinks_same)
next
  case False
  then obtain s1 s3 as where f: "order_only s s1" "tr_panes s3 = tr_panes s1" "tr_generation s3 = tr_generation s1"
    "snd (rt_refresh en i s) = snd (schedule_unified_sync (measurement_pass en (active_tab_of s) (foldl (drop_removed en) s3 as)))"
    using refresh_shape [of s en i] by blast
  have "shrinks t (drop_removed en t a)" for t a by (simp add: drop_removed_def detach_shrinks shrinks_same)
  then have "shrinks s3 (foldl (drop_removed en) s3 as)" by (rule shrinks_foldl)
  moreover have "shrinks s s3" using order_shrinks [OF f(1)] f(2,3) by (simp add: shrinks_def keeps_sockets_def)
  ultimately have "shrinks s (foldl (drop_removed en) s3 as)" by (rule shrinks_trans [rotated])
  then show ?thesis unfolding f(4) by (rule shrinks_trans [OF shrinks_trans [OF _ measurement_shrinks] timers_shrink(3)])
qed

lemma upd_shrinks: "(\<And>p. pn_unified (f p) = pn_unified p \<and> pn_generation (f p) = pn_generation p \<and> pn_socket (f p) = pn_socket p) \<Longrightarrow> shrinks s (upd_pane a f s)"
  by (simp add: shrinks_same)

lemma request_shrinks: "shrinks s (snd (request_connection en user a s))"
  unfolding request_connection_def Let_def
  by (auto intro!: shrinks_same [of s s] shrinks_trans [OF upd_shrinks refresh_shrinks])

lemma pending_shrinks: "shrinks s (snd (connect_pending en live hidden fits a s))"
proof -
  have 1: "shrinks s s" by (simp add: shrinks_same)
  have 2: "shrinks s (upd_pane a (pn_wants_update f) s)" "shrinks s (upd_pane a (pn_measured_update g) s)" for f g by (simp_all add: shrinks_same)
  have 3: "shrinks s (snd (schedule_unified_sync (upd_pane a (pn_wants_update f) s)))" for f by (rule shrinks_trans [OF 2(1) timers_shrink(3)])
  have 4: "shrinks s (snd (request_connection en False a (upd_pane a (pn_measured_update g) s)))" for g by (rule shrinks_trans [OF 2(2) request_shrinks])
  show ?thesis using 1 2 3 4 request_shrinks by (simp add: connect_pending_def Let_def split: option.split)
qed

lemma settles_shrinks: "shrinks s (attempt_settles en a g started error s)"
proof -
  let ?mine = "pn_unified (tr_panes s a) \<and> pn_generation (tr_panes s a) = g"
  let ?s1 = "if \<not> started \<and> ?mine
           then snd (schedule_pane_retry en a error False (snd (detach_unified en a ''unified_retry'' (rt_tell (StartFailed a) s)))) else s"
  have "shrinks s (snd (schedule_pane_retry en a error False (snd (detach_unified en a ''unified_retry'' (rt_tell (StartFailed a) s)))))"
    by (rule shrinks_trans [OF shrinks_trans [OF timers_shrink(4) detach_shrinks] retry_shrinks])
  moreover have "shrinks s s" by (simp add: shrinks_same)
  ultimately have 1: "shrinks s ?s1" by simp
  have "shrinks s (upd_pane a (pn_connecting_update (\<lambda>_. False)) ?s1)" by (rule shrinks_trans [OF 1]) (simp add: shrinks_same)
  then show ?thesis using 1 unfolding attempt_settles_def Let_def by presburger
qed

lemma recycle_panes:
  "snd (recycle_unified en a reason i s) = (if pn_exit (tr_panes s a) \<or> \<not> pn_unified (tr_panes s a) then s
     else snd (schedule_pane_retry en a reason i (snd (detach_unified en a ''unified_retry'' (upd_pane a (\<lambda>p. p\<lparr>pn_retrying := True,
       pn_shown := (if is_network_failure reason then ''network-error'' else ''reconnecting'')\<rparr>) s)))))"
  by (simp add: recycle_unified_def Let_def split: prod.split rt_result.split)

lemma recycle_shrinks: "shrinks s (snd (recycle_unified en a reason i s))"
proof -
  let ?s1 = "upd_pane a (\<lambda>p. p\<lparr>pn_retrying := True, pn_shown := (if is_network_failure reason then ''network-error'' else ''reconnecting'')\<rparr>) s"
  have 1: "shrinks s ?s1" by (simp add: shrinks_same)
  have "shrinks s (snd (schedule_pane_retry en a reason i (snd (detach_unified en a ''unified_retry'' ?s1))))"
    by (rule shrinks_trans [OF shrinks_trans [OF 1 detach_shrinks] retry_shrinks])
  moreover have "shrinks s s" by (simp add: shrinks_same)
  ultimately show ?thesis by (simp add: recycle_panes)
qed

lemma exited_shrinks: "shrinks s (snd (finish_exited en a s))"
proof -
  have "shrinks s (snd (rt_refresh en None (snd (detach_unified en a ''terminal_exited'' (clear_pane_retry True a s)))))"
    by (rule shrinks_trans [OF shrinks_trans [OF timers_shrink(2) detach_shrinks] refresh_shrinks])
  moreover have "shrinks s s" by (simp add: shrinks_same)
  ultimately show ?thesis by (simp add: finish_exited_def Let_def)
qed

lemma callback_gens: "gens_ok s \<Longrightarrow> gens_ok (rt_callback en c s)"
  by (auto simp: rt_callback_def Let_def split: prod.split slot.split intro: reconcile_gens shrinks_gens [OF timers_shrink(3)] shrinks_gens [OF timers_shrink(4)])

lemma fires_gens:
  assumes "gens_ok s"
  shows "gens_ok (rt_timer_fires en h s)"
proof -
  have "gens_ok (s\<lparr>tr_timers := t\<rparr>)" for t using assms by (simp add: gens_ok_def)
  then show ?thesis by (simp add: rt_timer_fires_def Let_def callback_gens)
qed

lemma runtime_step_gens:
  assumes "gens_ok s"
  shows "gens_ok (runtime_step s e)"
proof -
  note by_shrinking = shrinks_gens [OF _ assms]
  show ?thesis
  proof (cases e)
    case (RtFlushRefresh en)
    have "shrinks s (snd (rt_refresh en None (s\<lparr>tr_refresh_pending := False\<rparr>)))"
      by (rule shrinks_trans [OF _ refresh_shrinks]) (simp add: shrinks_same)
    then show ?thesis using assms RtFlushRefresh by (simp add: flush_refresh_def by_shrinking)
  next
    case (RtTimer en h)
    then show ?thesis using fires_gens [OF assms] by simp
  next
    case (RtSettles en a g started error)
    then show ?thesis using assms by_shrinking [OF settles_shrinks] by simp
  next
    case (RtClosed en a reason)
    then show ?thesis using assms by_shrinking [OF close_shrinks] by simp
  next
    case (RtSocket a k)
    have "gens_ok (upd_pane a (pn_socket_update f) s) = gens_ok s" for f by (rule gens_fields) simp_all
    then show ?thesis using assms RtSocket by simp
  next
    case RtDispose
    then show ?thesis using assms by (simp add: rt_dispose_def Let_def gens_ok_def)
  next
    case (RtPage tabs active_tab target online applying gone)
    then show ?thesis using assms by (simp add: gens_ok_def)
  next
    case (RtPane a shut exit committed paused current ready failed measured)
    then show ?thesis by (simp add: by_shrinking shrinks_same)
  next
    case (RtUnregister a)
    then show ?thesis using by_shrinking [OF timers_shrink(1)] by (simp add: unregister_pane_def)
  qed (simp_all add: by_shrinking refresh_shrinks request_shrinks pending_shrinks timers_shrink(3) recycle_shrinks retry_shrinks detach_shrinks exited_shrinks)
qed

text \<open>Only the attempt that runs installs a socket.\<close>

lemma callback_sockets: "keeps_sockets s (rt_callback en c s)"
  by (auto simp: rt_callback_def Let_def sockets_same split: prod.split slot.split
    intro: reconcile_sockets shrinks_sockets [OF timers_shrink(3)] shrinks_sockets [OF timers_shrink(4)])

lemma fires_sockets: "keeps_sockets s (rt_timer_fires en h s)"
proof -
  have 1: "keeps_sockets s (s\<lparr>tr_timers := t\<rparr>)" for t by (simp add: sockets_same)
  then have "keeps_sockets s (rt_callback en c (s\<lparr>tr_timers := t\<rparr>))" for t c by (rule sockets_trans [OF _ callback_sockets])
  then show ?thesis using 1 by (simp add: rt_timer_fires_def Let_def)
qed

lemma runtime_step_sockets:
  assumes "\<And>a k. e \<noteq> RtSocket a k"
  shows "keeps_sockets s (runtime_step s e)"
proof -
  have same: "keeps_sockets s s" by (simp add: sockets_same)
  show ?thesis
  proof (cases e)
    case (RtFlushRefresh en)
    have "shrinks s (snd (rt_refresh en None (s\<lparr>tr_refresh_pending := False\<rparr>)))"
      by (rule shrinks_trans [OF _ refresh_shrinks]) (simp add: shrinks_same)
    then show ?thesis using same RtFlushRefresh by (simp add: flush_refresh_def shrinks_sockets)
  next
    case (RtSettles en a g started error)
    then show ?thesis using same shrinks_sockets [OF settles_shrinks] by simp
  next
    case (RtClosed en a reason)
    then show ?thesis using same shrinks_sockets [OF close_shrinks] by simp
  next
    case (RtSocket a k)
    then show ?thesis using assms by simp
  next
    case RtDispose
    then show ?thesis by (simp add: rt_dispose_def Let_def sockets_same)
  next
    case (RtUnregister a)
    then show ?thesis using shrinks_sockets [OF timers_shrink(1)] by (simp add: unregister_pane_def)
  qed (simp_all add: shrinks_sockets refresh_shrinks request_shrinks pending_shrinks timers_shrink(3) recycle_shrinks retry_shrinks detach_shrinks
      exited_shrinks fires_sockets sockets_same)
qed

interpretation rtm: invariant_machine runtime_step gens_ok
  by standard (rule runtime_step_gens)

text \<open>The runtime when it is created: no pane has a channel or a socket, whatever else is known of it.\<close>

definition rt_start :: "(nat \<Rightarrow> pane) \<Rightarrow> page_tab list \<Rightarrow> string \<Rightarrow> string \<Rightarrow> runtime" where
  "rt_start info tabs active_tab target = \<lparr>tr_panes = (\<lambda>a. (drop_channel (info a))\<lparr>pn_socket := None, pn_connecting := False\<rparr>), tr_tabs = tabs,
     tr_active_tab = active_tab, tr_active_name = target, tr_membership = um_init, tr_timers = timers_start, tr_generation = 0,
     tr_refresh_pending = False, tr_waiting_since = 0, tr_disposed = False, tr_page_gone = False, tr_online = True, tr_applying = False, tr_outs = []\<rparr>"

lemma gens_ok_start: "gens_ok (rt_start info tabs active_tab target)"
  by (simp add: gens_ok_def rt_start_def drop_channel_def)

subsection \<open>A start that fails without a socket\<close>

text \<open>
  The pane is held to be connecting, and has neither a socket nor a channel: \<open>busy\<close>, so that a reconciliation passes it over.
\<close>

definition stuck :: "nat \<Rightarrow> runtime \<Rightarrow> bool" where
  "stuck a s = (pn_connecting (tr_panes s a) \<and> \<not> pn_unified (tr_panes s a) \<and> pn_generation (tr_panes s a) = 0 \<and> pn_socket (tr_panes s a) = None)"

lemma stuck_same: "\<lbrakk>stuck a s; tr_panes t a = tr_panes s a\<rbrakk> \<Longrightarrow> stuck a t"
  by (simp add: stuck_def)

lemma stuck_foldl: "\<lbrakk>\<And>t x. stuck a t \<Longrightarrow> stuck a (f t x); stuck a s\<rbrakk> \<Longrightarrow> stuck a (foldl f s xs)"
  by (induction xs arbitrary: s) auto

lemma stuck_detach: "stuck a s \<Longrightarrow> stuck a (snd (detach_unified en b r s))"
proof (cases "b = a")
  case True
  then show "stuck a s \<Longrightarrow> stuck a (snd (detach_unified en b r s))" by (simp add: stuck_def detach_unified_def)
next
  case False
  assume "stuck a s"
  then show ?thesis using touches_page(4) [OF detach_fields(1) [OF refl], of a b] False by (auto intro: stuck_same)
qed

lemma stuck_upd: "(\<And>p. pn_unified (f p) = pn_unified p \<and> pn_generation (f p) = pn_generation p \<and> pn_connecting (f p) = pn_connecting p \<and> pn_socket (f p) = pn_socket p)
    \<Longrightarrow> stuck a s \<Longrightarrow> stuck a (upd_pane b f s)"
  by (cases "a = b") (simp_all add: stuck_def)

lemma stuck_retry: "stuck a s \<Longrightarrow> stuck a (snd (schedule_pane_retry en b r i s))"
proof -
  assume st: "stuck a s"
  obtain x y where "tr_panes (snd (schedule_pane_retry en b r i s)) = (tr_panes s)(b := (tr_panes s b)\<lparr>pn_retrying := x, pn_shown := y\<rparr>)"
    using retry_fields(4) by blast
  then show ?thesis using st by (auto simp: stuck_def)
qed

lemma stuck_order: "\<lbrakk>order_only s t; stuck a s\<rbrakk> \<Longrightarrow> stuck a t"
  by (simp add: order_only_def stuck_def)

lemma stuck_timers: "stuck a s \<Longrightarrow> stuck a (snd (with_timers f s))" "stuck a s \<Longrightarrow> stuck a (clear_pane_retry x b s)"
  "stuck a s \<Longrightarrow> stuck a (snd (schedule_unified_sync s))" "stuck a s \<Longrightarrow> stuck a (rt_tell y s)"
  by (simp_all add: stuck_def schedule_unified_sync_def)

lemma stuck_visits: "\<lbrakk>foldl (visit_candidate en m f w) (n, d, s) cs = (n', d', t); \<not> rt_stopped s; stuck a s\<rbrakk> \<Longrightarrow> stuck a t"
proof (induction cs arbitrary: n d s)
  case (Cons b cs)
  obtain n1 d1 s1 where v: "visit_candidate en m f w (n, d, s) b = (n1, d1, s1)" by (metis prod_cases3)
  note vf = visit_fields [OF v Cons.prems(2)]
  have "stuck a s1"
  proof (cases "b = a")
    case True
    then have "s1 = s" using v Cons.prems(3) by (simp add: visit_candidate_def stuck_def busy_def Let_def)
    then show ?thesis using Cons.prems(3) by simp
  next
    case False
    then show ?thesis using vf(1) stuck_same [OF Cons.prems(3)] by (simp add: visited_def)
  qed
  moreover have "\<not> rt_stopped s1" using vf(1) Cons.prems(2) by (simp add: visited_def same_page_def rt_stopped_def)
  ultimately show ?case using Cons.IH Cons.prems(1) v by simp
qed simp

lemma stuck_reconcile:
  assumes "stuck a s"
  shows "stuck a (snd (rt_reconcile en s))"
proof (cases "rt_stopped s \<or> \<not> tr_online s")
  case True
  then show ?thesis using assms by (simp add: rt_reconcile_def)
next
  case False
  let ?m = "tr_membership s"
  let ?d = "drop_strangers en s"
  obtain n d u where u: "visit_all en ?m ?d = (n, d, u)" by (metis prod_cases3)
  have "same_page s ?d" using strangers [OF drop_strangers_alt [symmetric, of en s]] by blast
  then have stop: "\<not> rt_stopped (?d\<lparr>tr_waiting_since := w\<rparr>)" for w using False by (simp add: same_page_def rt_stopped_def)
  have "stuck a (drop_stranger en ?m t b)" if "stuck a t" for t b using that by (simp add: drop_stranger_def Let_def stuck_detach)
  then have "stuck a ?d" unfolding drop_strangers_alt using assms by (rule stuck_foldl)
  then have w: "stuck a (?d\<lparr>tr_waiting_since := w\<rparr>)" for w by (simp add: stuck_def)
  have "stuck a u" by (rule stuck_visits [OF u [unfolded visit_all_def] stop w])
  then have "stuck a (tell_priorities ?m (if d then snd (with_timers f u) else u))" for f by (simp add: stuck_def tell_priorities_fields)
  then show ?thesis using False u by (auto simp: rt_reconcile_def)
qed

lemma stuck_measurement: "stuck a s \<Longrightarrow> stuck a (measurement_pass en tab s)"
proof (cases tab)
  case None
  then show "stuck a s \<Longrightarrow> stuck a (measurement_pass en tab s)" by (simp add: measurement_pass_def)
next
  case (Some t)
  have "stuck a (let p = tr_panes u b in if pn_closed p \<or> pn_name p \<noteq> tr_active_name u \<or> 0 < pn_measured p then u
         else snd (with_timers (schedule_measure (re_timers en) 4 b 0) u))" if "stuck a u" for u b
    using that by (simp add: Let_def stuck_timers)
  then show "stuck a s \<Longrightarrow> stuck a (measurement_pass en tab s)" unfolding Some measurement_pass_def option.case by (rule stuck_foldl)
qed

lemma stuck_refresh:
  assumes "stuck a s"
  shows "stuck a (snd (rt_refresh en i s))"
proof (cases "rt_stopped s \<or> tr_applying s")
  case True
  then show ?thesis using assms by (auto simp: rt_refresh_def stuck_def)
next
  case False
  then obtain s1 s3 as where f: "order_only s s1" "tr_panes s3 = tr_panes s1" "tr_generation s3 = tr_generation s1"
    "snd (rt_refresh en i s) = snd (schedule_unified_sync (measurement_pass en (active_tab_of s) (foldl (drop_removed en) s3 as)))"
    using refresh_shape [of s en i] by blast
  have "stuck a (drop_removed en t b)" if "stuck a t" for t b using that by (simp add: drop_removed_def stuck_detach)
  moreover have "stuck a s3" using stuck_order [OF f(1) assms] f(2) by (simp add: stuck_def)
  ultimately have "stuck a (foldl (drop_removed en) s3 as)" by (rule stuck_foldl)
  then show ?thesis unfolding f(4) by (rule stuck_timers(3) [OF stuck_measurement])
qed

lemma stuck_request:
  assumes "stuck a s"
  shows "stuck a (snd (request_connection en user b s))"
proof -
  have "stuck a (upd_pane b (\<lambda>p. p\<lparr>pn_interacted := x, pn_wants := y\<rparr>) s)" for x y using assms by (auto intro: stuck_upd)
  then show ?thesis using assms by (simp add: request_connection_def Let_def stuck_refresh stuck_upd)
qed

lemma stuck_pending:
  assumes "stuck a s"
  shows "stuck a (snd (connect_pending en live hidden fits b s))"
proof -
  have 1: "stuck a (upd_pane b (pn_wants_update f) s)" "stuck a (upd_pane b (pn_measured_update g) s)" for f g using assms by (auto intro: stuck_upd)
  show ?thesis using assms 1 stuck_request [OF assms] stuck_request [OF 1(2)] stuck_timers(3) [OF 1(1)]
    by (simp add: connect_pending_def Let_def split: option.split)
qed

lemma stuck_settles:
  assumes "stuck a s" "0 < g"
  shows "stuck a (attempt_settles en b g started error s)"
proof (cases "b = a")
  case True
  then show ?thesis using assms by (simp add: attempt_settles_def stuck_def Let_def)
next
  case False
  let ?s1 = "if \<not> started \<and> pn_unified (tr_panes s b) \<and> pn_generation (tr_panes s b) = g
           then snd (schedule_pane_retry en b error False (snd (detach_unified en b ''unified_retry'' (rt_tell (StartFailed b) s)))) else s"
  have "stuck a ?s1" using assms(1) by (simp add: stuck_retry stuck_detach stuck_timers)
  moreover from this have "stuck a (upd_pane b (pn_connecting_update (\<lambda>_. False)) ?s1)" using False by (simp add: stuck_def)
  ultimately show ?thesis unfolding attempt_settles_def Let_def by presburger
qed

lemma stuck_fires:
  assumes "stuck a s"
  shows "stuck a (rt_timer_fires en h s)"
proof -
  have "stuck a (rt_callback en c t)" if "stuck a t" for c t
    using that by (auto simp: rt_callback_def Let_def stuck_reconcile stuck_timers split: prod.split slot.split)
  moreover have "stuck a (s\<lparr>tr_timers := t\<rparr>)" for t using assms by (simp add: stuck_def)
  ultimately show ?thesis by (simp add: rt_timer_fires_def Let_def)
qed

lemma stuck_step:
  assumes "stuck a s"
  shows "stuck a (runtime_step s e)"
proof (cases e)
  case (RtFlushRefresh en)
  have "stuck a (s\<lparr>tr_refresh_pending := False\<rparr>)" using assms by (simp add: stuck_def)
  then show ?thesis using assms RtFlushRefresh by (simp add: flush_refresh_def stuck_refresh)
next
  case (RtSettles en b g started error)
  then show ?thesis using assms by (simp add: stuck_settles)
next
  case (RtRecycle en b reason i)
  then show ?thesis using assms by (simp add: recycle_panes stuck_retry stuck_detach stuck_upd)
next
  case (RtClosed en b reason)
  have "stuck a (close_listener en b reason s)" if "pn_socket (tr_panes s b) \<noteq> None"
  proof -
    have "b \<noteq> a" using that assms by (auto simp: stuck_def)
    then show ?thesis using touches_page(4) [OF close_listener_fields(1) [OF refl], of a b] assms by (auto intro: stuck_same)
  qed
  then show ?thesis using assms RtClosed by simp
next
  case (RtSocket b k)
  then show ?thesis using assms by (auto simp: stuck_def)
next
  case (RtExited en b)
  then show ?thesis using assms by (simp add: finish_exited_def Let_def stuck_refresh stuck_detach stuck_timers)
next
  case RtDispose
  then show ?thesis using assms by (simp add: rt_dispose_def Let_def stuck_def)
next
  case (RtPage tabs active_tab target online applying gone)
  then show ?thesis using assms by (simp add: stuck_def)
next
  case (RtPane b shut exit committed paused current ready failed measured)
  then show ?thesis using assms by (simp add: stuck_upd)
next
  case (RtUnregister b)
  then show ?thesis using assms by (simp add: unregister_pane_def stuck_timers)
qed (use assms in \<open>simp_all add: stuck_refresh stuck_request stuck_pending stuck_fires stuck_timers stuck_retry stuck_detach\<close>)

interpretation stm: invariant_machine runtime_step "stuck a" for a
  by standard (rule stuck_step)

text \<open>What the undeclared name does to a retry: the timer is set, and the caller gets an exception.\<close>

lemma new_retry_raises:
  assumes "\<not> rt_stopped s" "\<not> pn_closed (tr_panes s a)" "\<not> pn_exit (tr_panes s a)" "pn_current (tr_panes s a)" "\<not> pn_paused (tr_panes s a)"
    "tr_online s" "\<not> has_retry a s" "re_timers en" "\<not> tm_disposed (tr_timers s)"
  shows "fst (schedule_pane_retry en a reason i s) = Raised"
proof -
  obtain n s1 where s1: "with_timers (count_retry a) s = (n, s1)" by force
  have "\<not> mhas (tm_retry (tr_timers s1)) a" "\<not> tm_disposed (tr_timers s1)"
    using assms(7,9) with_timers_fields(5) [OF s1] by (simp_all add: has_retry_def count_retry_def Let_def)
  then show ?thesis using assms s1 by (simp add: schedule_pane_retry_def Let_def with_timers_def schedule_retry_def split: prod.split)
qed

subsection \<open>The properties\<close>

definition rt_working :: "runtime \<Rightarrow> bool" where
  "rt_working s = (\<not> rt_stopped s \<and> tr_online s)"

text \<open>
  C19. However many panes wait, one reconciliation starts at most as many streams of background panes (neither the
  input pane nor visible) as are missing to two background restores that count. A restore counts while it was started less
  than 60 seconds ago: one that has stalled for longer no longer holds the others back, so that more than two may run. A
  runtime that is stopped or offline starts none.
\<close>

theorem background_restores_bounded:
  "if rt_working s then length (filter (started_behind (tr_membership s) s) (starts_of en s)) \<le> 2 - running_restores en (tr_membership s) (drop_strangers en s)
   else starts_of en s = []"
  using reconciled(1) by (auto simp: rt_working_def starts_of_def rt_reconcile_def)

text \<open>
  C18. The pane with the input comes first: while a foreground pane restores its history, for at most 20 seconds, a
  reconciliation starts no stream of a background pane, and if it is the input pane that restores, it starts no other
  pane's stream at all.
\<close>

theorem input_pane_first:
  "if rt_working s then list_all (start_allowed (tr_membership s) s (input_restoring (tr_membership s) (drop_strangers en s))
     (front_waiting en (tr_membership s) (drop_strangers en s))) (starts_of en s)
   else starts_of en s = []"
  using reconciled(2) by (auto simp: rt_working_def starts_of_def rt_reconcile_def)

text \<open>
  C17. No pane is forgotten: after a reconciliation every member is connected or connecting, or is held back by its own
  state (paused, closed, exited, a worker that failed, a retry that is due, a physical connection that is not usable), or
  another reconciliation is scheduled.
\<close>

theorem no_pane_forgotten:
  "if rt_working s \<and> re_timers en \<and> tm_disposed (tr_timers s) = False
   then list_all (\<lambda>a. case tm_sync_timer (tr_timers (snd (rt_reconcile en s))) of Some h \<Rightarrow> True | None \<Rightarrow> handled en a (snd (rt_reconcile en s)))
     (rt_candidates (tr_membership s) (drop_strangers en s))
   else fst (rt_reconcile en s) = rt_working s"
  using reconciled(3) [of s en] by (auto simp: rt_working_def list_all_iff rt_reconcile_def split: prod.splits option.split)

text \<open>
  After a reconciliation a pane of the page has a stream only if it is a member of the membership, or its output is
  kept and still being taken in.
\<close>

theorem strangers_are_detached:
  "if rt_working s then list_all (may_stream en (tr_membership s) (snd (rt_reconcile en s))) (rt_sessions s) else snd (rt_reconcile en s) = s"
  using reconciled(4) by (auto simp: rt_working_def list_all_iff rt_reconcile_def)

text \<open>
  Whatever happens after the runtime is created, two panes never have the same channel generation, a pane without a
  channel has none, and every generation was given out by the counter: what settles for an attempt concerns one pane at most.
\<close>

theorem channels_unique: "gens_ok (foldl runtime_step (rt_start info tabs active_tab target) events)"
  by (rule rtm.inv_run [OF gens_ok_start])

text \<open>
  C20. When the start of a stream fails before it has a socket, its pane is held to be connecting for good: no event of the
  runtime makes it connect again.
\<close>

theorem failed_start_blocks_pane:
  "stuck a (foldl runtime_step (runtime_step (upd_pane a (\<lambda>p. p\<lparr>pn_connecting := True, pn_unified := True, pn_generation := Suc g, pn_socket := None\<rparr>) s)
     (RtSettles en a (Suc g) False error)) events)"
proof (rule stm.inv_run)
  let ?s = "rt_tell (StartFailed a) (upd_pane a (\<lambda>p. p\<lparr>pn_connecting := True, pn_unified := True, pn_generation := Suc g, pn_socket := None\<rparr>) s)"
  let ?t = "snd (schedule_pane_retry en a error False (snd (detach_unified en a ''unified_retry'' ?s)))"
  have "stuck a (snd (detach_unified en a ''unified_retry'' ?s))" by (simp add: detach_unified_def Let_def stuck_def drop_channel_def)
  then have st: "stuck a ?t" by (rule stuck_retry)
  then have "pn_generation (tr_panes ?t a) \<noteq> Suc g" by (simp add: stuck_def)
  then show "stuck a (runtime_step (upd_pane a (\<lambda>p. p\<lparr>pn_connecting := True, pn_unified := True, pn_generation := Suc g, pn_socket := None\<rparr>) s)
     (RtSettles en a (Suc g) False error))" using st by (simp add: attempt_settles_def Let_def)
qed

end
