(* ===== verification/Unified_Transport.thy ===== *)
theory Unified_Transport
  imports Transport_Runtime Unified_Health
begin

section \<open>The owner of the physical connection\<close>

text \<open>
  Model of \<open>terminal/transport/unified_transport_controller.js\<close> (under \<open>src/runtime/static\<close>): it holds the one physical
  connection that carries the streams of all panes, with the watchdog of theory Unified_Health and the runtime of theory
  Transport_Runtime. A connection that is closed or lost leaves a fence behind, a promise that settles when the connection
  is closed or a timer runs out; until then no other is made. After a loss a microtask closes what is left, waits for the
  fence, and has the runtime refresh its membership.

  A connection is a number, given out in turn. What it answers (its snapshot, whether connecting raises, the order of the
  streams it carries) is an argument of each operation, its callbacks are events. \<open>ut_carrier\<close> is the connection on which the
  latest stream of a pane was opened, which the listeners of its socket hold on to. Closing a connection closes its streams at
  once, which runs the \<open>close\<close> listener of each pane; the listener asks whether the pane's connection is among the closed ones. Settled promises, microtasks and timers are events too.
\<close>

datatype ut_out = ConnectionCreated nat string | ConnectionClosed nat string | FenceArmed nat nat | PingSent nat
  | MembershipRefreshed | SessionsReconnected | RecoveryFailed

record transport =
  ut_connection :: "nat option"
  ut_target :: string
  ut_watchdog :: "uh_state option"
  ut_closed :: "nat list"
  ut_carrier :: "nat \<Rightarrow> nat option"
  ut_fence :: "nat option"
  ut_fences :: "(nat \<times> string) list"
  ut_expected :: string
  ut_scheduled :: bool
  ut_microtasks :: "string list"
  ut_running :: bool
  ut_waits :: "nat option option"
  ut_pending :: string
  ut_retry_timer :: bool
  ut_disposed :: bool
  ut_seen :: "nat \<Rightarrow> jnum \<times> bool"
  ut_next :: nat
  ut_next_fence :: nat
  ut_runtime :: runtime
  ut_outs :: "ut_out list"

record ut_env =
  ue_now :: int
  ue_url :: bool
  ue_connect_fails :: bool
  ue_view :: "nat \<Rightarrow> uh_view"
  ue_logical :: "nat \<Rightarrow> nat"
  ue_streams :: "nat \<Rightarrow> nat list"
  ue_socket_open :: "nat \<Rightarrow> bool"
  ue_timers :: bool
  ue_rt :: rt_env

definition ut_start :: "runtime \<Rightarrow> transport" where
  "ut_start rt = \<lparr>ut_connection = None, ut_target = [], ut_watchdog = None, ut_closed = [], ut_carrier = (\<lambda>_. None), ut_fence = None, ut_fences = [], ut_expected = [],
     ut_scheduled = False, ut_microtasks = [], ut_running = False, ut_waits = None, ut_pending = [], ut_retry_timer = False, ut_disposed = False,
     ut_seen = (\<lambda>_. (socket_closed, False)), ut_next = 0, ut_next_fence = 0, ut_runtime = rt, ut_outs = []\<rparr>"

definition ut_tell :: "ut_out \<Rightarrow> transport \<Rightarrow> transport" where
  "ut_tell x s = s\<lparr>ut_outs := ut_outs s @ [x]\<rparr>"

definition with_runtime :: "(runtime \<Rightarrow> runtime) \<Rightarrow> transport \<Rightarrow> transport" where
  "with_runtime f s = s\<lparr>ut_runtime := f (ut_runtime s)\<rparr>"

text \<open>\<open>disposed || getDisposed() || !isOnline()\<close>, negated.\<close>

definition ut_alive :: "transport \<Rightarrow> bool" where
  "ut_alive s = (\<not> ut_disposed s \<and> \<not> tr_page_gone (ut_runtime s) \<and> tr_online (ut_runtime s))"

definition member_ids :: "transport \<Rightarrow> string list" where
  "member_ids s = map fst (um_members (tr_membership (ut_runtime s)))"

definition ready_state :: "ut_env \<Rightarrow> nat \<Rightarrow> jnum" where
  "ready_state en c = js_number (uv_readyState (ue_view en c))"

definition or_text :: "string \<Rightarrow> string \<Rightarrow> string" where
  "or_text t fallback = (if t = [] then fallback else t)"

subsection \<open>Closing\<close>

definition close_fence_delay :: "nat \<Rightarrow> nat" where
  "close_fence_delay n = max 250 (min 2000 n)"

text \<open>\<open>createCloseFence\<close> and \<open>registerClosingFence\<close>; \<open>reason\<close>: the expected reason the fence clears when it settles.\<close>

definition arm_fence :: "string \<Rightarrow> transport \<Rightarrow> transport" where
  "arm_fence reason s = (let f = ut_next_fence s in ut_tell (FenceArmed f (close_fence_delay 500))
     (s\<lparr>ut_fence := Some f, ut_fences := ut_fences s @ [(f, reason)], ut_next_fence := Suc f\<rparr>))"

definition fence_settles :: "nat \<Rightarrow> transport \<Rightarrow> transport" where
  "fence_settles f s = (case map_of (ut_fences s) f of None \<Rightarrow> s
     | Some reason \<Rightarrow> s\<lparr>ut_fences := filter (\<lambda>x. fst x \<noteq> f) (ut_fences s),
         ut_expected := (if reason \<noteq> [] \<and> ut_expected s = reason then [] else ut_expected s),
         ut_fence := (if ut_fence s = Some f then None else ut_fence s)\<rparr>)"

text \<open>\<open>sharedPhysicalTransportLost\<close>: the listener's own connection is among the closed ones.\<close>

definition pane_lost :: "transport \<Rightarrow> nat \<Rightarrow> bool" where
  "pane_lost s a = (case ut_carrier s a of None \<Rightarrow> False | Some c \<Rightarrow> c \<in> set (ut_closed s))"

definition lost_env :: "(nat \<Rightarrow> bool) \<Rightarrow> ut_env \<Rightarrow> nat \<Rightarrow> rt_env" where
  "lost_env lost en a = (ue_rt en)\<lparr>re_lost := lost a\<rparr>"

text \<open>The connection closes all its streams: the close listeners run.\<close>

definition streams_on :: "ut_env \<Rightarrow> nat \<Rightarrow> transport \<Rightarrow> nat list" where
  "streams_on en c s = filter (\<lambda>a. ut_carrier s a = Some c) (ue_streams en c)"

definition close_streams :: "(nat \<Rightarrow> bool) \<Rightarrow> ut_env \<Rightarrow> nat list \<Rightarrow> string \<Rightarrow> runtime \<Rightarrow> runtime" where
  "close_streams lost en as reason rt = foldl (\<lambda>t a. if pn_unified (tr_panes t a) \<and> pn_socket (tr_panes t a) \<noteq> None
     then close_listener (lost_env lost en a) a reason t else t) rt as"

definition close_connection :: "ut_env \<Rightarrow> nat \<Rightarrow> string \<Rightarrow> transport \<Rightarrow> transport" where
  "close_connection en c reason s = with_runtime (close_streams (pane_lost s) en (streams_on en c s) reason) (ut_tell (ConnectionClosed c reason) s)"

definition mark_reason :: "string \<Rightarrow> runtime \<Rightarrow> runtime" where
  "mark_reason reason rt = foldl (\<lambda>t a. if pn_unified (tr_panes t a) then upd_pane a (pn_reason_update (\<lambda>_. reason)) t else t) rt (rt_sessions rt)"

definition ut_close :: "ut_env \<Rightarrow> string \<Rightarrow> transport \<Rightarrow> bool \<times> transport" where
  "ut_close en reason s = (let r = or_text reason ''context_changed''; s1 = with_runtime (mark_reason r) s in
     case ut_connection s1 of None \<Rightarrow> (False, s1)
     | Some c \<Rightarrow> let s2 = arm_fence r (s1\<lparr>ut_expected := r, ut_connection := None, ut_target := [], ut_watchdog := None\<rparr>)
         in (True, close_connection en c r (s2\<lparr>ut_closed := c # ut_closed s2\<rparr>)))"

subsection \<open>Recovery\<close>

definition needs_recovery :: "ut_env \<Rightarrow> transport \<Rightarrow> bool" where
  "needs_recovery en s = (case ut_connection s of None \<Rightarrow> False
     | Some c \<Rightarrow> num_eq (ready_state en c) socket_closed \<and> member_ids s \<noteq> [])"

definition schedule_recovery :: "string \<Rightarrow> transport \<Rightarrow> bool \<times> transport" where
  "schedule_recovery reason s = (let r = or_text reason ''transport_failure'' in
     if \<not> ut_alive s then (False, s)
     else if ut_scheduled s \<or> ut_running s then (True, s\<lparr>ut_pending := r\<rparr>)
     else (True, s\<lparr>ut_scheduled := True, ut_microtasks := ut_microtasks s @ [r]\<rparr>))"

text \<open>The microtask, up to the promise it waits for.\<close>

definition recovery_starts :: "ut_env \<Rightarrow> transport \<Rightarrow> transport" where
  "recovery_starts en s = (case ut_microtasks s of [] \<Rightarrow> s
     | r # rs \<Rightarrow> let s1 = s\<lparr>ut_microtasks := rs, ut_scheduled := False\<rparr> in
         if \<not> ut_alive s1 \<or> ut_running s1 then s1
         else let s2 = snd (ut_close en ''transport_recovery'' (s1\<lparr>ut_running := True\<rparr>)) in s2\<lparr>ut_waits := Some (ut_fence s2)\<rparr>)"

definition wait_over :: "transport \<Rightarrow> bool" where
  "wait_over s = (case ut_waits s of None \<Rightarrow> False | Some None \<Rightarrow> True | Some (Some f) \<Rightarrow> f \<notin> set (map fst (ut_fences s)))"

text \<open>The rest of it; \<open>fails\<close>: \<open>reconnectWorkspaceSessions\<close> raises.\<close>

definition recovery_ends :: "ut_env \<Rightarrow> transport \<Rightarrow> transport" where
  "recovery_ends en s = (let r = ut_pending s; s1 = s\<lparr>ut_running := False, ut_pending := []\<rparr> in
     if r \<noteq> [] \<and> ut_alive s1 \<and> needs_recovery en s1 then snd (schedule_recovery r s1) else s1)"

definition recovery_resumes :: "ut_env \<Rightarrow> bool \<Rightarrow> transport \<Rightarrow> transport" where
  "recovery_resumes en fails s = (if \<not> wait_over s then s
     else let s1 = s\<lparr>ut_waits := None, ut_expected := []\<rparr>;
       s2 = (if \<not> ut_alive s1 then s1
         else let s2 = ut_tell MembershipRefreshed (with_runtime (\<lambda>rt. snd (rt_refresh (ue_rt en) None rt)) s1) in
           if \<not> fails then ut_tell SessionsReconnected s2
           else let s3 = ut_tell RecoveryFailed s2 in
             if ut_alive s3 \<and> tr_active_name (ut_runtime s3) \<noteq> [] \<and> \<not> ut_retry_timer s3 then s3\<lparr>ut_retry_timer := ue_timers en\<rparr> else s3)
       in recovery_ends en s2)"

definition recovery_timer_fires :: "transport \<Rightarrow> transport" where
  "recovery_timer_fires s = (if \<not> ut_retry_timer s then s else snd (schedule_recovery ''transport_recovery_retry'' (s\<lparr>ut_retry_timer := False\<rparr>)))"

text \<open>What a lost connection does to a pane.\<close>

definition lose_socket :: "(nat \<Rightarrow> bool) \<Rightarrow> ut_env \<Rightarrow> string \<Rightarrow> nat \<Rightarrow> runtime \<Rightarrow> runtime" where
  "lose_socket lost en reason a t = (let p = tr_panes t a in
     if \<not> pn_closed p \<and> pn_name p = tr_active_name t \<and> pn_unified p \<and> pn_socket p \<noteq> None \<and> ue_socket_open en a
     then close_listener (lost_env lost en a) a ''unified_retry'' (upd_pane a (pn_reason_update (\<lambda>_. reason)) t) else t)"

definition show_lost :: "string \<Rightarrow> nat \<Rightarrow> runtime \<Rightarrow> runtime" where
  "show_lost reason a t = (let p = tr_panes t a in
     if \<not> pn_closed p \<and> \<not> pn_exit p \<and> pn_name p = tr_active_name t \<and> pn_unified p
     then upd_pane a (\<lambda>p. p\<lparr>pn_retrying := True, pn_shown := (if \<not> tr_online t then ''offline''
       else if is_network_failure reason then ''network-error'' else ''reconnecting'')\<rparr>) t
     else t)"

definition lose_pane :: "(nat \<Rightarrow> bool) \<Rightarrow> ut_env \<Rightarrow> string \<Rightarrow> runtime \<Rightarrow> nat \<Rightarrow> runtime" where
  "lose_pane lost en reason t a = show_lost reason a (lose_socket lost en reason a t)"

definition retire_connection :: "ut_env \<Rightarrow> nat \<Rightarrow> transport \<Rightarrow> transport" where
  "retire_connection en c s = (let
       s1 = s\<lparr>ut_closed := c # ut_closed s, ut_watchdog := map_option (uh_set_connection (ue_now en) None) (ut_watchdog s)\<rparr>;
       s2 = (if ut_fence s1 = None then arm_fence [] s1 else s1)
     in if ut_connection s2 = Some c then s2\<lparr>ut_connection := None, ut_target := []\<rparr> else s2)"

definition handle_disconnect :: "ut_env \<Rightarrow> nat \<Rightarrow> string \<Rightarrow> bool \<Rightarrow> transport \<Rightarrow> bool \<times> transport" where
  "handle_disconnect en c reason shut s = (if c \<in> set (ut_closed s) then (False, s)
     else let r = or_text reason ''unified_transport_closed'';
       s0 = retire_connection en c s;
       s1 = with_runtime (\<lambda>rt. foldl (lose_pane (pane_lost s0) en r) rt (rt_sessions rt)) s0;
       s2 = (if shut then close_connection en c r s1 else s1)
     in (True, snd (schedule_recovery r s2)))"

subsection \<open>The watchdog\<close>

definition watch_config :: uh_config where
  "watch_config = uh_configure (4 * 1000) (12 * 1000) (12 * 1000) 45000"

definition start_watchdog :: "ut_env \<Rightarrow> nat \<Rightarrow> transport \<Rightarrow> transport" where
  "start_watchdog en c s = s\<lparr>ut_watchdog := Some (uh_set_connection (ue_now en) (Some (c, ue_view en c)) (uh_start (ue_now en)))\<rparr>"

text \<open>The callbacks of a check, for the connection the watchdog held when it began.\<close>

fun health_out :: "ut_env \<Rightarrow> nat option \<Rightarrow> transport \<Rightarrow> uh_output \<Rightarrow> transport" where
  "health_out en (Some c) s (OutUnhealthy r) = snd (handle_disconnect en c r False s)"
| "health_out en (Some c) s (OutClose r) = close_connection en c r s"
| "health_out en (Some c) s (OutDisconnected r) = (if ut_connection s = Some c then snd (schedule_recovery r s) else s)"
| "health_out en (Some c) s OutPing = ut_tell (PingSent c) s"
| "health_out en None s (OutDisconnected r) = snd (schedule_recovery r s)"
| "health_out en None s _ = s"

definition run_check :: "(uh_config \<Rightarrow> bool \<Rightarrow> string \<Rightarrow> int \<Rightarrow> uh_view \<Rightarrow> uh_state \<Rightarrow> (uh_action \<times> string) \<times> uh_output list \<times> uh_state)
    \<Rightarrow> ut_env \<Rightarrow> string \<Rightarrow> transport \<Rightarrow> uh_action \<times> transport" where
  "run_check check en reason s = (case ut_watchdog s of None \<Rightarrow> (Paused, s)
     | Some h \<Rightarrow> (case check watch_config (\<not> ut_alive s) reason (ue_now en) (case uh_connection h of None \<Rightarrow> ue_view en 0 | Some c \<Rightarrow> ue_view en c) h of
         ((action, _), outs, h1) \<Rightarrow> (action, foldl (health_out en (uh_connection h)) (s\<lparr>ut_watchdog := Some h1\<rparr>) outs)))"

definition watch_tick :: "ut_env \<Rightarrow> transport \<Rightarrow> transport" where
  "watch_tick en s = (case ut_watchdog s of None \<Rightarrow> s | Some h \<Rightarrow> if uh_timer h then snd (run_check uh_check en ''interval'' s) else s)"

definition ut_probe :: "ut_env \<Rightarrow> string \<Rightarrow> transport \<Rightarrow> bool \<times> transport" where
  "ut_probe en reason s = (if ut_watchdog s = None \<or> ut_connection s = None then (False, s)
     else case run_check uh_probe en reason s of (action, s1) \<Rightarrow> (action \<noteq> Paused, s1))"

definition retry_unavailable :: "ut_env \<Rightarrow> string \<Rightarrow> transport \<Rightarrow> bool \<times> transport" where
  "retry_unavailable en reason s = (if \<not> ut_alive s then (False, s)
     else if (case ut_connection s of None \<Rightarrow> False | Some c \<Rightarrow> \<not> num_eq (ready_state en c) socket_closed) then (False, s)
     else if member_ids s = [] then (False, s)
     else (True, snd (schedule_recovery reason s)))"

subsection \<open>Making a connection\<close>

datatype ut_answer = NoConnection | Connected nat | ConnectRaised

definition ut_ensure :: "ut_env \<Rightarrow> string \<Rightarrow> transport \<Rightarrow> ut_answer \<times> transport" where
  "ut_ensure en name s = (let t = js_trim name in
     if ut_disposed s \<or> t = [] \<or> ut_fence s \<noteq> None then (NoConnection, s)
     else case ut_connection s of
       Some c \<Rightarrow> if ut_target s = t \<and> \<not> num_eq (ready_state en c) socket_closing \<and> \<not> num_eq (ready_state en c) socket_closed
           then (Connected c, s) else (NoConnection, snd (ut_close en ''unified_target_changed'' s))
     | None \<Rightarrow> if \<not> ue_url en then (NoConnection, s)
         else let c = ut_next s; s1 = start_watchdog en c (ut_tell (ConnectionCreated c t) (s\<lparr>ut_next := Suc c, ut_connection := Some c, ut_target := t\<rparr>))
           in (if ue_connect_fails en then ConnectRaised else Connected c, s1))"

text \<open>\<open>onStateChange\<close> of a connection.\<close>

definition state_changes :: "ut_env \<Rightarrow> nat \<Rightarrow> jnum \<Rightarrow> bool \<Rightarrow> transport \<Rightarrow> transport" where
  "state_changes en c state ready s = (if ut_connection s \<noteq> Some c then s
     else let previous = fst (ut_seen s c); was_ready = snd (ut_seen s c);
       opened = (num_eq state socket_open \<and> \<not> num_eq previous socket_open); readied = (ready \<and> \<not> was_ready);
       s1 = s\<lparr>ut_seen := (ut_seen s)(c := (state, ready))\<rparr>;
       s2 = (if num_eq state socket_connecting \<or> num_eq state socket_open then s1\<lparr>ut_watchdog := map_option uh_start_timer (ut_watchdog s1)\<rparr> else s1);
       sync = with_runtime (\<lambda>rt. snd (schedule_unified_sync rt));
       s3 = (if opened then sync (snd (run_check uh_probe en ''transport_open'' s2)) else s2);
       s4 = (if readied then sync (snd (run_check uh_probe en ''agent_ready'' s3)) else s3)
     in if num_eq state socket_closed \<and> ut_expected s4 = [] \<and> c \<notin> set (ut_closed s4)
        then snd (handle_disconnect en c ''unified_transport_closed'' False s4) else s4)"

definition physical_error :: "ut_env \<Rightarrow> nat \<Rightarrow> transport \<Rightarrow> transport" where
  "physical_error en c s = (if ut_connection s \<noteq> Some c then s else snd (handle_disconnect en c ''unified_websocket_error'' True s))"

text \<open>The socket of a connection closes: the owner is told first, then its streams are closed.\<close>

definition physical_close :: "ut_env \<Rightarrow> nat \<Rightarrow> string \<Rightarrow> transport \<Rightarrow> transport" where
  "physical_close en c reason s = (let s1 = (if ut_connection s = Some c \<and> ut_expected s = []
       then snd (handle_disconnect en c (or_text reason ''unified_websocket_closed'') False s) else s)
     in with_runtime (close_streams (pane_lost s1) en (streams_on en c s1) reason) s1)"

definition closed_settles :: "ut_env \<Rightarrow> nat \<Rightarrow> transport \<Rightarrow> transport" where
  "closed_settles en c s = (if ut_connection s = Some c \<and> ut_expected s = []
     then snd (handle_disconnect en c ''unified_transport_closed_finally'' False s) else s)"

text \<open>\<open>prepare\<close> answers a function that cancels; \<open>Some None\<close> is the one that has no connection.\<close>

definition ut_prepare :: "ut_env \<Rightarrow> string \<Rightarrow> transport \<Rightarrow> nat option option \<times> transport" where
  "ut_prepare en name s = (let t = js_trim name in
     if \<not> ut_alive s \<or> t = [] \<or> t \<noteq> tr_active_name (ut_runtime s) \<or> ut_connection s \<noteq> None \<or> ut_fence s \<noteq> None then (None, s)
     else case ut_ensure en t s of
       (ConnectRaised, s1) \<Rightarrow> (None, snd (ut_close en ''transport_preparation_failed'' s1))
     | (Connected c, s1) \<Rightarrow> (Some (Some c), s1)
     | (NoConnection, s1) \<Rightarrow> (Some None, s1))"

definition cancel_prepared :: "ut_env \<Rightarrow> nat option \<Rightarrow> string \<Rightarrow> transport \<Rightarrow> transport" where
  "cancel_prepared en prepared reason s = (case prepared of None \<Rightarrow> s
     | Some c \<Rightarrow> if ut_connection s = Some c \<and> ue_logical en c = 0 then snd (ut_close en reason s) else s)"

definition ut_matches :: "string \<Rightarrow> transport \<Rightarrow> bool" where
  "ut_matches name s = (ut_connection s \<noteq> None \<and> ut_target s = js_trim name)"

definition ut_dispose :: "ut_env \<Rightarrow> string \<Rightarrow> transport \<Rightarrow> bool \<times> transport" where
  "ut_dispose en reason s = (if ut_disposed s then (False, s)
     else (True, (snd (ut_close en reason (s\<lparr>ut_retry_timer := False\<rparr>)))\<lparr>ut_disposed := True\<rparr>))"

text \<open>
  The attempt that runs for a pane opens its stream on the connection that stands and installs its socket; without a
  connection \<open>connectSession\<close> raises.
\<close>

definition install_socket :: "nat \<Rightarrow> nat \<Rightarrow> transport \<Rightarrow> transport" where
  "install_socket a k s = (case ut_connection s of None \<Rightarrow> s
     | Some c \<Rightarrow> if pn_unified (tr_panes (ut_runtime s) a) \<and> pn_connecting (tr_panes (ut_runtime s) a)
         then with_runtime (\<lambda>rt. runtime_step rt (RtSocket a k)) (s\<lparr>ut_carrier := (ut_carrier s)(a := Some c)\<rparr>) else s)"

datatype ut_event = UtEnsure ut_env string | UtPrepare ut_env string | UtCancel ut_env "nat option" string | UtClose ut_env string
  | UtSchedule string | UtRecover ut_env | UtResume ut_env bool | UtRetryTimer | UtFence nat | UtState ut_env nat jnum bool
  | UtError ut_env nat | UtPhysicalClose ut_env nat string | UtClosedSettles ut_env nat | UtTick ut_env | UtProbe ut_env string
  | UtRetryUnavailable ut_env string | UtClearExpected | UtDispose ut_env string | UtRuntime rt_event

text \<open>\<open>UtRuntime\<close>: the runtime's own events, between those of the transport; a socket is installed on the connection.\<close>

fun ut_step :: "transport \<Rightarrow> ut_event \<Rightarrow> transport" where
  "ut_step s (UtEnsure en name) = snd (ut_ensure en name s)"
| "ut_step s (UtPrepare en name) = snd (ut_prepare en name s)"
| "ut_step s (UtCancel en prepared reason) = cancel_prepared en prepared reason s"
| "ut_step s (UtClose en reason) = snd (ut_close en reason s)"
| "ut_step s (UtSchedule reason) = snd (schedule_recovery reason s)"
| "ut_step s (UtRecover en) = recovery_starts en s"
| "ut_step s (UtResume en fails) = recovery_resumes en fails s"
| "ut_step s UtRetryTimer = recovery_timer_fires s"
| "ut_step s (UtFence f) = fence_settles f s"
| "ut_step s (UtState en c state ready) = state_changes en c state ready s"
| "ut_step s (UtError en c) = physical_error en c s"
| "ut_step s (UtPhysicalClose en c reason) = physical_close en c reason s"
| "ut_step s (UtClosedSettles en c) = closed_settles en c s"
| "ut_step s (UtTick en) = watch_tick en s"
| "ut_step s (UtProbe en reason) = snd (ut_probe en reason s)"
| "ut_step s (UtRetryUnavailable en reason) = snd (retry_unavailable en reason s)"
| "ut_step s UtClearExpected = s\<lparr>ut_expected := []\<rparr>"
| "ut_step s (UtDispose en reason) = snd (ut_dispose en reason s)"
| "ut_step s (UtRuntime e) = (case e of RtSocket a k \<Rightarrow> install_socket a k s | _ \<Rightarrow> with_runtime (\<lambda>rt. runtime_step rt e) s)"

definition ut_run :: "runtime \<Rightarrow> ut_event list \<Rightarrow> transport" where
  "ut_run rt es = foldl ut_step (ut_start rt) es"

section \<open>What the owner guarantees\<close>

subsection \<open>What the runtime keeps\<close>

lemma same_page_foldl: "(\<And>t x. same_page t (f t x)) \<Longrightarrow> same_page s (foldl f s xs)"
  by (induction xs arbitrary: s) (auto intro: same_page_trans)

lemma close_streams_page: "same_page rt (close_streams lost en as reason rt)"
proof -
  have "same_page t (close_listener e a r t)" for e a r t by (rule touches_page(1) [OF close_listener_fields(1) [OF refl]])
  then show ?thesis unfolding close_streams_def by (intro same_page_foldl) simp
qed

lemma mark_reason_page: "same_page rt (mark_reason reason rt)"
  unfolding mark_reason_def by (rule same_page_foldl) simp

lemma lose_pane_page: "same_page t (lose_pane lost en reason t a)"
proof -
  let ?u = "upd_pane a (pn_reason_update (\<lambda>_. reason)) t"
  have "same_page t (close_listener (lost_env lost en a) a r ?u)" for r
    by (rule same_page_trans [OF upd_pane_simps(5) touches_page(1) [OF close_listener_fields(1) [OF refl]]])
  then have "same_page t (lose_socket lost en reason a t)" by (simp add: lose_socket_def Let_def)
  moreover have "same_page u (show_lost reason a u)" for u by (simp add: show_lost_def Let_def)
  ultimately show ?thesis unfolding lose_pane_def by (rule same_page_trans)
qed

lemma lose_panes_page: "same_page rt (foldl (lose_pane lost en reason) rt as)"
  by (rule same_page_foldl) (rule lose_pane_page)

lemma alive_cong: "same_page (ut_runtime s) (ut_runtime t) \<Longrightarrow> ut_disposed t = ut_disposed s \<Longrightarrow> ut_alive t = ut_alive s"
  by (simp add: ut_alive_def same_page_def)

subsection \<open>The invariant\<close>

text \<open>
  A connection stands only without a fence and without an expected close; every other connection ever made is among the
  closed ones; there is at most one fence; a recovery is scheduled or runs or neither, and waits exactly while it runs;
  the watchdog holds the connection that stands, or none.
\<close>

definition connection_ok :: "transport \<Rightarrow> bool" where
  "connection_ok s = (case ut_connection s of None \<Rightarrow> set (ut_closed s) = {..<ut_next s}
     | Some c \<Rightarrow> c < ut_next s \<and> set (ut_closed s) = {..<ut_next s} - {c} \<and> ut_expected s = [] \<and> ut_fence s = None)"

definition fence_ok :: "transport \<Rightarrow> bool" where
  "fence_ok s = (case ut_fence s of None \<Rightarrow> ut_fences s = [] \<and> ut_expected s = []
     | Some f \<Rightarrow> \<exists>r. ut_fences s = [(f, r)] \<and> ut_expected s \<in> {[], r})"

definition recovery_ok :: "transport \<Rightarrow> bool" where
  "recovery_ok s = (length (ut_microtasks s) = (if ut_scheduled s then 1 else 0) \<and> ut_running s = (ut_waits s \<noteq> None) \<and> \<not> (ut_scheduled s \<and> ut_running s))"

definition watch_ok :: "transport \<Rightarrow> bool" where
  "watch_ok s = (case ut_watchdog s of None \<Rightarrow> True | Some h \<Rightarrow> uh_connection h = None \<or> uh_connection h = ut_connection s)"

definition ut_inv :: "transport \<Rightarrow> bool" where
  "ut_inv s = (connection_ok s \<and> fence_ok s \<and> recovery_ok s \<and> watch_ok s)"

lemmas ut_inv_defs = ut_inv_def connection_ok_def fence_ok_def recovery_ok_def watch_ok_def

lemma connection_facts:
  assumes "ut_inv s" "ut_connection s = Some c"
  shows "c < ut_next s" "set (ut_closed s) = {..<ut_next s} - {c}" "ut_expected s = []" "ut_fence s = None" "ut_fences s = []"
proof -
  have 1: "connection_ok s" "fence_ok s" using assms(1) by (simp_all add: ut_inv_def)
  show "c < ut_next s" "set (ut_closed s) = {..<ut_next s} - {c}" "ut_expected s = []" "ut_fence s = None"
    using 1(1) assms(2) by (simp_all add: connection_ok_def)
  then show "ut_fences s = []" using 1(2) by (simp add: fence_ok_def)
qed

lemma arm_fence_fields [simp]:
  "ut_connection (arm_fence r s) = ut_connection s" "ut_target (arm_fence r s) = ut_target s" "ut_watchdog (arm_fence r s) = ut_watchdog s"
  "ut_closed (arm_fence r s) = ut_closed s" "ut_fence (arm_fence r s) = Some (ut_next_fence s)" "ut_fences (arm_fence r s) = ut_fences s @ [(ut_next_fence s, r)]"
  "ut_expected (arm_fence r s) = ut_expected s" "ut_scheduled (arm_fence r s) = ut_scheduled s" "ut_microtasks (arm_fence r s) = ut_microtasks s"
  "ut_running (arm_fence r s) = ut_running s" "ut_waits (arm_fence r s) = ut_waits s" "ut_next (arm_fence r s) = ut_next s"
  "ut_carrier (arm_fence r s) = ut_carrier s" "ut_runtime (arm_fence r s) = ut_runtime s" "ut_disposed (arm_fence r s) = ut_disposed s" "ut_pending (arm_fence r s) = ut_pending s"
  by (simp_all add: arm_fence_def Let_def ut_tell_def)

lemma with_runtime_fields [simp]:
  "ut_connection (with_runtime f s) = ut_connection s" "ut_target (with_runtime f s) = ut_target s" "ut_watchdog (with_runtime f s) = ut_watchdog s"
  "ut_closed (with_runtime f s) = ut_closed s" "ut_fence (with_runtime f s) = ut_fence s" "ut_fences (with_runtime f s) = ut_fences s"
  "ut_expected (with_runtime f s) = ut_expected s" "ut_scheduled (with_runtime f s) = ut_scheduled s" "ut_microtasks (with_runtime f s) = ut_microtasks s"
  "ut_running (with_runtime f s) = ut_running s" "ut_waits (with_runtime f s) = ut_waits s" "ut_next (with_runtime f s) = ut_next s"
  "ut_runtime (with_runtime f s) = f (ut_runtime s)" "ut_disposed (with_runtime f s) = ut_disposed s" "ut_pending (with_runtime f s) = ut_pending s"
  "ut_carrier (with_runtime f s) = ut_carrier s" "ut_next_fence (with_runtime f s) = ut_next_fence s" "ut_outs (with_runtime f s) = ut_outs s"
  by (simp_all add: with_runtime_def)

lemma ut_tell_fields [simp]:
  "ut_connection (ut_tell x s) = ut_connection s" "ut_target (ut_tell x s) = ut_target s" "ut_watchdog (ut_tell x s) = ut_watchdog s"
  "ut_closed (ut_tell x s) = ut_closed s" "ut_fence (ut_tell x s) = ut_fence s" "ut_fences (ut_tell x s) = ut_fences s"
  "ut_expected (ut_tell x s) = ut_expected s" "ut_scheduled (ut_tell x s) = ut_scheduled s" "ut_microtasks (ut_tell x s) = ut_microtasks s"
  "ut_running (ut_tell x s) = ut_running s" "ut_waits (ut_tell x s) = ut_waits s" "ut_next (ut_tell x s) = ut_next s"
  "ut_runtime (ut_tell x s) = ut_runtime s" "ut_disposed (ut_tell x s) = ut_disposed s" "ut_pending (ut_tell x s) = ut_pending s"
  "ut_carrier (ut_tell x s) = ut_carrier s" "ut_next_fence (ut_tell x s) = ut_next_fence s" "ut_outs (ut_tell x s) = ut_outs s @ [x]"
  by (simp_all add: ut_tell_def)

lemma close_connection_fields [simp]:
  "ut_connection (close_connection en c r s) = ut_connection s" "ut_watchdog (close_connection en c r s) = ut_watchdog s"
  "ut_closed (close_connection en c r s) = ut_closed s" "ut_fence (close_connection en c r s) = ut_fence s" "ut_fences (close_connection en c r s) = ut_fences s"
  "ut_expected (close_connection en c r s) = ut_expected s" "ut_scheduled (close_connection en c r s) = ut_scheduled s"
  "ut_microtasks (close_connection en c r s) = ut_microtasks s" "ut_running (close_connection en c r s) = ut_running s"
  "ut_waits (close_connection en c r s) = ut_waits s" "ut_next (close_connection en c r s) = ut_next s"
  "ut_carrier (close_connection en c r s) = ut_carrier s" "ut_runtime (close_connection en c r s) = close_streams (pane_lost s) en (streams_on en c s) r (ut_runtime s)" "ut_disposed (close_connection en c r s) = ut_disposed s"
  "ut_pending (close_connection en c r s) = ut_pending s"
  by (simp_all add: close_connection_def)

lemma recovery_ok_cong:
  "\<lbrakk>ut_scheduled t = ut_scheduled s; ut_microtasks t = ut_microtasks s; ut_running t = ut_running s; ut_waits t = ut_waits s\<rbrakk> \<Longrightarrow> recovery_ok t = recovery_ok s"
  by (simp only: recovery_ok_def)

lemma others_cong:
  "\<lbrakk>ut_connection t = ut_connection s; ut_watchdog t = ut_watchdog s; ut_closed t = ut_closed s; ut_fence t = ut_fence s; ut_fences t = ut_fences s;
    ut_expected t = ut_expected s; ut_next t = ut_next s\<rbrakk>
   \<Longrightarrow> (connection_ok t \<and> fence_ok t \<and> watch_ok t) = (connection_ok s \<and> fence_ok s \<and> watch_ok s)"
  by (simp only: connection_ok_def fence_ok_def watch_ok_def)

lemma ut_inv_cong:
  "\<lbrakk>ut_connection t = ut_connection s; ut_watchdog t = ut_watchdog s; ut_closed t = ut_closed s; ut_fence t = ut_fence s; ut_fences t = ut_fences s;
    ut_expected t = ut_expected s; ut_scheduled t = ut_scheduled s; ut_microtasks t = ut_microtasks s; ut_running t = ut_running s;
    ut_waits t = ut_waits s; ut_next t = ut_next s\<rbrakk> \<Longrightarrow> ut_inv t = ut_inv s"
  by (simp only: ut_inv_defs)

lemma calm_inv [simp]: "ut_inv (with_runtime f s) = ut_inv s" "ut_inv (ut_tell x s) = ut_inv s" "ut_inv (close_connection en c r s) = ut_inv s"
  by (rule ut_inv_cong; simp)+

lemma schedule_recovery_fields:
  assumes "schedule_recovery r s = (ok, t)"
  shows "ut_inv s \<Longrightarrow> ut_inv t" "ut_connection t = ut_connection s" "ut_runtime t = ut_runtime s" "ut_next t = ut_next s" "ut_watchdog t = ut_watchdog s"
    "ut_closed t = ut_closed s" "ut_fence t = ut_fence s" "ut_expected t = ut_expected s" "ut_running t = ut_running s" "ut_disposed t = ut_disposed s"
    "ut_outs t = ut_outs s" "if ut_alive s then ut_scheduled t \<or> ut_running t else t = s" "ut_alive t = ut_alive s" "ut_fences t = ut_fences s"
    "ut_waits t = ut_waits s"
proof -
  have t: "t = s \<and> \<not> ut_alive s \<or> ut_alive s \<and> ((ut_scheduled s \<or> ut_running s) \<and> t = s\<lparr>ut_pending := or_text r ''transport_failure''\<rparr>
      \<or> \<not> ut_scheduled s \<and> \<not> ut_running s \<and> t = s\<lparr>ut_scheduled := True, ut_microtasks := ut_microtasks s @ [or_text r ''transport_failure'']\<rparr>)"
    using assms by (auto simp: schedule_recovery_def Let_def split: if_splits)
  have 1: "ut_inv (s\<lparr>ut_pending := x\<rparr>) = ut_inv s" for x by (rule ut_inv_cong; simp)
  have 2: "ut_inv (s\<lparr>ut_scheduled := True, ut_microtasks := ut_microtasks s @ [x]\<rparr>)" if "ut_inv s" "\<not> ut_scheduled s" "\<not> ut_running s" for x
  proof -
    let ?t = "s\<lparr>ut_scheduled := True, ut_microtasks := ut_microtasks s @ [x]\<rparr>"
    have "(connection_ok ?t \<and> fence_ok ?t \<and> watch_ok ?t) = (connection_ok s \<and> fence_ok s \<and> watch_ok s)" by (rule others_cong) simp_all
    then have "connection_ok ?t \<and> fence_ok ?t \<and> watch_ok ?t" using that(1) by (simp add: ut_inv_def)
    moreover have "recovery_ok ?t" using that by (simp add: ut_inv_def recovery_ok_def)
    ultimately show ?thesis by (simp add: ut_inv_def)
  qed
  show "ut_inv s \<Longrightarrow> ut_inv t" using t 1 2 by blast
  show "ut_connection t = ut_connection s" "ut_runtime t = ut_runtime s" "ut_next t = ut_next s" "ut_watchdog t = ut_watchdog s"
    "ut_closed t = ut_closed s" "ut_fence t = ut_fence s" "ut_expected t = ut_expected s" "ut_running t = ut_running s" "ut_disposed t = ut_disposed s"
    "ut_outs t = ut_outs s" "if ut_alive s then ut_scheduled t \<or> ut_running t else t = s" "ut_alive t = ut_alive s" "ut_fences t = ut_fences s"
    "ut_waits t = ut_waits s"
    using t by (auto simp: ut_alive_def)
qed

lemma close_result:
  assumes "ut_inv s" and r: "ut_close en reason s = (ok, t)"
  shows "ut_inv t" "ut_connection t = None" "same_page (ut_runtime s) (ut_runtime t)" "ut_next t = ut_next s" "ut_running t = ut_running s"
    "ut_disposed t = ut_disposed s" "ut_waits t = ut_waits s" "ut_scheduled t = ut_scheduled s" "ut_microtasks t = ut_microtasks s"
proof -
  let ?r = "or_text reason ''context_changed''"
  have all: "ut_inv t \<and> ut_connection t = None \<and> same_page (ut_runtime s) (ut_runtime t) \<and> ut_next t = ut_next s \<and> ut_running t = ut_running s
    \<and> ut_disposed t = ut_disposed s \<and> ut_waits t = ut_waits s \<and> ut_scheduled t = ut_scheduled s \<and> ut_microtasks t = ut_microtasks s"
  proof (cases "ut_connection s")
    case None
    then have "t = with_runtime (mark_reason ?r) s" using r by (simp add: ut_close_def Let_def)
    then show ?thesis using assms(1) None mark_reason_page by simp
  next
    case (Some c)
    note f = connection_facts [OF assms(1) Some]
    let ?s1 = "with_runtime (mark_reason ?r) s"
    let ?s2 = "arm_fence ?r (?s1\<lparr>ut_expected := ?r, ut_connection := None, ut_target := [], ut_watchdog := None\<rparr>)"
    have t: "t = close_connection en c ?r (?s2\<lparr>ut_closed := c # ut_closed ?s2\<rparr>)" using r Some by (simp add: ut_close_def Let_def)
    have "insert c ({..<ut_next s} - {c}) = {..<ut_next s}" using f(1) by auto
    moreover have "recovery_ok (?s2\<lparr>ut_closed := c # ut_closed ?s2\<rparr>) = recovery_ok s" by (rule recovery_ok_cong) simp_all
    then have "recovery_ok (?s2\<lparr>ut_closed := c # ut_closed ?s2\<rparr>)" using assms(1) by (simp add: ut_inv_def)
    ultimately have "ut_inv (?s2\<lparr>ut_closed := c # ut_closed ?s2\<rparr>)" using f by (simp add: ut_inv_def connection_ok_def fence_ok_def watch_ok_def)
    moreover have "same_page (ut_runtime s) (close_streams lost en as ?r (mark_reason ?r (ut_runtime s)))" for lost as
      by (rule same_page_trans [OF mark_reason_page close_streams_page])
    ultimately show ?thesis by (simp add: t)
  qed
  then show "ut_inv t" "ut_connection t = None" "same_page (ut_runtime s) (ut_runtime t)" "ut_next t = ut_next s" "ut_running t = ut_running s"
    "ut_disposed t = ut_disposed s" "ut_waits t = ut_waits s" "ut_scheduled t = ut_scheduled s" "ut_microtasks t = ut_microtasks s" by blast+
qed

lemma disconnect_result:
  assumes i: "ut_inv s" and c: "ut_connection s = Some c" and r: "handle_disconnect en c reason shut s = (ok, t)"
  shows "ut_inv t" "ok" "ut_connection t = None" "same_page (ut_runtime s) (ut_runtime t)" "ut_next t = ut_next s"
    "if ut_alive s then ut_scheduled t \<or> ut_running t else True" "ut_watchdog t = map_option (uh_set_connection (ue_now en) None) (ut_watchdog s)"
    "ut_fence t \<noteq> None" "ut_running t = ut_running s"
proof -
  let ?r = "or_text reason ''unified_transport_closed''"
  note f = connection_facts [OF i c]
  let ?s1 = "s\<lparr>ut_closed := c # ut_closed s, ut_watchdog := map_option (uh_set_connection (ue_now en) None) (ut_watchdog s)\<rparr>"
  let ?s3 = "(arm_fence [] ?s1)\<lparr>ut_connection := None, ut_target := []\<rparr>"
  let ?s4 = "with_runtime (\<lambda>rt. foldl (lose_pane (pane_lost ?s3) en ?r) rt (rt_sessions rt)) ?s3"
  let ?s5 = "if shut then close_connection en c ?r ?s4 else ?s4"
  have "retire_connection en c s = ?s3" using c f by (simp add: retire_connection_def Let_def)
  note ret = this
  have c: "(c \<in> set (ut_closed s)) = False" using f by simp
  have "(ok, t) = (True, snd (schedule_recovery ?r ?s5))" using r unfolding handle_disconnect_def Let_def c ret by simp
  then have t: "t = snd (schedule_recovery ?r ?s5)" "ok" by simp_all
  have "insert c ({..<ut_next s} - {c}) = {..<ut_next s}" using f(1) by auto
  moreover have "watch_ok ?s3"
    by (cases "ut_watchdog s") (simp_all add: watch_ok_def uh_set_connection_def)
  moreover have "recovery_ok ?s3 = recovery_ok s" by (rule recovery_ok_cong) simp_all
  then have "recovery_ok ?s3" using i by (simp add: ut_inv_def)
  ultimately have "ut_inv ?s3" using f by (simp add: ut_inv_def connection_ok_def fence_ok_def)
  then have i5: "ut_inv ?s5" by simp
  have p4: "same_page (ut_runtime s) (ut_runtime ?s4)" by (simp add: lose_panes_page)
  then have p5: "same_page (ut_runtime s) (ut_runtime ?s5)" using same_page_trans [OF p4 close_streams_page] by simp
  obtain ok' t' where sch: "schedule_recovery ?r ?s5 = (ok', t')" by force
  then have tt: "t = t'" by (simp add: t)
  note sf = schedule_recovery_fields [OF sch, folded tt]
  have fields: "ut_connection ?s5 = None" "ut_next ?s5 = ut_next s" "ut_watchdog ?s5 = map_option (uh_set_connection (ue_now en) None) (ut_watchdog s)"
    "ut_fence ?s5 \<noteq> None" "ut_running ?s5 = ut_running s" "ut_disposed ?s5 = ut_disposed s" by simp_all
  have "ut_alive ?s5 = ut_alive s" by (rule alive_cong [OF p5 fields(6)])
  then show "if ut_alive s then ut_scheduled t \<or> ut_running t else True" using sf(12) by simp
  show "ut_inv t" by (rule sf(1) [OF i5])
  show ok by (rule t(2))
  show "ut_connection t = None" "ut_next t = ut_next s" "ut_watchdog t = map_option (uh_set_connection (ue_now en) None) (ut_watchdog s)"
    "ut_fence t \<noteq> None" "ut_running t = ut_running s" using fields sf(2,4,5,7,9) by simp_all
  show "same_page (ut_runtime s) (ut_runtime t)" using p5 sf(3) by simp
qed

subsection \<open>Every event keeps it\<close>

lemma schedule_recovery_inv [simp]: "ut_inv s \<Longrightarrow> ut_inv (snd (schedule_recovery r s))"
  using schedule_recovery_fields(1) [of r s] by (metis prod.collapse)

lemma close_inv: "ut_inv s \<Longrightarrow> ut_inv (snd (ut_close en r s))"
  using close_result(1) by (metis prod.collapse)

lemma disconnect_inv:
  assumes "ut_inv s" "c < ut_next s"
  shows "ut_inv (snd (handle_disconnect en c r shut s))" "ut_next (snd (handle_disconnect en c r shut s)) = ut_next s"
proof -
  obtain ok t where t: "handle_disconnect en c r shut s = (ok, t)" by force
  have "ut_inv t \<and> ut_next t = ut_next s"
  proof (cases "ut_connection s = Some c")
    case True
    then show ?thesis using disconnect_result(1,5) [OF assms(1) _ t] by simp
  next
    case False
    then have "c \<in> set (ut_closed s)" using assms by (cases "ut_connection s") (auto simp: ut_inv_def connection_ok_def)
    then have "t = s" using t by (simp add: handle_disconnect_def)
    then show ?thesis using assms(1) by simp
  qed
  then show "ut_inv (snd (handle_disconnect en c r shut s))" "ut_next (snd (handle_disconnect en c r shut s)) = ut_next s" by (simp_all add: t)
qed

lemma schedule_next [simp]: "ut_next (snd (schedule_recovery r s)) = ut_next s"
  using schedule_recovery_fields(4) [of r s] by (metis prod.collapse)

lemma health_out_inv:
  assumes "ut_inv s" "\<forall>d. c = Some d \<longrightarrow> d < ut_next s"
  shows "ut_inv (health_out en c s x) \<and> ut_next (health_out en c s x) = ut_next s"
  using assms by (cases c; cases x) (simp_all add: disconnect_inv)

lemma health_outs_inv:
  assumes "ut_inv s" "\<forall>d. c = Some d \<longrightarrow> d < ut_next s"
  shows "ut_inv (foldl (health_out en c) s xs) \<and> ut_next (foldl (health_out en c) s xs) = ut_next s"
  using assms
proof (induction xs arbitrary: s)
  case (Cons x xs)
  have h: "ut_inv (health_out en c s x) \<and> ut_next (health_out en c s x) = ut_next s" by (rule health_out_inv [OF Cons.prems])
  have "\<forall>d. c = Some d \<longrightarrow> d < ut_next (health_out en c s x)" unfolding conjunct2 [OF h] by (rule Cons.prems(2))
  then show ?case using Cons.IH [of "health_out en c s x"] h by simp
qed simp

lemma check_connection: "uh_check cfg paused reason now v h = (res, outs, h1) \<Longrightarrow> uh_connection h1 = uh_connection h"
  by (auto simp: uh_check_def uh_check_open_def Let_def split: option.splits if_splits)

lemma probe_connection: "uh_probe cfg paused reason now v h = (res, outs, h1) \<Longrightarrow> uh_connection h1 = uh_connection h"
  unfolding uh_probe_def using check_connection by fastforce

lemma run_check_inv:
  assumes i: "ut_inv s" and keeps: "\<And>cfg paused now v h res outs h1. check cfg paused reason now v h = (res, outs, h1) \<Longrightarrow> uh_connection h1 = uh_connection h"
  shows "ut_inv (snd (run_check check en reason s)) \<and> ut_next (snd (run_check check en reason s)) = ut_next s"
proof (cases "ut_watchdog s")
  case None
  then show ?thesis using i by (simp add: run_check_def)
next
  case (Some h)
  let ?v = "case uh_connection h of None \<Rightarrow> ue_view en 0 | Some c \<Rightarrow> ue_view en c"
  obtain action why outs h1 where c: "check watch_config (\<not> ut_alive s) reason (ue_now en) ?v h = ((action, why), outs, h1)" by (metis surj_pair)
  let ?t = "s\<lparr>ut_watchdog := Some h1\<rparr>"
  have w: "uh_connection h = None \<or> uh_connection h = ut_connection s" using i Some by (simp add: ut_inv_def watch_ok_def)
  have "watch_ok ?t" using w keeps [OF c] by (simp add: watch_ok_def)
  moreover have "connection_ok ?t = connection_ok s" "fence_ok ?t = fence_ok s" "recovery_ok ?t = recovery_ok s"
    by (simp_all add: connection_ok_def fence_ok_def recovery_ok_def cong: option.case_cong)
  ultimately have "ut_inv ?t" using i by (simp add: ut_inv_def)
  moreover have "\<forall>d. uh_connection h = Some d \<longrightarrow> d < ut_next ?t" using w connection_facts(1) [OF i] by auto
  ultimately have "ut_inv (foldl (health_out en (uh_connection h)) ?t outs) \<and> ut_next (foldl (health_out en (uh_connection h)) ?t outs) = ut_next ?t"
    by (rule health_outs_inv)
  then show ?thesis using Some c by (simp add: run_check_def)
qed

lemma check_inv:
  assumes "ut_inv s"
  shows "ut_inv (snd (run_check uh_check en reason s)) \<and> ut_next (snd (run_check uh_check en reason s)) = ut_next s"
    "ut_inv (snd (run_check uh_probe en reason s)) \<and> ut_next (snd (run_check uh_probe en reason s)) = ut_next s"
  by (rule run_check_inv [OF assms], erule check_connection) (rule run_check_inv [OF assms], erule probe_connection)

lemma clear_expected_inv:
  assumes "ut_inv s"
  shows "ut_inv (s\<lparr>ut_expected := []\<rparr>)"
proof -
  have "connection_ok (s\<lparr>ut_expected := []\<rparr>)" using assms by (cases "ut_connection s") (simp_all add: ut_inv_def connection_ok_def)
  moreover have "fence_ok (s\<lparr>ut_expected := []\<rparr>)" using assms by (cases "ut_fence s") (auto simp: ut_inv_def fence_ok_def)
  moreover have "watch_ok (s\<lparr>ut_expected := []\<rparr>) = watch_ok s" "recovery_ok (s\<lparr>ut_expected := []\<rparr>) = recovery_ok s"
    by (simp_all add: watch_ok_def recovery_ok_def cong: option.case_cong)
  ultimately show ?thesis using assms by (simp add: ut_inv_def)
qed

lemma fence_settles_inv:
  assumes i: "ut_inv s"
  shows "ut_inv (fence_settles f s)"
proof (cases "map_of (ut_fences s) f")
  case None
  then show ?thesis using i by (simp add: fence_settles_def)
next
  case (Some r)
  then obtain g r' where "ut_fence s = Some g" and fs: "ut_fences s = [(g, r')]" "ut_expected s \<in> {[], r'}"
    using i by (cases "ut_fence s") (auto simp: ut_inv_def fence_ok_def)
  then have g: "g = f" "r' = r" "ut_fence s = Some f" using Some by (auto split: if_splits)
  have con: "ut_connection s = None" using i g(3) connection_facts(4) [OF i] by (cases "ut_connection s") auto
  let ?t = "fence_settles f s"
  have t: "?t = s\<lparr>ut_fences := [], ut_expected := [], ut_fence := None\<rparr>" using Some fs g by (auto simp: fence_settles_def)
  have "connection_ok ?t" using i con by (simp add: t ut_inv_def connection_ok_def)
  moreover have "fence_ok ?t" by (simp add: t fence_ok_def)
  moreover have "watch_ok ?t = watch_ok s" "recovery_ok ?t = recovery_ok s"
    by (simp_all add: t watch_ok_def recovery_ok_def cong: option.case_cong)
  ultimately show ?thesis using i by (simp add: ut_inv_def)
qed

lemma ensure_inv:
  assumes i: "ut_inv s"
  shows "ut_inv (snd (ut_ensure en name s))"
proof (cases "ut_disposed s \<or> js_trim name = [] \<or> ut_fence s \<noteq> None")
  case True
  then have "snd (ut_ensure en name s) = s" by (auto simp: ut_ensure_def Let_def)
  then show ?thesis using i by simp
next
  case False
  show ?thesis
  proof (cases "ut_connection s")
    case (Some c)
    then show ?thesis using False i close_inv by (simp add: ut_ensure_def Let_def)
  next
    case None
    show ?thesis
    proof (cases "ue_url en")
      case False
      then show ?thesis using None i by (simp add: ut_ensure_def Let_def)
    next
      case True
      let ?c = "ut_next s"
      let ?t = "start_watchdog en ?c (ut_tell (ConnectionCreated ?c (js_trim name)) (s\<lparr>ut_next := Suc ?c, ut_connection := Some ?c, ut_target := js_trim name\<rparr>))"
      have t: "snd (ut_ensure en name s) = ?t" using False None True by (simp add: ut_ensure_def Let_def)
      have "ut_expected s = []" "ut_fences s = []" "set (ut_closed s) = {..<?c}" using i False None by (simp_all add: ut_inv_def fence_ok_def connection_ok_def)
      moreover have "{..<Suc ?c} - {?c} = {..<?c}" by auto
      ultimately have "connection_ok ?t" "fence_ok ?t" using False by (simp_all add: connection_ok_def fence_ok_def start_watchdog_def)
      moreover have "watch_ok ?t" by (simp add: watch_ok_def start_watchdog_def uh_set_connection_def)
      moreover have "recovery_ok ?t = recovery_ok s" by (rule recovery_ok_cong) (simp_all add: start_watchdog_def)
      ultimately show ?thesis using i by (simp add: t ut_inv_def)
    qed
  qed
qed

lemma state_changes_inv:
  assumes i: "ut_inv s"
  shows "ut_inv (state_changes en c state ready s)"
proof (cases "ut_connection s = Some c")
  case False
  then show ?thesis using i by (simp add: state_changes_def)
next
  case True
  let ?s1 = "s\<lparr>ut_seen := (ut_seen s)(c := (state, ready))\<rparr>"
  have 1: "ut_inv ?s1" using i ut_inv_cong [of ?s1 s] by simp
  have 2: "ut_inv (t\<lparr>ut_watchdog := map_option uh_start_timer (ut_watchdog t)\<rparr>)" if "ut_inv t" for t
  proof -
    let ?u = "t\<lparr>ut_watchdog := map_option uh_start_timer (ut_watchdog t)\<rparr>"
    have "watch_ok ?u" using that by (cases "ut_watchdog t") (simp_all add: ut_inv_def watch_ok_def uh_start_timer_def)
    moreover have "connection_ok ?u = connection_ok t" "fence_ok ?u = fence_ok t" "recovery_ok ?u = recovery_ok t"
      by (simp_all add: connection_ok_def fence_ok_def recovery_ok_def cong: option.case_cong)
    ultimately show ?thesis using that by (simp add: ut_inv_def)
  qed
  define s2 where "s2 = (if num_eq state socket_connecting \<or> num_eq state socket_open then ?s1\<lparr>ut_watchdog := map_option uh_start_timer (ut_watchdog ?s1)\<rparr> else ?s1)"
  define sync where "sync = with_runtime (\<lambda>rt. snd (schedule_unified_sync rt))"
  define s3 where "s3 = (if num_eq state socket_open \<and> \<not> num_eq (fst (ut_seen s c)) socket_open then sync (snd (run_check uh_probe en ''transport_open'' s2)) else s2)"
  define s4 where "s4 = (if ready \<and> \<not> snd (ut_seen s c) then sync (snd (run_check uh_probe en ''agent_ready'' s3)) else s3)"
  have "ut_inv s2 \<and> ut_next s2 = ut_next s" using 1 2 [OF 1] unfolding s2_def by (simp split: if_split)
  then have "ut_inv s3 \<and> ut_next s3 = ut_next s" by (simp add: s3_def sync_def check_inv(2))
  then have i4: "ut_inv s4 \<and> ut_next s4 = ut_next s" by (simp add: s4_def sync_def check_inv(2))
  have sc: "state_changes en c state ready s = (if num_eq state socket_closed \<and> ut_expected s4 = [] \<and> c \<notin> set (ut_closed s4)
      then snd (handle_disconnect en c ''unified_transport_closed'' False s4) else s4)"
    using True unfolding state_changes_def Let_def s4_def s3_def s2_def sync_def by simp
  have "c < ut_next s4" using i4 connection_facts(1) [OF i True] by simp
  then show ?thesis using i4 by (simp add: sc disconnect_inv)
qed

text \<open>Whether a recovery runs has no part in a close.\<close>

lemma close_running: "snd (ut_close en r (s\<lparr>ut_running := b\<rparr>)) = (snd (ut_close en r s))\<lparr>ut_running := b\<rparr>"
  by (cases "ut_connection s") (simp_all add: ut_close_def Let_def with_runtime_def arm_fence_def ut_tell_def close_connection_def
    pane_lost_def [abs_def] streams_on_def cong: option.case_cong)

lemma recovery_starts_inv:
  assumes i: "ut_inv s"
  shows "ut_inv (recovery_starts en s)"
proof (cases "ut_microtasks s")
  case Nil
  then show ?thesis using i by (simp add: recovery_starts_def)
next
  case (Cons r rs)
  let ?s1 = "s\<lparr>ut_microtasks := rs, ut_scheduled := False\<rparr>"
  have rec: "recovery_ok s" using i by (simp add: ut_inv_def)
  then have m: "rs = []" "\<not> ut_running s" "ut_waits s = None" using Cons by (auto simp: recovery_ok_def split: if_splits)
  have "(connection_ok ?s1 \<and> fence_ok ?s1 \<and> watch_ok ?s1) = (connection_ok s \<and> fence_ok s \<and> watch_ok s)" by (rule others_cong) simp_all
  moreover have "recovery_ok ?s1" using m by (simp add: recovery_ok_def)
  ultimately have i1: "ut_inv ?s1" using i by (simp add: ut_inv_def)
  obtain ok t where t: "ut_close en ''transport_recovery'' ?s1 = (ok, t)" by force
  note f = close_result [OF i1 t]
  let ?u = "t\<lparr>ut_running := True, ut_waits := Some (ut_fence t)\<rparr>"
  have "(connection_ok ?u \<and> fence_ok ?u \<and> watch_ok ?u) = (connection_ok t \<and> fence_ok t \<and> watch_ok t)" by (rule others_cong) simp_all
  moreover have "recovery_ok ?u" using f(8,9) m by (simp add: recovery_ok_def)
  ultimately have "ut_inv ?u" using f(1) by (simp add: ut_inv_def)
  moreover have "recovery_starts en s = (if \<not> ut_alive ?s1 \<or> ut_running ?s1 then ?s1 else ?u)"
    using Cons t by (simp add: recovery_starts_def Let_def close_running)
  ultimately show ?thesis using i1 by simp
qed

lemma recovery_ends_inv:
  assumes "ut_inv (s\<lparr>ut_running := False, ut_pending := []\<rparr>)"
  shows "ut_inv (recovery_ends en s)"
  using assms by (simp add: recovery_ends_def Let_def)

text \<open>The state a recovery resumes in, without the flag that it runs.\<close>

definition after_wait :: "transport \<Rightarrow> transport" where
  "after_wait s = s\<lparr>ut_waits := None, ut_expected := [], ut_running := False, ut_pending := []\<rparr>"

lemma after_wait_inv:
  assumes i: "ut_inv s"
  shows "ut_inv (after_wait s)"
proof -
  have e: "ut_inv (s\<lparr>ut_expected := []\<rparr>)" by (rule clear_expected_inv [OF i])
  have "(connection_ok (after_wait s) \<and> fence_ok (after_wait s) \<and> watch_ok (after_wait s))
      = (connection_ok (s\<lparr>ut_expected := []\<rparr>) \<and> fence_ok (s\<lparr>ut_expected := []\<rparr>) \<and> watch_ok (s\<lparr>ut_expected := []\<rparr>))"
    by (rule others_cong) (simp_all add: after_wait_def)
  moreover have "recovery_ok (after_wait s)" using i unfolding after_wait_def ut_inv_def recovery_ok_def by (auto split: if_splits)
  ultimately show ?thesis using e by (simp add: ut_inv_def)
qed

lemma recovery_resumes_inv:
  assumes i: "ut_inv s"
  shows "ut_inv (recovery_resumes en fails s)"
proof (cases "wait_over s")
  case False
  then show ?thesis using i by (simp add: recovery_resumes_def)
next
  case True
  let ?s1 = "s\<lparr>ut_waits := None, ut_expected := []\<rparr>"
  let ?s2 = "ut_tell MembershipRefreshed (with_runtime (\<lambda>rt. snd (rt_refresh (ue_rt en) None rt)) ?s1)"
  let ?s3 = "ut_tell RecoveryFailed ?s2"
  have drop: "ut_inv (t\<lparr>ut_running := False, ut_pending := []\<rparr>)"
    if "ut_connection t = ut_connection s" "ut_watchdog t = ut_watchdog s" "ut_closed t = ut_closed s" "ut_fence t = ut_fence s" "ut_fences t = ut_fences s"
      "ut_expected t = []" "ut_scheduled t = ut_scheduled s" "ut_microtasks t = ut_microtasks s" "ut_waits t = None" "ut_next t = ut_next s" for t
  proof -
    have "ut_inv (t\<lparr>ut_running := False, ut_pending := []\<rparr>) = ut_inv (after_wait s)" by (rule ut_inv_cong) (simp_all add: after_wait_def that)
    then show ?thesis using after_wait_inv [OF i] by simp
  qed
  have "ut_inv (recovery_ends en ?s1)" "ut_inv (recovery_ends en (ut_tell SessionsReconnected ?s2))" "ut_inv (recovery_ends en ?s3)"
    "ut_inv (recovery_ends en (?s3\<lparr>ut_retry_timer := ue_timers en\<rparr>))"
    by (intro recovery_ends_inv drop; simp)+
  then show ?thesis using True unfolding recovery_resumes_def Let_def by presburger
qed

lemma recovery_timer_inv: "ut_inv s \<Longrightarrow> ut_inv (recovery_timer_fires s)"
  using ut_inv_cong [of "s\<lparr>ut_retry_timer := False\<rparr>" s] by (simp add: recovery_timer_fires_def)

lemma prepare_inv: "ut_inv s \<Longrightarrow> ut_inv (snd (ut_prepare en name s))"
proof -
  assume i: "ut_inv s"
  have e: "ut_inv (snd (ut_ensure en (js_trim name) s))" by (rule ensure_inv [OF i])
  have "ut_inv (snd (ut_close en r (snd (ut_ensure en (js_trim name) s))))" for r by (rule close_inv [OF e])
  then show ?thesis using i e by (auto simp: ut_prepare_def Let_def split: prod.split ut_answer.split)
qed

lemma dispose_inv: "ut_inv s \<Longrightarrow> ut_inv (snd (ut_dispose en r s))"
proof -
  assume i: "ut_inv s"
  let ?t = "snd (ut_close en r (s\<lparr>ut_retry_timer := False\<rparr>))"
  have "ut_inv (s\<lparr>ut_retry_timer := False\<rparr>)" using i ut_inv_cong [of "s\<lparr>ut_retry_timer := False\<rparr>" s] by simp
  then have "ut_inv ?t" by (rule close_inv)
  moreover have "ut_inv (?t\<lparr>ut_disposed := True\<rparr>) = ut_inv ?t" by (rule ut_inv_cong; simp)
  ultimately show ?thesis using i by (simp add: ut_dispose_def)
qed

lemma install_inv: "ut_inv s \<Longrightarrow> ut_inv (install_socket a k s)"
proof -
  assume i: "ut_inv s"
  have "ut_inv (s\<lparr>ut_carrier := m\<rparr>) = ut_inv s" for m by (rule ut_inv_cong) simp_all
  then show ?thesis using i by (simp add: install_socket_def split: option.split)
qed

lemma ut_step_inv:
  assumes i: "ut_inv s"
  shows "ut_inv (ut_step s e)"
proof -
  have cl: "ut_inv (snd (handle_disconnect en c r shut s))" if "ut_connection s = Some c" for en c r shut
    by (rule disconnect_inv(1) [OF i connection_facts(1) [OF i that]])
  show ?thesis
  proof (cases e)
    case (UtCancel en prepared reason)
    then show ?thesis using i close_inv by (simp add: cancel_prepared_def split: option.split)
  next
    case (UtError en c)
    then show ?thesis using i cl by (simp add: physical_error_def)
  next
    case (UtPhysicalClose en c reason)
    then show ?thesis using i cl by (simp add: physical_close_def Let_def)
  next
    case (UtClosedSettles en c)
    then show ?thesis using i cl by (simp add: closed_settles_def)
  next
    case (UtTick en)
    then show ?thesis using i check_inv(1) by (simp add: watch_tick_def split: option.split)
  next
    case (UtProbe en reason)
    then show ?thesis using i check_inv(2) [OF i, of en reason] by (auto simp: ut_probe_def split: prod.split)
  next
    case (UtRetryUnavailable en reason)
    then show ?thesis using i by (simp add: retry_unavailable_def)
  next
    case (UtRuntime x)
    then show ?thesis using i install_inv by (simp split: rt_event.split)
  qed (use i in \<open>simp_all add: ensure_inv prepare_inv close_inv recovery_starts_inv recovery_resumes_inv recovery_timer_inv fence_settles_inv
      state_changes_inv clear_expected_inv dispose_inv\<close>)
qed

interpretation utm: invariant_machine ut_step ut_inv
  by standard (rule ut_step_inv)

lemma ut_start_inv: "ut_inv (ut_start rt)"
  by (simp add: ut_start_def ut_inv_defs)

lemma ut_run_inv: "ut_inv (ut_run rt es)"
  unfolding ut_run_def by (rule utm.inv_run [OF ut_start_inv])

subsection \<open>Losing the connection\<close>

lemma alive_runtime: "ut_alive (s\<lparr>ut_running := b\<rparr>) = ut_alive s" "ut_alive (s\<lparr>ut_waits := w, ut_expected := x\<rparr>) = ut_alive s"
  "ut_alive (s\<lparr>ut_microtasks := m, ut_scheduled := c\<rparr>) = ut_alive s"
  by (simp_all add: ut_alive_def)

definition recovers :: "transport \<Rightarrow> transport \<Rightarrow> bool" where
  "recovers s t = (ut_connection t = None \<and> (if ut_alive s then ut_scheduled t \<or> ut_running t else True)
     \<and> map_option uh_timer (ut_watchdog t) = map_option uh_timer (ut_watchdog s))"

lemma disconnect_recovers:
  assumes "ut_inv s" "ut_connection s = Some c"
  shows "recovers s (snd (handle_disconnect en c r shut s))"
proof -
  obtain ok t where t: "handle_disconnect en c r shut s = (ok, t)" by force
  note f = disconnect_result [OF assms t]
  show ?thesis using f(3,6,7) by (simp add: recovers_def t uh_set_connection_def option.map_comp comp_def)
qed

lemma recovers_runtime: "recovers s (with_runtime f t) = recovers s t"
  by (simp add: recovers_def)

subsection \<open>The recovery\<close>

definition keeps_page :: "runtime \<Rightarrow> runtime \<Rightarrow> bool" where
  "keeps_page s t = (tr_page_gone t = tr_page_gone s \<and> tr_online t = tr_online s \<and> tr_active_name t = tr_active_name s)"

lemma keeps_page_trans: "keeps_page s t \<Longrightarrow> keeps_page t u \<Longrightarrow> keeps_page s u"
  by (simp add: keeps_page_def)

lemma same_keeps: "same_page s t \<Longrightarrow> keeps_page s t"
  by (simp add: same_page_def keeps_page_def)

lemma keeps_foldl: "(\<And>t x. keeps_page t (f t x)) \<Longrightarrow> keeps_page s (foldl f s xs)"
proof (induction xs arbitrary: s)
  case (Cons x xs)
  then have "keeps_page (f s x) (foldl f (f s x) xs)" by blast
  then show ?case using keeps_page_trans [OF Cons.prems] by simp
qed (simp add: keeps_page_def)

lemma number_keeps: "keeps_page s (number_panes as s)"
  unfolding number_panes_def by (rule keeps_foldl) (simp add: same_keeps split: prod.split)

lemma visual_keeps: "keeps_page s (snd (visual_order en tab as s))"
  using number_keeps by (simp add: visual_order_def Let_def keeps_page_def)

lemma global_keeps: "keeps_page s (snd (global_order en s))"
proof (cases "active_tab_of s")
  case None
  then show ?thesis by (simp add: global_order_def keeps_page_def)
next
  case (Some tab)
  let ?as = "filter (\<lambda>a. \<not> pn_closed (tr_panes s a) \<and> pn_name (tr_panes s a) = tr_active_name s) (map snd (pt_panes tab))"
  obtain ordered ready s1 where v: "visual_order en tab ?as s = ((ordered, ready), s1)" by (metis surj_pair)
  have 1: "keeps_page s s1" using visual_keeps [of s en tab ?as] v by simp
  have "keeps_page s (number_panes bs s1)" for bs by (rule keeps_page_trans [OF 1 number_keeps])
  then show ?thesis using Some v 1 by (simp add: global_order_def Let_def)
qed

lemma measurement_keeps: "keeps_page s (measurement_pass en tab s)"
proof (cases tab)
  case None
  then show ?thesis by (simp add: measurement_pass_def keeps_page_def)
next
  case (Some t)
  have "keeps_page u (let p = tr_panes u a in if pn_closed p \<or> pn_name p \<noteq> tr_active_name u \<or> 0 < pn_measured p then u
         else snd (with_timers (schedule_measure (re_timers en) 4 a 0) u))" for u a
    by (simp add: Let_def same_keeps)
  then show ?thesis unfolding Some measurement_pass_def option.case by (rule keeps_foldl)
qed

lemma refresh_keeps: "keeps_page s (snd (rt_refresh en i s))"
proof (cases "rt_stopped s \<or> tr_applying s")
  case True
  then show ?thesis by (auto simp: rt_refresh_def keeps_page_def)
next
  case False
  then have n: "\<not> rt_stopped s" "\<not> tr_applying s" by simp_all
  obtain ordered ready s1 where g: "global_order en s = ((ordered, ready), s1)" by (metis surj_pair)
  obtain res m where r: "um_reconcile (\<lambda>a. um_of (tr_panes s1 a)) \<lparr>ur_target = Str (tr_active_name s1), ur_panes = map Some ordered,
           ur_tab = Str (case active_tab_of s of None \<Rightarrow> [] | Some t \<Rightarrow> pt_id t), ur_pane = Str (active_pane_id i (active_tab_of s) s1)\<rparr> (tr_membership s1) = (res, m)"
    by force
  let ?s2 = "s1\<lparr>tr_membership := m, tr_waiting_since := (if uo_targetChanged res then 0 else tr_waiting_since s1)\<rparr>"
  let ?s3 = "if uo_targetChanged res \<and> re_connection en \<and> \<not> re_matches en (tr_active_name ?s2) then rt_tell (TransportClosed ''context_changed'') ?s2 else ?s2"
  let ?s4 = "foldl (drop_removed en) ?s3 (uo_removed res)"
  have "keeps_page s s1" using global_keeps [of s en] g by simp
  moreover have "keeps_page s1 ?s3" by (simp add: keeps_page_def rt_tell_def)
  moreover have "keeps_page t (drop_removed en t a)" for t a
    by (simp add: drop_removed_def same_keeps [OF touches_page(1) [OF detach_fields(1) [OF refl]]]) (simp add: keeps_page_def)
  then have "keeps_page ?s3 ?s4" by (rule keeps_foldl)
  moreover have "keeps_page ?s4 (measurement_pass en (active_tab_of s) ?s4)" by (rule measurement_keeps)
  moreover have "keeps_page t (snd (schedule_unified_sync t))" for t by (simp add: schedule_unified_sync_def same_keeps)
  ultimately have k: "keeps_page s (snd (schedule_unified_sync (measurement_pass en (active_tab_of s) ?s4)))"
    by (rule keeps_page_trans [OF keeps_page_trans [OF keeps_page_trans [OF keeps_page_trans]]])
  have "rt_refresh en i s = (True, snd (schedule_unified_sync (measurement_pass en (active_tab_of s) ?s4)))"
    unfolding rt_refresh_def Let_def g r prod.case if_not_P [OF n(1)] if_not_P [OF n(2)] drop_removed_def [abs_def] ..
  then show ?thesis using k by simp
qed

text \<open>The steps of a recovery: the microtask, the fence that settles, and the continuation.\<close>

definition recovery_run :: "ut_env \<Rightarrow> bool \<Rightarrow> transport \<Rightarrow> transport" where
  "recovery_run en fails s = (let s1 = ut_step s (UtRecover en); s2 = (case ut_fence s1 of None \<Rightarrow> s1 | Some f \<Rightarrow> ut_step s1 (UtFence f))
     in ut_step s2 (UtResume en fails))"

lemma recovery_result:
  assumes i: "ut_inv s" and go: "ut_scheduled s" "ut_alive s" and t: "t = recovery_run en fails s"
  shows "\<not> ut_running t" "ut_fence t = None" "ut_connection t = None" "ut_expected t = []" "ut_alive t"
    "\<exists>before. ut_outs t = before @ [MembershipRefreshed, if fails then RecoveryFailed else SessionsReconnected]"
    "fails \<and> ue_timers en \<and> tr_active_name (ut_runtime s) \<noteq> [] \<Longrightarrow> ut_retry_timer t"
proof -
  obtain r where m: "ut_microtasks s = [r]" "\<not> ut_running s" using i go(1) by (auto simp: ut_inv_def recovery_ok_def length_Suc_conv)
  let ?s0 = "s\<lparr>ut_microtasks := [], ut_scheduled := False\<rparr>"
  obtain ok u where u: "ut_close en ''transport_recovery'' ?s0 = (ok, u)" by force
  have "(connection_ok ?s0 \<and> fence_ok ?s0 \<and> watch_ok ?s0) = (connection_ok s \<and> fence_ok s \<and> watch_ok s)" by (rule others_cong) simp_all
  moreover have "recovery_ok ?s0" using i m by (simp add: ut_inv_def recovery_ok_def)
  ultimately have i0: "ut_inv ?s0" using i by (simp add: ut_inv_def)
  note uf = close_result [OF i0 u]
  let ?s1 = "u\<lparr>ut_running := True, ut_waits := Some (ut_fence u)\<rparr>"
  have s1: "ut_step s (UtRecover en) = ?s1" using m go(2) u by (simp add: recovery_starts_def Let_def close_running ut_alive_def)
  have al: "ut_alive u" using alive_cong [OF uf(3) uf(6)] go(2) by (simp add: ut_alive_def)
  define s2 where "s2 = (case ut_fence ?s1 of None \<Rightarrow> ?s1 | Some f \<Rightarrow> ut_step ?s1 (UtFence f))"
  have s2: "ut_fence s2 = None \<and> ut_fences s2 = [] \<and> ut_connection s2 = None \<and> ut_waits s2 = Some (ut_fence u) \<and> ut_runtime s2 = ut_runtime u
      \<and> ut_disposed s2 = ut_disposed u \<and> ut_running s2"
  proof (cases "ut_fence u")
    case None
    then show ?thesis using uf(1,2) by (simp add: s2_def ut_inv_def fence_ok_def)
  next
    case (Some f)
    then obtain x where "ut_fences u = [(f, x)]" using uf(1) by (auto simp: ut_inv_def fence_ok_def)
    then show ?thesis using Some uf(2) by (simp add: s2_def fence_settles_def)
  qed
  then have over: "wait_over s2" by (auto simp: wait_over_def split: option.split)
  let ?a = "s2\<lparr>ut_waits := None, ut_expected := []\<rparr>"
  let ?b = "ut_tell MembershipRefreshed (with_runtime (\<lambda>rt. snd (rt_refresh (ue_rt en) None rt)) ?a)"
  let ?c = "ut_tell RecoveryFailed ?b"
  have ala: "ut_alive ?a" using al s2 by (simp add: ut_alive_def)
  have kp: "keeps_page (ut_runtime u) (ut_runtime ?b)" using refresh_keeps s2 by simp
  have alb: "ut_alive ?b" "ut_alive ?c" using ala kp s2 al by (simp_all add: ut_alive_def keeps_page_def)
  let ?d = "if \<not> fails then ut_tell SessionsReconnected ?b
    else if ut_alive ?c \<and> tr_active_name (ut_runtime ?c) \<noteq> [] \<and> \<not> ut_retry_timer ?c then ?c\<lparr>ut_retry_timer := ue_timers en\<rparr> else ?c"
  have ends: "recovery_ends en x = x\<lparr>ut_running := False, ut_pending := []\<rparr>" if "ut_connection x = None" for x
    using that by (simp add: recovery_ends_def needs_recovery_def Let_def)
  have "t = recovery_resumes en fails s2" unfolding t recovery_run_def Let_def s1 s2_def by simp
  also have "\<dots> = recovery_ends en ?d" using over ala unfolding recovery_resumes_def Let_def by simp
  also have "\<dots> = ?d\<lparr>ut_running := False, ut_pending := []\<rparr>" by (rule ends) (simp add: s2)
  finally have t: "t = ?d\<lparr>ut_running := False, ut_pending := []\<rparr>" .
  show "\<not> ut_running t" "ut_fence t = None" "ut_connection t = None" "ut_expected t = []" using s2 unfolding t by simp_all
  show "ut_alive t" using alb unfolding t by (simp add: ut_alive_def)
  show "\<exists>before. ut_outs t = before @ [MembershipRefreshed, if fails then RecoveryFailed else SessionsReconnected]"
    unfolding t by (intro exI [of _ "ut_outs s2"]) simp
  show "ut_retry_timer t" if "fails \<and> ue_timers en \<and> tr_active_name (ut_runtime s) \<noteq> []"
  proof -
    have "tr_active_name (ut_runtime ?c) = tr_active_name (ut_runtime s)" using kp uf(3) by (simp add: keeps_page_def same_page_def)
    then show ?thesis using that alb(2) unfolding t by simp
  qed
qed

subsection \<open>Retries and channels\<close>

text \<open>A lost connection leaves the retries of panes alone, or takes them away.\<close>

definition no_new_retry :: "runtime \<Rightarrow> runtime \<Rightarrow> bool" where
  "no_new_retry s t = (\<forall>a. has_retry a t \<longrightarrow> has_retry a s)"

lemma no_new_trans: "no_new_retry s t \<Longrightarrow> no_new_retry t u \<Longrightarrow> no_new_retry s u"
  by (simp add: no_new_retry_def)

lemma no_new_foldl: "(\<And>t x. no_new_retry t (f t x)) \<Longrightarrow> no_new_retry s (foldl f s xs)"
proof (induction xs arbitrary: s)
  case (Cons x xs)
  then have "no_new_retry (f s x) (foldl f (f s x) xs)" by blast
  then show ?case using Cons.prems [of s x] by (simp add: no_new_retry_def)
qed (simp add: no_new_retry_def)

lemma no_new_same: "tr_timers t = tr_timers s \<Longrightarrow> no_new_retry s t"
  by (simp add: no_new_retry_def has_retry_def)

lemma mhas_mdel: "mhas (mdel k m) j \<Longrightarrow> mhas m j"
  by (auto simp: mhas_def mdel_def mget_def)

lemma lost_listener_retries: "re_lost e \<Longrightarrow> no_new_retry s (close_listener e a r s)"
proof -
  assume lost: "re_lost e"
  have "mhas (tm_retry (snd (clear_retry True a t))) b \<Longrightarrow> mhas (tm_retry t) b" for t b
    by (auto simp: clear_retry_def cancel_timer_def Let_def split: option.splits dest: mhas_mdel)
  then have "no_new_retry s (clear_pane_retry True a s)" by (simp add: no_new_retry_def has_retry_def clear_pane_retry_def)
  then have "no_new_retry s (upd_pane a f (clear_pane_retry True a s))" for f by (simp add: no_new_retry_def has_retry_def)
  then show ?thesis using lost by (simp add: close_listener_def Let_def no_new_same)
qed

lemma no_new_refl: "no_new_retry s s"
  by (simp add: no_new_retry_def)

lemma lost_env_lost: "re_lost (lost_env lost en a) = lost a"
  by (simp add: lost_env_def)

lemma close_streams_retries: "list_all lost as \<Longrightarrow> no_new_retry s (close_streams lost en as r s)"
proof (induction as arbitrary: s)
  case (Cons a as)
  let ?t = "if pn_unified (tr_panes s a) \<and> pn_socket (tr_panes s a) \<noteq> None then close_listener (lost_env lost en a) a r s else s"
  have "re_lost (lost_env lost en a)" using Cons.prems by (simp add: lost_env_lost)
  then have "no_new_retry s ?t" using lost_listener_retries no_new_refl by simp
  moreover have "no_new_retry ?t (close_streams lost en as r ?t)" using Cons by simp
  ultimately have "no_new_retry s (close_streams lost en as r ?t)" by (rule no_new_trans)
  then show ?case by (simp add: close_streams_def)
qed (simp add: close_streams_def no_new_refl)

lemma lose_pane_retries:
  assumes "pn_socket (tr_panes s a) = None \<or> lost a"
  shows "no_new_retry s (lose_pane lost en r s a)"
proof -
  have 1: "no_new_retry s (upd_pane a f s)" for f by (simp add: no_new_same)
  have "no_new_retry s (lose_socket lost en r a s)"
  proof (cases "lost a")
    case True
    have 2: "no_new_retry t (close_listener (lost_env lost en a) a x t)" for x t by (rule lost_listener_retries) (simp add: lost_env_lost True)
    show ?thesis using no_new_trans [OF 1 2] by (simp add: lose_socket_def Let_def no_new_refl)
  next
    case False
    then show ?thesis using assms by (simp add: lose_socket_def Let_def no_new_refl)
  qed
  then show ?thesis by (simp add: lose_pane_def show_lost_def Let_def no_new_retry_def has_retry_def)
qed

lemma mark_retries: "no_new_retry s (mark_reason r s)"
  unfolding mark_reason_def by (rule no_new_foldl) (simp add: no_new_same)

lemma ut_close_runtime:
  "ut_runtime (snd (ut_close en reason s)) = (let r = or_text reason ''context_changed''; rt = mark_reason r (ut_runtime s) in
     case ut_connection s of None \<Rightarrow> rt
     | Some c \<Rightarrow> close_streams (pane_lost (s\<lparr>ut_closed := c # ut_closed s\<rparr>)) en (streams_on en c s) r rt)"
  by (simp add: ut_close_def Let_def pane_lost_def [abs_def] streams_on_def split: option.split)

lemma retire_runtime: "ut_runtime (retire_connection en c s) = ut_runtime s" "ut_carrier (retire_connection en c s) = ut_carrier s"
  "ut_closed (retire_connection en c s) = c # ut_closed s" "ut_next (retire_connection en c s) = ut_next s"
  by (simp_all add: retire_connection_def Let_def)

lemma retire_lost: "pane_lost (retire_connection en c s) = pane_lost (s\<lparr>ut_closed := c # ut_closed s\<rparr>)"
  by (simp add: pane_lost_def [abs_def] retire_runtime cong: option.case_cong)

lemma schedule_carrier [simp]: "ut_carrier (snd (schedule_recovery r s)) = ut_carrier s"
  by (simp add: schedule_recovery_def Let_def)

lemma disconnect_runtime:
  "ut_runtime (snd (handle_disconnect en c reason shut s)) = (if c \<in> set (ut_closed s) then ut_runtime s
     else let r = or_text reason ''unified_transport_closed''; lost = pane_lost (s\<lparr>ut_closed := c # ut_closed s\<rparr>);
         rt = foldl (lose_pane lost en r) (ut_runtime s) (rt_sessions (ut_runtime s))
       in if shut then close_streams lost en (streams_on en c s) r rt else rt)"
proof -
  have sch: "ut_runtime (snd (schedule_recovery r t)) = ut_runtime t" for r t
    using schedule_recovery_fields(3) by (metis prod.collapse)
  have w: "pane_lost (with_runtime f t) = pane_lost t" for f t by (simp add: pane_lost_def [abs_def] cong: option.case_cong)
  show ?thesis by (simp add: handle_disconnect_def Let_def sch retire_runtime retire_lost w streams_on_def)
qed

text \<open>The transport's own operations never give out a channel.\<close>

lemma shrinks_refl: "shrinks s s"
  by (simp add: shrinks_same)

lemma close_streams_shrinks: "shrinks s (close_streams lost en as r s)"
  unfolding close_streams_def by (rule shrinks_foldl) (simp add: close_shrinks shrinks_refl)

lemma lose_pane_shrinks: "shrinks s (lose_pane lost en r s a)"
proof -
  let ?u = "upd_pane a (pn_reason_update (\<lambda>_. r)) s"
  have "shrinks s (close_listener (lost_env lost en a) a x ?u)" for x
    by (rule shrinks_trans [OF _ close_shrinks]) (simp add: shrinks_same)
  then have "shrinks s (lose_socket lost en r a s)" by (simp add: lose_socket_def Let_def shrinks_refl)
  moreover have "shrinks t (show_lost r a t)" for t by (simp add: show_lost_def Let_def shrinks_same)
  ultimately show ?thesis unfolding lose_pane_def by (rule shrinks_trans)
qed

lemma mark_shrinks: "shrinks s (mark_reason r s)"
  unfolding mark_reason_def by (rule shrinks_foldl) (simp add: shrinks_same)

lemma lose_panes_shrink: "shrinks s (foldl (lose_pane lost en r) s as)"
  by (rule shrinks_foldl) (rule lose_pane_shrinks)

definition calm_step :: "transport \<Rightarrow> transport \<Rightarrow> bool" where
  "calm_step s t = (shrinks (ut_runtime s) (ut_runtime t) \<and> ut_carrier t = ut_carrier s \<and> ut_next s \<le> ut_next t)"

lemma calm_trans: "calm_step s t \<Longrightarrow> calm_step t u \<Longrightarrow> calm_step s u"
  unfolding calm_step_def by (metis shrinks_trans le_trans)

lemma calm_same: "\<lbrakk>ut_runtime t = ut_runtime s; ut_carrier t = ut_carrier s; ut_next s \<le> ut_next t\<rbrakk> \<Longrightarrow> calm_step s t"
  by (simp add: calm_step_def shrinks_refl)

lemma close_carrier [simp]: "ut_carrier (snd (ut_close en r s)) = ut_carrier s" "ut_next (snd (ut_close en r s)) = ut_next s"
  by (simp_all add: ut_close_def Let_def split: option.split)

lemma disconnect_carrier [simp]: "ut_carrier (snd (handle_disconnect en c r shut s)) = ut_carrier s"
  "ut_next (snd (handle_disconnect en c r shut s)) = ut_next s"
  by (simp_all add: handle_disconnect_def Let_def retire_runtime)

lemma calm_close: "calm_step s (snd (ut_close en r s))"
  using mark_shrinks shrinks_trans [OF mark_shrinks close_streams_shrinks] by (simp add: calm_step_def ut_close_runtime Let_def split: option.split)

lemma calm_disconnect: "calm_step s (snd (handle_disconnect en c reason shut s))"
  using lose_panes_shrink shrinks_trans [OF lose_panes_shrink close_streams_shrinks]
  by (simp add: calm_step_def disconnect_runtime Let_def shrinks_refl)

lemma calm_schedule: "calm_step s (snd (schedule_recovery r s))"
  using schedule_recovery_fields(3) [of r s] by (intro calm_same) (simp_all add: prod_eq_iff)

lemma calm_connection: "calm_step s (close_connection en c r s)"
  by (simp add: calm_step_def close_streams_shrinks)

lemma calm_callback: "calm_step s (health_out en c s x)"
  by (cases c; cases x) (simp_all add: calm_disconnect calm_connection calm_schedule calm_same)

lemma calm_check: "calm_step s (snd (run_check check en reason s))"
proof -
  have "calm_step t (foldl (health_out en c) t xs)" for t c xs
  proof (induction xs arbitrary: t)
    case (Cons x xs)
    show ?case using calm_trans [OF calm_callback Cons.IH] by simp
  qed (simp add: calm_same)
  note outs = this
  have "calm_step s (s\<lparr>ut_watchdog := w\<rparr>)" for w by (rule calm_same) simp_all
  then have "calm_step s (foldl (health_out en c) (s\<lparr>ut_watchdog := w\<rparr>) xs)" for c xs w
    using outs by (rule calm_trans)
  then show ?thesis by (simp add: run_check_def calm_same split: option.split prod.split)
qed

lemma calm_sync: "calm_step s (with_runtime (\<lambda>rt. snd (schedule_unified_sync rt)) s)"
  by (simp add: calm_step_def timers_shrink)

lemma calm_ensure: "calm_step s (snd (ut_ensure en name s))"
  by (auto simp: ut_ensure_def Let_def calm_same calm_close start_watchdog_def split: option.split)

lemma calm_state: "calm_step s (state_changes en c state ready s)"
proof (cases "ut_connection s = Some c")
  case False
  then show ?thesis by (simp add: state_changes_def calm_same)
next
  case True
  let ?s1 = "s\<lparr>ut_seen := (ut_seen s)(c := (state, ready))\<rparr>"
  define s2 where "s2 = (if num_eq state socket_connecting \<or> num_eq state socket_open then ?s1\<lparr>ut_watchdog := map_option uh_start_timer (ut_watchdog ?s1)\<rparr> else ?s1)"
  define sync where "sync = with_runtime (\<lambda>rt. snd (schedule_unified_sync rt))"
  define s3 where "s3 = (if num_eq state socket_open \<and> \<not> num_eq (fst (ut_seen s c)) socket_open then sync (snd (run_check uh_probe en ''transport_open'' s2)) else s2)"
  define s4 where "s4 = (if ready \<and> \<not> snd (ut_seen s c) then sync (snd (run_check uh_probe en ''agent_ready'' s3)) else s3)"
  have sy: "calm_step t (sync (snd (run_check check en r t)))" for check r t unfolding sync_def by (rule calm_trans [OF calm_check calm_sync])
  have q2: "calm_step s s2" by (rule calm_same) (simp_all add: s2_def)
  have q3: "calm_step s s3" using calm_trans [OF q2 sy] q2 by (simp add: s3_def)
  have q4: "calm_step s s4" using calm_trans [OF q3 sy] q3 by (simp add: s4_def)
  have "state_changes en c state ready s = (if num_eq state socket_closed \<and> ut_expected s4 = [] \<and> c \<notin> set (ut_closed s4)
      then snd (handle_disconnect en c ''unified_transport_closed'' False s4) else s4)"
    using True unfolding state_changes_def Let_def s4_def s3_def s2_def sync_def by simp
  then show ?thesis using q4 calm_trans [OF q4 calm_disconnect] by simp
qed

lemma calm_starts: "calm_step s (recovery_starts en s)"
proof -
  have "calm_step s (snd (ut_close en r t))" if "ut_runtime t = ut_runtime s" "ut_carrier t = ut_carrier s" "ut_next t = ut_next s" for r t
    by (rule calm_trans [OF calm_same calm_close]) (simp_all add: that)
  then show ?thesis by (simp add: recovery_starts_def Let_def calm_step_def shrinks_refl split: list.split)
qed

lemma calm_resumes: "calm_step s (recovery_resumes en fails s)"
proof -
  have ends: "calm_step t (recovery_ends en t)" for t
    by (simp add: recovery_ends_def Let_def calm_same calm_trans [OF calm_same calm_schedule])
  have via: "calm_step s (recovery_ends en t)" if "calm_step s t" for t by (rule calm_trans [OF that ends])
  have ref: "calm_step s t" if "ut_runtime t = snd (rt_refresh (ue_rt en) None (ut_runtime s))" "ut_carrier t = ut_carrier s" "ut_next t = ut_next s" for t
    by (simp add: calm_step_def that refresh_shrinks)
  let ?s1 = "s\<lparr>ut_waits := None, ut_expected := []\<rparr>"
  let ?s2 = "ut_tell MembershipRefreshed (with_runtime (\<lambda>rt. snd (rt_refresh (ue_rt en) None rt)) ?s1)"
  let ?s3 = "ut_tell RecoveryFailed ?s2"
  have "calm_step s s" by (rule calm_same) simp_all
  moreover have "calm_step s (recovery_ends en ?s1)" by (rule via [OF calm_same]) simp_all
  moreover have "calm_step s (recovery_ends en (ut_tell SessionsReconnected ?s2))" "calm_step s (recovery_ends en ?s3)"
    "calm_step s (recovery_ends en (?s3\<lparr>ut_retry_timer := ue_timers en\<rparr>))" by (intro via ref; simp)+
  ultimately show ?thesis unfolding recovery_resumes_def Let_def by presburger
qed

lemma calm_event: "(case e of UtRuntime x \<Rightarrow> False | _ \<Rightarrow> True) \<Longrightarrow> calm_step s (ut_step s e)"
proof (cases e)
  case (UtPrepare en name)
  have "calm_step s (snd (ut_close en r (snd (ut_ensure en (js_trim name) s))))" for r by (rule calm_trans [OF calm_ensure calm_close])
  then show ?thesis using UtPrepare calm_ensure [of s en "js_trim name"]
    by (auto simp: ut_prepare_def Let_def calm_same split: prod.split ut_answer.split)
next
  case (UtCancel en prepared reason)
  then show ?thesis by (simp add: cancel_prepared_def calm_close calm_same split: option.split)
next
  case UtRetryTimer
  have "calm_step s (snd (schedule_recovery r (s\<lparr>ut_retry_timer := False\<rparr>)))" for r by (rule calm_trans [OF calm_same calm_schedule]) simp_all
  then show ?thesis using UtRetryTimer by (simp add: recovery_timer_fires_def calm_same)
next
  case (UtFence f)
  then show ?thesis by (simp add: fence_settles_def calm_same split: option.split)
next
  case (UtError en c)
  then show ?thesis by (simp add: physical_error_def calm_same calm_disconnect)
next
  case (UtPhysicalClose en c reason)
  have "calm_step t (with_runtime (close_streams lost en as reason) t)" for t lost as by (simp add: calm_step_def close_streams_shrinks)
  then have "calm_step s (with_runtime (close_streams lost en as reason) (snd (handle_disconnect en c x False s)))"
    "calm_step s (with_runtime (close_streams lost en as reason) s)" for x lost as
    using calm_trans [OF calm_disconnect] by blast+
  then show ?thesis using UtPhysicalClose by (simp add: physical_close_def Let_def)
next
  case (UtClosedSettles en c)
  then show ?thesis by (simp add: closed_settles_def calm_same calm_disconnect)
next
  case (UtTick en)
  then show ?thesis by (simp add: watch_tick_def calm_same calm_check split: option.split)
next
  case (UtProbe en reason)
  then show ?thesis using calm_check [of s uh_probe en reason] by (auto simp: ut_probe_def calm_same split: prod.split)
next
  case (UtRetryUnavailable en reason)
  then show ?thesis by (simp add: retry_unavailable_def calm_same calm_schedule)
next
  case (UtDispose en reason)
  have "calm_step s (snd (ut_close en reason (s\<lparr>ut_retry_timer := False\<rparr>)))" by (rule calm_trans [OF calm_same calm_close]) simp_all
  then show ?thesis using UtDispose by (simp add: ut_dispose_def calm_step_def shrinks_refl)
qed (simp_all add: calm_ensure calm_close calm_schedule calm_starts calm_resumes calm_state calm_same)

lemma ut_gens: "gens_ok (ut_runtime s) \<Longrightarrow> gens_ok (ut_runtime (ut_step s e))"
proof (cases "case e of UtRuntime x \<Rightarrow> False | _ \<Rightarrow> True")
  case True
  assume "gens_ok (ut_runtime s)"
  then show ?thesis by (rule shrinks_gens [OF conjunct1 [OF calm_event [OF True, unfolded calm_step_def]]])
next
  case False
  assume "gens_ok (ut_runtime s)"
  then have "gens_ok (runtime_step (ut_runtime s) x)" for x by (rule runtime_step_gens)
  then show ?thesis using False \<open>gens_ok (ut_runtime s)\<close> by (cases e) (auto simp del: runtime_step.simps simp: install_socket_def split: rt_event.split option.split)
qed

interpretation ugm: invariant_machine ut_step "\<lambda>s. gens_ok (ut_runtime s)"
  by standard (rule ut_gens)

subsection \<open>The connection of each socket\<close>

text \<open>A pane has a socket only if a connection carried it, and a connection that carries a pane was made.\<close>

definition carried :: "transport \<Rightarrow> bool" where
  "carried s = ((\<forall>a. ut_carrier s a = None \<longrightarrow> pn_socket (tr_panes (ut_runtime s) a) = None) \<and> (\<forall>a c. ut_carrier s a = Some c \<longrightarrow> c < ut_next s))"

lemma calm_carried: "\<lbrakk>calm_step s t; carried s\<rbrakk> \<Longrightarrow> carried t"
  using order_less_le_trans shrinks_sockets [of "ut_runtime s" "ut_runtime t"] unfolding carried_def calm_step_def keeps_sockets_def by metis

lemma step_carried:
  assumes i: "ut_inv s" and c: "carried s"
  shows "carried (ut_step s e)"
proof (cases "case e of UtRuntime x \<Rightarrow> False | _ \<Rightarrow> True")
  case True
  then show ?thesis by (rule calm_carried [OF calm_event c])
next
  case False
  then obtain x where e: "e = UtRuntime x" by (cases e) auto
  show ?thesis
  proof (cases "\<exists>a k. x = RtSocket a k")
    case True
    then obtain a k where x: "x = RtSocket a k" by blast
    show ?thesis
    proof (cases "ut_connection s")
      case (Some d)
      have "(\<forall>b. ((ut_carrier s)(a := Some d)) b = None \<longrightarrow> pn_socket (tr_panes (runtime_step (ut_runtime s) x) b) = None)
        \<and> (\<forall>b d'. ((ut_carrier s)(a := Some d)) b = Some d' \<longrightarrow> d' < ut_next s)"
        using c connection_facts(1) [OF i Some] by (simp add: x carried_def)
      then show ?thesis using c Some unfolding e x ut_step.simps rt_event.case install_socket_def by (simp add: carried_def)
    qed (use c in \<open>simp add: e x install_socket_def\<close>)
  next
    case False
    then have k: "keeps_sockets (ut_runtime s) (runtime_step (ut_runtime s) x)" by (intro runtime_step_sockets) blast
    have "ut_step s e = with_runtime (\<lambda>rt. runtime_step rt x) s" using False by (cases x) (simp_all add: e)
    then show ?thesis using c k by (simp add: carried_def keeps_sockets_def)
  qed
qed

interpretation ucm: invariant_machine ut_step "\<lambda>s. ut_inv s \<and> carried s"
  by standard (simp add: ut_step_inv step_carried)

lemma ut_run_carried: "carried (ut_run (rt_start info tabs active_tab target) es)"
proof -
  have "carried (ut_start (rt_start info tabs active_tab target))" by (simp add: carried_def ut_start_def rt_start_def)
  then have "ut_inv (ut_run (rt_start info tabs active_tab target) es) \<and> carried (ut_run (rt_start info tabs active_tab target) es)"
    unfolding ut_run_def by (intro ucm.inv_run) (simp add: ut_start_inv)
  then show ?thesis by blast
qed

text \<open>Once the connection that stands is among the closed ones, every socket is a lost one.\<close>

lemma all_lost:
  assumes "ut_inv s" "carried s" "ut_connection s = Some c"
  shows "pn_socket (tr_panes (ut_runtime s) a) = None \<or> pane_lost (s\<lparr>ut_closed := c # ut_closed s\<rparr>) a"
proof (cases "ut_carrier s a")
  case None
  then have "pn_socket (tr_panes (ut_runtime s) a) = None" using assms(2) by (simp add: carried_def)
  then show ?thesis ..
next
  case (Some d)
  then have "d < ut_next s" using assms(2) by (simp add: carried_def)
  then show ?thesis using Some connection_facts(2) [OF assms(1,3)] by (auto simp: pane_lost_def)
qed

lemma lose_panes_retries:
  "(\<And>a. pn_socket (tr_panes s a) = None \<or> lost a) \<Longrightarrow> no_new_retry s (foldl (lose_pane lost en r) s as)"
proof (induction as arbitrary: s)
  case (Cons a as)
  let ?t = "lose_pane lost en r s a"
  have "keeps_sockets s ?t" by (rule shrinks_sockets [OF lose_pane_shrinks])
  then have "pn_socket (tr_panes ?t b) = None \<or> lost b" for b using Cons.prems [of b] unfolding keeps_sockets_def by blast
  then have "no_new_retry ?t (foldl (lose_pane lost en r) ?t as)" by (rule Cons.IH)
  then have "no_new_retry s (foldl (lose_pane lost en r) ?t as)" by (rule no_new_trans [OF lose_pane_retries [OF Cons.prems]])
  then show ?case by simp
qed (simp add: no_new_refl)

lemma streams_lost: "c \<in> set (ut_closed s) \<Longrightarrow> list_all (pane_lost s) (streams_on en c s)"
  by (auto simp: list_all_iff streams_on_def pane_lost_def)

lemma close_retries: "no_new_retry (ut_runtime s) (ut_runtime (snd (ut_close en reason s)))"
proof (cases "ut_connection s")
  case (Some c)
  let ?s = "s\<lparr>ut_closed := c # ut_closed s\<rparr>"
  have "list_all (pane_lost ?s) (streams_on en c ?s)" by (rule streams_lost) simp
  then have "list_all (pane_lost ?s) (streams_on en c s)" by (simp add: streams_on_def)
  then show ?thesis using Some by (simp add: ut_close_runtime Let_def no_new_trans [OF mark_retries close_streams_retries])
qed (simp add: ut_close_runtime Let_def mark_retries)

lemma disconnect_retries:
  assumes "ut_inv s" "carried s" "ut_connection s = Some c"
  shows "no_new_retry (ut_runtime s) (ut_runtime (snd (handle_disconnect en c reason shut s)))"
proof -
  let ?s = "s\<lparr>ut_closed := c # ut_closed s\<rparr>"
  have 1: "no_new_retry (ut_runtime s) (foldl (lose_pane (pane_lost ?s) en r) (ut_runtime s) as)" for r as
    by (rule lose_panes_retries) (rule all_lost [OF assms])
  have "list_all (pane_lost ?s) (streams_on en c ?s)" by (rule streams_lost) simp
  then have "list_all (pane_lost ?s) (streams_on en c s)" by (simp add: streams_on_def)
  then show ?thesis using 1 no_new_trans [OF 1 close_streams_retries] no_new_refl by (simp add: disconnect_runtime Let_def)
qed

lemma calm_invs: "\<lbrakk>calm_step s t; carried s; ut_inv t\<rbrakk> \<Longrightarrow> ut_inv t \<and> carried t"
  using calm_carried by blast

lemma disconnect_closed: "c \<in> set (ut_closed (snd (handle_disconnect en c reason shut s)))"
proof -
  have "ut_closed (snd (schedule_recovery r t)) = ut_closed t" for r t by (simp add: schedule_recovery_def Let_def)
  then show ?thesis by (simp add: handle_disconnect_def Let_def retire_runtime)
qed

lemma schedule_runtime [simp]: "ut_runtime (snd (schedule_recovery r s)) = ut_runtime s"
  by (simp add: schedule_recovery_def Let_def)

text \<open>What a check of the watchdog can ask for.\<close>

lemma check_outs:
  "uh_check cfg paused reason now v h = (res, outs, h1) \<Longrightarrow> outs = [] \<or> outs = [OutPing] \<or> (\<exists>r. outs = [OutDisconnected r]) \<or> (\<exists>r. outs = [OutUnhealthy r])
     \<or> (\<exists>r q xs. outs = OutUnhealthy r # OutClose q # xs \<and> list_all (\<lambda>x. \<exists>r. x = OutDisconnected r) xs)"
  by (auto simp: uh_check_def uh_check_open_def close_unhealthy_def Let_def split: option.splits if_splits)

lemma probe_outs:
  "uh_probe cfg paused reason now v h = (res, outs, h1) \<Longrightarrow> outs = [] \<or> outs = [OutPing] \<or> (\<exists>r. outs = [OutDisconnected r]) \<or> (\<exists>r. outs = [OutUnhealthy r])
     \<or> (\<exists>r q xs. outs = OutUnhealthy r # OutClose q # xs \<and> list_all (\<lambda>x. \<exists>r. x = OutDisconnected r) xs)"
  unfolding uh_probe_def by (rule check_outs)

lemma run_check_retries:
  assumes i: "ut_inv s" "carried s"
    and outs: "\<And>cfg paused now v h res outs h1. check cfg paused reason now v h = (res, outs, h1) \<Longrightarrow> outs = [] \<or> outs = [OutPing]
      \<or> (\<exists>r. outs = [OutDisconnected r]) \<or> (\<exists>r. outs = [OutUnhealthy r]) \<or> (\<exists>r q xs. outs = OutUnhealthy r # OutClose q # xs \<and> list_all (\<lambda>x. \<exists>r. x = OutDisconnected r) xs)"
  shows "no_new_retry (ut_runtime s) (ut_runtime (snd (run_check check en reason s)))"
proof (cases "ut_watchdog s")
  case None
  then show ?thesis by (simp add: run_check_def no_new_refl)
next
  case (Some h)
  let ?v = "case uh_connection h of None \<Rightarrow> ue_view en 0 | Some c \<Rightarrow> ue_view en c"
  obtain action why outs h1 where c: "check watch_config (\<not> ut_alive s) reason (ue_now en) ?v h = ((action, why), outs, h1)" by (metis surj_pair)
  let ?t = "s\<lparr>ut_watchdog := Some h1\<rparr>"
  have t: "snd (run_check check en reason s) = foldl (health_out en (uh_connection h)) ?t outs" using Some c by (simp add: run_check_def)
  show ?thesis
  proof (cases "uh_connection h")
    case None
    then have "ut_runtime (health_out en (uh_connection h) u x) = ut_runtime u" for u x by (cases x) simp_all
    then have "ut_runtime (foldl (health_out en (uh_connection h)) u xs) = ut_runtime u" for u xs by (induction xs arbitrary: u) simp_all
    then show ?thesis unfolding t by (simp add: no_new_refl)
  next
    case (Some d)
    then have con: "ut_connection s = Some d" using i(1) \<open>ut_watchdog s = Some h\<close> by (simp add: ut_inv_def watch_ok_def)
    let ?u = "\<lambda>r. snd (handle_disconnect en d r False ?t)"
    have rt: "ut_runtime (?u r) = ut_runtime (snd (handle_disconnect en d r False s))" for r
      by (simp add: disconnect_runtime Let_def pane_lost_def [abs_def] cong: option.case_cong)
    have 1: "no_new_retry (ut_runtime s) (ut_runtime (?u r))" for r unfolding rt by (rule disconnect_retries [OF i con])
    have "list_all (pane_lost (?u r)) (streams_on en d (?u r))" for r by (rule streams_lost [OF disconnect_closed])
    then have 2: "no_new_retry (ut_runtime s) (ut_runtime (close_connection en d q (?u r)))" for r q
      using no_new_trans [OF 1 close_streams_retries] by simp
    have 3: "ut_runtime (foldl (health_out en (Some d)) u xs) = ut_runtime u" if "list_all (\<lambda>x. \<exists>r. x = OutDisconnected r) xs" for u xs
      using that by (induction xs arbitrary: u) auto
    show ?thesis using outs [OF c] 1 2 Some con unfolding t by (auto simp: no_new_refl 3)
  qed
qed

lemma physical_close_retries:
  assumes "ut_inv s" "carried s"
  shows "no_new_retry (ut_runtime s) (ut_runtime (physical_close en c reason s))"
proof -
  let ?s1 = "if ut_connection s = Some c \<and> ut_expected s = [] then snd (handle_disconnect en c (or_text reason ''unified_websocket_closed'') False s) else s"
  have "no_new_retry (ut_runtime s) (ut_runtime ?s1)" using disconnect_retries [OF assms] no_new_refl by simp
  moreover have "list_all (pane_lost ?s1) (streams_on en c ?s1)"
  proof (cases "ut_connection s = Some c")
    case True
    then show ?thesis using connection_facts(3) [OF assms(1) True] streams_lost [OF disconnect_closed] by simp
  next
    case False
    have "c \<in> set (ut_closed s)" if "c < ut_next s"
      using that False assms(1) by (cases "ut_connection s") (auto simp: ut_inv_def connection_ok_def)
    moreover have "c < ut_next s" if "ut_carrier s a = Some c" for a using that assms(2) by (simp add: carried_def)
    ultimately show ?thesis using False by (auto simp: list_all_iff streams_on_def pane_lost_def)
  qed
  then have "no_new_retry (ut_runtime ?s1) (close_streams (pane_lost ?s1) en (streams_on en c ?s1) reason (ut_runtime ?s1))"
    by (rule close_streams_retries)
  ultimately have "no_new_retry (ut_runtime s) (close_streams (pane_lost ?s1) en (streams_on en c ?s1) reason (ut_runtime ?s1))" by (rule no_new_trans)
  then show ?thesis unfolding physical_close_def Let_def with_runtime_fields .
qed

lemma dispose_retries: "no_new_retry (ut_runtime s) (ut_runtime (snd (ut_dispose en reason s)))"
  using close_retries [of "s\<lparr>ut_retry_timer := False\<rparr>" en reason] by (simp add: ut_dispose_def no_new_refl)

lemma tick_retries: "\<lbrakk>ut_inv s; carried s\<rbrakk> \<Longrightarrow> no_new_retry (ut_runtime s) (ut_runtime (watch_tick en s))"
  using run_check_retries [OF _ _ check_outs] by (simp add: watch_tick_def no_new_refl split: option.split)

lemma closed_state:
  "ut_connection s = Some c \<Longrightarrow> ut_expected s = [] \<Longrightarrow> c \<notin> set (ut_closed s) \<Longrightarrow> state_changes en c socket_closed False s
     = snd (handle_disconnect en c ''unified_transport_closed'' False (s\<lparr>ut_seen := (ut_seen s)(c := (socket_closed, False))\<rparr>))"
  by (simp add: state_changes_def Let_def num_eq_def socket_closed_def socket_open_def socket_connecting_def)

lemma closed_state_retries:
  assumes "ut_inv s" "carried s"
  shows "no_new_retry (ut_runtime s) (ut_runtime (state_changes en c socket_closed False s))"
proof (cases "ut_connection s = Some c")
  case True
  let ?t = "s\<lparr>ut_seen := (ut_seen s)(c := (socket_closed, False))\<rparr>"
  note f = connection_facts [OF assms(1) True]
  have "ut_inv ?t" "carried ?t" using assms ut_inv_cong [of ?t s] by (simp_all add: carried_def)
  then have "no_new_retry (ut_runtime ?t) (ut_runtime (snd (handle_disconnect en c ''unified_transport_closed'' False ?t)))"
    using True by (intro disconnect_retries) simp_all
  then show ?thesis using closed_state [OF True] f(2,3) by simp
qed (simp add: state_changes_def no_new_refl)

subsection \<open>The properties\<close>

text \<open>
  C11. There is one physical connection at most: whatever happens, every connection ever made but the one that stands is
  among the closed ones, and while one stands no other is being closed.
\<close>

theorem one_physical_connection:
  "case ut_connection (ut_run rt es) of None \<Rightarrow> set (ut_closed (ut_run rt es)) = {..<ut_next (ut_run rt es)}
   | Some c \<Rightarrow> c < ut_next (ut_run rt es) \<and> set (ut_closed (ut_run rt es)) = {..<ut_next (ut_run rt es)} - {c} \<and> ut_fence (ut_run rt es) = None"
  using ut_run_inv [of rt es] by (auto simp: ut_inv_def connection_ok_def split: option.splits)


text \<open>
  C13. A recovery comes to its end: scheduled while the page is online and neither it nor the owner is gone, once its
  microtask runs, the fence settles and the continuation runs, the runtime was told to refresh its membership, nothing
  stands in the way of a new connection, and if reconnecting the sessions raised, the retry timer is set (where there are timers
  and a target is active).
\<close>

theorem recovery_completes:
  "if ut_scheduled (ut_run rt es) \<and> ut_alive (ut_run rt es)
   then (case recovery_run en fails (ut_run rt es) of t \<Rightarrow> ut_running t = False \<and> ut_fence t = None \<and> ut_connection t = None \<and> ut_expected t = []
     \<and> ut_alive t \<and> MembershipRefreshed \<in> set (ut_outs t)
     \<and> (if fails \<and> ue_timers en \<and> 0 < length (tr_active_name (ut_runtime (ut_run rt es))) then ut_retry_timer t else True))
   else True"
proof (cases "ut_scheduled (ut_run rt es) \<and> ut_alive (ut_run rt es)")
  case True
  then have go: "ut_scheduled (ut_run rt es)" "ut_alive (ut_run rt es)" by simp_all
  note f = recovery_result [OF ut_run_inv go refl, where en = en and fails = fails]
  obtain before where "ut_outs (recovery_run en fails (ut_run rt es)) = before @ [MembershipRefreshed, if fails then RecoveryFailed else SessionsReconnected]"
    using f(6) by blast
  then show ?thesis using True f(1-5,7) by simp
next
  case False
  show ?thesis unfolding if_not_P [OF False] by (rule TrueI)
qed


text \<open>
  C14. A lost connection is not left alone: in every state that is reached without a connection but with the watchdog's timer
  running, a tick of the timer schedules a recovery or finds one running, while the page is online and neither it nor the
  owner is gone. Otherwise the watchdog is paused, and the tick changes nothing.
\<close>

theorem watch_retries_lost_connection:
  "case (ut_connection (ut_run rt es), ut_watchdog (ut_run rt es)) of
     (None, Some h) \<Rightarrow> if uh_timer h
       then (if ut_alive (ut_run rt es) then ut_scheduled (ut_step (ut_run rt es) (UtTick en)) \<or> ut_running (ut_step (ut_run rt es) (UtTick en))
         else ut_step (ut_run rt es) (UtTick en) = ut_run rt es)
       else True
   | _ \<Rightarrow> True"
proof (cases "ut_connection (ut_run rt es) = None \<and> (\<exists>h. ut_watchdog (ut_run rt es) = Some h \<and> uh_timer h \<and> ut_alive (ut_run rt es))")
  case True
  let ?s = "ut_run rt es"
  obtain h where h: "ut_connection ?s = None" "ut_watchdog ?s = Some h" "uh_timer h" "ut_alive ?s" using True by blast
  have "uh_connection h = None" using ut_run_inv [of rt es] h(1,2) by (simp add: ut_inv_def watch_ok_def)
  then have "ut_step ?s (UtTick en) = snd (schedule_recovery (''unified_'' @ ''interval'' @ ''_missing'') (?s\<lparr>ut_watchdog := Some h\<rparr>))"
    using h by (simp add: watch_tick_def run_check_def uh_check_def)
  moreover have "ut_alive (?s\<lparr>ut_watchdog := Some h\<rparr>)" using h(4) by (simp add: ut_alive_def)
  ultimately have "ut_scheduled (ut_step ?s (UtTick en)) \<or> ut_running (ut_step ?s (UtTick en))"
    using schedule_recovery_fields(12) by (metis prod.collapse)
  then show ?thesis using h by simp
next
  case False
  have "ut_step s (UtTick en) = s" if "ut_watchdog s = Some h" "uh_timer h" "\<not> ut_alive s" for s h
    using that by (simp add: watch_tick_def run_check_def uh_check_def)
  then show ?thesis using False by (auto split: option.split)
qed

text \<open>C16. Losing, closing and recovering the connection never gives two panes the same channel, however the runtime's own events come in between.\<close>

theorem channels_stay_unique: "gens_ok (ut_runtime (ut_run (rt_start info tabs active_tab target) es))"
  unfolding ut_run_def by (rule ugm.inv_run) (simp add: ut_start_def gens_ok_start)

end
