(* ===== verification/Spec2Isabelle.thy ===== *)
theory Spec2Isabelle
  imports Replay_Controller Resize_Controller Resize_Scheduler Unified_Membership Unified_Health Connection_Scheduler Scheduler_Liveness Json
    Queue_Frame Fast_Integrity Queue_Connection Queue_Streams Layout_Tree Tab_Activation Workspace_Tabs Checkpoint Output_Text Replay_Batch
    Work_Scheduler Clipboard_Osc52 Mouse Selection Workspace_Target Workspace_Retry Workspace_Sync Tab_Order Workspace_Apply
    Connection_Watch Runtime_Timers Cell_Packet Remote_Terminal Output_Queue Session_Replay Replay_Liveness
    Terminal_Input Transport_Runtime Unified_Transport
begin

text \<open>
  LightOS WebShell, the JavaScript client (src/runtime/static): a verification library.

  The program. A browser page shows tabs of split panes; each pane is a terminal whose shell runs on
  a server. The page keeps a workspace (which tabs and panes exist, in which layout, which is
  active) in step with the server, opens transports to it (one socket per pane, or one queue socket
  that carries all of them), replays the history of a terminal into a fresh emulator, negotiates its
  size, and runs the emulator in a worker whose frames it draws. The code is a set of small factories
  that keep their state in closures and talk by callbacks; the theories model those factories one by
  one, as records with one function per callback, and compose them where the code does.

  Conventions. A factory's closure is a record, a handler is a function from state (and arguments) to
  state, an exception is a value of a sum or an option, and what a handler tells the outside world is
  appended to a log in the record or returned. Clock, random numbers, sockets, timers and the
  parts of the browser are arguments: a timer is a slot of the state and its firing an event. A
  component is then a step function over its events, and its theorems hold after every sequence of
  events. \<open>Map\<close> and \<open>Set\<close> are ordered association lists. \<open>JSON.parse\<close> and third-party code are
  parameters. Numbers are exact (rationals or naturals, with \<open>NaN\<close> and the infinities where the code
  can meet them); where the code works on bytes, words or masks the model does so on \<open>word\<close> values.

  Theories, by layer, with the files they model:
  \<^item> Prelude: ordered maps (locale \<open>ordered_map\<close>), state machines with an invariant (locale
    \<open>invariant_machine\<close>) and with a counter that makes old callbacks stale (locale
    \<open>generation_machine\<close>); the components interpret them on their own step functions. Js, Json: the
    JavaScript values and conversions.
  \<^item> History and size: Replay_Controller (history/terminal_replay_controller.js), Checkpoint
    (transport/checkpoint_transport.js, history/terminal_checkpoint.js), Replay_Batch
    (output/replay_batch.js), Resize_Controller (resize/terminal_resize_controller.js,
    terminal_size_sync.js, geometry_state.js), Resize_Scheduler (resize/terminal_resize_scheduler.js).
    Shown: a committed replay is gapless, a full one commits; a size is committed only after its
    acknowledgement; throttled requests are joined and delivered.
  \<^item> Transport: Queue_Frame, Fast_Integrity, Json (envelopes and checksums), Queue_Connection and
    Queue_Streams (transport/terminal_queue_connection.js), Unified_Membership, Unified_Health,
    Connection_Scheduler and Scheduler_Liveness (transport/terminal_connection_scheduler.js),
    Connection_Watch (transport/session_connection_lifecycle.js), Runtime_Timers
    (transport/transport_runtime_lifecycle.js). Shown: the bytes of a stream are delivered without
    gap, repetition or mixing; leases stay within capacity and no work is lost; reconciliation ends;
    dead peers are closed and only they are; an attach ends by its deadline.
  \<^item> Output: Output_Queue (output/output_controller.js, output_lifecycle.js, replay_batch.js), the queue
    between the socket and the parser; Session_Replay (transport/session_protocol_controller.js with the
    replay, recovery and exit controllers it calls), a pane's stream as a machine over its messages that
    drives the queue and the replay controller; Replay_Liveness, its progress. Shown: output is parsed
    whole, once and in order, within the bounds of the queue, and is never stranded; while no output was
    dropped, only parsed output is acknowledged; a replay is committed only when everything announced is parsed, and then is
    reported ready; binary output of another pane or stream is dropped; a replay that keeps failing stops until
    the user retries or a replay is completed after all (locale \<open>session_property\<close> carries what every event keeps).
  \<^item> Input: Terminal_Input (input/input_controller.js, input_lifecycle.js, input_model.js), pending list, buffer
    and queue of what the user types, and the answers the emulator generates. Shown: input is sent in order,
    whole and once, only to a ready terminal, and never stranded; generated answers are kept apart.
  \<^item> Transport runtime: Transport_Runtime (transport/transport_runtime_controller.js over Unified_Membership,
    Runtime_Timers and Layout_Tree), which panes have a stream and when. Shown: a reconciliation connects every
    member, holds it back for a stated reason or is repeated; the input pane comes first; the background restores of the
    last minute are bounded; channels are never shared; and two faults: a start that fails before its socket blocks its pane, and
    scheduling a retry raises. Unified_Transport (transport/unified_transport_controller.js) holds the physical
    connection under it, with its fence, watchdog and recovery, and has the runtime inside its state; it records for every
    pane the connection its socket was opened on, which decides whether a closed socket was lost with its connection. Shown: one
    connection stands at most; a loss is recovered whichever callback reports it, and the watchdog repeats that while the
    page is online; a recovery ends; closing adds no retries of single panes and never makes two panes share a channel.
  \<^item> Workspace: Layout_Tree, Workspace_Tabs, Tab_Activation, Tab_Order, Workspace_Target,
    Workspace_Retry, Workspace_Sync, Workspace_Apply (workspace/*.js; each theory names its files).
    Shown: an answer of the server is applied only when it is the newest of its target, the page
    then mirrors it, panes that stay keep their session, and the active tab exists.
  \<^item> The emulator's worker: Cell_Packet (backend/cell_packet.js) and Remote_Terminal
    (backend/remote_terminal.js). Shown: packing and unpacking agree; the incremental update of a
    frame equals the full one; a row that changed is repainted; every request settles once; the
    cached scrollback is the worker's.
  \<^item> Terminal services: Output_Text (output/output_model.js and the slicing of text that input/input_model.js shares),
    Work_Scheduler (scheduling/work_scheduler.js), Clipboard_Osc52, Mouse, Selection.

  Bounds and fuel. Loops are structural or have a termination proof; the rounds of the connection
  scheduler (\<open>cs_rounds\<close>) take fuel, and \<open>reconcile_rounds_end\<close> proves how much is enough. No other
  definition takes fuel.

  Not modelled, and why. The Go sources are another language. ghostty-web.js and vendor/ are
  third-party. The views, the DOM parts of the controllers, styles, the canvas renderer, the input
  method editor and i18n.js are browser input and output. global-runtime.js and main.js wire modules
  together. Of transport/session_protocol_controller.js the one-socket transport and the traces are left
  out; of resize/resize_controller.js everything but the gate it puts on the output. Still open: the
  decisions of resize/resize_controller.js, the settings, and the remaining workspace controllers.
\<close>

end
